(* ===== verification/Prelude.thy ===== *)
theory Prelude
  imports Main "HOL-Library.Word" "HOL-Library.Monad_Syntax"
begin

text \<open>
  Shared vocabulary of the development: the machine integer types of the C code, the
  collections of lemmas that the component proofs use, the reading of a C array cell, the
  arithmetic of ring buffers (which both the service mailbox and the packet queue use) and
  the interface \<open>fifo_queue\<close> of a first-in first-out queue.

  A C operation that may fail an assertion or read a cell that was never written is modelled
  with result type \<open>'a option\<close>: \<open>None\<close> is that failure.  That \<open>None\<close> is never reached
  from a well-formed state is then a theorem of the component.
\<close>

unbundle bit_operations_syntax

type_synonym u8 = "8 word"
type_synonym u16 = "16 word"
type_synonym u32 = "32 word"
type_synonym u64 = "64 word"
type_synonym addr = nat

named_theorems ring_simps \<open>arithmetic of ring buffers\<close>
named_theorems word_bytes \<open>conversion between words and their bytes\<close>

section \<open>Arrays\<close>

text \<open>
  \<open>malloc\<close> returns uninitialised memory, so a cell of a freshly allocated array holds
  \<open>None\<close> until it is written.  Reading such a cell, or a cell out of range, fails.
\<close>

definition read_cell :: "'a option list \<Rightarrow> nat \<Rightarrow> 'a option" where
  "read_cell xs i = (if i < length xs then xs ! i else None)"

definition write_cell :: "'a option list \<Rightarrow> nat \<Rightarrow> 'a \<Rightarrow> 'a option list option" where
  "write_cell xs i x = (if i < length xs then Some (xs[i := Some x]) else None)"

text \<open>A cell that was written when the array was made; only the index can be wrong.\<close>

definition array_get :: "'a list \<Rightarrow> nat \<Rightarrow> 'a option" where
  "array_get xs i = (if i < length xs then Some (xs ! i) else None)"

lemma array_get_in_range [simp]: "i < length xs \<Longrightarrow> array_get xs i = Some (xs ! i)"
  by (simp add: array_get_def)

lemma write_cell_Some [simp]: "i < length xs \<Longrightarrow> write_cell xs i x = Some (xs[i := Some x])"
  by (simp add: write_cell_def)

lemma read_cell_in_range [simp]: "i < length xs \<Longrightarrow> read_cell xs i = xs ! i"
  by (simp add: read_cell_def)

section \<open>Low bits of a word\<close>

text \<open>
  C masks an index with \<open>size - 1\<close> for a power of two \<open>size\<close>; that is the remainder.
\<close>

lemma unat_and_low_bits:
  "unat ((w :: 'a :: len word) AND of_nat (2 ^ k - 1)) = unat w mod 2 ^ k"
proof -
  have "(of_nat (2 ^ k - 1) :: 'a word) = mask k"
    by (simp add: mask_eq_exp_minus_1 of_nat_diff)
  then have "unat (w AND of_nat (2 ^ k - 1)) = unat (take_bit k w)"
    by (simp only: take_bit_eq_mask)
  also have "\<dots> = take_bit k (unat w)" by (rule unsigned_take_bit_eq)
  finally show ?thesis by (simp only: take_bit_eq_mod)
qed

lemmas bit_rules = bit_or_iff bit_and_iff bit_push_bit_iff bit_drop_bit_eq bit_mask_iff comp_def

lemma unat_drop_bit_div: "unat (drop_bit k (a :: 'a :: len word)) = unat a div 2 ^ k"
  by (rule unat_drop_bit_eq [THEN trans]) (rule drop_bit_eq_div)

lemma mod_mod_power2:
  "k \<le> n \<Longrightarrow> (x mod 2 ^ n) mod 2 ^ k = (x mod 2 ^ k :: nat)"
  by (simp add: mod_mod_cancel le_imp_power_dvd)

section \<open>Ring buffers\<close>

text \<open>
  A ring buffer of \<open>cap\<close> cells whose reader is at \<open>h\<close> and whose writer is at \<open>t\<close> holds
  \<open>ring_len cap h t\<close> elements, the cells \<open>h, h + 1, \<dots>\<close> modulo \<open>cap\<close>.
\<close>

definition ring_len :: "nat \<Rightarrow> nat \<Rightarrow> nat \<Rightarrow> nat" where
  "ring_len cap h t = (if h \<le> t then t - h else t + cap - h)"

definition ring_cells :: "'a list \<Rightarrow> nat \<Rightarrow> nat \<Rightarrow> nat \<Rightarrow> 'a list" where
  "ring_cells xs cap h n = map (\<lambda>i. xs ! ((h + i) mod cap)) [0..<n]"

definition ring_next :: "nat \<Rightarrow> nat \<Rightarrow> nat" where
  "ring_next cap i = (if i + 1 \<ge> cap then 0 else i + 1)"

lemma ring_len_same [ring_simps, simp]: "ring_len cap h h = 0"
  by (simp add: ring_len_def)

lemma ring_len_less [ring_simps]: "h < cap \<Longrightarrow> t < cap \<Longrightarrow> ring_len cap h t < cap"
  by (auto simp: ring_len_def)

lemma ring_len_0_iff [ring_simps]: "h < cap \<Longrightarrow> t < cap \<Longrightarrow> ring_len cap h t = 0 \<longleftrightarrow> h = t"
  by (auto simp: ring_len_def)

lemma ring_next_less [ring_simps]: "0 < cap \<Longrightarrow> ring_next cap i < cap"
  by (auto simp: ring_next_def)

lemma ring_next_mod: "i < cap \<Longrightarrow> ring_next cap i = (i + 1) mod cap"
  by (auto simp: ring_next_def mod_if)

lemma ring_tail_position: "h < cap \<Longrightarrow> t < cap \<Longrightarrow> (h + ring_len cap h t) mod cap = t"
  by (cases "h \<le> t") (simp_all add: ring_len_def)

text \<open>The cell under the writer is not one of those the ring holds.\<close>

lemma ring_position_not_tail:
  assumes "h < cap" and "t < cap" and "i < ring_len cap h t"
  shows "(h + i) mod cap \<noteq> t"
proof (cases "h \<le> t")
  case True
  then have "h + i < t" using assms by (simp add: ring_len_def)
  then show ?thesis using assms by simp
next
  case False
  then have i: "h + i < t + cap" using assms by (simp add: ring_len_def)
  show ?thesis
  proof (cases "h + i < cap")
    case True
    then show ?thesis using False by simp
  next
    case ge: False
    then have "(h + i) mod cap = h + i - cap" using i assms by (simp add: mod_if)
    then show ?thesis using i ge by linarith
  qed
qed

lemma ring_cells_0 [simp]: "ring_cells xs cap h 0 = []"
  by (simp add: ring_cells_def)

lemma length_ring_cells [simp]: "length (ring_cells xs cap h n) = n"
  by (simp add: ring_cells_def)

lemma ring_cells_Suc: "ring_cells xs cap h (Suc n) = ring_cells xs cap h n @ [xs ! ((h + n) mod cap)]"
  by (simp add: ring_cells_def)

lemma ring_cells_Cons:
  assumes "h < cap"
  shows "ring_cells xs cap h (Suc n) = xs ! h # ring_cells xs cap ((h + 1) mod cap) n"
proof -
  have "ring_cells xs cap h (Suc n) = xs ! (h mod cap) # map (\<lambda>i. xs ! ((h + Suc i) mod cap)) [0..<n]"
    by (simp add: ring_cells_def upt_conv_Cons map_Suc_upt [symmetric] del: upt_Suc)
  moreover have "(h + Suc i) mod cap = ((h + 1) mod cap + i) mod cap" for i
    by (simp add: mod_add_left_eq)
  ultimately show ?thesis using assms by (simp add: ring_cells_def)
qed

lemma ring_cells_update_outside:
  assumes "h < cap" and "t < cap" and "n \<le> ring_len cap h t"
  shows "ring_cells (xs[t := x]) cap h n = ring_cells xs cap h n"
proof -
  have "xs[t := x] ! ((h + i) mod cap) = xs ! ((h + i) mod cap)" if "i < n" for i
    by (rule nth_list_update_neq [OF not_sym], rule ring_position_not_tail) (use assms that in auto)
  then show ?thesis by (simp add: ring_cells_def)
qed

lemma ring_cells_push:
  assumes "h < cap" and "t < cap" and "length xs = cap"
  shows "ring_cells (xs[t := x]) cap h (Suc (ring_len cap h t)) =
    ring_cells xs cap h (ring_len cap h t) @ [x]"
  using assms by (simp add: ring_cells_Suc ring_cells_update_outside ring_tail_position)

lemma ring_len_next_tail:
  assumes "h < cap" and "t < cap" and "h \<noteq> ring_next cap t"
  shows "ring_len cap h (ring_next cap t) = Suc (ring_len cap h t)"
  using assms by (auto simp: ring_len_def ring_next_def split: if_splits)

lemma ring_len_full:
  assumes "h < cap" and "t < cap" and "h = ring_next cap t"
  shows "Suc (ring_len cap h t) = cap"
  using assms by (auto simp: ring_len_def ring_next_def split: if_splits)

lemma ring_len_next_head:
  assumes "h < cap" and "t < cap" and "h \<noteq> t"
  shows "ring_len cap h t = Suc (ring_len cap (ring_next cap h) t)"
  using assms by (auto simp: ring_len_def ring_next_def split: if_splits)

lemma ring_cells_full_from_0:
  "length xs = cap \<Longrightarrow> ring_cells (xs @ ys) (cap + length ys) 0 cap = xs"
  by (auto simp: ring_cells_def nth_append intro!: nth_equalityI)

section \<open>First-in first-out queues\<close>

datatype 'a fifo_op = Enq 'a | Deq

text \<open>What a client sees of a run of queue operations: the results of the dequeues.\<close>

fun fifo_spec :: "'a fifo_op list \<Rightarrow> 'a list \<Rightarrow> 'a option list \<times> 'a list" where
  "fifo_spec [] xs = ([], xs)"
| "fifo_spec (Enq x # ops) xs = fifo_spec ops (xs @ [x])"
| "fifo_spec (Deq # ops) [] = (let (os, ys) = fifo_spec ops [] in (None # os, ys))"
| "fifo_spec (Deq # ops) (x # xs) = (let (os, ys) = fifo_spec ops xs in (Some x # os, ys))"

fun fifo_run :: "('a \<Rightarrow> 'q \<Rightarrow> 'q option) \<Rightarrow> ('q \<Rightarrow> ('a option \<times> 'q) option) \<Rightarrow>
    'a fifo_op list \<Rightarrow> 'q \<Rightarrow> ('a option list \<times> 'q) option" where
  "fifo_run enq deq [] q = Some ([], q)"
| "fifo_run enq deq (Enq x # ops) q = do { q' \<leftarrow> enq x q; fifo_run enq deq ops q' }"
| "fifo_run enq deq (Deq # ops) q =
     do { (r, q') \<leftarrow> deq q; (os, q'') \<leftarrow> fifo_run enq deq ops q'; Some (r # os, q'') }"

locale fifo_queue =
  fixes enq :: "'a \<Rightarrow> 'q \<Rightarrow> 'q option"
    and deq :: "'q \<Rightarrow> ('a option \<times> 'q) option"
    and contents :: "'q \<Rightarrow> 'a list"
    and inv :: "'q \<Rightarrow> bool"
  assumes enq_ok: "inv q \<Longrightarrow> \<exists>q'. enq x q = Some q' \<and> inv q' \<and> contents q' = contents q @ [x]"
    and deq_empty: "inv q \<Longrightarrow> contents q = [] \<Longrightarrow>
      \<exists>q'. deq q = Some (None, q') \<and> inv q' \<and> contents q' = []"
    and deq_front: "inv q \<Longrightarrow> contents q = x # xs \<Longrightarrow>
      \<exists>q'. deq q = Some (Some x, q') \<and> inv q' \<and> contents q' = xs"
begin

text \<open>Every run of operations succeeds and answers as the list specification does.\<close>

lemma run_refines_spec:
  "inv q \<Longrightarrow> \<exists>q'. fifo_run enq deq ops q = Some (fst (fifo_spec ops (contents q)), q') \<and>
     inv q' \<and> contents q' = snd (fifo_spec ops (contents q))"
proof (induction ops arbitrary: q)
  case Nil
  then show ?case by simp
next
  case (Cons op ops)
  show ?case
  proof (cases op)
    case (Enq x)
    from enq_ok [OF Cons.prems, of x] obtain q1
      where q1: "enq x q = Some q1" "inv q1" "contents q1 = contents q @ [x]" by blast
    from Cons.IH [OF q1(2)] q1 Enq show ?thesis by auto
  next
    case Deq
    show ?thesis
    proof (cases "contents q")
      case Nil
      from deq_empty [OF Cons.prems Nil] obtain q1
        where q1: "deq q = Some (None, q1)" "inv q1" "contents q1 = []" by blast
      from Cons.IH [OF q1(2)] q1 Deq Nil show ?thesis by (auto split: prod.splits)
    next
      case (Cons x xs)
      from deq_front [OF Cons.prems Cons] obtain q1
        where q1: "deq q = Some (Some x, q1)" "inv q1" "contents q1 = xs" by blast
      from Cons.IH [OF q1(2)] q1 Deq Cons show ?thesis by (auto split: prod.splits)
    qed
  qed
qed

lemma drain:
  "inv q \<Longrightarrow> \<exists>q'. fifo_run enq deq (replicate (length (contents q)) Deq) q =
     Some (map Some (contents q), q') \<and> inv q' \<and> contents q' = []"
proof -
  have spec: "fifo_spec (replicate (length xs) Deq) xs = (map Some xs, [])" for xs :: "'a list"
    by (induction xs) auto
  assume "inv q"
  from run_refines_spec [OF this, of "replicate (length (contents q)) Deq"] show ?thesis
    by (simp add: spec)
qed

end

end
