(* ===== verification/Handle.thy ===== *)
theory Handle
  imports Prelude "HOL-Library.Char_ord" "HOL-Library.List_Lexorder"
begin

text \<open>
  The registry of services: \<open>skynet-src/skynet_handle.c\<close>.  A handle is 32 bits, the node
  (harbor) in the high 8; the low bits select a slot of a table whose size is a power of two.
  A second, sorted table maps names to handles.  The \<open>handle\<close> field of a context is read
  through the argument \<open>h\<close>: \<open>h c\<close> is \<open>skynet_context_handle(c)\<close>.
\<close>

section \<open>State\<close>

definition HANDLE_MASK :: u32 where
  "HANDLE_MASK = 0xffffff"

definition HANDLE_REMOTE_SHIFT :: nat where
  "HANDLE_REMOTE_SHIFT = 24"

definition DEFAULT_SLOT_SIZE :: nat where
  "DEFAULT_SLOT_SIZE = 4"

definition MAX_SLOT_SIZE :: nat where
  "MAX_SLOT_SIZE = 0x40000000"

record handle_name =
  hn_name :: string
  hn_handle :: u32

record handle_storage =
  hs_harbor :: u32
  hs_index :: u32
  hs_slot_size :: nat
  hs_slot :: "addr option list"
  hs_name_cap :: nat
  hs_name_count :: nat
  hs_name :: "handle_name option list"

definition skynet_handle_init :: "int \<Rightarrow> handle_storage" where
  "skynet_handle_init harbor = \<lparr>
     hs_harbor = push_bit HANDLE_REMOTE_SHIFT ((word_of_int harbor :: u32) AND 0xff),
     hs_index = 1,
     hs_slot_size = DEFAULT_SLOT_SIZE,
     hs_slot = replicate DEFAULT_SLOT_SIZE None,
     hs_name_cap = 2, hs_name_count = 0, hs_name = replicate 2 None\<rparr>"

section \<open>Registration\<close>

definition slot_hash :: "u32 \<Rightarrow> nat \<Rightarrow> nat" where
  "slot_hash handle sz = unat (handle AND of_nat (sz - 1))"

text \<open>The scan of \<open>skynet_handle_register\<close>: \<open>n\<close> slots are left to try, the next is the \<open>i\<close>-th.\<close>

fun find_free_slot :: "handle_storage \<Rightarrow> nat \<Rightarrow> nat \<Rightarrow> (u32 \<times> nat) option option" where
  "find_free_slot s i 0 = Some None"
| "find_free_slot s i (Suc n) =
     (let handle = (of_nat i + hs_index s) AND HANDLE_MASK;
          hash = slot_hash handle (hs_slot_size s)
      in do {
        c \<leftarrow> array_get (hs_slot s) hash;
        if c = None then Some (Some (handle, hash)) else find_free_slot s (Suc i) n
      })"

fun rehash_slots :: "(addr \<Rightarrow> u32) \<Rightarrow> nat \<Rightarrow> addr option list \<Rightarrow> addr option list \<Rightarrow>
    addr option list option" where
  "rehash_slots h sz [] new = Some new"
| "rehash_slots h sz (slot # slots) new = do {
     c \<leftarrow> slot;
     let hash = slot_hash (h c) sz;
     old \<leftarrow> array_get new hash;
     if old \<noteq> None then None else rehash_slots h sz slots (new[hash := Some c])
   }"

partial_function (option) skynet_handle_register ::
  "(addr \<Rightarrow> u32) \<Rightarrow> addr \<Rightarrow> handle_storage \<Rightarrow> (u32 \<times> handle_storage) option" where
  "skynet_handle_register h ctx s =
     Option.bind (find_free_slot s 0 (hs_slot_size s)) (\<lambda>found.
       case found of
         Some (handle, hash) \<Rightarrow>
           Some (handle OR hs_harbor s,
             s\<lparr>hs_slot := (hs_slot s)[hash := Some ctx], hs_index := handle + 1\<rparr>)
       | None \<Rightarrow>
           if int (hs_slot_size s) * 2 - 1 \<le> uint HANDLE_MASK
           then Option.bind
             (rehash_slots h (hs_slot_size s * 2) (hs_slot s) (replicate (hs_slot_size s * 2) None))
             (\<lambda>new. skynet_handle_register h ctx
               (s\<lparr>hs_slot := new, hs_slot_size := hs_slot_size s * 2\<rparr>))
           else None)"

text \<open>\<open>skynet_handle_grab\<close> without the reference count, which belongs to the context.\<close>

definition skynet_handle_grab :: "(addr \<Rightarrow> u32) \<Rightarrow> u32 \<Rightarrow> handle_storage \<Rightarrow> addr option option" where
  "skynet_handle_grab h handle s = do {
     c \<leftarrow> array_get (hs_slot s) (slot_hash handle (hs_slot_size s));
     Some (case c of
             Some ctx \<Rightarrow> if h ctx = handle then Some ctx else None
           | None \<Rightarrow> None)
   }"

text \<open>
  The loop of \<open>skynet_handle_retire\<close> over the names: \<open>i\<close> reads, \<open>j\<close> writes, the names of the
  handle are dropped.  It runs over \<open>n\<close> names and returns the array and the final \<open>j\<close>.
\<close>

fun retire_names :: "u32 \<Rightarrow> nat \<Rightarrow> nat \<Rightarrow> nat \<Rightarrow> handle_name option list \<Rightarrow>
    (handle_name option list \<times> nat) option" where
  "retire_names handle 0 i j names = Some (names, j)"
| "retire_names handle (Suc n) i j names = do {
     nm \<leftarrow> read_cell names i;
     if hn_handle nm = handle then retire_names handle n (Suc i) j names
     else do {
       names' \<leftarrow> (if i \<noteq> j then write_cell names j nm else Some names);
       retire_names handle n (Suc i) (Suc j) names'
     }
   }"

text \<open>
  The result is the context to release, \<open>None\<close> where the C function returns 0.  The C code
  releases it after it has unlocked the table.
\<close>

definition skynet_handle_retire :: "(addr \<Rightarrow> u32) \<Rightarrow> u32 \<Rightarrow> handle_storage \<Rightarrow>
    (addr option \<times> handle_storage) option" where
  "skynet_handle_retire h handle s = (
     let hash = slot_hash handle (hs_slot_size s) in do {
     c \<leftarrow> array_get (hs_slot s) hash;
     case c of
       Some ctx \<Rightarrow>
         if h ctx = handle then do {
           (names, j) \<leftarrow> retire_names handle (hs_name_count s) 0 0 (hs_name s);
           Some (Some ctx, s\<lparr>hs_slot := (hs_slot s)[hash := None], hs_name := names,
             hs_name_count := j\<rparr>)
         }
         else Some (None, s)
     | None \<Rightarrow> Some (None, s)
   })"

section \<open>Names\<close>

text \<open>C's \<open>strcmp\<close> on strings without NUL: the sign of the first difference of bytes.\<close>

fun strcmp :: "string \<Rightarrow> string \<Rightarrow> int" where
  "strcmp [] [] = 0"
| "strcmp [] (c # cs) = - 1"
| "strcmp (c # cs) [] = 1"
| "strcmp (c # cs) (d # ds) =
     (if c = d then strcmp cs ds else int (of_char c) - int (of_char d))"

datatype search_result = Found u32 | Missing int

text \<open>
  The binary search that \<open>skynet_handle_findname\<close> and \<open>_insert_name\<close> share; it stops at
  the entry or with \<open>begin\<close>, the place where the name would go.
\<close>

function name_search :: "handle_name option list \<Rightarrow> string \<Rightarrow> int \<Rightarrow> int \<Rightarrow> search_result option" where
  "name_search names name begin end =
     (if begin \<le> end then
        let mid = (begin + end) div 2 in
        Option.bind (read_cell names (nat mid)) (\<lambda>n.
          let c = strcmp (hn_name n) name in
          if c = 0 then Some (Found (hn_handle n))
          else if c < 0 then name_search names name (mid + 1) end
          else name_search names name begin (mid - 1))
      else Some (Missing begin))"
  by pat_completeness auto
termination
  by (relation "measure (\<lambda>(names, name, begin, end). nat (end + 1 - begin))") auto

declare name_search.simps [simp del]

definition skynet_handle_findname :: "string \<Rightarrow> handle_storage \<Rightarrow> u32 option" where
  "skynet_handle_findname name s = do {
     r \<leftarrow> name_search (hs_name s) name 0 (int (hs_name_count s) - 1);
     Some (case r of Found handle \<Rightarrow> handle | Missing _ \<Rightarrow> 0)
   }"

text \<open>The loop \<open>for (i = name_count; i > before; i--) name[i] = name[i-1]\<close>.\<close>

function shift_names :: "nat \<Rightarrow> nat \<Rightarrow> handle_name option list \<Rightarrow> handle_name option list" where
  "shift_names before i names =
     (if i > before then shift_names before (i - 1) (names[i := names ! (i - 1)]) else names)"
  by pat_completeness auto
termination by (relation "measure (\<lambda>(before, i, names). i)") auto

declare shift_names.simps [simp del]

definition insert_name_before :: "string \<Rightarrow> u32 \<Rightarrow> nat \<Rightarrow> handle_storage \<Rightarrow> handle_storage option" where
  "insert_name_before name handle before s = do {
     s1 \<leftarrow>
       (if hs_name_count s \<ge> hs_name_cap s then
          let cap = hs_name_cap s * 2 in
          if \<not> cap \<le> MAX_SLOT_SIZE then None
          else Some (s\<lparr>hs_name_cap := cap,
            hs_name := map (\<lambda>i. if i < before then hs_name s ! i
                               else if before < i \<and> i \<le> hs_name_count s then hs_name s ! (i - 1)
                               else None) [0..<cap]\<rparr>)
        else Some (s\<lparr>hs_name := shift_names before (hs_name_count s) (hs_name s)\<rparr>));
     names \<leftarrow> write_cell (hs_name s1) before \<lparr>hn_name = name, hn_handle = handle\<rparr>;
     Some (s1\<lparr>hs_name := names, hs_name_count := hs_name_count s1 + 1\<rparr>)
   }"

text \<open>\<open>_insert_name\<close> and its caller: \<open>None\<close> in the result is the C null pointer.\<close>

definition skynet_handle_namehandle :: "u32 \<Rightarrow> string \<Rightarrow> handle_storage \<Rightarrow>
    (string option \<times> handle_storage) option" where
  "skynet_handle_namehandle handle name s = do {
     r \<leftarrow> name_search (hs_name s) name 0 (int (hs_name_count s) - 1);
     case r of
       Found _ \<Rightarrow> Some (None, s)
     | Missing begin \<Rightarrow> do {
         s' \<leftarrow> insert_name_before name handle (nat begin) s;
         Some (Some name, s')
       }
   }"

section \<open>Slots: the table as a map from handles to contexts\<close>

definition slots_wf :: "(addr \<Rightarrow> u32) \<Rightarrow> handle_storage \<Rightarrow> bool" where
  "slots_wf h s \<longleftrightarrow> (\<exists>k \<le> 24. hs_slot_size s = 2 ^ k) \<and> length (hs_slot s) = hs_slot_size s \<and>
     hs_harbor s AND HANDLE_MASK = 0 \<and>
     (\<forall>i < hs_slot_size s. case hs_slot s ! i of None \<Rightarrow> True
        | Some c \<Rightarrow> slot_hash (h c) (hs_slot_size s) = i)"

definition hs_lookup :: "(addr \<Rightarrow> u32) \<Rightarrow> handle_storage \<Rightarrow> u32 \<rightharpoonup> addr" where
  "hs_lookup h s handle = (case hs_slot s ! slot_hash handle (hs_slot_size s) of
     Some c \<Rightarrow> if h c = handle then Some c else None | None \<Rightarrow> None)"

lemma slot_hash_mod: "slot_hash w (2 ^ k) = unat w mod 2 ^ k"
  by (simp only: slot_hash_def unat_and_low_bits)

lemma slot_hash_less: "slots_wf h s \<Longrightarrow> slot_hash w (hs_slot_size s) < hs_slot_size s"
  by (auto simp: slots_wf_def slot_hash_mod)

lemma slot_hash_masked:
  assumes "k \<le> 24"
  shows "slot_hash ((of_nat j + i) AND HANDLE_MASK) (2 ^ k) = (j + unat i) mod 2 ^ k"
proof -
  have mask: "unat (w AND HANDLE_MASK) = unat w mod 2 ^ 24" for w :: u32
    using unat_and_low_bits [of w 24] by (simp add: HANDLE_MASK_def)
  have "unat (of_nat j + i :: u32) = (j mod 2 ^ 32 + unat i) mod 2 ^ 32"
    by (simp add: unat_word_ariths unsigned_of_nat take_bit_eq_mod)
  also have "\<dots> = (j + unat i) mod 2 ^ 32" by (simp add: mod_add_left_eq)
  finally show ?thesis
    using assms by (simp only: slot_hash_mod mask mod_mod_power2)
qed

lemma HANDLE_MASK_mask: "HANDLE_MASK = mask 24"
  by (simp add: HANDLE_MASK_def mask_eq_exp_minus_1)

lemma slot_hash_harbor:
  assumes "k \<le> 24" and "w2 AND HANDLE_MASK = 0"
  shows "slot_hash (w OR w2) (2 ^ k) = slot_hash w (2 ^ k)"
proof -
  have low: "(of_nat (2 ^ k - 1) :: u32) = mask k"
    by (simp add: mask_eq_exp_minus_1 of_nat_diff)
  have "take_bit k w2 = take_bit k (take_bit 24 w2)" using assms(1) by (simp add: min_def)
  also have "\<dots> = 0" using assms(2) by (simp add: take_bit_eq_mask HANDLE_MASK_mask)
  finally have "w2 AND mask k = 0" by (simp add: take_bit_eq_mask)
  then show ?thesis by (simp only: slot_hash_def low bit.conj_disj_distrib2) simp
qed

lemma slots_wf_init: "slots_wf h (skynet_handle_init harbor)"
proof -
  have "push_bit 24 (x AND 0xff) AND HANDLE_MASK = 0" for x :: u32
    unfolding HANDLE_MASK_mask by (rule bit_word_eqI) (auto simp: bit_simps)
  then show ?thesis
    unfolding slots_wf_def
    by (auto simp: skynet_handle_init_def DEFAULT_SLOT_SIZE_def HANDLE_REMOTE_SHIFT_def nth_Cons'
        intro!: exI [of _ 2])
qed

text \<open>The scan of all slots finds a free one exactly when there is one.\<close>

lemma find_free_slot_Some:
  assumes "slots_wf h s"
  shows "find_free_slot s i n = Some (Some (handle, hash)) \<Longrightarrow>
    hs_slot s ! hash = None \<and> hash < hs_slot_size s \<and> hash = slot_hash handle (hs_slot_size s) \<and>
    handle AND NOT HANDLE_MASK = 0"
proof (induction n arbitrary: i)
  case 0
  then show ?case by simp
next
  case (Suc n)
  let ?handle = "(of_nat i + hs_index s) AND HANDLE_MASK"
  have l: "slot_hash ?handle (hs_slot_size s) < length (hs_slot s)"
    using slot_hash_less [OF assms] assms by (simp add: slots_wf_def)
  show ?case
  proof (cases "hs_slot s ! slot_hash ?handle (hs_slot_size s) = None")
    case True
    with Suc.prems l show ?thesis using slot_hash_less [OF assms] by (auto simp: Let_def and.assoc)
  next
    case False
    with Suc.prems l show ?thesis by (intro Suc.IH [of "Suc i"]) (simp add: Let_def)
  qed
qed

lemma find_free_slot_None:
  assumes "slots_wf h s"
  shows "find_free_slot s i n = Some None \<Longrightarrow> j < n \<Longrightarrow>
    hs_slot s ! slot_hash ((of_nat (i + j) + hs_index s) AND HANDLE_MASK) (hs_slot_size s) \<noteq> None"
proof (induction n arbitrary: i j)
  case 0
  then show ?case by simp
next
  case (Suc n)
  let ?handle = "(of_nat i + hs_index s) AND HANDLE_MASK"
  have l: "slot_hash ?handle (hs_slot_size s) < length (hs_slot s)"
    using slot_hash_less [OF assms] assms by (simp add: slots_wf_def)
  with Suc.prems(1) have ne: "hs_slot s ! slot_hash ?handle (hs_slot_size s) \<noteq> None"
    and rest: "find_free_slot s (Suc i) n = Some None"
    by (auto simp: Let_def split: if_splits)
  show ?case
  proof (cases j)
    case 0
    with ne show ?thesis by simp
  next
    case (Suc j')
    with Suc.IH [OF rest, of j'] Suc.prems(2) show ?thesis by simp
  qed
qed

lemma find_free_slot_total:
  assumes "slots_wf h s"
  shows "\<exists>r. find_free_slot s i n = Some r"
proof (induction n arbitrary: i)
  case (Suc n)
  have "slot_hash w (hs_slot_size s) < length (hs_slot s)" for w
    using slot_hash_less [OF assms] assms by (simp add: slots_wf_def)
  with Suc show ?case by (auto simp: Let_def)
qed simp

lemma scan_covers_all:
  assumes "x < 2 ^ k" shows "\<exists>j < 2 ^ k. (j + i) mod 2 ^ k = (x :: nat)"
proof -
  let ?j = "(x + (2 ^ k - i mod 2 ^ k)) mod 2 ^ k"
  have "i mod 2 ^ k < 2 ^ k" by simp
  then have "x + (2 ^ k - i mod 2 ^ k) + i mod 2 ^ k = x + 2 ^ k" by linarith
  then have "(?j + i) mod 2 ^ k = (x + 2 ^ k) mod 2 ^ k"
    by (metis mod_add_left_eq mod_add_right_eq)
  then show ?thesis using assms by (intro exI [of _ ?j]) simp
qed

lemma find_free_slot_full:
  assumes "slots_wf h s" and "find_free_slot s 0 (hs_slot_size s) = Some None"
    and "x < hs_slot_size s"
  shows "hs_slot s ! x \<noteq> None"
proof -
  obtain k where k: "k \<le> 24" "hs_slot_size s = 2 ^ k" using assms(1) by (auto simp: slots_wf_def)
  from scan_covers_all [of x k "unat (hs_index s)"] assms(3) k(2) obtain j where
    j: "j < 2 ^ k" "(j + unat (hs_index s)) mod 2 ^ k = x" by auto
  with find_free_slot_None [OF assms(1,2), of j] k show ?thesis
    by (simp add: slot_hash_masked)
qed

text \<open>
  Rehashing a full table into one twice as long: no two contexts meet, and the new table
  holds exactly the old contexts.
\<close>

lemma rehash_slots_ok:
  assumes "\<forall>c \<in> set slots. c \<noteq> None"
    and "distinct (map (\<lambda>c. slot_hash (h (the c)) sz) slots)"
    and "\<forall>c \<in> set slots. slot_hash (h (the c)) sz < length new \<and>
           new ! slot_hash (h (the c)) sz = None"
  shows "\<exists>new'. rehash_slots h sz slots new = Some new' \<and> length new' = length new \<and>
     (\<forall>i < length new. new' ! i =
        (case find (\<lambda>c. slot_hash (h (the c)) sz = i) slots of Some c \<Rightarrow> c | None \<Rightarrow> new ! i))"
  using assms
proof (induction slots arbitrary: new)
  case Nil
  then show ?case by simp
next
  case (Cons slot slots)
  then obtain c where c: "slot = Some c" by auto
  let ?k = "slot_hash (h c) sz"
  let ?new = "new[?k := Some c]"
  have k: "?k < length new" "new ! ?k = None" using Cons.prems(3) c by auto
  have "\<forall>c' \<in> set slots. slot_hash (h (the c')) sz \<noteq> ?k"
    using Cons.prems(2) c by (auto simp: image_iff)
  moreover from this have "\<exists>new'. rehash_slots h sz slots ?new = Some new' \<and> length new' = length ?new \<and>
     (\<forall>i < length ?new. new' ! i =
        (case find (\<lambda>c. slot_hash (h (the c)) sz = i) slots of Some c \<Rightarrow> c | None \<Rightarrow> ?new ! i))"
    by (intro Cons.IH) (use Cons.prems in auto)
  then obtain new' where new': "rehash_slots h sz slots ?new = Some new'" "length new' = length new"
    "\<forall>i < length new. new' ! i =
        (case find (\<lambda>c. slot_hash (h (the c)) sz = i) slots of Some c \<Rightarrow> c | None \<Rightarrow> ?new ! i)"
    by auto
  moreover have "find (\<lambda>c. slot_hash (h (the c)) sz = ?k) slots = None"
    using calculation(1) by (auto simp: find_None_iff)
  ultimately have "\<forall>i < length new. new' ! i =
        (case find (\<lambda>c. slot_hash (h (the c)) sz = i) (slot # slots) of Some c \<Rightarrow> c | None \<Rightarrow> new ! i)"
    using c k by (auto split: option.split)
  with new' c k show ?case by (auto simp: Let_def)
qed

lemma mod_double: "x mod 2 ^ Suc k mod 2 ^ k = (x mod 2 ^ k :: nat)"
  by (rule mod_mod_power2) simp

lemma grow_slots:
  assumes "slots_wf h s" and "hs_slot_size s = 2 ^ k" and "k < 24"
    and "find_free_slot s 0 (hs_slot_size s) = Some None"
  shows "\<exists>new. rehash_slots h (hs_slot_size s * 2) (hs_slot s)
      (replicate (hs_slot_size s * 2) None) = Some new \<and>
    slots_wf h (s\<lparr>hs_slot := new, hs_slot_size := hs_slot_size s * 2\<rparr>) \<and>
    hs_lookup h (s\<lparr>hs_slot := new, hs_slot_size := hs_slot_size s * 2\<rparr>) = hs_lookup h s \<and>
    (\<exists>i < hs_slot_size s * 2. new ! i = None) \<and> set new \<subseteq> insert None (set (hs_slot s))"
proof -
  let ?sz = "hs_slot_size s" and ?slots = "hs_slot s"
  let ?hash = "\<lambda>c. slot_hash (h (the c)) (?sz * 2)"
  have len: "length ?slots = ?sz" using assms(1) by (simp add: slots_wf_def)
  have sz2: "?sz * 2 = 2 ^ Suc k" using assms(2) by simp
  have full: "?slots ! i \<noteq> None" if "i < ?sz" for i
    by (rule find_free_slot_full [OF assms(1,4) that])
  have at: "slot_hash (h (the (?slots ! i))) ?sz = i" if "i < ?sz" for i
    using assms(1) full [OF that] that by (auto simp: slots_wf_def)
  have low: "slot_hash w (?sz * 2) mod ?sz = slot_hash w ?sz" for w
    unfolding sz2 unfolding assms(2) slot_hash_mod by (rule mod_double)
  have hash_lt: "slot_hash w (?sz * 2) < ?sz * 2" for w
    by (simp only: sz2 slot_hash_mod) simp
  have dist: "distinct (map ?hash ?slots)"
    unfolding distinct_conv_nth using at low len by (metis length_map nth_map)
  have some: "\<forall>c \<in> set ?slots. c \<noteq> None" using full len by (metis in_set_conv_nth)
  from rehash_slots_ok [OF some dist, of "replicate (?sz * 2) None"] hash_lt obtain new where
    new: "rehash_slots h (?sz * 2) ?slots (replicate (?sz * 2) None) = Some new"
    "length new = ?sz * 2"
    "\<And>i. i < ?sz * 2 \<Longrightarrow> new ! i = (case find (\<lambda>c. ?hash c = i) ?slots of Some c \<Rightarrow> c | None \<Rightarrow> None)"
    by (auto cong: option.case_cong)
  have new_at: "new ! i = (if ?hash (?slots ! (i mod ?sz)) = i then ?slots ! (i mod ?sz) else None)"
    if i: "i < ?sz * 2" for i
  proof -
    have m: "i mod ?sz < ?sz" using assms(2) by simp
    have uniq: "c = ?slots ! (i mod ?sz)" if c: "c \<in> set ?slots" "?hash c = i" for c
    proof -
      from c(1) len obtain j where j: "j < ?sz" "c = ?slots ! j" by (metis in_set_conv_nth)
      have "i mod ?sz = j" using low [of "h (the c)"] c(2) at [OF j(1)] j(2) by simp
      then show ?thesis using j by simp
    qed
    show ?thesis
    proof (cases "find (\<lambda>c. ?hash c = i) ?slots")
      case None
      moreover from this have "?hash (?slots ! (i mod ?sz)) \<noteq> i"
        using m len by (auto simp: find_None_iff)
      ultimately show ?thesis using new(3) [OF i] by simp
    next
      case (Some c)
      then have "c \<in> set ?slots" "?hash c = i" by (auto simp: find_Some_iff)
      then show ?thesis using uniq new(3) [OF i] Some by force
    qed
  qed
  let ?s = "s\<lparr>hs_slot := new, hs_slot_size := ?sz * 2\<rparr>"
  have "slots_wf h ?s"
    unfolding slots_wf_def
  proof (intro conjI allI impI)
    show "\<exists>k \<le> 24. hs_slot_size ?s = 2 ^ k"
      using sz2 assms(3) by (intro exI [of _ "Suc k"]) simp
    show "hs_harbor ?s AND HANDLE_MASK = 0" using assms(1) by (simp add: slots_wf_def)
    fix i
    assume "i < hs_slot_size ?s"
    then show "case hs_slot ?s ! i of None \<Rightarrow> True | Some c \<Rightarrow> slot_hash (h c) (hs_slot_size ?s) = i"
      using new_at [of i] by (auto split: option.split if_splits)
  qed (simp add: new(2))
  moreover have "hs_lookup h ?s w = hs_lookup h s w" for w
  proof -
    have m: "slot_hash w ?sz < ?sz" by (rule slot_hash_less [OF assms(1)])
    from full [OF m] obtain c where c: "?slots ! slot_hash w ?sz = Some c" by auto
    show ?thesis
      using new_at [OF hash_lt, of w] c low [of w] by (auto simp: hs_lookup_def split: if_splits)
  qed
  moreover have "\<exists>i < ?sz * 2. new ! i = None"
  proof (cases "new ! 0 = None")
    case False
    have "?sz > 0" using assms(2) by simp
    with False new_at [of 0] new_at [of ?sz] show ?thesis
      by (intro exI [of _ ?sz]) (auto split: if_splits)
  next
    case True
    then show ?thesis using assms(2) by (intro exI [of _ 0]) simp
  qed
  moreover have "set new \<subseteq> insert None (set ?slots)"
  proof
    fix c assume "c \<in> set new"
    then obtain i where "i < ?sz * 2" "c = new ! i" using new(2) by (metis in_set_conv_nth)
    then show "c \<in> insert None (set ?slots)"
      using new_at [of i] len assms(2) by (auto split: if_splits)
  qed
  ultimately show ?thesis using new(1) by auto
qed

text \<open>
  Registration returns a handle that was not registered and makes it denote the context,
  once the caller has stored the handle in the context; every other handle denotes what it
  did.  It fails only when \<open>2 ^ 24\<close> slots are full.
\<close>

lemma register_in_free_slot:
  assumes wf: "slots_wf h s" and found: "find_free_slot s 0 (hs_slot_size s) = Some (Some (w, hash))"
    and fresh: "Some ctx \<notin> set (hs_slot s)"
  defines "handle \<equiv> w OR hs_harbor s"
    and "s' \<equiv> s\<lparr>hs_slot := (hs_slot s)[hash := Some ctx], hs_index := w + 1\<rparr>"
  shows "hs_lookup h s handle = None \<and> slots_wf (h(ctx := handle)) s' \<and>
    hs_lookup (h(ctx := handle)) s' = (hs_lookup h s)(handle \<mapsto> ctx) \<and>
    handle AND NOT HANDLE_MASK = hs_harbor s"
proof -
  obtain k where k: "k \<le> 24" "hs_slot_size s = 2 ^ k" using wf by (auto simp: slots_wf_def)
  have len: "length (hs_slot s) = hs_slot_size s" and harbor: "hs_harbor s AND HANDLE_MASK = 0"
    using wf by (simp_all add: slots_wf_def)
  from find_free_slot_Some [OF wf found] have slot: "hs_slot s ! hash = None"
    "hash < hs_slot_size s" "hash = slot_hash w (hs_slot_size s)" "w AND NOT HANDLE_MASK = 0"
    by auto
  have hash: "slot_hash handle (hs_slot_size s) = hash"
    using slot(3) k slot_hash_harbor [OF k(1) harbor] by (simp add: handle_def)
  have other: "hs_slot s ! i = Some c \<Longrightarrow> i < hs_slot_size s \<Longrightarrow> c \<noteq> ctx" for i c
    using fresh len by (metis nth_mem)
  have "hs_lookup h s handle = None" by (simp add: hs_lookup_def hash slot(1))
  moreover have "slots_wf (h(ctx := handle)) s'"
    unfolding slots_wf_def
  proof (intro conjI allI impI)
    show "\<exists>k \<le> 24. hs_slot_size s' = 2 ^ k" using k by (auto simp: s'_def)
    show "length (hs_slot s') = hs_slot_size s'" using len by (simp add: s'_def)
    show "hs_harbor s' AND HANDLE_MASK = 0" using harbor by (simp add: s'_def)
    fix i
    assume i: "i < hs_slot_size s'"
    show "case hs_slot s' ! i of None \<Rightarrow> True
       | Some c \<Rightarrow> slot_hash ((h(ctx := handle)) c) (hs_slot_size s') = i"
    proof (cases "i = hash")
      case True
      then show ?thesis using hash i len by (simp add: s'_def)
    next
      case False
      then show ?thesis using wf i other [of i] len
        by (auto simp: s'_def slots_wf_def split: option.split)
    qed
  qed
  moreover have "hs_lookup (h(ctx := handle)) s' v = ((hs_lookup h s)(handle \<mapsto> ctx)) v" for v
  proof (cases "slot_hash v (hs_slot_size s) = hash")
    case True
    then show ?thesis using slot len by (auto simp: hs_lookup_def s'_def)
  next
    case False
    then have "v \<noteq> handle" using hash by auto
    then show ?thesis using False other [of "slot_hash v (hs_slot_size s)"] slot_hash_less [OF wf]
      by (auto simp: hs_lookup_def s'_def split: option.split)
  qed
  moreover have "handle AND NOT HANDLE_MASK = hs_harbor s"
  proof -
    have "NOT HANDLE_MASK AND hs_harbor s = hs_harbor s"
    proof (rule bit_word_eqI)
      fix n :: nat
      assume "n < LENGTH(32)"
      moreover have "\<not> bit (hs_harbor s AND HANDLE_MASK) n" using harbor by simp
      ultimately show "bit (NOT HANDLE_MASK AND hs_harbor s) n = bit (hs_harbor s) n"
        by (auto simp: bit_simps)
    qed
    moreover have "handle AND NOT HANDLE_MASK =
        (w AND NOT HANDLE_MASK) OR (hs_harbor s AND NOT HANDLE_MASK)"
      by (simp only: handle_def bit.conj_disj_distrib2)
    ultimately show ?thesis using slot(4) by (simp add: and.commute)
  qed
  ultimately show ?thesis by blast
qed

lemma register_ok:
  assumes wf: "slots_wf h s" and fresh: "Some ctx \<notin> set (hs_slot s)"
    and room: "None \<in> set (hs_slot s) \<or> hs_slot_size s < 2 ^ 24"
  shows "\<exists>handle s'. skynet_handle_register h ctx s = Some (handle, s') \<and>
    hs_lookup h s handle = None \<and> slots_wf (h(ctx := handle)) s' \<and>
    hs_lookup (h(ctx := handle)) s' = (hs_lookup h s)(handle \<mapsto> ctx) \<and>
    handle AND NOT HANDLE_MASK = hs_harbor s"
proof -
  obtain k where k: "k \<le> 24" "hs_slot_size s = 2 ^ k" using wf by (auto simp: slots_wf_def)
  obtain r where r: "find_free_slot s 0 (hs_slot_size s) = Some r"
    using find_free_slot_total [OF wf] by blast
  show ?thesis
  proof (cases r)
    case (Some wh)
    then obtain w hash where "find_free_slot s 0 (hs_slot_size s) = Some (Some (w, hash))"
      using r by (cases wh) auto
    with register_in_free_slot [OF wf this fresh] show ?thesis
      by (simp add: skynet_handle_register.simps)
  next
    case None
    with r have none: "find_free_slot s 0 (hs_slot_size s) = Some None" by simp
    have "None \<notin> set (hs_slot s)"
      using find_free_slot_full [OF wf none] wf by (metis in_set_conv_nth slots_wf_def)
    with room k have k24: "k < 24" by (cases "k = 24") auto
    from grow_slots [OF wf k(2) k24 none] obtain new where new:
      "rehash_slots h (hs_slot_size s * 2) (hs_slot s) (replicate (hs_slot_size s * 2) None) = Some new"
      "slots_wf h (s\<lparr>hs_slot := new, hs_slot_size := hs_slot_size s * 2\<rparr>)"
      "hs_lookup h (s\<lparr>hs_slot := new, hs_slot_size := hs_slot_size s * 2\<rparr>) = hs_lookup h s"
      "\<exists>i < hs_slot_size s * 2. new ! i = None" "set new \<subseteq> insert None (set (hs_slot s))"
      by blast
    let ?s = "s\<lparr>hs_slot := new, hs_slot_size := hs_slot_size s * 2\<rparr>"
    have "find_free_slot ?s 0 (hs_slot_size ?s) \<noteq> Some None"
      using find_free_slot_full [OF new(2)] new(4) by fastforce
    with find_free_slot_total [OF new(2)] obtain w hash where
      found: "find_free_slot ?s 0 (hs_slot_size ?s) = Some (Some (w, hash))"
      by (metis option.exhaust surj_pair)
    have fresh': "Some ctx \<notin> set (hs_slot ?s)" using new(5) fresh by auto
    have le: "int (hs_slot_size s) * 2 - 1 \<le> uint HANDLE_MASK"
    proof -
      have "(2 :: int) ^ k * 2 \<le> 2 ^ 24"
        using k24 power_increasing [of "Suc k" 24 "2 :: int"] by simp
      then show ?thesis using k by (simp add: HANDLE_MASK_def)
    qed
    have "skynet_handle_register h ctx s = skynet_handle_register h ctx ?s"
      using none le new(1) by (simp add: skynet_handle_register.simps [of h ctx s])
    also have "\<dots> = Some (w OR hs_harbor s,
        ?s\<lparr>hs_slot := (hs_slot ?s)[hash := Some ctx], hs_index := w + 1\<rparr>)"
      using found by (simp add: skynet_handle_register.simps [of h ctx ?s])
    finally show ?thesis
      using register_in_free_slot [OF new(2) found fresh'] new(3) by simp
  qed
qed

lemma hs_lookup_grab: "slots_wf h s \<Longrightarrow> skynet_handle_grab h w s = Some (hs_lookup h s w)"
  using slot_hash_less [of h s w]
  by (auto simp: skynet_handle_grab_def hs_lookup_def slots_wf_def split: option.split)

section \<open>Names: the sorted table as a map\<close>

lemma strcmp_0_iff: "strcmp a b = 0 \<longleftrightarrow> a = b"
  by (induction a b rule: strcmp.induct) auto

lemma strcmp_less_iff: "strcmp a b < 0 \<longleftrightarrow> a < b"
  by (induction a b rule: strcmp.induct) (auto simp: less_char_def)

definition names_of :: "handle_storage \<Rightarrow> handle_name list" where
  "names_of s = map the (take (hs_name_count s) (hs_name s))"

definition names_wf :: "handle_storage \<Rightarrow> bool" where
  "names_wf s \<longleftrightarrow> 0 < hs_name_cap s \<and> hs_name_count s \<le> hs_name_cap s \<and>
     length (hs_name s) = hs_name_cap s \<and>
     (\<forall>i < hs_name_count s. hs_name s ! i \<noteq> None) \<and>
     sorted_wrt (<) (map hn_name (names_of s))"

definition names_map :: "handle_storage \<Rightarrow> string \<rightharpoonup> u32" where
  "names_map s = map_of (map (\<lambda>n. (hn_name n, hn_handle n)) (names_of s))"

lemma names_wf_init: "names_wf (skynet_handle_init harbor)"
  by (simp add: names_wf_def names_of_def skynet_handle_init_def)

lemma names_of_length: "names_wf s \<Longrightarrow> length (names_of s) = hs_name_count s"
  by (simp add: names_wf_def names_of_def)

lemma names_of_read:
  "names_wf s \<Longrightarrow> i < hs_name_count s \<Longrightarrow> read_cell (hs_name s) i = Some (names_of s ! i)"
  by (auto simp: names_wf_def names_of_def)

lemma names_sorted_nth:
  "names_wf s \<Longrightarrow> i < j \<Longrightarrow> j < hs_name_count s \<Longrightarrow>
    hn_name (names_of s ! i) < hn_name (names_of s ! j)"
  using sorted_wrt_nth_less [of "(<)" "map hn_name (names_of s)" i j]
  by (simp add: names_wf_def names_of_length)

text \<open>What the search returns, for bounds that enclose the place of the name.\<close>

lemma name_search_ok:
  assumes wf: "names_wf s"
  shows "0 \<le> b \<Longrightarrow> e < int (hs_name_count s) \<Longrightarrow> b \<le> e + 1 \<Longrightarrow>
    (\<forall>i < nat b. hn_name (names_of s ! i) < name) \<Longrightarrow>
    (\<forall>i < hs_name_count s. int i > e \<longrightarrow> name < hn_name (names_of s ! i)) \<Longrightarrow>
    (\<exists>i < hs_name_count s. hn_name (names_of s ! i) = name \<and>
       name_search (hs_name s) name b e = Some (Found (hn_handle (names_of s ! i)))) \<or>
    (\<exists>p \<le> hs_name_count s. name_search (hs_name s) name b e = Some (Missing (int p)) \<and>
       (\<forall>i < p. hn_name (names_of s ! i) < name) \<and>
       (\<forall>i < hs_name_count s. p \<le> i \<longrightarrow> name < hn_name (names_of s ! i)))"
proof (induction "nat (e + 1 - b)" arbitrary: b e rule: less_induct)
  case less
  show ?case
  proof (cases "b \<le> e")
    case False
    then have "b = e + 1" using less.prems by simp
    then show ?thesis using less.prems
      by (intro disjI2 exI [of _ "nat b"]) (auto simp: name_search.simps)
  next
    case True
    let ?mid = "(b + e) div 2"
    have mid: "b \<le> ?mid" "?mid \<le> e" using True by simp_all
    then have m: "nat ?mid < hs_name_count s" using less.prems by linarith
    let ?n = "names_of s ! nat ?mid"
    have unfold: "name_search (hs_name s) name b e =
        (if strcmp (hn_name ?n) name = 0 then Some (Found (hn_handle ?n))
         else if strcmp (hn_name ?n) name < 0 then name_search (hs_name s) name (?mid + 1) e
         else name_search (hs_name s) name b (?mid - 1))"
      using True names_of_read [OF wf m] by (simp add: name_search.simps [of _ _ b] Let_def)
    consider "hn_name ?n = name" | "hn_name ?n < name" | "name < hn_name ?n" by force
    then show ?thesis
    proof cases
      case 1
      then show ?thesis using unfold m by (auto simp: strcmp_0_iff)
    next
      case 2
      have "\<forall>i < nat (?mid + 1). hn_name (names_of s ! i) < name"
      proof (intro allI impI)
        fix i assume "i < nat (?mid + 1)"
        then have "i = nat ?mid \<or> i < nat ?mid" using mid less.prems(1) by linarith
        then show "hn_name (names_of s ! i) < name"
          using 2 names_sorted_nth [OF wf _ m, of i] by force
      qed
      moreover have "nat (e + 1 - (?mid + 1)) < nat (e + 1 - b)" using mid True by linarith
      moreover have "name_search (hs_name s) name b e = name_search (hs_name s) name (?mid + 1) e"
      proof -
        have "strcmp (hn_name ?n) name < 0" using 2 by (simp add: strcmp_less_iff)
        then show ?thesis using unfold by simp
      qed
      ultimately show ?thesis
        using less.hyps [of e "?mid + 1"] less.prems mid by simp
    next
      case 3
      have "\<forall>i < hs_name_count s. int i > ?mid - 1 \<longrightarrow> name < hn_name (names_of s ! i)"
      proof (intro allI impI)
        fix i assume i: "i < hs_name_count s" "int i > ?mid - 1"
        then have "i = nat ?mid \<or> nat ?mid < i" using mid less.prems(1) by linarith
        then show "name < hn_name (names_of s ! i)"
          using 3 names_sorted_nth [OF wf _ i(1), of "nat ?mid"] by force
      qed
      moreover have "nat (?mid - 1 + 1 - b) < nat (e + 1 - b)" using mid True by linarith
      moreover have "name_search (hs_name s) name b e = name_search (hs_name s) name b (?mid - 1)"
      proof -
        have "\<not> strcmp (hn_name ?n) name < 0" "strcmp (hn_name ?n) name \<noteq> 0"
          using 3 by (auto simp: strcmp_less_iff strcmp_0_iff)
        then show ?thesis using unfold by simp
      qed
      ultimately show ?thesis
        using less.hyps [of "?mid - 1" b] less.prems mid by simp
    qed
  qed
qed

lemma names_map_Some:
  assumes "names_wf s" and "i < hs_name_count s"
  shows "names_map s (hn_name (names_of s ! i)) = Some (hn_handle (names_of s ! i))"
proof -
  have "distinct (map hn_name (names_of s))"
    using assms(1) by (simp add: names_wf_def strict_sorted_iff)
  then have "distinct (map fst (map (\<lambda>n. (hn_name n, hn_handle n)) (names_of s)))"
    by (simp add: comp_def)
  moreover have "names_of s ! i \<in> set (names_of s)" using assms by (simp add: names_of_length)
  ultimately show ?thesis unfolding names_map_def by (intro map_of_is_SomeI) auto
qed

lemma names_map_None:
  assumes "names_wf s" and "\<And>i. i < hs_name_count s \<Longrightarrow> hn_name (names_of s ! i) \<noteq> name"
  shows "names_map s name = None"
  using assms by (fastforce simp: names_map_def map_of_eq_None_iff in_set_conv_nth names_of_length)

lemma name_search_whole:
  assumes wf: "names_wf s"
  shows "(\<exists>i < hs_name_count s. hn_name (names_of s ! i) = name \<and>
       name_search (hs_name s) name 0 (int (hs_name_count s) - 1) =
         Some (Found (hn_handle (names_of s ! i)))) \<or>
    (\<exists>p \<le> hs_name_count s.
       name_search (hs_name s) name 0 (int (hs_name_count s) - 1) = Some (Missing (int p)) \<and>
       (\<forall>i < p. hn_name (names_of s ! i) < name) \<and>
       (\<forall>i < hs_name_count s. p \<le> i \<longrightarrow> name < hn_name (names_of s ! i)))"
  by (rule name_search_ok [OF wf]) auto

lemma findname_lookup:
  assumes wf: "names_wf s"
  shows "skynet_handle_findname name s = Some (case names_map s name of Some w \<Rightarrow> w | None \<Rightarrow> 0)"
  using name_search_whole [OF wf, of name]
proof (elim disjE exE conjE)
  fix i
  assume "i < hs_name_count s" "hn_name (names_of s ! i) = name"
    "name_search (hs_name s) name 0 (int (hs_name_count s) - 1) =
       Some (Found (hn_handle (names_of s ! i)))"
  with names_map_Some [OF wf, of i] show ?thesis by (simp add: skynet_handle_findname_def)
next
  fix p
  assume p: "name_search (hs_name s) name 0 (int (hs_name_count s) - 1) = Some (Missing (int p))"
    "\<forall>i < p. hn_name (names_of s ! i) < name"
    "\<forall>i < hs_name_count s. p \<le> i \<longrightarrow> name < hn_name (names_of s ! i)"
  have "names_map s name = None"
  proof (rule names_map_None [OF wf])
    fix i assume "i < hs_name_count s"
    then show "hn_name (names_of s ! i) \<noteq> name" using p(2,3) by (cases "i < p") force+
  qed
  with p(1) show ?thesis by (simp add: skynet_handle_findname_def)
qed

lemma shift_names_nth:
  "i < length names \<Longrightarrow> length (shift_names before i names) = length names \<and>
   (\<forall>j < length names. shift_names before i names ! j =
      (if before < j \<and> j \<le> i then names ! (j - 1) else names ! j))"
proof (induction before i names rule: shift_names.induct)
  case (1 before i names)
  show ?case
  proof (cases "i > before")
    case False
    then show ?thesis by (auto simp: shift_names.simps [of before i])
  next
    case True
    with "1.IH" [OF True] "1.prems" show ?thesis
      by (auto simp: shift_names.simps [of before i names] nth_list_update)
  qed
qed

text \<open>Inserting before position \<open>p\<close> puts the entry between the first \<open>p\<close> and the others.\<close>

lemma insert_name_before_ok:
  assumes wf: "names_wf s" and p: "p \<le> hs_name_count s"
    and cap: "hs_name_cap s * 2 \<le> MAX_SLOT_SIZE"
  shows "\<exists>s'. insert_name_before name w p s = Some s' \<and>
    names_of s' = take p (names_of s) @ \<lparr>hn_name = name, hn_handle = w\<rparr> # drop p (names_of s) \<and>
    hs_name_count s' = Suc (hs_name_count s) \<and> hs_name_count s' \<le> hs_name_cap s' \<and>
    length (hs_name s') = hs_name_cap s' \<and> (\<forall>i < hs_name_count s'. hs_name s' ! i \<noteq> None) \<and>
    hs_slot s' = hs_slot s \<and> hs_slot_size s' = hs_slot_size s \<and> hs_harbor s' = hs_harbor s \<and>
    hs_index s' = hs_index s"
proof -
  let ?n = "hs_name_count s" and ?new = "\<lparr>hn_name = name, hn_handle = w\<rparr>"
  let ?cap = "if ?n \<ge> hs_name_cap s then hs_name_cap s * 2 else hs_name_cap s"
  let ?cell = "\<lambda>j. if j < p then hs_name s ! j else if j = p then Some ?new else hs_name s ! (j - 1)"
  obtain names where names: "insert_name_before name w p s =
      Some (s\<lparr>hs_name_cap := ?cap, hs_name := names, hs_name_count := Suc ?n\<rparr>)"
    "length names = ?cap" "\<And>j. j \<le> ?n \<Longrightarrow> names ! j = ?cell j"
  proof (cases "?n \<ge> hs_name_cap s")
    case True
    with wf p cap show ?thesis
      by (intro that [of "(map (\<lambda>i. if i < p then hs_name s ! i
                               else if p < i \<and> i \<le> ?n then hs_name s ! (i - 1)
                               else None) [0..<hs_name_cap s * 2]) [p := Some ?new]"])
        (auto simp: insert_name_before_def names_wf_def Let_def nth_list_update)
  next
    case False
    with shift_names_nth [of ?n "hs_name s" p] wf p show ?thesis
      by (intro that [of "(shift_names p ?n (hs_name s)) [p := Some ?new]"])
        (auto simp: insert_name_before_def names_wf_def nth_list_update)
  qed
  have cap_n: "Suc ?n \<le> ?cap" using wf by (auto simp: names_wf_def)
  have some: "hs_name s ! j \<noteq> None" if "j < ?n" for j using wf that by (simp add: names_wf_def)
  have "map the (take (Suc ?n) names) = take p (names_of s) @ ?new # drop p (names_of s)"
  proof (rule nth_equalityI)
    show "length (map the (take (Suc ?n) names)) =
        length (take p (names_of s) @ ?new # drop p (names_of s))"
      using names(2) cap_n p names_of_length [OF wf] by simp
    fix j assume "j < length (map the (take (Suc ?n) names))"
    then have j: "j \<le> ?n" using names(2) cap_n by simp
    have len: "length (hs_name s) \<ge> ?n" using wf by (simp add: names_wf_def)
    show "map the (take (Suc ?n) names) ! j =
        (take p (names_of s) @ ?new # drop p (names_of s)) ! j"
      using names(2,3) j cap_n p len names_of_length [OF wf]
      by (auto simp: names_of_def nth_append nth_Cons')
  qed
  moreover have "\<forall>i < Suc ?n. names ! i \<noteq> None"
  proof (intro allI impI)
    fix i assume i: "i < Suc ?n"
    then have "names ! i = ?cell i" using names(3) by simp
    then show "names ! i \<noteq> None" using some [of i] some [of "i - 1"] i p by (auto split: if_splits)
  qed
  ultimately show ?thesis using names cap_n by (auto simp: names_of_def)
qed

lemma namehandle_ok:
  assumes wf: "names_wf s" and cap: "hs_name_cap s * 2 \<le> MAX_SLOT_SIZE"
  shows "\<exists>r s'. skynet_handle_namehandle w name s = Some (r, s') \<and> names_wf s' \<and>
    (if name \<in> dom (names_map s) then r = None \<and> s' = s
     else r = Some name \<and> names_map s' = (names_map s)(name \<mapsto> w) \<and>
       hs_slot s' = hs_slot s \<and> hs_slot_size s' = hs_slot_size s)"
  using name_search_whole [OF wf, of name]
proof (elim disjE exE conjE)
  fix i
  assume "i < hs_name_count s" "hn_name (names_of s ! i) = name"
    "name_search (hs_name s) name 0 (int (hs_name_count s) - 1) =
       Some (Found (hn_handle (names_of s ! i)))"
  with names_map_Some [OF wf, of i] wf show ?thesis
    by (auto simp: skynet_handle_namehandle_def)
next
  fix p
  let ?new = "\<lparr>hn_name = name, hn_handle = w\<rparr>"
  assume p: "p \<le> hs_name_count s"
    "name_search (hs_name s) name 0 (int (hs_name_count s) - 1) = Some (Missing (int p))"
    "\<forall>i < p. hn_name (names_of s ! i) < name"
    "\<forall>i < hs_name_count s. p \<le> i \<longrightarrow> name < hn_name (names_of s ! i)"
  have notin: "names_map s name = None"
  proof (rule names_map_None [OF wf])
    fix i assume "i < hs_name_count s"
    then show "hn_name (names_of s ! i) \<noteq> name" using p(3,4) by (cases "i < p") force+
  qed
  from insert_name_before_ok [OF wf p(1) cap, of name w] obtain s' where s':
    "insert_name_before name w p s = Some s'"
    "names_of s' = take p (names_of s) @ ?new # drop p (names_of s)"
    "hs_name_count s' = Suc (hs_name_count s)" "hs_name_count s' \<le> hs_name_cap s'"
    "length (hs_name s') = hs_name_cap s'" "\<forall>i < hs_name_count s'. hs_name s' ! i \<noteq> None"
    "hs_slot s' = hs_slot s" "hs_slot_size s' = hs_slot_size s" by blast
  have sorted: "sorted_wrt (<) (map hn_name (take p (names_of s)) @
      map hn_name (drop p (names_of s)))"
    using wf by (simp add: names_wf_def flip: map_append)
  have before: "n \<in> set (take p (names_of s)) \<Longrightarrow> hn_name n < name" for n
    using p(3) by (auto simp: in_set_conv_nth)
  have after: "n \<in> set (drop p (names_of s)) \<Longrightarrow> name < hn_name n" for n
    using p(1,4) names_of_length [OF wf] by (auto simp: in_set_conv_nth)
  have "names_wf s'"
    using s' sorted before after by (auto simp: names_wf_def sorted_wrt_append)
  moreover have "names_map s' = (names_map s)(name \<mapsto> w)"
  proof -
    let ?kv = "\<lambda>n. (hn_name n, hn_handle n)"
    have "map_of (map ?kv (take p (names_of s))) name = None"
      using before by (fastforce simp: map_of_eq_None_iff)
    moreover have "map_of (map ?kv (names_of s)) =
        map_of (map ?kv (drop p (names_of s))) ++ map_of (map ?kv (take p (names_of s)))"
      by (metis append_take_drop_id map_append map_of_append)
    ultimately show ?thesis
      unfolding names_map_def s'(2) by (auto simp: map_add_def fun_eq_iff split: option.split)
  qed
  ultimately show ?thesis using p(2) s' notin by (auto simp: skynet_handle_namehandle_def)
qed

section \<open>Retiring\<close>

lemma retire_names_ok:
  assumes "\<And>k. k < i + n \<Longrightarrow> names ! k \<noteq> None" and "i + n \<le> length names" and "j \<le> i"
  shows "\<exists>names' j'. retire_names w n i j names = Some (names', j') \<and> j' \<le> i + n \<and>
    length names' = length names \<and> (\<forall>k < j'. names' ! k \<noteq> None) \<and>
    map the (take j' names') = map the (take j names) @
      filter (\<lambda>x. hn_handle x \<noteq> w) (map the (take n (drop i names)))"
  using assms
proof (induction n arbitrary: i j names)
  case 0
  then show ?case by auto
next
  case (Suc n)
  then obtain nm where nm: "names ! i = Some nm" by (metis add_Suc_right less_add_Suc1 not_None_eq)
  have i: "i < length names" using Suc.prems by simp
  have step: "take (Suc n) (drop i names) = Some nm # take n (drop (Suc i) names)"
    using i nm by (simp add: Cons_nth_drop_Suc [symmetric])
  show ?case
  proof (cases "hn_handle nm = w")
    case True
    have "\<exists>names' j'. retire_names w n (Suc i) j names = Some (names', j') \<and> j' \<le> Suc i + n \<and>
      length names' = length names \<and> (\<forall>k < j'. names' ! k \<noteq> None) \<and>
      map the (take j' names') = map the (take j names) @
        filter (\<lambda>x. hn_handle x \<noteq> w) (map the (take n (drop (Suc i) names)))"
      by (rule Suc.IH) (use Suc.prems in auto)
    with True nm i step show ?thesis by auto
  next
    case False
    let ?names = "names[j := Some nm]"
    have same: "(if i \<noteq> j then write_cell names j nm else Some names) = Some ?names"
      using Suc.prems nm i list_update_id [of names i] by auto
    have "\<exists>names' j'. retire_names w n (Suc i) (Suc j) ?names = Some (names', j') \<and> j' \<le> Suc i + n \<and>
      length names' = length ?names \<and> (\<forall>k < j'. names' ! k \<noteq> None) \<and>
      map the (take j' names') = map the (take (Suc j) ?names) @
        filter (\<lambda>x. hn_handle x \<noteq> w) (map the (take n (drop (Suc i) ?names)))"
      by (rule Suc.IH) (use Suc.prems in \<open>auto simp: nth_list_update\<close>)
    moreover have "map the (take (Suc j) ?names) = map the (take j names) @ [nm]"
      using Suc.prems i by (simp add: take_Suc_conv_app_nth)
    moreover have "drop (Suc i) ?names = drop (Suc i) names"
      using Suc.prems by simp
    ultimately show ?thesis using False nm i step same by auto
  qed
qed

lemma retire_ok:
  assumes wf: "slots_wf h s" and nwf: "names_wf s"
  shows "\<exists>s'. skynet_handle_retire h w s = Some (hs_lookup h s w, s') \<and> slots_wf h s' \<and> names_wf s' \<and>
    hs_lookup h s' = (hs_lookup h s)(w := None) \<and>
    names_of s' = (if hs_lookup h s w = None then names_of s
                   else filter (\<lambda>n. hn_handle n \<noteq> w) (names_of s))"
proof -
  let ?hash = "slot_hash w (hs_slot_size s)"
  have hash: "?hash < length (hs_slot s)" "length (hs_slot s) = hs_slot_size s"
    using slot_hash_less [OF wf, of w] wf by (simp_all add: slots_wf_def)
  show ?thesis
  proof (cases "hs_lookup h s w")
    case None
    then have "skynet_handle_retire h w s = Some (None, s)"
      using hash by (auto simp: hs_lookup_def skynet_handle_retire_def Let_def split: option.splits)
    then show ?thesis using None wf nwf by (auto simp: fun_upd_idem)
  next
    case (Some c)
    then have c: "hs_slot s ! ?hash = Some c" "h c = w"
      by (auto simp: hs_lookup_def split: option.splits if_splits)
    let ?n = "hs_name_count s"
    have "\<exists>names' j'. retire_names w ?n 0 0 (hs_name s) = Some (names', j') \<and> j' \<le> 0 + ?n \<and>
      length names' = length (hs_name s) \<and> (\<forall>k < j'. names' ! k \<noteq> None) \<and>
      map the (take j' names') = map the (take 0 (hs_name s)) @
        filter (\<lambda>x. hn_handle x \<noteq> w) (map the (take ?n (drop 0 (hs_name s))))"
      by (rule retire_names_ok) (use nwf in \<open>auto simp: names_wf_def\<close>)
    then obtain names' j' where n: "retire_names w ?n 0 0 (hs_name s) = Some (names', j')"
      "j' \<le> ?n" "length names' = length (hs_name s)" "\<forall>k < j'. names' ! k \<noteq> None"
      "map the (take j' names') = filter (\<lambda>x. hn_handle x \<noteq> w) (names_of s)"
      by (auto simp: names_of_def)
    let ?s = "s\<lparr>hs_slot := (hs_slot s)[?hash := None], hs_name := names', hs_name_count := j'\<rparr>"
    have "skynet_handle_retire h w s = Some (Some c, ?s)"
      using c hash n(1) by (simp add: skynet_handle_retire_def Let_def)
    moreover have "slots_wf h ?s"
      using wf hash by (auto simp: slots_wf_def nth_list_update split: option.splits)
    moreover have "sorted_wrt (<) (map hn_name (filter (\<lambda>x. hn_handle x \<noteq> w) (names_of s)))"
      using nwf by (simp add: names_wf_def sorted_wrt_map sorted_wrt_filter)
    then have "names_wf ?s" using n nwf by (simp add: names_wf_def names_of_def)
    moreover have "hs_lookup h ?s v = ((hs_lookup h s)(w := None)) v" for v
    proof (cases "slot_hash v (hs_slot_size s) = ?hash")
      case True
      then show ?thesis using hash c by (simp add: hs_lookup_def)
    next
      case False
      then have "v \<noteq> w" by auto
      then show ?thesis using False by (simp add: hs_lookup_def)
    qed
    ultimately show ?thesis using Some n(5) by (auto simp: names_of_def)
  qed
qed

section \<open>The index wraps to the reserved handle\<close>

text \<open>
  One service is launched and exits: its handle is registered, stored in the context, and
  retired.  \<open>empty_at i\<close> is the registry with no service and the index at \<open>i\<close>.
\<close>

definition launch_and_exit :: "(addr \<Rightarrow> u32) \<Rightarrow> addr \<Rightarrow> handle_storage \<Rightarrow> handle_storage option" where
  "launch_and_exit h ctx s = do {
     (w, s') \<leftarrow> skynet_handle_register h ctx s;
     (_, s'') \<leftarrow> skynet_handle_retire (h(ctx := w)) w s';
     Some s''
   }"

fun launches :: "nat \<Rightarrow> (addr \<Rightarrow> u32) \<Rightarrow> addr \<Rightarrow> handle_storage \<Rightarrow> handle_storage option" where
  "launches 0 h ctx s = Some s"
| "launches (Suc n) h ctx s = Option.bind (launches n h ctx s) (launch_and_exit h ctx)"

definition empty_at :: "nat \<Rightarrow> handle_storage" where
  "empty_at i = (skynet_handle_init 0)\<lparr>hs_index := of_nat i\<rparr>"

lemma slot_hash_4: "slot_hash w 4 = unat w mod 4" "slot_hash w 4 < 4"
  using slot_hash_mod [of w 2] by simp_all

lemma empty_at_sel:
  "hs_slot (empty_at i) = replicate 4 None" "hs_slot_size (empty_at i) = 4"
  "hs_index (empty_at i) = of_nat i" "hs_harbor (empty_at i) = 0" "hs_name_count (empty_at i) = 0"
  by (simp_all add: empty_at_def skynet_handle_init_def DEFAULT_SLOT_SIZE_def)

lemma find_free_slot_first:
  assumes "hs_slot s ! slot_hash (hs_index s AND HANDLE_MASK) (hs_slot_size s) = None"
    and "slot_hash (hs_index s AND HANDLE_MASK) (hs_slot_size s) < length (hs_slot s)" and "0 < n"
  shows "find_free_slot s 0 n = Some (Some (hs_index s AND HANDLE_MASK,
     slot_hash (hs_index s AND HANDLE_MASK) (hs_slot_size s)))"
  using assms by (cases n) (simp_all add: Let_def)

lemma register_empty_at:
  "skynet_handle_register h ctx (empty_at i) =
     (let w = of_nat i AND HANDLE_MASK in
      Some (w, (empty_at i)\<lparr>hs_slot := (replicate 4 None)[slot_hash w 4 := Some ctx],
        hs_index := w + 1\<rparr>))"
proof -
  have "find_free_slot (empty_at i) 0 (hs_slot_size (empty_at i)) =
      Some (Some (of_nat i AND HANDLE_MASK, slot_hash (of_nat i AND HANDLE_MASK) 4))"
    using find_free_slot_first [of "empty_at i" 4] slot_hash_4(2) [of "of_nat i AND HANDLE_MASK"]
    by (simp add: empty_at_sel)
  then show ?thesis
    by (simp add: skynet_handle_register.simps empty_at_sel Let_def)
qed

lemma launch_and_exit_empty_at:
  assumes "i < 2 ^ 24"
  shows "launch_and_exit h ctx (empty_at i) = Some (empty_at (Suc i))"
proof -
  have "of_nat i AND HANDLE_MASK = of_nat i"
  proof (rule word_unat_eq_iff [THEN iffD2])
    show "unat (of_nat i AND HANDLE_MASK) = unat (of_nat i :: u32)"
      using unat_and_low_bits [of "of_nat i :: u32" 24] assms
      by (simp add: HANDLE_MASK_def unsigned_of_nat take_bit_nat_eq_self)
  qed
  moreover have "(replicate 4 None)[k := Some ctx, k := None] = replicate 4 None" for k
    by (simp add: list_update_same_conv) (metis list_update_beyond
        list_update_id length_replicate nth_replicate not_le)
  ultimately show ?thesis
    using slot_hash_4(2) [of "of_nat i"]
    by (simp add: launch_and_exit_def register_empty_at Let_def skynet_handle_retire_def
        empty_at_sel)
      (simp add: empty_at_def skynet_handle_init_def DEFAULT_SLOT_SIZE_def ac_simps
       )
qed

lemma launches_empty_at: "n < 2 ^ 24 \<Longrightarrow> launches n h ctx (empty_at 1) = Some (empty_at (Suc n))"
  by (induction n) (simp_all add: launch_and_exit_empty_at)

lemma launches_init: "n < 2 ^ 24 \<Longrightarrow> launches n h ctx (skynet_handle_init 0) = Some (empty_at (Suc n))"
proof -
  have "skynet_handle_init 0 = empty_at 1" by (simp add: empty_at_def skynet_handle_init_def)
  then show "n < 2 ^ 24 \<Longrightarrow> launches n h ctx (skynet_handle_init 0) = Some (empty_at (Suc n))"
    by (simp only: launches_empty_at)
qed

section \<open>Properties\<close>

text \<open>C16. Registration.  As long as a slot is free or the table can still double (below
  \<open>2 ^ 24\<close> slots), \<open>skynet_handle_register\<close> returns a handle that denoted nothing, with the
  node's harbor in its high byte; once the caller has stored it in the context, it denotes
  the new context, and every other handle denotes what it did before, also when the table was
  rehashed (whose assertions hold).\<close>

theorem register_extends_registry:
  assumes "slots_wf h s" and "Some ctx \<notin> set (hs_slot s)"
    and "None \<in> set (hs_slot s) \<or> hs_slot_size s < 2 ^ 24"
  shows "\<exists>handle s'. skynet_handle_register h ctx s = Some (handle, s') \<and>
    hs_lookup h s handle = None \<and> slots_wf (h(ctx := handle)) s' \<and>
    (\<forall>v. skynet_handle_grab (h(ctx := handle)) v s' =
       Some (if v = handle then Some ctx else hs_lookup h s v)) \<and>
    handle AND NOT HANDLE_MASK = hs_harbor s"
proof -
  from register_ok [OF assms] obtain handle s' where r:
    "skynet_handle_register h ctx s = Some (handle, s')" "hs_lookup h s handle = None"
    "slots_wf (h(ctx := handle)) s'"
    "hs_lookup (h(ctx := handle)) s' = (hs_lookup h s)(handle \<mapsto> ctx)"
    "handle AND NOT HANDLE_MASK = hs_harbor s" by blast
  with hs_lookup_grab [OF r(3)] show ?thesis by auto
qed

lemma init_slots_free: "None \<in> set (hs_slot (skynet_handle_init harbor))"
  by (simp add: skynet_handle_init_def DEFAULT_SLOT_SIZE_def)

theorem register_extends_registry_witness:
  "\<exists>handle s'. skynet_handle_register (\<lambda>_. 0) 100 (skynet_handle_init 7) = Some (handle, s') \<and>
    skynet_handle_grab ((\<lambda>_. 0)(100 := handle)) handle s' = Some (Some 100)"
  using register_extends_registry [OF slots_wf_init, of 100 7 "\<lambda>_. 0"] init_slots_free [of 7]
  by (auto simp: skynet_handle_init_def DEFAULT_SLOT_SIZE_def)

text \<open>Retirement.  \<open>skynet_handle_retire\<close> returns the context that the handle denotes
  (to be released), after which the handle denotes nothing, every other handle denotes what it
  did, and exactly the names bound to the handle are gone, the others still sorted.\<close>

theorem retire_removes_handle:
  assumes "slots_wf h s" and "names_wf s"
  shows "\<exists>s'. skynet_handle_retire h w s = Some (hs_lookup h s w, s') \<and> slots_wf h s' \<and> names_wf s' \<and>
    hs_lookup h s' = (hs_lookup h s)(w := None) \<and>
    names_of s' = (if hs_lookup h s w = None then names_of s
                   else filter (\<lambda>n. hn_handle n \<noteq> w) (names_of s))"
  using assms by (rule retire_ok)

theorem retire_removes_handle_witness:
  "\<exists>s'. skynet_handle_retire (\<lambda>_. 0) 5 (skynet_handle_init 0) =
     Some (hs_lookup (\<lambda>_. 0) (skynet_handle_init 0) 5, s') \<and> slots_wf (\<lambda>_. 0) s'"
  using retire_removes_handle [OF slots_wf_init names_wf_init, of "\<lambda>_. 0" 5 0] by blast

text \<open>Name lookup.  On a well-formed name table the binary search of
  \<open>skynet_handle_findname\<close> ends and returns the handle of the name, 0 exactly when the name is
  not in the table (or is bound to 0).\<close>

theorem findname_is_map_lookup:
  assumes "names_wf s"
  shows "skynet_handle_findname name s = Some (case names_map s name of Some w \<Rightarrow> w | None \<Rightarrow> 0)"
  using assms by (rule findname_lookup)

theorem findname_is_map_lookup_witness:
  "skynet_handle_findname ''launcher'' (skynet_handle_init 0) = Some 0"
  using findname_is_map_lookup [OF names_wf_init, of "''launcher''" 0]
  by (simp add: names_map_def names_of_def skynet_handle_init_def)

text \<open>Naming.  \<open>skynet_handle_namehandle\<close> refuses a name that is in use and changes
  nothing; otherwise it binds the name to the handle, keeps the table sorted and every other
  binding, whether or not the array had to double.\<close>

theorem namehandle_binds_name:
  assumes "names_wf s" and "hs_name_cap s * 2 \<le> MAX_SLOT_SIZE"
  shows "\<exists>r s'. skynet_handle_namehandle w name s = Some (r, s') \<and> names_wf s' \<and>
    (if name \<in> dom (names_map s) then r = None \<and> s' = s
     else r = Some name \<and> names_map s' = (names_map s)(name \<mapsto> w) \<and>
       hs_slot s' = hs_slot s \<and> hs_slot_size s' = hs_slot_size s)"
  using assms by (rule namehandle_ok)

theorem namehandle_binds_name_witness:
  "\<exists>s'. skynet_handle_namehandle 9 ''a'' (skynet_handle_init 0) = Some (Some ''a'', s') \<and>
     names_map s' ''a'' = Some 9"
proof -
  have "names_map (skynet_handle_init 0) = Map.empty"
    by (simp add: names_map_def names_of_def skynet_handle_init_def)
  then show ?thesis
    using namehandle_binds_name [OF names_wf_init, of 0 9 "''a''"]
    by (auto simp: skynet_handle_init_def MAX_SLOT_SIZE_def)
qed

text \<open>Handle 0 is not reserved.  \<open>skynet_handle_init\<close> starts the index at 1 to keep 0
  for the system, but the index wraps: on node 0, after \<open>2 ^ 24 - 1\<close> services were launched and
  exited one after the other, the next registration returns handle 0, which the rest of the
  code takes for "no handle".\<close>

theorem register_returns_zero_after_wrap:
  "\<exists>s s'. launches (2 ^ 24 - 1) h ctx (skynet_handle_init 0) = Some s \<and>
     skynet_handle_register h ctx s = Some (0, s')"
proof -
  have "launches (2 ^ 24 - 1) h ctx (skynet_handle_init 0) = Some (empty_at (2 ^ 24))"
    using launches_init [of "2 ^ 24 - 1" h ctx] by simp
  moreover have "(of_nat (2 ^ 24) :: u32) AND HANDLE_MASK = 0" by (simp add: HANDLE_MASK_def)
  ultimately show ?thesis by (auto simp: register_empty_at Let_def)
qed

end
