(* ===== verification/MessageQueue.thy ===== *)
theory MessageQueue
  imports Prelude
begin

text \<open>
  The mailboxes of the services and the global run queue: \<open>skynet-src/skynet_mq.c\<close>.

  A mailbox (\<open>struct message_queue\<close>) is a ring buffer that doubles when it is full.  The run
  queue (\<open>struct global_queue\<close>) is a linked list threaded through the mailboxes' own \<open>next\<close>
  fields, so the mailboxes live in a memory, a map from addresses to records.  Each function
  of the C file holds one spin lock for its whole body, so a function is one atomic step.
  Sizes and positions (C \<open>int\<close>, never negative) are \<open>nat\<close>; the differences of positions the C
  code takes are computed on \<open>int\<close>.
\<close>

section \<open>Messages and mailboxes\<close>

record skynet_message =
  msg_source :: u32
  msg_session :: int
  msg_data :: addr
  msg_sz :: u64

definition DEFAULT_QUEUE_SIZE :: nat where
  "DEFAULT_QUEUE_SIZE = 64"

definition MQ_OVERLOAD :: int where
  "MQ_OVERLOAD = 1024"

record message_queue =
  mq_handle :: u32
  mq_cap :: nat
  mq_head :: nat
  mq_tail :: nat
  mq_release :: bool
  mq_in_global :: bool
  mq_overload :: int
  mq_overload_threshold :: int
  mq_queue :: "skynet_message option list"
  mq_next :: "addr option"

text \<open>The record that \<open>skynet_mq_create\<close> fills; its array comes from \<open>malloc\<close>.\<close>

definition mq_new :: "u32 \<Rightarrow> message_queue" where
  "mq_new handle = \<lparr>mq_handle = handle, mq_cap = DEFAULT_QUEUE_SIZE, mq_head = 0, mq_tail = 0,
     mq_release = False, mq_in_global = True, mq_overload = 0,
     mq_overload_threshold = MQ_OVERLOAD,
     mq_queue = replicate DEFAULT_QUEUE_SIZE None, mq_next = None\<rparr>"

definition mq_length :: "message_queue \<Rightarrow> int" where
  "mq_length q = (if mq_head q \<le> mq_tail q then int (mq_tail q) - int (mq_head q)
     else int (mq_tail q) + int (mq_cap q) - int (mq_head q))"

definition mq_take_overload :: "message_queue \<Rightarrow> int \<times> message_queue" where
  "mq_take_overload q =
     (if mq_overload q \<noteq> 0 then (mq_overload q, q\<lparr>mq_overload := 0\<rparr>) else (0, q))"

text \<open>
  The loop that doubles the overload threshold until the length is below it.  It would not
  end for a threshold of 0 or less, so it is a partial function.
\<close>

partial_function (option) overload_loop :: "int \<Rightarrow> int \<Rightarrow> int \<Rightarrow> (int \<times> int) option" where
  "overload_loop len overload threshold =
     (if len > threshold then overload_loop len len (threshold * 2)
      else Some (overload, threshold))"

definition mq_dequeue :: "message_queue \<Rightarrow> (skynet_message option \<times> message_queue) option" where
  "mq_dequeue q =
     (if mq_head q \<noteq> mq_tail q then do {
        m \<leftarrow> read_cell (mq_queue q) (mq_head q);
        let head = (if mq_head q + 1 \<ge> mq_cap q then 0 else mq_head q + 1);
        let len0 = int (mq_tail q) - int head;
        let len = (if len0 < 0 then len0 + int (mq_cap q) else len0);
        (overload, threshold) \<leftarrow> overload_loop len (mq_overload q) (mq_overload_threshold q);
        Some (Some m, q\<lparr>mq_head := head, mq_overload := overload,
          mq_overload_threshold := threshold\<rparr>)
      }
      else Some (None, q\<lparr>mq_overload_threshold := MQ_OVERLOAD, mq_in_global := False\<rparr>))"

text \<open>\<open>expand_queue\<close>: the live cells are copied to the front of an array twice as long.\<close>

definition mq_expand :: "message_queue \<Rightarrow> message_queue" where
  "mq_expand q = q\<lparr>mq_head := 0, mq_tail := mq_cap q, mq_cap := mq_cap q * 2,
     mq_queue := map (\<lambda>i. mq_queue q ! ((mq_head q + i) mod mq_cap q)) [0..<mq_cap q]
                 @ replicate (mq_cap q) None\<rparr>"

text \<open>The part of \<open>skynet_mq_push\<close> that works on the ring.\<close>

definition mq_enqueue :: "skynet_message \<Rightarrow> message_queue \<Rightarrow> message_queue option" where
  "mq_enqueue m q = do {
     cells \<leftarrow> write_cell (mq_queue q) (mq_tail q) m;
     let tail = (if mq_tail q + 1 \<ge> mq_cap q then 0 else mq_tail q + 1);
     let q' = q\<lparr>mq_queue := cells, mq_tail := tail\<rparr>;
     Some (if mq_head q' = mq_tail q' then mq_expand q' else q')
   }"

section \<open>The mailbox is a first-in first-out queue\<close>

definition mq_contents :: "message_queue \<Rightarrow> skynet_message list" where
  "mq_contents q = map the
     (ring_cells (mq_queue q) (mq_cap q) (mq_head q) (ring_len (mq_cap q) (mq_head q) (mq_tail q)))"

definition mq_wf :: "message_queue \<Rightarrow> bool" where
  "mq_wf q \<longleftrightarrow> mq_head q < mq_cap q \<and> mq_tail q < mq_cap q \<and> length (mq_queue q) = mq_cap q \<and>
     mq_overload_threshold q > 0 \<and>
     list_all (\<lambda>c. c \<noteq> None)
       (ring_cells (mq_queue q) (mq_cap q) (mq_head q)
         (ring_len (mq_cap q) (mq_head q) (mq_tail q)))"

lemma mq_wf_new [simp]: "mq_wf (mq_new h)"
  by (simp add: mq_wf_def mq_new_def DEFAULT_QUEUE_SIZE_def MQ_OVERLOAD_def)

lemma mq_contents_new [simp]: "mq_contents (mq_new h) = []"
  by (simp add: mq_contents_def mq_new_def)

lemma mq_length_contents: "mq_wf q \<Longrightarrow> mq_length q = int (length (mq_contents q))"
  by (auto simp: mq_length_def mq_contents_def mq_wf_def ring_len_def)

lemma overload_loop_result:
  "threshold > 0 \<Longrightarrow> \<exists>n. overload_loop len overload threshold =
     Some (if n = 0 then overload else len, threshold * 2 ^ n) \<and> len \<le> threshold * 2 ^ n"
proof (induction "nat (len - threshold)" arbitrary: overload threshold rule: less_induct)
  case less
  show ?case
  proof (cases "len > threshold")
    case False
    then show ?thesis by (intro exI [of _ 0]) (simp add: overload_loop.simps)
  next
    case True
    with less.prems have "nat (len - threshold * 2) < nat (len - threshold)" and "threshold * 2 > 0"
      by auto
    from less.hyps [OF this, of len] obtain n where
      "overload_loop len len (threshold * 2) = Some (len, threshold * 2 * 2 ^ n)"
      "len \<le> threshold * 2 * 2 ^ n"
      by (auto split: if_splits)
    with True show ?thesis
      by (intro exI [of _ "Suc n"]) (simp add: overload_loop.simps [of len overload] mult.assoc)
  qed
qed

lemma overload_loop_positive:
  "threshold > 0 \<Longrightarrow> \<exists>o' t'. overload_loop len overload threshold = Some (o', t') \<and> t' > 0"
  using overload_loop_result [of threshold len overload] by auto

lemma mq_contents_pop:
  assumes "mq_wf q" and "mq_head q \<noteq> mq_tail q"
  shows "\<exists>m. read_cell (mq_queue q) (mq_head q) = Some m \<and>
     mq_contents q = m # mq_contents (q\<lparr>mq_head := ring_next (mq_cap q) (mq_head q)\<rparr>) \<and>
     mq_wf (q\<lparr>mq_head := ring_next (mq_cap q) (mq_head q)\<rparr>)"
proof -
  let ?h = "ring_next (mq_cap q) (mq_head q)"
  have b: "mq_head q < mq_cap q" "mq_tail q < mq_cap q" "length (mq_queue q) = mq_cap q"
    using assms(1) by (simp_all add: mq_wf_def)
  have cells: "ring_cells (mq_queue q) (mq_cap q) (mq_head q) (ring_len (mq_cap q) (mq_head q) (mq_tail q))
      = mq_queue q ! mq_head q # ring_cells (mq_queue q) (mq_cap q) ?h (ring_len (mq_cap q) ?h (mq_tail q))"
    by (simp only: ring_len_next_head [OF b(1,2) assms(2)] ring_cells_Cons [OF b(1)]
        ring_next_mod [OF b(1)])
  then obtain m where m: "mq_queue q ! mq_head q = Some m"
    using assms(1) by (auto simp: mq_wf_def)
  have "?h < mq_cap q" using b by (intro ring_next_less) simp
  with cells m b assms(1) show ?thesis
    by (auto simp: mq_contents_def mq_wf_def)
qed

lemma mq_contents_empty_iff:
  "mq_wf q \<Longrightarrow> mq_contents q = [] \<longleftrightarrow> mq_head q = mq_tail q"
  by (auto simp: mq_contents_def mq_wf_def ring_len_0_iff simp flip: length_0_conv)

lemma mq_contents_cong:
  "mq_contents (q\<lparr>mq_overload := a\<rparr>) = mq_contents q"
  "mq_contents (q\<lparr>mq_overload_threshold := b\<rparr>) = mq_contents q"
  "mq_contents (q\<lparr>mq_in_global := c\<rparr>) = mq_contents q"
  "mq_contents (q\<lparr>mq_release := c\<rparr>) = mq_contents q"
  "mq_contents (q\<lparr>mq_next := n\<rparr>) = mq_contents q"
  by (simp_all add: mq_contents_def)

lemma mq_wf_cong:
  "mq_wf (q\<lparr>mq_overload := a\<rparr>) = mq_wf q"
  "mq_wf (q\<lparr>mq_in_global := c\<rparr>) = mq_wf q"
  "mq_wf (q\<lparr>mq_release := c\<rparr>) = mq_wf q"
  "mq_wf (q\<lparr>mq_next := n\<rparr>) = mq_wf q"
  "mq_wf q \<Longrightarrow> b > 0 \<Longrightarrow> mq_wf (q\<lparr>mq_overload_threshold := b\<rparr>)"
  by (simp_all add: mq_wf_def)

lemmas mq_cong = mq_contents_cong mq_wf_cong

lemma mq_dequeue_front:
  assumes "mq_wf q" and "mq_contents q = m # ms"
  shows "\<exists>q'. mq_dequeue q = Some (Some m, q') \<and> mq_wf q' \<and> mq_contents q' = ms \<and>
     mq_in_global q' = mq_in_global q \<and> mq_release q' = mq_release q \<and>
     mq_next q' = mq_next q \<and> mq_handle q' = mq_handle q"
proof -
  let ?h = "ring_next (mq_cap q) (mq_head q)"
  let ?len0 = "int (mq_tail q) - int ?h"
  let ?len = "if ?len0 < 0 then ?len0 + int (mq_cap q) else ?len0"
  have ne: "mq_head q \<noteq> mq_tail q"
    using mq_contents_empty_iff [OF assms(1)] assms(2) by simp
  from mq_contents_pop [OF assms(1) ne] assms(2) have m:
    "read_cell (mq_queue q) (mq_head q) = Some m"
    "mq_contents (q\<lparr>mq_head := ?h\<rparr>) = ms" "mq_wf (q\<lparr>mq_head := ?h\<rparr>)" by auto
  have "mq_overload_threshold q > 0" using assms(1) by (simp add: mq_wf_def)
  from overload_loop_positive [OF this, of ?len "mq_overload q"] obtain o' t' where
    ov: "overload_loop ?len (mq_overload q) (mq_overload_threshold q) = Some (o', t')" "t' > 0"
    by blast
  let ?q = "q\<lparr>mq_head := ?h, mq_overload := o', mq_overload_threshold := t'\<rparr>"
  have "mq_dequeue q = Some (Some m, ?q)"
    using m(1) ne ov(1) unfolding mq_dequeue_def ring_next_def Let_def
    by (auto split: if_splits)
  moreover have "mq_wf ?q" and "mq_contents ?q = ms"
    using m(2,3) ov(2) by (simp_all add: mq_wf_def mq_contents_def)
  ultimately show ?thesis by simp
qed

lemma overload_loop_outcome:
  assumes "threshold > 0"
  shows "\<exists>n o'. overload_loop len overload threshold = Some (o', threshold * 2 ^ n) \<and>
    len \<le> threshold * 2 ^ n \<and>
    (if len \<le> threshold then o' = overload \<and> n = 0 else o' = len)"
proof (cases "len \<le> threshold")
  case True
  then show ?thesis
    by (intro exI [of _ "0 :: nat"] exI [of _ overload]) (simp add: overload_loop.simps)
next
  case False
  from overload_loop_result [OF assms, of len overload] obtain n where
    n: "overload_loop len overload threshold = Some (if n = 0 then overload else len, threshold * 2 ^ n)"
    "len \<le> threshold * 2 ^ n" by blast
  with False have "n \<noteq> 0" by (cases n) auto
  with n False show ?thesis by (intro exI [of _ n]) simp
qed

lemma mq_dequeue_overload:
  assumes "mq_wf q" and "mq_contents q = m # ms"
  shows "\<exists>q' n. mq_dequeue q = Some (Some m, q') \<and>
        mq_overload_threshold q' = mq_overload_threshold q * 2 ^ n \<and>
        int (length ms) \<le> mq_overload_threshold q' \<and>
        (if int (length ms) \<le> mq_overload_threshold q
         then mq_overload q' = mq_overload q \<and> mq_overload_threshold q' = mq_overload_threshold q
         else mq_overload q' = int (length ms))"
proof -
  let ?h = "ring_next (mq_cap q) (mq_head q)"
  let ?len0 = "int (mq_tail q) - int ?h"
  let ?len = "if ?len0 < 0 then ?len0 + int (mq_cap q) else ?len0"
  have ne: "mq_head q \<noteq> mq_tail q"
    using mq_contents_empty_iff [OF assms(1)] assms(2) by simp
  from mq_contents_pop [OF assms(1) ne] assms(2) have m:
    "read_cell (mq_queue q) (mq_head q) = Some m"
    "mq_contents (q\<lparr>mq_head := ?h\<rparr>) = ms" "mq_wf (q\<lparr>mq_head := ?h\<rparr>)" by auto
  have len: "?len = int (length ms)"
    using mq_length_contents [OF m(3)] m(2,3) by (auto simp: mq_length_def mq_wf_def)
  have "mq_overload_threshold q > 0" using assms(1) by (simp add: mq_wf_def)
  from overload_loop_outcome [OF this, of ?len "mq_overload q"] obtain n o' where
    ov: "overload_loop ?len (mq_overload q) (mq_overload_threshold q) =
      Some (o', mq_overload_threshold q * 2 ^ n)"
    "?len \<le> mq_overload_threshold q * 2 ^ n"
    "if ?len \<le> mq_overload_threshold q then o' = mq_overload q \<and> n = 0 else o' = ?len"
    by blast
  have "mq_dequeue q = Some (Some m, q\<lparr>mq_head := ?h, mq_overload := o',
      mq_overload_threshold := mq_overload_threshold q * 2 ^ n\<rparr>)"
    using m(1) ne ov(1) unfolding mq_dequeue_def ring_next_def Let_def
    by (auto split: if_splits)
  with ov(2,3) show ?thesis unfolding len by (auto split: if_splits)
qed

lemma mq_dequeue_empty:
  assumes "mq_wf q" and "mq_contents q = []"
  shows "mq_dequeue q = Some (None, q\<lparr>mq_overload_threshold := MQ_OVERLOAD, mq_in_global := False\<rparr>)"
  using assms by (simp add: mq_dequeue_def mq_contents_empty_iff)

lemma mq_expand_contents:
  assumes "0 < mq_cap q" and "length (mq_queue q) = mq_cap q"
    and "list_all (\<lambda>c. c \<noteq> None) (ring_cells (mq_queue q) (mq_cap q) (mq_head q) (mq_cap q))"
    and "0 < mq_overload_threshold q"
  shows "mq_wf (mq_expand q) \<and>
    mq_contents (mq_expand q) = map the (ring_cells (mq_queue q) (mq_cap q) (mq_head q) (mq_cap q))"
proof -
  let ?new = "map (\<lambda>i. mq_queue q ! ((mq_head q + i) mod mq_cap q)) [0..<mq_cap q]"
  have new: "?new = ring_cells (mq_queue q) (mq_cap q) (mq_head q) (mq_cap q)"
    by (simp add: ring_cells_def)
  have "ring_cells (?new @ replicate (mq_cap q) None) (mq_cap q * 2) 0 (mq_cap q) = ?new"
    using ring_cells_full_from_0 [of ?new "mq_cap q" "replicate (mq_cap q) None"]
    by (simp add: mult_2_right)
  with assms show ?thesis
    by (simp add: mq_expand_def mq_wf_def mq_contents_def ring_len_def new)
qed

lemma mq_enqueue_ok:
  assumes "mq_wf q"
  shows "\<exists>q'. mq_enqueue m q = Some q' \<and> mq_wf q' \<and> mq_contents q' = mq_contents q @ [m] \<and>
     mq_in_global q' = mq_in_global q \<and> mq_release q' = mq_release q \<and>
     mq_next q' = mq_next q \<and> mq_handle q' = mq_handle q"
proof -
  let ?t = "ring_next (mq_cap q) (mq_tail q)"
  let ?q = "q\<lparr>mq_queue := (mq_queue q)[mq_tail q := Some m], mq_tail := ?t\<rparr>"
  let ?n = "ring_len (mq_cap q) (mq_head q) (mq_tail q)"
  have b: "mq_head q < mq_cap q" "mq_tail q < mq_cap q" "length (mq_queue q) = mq_cap q"
    "0 < mq_overload_threshold q"
    using assms by (simp_all add: mq_wf_def)
  have enq: "mq_enqueue m q = Some (if mq_head q = ?t then mq_expand ?q else ?q)"
    using b by (simp add: mq_enqueue_def ring_next_def Let_def)
  have cells: "ring_cells (mq_queue ?q) (mq_cap q) (mq_head q) (Suc ?n) =
      ring_cells (mq_queue q) (mq_cap q) (mq_head q) ?n @ [Some m]"
    using b by (simp add: ring_cells_push)
  have full: "Suc ?n = mq_cap q" if "mq_head q = ?t"
    using ring_len_full [OF b(1,2) that] .
  show ?thesis
  proof (cases "mq_head q = ?t")
    case True
    have "mq_wf (mq_expand ?q) \<and> mq_contents (mq_expand ?q) =
        map the (ring_cells (mq_queue ?q) (mq_cap ?q) (mq_head ?q) (mq_cap ?q))"
      by (rule mq_expand_contents)
        (use b cells full [OF True] assms in \<open>auto simp: mq_wf_def\<close>)
    with True enq cells full [OF True] show ?thesis
      by (simp add: mq_contents_def) (simp add: mq_expand_def)
  next
    case False
    then have "ring_len (mq_cap q) (mq_head q) ?t = Suc ?n"
      using b by (intro ring_len_next_tail)
    with False enq cells b assms show ?thesis
      by (auto simp: mq_wf_def mq_contents_def ring_next_less)
  qed
qed

interpretation mailbox: fifo_queue mq_enqueue mq_dequeue mq_contents mq_wf
proof unfold_locales
  fix q :: message_queue and m ms
  assume wf: "mq_wf q"
  show "\<exists>q'. mq_enqueue m q = Some q' \<and> mq_wf q' \<and> mq_contents q' = mq_contents q @ [m]"
    using mq_enqueue_ok [OF wf] by blast
  show "\<exists>q'. mq_dequeue q = Some (None, q') \<and> mq_wf q' \<and> mq_contents q' = []"
    if "mq_contents q = []"
    using mq_dequeue_empty [OF wf that] wf that by (auto simp: mq_cong MQ_OVERLOAD_def)
  show "\<exists>q'. mq_dequeue q = Some (Some m, q') \<and> mq_wf q' \<and> mq_contents q' = ms"
    if "mq_contents q = m # ms"
    using mq_dequeue_front [OF wf that] by blast
qed

section \<open>Properties\<close>

text \<open>C1. A mailbox is an unbounded first-in first-out queue.  From a new mailbox, every
  sequence of pushes and pops succeeds (no read outside the ring or of a cell never written,
  the overload loop ends) and every pop returns what the list specification returns, across
  any number of doublings of the ring.\<close>

theorem mailbox_is_fifo:
  "\<exists>q'. fifo_run mq_enqueue mq_dequeue ops (mq_new h) = Some (fst (fifo_spec ops []), q') \<and>
     mq_contents q' = snd (fifo_spec ops []) \<and> mq_length q' = int (length (snd (fifo_spec ops [])))"
  using mailbox.run_refines_spec [of "mq_new h" ops] mq_length_contents by auto

text \<open>The overload warning.  A pop that leaves more messages than the threshold records
  that number as the overload and doubles the threshold until it is not below it; a pop that
  leaves no more than the threshold changes neither; a pop of an empty mailbox resets the
  threshold and takes the mailbox off the run queue.\<close>

theorem mailbox_overload:
  assumes "mq_wf q"
  shows "case mq_contents q of
      [] \<Rightarrow> mq_dequeue q =
        Some (None, q\<lparr>mq_overload_threshold := MQ_OVERLOAD, mq_in_global := False\<rparr>)
    | m # ms \<Rightarrow> \<exists>q' n. mq_dequeue q = Some (Some m, q') \<and>
        mq_overload_threshold q' = mq_overload_threshold q * 2 ^ n \<and>
        int (length ms) \<le> mq_overload_threshold q' \<and>
        (if int (length ms) \<le> mq_overload_threshold q
         then mq_overload q' = mq_overload q \<and> mq_overload_threshold q' = mq_overload_threshold q
         else mq_overload q' = int (length ms))"
proof (cases "mq_contents q")
  case Nil
  then show ?thesis using assms by (simp add: mq_dequeue_empty)
next
  case (Cons m ms)
  then show ?thesis using mq_dequeue_overload [OF assms Cons] by simp
qed

theorem mailbox_overload_witness:
  "mq_wf (mq_new 1) \<and> (case mq_contents (mq_new 1) of
      [] \<Rightarrow> mq_dequeue (mq_new 1) =
        Some (None, (mq_new 1)\<lparr>mq_overload_threshold := MQ_OVERLOAD, mq_in_global := False\<rparr>)
    | m # ms \<Rightarrow> \<exists>q' n. mq_dequeue (mq_new 1) = Some (Some m, q') \<and>
        mq_overload_threshold q' = mq_overload_threshold (mq_new 1) * 2 ^ n \<and>
        int (length ms) \<le> mq_overload_threshold q' \<and>
        (if int (length ms) \<le> mq_overload_threshold (mq_new 1)
         then mq_overload q' = mq_overload (mq_new 1) \<and>
           mq_overload_threshold q' = mq_overload_threshold (mq_new 1)
         else mq_overload q' = int (length ms)))"
  using mailbox_overload [of "mq_new 1"] mq_wf_new by simp

end
