(* ===== verification/GlobalQueue.thy ===== *)
theory GlobalQueue
  imports MessageQueue
begin

text \<open>
  The memory of mailboxes, the global run queue threaded through it, and the functions of
  \<open>skynet-src/skynet_mq.c\<close> that take a pointer to a mailbox.  A pointer is an address, the
  memory maps the addresses of the mailboxes that are allocated to their records.
\<close>

section \<open>State and operations\<close>

record mq_state =
  mq_mem :: "addr \<rightharpoonup> message_queue"
  gq_head :: "addr option"
  gq_tail :: "addr option"

definition skynet_mq_init :: mq_state where
  "skynet_mq_init = \<lparr>mq_mem = Map.empty, gq_head = None, gq_tail = None\<rparr>"

definition mq_store :: "addr \<Rightarrow> message_queue \<Rightarrow> mq_state \<Rightarrow> mq_state" where
  "mq_store p q s = s\<lparr>mq_mem := (mq_mem s)(p \<mapsto> q)\<rparr>"

definition skynet_globalmq_push :: "addr \<Rightarrow> mq_state \<Rightarrow> mq_state option" where
  "skynet_globalmq_push p s = do {
     q \<leftarrow> mq_mem s p;
     if mq_next q \<noteq> None then None
     else case gq_tail s of
       Some t \<Rightarrow> do {
         qt \<leftarrow> mq_mem s t;
         Some (mq_store t (qt\<lparr>mq_next := Some p\<rparr>) s\<lparr>gq_tail := Some p\<rparr>)
       }
     | None \<Rightarrow> Some (s\<lparr>gq_head := Some p, gq_tail := Some p\<rparr>)
   }"

definition skynet_globalmq_pop :: "mq_state \<Rightarrow> (addr option \<times> mq_state) option" where
  "skynet_globalmq_pop s =
     (case gq_head s of
        None \<Rightarrow> Some (None, s)
      | Some p \<Rightarrow> do {
          q \<leftarrow> mq_mem s p;
          tail \<leftarrow> (if mq_next q = None
                   then (if gq_tail s = Some p then Some None else None)
                   else Some (gq_tail s));
          Some (Some p, mq_store p (q\<lparr>mq_next := None\<rparr>) s\<lparr>gq_head := mq_next q, gq_tail := tail\<rparr>)
        })"

text \<open>The address \<open>p\<close> is the one \<open>malloc\<close> returned for the new record.\<close>

definition skynet_mq_create :: "addr \<Rightarrow> u32 \<Rightarrow> mq_state \<Rightarrow> mq_state" where
  "skynet_mq_create p handle s = mq_store p (mq_new handle) s"

definition mq_free :: "addr \<Rightarrow> mq_state \<Rightarrow> mq_state option" where
  "mq_free p s = do {
     q \<leftarrow> mq_mem s p;
     if mq_next q \<noteq> None then None else Some (s\<lparr>mq_mem := (mq_mem s)(p := None)\<rparr>)
   }"

definition skynet_mq_handle :: "addr \<Rightarrow> mq_state \<Rightarrow> u32 option" where
  "skynet_mq_handle p s = map_option mq_handle (mq_mem s p)"

definition skynet_mq_length :: "addr \<Rightarrow> mq_state \<Rightarrow> int option" where
  "skynet_mq_length p s = map_option mq_length (mq_mem s p)"

definition skynet_mq_overload :: "addr \<Rightarrow> mq_state \<Rightarrow> (int \<times> mq_state) option" where
  "skynet_mq_overload p s = do {
     q \<leftarrow> mq_mem s p;
     let (overload, q') = mq_take_overload q;
     Some (overload, mq_store p q' s)
   }"

definition skynet_mq_pop :: "addr \<Rightarrow> mq_state \<Rightarrow> (skynet_message option \<times> mq_state) option" where
  "skynet_mq_pop p s = do {
     q \<leftarrow> mq_mem s p;
     (m, q') \<leftarrow> mq_dequeue q;
     Some (m, mq_store p q' s)
   }"

definition skynet_mq_push :: "addr \<Rightarrow> skynet_message \<Rightarrow> mq_state \<Rightarrow> mq_state option" where
  "skynet_mq_push p m s = do {
     q \<leftarrow> mq_mem s p;
     q' \<leftarrow> mq_enqueue m q;
     if \<not> mq_in_global q'
     then skynet_globalmq_push p (mq_store p (q'\<lparr>mq_in_global := True\<rparr>) s)
     else Some (mq_store p q' s)
   }"

definition skynet_mq_mark_release :: "addr \<Rightarrow> mq_state \<Rightarrow> mq_state option" where
  "skynet_mq_mark_release p s = do {
     q \<leftarrow> mq_mem s p;
     if mq_release q then None
     else let s' = mq_store p (q\<lparr>mq_release := True\<rparr>) s
          in if \<not> mq_in_global q then skynet_globalmq_push p s' else Some s'
   }"

text \<open>
  \<open>_drop_queue\<close> calls \<open>drop_func\<close> for every message left.  The callback may change the
  mailboxes and state \<open>'u\<close> of its own (the C code passes it \<open>ud\<close>), and nothing bounds the
  loop if it puts messages back, so the loop is a partial function.
\<close>

partial_function (option) mq_drop_loop ::
  "(skynet_message \<Rightarrow> mq_state \<times> 'u \<Rightarrow> (mq_state \<times> 'u) option) \<Rightarrow> addr \<Rightarrow>
   mq_state \<times> 'u \<Rightarrow> (mq_state \<times> 'u) option" where
  "mq_drop_loop drop_func p su =
     Option.bind (skynet_mq_pop p (fst su)) (\<lambda>(m, s').
       case m of
         None \<Rightarrow> Some (s', snd su)
       | Some msg \<Rightarrow> Option.bind (drop_func msg (s', snd su)) (\<lambda>su'. mq_drop_loop drop_func p su'))"

definition mq_drop_queue ::
  "(skynet_message \<Rightarrow> mq_state \<times> 'u \<Rightarrow> (mq_state \<times> 'u) option) \<Rightarrow> addr \<Rightarrow>
   mq_state \<times> 'u \<Rightarrow> (mq_state \<times> 'u) option" where
  "mq_drop_queue drop_func p su = do {
     (s, u) \<leftarrow> mq_drop_loop drop_func p su;
     s' \<leftarrow> mq_free p s;
     Some (s', u)
   }"

definition skynet_mq_release ::
  "(skynet_message \<Rightarrow> mq_state \<times> 'u \<Rightarrow> (mq_state \<times> 'u) option) \<Rightarrow> addr \<Rightarrow>
   mq_state \<times> 'u \<Rightarrow> (mq_state \<times> 'u) option" where
  "skynet_mq_release drop_func p su = do {
     q \<leftarrow> mq_mem (fst su) p;
     if mq_release q then mq_drop_queue drop_func p su
     else do { s' \<leftarrow> skynet_globalmq_push p (fst su); Some (s', snd su) }
   }"

section \<open>The run queue as a list of addresses\<close>

text \<open>
  \<open>gq_path mem h ps\<close>: following \<open>next\<close> from \<open>h\<close> visits exactly the mailboxes \<open>ps\<close>.
  \<open>gq_list s ps\<close>: the run queue of \<open>s\<close> is the list \<open>ps\<close>, each mailbox at most once, and no
  mailbox outside of it has a successor (what the assertions of the C code need).
\<close>

fun gq_path :: "(addr \<rightharpoonup> message_queue) \<Rightarrow> addr option \<Rightarrow> addr list \<Rightarrow> bool" where
  "gq_path mem h [] \<longleftrightarrow> h = None"
| "gq_path mem h (p # ps) \<longleftrightarrow> h = Some p \<and>
     (case mem p of None \<Rightarrow> False | Some q \<Rightarrow> gq_path mem (mq_next q) ps)"

definition gq_list :: "mq_state \<Rightarrow> addr list \<Rightarrow> bool" where
  "gq_list s ps \<longleftrightarrow> distinct ps \<and> gq_path (mq_mem s) (gq_head s) ps \<and>
     gq_tail s = (if ps = [] then None else Some (last ps)) \<and>
     (\<forall>p q. mq_mem s p = Some q \<longrightarrow> p \<notin> set ps \<longrightarrow> mq_next q = None)"

lemma gq_path_cong:
  "(\<And>p. p \<in> set ps \<Longrightarrow> map_option mq_next (mem' p) = map_option mq_next (mem p)) \<Longrightarrow>
   gq_path mem' h ps = gq_path mem h ps"
proof (induction ps arbitrary: h)
  case Nil
  then show ?case by simp
next
  case (Cons p ps)
  have "map_option mq_next (mem' p) = map_option mq_next (mem p)" using Cons.prems by simp
  moreover have "gq_path mem' n ps = gq_path mem n ps" for n
    by (rule Cons.IH) (rule Cons.prems, simp)
  ultimately show ?case by (cases "mem p"; cases "mem' p") simp_all
qed

lemma gq_path_in_dom: "gq_path mem h ps \<Longrightarrow> set ps \<subseteq> dom mem"
  by (induction ps arbitrary: h) (auto split: option.splits)

lemma gq_path_append:
  "gq_path mem h (ps @ [t]) \<Longrightarrow> t \<notin> set ps \<Longrightarrow> p \<notin> set ps \<Longrightarrow> p \<noteq> t \<Longrightarrow>
   mem t = Some qt \<Longrightarrow> mem p = Some q \<Longrightarrow> mq_next q = None \<Longrightarrow>
   gq_path (mem(t \<mapsto> qt\<lparr>mq_next := Some p\<rparr>)) h (ps @ [t, p])"
  by (induction ps arbitrary: h) (auto split: option.splits)

lemma gq_path_last_next:
  "gq_path mem h (ps @ [t]) \<Longrightarrow> \<exists>qt. mem t = Some qt \<and> mq_next qt = None"
  by (induction ps arbitrary: h) (auto split: option.splits)

lemma gq_list_init: "gq_list skynet_mq_init []"
  by (simp add: gq_list_def skynet_mq_init_def)

text \<open>
  Replacing a mailbox by one with the same successor does not change the run queue; every
  operation on the ring itself is of that kind.
\<close>

lemma gq_list_store:
  assumes "gq_list s ps" and "mq_mem s p = Some q" and "mq_next q' = mq_next q"
  shows "gq_list (mq_store p q' s) ps"
proof -
  have "gq_path (mq_mem (mq_store p q' s)) (gq_head s) ps = gq_path (mq_mem s) (gq_head s) ps"
    by (rule gq_path_cong) (use assms in \<open>auto simp: mq_store_def\<close>)
  with assms show ?thesis by (auto simp: gq_list_def mq_store_def)
qed

lemma gq_list_next_None:
  assumes "gq_list s ps" and "mq_mem s p = Some q" and "p \<notin> set ps"
  shows "mq_next q = None"
  using assms by (auto simp: gq_list_def)

lemma globalmq_push_list:
  assumes "gq_list s ps" and "mq_mem s p = Some q" and "p \<notin> set ps"
  shows "\<exists>s'. skynet_globalmq_push p s = Some s' \<and> gq_list s' (ps @ [p]) \<and>
     (\<forall>a. map_option (mq_next_update (\<lambda>_. None)) (mq_mem s' a) =
          map_option (mq_next_update (\<lambda>_. None)) (mq_mem s a))"
proof (cases ps rule: rev_cases)
  case Nil
  then show ?thesis using assms by (auto simp: gq_list_def skynet_globalmq_push_def)
next
  case (snoc ps' t)
  have tail: "gq_tail s = Some t" and path: "gq_path (mq_mem s) (gq_head s) (ps' @ [t])"
    and nt: "p \<noteq> t" "t \<notin> set ps'" "p \<notin> set ps'"
    using assms snoc by (auto simp: gq_list_def)
  have nx: "mq_next q = None" using gq_list_next_None assms by blast
  from gq_path_last_next [OF path] obtain qt where qt: "mq_mem s t = Some qt" by blast
  let ?s' = "mq_store t (qt\<lparr>mq_next := Some p\<rparr>) s\<lparr>gq_tail := Some p\<rparr>"
  have "skynet_globalmq_push p s = Some ?s'"
    using assms(2) nx tail qt by (simp add: skynet_globalmq_push_def)
  moreover have "gq_list ?s' (ps @ [p])"
    using gq_path_append [OF path nt(2,3,1) qt assms(2) nx] assms(1) snoc nt
    by (auto simp: gq_list_def mq_store_def)
  ultimately show ?thesis using qt by (auto simp: mq_store_def)
qed

lemma globalmq_pop_empty: "gq_list s [] \<Longrightarrow> skynet_globalmq_pop s = Some (None, s)"
  by (simp add: gq_list_def skynet_globalmq_pop_def)

lemma globalmq_pop_list:
  assumes "gq_list s (p # ps)"
  shows "\<exists>s'. skynet_globalmq_pop s = Some (Some p, s') \<and> gq_list s' ps \<and>
     (\<forall>a. map_option (mq_next_update (\<lambda>_. None)) (mq_mem s' a) =
          map_option (mq_next_update (\<lambda>_. None)) (mq_mem s a))"
proof -
  from assms obtain q where q: "mq_mem s p = Some q" "gq_path (mq_mem s) (mq_next q) ps"
    "gq_head s = Some p" "p \<notin> set ps"
    by (auto simp: gq_list_def split: option.splits)
  have tail: "gq_tail s = Some (last (p # ps))" using assms by (simp add: gq_list_def)
  have nx: "mq_next q = None \<longleftrightarrow> ps = []"
    using q(2) by (cases ps) auto
  let ?s' = "mq_store p (q\<lparr>mq_next := None\<rparr>) s\<lparr>gq_head := mq_next q,
     gq_tail := (if ps = [] then None else Some (last ps))\<rparr>"
  have "skynet_globalmq_pop s = Some (Some p, ?s')"
    using q tail nx by (auto simp: skynet_globalmq_pop_def)
  moreover have "gq_path (mq_mem ?s') (mq_next q) ps = gq_path (mq_mem s) (mq_next q) ps"
    by (rule gq_path_cong) (use q(4) in \<open>auto simp: mq_store_def\<close>)
  then have "gq_list ?s' ps"
    using assms q(1,2,4) by (auto simp: gq_list_def mq_store_def)
  ultimately show ?thesis using q(1) by (auto simp: mq_store_def)
qed

section \<open>Emptying a released mailbox\<close>

text \<open>
  A callback that logs the messages it is given, and changes the state in a way \<open>f\<close> that
  leaves the mailbox \<open>p\<close> alone, is called for every message, oldest first; then the mailbox
  is freed.
\<close>

definition log_drop :: "(skynet_message \<Rightarrow> mq_state \<Rightarrow> mq_state) \<Rightarrow> skynet_message \<Rightarrow>
    mq_state \<times> skynet_message list \<Rightarrow> (mq_state \<times> skynet_message list) option" where
  "log_drop f m su = Some (f m (fst su), snd su @ [m])"

lemma mq_drop_loop_log:
  assumes "mq_mem s p = Some q" and "mq_wf q"
    and frame: "\<And>m s. mq_mem (f m s) p = mq_mem s p"
  shows "\<exists>s' q'. mq_drop_loop (log_drop f) p (s, u) = Some (s', u @ mq_contents q) \<and>
     mq_mem s' p = Some q' \<and> mq_contents q' = [] \<and> mq_next q' = mq_next q"
  using assms(1,2)
proof (induction "mq_contents q" arbitrary: s q u)
  case Nil
  let ?q = "q\<lparr>mq_overload_threshold := MQ_OVERLOAD, mq_in_global := False\<rparr>"
  have "skynet_mq_pop p s = Some (None, mq_store p ?q s)"
    using Nil by (simp add: skynet_mq_pop_def mq_dequeue_empty)
  then have "mq_drop_loop (log_drop f) p (s, u) = Some (mq_store p ?q s, u @ mq_contents q)"
    using Nil(1) by (simp add: mq_drop_loop.simps Nil(1) [symmetric])
  then show ?case using Nil by (auto simp: mq_store_def mq_contents_cong)
next
  case (Cons m ms)
  from mq_dequeue_front [OF Cons.prems(2) Cons.hyps(2) [symmetric]] obtain q1 where
    q1: "mq_dequeue q = Some (Some m, q1)" "mq_wf q1" "mq_contents q1 = ms" "mq_next q1 = mq_next q"
    by blast
  let ?s = "f m (mq_store p q1 s)"
  have "mq_mem ?s p = Some q1" by (simp add: frame mq_store_def)
  from Cons.hyps(1) [OF q1(3) [symmetric] this q1(2), of "u @ [m]"] obtain s' q' where
    "mq_drop_loop (log_drop f) p (?s, u @ [m]) = Some (s', (u @ [m]) @ mq_contents q1)"
    "mq_mem s' p = Some q'" "mq_contents q' = []" "mq_next q' = mq_next q1" by blast
  moreover have "skynet_mq_pop p s = Some (Some m, mq_store p q1 s)"
    using Cons.prems(1) q1(1) by (simp add: skynet_mq_pop_def)
  ultimately show ?case
    using q1 Cons.hyps(2) [symmetric]
    by (simp add: mq_drop_loop.simps [of _ p "(s, u)"] log_drop_def)
qed

lemma mq_release_drops_all:
  assumes "mq_mem s p = Some q" and "mq_wf q" and "mq_release q" and "mq_next q = None"
    and "\<And>m s. mq_mem (f m s) p = mq_mem s p"
  shows "\<exists>s'. skynet_mq_release (log_drop f) p (s, u) = Some (s', u @ mq_contents q) \<and>
     mq_mem s' p = None"
proof -
  from mq_drop_loop_log [where f = f, OF assms(1,2,5)] obtain s' q' where
    "mq_drop_loop (log_drop f) p (s, u) = Some (s', u @ mq_contents q)"
    "mq_mem s' p = Some q'" "mq_next q' = None"
    using assms(4) by metis
  then show ?thesis using assms(1,3)
    by (auto simp: skynet_mq_release_def mq_drop_queue_def mq_free_def)
qed

section \<open>Properties\<close>

text \<open>The run queue, a list linked through the mailboxes' own \<open>next\<close> fields, is a
  first-in first-out queue: pushing a mailbox that is not in it succeeds (its assertion holds)
  and appends it, popping removes the oldest one and leaves a list that no mailbox outside of
  it points into.\<close>

theorem run_queue_is_fifo:
  assumes "gq_list s ps"
  shows "(\<forall>p. p \<in> dom (mq_mem s) - set ps \<longrightarrow>
      (\<exists>s'. skynet_globalmq_push p s = Some s' \<and> gq_list s' (ps @ [p]))) \<and>
    (case ps of
       [] \<Rightarrow> skynet_globalmq_pop s = Some (None, s)
     | p # ps' \<Rightarrow> \<exists>s'. skynet_globalmq_pop s = Some (Some p, s') \<and> gq_list s' ps')"
proof (intro conjI allI impI)
  fix p assume "p \<in> dom (mq_mem s) - set ps"
  then show "\<exists>s'. skynet_globalmq_push p s = Some s' \<and> gq_list s' (ps @ [p])"
    using globalmq_push_list [OF assms] by blast
next
  show "case ps of [] \<Rightarrow> skynet_globalmq_pop s = Some (None, s)
     | p # ps' \<Rightarrow> \<exists>s'. skynet_globalmq_pop s = Some (Some p, s') \<and> gq_list s' ps'"
    using assms globalmq_pop_empty globalmq_pop_list by (cases ps) fastforce+
qed

definition two_mailboxes :: mq_state where
  "two_mailboxes = skynet_mq_create 20 2 (skynet_mq_create 10 1 skynet_mq_init)"

lemma two_mailboxes_list: "gq_list two_mailboxes []"
  by (auto simp: two_mailboxes_def gq_list_def skynet_mq_create_def mq_store_def skynet_mq_init_def
      mq_new_def split: if_splits)

theorem run_queue_is_fifo_witness:
  "\<exists>s'. skynet_globalmq_push 10 two_mailboxes = Some s' \<and> gq_list s' [10]"
  using run_queue_is_fifo [OF two_mailboxes_list]
  by (auto simp: two_mailboxes_def skynet_mq_create_def mq_store_def)

text \<open>C35. Releasing a mailbox that is marked for release gives every message left in it to
  the drop callback, each once and oldest first, and then frees the mailbox; the loop ends.
  (The callback logs the messages and may change the other mailboxes as it likes.)\<close>

theorem release_drops_all_messages:
  assumes "mq_mem s p = Some q" and "mq_wf q" and "mq_release q" and "mq_next q = None"
    and "\<And>m s. mq_mem (f m s) p = mq_mem s p"
  shows "\<exists>s'. skynet_mq_release (log_drop f) p (s, u) = Some (s', u @ mq_contents q) \<and>
     mq_mem s' p = None"
  using assms by (rule mq_release_drops_all)

definition released_mailbox :: message_queue where
  "released_mailbox = (the (mq_enqueue \<lparr>msg_source = 5, msg_session = 7, msg_data = 0, msg_sz = 0\<rparr>
     (mq_new 1)))\<lparr>mq_release := True\<rparr>"

lemma released_mailbox_facts:
  "mq_wf released_mailbox" "mq_release released_mailbox" "mq_next released_mailbox = None"
  "mq_contents released_mailbox = [\<lparr>msg_source = 5, msg_session = 7, msg_data = 0, msg_sz = 0\<rparr>]"
proof -
  have "mq_next (mq_new 1) = None"
    by (simp add: mq_new_def)
  then show "mq_wf released_mailbox" "mq_release released_mailbox" "mq_next released_mailbox = None"
    "mq_contents released_mailbox = [\<lparr>msg_source = 5, msg_session = 7, msg_data = 0, msg_sz = 0\<rparr>]"
    using mq_enqueue_ok [OF mq_wf_new, of "\<lparr>msg_source = 5, msg_session = 7, msg_data = 0, msg_sz = 0\<rparr>" 1]
    by (auto simp: released_mailbox_def mq_cong)
qed

theorem release_drops_all_messages_witness:
  "\<exists>s'. skynet_mq_release (log_drop (\<lambda>_ s. s)) 10 (mq_store 10 released_mailbox skynet_mq_init, []) =
     Some (s', [\<lparr>msg_source = 5, msg_session = 7, msg_data = 0, msg_sz = 0\<rparr>]) \<and>
     mq_mem s' 10 = None"
  using release_drops_all_messages
    [of "mq_store 10 released_mailbox skynet_mq_init" 10 released_mailbox "\<lambda>_ s. s" "[]"]
  by (simp add: released_mailbox_facts mq_store_def)

end
