(* ===== verification/Timer.thy ===== *)
theory Timer
  imports MessageQueue
begin

text \<open>
  The timer wheel: \<open>skynet-src/skynet_timer.c\<close>.

  A timer with expiry tick \<open>e\<close> sits in one of 256 near lists when only the low 8 bits of
  \<open>e\<close> differ from the current tick, and otherwise in one of four levels of 64 lists, chosen by
  the highest group of bits that differs.  Each tick first advances the time, moves at most one
  level list down, and then dispatches one near list.  The tick counter is 32 bits wide and
  wraps.  A linked list with a tail pointer (\<open>struct link_list\<close>) is a HOL list.

  The timer lock is released while a list is dispatched, so other threads can add timers at
  that moment: the model lets them, through a parameter \<open>env\<close> that gives the calls that
  happen while the lock is free for the \<open>k\<close>-th time.

  The specification is a list of countdowns: a tick decrements every one and fires those that
  reach 0, in the order in which they were set.
\<close>

section \<open>Data\<close>

definition TIME_NEAR_SHIFT :: nat where "TIME_NEAR_SHIFT = 8"
definition TIME_NEAR :: u32 where "TIME_NEAR = push_bit TIME_NEAR_SHIFT 1"
definition TIME_LEVEL_SHIFT :: nat where "TIME_LEVEL_SHIFT = 6"
definition TIME_LEVEL :: u32 where "TIME_LEVEL = push_bit TIME_LEVEL_SHIFT 1"
definition TIME_NEAR_MASK :: u32 where "TIME_NEAR_MASK = TIME_NEAR - 1"
definition TIME_LEVEL_MASK :: u32 where "TIME_LEVEL_MASK = TIME_LEVEL - 1"

record timer_event =
  te_handle :: u32
  te_session :: int

record timer_node =
  tn_expire :: u32
  tn_event :: timer_event

record timer =
  tm_near :: "timer_node list list"
  tm_t :: "timer_node list list list"
  tm_time :: u32
  tm_starttime :: u32
  tm_current :: u64
  tm_current_point :: u64

text \<open>A message pushed to the mailbox of a handle.\<close>

type_synonym posted = "u32 \<times> skynet_message"

section \<open>Operations\<close>

definition link_node :: "timer_node list \<Rightarrow> timer_node \<Rightarrow> timer_node list" where
  "link_node l node = l @ [node]"

text \<open>The loop of \<open>add_node\<close> that looks for the level.\<close>

function find_level :: "u32 \<Rightarrow> u32 \<Rightarrow> u32 \<Rightarrow> nat \<Rightarrow> nat" where
  "find_level time current_time m i =
     (if i < 3 then
        if (time OR (m - 1)) = (current_time OR (m - 1)) then i
        else find_level time current_time (push_bit TIME_LEVEL_SHIFT m) (Suc i)
      else i)"
  by auto
termination by (relation "measure (\<lambda>(_, _, _, i). 3 - i)") auto

declare find_level.simps [simp del]

definition add_node :: "timer_node \<Rightarrow> timer \<Rightarrow> timer" where
  "add_node node T =
     (let time = tn_expire node; current_time = tm_time T in
      if (time OR TIME_NEAR_MASK) = (current_time OR TIME_NEAR_MASK) then
        let k = unat (time AND TIME_NEAR_MASK) in
        T\<lparr>tm_near := (tm_near T)[k := link_node (tm_near T ! k) node]\<rparr>
      else
        let i = find_level time current_time (push_bit TIME_LEVEL_SHIFT TIME_NEAR) 0;
            j = unat (drop_bit (TIME_NEAR_SHIFT + i * TIME_LEVEL_SHIFT) time AND TIME_LEVEL_MASK)
        in T\<lparr>tm_t := (tm_t T)[i := (tm_t T ! i)[j := link_node (tm_t T ! i ! j) node]]\<rparr>)"

definition timer_add :: "timer_event \<Rightarrow> u32 \<Rightarrow> timer \<Rightarrow> timer" where
  "timer_add ev time T = add_node \<lparr>tn_expire = time + tm_time T, tn_event = ev\<rparr> T"

definition move_list :: "nat \<Rightarrow> nat \<Rightarrow> timer \<Rightarrow> timer" where
  "move_list level idx T =
     fold add_node (tm_t T ! level ! idx) (T\<lparr>tm_t := (tm_t T)[level := (tm_t T ! level)[idx := []]]\<rparr>)"

text \<open>
  The loop of \<open>timer_shift\<close>.  It is entered with a tick that is not 0, so one of the four
  groups of bits above the lowest is not 0 if it goes on; \<open>find_shift\<close> counts the
  levels left and yields \<open>None\<close> past the last.
\<close>

fun find_shift :: "nat \<Rightarrow> u32 \<Rightarrow> u32 \<Rightarrow> u32 \<Rightarrow> nat \<Rightarrow> timer \<Rightarrow> timer option" where
  "find_shift 0 ct m time i T = None"
| "find_shift (Suc n) ct m time i T =
     (if ct AND (m - 1) = 0 then
        let idx = time AND TIME_LEVEL_MASK in
        if idx \<noteq> 0 then Some (move_list i (unat idx) T)
        else find_shift n ct (push_bit TIME_LEVEL_SHIFT m) (drop_bit TIME_LEVEL_SHIFT time) (Suc i) T
      else Some T)"

definition timer_shift :: "timer \<Rightarrow> timer option" where
  "timer_shift T0 =
     (let T = T0\<lparr>tm_time := tm_time T0 + 1\<rparr>; ct = tm_time T in
      if ct = 0 then Some (move_list 3 0 T)
      else find_shift 4 ct TIME_NEAR (drop_bit TIME_NEAR_SHIFT ct) 0 T)"

definition PTYPE_RESPONSE :: nat where "PTYPE_RESPONSE = 1"
definition MESSAGE_TYPE_SHIFT :: nat where "MESSAGE_TYPE_SHIFT = 56"

text \<open>The message that tells a service that its session is answered.\<close>

definition timeout_message :: "int \<Rightarrow> skynet_message" where
  "timeout_message session = \<lparr>msg_source = 0, msg_session = session, msg_data = 0,
     msg_sz = push_bit MESSAGE_TYPE_SHIFT (of_nat PTYPE_RESPONSE)\<rparr>"

definition dispatch_list :: "timer_node list \<Rightarrow> posted list" where
  "dispatch_list = map (\<lambda>n. (te_handle (tn_event n), timeout_message (te_session (tn_event n))))"

text \<open>A call of \<open>skynet_timeout\<close> with a positive time by another thread.\<close>

record timer_call =
  tc_handle :: u32
  tc_session :: int
  tc_time :: u32

definition run_call :: "timer_call \<Rightarrow> timer \<Rightarrow> timer" where
  "run_call c = (if sint (tc_time c) \<le> 0 then id
     else timer_add \<lparr>te_handle = tc_handle c, te_session = tc_session c\<rparr> (tc_time c))"

partial_function (option) timer_execute ::
  "(nat \<Rightarrow> timer_call list) \<Rightarrow> nat \<Rightarrow> timer \<Rightarrow> (posted list \<times> nat \<times> timer) option" where
  "timer_execute env k T =
     (let idx = unat (tm_time T AND TIME_NEAR_MASK) in
      if tm_near T ! idx = [] then Some ([], k, T)
      else do {
        let sent = dispatch_list (tm_near T ! idx);
        (rest, k', T') \<leftarrow> timer_execute env (Suc k)
           (fold run_call (env k) (T\<lparr>tm_near := (tm_near T)[idx := []]\<rparr>));
        Some (sent @ rest, k', T')
      })"

definition timer_update :: "(nat \<Rightarrow> timer_call list) \<Rightarrow> timer \<Rightarrow> (posted list \<times> timer) option" where
  "timer_update env T = do {
     (sent, k, T1) \<leftarrow> timer_execute env 0 T;
     T2 \<leftarrow> timer_shift T1;
     (sent', _, T3) \<leftarrow> timer_execute env k T2;
     Some (sent @ sent', T3)
   }"

definition timer_create_timer :: timer where
  "timer_create_timer = \<lparr>tm_near = replicate 256 [], tm_t = replicate 4 (replicate 64 []),
     tm_time = 0, tm_starttime = 0, tm_current = 0, tm_current_point = 0\<rparr>"

text \<open>
  \<open>skynet_timeout\<close>: the second result is what is posted at once, the first the return value.
  \<open>alive\<close> says which handles \<open>skynet_context_push\<close> still finds.
\<close>

definition skynet_timeout :: "(u32 \<Rightarrow> bool) \<Rightarrow> u32 \<Rightarrow> u32 \<Rightarrow> int \<Rightarrow> timer \<Rightarrow> int \<times> posted list \<times> timer" where
  "skynet_timeout alive handle time session T =
     (if sint time \<le> 0 then
        if alive handle then (session, [(handle, timeout_message session)], T)
        else (- 1, [], T)
      else (session, [], timer_add \<lparr>te_handle = handle, te_session = session\<rparr> time T))"

text \<open>
  The loop of \<open>skynet_updatetime\<close>: before the tick that is the \<open>n\<close>-th from the end other threads
  make the calls \<open>fst (env n)\<close>.
\<close>

fun timer_ticks :: "(nat \<Rightarrow> timer_call list \<times> (nat \<Rightarrow> timer_call list)) \<Rightarrow> nat \<Rightarrow> timer \<Rightarrow>
    (posted list list \<times> timer) option" where
  "timer_ticks env 0 T = Some ([], T)"
| "timer_ticks env (Suc n) T = do {
     (sent, T') \<leftarrow> timer_update (snd (env n)) (fold run_call (fst (env n)) T);
     (rest, T'') \<leftarrow> timer_ticks env n T';
     Some (sent # rest, T'')
   }"

text \<open>The argument \<open>cp\<close> is what \<open>gettime\<close> returns.\<close>

definition skynet_updatetime :: "u64 \<Rightarrow> (nat \<Rightarrow> timer_call list \<times> (nat \<Rightarrow> timer_call list)) \<Rightarrow> timer \<Rightarrow>
    (posted list list \<times> timer) option" where
  "skynet_updatetime cp env T =
     (if cp < tm_current_point T then Some ([], T\<lparr>tm_current_point := cp\<rparr>)
      else if cp \<noteq> tm_current_point T then
        let diff = (ucast (cp - tm_current_point T) :: u32) in
        timer_ticks env (unat diff)
          (T\<lparr>tm_current_point := cp, tm_current := tm_current T + ucast diff\<rparr>)
      else Some ([], T))"

text \<open>The arguments are the second and centisecond of the day and the monotonic clock.\<close>

definition skynet_timer_init :: "u32 \<Rightarrow> u32 \<Rightarrow> u64 \<Rightarrow> timer" where
  "skynet_timer_init sec cs clock = timer_create_timer
     \<lparr>tm_starttime := sec, tm_current := ucast cs, tm_current_point := clock\<rparr>"

definition skynet_starttime :: "timer \<Rightarrow> u32" where "skynet_starttime T = tm_starttime T"
definition skynet_now :: "timer \<Rightarrow> u64" where "skynet_now T = tm_current T"

section \<open>Where a timer sits\<close>

datatype location = Near nat | Level nat nat

definition same_block :: "nat \<Rightarrow> nat \<Rightarrow> nat \<Rightarrow> bool" where
  "same_block k n e \<longleftrightarrow> n div 2 ^ k = e div 2 ^ k"

definition level_of :: "nat \<Rightarrow> nat \<Rightarrow> nat" where
  "level_of n e = (if same_block 14 n e then 0 else if same_block 20 n e then 1
     else if same_block 26 n e then 2 else 3)"

definition place :: "nat \<Rightarrow> nat \<Rightarrow> location" where
  "place n e = (if same_block 8 n e then Near (e mod 256)
     else Level (level_of n e) (e div 2 ^ (8 + 6 * level_of n e) mod 64))"

lemma same_block_mono: "same_block k n e \<Longrightarrow> k \<le> l \<Longrightarrow> same_block l n e"
proof -
  assume "same_block k n e" "k \<le> l"
  then obtain d where "l = k + d" by (auto simp: le_iff_add)
  then show ?thesis using \<open>same_block k n e\<close>
    by (simp add: same_block_def power_add div_mult2_eq)
qed

lemma same_block_top: "n < 2 ^ 32 \<Longrightarrow> e < 2 ^ 32 \<Longrightarrow> same_block 32 n e"
  by (simp add: same_block_def)

lemma or_low_bits_eq:
  fixes a b :: "'a :: len word"
  shows "a OR (2 ^ k - 1) = b OR (2 ^ k - 1) \<longleftrightarrow> same_block k (unat a) (unat b)"
proof -
  have "same_block k (unat a) (unat b) \<longleftrightarrow> drop_bit k a = drop_bit k b"
    by (simp only: same_block_def word_unat_eq_iff unat_drop_bit_div)
  moreover have "drop_bit k a = drop_bit k b \<longleftrightarrow> a OR mask k = b OR mask k"
  proof
    assume d: "drop_bit k a = drop_bit k b"
    show "a OR mask k = b OR mask k"
    proof (rule bit_word_eqI)
      fix n assume "n < LENGTH('a)"
      show "bit (a OR mask k) n = bit (b OR mask k) n"
      proof (cases "n < k")
        case False
        then have "bit a n = bit (drop_bit k a) (n - k)" "bit b n = bit (drop_bit k b) (n - k)"
          by (simp_all add: bit_drop_bit_eq)
        with d False show ?thesis by (simp add: bit_or_iff bit_mask_iff)
      qed (use \<open>n < LENGTH('a)\<close> in \<open>simp add: bit_or_iff bit_mask_iff\<close>)
    qed
  next
    assume d: "a OR mask k = b OR mask k"
    show "drop_bit k a = drop_bit k b"
    proof (rule bit_word_eqI)
      fix n assume "n < LENGTH('a)"
      have "bit (a OR mask k) (k + n) = bit (b OR mask k) (k + n)" by (simp only: d)
      then show "bit (drop_bit k a) n = bit (drop_bit k b) n"
        by (simp add: bit_or_iff bit_mask_iff bit_drop_bit_eq)
    qed
  qed
  ultimately show ?thesis
    by (simp add: mask_eq_exp_minus_1)
qed

lemma level_of_iff:
  assumes "n < 2 ^ 32" "e < 2 ^ 32" "\<not> same_block 8 n e"
  shows "level_of n e = i \<longleftrightarrow> i \<le> 3 \<and> \<not> same_block (8 + 6 * i) n e \<and> same_block (14 + 6 * i) n e"
proof -
  have m: "same_block 14 n e \<Longrightarrow> same_block 20 n e" "same_block 20 n e \<Longrightarrow> same_block 26 n e"
    by (erule same_block_mono; simp)+
  have "i = 0 \<or> i = 1 \<or> i = 2 \<or> i = 3 \<or> 3 < i" by linarith
  then show ?thesis
    using assms(3) same_block_top [OF assms(1,2)] m
    by (elim disjE) (auto simp: level_of_def)
qed

lemma place_Level_iff:
  assumes "n < 2 ^ 32" "e < 2 ^ 32"
  shows "place n e = Level i j \<longleftrightarrow> i \<le> 3 \<and> \<not> same_block (8 + 6 * i) n e \<and>
    same_block (14 + 6 * i) n e \<and> j = e div 2 ^ (8 + 6 * i) mod 64"
proof (cases "same_block 8 n e")
  case True
  then show ?thesis using same_block_mono [of 8 n e "8 + 6 * i"] by (simp add: place_def)
next
  case False
  then have "place n e = Level i j \<longleftrightarrow> level_of n e = i \<and> j = e div 2 ^ (8 + 6 * i) mod 64"
    by (auto simp: place_def)
  then show ?thesis by (simp only: level_of_iff [OF assms False]) blast
qed

lemma place_Near_iff: "place n e = Near k \<longleftrightarrow> same_block 8 n e \<and> k = e mod 256"
  by (auto simp: place_def)

lemma place_cases:
  obtains k where "place n e = Near k" "k < 256"
  | i j where "place n e = Level i j" "i \<le> 3" "j < 64"
  by (cases "same_block 8 n e") (auto simp: place_def level_of_def)

section \<open>How a tick changes the places\<close>

text \<open>An expiry tick that lies ahead of the current one, in the half of the 32-bit circle after it.\<close>

definition ahead :: "nat \<Rightarrow> nat \<Rightarrow> bool" where
  "ahead n e \<longleftrightarrow> (n < e \<and> e - n < 2 ^ 31) \<or> (e < n \<and> e + 2 ^ 32 - n < 2 ^ 31)"

lemma ahead_iff: "ahead (unat n) (unat e) \<longleftrightarrow> 0 < unat (e - n) \<and> unat (e - n) < 2 ^ 31" for n e :: u32
proof -
  have "unat n < 2 ^ 32" "unat e < 2 ^ 32"
    by (rule unsigned_less [THEN less_le_trans], simp)+
  then show ?thesis by (auto simp: ahead_def unat_sub_if')
qed

lemma same_block_close: "same_block k n e \<Longrightarrow> n < e + 2 ^ k"
proof -
  assume "same_block k n e"
  then have "n = 2 ^ k * (e div 2 ^ k) + n mod 2 ^ k"
    using mult_div_mod_eq [of "2 ^ k" n] by (simp add: same_block_def)
  also have "\<dots> < e + 2 ^ k"
    by (rule add_le_less_mono) (simp_all add: times_div_less_eq_dividend)
  finally show ?thesis .
qed

lemma same_block_Suc: "same_block k (Suc n) e \<longleftrightarrow> same_block k n e" if "\<not> 2 ^ k dvd Suc n"
  using that by (simp add: same_block_def div_Suc dvd_eq_mod_eq_0)

lemma ahead_next_block:
  assumes "ahead n e" "2 ^ k dvd Suc n" "k \<le> 26" "n < 2 ^ 32"
  shows "\<not> same_block k n e"
proof
  assume s: "same_block k n e"
  have "e = 2 ^ k * (n div 2 ^ k) + e mod 2 ^ k" using s by (simp add: same_block_def)
  then have "e < 2 ^ k * (n div 2 ^ k) + 2 ^ k" by (metis add_less_cancel_left mod_less_divisor zero_less_numeral zero_less_power)
  also have "\<dots> = 2 ^ k * (Suc n div 2 ^ k)" using assms(2) by (simp add: div_Suc dvd_eq_mod_eq_0)
  finally have "e \<le> n" using assms(2) by simp
  moreover have "n < e + 2 ^ 26"
    using same_block_close [OF same_block_mono [OF s assms(3)]] .
  ultimately show False using assms(1) by (auto simp: ahead_def)
qed

lemma place_same_tick: "\<not> 2 ^ 8 dvd Suc n \<Longrightarrow> place (Suc n) e = place n e"
proof -
  assume "\<not> 2 ^ 8 dvd Suc n"
  then have "\<not> 2 ^ k dvd Suc n" if "8 \<le> k" for k using that by (meson dvd_trans le_imp_power_dvd)
  then have "same_block k (Suc n) e \<longleftrightarrow> same_block k n e" if "8 \<le> k" for k
    using that same_block_Suc by blast
  then show ?thesis by (simp add: place_def level_of_def)
qed

text \<open>
  Crossing a block boundary: exactly the timers of the list that \<open>timer_shift\<close> empties move, and
  they move to lower levels, whose lists hold no other pending timer.
\<close>

lemma place_shift:
  assumes i: "i \<le> 3" and dvd: "2 ^ (8 + 6 * i) dvd Suc n" and ndvd: "\<not> 2 ^ (14 + 6 * i) dvd Suc n"
    and n: "Suc n < 2 ^ 32" and e: "e < 2 ^ 32" and a: "ahead n e"
  defines "moved \<equiv> Level i (Suc n div 2 ^ (8 + 6 * i) mod 64)"
  shows "place n e \<noteq> moved \<Longrightarrow> place (Suc n) e = place n e"
    and "place n e \<noteq> moved \<Longrightarrow> \<exists>k j. place n e = Level k j \<and> i \<le> k"
    and "place n e = moved \<Longrightarrow> (\<exists>k. place (Suc n) e = Near k) \<or> (\<exists>k j. place (Suc n) e = Level k j \<and> k < i)"
proof -
  let ?b = "8 + 6 * i" and ?c = "14 + 6 * i"
  have n': "n < 2 ^ 32" using n by simp
  have far: "\<not> same_block k n e" if "k \<le> ?b" for k
    using ahead_next_block [OF a dvd _ n'] i same_block_mono [of k n e ?b] that by auto
  have up: "same_block k (Suc n) e \<longleftrightarrow> same_block k n e" if "?c \<le> k" for k
    using ndvd le_imp_power_dvd [OF that, of "2 :: nat"] by (intro same_block_Suc) (meson dvd_trans)
  have c: "x div 2 ^ ?c = x div 2 ^ ?b div 64" for x :: nat
    by (simp add: div_mult2_eq [symmetric] power_add)
  have eq: "place n e = moved \<longleftrightarrow> same_block ?b (Suc n) e"
  proof
    assume "place n e = moved"
    then have "same_block ?c n e" "Suc n div 2 ^ ?b mod 64 = e div 2 ^ ?b mod 64"
      by (simp_all add: moved_def place_Level_iff [OF n' e])
    moreover from this(1) have "Suc n div 2 ^ ?b div 64 = e div 2 ^ ?b div 64"
      using up [of ?c] by (simp add: same_block_def flip: c)
    ultimately show "same_block ?b (Suc n) e"
      unfolding same_block_def by (metis div_mult_mod_eq)
  next
    assume s: "same_block ?b (Suc n) e"
    then have "same_block ?c n e" using up [of ?c] same_block_mono [OF s, of ?c] by simp
    with s show "place n e = moved"
      by (simp add: moved_def place_Level_iff [OF n' e] far i) (simp add: same_block_def)
  qed
  have lev: "\<exists>k j. place n e = Level k j \<and> i \<le> k"
  proof (cases rule: place_cases [of n e])
    case (1 k)
    with far [of 8] show ?thesis by (simp add: place_Near_iff)
  next
    case (2 k j)
    then have "\<not> 14 + 6 * k \<le> ?b" using far by (auto simp: place_Level_iff [OF n' e])
    with 2 show ?thesis by auto
  qed
  then show "place n e \<noteq> moved \<Longrightarrow> \<exists>k j. place n e = Level k j \<and> i \<le> k" .
  show "place (Suc n) e = place n e" if "place n e \<noteq> moved"
  proof -
    obtain k j where p: "place n e = Level k j" "i \<le> k" using lev by blast
    have "\<not> same_block (8 + 6 * k) (Suc n) e"
    proof (cases "k = i")
      case False
      with p up [of "8 + 6 * k"] show ?thesis by (simp add: place_Level_iff [OF n' e])
    qed (use that eq in simp)
    with p up [of "14 + 6 * k"] have "place (Suc n) e = Level k j"
      by (simp add: place_Level_iff [OF n' e] place_Level_iff [OF n e])
    with p show ?thesis by simp
  qed
  show "(\<exists>k. place (Suc n) e = Near k) \<or> (\<exists>k j. place (Suc n) e = Level k j \<and> k < i)" if "place n e = moved"
  proof (cases rule: place_cases [of "Suc n" e])
    case (2 k j)
    then have "\<not> ?b \<le> 8 + 6 * k"
      using that eq same_block_mono [of ?b "Suc n" e] by (auto simp: place_Level_iff [OF n e])
    with 2 show ?thesis by auto
  qed auto
qed

lemma place_wrap:
  assumes e: "e < 2 ^ 32" and a: "ahead (2 ^ 32 - 1) e"
  shows "place (2 ^ 32 - 1) e = Level 3 (e div 2 ^ 26)"
    and "e div 2 ^ 26 \<noteq> 0 \<Longrightarrow> place 0 e = Level 3 (e div 2 ^ 26)"
    and "e div 2 ^ 26 = 0 \<Longrightarrow> (\<exists>k. place 0 e = Near k) \<or> (\<exists>k j. place 0 e = Level k j \<and> k < 3)"
proof -
  have "e < 2 ^ 31" using a e by (auto simp: ahead_def)
  then have b: "e div 2 ^ 26 < 32" by (simp add: less_mult_imp_div_less)
  then show "place (2 ^ 32 - 1) e = Level 3 (e div 2 ^ 26)"
    using e by (subst place_Level_iff) (simp_all add: same_block_def)
  show "e div 2 ^ 26 \<noteq> 0 \<Longrightarrow> place 0 e = Level 3 (e div 2 ^ 26)"
    using e b by (subst place_Level_iff) (simp_all add: same_block_def)
  show "(\<exists>k. place 0 e = Near k) \<or> (\<exists>k j. place 0 e = Level k j \<and> k < 3)" if z: "e div 2 ^ 26 = 0"
  proof (cases rule: place_cases [of 0 e])
    case (2 k j)
    then have "k \<noteq> 3" using z place_Level_iff [of 0 e 3 j] e by (auto simp: same_block_def)
    with 2 show ?thesis by auto
  qed auto
qed

section \<open>The wheel invariant\<close>

fun cell :: "timer \<Rightarrow> location \<Rightarrow> timer_node list" where
  "cell T (Near k) = tm_near T ! k"
| "cell T (Level i j) = tm_t T ! i ! j"

fun valid_location :: "location \<Rightarrow> bool" where
  "valid_location (Near k) \<longleftrightarrow> k < 256"
| "valid_location (Level i j) \<longleftrightarrow> i < 4 \<and> j < 64"

definition wheel_shape :: "timer \<Rightarrow> bool" where
  "wheel_shape T \<longleftrightarrow> length (tm_near T) = 256 \<and> length (tm_t T) = 4 \<and> (\<forall>i<4. length (tm_t T ! i) = 64)"

abbreviation node_place :: "u32 \<Rightarrow> timer_node \<Rightarrow> location" where
  "node_place now n \<equiv> place (unat now) (unat (tn_expire n))"

text \<open>
  Every list holds exactly the pending timers whose place it is, in the order in which the
  pending timers were set.
\<close>

definition wheel_holds :: "timer \<Rightarrow> timer_node list \<Rightarrow> bool" where
  "wheel_holds T P \<longleftrightarrow> wheel_shape T \<and>
     (\<forall>loc. valid_location loc \<longrightarrow> cell T loc = filter (\<lambda>n. node_place (tm_time T) n = loc) P)"

lemma valid_place: "valid_location (place n e)"
  by (cases rule: place_cases [of n e]) auto

lemma find_level_eq:
  "find_level time now (push_bit TIME_LEVEL_SHIFT TIME_NEAR) 0 = level_of (unat now) (unat time)"
proof -
  have step: "find_level time now m i = (if (time OR (m - 1)) = (now OR (m - 1)) then i
      else find_level time now (push_bit 6 m) (Suc i))" if "i < 3" for m i
    using that by (simp add: find_level.simps [of time now m i] TIME_LEVEL_SHIFT_def)
  have last: "find_level time now m 3 = 3" for m by (simp add: find_level.simps)
  have bits: "time OR (2 ^ k - 1) = now OR (2 ^ k - 1) \<longleftrightarrow> same_block k (unat now) (unat time)" for k
    by (simp only: or_low_bits_eq) (auto simp: same_block_def)
  have "find_level time now (push_bit TIME_LEVEL_SHIFT TIME_NEAR) 0 = find_level time now (2 ^ 14) 0"
    by (simp add: TIME_NEAR_def TIME_NEAR_SHIFT_def TIME_LEVEL_SHIFT_def)
  also have "\<dots> = (if same_block 14 (unat now) (unat time) then 0 else find_level time now (2 ^ 20) 1)"
    by (subst step) (simp_all only: bits zero_less_numeral, simp)
  also have "find_level time now (2 ^ 20) 1 =
      (if same_block 20 (unat now) (unat time) then 1 else find_level time now (2 ^ 26) 2)"
    by (subst step) (simp_all only: bits, simp_all add: numeral_2_eq_2)
  also have "find_level time now (2 ^ 26) 2 = (if same_block 26 (unat now) (unat time) then 2 else 3)"
    by (subst step) (simp_all only: bits, simp_all add: last flip: numeral_3_eq_3)
  finally show ?thesis by (simp add: level_of_def)
qed

lemma add_node_place:
  "add_node node T = (case node_place (tm_time T) node of
     Near k \<Rightarrow> T\<lparr>tm_near := (tm_near T)[k := tm_near T ! k @ [node]]\<rparr>
   | Level i j \<Rightarrow> T\<lparr>tm_t := (tm_t T)[i := (tm_t T ! i)[j := tm_t T ! i ! j @ [node]]]\<rparr>)"
proof -
  have near: "tn_expire node OR TIME_NEAR_MASK = tm_time T OR TIME_NEAR_MASK \<longleftrightarrow>
      same_block 8 (unat (tm_time T)) (unat (tn_expire node))"
    using or_low_bits_eq [of "tn_expire node" 8 "tm_time T"]
    by (auto simp: TIME_NEAR_MASK_def TIME_NEAR_def TIME_NEAR_SHIFT_def same_block_def)
  have idx: "unat (tn_expire node AND TIME_NEAR_MASK) = unat (tn_expire node) mod 256"
    using unat_and_low_bits [of "tn_expire node" 8]
    by (simp add: TIME_NEAR_MASK_def TIME_NEAR_def TIME_NEAR_SHIFT_def)
  have slot: "unat (drop_bit (TIME_NEAR_SHIFT + i * TIME_LEVEL_SHIFT) (tn_expire node) AND TIME_LEVEL_MASK) =
      unat (tn_expire node) div 2 ^ (8 + 6 * i) mod 64" for i
    using unat_and_low_bits [of "drop_bit (8 + 6 * i) (tn_expire node)" 6]
    by (simp add: TIME_LEVEL_MASK_def TIME_LEVEL_def TIME_LEVEL_SHIFT_def TIME_NEAR_SHIFT_def
        unat_drop_bit_div mult.commute)
  show ?thesis
    by (simp add: add_node_def Let_def near idx slot find_level_eq link_node_def place_def)
qed

lemma add_node_sel [simp]:
  "tm_time (add_node n T) = tm_time T" "tm_starttime (add_node n T) = tm_starttime T"
  "tm_current (add_node n T) = tm_current T" "tm_current_point (add_node n T) = tm_current_point T"
  by (simp_all add: add_node_place split: location.split)

lemma add_node_shape [simp]: "wheel_shape T \<Longrightarrow> wheel_shape (add_node n T)"
  using valid_place [of "unat (tm_time T)" "unat (tn_expire n)"]
  by (auto simp: add_node_place wheel_shape_def nth_list_update split: location.split)

lemma add_node_cell:
  assumes "wheel_shape T" "valid_location loc"
  shows "cell (add_node n T) loc = cell T loc @ (if node_place (tm_time T) n = loc then [n] else [])"
  using assms valid_place [of "unat (tm_time T)" "unat (tn_expire n)"]
  by (cases loc) (auto simp: add_node_place wheel_shape_def nth_list_update split: location.split)

lemma add_nodes:
  assumes "wheel_shape T"
  shows "wheel_shape (fold add_node ns T) \<and> tm_time (fold add_node ns T) = tm_time T \<and>
    tm_starttime (fold add_node ns T) = tm_starttime T \<and> tm_current (fold add_node ns T) = tm_current T \<and>
    tm_current_point (fold add_node ns T) = tm_current_point T \<and>
    (\<forall>loc. valid_location loc \<longrightarrow>
      cell (fold add_node ns T) loc = cell T loc @ filter (\<lambda>n. node_place (tm_time T) n = loc) ns)"
  using assms
  by (induction ns arbitrary: T) (simp_all add: add_node_cell)

lemma wheel_holds_add:
  "wheel_holds T P \<Longrightarrow> wheel_holds (add_node n T) (P @ [n])"
  by (auto simp: wheel_holds_def add_node_cell)

section \<open>Shifting the wheel\<close>

lemma move_list_holds:
  assumes T: "wheel_shape T" and ij: "i < 4" "j < 64"
    and cells: "\<And>loc. valid_location loc \<Longrightarrow> cell T loc = filter (\<lambda>n. old n = loc) P"
    and stay: "\<And>n. n \<in> set P \<Longrightarrow> old n \<noteq> Level i j \<Longrightarrow> node_place (tm_time T) n = old n"
    and apart: "\<And>n m. n \<in> set P \<Longrightarrow> m \<in> set P \<Longrightarrow> old n \<noteq> Level i j \<Longrightarrow> old m = Level i j \<Longrightarrow>
      node_place (tm_time T) m \<noteq> old n"
    and leave: "\<And>m. m \<in> set P \<Longrightarrow> old m = Level i j \<Longrightarrow> node_place (tm_time T) m \<noteq> Level i j"
  shows "wheel_holds (move_list i j T) P \<and> tm_time (move_list i j T) = tm_time T \<and>
    tm_starttime (move_list i j T) = tm_starttime T \<and> tm_current (move_list i j T) = tm_current T \<and>
    tm_current_point (move_list i j T) = tm_current_point T"
proof -
  let ?T0 = "T\<lparr>tm_t := (tm_t T)[i := (tm_t T ! i)[j := []]]\<rparr>"
  let ?ns = "tm_t T ! i ! j"
  have shape: "wheel_shape ?T0" using T ij by (auto simp: wheel_shape_def nth_list_update)
  have ns: "?ns = filter (\<lambda>n. old n = Level i j) P" using cells [of "Level i j"] ij by simp
  have T0: "cell ?T0 loc = (if loc = Level i j then [] else cell T loc)" if "valid_location loc" for loc
    using that ij T by (cases loc) (auto simp: wheel_shape_def nth_list_update)
  have "cell (fold add_node ?ns ?T0) loc = filter (\<lambda>n. node_place (tm_time T) n = loc) P"
    if v: "valid_location loc" for loc
  proof -
    have "cell (fold add_node ?ns ?T0) loc = cell ?T0 loc @ filter (\<lambda>n. node_place (tm_time T) n = loc) ?ns"
      using add_nodes [OF shape, of ?ns] v by simp
    also have "\<dots> = filter (\<lambda>n. node_place (tm_time T) n = loc) P"
    proof (cases "\<exists>m\<in>set P. old m = Level i j \<and> node_place (tm_time T) m = loc")
      case True
      then obtain m where m: "m \<in> set P" "old m = Level i j" "node_place (tm_time T) m = loc" by blast
      then have "loc \<noteq> Level i j" using leave by blast
      moreover have "cell T loc = []"
      proof -
        have "old x \<noteq> loc" if "x \<in> set P" for x
          using apart [OF that m(1) _ m(2)] m(3) \<open>loc \<noteq> Level i j\<close> by metis
        then show ?thesis by (simp add: cells [OF v] filter_empty_conv)
      qed
      moreover have "node_place (tm_time T) n = loc \<longleftrightarrow> old n = Level i j \<and> node_place (tm_time T) n = loc"
        if "n \<in> set P" for n using that m apart stay by metis
      ultimately show ?thesis
        by (auto simp: T0 [OF v] ns intro: filter_cong)
    next
      case False
      then have "filter (\<lambda>n. node_place (tm_time T) n = loc) ?ns = []"
        by (auto simp: ns filter_empty_conv)
      moreover have "cell ?T0 loc = filter (\<lambda>n. node_place (tm_time T) n = loc) P"
      proof (cases "loc = Level i j")
        case True
        with stay leave have "node_place (tm_time T) n \<noteq> loc" if "n \<in> set P" for n using that by metis
        moreover have "cell ?T0 loc = []" using T0 [OF v] by (simp only: True if_True simp_thms)
        ultimately show ?thesis by (simp add: filter_empty_conv del: cell.simps)
      next
        case ne: False
        with False stay have "old n = loc \<longleftrightarrow> node_place (tm_time T) n = loc" if "n \<in> set P" for n
          using that by metis
        then show ?thesis using ne by (auto simp: T0 [OF v] cells [OF v] intro: filter_cong)
      qed
      ultimately show ?thesis by simp
    qed
    finally show ?thesis .
  qed
  then show ?thesis
    using add_nodes [OF shape, of ?ns] by (auto simp: wheel_holds_def move_list_def)
qed

lemma find_shift_cases:
  assumes "ct \<noteq> 0" "n + i = 4" "0 < n"
  shows "(\<not> 2 ^ (8 + 6 * i) dvd unat ct \<and>
      find_shift n ct (2 ^ (8 + 6 * i)) (drop_bit (8 + 6 * i) ct) i T = Some T) \<or>
    (\<exists>k. i \<le> k \<and> k \<le> 3 \<and> 2 ^ (8 + 6 * k) dvd unat ct \<and> \<not> 2 ^ (14 + 6 * k) dvd unat ct \<and>
      find_shift n ct (2 ^ (8 + 6 * i)) (drop_bit (8 + 6 * i) ct) i T =
        Some (move_list k (unat ct div 2 ^ (8 + 6 * k) mod 64) T))"
  using assms
proof (induction n arbitrary: i)
  case (Suc n)
  let ?b = "8 + 6 * i"
  have low: "ct AND (2 ^ ?b - 1) = 0 \<longleftrightarrow> 2 ^ ?b dvd unat ct"
    using unat_and_low_bits [of ct ?b] by (simp add: word_unat_eq_iff dvd_eq_mod_eq_0 of_nat_diff)
  have idx: "unat (drop_bit ?b ct AND TIME_LEVEL_MASK) = unat ct div 2 ^ ?b mod 64"
    using unat_and_low_bits [of "drop_bit ?b ct" 6]
    by (simp add: TIME_LEVEL_MASK_def TIME_LEVEL_def TIME_LEVEL_SHIFT_def unat_drop_bit_div)
  then have nz: "drop_bit ?b ct AND TIME_LEVEL_MASK \<noteq> 0 \<longleftrightarrow> unat ct div 2 ^ ?b mod 64 \<noteq> 0"
    by (metis unat_eq_zero)
  have split: "2 ^ (14 + 6 * i) dvd unat ct \<longleftrightarrow> 2 ^ ?b dvd unat ct \<and> unat ct div 2 ^ ?b mod 64 = 0"
  proof -
    have "(2 :: nat) ^ (14 + 6 * i) = 2 ^ ?b * 64" by (simp add: power_add)
    then show ?thesis by (auto simp: dvd_eq_mod_eq_0 mod_mult2_eq)
  qed
  have next_level: "push_bit TIME_LEVEL_SHIFT (2 ^ ?b :: u32) = 2 ^ (8 + 6 * Suc i)"
    "drop_bit TIME_LEVEL_SHIFT (drop_bit ?b ct) = drop_bit (8 + 6 * Suc i) ct"
    by (simp_all add: TIME_LEVEL_SHIFT_def push_bit_eq_mult power_add algebra_simps)
  have unfold: "find_shift (Suc n) ct (2 ^ ?b) (drop_bit ?b ct) i T =
      (if 2 ^ ?b dvd unat ct then
         if unat ct div 2 ^ ?b mod 64 \<noteq> 0 then Some (move_list i (unat ct div 2 ^ ?b mod 64) T)
         else find_shift n ct (2 ^ (8 + 6 * Suc i)) (drop_bit (8 + 6 * Suc i) ct) (Suc i) T
       else Some T)"
    by (simp only: find_shift.simps Let_def low nz idx next_level)
  show ?case
  proof (cases "2 ^ ?b dvd unat ct \<and> unat ct div 2 ^ ?b mod 64 = 0")
    case True
    have n: "0 < n"
    proof (rule ccontr)
      assume "\<not> 0 < n"
      then have "i = 3" using Suc.prems(2) by simp
      then have "2 ^ 32 dvd unat ct" using True split by simp
      moreover have "unat ct < 2 ^ 32" by (rule unsigned_less [THEN less_le_trans]) simp
      ultimately have "unat ct = 0" using dvd_imp_le [of "2 ^ 32" "unat ct"] by linarith
      then show False using Suc.prems(1) by (simp only: unat_eq_zero)
    qed
    have d: "2 ^ (8 + 6 * Suc i) dvd unat ct" using True split by simp
    have "find_shift (Suc n) ct (2 ^ ?b) (drop_bit ?b ct) i T =
        find_shift n ct (2 ^ (8 + 6 * Suc i)) (drop_bit (8 + 6 * Suc i) ct) (Suc i) T"
      unfolding unfold using True by (simp only: simp_thms if_True if_False)
    moreover have "Suc i \<le> k \<Longrightarrow> i \<le> k" for k by simp
    ultimately show ?thesis
      using Suc.IH [OF Suc.prems(1) _ n, of "Suc i"] Suc.prems(2) d by (metis add_Suc_shift)
  next
    case False
    show ?thesis
    proof (cases "2 ^ ?b dvd unat ct")
      case dvd: True
      with False have "\<not> 2 ^ (14 + 6 * i) dvd unat ct"
        "find_shift (Suc n) ct (2 ^ ?b) (drop_bit ?b ct) i T =
          Some (move_list i (unat ct div 2 ^ ?b mod 64) T)"
        by (simp_all only: unfold split simp_thms if_True not_False_eq_True)
      with dvd Suc.prems(2) show ?thesis by (intro disjI2 exI [of _ i]) linarith
    next
      case ndvd: False
      then show ?thesis by (simp only: unfold simp_thms if_False)
    qed
  qed
qed simp

text \<open>The selectors that no step of the wheel changes.\<close>

definition same_clock :: "timer \<Rightarrow> timer \<Rightarrow> bool" where
  "same_clock T T' \<longleftrightarrow> tm_starttime T' = tm_starttime T \<and> tm_current T' = tm_current T \<and>
     tm_current_point T' = tm_current_point T"

lemma timer_shift_holds:
  assumes T: "wheel_holds T P"
    and P: "\<And>n. n \<in> set P \<Longrightarrow> ahead (unat (tm_time T)) (unat (tn_expire n))"
  shows "\<exists>T'. timer_shift T = Some T' \<and> wheel_holds T' P \<and> tm_time T' = tm_time T + 1 \<and> same_clock T T'"
proof -
  let ?T = "T\<lparr>tm_time := tm_time T + 1\<rparr>" and ?ct = "tm_time T + 1"
  let ?n = "unat (tm_time T)"
  have lt: "unat w < 2 ^ 32" for w :: u32 by (rule unsigned_less [THEN less_le_trans]) simp
  have cells: "cell ?T loc = filter (\<lambda>n. node_place (tm_time T) n = loc) P" if "valid_location loc" for loc
  proof -
    have "cell ?T loc = cell T loc" by (cases loc) simp_all
    then show ?thesis using T that by (simp add: wheel_holds_def del: cell.simps)
  qed
  have shape: "wheel_shape ?T" using T by (auto simp: wheel_holds_def wheel_shape_def)
  show ?thesis
  proof (cases "?ct = 0")
    case True
    then have n: "?n = 2 ^ 32 - 1"
    proof -
      have "tm_time T = - 1" using True by (simp only: eq_neg_iff_add_eq_0)
      then show ?thesis by (simp add: unsigned_minus_1_eq_mask mask_eq_exp_minus_1)
    qed
    have P': "ahead (2 ^ 32 - 1) (unat (tn_expire m))" if "m \<in> set P" for m using P [OF that] n by simp
    note w = place_wrap [OF lt P']
    have "wheel_holds (move_list 3 0 ?T) P \<and> tm_time (move_list 3 0 ?T) = tm_time ?T \<and>
        tm_starttime (move_list 3 0 ?T) = tm_starttime ?T \<and> tm_current (move_list 3 0 ?T) = tm_current ?T \<and>
        tm_current_point (move_list 3 0 ?T) = tm_current_point ?T"
    proof (rule move_list_holds [OF shape _ _ cells])
      fix m assume m: "m \<in> set P" "node_place (tm_time T) m \<noteq> Level 3 0"
      then show "node_place (tm_time ?T) m = node_place (tm_time T) m"
        using w [OF m(1)] True by (simp add: n)
    next
      fix l m assume m: "l \<in> set P" "m \<in> set P" "node_place (tm_time T) l \<noteq> Level 3 0"
        "node_place (tm_time T) m = Level 3 0"
      then show "node_place (tm_time ?T) m \<noteq> node_place (tm_time T) l"
        using w [OF m(1)] w [OF m(2)] True by (auto simp: n)
    next
      fix m assume m: "m \<in> set P" "node_place (tm_time T) m = Level 3 0"
      then show "node_place (tm_time ?T) m \<noteq> Level 3 0"
        using w [OF m(1)] True by (auto simp: n)
    qed simp_all
    then show ?thesis using True by (simp add: timer_shift_def Let_def same_clock_def)
  next
    case False
    then have n: "unat ?ct = Suc ?n" by (metis add.commute unatSuc)
    have "2 ^ 8 = TIME_NEAR" "(8 :: nat) = TIME_NEAR_SHIFT" by (simp_all add: TIME_NEAR_def TIME_NEAR_SHIFT_def)
    then have shift: "timer_shift T = find_shift 4 ?ct (2 ^ (8 + 6 * 0)) (drop_bit (8 + 6 * 0) ?ct) 0 ?T"
      using False by (simp add: timer_shift_def Let_def)
    from find_shift_cases [OF False, of 4 0 ?T] consider
      "\<not> 2 ^ 8 dvd Suc ?n" "timer_shift T = Some ?T"
    | k where "k \<le> 3" "2 ^ (8 + 6 * k) dvd Suc ?n" "\<not> 2 ^ (14 + 6 * k) dvd Suc ?n"
        "timer_shift T = Some (move_list k (Suc ?n div 2 ^ (8 + 6 * k) mod 64) ?T)"
      unfolding shift n by auto
    then show ?thesis
    proof cases
      case 1
      then have "wheel_holds ?T P"
        using cells shape place_same_tick [OF 1(1)] by (simp add: wheel_holds_def n)
      with 1 show ?thesis by (simp add: same_clock_def)
    next
      case (2 k)
      let ?j = "Suc ?n div 2 ^ (8 + 6 * k) mod 64"
      have "Suc ?n < 2 ^ 32" using lt [of ?ct] by (simp only: n)
      note s = place_shift [OF 2(1-3) this lt P]
      have "wheel_holds (move_list k ?j ?T) P \<and> tm_time (move_list k ?j ?T) = tm_time ?T \<and>
        tm_starttime (move_list k ?j ?T) = tm_starttime ?T \<and> tm_current (move_list k ?j ?T) = tm_current ?T \<and>
        tm_current_point (move_list k ?j ?T) = tm_current_point ?T"
      proof (rule move_list_holds [OF shape _ _ cells])
        show "k < 4" using 2(1) by simp
        fix m assume m: "m \<in> set P" "node_place (tm_time T) m \<noteq> Level k ?j"
        then show "node_place (tm_time ?T) m = node_place (tm_time T) m"
          using s(1) [OF m(1)] by (simp add: n)
      next
        fix l m assume m: "l \<in> set P" "m \<in> set P" "node_place (tm_time T) l \<noteq> Level k ?j"
          "node_place (tm_time T) m = Level k ?j"
        obtain a b where "node_place (tm_time T) l = Level a b" "k \<le> a" using s(2) [OF m(1) m(3)] by blast
        then show "node_place (tm_time ?T) m \<noteq> node_place (tm_time T) l"
          using s(3) [OF m(2) m(4)] by (auto simp: n)
      next
        fix m assume m: "m \<in> set P" "node_place (tm_time T) m = Level k ?j"
        then show "node_place (tm_time ?T) m \<noteq> Level k ?j" using s(3) [OF m] by (auto simp: n)
      qed simp_all
      with 2(4) show ?thesis by (simp add: same_clock_def)
    qed
  qed
qed

section \<open>The countdown specification\<close>

text \<open>Ticks left and the event, in the order in which the timers were set.\<close>

type_synonym countdowns = "(nat \<times> timer_event) list"

definition call_event :: "timer_call \<Rightarrow> timer_event" where
  "call_event c = \<lparr>te_handle = tc_handle c, te_session = tc_session c\<rparr>"

definition spec_calls :: "timer_call list \<Rightarrow> countdowns" where
  "spec_calls cs = map (\<lambda>c. (unat (tc_time c), call_event c)) (filter (\<lambda>c. 0 < sint (tc_time c)) cs)"

definition spec_post :: "nat \<times> timer_event \<Rightarrow> posted" where
  "spec_post = (\<lambda>(_, e). (te_handle e, timeout_message (te_session e)))"

definition spec_tick :: "(nat \<Rightarrow> timer_call list) \<Rightarrow> countdowns \<Rightarrow> posted list \<times> countdowns" where
  "spec_tick env C =
     (let C' = map (\<lambda>(r, e). (r - 1, e)) C;
          due = filter (\<lambda>(r, _). r = 0) C'; rest = filter (\<lambda>(r, _). r \<noteq> 0) C'
      in (map spec_post due, if due = [] then rest else rest @ spec_calls (env 0)))"

definition remaining :: "u32 \<Rightarrow> timer_node \<Rightarrow> nat \<times> timer_event" where
  "remaining now n = (unat (tn_expire n - now), tn_event n)"

text \<open>The wheel \<open>T\<close> represents the countdowns \<open>C\<close>.\<close>

definition wheel_repr :: "timer \<Rightarrow> countdowns \<Rightarrow> bool" where
  "wheel_repr T C \<longleftrightarrow> (\<exists>P. wheel_holds T P \<and> C = map (remaining (tm_time T)) P \<and>
     (\<forall>n\<in>set P. ahead (unat (tm_time T)) (unat (tn_expire n))))"

lemma sint_positive: "0 < sint w \<Longrightarrow> 0 < unat w \<and> unat w < 2 ^ 31" for w :: u32
proof -
  assume pos: "0 < sint w"
  moreover have lt: "sint w < 2 ^ 31" using sint_lt [of w] by simp
  ultimately have "uint w = sint w" by (simp add: uint_sint take_bit_int_eq_self)
  with pos lt show ?thesis by (simp add: unat_eq_nat_uint nat_less_iff)
qed

definition call_node :: "u32 \<Rightarrow> timer_call \<Rightarrow> timer_node" where
  "call_node now c = \<lparr>tn_expire = tc_time c + now, tn_event = call_event c\<rparr>"

lemma run_calls_holds:
  "wheel_holds T P \<Longrightarrow>
   wheel_holds (fold run_call cs T) (P @ map (call_node (tm_time T)) (filter (\<lambda>c. 0 < sint (tc_time c)) cs)) \<and>
   tm_time (fold run_call cs T) = tm_time T \<and> same_clock T (fold run_call cs T)"
proof (induction cs arbitrary: T P)
  case (Cons c cs)
  show ?case
  proof (cases "0 < sint (tc_time c)")
    case True
    then have r: "run_call c T = add_node (call_node (tm_time T) c) T"
      by (simp add: run_call_def timer_add_def call_node_def call_event_def)
    show ?thesis
      using Cons.IH [OF wheel_holds_add [OF Cons.prems, of "call_node (tm_time T) c"]] True
      by (simp add: r same_clock_def)
  next
    case False
    then show ?thesis using Cons.IH [OF Cons.prems] by (simp add: run_call_def)
  qed
qed (simp add: same_clock_def)

lemma call_node_ahead: "0 < sint (tc_time c) \<Longrightarrow> ahead (unat now) (unat (tn_expire (call_node now c)))"
  using sint_positive [of "tc_time c"] by (simp add: ahead_iff call_node_def)

lemma remaining_call_node: "remaining now (call_node now c) = (unat (tc_time c), call_event c)"
  by (simp add: remaining_def call_node_def)

lemma not_ahead_self: "\<not> ahead n n"
  by (simp add: ahead_def)

lemma near_due:
  assumes "wheel_holds T P"
  shows "tm_near T ! unat (tm_time T AND TIME_NEAR_MASK) = filter (\<lambda>n. tn_expire n = tm_time T) P"
proof -
  have idx: "unat (tm_time T AND TIME_NEAR_MASK) = unat (tm_time T) mod 256"
    using unat_and_low_bits [of "tm_time T" 8]
    by (simp add: TIME_NEAR_MASK_def TIME_NEAR_def TIME_NEAR_SHIFT_def)
  have "place n e = Near (n mod 256) \<longleftrightarrow> e = n" for n e
  proof -
    have "n div 256 = e div 256 \<Longrightarrow> n mod 256 = e mod 256 \<Longrightarrow> e = n" by (metis div_mult_mod_eq)
    then show ?thesis by (auto simp: place_Near_iff same_block_def)
  qed
  then have "node_place (tm_time T) n = Near (unat (tm_time T) mod 256) \<longleftrightarrow> tn_expire n = tm_time T" for n
    by (simp add: word_unat_eq_iff)
  moreover have "cell T (Near (unat (tm_time T) mod 256)) =
      filter (\<lambda>n. node_place (tm_time T) n = Near (unat (tm_time T) mod 256)) P"
    using assms unfolding wheel_holds_def by (metis valid_location.simps(1) mod_less_divisor zero_less_numeral)
  ultimately show ?thesis by (simp add: idx)
qed

lemma timer_execute_idle:
  "wheel_holds T P \<Longrightarrow> (\<forall>n\<in>set P. tn_expire n \<noteq> tm_time T) \<Longrightarrow> timer_execute env k T = Some ([], k, T)"
  by (subst timer_execute.simps) (simp add: near_due filter_empty_conv)

lemma wheel_holds_clear:
  assumes "wheel_holds T P"
  shows "wheel_holds (T\<lparr>tm_near := (tm_near T)[unat (tm_time T AND TIME_NEAR_MASK) := []]\<rparr>)
    (filter (\<lambda>n. tn_expire n \<noteq> tm_time T) P)"
proof -
  let ?k = "unat (tm_time T AND TIME_NEAR_MASK)"
  have k: "?k = unat (tm_time T) mod 256"
    using unat_and_low_bits [of "tm_time T" 8]
    by (simp add: TIME_NEAR_MASK_def TIME_NEAR_def TIME_NEAR_SHIFT_def)
  have len: "length (tm_near T) = 256" using assms by (simp add: wheel_holds_def wheel_shape_def)
  have self: "place (unat (tm_time T)) (unat (tm_time T)) = Near ?k" by (simp add: place_Near_iff same_block_def k)
  have "cell (T\<lparr>tm_near := (tm_near T)[?k := []]\<rparr>) loc =
      filter (\<lambda>n. node_place (tm_time T) n = loc) (filter (\<lambda>n. tn_expire n \<noteq> tm_time T) P)"
    if v: "valid_location loc" for loc
  proof (cases "loc = Near ?k")
    case True
    have "filter (\<lambda>n. node_place (tm_time T) n = loc) P = filter (\<lambda>n. tn_expire n = tm_time T) P"
    proof -
      have "filter (\<lambda>n. node_place (tm_time T) n = loc) P = cell T loc"
        using assms v unfolding wheel_holds_def by metis
      also have "\<dots> = tm_near T ! ?k" using True by simp
      also note near_due [OF assms]
      finally show ?thesis .
    qed
    then have "filter (\<lambda>n. tn_expire n \<noteq> tm_time T) (filter (\<lambda>n. node_place (tm_time T) n = loc) P) = []"
      by (auto simp: filter_empty_conv)
    then show ?thesis
      using True by (simp add: len k filter_filter conj_commute)
  next
    case False
    have "filter (\<lambda>n. node_place (tm_time T) n = loc) P =
        filter (\<lambda>n. node_place (tm_time T) n = loc) (filter (\<lambda>n. tn_expire n \<noteq> tm_time T) P)"
      using False self by (auto simp: filter_filter intro!: filter_cong)
    moreover have "cell (T\<lparr>tm_near := (tm_near T)[?k := []]\<rparr>) loc = cell T loc"
      using False by (cases loc) auto
    ultimately show ?thesis using assms v by (simp add: wheel_holds_def del: cell.simps filter_filter)
  qed
  then show ?thesis using assms by (simp add: wheel_holds_def wheel_shape_def)
qed

lemma timer_execute_due:
  fixes env :: "nat \<Rightarrow> timer_call list" and k :: nat
  assumes T: "wheel_holds T P" and due: "filter (\<lambda>n. tn_expire n = tm_time T) P \<noteq> []"
  defines "added \<equiv> map (call_node (tm_time T)) (filter (\<lambda>c. 0 < sint (tc_time c)) (env k))"
  shows "\<exists>T'. timer_execute env k T =
      Some (dispatch_list (filter (\<lambda>n. tn_expire n = tm_time T) P), Suc k, T') \<and>
    wheel_holds T' (filter (\<lambda>n. tn_expire n \<noteq> tm_time T) P @ added) \<and> tm_time T' = tm_time T \<and> same_clock T T'"
proof -
  let ?T0 = "T\<lparr>tm_near := (tm_near T)[unat (tm_time T AND TIME_NEAR_MASK) := []]\<rparr>"
  let ?T1 = "fold run_call (env k) ?T0"
  from run_calls_holds [OF wheel_holds_clear [OF T], of "env k"]
  have T1: "wheel_holds ?T1 (filter (\<lambda>n. tn_expire n \<noteq> tm_time T) P @ added)" "tm_time ?T1 = tm_time T"
    "same_clock T ?T1"
    by (simp_all add: added_def same_clock_def)
  have "tn_expire n \<noteq> tm_time T" if "n \<in> set added" for n
    using that call_node_ahead not_ahead_self by (auto simp: added_def) metis
  then have "timer_execute env (Suc k) ?T1 = Some ([], Suc k, ?T1)"
    by (intro timer_execute_idle [OF T1(1)]) (auto simp: T1(2))
  then have "timer_execute env k T = Some (dispatch_list (filter (\<lambda>n. tn_expire n = tm_time T) P), Suc k, ?T1)"
    using due by (subst timer_execute.simps) (simp add: near_due [OF T])
  with T1 show ?thesis by blast
qed

lemma dispatch_remaining: "dispatch_list P = map spec_post (map (remaining now) P)"
  by (simp add: dispatch_list_def spec_post_def remaining_def)

lemma ahead_next:
  fixes now e :: u32
  assumes "ahead (unat now) (unat e)"
  shows "unat (e - now) - 1 = unat (e - (now + 1))" and "unat (e - now) - 1 = 0 \<longleftrightarrow> e = now + 1"
    and "e \<noteq> now + 1 \<Longrightarrow> ahead (unat (now + 1)) (unat e)"
proof -
  have pos: "0 < unat (e - now)" "unat (e - now) < 2 ^ 31" using assms unfolding ahead_iff by blast+
  have "e - now \<noteq> 0" using pos(1) by (metis unat_0 less_irrefl)
  then have "unat (e - now - 1) = unat (e - now) - 1"
    by (rule unat_minus_one)
  then show eq: "unat (e - now) - 1 = unat (e - (now + 1))" by (simp add: algebra_simps)
  have z: "unat (e - (now + 1)) = 0 \<longleftrightarrow> e = now + 1" by (metis unat_eq_zero eq_iff_diff_eq_0)
  then show "unat (e - now) - 1 = 0 \<longleftrightarrow> e = now + 1" by (simp only: eq)
  show "ahead (unat (now + 1)) (unat e)" if "e \<noteq> now + 1"
    using that z pos(2) eq by (simp add: ahead_iff)
qed

lemma timer_update_repr:
  assumes "wheel_repr T C"
  shows "\<exists>T'. timer_update env T = Some (fst (spec_tick env C), T') \<and> wheel_repr T' (snd (spec_tick env C)) \<and>
    tm_time T' = tm_time T + 1 \<and> same_clock T T'"
proof -
  let ?now = "tm_time T" and ?now' = "tm_time T + 1"
  from assms obtain P where P: "wheel_holds T P" "C = map (remaining ?now) P"
    and ahead: "\<And>n. n \<in> set P \<Longrightarrow> ahead (unat ?now) (unat (tn_expire n))"
    by (auto simp: wheel_repr_def)
  let ?D = "filter (\<lambda>n. tn_expire n = ?now') P" and ?R = "filter (\<lambda>n. tn_expire n \<noteq> ?now') P"
  have e1: "timer_execute env 0 T = Some ([], 0, T)"
    using ahead not_ahead_self by (intro timer_execute_idle [OF P(1)]) metis
  obtain T1 where T1: "timer_shift T = Some T1" "wheel_holds T1 P" "tm_time T1 = ?now'" "same_clock T T1"
    using timer_shift_holds [OF P(1) ahead] by blast
  have C': "map (\<lambda>(r, e). (r - 1, e)) C = map (remaining ?now') P"
    using ahead_next(1) [OF ahead] by (simp add: P(2) remaining_def)
  have zero: "unat (tn_expire n - ?now') = 0 \<longleftrightarrow> tn_expire n = ?now'" for n
    by (metis unat_eq_zero eq_iff_diff_eq_0)
  have due: "filter (\<lambda>(r, _). r = 0) (map (remaining ?now') P) = map (remaining ?now') ?D"
    and rest: "filter (\<lambda>(r, _). r \<noteq> 0) (map (remaining ?now') P) = map (remaining ?now') ?R"
    unfolding filter_map comp_def remaining_def prod.case zero by simp_all
  have tick: "spec_tick env C = (dispatch_list ?D,
      if ?D = [] then map (remaining ?now') ?R else map (remaining ?now') ?R @ spec_calls (env 0))"
    unfolding spec_tick_def Let_def C' due rest by (simp add: dispatch_remaining [of _ ?now'])
  have aheadR: "\<And>n. n \<in> set ?R \<Longrightarrow> ahead (unat ?now') (unat (tn_expire n))"
    using ahead_next(3) [OF ahead] by simp
  show ?thesis
  proof (cases "?D = []")
    case True
    then have "?R = P" by (auto simp: filter_empty_conv filter_id_conv)
    have "timer_execute env 0 T1 = Some ([], 0, T1)"
      using True by (intro timer_execute_idle [OF T1(2)]) (auto simp: T1(3) filter_empty_conv)
    then have "timer_update env T = Some ([], T1)" by (simp add: timer_update_def e1 T1(1))
    moreover have "wheel_repr T1 (map (remaining ?now') ?R)"
      using T1(2,3) aheadR \<open>?R = P\<close> unfolding wheel_repr_def by metis
    ultimately show ?thesis using True T1 by (simp add: tick dispatch_list_def)
  next
    case False
    let ?added = "map (call_node ?now') (filter (\<lambda>c. 0 < sint (tc_time c)) (env 0))"
    obtain T2 where T2: "timer_execute env 0 T1 = Some (dispatch_list ?D, Suc 0, T2)"
      "wheel_holds T2 (?R @ ?added)" "tm_time T2 = ?now'" "same_clock T1 T2"
      using timer_execute_due [OF T1(2), of env 0] False by (auto simp: T1(3))
    have "timer_update env T = Some (dispatch_list ?D, T2)" by (simp add: timer_update_def e1 T1(1) T2(1))
    moreover have "map (remaining ?now') ?added = spec_calls (env 0)"
      by (simp add: spec_calls_def remaining_call_node)
    moreover have "\<forall>n\<in>set (?R @ ?added). ahead (unat ?now') (unat (tn_expire n))"
      using aheadR by (auto intro: call_node_ahead)
    ultimately have "wheel_repr T2 (map (remaining ?now') ?R @ spec_calls (env 0))"
      using T2(2,3) unfolding wheel_repr_def by (metis map_append)
    with \<open>timer_update env T = _\<close> show ?thesis
      using False T1(4) T2 by (simp add: tick same_clock_def)
  qed
qed

lemma wheel_repr_init: "wheel_repr (skynet_timer_init sec cs clock) []"
proof -
  have "cell (skynet_timer_init sec cs clock) loc = []" if "valid_location loc" for loc
    using that by (cases loc) (simp_all add: skynet_timer_init_def timer_create_timer_def)
  then show ?thesis
    by (simp add: wheel_repr_def wheel_holds_def wheel_shape_def)
      (simp add: skynet_timer_init_def timer_create_timer_def)
qed

lemma timer_init_sel:
  "tm_current_point (skynet_timer_init sec cs clock) = clock" "skynet_now (skynet_timer_init sec cs clock) = ucast cs"
  by (simp_all add: skynet_timer_init_def skynet_now_def)

lemma wheel_repr_add:
  assumes "wheel_repr T C" "0 < sint time"
  shows "wheel_repr (timer_add ev time T) (C @ [(unat time, ev)]) \<and>
    tm_time (timer_add ev time T) = tm_time T \<and> same_clock T (timer_add ev time T)"
proof -
  from assms(1) obtain P where P: "wheel_holds T P" "C = map (remaining (tm_time T)) P"
    "\<forall>n\<in>set P. ahead (unat (tm_time T)) (unat (tn_expire n))"
    by (auto simp: wheel_repr_def)
  let ?n = "\<lparr>tn_expire = time + tm_time T, tn_event = ev\<rparr>"
  have "ahead (unat (tm_time T)) (unat (tn_expire ?n))"
    using sint_positive [OF assms(2)] by (simp add: ahead_iff)
  then show ?thesis
    using wheel_holds_add [OF P(1), of ?n] P(2,3)
    by (auto simp: timer_add_def wheel_repr_def same_clock_def remaining_def intro!: exI [of _ "P @ [?n]"])
qed

section \<open>Runs\<close>

text \<open>What the threads do with the timer: calls of \<open>skynet_timeout\<close> and ticks.\<close>

datatype timer_op = Timeout u32 u32 int | Tick "nat \<Rightarrow> timer_call list"

fun timer_run :: "(u32 \<Rightarrow> bool) \<Rightarrow> timer_op list \<Rightarrow> timer \<Rightarrow> ((int \<times> posted list) list \<times> timer) option" where
  "timer_run alive [] T = Some ([], T)"
| "timer_run alive (Timeout h t s # ops) T =
     (case skynet_timeout alive h t s T of (r, sent, T') \<Rightarrow> do {
        (outs, T'') \<leftarrow> timer_run alive ops T';
        Some ((r, sent) # outs, T'')
      })"
| "timer_run alive (Tick env # ops) T = do {
     (sent, T') \<leftarrow> timer_update env T;
     (outs, T'') \<leftarrow> timer_run alive ops T';
     Some ((0, sent) # outs, T'')
   }"

fun spec_run :: "(u32 \<Rightarrow> bool) \<Rightarrow> timer_op list \<Rightarrow> countdowns \<Rightarrow> (int \<times> posted list) list \<times> countdowns" where
  "spec_run alive [] C = ([], C)"
| "spec_run alive (Timeout h t s # ops) C =
     (let ev = \<lparr>te_handle = h, te_session = s\<rparr>;
          (r, sent, C') = (if 0 < sint t then (s, [], C @ [(unat t, ev)])
                           else if alive h then (s, [(h, timeout_message s)], C) else (- 1, [], C));
          (outs, C'') = spec_run alive ops C'
      in ((r, sent) # outs, C''))"
| "spec_run alive (Tick env # ops) C =
     (let (sent, C') = spec_tick env C; (outs, C'') = spec_run alive ops C' in ((0, sent) # outs, C''))"

lemma timer_run_repr:
  assumes "wheel_repr T C"
  shows "\<exists>T'. timer_run alive ops T = Some (fst (spec_run alive ops C), T') \<and>
    wheel_repr T' (snd (spec_run alive ops C))"
  using assms
proof (induction ops arbitrary: T C)
  case (Cons op ops)
  show ?case
  proof (cases op)
    case (Timeout h t s)
    show ?thesis
    proof (cases "0 < sint t")
      case True
      then show ?thesis
        using Cons.IH [of "timer_add \<lparr>te_handle = h, te_session = s\<rparr> t T" "C @ [(unat t, \<lparr>te_handle = h, te_session = s\<rparr>)]"]
          wheel_repr_add [OF Cons.prems True]
        by (auto simp: Timeout skynet_timeout_def split_beta Let_def)
    next
      case False
      then show ?thesis
        using Cons.IH [OF Cons.prems] by (auto simp: Timeout skynet_timeout_def split_beta Let_def)
    qed
  next
    case (Tick env)
    obtain T' where T': "timer_update env T = Some (fst (spec_tick env C), T')" "wheel_repr T' (snd (spec_tick env C))"
      using timer_update_repr [OF Cons.prems] by blast
    then show ?thesis using Cons.IH [OF T'(2)] by (auto simp: Tick split_beta Let_def)
  qed
qed simp

subsection \<open>One timer among others\<close>

text \<open>The operation sets or may set a timer with the event \<open>ev\<close>.\<close>

fun op_uses :: "timer_event \<Rightarrow> timer_op \<Rightarrow> bool" where
  "op_uses ev (Timeout h t s) \<longleftrightarrow> ev = \<lparr>te_handle = h, te_session = s\<rparr>"
| "op_uses ev (Tick env) \<longleftrightarrow> (\<exists>k. \<exists>c\<in>set (env k). call_event c = ev)"

definition is_tick :: "timer_op \<Rightarrow> bool" where
  "is_tick op \<longleftrightarrow> (case op of Tick _ \<Rightarrow> True | _ \<Rightarrow> False)"

definition ticks_left :: "timer_event \<Rightarrow> countdowns \<Rightarrow> nat list" where
  "ticks_left ev C = map fst (filter (\<lambda>p. snd p = ev) C)"

definition event_post :: "timer_event \<Rightarrow> posted" where
  "event_post ev = (te_handle ev, timeout_message (te_session ev))"

lemma spec_post_eq: "spec_post p = event_post ev \<longleftrightarrow> snd p = ev"
  by (auto simp: spec_post_def event_post_def timeout_message_def split: prod.splits)

lemma count_posts: "count_list (map spec_post C) (event_post ev) = length (ticks_left ev C)"
  by (induction C) (simp_all add: spec_post_eq ticks_left_def)

lemma ticks_left_append [simp]: "ticks_left ev (C @ D) = ticks_left ev C @ ticks_left ev D"
  by (simp add: ticks_left_def)

lemma ticks_left_filter:
  "ticks_left ev (filter (\<lambda>(r, _). Q r) (map (\<lambda>(r, e). (r - 1, e)) C)) =
   filter Q (map (\<lambda>r. r - 1) (ticks_left ev C))"
  by (induction C) (auto simp: ticks_left_def)

lemma spec_tick_uses:
  assumes "\<not> op_uses ev (Tick env)"
  shows "ticks_left ev (snd (spec_tick env C)) = filter (\<lambda>r. r \<noteq> 0) (map (\<lambda>r. r - 1) (ticks_left ev C))"
    and "count_list (fst (spec_tick env C)) (event_post ev) =
      length (filter (\<lambda>r. r = 0) (map (\<lambda>r. r - 1) (ticks_left ev C)))"
proof -
  have "ticks_left ev (spec_calls (env 0)) = []"
    using assms by (auto simp: ticks_left_def spec_calls_def filter_empty_conv)
  then show "ticks_left ev (snd (spec_tick env C)) = filter (\<lambda>r. r \<noteq> 0) (map (\<lambda>r. r - 1) (ticks_left ev C))"
    by (simp only: spec_tick_def Let_def snd_conv if_distrib [of "ticks_left ev"] ticks_left_append
        ticks_left_filter append_Nil2 if_cancel)
  show "count_list (fst (spec_tick env C)) (event_post ev) =
      length (filter (\<lambda>r. r = 0) (map (\<lambda>r. r - 1) (ticks_left ev C)))"
    by (simp only: spec_tick_def Let_def fst_conv count_posts ticks_left_filter)
qed

text \<open>A run during which the timer does not run out.\<close>

lemma spec_run_waiting:
  assumes "\<forall>op\<in>set ops. \<not> op_uses ev op"
    and "ticks_left ev C = (if pending then [r] else [])" and "length (filter is_tick ops) < r"
  shows "ticks_left ev (snd (spec_run alive ops C)) =
      (if pending then [r - length (filter is_tick ops)] else []) \<and>
    (\<forall>out\<in>set (fst (spec_run alive ops C)). event_post ev \<notin> set (snd out))"
  using assms
proof (induction ops arbitrary: C r)
  case (Cons op ops)
  show ?case
  proof (cases op)
    case (Timeout h t s)
    let ?ev = "\<lparr>te_handle = h, te_session = s\<rparr>"
    have ne: "?ev \<noteq> ev" and tick: "\<not> is_tick op" using Cons.prems(1) by (auto simp: Timeout is_tick_def)
    then have "event_post ev \<noteq> (h, timeout_message s)"
      by (auto simp: event_post_def timeout_message_def)
    moreover have "ticks_left ev (C @ [(unat t, ?ev)]) = ticks_left ev C"
      using ne by (simp add: ticks_left_def)
    ultimately show ?thesis
      using Cons.IH [of C r] Cons.IH [of "C @ [(unat t, ?ev)]" r] Cons.prems tick
      by (simp add: Timeout split_beta Let_def)
  next
    case (Tick env)
    have tick: "is_tick op" by (simp add: Tick is_tick_def)
    have nu: "\<not> op_uses ev (Tick env)" using Cons.prems(1) Tick by simp
    have r: "1 < r" "length (filter is_tick ops) < r - 1" using Cons.prems(3) tick by simp_all
    have left: "ticks_left ev (snd (spec_tick env C)) = (if pending then [r - 1] else [])"
      using spec_tick_uses(1) [OF nu, of C] Cons.prems(2) r by auto
    have "count_list (fst (spec_tick env C)) (event_post ev) = 0"
      using spec_tick_uses(2) [OF nu, of C] Cons.prems(2) r by auto
    then have "event_post ev \<notin> set (fst (spec_tick env C))" by (simp add: count_list_0_iff)
    moreover have "r - Suc (length (filter is_tick ops)) = r - 1 - length (filter is_tick ops)" by simp
    ultimately show ?thesis
      using Cons.IH [OF _ left r(2)] Cons.prems(1) tick by (simp add: Tick split_beta Let_def)
  qed
qed simp

lemma spec_run_append:
  "spec_run alive (xs @ ys) C =
   (fst (spec_run alive xs C) @ fst (spec_run alive ys (snd (spec_run alive xs C))),
    snd (spec_run alive ys (snd (spec_run alive xs C))))"
proof (induction xs arbitrary: C)
  case (Cons op xs)
  then show ?case by (cases op) (simp_all add: split_beta Let_def)
qed simp

lemma spec_run_one_timer:
  assumes "\<forall>op\<in>set pre. \<not> op_uses ev op" "\<forall>op\<in>set post. \<not> op_uses ev op" "\<not> op_uses ev (Tick env)"
    and "ev = \<lparr>te_handle = h, te_session = s\<rparr>" "0 < sint t" "Suc (length (filter is_tick post)) = unat t"
  shows "\<exists>outs sent. fst (spec_run alive (pre @ Timeout h t s # post @ [Tick env]) []) = outs @ [(0, sent)] \<and>
    (\<forall>out\<in>set outs. event_post ev \<notin> set (snd out)) \<and> count_list sent (event_post ev) = 1"
proof -
  let ?C1 = "snd (spec_run alive pre [])"
  let ?C2 = "?C1 @ [(unat t, ev)]"
  let ?C3 = "snd (spec_run alive post ?C2)"
  have 1: "ticks_left ev ?C1 = [] \<and> (\<forall>out\<in>set (fst (spec_run alive pre [])). event_post ev \<notin> set (snd out))"
    using spec_run_waiting [OF assms(1), of "[]" False "Suc (length (filter is_tick pre))" alive]
    by (simp add: ticks_left_def)
  then have C2: "ticks_left ev ?C2 = [unat t]" by (simp add: ticks_left_def)
  have 2: "ticks_left ev ?C3 = [1] \<and> (\<forall>out\<in>set (fst (spec_run alive post ?C2)). event_post ev \<notin> set (snd out))"
    using spec_run_waiting [OF assms(2), of ?C2 True "unat t" alive] C2 assms(6) by simp
  have 3: "count_list (fst (spec_tick env ?C3)) (event_post ev) = 1"
    using spec_tick_uses(2) [OF assms(3), of ?C3] 2 by simp
  have eq: "fst (spec_run alive (pre @ Timeout h t s # post @ [Tick env]) []) =
      (fst (spec_run alive pre []) @ (s, []) # fst (spec_run alive post ?C2)) @ [(0, fst (spec_tick env ?C3))]"
    using assms(4,5) by (simp add: spec_run_append split_beta Let_def)
  show ?thesis
    unfolding eq by (rule exI, rule exI, rule conjI, rule refl) (use 1 2 3 in auto)
qed

lemma timer_ticks_repr:
  assumes "wheel_repr T C"
  shows "\<exists>outs T' C'. timer_ticks env n T = Some (outs, T') \<and> wheel_repr T' C' \<and> length outs = n \<and>
    tm_time T' = tm_time T + of_nat n \<and> same_clock T T'"
  using assms
proof (induction n arbitrary: T C)
  case (Suc n)
  from Suc.prems obtain P where P: "wheel_holds T P" "\<forall>n\<in>set P. ahead (unat (tm_time T)) (unat (tn_expire n))"
    by (auto simp: wheel_repr_def)
  let ?T = "fold run_call (fst (env n)) T"
  from run_calls_holds [OF P(1), of "fst (env n)"] P(2) have
    "wheel_repr ?T (map (remaining (tm_time T))
       (P @ map (call_node (tm_time T)) (filter (\<lambda>c. 0 < sint (tc_time c)) (fst (env n)))))"
    and T: "tm_time ?T = tm_time T" "same_clock T ?T"
    unfolding wheel_repr_def
    by (auto intro!: exI [of _ "P @ map (call_node (tm_time T)) (filter (\<lambda>c. 0 < sint (tc_time c)) (fst (env n)))"]
        call_node_ahead)
  from timer_update_repr [OF this(1), of "snd (env n)"] obtain sent T1 C1 where
    T1: "timer_update (snd (env n)) ?T = Some (sent, T1)" "wheel_repr T1 C1" "tm_time T1 = tm_time T + 1"
      "same_clock ?T T1" by (auto simp: T(1))
  from Suc.IH [OF T1(2)] obtain outs T' C' where
    "timer_ticks env n T1 = Some (outs, T')" "wheel_repr T' C'" "length outs = n"
    "tm_time T' = tm_time T1 + of_nat n" "same_clock T1 T'" by blast
  with T1 T show ?case by (simp add: same_clock_def algebra_simps) blast
qed (auto simp: same_clock_def)

lemma wheel_repr_clock:
  "wheel_repr T C \<Longrightarrow> wheel_repr (T\<lparr>tm_current_point := a, tm_current := b\<rparr>) C"
proof -
  have "cell (T\<lparr>tm_current_point := a, tm_current := b\<rparr>) loc = cell T loc" for loc by (cases loc) simp_all
  then show "wheel_repr T C \<Longrightarrow> wheel_repr (T\<lparr>tm_current_point := a, tm_current := b\<rparr>) C"
    by (simp add: wheel_repr_def wheel_holds_def wheel_shape_def)
qed

section \<open>Properties\<close>

text \<open>C4. Refinement.  Whatever calls of \<open>skynet_timeout\<close> and ticks the threads make, and
  whatever calls come in while a list is being dispatched, the timer wheel posts at every step
  exactly the messages, in the same order, that a list of countdowns posts: a timer set with
  delay \<open>d > 0\<close> fires at the \<open>d\<close>-th tick, also across the wrap of the 32-bit tick counter, and
  \<open>timer_execute\<close>'s loop ends.\<close>

theorem timer_wheel_refines_countdowns:
  "\<exists>T. timer_run alive ops (skynet_timer_init sec cs clock) = Some (fst (spec_run alive ops []), T)"
  using timer_run_repr [OF wheel_repr_init] by blast

text \<open>C33. Punctuality.  A service that asks for a time-out of \<open>t > 0\<close> ticks, with a session that
  no other call uses, is sent its response exactly once, at the \<open>t\<close>-th tick after the call, and
  not before, whatever else the timer does.\<close>

theorem timeout_fires_once_on_time:
  assumes "ev = \<lparr>te_handle = h, te_session = s\<rparr>"
    and "\<forall>op\<in>set (pre @ post @ [Tick env]). \<not> op_uses ev op"
    and "0 < sint t" and "Suc (length (filter is_tick post)) = unat t"
  shows "\<exists>outs sent T. timer_run alive (pre @ Timeout h t s # post @ [Tick env]) (skynet_timer_init sec cs clock) =
      Some (outs @ [(0, sent)], T) \<and>
    (\<forall>out\<in>set outs. (h, timeout_message s) \<notin> set (snd out)) \<and> count_list sent (h, timeout_message s) = 1"
proof -
  have "event_post ev = (h, timeout_message s)" using assms(1) by (simp add: event_post_def)
  with spec_run_one_timer [of pre ev post env h s t alive] assms timer_run_repr [OF wheel_repr_init]
  show ?thesis by simp metis
qed

theorem timeout_fires_once_on_time_witness:
  "\<exists>outs sent T. timer_run (\<lambda>_. True) [Tick (\<lambda>_. []), Timeout 8 2 41, Timeout 8 1 40, Tick (\<lambda>_. []), Tick (\<lambda>_. [])]
      (skynet_timer_init 0 0 0) = Some (outs @ [(0, sent)], T) \<and> (8, timeout_message 41) \<in> set sent"
proof -
  have "\<exists>outs sent T. timer_run (\<lambda>_. True)
      ([Tick (\<lambda>_. [])] @ Timeout 8 2 41 # [Timeout 8 1 40, Tick (\<lambda>_. [])] @ [Tick (\<lambda>_. [])])
      (skynet_timer_init 0 0 0) = Some (outs @ [(0, sent)], T) \<and>
    (\<forall>out\<in>set outs. (8, timeout_message 41) \<notin> set (snd out)) \<and> count_list sent (8, timeout_message 41) = 1"
  proof (rule timeout_fires_once_on_time [OF refl])
    have "\<lparr>te_handle = 8, te_session = 41\<rparr> \<noteq> \<lparr>te_handle = 8, te_session = 40\<rparr>" by simp
    then show "\<forall>op\<in>set ([Tick (\<lambda>_. [])] @ [Timeout 8 1 40, Tick (\<lambda>_. [])] @ [Tick (\<lambda>_. [])]).
        \<not> op_uses \<lparr>te_handle = 8, te_session = 41\<rparr> op" by simp
    show "0 < sint (2 :: u32)" by simp
    show "Suc (length (filter is_tick [Timeout 8 1 40, Tick (\<lambda>_. [])])) = unat (2 :: u32)"
      by (simp add: is_tick_def)
  qed
  then show ?thesis by (simp only: append_Cons append_Nil) (metis count_notin zero_neq_one)
qed

text \<open>The clock.  When the monotonic clock has advanced, by less than \<open>2 ^ 32\<close> centiseconds,
  \<open>skynet_updatetime\<close> runs one tick per centisecond, and \<open>skynet_now\<close> advances by the same
  amount.\<close>

theorem updatetime_ticks_elapsed_time:
  assumes "wheel_repr T C" and "tm_current_point T \<le> cp" and "unat (cp - tm_current_point T) < 2 ^ 32"
  shows "\<exists>outs T' C'. skynet_updatetime cp env T = Some (outs, T') \<and> wheel_repr T' C' \<and>
    length outs = unat (cp - tm_current_point T) \<and> tm_current_point T' = cp \<and>
    skynet_now T' = skynet_now T + (cp - tm_current_point T) \<and>
    tm_time T' = tm_time T + of_nat (unat (cp - tm_current_point T))"
proof -
  let ?d = "cp - tm_current_point T"
  have d: "unat (ucast ?d :: u32) = unat ?d"
    using assms(3) by (simp add: unsigned_ucast_eq take_bit_nat_eq_self)
  then have d': "ucast (ucast ?d :: u32) = ?d"
    using assms(3) by (simp add: word_unat_eq_iff unsigned_ucast_eq unsigned_take_bit_eq take_bit_nat_eq_self)
  show ?thesis
  proof (cases "cp = tm_current_point T")
    case True
    then show ?thesis using assms(1) by (auto simp: skynet_updatetime_def skynet_now_def)
  next
    case False
    then have "\<not> cp < tm_current_point T" using assms(2) by simp
    then show ?thesis
      using False timer_ticks_repr [OF wheel_repr_clock [OF assms(1), of "tm_current T + ?d" cp], of env "unat ?d"]
      by (auto simp: skynet_updatetime_def Let_def d d' same_clock_def skynet_now_def)
  qed
qed

theorem updatetime_ticks_elapsed_time_witness:
  "\<exists>outs T'. skynet_updatetime 3 (\<lambda>_. ([], \<lambda>_. [])) (skynet_timer_init 9 0 0) = Some (outs, T') \<and>
     length outs = 3 \<and> skynet_now T' = 3"
  using updatetime_ticks_elapsed_time [OF wheel_repr_init, of 9 0 0 3 "\<lambda>_. ([], \<lambda>_. [])"]
  by (auto simp: timer_init_sel)

end
