(* ===== verification/Locks.thy ===== *)
theory Locks
  imports Prelude
begin

text \<open>
  The locks of \<open>skynet-src/spinlock.h\<close> and \<open>skynet-src/rwlock.h\<close> (the versions built without
  \<open>USE_PTHREAD_LOCK\<close>), as step relations in which every access to a lock word by a thread is one
  step.  The \<open>__sync\<close> built-ins are atomic and full barriers, so the accesses are taken in one
  total order.

  A thread calls, enters and leaves: a program counter per thread says where in a lock
  operation it stands.  The locale \<open>transition_system\<close> is the interface under which an invariant
  is proved for every reachable state; both locks, and later the scheduler, instantiate it.
\<close>

section \<open>Reachable states and invariants\<close>

inductive reachable :: "('s \<Rightarrow> bool) \<Rightarrow> ('s \<Rightarrow> 's \<Rightarrow> bool) \<Rightarrow> 's \<Rightarrow> bool" for init step where
  reachable_init: "init s \<Longrightarrow> reachable init step s"
| reachable_step: "reachable init step s \<Longrightarrow> step s s' \<Longrightarrow> reachable init step s'"

locale transition_system =
  fixes init :: "'s \<Rightarrow> bool" and step :: "'s \<Rightarrow> 's \<Rightarrow> bool" and inv :: "'s \<Rightarrow> bool"
  assumes inv_init: "init s \<Longrightarrow> inv s"
    and inv_step: "inv s \<Longrightarrow> step s s' \<Longrightarrow> inv s'"
begin

lemma invariant: "reachable init step s \<Longrightarrow> inv s"
  by (induction rule: reachable.induct) (auto intro: inv_init inv_step)

end

section \<open>The spin lock\<close>

datatype spin_pc = Spin_Idle | Spin_Acquiring | Spin_Holding

record spinlock =
  spin_lock :: int
  spin_pcs :: "nat \<Rightarrow> spin_pc"

definition spinlock_init :: "spinlock \<Rightarrow> bool" where
  "spinlock_init s \<longleftrightarrow> spin_lock s = 0 \<and> spin_pcs s = (\<lambda>_. Spin_Idle)"

definition spin_goto :: "nat \<Rightarrow> spin_pc \<Rightarrow> spinlock \<Rightarrow> spinlock" where
  "spin_goto t pc s = s\<lparr>spin_pcs := (spin_pcs s)(t := pc)\<rparr>"

text \<open>One round of the loop of \<open>spinlock_lock\<close>: \<open>__sync_lock_test_and_set(&lock->lock, 1)\<close>.\<close>

definition spinlock_lock_round :: "nat \<Rightarrow> spinlock \<Rightarrow> spinlock" where
  "spinlock_lock_round t s =
     (let old = spin_lock s; s' = s\<lparr>spin_lock := 1\<rparr> in
      if old \<noteq> 0 then s' else spin_goto t Spin_Holding s')"

definition spinlock_trylock :: "nat \<Rightarrow> spinlock \<Rightarrow> bool \<times> spinlock" where
  "spinlock_trylock t s =
     (let old = spin_lock s; s' = s\<lparr>spin_lock := 1\<rparr> in
      (old = 0, if old = 0 then spin_goto t Spin_Holding s' else s'))"

definition spinlock_unlock :: "nat \<Rightarrow> spinlock \<Rightarrow> spinlock" where
  "spinlock_unlock t s = spin_goto t Spin_Idle (s\<lparr>spin_lock := 0\<rparr>)"

inductive spin_step :: "spinlock \<Rightarrow> spinlock \<Rightarrow> bool" where
  spin_call: "spin_pcs s t = Spin_Idle \<Longrightarrow> spin_step s (spin_goto t Spin_Acquiring s)"
| spin_round: "spin_pcs s t = Spin_Acquiring \<Longrightarrow> spin_step s (spinlock_lock_round t s)"
| spin_try: "spin_pcs s t = Spin_Idle \<Longrightarrow> spin_step s (snd (spinlock_trylock t s))"
| spin_unlock: "spin_pcs s t = Spin_Holding \<Longrightarrow> spin_step s (spinlock_unlock t s)"

definition spin_inv :: "spinlock \<Rightarrow> bool" where
  "spin_inv s \<longleftrightarrow> (spin_lock s = 0 \<longleftrightarrow> (\<forall>t. spin_pcs s t \<noteq> Spin_Holding)) \<and>
     (\<forall>t u. spin_pcs s t = Spin_Holding \<longrightarrow> spin_pcs s u = Spin_Holding \<longrightarrow> t = u)"

interpretation spin: transition_system spinlock_init spin_step spin_inv
proof
  show "spin_inv s" if "spinlock_init s" for s
    using that by (simp add: spinlock_init_def spin_inv_def)
  show "spin_inv s'" if inv: "spin_inv s" and step: "spin_step s s'" for s s'
    using step
  proof cases
    case (spin_call t)
    then have "spin_lock s' = spin_lock s" "spin_pcs s' u = Spin_Holding \<longleftrightarrow> spin_pcs s u = Spin_Holding" for u
      by (simp_all add: spin_goto_def)
    with inv show ?thesis by (simp add: spin_inv_def)
  next
    case (spin_round t)
    with inv show ?thesis
      by (cases "spin_lock s = 0") (auto simp: spin_inv_def spin_goto_def spinlock_lock_round_def Let_def)
  next
    case (spin_try t)
    with inv show ?thesis
      by (cases "spin_lock s = 0") (auto simp: spin_inv_def spin_goto_def spinlock_trylock_def Let_def)
  next
    case (spin_unlock t)
    with inv show ?thesis
      by (auto simp: spin_inv_def spin_goto_def spinlock_unlock_def)
  qed
qed

section \<open>The reader-writer lock\<close>

text \<open>
  A reader waits for \<open>write\<close> to be 0, counts itself in, looks at \<open>write\<close> again and, if a
  writer came in between, counts itself out and starts over.  A writer takes \<open>write\<close> and
  then waits for \<open>read\<close> to be 0.
\<close>

datatype rw_pc =
    RW_Idle
  | R_Wait      \<comment> \<open>in \<open>while(lock->write)\<close>\<close>
  | R_Add       \<comment> \<open>before \<open>__sync_add_and_fetch(&lock->read,1)\<close>\<close>
  | R_Check     \<comment> \<open>before the second test of \<open>lock->write\<close>\<close>
  | R_Undo      \<comment> \<open>before \<open>__sync_sub_and_fetch(&lock->read,1)\<close> of the failed attempt\<close>
  | Reading
  | W_Acquire   \<comment> \<open>in the test-and-set loop\<close>
  | W_Wait      \<comment> \<open>in \<open>while(lock->read)\<close>\<close>
  | Writing

record rwlock =
  rw_write :: int
  rw_read :: int
  rw_pcs :: "nat \<Rightarrow> rw_pc"

definition rwlock_init :: "rwlock \<Rightarrow> bool" where
  "rwlock_init s \<longleftrightarrow> rw_write s = 0 \<and> rw_read s = 0 \<and> rw_pcs s = (\<lambda>_. RW_Idle)"

definition rw_goto :: "nat \<Rightarrow> rw_pc \<Rightarrow> rwlock \<Rightarrow> rwlock" where
  "rw_goto t pc s = s\<lparr>rw_pcs := (rw_pcs s)(t := pc)\<rparr>"

definition rwlock_rlock :: "nat \<Rightarrow> rwlock \<Rightarrow> rwlock" where
  "rwlock_rlock t s =
     (case rw_pcs s t of
        RW_Idle \<Rightarrow> rw_goto t R_Wait s
      | R_Wait \<Rightarrow> if rw_write s \<noteq> 0 then s else rw_goto t R_Add s
      | R_Add \<Rightarrow> rw_goto t R_Check (s\<lparr>rw_read := rw_read s + 1\<rparr>)
      | R_Check \<Rightarrow> if rw_write s \<noteq> 0 then rw_goto t R_Undo s else rw_goto t Reading s
      | R_Undo \<Rightarrow> rw_goto t R_Wait (s\<lparr>rw_read := rw_read s - 1\<rparr>)
      | _ \<Rightarrow> s)"

definition rwlock_wlock :: "nat \<Rightarrow> rwlock \<Rightarrow> rwlock" where
  "rwlock_wlock t s =
     (case rw_pcs s t of
        RW_Idle \<Rightarrow> rw_goto t W_Acquire s
      | W_Acquire \<Rightarrow> if rw_write s \<noteq> 0 then s\<lparr>rw_write := 1\<rparr> else rw_goto t W_Wait (s\<lparr>rw_write := 1\<rparr>)
      | W_Wait \<Rightarrow> if rw_read s \<noteq> 0 then s else rw_goto t Writing s
      | _ \<Rightarrow> s)"

definition rwlock_runlock :: "nat \<Rightarrow> rwlock \<Rightarrow> rwlock" where
  "rwlock_runlock t s = rw_goto t RW_Idle (s\<lparr>rw_read := rw_read s - 1\<rparr>)"

definition rwlock_wunlock :: "nat \<Rightarrow> rwlock \<Rightarrow> rwlock" where
  "rwlock_wunlock t s = rw_goto t RW_Idle (s\<lparr>rw_write := 0\<rparr>)"

inductive rw_step :: "rwlock \<Rightarrow> rwlock \<Rightarrow> bool" where
  rw_rlock: "rw_pcs s t \<in> {RW_Idle, R_Wait, R_Add, R_Check, R_Undo} \<Longrightarrow> rw_step s (rwlock_rlock t s)"
| rw_wlock: "rw_pcs s t \<in> {RW_Idle, W_Acquire, W_Wait} \<Longrightarrow> rw_step s (rwlock_wlock t s)"
| rw_runlock: "rw_pcs s t = Reading \<Longrightarrow> rw_step s (rwlock_runlock t s)"
| rw_wunlock: "rw_pcs s t = Writing \<Longrightarrow> rw_step s (rwlock_wunlock t s)"

inductive_cases rw_stepE: "rw_step s s'"

text \<open>The threads that the counter \<open>read\<close> counts, and those that own \<open>write\<close>.\<close>

definition counted :: "rwlock \<Rightarrow> nat set" where
  "counted s = {t. rw_pcs s t \<in> {R_Check, R_Undo, Reading}}"

definition owners :: "rwlock \<Rightarrow> nat set" where
  "owners s = {t. rw_pcs s t \<in> {W_Wait, Writing}}"

definition rw_inv :: "rwlock \<Rightarrow> bool" where
  "rw_inv s \<longleftrightarrow> finite (counted s) \<and> rw_read s = int (card (counted s)) \<and>
     (rw_write s = 0 \<longleftrightarrow> owners s = {}) \<and> (\<forall>t\<in>owners s. \<forall>u\<in>owners s. t = u) \<and>
     (\<forall>t u. rw_pcs s t = Writing \<longrightarrow> rw_pcs s u \<noteq> Reading)"

lemma rw_goto_sel [simp]:
  "rw_pcs (rw_goto t pc s) = (rw_pcs s)(t := pc)" "rw_read (rw_goto t pc s) = rw_read s"
  "rw_write (rw_goto t pc s) = rw_write s"
  by (simp_all add: rw_goto_def)

lemma counted_goto:
  "counted (rw_goto t pc s) = (if pc \<in> {R_Check, R_Undo, Reading} then insert t (counted s) else counted s - {t})"
  by (auto simp: counted_def)

lemma owners_goto:
  "owners (rw_goto t pc s) = (if pc \<in> {W_Wait, Writing} then insert t (owners s) else owners s - {t})"
  by (auto simp: owners_def)

lemma counted_upd [simp]: "counted (s\<lparr>rw_read := r\<rparr>) = counted s" "counted (s\<lparr>rw_write := r\<rparr>) = counted s"
  by (simp_all add: counted_def)

lemma owners_upd [simp]: "owners (s\<lparr>rw_read := r\<rparr>) = owners s" "owners (s\<lparr>rw_write := r\<rparr>) = owners s"
  by (simp_all add: owners_def)

lemma counted_iff: "t \<in> counted s \<longleftrightarrow> rw_pcs s t \<in> {R_Check, R_Undo, Reading}"
  by (simp add: counted_def)

lemma owners_iff: "t \<in> owners s \<longleftrightarrow> rw_pcs s t \<in> {W_Wait, Writing}"
  by (simp add: owners_def)

lemmas rw_goto_sets = counted_goto owners_goto counted_iff owners_iff insert_absorb

text \<open>Moving a thread between program counters that are neither counted nor owners changes nothing.\<close>

lemma rw_inv_goto:
  assumes "rw_inv s" and "pc \<in> {R_Check, R_Undo, Reading} \<longleftrightarrow> t \<in> counted s"
    and "pc \<in> {W_Wait, Writing} \<longleftrightarrow> t \<in> owners s"
    and "pc = Reading \<Longrightarrow> \<forall>u. rw_pcs s u \<noteq> Writing" and "pc = Writing \<Longrightarrow> \<forall>u. rw_pcs s u \<noteq> Reading"
  shows "rw_inv (rw_goto t pc s)"
proof -
  have "counted (rw_goto t pc s) = counted s" "owners (rw_goto t pc s) = owners s"
    using assms(2,3) by (auto simp: counted_goto owners_goto)
  moreover have "rw_pcs (rw_goto t pc s) v \<noteq> Reading" if w: "rw_pcs (rw_goto t pc s) u = Writing" for u v
  proof (cases "u = t \<or> v = t")
    case True
    then show ?thesis using w assms(4,5) by (cases "u = t"; cases "v = t") auto
  next
    case False
    then show ?thesis using w assms(1) unfolding rw_inv_def by auto
  qed
  ultimately show ?thesis using assms(1) unfolding rw_inv_def rw_goto_sel by metis
qed

lemma rlock_inv: "rw_inv s \<Longrightarrow> rw_pcs s t \<in> {RW_Idle, R_Wait, R_Add, R_Check, R_Undo} \<Longrightarrow> rw_inv (rwlock_rlock t s)"
proof -
  assume inv: "rw_inv s" and pc: "rw_pcs s t \<in> {RW_Idle, R_Wait, R_Add, R_Check, R_Undo}"
  then consider "rw_pcs s t \<in> {RW_Idle, R_Wait}" | "rw_pcs s t = R_Add" | "rw_pcs s t = R_Check" | "rw_pcs s t = R_Undo"
    by blast
  then show ?thesis
  proof cases
    case 1
    with inv show ?thesis
      by (auto simp: rwlock_rlock_def counted_iff owners_iff intro!: rw_inv_goto)
  next
    case 2
    then have "t \<notin> counted s" "t \<notin> owners s" by (simp_all add: counted_iff owners_iff)
    with 2 inv show ?thesis by (auto simp: rwlock_rlock_def rw_inv_def counted_goto owners_goto)
  next
    case 3
    have "\<forall>u. rw_pcs s u \<noteq> Writing" if "rw_write s = 0"
      using inv that by (auto simp: rw_inv_def owners_def)
    then have "rw_write s = 0 \<Longrightarrow> rw_inv (rw_goto t Reading s)"
      using 3 by (intro rw_inv_goto [OF inv]) (simp_all add: counted_iff owners_iff)
    moreover have "rw_inv (rw_goto t R_Undo s)"
      using 3 by (intro rw_inv_goto [OF inv]) (simp_all add: counted_iff owners_iff)
    ultimately show ?thesis using 3 by (simp add: rwlock_rlock_def)
  next
    case 4
    then have "t \<in> counted s" "t \<notin> owners s" by (simp_all add: counted_iff owners_iff)
    moreover from this inv have "int (card (counted s - {t})) = rw_read s - 1"
      by (simp add: rw_inv_def card_Diff_singleton) (metis One_nat_def Suc_leI card_gt_0_iff empty_iff of_nat_1 of_nat_diff)
    ultimately show ?thesis using 4 inv by (auto simp: rwlock_rlock_def rw_inv_def counted_goto owners_goto)
  qed
qed

lemma wlock_inv: "rw_inv s \<Longrightarrow> rw_pcs s t \<in> {RW_Idle, W_Acquire, W_Wait} \<Longrightarrow> rw_inv (rwlock_wlock t s)"
proof -
  assume inv: "rw_inv s" and pc: "rw_pcs s t \<in> {RW_Idle, W_Acquire, W_Wait}"
  then consider "rw_pcs s t = RW_Idle" | "rw_pcs s t = W_Acquire" | "rw_pcs s t = W_Wait" by blast
  then show ?thesis
  proof cases
    case 1
    with inv show ?thesis
      by (auto simp: rwlock_wlock_def counted_iff owners_iff intro!: rw_inv_goto)
  next
    case 2
    show ?thesis
    proof (cases "rw_write s = 0")
      case True
      then have "owners s = {}" using inv by (simp add: rw_inv_def)
      moreover have "t \<notin> counted s" using 2 by (simp add: counted_iff)
      ultimately show ?thesis using 2 True inv
        by (auto simp: rwlock_wlock_def rw_inv_def counted_goto owners_goto)
    next
      case False
      then have "rwlock_wlock t s = s\<lparr>rw_write := 1\<rparr>" using 2 by (simp add: rwlock_wlock_def)
      with inv False show ?thesis by (simp add: rw_inv_def)
    qed
  next
    case 3
    have "\<forall>u. rw_pcs s u \<noteq> Reading" if "rw_read s = 0"
    proof -
      have "finite (counted s)" "rw_read s = int (card (counted s))"
        using inv unfolding rw_inv_def by blast+
      then have "counted s = {}" using that by simp
      then show ?thesis by (auto simp: counted_def)
    qed
    then have "rw_read s = 0 \<Longrightarrow> rw_inv (rw_goto t Writing s)"
      using 3 by (intro rw_inv_goto [OF inv]) (simp_all add: counted_iff owners_iff)
    with 3 inv show ?thesis by (simp add: rwlock_wlock_def)
  qed
qed

lemma runlock_inv: "rw_inv s \<Longrightarrow> rw_pcs s t = Reading \<Longrightarrow> rw_inv (rwlock_runlock t s)"
proof -
  assume inv: "rw_inv s" and pc: "rw_pcs s t = Reading"
  then have "t \<in> counted s" "t \<notin> owners s" by (simp_all add: counted_iff owners_iff)
  moreover from this inv have "int (card (counted s - {t})) = rw_read s - 1"
    by (simp add: rw_inv_def card_Diff_singleton) (metis One_nat_def Suc_leI card_gt_0_iff empty_iff of_nat_1 of_nat_diff)
  ultimately show ?thesis using inv by (auto simp: rwlock_runlock_def rw_inv_def counted_goto owners_goto)
qed

lemma wunlock_inv: "rw_inv s \<Longrightarrow> rw_pcs s t = Writing \<Longrightarrow> rw_inv (rwlock_wunlock t s)"
proof -
  assume inv: "rw_inv s" and pc: "rw_pcs s t = Writing"
  then have "t \<in> owners s" "t \<notin> counted s" by (simp_all add: counted_iff owners_iff)
  moreover from this inv have "owners s - {t} = {}" by (auto simp: rw_inv_def)
  ultimately show ?thesis using inv by (auto simp: rwlock_wunlock_def rw_inv_def counted_goto owners_goto)
qed

interpretation rw: transition_system rwlock_init rw_step rw_inv
proof
  show "rw_inv s" if "rwlock_init s" for s
    using that by (simp add: rwlock_init_def rw_inv_def counted_def owners_def)
  show "rw_inv s'" if "rw_inv s" "rw_step s s'" for s s'
    using that(2,1) by (elim rw_stepE) (auto intro!: rlock_inv wlock_inv runlock_inv wunlock_inv)
qed


section \<open>Properties\<close>

text \<open>Spin lock.  In every reachable state of any number of threads at most one thread holds a
  spin lock, and the lock word is 0 exactly when none does, so that a free lock can be taken.\<close>

theorem spinlock_mutual_exclusion:
  assumes "reachable spinlock_init spin_step s"
  shows "(spin_lock s = 0 \<longleftrightarrow> (\<forall>t. spin_pcs s t \<noteq> Spin_Holding)) \<and>
    (\<forall>t u. spin_pcs s t = Spin_Holding \<longrightarrow> spin_pcs s u = Spin_Holding \<longrightarrow> t = u)"
  using spin.invariant [OF assms] by (simp add: spin_inv_def)

lemma spin_reach:
  assumes "reachable spinlock_init spin_step s"
  shows "spin_pcs s t = Spin_Idle \<Longrightarrow> reachable spinlock_init spin_step (spin_goto t Spin_Acquiring s)"
    and "spin_pcs s t = Spin_Acquiring \<Longrightarrow> reachable spinlock_init spin_step (spinlock_lock_round t s)"
    and "spin_pcs s t = Spin_Idle \<Longrightarrow> reachable spinlock_init spin_step (snd (spinlock_trylock t s))"
  by (rule reachable_step [OF assms], erule spin_step.intros)+

lemma spin_start: "reachable spinlock_init spin_step \<lparr>spin_lock = 0, spin_pcs = \<lambda>_. Spin_Idle\<rparr>"
  by (rule reachable_init) (simp add: spinlock_init_def)

text \<open>Thread 1 takes the lock, thread 2 waits for it.\<close>

definition spin_example :: spinlock where
  "spin_example = spinlock_lock_round 2 (spin_goto 2 Spin_Acquiring
     (snd (spinlock_trylock 1 \<lparr>spin_lock = 0, spin_pcs = \<lambda>_. Spin_Idle\<rparr>)))"

lemma spin_example_reachable: "reachable spinlock_init spin_step spin_example"
  unfolding spin_example_def
  by (intro spin_reach spin_start) (simp_all add: spinlock_trylock_def spin_goto_def)

theorem spinlock_mutual_exclusion_witness:
  "spin_pcs spin_example 1 = Spin_Holding \<and> spin_pcs spin_example 2 = Spin_Acquiring \<and> spin_lock spin_example \<noteq> 0"
proof -
  have "spin_pcs spin_example 1 = Spin_Holding \<and> spin_pcs spin_example 2 = Spin_Acquiring"
    by (simp add: spin_example_def spinlock_trylock_def spin_goto_def spinlock_lock_round_def)
  with spinlock_mutual_exclusion [OF spin_example_reachable] show ?thesis by auto
qed

text \<open>C20. Reader-writer lock.  In every reachable state of any number of threads, while a thread is
  writing no other thread writes and none reads; and the counter \<open>read\<close> is exact, so that it is
  0 when no reader is in its lock or its critical section.\<close>

theorem rwlock_mutual_exclusion:
  assumes "reachable rwlock_init rw_step s"
  shows "(rw_pcs s t = Writing \<longrightarrow> rw_pcs s u \<noteq> Reading \<and> (rw_pcs s u = Writing \<longrightarrow> u = t)) \<and>
    rw_read s = int (card (counted s)) \<and> (rw_write s = 0 \<longleftrightarrow> owners s = {})"
  using rw.invariant [OF assms] by (auto simp: rw_inv_def owners_def)

lemma rw_reach:
  assumes "reachable rwlock_init rw_step s"
  shows "rw_pcs s t \<in> {RW_Idle, R_Wait, R_Add, R_Check, R_Undo} \<Longrightarrow> reachable rwlock_init rw_step (rwlock_rlock t s)"
    and "rw_pcs s t \<in> {RW_Idle, W_Acquire, W_Wait} \<Longrightarrow> reachable rwlock_init rw_step (rwlock_wlock t s)"
  by (rule reachable_step [OF assms], erule rw_step.intros)+

definition rw_start :: rwlock where
  "rw_start = \<lparr>rw_write = 0, rw_read = 0, rw_pcs = \<lambda>_. RW_Idle\<rparr>"

text \<open>Thread 1 has counted itself in as a reader when thread 2 takes \<open>write\<close>; it backs out and
  thread 2 writes.\<close>

definition rw_example :: rwlock where
  "rw_example = rwlock_wlock 2 (rwlock_rlock 1 (rwlock_rlock 1 (rwlock_wlock 2 (rwlock_wlock 2
     (rwlock_rlock 1 (rwlock_rlock 1 (rwlock_rlock 1 rw_start)))))))"

lemma rw_example_reachable: "reachable rwlock_init rw_step rw_example"
proof -
  have "reachable rwlock_init rw_step rw_start"
    by (rule reachable_init) (simp add: rwlock_init_def rw_start_def)
  then show ?thesis
    unfolding rw_example_def
    by (intro rw_reach)
      (simp_all add: rw_start_def rwlock_rlock_def rwlock_wlock_def rw_goto_def)
qed

theorem rwlock_mutual_exclusion_witness:
  "rw_pcs rw_example 2 = Writing \<and> rw_pcs rw_example 1 = R_Wait \<and> rw_read rw_example = int (card (counted rw_example))"
proof -
  have "rw_pcs rw_example 2 = Writing \<and> rw_pcs rw_example 1 = R_Wait"
    by (simp add: rw_example_def rw_start_def rwlock_rlock_def rwlock_wlock_def rw_goto_def)
  with rwlock_mutual_exclusion [OF rw_example_reachable, of 2 1] show ?thesis by auto
qed

end
