(* ===== verification/Bytes.thy ===== *)
theory Bytes
  imports Prelude
begin

text \<open>
  Bytes of machine words, as the C libraries read and write them: a word is put into an array
  byte by byte, most or least significant first, and read back with shifts and ORs.  A Lua
  string or C byte array is a list of \<open>u8\<close>.  A C function that calls \<open>luaL_error\<close> returns
  \<open>Inl\<close> of the message (its arguments not formatted in), otherwise \<open>Inr\<close> of its result.
\<close>

type_synonym bytes = "u8 list"
type_synonym 'a lua = "string + 'a"

definition byte_of :: "nat \<Rightarrow> 'a :: len word \<Rightarrow> u8" where
  "byte_of i w = ucast (drop_bit (8 * i) w)"

definition be32 :: "u8 \<Rightarrow> u8 \<Rightarrow> u8 \<Rightarrow> u8 \<Rightarrow> u32" where
  "be32 a b c d = push_bit 24 (ucast a) OR push_bit 16 (ucast b) OR push_bit 8 (ucast c) OR ucast d"

definition le32 :: "u8 \<Rightarrow> u8 \<Rightarrow> u8 \<Rightarrow> u8 \<Rightarrow> u32" where
  "le32 a b c d = ucast a OR push_bit 8 (ucast b) OR push_bit 16 (ucast c) OR push_bit 24 (ucast d)"

definition be32_bytes :: "u32 \<Rightarrow> bytes" where
  "be32_bytes w = [byte_of 3 w, byte_of 2 w, byte_of 1 w, byte_of 0 w]"

definition le32_bytes :: "u32 \<Rightarrow> bytes" where
  "le32_bytes w = [byte_of 0 w, byte_of 1 w, byte_of 2 w, byte_of 3 w]"

lemma bit_byte_of [word_bytes]: "bit (byte_of i w) n \<longleftrightarrow> n < 8 \<and> bit w (8 * i + n)"
  by (simp add: byte_of_def bit_simps)

lemma bit_be32 [word_bytes]:
  "bit (be32 a b c d) n \<longleftrightarrow>
    (if n < 8 then bit d n else if n < 16 then bit c (n - 8) else if n < 24 then bit b (n - 16)
     else n < 32 \<and> bit a (n - 24))"
  by (auto simp: be32_def bit_simps not_less dest: bit_imp_le_length)

lemma le32_be32: "le32 a b c d = be32 d c b a"
  by (simp add: le32_def be32_def ac_simps)

lemma be32_of_bytes [simp]: "be32 (byte_of 3 w) (byte_of 2 w) (byte_of (Suc 0) w) (byte_of 0 w) = w"
  by (rule bit_word_eqI) (auto simp: word_bytes)

lemma byte_of_be32 [simp]:
  "byte_of 3 (be32 a b c d) = a" "byte_of 2 (be32 a b c d) = b"
  "byte_of (Suc 0) (be32 a b c d) = c" "byte_of 0 (be32 a b c d) = d"
  by (rule bit_word_eqI; simp add: word_bytes)+

lemma le32_of_bytes [simp]: "le32 (byte_of 0 w) (byte_of (Suc 0) w) (byte_of 2 w) (byte_of 3 w) = w"
  by (simp add: le32_be32)

lemma be32_bytes_be32 [simp]: "be32_bytes (be32 a b c d) = [a, b, c, d]"
  by (simp add: be32_bytes_def)

lemma le32_bytes_le32 [simp]: "le32_bytes (le32 a b c d) = [a, b, c, d]"
  by (simp add: le32_bytes_def le32_be32)

lemma length_be32_bytes [simp]: "length (be32_bytes w) = 4"
  by (simp add: be32_bytes_def)

lemma length_le32_bytes [simp]: "length (le32_bytes w) = 4"
  by (simp add: le32_bytes_def)

text \<open>Reading four bytes of an array.\<close>

definition get_be32 :: "bytes \<Rightarrow> nat \<Rightarrow> u32" where
  "get_be32 b i = be32 (b ! i) (b ! (i + 1)) (b ! (i + 2)) (b ! (i + 3))"

definition get_le32 :: "bytes \<Rightarrow> nat \<Rightarrow> u32" where
  "get_le32 b i = le32 (b ! i) (b ! (i + 1)) (b ! (i + 2)) (b ! (i + 3))"

lemma get_be32_0 [simp]: "get_be32 (be32_bytes w @ xs) 0 = w"
  by (simp add: get_be32_def be32_bytes_def)

lemma get_be32_4 [simp]: "get_be32 (be32_bytes v @ be32_bytes w) 4 = w"
  by (simp add: get_be32_def be32_bytes_def)

lemma get_le32_0 [simp]: "get_le32 (le32_bytes w @ xs) 0 = w"
  by (simp add: get_le32_def le32_bytes_def)

lemma get_le32_4 [simp]: "get_le32 (le32_bytes v @ le32_bytes w) 4 = w"
  by (simp add: get_le32_def le32_bytes_def)

lemma eight_bytes: "length b = 8 \<Longrightarrow> be32_bytes (get_be32 b 0) @ be32_bytes (get_be32 b 4) = b"
  by (auto simp: get_be32_def numeral_nat length_Suc_conv)

section \<open>Quarters of a 64-bit word\<close>

definition le64_bytes :: "u64 \<Rightarrow> bytes" where
  "le64_bytes w = [byte_of 0 w, byte_of 1 w, byte_of 2 w, byte_of 3 w,
     byte_of 4 w, byte_of 5 w, byte_of 6 w, byte_of 7 w]"

definition join64 :: "u32 \<Rightarrow> u32 \<Rightarrow> u64" where
  "join64 lo hi = ucast lo OR push_bit 32 (ucast hi)"

lemma length_le64_bytes [simp]: "length (le64_bytes w) = 8"
  by (simp add: le64_bytes_def)

lemma bit_join64 [word_bytes]: "bit (join64 lo hi) n \<longleftrightarrow> (if n < 32 then bit lo n else n < 64 \<and> bit hi (n - 32))"
  by (auto simp: join64_def bit_simps not_less dest: bit_imp_le_length)

lemma join64_le64_bytes [simp]: "join64 (get_le32 (le64_bytes w) 0) (get_le32 (le64_bytes w) 4) = w"
proof -
  have "get_le32 (le64_bytes w) 0 = be32 (byte_of 3 w) (byte_of 2 w) (byte_of 1 w) (byte_of 0 w)"
    and "get_le32 (le64_bytes w) 4 = be32 (byte_of 7 w) (byte_of 6 w) (byte_of 5 w) (byte_of 4 w)"
    by (simp_all add: get_le32_def le32_be32 le64_bytes_def)
  then show ?thesis by (auto intro!: bit_word_eqI simp: word_bytes split: if_splits)
qed

section \<open>Copying a word to and from memory\<close>

text \<open>\<open>memcpy\<close> between a variable and a buffer, on a little-endian host.\<close>

definition le_bytes :: "nat \<Rightarrow> 'a :: len word \<Rightarrow> bytes" where
  "le_bytes n w = map (\<lambda>i. byte_of i w) [0..<n]"

fun le_word :: "bytes \<Rightarrow> 'a :: len word" where
  "le_word [] = 0"
| "le_word (b # bs) = ucast b OR push_bit 8 (le_word bs)"

lemma length_le_bytes [simp]: "length (le_bytes n w) = n"
  by (simp add: le_bytes_def)

lemma bit_le_word:
  "bit (le_word bs :: 'a :: len word) k \<longleftrightarrow> k < LENGTH('a) \<and> k div 8 < length bs \<and> bit (bs ! (k div 8)) (k mod 8)"
proof (induction bs arbitrary: k)
  case (Cons b bs)
  show ?case
  proof (cases "k < 8")
    case True
    then show ?thesis by (auto simp: bit_simps)
  next
    case False
    then have k: "k div 8 = Suc ((k - 8) div 8)" "k mod 8 = (k - 8) mod 8"
      by (simp_all add: div_if [of k 8] le_mod_geq)
    have "\<not> bit b k" using False by (auto dest: bit_imp_le_length)
    then show ?thesis using False k Cons.IH [of "k - 8"] by (auto simp: bit_simps)
  qed
qed simp

lemma le_word_le_bytes [simp]:
  assumes "LENGTH('a) \<le> 8 * n"
  shows "le_word (le_bytes n w) = (w :: 'a :: len word)"
proof (rule bit_word_eqI)
  fix k assume k: "k < LENGTH('a)"
  then have n: "k div 8 < n" using assms by (simp add: less_mult_imp_div_less mult.commute)
  have "8 * (k div 8) + k mod 8 = k" by (rule mult_div_mod_eq)
  then show "bit (le_word (le_bytes n w) :: 'a word) k = bit w k"
    using k n by (simp add: bit_le_word le_bytes_def bit_byte_of)
qed

end
