(* ===== verification/Des.thy ===== *)
theory Des
  imports Bytes
begin

text \<open>
  The DES cipher of \<open>lualib-src/lua-crypt.c\<close> and the two Lua functions \<open>desencode\<close> and
  \<open>desdecode\<close> built on it: tables, key schedule, the initial and final permutations as the
  chains of bit swaps of the macros \<open>DES_IP\<close> and \<open>DES_FP\<close>, the round macro, the padding.

  The macros work on two variables in place; here they are functions on the pair of their
  values.  Text lengths are below \<open>2 ^ 31\<close>, as the C code's casts to \<open>int\<close> assume.
\<close>

section \<open>Tables\<close>

definition SB1 :: "u32 list" where
  "SB1 =
    [0x01010400, 0x00000000, 0x00010000, 0x01010404,
     0x01010004, 0x00010404, 0x00000004, 0x00010000,
     0x00000400, 0x01010400, 0x01010404, 0x00000400,
     0x01000404, 0x01010004, 0x01000000, 0x00000004,
     0x00000404, 0x01000400, 0x01000400, 0x00010400,
     0x00010400, 0x01010000, 0x01010000, 0x01000404,
     0x00010004, 0x01000004, 0x01000004, 0x00010004,
     0x00000000, 0x00000404, 0x00010404, 0x01000000,
     0x00010000, 0x01010404, 0x00000004, 0x01010000,
     0x01010400, 0x01000000, 0x01000000, 0x00000400,
     0x01010004, 0x00010000, 0x00010400, 0x01000004,
     0x00000400, 0x00000004, 0x01000404, 0x00010404,
     0x01010404, 0x00010004, 0x01010000, 0x01000404,
     0x01000004, 0x00000404, 0x00010404, 0x01010400,
     0x00000404, 0x01000400, 0x01000400, 0x00000000,
     0x00010004, 0x00010400, 0x00000000, 0x01010004]"

definition SB2 :: "u32 list" where
  "SB2 =
    [0x80108020, 0x80008000, 0x00008000, 0x00108020,
     0x00100000, 0x00000020, 0x80100020, 0x80008020,
     0x80000020, 0x80108020, 0x80108000, 0x80000000,
     0x80008000, 0x00100000, 0x00000020, 0x80100020,
     0x00108000, 0x00100020, 0x80008020, 0x00000000,
     0x80000000, 0x00008000, 0x00108020, 0x80100000,
     0x00100020, 0x80000020, 0x00000000, 0x00108000,
     0x00008020, 0x80108000, 0x80100000, 0x00008020,
     0x00000000, 0x00108020, 0x80100020, 0x00100000,
     0x80008020, 0x80100000, 0x80108000, 0x00008000,
     0x80100000, 0x80008000, 0x00000020, 0x80108020,
     0x00108020, 0x00000020, 0x00008000, 0x80000000,
     0x00008020, 0x80108000, 0x00100000, 0x80000020,
     0x00100020, 0x80008020, 0x80000020, 0x00100020,
     0x00108000, 0x00000000, 0x80008000, 0x00008020,
     0x80000000, 0x80100020, 0x80108020, 0x00108000]"

definition SB3 :: "u32 list" where
  "SB3 =
    [0x00000208, 0x08020200, 0x00000000, 0x08020008,
     0x08000200, 0x00000000, 0x00020208, 0x08000200,
     0x00020008, 0x08000008, 0x08000008, 0x00020000,
     0x08020208, 0x00020008, 0x08020000, 0x00000208,
     0x08000000, 0x00000008, 0x08020200, 0x00000200,
     0x00020200, 0x08020000, 0x08020008, 0x00020208,
     0x08000208, 0x00020200, 0x00020000, 0x08000208,
     0x00000008, 0x08020208, 0x00000200, 0x08000000,
     0x08020200, 0x08000000, 0x00020008, 0x00000208,
     0x00020000, 0x08020200, 0x08000200, 0x00000000,
     0x00000200, 0x00020008, 0x08020208, 0x08000200,
     0x08000008, 0x00000200, 0x00000000, 0x08020008,
     0x08000208, 0x00020000, 0x08000000, 0x08020208,
     0x00000008, 0x00020208, 0x00020200, 0x08000008,
     0x08020000, 0x08000208, 0x00000208, 0x08020000,
     0x00020208, 0x00000008, 0x08020008, 0x00020200]"

definition SB4 :: "u32 list" where
  "SB4 =
    [0x00802001, 0x00002081, 0x00002081, 0x00000080,
     0x00802080, 0x00800081, 0x00800001, 0x00002001,
     0x00000000, 0x00802000, 0x00802000, 0x00802081,
     0x00000081, 0x00000000, 0x00800080, 0x00800001,
     0x00000001, 0x00002000, 0x00800000, 0x00802001,
     0x00000080, 0x00800000, 0x00002001, 0x00002080,
     0x00800081, 0x00000001, 0x00002080, 0x00800080,
     0x00002000, 0x00802080, 0x00802081, 0x00000081,
     0x00800080, 0x00800001, 0x00802000, 0x00802081,
     0x00000081, 0x00000000, 0x00000000, 0x00802000,
     0x00002080, 0x00800080, 0x00800081, 0x00000001,
     0x00802001, 0x00002081, 0x00002081, 0x00000080,
     0x00802081, 0x00000081, 0x00000001, 0x00002000,
     0x00800001, 0x00002001, 0x00802080, 0x00800081,
     0x00002001, 0x00002080, 0x00800000, 0x00802001,
     0x00000080, 0x00800000, 0x00002000, 0x00802080]"

definition SB5 :: "u32 list" where
  "SB5 =
    [0x00000100, 0x02080100, 0x02080000, 0x42000100,
     0x00080000, 0x00000100, 0x40000000, 0x02080000,
     0x40080100, 0x00080000, 0x02000100, 0x40080100,
     0x42000100, 0x42080000, 0x00080100, 0x40000000,
     0x02000000, 0x40080000, 0x40080000, 0x00000000,
     0x40000100, 0x42080100, 0x42080100, 0x02000100,
     0x42080000, 0x40000100, 0x00000000, 0x42000000,
     0x02080100, 0x02000000, 0x42000000, 0x00080100,
     0x00080000, 0x42000100, 0x00000100, 0x02000000,
     0x40000000, 0x02080000, 0x42000100, 0x40080100,
     0x02000100, 0x40000000, 0x42080000, 0x02080100,
     0x40080100, 0x00000100, 0x02000000, 0x42080000,
     0x42080100, 0x00080100, 0x42000000, 0x42080100,
     0x02080000, 0x00000000, 0x40080000, 0x42000000,
     0x00080100, 0x02000100, 0x40000100, 0x00080000,
     0x00000000, 0x40080000, 0x02080100, 0x40000100]"

definition SB6 :: "u32 list" where
  "SB6 =
    [0x20000010, 0x20400000, 0x00004000, 0x20404010,
     0x20400000, 0x00000010, 0x20404010, 0x00400000,
     0x20004000, 0x00404010, 0x00400000, 0x20000010,
     0x00400010, 0x20004000, 0x20000000, 0x00004010,
     0x00000000, 0x00400010, 0x20004010, 0x00004000,
     0x00404000, 0x20004010, 0x00000010, 0x20400010,
     0x20400010, 0x00000000, 0x00404010, 0x20404000,
     0x00004010, 0x00404000, 0x20404000, 0x20000000,
     0x20004000, 0x00000010, 0x20400010, 0x00404000,
     0x20404010, 0x00400000, 0x00004010, 0x20000010,
     0x00400000, 0x20004000, 0x20000000, 0x00004010,
     0x20000010, 0x20404010, 0x00404000, 0x20400000,
     0x00404010, 0x20404000, 0x00000000, 0x20400010,
     0x00000010, 0x00004000, 0x20400000, 0x00404010,
     0x00004000, 0x00400010, 0x20004010, 0x00000000,
     0x20404000, 0x20000000, 0x00400010, 0x20004010]"

definition SB7 :: "u32 list" where
  "SB7 =
    [0x00200000, 0x04200002, 0x04000802, 0x00000000,
     0x00000800, 0x04000802, 0x00200802, 0x04200800,
     0x04200802, 0x00200000, 0x00000000, 0x04000002,
     0x00000002, 0x04000000, 0x04200002, 0x00000802,
     0x04000800, 0x00200802, 0x00200002, 0x04000800,
     0x04000002, 0x04200000, 0x04200800, 0x00200002,
     0x04200000, 0x00000800, 0x00000802, 0x04200802,
     0x00200800, 0x00000002, 0x04000000, 0x00200800,
     0x04000000, 0x00200800, 0x00200000, 0x04000802,
     0x04000802, 0x04200002, 0x04200002, 0x00000002,
     0x00200002, 0x04000000, 0x04000800, 0x00200000,
     0x04200800, 0x00000802, 0x00200802, 0x04200800,
     0x00000802, 0x04000002, 0x04200802, 0x04200000,
     0x00200800, 0x00000000, 0x00000002, 0x04200802,
     0x00000000, 0x00200802, 0x04200000, 0x00000800,
     0x04000002, 0x04000800, 0x00000800, 0x00200002]"

definition SB8 :: "u32 list" where
  "SB8 =
    [0x10001040, 0x00001000, 0x00040000, 0x10041040,
     0x10000000, 0x10001040, 0x00000040, 0x10000000,
     0x00040040, 0x10040000, 0x10041040, 0x00041000,
     0x10041000, 0x00041040, 0x00001000, 0x00000040,
     0x10040000, 0x10000040, 0x10001000, 0x00001040,
     0x00041000, 0x00040040, 0x10040040, 0x10041000,
     0x00001040, 0x00000000, 0x00000000, 0x10040040,
     0x10000040, 0x10001000, 0x00041040, 0x00040000,
     0x00041040, 0x00040000, 0x10041000, 0x00001000,
     0x00000040, 0x10040040, 0x00001000, 0x00041040,
     0x10001000, 0x00000040, 0x10000040, 0x10040000,
     0x10040040, 0x10000000, 0x00040000, 0x10001040,
     0x00000000, 0x10041040, 0x00040040, 0x10000040,
     0x10040000, 0x10001000, 0x10001040, 0x00000000,
     0x10041040, 0x00041000, 0x00041000, 0x00001040,
     0x00001040, 0x00040040, 0x10000000, 0x10041000]"

definition LHs :: "u32 list" where
  "LHs =
    [0x00000000, 0x00000001, 0x00000100, 0x00000101,
     0x00010000, 0x00010001, 0x00010100, 0x00010101,
     0x01000000, 0x01000001, 0x01000100, 0x01000101,
     0x01010000, 0x01010001, 0x01010100, 0x01010101]"

definition RHs :: "u32 list" where
  "RHs =
    [0x00000000, 0x01000000, 0x00010000, 0x01010000,
     0x00000100, 0x01000100, 0x00010100, 0x01010100,
     0x00000001, 0x01000001, 0x00010001, 0x01010001,
     0x00000101, 0x01000101, 0x00010101, 0x01010101]"

section \<open>Permutations\<close>

text \<open>\<open>T = ((X >> k) ^ Y) & m; Y ^= T; X ^= (T << k)\<close>.\<close>

definition swap_bits :: "nat \<Rightarrow> u32 \<Rightarrow> u32 \<times> u32 \<Rightarrow> u32 \<times> u32" where
  "swap_bits k m = (\<lambda>(X, Y). let T = (drop_bit k X XOR Y) AND m in (X XOR push_bit k T, Y XOR T))"

definition rotate_left1 :: "u32 \<Rightarrow> u32" where
  "rotate_left1 X = (push_bit 1 X OR drop_bit 31 X) AND 0xFFFFFFFF"

definition rotate_right1 :: "u32 \<Rightarrow> u32" where
  "rotate_right1 X = (push_bit 31 X OR drop_bit 1 X) AND 0xFFFFFFFF"

definition DES_IP :: "u32 \<times> u32 \<Rightarrow> u32 \<times> u32" where
  "DES_IP XY =
     (let (X, Y) = swap_bits 4 0x0F0F0F0F XY;
          (X, Y) = swap_bits 16 0x0000FFFF (X, Y);
          (Y, X) = swap_bits 2 0x33333333 (Y, X);
          (Y, X) = swap_bits 8 0x00FF00FF (Y, X);
          Y = rotate_left1 Y;
          T = (X XOR Y) AND 0xAAAAAAAA; Y = Y XOR T; X = X XOR T;
          X = rotate_left1 X
      in (X, Y))"

definition DES_FP :: "u32 \<times> u32 \<Rightarrow> u32 \<times> u32" where
  "DES_FP XY =
     (let (X, Y) = XY;
          X = rotate_right1 X;
          T = (X XOR Y) AND 0xAAAAAAAA; X = X XOR T; Y = Y XOR T;
          Y = rotate_right1 Y;
          (Y, X) = swap_bits 8 0x00FF00FF (Y, X);
          (Y, X) = swap_bits 2 0x33333333 (Y, X);
          (X, Y) = swap_bits 16 0x0000FFFF (X, Y);
          (X, Y) = swap_bits 4 0x0F0F0F0F (X, Y)
      in (X, Y))"

section \<open>Rounds\<close>

definition sbox :: "u32 list \<Rightarrow> nat \<Rightarrow> u32 \<Rightarrow> u32" where
  "sbox SB k T = SB ! unat (drop_bit k T AND 0x3F)"

text \<open>What \<open>DES_ROUND(X,Y)\<close> stores in \<open>Y\<close>, with the two subkeys that it takes from \<open>SK\<close>.\<close>

definition DES_ROUND :: "u32 \<Rightarrow> u32 \<Rightarrow> u32 \<Rightarrow> u32 \<Rightarrow> u32" where
  "DES_ROUND sk0 sk1 X Y =
     (let T = sk0 XOR X;
          Y = Y XOR sbox SB8 0 T XOR sbox SB6 8 T XOR sbox SB4 16 T XOR sbox SB2 24 T;
          T = sk1 XOR (push_bit 28 X OR drop_bit 4 X)
      in Y XOR sbox SB7 0 T XOR sbox SB5 8 T XOR sbox SB3 16 T XOR sbox SB1 24 T)"

text \<open>
  The sequence \<open>DES_ROUND(Y,X); DES_ROUND(X,Y); \<dots>\<close>: the pair holds the half that the next
  round reads and the half that it changes, and each round exchanges the roles.
\<close>

fun des_rounds :: "u32 list \<Rightarrow> u32 \<times> u32 \<Rightarrow> u32 \<times> u32" where
  "des_rounds (k0 # k1 # SK) (s, t) = des_rounds SK (DES_ROUND k0 k1 s t, s)"
| "des_rounds _ st = st"

definition des_crypt :: "u32 list \<Rightarrow> bytes \<Rightarrow> bytes" where
  "des_crypt SK input =
     (let (X, Y) = DES_IP (get_be32 input 0, get_be32 input 4);
          (Y, X) = des_rounds SK (Y, X);
          (Y, X) = DES_FP (Y, X)
      in be32_bytes Y @ be32_bytes X)"

section \<open>Key schedule\<close>

definition subkey1 :: "u32 \<Rightarrow> u32 \<Rightarrow> u32" where
  "subkey1 X Y =
     ((push_bit 4 X) AND 0x24000000) OR ((push_bit 28 X) AND 0x10000000) OR
     ((push_bit 14 X) AND 0x08000000) OR ((push_bit 18 X) AND 0x02080000) OR
     ((push_bit 6 X) AND 0x01000000) OR ((push_bit 9 X) AND 0x00200000) OR
     ((drop_bit 1 X) AND 0x00100000) OR ((push_bit 10 X) AND 0x00040000) OR
     ((push_bit 2 X) AND 0x00020000) OR ((drop_bit 10 X) AND 0x00010000) OR
     ((drop_bit 13 Y) AND 0x00002000) OR ((drop_bit 4 Y) AND 0x00001000) OR
     ((push_bit 6 Y) AND 0x00000800) OR ((drop_bit 1 Y) AND 0x00000400) OR
     ((drop_bit 14 Y) AND 0x00000200) OR (Y AND 0x00000100) OR
     ((drop_bit 5 Y) AND 0x00000020) OR ((drop_bit 10 Y) AND 0x00000010) OR
     ((drop_bit 3 Y) AND 0x00000008) OR ((drop_bit 18 Y) AND 0x00000004) OR
     ((drop_bit 26 Y) AND 0x00000002) OR ((drop_bit 24 Y) AND 0x00000001)"

definition subkey2 :: "u32 \<Rightarrow> u32 \<Rightarrow> u32" where
  "subkey2 X Y =
     ((push_bit 15 X) AND 0x20000000) OR ((push_bit 17 X) AND 0x10000000) OR
     ((push_bit 10 X) AND 0x08000000) OR ((push_bit 22 X) AND 0x04000000) OR
     ((drop_bit 2 X) AND 0x02000000) OR ((push_bit 1 X) AND 0x01000000) OR
     ((push_bit 16 X) AND 0x00200000) OR ((push_bit 11 X) AND 0x00100000) OR
     ((push_bit 3 X) AND 0x00080000) OR ((drop_bit 6 X) AND 0x00040000) OR
     ((push_bit 15 X) AND 0x00020000) OR ((drop_bit 4 X) AND 0x00010000) OR
     ((drop_bit 2 Y) AND 0x00002000) OR ((push_bit 8 Y) AND 0x00001000) OR
     ((drop_bit 14 Y) AND 0x00000808) OR ((drop_bit 9 Y) AND 0x00000400) OR
     (Y AND 0x00000200) OR ((push_bit 7 Y) AND 0x00000100) OR
     ((drop_bit 7 Y) AND 0x00000020) OR ((drop_bit 3 Y) AND 0x00000011) OR
     ((push_bit 2 Y) AND 0x00000004) OR ((drop_bit 21 Y) AND 0x00000002)"

definition rotate28 :: "nat \<Rightarrow> u32 \<Rightarrow> u32" where
  "rotate28 k X = (push_bit k X OR drop_bit (28 - k) X) AND 0x0FFFFFFF"

text \<open>The loop over \<open>i\<close>; the first argument is the number of rounds left.\<close>

fun des_subkeys :: "nat \<Rightarrow> nat \<Rightarrow> u32 \<Rightarrow> u32 \<Rightarrow> u32 list" where
  "des_subkeys 0 i X Y = []"
| "des_subkeys (Suc n) i X Y =
     (let k = (if i < 2 \<or> i = 8 \<or> i = 15 then 1 else 2); X = rotate28 k X; Y = rotate28 k Y
      in subkey1 X Y # subkey2 X Y # des_subkeys n (Suc i) X Y)"

definition nibble :: "nat \<Rightarrow> u32 \<Rightarrow> nat" where
  "nibble k X = unat (drop_bit k X AND 0xF)"

definition des_main_ks :: "bytes \<Rightarrow> u32 list" where
  "des_main_ks key =
     (let X = get_be32 key 0; Y = get_be32 key 4;
          T = (drop_bit 4 Y XOR X) AND 0x0F0F0F0F; X = X XOR T; Y = Y XOR push_bit 4 T;
          T = (Y XOR X) AND 0x10101010; X = X XOR T; Y = Y XOR T;
          X = push_bit 3 (LHs ! nibble 0 X) OR push_bit 2 (LHs ! nibble 8 X) OR
              push_bit 1 (LHs ! nibble 16 X) OR LHs ! nibble 24 X OR
              push_bit 7 (LHs ! nibble 5 X) OR push_bit 6 (LHs ! nibble 13 X) OR
              push_bit 5 (LHs ! nibble 21 X) OR push_bit 4 (LHs ! nibble 29 X);
          Y = push_bit 3 (RHs ! nibble 1 Y) OR push_bit 2 (RHs ! nibble 9 Y) OR
              push_bit 1 (RHs ! nibble 17 Y) OR RHs ! nibble 25 Y OR
              push_bit 7 (RHs ! nibble 4 Y) OR push_bit 6 (RHs ! nibble 12 Y) OR
              push_bit 5 (RHs ! nibble 20 Y) OR push_bit 4 (RHs ! nibble 28 Y)
      in des_subkeys 16 0 (X AND 0x0FFFFFFF) (Y AND 0x0FFFFFFF))"

section \<open>The Lua functions\<close>

definition des_key :: "bytes \<Rightarrow> u32 list lua" where
  "des_key key =
     (if length key \<noteq> 8 then Inl ''Invalid key size %d, need 8 bytes'' else Inr (des_main_ks key))"

definition des_tail :: "bytes \<Rightarrow> bytes" where
  "des_tail rest =
     map (\<lambda>j. if j < length rest then rest ! j else if j = length rest then 0x80 else 0) [0..<8]"

text \<open>The loop over whole blocks, and the padded block after it.\<close>

function des_encode_blocks :: "u32 list \<Rightarrow> bytes \<Rightarrow> bytes" where
  "des_encode_blocks SK text =
     (if 8 \<le> length text then des_crypt SK (take 8 text) @ des_encode_blocks SK (drop 8 text)
      else des_crypt SK (des_tail text))"
  by auto
termination by (relation "measure (\<lambda>(_, text). length text)") auto

declare des_encode_blocks.simps [simp del]

definition ldesencode :: "bytes \<Rightarrow> bytes \<Rightarrow> bytes lua" where
  "ldesencode key text =
     (case des_key key of Inl e \<Rightarrow> Inl e | Inr SK \<Rightarrow> Inr (des_encode_blocks SK text))"

text \<open>The loop that reverses the order of the subkey pairs.\<close>

definition reverse_keys :: "u32 list \<Rightarrow> u32 list" where
  "reverse_keys ESK = concat (map (\<lambda>i. [ESK ! (30 - 2 * i), ESK ! (31 - 2 * i)]) [0..<16])"

function des_decode_blocks :: "u32 list \<Rightarrow> bytes \<Rightarrow> bytes" where
  "des_decode_blocks SK text =
     (if text = [] then [] else des_crypt SK (take 8 text) @ des_decode_blocks SK (drop 8 text))"
  by auto
termination by (relation "measure (\<lambda>(_, text). length text)") auto

declare des_decode_blocks.simps [simp del]

text \<open>
  The loop \<open>for (i=textsz-1;i>=textsz-8;i--)\<close> that counts the padding.  The first argument is
  \<open>i + 1\<close>.  The comparison is made in \<open>size_t\<close>: when \<open>i\<close> is -1 it converts to the largest
  \<open>size_t\<close> and the loop goes on, and reads \<open>buffer[-1]\<close>, which the result \<open>None\<close> stands for.
\<close>

fun count_padding :: "bytes \<Rightarrow> nat \<Rightarrow> nat \<Rightarrow> (nat lua) option" where
  "count_padding buffer 0 padding = None"
| "count_padding buffer (Suc i) padding =
     (if length buffer - 8 \<le> i then
        if buffer ! i = 0 then count_padding buffer i (padding + 1)
        else if buffer ! i = 0x80 then Some (Inr padding)
        else Some (Inl ''Invalid des crypt text'')
      else Some (Inr padding))"

definition ldesdecode :: "bytes \<Rightarrow> bytes \<Rightarrow> (bytes lua) option" where
  "ldesdecode key text =
     (case des_key key of
        Inl e \<Rightarrow> Some (Inl e)
      | Inr ESK \<Rightarrow>
          if length text mod 8 \<noteq> 0 \<or> length text = 0
          then Some (Inl ''Invalid des crypt text length %d'')
          else
            let buffer = des_decode_blocks (reverse_keys ESK) text in
            case count_padding buffer (length text) 1 of
              None \<Rightarrow> None
            | Some (Inl e) \<Rightarrow> Some (Inl e)
            | Some (Inr padding) \<Rightarrow>
                if padding > 8 then Some (Inl ''Invalid des crypt text'')
                else Some (Inr (take (length text - padding) buffer)))"

text \<open>\<open>rnd\<close> holds the low bytes of the eight values that \<open>random\<close> returns.\<close>

definition lrandomkey :: "bytes \<Rightarrow> bytes" where
  "lrandomkey rnd =
     (let tmp = take 8 rnd; x = foldl (XOR) 0 tmp in
      if x = 0 then tmp[0 := (tmp ! 0) OR 1] else tmp)"

section \<open>The final permutation inverts the initial one\<close>

lemma xor_cancel: "(a XOR t) XOR (b XOR t) = a XOR (b :: u32)"
  by (rule bit_word_eqI) (auto simp: bit_simps)

lemma xor_cancel_right: "(a XOR t) XOR t = (a :: u32)"
  by (simp add: xor.assoc)

lemma swap_bits_involution:
  assumes "drop_bit k (push_bit k m) = m"
  shows "swap_bits k m (swap_bits k m XY) = XY"
proof -
  obtain X Y where XY: "XY = (X, Y)" by (cases XY)
  let ?T = "(drop_bit k X XOR Y) AND m"
  have T: "drop_bit k (push_bit k ?T) = ?T"
  proof (rule bit_word_eqI)
    fix n assume "n < LENGTH(32)"
    have "bit (drop_bit k (push_bit k m)) n = bit m n" by (simp only: assms)
    then show "bit (drop_bit k (push_bit k ?T)) n = bit ?T n"
      by (auto simp: bit_simps)
  qed
  have eq: "drop_bit k (X XOR push_bit k ?T) XOR (Y XOR ?T) = drop_bit k X XOR Y"
    by (simp only: drop_bit_xor T xor_cancel)
  show ?thesis unfolding XY swap_bits_def prod.case Let_def eq xor_cancel_right ..
qed

lemmas swap_bits_inverse =
  swap_bits_involution [of 4 "0x0F0F0F0F", simplified] swap_bits_involution [of 16 "0x0000FFFF", simplified]
  swap_bits_involution [of 2 "0x33333333", simplified] swap_bits_involution [of 8 "0x00FF00FF", simplified]

lemma rotate_inverse: "rotate_right1 (rotate_left1 X) = X" "rotate_left1 (rotate_right1 X) = X"
proof -
  have m: "x AND 0xFFFFFFFF = x" for x :: u32
  proof -
    have "(0xFFFFFFFF :: u32) = - 1" by simp
    then show ?thesis by (simp only: and.right_neutral)
  qed
  have top: "n < 32 \<Longrightarrow> 31 \<le> n \<longleftrightarrow> n = 31" "n < 32 \<Longrightarrow> n < 31 \<longleftrightarrow> n \<noteq> 31" for n :: nat by linarith+
  show "rotate_right1 (rotate_left1 X) = X"
    unfolding rotate_left1_def rotate_right1_def m
    by (rule bit_word_eqI, unfold bit_or_iff bit_push_bit_iff bit_drop_bit_eq comp_def)
      (auto simp: top dest: bit_imp_le_length)
  show "rotate_left1 (rotate_right1 X) = X"
    unfolding rotate_left1_def rotate_right1_def m
    by (rule bit_word_eqI, unfold bit_or_iff bit_push_bit_iff bit_drop_bit_eq comp_def)
      (auto simp: top dest: bit_imp_le_length)
qed

lemma DES_FP_IP: "DES_FP (DES_IP XY) = XY"
  by (simp add: DES_IP_def DES_FP_def Let_def split_beta rotate_inverse xor_cancel xor_cancel_right swap_bits_inverse)

lemma DES_IP_FP: "DES_IP (DES_FP XY) = XY"
  by (simp add: DES_IP_def DES_FP_def Let_def split_beta rotate_inverse xor_cancel xor_cancel_right swap_bits_inverse)

section \<open>Decryption inverts encryption\<close>

lemma DES_ROUND_involution: "DES_ROUND k0 k1 s (DES_ROUND k0 k1 s t) = t"
  by (simp add: DES_ROUND_def Let_def ac_simps)

lemma des_rounds_append:
  "length SK mod 2 = 0 \<Longrightarrow> des_rounds (SK @ SK') st = des_rounds SK' (des_rounds SK st)"
  by (induction SK st rule: des_rounds.induct) auto

text \<open>The key pairs in reverse order.\<close>

fun reverse_pairs :: "u32 list \<Rightarrow> u32 list" where
  "reverse_pairs (k0 # k1 # SK) = reverse_pairs SK @ [k0, k1]"
| "reverse_pairs SK = SK"

lemma length_reverse_pairs [simp]: "length (reverse_pairs SK) = length SK"
  by (induction SK rule: reverse_pairs.induct) auto

lemma des_rounds_reverse:
  "length SK mod 2 = 0 \<Longrightarrow> des_rounds SK (s, t) = (s', t') \<Longrightarrow> des_rounds (reverse_pairs SK) (t', s') = (t, s)"
proof (induction SK arbitrary: s t s' t' rule: reverse_pairs.induct)
  case (1 k0 k1 SK)
  from 1(3) have "des_rounds SK (DES_ROUND k0 k1 s t, s) = (s', t')" by simp
  from 1(1) [OF _ this] 1(2) have "des_rounds (reverse_pairs SK) (t', s') = (s, DES_ROUND k0 k1 s t)" by simp
  then show ?case
    using 1(2) by (simp add: des_rounds_append DES_ROUND_involution)
qed auto

lemma length_subkeys: "length (des_subkeys n i X Y) = 2 * n"
  by (induction n arbitrary: i X Y) (simp_all add: Let_def)

lemma length_des_main_ks [simp]: "length (des_main_ks key) = 32"
  by (simp add: des_main_ks_def Let_def length_subkeys)

lemma reverse_pairs_nth:
  assumes "length SK = 2 * n"
  shows "reverse_pairs SK = concat (map (\<lambda>i. [SK ! (2 * n - 2 - 2 * i), SK ! (2 * n - 1 - 2 * i)]) [0..<n])"
  using assms
proof (induction SK arbitrary: n rule: reverse_pairs.induct)
  case (1 k0 k1 SK)
  then obtain m where n: "n = Suc m" "length SK = 2 * m" by (cases n) auto
  have "map (\<lambda>i. [SK ! (2 * m - 2 - 2 * i), SK ! (2 * m - 1 - 2 * i)]) [0..<m] =
      map (\<lambda>i. [(k0 # k1 # SK) ! (2 * n - 2 - 2 * i), (k0 # k1 # SK) ! (2 * n - 1 - 2 * i)]) [0..<m]"
  proof (rule map_cong [OF refl])
    fix i assume "i \<in> set [0..<m]"
    then have "2 * n - 2 - 2 * i = Suc (Suc (2 * m - 2 - 2 * i))" "2 * n - 1 - 2 * i = Suc (Suc (2 * m - 1 - 2 * i))"
      by (simp_all add: n)
    then show "[SK ! (2 * m - 2 - 2 * i), SK ! (2 * m - 1 - 2 * i)] =
        [(k0 # k1 # SK) ! (2 * n - 2 - 2 * i), (k0 # k1 # SK) ! (2 * n - 1 - 2 * i)]" by simp
  qed
  moreover have "concat (map (\<lambda>i. [(k0 # k1 # SK) ! (2 * n - 2 - 2 * i), (k0 # k1 # SK) ! (2 * n - 1 - 2 * i)]) [0..<n]) =
      concat (map (\<lambda>i. [(k0 # k1 # SK) ! (2 * n - 2 - 2 * i), (k0 # k1 # SK) ! (2 * n - 1 - 2 * i)]) [0..<m]) @ [k0, k1]"
    by (simp add: n(1))
  ultimately show ?case using "1.IH" [OF n(2)] by (simp only: reverse_pairs.simps)
qed auto

lemma reverse_keys_pairs: "length SK = 32 \<Longrightarrow> reverse_keys SK = reverse_pairs SK"
  using reverse_pairs_nth [of SK 16] by (simp add: reverse_keys_def)

lemma des_crypt_inverse:
  assumes "length SK mod 2 = 0" "length b = 8"
  shows "des_crypt (reverse_pairs SK) (des_crypt SK b) = b"
proof -
  obtain X Y where ip: "DES_IP (get_be32 b 0, get_be32 b 4) = (X, Y)" by fastforce
  obtain s t where r: "des_rounds SK (Y, X) = (s, t)" by fastforce
  obtain p q where fp: "DES_FP (s, t) = (p, q)" by fastforce
  have "des_crypt SK b = be32_bytes p @ be32_bytes q"
    by (simp add: des_crypt_def ip r fp)
  moreover have "DES_IP (p, q) = (s, t)" using DES_IP_FP [of "(s, t)"] by (simp add: fp)
  moreover have "des_rounds (reverse_pairs SK) (t, s) = (X, Y)" by (rule des_rounds_reverse [OF assms(1) r])
  moreover have "DES_FP (X, Y) = (get_be32 b 0, get_be32 b 4)" using DES_FP_IP [of "(get_be32 b 0, get_be32 b 4)"] by (simp add: ip)
  ultimately show ?thesis by (simp add: des_crypt_def eight_bytes [OF assms(2)])
qed

lemma length_des_crypt [simp]: "length (des_crypt SK b) = 8"
  by (simp add: des_crypt_def split_beta Let_def)

lemma des_crypt_not_Nil [simp]: "des_crypt SK b \<noteq> []"
  using length_des_crypt [of SK b] by (cases "des_crypt SK b") auto

text \<open>The padded text that \<open>des_encode_blocks\<close> encrypts block by block.\<close>

definition des_pad :: "bytes \<Rightarrow> bytes" where
  "des_pad text = text @ 0x80 # replicate (7 - length text mod 8) 0"

lemma des_tail_pad: "length rest < 8 \<Longrightarrow> des_tail rest = des_pad rest"
  by (rule nth_equalityI) (auto simp: des_tail_def des_pad_def nth_append nth_Cons' nth_append)

lemma des_pad_drop: "8 \<le> length text \<Longrightarrow> des_pad text = take 8 text @ des_pad (drop 8 text)"
  by (simp add: des_pad_def le_mod_geq)

lemma length_des_pad: "length (des_pad text) = 8 * (length text div 8 + 1)"
proof -
  have "length (des_pad text) = length text + 8 - length text mod 8"
    using mod_less_divisor [of 8 "length text"] by (simp add: des_pad_def)
  then show ?thesis by presburger
qed

lemma length_des_encode: "length (des_encode_blocks SK text) = 8 * (length text div 8 + 1)"
proof (induction SK "text" rule: des_encode_blocks.induct)
  case (1 SK m)
  then show ?case
    by (subst des_encode_blocks.simps) (auto simp: le_div_geq)
qed

lemma des_decode_encode:
  assumes "length SK mod 2 = 0"
  shows "des_decode_blocks (reverse_pairs SK) (des_encode_blocks SK text) = des_pad text"
  using assms
proof (induction SK "text" rule: des_encode_blocks.induct)
  case (1 SK m)
  show ?case
  proof (cases "8 \<le> length m")
    case True
    then have "des_encode_blocks SK m = des_crypt SK (take 8 m) @ des_encode_blocks SK (drop 8 m)"
      by (subst des_encode_blocks.simps) simp
    then show ?thesis
      using 1 True by (subst des_decode_blocks.simps) (auto simp: des_crypt_inverse des_pad_drop)
  next
    case False
    then have "des_encode_blocks SK m = des_crypt SK (des_pad m)"
      by (subst des_encode_blocks.simps) (simp add: des_tail_pad)
    moreover have "length (des_pad m) = 8" using False by (simp add: length_des_pad)
    ultimately show ?thesis
      using 1(2) by (subst des_decode_blocks.simps) (auto simp: des_crypt_inverse des_decode_blocks.simps)
  qed
qed

lemma count_padding_zeros:
  assumes "8 \<le> length b" "i = Suc j + n" "i \<le> length b" "b ! j = 0x80" "\<forall>m. j < m \<and> m < i \<longrightarrow> b ! m = 0"
    and "length b - 8 \<le> j"
  shows "count_padding b i p = Some (Inr (p + n))"
  using assms
proof (induction n arbitrary: i p)
  case (Suc n)
  then obtain i' where i': "i = Suc i'" "j < i'" by simp
  with Suc.prems have "b ! i' = 0" "length b - 8 \<le> i'" by simp_all
  moreover have "count_padding b i' (p + 1) = Some (Inr (p + 1 + n))"
    using Suc.prems i' by (intro Suc.IH) auto
  ultimately show ?case by (simp add: i')
qed simp

lemma count_padding_pad: "count_padding (des_pad text) (length (des_pad text)) 1 = Some (Inr (8 - length text mod 8))"
proof -
  have m: "length text mod 8 < 8" by simp
  have "count_padding (des_pad text) (length (des_pad text)) 1 = Some (Inr (1 + (7 - length text mod 8)))"
  proof (rule count_padding_zeros [where j = "length text"])
    show "8 \<le> length (des_pad text)" by (simp add: length_des_pad)
    show "length (des_pad text) = Suc (length text) + (7 - length text mod 8)" by (simp add: des_pad_def)
    show "des_pad text ! length text = 0x80" by (simp add: des_pad_def nth_append)
    show "\<forall>k. length text < k \<and> k < length (des_pad text) \<longrightarrow> des_pad text ! k = 0"
      by (auto simp: des_pad_def nth_append nth_Cons')
    show "length (des_pad text) - 8 \<le> length text" using m by (simp add: des_pad_def)
  qed simp
  then show ?thesis using m by simp
qed

section \<open>Properties\<close>

text \<open>C21. Round trip.  \<open>desdecode\<close> with the same 8-byte key returns the text that
  \<open>desencode\<close> encrypted, for every text, whatever its length; the ciphertext is a positive
  multiple of 8 bytes long, longer than the text.\<close>

theorem des_roundtrip:
  assumes "length key = 8"
  shows "\<exists>cipher. ldesencode key text = Inr cipher \<and> ldesdecode key cipher = Some (Inr text) \<and>
    length cipher = 8 * (length text div 8 + 1)"
proof -
  let ?SK = "des_main_ks key" and ?c = "des_encode_blocks (des_main_ks key) text"
  have dec: "des_decode_blocks (reverse_keys ?SK) ?c = des_pad text"
    by (simp add: reverse_keys_pairs des_decode_encode)
  have len: "length ?c = length (des_pad text)" by (simp add: length_des_encode length_des_pad)
  have "length text mod 8 < 8" by simp
  then have "length (des_pad text) - (8 - length text mod 8) = length text" by (simp add: des_pad_def)
  then have "take (length ?c - (8 - length text mod 8)) (des_pad text) = text"
    by (simp add: len) (simp add: des_pad_def)
  moreover have "length ?c mod 8 = 0" "length ?c \<noteq> 0" by (simp_all add: length_des_encode)
  moreover have "count_padding (des_pad text) (length ?c) 1 = Some (Inr (8 - length text mod 8))"
    by (simp only: len count_padding_pad)
  moreover have "\<not> 8 < 8 - length text mod 8" by simp
  ultimately have "ldesdecode key ?c = Some (Inr text)"
    using assms unfolding ldesdecode_def des_key_def Let_def by (simp only: dec if_False simp_thms option.case sum.case)
  then show ?thesis
    using assms by (simp add: ldesencode_def des_key_def length_des_encode)
qed

theorem des_roundtrip_witness:
  "\<exists>cipher. ldesencode [1, 2, 3, 4, 5, 6, 7, 8] [104, 105] = Inr cipher \<and>
     ldesdecode [1, 2, 3, 4, 5, 6, 7, 8] cipher = Some (Inr [104, 105]) \<and> length cipher = 8"
  using des_roundtrip [of "[1, 2, 3, 4, 5, 6, 7, 8]" "[104, 105]"] by simp

lemma count_padding_None:
  "i \<le> length b \<Longrightarrow> count_padding b i p = None \<longleftrightarrow> length b \<le> 8 \<and> (\<forall>j<i. b ! j = 0) \<or> i = 0"
proof (induction b i p rule: count_padding.induct)
  case (2 b i p)
  then show ?case by (cases i) (auto simp: less_Suc_eq)
qed simp

lemma length_des_decode: "length m mod 8 = 0 \<Longrightarrow> length (des_decode_blocks SK m) = length m"
proof (induction SK m rule: des_decode_blocks.induct)
  case (1 SK m)
  show ?case
  proof (cases "m = []")
    case False
    then have "8 \<le> length m" using 1(2) by (cases "length m < 8") auto
    then show ?thesis
      using 1 False by (subst des_decode_blocks.simps) (simp add: le_mod_geq)
  qed (simp add: des_decode_blocks.simps)
qed

text \<open>The padding loop.  \<open>desdecode\<close> reads before the start of its buffer exactly when the
  ciphertext is one block that decrypts to eight zero bytes, and every key has such a
  ciphertext; longer ciphertexts never do.\<close>

theorem desdecode_reads_before_buffer:
  assumes "length key = 8"
  shows "(ldesdecode key cipher = None \<longleftrightarrow>
      length cipher = 8 \<and> des_crypt (reverse_keys (des_main_ks key)) cipher = replicate 8 0) \<and>
    (\<exists>bad. length bad = 8 \<and> ldesdecode key bad = None)"
proof -
  let ?SK = "des_main_ks key"
  have iff: "ldesdecode key c = None \<longleftrightarrow> length c = 8 \<and> des_crypt (reverse_keys ?SK) c = replicate 8 0" for c
  proof (cases "length c mod 8 \<noteq> 0 \<or> length c = 0")
    case True
    then show ?thesis using assms by (auto simp: ldesdecode_def des_key_def)
  next
    case False
    let ?b = "des_decode_blocks (reverse_keys ?SK) c"
    have len: "length ?b = length c" "8 \<le> length c"
      using False length_des_decode [of c] dvd_imp_le [of 8 "length c"] by auto
    have "ldesdecode key c = None \<longleftrightarrow> count_padding ?b (length c) 1 = None"
      using False assms
      by (simp add: ldesdecode_def des_key_def Let_def split: option.splits sum.splits)
    also have "\<dots> \<longleftrightarrow> length c = 8 \<and> (\<forall>j<8. ?b ! j = 0)"
      using len count_padding_None [of "length c" ?b 1] by auto
    also have "\<dots> \<longleftrightarrow> length c = 8 \<and> ?b = replicate 8 0"
      using len(1) by (auto simp: list_eq_iff_nth_eq)
    also have "\<dots> \<longleftrightarrow> length c = 8 \<and> des_crypt (reverse_keys ?SK) c = replicate 8 0"
      by (auto simp: des_decode_blocks.simps [of _ c] des_decode_blocks.simps [of _ "[]"])
    finally show ?thesis .
  qed
  let ?bad = "des_crypt ?SK (replicate 8 0)"
  have "des_crypt (reverse_keys ?SK) ?bad = replicate 8 0"
    by (simp add: reverse_keys_pairs des_crypt_inverse)
  then have "length ?bad = 8 \<and> ldesdecode key ?bad = None" by (simp add: iff)
  with iff show ?thesis by blast
qed

theorem desdecode_reads_before_buffer_witness:
  "\<exists>bad. length bad = 8 \<and> ldesdecode [1, 2, 3, 4, 5, 6, 7, 8] bad = None"
proof -
  have "length [1, 2, 3, 4, 5, 6, 7, 8 :: u8] = 8" by simp
  then show ?thesis by (rule desdecode_reads_before_buffer [THEN conjunct2])
qed

end
