(* ===== verification/KeyExchange.thy ===== *)
theory KeyExchange
  imports Bytes
begin

text \<open>
  Key exchange and message authentication of \<open>lualib-src/lua-crypt.c\<close>: the Diffie-Hellman
  exchange over the prime \<open>2 ^ 64 - 59\<close> (\<open>dhexchange\<close>, \<open>dhsecret\<close>), the string hash behind
  \<open>hashkey\<close>, and the MD5-like \<open>hmac64\<close>.

  Multiplication modulo the prime is by doubling, because the product of two 64-bit numbers does
  not fit a word; exponentiation is a recursion on the exponent that does not end for exponent 0,
  hence a partial function.
\<close>

section \<open>Arithmetic modulo the prime\<close>

definition DH_P :: u64 where "DH_P = 0xffffffffffffffc5"
definition DH_G :: u64 where "DH_G = 5"

text \<open>The loop of \<open>mul_mod_p\<close>.\<close>

function mul_mod_loop :: "u64 \<Rightarrow> u64 \<Rightarrow> u64 \<Rightarrow> u64" where
  "mul_mod_loop a b m =
     (if b \<noteq> 0 then
        let m = (if b AND 1 \<noteq> 0 then let t = DH_P - a in if m \<ge> t then m - t else m + a else m);
            a = (if a \<ge> DH_P - a then a * 2 - DH_P else a * 2)
        in mul_mod_loop a (drop_bit 1 b) m
      else m)"
  by auto
termination
  by (relation "measure (\<lambda>(_, b, _). unat b)") (use unat_drop_bit_div [where 'a = 64 and k = 1] in \<open>auto simp: unat_gt_0\<close>)

declare mul_mod_loop.simps [simp del]

definition mul_mod_p :: "u64 \<Rightarrow> u64 \<Rightarrow> u64" where
  "mul_mod_p a b = mul_mod_loop a b 0"

partial_function (option) pow_mod_p :: "u64 \<Rightarrow> u64 \<Rightarrow> u64 option" where
  "pow_mod_p a b =
     (if b = 1 then Some a
      else do {
        t \<leftarrow> pow_mod_p a (drop_bit 1 b);
        let t = mul_mod_p t t;
        Some (if b mod 2 \<noteq> 0 then mul_mod_p t a else t)
      })"

definition powmodp :: "u64 \<Rightarrow> u64 \<Rightarrow> u64 option" where
  "powmodp a b = pow_mod_p (if a > DH_P then a mod DH_P else a) b"

section \<open>The Lua functions of the exchange\<close>

definition read64 :: "bytes \<Rightarrow> bytes \<Rightarrow> ((u32 \<times> u32) \<times> (u32 \<times> u32)) lua" where
  "read64 x y =
     (if length x \<noteq> 8 then Inl ''Invalid uint64 x''
      else if length y \<noteq> 8 then Inl ''Invalid uint64 y''
      else Inr ((get_le32 x 0, get_le32 x 4), (get_le32 y 0, get_le32 y 4)))"

definition ldhsecret :: "bytes \<Rightarrow> bytes \<Rightarrow> (bytes lua) option" where
  "ldhsecret x y =
     (case read64 x y of
        Inl e \<Rightarrow> Some (Inl e)
      | Inr ((x0, x1), (y0, y1)) \<Rightarrow>
          let xx = join64 x0 x1; yy = join64 y0 y1 in
          if xx = 0 \<or> yy = 0 then Some (Inl ''Can't be 0'')
          else do { r \<leftarrow> powmodp xx yy; Some (Inr (le64_bytes r)) })"

definition ldhexchange :: "bytes \<Rightarrow> (bytes lua) option" where
  "ldhexchange x =
     (if length x \<noteq> 8 then Some (Inl ''Invalid dh uint64 key'')
      else
        let x64 = join64 (get_le32 x 0) (get_le32 x 4) in
        if x64 = 0 then Some (Inl ''Can't be 0'')
        else do { r \<leftarrow> powmodp DH_G x64; Some (Inr (le64_bytes r)) })"

section \<open>Hashes\<close>

text \<open>The loop of \<open>Hash\<close> on the two running hashes.\<close>

fun hash_loop :: "bytes \<Rightarrow> u32 \<times> u32 \<Rightarrow> u32 \<times> u32" where
  "hash_loop [] h = h"
| "hash_loop (c # str) (djb_hash, js_hash) =
     hash_loop str
       (djb_hash + (push_bit 5 djb_hash + ucast c),
        js_hash XOR (push_bit 5 js_hash + ucast c + drop_bit 2 js_hash))"

definition Hash :: "bytes \<Rightarrow> bytes" where
  "Hash str = (let (djb_hash, js_hash) = hash_loop str (5381, 1315423911) in
     [byte_of 0 djb_hash, byte_of 1 djb_hash, byte_of 2 djb_hash, byte_of 3 djb_hash,
      byte_of 0 js_hash, byte_of 1 js_hash, byte_of 2 js_hash, byte_of 3 js_hash])"

definition lhashkey :: "bytes \<Rightarrow> bytes lua" where
  "lhashkey key = Inr (Hash key)"

definition hmac_k :: "u32 list" where
  "hmac_k =
    [0xd76aa478, 0xe8c7b756, 0x242070db, 0xc1bdceee,
     0xf57c0faf, 0x4787c62a, 0xa8304613, 0xfd469501,
     0x698098d8, 0x8b44f7af, 0xffff5bb1, 0x895cd7be,
     0x6b901122, 0xfd987193, 0xa679438e, 0x49b40821,
     0xf61e2562, 0xc040b340, 0x265e5a51, 0xe9b6c7aa,
     0xd62f105d, 0x02441453, 0xd8a1e681, 0xe7d3fbc8,
     0x21e1cde6, 0xc33707d6, 0xf4d50d87, 0x455a14ed,
     0xa9e3e905, 0xfcefa3f8, 0x676f02d9, 0x8d2a4c8a,
     0xfffa3942, 0x8771f681, 0x6d9d6122, 0xfde5380c,
     0xa4beea44, 0x4bdecfa9, 0xf6bb4b60, 0xbebfbc70,
     0x289b7ec6, 0xeaa127fa, 0xd4ef3085, 0x04881d05,
     0xd9d4d039, 0xe6db99e5, 0x1fa27cf8, 0xc4ac5665,
     0xf4292244, 0x432aff97, 0xab9423a7, 0xfc93a039,
     0x655b59c3, 0x8f0ccc92, 0xffeff47d, 0x85845dd1,
     0x6fa87e4f, 0xfe2ce6e0, 0xa3014314, 0x4e0811a1,
     0xf7537e82, 0xbd3af235, 0x2ad7d2bb, 0xeb86d391]"

definition hmac_r :: "nat list" where
  "hmac_r =
    [7, 12, 17, 22, 7, 12, 17, 22, 7, 12, 17, 22, 7, 12, 17, 22,
     5, 9, 14, 20, 5, 9, 14, 20, 5, 9, 14, 20, 5, 9, 14, 20,
     4, 11, 16, 23, 4, 11, 16, 23, 4, 11, 16, 23, 4, 11, 16, 23,
     6, 10, 15, 21, 6, 10, 15, 21, 6, 10, 15, 21, 6, 10, 15, 21]"

definition LEFTROTATE :: "u32 \<Rightarrow> nat \<Rightarrow> u32" where
  "LEFTROTATE x c = push_bit c x OR drop_bit (32 - c) x"

definition hmac_round :: "u32 list \<Rightarrow> nat \<Rightarrow> u32 \<times> u32 \<times> u32 \<times> u32 \<Rightarrow> u32 \<times> u32 \<times> u32 \<times> u32" where
  "hmac_round w i = (\<lambda>(a, b, c, d).
     let (f, g) =
       (if i < 16 then ((b AND c) OR (NOT b AND d), i)
        else if i < 32 then ((d AND b) OR (NOT d AND c), (5 * i + 1) mod 16)
        else if i < 48 then (b XOR c XOR d, (3 * i + 5) mod 16)
        else (c XOR (b OR NOT d), (7 * i) mod 16))
     in (d, b + LEFTROTATE (a + f + hmac_k ! i + w ! g) (hmac_r ! i), b, c))"

definition hmac :: "u32 \<times> u32 \<Rightarrow> u32 \<times> u32 \<Rightarrow> u32 \<times> u32" where
  "hmac x y =
     (let w = concat (replicate 4 [snd x, fst x, snd y, fst y]);
          (a, b, c, d) = fold (hmac_round w) [0..<64] (0x67452301, 0xefcdab89, 0x98badcfe, 0x10325476)
      in (c XOR d, a XOR b))"

definition pushqword :: "u32 \<times> u32 \<Rightarrow> bytes" where
  "pushqword r = [byte_of 0 (fst r), byte_of 1 (fst r), byte_of 2 (fst r), byte_of 3 (fst r),
     byte_of 0 (snd r), byte_of 1 (snd r), byte_of 2 (snd r), byte_of 3 (snd r)]"

definition lhmac64 :: "bytes \<Rightarrow> bytes \<Rightarrow> bytes lua" where
  "lhmac64 x y = (case read64 x y of Inl e \<Rightarrow> Inl e | Inr (x, y) \<Rightarrow> Inr (pushqword (hmac x y)))"

definition lhmac_hash :: "bytes \<Rightarrow> bytes \<Rightarrow> bytes lua" where
  "lhmac_hash x text =
     (if length x \<noteq> 8 then Inl ''Invalid uint64 key''
      else
        let key = (get_le32 x 0, get_le32 x 4);
            h = Hash text;
            htext = (get_le32 h 0, get_le32 h 4)
        in Inr (pushqword (hmac htext key)))"

section \<open>Multiplication and powers\<close>

lemma unat_DH_P [simp]: "unat DH_P = 18446744073709551557"
  by (simp add: DH_P_def)

text \<open>One addition and one doubling modulo the prime, as the loop does them.\<close>

lemma add_mod_step:
  assumes "a \<le> DH_P" "m < DH_P"
  shows "(if m \<ge> DH_P - a then m - (DH_P - a) else m + a) < DH_P"
    and "unat (if m \<ge> DH_P - a then m - (DH_P - a) else m + a) = (unat m + unat a) mod unat DH_P"
proof -
  have a: "unat a \<le> 18446744073709551557" and m: "unat m < 18446744073709551557"
    using assms by (simp_all add: word_le_nat_alt word_less_nat_alt)
  have t: "unat (DH_P - a) = 18446744073709551557 - unat a" using assms(1) by (simp add: unat_sub)
  have eq: "unat (if m \<ge> DH_P - a then m - (DH_P - a) else m + a) = (unat m + unat a) mod unat DH_P"
  proof (cases "m \<ge> DH_P - a")
    case True
    then have le: "18446744073709551557 - unat a \<le> unat m" by (simp add: word_le_nat_alt t)
    have "unat (m - (DH_P - a)) = unat m + unat a - 18446744073709551557"
      using True a le by (simp add: unat_sub t)
    also have "\<dots> = (unat m + unat a) mod 18446744073709551557"
      using a m le by (subst mod_if) (auto simp: le_mod_geq)
    finally show ?thesis using True by simp
  next
    case False
    then have "unat m + unat a < 18446744073709551557" using a by (simp add: word_le_nat_alt t)
    then show ?thesis using False by (simp add: unat_word_ariths)
  qed
  show "(if m \<ge> DH_P - a then m - (DH_P - a) else m + a) < DH_P"
    unfolding word_less_nat_alt eq by simp
  show "unat (if m \<ge> DH_P - a then m - (DH_P - a) else m + a) = (unat m + unat a) mod unat DH_P" by (rule eq)
qed

lemma double_mod_step:
  assumes "a \<le> DH_P"
  shows "(if a \<ge> DH_P - a then a * 2 - DH_P else a * 2) \<le> DH_P"
    and "unat (if a \<ge> DH_P - a then a * 2 - DH_P else a * 2) mod unat DH_P = (2 * unat a) mod unat DH_P"
proof -
  have a: "unat a \<le> 18446744073709551557" using assms by (simp add: word_le_nat_alt)
  have t: "unat (DH_P - a) = 18446744073709551557 - unat a" using assms by (simp add: unat_sub)
  have "unat (if a \<ge> DH_P - a then a * 2 - DH_P else a * 2) =
      (if a \<ge> DH_P - a then 2 * unat a - 18446744073709551557 else 2 * unat a)"
  proof (cases "a \<ge> DH_P - a")
    case True
    then have le: "18446744073709551557 \<le> 2 * unat a" by (simp add: word_le_nat_alt t)
    have "a * 2 - DH_P = a - (DH_P - a)" by simp
    then have "unat (a * 2 - DH_P) = unat a - unat (DH_P - a)" using True by (simp only: unat_sub)
    with True le a show ?thesis by (simp add: t)
  next
    case False
    then have "2 * unat a < 18446744073709551557" by (simp add: word_le_nat_alt t)
    with False show ?thesis by (simp add: unat_word_ariths mult.commute)
  qed
  then show "(if a \<ge> DH_P - a then a * 2 - DH_P else a * 2) \<le> DH_P"
    and "unat (if a \<ge> DH_P - a then a * 2 - DH_P else a * 2) mod unat DH_P = (2 * unat a) mod unat DH_P"
    using a by (auto simp: word_le_nat_alt t le_mod_geq not_le)
qed

lemma mul_mod_loop_correct:
  assumes "a \<le> DH_P" "m < DH_P"
  shows "mul_mod_loop a b m < DH_P \<and> unat (mul_mod_loop a b m) = (unat m + unat a * unat b) mod unat DH_P"
  using assms
proof (induction a b m rule: mul_mod_loop.induct)
  case (1 a b m)
  show ?case
  proof (cases "b = 0")
    case True
    then show ?thesis using 1(3) by (simp add: mul_mod_loop.simps word_less_nat_alt)
  next
    case False
    let ?m = "if b AND 1 \<noteq> 0 then (if m \<ge> DH_P - a then m - (DH_P - a) else m + a) else m"
    let ?a = "if a \<ge> DH_P - a then a * 2 - DH_P else a * 2"
    have odd: "b AND 1 \<noteq> 0 \<longleftrightarrow> odd (unat b)"
      using unat_and_low_bits [of b 1] by (simp add: word_unat_eq_iff odd_iff_mod_2_eq_one)
    have m: "?m < DH_P" "unat ?m mod unat DH_P = (unat m + unat a * (unat b mod 2)) mod unat DH_P"
      using add_mod_step [OF 1(2,3)] 1(3) odd by (auto simp: odd_iff_mod_2_eq_one even_iff_mod_2_eq_zero)
    have rec: "mul_mod_loop a b m = mul_mod_loop ?a (drop_bit 1 b) ?m"
      using False by (subst mul_mod_loop.simps) (simp add: Let_def)
    have IH: "mul_mod_loop ?a (drop_bit 1 b) ?m < DH_P \<and>
        unat (mul_mod_loop ?a (drop_bit 1 b) ?m) = (unat ?m + unat ?a * unat (drop_bit 1 b)) mod unat DH_P"
      by (rule 1(1) [OF False refl refl, unfolded Let_def, OF double_mod_step(1) [OF 1(2)] m(1)])
    have "(unat ?m + unat ?a * (unat b div 2)) mod unat DH_P =
        (unat m + unat a * (unat b mod 2) + 2 * unat a * (unat b div 2)) mod unat DH_P"
      by (rule mod_add_cong [OF m(2)]) (rule mod_mult_cong [OF double_mod_step(2) [OF 1(2)] refl])
    also have "unat m + unat a * (unat b mod 2) + 2 * unat a * (unat b div 2) = unat m + unat a * unat b"
    proof -
      have "unat a * (unat b mod 2) + 2 * unat a * (unat b div 2) = unat a * (unat b mod 2 + 2 * (unat b div 2))"
        by (simp only: distrib_left mult.assoc mult.left_commute)
      then show ?thesis by (simp only: mod_mult_div_eq add.assoc)
    qed
    finally show ?thesis
      using IH unat_drop_bit_div [of 1 b] by (simp only: rec power_one_right)
  qed
qed

lemma mul_mod_p_correct:
  assumes "a \<le> DH_P"
  shows "mul_mod_p a b < DH_P" and "unat (mul_mod_p a b) = (unat a * unat b) mod unat DH_P"
  using mul_mod_loop_correct [OF assms, of 0 b] by (simp_all add: mul_mod_p_def DH_P_def)

lemma pow_mod_p_correct:
  assumes "a \<le> DH_P" "b \<noteq> 0"
  shows "\<exists>r. pow_mod_p a b = Some r \<and> r \<le> DH_P \<and> unat r mod unat DH_P = unat a ^ unat b mod unat DH_P \<and>
    (a < DH_P \<or> b \<noteq> 1 \<longrightarrow> r < DH_P)"
  using assms(2)
proof (induction "unat b" arbitrary: b rule: less_induct)
  case less
  show ?case
  proof (cases "b = 1")
    case True
    with assms(1) show ?thesis by (simp add: pow_mod_p.simps)
  next
    case False
    let ?h = "drop_bit 1 b"
    have half: "unat ?h = unat b div 2" using unat_drop_bit_div [of 1 b] by simp
    have "unat b \<noteq> 0" "unat b \<noteq> 1" using less.prems False by (auto simp: word_unat_eq_iff)
    then have "2 \<le> unat b" by linarith
    then have "?h \<noteq> 0" "unat ?h < unat b" using half by (auto simp: unat_eq_zero [symmetric])
    from less.hyps [OF this(2,1)] obtain t where t: "pow_mod_p a ?h = Some t" "t \<le> DH_P"
      "unat t mod unat DH_P = unat a ^ unat ?h mod unat DH_P" by blast
    let ?t2 = "mul_mod_p t t"
    let ?r = "if b mod 2 \<noteq> 0 then mul_mod_p ?t2 a else ?t2"
    have t2: "?t2 < DH_P" "unat ?t2 = (unat a ^ (2 * unat ?h)) mod unat DH_P"
    proof -
      show "?t2 < DH_P" by (rule mul_mod_p_correct(1) [OF t(2)])
      have "unat ?t2 = (unat a ^ unat ?h * unat a ^ unat ?h) mod unat DH_P"
        unfolding mul_mod_p_correct(2) [OF t(2)] by (rule mod_mult_cong [OF t(3) t(3)])
      then show "unat ?t2 = (unat a ^ (2 * unat ?h)) mod unat DH_P" by (simp add: mult_2 power_add)
    qed
    have odd: "b mod 2 \<noteq> 0 \<longleftrightarrow> unat b mod 2 = 1"
      by (simp add: word_unat_eq_iff unat_mod)
    have r: "?r < DH_P" "unat ?r = unat a ^ unat b mod unat DH_P"
    proof -
      have le: "?t2 \<le> DH_P" using t2(1) by simp
      show "?r < DH_P" using t2(1) mul_mod_p_correct(1) [OF le] by simp
      show "unat ?r = unat a ^ unat b mod unat DH_P"
      proof (cases "unat b mod 2 = 1")
        case True
        have "unat b = 2 * unat ?h + 1" using True half by (metis mult_div_mod_eq)
        then have "unat a ^ unat b = unat a ^ (2 * unat ?h) * unat a" by simp
        moreover have "?r = mul_mod_p ?t2 a" using True odd by (metis (full_types))
        ultimately show ?thesis
          by (simp only: mul_mod_p_correct(2) [OF le] t2(2) mod_mult_left_eq)
      next
        case False
        then have "unat b = 2 * unat ?h" using half by (metis mult_div_mod_eq not_mod2_eq_Suc_0_eq_0 One_nat_def add_0_right)
        moreover have "?r = ?t2" using False odd by (simp only: simp_thms if_False)
        ultimately show ?thesis by (simp only: t2(2))
      qed
    qed
    have "pow_mod_p a b = Some ?r"
      using False t(1) by (subst pow_mod_p.simps) (simp add: Let_def)
    then show ?thesis using r by (metis less_imp_le mod_mod_trivial)
  qed
qed

lemma powmodp_correct:
  assumes "b \<noteq> 0"
  shows "\<exists>r. powmodp a b = Some r \<and> unat r mod unat DH_P = unat a ^ unat b mod unat DH_P \<and>
    (a = DH_P \<and> b = 1 \<and> r = DH_P \<or> r < DH_P)"
proof -
  let ?a = "if a > DH_P then a mod DH_P else a"
  have a: "?a \<le> DH_P" "unat ?a mod unat DH_P = unat a mod unat DH_P"
    by (auto simp: word_le_nat_alt unat_mod not_less mod_le_divisor)
  from pow_mod_p_correct [OF a(1) assms] obtain r where r: "pow_mod_p ?a b = Some r" "r \<le> DH_P"
    "unat r mod unat DH_P = unat ?a ^ unat b mod unat DH_P" "?a < DH_P \<or> b \<noteq> 1 \<longrightarrow> r < DH_P" by blast
  have "unat ?a ^ unat b mod unat DH_P = unat a ^ unat b mod unat DH_P"
    by (metis a(2) power_mod)
  moreover have "a = DH_P \<and> b = 1 \<and> r = DH_P \<or> r < DH_P"
  proof (cases "?a < DH_P \<or> b \<noteq> 1")
    case False
    then have "?a = DH_P" "b = 1" using a(1) by auto
    moreover have "a mod DH_P < DH_P" by (simp add: word_less_nat_alt unat_mod)
    ultimately show ?thesis using r(1) by (auto simp: pow_mod_p.simps split: if_splits)
  qed (use r(4) in blast)
  ultimately show ?thesis using r by (simp add: powmodp_def)
qed

section \<open>Properties\<close>

text \<open>Exponentiation.  For every base and every exponent but 0, \<open>powmodp\<close> ends and returns
  the power modulo the prime, reduced - except for the base \<open>P\<close> itself with exponent 1, which it
  returns unreduced, because it tests \<open>a > P\<close> where \<open>a >= P\<close> is meant.\<close>

theorem powmodp_is_power:
  assumes "b \<noteq> 0"
  shows "\<exists>r. powmodp a b = Some r \<and>
    (if a = DH_P \<and> b = 1 then r = DH_P else unat r = unat a ^ unat b mod 18446744073709551557)"
proof -
  obtain r where r: "powmodp a b = Some r" "unat r mod unat DH_P = unat a ^ unat b mod unat DH_P"
    "a = DH_P \<and> b = 1 \<and> r = DH_P \<or> r < DH_P" using powmodp_correct [OF assms] by blast
  have "r = DH_P" if "a = DH_P" "b = 1"
    using r(1) that by (auto simp: powmodp_def pow_mod_p.simps)
  moreover have "unat r = unat r mod unat DH_P" if "r < DH_P" using that by (simp add: word_less_nat_alt)
  ultimately show ?thesis using r by auto
qed

theorem powmodp_is_power_witness: "\<exists>r. powmodp 3 5 = Some r \<and> unat r = 243"
  using powmodp_is_power [of 5 3] by (simp add: DH_P_def)

lemma read64_ok: "length x = 8 \<Longrightarrow> length y = 8 \<Longrightarrow>
    read64 x y = Inr ((get_le32 x 0, get_le32 x 4), (get_le32 y 0, get_le32 y 4))"
  by (simp add: read64_def)

text \<open>The number that eight bytes denote.\<close>

definition num64 :: "bytes \<Rightarrow> u64" where
  "num64 x = join64 (get_le32 x 0) (get_le32 x 4)"

lemma num64_bytes [simp]: "num64 (le64_bytes w) = w"
  by (simp add: num64_def)

lemma exchange_power:
  assumes "length x = 8" "num64 x \<noteq> 0"
  shows "\<exists>r. ldhexchange x = Some (Inr (le64_bytes r)) \<and> r \<noteq> 0 \<and> r \<noteq> DH_P \<and>
    unat r = 5 ^ unat (num64 x) mod unat DH_P"
proof -
  obtain r where r: "powmodp DH_G (num64 x) = Some r"
    "unat r mod unat DH_P = unat DH_G ^ unat (num64 x) mod unat DH_P" "r < DH_P"
    using powmodp_correct [OF assms(2), of DH_G] by (auto simp: DH_G_def DH_P_def)
  have eq: "unat r = 5 ^ unat (num64 x) mod unat DH_P" using r(2,3) by (simp add: DH_G_def word_less_nat_alt)
  have "coprime (5 :: nat) 18446744073709551557"
    by (simp add: coprime_iff_gcd_eq_1 gcd_non_0_nat)
  then have co: "coprime (5 ^ unat (num64 x)) (18446744073709551557 :: nat)"
    by (simp only: coprime_power_left_iff simp_thms)
  have "\<not> 18446744073709551557 dvd (5 :: nat) ^ unat (num64 x)"
  proof
    assume "18446744073709551557 dvd (5 :: nat) ^ unat (num64 x)"
    with co have "is_unit (18446744073709551557 :: nat)" by (rule coprime_common_divisor) simp
    then show False by simp
  qed
  then have "r \<noteq> 0" using eq by (auto simp: dvd_eq_mod_eq_0)
  moreover have "r \<noteq> DH_P" using r(3) by auto
  ultimately show ?thesis
    using assms r(1) eq by (auto simp: ldhexchange_def num64_def Let_def)
qed

lemma secret_power:
  assumes "length y = 8" "num64 y \<noteq> 0" "r \<noteq> 0" "r \<noteq> DH_P"
  shows "\<exists>s. ldhsecret (le64_bytes r) y = Some (Inr (le64_bytes s)) \<and> unat s = unat r ^ unat (num64 y) mod unat DH_P"
proof -
  obtain s where s: "powmodp r (num64 y) = Some s" "unat s mod unat DH_P = unat r ^ unat (num64 y) mod unat DH_P" "s < DH_P"
    using powmodp_correct [OF assms(2), of r] assms(4) by auto
  then have "unat s = unat r ^ unat (num64 y) mod unat DH_P" by (simp add: word_less_nat_alt)
  moreover have "ldhsecret (le64_bytes r) y = Some (Inr (le64_bytes s))"
    using assms s(1) num64_bytes [of r] unfolding num64_def
    by (simp add: ldhsecret_def read64_ok Let_def del: join64_le64_bytes)
  ultimately show ?thesis by blast
qed

text \<open>Key agreement.  Two parties with nonzero 8-byte secrets \<open>x\<close> and \<open>y\<close> who exchange
  \<open>dhexchange\<close> of their secrets compute the same \<open>dhsecret\<close>, \<open>5 ^ (x * y)\<close> modulo the prime,
  and no call fails or fails to return.\<close>

theorem dh_agreement:
  assumes "length x = 8" "length y = 8" "num64 x \<noteq> 0" "num64 y \<noteq> 0"
  shows "\<exists>A B s. ldhexchange x = Some (Inr A) \<and> ldhexchange y = Some (Inr B) \<and>
    ldhsecret A y = Some (Inr (le64_bytes s)) \<and> ldhsecret B x = Some (Inr (le64_bytes s)) \<and>
    unat s = 5 ^ (unat (num64 x) * unat (num64 y)) mod 18446744073709551557"
proof -
  from exchange_power [OF assms(1,3)] obtain a where a: "ldhexchange x = Some (Inr (le64_bytes a))" "a \<noteq> 0" "a \<noteq> DH_P"
    "unat a = 5 ^ unat (num64 x) mod unat DH_P" by blast
  from exchange_power [OF assms(2,4)] obtain b where b: "ldhexchange y = Some (Inr (le64_bytes b))" "b \<noteq> 0" "b \<noteq> DH_P"
    "unat b = 5 ^ unat (num64 y) mod unat DH_P" by blast
  from secret_power [OF assms(2,4) a(2,3)] obtain s where
    s: "ldhsecret (le64_bytes a) y = Some (Inr (le64_bytes s))" "unat s = unat a ^ unat (num64 y) mod unat DH_P" by blast
  from secret_power [OF assms(1,3) b(2,3)] obtain t where
    t: "ldhsecret (le64_bytes b) x = Some (Inr (le64_bytes t))" "unat t = unat b ^ unat (num64 x) mod unat DH_P" by blast
  have "unat s = 5 ^ (unat (num64 x) * unat (num64 y)) mod unat DH_P"
    using s(2) by (simp only: a(4) power_mod power_mult)
  moreover have "unat t = 5 ^ (unat (num64 x) * unat (num64 y)) mod unat DH_P"
    using t(2) by (simp only: b(4) power_mod flip: power_mult) (simp only: mult.commute)
  ultimately have "unat s = 5 ^ (unat (num64 x) * unat (num64 y)) mod 18446744073709551557" "t = s"
    by (simp_all add: word_unat_eq_iff)
  with a(1) b(1) s(1) t(1) show ?thesis by blast
qed

theorem dh_agreement_witness:
  "\<exists>A B s. ldhexchange (le64_bytes 77) = Some (Inr A) \<and> ldhexchange (le64_bytes 1234567890123) = Some (Inr B) \<and>
    ldhsecret A (le64_bytes 1234567890123) = Some (Inr s) \<and> ldhsecret B (le64_bytes 77) = Some (Inr s)"
proof -
  have "num64 (le64_bytes 77) \<noteq> 0" "num64 (le64_bytes 1234567890123) \<noteq> 0"
    unfolding num64_bytes by simp_all
  from dh_agreement [OF length_le64_bytes length_le64_bytes this] show ?thesis by blast
qed

text \<open>\<open>hmac_hash\<close> is \<open>hmac64\<close> of the text's \<open>hashkey\<close> and the key.\<close>

theorem hmac_hash_is_hmac64_of_hashkey:
  assumes "length key = 8"
  shows "lhmac_hash key text = (case lhashkey text of Inl e \<Rightarrow> Inl e | Inr h \<Rightarrow> lhmac64 h key)"
proof -
  have "length (Hash text) = 8" by (simp add: Hash_def split: prod.split)
  then show ?thesis using assms by (simp add: lhmac_hash_def lhashkey_def lhmac64_def read64_def Let_def)
qed

theorem hmac_hash_is_hmac64_of_hashkey_witness:
  "lhmac_hash [1, 2, 3, 4, 5, 6, 7, 8] [65] = lhmac64 (Hash [65]) [1, 2, 3, 4, 5, 6, 7, 8]"
  using hmac_hash_is_hmac64_of_hashkey [of "[1, 2, 3, 4, 5, 6, 7, 8]" "[65]"] by (simp add: lhashkey_def)

end
