(* ===== verification/TextCodecs.thy ===== *)
theory TextCodecs
  imports Bytes
begin

text \<open>
  The text codecs of \<open>lualib-src/lua-crypt.c\<close>: hexadecimal, base64, and XOR with a repeated
  string.  Characters are bytes; the C code's \<open>char\<close> arithmetic in the macro \<open>HEX\<close> ends in an
  \<open>uint8_t\<close>, so it is arithmetic modulo 256 whatever the signedness of \<open>char\<close>.
\<close>

section \<open>Hexadecimal\<close>

definition hex :: bytes where
  "hex = map of_char ''0123456789abcdef''"

definition ltohex :: "bytes \<Rightarrow> bytes lua" where
  "ltohex text = Inr (concat (map (\<lambda>c. [hex ! unat (drop_bit 4 c), hex ! unat (c AND 0xf)]) text))"

text \<open>The macro \<open>HEX(v,c)\<close>: 48 is '0', 57 is '9', 97 is 'a'.\<close>

definition HEX :: "u8 \<Rightarrow> u8" where
  "HEX c = (if c \<ge> 48 \<and> c \<le> 57 then c - 48 else c - 97 + 10)"

fun fromhex_loop :: "bytes \<Rightarrow> bytes lua" where
  "fromhex_loop (a # b # text) =
     (let hi = HEX a; low = HEX b in
      if hi > 16 \<or> low > 16 then Inl ''Invalid hex text''
      else case fromhex_loop text of Inl e \<Rightarrow> Inl e | Inr buffer \<Rightarrow> Inr ((push_bit 4 hi OR low) # buffer))"
| "fromhex_loop _ = Inr []"

definition lfromhex :: "bytes \<Rightarrow> bytes lua" where
  "lfromhex text = (if odd (length text) then Inl ''Invalid hex text size %d'' else fromhex_loop text)"

section \<open>Base64\<close>

definition b64_encoding :: bytes where
  "b64_encoding = map of_char ''ABCDEFGHIJKLMNOPQRSTUVWXYZabcdefghijklmnopqrstuvwxyz0123456789+/''"

definition b64_char :: "u32 \<Rightarrow> u8" where
  "b64_char v = b64_encoding ! unat v"

text \<open>The loop over whole triples, and the \<open>switch\<close> on what is left; 61 is '='.\<close>

fun b64_encode :: "bytes \<Rightarrow> bytes" where
  "b64_encode (a # b # c # text) =
     (let v = push_bit 16 (ucast a) OR push_bit 8 (ucast b) OR (ucast c :: u32) in
      [b64_char (drop_bit 18 v), b64_char (drop_bit 12 v AND 0x3f),
       b64_char (drop_bit 6 v AND 0x3f), b64_char (v AND 0x3f)] @ b64_encode text)"
| "b64_encode [a] =
     (let v = (ucast a :: u32) in [b64_char (drop_bit 2 v), b64_char (push_bit 4 (v AND 3)), 61, 61])"
| "b64_encode [a, b] =
     (let v = push_bit 8 (ucast a) OR (ucast b :: u32) in
      [b64_char (drop_bit 10 v), b64_char (drop_bit 4 v AND 0x3f), b64_char (push_bit 2 (v AND 0xf)), 61])"
| "b64_encode [] = []"

definition lb64encode :: "bytes \<Rightarrow> bytes lua" where
  "lb64encode text = Inr (b64_encode text)"

definition b64_decoding :: "int list" where
  "b64_decoding = [62,-1,-1,-1,63,52,53,54,55,56,57,58,59,60,61,-1,-1,-1,-2,-1,-1,-1,0,1,2,3,4,5,6,7,8,9,10,
     11,12,13,14,15,16,17,18,19,20,21,22,23,24,25,-1,-1,-1,-1,-1,-1,26,27,28,29,30,31,32,33,34,35,36,
     37,38,39,40,41,42,43,44,45,46,47,48,49,50,51]"

definition b64index :: "u8 \<Rightarrow> int" where
  "b64index c =
     (if c < 43 then - 1
      else let c = c - 43 in
        if unat c \<ge> length b64_decoding then - 1 else b64_decoding ! unat c)"

text \<open>The inner loop: the next \<open>n\<close> indices of the text, other characters skipped.\<close>

fun b64_quad :: "nat \<Rightarrow> bytes \<Rightarrow> (int list \<times> bytes) option" where
  "b64_quad 0 text = Some ([], text)"
| "b64_quad (Suc n) [] = None"
| "b64_quad (Suc n) (x # text) =
     (if b64index x = - 1 then b64_quad (Suc n) text
      else map_option (\<lambda>(cs, rest). (b64index x # cs, rest)) (b64_quad n text))"

definition b64_word :: "int \<Rightarrow> u32" where "b64_word c = word_of_int c"

text \<open>The \<open>switch (padding)\<close>.\<close>

definition b64_unpack :: "int list \<Rightarrow> bytes lua" where
  "b64_unpack c =
     (let padding = count_list c (- 2) in
      if padding = 0 then
        let v = push_bit 18 (b64_word (c ! 0)) OR push_bit 12 (b64_word (c ! 1)) OR
                push_bit 6 (b64_word (c ! 2)) OR b64_word (c ! 3)
        in Inr [ucast (drop_bit 16 v), ucast (drop_bit 8 v AND 0xff), ucast (v AND 0xff)]
      else if padding = 1 then
        if c ! 3 \<noteq> - 2 \<or> (c ! 2) AND 3 \<noteq> 0 then Inl ''Invalid base64 text''
        else let v = push_bit 10 (b64_word (c ! 0)) OR push_bit 4 (b64_word (c ! 1)) OR drop_bit 2 (b64_word (c ! 2))
          in Inr [ucast (drop_bit 8 v), ucast (v AND 0xff)]
      else if padding = 2 then
        if c ! 3 \<noteq> - 2 \<or> c ! 2 \<noteq> - 2 \<or> (c ! 1) AND 0xf \<noteq> 0 then Inl ''Invalid base64 text''
        else let v = push_bit 2 (b64_word (c ! 0)) OR drop_bit 4 (b64_word (c ! 1)) in Inr [ucast v]
      else Inl ''Invalid base64 text'')"

lemma b64_quad_shorter: "b64_quad n text = Some (cs, rest) \<Longrightarrow> length rest + n \<le> length text"
  by (induction n "text" arbitrary: cs rule: b64_quad.induct) (fastforce split: if_splits)+

function b64_decode :: "bytes \<Rightarrow> bytes lua" where
  "b64_decode text =
     (if text = [] then Inr []
      else case b64_quad 4 text of
        None \<Rightarrow> Inl ''Invalid base64 text''
      | Some (c, rest) \<Rightarrow>
          (case b64_unpack c of
             Inl e \<Rightarrow> Inl e
           | Inr out \<Rightarrow> (case b64_decode rest of Inl e \<Rightarrow> Inl e | Inr buffer \<Rightarrow> Inr (out @ buffer))))"
  by auto
termination by (relation "measure length") (auto dest!: b64_quad_shorter)

declare b64_decode.simps [simp del]

definition lb64decode :: "bytes \<Rightarrow> bytes lua" where
  "lb64decode text = b64_decode text"

section \<open>XOR with a repeated string\<close>

definition lxor_str :: "bytes \<Rightarrow> bytes \<Rightarrow> bytes lua" where
  "lxor_str s1 s2 =
     (if s2 = [] then Inl ''Can't xor empty string''
      else Inr (map (\<lambda>i. s1 ! i XOR s2 ! (i mod length s2)) [0..<length s1]))"

section \<open>Hexadecimal facts\<close>

lemma hex_digit: "k < 16 \<Longrightarrow> HEX (hex ! k) = of_nat k"
proof -
  have "list_all (\<lambda>k. HEX (hex ! k) = of_nat k) [0..<16]" by code_simp
  then show "k < 16 \<Longrightarrow> HEX (hex ! k) = of_nat k" by (simp add: list_all_iff)
qed

lemma HEX_accepts: "HEX c \<le> 16 \<longleftrightarrow> 48 \<le> c \<and> c \<le> 57 \<or> 87 \<le> c \<and> c \<le> 103"
proof -
  have lt: "unat c < 256" by (rule unsigned_less [THEN less_le_trans]) simp
  have "c - 97 + 10 = c - 87" by simp
  moreover have "unat (c - 87) = (if 87 \<le> unat c then unat c - 87 else unat c + 169)"
    using lt by (simp add: unat_sub_if')
  ultimately show ?thesis using lt
    by (auto simp: HEX_def word_le_nat_alt unat_sub_if')
qed

lemma nibbles: "push_bit 4 (drop_bit 4 c) OR (c AND 0xf) = (c :: u8)"
proof (rule bit_word_eqI)
  fix n assume "n < LENGTH(8)"
  have m: "(0xf :: u8) = mask 4" by (simp add: mask_eq_exp_minus_1)
  show "bit (push_bit 4 (drop_bit 4 c) OR (c AND 0xf)) n = bit c n"
    using \<open>n < LENGTH(8)\<close> unfolding m bit_or_iff bit_and_iff bit_push_bit_iff bit_drop_bit_eq bit_mask_iff comp_def
    by auto
qed

lemma nibble_bounds: "unat (drop_bit 4 (c :: u8)) < 16" "unat (c AND 0xf) < 16"
proof -
  have lt: "unat c < 256" by (rule unsigned_less [THEN less_le_trans]) simp
  then show "unat (drop_bit 4 c) < 16" using unat_drop_bit_div [of 4 c] by simp
  show "unat (c AND 0xf) < 16" using unat_and_low_bits [of c 4] by simp
qed

lemma fromhex_tohex: "fromhex_loop (concat (map (\<lambda>c. [hex ! unat (drop_bit 4 c), hex ! unat (c AND 0xf)]) text)) = Inr text"
proof (induction "text")
  case (Cons c m)
  have "HEX (hex ! unat (drop_bit 4 c)) = drop_bit 4 c" "HEX (hex ! unat (c AND 0xf)) = c AND 0xf"
    using nibble_bounds [of c] by (simp_all add: hex_digit)
  moreover have "\<not> drop_bit 4 c > 16" "\<not> c AND 0xf > 16"
    using nibble_bounds [of c] by (simp_all add: word_less_nat_alt)
  ultimately show ?case using Cons by (simp add: Let_def nibbles)
qed simp

lemma fromhex_accepts:
  "even (length text) \<Longrightarrow>
   (\<exists>out. fromhex_loop text = Inr out) \<longleftrightarrow> (\<forall>c\<in>set text. 48 \<le> c \<and> c \<le> 57 \<or> 87 \<le> c \<and> c \<le> 103)"
proof (induction "text" rule: fromhex_loop.induct)
  case (1 a b m)
  then show ?case
    using HEX_accepts [of a] HEX_accepts [of b]
    by (cases "HEX a > 16 \<or> HEX b > 16") (auto simp: Let_def not_less split: sum.splits)
qed auto

section \<open>Base64 facts\<close>

lemma b64index_char: "k < 64 \<Longrightarrow> b64index (b64_char k) = uint k"
proof -
  have "list_all (\<lambda>k. b64index (b64_encoding ! k) = int k) [0..<64]" by code_simp
  moreover assume "k < 64"
  then have "unat k \<in> set [0..<64]" by (simp add: word_less_nat_alt)
  ultimately show ?thesis by (simp add: list_all_iff b64_char_def)
qed

lemma low_masks: "(0x3f :: u32) = mask 6" "(0xf :: u32) = mask 4" "(3 :: u32) = mask 2" "(0xff :: u32) = mask 8"
  by (simp_all add: mask_eq_exp_minus_1)

lemma sextets:
  "push_bit 18 (drop_bit 18 v) OR push_bit 12 (drop_bit 12 v AND 0x3f) OR push_bit 6 (drop_bit 6 v AND 0x3f) OR (v AND 0x3f) = (v :: u32)"
proof (rule bit_word_eqI)
  fix n assume n: "n < LENGTH(32)"
  consider "n < 6" | "6 \<le> n" "n < 12" | "12 \<le> n" "n < 18" | "18 \<le> n" by linarith
  then show "bit (push_bit 18 (drop_bit 18 v) OR push_bit 12 (drop_bit 12 v AND 0x3f) OR
      push_bit 6 (drop_bit 6 v AND 0x3f) OR (v AND 0x3f)) n = bit v n"
    unfolding low_masks bit_rules using n by cases auto
qed

lemma sextets2:
  "push_bit 10 (drop_bit 10 v) OR push_bit 4 (drop_bit 4 v AND 0x3f) OR drop_bit 2 (push_bit 2 (v AND 0xf)) = (v :: u32)"
proof (rule bit_word_eqI)
  fix n assume n: "n < LENGTH(32)"
  consider "n < 4" | "4 \<le> n" "n < 10" | "10 \<le> n" by linarith
  then show "bit (push_bit 10 (drop_bit 10 v) OR push_bit 4 (drop_bit 4 v AND 0x3f) OR drop_bit 2 (push_bit 2 (v AND 0xf))) n = bit v n"
    unfolding low_masks bit_rules using n by cases auto
qed

lemma sextets1: "push_bit 2 (drop_bit 2 v) OR drop_bit 4 (push_bit 4 (v AND 3)) = (v :: u32)"
proof (rule bit_word_eqI)
  fix n assume n: "n < LENGTH(32)"
  show "bit (push_bit 2 (drop_bit 2 v) OR drop_bit 4 (push_bit 4 (v AND 3))) n = bit v n"
  proof (cases "n < 2")
    case True
    then show ?thesis unfolding low_masks bit_rules using n by auto
  next
    case False
    then obtain k where "n = 2 + k" using le_Suc_ex by (metis not_less)
    then show ?thesis unfolding low_masks bit_rules using n by auto
  qed
qed

lemma sextet_zeros: "push_bit 2 (v AND 0xf) AND 3 = (0 :: u32)" "push_bit 4 (v AND 3) AND 0xf = (0 :: u32)"
  by (rule bit_word_eqI, unfold low_masks bit_rules, auto)+

lemma low_mask_less: "x AND 0x3f < (64 :: u32)"
  using unat_and_low_bits [of x 6] by (simp add: word_less_nat_alt)

lemma push_mask_less: "push_bit 2 (v AND 0xf) < (64 :: u32)" "push_bit 4 (v AND 3) < (64 :: u32)"
proof -
  have "push_bit 2 (v AND 0xf) AND 0x3f = push_bit 2 (v AND 0xf)" "push_bit 4 (v AND 3) AND 0x3f = push_bit 4 (v AND 3)"
    by (rule bit_word_eqI, unfold low_masks bit_rules, auto)+
  then show "push_bit 2 (v AND 0xf) < (64 :: u32)" "push_bit 4 (v AND 3) < (64 :: u32)"
    using low_mask_less by metis+
qed

lemma b64_word_uint [simp]: "b64_word (uint k) = k"
  by (simp add: b64_word_def)

lemma quad_char: "k < 64 \<Longrightarrow> b64_quad (Suc n) (b64_char k # m) =
    map_option (\<lambda>(cs, rest). (uint k # cs, rest)) (b64_quad n m)"
proof -
  assume "k < 64"
  moreover have "uint k \<noteq> - 1" using uint_ge_0 [of k] by linarith
  ultimately show ?thesis by (simp add: b64index_char)
qed

lemma quad_pad: "b64_quad (Suc n) (61 # m) = map_option (\<lambda>(cs, rest). (- 2 # cs, rest)) (b64_quad n m)"
  by (simp add: b64index_def b64_decoding_def)

lemma quad4:
  "k0 < 64 \<Longrightarrow> k1 < 64 \<Longrightarrow> k2 < 64 \<Longrightarrow> k3 < 64 \<Longrightarrow>
    b64_quad 4 (b64_char k0 # b64_char k1 # b64_char k2 # b64_char k3 # m) = Some ([uint k0, uint k1, uint k2, uint k3], m)"
  "k0 < 64 \<Longrightarrow> k1 < 64 \<Longrightarrow> k2 < 64 \<Longrightarrow>
    b64_quad 4 (b64_char k0 # b64_char k1 # b64_char k2 # 61 # m) = Some ([uint k0, uint k1, uint k2, - 2], m)"
  "k0 < 64 \<Longrightarrow> k1 < 64 \<Longrightarrow>
    b64_quad 4 (b64_char k0 # b64_char k1 # 61 # 61 # m) = Some ([uint k0, uint k1, - 2, - 2], m)"
  by (simp_all add: numeral_eq_Suc quad_char quad_pad del: b64_quad.simps(3))

lemma uint_not_pad: "uint k \<noteq> - 2" "- 2 \<noteq> uint k"
  using uint_ge_0 [of k] by linarith+

lemma be32_shift: "push_bit 16 (ucast a) OR push_bit 8 (ucast b) OR ucast c = be32 0 a b c"
  "push_bit 8 (ucast a) OR ucast b = be32 0 0 a b" "ucast a = be32 0 0 0 a"
  by (simp_all add: be32_def)

lemma be32_bytes_of:
  "ucast (drop_bit 16 (be32 x a b c)) = a" "ucast (drop_bit 8 (be32 x a b c) AND 0xff) = b"
  "ucast (be32 x a b c AND 0xff) = c" "ucast (drop_bit 8 (be32 x a b c)) = b" "ucast (be32 x a b c) = c"
proof -
  have m: "ucast (w AND 0xff) = (ucast w :: u8)" for w :: u32
    by (rule bit_word_eqI, unfold low_masks) (auto simp: bit_simps)
  show "ucast (drop_bit 16 (be32 x a b c)) = a" "ucast (drop_bit 8 (be32 x a b c) AND 0xff) = b"
    "ucast (be32 x a b c AND 0xff) = c" "ucast (drop_bit 8 (be32 x a b c)) = b" "ucast (be32 x a b c) = c"
    unfolding m by (rule bit_word_eqI; auto simp: bit_ucast_iff bit_drop_bit_eq bit_be32)+
qed

lemma be32_high: "drop_bit 18 (be32 0 a b c) < 64" "drop_bit 10 (be32 0 0 a b) < 64" "drop_bit 2 (be32 0 0 0 a) < 64"
proof -
  have "drop_bit 18 (be32 0 a b c) AND 0x3f = drop_bit 18 (be32 0 a b c)"
    "drop_bit 10 (be32 0 0 a b) AND 0x3f = drop_bit 10 (be32 0 0 a b)"
    "drop_bit 2 (be32 0 0 0 a) AND 0x3f = drop_bit 2 (be32 0 0 0 a)"
    by (rule bit_word_eqI, unfold low_masks bit_rules bit_be32, auto dest: bit_imp_le_length)+
  then show "drop_bit 18 (be32 0 a b c) < 64" "drop_bit 10 (be32 0 0 a b) < 64" "drop_bit 2 (be32 0 0 0 a) < 64"
    using low_mask_less by metis+
qed

lemma unpack_words:
  fixes i0 i1 i2 i3 :: u32
  shows "b64_unpack [uint i0, uint i1, uint i2, uint i3] =
     (let v = push_bit 18 i0 OR push_bit 12 i1 OR push_bit 6 i2 OR i3
      in Inr [ucast (drop_bit 16 v), ucast (drop_bit 8 v AND 0xff), ucast (v AND 0xff)])"
  "i2 AND 3 = 0 \<Longrightarrow> b64_unpack [uint i0, uint i1, uint i2, - 2] =
     (let v = push_bit 10 i0 OR push_bit 4 i1 OR drop_bit 2 i2 in Inr [ucast (drop_bit 8 v), ucast (v AND 0xff)])"
  "i1 AND 0xf = 0 \<Longrightarrow> b64_unpack [uint i0, uint i1, - 2, - 2] =
     (let v = push_bit 2 i0 OR drop_bit 4 i1 in Inr [ucast v])"
proof -
  have "uint i2 AND 3 = uint (i2 AND 3)" "uint i1 AND 0xf = uint (i1 AND 0xf)"
    by (simp_all only: uint_and) simp_all
  then show "i2 AND 3 = 0 \<Longrightarrow> b64_unpack [uint i0, uint i1, uint i2, - 2] =
     (let v = push_bit 10 i0 OR push_bit 4 i1 OR drop_bit 2 i2 in Inr [ucast (drop_bit 8 v), ucast (v AND 0xff)])"
    "i1 AND 0xf = 0 \<Longrightarrow> b64_unpack [uint i0, uint i1, - 2, - 2] =
     (let v = push_bit 2 i0 OR drop_bit 4 i1 in Inr [ucast v])"
    by (simp_all add: b64_unpack_def uint_not_pad Let_def)
  show "b64_unpack [uint i0, uint i1, uint i2, uint i3] =
     (let v = push_bit 18 i0 OR push_bit 12 i1 OR push_bit 6 i2 OR i3
      in Inr [ucast (drop_bit 16 v), ucast (drop_bit 8 v AND 0xff), ucast (v AND 0xff)])"
    by (simp add: b64_unpack_def uint_not_pad Let_def)
qed

lemma b64_decode_encode: "b64_decode (b64_encode text) = Inr text"
proof (induction "text" rule: b64_encode.induct)
  case (1 a b c m)
  have "b64_unpack [uint (drop_bit 18 (be32 0 a b c)), uint (drop_bit 12 (be32 0 a b c) AND 0x3f),
    uint (drop_bit 6 (be32 0 a b c) AND 0x3f), uint (be32 0 a b c AND 0x3f)] = Inr [a, b, c]"
    by (simp only: unpack_words(1) sextets be32_bytes_of Let_def)
  with 1 show ?case
    by (subst b64_decode.simps) (simp add: be32_shift(1) Let_def quad4(1) be32_high low_mask_less)
next
  case (2 a)
  let ?v = "be32 0 0 0 a"
  have "b64_encode [a] = [b64_char (drop_bit 2 ?v), b64_char (push_bit 4 (?v AND 3)), 61, 61]"
    by (simp only: b64_encode.simps Let_def be32_shift(3))
  moreover have "b64_unpack [uint (drop_bit 2 ?v), uint (push_bit 4 (?v AND 3)), - 2, - 2] = Inr [a]"
    by (simp only: unpack_words(3) [OF sextet_zeros(2)] sextets1 be32_bytes_of Let_def)
  ultimately show ?case
    by (subst b64_decode.simps)
      (simp add: quad4(3) [OF be32_high(3) push_mask_less(2)] b64_decode.simps del: push_bit_and)
next
  case (3 a b)
  let ?v = "be32 0 0 a b"
  have "b64_encode [a, b] = [b64_char (drop_bit 10 ?v), b64_char (drop_bit 4 ?v AND 0x3f), b64_char (push_bit 2 (?v AND 0xf)), 61]"
    by (simp only: b64_encode.simps Let_def be32_shift(2))
  moreover have "b64_unpack [uint (drop_bit 10 ?v), uint (drop_bit 4 ?v AND 0x3f), uint (push_bit 2 (?v AND 0xf)), - 2] = Inr [a, b]"
    by (simp only: unpack_words(2) [OF sextet_zeros(1)] sextets2 be32_bytes_of Let_def)
  ultimately show ?case
    by (subst b64_decode.simps)
      (simp add: quad4(2) [OF be32_high(2) low_mask_less push_mask_less(1)] b64_decode.simps del: push_bit_and)
qed (simp add: b64_decode.simps)

lemma length_b64_encode: "length (b64_encode text) = (length text + 2) div 3 * 4"
proof (induction "text" rule: b64_encode.induct)
  case (1 a b c m)
  have "(length (a # b # c # m) + 2) div 3 = (length m + 2) div 3 + 1" by simp
  with 1 show ?case by (simp add: Let_def)
qed (simp_all add: Let_def)

section \<open>Properties\<close>

text \<open>Base64 round trip.  Decoding what \<open>base64encode\<close> wrote gives back every byte string,
  with every length of padding.\<close>

theorem base64_roundtrip: "\<exists>code. lb64encode text = Inr code \<and> lb64decode code = Inr text \<and>
    length code = (length text + 2) div 3 * 4"
  by (simp add: lb64encode_def lb64decode_def b64_decode_encode length_b64_encode)

text \<open>Hexadecimal round trip.\<close>

theorem hex_roundtrip: "\<exists>code. ltohex text = Inr code \<and> lfromhex code = Inr text \<and> length code = 2 * length text"
proof -
  have "length (concat (map (\<lambda>c. [hex ! unat (drop_bit 4 c), hex ! unat (c AND 0xf)]) text)) = 2 * length text"
    by (induction "text") simp_all
  then show ?thesis by (simp add: ltohex_def lfromhex_def fromhex_tohex)
qed

text \<open>What \<open>hexdecode\<close> accepts: every even-length text of characters '0' to '9' and 'W' to
  'g'.  So it takes 'g', for 16, and the ten characters before 'a', which are no hexadecimal
  digits, and refuses 'A' to 'F'.\<close>

theorem hexdecode_accepts:
  "(\<exists>out. lfromhex text = Inr out) \<longleftrightarrow>
   even (length text) \<and> list_all (\<lambda>c. c \<in> {48..57} \<union> {87..103}) text"
  using fromhex_accepts [of "text"] by (simp add: lfromhex_def list_all_iff)

end
