(* ===== verification/Sha1.thy ===== *)
theory Sha1
  imports Bytes
begin

text \<open>
  SHA-1 and HMAC-SHA-1: \<open>lualib-src/lsha1.c\<close>, and their specifications, FIPS 180 and RFC 2104.

  The C code unrolls the 80 rounds and, instead of moving the five working variables, renames them
  from round to round; here a round maps the tuple \<open>(v, w, x, y, z)\<close> of its arguments to the tuple
  of the next round's arguments, so the renaming is the permutation of the tuple.  The message
  schedule is expanded in place in 16 words.  The machine is little-endian with a 64-bit
  \<open>size_t\<close>.  A context lives on the C stack uninitialised, so its first contents are an
  argument of the functions.
\<close>

section \<open>The code\<close>

type_synonym sha1_regs = "u32 \<times> u32 \<times> u32 \<times> u32 \<times> u32"

record sha1_ctx =
  sha_state :: sha1_regs
  sha_count0 :: u32
  sha_count1 :: u32
  sha_buffer :: bytes

definition rol :: "u32 \<Rightarrow> nat \<Rightarrow> u32" where
  "rol x n = push_bit n x OR drop_bit (32 - n) x"

definition blk0 :: "nat \<Rightarrow> u32 list \<Rightarrow> u32 list" where
  "blk0 i l = l[i := (rol (l ! i) 24 AND 0xFF00FF00) OR (rol (l ! i) 8 AND 0x00FF00FF)]"

definition blk :: "nat \<Rightarrow> u32 list \<Rightarrow> u32 list" where
  "blk i l = l[i mod 16 := rol (l ! ((i + 13) mod 16) XOR l ! ((i + 8) mod 16) XOR
     l ! ((i + 2) mod 16) XOR l ! (i mod 16)) 1]"

definition R0 :: "nat \<Rightarrow> u32 list \<times> sha1_regs \<Rightarrow> u32 list \<times> sha1_regs" where
  "R0 i = (\<lambda>(l, v, w, x, y, z). let l = blk0 i l in
     (l, z + (((w AND (x XOR y)) XOR y) + l ! i + 0x5A827999 + rol v 5), v, rol w 30, x, y))"

definition R1 :: "nat \<Rightarrow> u32 list \<times> sha1_regs \<Rightarrow> u32 list \<times> sha1_regs" where
  "R1 i = (\<lambda>(l, v, w, x, y, z). let l = blk i l in
     (l, z + (((w AND (x XOR y)) XOR y) + l ! (i mod 16) + 0x5A827999 + rol v 5), v, rol w 30, x, y))"

definition R2 :: "nat \<Rightarrow> u32 list \<times> sha1_regs \<Rightarrow> u32 list \<times> sha1_regs" where
  "R2 i = (\<lambda>(l, v, w, x, y, z). let l = blk i l in
     (l, z + ((w XOR x XOR y) + l ! (i mod 16) + 0x6ED9EBA1 + rol v 5), v, rol w 30, x, y))"

definition R3 :: "nat \<Rightarrow> u32 list \<times> sha1_regs \<Rightarrow> u32 list \<times> sha1_regs" where
  "R3 i = (\<lambda>(l, v, w, x, y, z). let l = blk i l in
     (l, z + ((((w OR x) AND y) OR (w AND x)) + l ! (i mod 16) + 0x8F1BBCDC + rol v 5), v, rol w 30, x, y))"

definition R4 :: "nat \<Rightarrow> u32 list \<times> sha1_regs \<Rightarrow> u32 list \<times> sha1_regs" where
  "R4 i = (\<lambda>(l, v, w, x, y, z). let l = blk i l in
     (l, z + ((w XOR x XOR y) + l ! (i mod 16) + 0xCA62C1D6 + rol v 5), v, rol w 30, x, y))"

definition add_regs :: "sha1_regs \<Rightarrow> sha1_regs \<Rightarrow> sha1_regs" where
  "add_regs = (\<lambda>(a, b, c, d, e) (a', b', c', d', e'). (a + a', b + b', c + c', d + d', e + e'))"

definition SHA1_Transform :: "sha1_regs \<Rightarrow> bytes \<Rightarrow> sha1_regs" where
  "SHA1_Transform state buffer =
     (let l = map (\<lambda>i. get_le32 buffer (4 * i)) [0..<16] in
      add_regs state (snd (fold R4 [60..<80] (fold R3 [40..<60] (fold R2 [20..<40]
        (fold R1 [16..<20] (fold R0 [0..<16] (l, state))))))))"

definition sat_SHA1_Init :: "sha1_ctx \<Rightarrow> sha1_ctx" where
  "sat_SHA1_Init context = context\<lparr>
     sha_state := (0x67452301, 0xEFCDAB89, 0x98BADCFE, 0x10325476, 0xC3D2E1F0),
     sha_count0 := 0, sha_count1 := 0\<rparr>"

text \<open>The loop of \<open>sat_SHA1_Update\<close> over whole blocks of the data.\<close>

function update_blocks :: "sha1_regs \<Rightarrow> bytes \<Rightarrow> nat \<Rightarrow> sha1_regs \<times> nat" where
  "update_blocks state data i =
     (if i + 63 < length data
      then update_blocks (SHA1_Transform state (take 64 (drop i data))) data (i + 64)
      else (state, i))"
  by auto
termination by (relation "measure (\<lambda>(_, data, i). length data - i)") auto

declare update_blocks.simps [simp del]

text \<open>
  \<open>memcpy(&buffer[j], src, n)\<close>.
\<close>

definition copy_at :: "nat \<Rightarrow> bytes \<Rightarrow> bytes \<Rightarrow> bytes" where
  "copy_at j src buffer = take j buffer @ src @ drop (j + length src) buffer"

definition sat_SHA1_Update :: "sha1_ctx \<Rightarrow> bytes \<Rightarrow> sha1_ctx" where
  "sat_SHA1_Update context data =
     (let len = (of_nat (length data) :: u64);
          j = unat (drop_bit 3 (sha_count0 context) AND 63);
          count0 = sha_count0 context + ucast (push_bit 3 len);
          count1 = sha_count1 context + (if ucast count0 < push_bit 3 len then 1 else 0) + ucast (drop_bit 29 len)
      in if j + length data > 63 then
           let i = 64 - j;
               buffer = copy_at j (take i data) (sha_buffer context);
               (state, i) = update_blocks (SHA1_Transform (sha_state context) buffer) data i
           in \<lparr>sha_state = state, sha_count0 = count0, sha_count1 = count1,
               sha_buffer = copy_at 0 (drop i data) buffer\<rparr>
         else \<lparr>sha_state = sha_state context, sha_count0 = count0, sha_count1 = count1,
               sha_buffer = copy_at j data (sha_buffer context)\<rparr>)"

text \<open>The loop of \<open>sat_SHA1_Final\<close> that pads with zeros.\<close>

partial_function (option) pad_zeros :: "sha1_ctx \<Rightarrow> sha1_ctx option" where
  "pad_zeros context =
     (if sha_count0 context AND 504 \<noteq> 448 then pad_zeros (sat_SHA1_Update context [0]) else Some context)"

definition digest_bytes :: "sha1_regs \<Rightarrow> bytes" where
  "digest_bytes = (\<lambda>(a, b, c, d, e). concat (map be32_bytes [a, b, c, d, e]))"

definition sat_SHA1_Final :: "sha1_ctx \<Rightarrow> bytes option" where
  "sat_SHA1_Final context =
     (let finalcount = be32_bytes (sha_count1 context) @ be32_bytes (sha_count0 context) in
      do {
        padded \<leftarrow> pad_zeros (sat_SHA1_Update context [0x80]);
        Some (digest_bytes (sha_state (sat_SHA1_Update padded finalcount)))
      })"

definition lsha1 :: "sha1_ctx \<Rightarrow> bytes \<Rightarrow> bytes option" where
  "lsha1 ctx buffer = sat_SHA1_Final (sat_SHA1_Update (sat_SHA1_Init ctx) buffer)"

definition xor_key :: "bytes \<Rightarrow> u32 \<Rightarrow> bytes" where
  "xor_key key x = concat (map (\<lambda>i. le32_bytes (get_le32 key (4 * i) XOR x)) [0..<16])"

definition lhmac_sha1 :: "sha1_ctx \<Rightarrow> bytes \<Rightarrow> bytes \<Rightarrow> bytes option" where
  "lhmac_sha1 ctx key text = do {
     rkey \<leftarrow> (if length key > 64
       then do { d \<leftarrow> sat_SHA1_Final (sat_SHA1_Update (sat_SHA1_Init ctx) key); Some (copy_at 0 d (replicate 64 0)) }
       else Some (copy_at 0 key (replicate 64 0)));
     let rkey = xor_key rkey 0x5c5c5c5c;
     let ctx1 = sat_SHA1_Update (sat_SHA1_Init ctx) rkey;
     let rkey = xor_key rkey (0x5c5c5c5c XOR 0x36363636);
     let ctx2 = sat_SHA1_Update (sat_SHA1_Update (sat_SHA1_Init ctx) rkey) text;
     digest2 \<leftarrow> sat_SHA1_Final ctx2;
     sat_SHA1_Final (sat_SHA1_Update ctx1 digest2)
   }"

section \<open>The specification\<close>

fun fips_W :: "bytes \<Rightarrow> nat \<Rightarrow> u32" where
  "fips_W b t = (if t < 16 then get_be32 b (4 * t)
     else rol (fips_W b (t - 3) XOR fips_W b (t - 8) XOR fips_W b (t - 14) XOR fips_W b (t - 16)) 1)"

declare fips_W.simps [simp del]

definition fips_f :: "nat \<Rightarrow> u32 \<Rightarrow> u32 \<Rightarrow> u32 \<Rightarrow> u32" where
  "fips_f t x y z =
     (if t < 20 then (x AND y) XOR (NOT x AND z)
      else if t < 40 then x XOR y XOR z
      else if t < 60 then (x AND y) XOR (x AND z) XOR (y AND z)
      else x XOR y XOR z)"

definition fips_K :: "nat \<Rightarrow> u32" where
  "fips_K t = (if t < 20 then 0x5a827999 else if t < 40 then 0x6ed9eba1
     else if t < 60 then 0x8f1bbcdc else 0xca62c1d6)"

definition fips_step :: "bytes \<Rightarrow> nat \<Rightarrow> sha1_regs \<Rightarrow> sha1_regs" where
  "fips_step m t = (\<lambda>(a, b, c, d, e).
     (rol a 5 + fips_f t b c d + e + fips_K t + fips_W m t, a, rol b 30, c, d))"

definition fips_compress :: "sha1_regs \<Rightarrow> bytes \<Rightarrow> sha1_regs" where
  "fips_compress H m = add_regs H (fold (fips_step m) [0..<80] H)"

definition fips_H0 :: sha1_regs where
  "fips_H0 = (0x67452301, 0xefcdab89, 0x98badcfe, 0x10325476, 0xc3d2e1f0)"

fun fips_blocks :: "nat \<Rightarrow> sha1_regs \<Rightarrow> bytes \<Rightarrow> sha1_regs" where
  "fips_blocks 0 H m = H"
| "fips_blocks (Suc n) H m = fips_blocks n (fips_compress H (take 64 m)) (drop 64 m)"

definition fips_pad :: "bytes \<Rightarrow> bytes" where
  "fips_pad m = m @ [0x80] @ replicate ((119 - length m mod 64) mod 64) 0 @
     rev (le64_bytes (of_nat (8 * length m)))"

definition fips_sha1 :: "bytes \<Rightarrow> bytes" where
  "fips_sha1 m = digest_bytes (fips_blocks (length (fips_pad m) div 64) fips_H0 (fips_pad m))"

definition rfc_hmac :: "bytes \<Rightarrow> bytes \<Rightarrow> bytes" where
  "rfc_hmac key m =
     (let K = (if length key > 64 then fips_sha1 key else key);
          K = K @ replicate (64 - length K) 0
      in fips_sha1 (map (\<lambda>k. k XOR 0x5c) K @ fips_sha1 (map (\<lambda>k. k XOR 0x36) K @ m)))"

section \<open>One block\<close>

lemma swap_masks: "(0xFF00FF00 :: u32) = push_bit 24 (mask 8) OR push_bit 8 (mask 8)"
  "(0x00FF00FF :: u32) = push_bit 16 (mask 8) OR mask 8"
  by (simp_all add: mask_eq_exp_minus_1)

lemma byte_swap: "(rol (le32 a b c d) 24 AND 0xFF00FF00) OR (rol (le32 a b c d) 8 AND 0x00FF00FF) = be32 a b c d"
proof (rule bit_word_eqI)
  fix n assume n: "n < LENGTH(32)"
  consider "n < 8" | "8 \<le> n" "n < 16" | "16 \<le> n" "n < 24" | "24 \<le> n" by linarith
  then show "bit ((rol (le32 a b c d) 24 AND 0xFF00FF00) OR (rol (le32 a b c d) 8 AND 0x00FF00FF)) n = bit (be32 a b c d) n"
    unfolding le32_be32 rol_def swap_masks bit_or_iff bit_and_iff bit_push_bit_iff bit_drop_bit_eq bit_mask_iff comp_def
      bit_be32
    using n by cases (auto dest: bit_imp_le_length)
qed

lemma code_ch: "(w AND (x XOR y)) XOR y = (w AND x) XOR (NOT w AND (y :: u32))"
  by (rule bit_word_eqI) (auto simp: bit_simps)

lemma code_maj: "((w OR x) AND y) OR (w AND x) = (w AND x) XOR (w AND y) XOR (x AND (y :: u32))"
  by (rule bit_word_eqI) (auto simp: bit_simps)

text \<open>The round that the code runs for index \<open>i\<close>.\<close>

definition code_round :: "nat \<Rightarrow> u32 list \<times> sha1_regs \<Rightarrow> u32 list \<times> sha1_regs" where
  "code_round i = (if i < 16 then R0 i else if i < 20 then R1 i else if i < 40 then R2 i
     else if i < 60 then R3 i else R4 i)"

text \<open>Before round \<open>i\<close> the 16 words hold the last 16 of the schedule, or raw words of the block.\<close>

definition schedule :: "bytes \<Rightarrow> nat \<Rightarrow> u32 list \<Rightarrow> bool" where
  "schedule b i l \<longleftrightarrow> length l = 16 \<and> (\<forall>t. t < i \<and> i \<le> t + 16 \<longrightarrow> l ! (t mod 16) = fips_W b t) \<and>
     (\<forall>j. i \<le> j \<and> j < 16 \<longrightarrow> l ! j = get_le32 b (4 * j))"

lemma schedule_blk0:
  assumes "schedule b i l" "i < 16"
  shows "blk0 i l ! i = fips_W b i" and "schedule b (Suc i) (blk0 i l)"
proof -
  have len: "length l = 16" and raw: "l ! i = get_le32 b (4 * i)" using assms by (auto simp: schedule_def)
  have "(rol (l ! i) 24 AND 0xFF00FF00) OR (rol (l ! i) 8 AND 0x00FF00FF) = get_be32 b (4 * i)"
    unfolding raw get_le32_def get_be32_def by (rule byte_swap)
  then have eq: "blk0 i l = l[i := fips_W b i]" using assms(2) by (simp add: blk0_def fips_W.simps [of b i])
  then show "blk0 i l ! i = fips_W b i" using assms(2) len by simp
  show "schedule b (Suc i) (blk0 i l)"
    using assms by (auto simp: schedule_def eq nth_list_update less_Suc_eq)
qed

lemma schedule_blk:
  assumes "schedule b i l" "16 \<le> i"
  shows "blk i l ! (i mod 16) = fips_W b i" and "schedule b (Suc i) (blk i l)"
proof -
  have len: "length l = 16" and W: "\<And>t. t < i \<Longrightarrow> i \<le> t + 16 \<Longrightarrow> l ! (t mod 16) = fips_W b t"
    using assms by (auto simp: schedule_def)
  have m: "(i + 13) mod 16 = (i - 3) mod 16" "(i + 8) mod 16 = (i - 8) mod 16" "(i + 2) mod 16 = (i - 14) mod 16"
    "i mod 16 = (i - 16) mod 16"
  proof -
    have "i + 13 = (i - 3) + 16" "i + 8 = (i - 8) + 16" "i + 2 = (i - 14) + 16" "i = (i - 16) + 16"
      using assms(2) by simp_all
    then show "(i + 13) mod 16 = (i - 3) mod 16" "(i + 8) mod 16 = (i - 8) mod 16"
      "(i + 2) mod 16 = (i - 14) mod 16" "i mod 16 = (i - 16) mod 16"
      by (metis mod_add_self2)+
  qed
  have "rol (l ! ((i + 13) mod 16) XOR l ! ((i + 8) mod 16) XOR l ! ((i + 2) mod 16) XOR l ! (i mod 16)) 1 = fips_W b i"
    unfolding m using assms(2) by (simp add: W fips_W.simps [of b i])
  then have eq: "blk i l = l[i mod 16 := fips_W b i]" by (simp add: blk_def)
  then show "blk i l ! (i mod 16) = fips_W b i" using len by simp
  have ne: "t mod 16 \<noteq> i mod 16" if "t < i" "Suc i \<le> t + 16" for t
  proof
    assume "t mod 16 = i mod 16"
    then have "16 dvd i - t" using that mod_eq_dvd_iff_nat [of t i 16] by simp
    then show False using that by (auto dest: dvd_imp_le)
  qed
  have "blk i l ! (t mod 16) = fips_W b t" if "t < Suc i" "Suc i \<le> t + 16" for t
  proof (cases "t = i")
    case False
    then have "t mod 16 \<noteq> i mod 16" using that by (intro ne) simp_all
    then show ?thesis using that False by (simp add: eq W nth_list_update_neq [OF not_sym])
  qed (simp add: eq len)
  then show "schedule b (Suc i) (blk i l)"
    using assms(2) len by (auto simp: schedule_def eq)
qed

lemma code_round_step:
  assumes "schedule b i l"
  shows "\<exists>l'. code_round i (l, r) = (l', fips_step b i r) \<and> schedule b (Suc i) l'"
proof -
  obtain v w x y z where r: "r = (v, w, x, y, z)" by (cases r)
  show ?thesis
  proof (cases "i < 16")
    case True
    with schedule_blk0 [OF assms True] show ?thesis
      by (simp add: code_round_def R0_def r fips_step_def fips_f_def fips_K_def code_ch Let_def)
  next
    case False
    then have "16 \<le> i" by simp
    note b = schedule_blk [OF assms this]
    consider "i < 20" | "20 \<le> i" "i < 40" | "40 \<le> i" "i < 60" | "60 \<le> i" by linarith
    then show ?thesis
      using False b
      by cases (simp_all add: code_round_def R1_def R2_def R3_def R4_def r fips_step_def fips_f_def
          fips_K_def code_ch code_maj Let_def)
  qed
qed

lemma code_rounds:
  assumes "schedule b 0 l"
  shows "\<exists>l'. fold code_round [0..<n] (l, r) = (l', fold (fips_step b) [0..<n] r) \<and> schedule b n l'"
proof (induction n)
  case (Suc n)
  then obtain l' where "fold code_round [0..<n] (l, r) = (l', fold (fips_step b) [0..<n] r)" "schedule b n l'" by blast
  with code_round_step [of b n l'] show ?case by simp
qed (use assms in simp)

lemma SHA1_Transform_compress: "SHA1_Transform H b = fips_compress H b"
proof -
  let ?l = "map (\<lambda>i. get_le32 b (4 * i)) [0..<16]"
  have split: "[0..<80] = [0..<16] @ [16..<20] @ [20..<40] @ [40..<60] @ [60..<80 :: nat]"
    using upt_add_eq_append [of 0 16 4] upt_add_eq_append [of 0 20 20] upt_add_eq_append [of 0 40 20]
      upt_add_eq_append [of 0 60 20] by simp
  have "fold R0 [0..<16] = fold code_round [0..<16]" "fold R1 [16..<20] = fold code_round [16..<20]"
    "fold R2 [20..<40] = fold code_round [20..<40]" "fold R3 [40..<60] = fold code_round [40..<60]"
    "fold R4 [60..<80] = fold code_round [60..<80]"
    by (intro ext fold_cong refl, auto simp: code_round_def)+
  then have "SHA1_Transform H b = add_regs H (snd (fold code_round [0..<80] (?l, H)))"
    unfolding SHA1_Transform_def Let_def split fold_append by simp
  moreover have "schedule b 0 ?l" by (simp add: schedule_def)
  ultimately show ?thesis
    using code_rounds [of b ?l 80 H] by (auto simp: fips_compress_def)
qed

section \<open>The context represents the bytes it was given\<close>

text \<open>All whole blocks of a byte string, and what is left after them.\<close>

definition hashed :: "bytes \<Rightarrow> sha1_regs" where
  "hashed m = fips_blocks (length m div 64) fips_H0 m"

definition leftover :: "bytes \<Rightarrow> bytes" where
  "leftover m = drop (64 * (length m div 64)) m"

definition sha_repr :: "sha1_ctx \<Rightarrow> bytes \<Rightarrow> bool" where
  "sha_repr c m \<longleftrightarrow> sha_state c = hashed m \<and> length (sha_buffer c) = 64 \<and>
     take (length m mod 64) (sha_buffer c) = leftover m \<and>
     sha_count0 c = of_nat (8 * length m) \<and> sha_count1 c = of_nat (8 * length m div 2 ^ 32)"

lemma fips_blocks_append:
  "n * 64 \<le> length m \<Longrightarrow> fips_blocks n H (m @ m') = fips_blocks n H m"
  by (induction n arbitrary: H m) (simp_all add: )

lemma fips_blocks_add:
  "fips_blocks (n + k) H m = fips_blocks k (fips_blocks n H m) (drop (64 * n) m)"
proof (induction n arbitrary: H m)
  case (Suc n)
  have "64 * n + 64 = 64 * Suc n" by simp
  then show ?case using Suc by (simp add: drop_drop ac_simps)
qed simp

lemma length_leftover: "length (leftover m) = length m mod 64"
  by (simp add: leftover_def minus_mult_div_eq_mod)

lemma hashed_leftover: "take (64 * (length m div 64)) m @ leftover m = m"
  by (simp add: leftover_def)

text \<open>Hashing on from a block boundary.\<close>

lemma hashed_append:
  assumes "length (leftover m) + length d = 64 * k + r" "r < 64"
  shows "hashed (m @ d) = fips_blocks k (hashed m) (leftover m @ d)"
    and "leftover (m @ d) = drop (64 * k) (leftover m @ d)" and "length (m @ d) mod 64 = r"
    and "length (m @ d) div 64 = length m div 64 + k"
proof -
  let ?n = "length m div 64"
  have len: "length (m @ d) = 64 * (?n + k) + r"
    using assms(1) mult_div_mod_eq [of 64 "length m"] unfolding length_leftover length_append distrib_left by linarith
  then show m: "length (m @ d) mod 64 = r" and n: "length (m @ d) div 64 = ?n + k"
    unfolding len using assms(2) by (simp_all only: mod_mult_self4 div_mult_self4 mod_less div_less)
  have le: "64 * ?n \<le> length m" by (rule times_div_less_eq_dividend)
  have "fips_blocks ?n fips_H0 (m @ d) = hashed m"
    unfolding hashed_def using le by (intro fips_blocks_append) (simp add: mult.commute)
  moreover have "drop (64 * ?n) (m @ d) = leftover m @ d" using le by (simp add: leftover_def)
  ultimately show "hashed (m @ d) = fips_blocks k (hashed m) (leftover m @ d)"
    unfolding hashed_def [of "m @ d"] n fips_blocks_add by simp
  show "leftover (m @ d) = drop (64 * k) (leftover m @ d)"
  proof -
    have "64 * (?n + k) = 64 * k + 64 * ?n" by simp
    then show ?thesis
      unfolding leftover_def [of "m @ d"] n using \<open>drop (64 * ?n) (m @ d) = _\<close>
      by (simp only: drop_drop [symmetric])
  qed
qed

lemma update_blocks_correct:
  assumes "i + 64 * k + r = length d" "r < 64"
  shows "update_blocks H d i = (fips_blocks k H (drop i d), i + 64 * k)"
  using assms
proof (induction k arbitrary: H i)
  case 0
  then show ?case by (subst update_blocks.simps) simp
next
  case (Suc k)
  have "update_blocks H d i = update_blocks (fips_compress H (take 64 (drop i d))) d (i + 64)"
    using Suc.prems by (subst update_blocks.simps) (simp add: SHA1_Transform_compress)
  also have "\<dots> = (fips_blocks k (fips_compress H (take 64 (drop i d))) (drop (i + 64) d), i + 64 + 64 * k)"
    using Suc.prems by (intro Suc.IH) simp_all
  finally show ?case by (simp add: drop_drop add.commute)
qed

lemma length_copy_at: "j + length src \<le> length b \<Longrightarrow> length (copy_at j src b) = length b"
  by (simp add: copy_at_def)

lemma take_copy_at: "j \<le> length b \<Longrightarrow> take (j + length src) (copy_at j src b) = take j b @ src"
  by (simp add: copy_at_def)

lemma div_add_carry:
  fixes L M :: nat
  assumes "L < M"
  shows "(A + L) div M = A div M + (if (A + L) mod M < L then 1 else 0)"
proof -
  have r: "A mod M < M" using assms by simp
  have A: "A + L = (A mod M + L) + A div M * M" by simp
  have dm: "(A + L) div M = A div M + (A mod M + L) div M" "(A + L) mod M = (A mod M + L) mod M"
    using assms unfolding A by (simp_all only: div_mult_self1 mod_mult_self1)
  show ?thesis
  proof (cases "A mod M + L < M")
    case False
    moreover from this have "A mod M + L - M < M" using r assms by linarith
    ultimately have "(A mod M + L) div M = 1" "(A mod M + L) mod M = A mod M + L - M"
      using assms by (simp_all add: le_div_geq le_mod_geq)
    moreover have "A mod M + L - M < L" using r assms False by linarith
    ultimately show ?thesis by (simp add: dm)
  qed (simp add: dm)
qed

text \<open>The two counters are the 64-bit bit count, when one update is below \<open>2 ^ 29\<close> bytes.\<close>

lemma count_update:
  fixes n :: nat
  assumes "length d < 2 ^ 29"
  defines "len \<equiv> of_nat (length d) :: u64" and "c0 \<equiv> of_nat (8 * n) :: u32"
  shows "c0 + ucast (push_bit 3 len) = of_nat (8 * (n + length d))"
    and "of_nat (8 * n div 2 ^ 32) + (if ucast (c0 + ucast (push_bit 3 len)) < push_bit 3 len then 1 else 0) +
      ucast (drop_bit 29 len) = (of_nat (8 * (n + length d) div 2 ^ 32) :: u32)"
proof -
  let ?L = "8 * length d"
  have L: "?L < 2 ^ 32" using assms(1) by simp
  have lt64: "length d < 2 ^ 64" using assms(1) by (rule less_trans) simp
  have unat_len: "unat len = length d" using lt64 by (simp add: len_def unsigned_of_nat take_bit_nat_eq_self)
  have "push_bit 3 len = of_nat ?L" by (simp add: len_def push_bit_eq_mult)
  moreover have "?L < 2 ^ 64" using L by simp
  ultimately have p: "unat (push_bit 3 len) = ?L"
    by (simp only: unsigned_of_nat of_nat_id) (rule take_bit_nat_eq_self, simp)
  have "of_nat (unat (push_bit 3 len)) = (ucast (push_bit 3 len) :: u32)" by (rule of_nat_unat)
  then have u: "ucast (push_bit 3 len) = (of_nat ?L :: u32)" by (simp only: p)
  show c: "c0 + ucast (push_bit 3 len) = of_nat (8 * (n + length d))"
    by (simp only: u c0_def of_nat_add distrib_left)
  have d29: "drop_bit 29 len = 0"
    using unat_drop_bit_div [of 29 len] unat_len assms(1) by (simp add: word_unat_eq_iff)
  have un: "unat (of_nat (8 * (n + length d)) :: u32) = 8 * (n + length d) mod 2 ^ 32"
    by (simp only: unsigned_of_nat of_nat_id) (simp add: take_bit_eq_mod)
  have small: "8 * (n + length d) mod 2 ^ 32 < 2 ^ 64" by (rule less_trans [OF mod_less_divisor]) simp_all
  have "unat (ucast (c0 + ucast (push_bit 3 len)) :: u64) = 8 * (n + length d) mod 2 ^ 32"
    by (simp only: c unsigned_ucast_eq un) (rule take_bit_nat_eq_self, use small in simp)
  then have cmp: "ucast (c0 + ucast (push_bit 3 len)) < push_bit 3 len \<longleftrightarrow> 8 * (n + length d) mod 2 ^ 32 < ?L"
    by (simp add: word_less_nat_alt p)
  have "8 * (n + length d) div 2 ^ 32 = 8 * n div 2 ^ 32 + (if 8 * (n + length d) mod 2 ^ 32 < ?L then 1 else 0)"
    using div_add_carry [OF L, of "8 * n"] by (simp only: distrib_left)
  then show "of_nat (8 * n div 2 ^ 32) + (if ucast (c0 + ucast (push_bit 3 len)) < push_bit 3 len then 1 else 0) +
      ucast (drop_bit 29 len) = (of_nat (8 * (n + length d) div 2 ^ 32) :: u32)"
    by (simp add: d29 cmp)
qed

lemma sha_init: "length (sha_buffer c) = 64 \<Longrightarrow> sha_repr (sat_SHA1_Init c) []"
  by (simp add: sha_repr_def sat_SHA1_Init_def hashed_def leftover_def fips_H0_def)

lemma sha_update:
  assumes c: "sha_repr c m" and d: "length d < 2 ^ 29"
  shows "sha_repr (sat_SHA1_Update c d) (m @ d)"
proof -
  let ?j = "length m mod 64" and ?b = "sha_buffer c"
  have c': "sha_state c = hashed m" "length ?b = 64" "take ?j ?b = leftover m"
    "sha_count0 c = of_nat (8 * length m)" "sha_count1 c = of_nat (8 * length m div 2 ^ 32)"
    using c by (simp_all add: sha_repr_def)
  have j: "unat (drop_bit 3 (sha_count0 c) AND 63) = ?j"
  proof -
    have "unat (drop_bit 3 (sha_count0 c) AND 63) = unat (drop_bit 3 (sha_count0 c)) mod 64"
      using unat_and_low_bits [of "drop_bit 3 (sha_count0 c)" 6] by simp
    also have "unat (drop_bit 3 (sha_count0 c)) = unat (of_nat (8 * length m) :: u32) div 8"
      unfolding unat_drop_bit_div c'(4) by simp
    also have "unat (of_nat (8 * length m) :: u32) = 8 * length m mod 2 ^ 32"
      by (simp only: unsigned_of_nat of_nat_id) (simp add: take_bit_eq_mod)
    also have "8 * length m mod 2 ^ 32 div 8 mod 64 = ?j"
    proof -
      have "8 * length m mod 2 ^ 32 = 8 * (length m mod 2 ^ 29)"
        using mult_mod_right [of 8 "length m" "2 ^ 29"] by simp
      then show ?thesis using mod_mod_power2 [of 6 29 "length m"] by simp
    qed
    finally show ?thesis .
  qed
  have jl: "?j < 64" by simp
  note counts = count_update [OF d, of "length m"]
  have len: "length (leftover m) = ?j" by (rule length_leftover)
  let ?c0 = "sha_count0 c + ucast (push_bit 3 (of_nat (length d) :: u64))"
  let ?c1 = "sha_count1 c + (if ucast ?c0 < push_bit 3 (of_nat (length d) :: u64) then 1 else 0) +
    ucast (drop_bit 29 (of_nat (length d) :: u64))"
  have counts: "?c0 = of_nat (8 * length (m @ d))" "?c1 = of_nat (8 * length (m @ d) div 2 ^ 32)"
    using counts unfolding c'(4,5) length_append by blast+
  show ?thesis
  proof (cases "?j + length d > 63")
    case False
    then have u: "sat_SHA1_Update c d = \<lparr>sha_state = sha_state c, sha_count0 = ?c0, sha_count1 = ?c1,
        sha_buffer = copy_at ?j d ?b\<rparr>"
      by (simp only: sat_SHA1_Update_def Let_def j if_False)
    have "length (leftover m) + length d = 64 * 0 + (?j + length d)" "?j + length d < 64" using False len by simp_all
    note h = hashed_append [OF this]
    have "take (?j + length d) (copy_at ?j d ?b) = leftover m @ d"
      using c'(2,3) jl by (simp add: take_copy_at)
    moreover have "length (copy_at ?j d ?b) = 64" using False c'(2) by (simp add: length_copy_at)
    ultimately show ?thesis
      unfolding sha_repr_def u using h c'(1) counts by simp
  next
    case True
    let ?i = "64 - ?j"
    let ?buf = "copy_at ?j (take ?i d) ?b"
    define k where "k = (?j + length d) div 64 - 1"
    define r where "r = (?j + length d) mod 64"
    have kr: "?j + length d = 64 * Suc k + r" "r < 64"
      using True by (simp_all add: k_def r_def)
    have il: "?i \<le> length d" using True by simp
    have buf: "?buf = leftover m @ take ?i d"
      using c'(2,3) jl il by (simp add: copy_at_def)
    then have "length ?buf = 64" using len il jl by simp
    have blocks: "update_blocks (fips_compress (hashed m) ?buf) d ?i =
        (fips_blocks k (fips_compress (hashed m) ?buf) (drop ?i d), ?i + 64 * k)"
      using kr il jl by (intro update_blocks_correct) simp_all
    have u: "sat_SHA1_Update c d = \<lparr>sha_state = fips_blocks k (fips_compress (hashed m) ?buf) (drop ?i d),
        sha_count0 = ?c0, sha_count1 = ?c1, sha_buffer = copy_at 0 (drop (?i + 64 * k) d) ?buf\<rparr>"
      using True blocks by (simp add: sat_SHA1_Update_def Let_def j SHA1_Transform_compress c'(1))
    have "length (leftover m) + length d = 64 * Suc k + r" using kr len by simp
    note h = hashed_append [OF this kr(2)]
    have all: "leftover m @ d = ?buf @ drop ?i d" unfolding buf by simp
    have "hashed (m @ d) = fips_blocks k (fips_compress (hashed m) ?buf) (drop ?i d)"
      unfolding h(1) all using \<open>length ?buf = 64\<close> by simp
    moreover have "leftover (m @ d) = drop (?i + 64 * k) d"
    proof -
      have "drop (64 * Suc k) (?buf @ drop ?i d) = drop (64 * k) (drop ?i d)"
        using \<open>length ?buf = 64\<close> by simp
      then show ?thesis unfolding h(2) all by (simp only: drop_drop add.commute)
    qed
    moreover have r: "length (drop (?i + 64 * k) d) = r" using kr jl by simp
    moreover have "length (copy_at 0 (drop (?i + 64 * k) d) ?buf) = 64"
      using \<open>length ?buf = 64\<close> r kr(2) by (simp only: length_copy_at add_0 less_imp_le)
    moreover have "take r (copy_at 0 (drop (?i + 64 * k) d) ?buf) = drop (?i + 64 * k) d"
      using take_copy_at [of 0 ?buf "drop (?i + 64 * k) d"] r by (simp only: add_0 le0 take_0 append_Nil)
    ultimately show ?thesis
      unfolding sha_repr_def u using h(3) counts by (simp only: sha1_ctx.simps simp_thms)
  qed
qed

section \<open>Padding and the digest\<close>

lemma pad_test:
  assumes "sha_repr c m"
  shows "sha_count0 c AND 504 = 448 \<longleftrightarrow> length m mod 64 = 56"
proof -
  let ?q = "length m mod 64"
  have c: "sha_count0 c = of_nat (8 * length m)" using assms by (simp add: sha_repr_def)
  have "(504 :: u32) = push_bit 3 63" "sha_count0 c = push_bit 3 (of_nat (length m))"
    unfolding c by (simp_all add: push_bit_eq_mult mult.commute)
  then have "sha_count0 c AND 504 = push_bit 3 (of_nat (length m) AND 63)" by (simp only: push_bit_and)
  also have "of_nat (length m) AND 63 = (of_nat ?q :: u32)"
  proof -
    have "unat (of_nat (length m) AND 63 :: u32) = length m mod 2 ^ 32 mod 64"
      using unat_and_low_bits [of "of_nat (length m) :: u32" 6] by (simp add: unsigned_of_nat take_bit_eq_mod)
    also have "\<dots> = ?q" using mod_mod_power2 [of 6 32 "length m"] by simp
    finally show ?thesis by (metis of_nat_unat ucast_id)
  qed
  finally have "sha_count0 c AND 504 = of_nat (8 * ?q)" by (simp add: push_bit_eq_mult mult.commute)
  moreover have "8 * ?q < 2 ^ 32" by (rule less_trans [of _ "8 * 64"]) simp_all
  then have "unat (of_nat (8 * ?q) :: u32) = 8 * ?q"
    by (simp only: unsigned_of_nat of_nat_id) (rule take_bit_nat_eq_self, simp)
  then have "(of_nat (8 * ?q) :: u32) = 448 \<longleftrightarrow> 8 * ?q = 448"
    by (simp only: word_unat_eq_iff) simp
  ultimately show ?thesis by simp
qed

lemma pad_zeros_ok:
  "sha_repr c m \<Longrightarrow> (length m + k) mod 64 = 56 \<Longrightarrow> k < 64 \<Longrightarrow>
   \<exists>c'. pad_zeros c = Some c' \<and> sha_repr c' (m @ replicate k 0)"
proof (induction k arbitrary: c m)
  case 0
  then show ?case using pad_test [of c m] by (subst pad_zeros.simps) simp
next
  case (Suc k)
  have "length m mod 64 \<noteq> 56"
  proof
    assume "length m mod 64 = 56"
    then have "(length m + Suc k) mod 64 = (56 + Suc k) mod 64" by (metis mod_add_left_eq)
    with Suc.prems(2,3) show False by (simp add: mod_if split: if_splits)
  qed
  then have "pad_zeros c = pad_zeros (sat_SHA1_Update c [0])"
    using pad_test [OF Suc.prems(1)] by (subst pad_zeros.simps) simp
  moreover have "sha_repr (sat_SHA1_Update c [0]) (m @ [0])"
    by (rule sha_update [OF Suc.prems(1)]) simp
  moreover have "(m @ [0]) @ replicate k 0 = m @ replicate (Suc k) 0" by simp
  ultimately show ?case using Suc.IH [of _ "m @ [0]"] Suc.prems(2,3) by (metis (no_types, lifting) Suc_lessD
      add_Suc_right add_Suc length_append_singleton)
qed

lemma bit_of_nat_iff_word: "bit (of_nat n :: 'a :: len word) k \<longleftrightarrow> k < LENGTH('a) \<and> bit n k"
  by (simp add: bit_simps)

lemma count_bytes:
  "be32_bytes (of_nat (n div 2 ^ 32)) @ be32_bytes (of_nat n) = rev (le64_bytes (of_nat n))"
proof -
  have lo: "byte_of i (of_nat n :: u64) = byte_of i (of_nat n :: u32)" if "i < 4" for i
    using that by (intro bit_word_eqI) (auto simp: word_bytes bit_of_nat_iff_word)
  have hi: "byte_of (i + 4) (of_nat n :: u64) = byte_of i (of_nat (n div 2 ^ 32) :: u32)" if "i < 4" for i
  proof (rule bit_word_eqI)
    fix k assume "k < LENGTH(8)"
    have "n div 2 ^ 32 = drop_bit 32 n" by (simp add: drop_bit_eq_div)
    then show "bit (byte_of (i + 4) (of_nat n :: u64)) k = bit (byte_of i (of_nat (n div 2 ^ 32) :: u32)) k"
      using that \<open>k < LENGTH(8)\<close> by (simp only: word_bytes bit_of_nat_iff_word bit_drop_bit_eq comp_def)
        (simp add: algebra_simps)
  qed
  show ?thesis
    using lo [of 0] lo [of 1] lo [of 2] lo [of 3] hi [of 0] hi [of 1] hi [of 2] hi [of 3]
    by (simp add: be32_bytes_def le64_bytes_def)
qed

lemma sha_final:
  assumes "sha_repr c m"
  shows "sat_SHA1_Final c = Some (fips_sha1 m)"
proof -
  let ?k = "(119 - length m mod 64) mod 64"
  have k: "(length (m @ [0x80]) + ?k) mod 64 = 56"
  proof -
    have "length m mod 64 < 64" by simp
    then have "(length m mod 64 + 1 + (119 - length m mod 64)) mod 64 = 56" by simp
    then show ?thesis by (metis (no_types, lifting) length_append_singleton Suc_eq_plus1 mod_add_left_eq mod_add_right_eq)
  qed
  have "sha_repr (sat_SHA1_Update c [0x80]) (m @ [0x80])" by (rule sha_update [OF assms]) simp
  from pad_zeros_ok [OF this k] obtain c' where
    c': "pad_zeros (sat_SHA1_Update c [0x80]) = Some c'" "sha_repr c' ((m @ [0x80]) @ replicate ?k 0)" by auto
  let ?f = "be32_bytes (sha_count1 c) @ be32_bytes (sha_count0 c)"
  have f: "?f = rev (le64_bytes (of_nat (8 * length m)))"
    using assms count_bytes [of "8 * length m"] by (simp add: sha_repr_def)
  have pad: "((m @ [0x80]) @ replicate ?k 0) @ ?f = fips_pad m" by (simp add: f fips_pad_def)
  have "sha_repr (sat_SHA1_Update c' ?f) (((m @ [0x80]) @ replicate ?k 0) @ ?f)"
    by (rule sha_update [OF c'(2)]) simp
  then have "sha_state (sat_SHA1_Update c' ?f) = hashed (fips_pad m)"
    unfolding pad by (simp add: sha_repr_def)
  then show ?thesis
    unfolding sat_SHA1_Final_def Let_def c'(1) by (simp add: fips_sha1_def hashed_def)
qed

section \<open>HMAC keys\<close>

lemma concat_quads:
  "concat (map (\<lambda>i. [f (4 * i), f (4 * i + 1), f (4 * i + 2), f (4 * i + 3)]) [0..<n]) = map f [0..<4 * n]"
  by (induction n) (simp_all add: numeral_eq_Suc)

lemma byte_of_xor: "byte_of i (v XOR w) = byte_of i v XOR byte_of i w"
  by (rule bit_word_eqI) (auto simp: word_bytes bit_simps)

lemma xor_key_bytes:
  assumes "length key = 64" "le32_bytes x = [b, b, b, b]"
  shows "xor_key key x = map (\<lambda>k. k XOR b) key"
proof -
  have x: "byte_of 0 x = b" "byte_of (Suc 0) x = b" "byte_of 2 x = b" "byte_of 3 x = b"
    using assms(2) by (simp_all add: le32_bytes_def)
  have "le32_bytes (get_le32 key (4 * i) XOR x) =
      [key ! (4 * i) XOR b, key ! (4 * i + 1) XOR b, key ! (4 * i + 2) XOR b, key ! (4 * i + 3) XOR b]" for i
    by (simp add: le32_bytes_def byte_of_xor x get_le32_def le32_be32)
  then have "xor_key key x = map (\<lambda>i. key ! i XOR b) [0..<64]"
    using concat_quads [of "\<lambda>i. key ! i XOR b" 16] by (simp add: xor_key_def)
  also have "\<dots> = map (\<lambda>k. k XOR b) key" by (rule nth_equalityI) (use assms(1) in simp_all)
  finally show ?thesis .
qed

lemma le32_bytes_pads: "le32_bytes 0x5c5c5c5c = [0x5c, 0x5c, 0x5c, 0x5c]"
    "le32_bytes (0x5c5c5c5c XOR 0x36363636) = [0x5c XOR 0x36, 0x5c XOR 0x36, 0x5c XOR 0x36, 0x5c XOR 0x36]"
  by (simp_all add: le32_bytes_def byte_of_def)

lemma length_fips_sha1: "length (fips_sha1 m) = 20"
  by (simp add: fips_sha1_def digest_bytes_def split: prod.split)

lemma sha1_ok: "length (sha_buffer c) = 64 \<Longrightarrow> length m < 2 ^ 29 \<Longrightarrow>
    sat_SHA1_Final (sat_SHA1_Update (sat_SHA1_Init c) m) = Some (fips_sha1 m)"
  using sha_final [OF sha_update [OF sha_init, of c m]] by simp

section \<open>Properties\<close>

text \<open>C32. SHA-1.  For every text below \<open>2 ^ 29\<close> bytes, \<open>sha1\<close> returns the digest that FIPS 180
  specifies for the padded message, whatever the uninitialised context held: the in-place
  message schedule, the renamed working variables, the buffering of partial blocks, the 64-bit
  count in two words and the loop of zero padding, which ends, agree with the standard.\<close>

theorem sha1_meets_fips180:
  assumes "length (sha_buffer ctx) = 64" and "length text < 2 ^ 29"
  shows "lsha1 ctx text = Some (fips_sha1 text)"
  using sha1_ok [OF assms] by (simp add: lsha1_def)

definition zero_ctx :: sha1_ctx where
  "zero_ctx = \<lparr>sha_state = (0, 0, 0, 0, 0), sha_count0 = 0, sha_count1 = 0, sha_buffer = replicate 64 0\<rparr>"

theorem sha1_meets_fips180_witness:
  "lsha1 zero_ctx [97, 98, 99] = Some (fips_sha1 [97, 98, 99])"
  using sha1_meets_fips180 [of zero_ctx "[97, 98, 99]"] by (simp add: zero_ctx_def)

text \<open>HMAC.  \<open>hmac_sha1\<close> computes the HMAC of RFC 2104 over SHA-1, for keys shorter and longer
  than a block.\<close>

theorem hmac_sha1_meets_rfc2104:
  assumes "length (sha_buffer ctx) = 64" and "length key < 2 ^ 29" and "length text < 2 ^ 29"
  shows "lhmac_sha1 ctx key text = Some (rfc_hmac key text)"
proof -
  let ?k = "if length key > 64 then fips_sha1 key else key"
  let ?K = "?k @ replicate (64 - length ?k) 0"
  have K: "length ?K = 64" using length_fips_sha1 [of key] by simp
  have rkey: "(if length key > 64
      then do { d \<leftarrow> sat_SHA1_Final (sat_SHA1_Update (sat_SHA1_Init ctx) key); Some (copy_at 0 d (replicate 64 0)) }
      else Some (copy_at 0 key (replicate 64 0))) = Some ?K"
    using sha1_ok [OF assms(1,2)] by (simp add: copy_at_def)
  have o: "xor_key ?K 0x5c5c5c5c = map (\<lambda>k. k XOR 0x5c) ?K"
    by (rule xor_key_bytes [OF K le32_bytes_pads(1)])
  have i: "xor_key (map (\<lambda>k. k XOR 0x5c) ?K) (0x5c5c5c5c XOR 0x36363636) = map (\<lambda>k. k XOR 0x36) ?K"
  proof -
    have "(k XOR 0x5c) XOR (0x5c XOR 0x36) = k XOR (0x36 :: u8)" for k
      by (simp only: xor.assoc [symmetric]) (simp add: xor.assoc)
    then show ?thesis
      using xor_key_bytes [of "map (\<lambda>k. k XOR 0x5c) ?K", OF _ le32_bytes_pads(2)] K by (simp only: length_map map_map comp_def)
  qed
  have "sha_repr (sat_SHA1_Update (sat_SHA1_Update (sat_SHA1_Init ctx) (map (\<lambda>k. k XOR 0x36) ?K)) text)
      (([] @ map (\<lambda>k. k XOR 0x36) ?K) @ text)"
    using K assms(3) by (intro sha_update sha_init assms(1)) (simp_all only: length_map, simp_all)
  from sha_final [OF this] have d2: "sat_SHA1_Final (sat_SHA1_Update (sat_SHA1_Update (sat_SHA1_Init ctx)
      (map (\<lambda>k. k XOR 0x36) ?K)) text) = Some (fips_sha1 (map (\<lambda>k. k XOR 0x36) ?K @ text))" by (simp only: append_Nil)
  have "sha_repr (sat_SHA1_Update (sat_SHA1_Update (sat_SHA1_Init ctx) (map (\<lambda>k. k XOR 0x5c) ?K))
      (fips_sha1 (map (\<lambda>k. k XOR 0x36) ?K @ text)))
      (([] @ map (\<lambda>k. k XOR 0x5c) ?K) @ fips_sha1 (map (\<lambda>k. k XOR 0x36) ?K @ text))"
    using K by (intro sha_update sha_init assms(1)) (simp_all only: length_map length_fips_sha1, simp_all)
  from sha_final [OF this] show ?thesis
    unfolding lhmac_sha1_def rkey rfc_hmac_def by (simp only: Option.bind.bind_lunit Let_def o i d2 append_Nil)
qed

theorem hmac_sha1_meets_rfc2104_witness:
  "lhmac_sha1 zero_ctx (replicate 70 7) [1, 2, 3] = Some (rfc_hmac (replicate 70 7) [1, 2, 3])"
  using hmac_sha1_meets_rfc2104 [of zero_ctx "replicate 70 7" "[1, 2, 3]"] by (simp add: zero_ctx_def)

lemma update_count1:
  "sha_count1 (sat_SHA1_Update c d) = sha_count1 c +
     (if ucast (sha_count0 c + ucast (push_bit 3 (of_nat (length d) :: u64))) < push_bit 3 (of_nat (length d) :: u64)
      then 1 else 0) + ucast (drop_bit 29 (of_nat (length d) :: u64))"
  by (simp add: sat_SHA1_Update_def Let_def split: prod.split)

text \<open>Large inputs.  The carry test of \<open>sat_SHA1_Update\<close> compares the 32-bit counter with a
  64-bit \<open>len << 3\<close>, so for an update of \<open>2 ^ 29\<close> bytes the high word counts 2 where the number of
  bits is \<open>1 * 2 ^ 32\<close>, and the digest encodes a wrong length.\<close>

theorem sha1_count_of_large_update:
  assumes "length d = 2 ^ 29"
  shows "sha_count1 (sat_SHA1_Update (sat_SHA1_Init c) d) = 2 \<and> 8 * length d div 2 ^ 32 = 1"
  unfolding update_count1 assms by (simp add: sat_SHA1_Init_def)

theorem sha1_count_of_large_update_witness:
  "sha_count1 (sat_SHA1_Update (sat_SHA1_Init zero_ctx) (replicate (2 ^ 29) 0)) = 2"
  by (rule sha1_count_of_large_update [OF length_replicate, THEN conjunct1])

end
