(* ===== verification/NetPack.thy ===== *)
theory NetPack
  imports Bytes
begin

text \<open>
  Packet framing for game clients: \<open>lualib-src/lua-netpack.c\<close>.

  A packet on the wire is its 16-bit big-endian length and its data.  The sockets deliver byte
  chunks cut anywhere; \<open>filter\<close> reassembles packets per connection.  It keeps a hash table of
  incomplete packets (\<open>struct uncomplete\<close>, here a list per bucket) and a ring of complete packets
  that did not fit the return value, which the Lua caller empties with \<open>pop\<close>.

  The state is the userdata at stack index 1, \<open>None\<close> while it is NULL.  A buffer that is being
  filled is the list of the bytes written to it so far; \<open>memcpy\<close> to an offset keeps what is before
  the offset.  \<open>None\<close> as a result stands for a failed assertion or a read outside a buffer.
\<close>

section \<open>Data\<close>

definition QUEUESIZE :: nat where "QUEUESIZE = 1024"
definition HASHSIZE :: nat where "HASHSIZE = 4096"

record netpack =
  np_id :: int
  np_size :: int
  np_buffer :: bytes

record uncomplete =
  uc_pack :: netpack
  uc_read :: int
  uc_header :: int

record net_queue =
  nq_cap :: nat
  nq_head :: nat
  nq_tail :: nat
  nq_hash :: "uncomplete list list"
  nq_queue :: "netpack option list"

text \<open>What \<open>filter\<close> leaves on the Lua stack after the queue.\<close>

datatype filter_result =
    F_None
  | F_Data int bytes int
  | F_More
  | F_Error int bytes
  | F_Open int bytes
  | F_Close int
  | F_Warning int int

section \<open>The queue of complete packets\<close>

definition new_queue :: net_queue where
  "new_queue = \<lparr>nq_cap = QUEUESIZE, nq_head = 0, nq_tail = 0, nq_hash = replicate HASHSIZE [],
     nq_queue = replicate QUEUESIZE None\<rparr>"

definition get_queue :: "net_queue option \<Rightarrow> net_queue" where
  "get_queue S = (case S of None \<Rightarrow> new_queue | Some q \<Rightarrow> q)"

definition expand_queue :: "net_queue \<Rightarrow> net_queue" where
  "expand_queue q = \<lparr>nq_cap = nq_cap q + QUEUESIZE, nq_head = 0, nq_tail = nq_cap q, nq_hash = nq_hash q,
     nq_queue = map (\<lambda>i. nq_queue q ! ((nq_head q + i) mod nq_cap q)) [0..<nq_cap q] @ replicate QUEUESIZE None\<rparr>"

definition enqueue_pack :: "netpack \<Rightarrow> net_queue \<Rightarrow> net_queue option" where
  "enqueue_pack np q = do {
     cells \<leftarrow> write_cell (nq_queue q) (nq_tail q) np;
     let tail = (if nq_tail q + 1 \<ge> nq_cap q then nq_tail q + 1 - nq_cap q else nq_tail q + 1);
     let q' = q\<lparr>nq_queue := cells, nq_tail := tail\<rparr>;
     Some (if nq_head q' = nq_tail q' then expand_queue q' else q')
   }"

definition push_data :: "int \<Rightarrow> bytes \<Rightarrow> int \<Rightarrow> net_queue option \<Rightarrow> net_queue option option" where
  "push_data fd buffer sz S =
     map_option Some (enqueue_pack \<lparr>np_id = fd, np_size = sz, np_buffer = buffer\<rparr> (get_queue S))"

definition dequeue_pack :: "net_queue \<Rightarrow> (netpack option \<times> net_queue) option" where
  "dequeue_pack q =
     (if nq_head q = nq_tail q then Some (None, q)
      else do {
        np \<leftarrow> read_cell (nq_queue q) (nq_head q);
        Some (Some np, q\<lparr>nq_head := (if nq_head q + 1 \<ge> nq_cap q then 0 else nq_head q + 1)\<rparr>)
      })"

definition lpop :: "net_queue option \<Rightarrow> (netpack option \<times> net_queue option) option" where
  "lpop S = (case S of None \<Rightarrow> Some (None, None)
     | Some q \<Rightarrow> map_option (\<lambda>(r, q'). (r, Some q')) (dequeue_pack q))"

section \<open>Incomplete packets\<close>

definition hash_fd :: "int \<Rightarrow> nat" where
  "hash_fd fd = (let a = drop_bit 24 fd; b = drop_bit 12 fd; c = fd in
     unat (word_of_int (a + b + c) :: u32) mod HASHSIZE)"

text \<open>Unlinking the first entry of a bucket with the given id.\<close>

fun unlink_uncomplete :: "int \<Rightarrow> uncomplete list \<Rightarrow> (uncomplete \<times> uncomplete list) option" where
  "unlink_uncomplete fd [] = None"
| "unlink_uncomplete fd (uc # next) =
     (if np_id (uc_pack uc) = fd then Some (uc, next)
      else map_option (\<lambda>(found, rest). (found, uc # rest)) (unlink_uncomplete fd next))"

definition find_uncomplete :: "net_queue option \<Rightarrow> int \<Rightarrow> (uncomplete \<times> net_queue) option" where
  "find_uncomplete S fd =
     (case S of None \<Rightarrow> None
      | Some q \<Rightarrow>
          let h = hash_fd fd in
          map_option (\<lambda>(uc, rest). (uc, q\<lparr>nq_hash := (nq_hash q)[h := rest]\<rparr>))
            (unlink_uncomplete fd (nq_hash q ! h)))"

definition link_uncomplete :: "uncomplete \<Rightarrow> net_queue \<Rightarrow> net_queue" where
  "link_uncomplete uc q =
     (let h = hash_fd (np_id (uc_pack uc)) in q\<lparr>nq_hash := (nq_hash q)[h := uc # nq_hash q ! h]\<rparr>)"

text \<open>\<open>save_uncomplete\<close> and the stores of its callers into the new entry.\<close>

definition save_uncomplete :: "int \<Rightarrow> int \<Rightarrow> int \<Rightarrow> int \<Rightarrow> bytes \<Rightarrow> net_queue option \<Rightarrow> net_queue option" where
  "save_uncomplete fd rd header sz buffer S =
     Some (link_uncomplete \<lparr>uc_pack = \<lparr>np_id = fd, np_size = sz, np_buffer = buffer\<rparr>, uc_read = rd,
       uc_header = header\<rparr> (get_queue S))"

definition close_uncomplete :: "int \<Rightarrow> net_queue option \<Rightarrow> net_queue option" where
  "close_uncomplete fd S = (case find_uncomplete S fd of None \<Rightarrow> S | Some (_, q) \<Rightarrow> Some q)"

section \<open>Filtering a chunk\<close>

definition read_size :: "u8 \<Rightarrow> u8 \<Rightarrow> int" where
  "read_size b0 b1 = push_bit 8 (uint b0) OR uint b1"

function push_more :: "int \<Rightarrow> bytes \<Rightarrow> net_queue option \<Rightarrow> net_queue option option" where
  "push_more fd buffer S =
     (case buffer of
        [] \<Rightarrow> None
      | [b] \<Rightarrow> Some (save_uncomplete fd (- 1) (uint b) 0 [] S)
      | b0 # b1 # buffer \<Rightarrow>
          let pack_size = read_size b0 b1; sz = int (length buffer) in
          if sz < pack_size then Some (save_uncomplete fd sz 0 pack_size buffer S)
          else do {
            S' \<leftarrow> push_data fd (take (nat pack_size) buffer) pack_size S;
            if sz - pack_size > 0 then push_more fd (drop (nat pack_size) buffer) S' else Some S'
          })"
  by auto
termination by (relation "measure (\<lambda>(_, buffer, _). length buffer)") auto

declare push_more.simps [simp del]

text \<open>The part of \<open>filter_data_\<close> that reads the second byte of a split header.\<close>

definition complete_header :: "uncomplete \<Rightarrow> bytes \<Rightarrow> (uncomplete \<times> bytes) option" where
  "complete_header uc buffer =
     (if uc_read uc < 0 then
        if uc_read uc \<noteq> - 1 then None
        else case buffer of
            [] \<Rightarrow> None
          | b # buffer \<Rightarrow>
              Some (uc\<lparr>uc_pack := (uc_pack uc)\<lparr>np_size := uint b OR push_bit 8 (uc_header uc), np_buffer := []\<rparr>,
                uc_read := 0\<rparr>, buffer)
      else Some (uc, buffer))"

definition filter_data :: "int \<Rightarrow> bytes \<Rightarrow> net_queue option \<Rightarrow> (filter_result \<times> net_queue option) option" where
  "filter_data fd buffer S =
     (case find_uncomplete S fd of
        Some (uc, q) \<Rightarrow> do {
          (uc, buffer) \<leftarrow> complete_header uc buffer;
          let need = np_size (uc_pack uc) - uc_read uc;
          let filled = take (nat (uc_read uc)) (np_buffer (uc_pack uc));
          if int (length buffer) < need then
            Some (F_None, Some (link_uncomplete (uc\<lparr>uc_pack := (uc_pack uc)\<lparr>np_buffer := filled @ buffer\<rparr>,
              uc_read := uc_read uc + int (length buffer)\<rparr>) q))
          else do {
            let complete = filled @ take (nat need) buffer;
            let buffer = drop (nat need) buffer;
            if buffer = [] then Some (F_Data fd complete (np_size (uc_pack uc)), Some q)
            else do {
              S' \<leftarrow> push_data fd complete (np_size (uc_pack uc)) (Some q);
              S'' \<leftarrow> push_more fd buffer S';
              Some (F_More, S'')
            }
          }
        }
      | None \<Rightarrow>
          (case buffer of
             [] \<Rightarrow> None
           | [b] \<Rightarrow> Some (F_None, save_uncomplete fd (- 1) (uint b) 0 [] S)
           | b0 # b1 # buffer \<Rightarrow>
               let pack_size = read_size b0 b1; sz = int (length buffer) in
               if sz < pack_size then Some (F_None, save_uncomplete fd sz 0 pack_size buffer S)
               else if sz = pack_size then Some (F_Data fd buffer sz, S)
               else do {
                 S' \<leftarrow> push_data fd (take (nat pack_size) buffer) pack_size S;
                 S'' \<leftarrow> push_more fd (drop (nat pack_size) buffer) S';
                 Some (F_More, S'')
               }))"

definition SOCKET_DATA :: int where "SOCKET_DATA = 1"
definition SOCKET_CONNECT :: int where "SOCKET_CONNECT = 2"
definition SOCKET_CLOSE :: int where "SOCKET_CLOSE = 3"
definition SOCKET_ACCEPT :: int where "SOCKET_ACCEPT = 4"
definition SOCKET_ERROR :: int where "SOCKET_ERROR = 5"
definition SOCKET_WARNING :: int where "SOCKET_WARNING = 7"

text \<open>
  A socket message: either it has a buffer of its own or a string is padded after it.  With a
  buffer the C code sets the string's length to -1, so the messages that carry a string must be
  padded ones.
\<close>

record socket_message =
  sm_type :: int
  sm_id :: int
  sm_ud :: int
  sm_buffer :: "bytes option"
  sm_padding :: bytes

definition lfilter :: "socket_message \<Rightarrow> net_queue option \<Rightarrow> (filter_result \<times> net_queue option) option" where
  "lfilter message S =
     (let str = sm_padding message; padded = (sm_buffer message = None) in
      if sm_type message = SOCKET_DATA then
        (case sm_buffer message of None \<Rightarrow> None
         | Some b \<Rightarrow> filter_data (sm_id message) (take (nat (sm_ud message)) b) S)
      else if sm_type message = SOCKET_CONNECT then Some (F_None, S)
      else if sm_type message = SOCKET_CLOSE then
        Some (F_Close (sm_id message), close_uncomplete (sm_id message) S)
      else if sm_type message = SOCKET_ACCEPT then
        if padded then Some (F_Open (sm_ud message) str, S) else None
      else if sm_type message = SOCKET_ERROR then
        if padded then Some (F_Error (sm_id message) str, close_uncomplete (sm_id message) S) else None
      else if sm_type message = SOCKET_WARNING then Some (F_Warning (sm_id message) (sm_ud message), S)
      else Some (F_None, S))"

text \<open>
  \<open>lclear\<close>: the buffers that it frees, of incomplete and of complete packets, and the queue after it.
\<close>

definition clear_list :: "uncomplete list \<Rightarrow> bytes list" where
  "clear_list ucs = map (\<lambda>uc. np_buffer (uc_pack uc)) ucs"

definition lclear :: "net_queue option \<Rightarrow> (bytes list \<times> net_queue option) option" where
  "lclear S =
     (case S of
        None \<Rightarrow> Some ([], None)
      | Some q \<Rightarrow> do {
          let tail = (if nq_head q > nq_tail q then nq_tail q + nq_cap q else nq_tail q);
          nps \<leftarrow> those (map (\<lambda>i. read_cell (nq_queue q) (i mod nq_cap q)) [nq_head q..<tail]);
          Some (concat (map clear_list (nq_hash q)) @ map np_buffer nps,
            Some (q\<lparr>nq_hash := replicate HASHSIZE [], nq_head := 0, nq_tail := 0\<rparr>))
        })"

definition write_size :: "int \<Rightarrow> bytes" where
  "write_size len = [word_of_int (drop_bit 8 len AND 0xff), word_of_int (len AND 0xff)]"

definition lpack :: "bytes \<Rightarrow> bytes lua" where
  "lpack ptr =
     (if length ptr \<ge> 0x10000 then Inl ''Invalid size (too long) of data : %d''
      else Inr (write_size (int (length ptr)) @ ptr))"

section \<open>The ring of packets is a queue\<close>

definition net_cells :: "net_queue \<Rightarrow> netpack option list" where
  "net_cells q = ring_cells (nq_queue q) (nq_cap q) (nq_head q) (ring_len (nq_cap q) (nq_head q) (nq_tail q))"

definition net_contents :: "net_queue \<Rightarrow> netpack list" where
  "net_contents q = map the (net_cells q)"

definition net_wf :: "net_queue \<Rightarrow> bool" where
  "net_wf q \<longleftrightarrow> nq_head q < nq_cap q \<and> nq_tail q < nq_cap q \<and> length (nq_queue q) = nq_cap q \<and>
     list_all (\<lambda>c. c \<noteq> None) (net_cells q)"

lemma net_wf_new: "net_wf new_queue" and net_contents_new: "net_contents new_queue = []"
  by (simp_all add: net_wf_def new_queue_def net_contents_def net_cells_def QUEUESIZE_def)

lemma net_contents_empty: "net_wf q \<Longrightarrow> net_contents q = [] \<longleftrightarrow> nq_head q = nq_tail q"
  by (auto simp: net_contents_def net_cells_def net_wf_def ring_len_0_iff simp flip: length_0_conv)

lemma dequeue_pack_front:
  assumes "net_wf q" "nq_head q \<noteq> nq_tail q"
  shows "\<exists>np q'. dequeue_pack q = Some (Some np, q') \<and> net_wf q' \<and> net_contents q = np # net_contents q' \<and>
    nq_hash q' = nq_hash q"
proof -
  let ?h = "ring_next (nq_cap q) (nq_head q)"
  have b: "nq_head q < nq_cap q" "nq_tail q < nq_cap q" "length (nq_queue q) = nq_cap q"
    using assms(1) by (simp_all add: net_wf_def)
  have cells: "net_cells q = nq_queue q ! nq_head q # net_cells (q\<lparr>nq_head := ?h\<rparr>)"
    by (simp add: net_cells_def ring_len_next_head [OF b(1,2) assms(2)] ring_cells_Cons [OF b(1)]
        ring_next_mod [OF b(1)])
  then obtain np where np: "nq_queue q ! nq_head q = Some np" using assms(1) by (auto simp: net_wf_def)
  have "?h < nq_cap q" using b by (intro ring_next_less) simp
  moreover have "dequeue_pack q = Some (Some np, q\<lparr>nq_head := ?h\<rparr>)"
    using assms(2) b np by (simp add: dequeue_pack_def ring_next_def)
  ultimately show ?thesis using cells np assms(1) by (auto simp: net_contents_def net_wf_def)
qed

lemma enqueue_pack_ok:
  assumes "net_wf q"
  shows "\<exists>q'. enqueue_pack np q = Some q' \<and> net_wf q' \<and> net_contents q' = net_contents q @ [np] \<and>
    nq_hash q' = nq_hash q"
proof -
  let ?t = "ring_next (nq_cap q) (nq_tail q)"
  let ?q = "q\<lparr>nq_queue := (nq_queue q)[nq_tail q := Some np], nq_tail := ?t\<rparr>"
  let ?n = "ring_len (nq_cap q) (nq_head q) (nq_tail q)"
  have b: "nq_head q < nq_cap q" "nq_tail q < nq_cap q" "length (nq_queue q) = nq_cap q"
    using assms by (simp_all add: net_wf_def)
  have enq: "enqueue_pack np q = Some (if nq_head q = ?t then expand_queue ?q else ?q)"
    using b by (simp add: enqueue_pack_def ring_next_def Let_def)
  have cells: "ring_cells (nq_queue ?q) (nq_cap q) (nq_head q) (Suc ?n) = net_cells q @ [Some np]"
    using b by (simp add: ring_cells_push net_cells_def)
  show ?thesis
  proof (cases "nq_head q = ?t")
    case True
    let ?new = "map (\<lambda>i. nq_queue ?q ! ((nq_head ?q + i) mod nq_cap ?q)) [0..<nq_cap ?q]"
    have full: "Suc ?n = nq_cap q" by (rule ring_len_full [OF b(1,2) True])
    have new: "?new = net_cells q @ [Some np]"
      using cells full by (simp add: ring_cells_def)
    have "ring_cells (?new @ replicate QUEUESIZE None) (nq_cap q + QUEUESIZE) 0 (nq_cap q) = ?new"
      using ring_cells_full_from_0 [of ?new "nq_cap q" "replicate QUEUESIZE None"] by simp
    then have "net_cells (expand_queue ?q) = net_cells q @ [Some np]"
      using new by (simp add: net_cells_def expand_queue_def ring_len_def)
    moreover have "nq_cap q < nq_cap q + QUEUESIZE" by (simp add: QUEUESIZE_def)
    ultimately have "net_wf (expand_queue ?q)" "net_contents (expand_queue ?q) = net_contents q @ [np]"
      using assms b by (simp_all add: net_wf_def net_contents_def) (simp_all add: expand_queue_def)
    then show ?thesis using True by (simp add: enq) (simp add: expand_queue_def)
  next
    case False
    then have "ring_len (nq_cap q) (nq_head q) ?t = Suc ?n"
      using b by (intro ring_len_next_tail)
    then have "net_cells ?q = net_cells q @ [Some np]" using cells by (simp add: net_cells_def)
    with False enq b assms show ?thesis
      by (auto simp: net_wf_def net_contents_def ring_next_less)
  qed
qed

interpretation packets: fifo_queue enqueue_pack dequeue_pack net_contents net_wf
proof unfold_locales
  fix q x xs
  assume wf: "net_wf q"
  show "\<exists>q'. enqueue_pack x q = Some q' \<and> net_wf q' \<and> net_contents q' = net_contents q @ [x]"
    using enqueue_pack_ok [OF wf] by blast
  show "\<exists>q'. dequeue_pack q = Some (None, q') \<and> net_wf q' \<and> net_contents q' = []" if "net_contents q = []"
    using that wf by (simp add: dequeue_pack_def net_contents_empty)
  show "\<exists>q'. dequeue_pack q = Some (Some x, q') \<and> net_wf q' \<and> net_contents q' = xs" if "net_contents q = x # xs"
    using dequeue_pack_front [OF wf] net_contents_empty [OF wf] that by fastforce
qed

section \<open>Frames of a byte stream\<close>

text \<open>The packets of a stream and the bytes of the one that is not complete yet.\<close>

function split_frames :: "bytes \<Rightarrow> bytes list \<times> bytes" where
  "split_frames bs =
     (case bs of
        b0 # b1 # rest \<Rightarrow>
          let n = nat (read_size b0 b1) in
          if length rest < n then ([], bs)
          else let (ps, r) = split_frames (drop n rest) in (take n rest # ps, r)
      | _ \<Rightarrow> ([], bs))"
  by auto
termination by (relation "measure length") auto

declare split_frames.simps [simp del]

lemma split_frames_short [simp]: "split_frames [] = ([], [])" "split_frames [b] = ([], [b])"
  by (simp_all add: split_frames.simps)

lemma read_size_bounds: "0 \<le> read_size b0 b1" "read_size b0 b1 < 65536"
proof -
  have b: "0 \<le> uint b0" "uint b0 < 2 ^ 8" "uint b1 < 2 ^ 8" "0 \<le> uint b1"
    using uint_lt2p [of b0] uint_lt2p [of b1] by simp_all
  then show "0 \<le> read_size b0 b1" by (simp add: read_size_def push_bit_eq_mult)
  have "push_bit 8 (uint b0) < 2 ^ 16" using b by (simp add: push_bit_eq_mult)
  then have "push_bit 8 (uint b0) OR uint b1 < 2 ^ 16"
    using b by (intro OR_upper) (simp_all add: push_bit_eq_mult)
  then show "read_size b0 b1 < 65536" by (simp add: read_size_def)
qed

lemma split_frames_wait:
  "int (length rest) < read_size b0 b1 \<Longrightarrow> split_frames (b0 # b1 # rest) = ([], b0 # b1 # rest)"
  by (subst split_frames.simps) (simp add: Let_def zless_nat_conj nat_less_iff zless_nat_eq_int_zless)

lemma split_frames_packet:
  "\<not> int (length rest) < read_size b0 b1 \<Longrightarrow> split_frames (b0 # b1 # rest) =
     (take (nat (read_size b0 b1)) rest # fst (split_frames (drop (nat (read_size b0 b1)) rest)),
      snd (split_frames (drop (nat (read_size b0 b1)) rest)))"
  using read_size_bounds [of b0 b1] by (subst split_frames.simps) (auto simp: Let_def split: prod.splits)

lemma split_frames_append:
  "split_frames (xs @ ys) =
     (fst (split_frames xs) @ fst (split_frames (snd (split_frames xs) @ ys)), snd (split_frames (snd (split_frames xs) @ ys)))"
proof (induction xs rule: split_frames.induct)
  case (1 bs)
  show ?case
  proof (cases "\<exists>b0 b1 rest. bs = b0 # b1 # rest")
    case True
    then obtain b0 b1 rest where bs: "bs = b0 # b1 # rest" by blast
    let ?n = "read_size b0 b1"
    show ?thesis
    proof (cases "int (length rest) < ?n")
      case True
      then show ?thesis by (simp add: bs split_frames_wait)
    next
      case False
      then have n: "nat ?n \<le> length rest" by linarith
      have "\<not> int (length (rest @ ys)) < ?n" using False by simp
      note all = split_frames_packet [OF this]
      have "\<not> length rest < nat ?n" using n by simp
      note IH = "1.IH" [OF bs refl refl this]
      show ?thesis using IH n by (simp add: bs all [simplified] split_frames_packet [OF False])
    qed
  next
    case False
    then have "length bs < 2" by (cases bs; cases "tl bs") auto
    then show ?thesis by (cases bs) auto
  qed
qed

definition packet :: "int \<Rightarrow> bytes \<Rightarrow> netpack" where
  "packet fd p = \<lparr>np_id = fd, np_size = int (length p), np_buffer = p\<rparr>"

section \<open>The incomplete packets hold the bytes not framed yet\<close>

definition uc_holds :: "int \<Rightarrow> bytes \<Rightarrow> uncomplete \<Rightarrow> bool" where
  "uc_holds fd r uc \<longleftrightarrow> np_id (uc_pack uc) = fd \<and>
     (case r of
        [] \<Rightarrow> False
      | [a] \<Rightarrow> uc_read uc = - 1 \<and> uc_header uc = uint a
      | a # b # rest \<Rightarrow> uc_read uc = int (length rest) \<and> np_size (uc_pack uc) = read_size a b \<and>
          np_buffer (uc_pack uc) = rest \<and> int (length rest) < read_size a b)"

abbreviation entries :: "int \<Rightarrow> net_queue \<Rightarrow> uncomplete list" where
  "entries fd q \<equiv> filter (\<lambda>uc. np_id (uc_pack uc) = fd) (nq_hash q ! hash_fd fd)"

definition entries_hold :: "int \<Rightarrow> bytes \<Rightarrow> uncomplete list \<Rightarrow> bool" where
  "entries_hold fd r ucs \<longleftrightarrow> (if r = [] then ucs = [] else \<exists>uc. ucs = [uc] \<and> uc_holds fd r uc)"

definition net_inv :: "(int \<Rightarrow> bytes) \<Rightarrow> net_queue option \<Rightarrow> bool" where
  "net_inv R S \<longleftrightarrow>
     (case S of
        None \<Rightarrow> \<forall>fd. R fd = []
      | Some q \<Rightarrow> net_wf q \<and> length (nq_hash q) = HASHSIZE \<and> (\<forall>fd. entries_hold fd (R fd) (entries fd q)))"

definition stored :: "net_queue option \<Rightarrow> netpack list" where
  "stored S = (case S of None \<Rightarrow> [] | Some q \<Rightarrow> net_contents q)"

lemma hash_fd_less: "hash_fd fd < HASHSIZE"
  by (simp add: hash_fd_def Let_def HASHSIZE_def)

lemma unlink_uncomplete_None:
  "unlink_uncomplete fd ucs = None \<longleftrightarrow> filter (\<lambda>uc. np_id (uc_pack uc) = fd) ucs = []"
  by (induction ucs) auto

lemma unlink_uncomplete_Some:
  "unlink_uncomplete fd ucs = Some (uc, rest) \<Longrightarrow>
     filter (\<lambda>u. np_id (uc_pack u) = fd) ucs = uc # filter (\<lambda>u. np_id (uc_pack u) = fd) rest \<and>
     (\<forall>fd'. fd' \<noteq> fd \<longrightarrow> filter (\<lambda>u. np_id (uc_pack u) = fd') ucs = filter (\<lambda>u. np_id (uc_pack u) = fd') rest)"
  by (induction ucs arbitrary: rest) (auto split: if_splits)

lemma net_wf_hash [simp]: "net_wf (q\<lparr>nq_hash := h\<rparr>) = net_wf q" "net_contents (q\<lparr>nq_hash := h\<rparr>) = net_contents q"
  by (simp_all add: net_wf_def net_contents_def net_cells_def)

lemma find_uncomplete_None:
  assumes "net_inv R S" "R fd = []"
  shows "find_uncomplete S fd = None"
proof (cases S)
  case (Some q)
  then have "entries fd q = []" using assms by (auto simp: net_inv_def entries_hold_def dest: spec [of _ fd])
  then show ?thesis using Some by (simp add: find_uncomplete_def Let_def unlink_uncomplete_None)
qed (simp add: find_uncomplete_def)

lemma find_uncomplete_Some:
  assumes "net_inv R S" "R fd \<noteq> []"
  shows "\<exists>uc q. find_uncomplete S fd = Some (uc, q) \<and> uc_holds fd (R fd) uc \<and> net_inv (R(fd := [])) (Some q) \<and>
    net_contents q = stored S"
proof -
  obtain q where q: "S = Some q" using assms by (cases S) (auto simp: net_inv_def)
  have inv: "net_wf q" "length (nq_hash q) = HASHSIZE" "\<And>fd. entries_hold fd (R fd) (entries fd q)"
    using assms(1) by (simp_all add: net_inv_def q)
  obtain uc where uc: "entries fd q = [uc]" "uc_holds fd (R fd) uc"
    using inv(3) [of fd] assms(2) by (auto simp: entries_hold_def)
  then obtain rest where un: "unlink_uncomplete fd (nq_hash q ! hash_fd fd) = Some (uc, rest)"
    using unlink_uncomplete_None [of fd] unlink_uncomplete_Some [of fd "nq_hash q ! hash_fd fd"]
    by (cases "unlink_uncomplete fd (nq_hash q ! hash_fd fd)") auto
  let ?q = "q\<lparr>nq_hash := (nq_hash q)[hash_fd fd := rest]\<rparr>"
  have "entries_hold fd' ((R(fd := [])) fd') (entries fd' ?q)" for fd'
    using inv(2) inv(3) [of fd'] unlink_uncomplete_Some [OF un] uc(1) hash_fd_less [of fd]
    by (cases "hash_fd fd' = hash_fd fd") (auto simp: entries_hold_def)
  then have "net_inv (R(fd := [])) (Some ?q)" using inv(1,2) by (simp add: net_inv_def)
  then show ?thesis using un uc(2) by (auto simp: find_uncomplete_def q stored_def Let_def)
qed

lemma link_uncomplete_inv:
  assumes inv: "net_inv R (Some q)" and r: "R fd = []" and uc: "uc_holds fd r uc"
  shows "net_inv (R(fd := r)) (Some (link_uncomplete uc q))" "net_contents (link_uncomplete uc q) = net_contents q"
proof -
  have i: "net_wf q" "length (nq_hash q) = HASHSIZE" "\<And>fd. entries_hold fd (R fd) (entries fd q)"
    using inv by (simp_all add: net_inv_def)
  have id: "np_id (uc_pack uc) = fd" and ne: "r \<noteq> []" using uc by (auto simp: uc_holds_def)
  let ?h = "hash_fd fd"
  have hash: "nq_hash (link_uncomplete uc q) = (nq_hash q)[?h := uc # nq_hash q ! ?h]"
    by (simp add: link_uncomplete_def Let_def id)
  have "entries fd (link_uncomplete uc q) = uc # entries fd q"
    using i(2) hash_fd_less [of fd] by (simp add: hash id)
  moreover have "entries fd q = []" using i(3) [of fd] r by (simp add: entries_hold_def)
  ultimately have here: "entries_hold fd r (entries fd (link_uncomplete uc q))"
    using uc ne by (simp add: entries_hold_def)
  have "entries fd' (link_uncomplete uc q) = entries fd' q" if "fd' \<noteq> fd" for fd'
    using i(2) hash_fd_less [of fd] that by (cases "hash_fd fd' = ?h") (simp_all add: hash id)
  then have "entries_hold fd' ((R(fd := r)) fd') (entries fd' (link_uncomplete uc q))" for fd'
    using i(3) [of fd'] here by (cases "fd' = fd") simp_all
  then show "net_inv (R(fd := r)) (Some (link_uncomplete uc q))"
    using i by (simp add: net_inv_def) (simp add: link_uncomplete_def Let_def)
  show "net_contents (link_uncomplete uc q) = net_contents q" by (simp add: link_uncomplete_def Let_def)
qed

lemma new_queue_entries: "entries fd new_queue = []" "length (nq_hash new_queue) = HASHSIZE"
  by (simp_all add: new_queue_def hash_fd_less)

lemma get_queue_inv: "net_inv R S \<Longrightarrow> net_inv R (Some (get_queue S)) \<and> net_contents (get_queue S) = stored S"
  using net_wf_new net_contents_new new_queue_entries
  by (auto simp: get_queue_def stored_def net_inv_def entries_hold_def split: option.splits)

lemma save_uncomplete_inv:
  assumes "net_inv R S" "R fd = []" "uc_holds fd r \<lparr>uc_pack = \<lparr>np_id = fd, np_size = sz, np_buffer = b\<rparr>, uc_read = rd, uc_header = h\<rparr>"
  shows "net_inv (R(fd := r)) (save_uncomplete fd rd h sz b S)" "stored (save_uncomplete fd rd h sz b S) = stored S"
proof -
  have g: "net_inv R (Some (get_queue S))" "net_contents (get_queue S) = stored S"
    using get_queue_inv [OF assms(1)] by simp_all
  show "net_inv (R(fd := r)) (save_uncomplete fd rd h sz b S)" "stored (save_uncomplete fd rd h sz b S) = stored S"
    using link_uncomplete_inv(1) [OF g(1) assms(2,3)] link_uncomplete_inv(2) [OF g(1) assms(2,3)] g(2)
    by (simp_all add: save_uncomplete_def stored_def)
qed

lemma push_data_inv:
  assumes "net_inv R S"
  shows "\<exists>q. push_data fd b sz S = Some (Some q) \<and> net_inv R (Some q) \<and>
    net_contents q = stored S @ [\<lparr>np_id = fd, np_size = sz, np_buffer = b\<rparr>]"
proof -
  note g = get_queue_inv [OF assms]
  then have "net_wf (get_queue S)" by (simp add: net_inv_def)
  from enqueue_pack_ok [OF this, of "\<lparr>np_id = fd, np_size = sz, np_buffer = b\<rparr>"]
  show ?thesis using g by (auto simp: push_data_def net_inv_def)
qed

section \<open>Filtering computes the frames\<close>

lemma uc_holds_header: "uc_holds fd [b] \<lparr>uc_pack = \<lparr>np_id = fd, np_size = sz, np_buffer = bf\<rparr>, uc_read = - 1, uc_header = uint b\<rparr>"
  by (simp add: uc_holds_def)

lemma uc_holds_body:
  "int (length rest) < read_size b0 b1 \<Longrightarrow>
     uc_holds fd (b0 # b1 # rest) \<lparr>uc_pack = \<lparr>np_id = fd, np_size = read_size b0 b1, np_buffer = rest\<rparr>,
       uc_read = int (length rest), uc_header = h\<rparr>"
  by (simp add: uc_holds_def)

lemma packet_take:
  "\<not> int (length rest) < read_size b0 b1 \<Longrightarrow>
     \<lparr>np_id = fd, np_size = read_size b0 b1, np_buffer = take (nat (read_size b0 b1)) rest\<rparr> =
       packet fd (take (nat (read_size b0 b1)) rest)"
  using read_size_bounds [of b0 b1] by (simp add: packet_def)

lemma push_more_frames:
  assumes "net_inv R S" "R fd = []" "buffer \<noteq> []"
  shows "\<exists>S'. push_more fd buffer S = Some S' \<and> net_inv (R(fd := snd (split_frames buffer))) S' \<and>
    stored S' = stored S @ map (packet fd) (fst (split_frames buffer))"
  using assms
proof (induction fd buffer S rule: push_more.induct)
  case (1 fd buffer S)
  consider b where "buffer = [b]" | b0 b1 rest where "buffer = b0 # b1 # rest"
    using "1.prems"(3) by (cases buffer; cases "tl buffer") auto
  then show ?case
  proof cases
    case 1
    then show ?thesis
      using save_uncomplete_inv [OF "1.prems"(1,2) uc_holds_header]
      by (simp add: push_more.simps [of _ "[_]"] fun_upd_def)
  next
    case (2 b0 b1 rest)
    let ?n = "read_size b0 b1"
    show ?thesis
    proof (cases "int (length rest) < ?n")
      case True
      then show ?thesis
        using save_uncomplete_inv [OF "1.prems"(1,2) uc_holds_body [OF True]]
        by (simp add: 2 push_more.simps [of _ "_ # _ # _"] split_frames_wait Let_def fun_upd_def)
    next
      case False
      note f = split_frames_packet [OF False]
      obtain q where q: "push_data fd (take (nat ?n) rest) ?n S = Some (Some q)" "net_inv R (Some q)"
        "net_contents q = stored S @ [packet fd (take (nat ?n) rest)]"
        using push_data_inv [OF "1.prems"(1), of fd "take (nat ?n) rest" ?n] by (auto simp: packet_take [OF False])
      note step = push_more.simps [of fd "b0 # b1 # rest" S]
      show ?thesis
      proof (cases "int (length rest) - ?n > 0")
        case True
        then have "nat ?n < length rest" using read_size_bounds [of b0 b1] by linarith
        then have "drop (nat ?n) rest \<noteq> []" by simp
        from "1.IH" [OF 2 refl refl refl False q(1) True q(2) "1.prems"(2) this]
        show ?thesis using True False q by (auto simp: 2 step f Let_def stored_def)
      next
        case all: False
        then have "drop (nat ?n) rest = []" using read_size_bounds [of b0 b1] by simp
        moreover have "R(fd := []) = R" using "1.prems"(2) by auto
        ultimately show ?thesis using all False q by (simp add: 2 step f Let_def stored_def)
      qed
    qed
  qed
qed

text \<open>What \<open>filter\<close> returns and queues for the packets that a chunk completes.\<close>

definition handed_over :: "int \<Rightarrow> bytes list \<Rightarrow> netpack list \<Rightarrow> filter_result \<Rightarrow> netpack list \<Rightarrow> bool" where
  "handed_over fd ps before result after \<longleftrightarrow>
     (case result of
        F_None \<Rightarrow> ps = [] \<and> after = before
      | F_Data fd' p sz \<Rightarrow> ps = [p] \<and> fd' = fd \<and> sz = int (length p) \<and> after = before
      | F_More \<Rightarrow> ps \<noteq> [] \<and> after = before @ map (packet fd) ps
      | _ \<Rightarrow> False)"

abbreviation filtered :: "int \<Rightarrow> (int \<Rightarrow> bytes) \<Rightarrow> bytes \<Rightarrow> net_queue option \<Rightarrow> (filter_result \<times> net_queue option) option \<Rightarrow> bool" where
  "filtered fd R bs S out \<equiv> (\<exists>res S'. out = Some (res, S') \<and>
     net_inv (R(fd := snd (split_frames (R fd @ bs)))) S' \<and>
     handed_over fd (fst (split_frames (R fd @ bs))) (stored S) res (stored S'))"

lemma filter_data_start:
  assumes inv: "net_inv R S" and r: "R fd = []" and ne: "bs \<noteq> []"
  shows "filtered fd R bs S (filter_data fd bs S)"
proof -
  note none = find_uncomplete_None [OF inv r]
  consider b where "bs = [b]" | b0 b1 rest where "bs = b0 # b1 # rest"
    using ne by (cases bs; cases "tl bs") auto
  then show ?thesis
  proof cases
    case 1
    then show ?thesis using save_uncomplete_inv [OF inv r uc_holds_header]
      by (simp add: filter_data_def none r handed_over_def)
  next
    case (2 b0 b1 rest)
    let ?n = "read_size b0 b1"
    consider (wait) "int (length rest) < ?n" | (one) "int (length rest) = ?n" | (more) "?n < int (length rest)" by linarith
    then show ?thesis
    proof cases
      case wait
      then show ?thesis using save_uncomplete_inv [OF inv r uc_holds_body [OF wait]]
        by (simp add: filter_data_def none r handed_over_def 2 split_frames_wait Let_def)
    next
      case one
      then have "\<not> int (length rest) < ?n" "nat ?n = length rest" by auto
      moreover have "R(fd := []) = R" using r by auto
      ultimately show ?thesis using one inv
        by (simp add: filter_data_def none r handed_over_def 2 split_frames_packet Let_def)
    next
      case more
      then have le: "\<not> int (length rest) < ?n" by linarith
      have "nat ?n < length rest" using more read_size_bounds [of b0 b1] by linarith
      then have ne': "drop (nat ?n) rest \<noteq> []" by simp
      obtain q where q: "push_data fd (take (nat ?n) rest) ?n S = Some (Some q)" "net_inv R (Some q)"
        "net_contents q = stored S @ [packet fd (take (nat ?n) rest)]"
        using push_data_inv [OF inv, of fd "take (nat ?n) rest" ?n] by (auto simp: packet_take [OF le])
      from push_more_frames [OF q(2) r ne'] show ?thesis
        using more q by (auto simp: filter_data_def none r handed_over_def 2 split_frames_packet [OF le] Let_def stored_def)
    qed
  qed
qed

text \<open>
  The entry of a split packet after the rest of its header: the same whether both size bytes came
  with the entry or the second is the first byte of this chunk.
\<close>

lemma complete_header_cases:
  assumes "uc_holds fd r uc" "bs \<noteq> []"
  shows "\<exists>uc' b0 b1 got rest. complete_header uc bs = Some (uc', rest) \<and> r @ bs = b0 # b1 # got @ rest \<and>
    np_id (uc_pack uc') = fd \<and> np_size (uc_pack uc') = read_size b0 b1 \<and> uc_read uc' = int (length got) \<and>
    np_buffer (uc_pack uc') = got \<and> (got = [] \<or> int (length got) < read_size b0 b1)"
proof -
  have ne: "r \<noteq> []" using assms(1) by (auto simp: uc_holds_def)
  consider a where "r = [a]" | a b got where "r = a # b # got"
    using ne by (cases r; cases "tl r") auto
  then show ?thesis
  proof cases
    case 1
    then show ?thesis using assms
      by (cases bs) (auto simp: complete_header_def uc_holds_def read_size_def or.commute)
  next
    case (2 a b got)
    then show ?thesis using assms by (auto simp: complete_header_def uc_holds_def)
  qed
qed

lemma filter_data_continue:
  assumes inv: "net_inv R S" and r: "R fd \<noteq> []" and ne: "bs \<noteq> []"
  shows "filtered fd R bs S (filter_data fd bs S)"
proof -
  obtain uc q where f: "find_uncomplete S fd = Some (uc, q)" "uc_holds fd (R fd) uc"
    "net_inv (R(fd := [])) (Some q)" "net_contents q = stored S"
    using find_uncomplete_Some [OF inv r] by blast
  obtain uc' b0 b1 got rest where h: "complete_header uc bs = Some (uc', rest)" "R fd @ bs = b0 # b1 # got @ rest"
    "np_id (uc_pack uc') = fd" "np_size (uc_pack uc') = read_size b0 b1" "uc_read uc' = int (length got)"
    "np_buffer (uc_pack uc') = got" "got = [] \<or> int (length got) < read_size b0 b1"
    using complete_header_cases [OF f(2) ne] by blast
  let ?n = "read_size b0 b1" and ?need = "read_size b0 b1 - int (length got)"
  have n0: "0 \<le> ?n" and need0: "0 \<le> ?need" using h(7) read_size_bounds [of b0 b1] by auto
  have def: "filter_data fd bs S =
    (if int (length rest) < ?need then
       Some (F_None, Some (link_uncomplete (uc'\<lparr>uc_pack := (uc_pack uc')\<lparr>np_buffer := got @ rest\<rparr>,
          uc_read := int (length (got @ rest))\<rparr>) q))
     else let complete = got @ take (nat ?need) rest; buffer = drop (nat ?need) rest in
       if buffer = [] then Some (F_Data fd complete ?n, Some q)
       else do { S' \<leftarrow> push_data fd complete ?n (Some q); S'' \<leftarrow> push_more fd buffer S'; Some (F_More, S'') })"
    using h by (simp add: filter_data_def f Let_def)
  show ?thesis
  proof (cases "int (length rest) < ?need")
    case True
    then have sp: "split_frames (R fd @ bs) = ([], b0 # b1 # got @ rest)"
      using split_frames_wait [of "got @ rest" b0 b1] h(2) by simp
    let ?uc = "uc'\<lparr>uc_pack := (uc_pack uc')\<lparr>np_buffer := got @ rest\<rparr>, uc_read := int (length (got @ rest))\<rparr>"
    have "uc_holds fd (b0 # b1 # got @ rest) ?uc" using True h by (simp add: uc_holds_def)
    note link = link_uncomplete_inv [OF f(3) _ this]
    show ?thesis using True f(4) link by (simp add: def sp handed_over_def stored_def)
  next
    case False
    let ?p = "got @ take (nat ?need) rest" and ?b = "drop (nat ?need) rest"
    have len: "\<not> int (length (got @ rest)) < ?n" using False by simp
    have tk: "take (nat ?n) (got @ rest) = ?p" and dr: "drop (nat ?n) (got @ rest) = ?b"
      using need0 by (simp_all add: nat_diff_distrib)
    have sp: "split_frames (R fd @ bs) = (?p # fst (split_frames ?b), snd (split_frames ?b))"
      using split_frames_packet [OF len] by (simp only: h(2) tk dr)
    have "\<lparr>np_id = fd, np_size = ?n, np_buffer = ?p\<rparr> = packet fd ?p"
      using packet_take [OF len, of fd] by (simp only: tk)
    note pk = this
    then have size: "?n = int (length ?p)" by (simp add: packet_def)
    show ?thesis
    proof (cases "?b = []")
      case True
      then show ?thesis using False f(3,4) size
        by (simp add: def sp handed_over_def stored_def Let_def del: drop_eq_Nil length_append)
    next
      case more: False
      obtain q' where q': "push_data fd ?p ?n (Some q) = Some (Some q')" "net_inv (R(fd := [])) (Some q')"
        "net_contents q' = stored S @ [packet fd ?p]"
        using push_data_inv [OF f(3), of fd ?p ?n] f(4) by (auto simp: pk stored_def)
      from push_more_frames [OF q'(2) _ more, of fd] show ?thesis
        using False more q' by (auto simp: def sp handed_over_def stored_def Let_def simp del: drop_eq_Nil)
    qed
  qed
qed

lemmas filter_data_frames = filter_data_start filter_data_continue

section \<open>Filtering socket messages\<close>

text \<open>The messages that \<open>forward_message\<close> builds: data is not empty, strings are padded.\<close>

definition message_ok :: "socket_message \<Rightarrow> bool" where
  "message_ok m \<longleftrightarrow>
     (sm_type m = SOCKET_DATA \<longrightarrow> (\<exists>b. sm_buffer m = Some b \<and> b \<noteq> [] \<and> sm_ud m = int (length b))) \<and>
     (sm_type m \<in> {SOCKET_ACCEPT, SOCKET_ERROR} \<longrightarrow> sm_buffer m = None)"

lemmas socket_types = SOCKET_DATA_def SOCKET_CONNECT_def SOCKET_CLOSE_def SOCKET_ACCEPT_def SOCKET_ERROR_def
  SOCKET_WARNING_def

text \<open>The consumer: \<open>dispatch_queue\<close> of the gate server pops until the queue is empty.\<close>

partial_function (option) dispatch_queue :: "net_queue option \<Rightarrow> (netpack list \<times> net_queue option) option" where
  "dispatch_queue S = do {
     (np, S') \<leftarrow> lpop S;
     case np of
       None \<Rightarrow> Some ([], S')
     | Some p \<Rightarrow> do { (ps, S'') \<leftarrow> dispatch_queue S'; Some (p # ps, S'') }
   }"

definition on_message :: "socket_message \<Rightarrow> net_queue option \<Rightarrow> (netpack list \<times> net_queue option) option" where
  "on_message m S = do {
     (r, S') \<leftarrow> lfilter m S;
     case r of
       F_Data fd p sz \<Rightarrow> Some ([\<lparr>np_id = fd, np_size = sz, np_buffer = p\<rparr>], S')
     | F_More \<Rightarrow> dispatch_queue S'
     | _ \<Rightarrow> Some ([], S')
   }"

fun on_messages :: "socket_message list \<Rightarrow> net_queue option \<Rightarrow> (netpack list \<times> net_queue option) option" where
  "on_messages [] S = Some ([], S)"
| "on_messages (m # ms) S = do {
     (ps, S') \<leftarrow> on_message m S;
     (qs, S'') \<leftarrow> on_messages ms S';
     Some (ps @ qs, S'')
   }"

text \<open>The bytes a descriptor sent, one stream for each time it was connected.\<close>

fun streams :: "int \<Rightarrow> socket_message list \<Rightarrow> bytes \<times> bytes list" where
  "streams fd [] = ([], [])"
| "streams fd (m # ms) =
     (let (s, ss) = streams fd ms in
      if sm_id m \<noteq> fd then (s, ss)
      else if sm_type m = SOCKET_DATA then (the (sm_buffer m) @ s, ss)
      else if sm_type m \<in> {SOCKET_CLOSE, SOCKET_ERROR} then ([], s # ss)
      else (s, ss))"

definition frames :: "bytes \<times> bytes list \<Rightarrow> bytes list" where
  "frames ss = concat (map (fst \<circ> split_frames) (fst ss # snd ss))"

lemma dispatch_queue_all:
  "net_inv R S \<Longrightarrow> \<exists>S'. dispatch_queue S = Some (stored S, S') \<and> net_inv R S' \<and> stored S' = []"
proof (induction "stored S" arbitrary: S)
  case Nil
  then show ?case
  proof (cases S)
    case (Some q)
    then have "nq_head q = nq_tail q" using Nil net_contents_empty [of q] by (simp add: stored_def net_inv_def)
    then show ?thesis using Nil Some by (simp add: dispatch_queue.simps lpop_def dequeue_pack_def)
  qed (simp add: dispatch_queue.simps lpop_def stored_def)
next
  case (Cons p ps)
  obtain q where q: "S = Some q" using Cons.hyps(2) by (cases S) (auto simp: stored_def)
  then have wf: "net_wf q" using Cons.prems by (simp add: net_inv_def)
  have c: "net_contents q = p # ps" using Cons.hyps(2) q by (simp add: stored_def)
  then have "nq_head q \<noteq> nq_tail q" using net_contents_empty [OF wf] by auto
  from dequeue_pack_front [OF wf this] obtain q' where d: "dequeue_pack q = Some (Some p, q')" "net_wf q'"
    "net_contents q' = ps" "nq_hash q' = nq_hash q"
    using c by auto
  have "net_inv R (Some q')" using d Cons.prems q by (simp add: net_inv_def)
  with Cons.hyps(1) [of "Some q'"] d(3) obtain S' where
    "dispatch_queue (Some q') = Some (ps, S')" "net_inv R S'" "stored S' = []"
    by (auto simp: stored_def)
  then show ?case using d(1) q c by (subst dispatch_queue.simps) (simp add: lpop_def stored_def)
qed

lemma close_uncomplete_inv:
  assumes "net_inv R S"
  shows "net_inv (R(fd := [])) (close_uncomplete fd S)" "stored (close_uncomplete fd S) = stored S"
proof -
  have *: "net_inv (R(fd := [])) (close_uncomplete fd S) \<and> stored (close_uncomplete fd S) = stored S"
  proof (cases "R fd = []")
    case True
    then have "R(fd := []) = R" by auto
    then show ?thesis using assms find_uncomplete_None [OF assms True] by (simp add: close_uncomplete_def)
  next
    case False
    from find_uncomplete_Some [OF assms False] show ?thesis
      by (auto simp: close_uncomplete_def stored_def)
  qed
  then show "net_inv (R(fd := [])) (close_uncomplete fd S)" "stored (close_uncomplete fd S) = stored S" by simp_all
qed

lemma on_message_data:
  assumes inv: "net_inv R S" and st: "stored S = []" and data: "sm_type m = SOCKET_DATA" and ok: "message_ok m"
  shows "\<exists>S' b. sm_buffer m = Some b \<and>
    on_message m S = Some (map (packet (sm_id m)) (fst (split_frames (R (sm_id m) @ b))), S') \<and>
    net_inv (R(sm_id m := snd (split_frames (R (sm_id m) @ b)))) S' \<and> stored S' = []"
proof -
  obtain b where b: "sm_buffer m = Some b" "b \<noteq> []" "sm_ud m = int (length b)"
    using data ok by (auto simp: message_ok_def)
  have l: "lfilter m S = filter_data (sm_id m) b S" using data b by (simp add: lfilter_def)
  obtain r S' where f: "filter_data (sm_id m) b S = Some (r, S')"
    "net_inv (R(sm_id m := snd (split_frames (R (sm_id m) @ b)))) S'"
    "handed_over (sm_id m) (fst (split_frames (R (sm_id m) @ b))) [] r (stored S')"
    using filter_data_frames [OF inv _ b(2), of "sm_id m"] st by (cases "R (sm_id m) = []") auto
  show ?thesis using f b dispatch_queue_all [OF f(2)]
    by (cases r) (auto simp: on_message_def l handed_over_def packet_def)
qed

lemma on_message_other:
  assumes inv: "net_inv R S" and st: "stored S = []" and other: "sm_type m \<noteq> SOCKET_DATA" and ok: "message_ok m"
  shows "\<exists>S'. on_message m S = Some ([], S') \<and> stored S' = [] \<and>
    net_inv (if sm_type m \<in> {SOCKET_CLOSE, SOCKET_ERROR} then R(sm_id m := []) else R) S'"
  using close_uncomplete_inv [OF inv, of "sm_id m"] assms
  by (simp add: on_message_def lfilter_def message_ok_def Let_def) (simp add: socket_types)

lemma net_inv_remainder:
  assumes "net_inv R S"
  shows "split_frames (R fd) = ([], R fd)"
proof (cases "R fd = []")
  case False
  with find_uncomplete_Some [OF assms] obtain uc where "uc_holds fd (R fd) uc" by blast
  then show ?thesis by (auto simp: uc_holds_def split_frames_wait split: list.splits)
qed simp

lemma frames_append:
  "frames (xs @ ys, ss) = fst (split_frames xs) @ frames (snd (split_frames xs) @ ys, ss)"
  by (simp add: frames_def split_frames_append [of xs ys])

lemma filter_packets:
  "filter (\<lambda>p. np_id p = fd) (map (packet fd') ps) = (if fd = fd' then map (packet fd) ps else [])"
  by (induction ps) (auto simp: packet_def)

lemma on_messages_streams:
  assumes "net_inv R S" "stored S = []" "list_all message_ok ms"
  shows "\<exists>out S'. on_messages ms S = Some (out, S') \<and>
    (\<forall>fd. filter (\<lambda>p. np_id p = fd) out =
       map (packet fd) (frames (R fd @ fst (streams fd ms), snd (streams fd ms))))"
  using assms
proof (induction ms arbitrary: R S)
  case Nil
  then show ?case using net_inv_remainder [OF Nil.prems(1)] by (simp add: frames_def)
next
  case (Cons m ms)
  let ?fd = "sm_id m"
  have ok: "message_ok m" "list_all message_ok ms" using Cons.prems(3) by simp_all
  show ?case
  proof (cases "sm_type m = SOCKET_DATA")
    case True
    obtain S' b where m: "sm_buffer m = Some b"
      "on_message m S = Some (map (packet ?fd) (fst (split_frames (R ?fd @ b))), S')"
      "net_inv (R(?fd := snd (split_frames (R ?fd @ b)))) S'" "stored S' = []"
      using on_message_data [OF Cons.prems(1,2) True ok(1)] by blast
    have fr: "frames (R ?fd @ b @ s, ss) = fst (split_frames (R ?fd @ b)) @ frames (snd (split_frames (R ?fd @ b)) @ s, ss)"
      for s ss using frames_append [of "R ?fd @ b" s ss] by simp
    from Cons.IH [OF m(3,4) ok(2)] show ?thesis using m(1,2) True
      by (auto simp: filter_packets fr Let_def split: prod.splits)
  next
    case False
    obtain S' where m: "on_message m S = Some ([], S')" "stored S' = []"
      "net_inv (if sm_type m \<in> {SOCKET_CLOSE, SOCKET_ERROR} then R(?fd := []) else R) S'"
      using on_message_other [OF Cons.prems(1,2) False ok(1)] by blast
    have fr: "frames (R ?fd, s # ss) = frames (s, ss)" for s ss
      using net_inv_remainder [OF Cons.prems(1), of ?fd] by (simp add: frames_def)
    let ?R = "if sm_type m \<in> {SOCKET_CLOSE, SOCKET_ERROR} then R(?fd := []) else R"
    from Cons.IH [OF m(3,2) ok(2)] obtain out S'' where IH: "on_messages ms S' = Some (out, S'')"
      "\<And>fd. filter (\<lambda>p. np_id p = fd) out = map (packet fd) (frames (?R fd @ fst (streams fd ms), snd (streams fd ms)))"
      by blast
    have "frames (R fd @ fst (streams fd (m # ms)), snd (streams fd (m # ms))) =
      frames (?R fd @ fst (streams fd ms), snd (streams fd ms))" for fd
      using False by (cases "fd = ?fd") (auto simp: fr Let_def split: prod.splits)
    then show ?thesis using m(1) IH by auto
  qed
qed

text \<open>C5.  However the socket layer cuts the byte streams of the clients into chunks and
  interleaves them, filtering the chunks and popping the queue delivers for every descriptor exactly
  the length-prefixed packets of its stream, in order; a closed connection takes its unfinished
  packet with it, so that the next one on the same descriptor starts clean.\<close>

theorem netpack_reassembles_streams:
  assumes "list_all message_ok ms"
  shows "\<exists>out S'. on_messages ms None = Some (out, S') \<and>
    (\<forall>fd. filter (\<lambda>p. np_id p = fd) out = map (packet fd) (frames (streams fd ms)))"
  using on_messages_streams [of "\<lambda>_. []" None ms] assms by (simp add: net_inv_def stored_def)

definition data_message :: "int \<Rightarrow> bytes \<Rightarrow> socket_message" where
  "data_message fd b = \<lparr>sm_type = SOCKET_DATA, sm_id = fd, sm_ud = int (length b), sm_buffer = Some b, sm_padding = []\<rparr>"

definition close_message :: "int \<Rightarrow> socket_message" where
  "close_message fd = \<lparr>sm_type = SOCKET_CLOSE, sm_id = fd, sm_ud = 0, sm_buffer = None, sm_padding = []\<rparr>"

lemma read_size_small: "read_size 0 b = uint b"
  by (simp add: read_size_def)

lemma message_ok_examples [simp]: "b \<noteq> [] \<Longrightarrow> message_ok (data_message fd b)" "message_ok (close_message fd)"
  by (simp_all add: message_ok_def data_message_def close_message_def socket_types)

theorem netpack_reassembles_streams_witness:
  "\<exists>out S'. on_messages [data_message 7 [0], data_message 9 [0, 4, 65], data_message 7 [2, 10, 11, 0, 1],
       close_message 9, data_message 7 [12], data_message 9 [0, 1, 66]] None = Some (out, S') \<and>
     filter (\<lambda>p. np_id p = 7) out = [packet 7 [10, 11], packet 7 [12]] \<and>
     filter (\<lambda>p. np_id p = 9) out = [packet 9 [66]]"
proof -
  let ?ms = "[data_message 7 [0], data_message 9 [0, 4, 65], data_message 7 [2, 10, 11, 0, 1],
    close_message 9, data_message 7 [12], data_message 9 [0, 1, 66 :: u8]]"
  have "streams 7 ?ms = ([0, 2, 10, 11, 0, 1, 12], [])" "streams 9 ?ms = ([0, 4, 65], [[0, 1, 66]])"
    by (simp_all add: data_message_def close_message_def socket_types)
  moreover have "frames ([0, 2, 10, 11, 0, 1, 12], []) = [[10, 11], [12]]" "frames ([0, 4, 65], [[0, 1, 66]]) = [[66]]"
    by (simp_all add: frames_def split_frames.simps read_size_small)
  ultimately show ?thesis using netpack_reassembles_streams [of ?ms] by fastforce
qed

section \<open>Packing\<close>

lemma read_write_size:
  assumes "n < 65536"
  shows "write_size (int n) = [word_of_nat (n div 256), word_of_nat n]"
    "read_size (word_of_nat (n div 256)) (word_of_nat n) = int n"
proof -
  have m: "word_of_int (k AND 255) = (word_of_int k :: u8)" for k
    using take_bit_eq_mask [of 8 k] by (simp add: word_of_int_eq_iff mask_eq_exp_minus_1 flip: take_bit_eq_mask)
  have "drop_bit 8 (int n) = int (n div 256)" by (simp add: drop_bit_eq_div zdiv_int)
  then show "write_size (int n) = [word_of_nat (n div 256), word_of_nat n]"
    by (simp only: write_size_def m of_int_of_nat_eq)
  have sum: "int (n mod 256) + int (n div 256) * 256 = int n"
    using mod_div_mult_eq [of "int n" 256] by (simp only: zmod_int zdiv_int of_nat_numeral)
  have "uint (word_of_nat (n div 256) :: u8) = int (n div 256)"
    using assms by (simp add: unsigned_of_nat take_bit_eq_mod)
  moreover have "uint (word_of_nat n :: u8) = int (n mod 256)"
    by (simp add: unsigned_of_nat take_bit_eq_mod zmod_int)
  moreover have "push_bit 8 (int (n div 256)) OR int (n mod 256) = int n"
    using concat_bit_eq [of 8 "int (n mod 256)" "int (n div 256)"]
    by (simp add: concat_bit_def take_bit_eq_mod push_bit_eq_mult or.commute sum)
  ultimately show "read_size (word_of_nat (n div 256)) (word_of_nat n) = int n"
    by (simp add: read_size_def)
qed

lemma split_frames_lpack:
  assumes "lpack p = Inr w"
  shows "split_frames (w @ rest) = (p # fst (split_frames rest), snd (split_frames rest))"
proof -
  have n: "length p < 65536" and w: "w = write_size (int (length p)) @ p"
    using assms by (auto simp: lpack_def split: if_splits)
  then show ?thesis using read_write_size [OF n] by (simp add: split_frames_packet)
qed

text \<open>Packets of fewer than 65536 bytes that one end writes with \<open>pack\<close> arrive unchanged and in
  order at the other, whatever chunks the stream is cut into; longer ones are refused.\<close>

theorem packed_packets_arrive:
  assumes "list_all message_ok ms" "list_all2 (\<lambda>p w. lpack p = Inr w) ps ws" "streams fd ms = (concat ws, [])"
  shows "(\<exists>out S'. on_messages ms None = Some (out, S') \<and>
      filter (\<lambda>p. np_id p = fd) out = map (packet fd) ps) \<and>
    (\<forall>p. length p \<ge> 65536 \<longleftrightarrow> (\<exists>e. lpack p = Inl e))"
proof -
  have "split_frames (concat ws) = (ps, [])"
    using assms(2) by (induction rule: list_all2_induct) (simp_all add: split_frames_lpack)
  then have "frames (streams fd ms) = ps" by (simp add: assms(3) frames_def)
  then show ?thesis
    using on_messages_streams [of "\<lambda>_. []" None ms] assms(1) by (auto simp: net_inv_def stored_def lpack_def)
qed

theorem packed_packets_arrive_witness:
  "\<exists>out S'. on_messages [data_message 3 [0], data_message 3 [2, 7, 8, 0], data_message 3 [0]] None = Some (out, S') \<and>
     filter (\<lambda>p. np_id p = 3) out = [packet 3 [7, 8], packet 3 []]"
proof -
  let ?ms = "[data_message 3 [0], data_message 3 [2, 7, 8, 0], data_message 3 [0 :: u8]]"
  have ws: "list_all2 (\<lambda>p w. lpack p = Inr w) [[7, 8], []] [[0, 2, 7, 8], [0, 0]]"
    by (simp add: lpack_def write_size_def)
  have "streams 3 ?ms = (concat [[0, 2, 7, 8], [0, 0]], [])"
    by (simp add: data_message_def socket_types)
  moreover have "list_all message_ok ?ms" by simp
  ultimately show ?thesis using packed_packets_arrive [OF _ ws, of ?ms 3] by simp
qed

section \<open>Clearing\<close>

lemma those_map_Some: "list_all (\<lambda>c. c \<noteq> None) cs \<Longrightarrow> those cs = Some (map the cs)"
  by (induction cs) auto

lemma ring_walk:
  assumes "h < cap" "t < cap"
  shows "map (\<lambda>i. xs ! (i mod cap)) [h..<if h > t then t + cap else t] = ring_cells xs cap h (ring_len cap h t)"
proof -
  have "[h..<h + n] = map (\<lambda>i. h + i) [0..<n]" for n
    by (simp add: map_add_upt add.commute [of h])
  moreover have "(if h > t then t + cap else t) = h + ring_len cap h t" using assms by (simp add: ring_len_def)
  ultimately show ?thesis by (simp add: ring_cells_def comp_def)
qed

text \<open>\<open>clear\<close> frees the buffer of every packet, incomplete or queued, exactly once, also when the
  ring has wrapped around, and leaves an empty queue that holds no bytes of any descriptor.\<close>

theorem clear_frees_every_packet:
  assumes "net_inv R (Some q)"
  shows "\<exists>S'. lclear (Some q) =
      Some (map (\<lambda>uc. np_buffer (uc_pack uc)) (concat (nq_hash q)) @ map np_buffer (net_contents q), S') \<and>
    net_inv (\<lambda>_. []) S' \<and> stored S' = []"
proof -
  let ?t = "if nq_head q > nq_tail q then nq_tail q + nq_cap q else nq_tail q"
  let ?q = "q\<lparr>nq_hash := replicate HASHSIZE [], nq_head := 0, nq_tail := 0\<rparr>"
  have wf: "net_wf q" using assms by (simp add: net_inv_def)
  then have b: "nq_head q < nq_cap q" "nq_tail q < nq_cap q" "length (nq_queue q) = nq_cap q"
    "list_all (\<lambda>c. c \<noteq> None) (net_cells q)"
    by (simp_all add: net_wf_def)
  have "map (\<lambda>i. read_cell (nq_queue q) (i mod nq_cap q)) [nq_head q..<?t] = net_cells q"
    using ring_walk [OF b(1,2), of "nq_queue q"] b by (simp add: net_cells_def)
  then have "those (map (\<lambda>i. read_cell (nq_queue q) (i mod nq_cap q)) [nq_head q..<?t]) = Some (net_contents q)"
    using those_map_Some [OF b(4)] by (simp add: net_contents_def)
  moreover have "concat (map clear_list (nq_hash q)) = map (\<lambda>uc. np_buffer (uc_pack uc)) (concat (nq_hash q))"
    by (simp add: clear_list_def [abs_def] map_concat)
  moreover have "net_wf ?q" "net_contents ?q = []"
    using b by (auto simp: net_wf_def net_contents_def net_cells_def)
  then have "net_inv (\<lambda>_. []) (Some ?q)" "stored (Some ?q) = []"
    by (simp_all add: net_inv_def entries_hold_def hash_fd_less stored_def)
  ultimately show ?thesis by (simp add: lclear_def)
qed

theorem clear_frees_every_packet_witness:
  "\<exists>S'. lclear (Some new_queue) = Some ([], S') \<and> net_inv (\<lambda>_. []) S' \<and> stored S' = []"
proof -
  have "net_inv (\<lambda>_. []) (Some new_queue)"
    using net_wf_new new_queue_entries by (simp add: net_inv_def entries_hold_def)
  from clear_frees_every_packet [OF this] show ?thesis
    by (simp add: net_contents_new) (simp add: new_queue_def)
qed

end
