(* ===== verification/Seri.thy ===== *)
theory Seri
  imports Bytes "HOL-Library.Multiset"
begin

text \<open>
  Serialisation of Lua values between services: \<open>lualib-src/lua-seri.c\<close>.

  The writer appends to a linked list of 128-byte blocks; \<open>wb_blocks\<close> lists the bytes written to
  each block.  A Lua table is the list of its pairs in the order of \<open>lua_next\<close>; \<open>LProxy\<close> is a
  table with a \<open>__pairs\<close> metamethod and the pairs that it yields.  Which border \<open>lua_rawlen\<close>
  returns is up to the Lua implementation, so \<open>rawlen\<close> is a parameter.  A number that is not an
  integer is the 64 bits of its double.  Every table that \<open>unpack\<close> builds is a new object, so a
  table as a key never equals one that is there already.

  The reader is recursive and guided by its input; its functions take fuel, and
  \<open>None\<close> is the answer when the fuel is used up.
\<close>

section \<open>Lua values\<close>

datatype lua_value =
    LNil
  | LBool bool
  | LInteger u64
  | LReal u64
  | LString bytes
  | LPointer u64
  | LTable "(lua_value \<times> lua_value) list"
  | LProxy "(lua_value \<times> lua_value) list"
  | LOther string

type_synonym lua_pairs = "(lua_value \<times> lua_value) list"

fun lookup_key :: "lua_value \<Rightarrow> lua_pairs \<Rightarrow> lua_value" where
  "lookup_key k [] = LNil"
| "lookup_key k ((k', v) # ps) = (if k' = k then v else lookup_key k ps)"

definition lua_rawgeti :: "lua_pairs \<Rightarrow> nat \<Rightarrow> lua_value" where
  "lua_rawgeti ps i = lookup_key (LInteger (of_nat i)) ps"

text \<open>
  Keys of a table: a double with an integral value in the range of the integers is turned into
  that integer, and NaN is refused.
\<close>

definition real_to_integer :: "u64 \<Rightarrow> u64 option" where
  "real_to_integer r =
     (let e = uint (drop_bit 52 r AND 0x7ff); m = uint (r AND mask 52); neg = bit r 63 in
      if e = 0 then (if m = 0 then Some 0 else None)
      else let M = m + 2 ^ 52; sh = e - 1075;
        v = (if sh \<ge> 0 then M * 2 ^ nat (min sh 64) else M div 2 ^ nat (- sh));
        exact = (sh \<ge> 0 \<or> M mod 2 ^ nat (- sh) = 0);
        v = (if neg then - v else v)
      in if exact \<and> - (2 ^ 63) \<le> v \<and> v < 2 ^ 63 then Some (word_of_int v) else None)"

definition is_nan :: "u64 \<Rightarrow> bool" where
  "is_nan r \<longleftrightarrow> drop_bit 52 r AND 0x7ff = 0x7ff \<and> r AND mask 52 \<noteq> 0"

definition lua_key :: "lua_value \<Rightarrow> lua_value" where
  "lua_key k = (case k of LReal r \<Rightarrow> (case real_to_integer r of Some i \<Rightarrow> LInteger i | None \<Rightarrow> k) | _ \<Rightarrow> k)"

fun is_table :: "lua_value \<Rightarrow> bool" where
  "is_table (LTable _) = True"
| "is_table (LProxy _) = True"
| "is_table _ = False"

definition same_key :: "lua_value \<Rightarrow> lua_value \<Rightarrow> bool" where
  "same_key k k' \<longleftrightarrow> k = k' \<and> \<not> is_table k"

fun set_pair :: "lua_value \<Rightarrow> lua_value \<Rightarrow> lua_pairs \<Rightarrow> lua_pairs" where
  "set_pair k v [] = (if v = LNil then [] else [(k, v)])"
| "set_pair k v ((k', v') # ps) =
     (if same_key k k' then (if v = LNil then ps else (k', v) # ps) else (k', v') # set_pair k v ps)"

definition lua_rawset :: "lua_value \<Rightarrow> lua_value \<Rightarrow> lua_pairs \<Rightarrow> lua_pairs lua" where
  "lua_rawset k v ps =
     (if k = LNil then Inl ''table index is nil''
      else if \<exists>r. k = LReal r \<and> is_nan r then Inl ''table index is NaN''
      else Inr (set_pair (lua_key k) v ps))"

section \<open>The block writer\<close>

definition BLOCK_SIZE :: nat where "BLOCK_SIZE = 128"
definition MAX_DEPTH :: nat where "MAX_DEPTH = 32"
definition MAX_COOKIE :: int where "MAX_COOKIE = 32"

definition TYPE_NIL :: int where "TYPE_NIL = 0"
definition TYPE_BOOLEAN :: int where "TYPE_BOOLEAN = 1"
definition TYPE_NUMBER :: int where "TYPE_NUMBER = 2"
definition TYPE_USERDATA :: int where "TYPE_USERDATA = 3"
definition TYPE_SHORT_STRING :: int where "TYPE_SHORT_STRING = 4"
definition TYPE_LONG_STRING :: int where "TYPE_LONG_STRING = 5"
definition TYPE_TABLE :: int where "TYPE_TABLE = 6"

definition TYPE_NUMBER_ZERO :: int where "TYPE_NUMBER_ZERO = 0"
definition TYPE_NUMBER_BYTE :: int where "TYPE_NUMBER_BYTE = 1"
definition TYPE_NUMBER_WORD :: int where "TYPE_NUMBER_WORD = 2"
definition TYPE_NUMBER_DWORD :: int where "TYPE_NUMBER_DWORD = 4"
definition TYPE_NUMBER_QWORD :: int where "TYPE_NUMBER_QWORD = 6"
definition TYPE_NUMBER_REAL :: int where "TYPE_NUMBER_REAL = 8"

lemmas seri_types = TYPE_NIL_def TYPE_BOOLEAN_def TYPE_NUMBER_def TYPE_USERDATA_def TYPE_SHORT_STRING_def
  TYPE_LONG_STRING_def TYPE_TABLE_def TYPE_NUMBER_ZERO_def TYPE_NUMBER_BYTE_def TYPE_NUMBER_WORD_def
  TYPE_NUMBER_DWORD_def TYPE_NUMBER_QWORD_def TYPE_NUMBER_REAL_def

definition COMBINE_TYPE :: "int \<Rightarrow> int \<Rightarrow> u8" where
  "COMBINE_TYPE t v = word_of_int (t OR push_bit 3 v)"

record write_block =
  wb_blocks :: "bytes list"
  wb_len :: nat
  wb_ptr :: nat

definition wb_init :: write_block where
  "wb_init = \<lparr>wb_blocks = [[]], wb_len = 0, wb_ptr = 0\<rparr>"

definition blk_alloc :: "write_block \<Rightarrow> write_block" where
  "blk_alloc b = b\<lparr>wb_blocks := wb_blocks b @ [[]], wb_ptr := 0\<rparr>"

text \<open>\<open>memcpy\<close> to the end of what is written to the current block.\<close>

definition blk_copy :: "bytes \<Rightarrow> write_block \<Rightarrow> write_block" where
  "blk_copy buffer b = b\<lparr>wb_blocks := butlast (wb_blocks b) @ [take (wb_ptr b) (last (wb_blocks b)) @ buffer],
     wb_ptr := wb_ptr b + length buffer, wb_len := wb_len b + length buffer\<rparr>"

text \<open>What follows the label \<open>_again\<close>, which also allocates the next block.\<close>

function wb_fill :: "bytes \<Rightarrow> write_block \<Rightarrow> write_block" where
  "wb_fill buffer b =
     (if int (wb_ptr b) \<le> int BLOCK_SIZE - int (length buffer) then blk_copy buffer b
      else let copy = BLOCK_SIZE - wb_ptr b in
        wb_fill (drop copy buffer) (blk_alloc (blk_copy (take copy buffer) b)))"
  by auto
termination
  by (relation "measures [\<lambda>(buffer, _). length buffer, \<lambda>(_, b). wb_ptr b]")
    (auto simp: blk_alloc_def BLOCK_SIZE_def)

declare wb_fill.simps [simp del]

definition wb_push :: "bytes \<Rightarrow> write_block \<Rightarrow> write_block" where
  "wb_push buffer b = wb_fill buffer (if wb_ptr b = BLOCK_SIZE then blk_alloc b else b)"

section \<open>Packing\<close>

definition wb_nil :: "write_block \<Rightarrow> write_block" where
  "wb_nil = wb_push [word_of_int TYPE_NIL]"

definition wb_boolean :: "bool \<Rightarrow> write_block \<Rightarrow> write_block" where
  "wb_boolean b = wb_push [COMBINE_TYPE TYPE_BOOLEAN (if b then 1 else 0)]"

definition wb_integer :: "u64 \<Rightarrow> write_block \<Rightarrow> write_block" where
  "wb_integer v wb =
     (if v = 0 then wb_push [COMBINE_TYPE TYPE_NUMBER TYPE_NUMBER_ZERO] wb
      else if v \<noteq> scast (ucast v :: u32) then
        wb_push (le_bytes 8 v) (wb_push [COMBINE_TYPE TYPE_NUMBER TYPE_NUMBER_QWORD] wb)
      else if sint v < 0 then
        wb_push (le_bytes 4 (ucast v :: u32)) (wb_push [COMBINE_TYPE TYPE_NUMBER TYPE_NUMBER_DWORD] wb)
      else if sint v < 0x100 then
        wb_push [ucast v] (wb_push [COMBINE_TYPE TYPE_NUMBER TYPE_NUMBER_BYTE] wb)
      else if sint v < 0x10000 then
        wb_push (le_bytes 2 (ucast v :: u16)) (wb_push [COMBINE_TYPE TYPE_NUMBER TYPE_NUMBER_WORD] wb)
      else
        wb_push (le_bytes 4 (ucast v :: u32)) (wb_push [COMBINE_TYPE TYPE_NUMBER TYPE_NUMBER_DWORD] wb))"

definition wb_real :: "u64 \<Rightarrow> write_block \<Rightarrow> write_block" where
  "wb_real v wb = wb_push (le_bytes 8 v) (wb_push [COMBINE_TYPE TYPE_NUMBER TYPE_NUMBER_REAL] wb)"

definition wb_pointer :: "u64 \<Rightarrow> write_block \<Rightarrow> write_block" where
  "wb_pointer v wb = wb_push (le_bytes 8 v) (wb_push [word_of_int TYPE_USERDATA] wb)"

text \<open>The length is an \<open>int\<close>: \<open>pack_one\<close> casts the \<open>size_t\<close>.\<close>

definition wb_string :: "bytes \<Rightarrow> write_block \<Rightarrow> write_block" where
  "wb_string str wb =
     (let len = sint (of_nat (length str) :: u32) in
      if len < MAX_COOKIE then
        let wb = wb_push [COMBINE_TYPE TYPE_SHORT_STRING len] wb in
        if len > 0 then wb_push str wb else wb
      else
        wb_push str
          (if len < 0x10000 then
             wb_push (le_bytes 2 (word_of_int len :: u16)) (wb_push [COMBINE_TYPE TYPE_LONG_STRING 2] wb)
           else
             wb_push (le_bytes 4 (word_of_int len :: u32)) (wb_push [COMBINE_TYPE TYPE_LONG_STRING 4] wb)))"

definition wb_array_size :: "nat \<Rightarrow> write_block \<Rightarrow> write_block" where
  "wb_array_size array_size wb =
     (if int array_size \<ge> MAX_COOKIE - 1 then
        wb_integer (of_nat array_size) (wb_push [COMBINE_TYPE TYPE_TABLE (MAX_COOKIE - 1)] wb)
      else wb_push [COMBINE_TYPE TYPE_TABLE (int array_size)] wb)"

text \<open>The pairs that the second loop does not skip: all but those of the array part.\<close>

definition in_array :: "nat \<Rightarrow> lua_value \<Rightarrow> bool" where
  "in_array array_size k = (case k of LInteger x \<Rightarrow> sint x > 0 \<and> sint x \<le> int array_size | _ \<Rightarrow> False)"

definition hash_pairs :: "nat \<Rightarrow> lua_pairs \<Rightarrow> lua_pairs" where
  "hash_pairs array_size ps = filter (\<lambda>(k, _). \<not> in_array array_size k) ps"

definition array_values :: "nat \<Rightarrow> lua_pairs \<Rightarrow> lua_value list" where
  "array_values array_size ps = map (\<lambda>i. lua_rawgeti ps i) [1..<array_size + 1]"

text \<open>
  \<open>pack_values\<close> is the loop over the array part or over the arguments, \<open>pack_pairs\<close> the loop over
  the other pairs.  The depth check ends the recursion.
\<close>

function pack_one :: "(lua_pairs \<Rightarrow> nat) \<Rightarrow> lua_value \<Rightarrow> nat \<Rightarrow> write_block \<Rightarrow> write_block lua"
  and pack_values :: "(lua_pairs \<Rightarrow> nat) \<Rightarrow> lua_value list \<Rightarrow> nat \<Rightarrow> write_block \<Rightarrow> write_block lua"
  and pack_pairs :: "(lua_pairs \<Rightarrow> nat) \<Rightarrow> lua_pairs \<Rightarrow> nat \<Rightarrow> write_block \<Rightarrow> write_block lua"
where
  "pack_one rawlen v depth b =
     (if depth > MAX_DEPTH then Inl ''serialize can't pack too depth table''
      else case v of
          LNil \<Rightarrow> Inr (wb_nil b)
        | LInteger x \<Rightarrow> Inr (wb_integer x b)
        | LReal n \<Rightarrow> Inr (wb_real n b)
        | LBool x \<Rightarrow> Inr (wb_boolean x b)
        | LString str \<Rightarrow> Inr (wb_string str b)
        | LPointer p \<Rightarrow> Inr (wb_pointer p b)
        | LTable ps \<Rightarrow>
            (case pack_values rawlen (array_values (rawlen ps) ps) (depth + 1) (wb_array_size (rawlen ps) b) of
               Inl e \<Rightarrow> Inl e
             | Inr b \<Rightarrow> pack_pairs rawlen (hash_pairs (rawlen ps) ps) (depth + 1) b)
        | LProxy ps \<Rightarrow> pack_pairs rawlen ps (depth + 1) (wb_push [COMBINE_TYPE TYPE_TABLE 0] b)
        | LOther type \<Rightarrow> Inl ''Unsupport type %s to serialize'')"
| "pack_values rawlen [] depth b = Inr b"
| "pack_values rawlen (v # vs) depth b =
     (case pack_one rawlen v depth b of
        Inl e \<Rightarrow> Inl e
      | Inr b \<Rightarrow> pack_values rawlen vs depth b)"
| "pack_pairs rawlen [] depth b = Inr (wb_nil b)"
| "pack_pairs rawlen ((k, v) # ps) depth b =
     (case pack_one rawlen k depth b of
        Inl e \<Rightarrow> Inl e
      | Inr b \<Rightarrow>
          (case pack_one rawlen v depth b of
             Inl e \<Rightarrow> Inl e
           | Inr b \<Rightarrow> pack_pairs rawlen ps depth b))"
  by pat_completeness auto
termination
  by (relation "measures [\<lambda>x. MAX_DEPTH + 1 - (case x of Inl (_, _, d, _) \<Rightarrow> d | Inr (Inl (_, _, d, _)) \<Rightarrow> d | Inr (Inr (_, _, d, _)) \<Rightarrow> d),
       \<lambda>x. case x of Inl _ \<Rightarrow> 0 | Inr (Inl (_, vs, _, _)) \<Rightarrow> Suc (length vs) | Inr (Inr (_, ps, _, _)) \<Rightarrow> Suc (length ps)]")
    (auto simp: MAX_DEPTH_def)

text \<open>\<open>seri\<close>: \<open>len\<close> bytes are copied out of the blocks.\<close>

fun seri_copy :: "bytes list \<Rightarrow> nat \<Rightarrow> bytes option" where
  "seri_copy blocks 0 = Some []"
| "seri_copy [] len = None"
| "seri_copy (b # blocks) len =
     (if len \<ge> BLOCK_SIZE then
        if length b < BLOCK_SIZE then None
        else map_option (\<lambda>rest. take BLOCK_SIZE b @ rest) (seri_copy blocks (len - BLOCK_SIZE))
      else if length b < len then None else Some (take len b))"

definition luaseri_pack :: "(lua_pairs \<Rightarrow> nat) \<Rightarrow> lua_value list \<Rightarrow> bytes option lua" where
  "luaseri_pack rawlen args =
     map_sum id (\<lambda>wb. seri_copy (wb_blocks wb) (wb_len wb)) (pack_values rawlen args 0 wb_init)"

section \<open>Unpacking\<close>

text \<open>The read block is the bytes that are left.\<close>

definition rb_read :: "nat \<Rightarrow> bytes \<Rightarrow> (bytes \<times> bytes) option" where
  "rb_read sz rb = (if length rb < sz then None else Some (take sz rb, drop sz rb))"

definition invalid_stream :: "'a lua" where
  "invalid_stream = Inl ''Invalid serialize stream %d (line:%d)''"

definition read_or_invalid :: "nat \<Rightarrow> bytes \<Rightarrow> (bytes \<Rightarrow> 'a) \<Rightarrow> ('a \<times> bytes) lua" where
  "read_or_invalid sz rb f =
     (case rb_read sz rb of None \<Rightarrow> invalid_stream | Some (b, rb) \<Rightarrow> Inr (f b, rb))"

definition get_integer :: "bytes \<Rightarrow> int \<Rightarrow> (u64 \<times> bytes) lua" where
  "get_integer rb cookie =
     (if cookie = TYPE_NUMBER_ZERO then Inr (0, rb)
      else if cookie = TYPE_NUMBER_BYTE then read_or_invalid 1 rb (\<lambda>b. ucast (hd b))
      else if cookie = TYPE_NUMBER_WORD then read_or_invalid 2 rb (\<lambda>b. ucast (le_word b :: u16))
      else if cookie = TYPE_NUMBER_DWORD then read_or_invalid 4 rb (\<lambda>b. scast (le_word b :: u32))
      else if cookie = TYPE_NUMBER_QWORD then read_or_invalid 8 rb le_word
      else invalid_stream)"

definition get_real :: "bytes \<Rightarrow> (u64 \<times> bytes) lua" where
  "get_real rb = read_or_invalid 8 rb le_word"

definition get_pointer :: "bytes \<Rightarrow> (u64 \<times> bytes) lua" where
  "get_pointer rb = read_or_invalid 8 rb le_word"

text \<open>
  A length of 2 ^ 31 or more is a negative \<open>int\<close>.  It passes the test of \<open>rb_read\<close>, and then
  \<open>lua_pushlstring\<close> refuses the enormous \<open>size_t\<close>.
\<close>

definition get_buffer :: "bytes \<Rightarrow> int \<Rightarrow> (lua_value \<times> bytes) lua" where
  "get_buffer rb len =
     (if len < 0 then Inl ''memory allocation error: block too big''
      else read_or_invalid (nat len) rb LString)"

definition try_lua :: "'a lua option \<Rightarrow> ('a \<Rightarrow> 'b lua option) \<Rightarrow> 'b lua option" where
  "try_lua m f = (case m of None \<Rightarrow> None | Some (Inl e) \<Rightarrow> Some (Inl e) | Some (Inr x) \<Rightarrow> f x)"

definition array_size_of :: "bytes \<Rightarrow> int \<Rightarrow> (int \<times> bytes) lua" where
  "array_size_of rb array_size =
     (if array_size = MAX_COOKIE - 1 then
        (case rb_read 1 rb of
           None \<Rightarrow> invalid_stream
         | Some (t, rb) \<Rightarrow>
             let type = uint (hd t AND 7); cookie = uint (drop_bit 3 (hd t)) in
             if type \<noteq> TYPE_NUMBER \<or> cookie = TYPE_NUMBER_REAL then invalid_stream
             else map_sum id (\<lambda>(n, rb). (sint (ucast n :: u32), rb)) (get_integer rb cookie))
      else Inr (array_size, rb))"

definition long_string_length :: "bytes \<Rightarrow> int \<Rightarrow> (int \<times> bytes) lua" where
  "long_string_length rb cookie =
     (if cookie = 2 then read_or_invalid 2 rb (\<lambda>b. uint (le_word b :: u16))
      else if cookie \<noteq> 4 then invalid_stream
      else read_or_invalid 4 rb (\<lambda>b. sint (le_word b :: u32)))"

text \<open>
  The two loops of \<open>unpack_table\<close>; \<open>one\<close> is \<open>unpack_one\<close>.  An iteration reads at least one byte,
  so one more than the number of bytes left is fuel enough for a loop.
\<close>

type_synonym reader = "bytes \<Rightarrow> (lua_value \<times> bytes) lua option"

fun unpack_array :: "reader \<Rightarrow> nat \<Rightarrow> int \<Rightarrow> int \<Rightarrow> lua_pairs \<Rightarrow> bytes \<Rightarrow> (lua_pairs \<times> bytes) lua option" where
  "unpack_array one 0 i array_size ps rb = None"
| "unpack_array one (Suc n) i array_size ps rb =
     (if i \<le> array_size then
        try_lua (one rb) (\<lambda>(v, rb).
        try_lua (Some (lua_rawset (LInteger (word_of_int i)) v ps)) (\<lambda>ps.
        unpack_array one n (i + 1) array_size ps rb))
      else Some (Inr (ps, rb)))"

fun unpack_pairs :: "reader \<Rightarrow> nat \<Rightarrow> lua_pairs \<Rightarrow> bytes \<Rightarrow> (lua_pairs \<times> bytes) lua option" where
  "unpack_pairs one 0 ps rb = None"
| "unpack_pairs one (Suc n) ps rb =
     try_lua (one rb) (\<lambda>(k, rb).
     if k = LNil then Some (Inr (ps, rb))
     else try_lua (one rb) (\<lambda>(v, rb).
          try_lua (Some (lua_rawset k v ps)) (\<lambda>ps. unpack_pairs one n ps rb)))"

definition unpack_table :: "reader \<Rightarrow> bytes \<Rightarrow> int \<Rightarrow> (lua_value \<times> bytes) lua option" where
  "unpack_table one rb array_size =
     try_lua (Some (array_size_of rb array_size)) (\<lambda>(array_size, rb).
     try_lua (unpack_array one (Suc (length rb)) 1 array_size [] rb) (\<lambda>(ps, rb).
     try_lua (unpack_pairs one (Suc (length rb)) ps rb) (\<lambda>(ps, rb). Some (Inr (LTable ps, rb)))))"

definition push_value :: "reader \<Rightarrow> bytes \<Rightarrow> int \<Rightarrow> int \<Rightarrow> (lua_value \<times> bytes) lua option" where
  "push_value one rb type cookie =
     (if type = TYPE_NIL then Some (Inr (LNil, rb))
      else if type = TYPE_BOOLEAN then Some (Inr (LBool (cookie \<noteq> 0), rb))
      else if type = TYPE_NUMBER then
        if cookie = TYPE_NUMBER_REAL then Some (map_sum id (map_prod LReal id) (get_real rb))
        else Some (map_sum id (map_prod LInteger id) (get_integer rb cookie))
      else if type = TYPE_USERDATA then Some (map_sum id (map_prod LPointer id) (get_pointer rb))
      else if type = TYPE_SHORT_STRING then Some (get_buffer rb cookie)
      else if type = TYPE_LONG_STRING then
        try_lua (Some (long_string_length rb cookie)) (\<lambda>(n, rb). Some (get_buffer rb n))
      else if type = TYPE_TABLE then unpack_table one rb cookie
      else Some invalid_stream)"

primrec unpack_one :: "nat \<Rightarrow> reader" where
  "unpack_one 0 = (\<lambda>rb. None)"
| "unpack_one (Suc depth) = (\<lambda>rb.
     case rb_read 1 rb of
       None \<Rightarrow> Some invalid_stream
     | Some (t, rb) \<Rightarrow> push_value (unpack_one depth) rb (uint (hd t AND 7)) (uint (drop_bit 3 (hd t))))"

text \<open>The loop of \<open>luaseri_unpack\<close>.\<close>

fun unpack_all :: "reader \<Rightarrow> nat \<Rightarrow> bytes \<Rightarrow> lua_value list lua option" where
  "unpack_all one 0 rb = None"
| "unpack_all one (Suc n) rb =
     (case rb_read 1 rb of
        None \<Rightarrow> Some (Inr [])
      | Some (t, rb) \<Rightarrow>
          try_lua (push_value one rb (uint (hd t AND 7)) (uint (drop_bit 3 (hd t)))) (\<lambda>(v, rb).
          try_lua (unpack_all one n rb) (\<lambda>vs. Some (Inr (v # vs)))))"

datatype unpack_arg = Arg_None | Arg_String bytes | Arg_Buffer bytes | Arg_Null int

definition unpack_buffer :: "bytes \<Rightarrow> lua_value list lua option" where
  "unpack_buffer b = unpack_all (unpack_one (length b)) (Suc (length b)) b"

definition luaseri_unpack :: "unpack_arg \<Rightarrow> lua_value list lua option" where
  "luaseri_unpack arg =
     (case arg of
        Arg_None \<Rightarrow> Some (Inr [])
      | Arg_Null len \<Rightarrow> if len = 0 then Some (Inr []) else Some (Inl ''deserialize null pointer'')
      | Arg_String b \<Rightarrow> if b = [] then Some (Inr []) else unpack_buffer b
      | Arg_Buffer b \<Rightarrow> if b = [] then Some (Inr []) else unpack_buffer b)"

section \<open>Unpacking ends\<close>

lemma try_lua_simps [simp]:
  "try_lua None f = None" "try_lua (Some (Inl e)) f = Some (Inl e)" "try_lua (Some (Inr x)) f = f x"
  by (simp_all add: try_lua_def)

text \<open>A reader that returns, and takes at least \<open>k\<close> bytes when it succeeds.\<close>

definition returns :: "nat \<Rightarrow> bytes \<Rightarrow> ('a \<times> bytes) lua option \<Rightarrow> bool" where
  "returns k rb out \<longleftrightarrow> out \<noteq> None \<and> (\<forall>x rest. out = Some (Inr (x, rest)) \<longrightarrow> length rest + k \<le> length rb)"

lemma returnsE:
  assumes "returns k rb out"
  obtains e where "out = Some (Inl e)" | x rest where "out = Some (Inr (x, rest))" "length rest + k \<le> length rb"
  using assms by (cases out) (auto simp: returns_def split: sum.splits elim: sumE)

lemma returnsI [simp]:
  "returns k rb (Some (Inl e))" "returns k rb (Some (Inr (x, rest))) \<longleftrightarrow> length rest + k \<le> length rb"
  by (auto simp: returns_def)

lemma returns_read: "returns n rb (Some (read_or_invalid n rb f))"
  by (simp add: returns_def read_or_invalid_def rb_read_def invalid_stream_def)

lemma returns_le: "returns k rb out \<Longrightarrow> j \<le> k \<Longrightarrow> returns j rb out"
  by (fastforce simp: returns_def)

lemma returns_map: "returns k rb (Some r) \<Longrightarrow> returns k rb (Some (map_sum id (map_prod g id) r))"
  by (cases r) (auto simp: returns_def)

lemma returns_get_integer: "returns 0 rb (Some (get_integer rb cookie))"
  by (auto simp: get_integer_def returns_le [OF returns_read] invalid_stream_def)

lemma returns_array_size: "returns 0 rb (Some (array_size_of rb n))"
proof -
  have "returns 0 rb' (Some (map_sum id (\<lambda>(n, rb). (sint (ucast n :: u32), rb)) (get_integer rb' c)))" for rb' c
    using returns_get_integer [of rb' c] by (cases "get_integer rb' c") (auto simp: returns_def)
  from returns_le [OF this, of 0 "drop 1 rb"] show ?thesis
    by (fastforce simp: array_size_of_def rb_read_def invalid_stream_def Let_def returns_def)
qed

lemma returns_array:
  assumes "\<And>rb'. length rb' \<le> length rb \<Longrightarrow> returns 1 rb' (one rb')" "length rb < n"
  shows "returns 0 rb (unpack_array one n i array_size ps rb)"
  using assms
proof (induction one n i array_size ps rb rule: unpack_array.induct)
  case (2 one n i array_size ps rb)
  show ?case
  proof (cases "i \<le> array_size")
    case True
    have "returns 1 rb (one rb)" using "2.prems"(1) by simp
    then show ?thesis
    proof (cases rule: returnsE)
      case (2 v rb')
      show ?thesis
      proof (cases "lua_rawset (LInteger (word_of_int i)) v ps")
        case (Inr ps')
        have "returns 0 rb' (unpack_array one n (i + 1) array_size ps' rb')"
          using "2.IH" [OF True] 2 "2.prems" by simp
        then show ?thesis using True Inr 2 by (auto simp: returns_def)
      qed (use True 2 in simp)
    qed (use True in simp)
  qed simp
qed simp

lemma returns_pairs:
  assumes "\<And>rb'. length rb' \<le> length rb \<Longrightarrow> returns 1 rb' (one rb')" "length rb < n"
  shows "returns 0 rb (unpack_pairs one n ps rb)"
  using assms
proof (induction one n ps rb rule: unpack_pairs.induct)
  case (2 one n ps rb)
  have "returns 1 rb (one rb)" using "2.prems"(1) by simp
  then show ?case
  proof (cases rule: returnsE)
    case key: (2 k rb1)
    show ?thesis
    proof (cases "k = LNil")
      case False
      have "returns 1 rb1 (one rb1)" using key "2.prems"(1) by simp
      then show ?thesis
      proof (cases rule: returnsE)
        case val: (2 v rb2)
        show ?thesis
        proof (cases "lua_rawset k v ps")
          case (Inr ps')
          have "returns 0 rb2 (unpack_pairs one n ps' rb2)"
            using "2.IH" [OF False] key val "2.prems" by simp
          then show ?thesis using False Inr key val by (auto simp: returns_def)
        qed (use False key val in simp)
      qed (use False key in simp)
    qed (use key in simp)
  qed simp
qed simp

lemma returns_table:
  assumes one: "\<And>rb'. length rb' \<le> length rb \<Longrightarrow> returns 1 rb' (one rb')"
  shows "returns 0 rb (unpack_table one rb array_size)"
  using returns_array_size [of rb array_size]
proof (cases rule: returnsE)
  case size: (2 n rb1)
  have "returns 0 rb1 (unpack_array one (Suc (length rb1)) 1 n [] rb1)"
    using one size by (intro returns_array) auto
  then show ?thesis
  proof (cases rule: returnsE)
    case arr: (2 ps rb2)
    have "returns 0 rb2 (unpack_pairs one (Suc (length rb2)) ps rb2)"
      using one size arr by (intro returns_pairs) auto
    then show ?thesis
      by (cases rule: returnsE) (use size arr in \<open>simp_all add: unpack_table_def\<close>)
  qed (use size in \<open>simp add: unpack_table_def\<close>)
qed (simp add: unpack_table_def)

lemma returns_get_buffer: "returns 0 rb (Some (get_buffer rb n))"
  by (simp add: get_buffer_def returns_le [OF returns_read])

lemma returns_long_string: "returns 0 rb (try_lua (Some (long_string_length rb cookie)) (\<lambda>(n, rb). Some (get_buffer rb n)))"
proof -
  have "returns 0 rb (Some (long_string_length rb cookie))"
    by (auto simp: long_string_length_def returns_le [OF returns_read] invalid_stream_def)
  then show ?thesis
  proof (cases rule: returnsE)
    case (2 n rb')
    then show ?thesis using returns_get_buffer [of rb' n] by (auto simp: returns_def)
  qed simp
qed

lemma returns_push_value:
  assumes "\<And>rb'. length rb' \<le> length rb \<Longrightarrow> returns 1 rb' (one rb')"
  shows "returns 0 rb (push_value one rb type cookie)"
  using returns_table [where array_size = cookie, OF assms] returns_long_string [of rb cookie]
  by (simp add: push_value_def returns_map [OF returns_get_integer] returns_map [OF returns_le [OF returns_read]]
      get_real_def get_pointer_def returns_get_buffer invalid_stream_def)

lemma returns_unpack_one: "length rb < depth \<Longrightarrow> returns 1 rb (unpack_one depth rb)"
proof (induction depth arbitrary: rb)
  case (Suc depth)
  show ?case
  proof (cases "rb_read 1 rb")
    case (Some p)
    obtain t rb' where p: "p = (t, rb')" by (cases p)
    have l: "length rb' + 1 = length rb" using Some p by (auto simp: rb_read_def split: if_splits)
    have "returns 0 rb' (push_value (unpack_one depth) rb' (uint (hd t AND 7)) (uint (drop_bit 3 (hd t))))"
      using Suc l by (intro returns_push_value) simp
    then show ?thesis using Some p l by (auto simp: returns_def)
  qed (simp add: invalid_stream_def)
qed simp

lemma unpack_all_returns:
  "length rb < n \<Longrightarrow> length rb \<le> depth \<Longrightarrow> unpack_all (unpack_one depth) n rb \<noteq> None"
proof (induction n arbitrary: rb)
  case (Suc n)
  show ?case
  proof (cases "rb_read 1 rb")
    case (Some p)
    obtain t rb' where p: "p = (t, rb')" by (cases p)
    have l: "length rb' + 1 = length rb" using Some p by (auto simp: rb_read_def split: if_splits)
    have "returns 0 rb' (push_value (unpack_one depth) rb' (uint (hd t AND 7)) (uint (drop_bit 3 (hd t))))"
      using Suc.prems l by (intro returns_push_value returns_unpack_one) simp
    then show ?thesis
    proof (cases rule: returnsE)
      case (2 v rest)
      then have "unpack_all (unpack_one depth) n rest \<noteq> None" using Suc l by simp
      then show ?thesis using Some p 2 by (auto simp: try_lua_def split: sum.splits)
    qed (use Some p in simp)
  qed simp
qed simp

lemma unpack_returns: "luaseri_unpack arg \<noteq> None"
  using unpack_all_returns
  by (simp add: luaseri_unpack_def unpack_buffer_def del: unpack_all.simps split: unpack_arg.splits)

section \<open>What the block writer writes\<close>

definition wb_bytes :: "write_block \<Rightarrow> bytes" where
  "wb_bytes wb = concat (wb_blocks wb)"

definition wb_wf :: "write_block \<Rightarrow> bool" where
  "wb_wf wb \<longleftrightarrow> wb_blocks wb \<noteq> [] \<and> list_all (\<lambda>b. length b = BLOCK_SIZE) (butlast (wb_blocks wb)) \<and>
     length (last (wb_blocks wb)) = wb_ptr wb \<and> wb_ptr wb \<le> BLOCK_SIZE \<and> wb_len wb = length (wb_bytes wb)"

lemma wb_init_wf: "wb_wf wb_init" "wb_bytes wb_init = []"
  by (simp_all add: wb_wf_def wb_init_def wb_bytes_def)

lemma blk_alloc_wf: "wb_wf wb \<Longrightarrow> wb_ptr wb = BLOCK_SIZE \<Longrightarrow> wb_wf (blk_alloc wb) \<and> wb_bytes (blk_alloc wb) = wb_bytes wb"
  by (cases "wb_blocks wb" rule: rev_cases) (auto simp: wb_wf_def blk_alloc_def wb_bytes_def butlast_append)

lemma blk_copy_wf:
  "wb_wf wb \<Longrightarrow> wb_ptr wb + length bs \<le> BLOCK_SIZE \<Longrightarrow> wb_wf (blk_copy bs wb) \<and> wb_bytes (blk_copy bs wb) = wb_bytes wb @ bs"
  by (cases "wb_blocks wb" rule: rev_cases) (auto simp: wb_wf_def blk_copy_def wb_bytes_def butlast_append)

lemma wb_fill_wf:
  "wb_wf wb \<Longrightarrow> wb_wf (wb_fill bs wb) \<and> wb_bytes (wb_fill bs wb) = wb_bytes wb @ bs"
proof (induction bs wb rule: wb_fill.induct)
  case (1 bs wb)
  show ?case
  proof (cases "int (wb_ptr wb) \<le> int BLOCK_SIZE - int (length bs)")
    case True
    then show ?thesis using blk_copy_wf [OF "1.prems", of bs] by (simp add: wb_fill.simps)
  next
    case False
    let ?c = "BLOCK_SIZE - wb_ptr wb"
    have ptr: "wb_ptr wb \<le> BLOCK_SIZE" using "1.prems" by (simp add: wb_wf_def)
    then have c: "?c \<le> length bs" "wb_ptr wb + length (take ?c bs) = BLOCK_SIZE" using False by auto
    have copy: "wb_wf (blk_copy (take ?c bs) wb) \<and> wb_bytes (blk_copy (take ?c bs) wb) = wb_bytes wb @ take ?c bs"
      using blk_copy_wf [OF "1.prems", of "take ?c bs"] c by simp
    moreover have "wb_ptr (blk_copy (take ?c bs) wb) = BLOCK_SIZE" using c by (simp add: blk_copy_def)
    ultimately have "wb_wf (blk_alloc (blk_copy (take ?c bs) wb))"
      "wb_bytes (blk_alloc (blk_copy (take ?c bs) wb)) = wb_bytes wb @ take ?c bs"
      using blk_alloc_wf by simp_all
    with "1.IH" [OF False refl] False show ?thesis by (simp add: wb_fill.simps [of bs wb] Let_def)
  qed
qed

lemma wb_push_wf: "wb_wf wb \<Longrightarrow> wb_wf (wb_push bs wb) \<and> wb_bytes (wb_push bs wb) = wb_bytes wb @ bs"
  using blk_alloc_wf [of wb] wb_fill_wf [of wb bs] wb_fill_wf [of "blk_alloc wb" bs] by (simp add: wb_push_def)

lemma seri_copy_blocks:
  "blocks \<noteq> [] \<Longrightarrow> list_all (\<lambda>b. length b = BLOCK_SIZE) (butlast blocks) \<Longrightarrow> length (last blocks) \<le> BLOCK_SIZE \<Longrightarrow>
     seri_copy blocks (length (concat blocks)) = Some (concat blocks)"
proof (induction blocks)
  case (Cons b blocks)
  show ?case
  proof (cases "blocks = []")
    case True
    then show ?thesis using Cons.prems by (cases "length b") (auto simp: BLOCK_SIZE_def)
  next
    case False
    then have b: "length b = BLOCK_SIZE" and rest: "list_all (\<lambda>b. length b = BLOCK_SIZE) (butlast blocks)"
      "length (last blocks) \<le> BLOCK_SIZE"
      using Cons.prems by simp_all
    obtain m where m: "length (concat (b # blocks)) = Suc m" "Suc m \<ge> BLOCK_SIZE" "Suc m - BLOCK_SIZE = length (concat blocks)"
      using b that [of "BLOCK_SIZE - 1 + length (concat blocks)"] by (auto simp: BLOCK_SIZE_def)
    then show ?thesis using b Cons.IH [OF False rest] by simp
  qed
qed simp

definition emits :: "(write_block \<Rightarrow> write_block) \<Rightarrow> bytes \<Rightarrow> bool" where
  "emits f bs \<longleftrightarrow> (\<forall>wb. wb_wf wb \<longrightarrow> wb_wf (f wb) \<and> wb_bytes (f wb) = wb_bytes wb @ bs)"

lemma emits_push: "emits (wb_push bs) bs"
  by (simp add: emits_def wb_push_wf)

lemma emits_push_push: "emits (\<lambda>wb. wb_push bs (wb_push as wb)) (as @ bs)"
  by (simp add: emits_def wb_push_wf)

lemma emits_push3: "emits (\<lambda>wb. wb_push cs (wb_push bs (wb_push as wb))) (as @ bs @ cs)"
  by (simp add: emits_def wb_push_wf)

lemmas emits_rules = emits_push emits_push_push emits_push3

section \<open>Reading back what was written\<close>

lemma combine_type:
  assumes "0 \<le> t" "t < 8" "0 \<le> v" "v < 32"
  shows "uint (COMBINE_TYPE t v AND 7) = t" "uint (drop_bit 3 (COMBINE_TYPE t v)) = v"
proof -
  have "t OR push_bit 3 v = t + 8 * v"
    using concat_bit_eq [of 3 t v] assms by (simp add: concat_bit_def take_bit_eq_mod push_bit_eq_mult)
  moreover have "uint (word_of_int (t + 8 * v) :: u8) = (t + 8 * v) mod 2 ^ 8" by (simp only: uint_word_of_int) simp
  ultimately have u: "uint (COMBINE_TYPE t v) = t + 8 * v"
    using assms by (simp only: COMBINE_TYPE_def) simp
  have "(7 :: u8) = mask 3" by (simp add: mask_eq_exp_minus_1)
  then have "uint (COMBINE_TYPE t v AND 7) = uint (take_bit 3 (COMBINE_TYPE t v))"
    by (simp only: take_bit_eq_mask)
  then have "uint (COMBINE_TYPE t v AND 7) = take_bit 3 (t + 8 * v)"
    by (simp only: unsigned_take_bit_eq u)
  then show "uint (COMBINE_TYPE t v AND 7) = t" using assms by (simp add: take_bit_eq_mod)
  have "uint (drop_bit 3 (COMBINE_TYPE t v)) = drop_bit 3 (uint (COMBINE_TYPE t v))"
    using uint_lt2p [of "COMBINE_TYPE t v"]
    by (intro unsigned_drop_bit_eq [THEN trans]) (simp add: take_bit_int_eq_self)
  then show "uint (drop_bit 3 (COMBINE_TYPE t v)) = v"
    using assms by (simp add: u drop_bit_eq_div)
qed

lemma read_or_invalid_append [simp]:
  "length b = n \<Longrightarrow> read_or_invalid n (b @ rest) f = Inr (f b, rest)"
  by (simp add: read_or_invalid_def rb_read_def)

definition integer_code :: "u64 \<Rightarrow> bytes \<Rightarrow> bool" where
  "integer_code v bs \<longleftrightarrow> (\<exists>t p c. bs = t # p \<and> uint (t AND 7) = TYPE_NUMBER \<and> uint (drop_bit 3 t) = c \<and>
     c \<noteq> TYPE_NUMBER_REAL \<and> (\<forall>rest. get_integer (p @ rest) c = Inr (v, rest)))"

lemma integer_codeI:
  assumes "c \<in> {0, 1, 2, 4, 6}" "\<And>rest. get_integer (p @ rest) c = Inr (v, rest)"
  shows "integer_code v (COMBINE_TYPE TYPE_NUMBER c # p)"
  using assms combine_type [of TYPE_NUMBER c] by (auto simp: integer_code_def seri_types)

lemma uint_nonneg: "0 \<le> sint v \<Longrightarrow> uint v = sint v" for v :: "'a :: len word"
  using sint_lt [of v] by (simp add: uint_sint take_bit_int_eq_self order.strict_trans2 [OF _ power_increasing])

lemma small_word:
  assumes "0 \<le> sint v" "sint v < 2 ^ LENGTH('a)"
  shows "ucast (ucast v :: 'a :: len word) = (v :: u64)"
  using assms by (simp add: word_uint_eq_iff unsigned_ucast_eq unsigned_take_bit_eq uint_nonneg take_bit_int_eq_self)

lemmas number_types = TYPE_NUMBER_ZERO_def TYPE_NUMBER_BYTE_def TYPE_NUMBER_WORD_def TYPE_NUMBER_DWORD_def
  TYPE_NUMBER_QWORD_def

lemma wb_integer_code: "\<exists>bs. emits (wb_integer v) bs \<and> integer_code v bs"
proof -
  consider (zero) "v = 0" | (qword) "v \<noteq> 0" "v \<noteq> scast (ucast v :: u32)"
    | (neg) "v \<noteq> 0" "v = scast (ucast v :: u32)" "sint v < 0"
    | (byte) "v \<noteq> 0" "v = scast (ucast v :: u32)" "0 \<le> sint v" "sint v < 0x100"
    | (word) "v \<noteq> 0" "v = scast (ucast v :: u32)" "0 \<le> sint v" "\<not> sint v < 0x100" "sint v < 0x10000"
    | (dword) "v \<noteq> 0" "v = scast (ucast v :: u32)" "0 \<le> sint v" "\<not> sint v < 0x100" "\<not> sint v < 0x10000"
    by (meson not_le)
  then show ?thesis
  proof cases
    case zero
    have "integer_code v (COMBINE_TYPE TYPE_NUMBER 0 # [])"
      by (rule integer_codeI) (simp_all add: get_integer_def zero number_types)
    moreover have "emits (wb_integer v) [COMBINE_TYPE TYPE_NUMBER 0]"
      using emits_push by (simp add: emits_def wb_integer_def zero TYPE_NUMBER_ZERO_def)
    ultimately show ?thesis by blast
  next
    case qword
    have "integer_code v (COMBINE_TYPE TYPE_NUMBER 6 # le_bytes 8 v)"
      by (rule integer_codeI) (simp_all add: get_integer_def number_types)
    moreover have "emits (wb_integer v) ([COMBINE_TYPE TYPE_NUMBER 6] @ le_bytes 8 v)"
      using emits_push_push qword by (simp add: emits_def wb_integer_def TYPE_NUMBER_QWORD_def)
    ultimately show ?thesis by auto
  next
    case byte
    have "integer_code v (COMBINE_TYPE TYPE_NUMBER 1 # [ucast v])"
      by (rule integer_codeI) (use small_word [of v, where 'a = 8] byte in
        \<open>simp_all add: get_integer_def number_types read_or_invalid_def rb_read_def\<close>)
    moreover have "emits (wb_integer v) ([COMBINE_TYPE TYPE_NUMBER 1] @ [ucast v])"
      using emits_push_push byte by (auto simp: emits_def wb_integer_def TYPE_NUMBER_BYTE_def)
    ultimately show ?thesis by auto
  next
    case word
    have "integer_code v (COMBINE_TYPE TYPE_NUMBER 2 # le_bytes 2 (ucast v :: u16))"
      by (rule integer_codeI) (use small_word [of v, where 'a = 16] word in
        \<open>simp_all add: get_integer_def number_types\<close>)
    moreover have "emits (wb_integer v) ([COMBINE_TYPE TYPE_NUMBER 2] @ le_bytes 2 (ucast v :: u16))"
      using emits_push_push word by (auto simp: emits_def wb_integer_def TYPE_NUMBER_WORD_def)
    ultimately show ?thesis by auto
  qed (rule exI [of _ "COMBINE_TYPE TYPE_NUMBER 4 # le_bytes 4 (ucast v :: u32)"], rule conjI,
      use emits_push_push in \<open>auto simp: emits_def wb_integer_def TYPE_NUMBER_DWORD_def\<close>,
      (rule integer_codeI, simp_all add: get_integer_def number_types)[])+
qed

definition decodes :: "bytes \<Rightarrow> lua_value \<Rightarrow> bool" where
  "decodes bs v \<longleftrightarrow> bs \<noteq> [] \<and>
     (\<forall>depth rest. length bs \<le> depth \<longrightarrow> unpack_one depth (bs @ rest) = Some (Inr (v, rest)))"

lemma decodesI:
  assumes "uint (t AND 7) = type" "uint (drop_bit 3 t) = cookie"
    and "\<And>depth rest. length p \<le> depth \<Longrightarrow> push_value (unpack_one depth) (p @ rest) type cookie = Some (Inr (v, rest))"
  shows "decodes (t # p) v"
proof -
  have "unpack_one depth ((t # p) @ rest) = Some (Inr (v, rest))" if "length (t # p) \<le> depth" for depth rest
    using assms that by (cases depth) (simp_all add: rb_read_def)
  then show ?thesis by (simp add: decodes_def)
qed

lemma decodes_one: "decodes bs v \<Longrightarrow> length bs \<le> depth \<Longrightarrow> unpack_one depth (bs @ rest) = Some (Inr (v, rest))"
  by (simp add: decodes_def)

lemma decodes_nil: "decodes [0] LNil"
  by (rule decodesI [of 0 0 0]) (simp_all add: push_value_def TYPE_NIL_def)

lemma decodes_integer: "integer_code v bs \<Longrightarrow> decodes bs (LInteger v)"
  by (auto simp: integer_code_def intro!: decodesI) (simp add: push_value_def seri_types)

lemma decodes_bool: "decodes [COMBINE_TYPE TYPE_BOOLEAN (if b then 1 else 0)] (LBool b)"
  using combine_type [of TYPE_BOOLEAN "if b then 1 else 0"]
  by (intro decodesI [OF refl refl]) (simp add: push_value_def seri_types)

lemma decodes_real: "decodes (COMBINE_TYPE TYPE_NUMBER TYPE_NUMBER_REAL # le_bytes 8 v) (LReal v)"
  using combine_type [of TYPE_NUMBER TYPE_NUMBER_REAL]
  by (intro decodesI [OF refl refl]) (simp add: push_value_def seri_types get_real_def)

lemma decodes_pointer: "decodes (word_of_int TYPE_USERDATA # le_bytes 8 v) (LPointer v)"
  by (rule decodesI [OF refl refl]) (simp add: push_value_def seri_types get_pointer_def)

lemma decodes_short_string:
  assumes "length str < 32"
  shows "decodes (COMBINE_TYPE TYPE_SHORT_STRING (int (length str)) # str) (LString str)"
  using combine_type [of TYPE_SHORT_STRING "int (length str)"] assms
  by (intro decodesI [OF refl refl]) (simp add: push_value_def seri_types get_buffer_def)

lemma get_buffer_append: "get_buffer (str @ rest) (int (length str)) = Inr (LString str, rest)"
  by (simp add: get_buffer_def)

lemma decodes_long_string:
  assumes "c = 2 \<and> lb = le_bytes 2 w16 \<and> uint (w16 :: u16) = int (length str) \<or>
    c = 4 \<and> lb = le_bytes 4 w32 \<and> sint (w32 :: u32) = int (length str)"
  shows "decodes (COMBINE_TYPE TYPE_LONG_STRING c # lb @ str) (LString str)"
proof -
  have "long_string_length (lb @ rest) c = Inr (int (length str), rest)" for rest
    using assms by (auto simp: long_string_length_def)
  then have "push_value one (lb @ str @ rest) TYPE_LONG_STRING c = Some (Inr (LString str, rest))" for one rest
    by (simp add: push_value_def get_buffer_append) (simp add: seri_types)
  then show ?thesis using combine_type [of TYPE_LONG_STRING c] assms
    by (intro decodesI [of _ TYPE_LONG_STRING c]) (auto simp: TYPE_LONG_STRING_def)
qed

lemma wb_string_code:
  assumes "length str < 2 ^ 31"
  shows "\<exists>bs. emits (wb_string str) bs \<and> decodes bs (LString str)"
proof -
  have s32: "sint (word_of_int (int (length str)) :: u32) = int (length str)"
    using assms by (simp only: sint_sbintrunc') (simp add: signed_take_bit_int_eq_self)
  then have len: "sint (of_nat (length str) :: u32) = int (length str)" by (simp only: of_int_of_nat_eq)
  consider (short) "length str < 32" | (word) "\<not> length str < 32" "length str < 65536" | (dword) "\<not> length str < 65536"
    by linarith
  then show ?thesis
  proof cases
    case short
    then have "emits (wb_string str) ([COMBINE_TYPE TYPE_SHORT_STRING (int (length str))] @ str)"
      using emits_push_push emits_push by (auto simp: emits_def wb_string_def len MAX_COOKIE_def Let_def)
    then show ?thesis using decodes_short_string [OF short] by auto
  next
    case word
    let ?w = "word_of_int (int (length str)) :: u16"
    have "uint ?w = int (length str)" using word by (simp only: uint_word_of_int) simp
    note dec = decodes_long_string [OF disjI1, OF conjI [OF refl conjI [OF refl this]]]
    have "emits (wb_string str) ([COMBINE_TYPE TYPE_LONG_STRING 2] @ le_bytes 2 ?w @ str)"
      using emits_push3 word by (simp add: emits_def wb_string_def len MAX_COOKIE_def Let_def)
    then show ?thesis using dec by auto
  next
    case dword
    let ?w = "word_of_int (int (length str)) :: u32"
    note dec = decodes_long_string [OF disjI2, OF conjI [OF refl conjI [OF refl s32]]]
    have "emits (wb_string str) ([COMBINE_TYPE TYPE_LONG_STRING 4] @ le_bytes 4 ?w @ str)"
      using emits_push3 dword by (simp add: emits_def wb_string_def len MAX_COOKIE_def Let_def)
    then show ?thesis using dec by auto
  qed
qed

section \<open>Round trip\<close>

text \<open>The same value: tables have the same pairs, up to the order and up to the same values.\<close>

inductive same_value :: "lua_value \<Rightarrow> lua_value \<Rightarrow> bool" where
  same_atom: "\<not> is_table v \<Longrightarrow> same_value v v"
| same_table: "mset ps' = mset ps \<Longrightarrow>
    list_all2 (\<lambda>p q. same_value (fst p) (fst q) \<and> same_value (snd p) (snd q)) ps' qs \<Longrightarrow>
    same_value (LTable ps) (LTable qs)"
| same_proxy: "mset ps' = mset ps \<Longrightarrow>
    list_all2 (\<lambda>p q. same_value (fst p) (fst q) \<and> same_value (snd p) (snd q)) ps' qs \<Longrightarrow>
    same_value (LProxy ps) (LTable qs)"

inductive_cases same_atomE: "same_value v w"

abbreviation same_pair :: "lua_value \<times> lua_value \<Rightarrow> lua_value \<times> lua_value \<Rightarrow> bool" where
  "same_pair p q \<equiv> same_value (fst p) (fst q) \<and> same_value (snd p) (snd q)"

text \<open>The pairs of a table: proper keys, no nil values, and no key twice.\<close>

definition key_ok :: "lua_value \<Rightarrow> bool" where
  "key_ok k \<longleftrightarrow> k \<noteq> LNil \<and> lua_key k = k \<and> \<not> (\<exists>r. k = LReal r \<and> is_nan r)"

definition pairs_ok :: "lua_pairs \<Rightarrow> bool" where
  "pairs_ok ps \<longleftrightarrow> list_all (\<lambda>p. key_ok (fst p) \<and> snd p \<noteq> LNil) ps \<and>
     distinct (filter (\<lambda>k. \<not> is_table k) (map fst ps))"

fun storable :: "(lua_pairs \<Rightarrow> nat) \<Rightarrow> nat \<Rightarrow> lua_value \<Rightarrow> bool" where
  "storable rawlen d (LString str) \<longleftrightarrow> d \<le> MAX_DEPTH \<and> length str < 2 ^ 31"
| "storable rawlen d (LTable ps) \<longleftrightarrow> d \<le> MAX_DEPTH \<and> pairs_ok ps \<and> rawlen ps < 2 ^ 31 \<and> (ps = [] \<longrightarrow> rawlen ps = 0) \<and>
     list_all (\<lambda>p. storable rawlen (d + 1) (fst p) \<and> storable rawlen (d + 1) (snd p)) ps"
| "storable rawlen d (LProxy ps) \<longleftrightarrow> d \<le> MAX_DEPTH \<and> pairs_ok ps \<and>
     list_all (\<lambda>p. storable rawlen (d + 1) (fst p) \<and> storable rawlen (d + 1) (snd p)) ps"
| "storable rawlen d (LOther _) \<longleftrightarrow> False"
| "storable rawlen d _ \<longleftrightarrow> d \<le> MAX_DEPTH"

lemma same_valueD:
  assumes "same_value v w"
  shows "w = LNil \<longleftrightarrow> v = LNil" "is_table w \<longleftrightarrow> is_table v" "\<not> is_table v \<Longrightarrow> w = v"
  using assms by (cases; simp; fail)+

lemma decodes_length: "list_all2 decodes bss vs \<Longrightarrow> length vs \<le> length (concat bss)"
  by (induction rule: list_all2_induct) (auto simp: decodes_def Suc_le_eq neq_Nil_conv)

fun set_array :: "nat \<Rightarrow> lua_value list \<Rightarrow> lua_pairs \<Rightarrow> lua_pairs" where
  "set_array i [] ps = ps"
| "set_array i (v # vs) ps = set_array (Suc i) vs (set_pair (LInteger (of_nat i)) v ps)"

lemma rawset_integer: "lua_rawset (LInteger i) v ps = Inr (set_pair (LInteger i) v ps)"
  by (simp add: lua_rawset_def lua_key_def)

lemma unpack_array_decodes:
  assumes "list_all2 decodes bss vs" "length (concat bss) \<le> depth" "length vs < n"
  shows "unpack_array (unpack_one depth) n (int i) (int i + int (length vs) - 1) ps (concat bss @ rest) =
    Some (Inr (set_array i vs ps, rest))"
  using assms
proof (induction arbitrary: n i ps rule: list_all2_induct)
  case Nil
  then show ?case by (cases n) auto
next
  case (Cons bs bss v vs)
  obtain m where n: "n = Suc m" using Cons.prems by (cases n) auto
  have one: "unpack_one depth (bs @ concat bss @ rest) = Some (Inr (v, concat bss @ rest))"
    using decodes_one [OF Cons.hyps(1)] Cons.prems by simp
  have IH: "unpack_array (unpack_one depth) m (int (Suc i)) (int (Suc i) + int (length vs) - 1) ps' (concat bss @ rest) =
    Some (Inr (set_array (Suc i) vs ps', rest))" for ps'
    using Cons.IH [of m "Suc i" ps'] Cons.prems n by simp
  show ?case using IH by (simp add: n one rawset_integer add.commute)
qed

definition pair_bytes :: "(bytes \<times> bytes) list \<Rightarrow> bytes" where
  "pair_bytes bps = concat (map (\<lambda>(bk, bv). bk @ bv) bps)"

abbreviation decodes_pair :: "bytes \<times> bytes \<Rightarrow> lua_value \<times> lua_value \<Rightarrow> bool" where
  "decodes_pair b p \<equiv> decodes (fst b) (fst p) \<and> decodes (snd b) (snd p)"

definition set_pairs :: "lua_pairs \<Rightarrow> lua_pairs \<Rightarrow> lua_pairs" where
  "set_pairs kvs ps = fold (\<lambda>(k, v). set_pair (lua_key k) v) kvs ps"

lemma decodes_pairs_length: "list_all2 decodes_pair bps kvs \<Longrightarrow> length kvs \<le> length (pair_bytes bps)"
  by (induction rule: list_all2_induct) (auto simp: pair_bytes_def decodes_def Suc_le_eq neq_Nil_conv)

lemma unpack_pairs_decodes:
  assumes "list_all2 decodes_pair bps kvs" "length (pair_bytes bps) < depth" "length kvs < n"
    and "list_all (\<lambda>p. key_ok (fst p) \<or> is_table (fst p)) kvs"
  shows "unpack_pairs (unpack_one depth) n ps (pair_bytes bps @ 0 # rest) = Some (Inr (set_pairs kvs ps, rest))"
  using assms
proof (induction arbitrary: n ps rule: list_all2_induct)
  case Nil
  then obtain m where "n = Suc m" by (cases n) auto
  then show ?case using decodes_one [OF decodes_nil, of depth rest] Nil.prems
    by (simp add: pair_bytes_def set_pairs_def)
next
  case (Cons b bps p kvs)
  obtain m where n: "n = Suc m" using Cons.prems by (cases n) auto
  obtain bk bv k v where bp: "b = (bk, bv)" "p = (k, v)" by (cases b; cases p)
  have k: "unpack_one depth (bk @ bv @ pair_bytes bps @ 0 # rest) = Some (Inr (k, bv @ pair_bytes bps @ 0 # rest))"
    and v: "unpack_one depth (bv @ pair_bytes bps @ 0 # rest) = Some (Inr (v, pair_bytes bps @ 0 # rest))"
    using decodes_one [of bk k depth] decodes_one [of bv v depth] Cons.hyps(1) Cons.prems(1)
    by (simp_all add: bp pair_bytes_def)
  have set: "lua_rawset k v ps = Inr (set_pair (lua_key k) v ps)" and nn: "k \<noteq> LNil"
    using Cons.prems(3) by (auto simp: bp lua_rawset_def key_ok_def)
  have "unpack_pairs (unpack_one depth) m ps' (pair_bytes bps @ 0 # rest) = Some (Inr (set_pairs kvs ps', rest))" for ps'
    using Cons.IH [of m ps'] Cons.prems n by (simp add: pair_bytes_def)
  then show ?case using k v by (simp add: n bp pair_bytes_def set nn set_pairs_def)
qed

lemma set_pair_new:
  "is_table k \<or> k \<notin> fst ` set ps \<Longrightarrow> set_pair k v ps = ps @ (if v = LNil then [] else [(k, v)])"
  by (induction k v ps rule: set_pair.induct) (auto simp: same_key_def)

fun array_pairs :: "nat \<Rightarrow> lua_value list \<Rightarrow> lua_pairs" where
  "array_pairs i [] = []"
| "array_pairs i (v # vs) = (if v = LNil then [] else [(LInteger (of_nat i), v)]) @ array_pairs (Suc i) vs"

lemma array_pairs_append: "array_pairs i (vs @ ws) = array_pairs i vs @ array_pairs (i + length vs) ws"
  by (induction i vs rule: array_pairs.induct) auto

lemma array_pairs_keys: "p \<in> set (array_pairs i vs) \<Longrightarrow> \<exists>j. i \<le> j \<and> j < i + length vs \<and> fst p = LInteger (of_nat j)"
proof (induction i vs rule: array_pairs.induct)
  case (2 i v vs)
  then show ?case
  proof (cases "p \<in> set (array_pairs (Suc i) vs)")
    case True
    with 2 show ?thesis by (metis Suc_leD add_Suc_shift length_Cons)
  qed (auto split: if_splits intro: exI [of _ i])
qed simp

lemma of_nat_u64_eq: "i < 2 ^ 64 \<Longrightarrow> j < 2 ^ 64 \<Longrightarrow> (of_nat i :: u64) = of_nat j \<longleftrightarrow> i = j"
  by (simp add: word_of_nat_eq_iff take_bit_nat_eq_self)

lemma set_array_new:
  assumes "i + length vs < 2 ^ 64" "\<And>j. i \<le> j \<Longrightarrow> j < i + length vs \<Longrightarrow> LInteger (of_nat j) \<notin> fst ` set ps"
  shows "set_array i vs ps = ps @ array_pairs i vs"
  using assms
proof (induction i vs ps rule: set_array.induct)
  case (2 i v vs ps)
  let ?ps = "ps @ (if v = LNil then [] else [(LInteger (of_nat i), v)])"
  have "set_pair (LInteger (of_nat i)) v ps = ?ps"
    using "2.prems"(2) [of i] by (intro set_pair_new) simp
  moreover have "LInteger (of_nat j) \<notin> fst ` set ?ps" if "Suc i \<le> j" "j < Suc i + length vs" for j
  proof -
    have "(of_nat j :: u64) \<noteq> of_nat i" using that "2.prems"(1) of_nat_u64_eq [of j i] by simp
    then show ?thesis using "2.prems"(2) [of j] that by auto
  qed
  ultimately show ?case using "2.IH" "2.prems"(1) by simp
qed simp

lemma lua_key_table: "is_table k \<Longrightarrow> lua_key k = k"
  by (cases k) (simp_all add: lua_key_def)

lemma set_pairs_new:
  assumes "list_all (\<lambda>p. (is_table (fst p) \<or> lua_key (fst p) = fst p \<and> fst p \<notin> fst ` set ps) \<and> snd p \<noteq> LNil) kvs"
    and "distinct (filter (\<lambda>k. \<not> is_table k) (map fst kvs))"
  shows "set_pairs kvs ps = ps @ kvs"
  using assms
proof (induction kvs arbitrary: ps)
  case (Cons p kvs)
  obtain k v where p: "p = (k, v)" by (cases p)
  have key: "lua_key k = k" using Cons.prems(1) p lua_key_table [of k] by auto
  have set: "set_pair k v ps = ps @ [(k, v)]" using Cons.prems(1) set_pair_new [of k ps v] by (auto simp: p)
  have "fst q \<noteq> k" if "q \<in> set kvs" "\<not> is_table (fst q)" for q
    using Cons.prems(2) that by (auto simp: p)
  then have "list_all (\<lambda>p. (is_table (fst p) \<or> lua_key (fst p) = fst p \<and> fst p \<notin> fst ` set (ps @ [(k, v)])) \<and> snd p \<noteq> LNil) kvs"
    using Cons.prems(1) by (simp add: list_all_iff p) blast
  moreover have "distinct (filter (\<lambda>k. \<not> is_table k) (map fst kvs))" using Cons.prems(2) by (simp split: if_splits)
  ultimately have "set_pairs kvs (ps @ [(k, v)]) = (ps @ [(k, v)]) @ kvs" by (rule Cons.IH)
  then show ?case by (simp add: set_pairs_def p key set)
qed (simp add: set_pairs_def)

lemma lookup_key_mset:
  assumes "distinct (filter (\<lambda>k. \<not> is_table k) (map fst ps))" "list_all (\<lambda>p. snd p \<noteq> LNil) ps"
  shows "filter_mset (\<lambda>p. fst p = LInteger x) (mset ps) =
    (if lookup_key (LInteger x) ps = LNil then {#} else {#(LInteger x, lookup_key (LInteger x) ps)#})"
  using assms
proof (induction ps)
  case (Cons p ps)
  obtain k v where p: "p = (k, v)" by (cases p)
  show ?case
  proof (cases "k = LInteger x")
    case True
    then have "LInteger x \<notin> fst ` set ps" using Cons.prems by (auto simp: p image_iff)
    then have "filter_mset (\<lambda>p. fst p = LInteger x) (mset ps) = {#}"
      by (force simp: filter_empty_conv simp flip: mset_filter)
    then show ?thesis using Cons.prems True by (simp add: p)
  next
    case False
    then show ?thesis using Cons by (simp add: p split: if_splits)
  qed
qed simp

lemma in_array_Suc:
  assumes "Suc n < 2 ^ 31"
  shows "in_array (Suc n) k \<longleftrightarrow> in_array n k \<or> k = LInteger (of_nat (Suc n))"
    "\<not> (in_array n k \<and> k = LInteger (of_nat (Suc n)))"
proof -
  have "sint (word_of_int (int (Suc n)) :: u64) = int (Suc n)"
    using assms by (simp only: sint_sbintrunc') (rule signed_take_bit_int_eq_self, simp_all)
  then have s: "sint (of_nat (Suc n) :: u64) = int (Suc n)" by (simp only: of_int_of_nat_eq)
  have eq: "x = of_nat (Suc n) \<longleftrightarrow> sint x = int (Suc n)" for x :: u64
    using s by (metis signed_word_eqI)
  show "in_array (Suc n) k \<longleftrightarrow> in_array n k \<or> k = LInteger (of_nat (Suc n))"
    by (cases k) (auto simp: in_array_def eq simp del: of_nat_Suc)
  show "\<not> (in_array n k \<and> k = LInteger (of_nat (Suc n)))"
    using s by (auto simp: in_array_def simp del: of_nat_Suc)
qed

lemma array_pairs_mset:
  assumes ok: "pairs_ok ps" and "n < 2 ^ 31"
  shows "mset (array_pairs 1 (array_values n ps)) = filter_mset (\<lambda>p. in_array n (fst p)) (mset ps)"
  using assms(2)
proof (induction n)
  case 0
  have "\<not> in_array 0 k" for k by (auto simp: in_array_def split: lua_value.splits)
  then show ?case by (simp add: array_values_def)
next
  case (Suc n)
  let ?v = "lua_rawgeti ps (Suc n)"
  have "array_values (Suc n) ps = array_values n ps @ [?v]"
    by (simp add: array_values_def)
  moreover have "length (array_values n ps) = n" by (simp add: array_values_def)
  ultimately have "mset (array_pairs 1 (array_values (Suc n) ps)) = mset (array_pairs 1 (array_values n ps)) +
      (if ?v = LNil then {#} else {#(LInteger (of_nat (Suc n)), ?v)#})"
    by (simp add: array_pairs_append)
  also have "\<dots> = filter_mset (\<lambda>p. in_array n (fst p)) (mset ps) +
      filter_mset (\<lambda>p. fst p = LInteger (of_nat (Suc n))) (mset ps)"
    using lookup_key_mset [of ps "of_nat (Suc n)"] Suc ok
    by (simp add: lua_rawgeti_def pairs_ok_def list_all_iff del: of_nat_Suc)
  also have "\<dots> = filter_mset (\<lambda>p. in_array (Suc n) (fst p)) (mset ps)"
    using in_array_Suc [OF Suc.prems] by (intro multiset_eqI) auto
  finally show ?case .
qed

definition size_code :: "nat \<Rightarrow> bytes \<Rightarrow> bool" where
  "size_code n bs \<longleftrightarrow> (\<exists>t p. bs = t # p \<and> uint (t AND 7) = TYPE_TABLE \<and>
     (\<forall>rest. array_size_of (p @ rest) (uint (drop_bit 3 t)) = Inr (int n, rest)))"

lemma wb_array_size_code:
  assumes "n < 2 ^ 31"
  shows "\<exists>bs. emits (wb_array_size n) bs \<and> size_code n bs"
proof (cases "int n \<ge> MAX_COOKIE - 1")
  case False
  then have "size_code n [COMBINE_TYPE TYPE_TABLE (int n)]"
    using combine_type [of TYPE_TABLE "int n"] by (simp add: size_code_def array_size_of_def MAX_COOKIE_def TYPE_TABLE_def)
  moreover have "emits (wb_array_size n) [COMBINE_TYPE TYPE_TABLE (int n)]"
    using False emits_push by (simp add: emits_def wb_array_size_def)
  ultimately show ?thesis by blast
next
  case True
  obtain bs where bs: "emits (wb_integer (of_nat n)) bs" "integer_code (of_nat n) bs"
    using wb_integer_code by blast
  then obtain t p where tp: "bs = t # p" "uint (t AND 7) = TYPE_NUMBER" "uint (drop_bit 3 t) \<noteq> TYPE_NUMBER_REAL"
    "\<And>rest. get_integer (p @ rest) (uint (drop_bit 3 t)) = Inr (of_nat n, rest)"
    by (auto simp: integer_code_def)
  have "sint (word_of_int (int n) :: u32) = int n"
    using assms by (simp only: sint_sbintrunc') (rule signed_take_bit_int_eq_self, simp_all)
  moreover have "(ucast (word_of_int (int n) :: u64) :: u32) = word_of_int (int n)"
    by (rule bit_word_eqI) (simp add: bit_ucast_iff bit_word_of_int_iff del: of_int_of_nat_eq)
  ultimately have n: "sint (ucast (of_nat n :: u64) :: u32) = int n" by (simp only: of_int_of_nat_eq)
  have "size_code n (COMBINE_TYPE TYPE_TABLE 31 # bs)"
    using combine_type [of TYPE_TABLE 31] tp n
    by (simp add: size_code_def array_size_of_def MAX_COOKIE_def rb_read_def TYPE_TABLE_def)
  moreover have "emits (wb_array_size n) ([COMBINE_TYPE TYPE_TABLE 31] @ bs)"
    using True bs(1) by (simp add: emits_def wb_array_size_def wb_push_wf MAX_COOKIE_def)
  ultimately show ?thesis by auto
qed

lemma decodes_table:
  assumes "size_code (length vs) hdr" "list_all2 decodes bss vs" "list_all2 decodes_pair bps kvs"
    and "list_all (\<lambda>p. key_ok (fst p) \<or> is_table (fst p)) kvs"
  shows "decodes (hdr @ concat bss @ pair_bytes bps @ [0]) (LTable (set_pairs kvs (set_array 1 vs [])))"
proof -
  obtain t p where hd: "hdr = t # p" "uint (t AND 7) = TYPE_TABLE"
    "\<And>rest. array_size_of (p @ rest) (uint (drop_bit 3 t)) = Inr (int (length vs), rest)"
    using assms(1) by (auto simp: size_code_def)
  have "push_value (unpack_one depth) ((p @ concat bss @ pair_bytes bps @ [0]) @ rest) TYPE_TABLE (uint (drop_bit 3 t)) =
    Some (Inr (LTable (set_pairs kvs (set_array 1 vs [])), rest))"
    if d: "length (p @ concat bss @ pair_bytes bps @ [0]) \<le> depth" for depth rest
  proof -
    let ?rest = "pair_bytes bps @ 0 # rest"
    have "unpack_array (unpack_one depth) (Suc (length (concat bss @ ?rest))) 1 (int (length vs)) [] (concat bss @ ?rest) =
      Some (Inr (set_array 1 vs [], ?rest))"
      using unpack_array_decodes [OF assms(2), of depth "Suc (length (concat bss @ ?rest))" 1 "[]" ?rest]
        decodes_length [OF assms(2)] d by (simp del: unpack_array.simps)
    moreover have "unpack_pairs (unpack_one depth) (Suc (length ?rest)) ps ?rest = Some (Inr (set_pairs kvs ps, rest))" for ps
      using unpack_pairs_decodes [OF assms(3) _ _ assms(4), of depth "Suc (length ?rest)" ps rest]
        decodes_pairs_length [OF assms(3)] d by (simp del: unpack_pairs.simps)
    ultimately have "unpack_table (unpack_one depth) (p @ concat bss @ ?rest) (uint (drop_bit 3 t)) =
      Some (Inr (LTable (set_pairs kvs (set_array 1 vs [])), rest))"
      by (simp add: unpack_table_def hd(3) del: unpack_array.simps unpack_pairs.simps)
    then show ?thesis by (simp add: push_value_def seri_types)
  qed
  then show ?thesis using hd by (auto intro!: decodesI)
qed

lemma list_all2_array_pairs:
  "list_all2 same_value vs ws \<Longrightarrow> list_all2 same_pair (array_pairs i vs) (array_pairs i ws)"
proof (induction arbitrary: i rule: list_all2_induct)
  case (Cons v vs w ws)
  have "same_value (LInteger (of_nat i)) (LInteger (of_nat i))" by (rule same_atom) simp
  then show ?case using Cons same_valueD(1) [OF Cons.hyps(1)] by simp
qed simp

text \<open>The table that is built from values that are the same, one by one, is the same table.\<close>

lemma same_pairs_keys:
  "list_all2 same_pair ps qs \<Longrightarrow> filter (\<lambda>k. \<not> is_table k) (map fst qs) = filter (\<lambda>k. \<not> is_table k) (map fst ps)"
  by (induction rule: list_all2_induct) (auto simp: same_valueD)

lemma list_all2_right: "list_all2 P ps qs \<Longrightarrow> q \<in> set qs \<Longrightarrow> \<exists>p\<in>set ps. P p q"
  by (induction rule: list_all2_induct) auto

lemma in_array_of_nat: "1 \<le> j \<Longrightarrow> j \<le> n \<Longrightarrow> n < 2 ^ 31 \<Longrightarrow> in_array n (LInteger (of_nat j))"
proof (induction n)
  case (Suc n)
  then show ?case using in_array_Suc(1) [of n "LInteger (of_nat j)"] by (cases "j = Suc n") auto
qed simp

lemma hash_pairs_ok:
  assumes "pairs_ok ps"
  shows "p \<in> set (hash_pairs n ps) \<Longrightarrow> key_ok (fst p) \<and> snd p \<noteq> LNil \<and> \<not> in_array n (fst p)"
    "distinct (filter (\<lambda>k. \<not> is_table k) (map fst (hash_pairs n ps)))"
proof -
  show "p \<in> set (hash_pairs n ps) \<Longrightarrow> key_ok (fst p) \<and> snd p \<noteq> LNil \<and> \<not> in_array n (fst p)"
    using assms by (auto simp: pairs_ok_def hash_pairs_def list_all_iff)
  have "filter (\<lambda>k. \<not> is_table k) (map fst (hash_pairs n ps)) =
    filter (\<lambda>k. \<not> in_array n k) (filter (\<lambda>k. \<not> is_table k) (map fst ps))"
    by (simp add: hash_pairs_def filter_map comp_def case_prod_beta) (metis (no_types))
  then show "distinct (filter (\<lambda>k. \<not> is_table k) (map fst (hash_pairs n ps)))"
    using assms by (simp only: pairs_ok_def distinct_filter)
qed

text \<open>The table that is built from values that are the same, one by one, is the same table.\<close>

lemma rebuilt_table:
  assumes ok: "pairs_ok ps" and n: "n < 2 ^ 31"
    and vs: "list_all2 same_value (array_values n ps) vs" and kvs: "list_all2 same_pair (hash_pairs n ps) kvs"
  shows "\<exists>ps'. mset ps' = mset ps \<and> list_all2 same_pair ps' (set_pairs kvs (set_array 1 vs []))"
    "list_all (\<lambda>p. key_ok (fst p) \<or> is_table (fst p)) kvs"
proof -
  have len: "length vs = n" using list_all2_lengthD [OF vs] by (simp add: array_values_def del: upt_Suc)
  then have arr: "set_array 1 vs [] = array_pairs 1 vs" using set_array_new [of 1 vs "[]"] n by simp
  have each: "is_table (fst q) \<or> key_ok (fst q) \<and> \<not> in_array n (fst q)" "snd q \<noteq> LNil" if q: "q \<in> set kvs" for q
  proof -
    obtain p where p: "p \<in> set (hash_pairs n ps)" "same_pair p q" using list_all2_right [OF kvs q] by blast
    note hash_pairs_ok(1) [OF ok p(1)]
    then show "is_table (fst q) \<or> key_ok (fst q) \<and> \<not> in_array n (fst q)" "snd q \<noteq> LNil"
      using same_valueD [of "fst p" "fst q"] same_valueD(1) [of "snd p" "snd q"] p(2) by auto
  qed
  then show "list_all (\<lambda>p. key_ok (fst p) \<or> is_table (fst p)) kvs" by (auto simp: list_all_iff)
  have fresh: "k \<notin> fst ` set (array_pairs 1 vs)" if "\<not> in_array n k" for k
  proof
    assume "k \<in> fst ` set (array_pairs 1 vs)"
    then obtain j where "1 \<le> j" "j < 1 + length vs" "k = LInteger (of_nat j)" using array_pairs_keys by blast
    then show False using that in_array_of_nat [of j n] n len by simp
  qed
  then have "list_all (\<lambda>p. (is_table (fst p) \<or> lua_key (fst p) = fst p \<and> fst p \<notin> fst ` set (array_pairs 1 vs)) \<and> snd p \<noteq> LNil) kvs"
    unfolding list_all_iff using each fresh by (metis key_ok_def)
  then have "set_pairs kvs (array_pairs 1 vs) = array_pairs 1 vs @ kvs"
    by (rule set_pairs_new) (simp only: same_pairs_keys [OF kvs] hash_pairs_ok(2) [OF ok])
  moreover have "mset (array_pairs 1 (array_values n ps) @ hash_pairs n ps) = mset ps"
    using array_pairs_mset [OF ok n] multiset_partition [of "mset ps" "\<lambda>p. in_array n (fst p)"]
    by (simp add: hash_pairs_def case_prod_beta)
  moreover note list_all2_appendI [OF list_all2_array_pairs [OF vs, of 1] kvs]
  ultimately show "\<exists>ps'. mset ps' = mset ps \<and> list_all2 same_pair ps' (set_pairs kvs (set_array 1 vs []))"
    by (intro exI conjI) (assumption, simp only: arr)
qed

text \<open>What a run of the packer appends, and what the reader makes of it.\<close>

definition packed :: "write_block \<Rightarrow> write_block \<Rightarrow> bytes \<Rightarrow> bool" where
  "packed wb wb' bs \<longleftrightarrow> wb_wf wb' \<and> wb_bytes wb' = wb_bytes wb @ bs"

lemma packed_emits: "wb_wf wb \<Longrightarrow> emits f bs \<Longrightarrow> packed wb (f wb) bs"
  by (simp add: packed_def emits_def)

lemma packed_trans: "packed wb wb1 bs \<Longrightarrow> packed wb1 wb2 bs' \<Longrightarrow> packed wb wb2 (bs @ bs')"
  by (simp add: packed_def)

lemma packed_wf: "packed wb wb' bs \<Longrightarrow> wb_wf wb'"
  by (simp add: packed_def)

lemma storable_depth: "storable rawlen d v \<Longrightarrow> d \<le> MAX_DEPTH"
  by (cases v) auto

lemma storable_pairs:
  assumes "list_all (\<lambda>p. storable rawlen d (fst p) \<and> storable rawlen d (snd p)) ps" "ps = [] \<longrightarrow> n = 0"
  shows "list_all (storable rawlen d) (array_values n ps)"
    "list_all (\<lambda>p. storable rawlen d (fst p) \<and> storable rawlen d (snd p)) (hash_pairs n ps)"
proof -
  have "storable rawlen d (lookup_key k ps)" if "d \<le> MAX_DEPTH" for k using assms(1) that by (induction ps) auto
  moreover have "ps \<noteq> [] \<Longrightarrow> d \<le> MAX_DEPTH" using assms(1) storable_depth by (cases ps) auto
  ultimately show "list_all (storable rawlen d) (array_values n ps)"
    using assms(2) by (cases "ps = []") (simp_all add: array_values_def lua_rawgeti_def list_all_iff)
  show "list_all (\<lambda>p. storable rawlen d (fst p) \<and> storable rawlen d (snd p)) (hash_pairs n ps)"
    using assms(1) by (auto simp: hash_pairs_def list_all_iff)
qed

definition one_ok :: "lua_value \<Rightarrow> write_block \<Rightarrow> write_block \<Rightarrow> bool" where
  "one_ok v wb wb' \<longleftrightarrow> (\<exists>bs w. packed wb wb' bs \<and> decodes bs w \<and> same_value v w)"

definition values_ok :: "lua_value list \<Rightarrow> write_block \<Rightarrow> write_block \<Rightarrow> bool" where
  "values_ok vs wb wb' \<longleftrightarrow> (\<exists>bss ws. packed wb wb' (concat bss) \<and> list_all2 decodes bss ws \<and> list_all2 same_value vs ws)"

definition pairs_packed :: "lua_pairs \<Rightarrow> write_block \<Rightarrow> write_block \<Rightarrow> bool" where
  "pairs_packed ps wb wb' \<longleftrightarrow>
     (\<exists>bps qs. packed wb wb' (pair_bytes bps @ [0]) \<and> list_all2 decodes_pair bps qs \<and> list_all2 same_pair ps qs)"

lemma one_okI: "wb_wf wb \<Longrightarrow> emits f bs \<Longrightarrow> decodes bs v \<Longrightarrow> \<not> is_table v \<Longrightarrow> one_ok v wb (f wb)"
  unfolding one_ok_def using packed_emits same_atom by blast

lemma emits_nil: "emits wb_nil [0]"
  using emits_push [of "[0]"] by (simp add: wb_nil_def TYPE_NIL_def)

lemma pack_atoms:
  assumes "wb_wf wb"
  shows "one_ok LNil wb (wb_nil wb)" "one_ok (LInteger x) wb (wb_integer x wb)" "one_ok (LReal r) wb (wb_real r wb)"
    "one_ok (LBool b) wb (wb_boolean b wb)" "one_ok (LPointer u) wb (wb_pointer u wb)"
    "length str < 2 ^ 31 \<Longrightarrow> one_ok (LString str) wb (wb_string str wb)"
proof -
  show "one_ok LNil wb (wb_nil wb)" by (rule one_okI [OF assms emits_nil decodes_nil]) simp
  show "one_ok (LInteger x) wb (wb_integer x wb)"
    using wb_integer_code [of x] decodes_integer one_okI [OF assms] by fastforce
  have "emits (wb_real r) ([COMBINE_TYPE TYPE_NUMBER TYPE_NUMBER_REAL] @ le_bytes 8 r)"
    using emits_push_push by (simp add: emits_def wb_real_def)
  then show "one_ok (LReal r) wb (wb_real r wb)" using one_okI [OF assms _ decodes_real] by simp
  have "emits (wb_boolean b) [COMBINE_TYPE TYPE_BOOLEAN (if b then 1 else 0)]"
    using emits_push by (simp add: emits_def wb_boolean_def)
  then show "one_ok (LBool b) wb (wb_boolean b wb)" using one_okI [OF assms _ decodes_bool] by simp
  have "emits (wb_pointer u) ([word_of_int TYPE_USERDATA] @ le_bytes 8 u)"
    using emits_push_push by (simp add: emits_def wb_pointer_def)
  then show "one_ok (LPointer u) wb (wb_pointer u wb)" using one_okI [OF assms _ decodes_pointer] by simp
  show "length str < 2 ^ 31 \<Longrightarrow> one_ok (LString str) wb (wb_string str wb)"
    using wb_string_code [of str] one_okI [OF assms] by fastforce
qed

text \<open>A table: the size, the array part, the other pairs and the terminating nil.\<close>

lemma pack_table_ok:
  assumes ok: "pairs_ok ps" and n: "n < 2 ^ 31" and size: "size_code n hdr" and head: "packed wb wb1 hdr"
    and vs: "values_ok (array_values n ps) wb1 wb2" and kvs: "pairs_packed (hash_pairs n ps) wb2 wb3"
  shows "\<exists>bs qs ps'. packed wb wb3 bs \<and> decodes bs (LTable qs) \<and> mset ps' = mset ps \<and> list_all2 same_pair ps' qs"
proof -
  obtain bss ws where v: "packed wb1 wb2 (concat bss)" "list_all2 decodes bss ws" "list_all2 same_value (array_values n ps) ws"
    using vs by (auto simp: values_ok_def)
  obtain bps qs where p: "packed wb2 wb3 (pair_bytes bps @ [0])" "list_all2 decodes_pair bps qs"
    "list_all2 same_pair (hash_pairs n ps) qs"
    using kvs by (auto simp: pairs_packed_def)
  have "length ws = n" using list_all2_lengthD [OF v(3)] by (simp add: array_values_def del: upt_Suc)
  then have "decodes (hdr @ concat bss @ pair_bytes bps @ [0]) (LTable (set_pairs qs (set_array 1 ws [])))"
    using size v(2) p(2) rebuilt_table(2) [OF ok n v(3) p(3)] by (intro decodes_table) simp_all
  moreover have "packed wb wb3 (hdr @ concat bss @ pair_bytes bps @ [0])"
    using packed_trans [OF packed_trans [OF head v(1)] p(1)] by simp
  ultimately show ?thesis using rebuilt_table(1) [OF ok n v(3) p(3)] by blast
qed

lemma packed_refl: "wb_wf wb \<Longrightarrow> packed wb wb []"
  by (simp add: packed_def)

lemma values_ok_Nil: "wb_wf wb \<Longrightarrow> values_ok [] wb wb"
  unfolding values_ok_def by (intro exI [of _ "[]"]) (simp add: packed_refl)

lemma pairs_packed_Nil: "wb_wf wb \<Longrightarrow> pairs_packed [] wb (wb_nil wb)"
  unfolding pairs_packed_def using packed_emits [OF _ emits_nil]
  by (intro exI [of _ "[]"]) (simp add: pair_bytes_def)

lemma values_ok_Cons: "one_ok v wb wb1 \<Longrightarrow> values_ok vs wb1 wb2 \<Longrightarrow> values_ok (v # vs) wb wb2"
  unfolding one_ok_def values_ok_def
proof (elim exE conjE)
  fix bs w bss ws
  assume "packed wb wb1 bs" "decodes bs w" "same_value v w" "packed wb1 wb2 (concat bss)"
    "list_all2 decodes bss ws" "list_all2 same_value vs ws"
  then show "\<exists>bss ws. packed wb wb2 (concat bss) \<and> list_all2 decodes bss ws \<and> list_all2 same_value (v # vs) ws"
    by (intro exI [of _ "bs # bss"] exI [of _ "w # ws"]) (simp add: packed_trans)
qed

lemma pairs_packed_Cons:
  "one_ok k wb wb1 \<Longrightarrow> one_ok v wb1 wb2 \<Longrightarrow> pairs_packed ps wb2 wb3 \<Longrightarrow> pairs_packed ((k, v) # ps) wb wb3"
  unfolding one_ok_def pairs_packed_def
proof (elim exE conjE)
  fix bk k' bv v' bps qs
  assume p: "packed wb wb1 bk" "packed wb1 wb2 bv" "packed wb2 wb3 (pair_bytes bps @ [0])"
    and "decodes bk k'" "same_value k k'" "decodes bv v'" "same_value v v'"
    "list_all2 decodes_pair bps qs" "list_all2 same_pair ps qs"
  moreover have "packed wb wb3 (pair_bytes ((bk, bv) # bps) @ [0])"
    using packed_trans [OF packed_trans [OF p(1,2)] p(3)] by (simp add: pair_bytes_def)
  ultimately show "\<exists>bps qs. packed wb wb3 (pair_bytes bps @ [0]) \<and> list_all2 decodes_pair bps qs \<and>
      list_all2 same_pair ((k, v) # ps) qs"
    by (intro exI [of _ "(bk, bv) # bps"] exI [of _ "(k', v') # qs"]) simp
qed

lemma one_ok_wf: "one_ok v wb wb' \<Longrightarrow> wb_wf wb'" and values_ok_wf: "values_ok vs wb wb' \<Longrightarrow> wb_wf wb'"
  by (auto simp: one_ok_def values_ok_def packed_def)

lemma pack_returns:
  "storable rawlen d v \<Longrightarrow> wb_wf wb \<Longrightarrow> \<exists>wb'. pack_one rawlen v d wb = Inr wb' \<and> one_ok v wb wb'"
  "list_all (storable rawlen d) vs \<Longrightarrow> wb_wf wb \<Longrightarrow> \<exists>wb'. pack_values rawlen vs d wb = Inr wb' \<and> values_ok vs wb wb'"
  "list_all (\<lambda>p. storable rawlen d (fst p) \<and> storable rawlen d (snd p)) ps \<Longrightarrow> wb_wf wb \<Longrightarrow>
     \<exists>wb'. pack_pairs rawlen ps d wb = Inr wb' \<and> pairs_packed ps wb wb'"
proof (induction rawlen v d wb and rawlen vs d wb and rawlen ps d wb rule: pack_one_pack_values_pack_pairs.induct)
  case (1 rawlen v d wb)
  have d: "\<not> d > MAX_DEPTH" using storable_depth [OF "1.prems"(1)] by simp
  note def = pack_one.simps [of rawlen v d wb]
  note wf = "1.prems"(2)
  consider (table) ps where "v = LTable ps" | (proxy) ps where "v = LProxy ps" | (string) str where "v = LString str"
    | (atom) "\<not> is_table v" "\<forall>str. v \<noteq> LString str"
    by (cases v) auto
  then show ?case
  proof cases
    case (table ps)
    let ?n = "rawlen ps"
    have ok: "pairs_ok ps" "?n < 2 ^ 31" and st: "list_all (\<lambda>p. storable rawlen (d + 1) (fst p) \<and> storable rawlen (d + 1) (snd p)) ps"
      "ps = [] \<longrightarrow> ?n = 0"
      using "1.prems"(1) by (simp_all add: table)
    obtain hdr where hdr: "emits (wb_array_size ?n) hdr" "size_code ?n hdr" using wb_array_size_code [OF ok(2)] by blast
    note head = packed_emits [OF wf hdr(1)]
    from "1.IH"(1) [OF d table storable_pairs(1) [OF st] packed_wf [OF head]]
    obtain wb1 where v: "pack_values rawlen (array_values ?n ps) (d + 1) (wb_array_size ?n wb) = Inr wb1"
      "values_ok (array_values ?n ps) (wb_array_size ?n wb) wb1" by blast
    from "1.IH"(2) [OF d table v(1) storable_pairs(2) [OF st] values_ok_wf [OF v(2)]]
    obtain wb2 where p: "pack_pairs rawlen (hash_pairs ?n ps) (d + 1) wb1 = Inr wb2"
      "pairs_packed (hash_pairs ?n ps) wb1 wb2" by blast
    have "one_ok v wb wb2"
      using pack_table_ok [OF ok hdr(2) head v(2) p(2)] same_table unfolding one_ok_def table by blast
    then show ?thesis using d v(1) p(1) by (simp add: def table)
  next
    case (proxy ps)
    have ok: "pairs_ok ps" and st: "list_all (\<lambda>p. storable rawlen (d + 1) (fst p) \<and> storable rawlen (d + 1) (snd p)) ps"
      using "1.prems"(1) by (simp_all add: proxy)
    let ?wb = "wb_push [COMBINE_TYPE TYPE_TABLE 0] wb"
    have all: "hash_pairs 0 ps = ps" "array_values 0 ps = []"
      by (auto simp: hash_pairs_def array_values_def in_array_def filter_id_conv split: lua_value.splits)
    have hdr: "size_code 0 [COMBINE_TYPE TYPE_TABLE 0]"
      using combine_type [of TYPE_TABLE 0] by (simp add: size_code_def array_size_of_def MAX_COOKIE_def TYPE_TABLE_def)
    note head = packed_emits [OF wf emits_push]
    from "1.IH"(3) [OF d proxy st packed_wf [OF head]]
    obtain wb2 where p: "pack_pairs rawlen ps (d + 1) ?wb = Inr wb2" "pairs_packed ps ?wb wb2" by blast
    have "one_ok v wb wb2"
      using pack_table_ok [OF ok _ hdr head, of ?wb wb2] values_ok_Nil [OF packed_wf [OF head]] p(2) all same_proxy
      unfolding one_ok_def proxy by fastforce
    then show ?thesis using d p(1) by (simp add: def proxy)
  next
    case (string str)
    then show ?thesis using pack_atoms(6) [OF wf, of str] d "1.prems"(1) by (simp add: def)
  next
    case atom
    then show ?thesis using pack_atoms [OF wf] d "1.prems"(1) by (cases v) (simp_all add: def)
  qed
next
  case (2 rawlen d wb)
  then show ?case by (simp add: values_ok_Nil)
next
  case (3 rawlen v vs d wb)
  then obtain wb1 where "pack_one rawlen v d wb = Inr wb1" "one_ok v wb wb1" by auto
  then show ?case using "3.IH"(2) [of wb1] "3.prems" values_ok_Cons one_ok_wf by fastforce
next
  case (4 rawlen d wb)
  then show ?case by (simp add: pairs_packed_Nil)
next
  case (5 rawlen k v ps d wb)
  then obtain wb1 where k: "pack_one rawlen k d wb = Inr wb1" "one_ok k wb wb1" by auto
  then obtain wb2 where v: "pack_one rawlen v d wb1 = Inr wb2" "one_ok v wb1 wb2"
    using "5.IH"(2) [of wb1] "5.prems" one_ok_wf by auto
  then show ?case using "5.IH"(3) [of wb1 wb2] "5.prems" k pairs_packed_Cons one_ok_wf by fastforce
qed

lemma unpack_all_step:
  "unpack_all (unpack_one depth) (Suc n) (b # rb) =
     try_lua (unpack_one (Suc depth) (b # rb)) (\<lambda>(v, rb).
     try_lua (unpack_all (unpack_one depth) n rb) (\<lambda>vs. Some (Inr (v # vs))))"
  by (simp add: rb_read_def)

lemma unpack_all_decodes:
  "list_all2 decodes bss ws \<Longrightarrow> length (concat bss) \<le> depth \<Longrightarrow> length ws < n \<Longrightarrow>
     unpack_all (unpack_one depth) n (concat bss) = Some (Inr ws)"
proof (induction arbitrary: n rule: list_all2_induct)
  case Nil
  then show ?case by (cases n) (simp_all add: rb_read_def)
next
  case (Cons bs bss w ws)
  obtain m where n: "n = Suc m" using Cons.prems by (cases n) auto
  obtain b bs' where bs: "bs = b # bs'" using Cons.hyps(1) by (cases bs) (auto simp: decodes_def)
  have "unpack_one (Suc depth) (bs @ concat bss) = Some (Inr (w, concat bss))"
    by (rule decodes_one [OF Cons.hyps(1)]) (use Cons.prems in simp)
  then have "unpack_one (Suc depth) (b # (bs' @ concat bss)) = Some (Inr (w, concat bss))" by (simp only: bs append_Cons)
  then have "unpack_all (unpack_one depth) n (b # (bs' @ concat bss)) =
    try_lua (unpack_all (unpack_one depth) m (concat bss)) (\<lambda>vs. Some (Inr (w # vs)))"
    by (simp only: n unpack_all_step try_lua_simps case_prod_conv)
  then show ?case using Cons.IH [of m] Cons.prems n by (simp add: bs)
qed

section \<open>Properties\<close>

text \<open>C26.  Round trip.  Any arguments that consist of nil, booleans, integers, doubles, strings below
  2 ^ 31 bytes, pointers and tables of these nested at most 32 deep are packed, whatever border the
  Lua implementation reports for a table, and unpacking the bytes yields the same values: equal
  ones, and for tables (with or without a \<open>__pairs\<close> metamethod) tables of the same pairs.\<close>

theorem seri_roundtrip:
  assumes "list_all (storable rawlen 0) vs"
  shows "\<exists>bs ws. luaseri_pack rawlen vs = Inr (Some bs) \<and> luaseri_unpack (Arg_Buffer bs) = Some (Inr ws) \<and>
    list_all2 same_value vs ws"
proof -
  obtain wb bss ws where p: "pack_values rawlen vs 0 wb_init = Inr wb" "packed wb_init wb (concat bss)"
    "list_all2 decodes bss ws" "list_all2 same_value vs ws"
    using pack_returns(2) [OF assms wb_init_wf(1)] by (auto simp: values_ok_def)
  have wf: "wb_wf wb" and bytes: "concat (wb_blocks wb) = concat bss"
    using p(2) by (simp_all add: packed_def wb_init_wf(2)) (simp add: wb_bytes_def)
  then have "seri_copy (wb_blocks wb) (wb_len wb) = Some (concat bss)"
    using seri_copy_blocks [of "wb_blocks wb"] by (auto simp: wb_wf_def wb_bytes_def)
  moreover have "luaseri_unpack (Arg_Buffer (concat bss)) = Some (Inr ws)"
  proof (cases "concat bss = []")
    case True
    then have "ws = []" using decodes_length [OF p(3)] by (simp del: concat_eq_Nil_conv)
    then show ?thesis using True by (simp add: luaseri_unpack_def del: concat_eq_Nil_conv)
  next
    case False
    have "unpack_all (unpack_one (length (concat bss))) (Suc (length (concat bss))) (concat bss) = Some (Inr ws)"
      using unpack_all_decodes [OF p(3) order_refl] decodes_length [OF p(3)] by (simp del: unpack_all.simps)
    then show ?thesis using False by (simp only: luaseri_unpack_def unpack_buffer_def unpack_arg.case if_False)
  qed
  ultimately show ?thesis using p(1,4) by (auto simp: luaseri_pack_def)
qed

theorem seri_roundtrip_witness:
  "\<exists>bs ws. luaseri_pack (\<lambda>ps. if length ps = 2 then 1 else 0)
      [LInteger (- 5), LTable [(LInteger 1, LBool True), (LString [120], LTable [])]] = Inr (Some bs) \<and>
    luaseri_unpack (Arg_Buffer bs) = Some (Inr ws) \<and>
    list_all2 same_value [LInteger (- 5), LTable [(LInteger 1, LBool True), (LString [120], LTable [])]] ws"
  by (rule seri_roundtrip) (simp add: pairs_ok_def key_ok_def lua_key_def MAX_DEPTH_def)

text \<open>Unpacking any buffer ends: it returns values or raises an error, however long the declared
  lengths and however deep the declared nesting are.\<close>

theorem unpack_terminates: "\<exists>r. luaseri_unpack arg = Some r"
  using unpack_returns [of arg] by blast

end
