(* ===== verification/Scheduler.thy ===== *)
theory Scheduler
  imports GlobalQueue Locks "HOL-Library.Multiset"
begin

text \<open>
  The workers, the mailboxes and the reference counts of the contexts together: what
  \<open>skynet_context_message_dispatch\<close>, \<open>skynet_context_new\<close>, \<open>skynet_context_push\<close>,
  \<open>skynet_context_release\<close> and \<open>skynet_handle_retire\<close> do to them, interleaved by any number of
  threads.  One step is one call that holds a spin lock of \<open>skynet_mq.c\<close> or one atomic
  operation on a reference count.

  A context and its mailbox are identified by the address of the mailbox.  \<open>sc_reg\<close> are the
  contexts in the handle table (each holds one reference), \<open>sc_ext\<close> the references held by
  threads other than the workers' own (a callback or \<open>drop_message\<close> that sends holds one while it pushes) and
  \<open>sc_unpub\<close> the mailboxes of \<open>skynet_context_new\<close> calls that have not pushed them to the run
  queue yet.
\<close>

section \<open>State\<close>

text \<open>Where a worker stands in \<open>skynet_context_message_dispatch\<close>; \<open>i\<close> and \<open>n\<close> are those of the loop.\<close>

datatype worker_pc =
    W_Idle                                  \<comment> \<open>\<open>q\<close> is NULL: before \<open>skynet_globalmq_pop\<close>\<close>
  | W_Have addr                             \<comment> \<open>before \<open>skynet_handle_grab\<close>\<close>
  | W_Loop addr int int                     \<comment> \<open>the head of the loop\<close>
  | W_Length addr int int skynet_message    \<comment> \<open>before \<open>skynet_mq_length\<close>\<close>
  | W_Overload addr int int skynet_message  \<comment> \<open>before \<open>skynet_mq_overload\<close>\<close>
  | W_Call addr int int skynet_message      \<comment> \<open>in the callback\<close>
  | W_Back addr addr                        \<comment> \<open>before \<open>skynet_globalmq_push(q)\<close> with the next mailbox\<close>
  | W_Release addr "addr option"            \<comment> \<open>before \<open>skynet_context_release\<close>, and what is returned\<close>
  | W_Drop addr                             \<comment> \<open>before \<open>skynet_mq_release\<close>\<close>
  | W_Dropping addr                         \<comment> \<open>in \<open>_drop_queue\<close>\<close>
  | W_Free addr                             \<comment> \<open>before \<open>_release\<close> frees the mailbox\<close>

record sched =
  sc_mq :: mq_state
  sc_ref :: "addr \<Rightarrow> int"
  sc_reg :: "addr set"
  sc_ext :: "addr multiset"
  sc_unpub :: "addr multiset"
  sc_pcs :: "nat \<Rightarrow> worker_pc"

definition sched_init :: "sched \<Rightarrow> bool" where
  "sched_init s \<longleftrightarrow> sc_mq s = skynet_mq_init \<and> sc_reg s = {} \<and> sc_ext s = {#} \<and> sc_unpub s = {#} \<and>
     sc_pcs s = (\<lambda>_. W_Idle)"

definition goto :: "nat \<Rightarrow> worker_pc \<Rightarrow> sched \<Rightarrow> sched" where
  "goto w pc s = s\<lparr>sc_pcs := (sc_pcs s)(w := pc)\<rparr>"

section \<open>Operations\<close>

definition context_grab :: "addr \<Rightarrow> sched \<Rightarrow> sched" where
  "context_grab p s = s\<lparr>sc_ref := (sc_ref s)(p := sc_ref s p + 1)\<rparr>"

text \<open>\<open>delete_context\<close> marks the mailbox for release.\<close>

definition context_release :: "addr \<Rightarrow> sched \<Rightarrow> sched option" where
  "context_release p s =
     (let s' = s\<lparr>sc_ref := (sc_ref s)(p := sc_ref s p - 1)\<rparr> in
      if sc_ref s' p = 0
      then map_option (\<lambda>mq. s'\<lparr>sc_mq := mq\<rparr>) (skynet_mq_mark_release p (sc_mq s'))
      else Some s')"

definition return_queue :: "addr option \<Rightarrow> worker_pc" where
  "return_queue r = (case r of None \<Rightarrow> W_Idle | Some p \<Rightarrow> W_Have p)"

text \<open>A step of worker \<open>w\<close> in \<open>skynet_context_message_dispatch(sm, q, weight)\<close>.\<close>

definition dispatch_step :: "int \<Rightarrow> nat \<Rightarrow> sched \<Rightarrow> sched option" where
  "dispatch_step weight w s =
     (case sc_pcs s w of
        W_Idle \<Rightarrow> do {
          (r, mq) \<leftarrow> skynet_globalmq_pop (sc_mq s);
          Some (goto w (return_queue r) (s\<lparr>sc_mq := mq\<rparr>))
        }
      | W_Have p \<Rightarrow>
          Some (if p \<in> sc_reg s then goto w (W_Loop p 0 1) (context_grab p s) else goto w (W_Drop p) s)
      | W_Loop p i n \<Rightarrow>
          if i < n then do {
            (r, mq) \<leftarrow> skynet_mq_pop p (sc_mq s);
            Some (goto w (case r of
                None \<Rightarrow> W_Release p None
              | Some m \<Rightarrow> if i = 0 \<and> weight \<ge> 0 then W_Length p i n m else W_Overload p i n m) (s\<lparr>sc_mq := mq\<rparr>))
          }
          else do {
            (r, mq) \<leftarrow> skynet_globalmq_pop (sc_mq s);
            Some (goto w (case r of None \<Rightarrow> W_Release p (Some p) | Some nq \<Rightarrow> W_Back p nq) (s\<lparr>sc_mq := mq\<rparr>))
          }
      | W_Length p i n m \<Rightarrow> do {
          len \<leftarrow> skynet_mq_length p (sc_mq s);
          Some (goto w (W_Overload p i (drop_bit (nat weight) len) m) s)
        }
      | W_Overload p i n m \<Rightarrow> do {
          (overload, mq) \<leftarrow> skynet_mq_overload p (sc_mq s);
          Some (goto w (W_Call p i n m) (s\<lparr>sc_mq := mq\<rparr>))
        }
      | W_Call p i n m \<Rightarrow> Some (goto w (W_Loop p (i + 1) n) s)
      | W_Back p nq \<Rightarrow> do {
          mq \<leftarrow> skynet_globalmq_push p (sc_mq s);
          Some (goto w (W_Release p (Some nq)) (s\<lparr>sc_mq := mq\<rparr>))
        }
      | W_Release p r \<Rightarrow> map_option (goto w (return_queue r)) (context_release p s)
      | W_Drop p \<Rightarrow> do {
          q \<leftarrow> mq_mem (sc_mq s) p;
          if mq_release q then Some (goto w (W_Dropping p) s)
          else do {
            mq \<leftarrow> skynet_globalmq_push p (sc_mq s);
            Some (goto w W_Idle (s\<lparr>sc_mq := mq\<rparr>))
          }
        }
      | W_Dropping p \<Rightarrow> do {
          (r, mq) \<leftarrow> skynet_mq_pop p (sc_mq s);
          Some (goto w (case r of None \<Rightarrow> W_Free p | Some m \<Rightarrow> W_Dropping p) (s\<lparr>sc_mq := mq\<rparr>))
        }
      | W_Free p \<Rightarrow> do {
          mq \<leftarrow> mq_free p (sc_mq s);
          Some (goto w W_Idle (s\<lparr>sc_mq := mq\<rparr>))
        })"

text \<open>
  \<open>create\<close> is the part of \<open>skynet_context_new\<close> up to the module's init function: two references,
  of the handle table and of the creator.  \<open>abandon\<close> is its end when init failed and the context
  is gone already: the creator, an idle thread \<open>w\<close>, empties the mailbox itself.
\<close>

definition context_create :: "addr \<Rightarrow> u32 \<Rightarrow> sched \<Rightarrow> sched" where
  "context_create p h s = s\<lparr>sc_mq := skynet_mq_create p h (sc_mq s), sc_ref := (sc_ref s)(p := 2),
     sc_reg := insert p (sc_reg s), sc_ext := add_mset p (sc_ext s), sc_unpub := add_mset p (sc_unpub s)\<rparr>"

inductive sched_step :: "nat \<Rightarrow> (nat \<Rightarrow> int) \<Rightarrow> sched \<Rightarrow> sched \<Rightarrow> bool" for N weight where
  create: "mq_mem (sc_mq s) p = None \<Longrightarrow> sched_step N weight s (context_create p h s)"
| publish: "p \<in># sc_unpub s \<Longrightarrow> skynet_globalmq_push p (sc_mq s) = Some mq \<Longrightarrow>
    sched_step N weight s (s\<lparr>sc_mq := mq, sc_unpub := sc_unpub s - {#p#}\<rparr>)"
| abandon: "p \<in># sc_unpub s \<Longrightarrow> mq_mem (sc_mq s) p = Some q \<Longrightarrow> mq_release q \<Longrightarrow> w < N \<Longrightarrow> sc_pcs s w = W_Idle \<Longrightarrow>
    sched_step N weight s (goto w (W_Dropping p) (s\<lparr>sc_unpub := sc_unpub s - {#p#}\<rparr>))"
| grab: "p \<in> sc_reg s \<Longrightarrow> sched_step N weight s (context_grab p (s\<lparr>sc_ext := add_mset p (sc_ext s)\<rparr>))"
| push: "p \<in># sc_ext s \<Longrightarrow> skynet_mq_push p m (sc_mq s) = Some mq \<Longrightarrow> sched_step N weight s (s\<lparr>sc_mq := mq\<rparr>)"
| release: "p \<in># sc_ext s \<Longrightarrow> context_release p (s\<lparr>sc_ext := sc_ext s - {#p#}\<rparr>) = Some s' \<Longrightarrow> sched_step N weight s s'"
| retire: "p \<in> sc_reg s \<Longrightarrow>
    sched_step N weight s (s\<lparr>sc_reg := sc_reg s - {p}, sc_ext := add_mset p (sc_ext s)\<rparr>)"
| worker: "w < N \<Longrightarrow> dispatch_step (weight w) w s = Some s' \<Longrightarrow> sched_step N weight s s'"

inductive_cases sched_stepE: "sched_step N weight s s'"

section \<open>The mailboxes\<close>

text \<open>The run queue is \<open>ps\<close>; a mailbox that is not marked as scheduled is empty.\<close>

definition mq_ok :: "mq_state \<Rightarrow> addr list \<Rightarrow> bool" where
  "mq_ok mq ps \<longleftrightarrow> gq_list mq ps \<and>
     (\<forall>p q. mq_mem mq p = Some q \<longrightarrow> mq_wf q \<and> (\<not> mq_in_global q \<longrightarrow> mq_contents q = []))"

definition flags :: "mq_state \<Rightarrow> addr \<Rightarrow> (bool \<times> bool) option" where
  "flags mq p = map_option (\<lambda>q. (mq_in_global q, mq_release q)) (mq_mem mq p)"

lemma flags_None: "flags mq p = None \<longleftrightarrow> mq_mem mq p = None"
  by (simp add: flags_def)

lemma flags_store: "flags (mq_store p q mq) = (flags mq)(p \<mapsto> (mq_in_global q, mq_release q))"
  by (auto simp: flags_def mq_store_def)

lemma mq_ok_store:
  assumes "mq_ok mq ps" "mq_mem mq p = Some q" "mq_next q' = mq_next q" "mq_wf q'"
    "\<not> mq_in_global q' \<Longrightarrow> mq_contents q' = []"
  shows "mq_ok (mq_store p q' mq) ps"
  using assms gq_list_store [of mq ps p q q'] by (auto simp: mq_ok_def mq_store_def)

text \<open>Operations on the run queue change only the links.\<close>

lemma same_but_next:
  assumes "\<forall>a. map_option (mq_next_update (\<lambda>_. None)) (mq_mem mq' a) = map_option (mq_next_update (\<lambda>_. None)) (mq_mem mq a)"
    and "mq_ok mq ps" "gq_list mq' ps'"
  shows "mq_ok mq' ps'" "flags mq' = flags mq"
proof -
  have eq: "mq_mem mq' p = Some q' \<Longrightarrow> \<exists>q. mq_mem mq p = Some q \<and> mq_next_update (\<lambda>_. None) q' = mq_next_update (\<lambda>_. None) q"
    for p q'
    using assms(1) [rule_format, of p] by (cases "mq_mem mq p") auto
  have "mq_wf q' \<and> (\<not> mq_in_global q' \<longrightarrow> mq_contents q' = [])"
    if q': "mq_mem mq' p = Some q'" for p q'
  proof -
    obtain q where q: "mq_mem mq p = Some q" "mq_next_update (\<lambda>_. None) q' = mq_next_update (\<lambda>_. None) q"
      using eq [OF q'] by blast
    have "mq_wf (mq_next_update (\<lambda>_. None) r) = mq_wf r" "mq_contents (mq_next_update (\<lambda>_. None) r) = mq_contents r"
      "mq_in_global (mq_next_update (\<lambda>_. None) r) = mq_in_global r" for r
      by (simp_all add: mq_cong)
    then show ?thesis using q assms(2) unfolding mq_ok_def by metis
  qed
  then show "mq_ok mq' ps'" using assms(3) by (simp add: mq_ok_def)
  have "map_option (\<lambda>q. (mq_in_global q, mq_release q)) (mq_mem mq' a) =
      map_option (\<lambda>q. (mq_in_global q, mq_release q)) (mq_mem mq a)" for a
    using arg_cong [OF assms(1) [rule_format, of a], of "map_option (\<lambda>q. (mq_in_global q, mq_release q))"]
    by (simp add: option.map_comp comp_def)
  then show "flags mq' = flags mq" by (auto simp: flags_def)
qed

lemma globalmq_pop_ok:
  assumes "mq_ok mq ps"
  shows "\<exists>mq'. skynet_globalmq_pop mq = Some (case ps of [] \<Rightarrow> None | p # _ \<Rightarrow> Some p, mq') \<and>
    mq_ok mq' (tl ps) \<and> flags mq' = flags mq"
proof (cases ps)
  case Nil
  then show ?thesis using assms globalmq_pop_empty by (auto simp: mq_ok_def)
next
  case (Cons p ps')
  then obtain mq' where "skynet_globalmq_pop mq = Some (Some p, mq')" "gq_list mq' ps'"
    "\<forall>a. map_option (mq_next_update (\<lambda>_. None)) (mq_mem mq' a) = map_option (mq_next_update (\<lambda>_. None)) (mq_mem mq a)"
    using assms globalmq_pop_list [of mq p ps'] by (auto simp: mq_ok_def)
  then show ?thesis using same_but_next [OF _ assms] Cons by auto
qed

lemma globalmq_push_ok:
  assumes "mq_ok mq ps" "mq_mem mq p \<noteq> None" "p \<notin> set ps"
  shows "\<exists>mq'. skynet_globalmq_push p mq = Some mq' \<and> mq_ok mq' (ps @ [p]) \<and> flags mq' = flags mq"
proof -
  obtain q where "mq_mem mq p = Some q" using assms(2) by blast
  then obtain mq' where m: "skynet_globalmq_push p mq = Some mq'" "gq_list mq' (ps @ [p])"
    "\<forall>a. map_option (mq_next_update (\<lambda>_. None)) (mq_mem mq' a) = map_option (mq_next_update (\<lambda>_. None)) (mq_mem mq a)"
    using globalmq_push_list [of mq ps p q] assms by (auto simp: mq_ok_def)
  then show ?thesis using same_but_next [OF m(3) assms(1) m(2)] by blast
qed

lemma mq_ok_mem:
  assumes "mq_ok mq ps" "mq_mem mq p = Some q"
  shows "mq_wf q" "\<not> mq_in_global q \<Longrightarrow> mq_contents q = []" "p \<notin> set ps \<Longrightarrow> mq_next q = None"
  using assms gq_list_next_None by (auto simp: mq_ok_def)

lemma mq_pop_ok:
  assumes ok: "mq_ok mq ps" and q: "mq_mem mq p = Some q"
  shows "\<exists>r mq'. skynet_mq_pop p mq = Some (r, mq') \<and> mq_ok mq' ps \<and>
    flags mq' = (if r = None then (flags mq)(p \<mapsto> (False, mq_release q)) else flags mq)"
proof (cases "mq_contents q")
  case Nil
  let ?q = "q\<lparr>mq_overload_threshold := MQ_OVERLOAD, mq_in_global := False\<rparr>"
  have "skynet_mq_pop p mq = Some (None, mq_store p ?q mq)"
    using q mq_dequeue_empty [OF mq_ok_mem(1) [OF ok q] Nil] by (simp add: skynet_mq_pop_def)
  moreover have "mq_ok (mq_store p ?q mq) ps"
    by (rule mq_ok_store [OF ok q]) (use mq_ok_mem(1) [OF ok q] Nil in \<open>simp_all add: mq_cong MQ_OVERLOAD_def\<close>)
  ultimately show ?thesis by (simp add: flags_store)
next
  case (Cons m ms)
  obtain q' where q': "mq_dequeue q = Some (Some m, q')" "mq_wf q'" "mq_next q' = mq_next q"
    "mq_in_global q' = mq_in_global q" "mq_release q' = mq_release q"
    using mq_dequeue_front [OF mq_ok_mem(1) [OF ok q] Cons] by blast
  have g: "mq_in_global q" using mq_ok_mem(2) [OF ok q] Cons by auto
  have "skynet_mq_pop p mq = Some (Some m, mq_store p q' mq)" using q q'(1) by (simp add: skynet_mq_pop_def)
  moreover have "mq_ok (mq_store p q' mq) ps" by (rule mq_ok_store [OF ok q]) (use q' g in simp_all)
  moreover have "flags (mq_store p q' mq) = flags mq" using q q' by (auto simp: flags_store flags_def)
  ultimately show ?thesis by auto
qed

lemma mq_push_ok:
  assumes ok: "mq_ok mq ps" and q: "mq_mem mq p = Some q" and new: "\<not> mq_in_global q \<Longrightarrow> p \<notin> set ps"
  shows "\<exists>mq'. skynet_mq_push p m mq = Some mq' \<and> mq_ok mq' (if mq_in_global q then ps else ps @ [p]) \<and>
    flags mq' = (flags mq)(p \<mapsto> (True, mq_release q))"
proof -
  obtain q' where q': "mq_enqueue m q = Some q'" "mq_wf q'" "mq_next q' = mq_next q"
    "mq_in_global q' = mq_in_global q" "mq_release q' = mq_release q"
    using mq_enqueue_ok [OF mq_ok_mem(1) [OF ok q], of m] by blast
  let ?q = "q'\<lparr>mq_in_global := True\<rparr>"
  show ?thesis
  proof (cases "mq_in_global q")
    case True
    then have "mq_ok (mq_store p q' mq) ps" using q' by (intro mq_ok_store [OF ok q]) simp_all
    then show ?thesis using True q q' by (simp add: skynet_mq_push_def flags_store)
  next
    case False
    have "mq_ok (mq_store p ?q mq) ps" using q' by (intro mq_ok_store [OF ok q]) (simp_all add: mq_cong)
    from globalmq_push_ok [OF this, of p] obtain mq' where
      "skynet_globalmq_push p (mq_store p ?q mq) = Some mq'" "mq_ok mq' (ps @ [p])" "flags mq' = flags (mq_store p ?q mq)"
      using new [OF False] by (auto simp: mq_store_def)
    then show ?thesis using False q q' by (simp add: skynet_mq_push_def flags_store)
  qed
qed

lemma mark_release_ok:
  assumes ok: "mq_ok mq ps" and q: "mq_mem mq p = Some q" and new: "\<not> mq_in_global q \<Longrightarrow> p \<notin> set ps"
    and "\<not> mq_release q"
  shows "\<exists>mq'. skynet_mq_mark_release p mq = Some mq' \<and> mq_ok mq' (if mq_in_global q then ps else ps @ [p]) \<and>
    flags mq' = (flags mq)(p \<mapsto> (mq_in_global q, True))"
proof -
  let ?q = "q\<lparr>mq_release := True\<rparr>"
  have st: "mq_ok (mq_store p ?q mq) ps"
    using mq_ok_mem [OF ok q] by (intro mq_ok_store [OF ok q]) (simp_all add: mq_cong)
  show ?thesis
  proof (cases "mq_in_global q")
    case True
    then show ?thesis using st q assms(4) by (simp add: skynet_mq_mark_release_def flags_store Let_def)
  next
    case False
    from globalmq_push_ok [OF st, of p] obtain mq' where
      "skynet_globalmq_push p (mq_store p ?q mq) = Some mq'" "mq_ok mq' (ps @ [p])" "flags mq' = flags (mq_store p ?q mq)"
      using new [OF False] by (auto simp: mq_store_def)
    then show ?thesis using False q assms(4) by (simp add: skynet_mq_mark_release_def flags_store Let_def)
  qed
qed

lemma mq_overload_ok:
  assumes ok: "mq_ok mq ps" and q: "mq_mem mq p = Some q"
  shows "\<exists>n mq'. skynet_mq_overload p mq = Some (n, mq') \<and> mq_ok mq' ps \<and> flags mq' = flags mq"
proof -
  obtain n q' where t: "mq_take_overload q = (n, q')" by (cases "mq_take_overload q")
  then have c: "mq_next q' = mq_next q" "mq_in_global q' = mq_in_global q" "mq_release q' = mq_release q"
    "mq_wf q' = mq_wf q" "mq_contents q' = mq_contents q"
    by (auto simp: mq_take_overload_def mq_cong split: if_splits)
  have "mq_ok (mq_store p q' mq) ps"
    using mq_ok_mem [OF ok q] c by (intro mq_ok_store [OF ok q]) simp_all
  moreover have "flags (mq_store p q' mq) = flags mq" using q c by (auto simp: flags_store flags_def)
  ultimately show ?thesis using q t by (simp add: skynet_mq_overload_def)
qed

lemma mq_free_ok:
  assumes ok: "mq_ok mq ps" and q: "mq_mem mq p = Some q" and "p \<notin> set ps"
  shows "\<exists>mq'. mq_free p mq = Some mq' \<and> mq_ok mq' ps \<and> flags mq' = (flags mq)(p := None)"
proof -
  let ?mq = "mq\<lparr>mq_mem := (mq_mem mq)(p := None)\<rparr>"
  have "gq_path (mq_mem ?mq) (gq_head mq) ps = gq_path (mq_mem mq) (gq_head mq) ps"
    by (rule gq_path_cong) (use assms(3) in auto)
  then have "mq_ok ?mq ps" using ok by (auto simp: mq_ok_def gq_list_def)
  then show ?thesis using q mq_ok_mem(3) [OF assms] by (auto simp: mq_free_def flags_def)
qed

lemma mq_create_ok:
  assumes ok: "mq_ok mq ps" and "mq_mem mq p = None"
  shows "mq_ok (skynet_mq_create p h mq) ps" "flags (skynet_mq_create p h mq) = (flags mq)(p \<mapsto> (True, False))"
proof -
  have new: "mq_next (mq_new h) = None" "mq_in_global (mq_new h)" by (simp_all add: mq_new_def)
  have "p \<notin> set ps" using assms gq_path_in_dom by (fastforce simp: mq_ok_def gq_list_def)
  then have "gq_path (mq_mem (skynet_mq_create p h mq)) (gq_head mq) ps = gq_path (mq_mem mq) (gq_head mq) ps"
    by (intro gq_path_cong) (auto simp: skynet_mq_create_def mq_store_def)
  then show "mq_ok (skynet_mq_create p h mq) ps" using ok
    by (auto simp: mq_ok_def gq_list_def skynet_mq_create_def mq_store_def new)
  show "flags (skynet_mq_create p h mq) = (flags mq)(p \<mapsto> (True, False))"
    by (simp add: skynet_mq_create_def flags_store mq_new_def)
qed

section \<open>The invariant\<close>

text \<open>
  The mailboxes that a worker owns, and those whose context it holds a reference to.  A mailbox has
  exactly one owner (the run queue, a creator or a worker) while it is marked as scheduled or for
  release, and none otherwise.
\<close>

fun owned :: "worker_pc \<Rightarrow> addr multiset" where
  "owned W_Idle = {#}"
| "owned (W_Have p) = {#p#}"
| "owned (W_Loop p i n) = {#p#}"
| "owned (W_Length p i n m) = {#p#}"
| "owned (W_Overload p i n m) = {#p#}"
| "owned (W_Call p i n m) = {#p#}"
| "owned (W_Back p nq) = {#p, nq#}"
| "owned (W_Release p r) = (case r of None \<Rightarrow> {#} | Some q \<Rightarrow> {#q#})"
| "owned (W_Drop p) = {#p#}"
| "owned (W_Dropping p) = {#p#}"
| "owned (W_Free p) = {#p#}"

fun held :: "worker_pc \<Rightarrow> addr multiset" where
  "held (W_Loop p i n) = {#p#}"
| "held (W_Length p i n m) = {#p#}"
| "held (W_Overload p i n m) = {#p#}"
| "held (W_Call p i n m) = {#p#}"
| "held (W_Back p nq) = {#p#}"
| "held (W_Release p r) = {#p#}"
| "held _ = {#}"

fun dropped :: "worker_pc \<Rightarrow> addr option" where
  "dropped (W_Dropping p) = Some p"
| "dropped (W_Free p) = Some p"
| "dropped _ = None"

definition tokens :: "nat \<Rightarrow> addr list \<Rightarrow> sched \<Rightarrow> addr multiset" where
  "tokens N ps s = mset ps + sc_unpub s + (\<Sum>w<N. owned (sc_pcs s w))"

definition refs :: "nat \<Rightarrow> sched \<Rightarrow> addr multiset" where
  "refs N s = sc_ext s + (\<Sum>w<N. held (sc_pcs s w))"

definition scheduled :: "(bool \<times> bool) option \<Rightarrow> nat" where
  "scheduled f = (case f of None \<Rightarrow> 0 | Some (g, r) \<Rightarrow> if g \<or> r then 1 else 0)"

definition ref_ok :: "(bool \<times> bool) option \<Rightarrow> int \<Rightarrow> nat \<Rightarrow> bool \<Rightarrow> bool" where
  "ref_ok f ref holders reg \<longleftrightarrow>
     (case f of
        None \<Rightarrow> holders = 0 \<and> \<not> reg
      | Some (g, r) \<Rightarrow> ref = int holders + of_bool reg \<and> (r \<longleftrightarrow> ref = 0))"

definition sched_inv :: "nat \<Rightarrow> sched \<Rightarrow> bool" where
  "sched_inv N s \<longleftrightarrow> (\<exists>ps. mq_ok (sc_mq s) ps \<and>
     (\<forall>p. count (tokens N ps s) p = scheduled (flags (sc_mq s) p)) \<and>
     (\<forall>p. ref_ok (flags (sc_mq s) p) (sc_ref s p) (count (refs N s) p) (p \<in> sc_reg s)) \<and>
     (\<forall>w<N. \<forall>p. dropped (sc_pcs s w) = Some p \<longrightarrow> (\<exists>g. flags (sc_mq s) p = Some (g, True))))"

lemma sum_goto:
  fixes f :: "worker_pc \<Rightarrow> addr multiset"
  assumes "w < N"
  shows "(\<Sum>v<N. f (sc_pcs (goto w pc s) v)) + f (sc_pcs s w) = (\<Sum>v<N. f (sc_pcs s v)) + f pc"
proof -
  have "(\<Sum>v<N. f (pcs v)) = f (pcs w) + (\<Sum>v\<in>{..<N} - {w}. f (pcs v))" for pcs
    using assms by (intro sum.remove) auto
  moreover have "(\<Sum>v\<in>{..<N} - {w}. f (sc_pcs (goto w pc s) v)) = (\<Sum>v\<in>{..<N} - {w}. f (sc_pcs s v))"
    by (rule sum.cong) (auto simp: goto_def)
  ultimately show ?thesis by (simp add: goto_def ac_simps)
qed

lemma count_sum_goto:
  fixes f :: "worker_pc \<Rightarrow> addr multiset"
  assumes "w < N"
  shows "count (\<Sum>v<N. f (sc_pcs (goto w pc s) v)) p + count (f (sc_pcs s w)) p =
    count (\<Sum>v<N. f (sc_pcs s v)) p + count (f pc) p"
  using arg_cong [OF sum_goto [OF assms, of f pc s], of "\<lambda>M. count M p"] by simp

lemma goto_sel [simp]:
  "sc_mq (goto w pc s) = sc_mq s" "sc_ref (goto w pc s) = sc_ref s" "sc_reg (goto w pc s) = sc_reg s"
  "sc_ext (goto w pc s) = sc_ext s" "sc_unpub (goto w pc s) = sc_unpub s"
  by (simp_all add: goto_def)

text \<open>
  What a step of worker \<open>w\<close> must keep: the changes of the run queue, of the flags and of what the
  worker owns and holds balance.
\<close>

lemma sched_inv_goto:
  assumes inv: "mq_ok (sc_mq s) ps" "\<And>p. count (tokens N ps s) p = scheduled (flags (sc_mq s) p)"
      "\<And>p. ref_ok (flags (sc_mq s) p) (sc_ref s p) (count (refs N s) p) (p \<in> sc_reg s)"
      "\<And>v p. v < N \<Longrightarrow> dropped (sc_pcs s v) = Some p \<Longrightarrow> \<exists>g. flags (sc_mq s) p = Some (g, True)"
    and w: "w < N" and mq': "mq_ok (sc_mq s') ps'" and pcs: "sc_pcs s' = sc_pcs s"
    and tok: "\<And>p. count (mset ps') p + count (sc_unpub s') p + count (owned pc) p + scheduled (flags (sc_mq s) p) =
      count (mset ps) p + count (sc_unpub s) p + count (owned (sc_pcs s w)) p + scheduled (flags (sc_mq s') p)"
    and ref: "\<And>p h. h + count (sc_ext s) p + count (held (sc_pcs s w)) p = count (refs N s) p \<Longrightarrow>
      ref_ok (flags (sc_mq s') p) (sc_ref s' p) (h + count (sc_ext s') p + count (held pc) p) (p \<in> sc_reg s')"
    and drop: "\<And>v p g. v < N \<Longrightarrow> v \<noteq> w \<Longrightarrow> dropped (sc_pcs s v) = Some p \<Longrightarrow> flags (sc_mq s) p = Some (g, True) \<Longrightarrow>
      \<exists>g. flags (sc_mq s') p = Some (g, True)"
    and drop': "\<And>p. dropped pc = Some p \<Longrightarrow> \<exists>g. flags (sc_mq s') p = Some (g, True)"
  shows "sched_inv N (goto w pc s')"
proof -
  have tk: "count (tokens N ps' (goto w pc s')) p = scheduled (flags (sc_mq s') p)" for p
    using count_sum_goto [OF w, of owned pc s' p] tok [of p] inv(2) [of p] by (simp add: tokens_def pcs)
  have rf: "ref_ok (flags (sc_mq s') p) (sc_ref s' p) (count (refs N (goto w pc s')) p) (p \<in> sc_reg s')" for p
  proof -
    let ?h = "count (\<Sum>v<N. held (sc_pcs s v)) p - count (held (sc_pcs s w)) p"
    have "count (held (sc_pcs s w)) p \<le> count (\<Sum>v<N. held (sc_pcs s v)) p"
      using sum.remove [of "{..<N}" w "\<lambda>v. held (sc_pcs s v)"] w by simp
    then have "count (refs N (goto w pc s')) p = ?h + count (sc_ext s') p + count (held pc) p"
      "?h + count (sc_ext s) p + count (held (sc_pcs s w)) p = count (refs N s) p"
      using count_sum_goto [OF w, of held pc s' p] by (simp_all add: refs_def pcs)
    then show ?thesis using ref [of ?h p] by simp
  qed
  have "\<exists>g. flags (sc_mq s') p = Some (g, True)" if "v < N" "dropped (sc_pcs (goto w pc s') v) = Some p" for v p
    using that drop' drop [of v p] inv(4) [of v p] by (cases "v = w") (auto simp: goto_def pcs)
  then show ?thesis using mq' tk rf unfolding sched_inv_def by (intro exI [of _ ps']) simp
qed

text \<open>The four parts of the invariant, as the lemmas below take them.\<close>

definition inv_parts :: "nat \<Rightarrow> addr list \<Rightarrow> sched \<Rightarrow> bool" where
  "inv_parts N ps s \<longleftrightarrow> mq_ok (sc_mq s) ps \<and>
     (\<forall>p. count (tokens N ps s) p = scheduled (flags (sc_mq s) p)) \<and>
     (\<forall>p. ref_ok (flags (sc_mq s) p) (sc_ref s p) (count (refs N s) p) (p \<in> sc_reg s)) \<and>
     (\<forall>w<N. \<forall>p. dropped (sc_pcs s w) = Some p \<longrightarrow> (\<exists>g. flags (sc_mq s) p = Some (g, True)))"

lemma sched_inv_parts: "sched_inv N s \<longleftrightarrow> (\<exists>ps. inv_parts N ps s)"
  by (simp add: sched_inv_def inv_parts_def)

lemma count_one_of_sum: "w < N \<Longrightarrow> count (f w) p \<le> count (\<Sum>v<N. f v) p" for f :: "nat \<Rightarrow> addr multiset"
  using sum.remove [of "{..<N}" w f] by simp

lemma count_two_of_sum:
  "w < N \<Longrightarrow> v < N \<Longrightarrow> v \<noteq> w \<Longrightarrow> count (f w) p + count (f v) p \<le> count (\<Sum>v<N. f v) p" for f :: "nat \<Rightarrow> addr multiset"
  using sum.remove [of "{..<N}" w f] sum.remove [of "{..<N} - {w}" v f] by simp

lemma scheduled_le: "scheduled f \<le> 1"
  by (auto simp: scheduled_def split: option.splits)

lemma flags_Some: "flags mq p = Some (g, r) \<longleftrightarrow> (\<exists>q. mq_mem mq p = Some q \<and> mq_in_global q = g \<and> mq_release q = r)"
  by (auto simp: flags_def)

lemma token_facts:
  assumes "inv_parts N ps s" "count (tokens N ps s) p \<ge> 1"
  shows "\<exists>q. mq_mem (sc_mq s) p = Some q \<and> (mq_in_global q \<or> mq_release q)" "count (tokens N ps s) p = 1"
proof -
  have c: "count (tokens N ps s) p = scheduled (flags (sc_mq s) p)" using assms(1) by (simp add: inv_parts_def)
  then show "count (tokens N ps s) p = 1" using assms(2) scheduled_le [of "flags (sc_mq s) p"] by simp
  show "\<exists>q. mq_mem (sc_mq s) p = Some q \<and> (mq_in_global q \<or> mq_release q)"
    using c assms(2) by (auto simp: scheduled_def flags_def split: option.splits if_splits)
qed

lemma owned_facts:
  assumes inv: "inv_parts N ps s" and w: "w < N" and p: "p \<in># owned (sc_pcs s w)"
  shows "\<exists>q. mq_mem (sc_mq s) p = Some q \<and> (mq_in_global q \<or> mq_release q)" "p \<notin> set ps" "p \<notin># sc_unpub s"
    "count (owned (sc_pcs s w)) p = 1" "\<And>v. v < N \<Longrightarrow> v \<noteq> w \<Longrightarrow> p \<notin># owned (sc_pcs s v)"
proof -
  have c: "1 \<le> count (owned (sc_pcs s w)) p" using p by (simp add: Suc_le_eq)
  then have le: "count (mset ps) p + count (sc_unpub s) p + count (owned (sc_pcs s w)) p \<le> count (tokens N ps s) p"
    using count_one_of_sum [OF w, of "\<lambda>v. owned (sc_pcs s v)" p] by (simp add: tokens_def)
  then have "count (tokens N ps s) p \<ge> 1" using c by linarith
  note facts = token_facts [OF inv this]
  then have t: "count (tokens N ps s) p = 1" by blast
  from facts show "\<exists>q. mq_mem (sc_mq s) p = Some q \<and> (mq_in_global q \<or> mq_release q)" by blast
  have "count (mset ps) p = 0" "count (sc_unpub s) p = 0" using t le c by linarith+
  then show "p \<notin> set ps" "p \<notin># sc_unpub s" by (simp_all add: count_mset_0_iff not_in_iff)
  show "count (owned (sc_pcs s w)) p = 1" using t le c by linarith
  show "p \<notin># owned (sc_pcs s v)" if "v < N" "v \<noteq> w" for v
  proof -
    have "count (owned (sc_pcs s v)) p = 0"
      using count_two_of_sum [OF w that, of "\<lambda>v. owned (sc_pcs s v)" p] t c unfolding tokens_def count_union by linarith
    then show ?thesis by (simp add: not_in_iff)
  qed
qed

lemma refs_facts:
  assumes "inv_parts N ps s" "count (refs N s) p \<ge> 1 \<or> p \<in> sc_reg s"
  shows "\<exists>q. mq_mem (sc_mq s) p = Some q \<and> \<not> mq_release q" "sc_ref s p \<ge> 1"
proof -
  have "ref_ok (flags (sc_mq s) p) (sc_ref s p) (count (refs N s) p) (p \<in> sc_reg s)"
    using assms(1) by (simp add: inv_parts_def)
  then show "\<exists>q. mq_mem (sc_mq s) p = Some q \<and> \<not> mq_release q" "sc_ref s p \<ge> 1"
    using assms(2) by (auto simp: ref_ok_def flags_def not_in_iff [symmetric] split: option.splits)
qed

lemma held_facts:
  assumes inv: "inv_parts N ps s" and w: "w < N" and p: "p \<in># held (sc_pcs s w)"
  shows "\<exists>q. mq_mem (sc_mq s) p = Some q \<and> \<not> mq_release q" "sc_ref s p \<ge> 1"
proof -
  have "1 \<le> count (held (sc_pcs s w)) p" using p by (simp add: Suc_le_eq)
  then have "count (refs N s) p \<ge> 1"
    using count_one_of_sum [OF w, of "\<lambda>v. held (sc_pcs s v)" p] unfolding refs_def count_union by linarith
  then show "\<exists>q. mq_mem (sc_mq s) p = Some q \<and> \<not> mq_release q" "sc_ref s p \<ge> 1"
    using refs_facts [OF inv] by blast+
qed

lemma unscheduled_not_queued:
  assumes "inv_parts N ps s" "mq_mem (sc_mq s) p = Some q" "\<not> mq_in_global q" "\<not> mq_release q"
  shows "p \<notin> set ps"
proof -
  have "count (tokens N ps s) p = 0" using assms by (simp add: inv_parts_def scheduled_def flags_def)
  then show ?thesis by (simp add: tokens_def count_mset_0_iff)
qed

lemma context_release_ok:
  assumes inv: "inv_parts N ps s" and q: "mq_mem (sc_mq s) p = Some q" "\<not> mq_release q"
  shows "\<exists>s' ps'. context_release p s = Some s' \<and> mq_ok (sc_mq s') ps' \<and> sc_ref s' = (sc_ref s)(p := sc_ref s p - 1) \<and>
    sc_reg s' = sc_reg s \<and> sc_ext s' = sc_ext s \<and> sc_unpub s' = sc_unpub s \<and> sc_pcs s' = sc_pcs s \<and>
    flags (sc_mq s') = (if sc_ref s p = 1 then (flags (sc_mq s))(p \<mapsto> (mq_in_global q, True)) else flags (sc_mq s)) \<and>
    ps' = (if sc_ref s p = 1 \<and> \<not> mq_in_global q then ps @ [p] else ps)"
proof -
  have ok: "mq_ok (sc_mq s) ps" using inv by (simp add: inv_parts_def)
  show ?thesis
  proof (cases "sc_ref s p = 1")
    case True
    then show ?thesis
      using mark_release_ok [OF ok q(1) unscheduled_not_queued [OF inv q(1) _ q(2)] q(2)]
      by (auto simp: context_release_def Let_def)
  next
    case False
    then show ?thesis using ok by (auto simp: context_release_def Let_def)
  qed
qed

section \<open>A worker's step succeeds and keeps the invariant\<close>

definition step_ok :: "nat \<Rightarrow> sched option \<Rightarrow> bool" where
  "step_ok N r \<longleftrightarrow> (\<exists>s'. r = Some s' \<and> sched_inv N s')"

text \<open>A step that changes the run queue and the flags of mailboxes but no reference count.\<close>

lemma step_okI:
  assumes inv: "inv_parts N ps s" and w: "w < N" and "mq_ok mq ps'"
    and tok: "\<And>p. count (mset ps') p + count (owned pc) p + scheduled (flags (sc_mq s) p) =
      count (mset ps) p + count (owned (sc_pcs s w)) p + scheduled (flags mq p)"
    and held: "held pc = held (sc_pcs s w)"
    and ref: "\<And>p. flags mq p \<noteq> flags (sc_mq s) p \<Longrightarrow> (\<exists>g h r. flags (sc_mq s) p = Some (g, r) \<and> flags mq p = Some (h, r)) \<or>
      flags mq p = None \<and> (\<exists>g. flags (sc_mq s) p = Some (g, True)) \<and>
      (\<forall>v<N. v \<noteq> w \<longrightarrow> dropped (sc_pcs s v) \<noteq> Some p)"
    and drop': "\<And>p. dropped pc = Some p \<Longrightarrow> \<exists>g. flags mq p = Some (g, True)"
  shows "step_ok N (Some (goto w pc (s\<lparr>sc_mq := mq\<rparr>)))"
proof -
  have "sched_inv N (goto w pc (s\<lparr>sc_mq := mq\<rparr>))"
  proof (rule sched_inv_goto [where s = s and ps = ps and ps' = ps'])
    fix p h assume h: "h + count (sc_ext s) p + count (held (sc_pcs s w)) p = count (refs N s) p"
    have "ref_ok (flags (sc_mq s) p) (sc_ref s p) (count (refs N s) p) (p \<in> sc_reg s)"
      using inv by (simp add: inv_parts_def)
    then have "ref_ok (flags mq p) (sc_ref s p) (count (refs N s) p) (p \<in> sc_reg s)"
      using ref [of p] by (cases "flags mq p = flags (sc_mq s) p") (auto simp: ref_ok_def)
    then show "ref_ok (flags (sc_mq (s\<lparr>sc_mq := mq\<rparr>)) p) (sc_ref (s\<lparr>sc_mq := mq\<rparr>) p)
        (h + count (sc_ext (s\<lparr>sc_mq := mq\<rparr>)) p + count (held pc) p) (p \<in> sc_reg (s\<lparr>sc_mq := mq\<rparr>))"
      using h by (simp add: held)
  next
    fix v p g assume "v < N" "v \<noteq> w" "dropped (sc_pcs s v) = Some p" "flags (sc_mq s) p = Some (g, True)"
    then show "\<exists>g. flags (sc_mq (s\<lparr>sc_mq := mq\<rparr>)) p = Some (g, True)"
      using ref [of p] by (cases "flags mq p = flags (sc_mq s) p") auto
  next
    fix p
    show "count (mset ps') p + count (sc_unpub (s\<lparr>sc_mq := mq\<rparr>)) p + count (owned pc) p + scheduled (flags (sc_mq s) p) =
      count (mset ps) p + count (sc_unpub s) p + count (owned (sc_pcs s w)) p + scheduled (flags (sc_mq (s\<lparr>sc_mq := mq\<rparr>)) p)"
      using tok [of p] by simp
  qed (use assms in \<open>auto simp: inv_parts_def\<close>)
  then show ?thesis by (simp add: step_ok_def)
qed

lemma step_pop_queue:
  assumes inv: "inv_parts N ps s" and w: "w < N"
    and own: "\<And>r. owned (pc r) = owned (sc_pcs s w) + (case r of None \<Rightarrow> {#} | Some p \<Rightarrow> {#p#})"
    and held: "\<And>r. held (pc r) = held (sc_pcs s w)" and drop: "\<And>r. dropped (pc r) = None"
  shows "step_ok N (skynet_globalmq_pop (sc_mq s) \<bind> (\<lambda>(r, mq). Some (goto w (pc r) (s\<lparr>sc_mq := mq\<rparr>))))"
proof -
  have "mq_ok (sc_mq s) ps" using inv by (simp add: inv_parts_def)
  from globalmq_pop_ok [OF this] obtain mq where
    mq: "skynet_globalmq_pop (sc_mq s) = Some (case ps of [] \<Rightarrow> None | p # _ \<Rightarrow> Some p, mq)" "mq_ok mq (tl ps)"
      "flags mq = flags (sc_mq s)" by blast
  have "step_ok N (Some (goto w (pc (case ps of [] \<Rightarrow> None | p # _ \<Rightarrow> Some p)) (s\<lparr>sc_mq := mq\<rparr>)))"
    by (rule step_okI [OF inv w mq(2)]) (simp_all add: mq(3) own held drop split: list.splits)
  then show ?thesis by (simp add: mq(1))
qed

lemma step_push_queue:
  assumes inv: "inv_parts N ps s" and w: "w < N" and p: "p \<in># owned (sc_pcs s w)"
    and own: "owned pc + {#p#} = owned (sc_pcs s w)" and held: "held pc = held (sc_pcs s w)" and drop: "dropped pc = None"
  shows "step_ok N (skynet_globalmq_push p (sc_mq s) \<bind> (\<lambda>mq. Some (goto w pc (s\<lparr>sc_mq := mq\<rparr>))))"
proof -
  have ok: "mq_ok (sc_mq s) ps" using inv by (simp add: inv_parts_def)
  have "mq_mem (sc_mq s) p \<noteq> None" "p \<notin> set ps" using owned_facts [OF inv w p] by auto
  from globalmq_push_ok [OF ok this] obtain mq where
    mq: "skynet_globalmq_push p (sc_mq s) = Some mq" "mq_ok mq (ps @ [p])" "flags mq = flags (sc_mq s)" by blast
  have "step_ok N (Some (goto w pc (s\<lparr>sc_mq := mq\<rparr>)))"
    by (rule step_okI [OF inv w mq(2)]) (simp_all add: mq(3) own [symmetric] held drop)
  then show ?thesis by (simp add: mq(1))
qed

lemma step_pop_message:
  assumes inv: "inv_parts N ps s" and w: "w < N" and p: "owned (sc_pcs s w) = {#p#}"
    and some: "\<And>m. owned (pc (Some m)) = {#p#}" "\<And>r. held (pc r) = held (sc_pcs s w)"
    and none: "\<And>q. mq_mem (sc_mq s) p = Some q \<Longrightarrow> owned (pc None) = (if mq_release q then {#p#} else {#})"
    and drop: "\<And>r p'. dropped (pc r) = Some p' \<Longrightarrow> p' = p \<and> (\<exists>g. flags (sc_mq s) p = Some (g, True))"
  shows "step_ok N (skynet_mq_pop p (sc_mq s) \<bind> (\<lambda>(r, mq). Some (goto w (pc r) (s\<lparr>sc_mq := mq\<rparr>))))"
proof -
  have ok: "mq_ok (sc_mq s) ps" using inv by (simp add: inv_parts_def)
  have "p \<in># owned (sc_pcs s w)" by (simp add: p)
  from owned_facts(1) [OF inv w this] obtain q where
    q: "mq_mem (sc_mq s) p = Some q" "mq_in_global q \<or> mq_release q" by blast
  from mq_pop_ok [OF ok q(1)] obtain r mq where r: "skynet_mq_pop p (sc_mq s) = Some (r, mq)" "mq_ok mq ps"
    "flags mq = (if r = None then (flags (sc_mq s))(p \<mapsto> (False, mq_release q)) else flags (sc_mq s))" by blast
  have f: "flags (sc_mq s) p = Some (mq_in_global q, mq_release q)" using q by (simp add: flags_def)
  have own: "owned (pc r) = (if r = None \<and> \<not> mq_release q then {#} else {#p#})"
    using none [OF q(1)] some(1) by (cases r) auto
  have "step_ok N (Some (goto w (pc r) (s\<lparr>sc_mq := mq\<rparr>)))"
  proof (rule step_okI [OF inv w r(2)])
    show "count (mset ps) a + count (owned (pc r)) a + scheduled (flags (sc_mq s) a) =
        count (mset ps) a + count (owned (sc_pcs s w)) a + scheduled (flags mq a)" for a
      using q(2) f by (auto simp: own p r(3) scheduled_def)
    show "held (pc r) = held (sc_pcs s w)" by (rule some(2))
    show "\<exists>g. flags mq p' = Some (g, True)" if "dropped (pc r) = Some p'" for p'
      using drop [OF that] f r(3) by auto
  qed (use f r(3) in \<open>auto split: if_splits\<close>)
  then show ?thesis by (simp add: r(1))
qed

lemma step_release:
  assumes inv: "inv_parts N ps s" and w: "w < N" and pc: "sc_pcs s w = W_Release p r"
  shows "step_ok N (map_option (goto w (return_queue r)) (context_release p s))"
proof -
  have "p \<in># held (sc_pcs s w)" by (simp add: pc)
  from held_facts [OF inv w this] obtain q where q: "mq_mem (sc_mq s) p = Some q" "\<not> mq_release q" and pos: "sc_ref s p \<ge> 1"
    by blast
  from context_release_ok [OF inv q] obtain s' ps' where s': "context_release p s = Some s'" "mq_ok (sc_mq s') ps'"
    "sc_ref s' = (sc_ref s)(p := sc_ref s p - 1)" "sc_reg s' = sc_reg s" "sc_ext s' = sc_ext s" "sc_unpub s' = sc_unpub s"
    "sc_pcs s' = sc_pcs s"
    "flags (sc_mq s') = (if sc_ref s p = 1 then (flags (sc_mq s))(p \<mapsto> (mq_in_global q, True)) else flags (sc_mq s))"
    "ps' = (if sc_ref s p = 1 \<and> \<not> mq_in_global q then ps @ [p] else ps)" by blast
  have f: "flags (sc_mq s) p = Some (mq_in_global q, False)" using q by (simp add: flags_def)
  have own: "owned (return_queue r) = owned (sc_pcs s w)" "held (return_queue r) = {#}" "dropped (return_queue r) = None"
    by (simp_all add: pc return_queue_def split: option.splits)
  have "sched_inv N (goto w (return_queue r) s')"
  proof (rule sched_inv_goto [where s = s and ps = ps and ps' = ps'])
    fix a
    show "count (mset ps') a + count (sc_unpub s') a + count (owned (return_queue r)) a + scheduled (flags (sc_mq s) a) =
      count (mset ps) a + count (sc_unpub s) a + count (owned (sc_pcs s w)) a + scheduled (flags (sc_mq s') a)"
      using f by (auto simp: s'(6,8,9) own scheduled_def)
  next
    fix a h assume h: "h + count (sc_ext s) a + count (held (sc_pcs s w)) a = count (refs N s) a"
    have "ref_ok (flags (sc_mq s) a) (sc_ref s a) (count (refs N s) a) (a \<in> sc_reg s)"
      using inv by (simp add: inv_parts_def)
    then show "ref_ok (flags (sc_mq s') a) (sc_ref s' a) (h + count (sc_ext s') a + count (held (return_queue r)) a) (a \<in> sc_reg s')"
      using f pos by (auto simp: s'(3,4,5,8) own pc ref_ok_def simp flip: h split: option.splits)
  next
    fix v a g assume "flags (sc_mq s) a = Some (g, True)"
    then show "\<exists>g. flags (sc_mq s') a = Some (g, True)" by (auto simp: s'(8))
  qed (use inv s' own w in \<open>auto simp: inv_parts_def\<close>)
  then show ?thesis by (simp add: s'(1) step_ok_def)
qed

lemma step_have:
  assumes inv: "inv_parts N ps s" and w: "w < N" and pc: "sc_pcs s w = W_Have p"
  shows "step_ok N (Some (if p \<in> sc_reg s then goto w (W_Loop p 0 1) (context_grab p s) else goto w (W_Drop p) s))"
proof (cases "p \<in> sc_reg s")
  case False
  have "step_ok N (Some (goto w (W_Drop p) (s\<lparr>sc_mq := sc_mq s\<rparr>)))"
    by (rule step_okI [OF inv w]) (use inv in \<open>simp_all add: inv_parts_def pc\<close>)
  then show ?thesis using False by simp
next
  case True
  obtain q where q: "mq_mem (sc_mq s) p = Some q" "\<not> mq_release q" "sc_ref s p \<ge> 1"
    using refs_facts [OF inv, of p] True by blast
  have f: "flags (sc_mq s) p = Some (mq_in_global q, False)" using q by (simp add: flags_def)
  have "sched_inv N (goto w (W_Loop p 0 1) (context_grab p s))"
  proof (rule sched_inv_goto [where s = s and ps = ps and ps' = ps])
    fix a h assume h: "h + count (sc_ext s) a + count (held (sc_pcs s w)) a = count (refs N s) a"
    have "ref_ok (flags (sc_mq s) a) (sc_ref s a) (count (refs N s) a) (a \<in> sc_reg s)"
      using inv by (simp add: inv_parts_def)
    then show "ref_ok (flags (sc_mq (context_grab p s)) a) (sc_ref (context_grab p s) a)
        (h + count (sc_ext (context_grab p s)) a + count (held (W_Loop p 0 1)) a) (a \<in> sc_reg (context_grab p s))"
      using f q(3) by (auto simp: context_grab_def pc ref_ok_def simp flip: h split: option.splits)
  qed (use inv w in \<open>auto simp: inv_parts_def context_grab_def pc\<close>)
  then show ?thesis using True by (simp add: step_ok_def)
qed

lemma step_overload:
  assumes inv: "inv_parts N ps s" and w: "w < N" and pc: "sc_pcs s w = W_Overload p i n m"
  shows "step_ok N (skynet_mq_overload p (sc_mq s) \<bind> (\<lambda>(overload, mq). Some (goto w (W_Call p i n m) (s\<lparr>sc_mq := mq\<rparr>))))"
proof -
  have ok: "mq_ok (sc_mq s) ps" using inv by (simp add: inv_parts_def)
  obtain q where "mq_mem (sc_mq s) p = Some q" using owned_facts(1) [OF inv w, of p] by (auto simp: pc)
  from mq_overload_ok [OF ok this] obtain k mq where
    mq: "skynet_mq_overload p (sc_mq s) = Some (k, mq)" "mq_ok mq ps" "flags mq = flags (sc_mq s)" by blast
  have "step_ok N (Some (goto w (W_Call p i n m) (s\<lparr>sc_mq := mq\<rparr>)))"
    by (rule step_okI [OF inv w mq(2)]) (simp_all add: mq(3) pc)
  then show ?thesis by (simp add: mq(1))
qed

lemma step_goto:
  assumes inv: "inv_parts N ps s" and w: "w < N" and "owned pc = owned (sc_pcs s w)" "held pc = held (sc_pcs s w)"
    and "\<And>p. dropped pc = Some p \<Longrightarrow> \<exists>g. flags (sc_mq s) p = Some (g, True)"
  shows "step_ok N (Some (goto w pc s))"
proof -
  have "step_ok N (Some (goto w pc (s\<lparr>sc_mq := sc_mq s\<rparr>)))"
    by (rule step_okI [OF inv w]) (use assms in \<open>auto simp: inv_parts_def\<close>)
  then show ?thesis by simp
qed

lemma step_free:
  assumes inv: "inv_parts N ps s" and w: "w < N" and pc: "sc_pcs s w = W_Free p"
  shows "step_ok N (mq_free p (sc_mq s) \<bind> (\<lambda>mq. Some (goto w W_Idle (s\<lparr>sc_mq := mq\<rparr>))))"
proof -
  have ok: "mq_ok (sc_mq s) ps" using inv by (simp add: inv_parts_def)
  have p: "p \<in># owned (sc_pcs s w)" by (simp add: pc)
  have "dropped (sc_pcs s w) = Some p" by (simp add: pc)
  then obtain g where f: "flags (sc_mq s) p = Some (g, True)" using inv w unfolding inv_parts_def by blast
  then obtain q where q: "mq_mem (sc_mq s) p = Some q" by (auto simp: flags_Some)
  from mq_free_ok [OF ok q owned_facts(2) [OF inv w p]] obtain mq where
    mq: "mq_free p (sc_mq s) = Some mq" "mq_ok mq ps" "flags mq = (flags (sc_mq s))(p := None)" by blast
  have "dropped (sc_pcs s v) \<noteq> Some p" if "v < N" "v \<noteq> w" for v
    using owned_facts(5) [OF inv w p that] by (cases "sc_pcs s v") auto
  then have "step_ok N (Some (goto w W_Idle (s\<lparr>sc_mq := mq\<rparr>)))"
    using f by (intro step_okI [OF inv w mq(2)]) (auto simp: mq(3) pc scheduled_def split: if_splits)
  then show ?thesis by (simp add: mq(1))
qed

lemma dispatch_step_ok:
  assumes "sched_inv N s" and w: "w < N"
  shows "step_ok N (dispatch_step weight w s)"
proof -
  obtain ps where inv: "inv_parts N ps s" using assms(1) by (auto simp: sched_inv_parts)
  note def = dispatch_step_def [of weight w s]
  note owned = owned_facts(1) [OF inv w] and held = held_facts(1) [OF inv w]
  show ?thesis
  proof (cases "sc_pcs s w")
    case W_Idle
    show ?thesis using step_pop_queue [OF inv w, of return_queue]
      by (simp add: def W_Idle return_queue_def split: option.splits)
  next
    case (W_Have p)
    then show ?thesis using step_have [OF inv w] by (simp add: def)
  next
    case (W_Loop p i n)
    obtain q where q: "mq_mem (sc_mq s) p = Some q" "\<not> mq_release q" using held [of p] W_Loop by auto
    show ?thesis
    proof (cases "i < n")
      case True
      let ?pc = "\<lambda>r. case r of None \<Rightarrow> W_Release p None
        | Some m \<Rightarrow> if i = 0 \<and> weight \<ge> 0 then W_Length p i n m else W_Overload p i n m"
      have "step_ok N (skynet_mq_pop p (sc_mq s) \<bind> (\<lambda>(r, mq). Some (goto w (?pc r) (s\<lparr>sc_mq := mq\<rparr>))))"
        by (rule step_pop_message [OF inv w]) (use W_Loop q in \<open>auto split: option.splits if_splits\<close>)
      then show ?thesis using True by (simp add: def W_Loop)
    next
      case False
      then show ?thesis
        using step_pop_queue [OF inv w, of "\<lambda>r. case r of None \<Rightarrow> W_Release p (Some p) | Some nq \<Rightarrow> W_Back p nq"]
        by (simp add: def W_Loop split: option.splits)
    qed
  next
    case (W_Length p i n m)
    obtain q where "mq_mem (sc_mq s) p = Some q" using owned [of p] W_Length by auto
    moreover have "step_ok N (Some (goto w (W_Overload p i k m) s))" for k
      using step_goto [OF inv w, of "W_Overload p i k m"] W_Length by simp
    ultimately show ?thesis by (simp add: def W_Length skynet_mq_length_def)
  next
    case (W_Overload p i n m)
    then show ?thesis using step_overload [OF inv w] by (simp add: def)
  next
    case (W_Call p i n m)
    then show ?thesis using step_goto [OF inv w, of "W_Loop p (i + 1) n"] by (simp add: def)
  next
    case (W_Back p nq)
    then show ?thesis using step_push_queue [OF inv w, of p "W_Release p (Some nq)"] by (simp add: def)
  next
    case (W_Release p r)
    then show ?thesis using step_release [OF inv w] by (simp add: def)
  next
    case (W_Drop p)
    obtain q where q: "mq_mem (sc_mq s) p = Some q" using owned [of p] W_Drop by auto
    show ?thesis
    proof (cases "mq_release q")
      case True
      then show ?thesis using step_goto [OF inv w, of "W_Dropping p"] q by (simp add: def W_Drop flags_Some)
    next
      case False
      then show ?thesis using step_push_queue [OF inv w, of p W_Idle] q by (simp add: def W_Drop)
    qed
  next
    case (W_Dropping p)
    then have f: "\<exists>g. flags (sc_mq s) p = Some (g, True)" using inv w by (auto simp: inv_parts_def)
    let ?pc = "\<lambda>r. case r of None \<Rightarrow> W_Free p | Some m \<Rightarrow> W_Dropping p"
    have "step_ok N (skynet_mq_pop p (sc_mq s) \<bind> (\<lambda>(r, mq). Some (goto w (?pc r) (s\<lparr>sc_mq := mq\<rparr>))))"
      by (rule step_pop_message [OF inv w]) (use W_Dropping f in \<open>auto simp: flags_Some split: option.splits\<close>)
    then show ?thesis by (simp add: def W_Dropping)
  next
    case (W_Free p)
    then show ?thesis using step_free [OF inv w] by (simp add: def)
  qed
qed

section \<open>The steps of the other threads\<close>

text \<open>Steps that change no worker: the frame of the invariant.\<close>

lemma sched_inv_frame:
  assumes inv: "inv_parts N ps s" and mq': "mq_ok (sc_mq s') ps'" and pcs: "sc_pcs s' = sc_pcs s"
    and tok: "\<And>p. count (mset ps') p + count (sc_unpub s') p + scheduled (flags (sc_mq s) p) =
      count (mset ps) p + count (sc_unpub s) p + scheduled (flags (sc_mq s') p)"
    and ref: "\<And>p h. h + count (sc_ext s) p = count (refs N s) p \<Longrightarrow>
      ref_ok (flags (sc_mq s') p) (sc_ref s' p) (h + count (sc_ext s') p) (p \<in> sc_reg s')"
    and drop: "\<And>p g. flags (sc_mq s) p = Some (g, True) \<Longrightarrow> \<exists>g. flags (sc_mq s') p = Some (g, True)"
  shows "sched_inv N s'"
proof -
  have "count (tokens N ps' s') p = scheduled (flags (sc_mq s') p)" for p
  proof -
    have "count (tokens N ps s) p = scheduled (flags (sc_mq s) p)" using inv by (simp add: inv_parts_def)
    then show ?thesis using tok [of p] unfolding tokens_def count_union pcs by linarith
  qed
  moreover have "ref_ok (flags (sc_mq s') p) (sc_ref s' p) (count (refs N s') p) (p \<in> sc_reg s')" for p
    using ref [of "count (\<Sum>w<N. held (sc_pcs s w)) p" p] by (simp add: refs_def pcs add.commute)
  moreover have "\<exists>g. flags (sc_mq s') p = Some (g, True)" if "w < N" "dropped (sc_pcs s' w) = Some p" for w p
    using that inv drop unfolding inv_parts_def pcs by blast
  ultimately show ?thesis using mq' unfolding sched_inv_def by blast
qed

lemma ref_inv: "inv_parts N ps s \<Longrightarrow> ref_ok (flags (sc_mq s) p) (sc_ref s p) (count (refs N s) p) (p \<in> sc_reg s)"
  by (simp add: inv_parts_def)

lemma ext_facts:
  assumes inv: "inv_parts N ps s" and p: "p \<in># sc_ext s"
  shows "\<exists>q. mq_mem (sc_mq s) p = Some q \<and> \<not> mq_release q" "sc_ref s p \<ge> 1"
proof -
  have "1 \<le> count (sc_ext s) p" using p by (simp add: Suc_le_eq)
  then have "count (refs N s) p \<ge> 1" unfolding refs_def count_union by linarith
  then show "\<exists>q. mq_mem (sc_mq s) p = Some q \<and> \<not> mq_release q" "sc_ref s p \<ge> 1"
    using refs_facts [OF inv] by blast+
qed

lemma unpub_facts:
  assumes inv: "inv_parts N ps s" and p: "p \<in># sc_unpub s"
  shows "mq_mem (sc_mq s) p \<noteq> None" "p \<notin> set ps" "count (sc_unpub s) p = 1"
proof -
  have c: "1 \<le> count (sc_unpub s) p" using p by (simp add: Suc_le_eq)
  then have "count (tokens N ps s) p \<ge> 1" unfolding tokens_def count_union by linarith
  note t = token_facts [OF inv this]
  then show "mq_mem (sc_mq s) p \<noteq> None" by auto
  have "count (mset ps) p = 0" using t(2) c unfolding tokens_def count_union by linarith
  then show "p \<notin> set ps" by (simp add: count_mset_0_iff)
  show "count (sc_unpub s) p = 1" using t(2) c unfolding tokens_def count_union by linarith
qed

lemma ctx_create_ok:
  assumes inv: "inv_parts N ps s" and new: "mq_mem (sc_mq s) p = None"
  shows "sched_inv N (context_create p h s)"
proof -
  have ok: "mq_ok (sc_mq s) ps" using inv by (simp add: inv_parts_def)
  note c = mq_create_ok [OF ok new, of h]
  have f: "flags (sc_mq s) p = None" using new by (simp add: flags_def)
  show ?thesis
  proof (rule sched_inv_frame [OF inv, where ps' = ps])
    fix a
    show "count (mset ps) a + count (sc_unpub (context_create p h s)) a + scheduled (flags (sc_mq s) a) =
      count (mset ps) a + count (sc_unpub s) a + scheduled (flags (sc_mq (context_create p h s)) a)"
      using f by (cases "a = p") (simp_all add: context_create_def c(2) scheduled_def)
  next
    fix a k assume k: "k + count (sc_ext s) a = count (refs N s) a"
    show "ref_ok (flags (sc_mq (context_create p h s)) a) (sc_ref (context_create p h s) a)
        (k + count (sc_ext (context_create p h s)) a) (a \<in> sc_reg (context_create p h s))"
      using ref_inv [OF inv, of a] f k
      by (cases "a = p") (auto simp: context_create_def c(2) ref_ok_def split: option.splits)
  next
    fix a g assume "flags (sc_mq s) a = Some (g, True)"
    then show "\<exists>g. flags (sc_mq (context_create p h s)) a = Some (g, True)" using f by (auto simp: context_create_def c(2))
  qed (use c in \<open>simp_all add: context_create_def\<close>)
qed

lemma ctx_publish_ok:
  assumes inv: "inv_parts N ps s" and p: "p \<in># sc_unpub s"
  shows "\<exists>mq. skynet_globalmq_push p (sc_mq s) = Some mq \<and> sched_inv N (s\<lparr>sc_mq := mq, sc_unpub := sc_unpub s - {#p#}\<rparr>)"
proof -
  have ok: "mq_ok (sc_mq s) ps" using inv by (simp add: inv_parts_def)
  note u = unpub_facts [OF inv p]
  from globalmq_push_ok [OF ok u(1,2)] obtain mq where
    mq: "skynet_globalmq_push p (sc_mq s) = Some mq" "mq_ok mq (ps @ [p])" "flags mq = flags (sc_mq s)" by blast
  have "sched_inv N (s\<lparr>sc_mq := mq, sc_unpub := sc_unpub s - {#p#}\<rparr>)"
    by (rule sched_inv_frame [OF inv, where ps' = "ps @ [p]"])
      (use mq u(3) ref_inv [OF inv] in \<open>auto simp: not_in_iff\<close>)
  then show ?thesis using mq(1) by blast
qed

lemma ctx_push_ok:
  assumes inv: "inv_parts N ps s" and p: "p \<in># sc_ext s"
  shows "\<exists>mq. skynet_mq_push p m (sc_mq s) = Some mq \<and> sched_inv N (s\<lparr>sc_mq := mq\<rparr>)"
proof -
  have ok: "mq_ok (sc_mq s) ps" using inv by (simp add: inv_parts_def)
  obtain q where q: "mq_mem (sc_mq s) p = Some q" "\<not> mq_release q" using ext_facts [OF inv p] by blast
  have f: "flags (sc_mq s) p = Some (mq_in_global q, False)" using q by (simp add: flags_def)
  from mq_push_ok [OF ok q(1) unscheduled_not_queued [OF inv q(1) _ q(2)]] obtain mq where
    mq: "skynet_mq_push p m (sc_mq s) = Some mq" "mq_ok mq (if mq_in_global q then ps else ps @ [p])"
      "flags mq = (flags (sc_mq s))(p \<mapsto> (True, False))" using q(2) by auto
  have "sched_inv N (s\<lparr>sc_mq := mq\<rparr>)"
  proof (rule sched_inv_frame [OF inv])
    show "mq_ok (sc_mq (s\<lparr>sc_mq := mq\<rparr>)) (if mq_in_global q then ps else ps @ [p])" using mq(2) by simp
  next
    fix a
    show "count (mset (if mq_in_global q then ps else ps @ [p])) a + count (sc_unpub (s\<lparr>sc_mq := mq\<rparr>)) a + scheduled (flags (sc_mq s) a) =
      count (mset ps) a + count (sc_unpub s) a + scheduled (flags (sc_mq (s\<lparr>sc_mq := mq\<rparr>)) a)"
      using f by (simp add: mq(3) scheduled_def)
  next
    fix a k assume k: "k + count (sc_ext s) a = count (refs N s) a"
    show "ref_ok (flags (sc_mq (s\<lparr>sc_mq := mq\<rparr>)) a) (sc_ref (s\<lparr>sc_mq := mq\<rparr>) a) (k + count (sc_ext (s\<lparr>sc_mq := mq\<rparr>)) a)
        (a \<in> sc_reg (s\<lparr>sc_mq := mq\<rparr>))"
      using ref_inv [OF inv, of a] f k by (auto simp: mq(3) ref_ok_def)
  next
    fix a g assume "flags (sc_mq s) a = Some (g, True)"
    then show "\<exists>g. flags (sc_mq (s\<lparr>sc_mq := mq\<rparr>)) a = Some (g, True)" using f by (auto simp: mq(3))
  qed simp
  then show ?thesis using mq(1) by blast
qed

lemma ctx_grab_ok:
  assumes inv: "inv_parts N ps s" and p: "p \<in> sc_reg s"
  shows "sched_inv N (context_grab p (s\<lparr>sc_ext := add_mset p (sc_ext s)\<rparr>))"
proof -
  obtain q where q: "mq_mem (sc_mq s) p = Some q" "\<not> mq_release q" "sc_ref s p \<ge> 1"
    using refs_facts [OF inv, of p] p by blast
  have f: "flags (sc_mq s) p = Some (mq_in_global q, False)" using q by (simp add: flags_def)
  show ?thesis
  proof (rule sched_inv_frame [OF inv, where ps' = ps])
    fix a k assume k: "k + count (sc_ext s) a = count (refs N s) a"
    let ?s = "context_grab p (s\<lparr>sc_ext := add_mset p (sc_ext s)\<rparr>)"
    show "ref_ok (flags (sc_mq ?s) a) (sc_ref ?s a) (k + count (sc_ext ?s) a) (a \<in> sc_reg ?s)"
      using ref_inv [OF inv, of a] f q(3) by (auto simp: context_grab_def ref_ok_def simp flip: k split: option.splits)
  qed (use inv in \<open>simp_all add: context_grab_def inv_parts_def\<close>)
qed

lemma ctx_retire_ok:
  assumes inv: "inv_parts N ps s" and p: "p \<in> sc_reg s"
  shows "sched_inv N (s\<lparr>sc_reg := sc_reg s - {p}, sc_ext := add_mset p (sc_ext s)\<rparr>)"
proof (rule sched_inv_frame [OF inv, where ps' = ps])
  fix a k assume k: "k + count (sc_ext s) a = count (refs N s) a"
  let ?s = "s\<lparr>sc_reg := sc_reg s - {p}, sc_ext := add_mset p (sc_ext s)\<rparr>"
  show "ref_ok (flags (sc_mq ?s) a) (sc_ref ?s a) (k + count (sc_ext ?s) a) (a \<in> sc_reg ?s)"
    using ref_inv [OF inv, of a] p by (auto simp: ref_ok_def simp flip: k split: option.splits)
qed (use inv in \<open>simp_all add: inv_parts_def\<close>)

lemma ctx_release_ok:
  assumes inv: "inv_parts N ps s" and p: "p \<in># sc_ext s"
  shows "\<exists>s'. context_release p (s\<lparr>sc_ext := sc_ext s - {#p#}\<rparr>) = Some s' \<and> sched_inv N s'"
proof -
  obtain q where q: "mq_mem (sc_mq s) p = Some q" "\<not> mq_release q" and pos: "sc_ref s p \<ge> 1"
    using ext_facts [OF inv p] by blast
  from context_release_ok [OF inv q] obtain s1 ps' where s1: "context_release p s = Some s1" "mq_ok (sc_mq s1) ps'"
    "sc_ref s1 = (sc_ref s)(p := sc_ref s p - 1)" "sc_reg s1 = sc_reg s" "sc_ext s1 = sc_ext s" "sc_unpub s1 = sc_unpub s"
    "sc_pcs s1 = sc_pcs s"
    "flags (sc_mq s1) = (if sc_ref s p = 1 then (flags (sc_mq s))(p \<mapsto> (mq_in_global q, True)) else flags (sc_mq s))"
    "ps' = (if sc_ref s p = 1 \<and> \<not> mq_in_global q then ps @ [p] else ps)" by blast
  have f: "flags (sc_mq s) p = Some (mq_in_global q, False)" using q by (simp add: flags_def)
  let ?s = "s1\<lparr>sc_ext := sc_ext s - {#p#}\<rparr>"
  have eq: "context_release p (s\<lparr>sc_ext := sc_ext s - {#p#}\<rparr>) = Some ?s"
    using s1(1) by (auto simp: context_release_def Let_def split: if_splits)
  have "sched_inv N ?s"
  proof (rule sched_inv_frame [OF inv, where ps' = ps'])
    fix a
    show "count (mset ps') a + count (sc_unpub ?s) a + scheduled (flags (sc_mq s) a) =
      count (mset ps) a + count (sc_unpub s) a + scheduled (flags (sc_mq ?s) a)"
      using f by (auto simp: s1(6,8,9) scheduled_def)
  next
    fix a k assume k: "k + count (sc_ext s) a = count (refs N s) a"
    have "1 \<le> count (sc_ext s) p" "p \<in># refs N s" using p by (simp_all add: Suc_le_eq refs_def)
    then show "ref_ok (flags (sc_mq ?s) a) (sc_ref ?s a) (k + count (sc_ext ?s) a) (a \<in> sc_reg ?s)"
      using ref_inv [OF inv, of a] f pos k
      by (cases "a = p") (auto simp: s1(3,4,8) ref_ok_def of_nat_diff split: option.splits)
  next
    fix a g assume "flags (sc_mq s) a = Some (g, True)"
    then show "\<exists>g. flags (sc_mq ?s) a = Some (g, True)" by (auto simp: s1(8))
  qed (use s1 in simp_all)
  then show ?thesis using eq by blast
qed

lemma ctx_abandon_ok:
  assumes inv: "inv_parts N ps s" and p: "p \<in># sc_unpub s" and q: "mq_mem (sc_mq s) p = Some q" "mq_release q"
    and w: "w < N" and pc: "sc_pcs s w = W_Idle"
  shows "sched_inv N (goto w (W_Dropping p) (s\<lparr>sc_unpub := sc_unpub s - {#p#}\<rparr>))"
proof (rule sched_inv_goto [where s = s and ps = ps and ps' = ps])
  fix a
  show "count (mset ps) a + count (sc_unpub (s\<lparr>sc_unpub := sc_unpub s - {#p#}\<rparr>)) a + count (owned (W_Dropping p)) a +
      scheduled (flags (sc_mq s) a) =
    count (mset ps) a + count (sc_unpub s) a + count (owned (sc_pcs s w)) a +
      scheduled (flags (sc_mq (s\<lparr>sc_unpub := sc_unpub s - {#p#}\<rparr>)) a)"
    using unpub_facts(3) [OF inv p] by (cases "p = a") (simp_all add: pc)
next
  fix a h assume "h + count (sc_ext s) a + count (held (sc_pcs s w)) a = count (refs N s) a"
  then show "ref_ok (flags (sc_mq (s\<lparr>sc_unpub := sc_unpub s - {#p#}\<rparr>)) a) (sc_ref (s\<lparr>sc_unpub := sc_unpub s - {#p#}\<rparr>) a)
      (h + count (sc_ext (s\<lparr>sc_unpub := sc_unpub s - {#p#}\<rparr>)) a + count (held (W_Dropping p)) a)
      (a \<in> sc_reg (s\<lparr>sc_unpub := sc_unpub s - {#p#}\<rparr>))"
    using ref_inv [OF inv, of a] by (simp add: pc)
qed (use inv w q in \<open>auto simp: inv_parts_def flags_def\<close>)

lemma sched_inv_init: "sched_init s \<Longrightarrow> sched_inv N s"
  using gq_list_init
  by (auto simp: sched_init_def sched_inv_def mq_ok_def tokens_def refs_def flags_def skynet_mq_init_def
      scheduled_def ref_ok_def)

interpretation sched: transition_system sched_init "sched_step N weight" "sched_inv N"
proof
  show "sched_inv N s" if "sched_init s" for s using that by (rule sched_inv_init)
  show "sched_inv N s'" if "sched_inv N s" and step: "sched_step N weight s s'" for s s'
  proof -
    from that(1) obtain ps where inv: "inv_parts N ps s" unfolding sched_inv_parts by (rule exE)
    from step show ?thesis
    proof cases
      case (publish p mq)
      then show ?thesis using ctx_publish_ok [OF inv publish(2)] by auto
    next
      case (push p m mq)
      then show ?thesis using ctx_push_ok [OF inv push(2), of m] by auto
    next
      case (release p)
      then show ?thesis using ctx_release_ok [OF inv release(1)] by auto
    next
      case (worker w)
      then show ?thesis using dispatch_step_ok [OF that(1) worker(1), of "weight w"] by (auto simp: step_ok_def)
    qed (use ctx_create_ok [OF inv] ctx_abandon_ok [OF inv] ctx_grab_ok [OF inv] ctx_retire_ok [OF inv] in auto)
  qed
qed

section \<open>Properties\<close>

abbreviation sched_reachable :: "nat \<Rightarrow> (nat \<Rightarrow> int) \<Rightarrow> sched \<Rightarrow> bool" where
  "sched_reachable N weight \<equiv> reachable sched_init (sched_step N weight)"

lemma reachable_parts: "sched_reachable N weight s \<Longrightarrow> \<exists>ps. inv_parts N ps s"
  using sched.invariant [of N weight s] by (simp add: sched_inv_parts)

text \<open>C2.  One service, one worker.  Whatever the workers and the other threads do, a mailbox is owned
  by at most one worker, and by none while it is in the run queue: the callback of a service never
  runs in two threads at once.\<close>

theorem one_worker_per_service:
  assumes "sched_reachable N weight s" "v < N" "w < N" "p \<in># owned (sc_pcs s v)" "p \<in># owned (sc_pcs s w)"
  shows "v = w \<and> (\<exists>ps. gq_list (sc_mq s) ps \<and> p \<notin> set ps)"
proof -
  obtain ps where inv: "inv_parts N ps s" using reachable_parts [OF assms(1)] by blast
  then show ?thesis using owned_facts(2,5) [OF inv assms(3,5)] assms(2,4) by (auto simp: inv_parts_def mq_ok_def)
qed

text \<open>C11.  No message is stranded: a mailbox with messages is in the run queue, or owned by one of the
  workers, or its creator has still to push it.\<close>

theorem no_stranded_messages:
  assumes "sched_reachable N weight s" "mq_mem (sc_mq s) p = Some q" "mq_contents q \<noteq> []"
  shows "(\<exists>ps. gq_list (sc_mq s) ps \<and> p \<in> set ps) \<or> (\<exists>w<N. p \<in># owned (sc_pcs s w)) \<or> p \<in># sc_unpub s"
proof -
  obtain ps where inv: "inv_parts N ps s" using reachable_parts [OF assms(1)] by blast
  then have ok: "mq_ok (sc_mq s) ps" by (simp add: inv_parts_def)
  have "mq_in_global q" using mq_ok_mem(2) [OF ok assms(2)] assms(3) by blast
  then have "count (tokens N ps s) p = 1" using inv assms(2) by (simp add: inv_parts_def scheduled_def flags_def)
  then have "0 < count (tokens N ps s) p" by simp
  then have "p \<in># tokens N ps s" by (rule count_greater_zero_iff [THEN iffD1])
  then have "p \<in> set ps \<or> p \<in># sc_unpub s \<or> (\<exists>w<N. p \<in># owned (sc_pcs s w))"
    by (auto simp: tokens_def set_mset_sum)
  then show ?thesis using ok by (auto simp: mq_ok_def)
qed



subsection \<open>Witnesses\<close>

text \<open>A context is created and published, gets a message and is taken by worker 0.\<close>

definition sched_start :: sched where
  "sched_start = \<lparr>sc_mq = skynet_mq_init, sc_ref = \<lambda>_. 0, sc_reg = {}, sc_ext = {#}, sc_unpub = {#}, sc_pcs = \<lambda>_. W_Idle\<rparr>"

definition example_message :: skynet_message where
  "example_message = \<lparr>msg_source = 1, msg_session = 1, msg_data = 0, msg_sz = 0\<rparr>"

definition sched_created :: sched where
  "sched_created = context_create 5 0x01000001 sched_start"

definition sched_published :: sched where
  "sched_published = sched_created\<lparr>sc_mq := the (skynet_globalmq_push 5 (sc_mq sched_created)), sc_unpub := {#}\<rparr>"

definition sched_pushed :: sched where
  "sched_pushed = sched_published\<lparr>sc_mq := the (skynet_mq_push 5 example_message (sc_mq sched_published))\<rparr>"

definition sched_taken :: sched where
  "sched_taken = the (dispatch_step 0 0 sched_pushed)"

lemmas sched_demo_defs = sched_start_def sched_created_def sched_published_def sched_pushed_def sched_taken_def
  context_create_def skynet_mq_create_def mq_store_def skynet_mq_init_def mq_new_def skynet_globalmq_push_def
  skynet_mq_push_def mq_enqueue_def skynet_globalmq_pop_def dispatch_step_def goto_def return_queue_def
  DEFAULT_QUEUE_SIZE_def MQ_OVERLOAD_def

lemma sched_published_queue: "skynet_globalmq_push 5 (sc_mq sched_created) = Some (sc_mq sched_published)"
  by (simp add: sched_demo_defs)

lemma sched_pushed_queue: "skynet_mq_push 5 example_message (sc_mq sched_published) = Some (sc_mq sched_pushed)"
  by (simp add: sched_demo_defs Let_def)

lemma sched_taken_step: "dispatch_step 0 0 sched_pushed = Some sched_taken"
  by (simp add: sched_demo_defs Let_def)

lemma sched_taken_facts:
  "sc_pcs sched_taken 0 = W_Have 5" "5 \<in># sc_ext sched_taken" "5 \<in> sc_reg sched_taken"
  "\<exists>q. mq_mem (sc_mq sched_taken) 5 = Some q \<and> mq_contents q = [example_message]"
  by (simp_all add: sched_demo_defs Let_def mq_contents_def ring_len_def ring_cells_def)

lemma sched_taken_reachable: "sched_reachable 1 (\<lambda>_. 0) sched_taken"
proof -
  have "sched_reachable 1 (\<lambda>_. 0) sched_start"
    by (rule reachable_init) (simp add: sched_init_def sched_start_def)
  then have "sched_reachable 1 (\<lambda>_. 0) sched_created"
    unfolding sched_created_def
    by (rule reachable_step) (rule sched_step.create, simp add: sched_start_def skynet_mq_init_def)
  then have "sched_reachable 1 (\<lambda>_. 0) (sched_created\<lparr>sc_mq := sc_mq sched_published, sc_unpub := sc_unpub sched_created - {#5#}\<rparr>)"
    by (rule reachable_step)
      (rule sched_step.publish [OF _ sched_published_queue], simp add: sched_created_def context_create_def)
  then have "sched_reachable 1 (\<lambda>_. 0) sched_published"
    by (simp add: sched_published_def sched_created_def context_create_def sched_start_def)
  then have "sched_reachable 1 (\<lambda>_. 0) (sched_published\<lparr>sc_mq := sc_mq sched_pushed\<rparr>)"
    by (rule reachable_step) (rule sched_step.push [OF _ sched_pushed_queue],
        simp add: sched_published_def sched_created_def context_create_def)
  then have "sched_reachable 1 (\<lambda>_. 0) sched_pushed" by (simp add: sched_pushed_def)
  then show ?thesis by (rule reachable_step) (rule sched_step.worker [of 0], simp_all add: sched_taken_step)
qed

theorem one_worker_per_service_witness:
  "5 \<in># owned (sc_pcs sched_taken 0) \<and> (\<exists>ps. gq_list (sc_mq sched_taken) ps \<and> 5 \<notin> set ps)"
  using one_worker_per_service [OF sched_taken_reachable, of 0 0 5] sched_taken_facts(1) by simp

theorem no_stranded_messages_witness:
  "\<exists>q. mq_mem (sc_mq sched_taken) 5 = Some q \<and> mq_contents q = [example_message] \<and>
    ((\<exists>ps. gq_list (sc_mq sched_taken) ps \<and> 5 \<in> set ps) \<or> (\<exists>w<1. 5 \<in># owned (sc_pcs sched_taken w)) \<or>
     5 \<in># sc_unpub sched_taken)"
proof -
  from sched_taken_facts(4) obtain q where "mq_mem (sc_mq sched_taken) 5 = Some q" "mq_contents q = [example_message]" by blast
  with no_stranded_messages [OF sched_taken_reachable this(1)] show ?thesis by auto
qed



end
