(* ===== verification/CString.thy ===== *)
theory CString
  imports Prelude
begin

text \<open>
  The functions of the C library on strings that the server uses to read handles and numbers
  out of text: \<open>strtoul\<close>, \<open>strtol\<close>, \<open>strsep\<close>, \<open>sscanf\<close> with \<open>%s\<close>, and the formats \<open>%x\<close>, \<open>%d\<close>
  and \<open>%08x\<close>.  A C string is the list of its characters before the terminating NUL.
\<close>

section \<open>Numbers\<close>

definition c_isspace :: "char \<Rightarrow> bool" where
  "c_isspace c \<longleftrightarrow> c = CHR '' '' \<or> of_char c \<in> {9 .. 13 :: nat}"

definition digit_value :: "char \<Rightarrow> nat option" where
  "digit_value c = (let k = (of_char c :: nat) in
     if 48 \<le> k \<and> k \<le> 57 then Some (k - 48)
     else if 97 \<le> k \<and> k \<le> 122 then Some (k - 87)
     else if 65 \<le> k \<and> k \<le> 90 then Some (k - 55)
     else None)"

definition is_digit :: "nat \<Rightarrow> char \<Rightarrow> bool" where
  "is_digit base c = (case digit_value c of None \<Rightarrow> False | Some d \<Rightarrow> d < base)"

text \<open>The digits at the front, and what is left.\<close>

fun read_digits :: "nat \<Rightarrow> nat \<Rightarrow> string \<Rightarrow> nat \<times> string" where
  "read_digits base acc [] = (acc, [])"
| "read_digits base acc (c # cs) =
     (if is_digit base c then read_digits base (acc * base + the (digit_value c)) cs else (acc, c # cs))"

definition read_sign :: "string \<Rightarrow> bool \<times> string" where
  "read_sign s = (case s of
       c # cs \<Rightarrow> if c = CHR ''-'' then (True, cs) else if c = CHR ''+'' then (False, cs) else (False, s)
     | [] \<Rightarrow> (False, s))"

text \<open>A prefix \<open>0x\<close> is skipped for base 16 when a digit follows.\<close>

definition skip_0x :: "string \<Rightarrow> string option" where
  "skip_0x s = (case s of
       z # x # d # cs \<Rightarrow> if z = CHR ''0'' \<and> (x = CHR ''x'' \<or> x = CHR ''X'') \<and> is_digit 16 d then Some (d # cs) else None
     | _ \<Rightarrow> None)"

definition read_base :: "nat \<Rightarrow> string \<Rightarrow> nat \<times> string" where
  "read_base base s =
     (if base = 16 then (16, case skip_0x s of Some s' \<Rightarrow> s' | None \<Rightarrow> s)
      else if base = 0 then
        (case skip_0x s of Some s' \<Rightarrow> (16, s')
         | None \<Rightarrow> if s \<noteq> [] \<and> hd s = CHR ''0'' then (8, s) else (10, s))
      else (base, s))"

text \<open>The sign, the magnitude and what is left.\<close>

definition read_number :: "nat \<Rightarrow> string \<Rightarrow> bool \<times> nat \<times> string" where
  "read_number base s =
     (let (neg, s1) = read_sign (dropWhile c_isspace s);
          (b, s2) = read_base base s1
      in (neg, read_digits b 0 s2))"

text \<open>\<open>unsigned long\<close> and \<open>long\<close> have 64 bits; out of range the result is the nearest bound.\<close>

definition strtoul :: "nat \<Rightarrow> string \<Rightarrow> u64" where
  "strtoul base s =
     (let (neg, n, _) = read_number base s in
      if n \<ge> 2 ^ 64 then - 1 else if neg then - of_nat n else of_nat n)"

definition strtol :: "nat \<Rightarrow> string \<Rightarrow> int" where
  "strtol base s =
     (let (neg, n, _) = read_number base s in
      if neg then max (- (2 ^ 63)) (- int n) else min (2 ^ 63 - 1) (int n))"

section \<open>Formats\<close>

definition hex_char :: "nat \<Rightarrow> char" where
  "hex_char d = char_of (if d < 10 then 48 + d else 87 + d)"

fun digits_of :: "nat \<Rightarrow> nat \<Rightarrow> string" where
  "digits_of base n =
     (if base < 2 \<or> n < base then [hex_char n] else digits_of base (n div base) @ [hex_char (n mod base)])"

declare digits_of.simps [simp del]

definition fmt_x :: "u32 \<Rightarrow> string" where "fmt_x w = digits_of 16 (unat w)"
definition fmt_u :: "u32 \<Rightarrow> string" where "fmt_u w = digits_of 10 (unat w)"
definition fmt_d :: "int \<Rightarrow> string" where
  "fmt_d i = (if i < 0 then CHR ''-'' # digits_of 10 (nat (- i)) else digits_of 10 (nat i))"

definition fmt_08x :: "u32 \<Rightarrow> string" where
  "fmt_08x w = (let s = fmt_x w in replicate (8 - length s) (CHR ''0'') @ s)"

section \<open>Splitting\<close>

text \<open>\<open>strsep(&s, delim)\<close>: the token up to the first delimiter and what is left after it.\<close>

definition strsep :: "string \<Rightarrow> string option \<Rightarrow> string option \<times> string option" where
  "strsep delim s = (case s of
       None \<Rightarrow> (None, None)
     | Some t \<Rightarrow> (Some (takeWhile (\<lambda>c. c \<notin> set delim) t),
         case dropWhile (\<lambda>c. c \<notin> set delim) t of [] \<Rightarrow> None | _ # rest \<Rightarrow> Some rest))"

text \<open>One conversion \<open>%s\<close> of \<open>sscanf\<close>; \<open>None\<close> when the input ends first.\<close>

definition scan_word :: "string \<Rightarrow> (string \<times> string) option" where
  "scan_word s = (let t = dropWhile c_isspace s in
     if t = [] then None else Some (takeWhile (\<lambda>c. \<not> c_isspace c) t, dropWhile (\<lambda>c. \<not> c_isspace c) t))"

definition strchr :: "char \<Rightarrow> string \<Rightarrow> string option" where
  "strchr c s = (case dropWhile (\<lambda>x. x \<noteq> c) s of [] \<Rightarrow> None | t \<Rightarrow> Some t)"

section \<open>Reading what was printed\<close>

lemma read_digits_append:
  "list_all (is_digit base) xs \<Longrightarrow> read_digits base acc (xs @ ys) = read_digits base (fst (read_digits base acc xs)) ys"
  by (induction xs arbitrary: acc) auto

lemma read_digits_all:
  "list_all (is_digit base) xs \<Longrightarrow> snd (read_digits base acc xs) = []"
  by (induction xs arbitrary: acc) auto

lemma digit_value_hex_char: "d < 16 \<Longrightarrow> digit_value (hex_char d) = Some d"
  by (auto simp: digit_value_def hex_char_def Let_def)

lemma is_digit_hex_char: "d < base \<Longrightarrow> base \<le> 16 \<Longrightarrow> is_digit base (hex_char d)"
  by (simp add: is_digit_def digit_value_hex_char)

lemma digits_of_digits: "1 < base \<Longrightarrow> base \<le> 16 \<Longrightarrow> list_all (is_digit base) (digits_of base n)"
proof (induction base n rule: digits_of.induct)
  case (1 base n)
  then show ?case
    by (subst digits_of.simps) (auto simp: is_digit_hex_char)
qed

lemma read_digits_digits_of:
  assumes "1 < base" "base \<le> 16"
  shows "read_digits base 0 (digits_of base n) = (n, [])"
  using assms
proof (induction base n rule: digits_of.induct)
  case (1 base n)
  show ?case
  proof (cases "n < base")
    case True
    then show ?thesis using 1 by (subst digits_of.simps) (simp add: is_digit_hex_char digit_value_hex_char)
  next
    case False
    then have IH: "read_digits base 0 (digits_of base (n div base)) = (n div base, [])" using 1 by auto
    have d: "n mod base < base" "n mod base < 16" using 1 mod_less_divisor [of base n] by linarith+
    have "read_digits base 0 (digits_of base (n div base) @ [hex_char (n mod base)]) = (n, [])"
      using 1 d by (simp add: read_digits_append digits_of_digits IH is_digit_hex_char digit_value_hex_char)
    then show ?thesis using False 1 by (subst digits_of.simps) simp
  qed
qed

lemma digits_of_not_Nil: "digits_of base n \<noteq> []"
  by (subst digits_of.simps) simp

lemma is_digit_facts:
  assumes "is_digit 16 c"
  shows "\<not> c_isspace c" "c \<noteq> CHR ''-''" "c \<noteq> CHR ''+''" "c \<noteq> CHR ''x''" "c \<noteq> CHR ''X''"
  using assms by (auto simp: is_digit_def digit_value_def c_isspace_def Let_def split: if_splits)

lemma skip_0x_digits: "list_all (is_digit 16) s \<Longrightarrow> skip_0x s = None"
  by (auto simp: skip_0x_def is_digit_def digit_value_def split: list.split)

lemma dropWhile_digits: "list_all (is_digit 16) s \<Longrightarrow> dropWhile c_isspace s = s"
  by (cases s) (auto simp: is_digit_facts)

lemma read_sign_digits: "list_all (is_digit 16) s \<Longrightarrow> read_sign s = (False, s)"
  by (cases s) (auto simp: read_sign_def is_digit_facts)

lemma read_number_digits:
  "list_all (is_digit 16) s \<Longrightarrow> read_number 16 s = (False, read_digits 16 0 s)"
  by (simp add: read_number_def dropWhile_digits read_sign_digits read_base_def skip_0x_digits)

lemma strtoul_digits:
  assumes "list_all (is_digit 16) s" "fst (read_digits 16 0 s) = unat w"
  shows "ucast (strtoul 16 s) = (w :: u32)"
proof -
  have "unat w < 2 ^ 32" by (rule unsigned_less [THEN less_le_trans]) simp
  then have "unat w < 2 ^ 64" by simp
  moreover have "ucast (ucast w :: u64) = w" by (rule bit_word_eqI) (simp add: bit_simps)
  ultimately show ?thesis
    using assms by (simp add: strtoul_def read_number_digits Let_def split_beta not_le)
qed

lemma strtoul_fmt_x: "ucast (strtoul 16 (fmt_x w)) = w"
  by (rule strtoul_digits) (simp_all add: fmt_x_def digits_of_digits read_digits_digits_of)

text \<open>Leading zeros do not change what is read.\<close>

lemma read_digits_zeros: "read_digits 16 0 (replicate n (CHR ''0'') @ s) = read_digits 16 0 s"
  by (induction n) (simp_all add: is_digit_def digit_value_def)

end
