(* ===== verification/Node.thy ===== *)
theory Node
  imports Handle Scheduler Timer CString Bytes
begin

text \<open>
  One node of the server as one state: the contexts, their mailboxes, the handle table, the
  memory of message data, and the functions of \<open>skynet_server.c\<close>, \<open>skynet_harbor.c\<close>,
  \<open>skynet_error.c\<close> and \<open>skynet_monitor.c\<close> that send messages and manage contexts.  Every function
  runs as in one thread; what other threads may do in between is the subject of \<open>Scheduler\<close>.

  A result \<open>None\<close> is an assertion that fails or a use of memory that is not allocated.
\<close>

section \<open>State\<close>

definition GLOBALNAME_LENGTH :: nat where "GLOBALNAME_LENGTH = 16"

definition PTYPE_TEXT :: u32 where "PTYPE_TEXT = 0"
definition PTYPE_CLIENT :: u32 where "PTYPE_CLIENT = 3"
definition PTYPE_SYSTEM :: int where "PTYPE_SYSTEM = 4"
definition PTYPE_HARBOR :: int where "PTYPE_HARBOR = 5"
definition PTYPE_SOCKET :: int where "PTYPE_SOCKET = 6"
definition PTYPE_ERROR :: u32 where "PTYPE_ERROR = 7"
definition PTYPE_TAG_DONTCOPY :: u32 where "PTYPE_TAG_DONTCOPY = 0x10000"
definition PTYPE_TAG_ALLOCSESSION :: u32 where "PTYPE_TAG_ALLOCSESSION = 0x20000"

definition MESSAGE_TYPE_MASK :: u64 where
  "MESSAGE_TYPE_MASK = drop_bit 8 (- 1)"

text \<open>\<open>struct remote_message\<close>, with \<open>struct remote_name\<close> as its first two fields.\<close>

record remote_message =
  rm_name :: string
  rm_handle :: u32
  rm_message :: addr
  rm_sz :: u64

text \<open>What \<open>skynet_malloc\<close> returned a pointer to: bytes, or a message for the harbor service.\<close>

datatype block = Data "u8 list" | Remote remote_message

text \<open>
  A context.  \<open>cb\<close> is the callback with its \<open>cb_ud\<close>, if it is set; a log file is named by a number.
  \<open>session_id\<close> is a C \<open>int\<close>, kept as the word that holds it.
\<close>

record skynet_context =
  cx_handle :: u32
  cx_session_id :: u32
  cx_ref :: int
  cx_queue :: addr
  cx_cb :: "nat option"
  cx_logfile :: "nat option"
  cx_result :: string
  cx_init :: bool
  cx_endless :: bool

text \<open>Calls to the functions of a service module whose effect on the node is not followed.\<close>

datatype module_event = Released addr | Signalled addr int

text \<open>
  \<open>nd_brk\<close> is the address the next \<open>skynet_malloc\<close> returns.  \<open>nd_total\<close> and \<open>nd_monitor_exit\<close> are
  \<open>G_NODE\<close>, \<open>nd_harbor\<close> and \<open>nd_remote\<close> are \<open>HARBOR\<close> and \<open>REMOTE\<close>, and \<open>nd_logger\<close> is the static variable of
  \<open>skynet_error\<close>.
\<close>

record node =
  nd_mq :: mq_state
  nd_handles :: handle_storage
  nd_ctx :: "addr \<rightharpoonup> skynet_context"
  nd_heap :: "addr \<rightharpoonup> block"
  nd_brk :: addr
  nd_total :: int
  nd_monitor_exit :: u32
  nd_harbor :: u32
  nd_remote :: "addr option"
  nd_logger :: u32
  nd_env :: "string \<rightharpoonup> string"
  nd_timer :: timer
  nd_files :: "nat \<rightharpoonup> string"
  nd_events :: "module_event list"

section \<open>Memory\<close>

definition skynet_malloc :: "block \<Rightarrow> node \<Rightarrow> addr \<times> node" where
  "skynet_malloc b nd = (nd_brk nd, nd\<lparr>nd_heap := (nd_heap nd)(nd_brk nd \<mapsto> b), nd_brk := nd_brk nd + 1\<rparr>)"

definition skynet_free :: "addr \<Rightarrow> node \<Rightarrow> node option" where
  "skynet_free p nd =
     (if p = 0 then Some nd
      else if nd_heap nd p = None then None
      else Some (nd\<lparr>nd_heap := (nd_heap nd)(p := None)\<rparr>))"

text \<open>\<open>memcpy\<close> from the first \<open>n\<close> bytes at \<open>p\<close>.\<close>

definition read_bytes :: "addr \<Rightarrow> nat \<Rightarrow> node \<Rightarrow> u8 list option" where
  "read_bytes p n nd = (if n = 0 then Some [] else
     case nd_heap nd p of
       Some (Data bs) \<Rightarrow> if n \<le> length bs then Some (take n bs) else None
     | _ \<Rightarrow> None)"

definition fprintf :: "nat \<Rightarrow> string \<Rightarrow> node \<Rightarrow> node" where
  "fprintf f text nd = nd\<lparr>nd_files := (nd_files nd)(f := map_option (\<lambda>t. t @ text) (nd_files nd f))\<rparr>"

definition fclose :: "nat \<Rightarrow> node \<Rightarrow> node" where
  "fclose f nd = nd\<lparr>nd_files := (nd_files nd)(f := None)\<rparr>"

definition char_byte :: "char \<Rightarrow> u8" where "char_byte c = of_nat (of_char c)"

definition c_string :: "string \<Rightarrow> u8 list" where "c_string s = map char_byte s @ [0]"

section \<open>Contexts\<close>

definition set_ctx :: "addr \<Rightarrow> skynet_context \<Rightarrow> node \<Rightarrow> node" where
  "set_ctx p c nd = nd\<lparr>nd_ctx := (nd_ctx nd)(p \<mapsto> c)\<rparr>"

text \<open>The handle that a pointer to a context gives; the handle table reads it through the pointer.\<close>

definition handle_of :: "node \<Rightarrow> addr \<Rightarrow> u32" where
  "handle_of nd p = (case nd_ctx nd p of Some c \<Rightarrow> cx_handle c | None \<Rightarrow> 0)"

definition skynet_context_newsession :: "addr \<Rightarrow> node \<Rightarrow> (int \<times> node) option" where
  "skynet_context_newsession p nd = do {
     c \<leftarrow> nd_ctx nd p;
     let session = cx_session_id c + 1;
     if sint session \<le> 0 then Some (1, set_ctx p (c\<lparr>cx_session_id := 1\<rparr>) nd)
     else Some (sint session, set_ctx p (c\<lparr>cx_session_id := session\<rparr>) nd)
   }"

definition skynet_context_grab :: "addr \<Rightarrow> node \<Rightarrow> node option" where
  "skynet_context_grab p nd = do {
     c \<leftarrow> nd_ctx nd p;
     Some (set_ctx p (c\<lparr>cx_ref := cx_ref c + 1\<rparr>) nd)
   }"

definition skynet_context_reserve :: "addr \<Rightarrow> node \<Rightarrow> node option" where
  "skynet_context_reserve p nd = map_option (\<lambda>nd'. nd'\<lparr>nd_total := nd_total nd' - 1\<rparr>) (skynet_context_grab p nd)"

definition delete_context :: "addr \<Rightarrow> node \<Rightarrow> node option" where
  "delete_context p nd = do {
     c \<leftarrow> nd_ctx nd p;
     let files = (case cx_logfile c of None \<Rightarrow> nd_files nd | Some f \<Rightarrow> (nd_files nd)(f := None));
     mq \<leftarrow> skynet_mq_mark_release (cx_queue c) (nd_mq nd);
     Some (nd\<lparr>nd_files := files, nd_events := nd_events nd @ [Released p], nd_mq := mq,
       nd_ctx := (nd_ctx nd)(p := None), nd_total := nd_total nd - 1\<rparr>)
   }"

text \<open>
  The context is at the address \<open>p\<close>, its mailbox at the next one.  Between the registration of the
  context and the creation of its mailbox its \<open>queue\<close> is not set.
\<close>

definition new_context :: "addr \<Rightarrow> node \<Rightarrow> node option" where
  "new_context p nd = do {
     let nd1 = set_ctx p \<lparr>cx_handle = 0, cx_session_id = 0, cx_ref = 2, cx_queue = 0, cx_cb = None,
       cx_logfile = None, cx_result = [], cx_init = False, cx_endless = False\<rparr> (nd\<lparr>nd_brk := p + 2\<rparr>);
     (handle, hs) \<leftarrow> skynet_handle_register (handle_of nd1) p (nd_handles nd1);
     c \<leftarrow> nd_ctx nd1 p;
     Some (set_ctx p (c\<lparr>cx_handle := handle, cx_queue := p + 1\<rparr>)
       (nd1\<lparr>nd_handles := hs, nd_mq := skynet_mq_create (p + 1) handle (nd_mq nd1), nd_total := nd_total nd1 + 1\<rparr>))
   }"

text \<open>The result is whether the context is still there (the C function returns it or NULL).\<close>

definition skynet_context_release :: "addr \<Rightarrow> node \<Rightarrow> (bool \<times> node) option" where
  "skynet_context_release p nd = do {
     c \<leftarrow> nd_ctx nd p;
     let nd' = set_ctx p (c\<lparr>cx_ref := cx_ref c - 1\<rparr>) nd;
     if cx_ref c - 1 = 0 then map_option (\<lambda>nd''. (False, nd'')) (delete_context p nd')
     else Some (True, nd')
   }"

definition handle_grab :: "u32 \<Rightarrow> node \<Rightarrow> (addr option \<times> node) option" where
  "handle_grab handle nd = do {
     r \<leftarrow> skynet_handle_grab (handle_of nd) handle (nd_handles nd);
     case r of
       None \<Rightarrow> Some (None, nd)
     | Some p \<Rightarrow> map_option (\<lambda>nd'. (Some p, nd')) (skynet_context_grab p nd)
   }"

definition handle_retire :: "u32 \<Rightarrow> node \<Rightarrow> (bool \<times> node) option" where
  "handle_retire handle nd = do {
     (r, hs) \<leftarrow> skynet_handle_retire (handle_of nd) handle (nd_handles nd);
     let nd' = nd\<lparr>nd_handles := hs\<rparr>;
     case r of
       None \<Rightarrow> Some (False, nd')
     | Some p \<Rightarrow> map_option (\<lambda>(_, nd''). (True, nd'')) (skynet_context_release p nd')
   }"

definition skynet_context_push :: "u32 \<Rightarrow> skynet_message \<Rightarrow> node \<Rightarrow> (int \<times> node) option" where
  "skynet_context_push handle message nd = do {
     (r, nd1) \<leftarrow> handle_grab handle nd;
     case r of
       None \<Rightarrow> Some (- 1, nd1)
     | Some p \<Rightarrow> do {
         c \<leftarrow> nd_ctx nd1 p;
         mq \<leftarrow> skynet_mq_push (cx_queue c) message (nd_mq nd1);
         (_, nd2) \<leftarrow> skynet_context_release p (nd1\<lparr>nd_mq := mq\<rparr>);
         Some (0, nd2)
       }
   }"

definition skynet_context_endless :: "u32 \<Rightarrow> node \<Rightarrow> node option" where
  "skynet_context_endless handle nd = do {
     (r, nd1) \<leftarrow> handle_grab handle nd;
     case r of
       None \<Rightarrow> Some nd1
     | Some p \<Rightarrow> do {
         c \<leftarrow> nd_ctx nd1 p;
         (_, nd2) \<leftarrow> skynet_context_release p (set_ctx p (c\<lparr>cx_endless := True\<rparr>) nd1);
         Some nd2
       }
   }"

text \<open>
  \<open>skynet_handle_retireall\<close>: one pass over the slots from the \<open>i\<close>-th with \<open>n\<close> retired so far, and
  passes until one retires nothing.
\<close>

partial_function (option) retire_pass :: "nat \<Rightarrow> nat \<Rightarrow> node \<Rightarrow> (nat \<times> node) option" where
  "retire_pass i n nd =
     (if i < hs_slot_size (nd_handles nd) then
        Option.bind (array_get (hs_slot (nd_handles nd)) i) (\<lambda>c.
        let handle = (case c of None \<Rightarrow> 0 | Some p \<Rightarrow> handle_of nd p) in
        if handle \<noteq> 0 then
          Option.bind (handle_retire handle nd) (\<lambda>(r, nd'). retire_pass (i + 1) (if r then n + 1 else n) nd')
        else retire_pass (i + 1) n nd)
      else Some (n, nd))"

partial_function (option) skynet_handle_retireall :: "node \<Rightarrow> node option" where
  "skynet_handle_retireall nd =
     Option.bind (retire_pass 0 0 nd) (\<lambda>(n, nd'). if n = 0 then Some nd' else skynet_handle_retireall nd')"

section \<open>The harbor service\<close>

definition skynet_context_send :: "addr \<Rightarrow> addr \<Rightarrow> u64 \<Rightarrow> u32 \<Rightarrow> u64 \<Rightarrow> int \<Rightarrow> node \<Rightarrow> node option" where
  "skynet_context_send p msg sz source type session nd = do {
     c \<leftarrow> nd_ctx nd p;
     mq \<leftarrow> skynet_mq_push (cx_queue c) \<lparr>msg_source = source, msg_session = session, msg_data = msg,
       msg_sz = sz OR push_bit MESSAGE_TYPE_SHIFT type\<rparr> (nd_mq nd);
     Some (nd\<lparr>nd_mq := mq\<rparr>)
   }"

text \<open>\<open>rmsg\<close> is the address of the message; \<open>struct remote_message\<close> has 40 bytes.\<close>

definition skynet_harbor_send :: "addr \<Rightarrow> u32 \<Rightarrow> int \<Rightarrow> node \<Rightarrow> node option" where
  "skynet_harbor_send rmsg source session nd =
     (case nd_heap nd rmsg of
        Some (Remote m) \<Rightarrow>
          let type = drop_bit MESSAGE_TYPE_SHIFT (rm_sz m);
              nd1 = nd\<lparr>nd_heap := (nd_heap nd)(rmsg \<mapsto> Remote (m\<lparr>rm_sz := rm_sz m AND MESSAGE_TYPE_MASK\<rparr>))\<rparr> in
          if sint type \<noteq> PTYPE_SYSTEM \<and> sint type \<noteq> PTYPE_HARBOR then do {
            remote \<leftarrow> nd_remote nd;
            skynet_context_send remote rmsg 40 source type session nd1
          }
          else None
      | _ \<Rightarrow> None)"

definition skynet_harbor_message_isremote :: "u32 \<Rightarrow> node \<Rightarrow> bool option" where
  "skynet_harbor_message_isremote handle nd =
     (if nd_harbor nd = NOT 0 then None
      else let h = handle AND NOT HANDLE_MASK in Some (h \<noteq> nd_harbor nd \<and> h \<noteq> 0))"

definition skynet_harbor_init :: "int \<Rightarrow> node \<Rightarrow> node" where
  "skynet_harbor_init harbor nd = nd\<lparr>nd_harbor := push_bit HANDLE_REMOTE_SHIFT (word_of_int harbor)\<rparr>"

definition skynet_harbor_start :: "addr \<Rightarrow> node \<Rightarrow> node option" where
  "skynet_harbor_start p nd = map_option (\<lambda>nd'. nd'\<lparr>nd_remote := Some p\<rparr>) (skynet_context_reserve p nd)"

definition skynet_harbor_exit :: "node \<Rightarrow> node option" where
  "skynet_harbor_exit nd =
     (let nd' = nd\<lparr>nd_remote := None\<rparr> in
      case nd_remote nd of
        None \<Rightarrow> Some nd'
      | Some p \<Rightarrow> map_option snd (skynet_context_release p nd'))"

text \<open>The result is whether the handle is remote and what is stored to \<open>*harbor\<close>.\<close>

definition skynet_isremote :: "u32 \<Rightarrow> node \<Rightarrow> (bool \<times> int) option" where
  "skynet_isremote handle nd =
     map_option (\<lambda>r. (r, uint (drop_bit HANDLE_REMOTE_SHIFT handle))) (skynet_harbor_message_isremote handle nd)"

text \<open>
  A node before its first service: \<open>skynet_globalinit\<close> and the calls of \<open>skynet_start\<close> up to
  \<open>skynet_timer_init\<close>, whose clock readings are arguments.
\<close>

definition skynet_globalinit :: "node \<Rightarrow> node" where
  "skynet_globalinit nd = nd\<lparr>nd_total := 0, nd_monitor_exit := 0\<rparr>"

definition node_start :: "int \<Rightarrow> u32 \<Rightarrow> u32 \<Rightarrow> u64 \<Rightarrow> node" where
  "node_start harbor sec cs clock = skynet_harbor_init harbor (skynet_globalinit
     \<lparr>nd_mq = skynet_mq_init, nd_handles = skynet_handle_init harbor, nd_ctx = Map.empty, nd_heap = Map.empty,
      nd_brk = 1, nd_total = 0, nd_monitor_exit = 0, nd_harbor = NOT 0, nd_remote = None, nd_logger = 0,
      nd_env = Map.empty, nd_timer = skynet_timer_init sec cs clock, nd_files = Map.empty, nd_events = []\<rparr>)"

section \<open>The log\<close>

text \<open>
  \<open>skynet_error\<close> with the text that \<open>vsnprintf\<close> makes of its arguments; the two ways of getting
  memory for it, a small buffer and a loop that doubles, both end with a copy of the text.
\<close>

definition skynet_error :: "addr option \<Rightarrow> string \<Rightarrow> node \<Rightarrow> node option" where
  "skynet_error context text nd = do {
     logger \<leftarrow> (if nd_logger nd = 0 then skynet_handle_findname ''logger'' (nd_handles nd) else Some (nd_logger nd));
     let nd1 = nd\<lparr>nd_logger := logger\<rparr>;
     if logger = 0 then Some nd1
     else do {
       let (data, nd2) = skynet_malloc (Data (c_string text)) nd1;
       source \<leftarrow> (case context of None \<Rightarrow> Some 0 | Some p \<Rightarrow> map_option cx_handle (nd_ctx nd2 p));
       (_, nd3) \<leftarrow> skynet_context_push logger \<lparr>msg_source = source, msg_session = 0, msg_data = data,
         msg_sz = of_nat (length text) OR push_bit MESSAGE_TYPE_SHIFT (ucast PTYPE_TEXT)\<rparr> nd2;
       Some nd3
     }
   }"

section \<open>Sending\<close>

definition filter_args :: "addr \<Rightarrow> u32 \<Rightarrow> int \<Rightarrow> addr \<Rightarrow> u64 \<Rightarrow> node \<Rightarrow> (int \<times> addr \<times> u64 \<times> node) option" where
  "filter_args context type session data sz nd = do {
     (session1, nd1) \<leftarrow>
       (if type AND PTYPE_TAG_ALLOCSESSION \<noteq> 0
        then (if session \<noteq> 0 then None else skynet_context_newsession context nd)
        else Some (session, nd));
     (data1, nd2) \<leftarrow>
       (if type AND PTYPE_TAG_DONTCOPY = 0 \<and> data \<noteq> 0
        then map_option (\<lambda>bs. skynet_malloc (Data (bs @ [0])) nd1) (read_bytes data (unat sz) nd1)
        else Some (data, nd1));
     Some (session1, data1, sz OR push_bit MESSAGE_TYPE_SHIFT (ucast (type AND 0xff)), nd2)
   }"

definition skynet_send :: "addr \<Rightarrow> u32 \<Rightarrow> u32 \<Rightarrow> u32 \<Rightarrow> int \<Rightarrow> addr \<Rightarrow> u64 \<Rightarrow> node \<Rightarrow> (int \<times> node) option" where
  "skynet_send context source destination type session data sz nd =
     (if sz AND MESSAGE_TYPE_MASK \<noteq> sz then do {
        nd1 \<leftarrow> skynet_error (Some context) (''The message to '' @ fmt_x destination @ '' is too large'') nd;
        nd2 \<leftarrow> (if type AND PTYPE_TAG_DONTCOPY \<noteq> 0 then skynet_free data nd1 else Some nd1);
        Some (- 1, nd2)
      }
      else do {
        (session, data, sz, nd1) \<leftarrow> filter_args context type session data sz nd;
        source \<leftarrow> (if source = 0 then map_option cx_handle (nd_ctx nd1 context) else Some source);
        if destination = 0 then Some (session, nd1)
        else do {
          remote \<leftarrow> skynet_harbor_message_isremote destination nd1;
          if remote then do {
            let (rmsg, nd2) = skynet_malloc (Remote \<lparr>rm_name = [], rm_handle = destination,
              rm_message = data, rm_sz = sz\<rparr>) nd1;
            nd3 \<leftarrow> skynet_harbor_send rmsg source session nd2;
            Some (session, nd3)
          }
          else do {
            (r, nd2) \<leftarrow> skynet_context_push destination
              \<lparr>msg_source = source, msg_session = session, msg_data = data, msg_sz = sz\<rparr> nd1;
            if r \<noteq> 0 then map_option (\<lambda>nd3. (- 1, nd3)) (skynet_free data nd2)
            else Some (session, nd2)
          }
        }
      })"

text \<open>The 16 bytes of a global name: cut off or filled up with NUL.\<close>

definition copy_name :: "string \<Rightarrow> string" where
  "copy_name name = take GLOBALNAME_LENGTH name @ replicate (GLOBALNAME_LENGTH - length name) (CHR 0x00)"

definition name_at :: "string \<Rightarrow> nat \<Rightarrow> char" where
  "name_at s i = (if i < length s then s ! i else CHR 0x00)"

definition skynet_sendname :: "addr \<Rightarrow> u32 \<Rightarrow> string \<Rightarrow> u32 \<Rightarrow> int \<Rightarrow> addr \<Rightarrow> u64 \<Rightarrow> node \<Rightarrow> (int \<times> node) option" where
  "skynet_sendname context source name type session data sz nd = do {
     source \<leftarrow> (if source = 0 then map_option cx_handle (nd_ctx nd context) else Some source);
     if name_at name 0 = CHR '':'' then
       skynet_send context source (ucast (strtoul 16 (tl name))) type session data sz nd
     else if name_at name 0 = CHR ''.'' then do {
       des \<leftarrow> skynet_handle_findname (tl name) (nd_handles nd);
       if des = 0 then
         (if type AND PTYPE_TAG_DONTCOPY \<noteq> 0 then map_option (\<lambda>nd'. (- 1, nd')) (skynet_free data nd)
          else Some (- 1, nd))
       else skynet_send context source des type session data sz nd
     }
     else do {
       (session, data, sz, nd1) \<leftarrow> filter_args context type session data sz nd;
       let (rmsg, nd2) = skynet_malloc (Remote \<lparr>rm_name = copy_name name, rm_handle = 0,
         rm_message = data, rm_sz = sz\<rparr>) nd1;
       nd3 \<leftarrow> skynet_harbor_send rmsg source session nd2;
       Some (session, nd3)
     }
   }"

definition skynet_queryname :: "addr \<Rightarrow> string \<Rightarrow> node \<Rightarrow> (u32 \<times> node) option" where
  "skynet_queryname context name nd =
     (if name_at name 0 = CHR '':'' then Some (ucast (strtoul 16 (tl name)), nd)
      else if name_at name 0 = CHR ''.'' then
        map_option (\<lambda>w. (w, nd)) (skynet_handle_findname (tl name) (nd_handles nd))
      else map_option (\<lambda>nd'. (0, nd')) (skynet_error (Some context) (''Don't support query global name '' @ name) nd))"

definition skynet_context_handle :: "addr \<Rightarrow> node \<Rightarrow> u32 option" where
  "skynet_context_handle p nd = map_option cx_handle (nd_ctx nd p)"

definition skynet_callback :: "addr \<Rightarrow> nat option \<Rightarrow> node \<Rightarrow> node option" where
  "skynet_callback p cb nd = map_option (\<lambda>c. set_ctx p (c\<lparr>cx_cb := cb\<rparr>) nd) (nd_ctx nd p)"

section \<open>Dropping and dispatching messages\<close>

text \<open>The error reply of \<open>drop_message\<close> to the sender of a message that nobody will read.\<close>

definition drop_message :: "u32 \<Rightarrow> skynet_message \<Rightarrow> node \<Rightarrow> node option" where
  "drop_message handle msg nd = do {
     nd1 \<leftarrow> skynet_free (msg_data msg) nd;
     if handle = 0 then None
     else map_option snd (skynet_send 0 handle (msg_source msg) PTYPE_ERROR 0 0 0 nd1)
   }"

text \<open>
  The log of a message.  \<open>log_socket\<close> reads a \<open>struct skynet_socket_message\<close> (three ints, padding and a
  pointer) from the front of the data; when its pointer is NULL it prints the text behind the struct with
  \<open>[%*s]\<close>, which gives a least width and no limit, so it reads up to a NUL: without one it leaves the data.
\<close>

definition log_blob :: "u8 list \<Rightarrow> string" where
  "log_blob bs = concat (map (\<lambda>b. [hex_char (unat b div 16), hex_char (unat b mod 16)]) bs)"

definition c_int :: "u8 list \<Rightarrow> int" where
  "c_int bs = sint (le_word bs :: u32)"

definition log_socket :: "u8 list \<Rightarrow> node \<Rightarrow> string option" where
  "log_socket m nd =
     (if length m < 24 then None
      else do {
        let head = ''[socket] '' @ fmt_d (c_int (take 4 m)) @ '' '' @ fmt_d (c_int (take 4 (drop 4 m))) @ '' '' @
          fmt_d (c_int (take 4 (drop 8 m))) @ '' '';
        let buffer = unat (le_word (take 8 (drop 16 m)) :: u64);
        body \<leftarrow> (if buffer = 0 then
            (if 0 \<in> set (drop 24 m) then Some (''['' @ map (\<lambda>b. char_of (unat b)) (takeWhile (\<lambda>b. b \<noteq> 0) (drop 24 m)) @ '']'')
             else None)
          else map_option log_blob (read_bytes buffer (unat (le_word (take 4 (drop 8 m)) :: u32)) nd));
        Some (head @ body @ [CHR 0x0A])
      })"

definition skynet_log_output :: "nat \<Rightarrow> u32 \<Rightarrow> int \<Rightarrow> int \<Rightarrow> addr \<Rightarrow> u64 \<Rightarrow> node \<Rightarrow> node option" where
  "skynet_log_output f source type session buffer sz nd = do {
     bs \<leftarrow> read_bytes buffer (unat sz) nd;
     text \<leftarrow> (if type = PTYPE_SOCKET then log_socket bs nd
       else Some (CHR '':'' # fmt_08x source @ '' '' @ fmt_d type @ '' '' @ fmt_d session @ '' '' @
         fmt_u (ucast (skynet_now (nd_timer nd))) @ '' '' @ log_blob bs @ [CHR 0x0A]));
     Some (fprintf f text nd)
   }"

text \<open>
  A callback gets the context, its \<open>cb_ud\<close>, the type, the session, the source, the data and its size;
  unless it returns 0, it has taken the data over.
\<close>

type_synonym callback = "addr \<Rightarrow> nat \<Rightarrow> int \<Rightarrow> int \<Rightarrow> u32 \<Rightarrow> addr \<Rightarrow> u64 \<Rightarrow> node \<Rightarrow> (int \<times> node) option"

definition dispatch_message :: "callback \<Rightarrow> addr \<Rightarrow> skynet_message \<Rightarrow> node \<Rightarrow> node option" where
  "dispatch_message callback p msg nd = do {
     c \<leftarrow> nd_ctx nd p;
     if \<not> cx_init c then None
     else do {
       let type = sint (drop_bit MESSAGE_TYPE_SHIFT (msg_sz msg));
       let sz = msg_sz msg AND MESSAGE_TYPE_MASK;
       nd1 \<leftarrow> (case cx_logfile c of
           None \<Rightarrow> Some nd
         | Some f \<Rightarrow> skynet_log_output f (msg_source msg) type (msg_session msg) (msg_data msg) sz nd);
       ud \<leftarrow> cx_cb c;
       (taken, nd2) \<leftarrow> callback p ud type (msg_session msg) (msg_source msg) (msg_data msg) sz nd1;
       if taken = 0 then skynet_free (msg_data msg) nd2 else Some nd2
     }
   }"

partial_function (option) skynet_context_dispatchall :: "callback \<Rightarrow> addr \<Rightarrow> node \<Rightarrow> node option" where
  "skynet_context_dispatchall callback p nd =
     Option.bind (nd_ctx nd p) (\<lambda>c.
     Option.bind (skynet_mq_pop (cx_queue c) (nd_mq nd)) (\<lambda>(r, mq).
       case r of
         None \<Rightarrow> Some (nd\<lparr>nd_mq := mq\<rparr>)
       | Some msg \<Rightarrow> Option.bind (dispatch_message callback p msg (nd\<lparr>nd_mq := mq\<rparr>))
           (\<lambda>nd'. skynet_context_dispatchall callback p nd')))"

section \<open>Monitors\<close>

record skynet_monitor =
  sm_version :: u32
  sm_check_version :: u32
  sm_source :: u32
  sm_destination :: u32

definition skynet_monitor_new :: skynet_monitor where
  "skynet_monitor_new = \<lparr>sm_version = 0, sm_check_version = 0, sm_source = 0, sm_destination = 0\<rparr>"

definition skynet_monitor_trigger :: "u32 \<Rightarrow> u32 \<Rightarrow> skynet_monitor \<Rightarrow> skynet_monitor" where
  "skynet_monitor_trigger source destination sm =
     sm\<lparr>sm_source := source, sm_destination := destination, sm_version := sm_version sm + 1\<rparr>"

definition skynet_monitor_check :: "skynet_monitor \<Rightarrow> node \<Rightarrow> (skynet_monitor \<times> node) option" where
  "skynet_monitor_check sm nd =
     (if sm_version sm = sm_check_version sm then
        (if sm_destination sm \<noteq> 0 then do {
           nd1 \<leftarrow> skynet_context_endless (sm_destination sm) nd;
           nd2 \<leftarrow> skynet_error None (''A message from [ :'' @ fmt_08x (sm_source sm) @ '' ] to [ :'' @
             fmt_08x (sm_destination sm) @ '' ] maybe in an endless loop (version = '' @ fmt_d (sint (sm_version sm)) @ '')'') nd1;
           Some (sm, nd2)
         }
         else Some (sm, nd))
      else Some (sm\<lparr>sm_check_version := sm_version sm\<rparr>, nd))"

end
