(* ===== verification/Delivery.thy ===== *)
theory Delivery
  imports Node
begin

text \<open>
  What the functions of \<open>Node\<close> do on a well-formed node: a message that is sent arrives at the end
  of the mailbox of its destination, or its data is freed and the sender learns it; sessions are
  positive; retiring every service ends.
\<close>

section \<open>Mailboxes\<close>

definition mailboxes :: "mq_state \<Rightarrow> addr \<rightharpoonup> skynet_message list" where
  "mailboxes mq a = map_option mq_contents (mq_mem mq a)"

lemma mailboxes_store: "mailboxes (mq_store p q mq) = (mailboxes mq)(p \<mapsto> mq_contents q)"
  by (auto simp: mailboxes_def mq_store_def)

lemma same_mailboxes:
  assumes "\<forall>a. map_option (mq_next_update (\<lambda>_. None)) (mq_mem mq' a) = map_option (mq_next_update (\<lambda>_. None)) (mq_mem mq a)"
  shows "mailboxes mq' = mailboxes mq"
proof
  fix a
  have "mq_contents (mq_next_update (\<lambda>_. None) r) = mq_contents r" for r by (simp add: mq_cong)
  then show "mailboxes mq' a = mailboxes mq a"
    using arg_cong [OF assms [rule_format, of a], of "map_option mq_contents"]
    by (simp add: mailboxes_def option.map_comp comp_def)
qed

lemma globalmq_push_mailboxes:
  assumes "mq_ok mq ps" "mq_mem mq p \<noteq> None" "p \<notin> set ps"
  shows "\<exists>mq'. skynet_globalmq_push p mq = Some mq' \<and> mq_ok mq' (ps @ [p]) \<and> flags mq' = flags mq \<and>
    mailboxes mq' = mailboxes mq"
proof -
  obtain q where "mq_mem mq p = Some q" using assms(2) by blast
  then obtain mq' where m: "skynet_globalmq_push p mq = Some mq'" "gq_list mq' (ps @ [p])"
    "\<forall>a. map_option (mq_next_update (\<lambda>_. None)) (mq_mem mq' a) = map_option (mq_next_update (\<lambda>_. None)) (mq_mem mq a)"
    using globalmq_push_list [of mq ps p q] assms by (auto simp: mq_ok_def)
  then show ?thesis using same_but_next [OF m(3) assms(1) m(2)] same_mailboxes [OF m(3)] by blast
qed

lemma mq_push_delivers:
  assumes ok: "mq_ok mq ps" and q: "mq_mem mq p = Some q" and new: "\<not> mq_in_global q \<Longrightarrow> p \<notin> set ps"
  shows "\<exists>mq'. skynet_mq_push p m mq = Some mq' \<and> mq_ok mq' (if mq_in_global q then ps else ps @ [p]) \<and>
    flags mq' = (flags mq)(p \<mapsto> (True, mq_release q)) \<and> mailboxes mq' = (mailboxes mq)(p \<mapsto> mq_contents q @ [m])"
proof -
  obtain q' where q': "mq_enqueue m q = Some q'" "mq_wf q'" "mq_next q' = mq_next q"
    "mq_in_global q' = mq_in_global q" "mq_release q' = mq_release q" "mq_contents q' = mq_contents q @ [m]"
    using mq_enqueue_ok [OF mq_ok_mem(1) [OF ok q], of m] by blast
  let ?q = "q'\<lparr>mq_in_global := True\<rparr>"
  show ?thesis
  proof (cases "mq_in_global q")
    case True
    then have "mq_ok (mq_store p q' mq) ps" using q' by (intro mq_ok_store [OF ok q]) simp_all
    then show ?thesis using True q q' by (simp add: skynet_mq_push_def flags_store mailboxes_store)
  next
    case False
    have "mq_ok (mq_store p ?q mq) ps" using q' by (intro mq_ok_store [OF ok q]) (simp_all add: mq_cong)
    from globalmq_push_mailboxes [OF this, of p] obtain mq' where
      "skynet_globalmq_push p (mq_store p ?q mq) = Some mq'" "mq_ok mq' (ps @ [p])"
      "flags mq' = flags (mq_store p ?q mq)" "mailboxes mq' = mailboxes (mq_store p ?q mq)"
      using new [OF False] by (auto simp: mq_store_def)
    then show ?thesis using False q q' by (simp add: skynet_mq_push_def flags_store mailboxes_store mq_cong)
  qed
qed

lemma mark_release_keeps:
  assumes ok: "mq_ok mq ps" and q: "mq_mem mq p = Some q" and new: "\<not> mq_in_global q \<Longrightarrow> p \<notin> set ps"
    and "\<not> mq_release q"
  shows "\<exists>mq'. skynet_mq_mark_release p mq = Some mq' \<and> mq_ok mq' (if mq_in_global q then ps else ps @ [p]) \<and>
    flags mq' = (flags mq)(p \<mapsto> (mq_in_global q, True)) \<and> mailboxes mq' = mailboxes mq"
proof -
  let ?q = "q\<lparr>mq_release := True\<rparr>"
  have st: "mq_ok (mq_store p ?q mq) ps"
    using mq_ok_mem [OF ok q] by (intro mq_ok_store [OF ok q]) (simp_all add: mq_cong)
  have mb: "mailboxes (mq_store p ?q mq) = mailboxes mq"
    using q by (auto simp: mailboxes_def mq_store_def mq_cong)
  show ?thesis
  proof (cases "mq_in_global q")
    case True
    then show ?thesis using st q assms(4) mb by (simp add: skynet_mq_mark_release_def flags_store Let_def)
  next
    case False
    from globalmq_push_mailboxes [OF st, of p] obtain mq' where
      "skynet_globalmq_push p (mq_store p ?q mq) = Some mq'" "mq_ok mq' (ps @ [p])" "flags mq' = flags (mq_store p ?q mq)"
      "mailboxes mq' = mailboxes mq"
      using new [OF False] mb by (auto simp: mq_store_def)
    then show ?thesis using False q assms(4) by (simp add: skynet_mq_mark_release_def flags_store Let_def)
  qed
qed

section \<open>Well-formed nodes\<close>

definition lookup :: "node \<Rightarrow> u32 \<rightharpoonup> addr" where
  "lookup nd = hs_lookup (handle_of nd) (nd_handles nd)"

text \<open>The references that the handle table and the harbor hold to a context.\<close>

definition claims :: "node \<Rightarrow> addr \<Rightarrow> int" where
  "claims nd p = of_bool (\<exists>w. lookup nd w = Some p) + of_bool (nd_remote nd = Some p)"

text \<open>
  The mailboxes; the contexts, each with a mailbox of its own that is not marked for release; the
  handle table; the references; the memory.
\<close>

definition mq_part :: "node \<Rightarrow> bool" where
  "mq_part nd \<longleftrightarrow> (\<exists>ps. mq_ok (nd_mq nd) ps \<and>
     (\<forall>p. flags (nd_mq nd) p = Some (False, False) \<longrightarrow> p \<notin> set ps))"

definition ctx_part :: "node \<Rightarrow> bool" where
  "ctx_part nd \<longleftrightarrow>
     (\<forall>p c. nd_ctx nd p = Some c \<longrightarrow> (\<exists>g. flags (nd_mq nd) (cx_queue c) = Some (g, False))) \<and>
     (\<forall>p p' c c'. nd_ctx nd p = Some c \<longrightarrow> nd_ctx nd p' = Some c' \<longrightarrow> cx_queue c = cx_queue c' \<longrightarrow> p = p')"

definition ref_part :: "node \<Rightarrow> bool" where
  "ref_part nd \<longleftrightarrow> (\<forall>p. 0 < claims nd p \<longrightarrow> nd_ctx nd p \<noteq> None) \<and>
     (\<forall>p c. nd_ctx nd p = Some c \<longrightarrow> claims nd p \<le> cx_ref c)"

definition heap_part :: "node \<Rightarrow> bool" where
  "heap_part nd \<longleftrightarrow> 0 < nd_brk nd \<and> (\<forall>a. nd_heap nd a \<noteq> None \<longrightarrow> 0 < a \<and> a < nd_brk nd) \<and>
     (\<forall>a. nd_ctx nd a \<noteq> None \<longrightarrow> a < nd_brk nd) \<and> (\<forall>a. flags (nd_mq nd) a \<noteq> None \<longrightarrow> a < nd_brk nd)"

definition node_ok :: "node \<Rightarrow> bool" where
  "node_ok nd \<longleftrightarrow> mq_part nd \<and> ctx_part nd \<and> ref_part nd \<and> heap_part nd \<and>
     slots_wf (handle_of nd) (nd_handles nd) \<and> names_wf (nd_handles nd) \<and> nd_harbor nd \<noteq> NOT 0"

lemma claims_registered: "lookup nd w = Some p \<Longrightarrow> claims nd p = 1 + of_bool (nd_remote nd = Some p)"
  by (auto simp: claims_def)

lemma lookup_ctx:
  assumes "node_ok nd" "lookup nd w = Some p"
  shows "\<exists>c. nd_ctx nd p = Some c \<and> 1 + of_bool (nd_remote nd = Some p) \<le> cx_ref c \<and> 1 \<le> cx_ref c"
proof -
  have cl: "claims nd p = 1 + of_bool (nd_remote nd = Some p)" using assms(2) by (rule claims_registered)
  then have "0 < claims nd p" "1 \<le> claims nd p" by simp_all
  then obtain c where "nd_ctx nd p = Some c" "claims nd p \<le> cx_ref c"
    using assms(1) unfolding node_ok_def ref_part_def by blast
  then have "1 + of_bool (nd_remote nd = Some p) \<le> cx_ref c" "1 \<le> cx_ref c"
    using cl \<open>1 \<le> claims nd p\<close> by linarith+
  then show ?thesis using \<open>nd_ctx nd p = Some c\<close> by blast
qed

lemma remote_ctx:
  assumes "node_ok nd" "nd_remote nd = Some p"
  shows "\<exists>c. nd_ctx nd p = Some c \<and> 1 \<le> cx_ref c"
proof -
  have "0 < claims nd p" "1 \<le> claims nd p" using assms(2) by (auto simp: claims_def)
  then obtain c where "nd_ctx nd p = Some c" "claims nd p \<le> cx_ref c"
    using assms(1) unfolding node_ok_def ref_part_def by blast
  then show ?thesis using \<open>1 \<le> claims nd p\<close> by auto
qed

lemma handle_of_update [simp]:
  "handle_of (nd\<lparr>nd_heap := x1\<rparr>) = handle_of nd" "handle_of (nd\<lparr>nd_brk := x2\<rparr>) = handle_of nd"
  "handle_of (nd\<lparr>nd_mq := x3\<rparr>) = handle_of nd" "handle_of (nd\<lparr>nd_handles := x4\<rparr>) = handle_of nd"
  "handle_of (nd\<lparr>nd_logger := x5\<rparr>) = handle_of nd" "handle_of (nd\<lparr>nd_remote := x6\<rparr>) = handle_of nd"
  "handle_of (nd\<lparr>nd_total := x7\<rparr>) = handle_of nd"
  by (auto simp: handle_of_def)

lemma lookup_update [simp]:
  "lookup (nd\<lparr>nd_heap := x1\<rparr>) = lookup nd" "lookup (nd\<lparr>nd_brk := x2\<rparr>) = lookup nd"
  "lookup (nd\<lparr>nd_mq := x3\<rparr>) = lookup nd" "lookup (nd\<lparr>nd_logger := x4\<rparr>) = lookup nd"
  by (simp_all add: lookup_def)

lemma claims_update [simp]:
  "claims (nd\<lparr>nd_heap := x1\<rparr>) = claims nd" "claims (nd\<lparr>nd_brk := x2\<rparr>) = claims nd"
  "claims (nd\<lparr>nd_mq := x3\<rparr>) = claims nd" "claims (nd\<lparr>nd_logger := x4\<rparr>) = claims nd"
  by (simp_all add: fun_eq_iff claims_def)

lemma set_ctx_sel [simp]:
  "nd_ctx (set_ctx p c nd) = (nd_ctx nd)(p \<mapsto> c)" "nd_mq (set_ctx p c nd) = nd_mq nd"
  "nd_handles (set_ctx p c nd) = nd_handles nd" "nd_harbor (set_ctx p c nd) = nd_harbor nd"
  "nd_remote (set_ctx p c nd) = nd_remote nd" "nd_heap (set_ctx p c nd) = nd_heap nd"
  "nd_brk (set_ctx p c nd) = nd_brk nd" "nd_logger (set_ctx p c nd) = nd_logger nd"
  "nd_total (set_ctx p c nd) = nd_total nd"
  by (simp_all add: set_ctx_def)

lemma handle_of_set_ctx:
  "nd_ctx nd p = Some c \<Longrightarrow> cx_handle c' = cx_handle c \<Longrightarrow> handle_of (set_ctx p c' nd) = handle_of nd"
  by (auto simp: handle_of_def)

lemma set_ctx_lookup:
  "nd_ctx nd p = Some c \<Longrightarrow> cx_handle c' = cx_handle c \<Longrightarrow> lookup (set_ctx p c' nd) = lookup nd"
  by (simp add: lookup_def handle_of_set_ctx)

text \<open>Changing fields of a context that neither the handle table nor the mailboxes look at.\<close>

lemma node_ok_set_ctx:
  assumes ok: "node_ok nd" and c: "nd_ctx nd p = Some c"
    and c': "cx_handle c' = cx_handle c" "cx_queue c' = cx_queue c" "claims nd p \<le> cx_ref c'"
  shows "node_ok (set_ctx p c' nd)"
proof -
  have [simp]: "handle_of (set_ctx p c' nd) = handle_of nd" "claims (set_ctx p c' nd) = claims nd"
    using handle_of_set_ctx [OF c] set_ctx_lookup [OF c] c' by (auto simp: claims_def)
  have "ctx_part (set_ctx p c' nd)"
    using ok c c' unfolding node_ok_def ctx_part_def by simp metis
  moreover have "ref_part (set_ctx p c' nd)" using ok c' unfolding node_ok_def ref_part_def by auto
  moreover have "heap_part (set_ctx p c' nd)" using ok c unfolding node_ok_def heap_part_def by auto
  ultimately show ?thesis using ok by (simp add: node_ok_def mq_part_def)
qed

lemma node_ok_malloc: "node_ok nd \<Longrightarrow> node_ok (snd (skynet_malloc b nd))"
  by (auto simp: node_ok_def mq_part_def ctx_part_def ref_part_def heap_part_def skynet_malloc_def less_SucI)

lemma node_ok_free: "node_ok nd \<Longrightarrow> skynet_free p nd = Some nd' \<Longrightarrow> node_ok nd'"
  by (auto simp: node_ok_def mq_part_def ctx_part_def ref_part_def heap_part_def skynet_free_def split: if_splits)

lemma node_ok_mq:
  assumes ok: "node_ok nd" and "mq_part (nd\<lparr>nd_mq := mq\<rparr>)" and f: "flags mq = (flags (nd_mq nd))(q \<mapsto> (g, False))"
    and q: "\<exists>g. flags (nd_mq nd) q = Some (g, False)"
  shows "node_ok (nd\<lparr>nd_mq := mq\<rparr>)"
proof -
  have "q < nd_brk nd" using ok q unfolding node_ok_def heap_part_def by (metis option.distinct(1))
  then show ?thesis using assms by (auto simp: node_ok_def ctx_part_def ref_part_def heap_part_def)
qed

text \<open>
  What the push of a message to a mailbox does: the message is appended, and nothing else changes in any mailbox; a
  mailbox that was idle is put at the end of the run queue, one that was not stays where it is, in the run queue or with
  the worker that dispatches from it.
\<close>

definition delivered :: "addr \<Rightarrow> skynet_message \<Rightarrow> mq_state \<Rightarrow> mq_state \<Rightarrow> bool" where
  "delivered queue m mq mq' \<longleftrightarrow> flags mq' = (flags mq)(queue \<mapsto> (True, False)) \<and>
     mailboxes mq' = (mailboxes mq)(queue \<mapsto> the (mailboxes mq queue) @ [m]) \<and>
     (\<exists>ps. gq_list mq ps \<and> gq_list mq' (if flags mq queue = Some (False, False) then ps @ [queue] else ps))"

text \<open>Pushing to the mailbox of a context.\<close>

lemma push_to_context:
  assumes ok: "node_ok nd" and c: "nd_ctx nd p = Some c"
  shows "\<exists>mq. skynet_mq_push (cx_queue c) m (nd_mq nd) = Some mq \<and> node_ok (nd\<lparr>nd_mq := mq\<rparr>) \<and>
    delivered (cx_queue c) m (nd_mq nd) mq"
proof -
  obtain ps where ps: "mq_ok (nd_mq nd) ps" "\<And>p. flags (nd_mq nd) p = Some (False, False) \<Longrightarrow> p \<notin> set ps"
    using ok by (auto simp: node_ok_def mq_part_def)
  obtain g where g: "flags (nd_mq nd) (cx_queue c) = Some (g, False)"
    using ok c unfolding node_ok_def ctx_part_def by blast
  then obtain q where q: "mq_mem (nd_mq nd) (cx_queue c) = Some q" "mq_in_global q = g" "\<not> mq_release q"
    by (auto simp: flags_Some)
  have "\<not> mq_in_global q \<Longrightarrow> cx_queue c \<notin> set ps" using ps(2) g q(2) by simp
  from mq_push_delivers [OF ps(1) q(1) this, of m] obtain mq where
    mq: "skynet_mq_push (cx_queue c) m (nd_mq nd) = Some mq" "mq_ok mq (if mq_in_global q then ps else ps @ [cx_queue c])"
      "flags mq = (flags (nd_mq nd))(cx_queue c \<mapsto> (True, False))"
      "mailboxes mq = (mailboxes (nd_mq nd))(cx_queue c \<mapsto> mq_contents q @ [m])"
    using q(3) by auto
  have "mq_part (nd\<lparr>nd_mq := mq\<rparr>)"
    unfolding mq_part_def using mq(2,3) ps(2)
    by (intro exI [of _ "if mq_in_global q then ps else ps @ [cx_queue c]"]) (auto split: if_splits)
  then have "node_ok (nd\<lparr>nd_mq := mq\<rparr>)" using node_ok_mq [OF ok _ mq(3)] g by blast
  moreover have "gq_list (nd_mq nd) ps \<and>
      gq_list mq (if flags (nd_mq nd) (cx_queue c) = Some (False, False) then ps @ [cx_queue c] else ps)"
    using ps(1) mq(2) g q(2) by (auto simp: mq_ok_def)
  ultimately show ?thesis using mq q(1) unfolding delivered_def by (auto simp: mailboxes_def)
qed

lemma handle_grab_lookup:
  assumes ok: "node_ok nd"
  shows "handle_grab w nd = (case lookup nd w of None \<Rightarrow> Some (None, nd)
    | Some p \<Rightarrow> map_option (\<lambda>nd'. (Some p, nd')) (skynet_context_grab p nd))"
  using ok hs_lookup_grab [of "handle_of nd" "nd_handles nd" w]
  by (simp add: handle_grab_def lookup_def node_ok_def split: option.split)

text \<open>A reference that is taken and given back leaves the context as it was.\<close>

lemma set_ctx_same: "nd_ctx nd p = Some c \<Longrightarrow> set_ctx p c (set_ctx p c' nd) = nd"
  by (simp add: set_ctx_def map_upd_triv)

lemma context_push_ok:
  assumes ok: "node_ok nd" and p: "lookup nd w = Some p" and c: "nd_ctx nd p = Some c"
  shows "\<exists>mq. skynet_context_push w m nd = Some (0, nd\<lparr>nd_mq := mq\<rparr>) \<and> node_ok (nd\<lparr>nd_mq := mq\<rparr>) \<and>
    delivered (cx_queue c) m (nd_mq nd) mq"
proof -
  have ref: "1 \<le> cx_ref c" using lookup_ctx [OF ok p] c by auto
  from push_to_context [OF ok c, of m] obtain mq where
    mq: "skynet_mq_push (cx_queue c) m (nd_mq nd) = Some mq" "node_ok (nd\<lparr>nd_mq := mq\<rparr>)"
      "delivered (cx_queue c) m (nd_mq nd) mq" by blast
  have "set_ctx p c (set_ctx p c' nd\<lparr>nd_mq := mq\<rparr>) = nd\<lparr>nd_mq := mq\<rparr>" for c'
    using c by (simp add: set_ctx_def map_upd_triv)
  then have "skynet_context_push w m nd = Some (0, nd\<lparr>nd_mq := mq\<rparr>)"
    using ref mq(1)
    by (simp add: skynet_context_push_def handle_grab_lookup [OF ok] p skynet_context_grab_def c skynet_context_release_def Let_def)
  then show ?thesis using mq by blast
qed

lemma context_push_dead:
  "node_ok nd \<Longrightarrow> lookup nd w = None \<Longrightarrow> skynet_context_push w m nd = Some (- 1, nd)"
  by (simp add: skynet_context_push_def handle_grab_lookup)

section \<open>Sessions\<close>

definition next_session :: "u32 \<Rightarrow> u32" where
  "next_session s = (if sint (s + 1) \<le> 0 then 1 else s + 1)"

lemma newsession_next:
  "nd_ctx nd p = Some c \<Longrightarrow> skynet_context_newsession p nd =
     Some (sint (next_session (cx_session_id c)), set_ctx p (c\<lparr>cx_session_id := next_session (cx_session_id c)\<rparr>) nd)"
  by (simp add: skynet_context_newsession_def next_session_def Let_def)

text \<open>The numbers run through 1 to 2^31 - 1 and start again.\<close>

lemma sint_of_nat_small: "n < 2 ^ 31 \<Longrightarrow> sint (of_nat n :: u32) = int n"
proof -
  assume n: "n < 2 ^ 31"
  have "signed_take_bit 31 (int n) = int n" by (rule signed_take_bit_int_eq_self) (use n in simp_all)
  then have "sint (word_of_int (int n) :: u32) = int n" by (simp only: sint_sbintrunc') simp
  then show ?thesis by (simp only: of_int_of_nat_eq)
qed

lemma next_session_nat:
  assumes "n < 2 ^ 31"
  shows "next_session (of_nat n) = of_nat (n mod (2 ^ 31 - 1) + 1)"
proof (cases "n = 2 ^ 31 - 1")
  case True
  have "sint (0x80000000 :: u32) \<le> 0" by simp
  then show ?thesis unfolding True next_session_def by simp
next
  case False
  then have "n + 1 < 2 ^ 31" using assms by simp
  then have "sint (of_nat (n + 1) :: u32) = int (n + 1)" by (rule sint_of_nat_small)
  then show ?thesis using False assms by (simp add: next_session_def add.commute)
qed

text \<open>The sessions of \<open>n\<close> calls in a row.\<close>

fun new_sessions :: "nat \<Rightarrow> addr \<Rightarrow> node \<Rightarrow> (int list \<times> node) option" where
  "new_sessions 0 p nd = Some ([], nd)"
| "new_sessions (Suc n) p nd = do {
     (ss, nd1) \<leftarrow> new_sessions n p nd;
     (s, nd2) \<leftarrow> skynet_context_newsession p nd1;
     Some (ss @ [s], nd2)
   }"

lemma new_sessions_run:
  assumes "nd_ctx nd p = Some c" "cx_session_id c = 0"
  shows "\<exists>nd' c'. new_sessions n p nd = Some (map (\<lambda>i. int (i mod (2 ^ 31 - 1)) + 1) [0..<n], nd') \<and>
    nd_ctx nd' p = Some c' \<and> cx_session_id c' = of_nat (if n = 0 then 0 else (n - 1) mod (2 ^ 31 - 1) + 1)"
proof (induction n)
  case 0
  then show ?case using assms by simp
next
  case (Suc n)
  then obtain nd' c' where IH: "new_sessions n p nd = Some (map (\<lambda>i. int (i mod (2 ^ 31 - 1)) + 1) [0..<n], nd')"
    "nd_ctx nd' p = Some c'" "cx_session_id c' = of_nat (if n = 0 then 0 else (n - 1) mod (2 ^ 31 - 1) + 1)" by blast
  let ?m = "if n = 0 then 0 else (n - 1) mod (2 ^ 31 - 1) + 1"
  have le: "(n - 1) mod (2 ^ 31 - 1) < (2 ^ 31 - 1 :: nat)" by (rule mod_less_divisor) simp
  then have small: "?m < 2 ^ 31" by (simp add: less_diff_conv)
  have "?m mod (2 ^ 31 - 1) = n mod (2 ^ 31 - 1)"
    by (cases n) (simp_all add: mod_Suc_eq)
  then have nxt: "next_session (cx_session_id c') = of_nat (n mod (2 ^ 31 - 1) + 1)"
    unfolding IH(3) next_session_nat [OF small] by simp
  have "n mod (2 ^ 31 - 1) < (2 ^ 31 - 1 :: nat)" by (rule mod_less_divisor) simp
  then have "n mod (2 ^ 31 - 1) + 1 < 2 ^ 31" by (simp add: less_diff_conv)
  then have "sint (next_session (cx_session_id c')) = int (n mod (2 ^ 31 - 1) + 1)"
    unfolding nxt by (rule sint_of_nat_small)
  then show ?case using IH(1,2) nxt by (simp add: newsession_next add.commute)
qed

section \<open>Sending\<close>

definition send_copies :: "u32 \<Rightarrow> addr \<Rightarrow> bool" where
  "send_copies type data \<longleftrightarrow> type AND PTYPE_TAG_DONTCOPY = 0 \<and> data \<noteq> 0"

definition send_session :: "u32 \<Rightarrow> int \<Rightarrow> skynet_context \<Rightarrow> int" where
  "send_session type session c =
     (if type AND PTYPE_TAG_ALLOCSESSION \<noteq> 0 then sint (next_session (cx_session_id c)) else session)"

definition send_data :: "u32 \<Rightarrow> addr \<Rightarrow> node \<Rightarrow> addr" where
  "send_data type data nd = (if send_copies type data then nd_brk nd else data)"

definition send_heap :: "u32 \<Rightarrow> addr \<Rightarrow> u8 list \<Rightarrow> u64 \<Rightarrow> node \<Rightarrow> addr \<rightharpoonup> block" where
  "send_heap type data bs sz nd =
     (if send_copies type data then (nd_heap nd)(nd_brk nd \<mapsto> Data (take (unat sz) bs @ [0])) else nd_heap nd)"

text \<open>What the caller of \<open>skynet_send\<close> has to provide.\<close>

definition send_args :: "u32 \<Rightarrow> int \<Rightarrow> addr \<Rightarrow> u8 list \<Rightarrow> u64 \<Rightarrow> node \<Rightarrow> bool" where
  "send_args type session data bs sz nd \<longleftrightarrow>
     (type AND PTYPE_TAG_ALLOCSESSION \<noteq> 0 \<longrightarrow> session = 0) \<and>
     (data \<noteq> 0 \<longrightarrow> nd_heap nd data = Some (Data bs) \<and> unat sz \<le> length bs)"

lemma malloc_sel [simp]:
  "nd_ctx (snd (skynet_malloc b nd)) = nd_ctx nd" "nd_mq (snd (skynet_malloc b nd)) = nd_mq nd"
  "nd_harbor (snd (skynet_malloc b nd)) = nd_harbor nd" "nd_remote (snd (skynet_malloc b nd)) = nd_remote nd"
  "nd_brk (snd (skynet_malloc b nd)) = nd_brk nd + 1" "fst (skynet_malloc b nd) = nd_brk nd"
  "nd_heap (snd (skynet_malloc b nd)) = (nd_heap nd)(nd_brk nd \<mapsto> b)"
  "lookup (snd (skynet_malloc b nd)) = lookup nd"
  by (simp_all add: skynet_malloc_def lookup_def)

definition session_node :: "u32 \<Rightarrow> addr \<Rightarrow> skynet_context \<Rightarrow> node \<Rightarrow> node" where
  "session_node type p c nd = (if type AND PTYPE_TAG_ALLOCSESSION \<noteq> 0
     then set_ctx p (c\<lparr>cx_session_id := next_session (cx_session_id c)\<rparr>) nd else nd)"

lemma claims_le: "node_ok nd \<Longrightarrow> nd_ctx nd p = Some c \<Longrightarrow> claims nd p \<le> cx_ref c"
  by (simp add: node_ok_def ref_part_def)

lemma session_node_facts:
  assumes "node_ok nd" "nd_ctx nd p = Some c"
  shows "node_ok (session_node type p c nd)" "lookup (session_node type p c nd) = lookup nd"
    "nd_mq (session_node type p c nd) = nd_mq nd" "nd_heap (session_node type p c nd) = nd_heap nd"
    "nd_brk (session_node type p c nd) = nd_brk nd" "nd_harbor (session_node type p c nd) = nd_harbor nd"
    "nd_remote (session_node type p c nd) = nd_remote nd"
    "\<exists>c'. nd_ctx (session_node type p c nd) = (nd_ctx nd)(p \<mapsto> c') \<and> cx_handle c' = cx_handle c \<and> cx_queue c' = cx_queue c"
proof -
  show "node_ok (session_node type p c nd)"
    using assms node_ok_set_ctx [OF assms, of "c\<lparr>cx_session_id := next_session (cx_session_id c)\<rparr>"] claims_le [OF assms]
    by (simp add: session_node_def)
  show "lookup (session_node type p c nd) = lookup nd"
    using set_ctx_lookup [OF assms(2), of "c\<lparr>cx_session_id := next_session (cx_session_id c)\<rparr>"]
    by (simp add: session_node_def)
  show "\<exists>c'. nd_ctx (session_node type p c nd) = (nd_ctx nd)(p \<mapsto> c') \<and> cx_handle c' = cx_handle c \<and> cx_queue c' = cx_queue c"
    using assms(2) map_upd_triv [of "nd_ctx nd" p c] unfolding session_node_def
    by (cases "type AND PTYPE_TAG_ALLOCSESSION = 0") (auto intro: exI [of _ c])
qed (simp_all add: session_node_def)

lemma filter_args_ok:
  assumes ok: "node_ok nd" and c: "nd_ctx nd context = Some c" and args: "send_args type session data bs sz nd"
  shows "\<exists>nd1. filter_args context type session data sz nd = Some (send_session type session c, send_data type data nd,
      sz OR push_bit MESSAGE_TYPE_SHIFT (ucast (type AND 0xff)), nd1) \<and>
    node_ok nd1 \<and> lookup nd1 = lookup nd \<and> nd_mq nd1 = nd_mq nd \<and> nd_heap nd1 = send_heap type data bs sz nd \<and>
    nd_harbor nd1 = nd_harbor nd \<and> nd_remote nd1 = nd_remote nd \<and> nd_brk nd \<le> nd_brk nd1 \<and>
    (\<exists>c'. nd_ctx nd1 = (nd_ctx nd)(context \<mapsto> c') \<and> cx_handle c' = cx_handle c \<and> cx_queue c' = cx_queue c)"
proof -
  let ?nd = "session_node type context c nd"
  note f = session_node_facts [OF ok c, of type]
  have s: "(if type AND PTYPE_TAG_ALLOCSESSION \<noteq> 0
      then (if session \<noteq> 0 then None else skynet_context_newsession context nd) else Some (session, nd)) =
    Some (send_session type session c, ?nd)"
    using args by (auto simp: send_args_def newsession_next [OF c] session_node_def send_session_def)
  show ?thesis
  proof (cases "send_copies type data")
    case True
    then have r: "read_bytes data (unat sz) ?nd = Some (take (unat sz) bs)"
      using args by (simp add: read_bytes_def f send_args_def send_copies_def)
    let ?nd1 = "snd (skynet_malloc (Data (take (unat sz) bs @ [0])) ?nd)"
    have "filter_args context type session data sz nd = Some (send_session type session c, send_data type data nd,
      sz OR push_bit MESSAGE_TYPE_SHIFT (ucast (type AND 0xff)), ?nd1)"
      unfolding filter_args_def s using True r by (simp add: send_copies_def send_data_def split_beta f)
    then show ?thesis
      using True f node_ok_malloc [OF f(1)] by (intro exI [of _ ?nd1]) (simp add: send_heap_def)
  next
    case False
    then have "filter_args context type session data sz nd = Some (send_session type session c, send_data type data nd,
      sz OR push_bit MESSAGE_TYPE_SHIFT (ucast (type AND 0xff)), ?nd)"
      unfolding filter_args_def s by (auto simp: send_copies_def send_data_def)
    then show ?thesis using False f by (intro exI [of _ ?nd]) (simp add: send_heap_def)
  qed
qed

text \<open>The message that \<open>skynet_send\<close> makes of its arguments.\<close>

definition send_message :: "u32 \<Rightarrow> u32 \<Rightarrow> int \<Rightarrow> addr \<Rightarrow> u64 \<Rightarrow> skynet_context \<Rightarrow> node \<Rightarrow> skynet_message" where
  "send_message source type session data sz c nd =
     \<lparr>msg_source = (if source = 0 then cx_handle c else source), msg_session = send_session type session c,
      msg_data = send_data type data nd, msg_sz = sz OR push_bit MESSAGE_TYPE_SHIFT (ucast (type AND 0xff))\<rparr>"

lemma isremote_cong: "nd_harbor nd' = nd_harbor nd \<Longrightarrow> skynet_harbor_message_isremote w nd' = skynet_harbor_message_isremote w nd"
  by (simp add: skynet_harbor_message_isremote_def)

lemma skynet_send_prepared:
  assumes ok: "node_ok nd" and c: "nd_ctx nd context = Some c" and args: "send_args type session data bs sz nd"
    and sz: "sz AND MESSAGE_TYPE_MASK = sz" and dest: "destination \<noteq> 0"
    and local: "skynet_harbor_message_isremote destination nd = Some remote"
  shows "\<exists>nd1. skynet_send context source destination type session data sz nd =
      (let m = send_message source type session data sz c nd in
       if remote then map_option (\<lambda>nd3. (msg_session m, nd3))
         (skynet_harbor_send (nd_brk nd1) (msg_source m) (msg_session m) (snd (skynet_malloc
           (Remote \<lparr>rm_name = [], rm_handle = destination, rm_message = msg_data m, rm_sz = msg_sz m\<rparr>) nd1)))
       else do {
         (r, nd2) \<leftarrow> skynet_context_push destination m nd1;
         if r \<noteq> 0 then map_option (\<lambda>nd3. (- 1, nd3)) (skynet_free (msg_data m) nd2) else Some (msg_session m, nd2)
       }) \<and>
    node_ok nd1 \<and> lookup nd1 = lookup nd \<and> nd_mq nd1 = nd_mq nd \<and> nd_heap nd1 = send_heap type data bs sz nd \<and>
    nd_remote nd1 = nd_remote nd \<and> nd_brk nd \<le> nd_brk nd1 \<and>
    (\<exists>c'. nd_ctx nd1 = (nd_ctx nd)(context \<mapsto> c') \<and> cx_handle c' = cx_handle c \<and> cx_queue c' = cx_queue c)"
proof -
  let ?m = "send_message source type session data sz c nd"
  obtain nd1 c' where f: "filter_args context type session data sz nd =
      Some (msg_session ?m, msg_data ?m, msg_sz ?m, nd1)"
    and n: "node_ok nd1" "lookup nd1 = lookup nd" "nd_mq nd1 = nd_mq nd" "nd_heap nd1 = send_heap type data bs sz nd"
      "nd_harbor nd1 = nd_harbor nd" "nd_remote nd1 = nd_remote nd" "nd_brk nd \<le> nd_brk nd1"
    and c': "nd_ctx nd1 = (nd_ctx nd)(context \<mapsto> c')" "cx_handle c' = cx_handle c" "cx_queue c' = cx_queue c"
    using filter_args_ok [OF ok c args] by (auto simp: send_message_def)
  have src: "(if source = 0 then map_option cx_handle (nd_ctx nd1 context) else Some source) = Some (msg_source ?m)"
    using c' by (simp add: send_message_def)
  have m: "\<lparr>msg_source = msg_source ?m, msg_session = msg_session ?m, msg_data = msg_data ?m, msg_sz = msg_sz ?m\<rparr> = ?m"
    by simp
  have rm: "skynet_harbor_message_isremote destination nd1 = Some remote" using local isremote_cong [OF n(5)] by simp
  have "skynet_send context source destination type session data sz nd =
      (let m = send_message source type session data sz c nd in
       if remote then map_option (\<lambda>nd3. (msg_session m, nd3))
         (skynet_harbor_send (nd_brk nd1) (msg_source m) (msg_session m) (snd (skynet_malloc
           (Remote \<lparr>rm_name = [], rm_handle = destination, rm_message = msg_data m, rm_sz = msg_sz m\<rparr>) nd1)))
       else do {
         (r, nd2) \<leftarrow> skynet_context_push destination m nd1;
         if r \<noteq> 0 then map_option (\<lambda>nd3. (- 1, nd3)) (skynet_free (msg_data m) nd2) else Some (msg_session m, nd2)
       })"
    unfolding skynet_send_def f Option.bind.simps split_conv src m rm Let_def using sz dest
    by (cases remote) (simp_all add: split_beta map_option_case Option.bind.simps split: option.split)
  then show ?thesis using n c' by blast
qed

lemma message_type_bits:
  assumes "sz AND MESSAGE_TYPE_MASK = sz"
  shows "(sz OR push_bit MESSAGE_TYPE_SHIFT (ucast (t AND 0xff))) AND MESSAGE_TYPE_MASK = sz"
    "drop_bit MESSAGE_TYPE_SHIFT (sz OR push_bit MESSAGE_TYPE_SHIFT (ucast (t AND 0xff))) = ucast (t AND 0xff :: u32)"
proof -
  have mask: "bit MESSAGE_TYPE_MASK i \<longleftrightarrow> i < 56" for i
    by (auto simp: MESSAGE_TYPE_MASK_def bit_simps)
  have low: "bit sz i \<Longrightarrow> i < 56" for i
    using arg_cong [OF assms, of "\<lambda>w. bit w i"] by (simp add: bit_and_iff mask)
  have ff: "bit (255 :: int) i \<longleftrightarrow> i < 8" for i
  proof -
    have "(255 :: int) = mask 8" by (simp add: mask_eq_exp_minus_1)
    then show ?thesis by (simp only: bit_mask_iff) auto
  qed
  show "(sz OR push_bit MESSAGE_TYPE_SHIFT (ucast (t AND 0xff))) AND MESSAGE_TYPE_MASK = sz"
    by (rule bit_word_eqI) (use low in \<open>auto simp: bit_and_iff bit_or_iff bit_push_bit_iff mask MESSAGE_TYPE_SHIFT_def\<close>)
  show "drop_bit MESSAGE_TYPE_SHIFT (sz OR push_bit MESSAGE_TYPE_SHIFT (ucast (t AND 0xff))) = ucast (t AND 0xff)"
  proof (rule bit_word_eqI)
    fix i assume "i < LENGTH(64)"
    have "\<not> bit sz (56 + i)" using low [of "56 + i"] by auto
    then show "bit (drop_bit MESSAGE_TYPE_SHIFT (sz OR push_bit MESSAGE_TYPE_SHIFT (ucast (t AND 0xff)))) i =
        bit (ucast (t AND 0xff) :: u64) i"
      by (auto simp: bit_drop_bit_eq bit_or_iff bit_push_bit_iff bit_unsigned_iff bit_and_iff ff MESSAGE_TYPE_SHIFT_def)
  qed
qed

lemma free_sent:
  assumes ok: "node_ok nd" and args: "send_args type session data bs sz nd"
    and n: "nd_heap nd1 = send_heap type data bs sz nd"
  shows "\<exists>nd2. skynet_free (send_data type data nd) nd1 = Some nd2 \<and>
    nd2 = nd1\<lparr>nd_heap := (if send_copies type data then nd_heap nd else (nd_heap nd)(data := None))\<rparr>"
proof -
  have brk: "0 < nd_brk nd" "nd_heap nd (nd_brk nd) = None" "nd_heap nd 0 = None"
    using ok by (auto simp: node_ok_def heap_part_def)
  show ?thesis
  proof (cases "send_copies type data")
    case True
    then show ?thesis using brk n by (simp add: skynet_free_def send_data_def send_heap_def fun_upd_idem)
  next
    case False
    then have "(nd_heap nd1)(data := None) = (nd_heap nd)(data := None)" "send_data type data nd = data"
      using n by (simp_all add: send_heap_def send_data_def)
    moreover have "nd_heap nd1 data \<noteq> None" if "data \<noteq> 0"
      using args that n False by (auto simp: send_args_def send_heap_def)
    moreover have "nd1\<lparr>nd_heap := (nd_heap nd)(0 := None)\<rparr> = nd1" using False n brk(3)
      by (simp add: send_heap_def fun_upd_idem split: if_splits)
    ultimately show ?thesis using False by (cases "data = 0") (simp_all add: skynet_free_def)
  qed
qed

lemma send_to_live:
  assumes ok: "node_ok nd" and c: "nd_ctx nd context = Some c" and args: "send_args type session data bs sz nd"
    and sz: "sz AND MESSAGE_TYPE_MASK = sz" and dest: "destination \<noteq> 0"
    and local: "skynet_harbor_message_isremote destination nd = Some False"
    and p: "lookup nd destination = Some p"
  shows "\<exists>cp nd'. nd_ctx nd p = Some cp \<and>
    skynet_send context source destination type session data sz nd = Some (send_session type session c, nd') \<and>
    node_ok nd' \<and> delivered (cx_queue cp) (send_message source type session data sz c nd) (nd_mq nd) (nd_mq nd') \<and>
    nd_heap nd' = send_heap type data bs sz nd"
proof -
  let ?m = "send_message source type session data sz c nd"
  obtain cp where cp: "nd_ctx nd p = Some cp" using lookup_ctx [OF ok p] by blast
  obtain nd1 c' where send: "skynet_send context source destination type session data sz nd =
      Option.bind (skynet_context_push destination ?m nd1) (\<lambda>(r, nd2).
        if r \<noteq> 0 then map_option (\<lambda>nd3. (- 1, nd3)) (skynet_free (msg_data ?m) nd2) else Some (msg_session ?m, nd2))"
    and n: "node_ok nd1" "lookup nd1 = lookup nd" "nd_mq nd1 = nd_mq nd" "nd_heap nd1 = send_heap type data bs sz nd"
    and c': "nd_ctx nd1 = (nd_ctx nd)(context \<mapsto> c')" "cx_queue c' = cx_queue c"
    using skynet_send_prepared [OF ok c args sz dest local, of source] by (auto simp: Let_def)
  obtain cp1 where cp1: "nd_ctx nd1 p = Some cp1" "cx_queue cp1 = cx_queue cp" using c c' cp by (cases "p = context") auto
  obtain mq where "skynet_context_push destination ?m nd1 = Some (0, nd1\<lparr>nd_mq := mq\<rparr>)" "node_ok (nd1\<lparr>nd_mq := mq\<rparr>)"
    "delivered (cx_queue cp) ?m (nd_mq nd) mq"
    using context_push_ok [OF n(1) _ cp1(1), of destination ?m] p n(2,3) cp1(2) by (auto simp: delivered_def)
  then show ?thesis using send cp n(4) by (auto simp: send_message_def)
qed

lemma send_to_dead:
  assumes ok: "node_ok nd" and c: "nd_ctx nd context = Some c" and args: "send_args type session data bs sz nd"
    and sz: "sz AND MESSAGE_TYPE_MASK = sz" and dest: "destination \<noteq> 0"
    and local: "skynet_harbor_message_isremote destination nd = Some False"
    and p: "lookup nd destination = None"
  shows "\<exists>nd'. skynet_send context source destination type session data sz nd = Some (- 1, nd') \<and>
    node_ok nd' \<and> nd_mq nd' = nd_mq nd \<and>
    nd_heap nd' = (if send_copies type data then nd_heap nd else (nd_heap nd)(data := None))"
proof -
  let ?m = "send_message source type session data sz c nd"
  obtain nd1 where send: "skynet_send context source destination type session data sz nd =
      Option.bind (skynet_context_push destination ?m nd1) (\<lambda>(r, nd2).
        if r \<noteq> 0 then map_option (\<lambda>nd3. (- 1, nd3)) (skynet_free (msg_data ?m) nd2) else Some (msg_session ?m, nd2))"
    and n: "node_ok nd1" "lookup nd1 = lookup nd" "nd_mq nd1 = nd_mq nd" "nd_heap nd1 = send_heap type data bs sz nd"
    using skynet_send_prepared [OF ok c args sz dest local, of source] by (auto simp: Let_def)
  have "skynet_context_push destination ?m nd1 = Some (- 1, nd1)" using context_push_dead [OF n(1)] p n(2) by simp
  moreover obtain nd2 where nd2: "skynet_free (msg_data ?m) nd1 = Some nd2"
    "nd2 = nd1\<lparr>nd_heap := (if send_copies type data then nd_heap nd else (nd_heap nd)(data := None))\<rparr>"
    using free_sent [OF ok args n(4)] by (auto simp: send_message_def)
  moreover have "node_ok nd2" using node_ok_free [OF n(1) nd2(1)] .
  ultimately show ?thesis using send n(3) by simp
qed

lemma send_to_remote:
  assumes ok: "node_ok nd" and c: "nd_ctx nd context = Some c" and args: "send_args type session data bs sz nd"
    and sz: "sz AND MESSAGE_TYPE_MASK = sz" and dest: "destination \<noteq> 0"
    and remote: "skynet_harbor_message_isremote destination nd = Some True" "nd_remote nd = Some p"
    and type: "type AND 0xff \<noteq> 4" "type AND 0xff \<noteq> 5"
  shows "\<exists>cp nd' b. nd_ctx nd p = Some cp \<and>
    skynet_send context source destination type session data sz nd = Some (send_session type session c, nd') \<and> node_ok nd' \<and>
    send_heap type data bs sz nd b = None \<and>
    nd_heap nd' = (send_heap type data bs sz nd)(b \<mapsto> Remote \<lparr>rm_name = [], rm_handle = destination,
      rm_message = send_data type data nd, rm_sz = sz\<rparr>) \<and>
    delivered (cx_queue cp) \<lparr>msg_source = (if source = 0 then cx_handle c else source),
      msg_session = send_session type session c, msg_data = b,
      msg_sz = 40 OR push_bit MESSAGE_TYPE_SHIFT (ucast (type AND 0xff))\<rparr> (nd_mq nd) (nd_mq nd')"
proof -
  let ?m = "send_message source type session data sz c nd"
  let ?rm = "\<lparr>rm_name = [], rm_handle = destination, rm_message = msg_data ?m, rm_sz = msg_sz ?m\<rparr>"
  obtain cp where cp: "nd_ctx nd p = Some cp" using remote_ctx [OF ok remote(2)] by blast
  obtain nd1 c' where send: "skynet_send context source destination type session data sz nd =
      map_option (\<lambda>nd3. (msg_session ?m, nd3))
        (skynet_harbor_send (nd_brk nd1) (msg_source ?m) (msg_session ?m) (snd (skynet_malloc (Remote ?rm) nd1)))"
    and n: "node_ok nd1" "nd_mq nd1 = nd_mq nd" "nd_heap nd1 = send_heap type data bs sz nd" "nd_remote nd1 = nd_remote nd"
    and c': "nd_ctx nd1 = (nd_ctx nd)(context \<mapsto> c')" "cx_queue c' = cx_queue c"
    using skynet_send_prepared [OF ok c args sz dest remote(1), of source] by (auto simp: Let_def)
  obtain cp1 where cp1: "nd_ctx nd1 p = Some cp1" "cx_queue cp1 = cx_queue cp" using c c' cp by (cases "p = context") auto
  define nd2 where "nd2 = snd (skynet_malloc (Remote (?rm\<lparr>rm_sz := sz\<rparr>)) nd1)"
  have ok2: "node_ok nd2" unfolding nd2_def by (rule node_ok_malloc [OF n(1)])
  have sel: "nd_ctx nd2 = nd_ctx nd1" "nd_mq nd2 = nd_mq nd" by (simp_all add: nd2_def n)
  define m where "m = \<lparr>msg_source = msg_source ?m, msg_session = msg_session ?m, msg_data = nd_brk nd1,
    msg_sz = 40 OR push_bit MESSAGE_TYPE_SHIFT (ucast (type AND 0xff))\<rparr>"
  obtain mq where mq: "skynet_mq_push (cx_queue cp) m (nd_mq nd) = Some mq" "node_ok (nd2\<lparr>nd_mq := mq\<rparr>)"
    "delivered (cx_queue cp) m (nd_mq nd) mq"
    using push_to_context [OF ok2, of p cp1 m] cp1 sel by (auto simp: delivered_def)
  have small: "sint (ucast (type AND 0xff) :: u64) = uint (type AND 0xff)"
  proof -
    have "(type AND 0xff) \<le> 0xff" by (rule word_and_le1)
    then have "uint (type AND 0xff) \<le> 255" by (simp add: word_le_def)
    then have "uint (ucast (type AND 0xff) :: u64) = uint (type AND 0xff)" "uint (ucast (type AND 0xff) :: u64) < 2 ^ 63"
      by (simp_all add: uint_up_ucast is_up)
    moreover have "signed_take_bit (LENGTH(64) - Suc 0) x = x" if "0 \<le> x" "x < 2 ^ 63" for x :: int
      using that by (intro signed_take_bit_int_eq_self) auto
    ultimately show ?thesis by (simp add: sint_uint)
  qed
  have uint_type: "uint (type AND 0xff) \<noteq> 4" "uint (type AND 0xff) \<noteq> 5"
    using type by (simp_all add: word_uint_eq_iff)
  have "skynet_harbor_send (nd_brk nd1) (msg_source ?m) (msg_session ?m) (snd (skynet_malloc (Remote ?rm) nd1)) =
    Some (nd2\<lparr>nd_mq := mq\<rparr>)"
  proof -
    have "nd1\<lparr>nd_brk := x, nd_heap := h\<rparr> = nd1\<lparr>nd_heap := h, nd_brk := x\<rparr>" for x h by simp
    then show ?thesis
      using type mq(1) cp1 n remote(2) uint_type message_type_bits [OF sz, of type]
      by (simp add: skynet_harbor_send_def skynet_context_send_def Let_def send_message_def small m_def nd2_def
          skynet_malloc_def PTYPE_SYSTEM_def PTYPE_HARBOR_def)
  qed
  moreover have "nd_heap (nd2\<lparr>nd_mq := mq\<rparr>) = (send_heap type data bs sz nd)(nd_brk nd1 \<mapsto>
      Remote \<lparr>rm_name = [], rm_handle = destination, rm_message = send_data type data nd, rm_sz = sz\<rparr>)"
    by (simp add: nd2_def n send_message_def)
  moreover have "send_heap type data bs sz nd (nd_brk nd1) = None"
    using n(1,3) by (auto simp: node_ok_def heap_part_def)
  ultimately show ?thesis using send cp mq by (auto simp: send_message_def m_def)
qed

section \<open>Creating contexts\<close>

lemma slot_lookup:
  assumes wf: "slots_wf h s" and p: "Some p \<in> set (hs_slot s)"
  shows "hs_lookup h s (h p) = Some p"
proof -
  obtain i where "i < length (hs_slot s)" "hs_slot s ! i = Some p" using p by (auto simp: in_set_conv_nth)
  moreover from this have "slot_hash (h p) (hs_slot_size s) = i" using wf by (auto simp: slots_wf_def split: option.splits)
  ultimately show ?thesis by (simp add: hs_lookup_def)
qed

text \<open>Only the handles of the contexts in the table matter.\<close>

lemma slots_cong:
  assumes wf: "slots_wf h s" and h: "\<And>p. Some p \<in> set (hs_slot s) \<Longrightarrow> h' p = h p"
  shows "slots_wf h' s" "hs_lookup h' s = hs_lookup h s"
proof -
  have len: "length (hs_slot s) = hs_slot_size s" using wf by (simp add: slots_wf_def)
  have at: "hs_slot s ! i = Some p \<Longrightarrow> i < hs_slot_size s \<Longrightarrow> h' p = h p" for i p
    using h [of p] len nth_mem [of i "hs_slot s"] by simp
  show "slots_wf h' s" using wf at by (auto simp: slots_wf_def split: option.splits)
  show "hs_lookup h' s = hs_lookup h s"
    using at slot_hash_less [OF wf] by (auto simp: fun_eq_iff hs_lookup_def split: option.splits)
qed

lemma registered_live:
  assumes ok: "node_ok nd" and p: "Some p \<in> set (hs_slot (nd_handles nd))"
  shows "\<exists>c. nd_ctx nd p = Some c \<and> 1 \<le> cx_ref c" "lookup nd (handle_of nd p) = Some p"
proof -
  show l: "lookup nd (handle_of nd p) = Some p"
    using slot_lookup [OF _ p] ok by (simp add: lookup_def node_ok_def)
  show "\<exists>c. nd_ctx nd p = Some c \<and> 1 \<le> cx_ref c" using lookup_ctx [OF ok l] by blast
qed

lemma mq_part_create:
  assumes mq: "mq_part nd" and new: "flags (nd_mq nd) q = None"
  shows "mq_part (nd\<lparr>nd_mq := skynet_mq_create q w (nd_mq nd)\<rparr>)"
proof -
  obtain ps where ps: "mq_ok (nd_mq nd) ps" "\<And>p. flags (nd_mq nd) p = Some (False, False) \<Longrightarrow> p \<notin> set ps"
    using mq by (auto simp: mq_part_def)
  have "mq_mem (nd_mq nd) q = None" using new by (simp add: flags_None)
  note c = mq_create_ok [OF ps(1) this]
  show ?thesis using ps(2) c unfolding mq_part_def by (intro exI [of _ ps]) auto
qed

lemma register_names:
  assumes "skynet_handle_register h p s = Some (w, s')"
  shows "hs_name s' = hs_name s \<and> hs_name_count s' = hs_name_count s \<and> hs_name_cap s' = hs_name_cap s"
proof -
  let ?P = "\<lambda>h p s (w, s'). hs_name s' = hs_name s \<and> hs_name_count s' = hs_name_count s \<and> hs_name_cap s' = hs_name_cap s"
  have "?P h p s (w, s')"
  proof (rule skynet_handle_register.raw_induct [of ?P, OF _ assms], goal_cases)
    case (1 rec h p s r)
    then show ?case by (fastforce simp: bind_eq_Some_conv split: option.splits if_splits prod.splits)
  qed
  then show ?thesis by simp
qed

lemma flags_create: "flags (skynet_mq_create q w mq) = (flags mq)(q \<mapsto> (True, False))"
  by (simp add: skynet_mq_create_def flags_store mq_new_def)

text \<open>A context is registered under a new handle and has an empty mailbox of its own.\<close>

lemma new_context_ok:
  assumes ok: "node_ok nd"
    and room: "None \<in> set (hs_slot (nd_handles nd)) \<or> hs_slot_size (nd_handles nd) < 2 ^ 24"
  shows "\<exists>nd' w c. new_context (nd_brk nd) nd = Some nd' \<and> node_ok nd' \<and> lookup nd w = None \<and>
    lookup nd' = (lookup nd)(w \<mapsto> nd_brk nd) \<and> nd_ctx nd' = (nd_ctx nd)(nd_brk nd \<mapsto> c) \<and>
    cx_handle c = w \<and> cx_ref c = 2 \<and> cx_session_id c = 0 \<and> nd_harbor nd' = nd_harbor nd \<and> nd_heap nd' = nd_heap nd \<and>
    w AND NOT HANDLE_MASK = hs_harbor (nd_handles nd)"
proof -
  let ?p = "nd_brk nd"
  let ?c0 = "\<lparr>cx_handle = 0, cx_session_id = 0, cx_ref = 2, cx_queue = 0, cx_cb = None,
       cx_logfile = None, cx_result = [], cx_init = False, cx_endless = False\<rparr>"
  let ?nd1 = "set_ctx ?p ?c0 (nd\<lparr>nd_brk := ?p + 2\<rparr>)"
  have fresh: "nd_ctx nd ?p = None" "flags (nd_mq nd) (?p + 1) = None"
    using ok unfolding node_ok_def heap_part_def by (metis less_irrefl, metis less_irrefl less_SucI Suc_eq_plus1 not_None_eq)
  have notin: "Some ?p \<notin> set (hs_slot (nd_handles nd))" using registered_live [OF ok] fresh by fastforce
  have wf: "slots_wf (handle_of nd) (nd_handles nd)" using ok by (simp add: node_ok_def)
  have same: "handle_of ?nd1 p = handle_of nd p" if "Some p \<in> set (hs_slot (nd_handles nd))" for p
    using that notin by (auto simp: handle_of_def)
  have wf1: "slots_wf (handle_of ?nd1) (nd_handles nd)"
    "hs_lookup (handle_of ?nd1) (nd_handles nd) = hs_lookup (handle_of nd) (nd_handles nd)"
    using slots_cong [OF wf] same by blast+
  obtain w hs where reg: "skynet_handle_register (handle_of ?nd1) ?p (nd_handles nd) = Some (w, hs)"
    "hs_lookup (handle_of nd) (nd_handles nd) w = None" "slots_wf ((handle_of ?nd1)(?p := w)) hs"
    "hs_lookup ((handle_of ?nd1)(?p := w)) hs = (hs_lookup (handle_of nd) (nd_handles nd))(w \<mapsto> ?p)"
    "w AND NOT HANDLE_MASK = hs_harbor (nd_handles nd)"
    using register_ok [OF wf1(1) notin room] unfolding wf1(2) by blast
  have names: "names_wf hs"
    using ok register_names [OF reg(1)] by (simp add: node_ok_def names_wf_def names_of_def)
  let ?c = "?c0\<lparr>cx_handle := w, cx_queue := ?p + 1\<rparr>"
  let ?nd' = "set_ctx ?p ?c (?nd1\<lparr>nd_handles := hs, nd_mq := skynet_mq_create (?p + 1) w (nd_mq nd), nd_total := nd_total nd + 1\<rparr>)"
  have eq: "new_context ?p nd = Some ?nd'" using reg(1) by (simp add: new_context_def Let_def set_ctx_def)
  have h: "handle_of ?nd' = (handle_of ?nd1)(?p := w)" by (auto simp: handle_of_def)
  have l: "lookup ?nd' = (lookup nd)(w \<mapsto> ?p)" using reg(4) unfolding lookup_def h by simp
  have queues: "cx_queue c < ?p" if "nd_ctx nd p = Some c" for p c
  proof -
    have "flags (nd_mq nd) (cx_queue c) \<noteq> None" using ok that unfolding node_ok_def ctx_part_def by fastforce
    then show ?thesis using ok unfolding node_ok_def heap_part_def by blast
  qed
  have cl: "claims ?nd' a = claims nd a" if "a \<noteq> ?p" for a
  proof -
    have "(\<exists>v. lookup ?nd' v = Some a) \<longleftrightarrow> (\<exists>v. lookup nd v = Some a)"
      unfolding l using that reg(2) by (metis fun_upd_apply lookup_def option.distinct(1) option.inject)
    then show ?thesis by (simp add: claims_def)
  qed
  have "claims ?nd' ?p \<le> 2" by (simp add: claims_def)
  then have "ref_part ?nd'"
    using ok fresh(1) cl unfolding node_ok_def ref_part_def by auto
  moreover have "ctx_part ?nd'"
    using ok queues unfolding node_ok_def ctx_part_def by (auto simp: flags_create split: if_splits) fastforce+
  moreover have "mq_part ?nd'"
    using mq_part_create [of nd "?p + 1" w] ok fresh(2) by (simp add: node_ok_def mq_part_def)
  moreover have "heap_part ?nd'"
    using ok unfolding node_ok_def heap_part_def by (auto simp: flags_create less_SucI)
  moreover have "slots_wf (handle_of ?nd') (nd_handles ?nd')" unfolding h using reg(3) by simp
  moreover have "names_wf (nd_handles ?nd')" "nd_harbor ?nd' \<noteq> NOT 0" using names ok by (simp_all add: node_ok_def)
  ultimately have "node_ok ?nd'" unfolding node_ok_def by blast
  then show ?thesis using eq reg(2,5) l
    by (intro exI [of _ ?nd'] exI [of _ w] exI [of _ ?c]) (simp add: lookup_def)
qed

section \<open>Releasing and retiring contexts\<close>

lemma harbor_start_ok:
  assumes ok: "node_ok nd" and c: "nd_ctx nd p = Some c" and none: "nd_remote nd = None"
    and start: "skynet_harbor_start p nd = Some nd'"
  shows "node_ok nd'"
proof -
  let ?c = "c\<lparr>cx_ref := cx_ref c + 1\<rparr>"
  have ok1: "node_ok (set_ctx p ?c nd)"
    using claims_le [OF ok c] by (intro node_ok_set_ctx [OF ok c]) simp_all
  have nd': "nd' = (set_ctx p ?c nd)\<lparr>nd_total := nd_total nd - 1, nd_remote := Some p\<rparr>"
    using start c by (simp add: skynet_harbor_start_def skynet_context_reserve_def skynet_context_grab_def)
  have l: "lookup nd' = lookup nd" using set_ctx_lookup [OF c, of ?c] by (simp add: nd' lookup_def)
  have cl: "claims nd' a = claims nd a + of_bool (a = p)" for a
  proof -
    have "nd_remote nd' = Some p" by (simp add: nd')
    then show ?thesis using none by (auto simp: claims_def l)
  qed
  have ctx': "nd_ctx nd' = (nd_ctx nd)(p \<mapsto> ?c)" by (simp add: nd')
  have "ref_part nd'"
    unfolding ref_part_def cl ctx'
  proof (intro conjI allI impI)
    fix a assume "0 < claims nd a + of_bool (a = p)"
    then show "((nd_ctx nd)(p \<mapsto> ?c)) a \<noteq> None"
      using ok unfolding node_ok_def ref_part_def by (cases "a = p") auto
  next
    fix a c' assume "((nd_ctx nd)(p \<mapsto> ?c)) a = Some c'"
    then show "claims nd a + of_bool (a = p) \<le> cx_ref c'"
      using claims_le [OF ok, of a] claims_le [OF ok c] by (cases "a = p") auto
  qed
  moreover have "mq_part nd'" "ctx_part nd'" "heap_part nd'" "slots_wf (handle_of nd') (nd_handles nd')"
    "names_wf (nd_handles nd')" "nd_harbor nd' \<noteq> NOT 0"
  proof -
    have same: "nd_mq nd' = nd_mq (set_ctx p ?c nd)" "nd_ctx nd' = nd_ctx (set_ctx p ?c nd)"
      "nd_heap nd' = nd_heap (set_ctx p ?c nd)" "nd_brk nd' = nd_brk (set_ctx p ?c nd)"
      "nd_handles nd' = nd_handles (set_ctx p ?c nd)" "nd_harbor nd' = nd_harbor (set_ctx p ?c nd)"
      "handle_of nd' = handle_of (set_ctx p ?c nd)"
      by (simp_all add: nd' del: set_ctx_sel)
    show "mq_part nd'" "ctx_part nd'" "heap_part nd'" "slots_wf (handle_of nd') (nd_handles nd')"
      "names_wf (nd_handles nd')" "nd_harbor nd' \<noteq> NOT 0"
      using ok1 unfolding node_ok_def mq_part_def ctx_part_def heap_part_def same by blast+
  qed
  ultimately show ?thesis by (simp add: node_ok_def)
qed

text \<open>Giving back a reference that is not one of those that the handle table and the harbor hold.\<close>

lemma context_release_node:
  assumes ok: "node_ok nd" and c: "nd_ctx nd p = Some c" and more: "claims nd p < cx_ref c"
  shows "\<exists>alive nd'. skynet_context_release p nd = Some (alive, nd') \<and> node_ok nd' \<and> lookup nd' = lookup nd \<and>
    nd_handles nd' = nd_handles nd \<and> (\<forall>a. a \<noteq> p \<longrightarrow> handle_of nd' a = handle_of nd a) \<and> (alive \<longleftrightarrow> cx_ref c \<noteq> 1) \<and>
    nd_heap nd' = nd_heap nd \<and> mailboxes (nd_mq nd') = mailboxes (nd_mq nd) \<and>
    nd_ctx nd' = (if cx_ref c = 1 then (nd_ctx nd)(p := None) else (nd_ctx nd)(p \<mapsto> c\<lparr>cx_ref := cx_ref c - 1\<rparr>))"
proof (cases "cx_ref c = 1")
  case False
  let ?nd' = "set_ctx p (c\<lparr>cx_ref := cx_ref c - 1\<rparr>) nd"
  have "node_ok ?nd'" by (rule node_ok_set_ctx [OF ok c]) (use more in simp_all)
  moreover have "skynet_context_release p nd = Some (True, ?nd')"
    using False c by (simp add: skynet_context_release_def Let_def)
  ultimately show ?thesis using False set_ctx_lookup [OF c, of "c\<lparr>cx_ref := cx_ref c - 1\<rparr>"]
    handle_of_set_ctx [OF c, of "c\<lparr>cx_ref := cx_ref c - 1\<rparr>"] by auto
next
  case True
  obtain ps where ps: "mq_ok (nd_mq nd) ps" "\<And>p. flags (nd_mq nd) p = Some (False, False) \<Longrightarrow> p \<notin> set ps"
    using ok by (auto simp: node_ok_def mq_part_def)
  obtain g where g: "flags (nd_mq nd) (cx_queue c) = Some (g, False)"
    using ok c unfolding node_ok_def ctx_part_def by blast
  then obtain q where q: "mq_mem (nd_mq nd) (cx_queue c) = Some q" "mq_in_global q = g" "\<not> mq_release q"
    by (auto simp: flags_Some)
  have new: "\<not> mq_in_global q \<Longrightarrow> cx_queue c \<notin> set ps" using ps(2) g q(2) by simp
  from mark_release_keeps [OF ps(1) q(1) new q(3)] obtain mq where
    mq: "skynet_mq_mark_release (cx_queue c) (nd_mq nd) = Some mq"
      "mq_ok mq (if mq_in_global q then ps else ps @ [cx_queue c])"
      "flags mq = (flags (nd_mq nd))(cx_queue c \<mapsto> (g, True))" "mailboxes mq = mailboxes (nd_mq nd)" using q(2) by auto
  have "0 \<le> claims nd p" by (simp add: claims_def)
  then have no_claim: "claims nd p = 0" using more True by linarith
  let ?files = "case cx_logfile c of None \<Rightarrow> nd_files nd | Some f \<Rightarrow> (nd_files nd)(f := None)"
  let ?nd' = "nd\<lparr>nd_files := ?files, nd_events := nd_events nd @ [Released p], nd_mq := mq,
       nd_ctx := (nd_ctx nd)(p := None), nd_total := nd_total nd - 1\<rparr>"
  have rel: "skynet_context_release p nd = Some (False, ?nd')"
    using True c mq(1) by (simp add: skynet_context_release_def delete_context_def Let_def set_ctx_def split: option.split)
  have h: "handle_of ?nd' a = handle_of nd a" if "a \<noteq> p" for a using that by (simp add: handle_of_def)
  have notin: "Some p \<notin> set (hs_slot (nd_handles nd))"
  proof
    assume "Some p \<in> set (hs_slot (nd_handles nd))"
    from claims_registered [OF registered_live(2) [OF ok this]] show False
      using no_claim by (cases "nd_remote nd = Some p") simp_all
  qed
  have wf: "slots_wf (handle_of nd) (nd_handles nd)" using ok by (simp add: node_ok_def)
  have same: "slots_wf (handle_of ?nd') (nd_handles nd)"
    "hs_lookup (handle_of ?nd') (nd_handles nd) = hs_lookup (handle_of nd) (nd_handles nd)"
    using slots_cong [OF wf, of "handle_of ?nd'"] h notin by metis+
  then have l: "lookup ?nd' = lookup nd" by (simp add: lookup_def)
  then have cl: "claims ?nd' = claims nd" by (simp add: fun_eq_iff claims_def)
  have "mq_part ?nd'"
    unfolding mq_part_def using mq(2,3) ps(2)
    by (intro exI [of _ "if mq_in_global q then ps else ps @ [cx_queue c]"]) (auto split: if_splits)
  moreover have "ctx_part ?nd'"
    using ok c unfolding node_ok_def ctx_part_def by (simp add: mq(3)) metis
  moreover have "ref_part ?nd'" using ok no_claim unfolding node_ok_def ref_part_def cl by auto
  moreover have "heap_part ?nd'"
  proof -
    have "cx_queue c < nd_brk nd" using ok g unfolding node_ok_def heap_part_def by (metis option.distinct(1))
    then show ?thesis using ok unfolding node_ok_def heap_part_def by (auto simp: mq(3))
  qed
  ultimately have "node_ok ?nd'" using ok same(1) by (simp add: node_ok_def)
  then show ?thesis using rel l h True mq(4)
    by (intro exI [of _ False] exI [of _ ?nd']) simp
qed

lemma retire_slots:
  assumes "skynet_handle_retire h w s = Some (r, s')"
  shows "hs_slot_size s' = hs_slot_size s \<and> (\<exists>j. hs_slot s' = (hs_slot s)[j := None] \<or> hs_slot s' = hs_slot s)"
proof (cases "array_get (hs_slot s) (slot_hash w (hs_slot_size s))")
  case None
  then show ?thesis using assms by (simp add: skynet_handle_retire_def)
next
  case (Some c)
  then show ?thesis using assms
    by (cases c) (auto simp: skynet_handle_retire_def Let_def bind_eq_Some_conv split: if_splits)
qed

text \<open>Retiring a handle: only that handle goes, and the slot of its context is empty.\<close>

lemma handle_retire_ok:
  assumes ok: "node_ok nd"
  shows "\<exists>nd'. handle_retire w nd = Some (lookup nd w \<noteq> None, nd') \<and> node_ok nd' \<and>
    lookup nd' = (lookup nd)(w := None) \<and> mailboxes (nd_mq nd') = mailboxes (nd_mq nd) \<and>
    hs_slot_size (nd_handles nd') = hs_slot_size (nd_handles nd) \<and>
    (\<forall>i p. hs_slot (nd_handles nd') ! i = Some p \<longrightarrow> i < hs_slot_size (nd_handles nd) \<longrightarrow>
       hs_slot (nd_handles nd) ! i = Some p \<and> handle_of nd' p = handle_of nd p \<and> handle_of nd p \<noteq> w)"
proof -
  let ?h = "handle_of nd"
  have wf: "slots_wf ?h (nd_handles nd)" "names_wf (nd_handles nd)" using ok by (simp_all add: node_ok_def)
  from retire_ok [OF wf, of w] obtain hs where
    hs: "skynet_handle_retire ?h w (nd_handles nd) = Some (lookup nd w, hs)" "slots_wf ?h hs" "names_wf hs"
      "hs_lookup ?h hs = (lookup nd)(w := None)" by (auto simp: lookup_def)
  obtain j where j: "hs_slot_size hs = hs_slot_size (nd_handles nd)"
    "hs_slot hs = (hs_slot (nd_handles nd))[j := None] \<or> hs_slot hs = hs_slot (nd_handles nd)"
    using retire_slots [OF hs(1)] by blast
  have slots: "hs_slot_size hs = hs_slot_size (nd_handles nd)"
    "i < length (hs_slot (nd_handles nd)) \<Longrightarrow> hs_slot hs ! i = Some p \<Longrightarrow> hs_slot (nd_handles nd) ! i = Some p" for i p
    using j by (auto, cases "i = j") auto
  let ?nd1 = "nd\<lparr>nd_handles := hs\<rparr>"
  have l1: "lookup ?nd1 = (lookup nd)(w := None)" using hs(4) by (simp add: lookup_def)
  have len: "length (hs_slot (nd_handles nd)) = hs_slot_size (nd_handles nd)"
    "length (hs_slot hs) = hs_slot_size hs" using wf hs(2) by (simp_all add: slots_wf_def)
  have notw: "handle_of nd p \<noteq> w" if "hs_slot hs ! i = Some p" "i < hs_slot_size (nd_handles nd)" for i p
  proof -
    have "Some p \<in> set (hs_slot hs)" using that nth_mem [of i "hs_slot hs"] len slots(1) by simp
    from slot_lookup [OF hs(2) this] show ?thesis using hs(4) by auto
  qed
  have cl: "claims ?nd1 a \<le> claims nd a" for a unfolding claims_def l1 by auto
  have ok1: "node_ok ?nd1"
    unfolding node_ok_def
  proof (intro conjI)
    have "ref_part nd" using ok by (simp add: node_ok_def)
    moreover have "claims ?nd1 a > 0 \<Longrightarrow> claims nd a > 0" for a using cl [of a] by linarith
    ultimately show "ref_part ?nd1"
      using cl order_trans unfolding ref_part_def by (auto simp: order_trans [OF cl])
  qed (use ok hs in \<open>simp_all add: node_ok_def mq_part_def ctx_part_def heap_part_def\<close>)
  show ?thesis
  proof (cases "lookup nd w")
    case None
    have "handle_retire w nd = Some (False, ?nd1)" using hs(1) None by (simp add: handle_retire_def Let_def)
    then show ?thesis using ok1 None l1 slots len notw by (intro exI [of _ ?nd1]) auto
  next
    case (Some p)
    obtain c where c: "nd_ctx nd p = Some c" "1 + of_bool (nd_remote nd = Some p) \<le> cx_ref c"
      using lookup_ctx [OF ok Some] by blast
    have only: "lookup nd v \<noteq> Some p" if "v \<noteq> w" for v
      using Some that by (auto simp: lookup_def hs_lookup_def split: option.splits if_splits)
    then have "claims ?nd1 p = of_bool (nd_remote nd = Some p)" unfolding claims_def l1 by simp
    then have more: "claims ?nd1 p < cx_ref c" using c(2) by simp
    have c1: "nd_ctx ?nd1 p = Some c" using c(1) by simp
    from context_release_node [OF ok1 c1 more] obtain alive nd2 where
      nd2: "skynet_context_release p ?nd1 = Some (alive, nd2)" "node_ok nd2" "lookup nd2 = lookup ?nd1"
        "nd_handles nd2 = hs" "\<forall>a. a \<noteq> p \<longrightarrow> handle_of nd2 a = handle_of ?nd1 a" "mailboxes (nd_mq nd2) = mailboxes (nd_mq nd)"
      by auto
    have "handle_of nd p = w" using Some by (auto simp: lookup_def hs_lookup_def split: option.splits if_splits)
    then have notp: "p' \<noteq> p" if "hs_slot hs ! i = Some p'" "i < hs_slot_size (nd_handles nd)" for i p'
      using notw [OF that] by auto
    have "handle_retire w nd = Some (True, nd2)" using hs(1) Some nd2(1) by (simp add: handle_retire_def Let_def)
    then show ?thesis using Some nd2 l1 slots len notw notp
      by (intro exI [of _ nd2]) auto
  qed
qed

section \<open>Retiring every context\<close>

definition all_zero :: "nat \<Rightarrow> node \<Rightarrow> bool" where
  "all_zero i nd \<longleftrightarrow> (\<forall>j p. i \<le> j \<longrightarrow> j < hs_slot_size (nd_handles nd) \<longrightarrow> hs_slot (nd_handles nd) ! j = Some p \<longrightarrow>
     handle_of nd p = 0)"

lemma slot_length: "node_ok nd \<Longrightarrow> length (hs_slot (nd_handles nd)) = hs_slot_size (nd_handles nd)"
  by (simp add: node_ok_def slots_wf_def)

text \<open>What one pass from slot \<open>i\<close> does.\<close>

definition passed :: "nat \<Rightarrow> node \<Rightarrow> node \<Rightarrow> bool" where
  "passed i nd nd' \<longleftrightarrow> node_ok nd' \<and> hs_slot_size (nd_handles nd') = hs_slot_size (nd_handles nd) \<and>
     (\<forall>v. lookup nd' v = None \<or> lookup nd' v = lookup nd v) \<and> lookup nd' 0 = lookup nd 0 \<and>
     mailboxes (nd_mq nd') = mailboxes (nd_mq nd) \<and>
     (\<forall>j p. hs_slot (nd_handles nd') ! j = Some p \<longrightarrow> j < hs_slot_size (nd_handles nd) \<longrightarrow>
        hs_slot (nd_handles nd) ! j = Some p \<and> handle_of nd' p = handle_of nd p) \<and> all_zero i nd'"

lemma passedD:
  assumes "passed i nd nd'"
  shows "node_ok nd'" "hs_slot_size (nd_handles nd') = hs_slot_size (nd_handles nd)"
    "lookup nd' v = None \<or> lookup nd' v = lookup nd v" "lookup nd' 0 = lookup nd 0"
    "mailboxes (nd_mq nd') = mailboxes (nd_mq nd)"
    "hs_slot (nd_handles nd') ! j = Some p \<Longrightarrow> j < hs_slot_size (nd_handles nd) \<Longrightarrow>
       hs_slot (nd_handles nd) ! j = Some p \<and> handle_of nd' p = handle_of nd p"
    "all_zero i nd'"
  using assms by (simp_all add: passed_def)

lemma retire_pass_ok:
  assumes "node_ok nd" "i \<le> hs_slot_size (nd_handles nd)"
  shows "\<exists>n' nd'. retire_pass i n nd = Some (n', nd') \<and> n \<le> n' \<and> passed i nd nd' \<and>
    (all_zero i nd \<longrightarrow> n' = n \<and> nd' = nd)"
  using assms
proof (induction "hs_slot_size (nd_handles nd) - i" arbitrary: i n nd)
  case 0
  then have "retire_pass i n nd = Some (n, nd)" by (simp add: retire_pass.simps)
  then show ?case using 0 by (auto simp: passed_def all_zero_def)
next
  case (Suc k)
  then have i: "i < hs_slot_size (nd_handles nd)" "i < length (hs_slot (nd_handles nd))" by (simp_all add: slot_length)
  let ?c = "hs_slot (nd_handles nd) ! i"
  let ?w = "case ?c of None \<Rightarrow> 0 | Some p \<Rightarrow> handle_of nd p"
  have k: "k = hs_slot_size (nd_handles nd) - (i + 1)" using Suc.hyps(2) by simp
  show ?case
  proof (cases "?w = 0")
    case True
    then have eq: "retire_pass i n nd = retire_pass (i + 1) n nd" using i by (subst retire_pass.simps) (simp add: Let_def)
    obtain n' nd' where IH: "retire_pass (i + 1) n nd = Some (n', nd')" "n \<le> n'" "passed (i + 1) nd nd'"
      "all_zero (i + 1) nd \<longrightarrow> n' = n \<and> nd' = nd"
      using Suc.hyps(1) [OF _ Suc.prems(1), of "i + 1" n] k i by auto
    have "handle_of nd p = 0" if "hs_slot (nd_handles nd) ! i = Some p" for p using True that by simp
    then have zero: "all_zero i nd'"
      using passedD(2,6,7) [OF IH(3)] i unfolding all_zero_def by (metis Suc_eq_plus1 Suc_leI le_neq_implies_less)
    have "passed i nd nd'" using IH(3) zero by (simp add: passed_def)
    moreover have "all_zero (i + 1) nd" if "all_zero i nd"
      using that unfolding all_zero_def by (metis Suc_eq_plus1 Suc_leD)
    ultimately show ?thesis using eq IH(1,2,4) by auto
  next
    case False
    then obtain p where p: "?c = Some p" "handle_of nd p \<noteq> 0" by (cases ?c) auto
    let ?w = "handle_of nd p"
    have "lookup nd ?w = Some p" using registered_live(2) [OF Suc.prems(1)] p(1) i(2) by (metis nth_mem)
    with handle_retire_ok [OF Suc.prems(1), of ?w] obtain nd1 where nd1: "handle_retire ?w nd = Some (True, nd1)"
      "node_ok nd1" "lookup nd1 = (lookup nd)(?w := None)" "mailboxes (nd_mq nd1) = mailboxes (nd_mq nd)"
      "hs_slot_size (nd_handles nd1) = hs_slot_size (nd_handles nd)"
      "\<forall>j p'. hs_slot (nd_handles nd1) ! j = Some p' \<longrightarrow> j < hs_slot_size (nd_handles nd) \<longrightarrow>
        hs_slot (nd_handles nd) ! j = Some p' \<and> handle_of nd1 p' = handle_of nd p' \<and> handle_of nd p' \<noteq> ?w" by auto
    have eq: "retire_pass i n nd = retire_pass (i + 1) (n + 1) nd1"
      using i p nd1(1) by (subst retire_pass.simps) (simp add: Let_def)
    obtain n' nd' where IH: "retire_pass (i + 1) (n + 1) nd1 = Some (n', nd')" "n + 1 \<le> n'" "passed (i + 1) nd1 nd'"
      using Suc.hyps(1) [OF _ nd1(2), of "i + 1" "n + 1"] nd1(5) k i by auto
    note d = passedD [OF IH(3)]
    have "passed i nd nd'"
      unfolding passed_def
    proof (intro conjI allI impI)
      show "lookup nd' v = None \<or> lookup nd' v = lookup nd v" for v
        using d(3) [of v] unfolding nd1(3) by (auto split: if_splits)
    next
      fix j p' assume "hs_slot (nd_handles nd') ! j = Some p'" "j < hs_slot_size (nd_handles nd)"
      then show "hs_slot (nd_handles nd) ! j = Some p'" "handle_of nd' p' = handle_of nd p'"
        using d(6) [of j p'] nd1(5,6) by auto
    next
      show "all_zero i nd'"
        unfolding all_zero_def
      proof (intro allI impI)
        fix j p' assume j: "i \<le> j" "j < hs_slot_size (nd_handles nd')" "hs_slot (nd_handles nd') ! j = Some p'"
        have "hs_slot (nd_handles nd1) ! j = Some p'" using d(6) [of j p'] j d(2) by simp
        then have "j \<noteq> i" using nd1(5,6) p j d(2) by fastforce
        then have "i + 1 \<le> j" using j(1) by simp
        then show "handle_of nd' p' = 0" using d(7) j unfolding all_zero_def by blast
      qed
    qed (use d nd1 p in auto)
    moreover have "\<not> all_zero i nd" using p i by (auto simp: all_zero_def)
    ultimately show ?thesis using eq IH by auto
  qed
qed

lemma retireall_ok:
  assumes ok: "node_ok nd"
  shows "\<exists>nd'. skynet_handle_retireall nd = Some nd' \<and> node_ok nd' \<and>
    lookup nd' = (\<lambda>w. if w = 0 then lookup nd 0 else None) \<and> mailboxes (nd_mq nd') = mailboxes (nd_mq nd)"
proof -
  obtain n nd' where pass: "retire_pass 0 0 nd = Some (n, nd')" "passed 0 nd nd'"
    using retire_pass_ok [OF ok, of 0 0] by auto
  note d = passedD [OF pass(2)]
  have again: "retire_pass 0 0 nd' = Some (0, nd')" using retire_pass_ok [OF d(1), of 0 0] d(7) by auto
  have end_state: "lookup nd' w = (if w = 0 then lookup nd 0 else None)" for w
  proof (cases "lookup nd' w")
    case None
    then show ?thesis using d(4) by auto
  next
    case (Some p)
    then have slot: "hs_slot (nd_handles nd') ! slot_hash w (hs_slot_size (nd_handles nd')) = Some p" "handle_of nd' p = w"
      by (auto simp: lookup_def hs_lookup_def split: option.splits if_splits)
    moreover have "slot_hash w (hs_slot_size (nd_handles nd')) < hs_slot_size (nd_handles nd')"
      using d(1) slot_hash_less unfolding node_ok_def by blast
    ultimately have "w = 0" using d(7) unfolding all_zero_def by auto
    then show ?thesis using Some d(4) by simp
  qed
  have "skynet_handle_retireall nd = Some nd'"
    using pass(1) again by (subst skynet_handle_retireall.simps) (simp add: skynet_handle_retireall.simps)
  then show ?thesis using d(1,5) end_state by auto
qed

section \<open>A node with two services\<close>

lemma slots_init_lookup: "hs_lookup h (skynet_handle_init harbor) w = None"
  by (simp add: hs_lookup_def skynet_handle_init_def DEFAULT_SLOT_SIZE_def slot_hash_4)

lemma node_start_ok:
  assumes "(push_bit HANDLE_REMOTE_SHIFT (word_of_int harbor) :: u32) \<noteq> NOT 0"
  shows "node_ok (node_start harbor sec cs clock)"
proof -
  let ?nd = "node_start harbor sec cs clock"
  have sel: "nd_mq ?nd = skynet_mq_init" "nd_handles ?nd = skynet_handle_init harbor" "nd_ctx ?nd = Map.empty"
    "nd_heap ?nd = Map.empty" "nd_brk ?nd = 1" "nd_remote ?nd = None"
    by (simp_all add: node_start_def skynet_globalinit_def skynet_harbor_init_def)
  have f: "flags skynet_mq_init p = None" for p by (simp add: flags_def skynet_mq_init_def)
  have "lookup ?nd w = None" for w using slots_init_lookup by (simp add: lookup_def sel)
  then have "claims ?nd p = 0" for p by (simp add: claims_def sel)
  moreover have "mq_ok skynet_mq_init []" using gq_list_init by (simp add: mq_ok_def) (simp add: skynet_mq_init_def)
  moreover have "nd_harbor ?nd \<noteq> NOT 0"
    using assms by (simp add: node_start_def skynet_harbor_init_def)
  ultimately show ?thesis
    using slots_wf_init names_wf_init
    by (auto simp: node_ok_def mq_part_def ctx_part_def ref_part_def heap_part_def sel f intro: exI [of _ "[]"])
qed

lemma first_free_slot:
  "find_free_slot (skynet_handle_init 0) 0 4 = Some (Some (1, 1))"
  "find_free_slot ((skynet_handle_init 0)\<lparr>hs_slot := [None, Some p, None, None], hs_index := 2\<rparr>) 0 4 =
     Some (Some (2, 2))"
  using find_free_slot.simps(2) [of "skynet_handle_init 0" 0 3]
    find_free_slot.simps(2) [of "(skynet_handle_init 0)\<lparr>hs_slot := [None, Some p, None, None], hs_index := 2\<rparr>" 0 3]
  by (simp_all add: skynet_handle_init_def DEFAULT_SLOT_SIZE_def HANDLE_MASK_def slot_hash_def)

lemma first_handle:
  "skynet_handle_register h p (skynet_handle_init 0) =
     Some (1, (skynet_handle_init 0)\<lparr>hs_slot := [None, Some p, None, None], hs_index := 2\<rparr>)"
proof -
  have "hs_slot_size (skynet_handle_init 0) = 4" "hs_slot (skynet_handle_init 0) = [None, None, None, None]"
    "hs_harbor (skynet_handle_init 0) = 0"
    by (simp_all add: skynet_handle_init_def DEFAULT_SLOT_SIZE_def numeral_nat)
  then show ?thesis by (simp add: skynet_handle_register.simps [of h p] first_free_slot)
qed

lemma second_handle:
  "skynet_handle_register h q ((skynet_handle_init 0)\<lparr>hs_slot := [None, Some p, None, None], hs_index := 2\<rparr>) =
     Some (2, (skynet_handle_init 0)\<lparr>hs_slot := [None, Some p, Some q, None], hs_index := 3\<rparr>)"
proof -
  have "hs_slot_size (skynet_handle_init 0) = 4" "hs_harbor (skynet_handle_init 0) = 0"
    by (simp_all add: skynet_handle_init_def DEFAULT_SLOT_SIZE_def)
  then show ?thesis by (simp add: skynet_handle_register.simps [of h q] first_free_slot)
qed

definition fresh_context :: "u32 \<Rightarrow> addr \<Rightarrow> skynet_context" where
  "fresh_context w queue = \<lparr>cx_handle = w, cx_session_id = 0, cx_ref = 2, cx_queue = queue, cx_cb = None,
     cx_logfile = None, cx_result = [], cx_init = False, cx_endless = False\<rparr>"

text \<open>A node with harbor 0, with one service and with two.\<close>

definition one_service :: node where
  "one_service = the (new_context 1 (node_start 0 0 0 0))"

definition two_services :: node where
  "two_services = the (new_context 3 one_service)"

lemma start_sel:
  "nd_mq (node_start 0 0 0 0) = skynet_mq_init" "nd_handles (node_start 0 0 0 0) = skynet_handle_init 0"
  "nd_ctx (node_start 0 0 0 0) = Map.empty" "nd_heap (node_start 0 0 0 0) = Map.empty"
  "nd_brk (node_start 0 0 0 0) = 1" "nd_harbor (node_start 0 0 0 0) = 0"
  "nd_remote (node_start 0 0 0 0) = None"
  by (simp_all add: node_start_def skynet_globalinit_def skynet_harbor_init_def)

lemma one_service_facts:
  "new_context 1 (node_start 0 0 0 0) = Some one_service"
  "nd_handles one_service = (skynet_handle_init 0)\<lparr>hs_slot := [None, Some 1, None, None], hs_index := 2\<rparr>"
  "nd_ctx one_service = [1 \<mapsto> fresh_context 1 2]" "nd_brk one_service = 3" "nd_heap one_service = Map.empty"
  "nd_harbor one_service = 0" "nd_remote one_service = None"
  by (simp_all add: one_service_def new_context_def start_sel Let_def set_ctx_def first_handle fresh_context_def numeral_2_eq_2)

lemma two_services_facts:
  "new_context 3 one_service = Some two_services"
  "nd_handles two_services = (skynet_handle_init 0)\<lparr>hs_slot := [None, Some 1, Some 3, None], hs_index := 3\<rparr>"
  "nd_ctx two_services = [1 \<mapsto> fresh_context 1 2, 3 \<mapsto> fresh_context 2 4]" "nd_heap two_services = Map.empty"
  "nd_harbor two_services = 0" "nd_brk two_services = 5" "nd_remote two_services = None"
  by (simp_all add: two_services_def one_service_facts Let_def new_context_def set_ctx_def
      second_handle fresh_context_def)

lemma two_services_ok: "node_ok two_services"
proof -
  have "node_ok (node_start 0 0 0 0)" by (rule node_start_ok) simp
  moreover have "None \<in> set (hs_slot (nd_handles (node_start 0 0 0 0)))"
    by (simp add: start_sel skynet_handle_init_def DEFAULT_SLOT_SIZE_def)
  ultimately have "node_ok one_service"
    using new_context_ok [of "node_start 0 0 0 0"] one_service_facts(1) by (auto simp: start_sel)
  then show ?thesis
    using new_context_ok [of one_service] two_services_facts(1) by (auto simp: one_service_facts)
qed

lemma two_services_lookup: "lookup two_services 1 = Some 1" "lookup two_services 2 = Some 3" "lookup two_services 7 = None"
  by (simp_all add: lookup_def hs_lookup_def two_services_facts handle_of_def fresh_context_def slot_hash_def
      skynet_handle_init_def DEFAULT_SLOT_SIZE_def)

section \<open>Properties\<close>

text \<open>C12.  Sending on one node.  On a well-formed node \<open>skynet_send\<close> to a handle of this node ends in one
  of two ways.  If a context is registered under the handle, the call returns the session, the
  message is appended to the mailbox of that context, which is put at the end of the run queue if
  it was idle, no other mailbox changes, and the data is a copy unless the caller gave it away.  If not, it returns -1, no
  mailbox changes, and neither the copy nor data that was given away stays allocated.\<close>

theorem send_delivers_or_frees:
  assumes "node_ok nd" "nd_ctx nd context = Some c" "send_args type session data bs sz nd"
    and "sz AND MESSAGE_TYPE_MASK = sz" "destination \<noteq> 0"
    and "skynet_harbor_message_isremote destination nd = Some False"
  shows "case lookup nd destination of
      Some p \<Rightarrow> \<exists>cp nd'. nd_ctx nd p = Some cp \<and>
        skynet_send context source destination type session data sz nd = Some (send_session type session c, nd') \<and>
        node_ok nd' \<and> delivered (cx_queue cp) (send_message source type session data sz c nd) (nd_mq nd) (nd_mq nd') \<and>
        nd_heap nd' = send_heap type data bs sz nd
    | None \<Rightarrow> \<exists>nd'. skynet_send context source destination type session data sz nd = Some (- 1, nd') \<and>
        node_ok nd' \<and> nd_mq nd' = nd_mq nd \<and>
        nd_heap nd' = (if send_copies type data then nd_heap nd else (nd_heap nd)(data := None))"
  using send_to_live [OF assms] send_to_dead [OF assms] by (auto split: option.split)

lemma two_services_args: "send_args 0 5 0 [] 0 two_services"
  by (simp add: send_args_def)

lemma two_services_local: "skynet_harbor_message_isremote 2 two_services = Some False"
  "skynet_harbor_message_isremote 7 two_services = Some False"
  by (simp_all add: skynet_harbor_message_isremote_def two_services_facts HANDLE_MASK_def)

theorem send_delivers_or_frees_witness:
  "(\<exists>nd'. skynet_send 1 0 2 0 5 0 0 two_services = Some (5, nd')) \<and>
   (\<exists>nd'. skynet_send 1 0 7 0 5 0 0 two_services = Some (- 1, nd') \<and> nd_mq nd' = nd_mq two_services)"
proof -
  have c: "nd_ctx two_services 1 = Some (fresh_context 1 2)" by (simp add: two_services_facts)
  note send = send_delivers_or_frees [OF two_services_ok c two_services_args, where source = 0]
  have "send_session 0 5 (fresh_context 1 2) = 5" by (simp add: send_session_def)
  then show ?thesis using send [of 2] send [of 7] two_services_local two_services_lookup by auto
qed

text \<open>C30.  Sending to another node.  A message to a handle of another harbor becomes a
  \<open>struct remote_message\<close> of its own with the destination, the data and the size, and the mailbox of
  the harbor service gets a message that points to it and keeps source, session and type.\<close>

theorem send_to_other_node:
  assumes "node_ok nd" "nd_ctx nd context = Some c" "send_args type session data bs sz nd"
    and "sz AND MESSAGE_TYPE_MASK = sz" "destination \<noteq> 0"
    and "skynet_harbor_message_isremote destination nd = Some True" "nd_remote nd = Some p"
    and "type AND 0xff \<noteq> 4" "type AND 0xff \<noteq> 5"
  shows "\<exists>cp nd' b. nd_ctx nd p = Some cp \<and>
    skynet_send context source destination type session data sz nd = Some (send_session type session c, nd') \<and> node_ok nd' \<and>
    send_heap type data bs sz nd b = None \<and>
    nd_heap nd' = (send_heap type data bs sz nd)(b \<mapsto> Remote \<lparr>rm_name = [], rm_handle = destination,
      rm_message = send_data type data nd, rm_sz = sz\<rparr>) \<and>
    delivered (cx_queue cp) \<lparr>msg_source = (if source = 0 then cx_handle c else source),
      msg_session = send_session type session c, msg_data = b,
      msg_sz = 40 OR push_bit MESSAGE_TYPE_SHIFT (ucast (type AND 0xff))\<rparr> (nd_mq nd) (nd_mq nd')"
  using assms by (rule send_to_remote)

definition with_harbor :: node where
  "with_harbor = the (skynet_harbor_start 3 two_services)"

theorem send_to_other_node_witness:
  "\<exists>nd' b. skynet_send 1 0 0x05000001 0 5 0 0 with_harbor = Some (5, nd') \<and>
    nd_heap nd' = [b \<mapsto> Remote \<lparr>rm_name = [], rm_handle = 0x05000001, rm_message = 0, rm_sz = 0\<rparr>]"
proof -
  have start: "skynet_harbor_start 3 two_services = Some with_harbor"
    by (simp add: with_harbor_def skynet_harbor_start_def skynet_context_reserve_def skynet_context_grab_def two_services_facts)
  have ok: "node_ok with_harbor"
    using harbor_start_ok [OF two_services_ok _ _ start] by (simp add: two_services_facts)
  have sel: "nd_ctx with_harbor 1 = Some (fresh_context 1 2)" "nd_remote with_harbor = Some 3"
    "nd_heap with_harbor = Map.empty" "nd_harbor with_harbor = 0"
    by (simp_all add: with_harbor_def skynet_harbor_start_def skynet_context_reserve_def skynet_context_grab_def
        two_services_facts)
  have "skynet_harbor_message_isremote 0x05000001 with_harbor = Some True"
    by (simp add: skynet_harbor_message_isremote_def sel HANDLE_MASK_def)
  then show ?thesis
    using send_to_other_node [OF ok sel(1), of 0 5 0 "[]" 0 "0x05000001" 3 0] sel
    by (auto simp: send_args_def send_session_def send_heap_def send_data_def send_copies_def)
qed

text \<open>Sessions.  The session numbers that a new context hands out are 1, 2, 3, ... up to 2^31 - 1 and
  then start again at 1: never 0, never negative, and no number returns before all others were used.\<close>

theorem session_numbers:
  assumes "nd_ctx nd p = Some c" "cx_session_id c = 0"
  shows "\<exists>nd'. new_sessions n p nd = Some (map (\<lambda>i. int (i mod (2 ^ 31 - 1)) + 1) [0..<n], nd')"
  using new_sessions_run [OF assms, of n] by blast

theorem session_numbers_witness: "\<exists>nd'. new_sessions 3 1 two_services = Some ([1, 2, 3], nd')"
  using session_numbers [of two_services 1 "fresh_context 1 2" 3] two_services_facts(3)
  by (simp add: fresh_context_def upt_rec)

text \<open>C19.  Shutdown.  \<open>skynet_handle_retireall\<close> comes to an end on every well-formed node, and then no
  handle denotes a context any more, except the handle 0 if the registry gave it out: its loop
  takes a slot with handle 0 for an empty one.\<close>

theorem retireall_ends:
  assumes "node_ok nd"
  shows "\<exists>nd'. skynet_handle_retireall nd = Some nd' \<and> node_ok nd' \<and>
    lookup nd' = (\<lambda>w. if w = 0 then lookup nd 0 else None) \<and> mailboxes (nd_mq nd') = mailboxes (nd_mq nd)"
  using assms by (rule retireall_ok)

theorem retireall_ends_witness: "\<exists>nd'. skynet_handle_retireall two_services = Some nd' \<and> lookup nd' 2 = None"
  using retireall_ends [OF two_services_ok] by auto

text \<open>A message to handle 0 is lost with its memory.  \<open>skynet_send\<close> to destination 0 returns the session
  as if it had sent the message; no mailbox changes, and the copy of the data, whose address nobody gets,
  stays allocated.\<close>

theorem send_to_zero_leaks:
  assumes "node_ok nd" "nd_ctx nd context = Some c" "send_args type session data bs sz nd"
    and "sz AND MESSAGE_TYPE_MASK = sz"
  shows "\<exists>nd'. skynet_send context source 0 type session data sz nd = Some (send_session type session c, nd') \<and>
    nd_mq nd' = nd_mq nd \<and> nd_heap nd' = send_heap type data bs sz nd"
proof -
  obtain nd1 c' where "filter_args context type session data sz nd =
      Some (send_session type session c, send_data type data nd, sz OR push_bit MESSAGE_TYPE_SHIFT (ucast (type AND 0xff)), nd1)"
    "nd_mq nd1 = nd_mq nd" "nd_heap nd1 = send_heap type data bs sz nd" "nd_ctx nd1 context = Some c'"
    using filter_args_ok [OF assms(1-3)] by auto
  then show ?thesis using assms(4) by (simp add: skynet_send_def)
qed

theorem send_to_zero_leaks_witness:
  "\<exists>nd nd'. skynet_send 1 0 0 0 5 5 2 nd = Some (5, nd') \<and> nd_heap nd = [5 \<mapsto> Data [7, 8]] \<and>
    nd_heap nd' = [5 \<mapsto> Data [7, 8], 6 \<mapsto> Data [7, 8, 0]]"
proof -
  let ?nd = "snd (skynet_malloc (Data [7, 8]) two_services)"
  have args: "send_args 0 5 5 [7, 8] 2 ?nd" by (simp add: send_args_def two_services_facts)
  have ctx: "nd_ctx ?nd 1 = Some (fresh_context 1 2)" by (simp add: two_services_facts)
  have sz: "2 AND MESSAGE_TYPE_MASK = 2" by code_simp
  have "\<exists>nd'. skynet_send 1 0 0 0 5 5 2 ?nd = Some (5, nd') \<and> nd_heap nd' = [5 \<mapsto> Data [7, 8], 6 \<mapsto> Data [7, 8, 0]]"
    using send_to_zero_leaks [OF node_ok_malloc [OF two_services_ok] ctx args sz, of 0]
    by (auto simp: send_session_def send_heap_def send_copies_def two_services_facts)
  moreover have "nd_heap ?nd = [5 \<mapsto> Data [7, 8]]" by (simp add: two_services_facts)
  ultimately show ?thesis by blast
qed

end
