(* ===== verification/Commands.thy ===== *)
theory Commands
  imports Delivery
begin

text \<open>
  The text commands of \<open>skynet_command\<close>: launching and ending services, names, sessions for
  time-outs, the environment and the log.  What a service module does is a parameter.
\<close>

section \<open>Launching a service\<close>

text \<open>
  The modules: whether \<open>skynet_module_query\<close> finds one, whether its create function returns an
  instance, what its init function does and returns, whether a log file can be
  opened, and the text that \<open>ctime\<close> makes of a time.
\<close>

record services =
  sv_query :: "string \<Rightarrow> bool"
  sv_create :: "string \<Rightarrow> bool"
  sv_init :: "string \<Rightarrow> addr \<Rightarrow> string option \<Rightarrow> node \<Rightarrow> (int \<times> node) option"
  sv_fopen :: "string \<Rightarrow> nat option"
  sv_ctime :: "u64 \<Rightarrow> string"

definition drop_in_node :: "u32 \<Rightarrow> skynet_message \<Rightarrow> mq_state \<times> node \<Rightarrow> (mq_state \<times> node) option" where
  "drop_in_node handle msg = (\<lambda>(mq, nd).
     map_option (\<lambda>nd'. (nd_mq nd', nd')) (drop_message handle msg (nd\<lparr>nd_mq := mq\<rparr>)))"

definition mq_release_in_node :: "u32 \<Rightarrow> addr \<Rightarrow> node \<Rightarrow> node option" where
  "mq_release_in_node handle queue nd =
     map_option (\<lambda>(mq, nd'). nd'\<lparr>nd_mq := mq\<rparr>) (skynet_mq_release (drop_in_node handle) queue (nd_mq nd, nd))"

definition skynet_context_new :: "services \<Rightarrow> string \<Rightarrow> string option \<Rightarrow> node \<Rightarrow> (addr option \<times> node) option" where
  "skynet_context_new sv name param nd =
     (if \<not> sv_query sv name then Some (None, nd)
      else if \<not> sv_create sv name then Some (None, nd)
      else do {
        let p = nd_brk nd;
        nd1 \<leftarrow> new_context p nd;
        (r, nd2) \<leftarrow> sv_init sv name p param nd1;
        if r = 0 then do {
          (alive, nd3) \<leftarrow> skynet_context_release p nd2;
          nd4 \<leftarrow> (if alive then map_option (\<lambda>c. set_ctx p (c\<lparr>cx_init := True\<rparr>) nd3) (nd_ctx nd3 p) else Some nd3);
          mq \<leftarrow> skynet_globalmq_push (p + 1) (nd_mq nd4);
          let nd5 = nd4\<lparr>nd_mq := mq\<rparr>;
          nd6 \<leftarrow> (if alive then skynet_error (Some p) (''LAUNCH '' @ name @ '' '' @ (case param of None \<Rightarrow> [] | Some t \<Rightarrow> t)) nd5
                  else Some nd5);
          Some (if alive then Some p else None, nd6)
        }
        else do {
          nd3 \<leftarrow> skynet_error (Some p) (''FAILED launch '' @ name) nd2;
          c \<leftarrow> nd_ctx nd3 p;
          let handle = cx_handle c;
          (_, nd4) \<leftarrow> skynet_context_release p nd3;
          (_, nd5) \<leftarrow> handle_retire handle nd4;
          nd6 \<leftarrow> mq_release_in_node handle (p + 1) nd5;
          Some (None, nd6)
        }
      })"

section \<open>The environment\<close>

definition skynet_getenv :: "string \<Rightarrow> node \<Rightarrow> string option" where
  "skynet_getenv key nd = nd_env nd key"

definition skynet_setenv :: "string \<Rightarrow> string \<Rightarrow> node \<Rightarrow> node option" where
  "skynet_setenv key value nd =
     (if nd_env nd key \<noteq> None then None else Some (nd\<lparr>nd_env := (nd_env nd)(key \<mapsto> value)\<rparr>))"

section \<open>Commands\<close>

text \<open>
  \<open>':'\<close> and eight digits.  A command returns a pointer to text or NULL; text in \<open>context->result\<close> is
  stored there too.
\<close>

definition upper_hex :: "nat \<Rightarrow> char" where
  "upper_hex d = ''0123456789ABCDEF'' ! d"

definition id_to_hex :: "u32 \<Rightarrow> string" where
  "id_to_hex w = CHR '':'' # map (\<lambda>i. upper_hex (unat (drop_bit ((7 - i) * 4) w AND 0xf))) [0..<8]"

definition set_result :: "addr \<Rightarrow> string \<Rightarrow> node \<Rightarrow> (string option \<times> node) option" where
  "set_result p text nd = map_option (\<lambda>c. (Some text, set_ctx p (c\<lparr>cx_result := text\<rparr>) nd)) (nd_ctx nd p)"

definition tohandle :: "addr \<Rightarrow> string \<Rightarrow> node \<Rightarrow> (u32 \<times> node) option" where
  "tohandle context param nd =
     (if name_at param 0 = CHR '':'' then Some (ucast (strtoul 16 (tl param)), nd)
      else if name_at param 0 = CHR ''.'' then
        map_option (\<lambda>w. (w, nd)) (skynet_handle_findname (tl param) (nd_handles nd))
      else map_option (\<lambda>nd'. (0, nd'))
        (skynet_error (Some context) (''Can't convert '' @ param @ '' to handle'') nd))"

definition handle_exit :: "addr \<Rightarrow> u32 \<Rightarrow> node \<Rightarrow> node option" where
  "handle_exit context handle nd = do {
     (handle, nd1) \<leftarrow> (if handle = 0 then do {
         c \<leftarrow> nd_ctx nd context;
         nd1 \<leftarrow> skynet_error (Some context) ''KILL self'' nd;
         Some (cx_handle c, nd1)
       }
       else map_option (\<lambda>nd1. (handle, nd1)) (skynet_error (Some context) (''KILL :'' @ fmt_x handle) nd));
     nd2 \<leftarrow> (if nd_monitor_exit nd1 \<noteq> 0
             then map_option snd (skynet_send context handle (nd_monitor_exit nd1) PTYPE_CLIENT 0 0 0 nd1)
             else Some nd1);
     map_option snd (handle_retire handle nd2)
   }"

definition timeout_in_node :: "u32 \<Rightarrow> u32 \<Rightarrow> int \<Rightarrow> node \<Rightarrow> node option" where
  "timeout_in_node handle time session nd =
     (if sint time \<le> 0
      then map_option snd (skynet_context_push handle (timeout_message session) nd)
      else Some (nd\<lparr>nd_timer := timer_add \<lparr>te_handle = handle, te_session = session\<rparr> time (nd_timer nd)\<rparr>))"

definition cmd_timeout :: "addr \<Rightarrow> string \<Rightarrow> node \<Rightarrow> (string option \<times> node) option" where
  "cmd_timeout context param nd = do {
     let ti = (word_of_int (strtol 10 param) :: u32);
     (session, nd1) \<leftarrow> skynet_context_newsession context nd;
     c \<leftarrow> nd_ctx nd1 context;
     nd2 \<leftarrow> timeout_in_node (cx_handle c) ti session nd1;
     set_result context (fmt_d session) nd2
   }"

definition name_in_node :: "u32 \<Rightarrow> string \<Rightarrow> node \<Rightarrow> (string option \<times> node) option" where
  "name_in_node handle name nd =
     map_option (\<lambda>(r, hs). (r, nd\<lparr>nd_handles := hs\<rparr>)) (skynet_handle_namehandle handle name (nd_handles nd))"

definition cmd_reg :: "addr \<Rightarrow> string option \<Rightarrow> node \<Rightarrow> (string option \<times> node) option" where
  "cmd_reg context param nd = do {
     c \<leftarrow> nd_ctx nd context;
     case param of
       None \<Rightarrow> set_result context (CHR '':'' # fmt_x (cx_handle c)) nd
     | Some t \<Rightarrow>
         if t = [] then set_result context (CHR '':'' # fmt_x (cx_handle c)) nd
         else if hd t = CHR ''.'' then name_in_node (cx_handle c) (tl t) nd
         else map_option (\<lambda>nd'. (None, nd'))
           (skynet_error (Some context) (''Can't register global name '' @ t @ '' in C'') nd)
   }"

definition cmd_query :: "addr \<Rightarrow> string \<Rightarrow> node \<Rightarrow> (string option \<times> node) option" where
  "cmd_query context param nd =
     (if name_at param 0 = CHR ''.'' then do {
        handle \<leftarrow> skynet_handle_findname (tl param) (nd_handles nd);
        if handle \<noteq> 0 then set_result context (CHR '':'' # fmt_x handle) nd else Some (None, nd)
      }
      else Some (None, nd))"

text \<open>\<open>sscanf(param, "%s %s", name, handle)\<close>: a text of less than two words leaves \<open>handle\<close> unset.\<close>

definition cmd_name :: "addr \<Rightarrow> string \<Rightarrow> node \<Rightarrow> (string option \<times> node) option" where
  "cmd_name context param nd = do {
     (name, rest) \<leftarrow> scan_word param;
     (handle, _) \<leftarrow> scan_word rest;
     if hd handle \<noteq> CHR '':'' then Some (None, nd)
     else do {
       let handle_id = (ucast (strtoul 16 (tl handle)) :: u32);
       if handle_id = 0 then Some (None, nd)
       else if hd name = CHR ''.'' then name_in_node handle_id (tl name) nd
       else map_option (\<lambda>nd'. (None, nd'))
         (skynet_error (Some context) (''Can't set global name '' @ name @ '' in C'') nd)
     }
   }"

definition cmd_exit :: "addr \<Rightarrow> node \<Rightarrow> (string option \<times> node) option" where
  "cmd_exit context nd = map_option (\<lambda>nd'. (None, nd')) (handle_exit context 0 nd)"

definition cmd_kill :: "addr \<Rightarrow> string \<Rightarrow> node \<Rightarrow> (string option \<times> node) option" where
  "cmd_kill context param nd = do {
     (handle, nd1) \<leftarrow> tohandle context param nd;
     nd2 \<leftarrow> (if handle \<noteq> 0 then handle_exit context handle nd1 else Some nd1);
     Some (None, nd2)
   }"

definition cmd_launch :: "services \<Rightarrow> addr \<Rightarrow> string \<Rightarrow> node \<Rightarrow> (string option \<times> node) option" where
  "cmd_launch sv context param nd = do {
     let (modname, args) = strsep ([CHR '' '', CHR 0x09, CHR 0x0D, CHR 0x0A]) (Some param);
     let (args, _) = strsep ([CHR 0x0D, CHR 0x0A]) args;
     name \<leftarrow> modname;
     (inst, nd1) \<leftarrow> skynet_context_new sv name args nd;
     case inst of
       None \<Rightarrow> Some (None, nd1)
     | Some p \<Rightarrow> do {
         c \<leftarrow> nd_ctx nd1 p;
         set_result context (id_to_hex (cx_handle c)) nd1
       }
   }"

definition cmd_getenv :: "string \<Rightarrow> node \<Rightarrow> (string option \<times> node) option" where
  "cmd_getenv param nd = Some (skynet_getenv param nd, nd)"

definition cmd_setenv :: "string \<Rightarrow> node \<Rightarrow> (string option \<times> node) option" where
  "cmd_setenv param nd =
     (case dropWhile (\<lambda>c. c \<noteq> CHR '' '') param of
        [] \<Rightarrow> Some (None, nd)
      | _ # value \<Rightarrow>
          map_option (\<lambda>nd'. (None, nd')) (skynet_setenv (takeWhile (\<lambda>c. c \<noteq> CHR '' '') param) value nd))"

definition cmd_starttime :: "addr \<Rightarrow> node \<Rightarrow> (string option \<times> node) option" where
  "cmd_starttime context nd = set_result context (fmt_u (skynet_starttime (nd_timer nd))) nd"

definition cmd_endless :: "addr \<Rightarrow> node \<Rightarrow> (string option \<times> node) option" where
  "cmd_endless context nd = do {
     c \<leftarrow> nd_ctx nd context;
     if cx_endless c
     then Some (Some ''1'', set_ctx context (c\<lparr>cx_result := ''1'', cx_endless := False\<rparr>) nd)
     else Some (None, nd)
   }"

definition cmd_abort :: "node \<Rightarrow> (string option \<times> node) option" where
  "cmd_abort nd = map_option (\<lambda>nd'. (None, nd')) (skynet_handle_retireall nd)"

definition cmd_monitor :: "addr \<Rightarrow> string option \<Rightarrow> node \<Rightarrow> (string option \<times> node) option" where
  "cmd_monitor context param nd =
     (if param = None \<or> param = Some [] then
        (if nd_monitor_exit nd \<noteq> 0 then set_result context (CHR '':'' # fmt_x (nd_monitor_exit nd)) nd
         else Some (None, nd))
      else map_option (\<lambda>(handle, nd'). (None, nd'\<lparr>nd_monitor_exit := handle\<rparr>)) (tohandle context (the param) nd))"

definition cmd_mqlen :: "addr \<Rightarrow> node \<Rightarrow> (string option \<times> node) option" where
  "cmd_mqlen context nd = do {
     c \<leftarrow> nd_ctx nd context;
     len \<leftarrow> skynet_mq_length (cx_queue c) (nd_mq nd);
     set_result context (fmt_d len) nd
   }"

text \<open>What a command does to the context that a handle denotes, while it holds a reference to it.\<close>

definition with_context :: "u32 \<Rightarrow> (addr \<Rightarrow> node \<Rightarrow> node option) \<Rightarrow> node \<Rightarrow> (string option \<times> node) option" where
  "with_context handle f nd =
     (if handle = 0 then Some (None, nd)
      else do {
        (r, nd1) \<leftarrow> handle_grab handle nd;
        case r of
          None \<Rightarrow> Some (None, nd1)
        | Some p \<Rightarrow> do {
            nd2 \<leftarrow> f p nd1;
            (_, nd3) \<leftarrow> skynet_context_release p nd2;
            Some (None, nd3)
          }
      })"

definition skynet_log_open :: "services \<Rightarrow> addr \<Rightarrow> u32 \<Rightarrow> node \<Rightarrow> (nat option \<times> node) option" where
  "skynet_log_open sv context handle nd =
     (case skynet_getenv ''logpath'' nd of
        None \<Rightarrow> Some (None, nd)
      | Some logpath \<Rightarrow>
          let tmp = logpath @ ''/'' @ fmt_08x handle @ ''.log'' in
          (case sv_fopen sv tmp of
             Some f \<Rightarrow> do {
               let nd1 = nd\<lparr>nd_files := (nd_files nd)(f \<mapsto> [])\<rparr>;
               let starttime = skynet_starttime (nd_timer nd1);
               let currenttime = skynet_now (nd_timer nd1);
               let ti = ucast starttime + currenttime div 100;
               nd2 \<leftarrow> skynet_error (Some context) (''Open log file '' @ tmp) nd1;
               Some (Some f, fprintf f (''open time: '' @ fmt_u (ucast currenttime) @ '' '' @ sv_ctime sv ti) nd2)
             }
           | None \<Rightarrow> map_option (\<lambda>nd'. (None, nd'))
               (skynet_error (Some context) (''Open log file '' @ tmp @ '' fail'') nd)))"

definition skynet_log_close :: "addr \<Rightarrow> nat \<Rightarrow> u32 \<Rightarrow> node \<Rightarrow> node option" where
  "skynet_log_close context f handle nd =
     map_option (\<lambda>nd'. fclose f (fprintf f (''close time: '' @ fmt_u (ucast (skynet_now (nd_timer nd'))) @ [CHR 0x0A]) nd'))
       (skynet_error (Some context) (''Close log file :'' @ fmt_08x handle) nd)"

definition cmd_logon :: "services \<Rightarrow> addr \<Rightarrow> string \<Rightarrow> node \<Rightarrow> (string option \<times> node) option" where
  "cmd_logon sv context param nd = do {
     (handle, nd1) \<leftarrow> tohandle context param nd;
     with_context handle (\<lambda>p nd2. do {
       c \<leftarrow> nd_ctx nd2 p;
       if cx_logfile c = None then do {
         (f, nd3) \<leftarrow> skynet_log_open sv context handle nd2;
         case f of
           None \<Rightarrow> Some nd3
         | Some _ \<Rightarrow> do { c \<leftarrow> nd_ctx nd3 p; Some (set_ctx p (c\<lparr>cx_logfile := f\<rparr>) nd3) }
       }
       else Some nd2
     }) nd1
   }"

definition cmd_logoff :: "addr \<Rightarrow> string \<Rightarrow> node \<Rightarrow> (string option \<times> node) option" where
  "cmd_logoff context param nd = do {
     (handle, nd1) \<leftarrow> tohandle context param nd;
     with_context handle (\<lambda>p nd2. do {
       c \<leftarrow> nd_ctx nd2 p;
       case cx_logfile c of
         None \<Rightarrow> Some nd2
       | Some f \<Rightarrow> skynet_log_close context f handle (set_ctx p (c\<lparr>cx_logfile := None\<rparr>) nd2)
     }) nd1
   }"

definition cmd_signal :: "addr \<Rightarrow> string \<Rightarrow> node \<Rightarrow> (string option \<times> node) option" where
  "cmd_signal context param nd = do {
     (handle, nd1) \<leftarrow> tohandle context param nd;
     with_context handle (\<lambda>p nd2.
       let sig = (case strchr (CHR '' '') param of None \<Rightarrow> 0
         | Some t \<Rightarrow> sint (word_of_int (strtol 0 t) :: u32)) in
       Some (nd2\<lparr>nd_events := nd_events nd2 @ [Signalled p sig]\<rparr>)) nd1
   }"

text \<open>
  The table of commands.  \<open>param\<close> is \<open>None\<close> for NULL; only \<open>REG\<close>, \<open>MONITOR\<close> and the commands without
  parameter accept that, the others would read through it.
\<close>

definition skynet_command :: "services \<Rightarrow> addr \<Rightarrow> string \<Rightarrow> string option \<Rightarrow> node \<Rightarrow> (string option \<times> node) option" where
  "skynet_command sv context cmd param nd =
     (if cmd = ''TIMEOUT'' then do { t \<leftarrow> param; cmd_timeout context t nd }
      else if cmd = ''REG'' then cmd_reg context param nd
      else if cmd = ''QUERY'' then do { t \<leftarrow> param; cmd_query context t nd }
      else if cmd = ''NAME'' then do { t \<leftarrow> param; cmd_name context t nd }
      else if cmd = ''EXIT'' then cmd_exit context nd
      else if cmd = ''KILL'' then do { t \<leftarrow> param; cmd_kill context t nd }
      else if cmd = ''LAUNCH'' then do { t \<leftarrow> param; cmd_launch sv context t nd }
      else if cmd = ''GETENV'' then do { t \<leftarrow> param; cmd_getenv t nd }
      else if cmd = ''SETENV'' then do { t \<leftarrow> param; cmd_setenv t nd }
      else if cmd = ''STARTTIME'' then cmd_starttime context nd
      else if cmd = ''ENDLESS'' then cmd_endless context nd
      else if cmd = ''ABORT'' then cmd_abort nd
      else if cmd = ''MONITOR'' then cmd_monitor context param nd
      else if cmd = ''MQLEN'' then cmd_mqlen context nd
      else if cmd = ''LOGON'' then do { t \<leftarrow> param; cmd_logon sv context t nd }
      else if cmd = ''LOGOFF'' then do { t \<leftarrow> param; cmd_logoff context t nd }
      else if cmd = ''SIGNAL'' then do { t \<leftarrow> param; cmd_signal context t nd }
      else Some (None, nd))"

section \<open>Handles as text\<close>

lemma digit_value_upper_hex:
  assumes "d < 16"
  shows "digit_value (upper_hex d) = Some d"
proof -
  have "\<forall>d \<in> set [0..<16]. digit_value (upper_hex d) = Some d" by code_simp
  then show ?thesis using assms by simp
qed

lemma is_digit_upper_hex: "d < 16 \<Longrightarrow> is_digit 16 (upper_hex d)"
  by (simp add: is_digit_def digit_value_upper_hex)

lemma read_upper_hex:
  "read_digits 16 acc (map (\<lambda>i. upper_hex (n div 16 ^ (k - 1 - i) mod 16)) [0..<k]) = (acc * 16 ^ k + n mod 16 ^ k, [])"
proof (induction k arbitrary: acc)
  case 0
  then show ?case by simp
next
  case (Suc k)
  let ?d = "n div 16 ^ k mod 16"
  have upt: "[0..<Suc k] = 0 # map Suc [0..<k]" by (simp add: map_Suc_upt upt_conv_Cons)
  have "read_digits 16 acc (map (\<lambda>i. upper_hex (n div 16 ^ (Suc k - 1 - i) mod 16)) [0..<Suc k]) =
    read_digits 16 (acc * 16 + ?d) (map (\<lambda>i. upper_hex (n div 16 ^ (k - 1 - i) mod 16)) [0..<k])"
    unfolding upt by (simp add: is_digit_upper_hex digit_value_upper_hex comp_def)
  also have "\<dots> = ((acc * 16 + ?d) * 16 ^ k + n mod 16 ^ k, [])" by (rule Suc.IH)
  also have "(acc * 16 + ?d) * 16 ^ k + n mod 16 ^ k = acc * 16 ^ Suc k + n mod 16 ^ Suc k"
    using mod_mult2_eq [of n "16 ^ k" 16] by (simp add: algebra_simps)
  finally show ?case .
qed

lemma id_to_hex_digits:
  "id_to_hex w = CHR '':'' # map (\<lambda>i. upper_hex (unat w div 16 ^ (8 - 1 - i) mod 16)) [0..<8]"
proof -
  have "unat (drop_bit ((7 - i) * 4) w AND 0xf) = unat w div 16 ^ (7 - i) mod 16" for i
  proof -
    have "unat (drop_bit ((7 - i) * 4) w AND of_nat (2 ^ 4 - 1)) = unat (drop_bit ((7 - i) * 4) w) mod 2 ^ 4"
      by (rule unat_and_low_bits)
    then show ?thesis by (simp add: unat_drop_bit_div power_mult mult.commute [of _ 4])
  qed
  then show ?thesis by (simp add: id_to_hex_def)
qed

lemma strtoul_id_to_hex: "ucast (strtoul 16 (tl (id_to_hex w))) = w"
proof (rule strtoul_digits)
  show "list_all (is_digit 16) (tl (id_to_hex w))"
    by (simp add: id_to_hex_digits list_all_iff is_digit_upper_hex)
  have "unat w < 2 ^ 32" by (rule unsigned_less [THEN less_le_trans]) simp
  then show "fst (read_digits 16 0 (tl (id_to_hex w))) = unat w"
    unfolding id_to_hex_digits list.sel read_upper_hex by simp
qed

text \<open>Handles as text.  The two spellings of a handle that commands return, \<open>':'\<close> and eight upper case
  digits (\<open>id_to_hex\<close>, the answer of \<open>LAUNCH\<close>) and \<open>':'\<close> and the digits of \<open>%x\<close> (the answers of \<open>REG\<close>,
  \<open>QUERY\<close> and \<open>MONITOR\<close>), are read back as that handle by \<open>tohandle\<close> and by \<open>skynet_queryname\<close>, for every
  handle and in every state.\<close>

theorem handle_text_roundtrip:
  "tohandle context (id_to_hex w) nd = Some (w, nd) \<and> tohandle context (CHR '':'' # fmt_x w) nd = Some (w, nd) \<and>
   skynet_queryname context (id_to_hex w) nd = Some (w, nd) \<and>
   skynet_queryname context (CHR '':'' # fmt_x w) nd = Some (w, nd)"
proof -
  have "name_at (id_to_hex w) 0 = CHR '':''" by (simp add: id_to_hex_def name_at_def)
  then show ?thesis
    using strtoul_id_to_hex [of w] strtoul_fmt_x [of w] by (simp add: tohandle_def skynet_queryname_def name_at_def)
qed

section \<open>Names\<close>

lemma cmd_query_ok:
  assumes "names_wf (nd_handles nd)" and c: "nd_ctx nd context = Some c"
  shows "skynet_command sv context ''QUERY'' (Some (CHR ''.'' # name)) nd =
    (case names_map (nd_handles nd) name of
       Some w \<Rightarrow> if w \<noteq> 0 then Some (Some (CHR '':'' # fmt_x w), set_ctx context (c\<lparr>cx_result := CHR '':'' # fmt_x w\<rparr>) nd)
         else Some (None, nd)
     | None \<Rightarrow> Some (None, nd))"
  using findname_lookup [OF assms(1), of name] c
  by (auto simp: skynet_command_def cmd_query_def name_at_def set_result_def split: option.split)

text \<open>Names.  A context that registers a free name with \<open>REG .name\<close> gets the name back, and from then on
  \<open>QUERY .name\<close> of any context returns the text of its handle; a name that is in use is refused and nothing
  changes.\<close>

theorem registered_name_is_found:
  assumes "names_wf (nd_handles nd)" "hs_name_cap (nd_handles nd) * 2 \<le> MAX_SLOT_SIZE"
    and "nd_ctx nd context = Some c" "cx_handle c \<noteq> 0" "nd_ctx nd other = Some d"
  shows "if name \<in> dom (names_map (nd_handles nd))
    then skynet_command sv context ''REG'' (Some (CHR ''.'' # name)) nd = Some (None, nd)
    else \<exists>nd1 nd2. skynet_command sv context ''REG'' (Some (CHR ''.'' # name)) nd = Some (Some name, nd1) \<and>
      skynet_command sv other ''QUERY'' (Some (CHR ''.'' # name)) nd1 = Some (Some (CHR '':'' # fmt_x (cx_handle c)), nd2)"
proof -
  from namehandle_ok [OF assms(1,2), of "cx_handle c" name] obtain r hs where
    hs: "skynet_handle_namehandle (cx_handle c) name (nd_handles nd) = Some (r, hs)" "names_wf hs"
      "if name \<in> dom (names_map (nd_handles nd)) then r = None \<and> hs = nd_handles nd
       else r = Some name \<and> names_map hs = (names_map (nd_handles nd))(name \<mapsto> cx_handle c) \<and>
         hs_slot hs = hs_slot (nd_handles nd) \<and> hs_slot_size hs = hs_slot_size (nd_handles nd)"
    by (elim exE conjE) rule
  have reg: "skynet_command sv context ''REG'' (Some (CHR ''.'' # name)) nd = Some (r, nd\<lparr>nd_handles := hs\<rparr>)"
    using hs(1) assms(3) by (simp add: skynet_command_def cmd_reg_def name_in_node_def)
  show ?thesis
  proof (cases "name \<in> dom (names_map (nd_handles nd))")
    case True
    then show ?thesis using reg hs(3) by simp
  next
    case False
    then have "names_map (nd_handles (nd\<lparr>nd_handles := hs\<rparr>)) name = Some (cx_handle c)" "r = Some name" using hs(3) by simp_all
    then show ?thesis
      using False reg hs(2) cmd_query_ok [of "nd\<lparr>nd_handles := hs\<rparr>" other d sv name] assms(4,5) by auto
  qed
qed

definition example_services :: services where
  "example_services = \<lparr>sv_query = \<lambda>_. False, sv_create = \<lambda>_. False, sv_init = \<lambda>_ _ _ nd. Some (0, nd), sv_fopen = \<lambda>_. None, sv_ctime = \<lambda>_. []\<rparr>"

theorem registered_name_is_found_witness:
  "\<exists>nd1 nd2. skynet_command example_services 1 ''REG'' (Some ''.db'') two_services = Some (Some ''db'', nd1) \<and>
     skynet_command example_services 3 ''QUERY'' (Some ''.db'') nd1 = Some (Some '':1'', nd2)"
proof -
  have free: "''db'' \<notin> dom (names_map (nd_handles two_services))"
    by (simp add: two_services_facts names_map_def names_of_def skynet_handle_init_def)
  have wf: "names_wf (nd_handles two_services)" using two_services_ok by (simp add: node_ok_def)
  have cap: "hs_name_cap (nd_handles two_services) * 2 \<le> MAX_SLOT_SIZE"
    by (simp add: two_services_facts skynet_handle_init_def MAX_SLOT_SIZE_def)
  have c: "nd_ctx two_services 1 = Some (fresh_context 1 2)" "nd_ctx two_services 3 = Some (fresh_context 2 4)"
    "cx_handle (fresh_context 1 2) = 1" by (simp_all add: two_services_facts fresh_context_def)
  have "cx_handle (fresh_context 1 2) \<noteq> 0" "fmt_x 1 = ''1''" unfolding c(3) by (simp, code_simp)
  with registered_name_is_found [OF wf cap c(1) _ c(2), of "''db''" example_services] free c(3) show ?thesis
    by (simp only: if_False if_True simp_thms)
qed

text \<open>A signal to a name with a number is lost.  \<open>SIGNAL .name 9\<close> looks up the whole text after the dot, with the
  space and the number, as the name: it signals nobody, unless a service has that odd name, even when \<open>name\<close> is
  registered.\<close>

theorem signal_by_name_is_lost:
  assumes "names_wf (nd_handles nd)" "names_map (nd_handles nd) (name @ '' '' @ number) = None"
  shows "skynet_command sv context ''SIGNAL'' (Some (CHR ''.'' # name @ '' '' @ number)) nd = Some (None, nd)"
  using findname_lookup [OF assms(1), of "name @ '' '' @ number"] assms(2)
  by (simp add: skynet_command_def cmd_signal_def tohandle_def name_at_def with_context_def)

theorem signal_by_name_is_lost_witness:
  "skynet_command example_services 1 ''SIGNAL'' (Some ''.db 9'') two_services = Some (None, two_services)"
proof -
  have "names_wf (nd_handles two_services)" using two_services_ok by (simp add: node_ok_def)
  moreover have "names_map (nd_handles two_services) (''db'' @ '' '' @ ''9'') = None"
    by (simp add: two_services_facts names_map_def names_of_def skynet_handle_init_def)
  ultimately show ?thesis using signal_by_name_is_lost [of two_services "''db''" "''9''" example_services 1] by simp
qed

end
