(* ===== verification/HashId.thy ===== *)
theory HashId
  imports Prelude
begin

text \<open>
  \<open>service-src/hashid.h\<close>: a table from socket ids to small numbers, an array of nodes chained by
  hash value.  A pointer to a node is its index in the array; a free node has the ident -1.
\<close>

section \<open>State and operations\<close>

record hashid_node =
  hin_id :: int
  hin_next :: "nat option"

record hashid =
  hi_hashmod :: int
  hi_cap :: nat
  hi_count :: nat
  hi_id :: "hashid_node list"
  hi_hash :: "nat option list"

function hash_cap :: "nat \<Rightarrow> nat \<Rightarrow> nat" where
  "hash_cap limit hashcap = (if 0 < hashcap \<and> hashcap < limit then hash_cap limit (hashcap * 2) else hashcap)"
  by auto
termination by (relation "measure (\<lambda>(limit, hashcap). limit - hashcap)") (simp_all add: diff_less_mono2)

declare hash_cap.simps [simp del]

definition hashid_init :: "nat \<Rightarrow> hashid" where
  "hashid_init limit = (let hashcap = hash_cap limit 16 in
     \<lparr>hi_hashmod = int hashcap - 1, hi_cap = limit, hi_count = 0,
      hi_id = replicate limit \<lparr>hin_id = - 1, hin_next = None\<rparr>, hi_hash = replicate hashcap None\<rparr>)"

definition hashid_clear :: "hashid \<Rightarrow> hashid" where
  "hashid_clear hi = \<lparr>hi_hashmod = 1, hi_cap = 0, hi_count = 0, hi_id = [], hi_hash = []\<rparr>"

definition hash_of :: "hashid \<Rightarrow> int \<Rightarrow> nat" where
  "hash_of hi ident = nat (ident AND hi_hashmod hi)"

partial_function (option) lookup_loop :: "hashid_node list \<Rightarrow> int \<Rightarrow> nat option \<Rightarrow> int option" where
  "lookup_loop nodes ident c =
     (case c of
        None \<Rightarrow> Some (- 1)
      | Some i \<Rightarrow> Option.bind (array_get nodes i) (\<lambda>n.
          if hin_id n = ident then Some (int i) else lookup_loop nodes ident (hin_next n)))"

definition hashid_lookup :: "hashid \<Rightarrow> int \<Rightarrow> int option" where
  "hashid_lookup hi ident = do {
     c \<leftarrow> array_get (hi_hash hi) (hash_of hi ident);
     lookup_loop (hi_id hi) ident c
   }"

text \<open>The label \<open>_clear\<close>, and the loop that looks for the node before the one with the ident.\<close>

definition clear_node :: "nat \<Rightarrow> hashid \<Rightarrow> (int \<times> hashid) option" where
  "clear_node c hi = do {
     n \<leftarrow> array_get (hi_id hi) c;
     Some (int c, hi\<lparr>hi_id := (hi_id hi)[c := \<lparr>hin_id = - 1, hin_next = None\<rparr>], hi_count := hi_count hi - 1\<rparr>)
   }"

partial_function (option) remove_loop :: "int \<Rightarrow> nat \<Rightarrow> hashid \<Rightarrow> (int \<times> hashid) option" where
  "remove_loop ident c hi =
     Option.bind (array_get (hi_id hi) c) (\<lambda>n.
     case hin_next n of
       None \<Rightarrow> Some (- 1, hi)
     | Some t \<Rightarrow> Option.bind (array_get (hi_id hi) t) (\<lambda>temp.
         if hin_id temp = ident
         then clear_node t (hi\<lparr>hi_id := (hi_id hi)[c := n\<lparr>hin_next := hin_next temp\<rparr>]\<rparr>)
         else remove_loop ident t hi))"

definition hashid_remove :: "int \<Rightarrow> hashid \<Rightarrow> (int \<times> hashid) option" where
  "hashid_remove ident hi = do {
     let h = hash_of hi ident;
     c \<leftarrow> array_get (hi_hash hi) h;
     case c of
       None \<Rightarrow> Some (- 1, hi)
     | Some i \<Rightarrow> do {
         n \<leftarrow> array_get (hi_id hi) i;
         if hin_id n = ident then clear_node i (hi\<lparr>hi_hash := (hi_hash hi)[h := hin_next n]\<rparr>)
         else remove_loop ident i hi
       }
   }"

text \<open>\<open>%\<close> of C truncates: a negative number gives an index before the array.\<close>

definition c_rem :: "int \<Rightarrow> int \<Rightarrow> int" where
  "c_rem a b = sgn a * (\<bar>a\<bar> mod \<bar>b\<bar>)"

text \<open>
  The search of a free node: \<open>n\<close> places are left to try, the next is the \<open>i\<close>-th after \<open>ident\<close>.  The sum \<open>i + id\<close> is an
  \<open>int\<close> of 32 bits, which wraps around for idents near the end of their range; the index is then negative.
\<close>

fun find_free :: "hashid \<Rightarrow> int \<Rightarrow> nat \<Rightarrow> nat \<Rightarrow> nat option" where
  "find_free hi ident i 0 = None"
| "find_free hi ident i (Suc n) =
     (let index = c_rem (sint (word_of_int (int i + ident) :: 32 word)) (int (hi_cap hi)) in
      if index < 0 then None
      else if hin_id (hi_id hi ! nat index) = - 1 then Some (nat index) else find_free hi ident (Suc i) n)"

definition hashid_insert :: "int \<Rightarrow> hashid \<Rightarrow> (int \<times> hashid) option" where
  "hashid_insert ident hi = do {
     c \<leftarrow> find_free hi ident 0 (hi_cap hi);
     n \<leftarrow> array_get (hi_id hi) c;
     if hin_next n \<noteq> None then None
     else do {
       let h = hash_of hi ident;
       first \<leftarrow> array_get (hi_hash hi) h;
       Some (int c, hi\<lparr>hi_count := hi_count hi + 1,
         hi_id := (hi_id hi)[c := \<lparr>hin_id = ident, hin_next = (if first \<noteq> None then first else None)\<rparr>],
         hi_hash := (hi_hash hi)[h := Some c]\<rparr>)
     }
   }"

definition hashid_full :: "hashid \<Rightarrow> bool" where
  "hashid_full hi \<longleftrightarrow> hi_count hi = hi_cap hi"

section \<open>The table as a map\<close>

text \<open>\<open>chain nodes c xs\<close>: following \<open>next\<close> from \<open>c\<close> visits the nodes \<open>xs\<close>.\<close>

fun chain :: "hashid_node list \<Rightarrow> nat option \<Rightarrow> nat list \<Rightarrow> bool" where
  "chain nodes c [] \<longleftrightarrow> c = None"
| "chain nodes c (i # xs) \<longleftrightarrow> c = Some i \<and> i < length nodes \<and> chain nodes (hin_next (nodes ! i)) xs"

definition used :: "hashid \<Rightarrow> nat set" where
  "used hi = {i. i < hi_cap hi \<and> hin_id (hi_id hi ! i) \<noteq> - 1}"

definition hashid_wf :: "hashid \<Rightarrow> bool" where
  "hashid_wf hi \<longleftrightarrow> (\<exists>k. hi_hashmod hi = 2 ^ k - 1 \<and> length (hi_hash hi) = 2 ^ k) \<and>
     length (hi_id hi) = hi_cap hi \<and>
     (\<forall>i < hi_cap hi. hin_id (hi_id hi ! i) = - 1 \<longrightarrow> hin_next (hi_id hi ! i) = None) \<and>
     inj_on (\<lambda>i. hin_id (hi_id hi ! i)) (used hi) \<and>
     hi_count hi = card (used hi) \<and>
     (\<forall>h < length (hi_hash hi). \<exists>xs. chain (hi_id hi) (hi_hash hi ! h) xs \<and> distinct xs \<and>
        set xs = {i \<in> used hi. hash_of hi (hin_id (hi_id hi ! i)) = h})"

definition hashid_map :: "hashid \<Rightarrow> int \<rightharpoonup> nat" where
  "hashid_map hi ident = (if \<exists>i \<in> used hi. hin_id (hi_id hi ! i) = ident
     then Some (THE i. i \<in> used hi \<and> hin_id (hi_id hi ! i) = ident) else None)"

lemma chain_update: "c \<notin> set xs \<Longrightarrow> chain (nodes[c := n]) p xs = chain nodes p xs"
  by (induction xs arbitrary: p) auto

lemma chain_unique: "chain nodes c xs \<Longrightarrow> chain nodes c ys \<Longrightarrow> xs = ys"
proof (induction xs arbitrary: c ys)
  case Nil
  then show ?case by (cases ys) auto
next
  case (Cons i xs)
  then show ?case by (cases ys) auto
qed

lemma hashid_map_Some:
  assumes "inj_on (\<lambda>i. hin_id (hi_id hi ! i)) (used hi)"
  shows "hashid_map hi ident = Some i \<longleftrightarrow> i \<in> used hi \<and> hin_id (hi_id hi ! i) = ident"
proof -
  have "(THE i. i \<in> used hi \<and> hin_id (hi_id hi ! i) = ident) = i" if "i \<in> used hi" "hin_id (hi_id hi ! i) = ident" for i
    using that assms by (intro the_equality) (auto dest: inj_onD)
  then show ?thesis unfolding hashid_map_def by (auto split: if_splits)
qed

lemma hashid_map_None: "hashid_map hi ident = None \<longleftrightarrow> (\<forall>i \<in> used hi. hin_id (hi_id hi ! i) \<noteq> ident)"
  by (auto simp: hashid_map_def)

lemma hashid_wfD:
  assumes "hashid_wf hi"
  shows "length (hi_id hi) = hi_cap hi" "inj_on (\<lambda>i. hin_id (hi_id hi ! i)) (used hi)" "hi_count hi = card (used hi)"
    "hash_of hi ident < length (hi_hash hi)"
    "i < hi_cap hi \<Longrightarrow> hin_id (hi_id hi ! i) = - 1 \<Longrightarrow> hin_next (hi_id hi ! i) = None"
proof -
  obtain k where k: "hi_hashmod hi = 2 ^ k - 1" "length (hi_hash hi) = 2 ^ k" using assms by (auto simp: hashid_wf_def)
  have "ident AND (2 ^ k - 1) = ident mod 2 ^ k" by (simp add: take_bit_eq_mod flip: mask_eq_exp_minus_1 take_bit_eq_mask)
  then show "hash_of hi ident < length (hi_hash hi)" by (simp add: hash_of_def k nat_less_iff)
qed (use assms in \<open>auto simp: hashid_wf_def\<close>)

lemma used_in_range: "hashid_wf hi \<Longrightarrow> i \<in> used hi \<Longrightarrow> i < length (hi_id hi)"
  by (simp add: hashid_wf_def used_def)

lemma hashid_chain:
  assumes "hashid_wf hi" "h < length (hi_hash hi)"
  shows "\<exists>xs. chain (hi_id hi) (hi_hash hi ! h) xs \<and> distinct xs \<and>
    set xs = {i \<in> used hi. hash_of hi (hin_id (hi_id hi ! i)) = h}"
  using assms by (simp add: hashid_wf_def)

section \<open>Lookup\<close>

lemma lookup_loop_chain:
  "chain nodes c xs \<Longrightarrow> lookup_loop nodes ident c =
     Some (case find (\<lambda>i. hin_id (nodes ! i) = ident) xs of None \<Rightarrow> - 1 | Some i \<Rightarrow> int i)"
  by (induction xs arbitrary: c) (auto simp: lookup_loop.simps split: option.split)

lemma chain_finds:
  assumes wf: "hashid_wf hi" and xs: "set xs = {i \<in> used hi. hash_of hi (hin_id (hi_id hi ! i)) = hash_of hi ident}"
  shows "find (\<lambda>i. hin_id (hi_id hi ! i) = ident) xs = hashid_map hi ident"
proof (cases "hashid_map hi ident")
  case None
  then have "find (\<lambda>i. hin_id (hi_id hi ! i) = ident) xs = None" using xs by (auto simp: hashid_map_None find_None_iff)
  then show ?thesis using None by simp
next
  case (Some t)
  note inj = hashid_wfD(2) [OF wf]
  have t: "t \<in> used hi" "hin_id (hi_id hi ! t) = ident" using Some by (simp_all add: hashid_map_Some [OF inj])
  then have "find (\<lambda>i. hin_id (hi_id hi ! i) = ident) xs \<noteq> None" using xs by (auto simp: find_None_iff)
  then obtain i where i: "find (\<lambda>i. hin_id (hi_id hi ! i) = ident) xs = Some i" by blast
  then have "i \<in> set xs" "hin_id (hi_id hi ! i) = ident" by (auto simp: find_Some_iff)
  then have "i = t" using t xs inj_onD [OF inj, of i t] by auto
  then show ?thesis using i Some by simp
qed

lemma hashid_lookup_ok:
  assumes wf: "hashid_wf hi"
  shows "hashid_lookup hi ident = Some (case hashid_map hi ident of None \<Rightarrow> - 1 | Some i \<Rightarrow> int i)"
proof -
  obtain xs where "chain (hi_id hi) (hi_hash hi ! hash_of hi ident) xs"
    "set xs = {i \<in> used hi. hash_of hi (hin_id (hi_id hi ! i)) = hash_of hi ident}"
    using hashid_chain [OF wf hashid_wfD(4) [OF wf]] by blast
  then show ?thesis
    using lookup_loop_chain chain_finds [OF wf] hashid_wfD(4) [OF wf] by (simp add: hashid_lookup_def)
qed

section \<open>Removal\<close>

lemma chain_split:
  "chain nodes c (ys @ t # zs) \<Longrightarrow> distinct (ys @ t # zs) \<Longrightarrow> ys \<noteq> [] \<Longrightarrow>
     chain (nodes[last ys := (nodes ! last ys)\<lparr>hin_next := hin_next (nodes ! t)\<rparr>]) c (ys @ zs)"
proof (induction ys arbitrary: c)
  case (Cons y ys)
  show ?case
  proof (cases "ys = []")
    case True
    then show ?thesis using Cons.prems by (auto simp: chain_update)
  next
    case False
    then have "last ys \<noteq> y" using Cons.prems(2) last_in_set [of ys] by auto
    then show ?thesis using Cons False by simp
  qed
qed simp

lemma chain_tail: "chain nodes c (ys @ zs) \<Longrightarrow> \<exists>d. chain nodes d zs"
  by (induction ys arbitrary: c) auto

lemma remove_loop_missing:
  "chain (hi_id hi) (Some c) (c # xs) \<Longrightarrow> list_all (\<lambda>i. hin_id (hi_id hi ! i) \<noteq> ident) xs \<Longrightarrow>
     remove_loop ident c hi = Some (- 1, hi)"
proof (induction xs arbitrary: c)
  case Nil
  then show ?case by (simp add: remove_loop.simps)
next
  case (Cons x xs)
  then show ?case by (subst remove_loop.simps) auto
qed

lemma remove_loop_found:
  assumes "chain (hi_id hi) (Some c) (c # ys @ t # zs)" "list_all (\<lambda>i. hin_id (hi_id hi ! i) \<noteq> ident) ys"
    "hin_id (hi_id hi ! t) = ident"
  shows "remove_loop ident c hi = clear_node t (hi\<lparr>hi_id := (hi_id hi)[last (c # ys) :=
    (hi_id hi ! last (c # ys))\<lparr>hin_next := hin_next (hi_id hi ! t)\<rparr>]\<rparr>)"
  using assms
proof (induction ys arbitrary: c)
  case Nil
  then show ?case by (subst remove_loop.simps) auto
next
  case (Cons y ys)
  then show ?case by (subst remove_loop.simps) auto
qed

text \<open>Unlinking the used node \<open>t\<close>: its chain loses it, the others stay.\<close>

lemma unlinked_ok:
  assumes wf: "hashid_wf hi" and t: "t \<in> used hi" and h: "h = hash_of hi (hin_id (hi_id hi ! t))"
    and nodes: "length nodes = hi_cap hi"
      "\<And>i. i < hi_cap hi \<Longrightarrow> hin_id (nodes ! i) = hin_id (hi_id hi ! i)"
      "\<And>i. i < hi_cap hi \<Longrightarrow> i \<notin> used hi \<Longrightarrow> nodes ! i = hi_id hi ! i"
      "\<And>i. i \<in> used hi \<Longrightarrow> hash_of hi (hin_id (hi_id hi ! i)) \<noteq> h \<Longrightarrow> nodes ! i = hi_id hi ! i"
    and hash: "length hash = length (hi_hash hi)" "\<And>g. g \<noteq> h \<Longrightarrow> hash ! g = hi_hash hi ! g"
    and xs: "chain nodes (hash ! h) xs" "distinct xs"
      "set xs = {i \<in> used hi. hash_of hi (hin_id (hi_id hi ! i)) = h} - {t}"
  defines "hi' \<equiv> hi\<lparr>hi_id := nodes[t := \<lparr>hin_id = - 1, hin_next = None\<rparr>], hi_hash := hash, hi_count := hi_count hi - 1\<rparr>"
  shows "hashid_wf hi'" "hashid_map hi' = (hashid_map hi)(hin_id (hi_id hi ! t) := None)"
proof -
  have len: "length (hi_id hi) = hi_cap hi" using hashid_wfD(1) [OF wf] .
  have tlen: "t < hi_cap hi" using t by (simp add: used_def)
  have ids: "hin_id (hi_id hi' ! i) = (if i = t then - 1 else hin_id (hi_id hi ! i))" if "i < hi_cap hi" for i
    using that nodes(1,2) tlen by (simp add: hi'_def nth_list_update)
  have cap: "hi_cap hi' = hi_cap hi" by (simp add: hi'_def)
  have used: "used hi' = used hi - {t}" unfolding used_def cap using ids by (auto split: if_splits)
  have hashof: "hash_of hi' = hash_of hi" by (simp add: hash_of_def hi'_def fun_eq_iff)
  note inj = hashid_wfD(2) [OF wf]
  have inj': "inj_on (\<lambda>i. hin_id (hi_id hi' ! i)) (used hi')"
    using inj ids unfolding used inj_on_def by (auto simp: used_def)
  have "\<exists>xs. chain (hi_id hi') (hi_hash hi' ! g) xs \<and> distinct xs \<and>
      set xs = {i \<in> used hi'. hash_of hi' (hin_id (hi_id hi' ! i)) = g}" if g: "g < length (hi_hash hi')" for g
  proof (cases "g = h")
    case True
    have "set xs = {i \<in> used hi'. hash_of hi' (hin_id (hi_id hi' ! i)) = g}"
      using ids True unfolding xs(3) used hashof by (auto simp: used_def)
    moreover have "chain (hi_id hi') (hi_hash hi' ! g) xs"
      using xs(1,3) True chain_update by (auto simp: hi'_def)
    ultimately show ?thesis using xs(2) by blast
  next
    case False
    obtain ys where ys: "chain (hi_id hi) (hi_hash hi ! g) ys" "distinct ys"
      "set ys = {i \<in> used hi. hash_of hi (hin_id (hi_id hi ! i)) = g}"
      using hashid_chain [OF wf, of g] g hash(1) by (auto simp: hi'_def)
    have same: "nodes ! i = hi_id hi ! i" if "i \<in> set ys" for i using that nodes(4) ys(3) False by auto
    have "chain nodes c zs = chain (hi_id hi) c zs" if "set zs \<subseteq> set ys" for c zs
      using that same nodes(1) len by (induction zs arbitrary: c) auto
    moreover have "t \<notin> set ys" using ys(3) h False by auto
    ultimately have "chain (hi_id hi') (hi_hash hi' ! g) ys"
      using ys(1) hash(2) [OF False] chain_update by (simp add: hi'_def)
    moreover have "set ys = {i \<in> used hi'. hash_of hi' (hin_id (hi_id hi' ! i)) = g}"
      using ids \<open>t \<notin> set ys\<close> unfolding ys(3) used hashof by (auto simp: used_def)
    ultimately show ?thesis using ys(2) by blast
  qed
  moreover have "\<exists>k. hi_hashmod hi' = 2 ^ k - 1 \<and> length (hi_hash hi') = 2 ^ k"
    using wf hash(1) by (auto simp: hashid_wf_def hi'_def)
  moreover have "hi_count hi' = card (used hi')"
    using hashid_wfD(3) [OF wf] t unfolding used by (simp add: hi'_def)
  moreover have "hin_next (hi_id hi' ! i) = None" if "i < hi_cap hi'" "hin_id (hi_id hi' ! i) = - 1" for i
  proof (cases "i = t")
    case True
    then show ?thesis using tlen nodes(1) by (simp add: hi'_def)
  next
    case False
    have "i < hi_cap hi" using that(1) by (simp add: hi'_def)
    with False that(2) ids have "hin_id (hi_id hi ! i) = - 1" "i \<notin> used hi" by (auto simp: used_def)
    then show ?thesis using hashid_wfD(5) [OF wf] nodes(3) \<open>i < hi_cap hi\<close> False by (simp add: hi'_def)
  qed
  ultimately show "hashid_wf hi'" using inj' nodes(1) unfolding hashid_wf_def by (simp add: hi'_def)
  show "hashid_map hi' = (hashid_map hi)(hin_id (hi_id hi ! t) := None)"
  proof
    fix v
    have ids': "hin_id (hi_id hi' ! i) = hin_id (hi_id hi ! i)" if "i \<in> used hi - {t}" for i
      using ids [of i] that by (auto simp: used_def)
    have "hashid_map hi' v = Some i \<longleftrightarrow> ((hashid_map hi)(hin_id (hi_id hi ! t) := None)) v = Some i" for i
      unfolding hashid_map_Some [OF inj'] fun_upd_apply used
      using ids' t inj_onD [OF inj, of i t] by (cases "i \<in> used hi - {t}") (auto simp: hashid_map_Some [OF inj])
    then show "hashid_map hi' v = ((hashid_map hi)(hin_id (hi_id hi ! t) := None)) v"
      by (metis not_Some_eq)
  qed
qed

lemma hashid_remove_ok:
  assumes wf: "hashid_wf hi"
  shows "\<exists>hi'. hashid_remove ident hi = Some (case hashid_map hi ident of None \<Rightarrow> - 1 | Some i \<Rightarrow> int i, hi') \<and>
    hashid_wf hi' \<and> hashid_map hi' = (hashid_map hi)(ident := None) \<and> hi_cap hi' = hi_cap hi \<and>
    hi_count hi' = hi_count hi - of_bool (hashid_map hi ident \<noteq> None)"
proof -
  let ?h = "hash_of hi ident"
  note h = hashid_wfD(4) [OF wf, of ident] and inj = hashid_wfD(2) [OF wf] and len = hashid_wfD(1) [OF wf]
  obtain xs where xs: "chain (hi_id hi) (hi_hash hi ! ?h) xs" "distinct xs"
    "set xs = {i \<in> used hi. hash_of hi (hin_id (hi_id hi ! i)) = ?h}"
    using hashid_chain [OF wf h] by blast
  show ?thesis
  proof (cases "hashid_map hi ident")
    case None
    then have other: "list_all (\<lambda>i. hin_id (hi_id hi ! i) \<noteq> ident) xs"
      using xs(3) by (auto simp: hashid_map_None list_all_iff)
    have "hashid_remove ident hi = Some (- 1, hi)"
    proof (cases xs)
      case Nil
      then show ?thesis using xs(1) h by (simp add: hashid_remove_def Let_def)
    next
      case (Cons c ys)
      then have "remove_loop ident c hi = Some (- 1, hi)"
        using remove_loop_missing [of hi c ys ident] xs(1) other by simp
      then show ?thesis using Cons xs(1) h other by (simp add: hashid_remove_def Let_def)
    qed
    moreover have "(hashid_map hi)(ident := None) = hashid_map hi" using None by (simp add: fun_upd_idem)
    ultimately show ?thesis using None wf by simp
  next
    case (Some t)
    then have t: "t \<in> used hi" "hin_id (hi_id hi ! t) = ident" by (simp_all add: hashid_map_Some [OF inj])
    then have "t \<in> set xs" using xs(3) by simp
    then obtain ys zs where split: "xs = ys @ t # zs" by (auto simp: in_set_conv_decomp)
    have dist: "t \<notin> set ys" "t \<notin> set zs" using xs(2) split by auto
    have before: "list_all (\<lambda>i. hin_id (hi_id hi ! i) \<noteq> ident) ys"
      using dist(1) xs(3) split t inj_onD [OF inj, of _ t] by (fastforce simp: list_all_iff)
    have rest: "set (ys @ zs) = {i \<in> used hi. hash_of hi (hin_id (hi_id hi ! i)) = ?h} - {t}" "distinct (ys @ zs)"
      using xs(2,3) split by auto
    have tlen: "t < length (hi_id hi)" using used_in_range [OF wf t(1)] .
    show ?thesis
    proof (cases ys rule: rev_cases)
      case Nil
      then have c: "hi_hash hi ! ?h = Some t" "chain (hi_id hi) (hin_next (hi_id hi ! t)) zs" using xs(1) split by auto
      let ?hash = "(hi_hash hi)[?h := hin_next (hi_id hi ! t)]"
      have "hashid_remove ident hi = Some (int t, hi\<lparr>hi_id := (hi_id hi)[t := \<lparr>hin_id = - 1, hin_next = None\<rparr>],
          hi_hash := ?hash, hi_count := hi_count hi - 1\<rparr>)"
        using c h t tlen by (simp add: hashid_remove_def clear_node_def Let_def)
      moreover note unlinked_ok [OF wf t(1), of ?h "hi_id hi" ?hash zs]
      ultimately show ?thesis using Some t h len c rest Nil by simp
    next
      case (snoc ys' p)
      let ?nodes = "(hi_id hi)[p := (hi_id hi ! p)\<lparr>hin_next := hin_next (hi_id hi ! t)\<rparr>]"
      obtain c ws where cw: "ys = c # ws" using snoc neq_Nil_conv [of ys] by auto
      have head: "hi_hash hi ! ?h = Some c" "chain (hi_id hi) (Some c) (c # ws @ t # zs)" "c < length (hi_id hi)"
        using xs(1) split cw by auto
      have "last ys = p" using snoc by simp
      then have "last (c # ws) = p" using cw by simp
      then have "remove_loop ident c hi = clear_node t (hi\<lparr>hi_id := ?nodes\<rparr>)"
        using remove_loop_found [OF head(2) _ t(2)] before cw by simp
      then have rem: "hashid_remove ident hi = Some (int t, hi\<lparr>hi_id := ?nodes[t := \<lparr>hin_id = - 1, hin_next = None\<rparr>],
          hi_hash := hi_hash hi, hi_count := hi_count hi - 1\<rparr>)"
        using head h tlen before cw by (simp add: hashid_remove_def clear_node_def Let_def)
      have p: "p \<in> set xs" "p \<noteq> t" using snoc split dist(1) by auto
      then have pu: "p \<in> used hi" "hash_of hi (hin_id (hi_id hi ! p)) = ?h" "p < length (hi_id hi)"
        using xs(3) used_in_range [OF wf] by auto
      have ch: "chain ?nodes (hi_hash hi ! ?h) (ys @ zs)"
        using chain_split [of "hi_id hi" "hi_hash hi ! ?h" ys t zs] xs(1,2) split snoc by simp
      have n1: "hin_id (?nodes ! i) = hin_id (hi_id hi ! i)" for i using pu(3) by (cases "i = p") simp_all
      have n2: "?nodes ! i = hi_id hi ! i" if "i \<noteq> p" for i using that by simp
      have h_t: "?h = hash_of hi (hin_id (hi_id hi ! t))" by (simp add: t(2))
      have "length ?nodes = hi_cap hi" using len by simp
      note un = unlinked_ok [OF wf t(1) h_t this n1 _ _ refl refl ch rest(2,1)]
      have "hashid_wf (hi\<lparr>hi_id := ?nodes[t := \<lparr>hin_id = - 1, hin_next = None\<rparr>],
          hi_hash := hi_hash hi, hi_count := hi_count hi - 1\<rparr>)"
        by (rule un(1); rule n2; use pu in auto)
      moreover have "hashid_map (hi\<lparr>hi_id := ?nodes[t := \<lparr>hin_id = - 1, hin_next = None\<rparr>],
          hi_hash := hi_hash hi, hi_count := hi_count hi - 1\<rparr>) = (hashid_map hi)(hin_id (hi_id hi ! t) := None)"
        by (rule un(2); rule n2; use pu in auto)
      ultimately show ?thesis using rem Some t(2) by auto
    qed
  qed
qed

section \<open>Insertion\<close>

lemma c_rem_nonneg: "0 \<le> a \<Longrightarrow> 0 \<le> b \<Longrightarrow> c_rem a b = a mod b"
  by (auto simp: c_rem_def sgn_if)

lemma small_sum: "0 \<le> a \<Longrightarrow> a < 2 ^ 31 \<Longrightarrow> sint (word_of_int a :: 32 word) = a"
proof -
  assume a: "0 \<le> a" "a < 2 ^ 31"
  then have "uint (word_of_int a :: 32 word) = a" by (simp add: uint_word_of_int)
  moreover have "signed_take_bit (LENGTH(32) - Suc 0) a = a" using a by (intro signed_take_bit_int_eq_self) auto
  ultimately show ?thesis by (simp add: sint_uint)
qed

lemma free_index:
  assumes "0 \<le> ident" "ident + int (hi_cap hi) \<le> 2 ^ 31" "i < hi_cap hi"
  shows "c_rem (sint (word_of_int (int i + ident) :: 32 word)) (int (hi_cap hi)) = (int i + ident) mod int (hi_cap hi)"
proof -
  have "int i + ident < 2 ^ 31" using assms by linarith
  then have "sint (word_of_int (int i + ident) :: 32 word) = int i + ident" using assms(1) by (intro small_sum) simp_all
  then show ?thesis using assms(1) by (simp only: c_rem_nonneg add_nonneg_nonneg of_nat_0_le_iff)
qed

lemma find_free_None:
  "find_free hi ident i n = None \<Longrightarrow> 0 \<le> ident \<Longrightarrow> ident + int (hi_cap hi) \<le> 2 ^ 31 \<Longrightarrow> i + n \<le> hi_cap hi \<Longrightarrow> i \<le> j \<Longrightarrow> j < i + n \<Longrightarrow>
     hin_id (hi_id hi ! nat ((int j + ident) mod int (hi_cap hi))) \<noteq> - 1"
proof (induction n arbitrary: i)
  case (Suc n)
  have index: "c_rem (sint (word_of_int (int i + ident) :: 32 word)) (int (hi_cap hi)) = (int i + ident) mod int (hi_cap hi)"
    by (rule free_index [OF Suc.prems(2,3)]) (use Suc.prems(4) in simp)
  have nonneg: "\<not> (int i + ident) mod int (hi_cap hi) < 0" using Suc.prems(4) by (simp add: not_less)
  note step = Suc.prems(1) [unfolded find_free.simps Let_def index if_not_P [OF nonneg]]
  show ?case
  proof (cases "i = j")
    case True
    then show ?thesis using step by (auto split: if_splits)
  next
    case False
    have "find_free hi ident (Suc i) n = None" using step by (simp split: if_splits)
    then show ?thesis using Suc.IH [of "Suc i"] Suc.prems False by simp
  qed
qed simp

lemma find_free_Some:
  "find_free hi ident i n = Some c \<Longrightarrow> 0 < hi_cap hi \<Longrightarrow> c < hi_cap hi \<and> hin_id (hi_id hi ! c) = - 1"
proof (induction n arbitrary: i)
  case (Suc n)
  define index where "index = c_rem (sint (word_of_int (int i + ident) :: 32 word)) (int (hi_cap hi))"
  define x where "x = sint (word_of_int (int i + ident) :: 32 word)"
  have "index < int (hi_cap hi)"
  proof -
    have m: "\<bar>x\<bar> mod int (hi_cap hi) < int (hi_cap hi)" "0 \<le> \<bar>x\<bar> mod int (hi_cap hi)" using Suc.prems(2) by simp_all
    have "index = sgn x * (\<bar>x\<bar> mod int (hi_cap hi))" unfolding index_def c_rem_def x_def [symmetric] by simp
    moreover have "sgn x = 0 \<or> sgn x = 1 \<or> sgn x = - 1" by (simp add: sgn_if)
    ultimately show ?thesis using m by auto
  qed
  moreover note Suc.prems(1) [unfolded find_free.simps Let_def index_def [symmetric]]
  ultimately show ?case using Suc.IH [of "Suc i"] Suc.prems(2) by (auto simp: nat_less_iff split: if_splits)
qed simp

lemma find_free_ok:
  assumes wf: "hashid_wf hi" and room: "\<not> hashid_full hi" and ident: "0 \<le> ident" "ident + int (hi_cap hi) \<le> 2 ^ 31"
  shows "\<exists>c. find_free hi ident 0 (hi_cap hi) = Some c \<and> c < hi_cap hi \<and> hin_id (hi_id hi ! c) = - 1"
proof -
  have "used hi \<noteq> {..<hi_cap hi}" using room hashid_wfD(3) [OF wf] unfolding hashid_full_def by force
  moreover have "used hi \<subseteq> {..<hi_cap hi}" by (auto simp: used_def)
  ultimately obtain m where "m \<in> {..<hi_cap hi}" "m \<notin> used hi" by blast
  then have m: "m < hi_cap hi" "hin_id (hi_id hi ! m) = - 1" by (simp_all add: used_def)
  let ?j = "nat ((int m - ident) mod int (hi_cap hi))"
  have j: "?j < hi_cap hi" using m(1) by (simp add: nat_less_iff)
  have "int ?j = (int m - ident) mod int (hi_cap hi)" using m(1) by simp
  then have "(int ?j + ident) mod int (hi_cap hi) = (int m - ident + ident) mod int (hi_cap hi)"
    by (simp only: mod_add_left_eq)
  then have "(int ?j + ident) mod int (hi_cap hi) = int m" using m(1) by simp
  then have "find_free hi ident 0 (hi_cap hi) \<noteq> None" using find_free_None [of hi ident 0 "hi_cap hi" ?j] j m ident by auto
  then show ?thesis using find_free_Some [of hi ident 0 "hi_cap hi"] m(1) by auto
qed

lemma hashid_insert_found:
  assumes wf: "hashid_wf hi" and new: "hashid_map hi ident = None" and "find_free hi ident 0 (hi_cap hi) = Some c" "0 \<le> ident"
  shows "\<exists>hi'. hashid_insert ident hi = Some (int c, hi') \<and> c < hi_cap hi \<and> c \<notin> ran (hashid_map hi) \<and>
    hashid_wf hi' \<and> hashid_map hi' = (hashid_map hi)(ident \<mapsto> c) \<and> hi_cap hi' = hi_cap hi \<and> hi_count hi' = hi_count hi + 1"
proof -
  let ?h = "hash_of hi ident"
  note h = hashid_wfD(4) [OF wf, of ident] and inj = hashid_wfD(2) [OF wf] and len = hashid_wfD(1) [OF wf]
  have "0 < hi_cap hi" using assms(3) by (cases "hi_cap hi") simp_all
  with assms(3) have c: "find_free hi ident 0 (hi_cap hi) = Some c" "c < hi_cap hi" "hin_id (hi_id hi ! c) = - 1"
    using find_free_Some by blast+
  have next_c: "hin_next (hi_id hi ! c) = None" using hashid_wfD(5) [OF wf c(2,3)] .
  let ?n = "\<lparr>hin_id = ident, hin_next = hi_hash hi ! ?h\<rparr>"
  let ?hi = "hi\<lparr>hi_count := hi_count hi + 1, hi_id := (hi_id hi)[c := ?n], hi_hash := (hi_hash hi)[?h := Some c]\<rparr>"
  have ins: "hashid_insert ident hi = Some (int c, ?hi)"
    using c h next_c len by (simp add: hashid_insert_def Let_def)
  have unused: "c \<notin> used hi" using c(3) by (simp add: used_def)
  have ids: "hin_id (hi_id ?hi ! i) = (if i = c then ident else hin_id (hi_id hi ! i))" if "i < hi_cap hi" for i
    using that len by (simp add: nth_list_update)
  have used: "used ?hi = insert c (used hi)"
    using ids c(2) assms(4) by (auto simp: used_def split: if_splits)
  have hashof: "hash_of ?hi = hash_of hi" by (simp add: hash_of_def fun_eq_iff)
  have fresh: "hin_id (hi_id hi ! i) \<noteq> ident" if "i \<in> used hi" for i using new that by (simp add: hashid_map_None)
  have ids': "hin_id (hi_id ?hi ! i) = hin_id (hi_id hi ! i)" if "i \<in> used hi" for i
    using ids [of i] that unused by (auto simp: used_def)
  have idc: "hin_id (hi_id ?hi ! c) = ident" using ids [OF c(2)] by simp
  have inj': "inj_on (\<lambda>i. hin_id (hi_id ?hi ! i)) (used ?hi)"
  proof -
    let ?f = "\<lambda>i. hin_id (hi_id ?hi ! i)"
    have "inj_on ?f (used hi) = inj_on (\<lambda>i. hin_id (hi_id hi ! i)) (used hi)" by (rule inj_on_cong) (rule ids')
    moreover have "?f ` (used hi - {c}) = (\<lambda>i. hin_id (hi_id hi ! i)) ` (used hi - {c})"
      by (rule image_cong) (use ids' in auto)
    ultimately show ?thesis unfolding used inj_on_insert using inj fresh idc by auto
  qed
  have "\<exists>xs. chain (hi_id ?hi) (hi_hash ?hi ! g) xs \<and> distinct xs \<and>
      set xs = {i \<in> used ?hi. hash_of ?hi (hin_id (hi_id ?hi ! i)) = g}" if g: "g < length (hi_hash ?hi)" for g
  proof -
    obtain xs where xs: "chain (hi_id hi) (hi_hash hi ! g) xs" "distinct xs"
      "set xs = {i \<in> used hi. hash_of hi (hin_id (hi_id hi ! i)) = g}"
      using hashid_chain [OF wf, of g] g by auto
    have notin: "c \<notin> set xs" using xs(3) unused by auto
    then have kept: "chain (hi_id ?hi) p xs = chain (hi_id hi) p xs" for p by (simp add: chain_update)
    have set: "set (if g = ?h then c # xs else xs) = {i \<in> used ?hi. hash_of ?hi (hin_id (hi_id ?hi ! i)) = g}"
      unfolding used hashof using xs(3) ids' idc by auto
    have "chain (hi_id ?hi) (hi_hash ?hi ! g) (if g = ?h then c # xs else xs)"
      using kept xs(1) h c(2) len g by (cases "g = ?h") simp_all
    then show ?thesis using set xs(2) notin by (intro exI [of _ "if g = ?h then c # xs else xs"]) simp
  qed
  moreover have "\<exists>k. hi_hashmod ?hi = 2 ^ k - 1 \<and> length (hi_hash ?hi) = 2 ^ k"
    using wf by (auto simp: hashid_wf_def)
  moreover have "hi_count ?hi = card (used ?hi)"
    using hashid_wfD(3) [OF wf] unused unfolding used by (simp add: used_def)
  moreover have "hin_next (hi_id ?hi ! i) = None" if "i < hi_cap ?hi" "hin_id (hi_id ?hi ! i) = - 1" for i
    using that hashid_wfD(5) [OF wf, of i] ids [of i] assms(4) len by (cases "i = c") auto
  ultimately have wf': "hashid_wf ?hi" using inj' len unfolding hashid_wf_def by simp
  have "hashid_map ?hi v = ((hashid_map hi)(ident \<mapsto> c)) v" for v
  proof -
    have "hashid_map ?hi v = Some i \<longleftrightarrow> ((hashid_map hi)(ident \<mapsto> c)) v = Some i" for i
      unfolding hashid_map_Some [OF inj'] fun_upd_apply used
      using ids' idc fresh unused by (auto simp: hashid_map_Some [OF inj])
    then show ?thesis by (metis not_Some_eq)
  qed
  moreover have "c \<notin> ran (hashid_map hi)" using unused by (auto simp: ran_def hashid_map_Some [OF inj])
  ultimately show ?thesis using ins c(2) wf' by (intro exI [of _ ?hi]) auto
qed

lemma hashid_insert_ok:
  assumes "hashid_wf hi" "\<not> hashid_full hi" "hashid_map hi ident = None" "0 \<le> ident" "ident + int (hi_cap hi) \<le> 2 ^ 31"
  shows "\<exists>c hi'. hashid_insert ident hi = Some (int c, hi') \<and> c < hi_cap hi \<and> c \<notin> ran (hashid_map hi) \<and>
    hashid_wf hi' \<and> hashid_map hi' = (hashid_map hi)(ident \<mapsto> c)"
  using find_free_ok [OF assms(1,2,4,5)] hashid_insert_found [OF assms(1,3) _ assms(4)] by blast

lemma hash_cap_power: "\<exists>k. hash_cap limit (2 ^ n) = 2 ^ k"
proof (induction "limit - 2 ^ n" arbitrary: n rule: less_induct)
  case less
  show ?case
  proof (cases "2 ^ n < limit")
    case True
    then have "limit - 2 ^ (Suc n) < limit - 2 ^ n" by (simp add: diff_less_mono2)
    from less [OF this] True show ?thesis by (subst hash_cap.simps) (simp add: mult.commute)
  next
    case False
    then show ?thesis by (subst hash_cap.simps) auto
  qed
qed

lemma hashid_init_ok: "hashid_wf (hashid_init limit)" "hashid_map (hashid_init limit) = Map.empty"
proof -
  obtain k where k: "hash_cap limit 16 = 2 ^ k" using hash_cap_power [of limit 4] by auto
  have used: "used (hashid_init limit) = {}" by (auto simp: used_def hashid_init_def Let_def)
  have "hi_hashmod (hashid_init limit) = 2 ^ k - 1" "length (hi_hash (hashid_init limit)) = 2 ^ k"
    by (simp_all add: hashid_init_def Let_def k)
  moreover have "chain (hi_id (hashid_init limit)) (hi_hash (hashid_init limit) ! h) []"
    if "h < length (hi_hash (hashid_init limit))" for h
    using that by (simp add: hashid_init_def Let_def)
  ultimately show "hashid_wf (hashid_init limit)"
    unfolding hashid_wf_def used by (auto simp: hashid_init_def Let_def)
  show "hashid_map (hashid_init limit) = Map.empty" by (simp add: fun_eq_iff hashid_map_None used)
qed

text \<open>
  The search leaves the array when the sum wraps around: in a table of three places of which one is taken, the biggest ident
  finds its first place taken, and the next index is -2.
\<close>

lemma insert_leaves_array:
  "Option.bind (hashid_insert 1 (hashid_init 3)) (\<lambda>(_, hi). hashid_insert 0x7fffffff hi) = None"
proof -
  have "hash_cap 3 16 = 16" by (subst hash_cap.simps) simp
  then have "hashid_init 3 = \<lparr>hi_hashmod = 15, hi_cap = 3, hi_count = 0, hi_id = replicate 3 \<lparr>hin_id = - 1, hin_next = None\<rparr>,
      hi_hash = replicate 16 None\<rparr>"
    by (simp add: hashid_init_def)
  then show ?thesis
    by (simp add: hashid_insert_def numeral_3_eq_3 array_get_def hash_of_def c_rem_def Let_def)
qed

end
