(* ===== verification/DataBuffer.thy ===== *)
theory DataBuffer
  imports Bytes
begin

text \<open>
  \<open>service-src/databuffer.h\<close>: the received pieces of one connection's byte stream.  The linked
  list of pieces is a list of byte lists from \<open>head\<close> to \<open>tail\<close>; of the pool of list nodes, which all
  connections of a gate share, the model counts the arrays allocated and the nodes on the free list.
  The C \<open>int\<close> fields do not overflow for streams below 2 GB.
\<close>

section \<open>State and operations\<close>

definition MESSAGEPOOL :: nat where "MESSAGEPOOL = 1023"

record databuffer =
  db_header :: int
  db_offset :: nat
  db_size :: nat
  db_msgs :: "u8 list list"

record messagepool =
  mp_pool :: nat
  mp_freelist :: nat

definition databuffer_zero :: databuffer where
  "databuffer_zero = \<lparr>db_header = 0, db_offset = 0, db_size = 0, db_msgs = []\<rparr>"

definition messagepool_free :: "messagepool \<Rightarrow> messagepool" where
  "messagepool_free mp = \<lparr>mp_pool = 0, mp_freelist = 0\<rparr>"

text \<open>\<open>_return_message\<close>: the first piece is unlinked and its node goes to the free list.\<close>

definition return_message :: "databuffer \<Rightarrow> messagepool \<Rightarrow> (databuffer \<times> messagepool) option" where
  "return_message db mp = (case db_msgs db of
       [] \<Rightarrow> None
     | m # ms \<Rightarrow> Some (db\<lparr>db_msgs := ms\<rparr>, mp\<lparr>mp_freelist := mp_freelist mp + 1\<rparr>))"

text \<open>The loop of \<open>databuffer_read\<close>; the bytes copied are the first result.\<close>

function read_loop :: "nat \<Rightarrow> databuffer \<Rightarrow> messagepool \<Rightarrow> (u8 list \<times> databuffer \<times> messagepool) option" where
  "read_loop sz db mp = (case db_msgs db of
       [] \<Rightarrow> None
     | current # ms \<Rightarrow>
         let bsz = int (length current) - int (db_offset db) in
         if bsz > int sz then Some (take sz (drop (db_offset db) current), db\<lparr>db_offset := db_offset db + sz\<rparr>, mp)
         else if bsz = int sz then
           map_option (\<lambda>(db', mp'). (take sz (drop (db_offset db) current), db', mp')) (return_message (db\<lparr>db_offset := 0\<rparr>) mp)
         else (case return_message db mp of
             None \<Rightarrow> None
           | Some (db', mp') \<Rightarrow>
               map_option (\<lambda>(bs, r). (drop (db_offset db) current @ bs, r))
                 (read_loop (nat (int sz - bsz)) (db'\<lparr>db_offset := 0\<rparr>) mp')))"
  by auto
termination
  by (relation "measure (\<lambda>(sz, db, mp). length (db_msgs db))") (auto simp: return_message_def)

declare read_loop.simps [simp del]

definition databuffer_read :: "nat \<Rightarrow> databuffer \<Rightarrow> messagepool \<Rightarrow> (u8 list \<times> databuffer \<times> messagepool) option" where
  "databuffer_read sz db mp = (if db_size db < sz then None else read_loop sz (db\<lparr>db_size := db_size db - sz\<rparr>) mp)"

definition databuffer_push :: "u8 list \<Rightarrow> databuffer \<Rightarrow> messagepool \<Rightarrow> databuffer \<times> messagepool" where
  "databuffer_push data db mp =
     (db\<lparr>db_size := db_size db + length data, db_msgs := db_msgs db @ [data]\<rparr>,
      if mp_freelist mp > 0 then mp\<lparr>mp_freelist := mp_freelist mp - 1\<rparr>
      else mp\<lparr>mp_pool := mp_pool mp + 1, mp_freelist := MESSAGEPOOL - 1\<rparr>)"

definition header_value :: "nat \<Rightarrow> u8 list \<Rightarrow> int" where
  "header_value header_size plen =
     (if header_size = 2 then int (unat (plen ! 0)) * 256 + int (unat (plen ! 1))
      else sint (be32 (plen ! 0) (plen ! 1) (plen ! 2) (plen ! 3)))"

definition databuffer_readheader :: "nat \<Rightarrow> databuffer \<Rightarrow> messagepool \<Rightarrow> (int \<times> databuffer \<times> messagepool) option" where
  "databuffer_readheader header_size db mp =
     (if db_header db = 0 \<and> db_size db < header_size then Some (- 1, db, mp)
      else do {
        (db, mp) \<leftarrow> (if db_header db = 0 then do {
            (plen, db, mp) \<leftarrow> databuffer_read header_size db mp;
            Some (db\<lparr>db_header := header_value header_size plen\<rparr>, mp)
          }
          else Some (db, mp));
        Some (if int (db_size db) < db_header db then - 1 else db_header db, db, mp)
      })"

definition databuffer_reset :: "databuffer \<Rightarrow> databuffer" where
  "databuffer_reset db = db\<lparr>db_header := 0\<rparr>"

definition databuffer_clear :: "databuffer \<Rightarrow> messagepool \<Rightarrow> databuffer \<times> messagepool" where
  "databuffer_clear db mp = (databuffer_zero, mp\<lparr>mp_freelist := mp_freelist mp + length (db_msgs db)\<rparr>)"

section \<open>A buffer as a byte stream\<close>

definition db_bytes :: "databuffer \<Rightarrow> u8 list" where
  "db_bytes db = drop (db_offset db) (concat (db_msgs db))"

definition db_wf :: "databuffer \<Rightarrow> bool" where
  "db_wf db \<longleftrightarrow> db_size db = length (db_bytes db) \<and>
     (case db_msgs db of [] \<Rightarrow> db_offset db = 0 | m # _ \<Rightarrow> db_offset db \<le> length m)"

lemma db_wf_zero [simp]: "db_wf databuffer_zero" "db_bytes databuffer_zero = []" "db_header databuffer_zero = 0"
  by (simp_all add: db_wf_def db_bytes_def databuffer_zero_def)

lemma db_wf_header [simp]: "db_wf (db\<lparr>db_header := h\<rparr>) = db_wf db" "db_bytes (db\<lparr>db_header := h\<rparr>) = db_bytes db"
  by (simp_all add: db_wf_def db_bytes_def split: list.split)

lemma databuffer_push_ok:
  assumes "db_wf db"
  shows "db_wf (fst (databuffer_push data db mp))" "db_bytes (fst (databuffer_push data db mp)) = db_bytes db @ data"
    "db_header (fst (databuffer_push data db mp)) = db_header db"
  using assms by (auto simp: db_wf_def db_bytes_def databuffer_push_def split: list.splits)

text \<open>What the loop of \<open>databuffer_read\<close> finds in the pieces, whatever \<open>size\<close> says.\<close>

definition pieces_wf :: "databuffer \<Rightarrow> bool" where
  "pieces_wf db \<longleftrightarrow> (case db_msgs db of [] \<Rightarrow> db_offset db = 0 | m # _ \<Rightarrow> db_offset db \<le> length m)"

lemma read_loop_ok:
  "pieces_wf db \<Longrightarrow> 0 < sz \<Longrightarrow> sz \<le> length (db_bytes db) \<Longrightarrow>
     \<exists>db' mp'. read_loop sz db mp = Some (take sz (db_bytes db), db', mp') \<and> pieces_wf db' \<and>
       db_bytes db' = drop sz (db_bytes db) \<and> db_size db' = db_size db \<and> db_header db' = db_header db"
proof (induction sz db mp rule: read_loop.induct)
  case (1 sz db mp)
  show ?case
  proof (cases "db_msgs db")
    case Nil
    then show ?thesis using 1 by (simp add: db_bytes_def)
  next
    case (Cons m ms)
    have off: "db_offset db \<le> length m" using 1 Cons by (simp add: pieces_wf_def)
    have bytes: "db_bytes db = drop (db_offset db) m @ concat ms" using Cons off by (simp add: db_bytes_def)
    let ?bsz = "int (length m) - int (db_offset db)"
    consider "?bsz > int sz" | "?bsz = int sz" | "?bsz < int sz" by linarith
    then show ?thesis
    proof cases
      case 1
      then show ?thesis using Cons off bytes
        by (subst read_loop.simps) (auto simp: Let_def pieces_wf_def db_bytes_def add.commute)
    next
      case 2
      then have sz: "sz = length m - db_offset db" using off by simp
      let ?db = "db\<lparr>db_msgs := ms, db_offset := 0\<rparr>"
      have "read_loop sz db mp = Some (take sz (drop (db_offset db) m), ?db, mp\<lparr>mp_freelist := mp_freelist mp + 1\<rparr>)"
        by (subst read_loop.simps) (simp add: return_message_def Cons 2)
      moreover have "take sz (drop (db_offset db) m) = drop (db_offset db) m" unfolding sz by simp
      moreover have "pieces_wf ?db" "db_bytes ?db = concat ms" by (simp_all add: db_bytes_def pieces_wf_def split: list.split)
      ultimately show ?thesis using off by (simp add: bytes sz)
    next
      case 3
      let ?k = "length m - db_offset db"
      let ?db = "db\<lparr>db_msgs := ms, db_offset := 0\<rparr>"
      have k: "nat (int sz - ?bsz) = sz - ?k" using off 3 by simp
      have ret: "return_message db mp = Some (db\<lparr>db_msgs := ms\<rparr>, mp\<lparr>mp_freelist := mp_freelist mp + 1\<rparr>)"
        using Cons by (simp add: return_message_def)
      have rest: "db_bytes ?db = concat ms" "pieces_wf ?db" by (simp_all add: db_bytes_def pieces_wf_def split: list.split)
      have "0 < sz - ?k" "sz - ?k \<le> length (db_bytes ?db)" using 3 off 1 bytes rest by simp_all
      with "1.IH" [OF Cons refl _ _ ret refl] 3 k rest(2) obtain db' mp' where
        IH: "read_loop (sz - ?k) ?db (mp\<lparr>mp_freelist := mp_freelist mp + 1\<rparr>) = Some (take (sz - ?k) (concat ms), db', mp')"
          "pieces_wf db'" "db_bytes db' = drop (sz - ?k) (concat ms)" "db_size db' = db_size db" "db_header db' = db_header db"
        unfolding rest(1) by auto
      have "read_loop sz db mp = Some (take sz (db_bytes db), db', mp')"
        using 3 Cons ret IH(1) k off bytes by (subst read_loop.simps) (simp add: Let_def)
      then show ?thesis using IH bytes off 3 by simp
    qed
  qed
qed

lemma databuffer_read_ok:
  assumes wf: "db_wf db" and "0 < sz" "sz \<le> length (db_bytes db)"
  shows "\<exists>db' mp'. databuffer_read sz db mp = Some (take sz (db_bytes db), db', mp') \<and> db_wf db' \<and>
    db_bytes db' = drop sz (db_bytes db) \<and> db_header db' = db_header db"
proof -
  let ?db = "db\<lparr>db_size := db_size db - sz\<rparr>"
  have "pieces_wf ?db" "db_bytes ?db = db_bytes db" "db_size db = length (db_bytes db)"
    using wf by (auto simp: db_wf_def pieces_wf_def db_bytes_def split: list.splits)
  with read_loop_ok [of ?db sz mp] assms obtain db' mp' where
    "read_loop sz ?db mp = Some (take sz (db_bytes db), db', mp')" "pieces_wf db'"
    "db_bytes db' = drop sz (db_bytes db)" "db_size db' = db_size db - sz" "db_header db' = db_header db" by auto
  then show ?thesis using assms by (simp add: databuffer_read_def db_wf_def pieces_wf_def)
qed

lemma header_value_take: "hs \<in> {2, 4} \<Longrightarrow> header_value hs (take hs bs) = header_value hs bs"
  by (auto simp: header_value_def)

lemma databuffer_readheader_ok:
  assumes wf: "db_wf db" and hs: "0 < hs"
  shows "\<exists>db' mp'. databuffer_readheader hs db mp =
      (if db_header db = 0 \<and> length (db_bytes db) < hs then Some (- 1, db', mp')
       else Some (if int (length (db_bytes db')) < db_header db' then - 1 else db_header db', db', mp')) \<and>
    db_wf db' \<and>
    db_header db' = (if db_header db = 0 \<and> hs \<le> length (db_bytes db) then header_value hs (take hs (db_bytes db)) else db_header db) \<and>
    db_bytes db' = (if db_header db = 0 \<and> hs \<le> length (db_bytes db) then drop hs (db_bytes db) else db_bytes db)"
proof -
  have sz: "db_size d = length (db_bytes d)" if "db_wf d" for d using that by (simp add: db_wf_def)
  show ?thesis
  proof (cases "db_header db = 0 \<and> hs \<le> length (db_bytes db)")
    case True
    then obtain db' mp' where r: "databuffer_read hs db mp = Some (take hs (db_bytes db), db', mp')" "db_wf db'"
      "db_bytes db' = drop hs (db_bytes db)"
      using databuffer_read_ok [OF wf hs] by blast
    have "db_size db' = length (db_bytes db')" using sz r(2) by blast
    with True r sz [OF wf] show ?thesis by (simp add: databuffer_readheader_def)
  next
    case False
    with wf sz [OF wf] show ?thesis by (auto simp: databuffer_readheader_def)
  qed
qed

end
