(* ===== verification/Gate.thy ===== *)
theory Gate
  imports HashId DataBuffer CString
begin

text \<open>
  \<open>service-src/service_gate.c\<close>: the service that owns the client connections.  It cuts the byte
  stream of every connection into packets (\<open>DataBuffer\<close>), finds connections by socket id (\<open>HashId\<close>) and
  forwards packets to a broker, to the agent of the connection or to the watchdog.  The calls it makes into
  the rest of the server are recorded in \<open>gt_calls\<close>, in their order.  A result \<open>None\<close> is an
  assertion that fails or an access outside an array.
\<close>

section \<open>State\<close>

definition BACKLOG :: int where "BACKLOG = 32"

record connection =
  cn_id :: int
  cn_agent :: u32
  cn_client :: u32
  cn_remote_name :: string
  cn_buffer :: databuffer

text \<open>The calls: source, destination and type of a message, and socket ids.\<close>

datatype call =
    Send u32 u32 u32 bytes
  | SocketClose int
  | SocketStart int
  | SocketSend int bytes
  | SocketListen string int int
  | Error string
  | Callback

record gate =
  gt_listen_id :: int
  gt_watchdog :: u32
  gt_broker :: u32
  gt_client_tag :: u32
  gt_header_size :: nat
  gt_hash :: hashid
  gt_conn :: "connection list"
  gt_mp :: messagepool
  gt_calls :: "call list"

abbreviation (input) PTYPE_TEXT :: u32 where "PTYPE_TEXT \<equiv> 0"
abbreviation (input) PTYPE_CLIENT :: u32 where "PTYPE_CLIENT \<equiv> 3"
abbreviation (input) DONTCOPY :: u32 where "DONTCOPY \<equiv> 0x10000"

definition emit :: "call \<Rightarrow> gate \<Rightarrow> gate" where
  "emit c g = g\<lparr>gt_calls := gt_calls g @ [c]\<rparr>"

definition text_bytes :: "string \<Rightarrow> bytes" where
  "text_bytes s = map (\<lambda>c. of_nat (of_char c)) s"

text \<open>The conversion of a \<open>long\<close> to an \<open>int\<close>.\<close>

definition to_int :: "int \<Rightarrow> int" where
  "to_int i = sint (word_of_int i :: u32)"

text \<open>A zeroed connection: \<open>id\<close> is set to -1.\<close>

definition connection_unused :: connection where
  "connection_unused = \<lparr>cn_id = - 1, cn_agent = 0, cn_client = 0, cn_remote_name = [], cn_buffer = databuffer_zero\<rparr>"

definition gate_create :: gate where
  "gate_create = \<lparr>gt_listen_id = - 1, gt_watchdog = 0, gt_broker = 0, gt_client_tag = 0, gt_header_size = 0,
     gt_hash = \<lparr>hi_hashmod = 0, hi_cap = 0, hi_count = 0, hi_id = [], hi_hash = []\<rparr>, gt_conn = [],
     gt_mp = \<lparr>mp_pool = 0, mp_freelist = 0\<rparr>, gt_calls = []\<rparr>"

text \<open>What \<open>gate_release\<close> asks the socket server; all memory of the gate is freed after it.\<close>

definition gate_release :: "gate \<Rightarrow> gate" where
  "gate_release g =
     (let g1 = fold (\<lambda>c g. if cn_id c \<ge> 0 then emit (SocketClose (cn_id c)) g else g) (gt_conn g) g;
          g2 = (if gt_listen_id g \<ge> 0 then emit (SocketClose (gt_listen_id g)) g1 else g1)
      in g2\<lparr>gt_mp := messagepool_free (gt_mp g), gt_hash := hashid_clear (gt_hash g), gt_conn := []\<rparr>)"

section \<open>Control commands\<close>

text \<open>
  The command is a buffer of \<open>sz + 1\<close> characters.  \<open>cstr_at\<close> is the C string at a position, and
  \<open>strsep_at\<close> the token there: it writes a NUL over the blank behind it and returns the position after.
\<close>

definition NUL :: char where "NUL = CHR 0x00"

definition cstr_at :: "string \<Rightarrow> nat \<Rightarrow> string option" where
  "cstr_at buf p = (if p < length buf then Some (takeWhile (\<lambda>c. c \<noteq> NUL) (drop p buf)) else None)"

definition strsep_at :: "string \<Rightarrow> nat \<Rightarrow> string \<times> nat option" where
  "strsep_at buf p =
     (let q = p + length (takeWhile (\<lambda>c. c \<noteq> NUL \<and> c \<noteq> CHR '' '') (drop p buf)) in
      if q < length buf \<and> buf ! q = CHR '' '' then (buf[q := NUL], Some (q + 1)) else (buf, None))"

text \<open>
  \<open>memcmp(command, lit, i) == 0\<close>, which stops at the first difference; \<open>None\<close> when it would read
  behind the literal without having found one.
\<close>

definition memcmp_lit :: "string \<Rightarrow> string \<Rightarrow> nat \<Rightarrow> bool option" where
  "memcmp_lit buf lit i =
     (let l = lit @ [NUL] in
      if i \<le> length l then Some (take i buf = take i l)
      else if take (length l) buf = l then None else Some False)"

text \<open>\<open>_parm\<close>: the parameters are moved to the front of the buffer; behind their NUL old text stays.\<close>

definition parm_text :: "string \<Rightarrow> nat \<Rightarrow> nat \<Rightarrow> string" where
  "parm_text msg sz command_sz =
     (let k = command_sz + length (takeWhile (\<lambda>c. c = CHR '' '') (drop command_sz (take sz msg))) in
      drop k (take sz msg) @ [NUL] @ drop (sz - k + 1) msg)"

definition forward_agent :: "int \<Rightarrow> u32 \<Rightarrow> u32 \<Rightarrow> gate \<Rightarrow> gate option" where
  "forward_agent fd agentaddr clientaddr g = do {
     i \<leftarrow> hashid_lookup (gt_hash g) fd;
     if i \<ge> 0 then do {
       agent \<leftarrow> array_get (gt_conn g) (nat i);
       Some (g\<lparr>gt_conn := (gt_conn g)[nat i := agent\<lparr>cn_agent := agentaddr, cn_client := clientaddr\<rparr>]\<rparr>)
     }
     else Some g
   }"

text \<open>A command on one socket, given by its number: \<open>kick\<close> and \<open>start\<close>.\<close>

definition on_connection :: "(int \<Rightarrow> call) \<Rightarrow> string \<Rightarrow> gate \<Rightarrow> gate option" where
  "on_connection request buf g = do {
     s \<leftarrow> cstr_at buf 0;
     let uid = to_int (strtol 10 s);
     i \<leftarrow> hashid_lookup (gt_hash g) uid;
     Some (if i \<ge> 0 then emit (request uid) g else g)
   }"

definition ctrl_forward :: "string \<Rightarrow> gate \<Rightarrow> gate option" where
  "ctrl_forward tmp g =
     (case strsep_at tmp 0 of
        (_, None) \<Rightarrow> Some g
      | (buf1, Some agent) \<Rightarrow> do {
          idstr \<leftarrow> cstr_at buf1 0;
          let fd = to_int (strtol 10 idstr);
          case strsep_at buf1 agent of
            (_, None) \<Rightarrow> Some g
          | (buf2, Some client) \<Rightarrow> do {
              a \<leftarrow> cstr_at buf2 (agent + 1);
              c \<leftarrow> cstr_at buf2 (client + 1);
              forward_agent fd (ucast (strtoul 16 a)) (ucast (strtoul 16 c)) g
            }
        })"

text \<open>\<open>queryname\<close> is \<open>skynet_queryname\<close> of the gate's context (\<open>Node\<close>).\<close>

definition ctrl :: "(string \<Rightarrow> u32) \<Rightarrow> string \<Rightarrow> gate \<Rightarrow> gate option" where
  "ctrl queryname msg g =
     (if msg = [] then Some g
      else do {
        let sz = length msg;
        let tmp = msg @ [NUL];
        let i = length (takeWhile (\<lambda>c. c \<noteq> CHR '' '') msg);
        kick \<leftarrow> memcmp_lit tmp ''kick'' i;
        if kick then on_connection SocketClose (parm_text tmp sz i) g
        else do {
        forward \<leftarrow> memcmp_lit tmp ''forward'' i;
        if forward then ctrl_forward (parm_text tmp sz i) g
        else do {
        broker \<leftarrow> memcmp_lit tmp ''broker'' i;
        if broker then map_option (\<lambda>name. g\<lparr>gt_broker := queryname name\<rparr>) (cstr_at (parm_text tmp sz i) 0)
        else do {
        start \<leftarrow> memcmp_lit tmp ''start'' i;
        if start then on_connection SocketStart (parm_text tmp sz i) g
        else do {
        close \<leftarrow> memcmp_lit tmp ''close'' i;
        if close then
          Some (if gt_listen_id g \<ge> 0 then (emit (SocketClose (gt_listen_id g)) g)\<lparr>gt_listen_id := - 1\<rparr> else g)
        else map_option (\<lambda>s. emit (Error (''[gate] Unkown command : '' @ s)) g) (cstr_at tmp 0)
      }}}}})"

text \<open>The texts reported have less than the 1024 characters of the buffer they are printed in.\<close>

definition report :: "string \<Rightarrow> gate \<Rightarrow> gate" where
  "report data g = (if gt_watchdog g = 0 then g
     else emit (Send 0 (gt_watchdog g) PTYPE_TEXT (text_bytes data)) g)"

section \<open>Data from a connection\<close>

definition set_buffer :: "nat \<Rightarrow> connection \<Rightarrow> databuffer \<times> messagepool \<Rightarrow> gate \<Rightarrow> gate" where
  "set_buffer i c r g = g\<lparr>gt_conn := (gt_conn g)[i := c\<lparr>cn_buffer := fst r\<rparr>], gt_mp := snd r\<rparr>"

definition forward_packet :: "nat \<Rightarrow> connection \<Rightarrow> nat \<Rightarrow> gate \<Rightarrow> gate option" where
  "forward_packet i c n g =
     (if gt_broker g \<noteq> 0 then do {
        (temp, r) \<leftarrow> databuffer_read n (cn_buffer c) (gt_mp g);
        Some (emit (Send 0 (gt_broker g) (gt_client_tag g OR DONTCOPY) temp) (set_buffer i c r g))
      }
      else if cn_agent c \<noteq> 0 then do {
        (temp, r) \<leftarrow> databuffer_read n (cn_buffer c) (gt_mp g);
        Some (emit (Send (cn_client c) (cn_agent c) (gt_client_tag g OR DONTCOPY) temp) (set_buffer i c r g))
      }
      else if gt_watchdog g \<noteq> 0 then do {
        (temp, r) \<leftarrow> databuffer_read n (cn_buffer c) (gt_mp g);
        Some (emit (Send 0 (gt_watchdog g) (PTYPE_TEXT OR DONTCOPY)
          (text_bytes (fmt_d (cn_id c) @ '' data '') @ temp)) (set_buffer i c r g))
      }
      else Some g)"

text \<open>The loop of \<open>dispatch_message\<close>; \<open>i\<close> is the place of the connection in the array, \<open>fd\<close> its socket.\<close>

partial_function (option) dispatch_loop :: "nat \<Rightarrow> int \<Rightarrow> gate \<Rightarrow> gate option" where
  "dispatch_loop i fd g =
     Option.bind (array_get (gt_conn g) i) (\<lambda>c.
     Option.bind (databuffer_readheader (gt_header_size g) (cn_buffer c) (gt_mp g)) (\<lambda>(n, r).
       let g = set_buffer i c r g; c = c\<lparr>cn_buffer := fst r\<rparr> in
       if n < 0 then Some g
       else if n > 0 then
         (if n \<ge> 0x1000000 then
            Some (emit (Error ''Recv socket message > 16M'') (emit (SocketClose fd)
              (set_buffer i c (databuffer_clear (cn_buffer c) (gt_mp g)) g)))
          else
            Option.bind (forward_packet i c (nat n) g) (\<lambda>g.
            Option.bind (array_get (gt_conn g) i) (\<lambda>c.
              dispatch_loop i fd (set_buffer i c (databuffer_reset (cn_buffer c), gt_mp g) g))))
       else dispatch_loop i fd g))"

definition gate_dispatch_message :: "nat \<Rightarrow> int \<Rightarrow> bytes \<Rightarrow> gate \<Rightarrow> gate option" where
  "gate_dispatch_message i fd data g = do {
     c \<leftarrow> array_get (gt_conn g) i;
     dispatch_loop i fd (set_buffer i c (databuffer_push data (cn_buffer c) (gt_mp g)) g)
   }"

section \<open>Messages to the gate\<close>

datatype socket_type = DATA | CONNECT | CLOSE | ACCEPT | ERROR | UDP | WARNING

text \<open>
  \<open>struct skynet_socket_message\<close>: \<open>ssm_buffer\<close> are the bytes that \<open>buffer\<close> points to (\<open>ssm_ud\<close> of them),
  \<open>ssm_extra\<close> the text behind the struct.
\<close>

record skynet_socket_message =
  ssm_type :: socket_type
  ssm_id :: int
  ssm_ud :: int
  ssm_buffer :: bytes
  ssm_extra :: string

definition dispatch_socket_message :: "skynet_socket_message \<Rightarrow> gate \<Rightarrow> gate option" where
  "dispatch_socket_message m g = (case ssm_type m of
       DATA \<Rightarrow> do {
         i \<leftarrow> hashid_lookup (gt_hash g) (ssm_id m);
         if i \<ge> 0 then gate_dispatch_message (nat i) (ssm_id m) (ssm_buffer m) g
         else Some (emit (SocketClose (ssm_id m))
           (emit (Error (''Drop unknown connection '' @ fmt_d (ssm_id m) @ '' message'')) g))
       }
     | CONNECT \<Rightarrow>
         if ssm_id m = gt_listen_id g then Some g
         else do {
           i \<leftarrow> hashid_lookup (gt_hash g) (ssm_id m);
           Some (if i < 0 then emit (SocketClose (ssm_id m))
               (emit (Error (''Close unknown connection '' @ fmt_d (ssm_id m))) g) else g)
         }
     | ACCEPT \<Rightarrow>
         if gt_listen_id g \<noteq> ssm_id m then None
         else if hashid_full (gt_hash g) then Some (emit (SocketClose (ssm_ud m)) g)
         else do {
           (i, hash) \<leftarrow> hashid_insert (ssm_ud m) (gt_hash g);
           c \<leftarrow> array_get (gt_conn g) (nat i);
           let name = takeWhile (\<lambda>c. c \<noteq> NUL) (take 31 (ssm_extra m));
           let g1 = g\<lparr>gt_hash := hash,
             gt_conn := (gt_conn g)[nat i := c\<lparr>cn_id := ssm_ud m, cn_remote_name := name\<rparr>]\<rparr>;
           let g2 = report (fmt_d (ssm_ud m) @ '' open '' @ fmt_d (ssm_ud m) @ '' '' @ name @ '':0'') g1;
           Some (emit (Error (''socket open: '' @ fmt_x (word_of_int (ssm_ud m)))) g2)
         }
     | UDP \<Rightarrow> Some g
     | WARNING \<Rightarrow>
         Some (emit (Error (''fd ('' @ fmt_d (ssm_id m) @ '') send buffer ('' @ fmt_d (ssm_ud m) @ '')K'')) g)
     | _ \<Rightarrow> do {
         (i, hash) \<leftarrow> hashid_remove (ssm_id m) (gt_hash g);
         let g1 = g\<lparr>gt_hash := hash\<rparr>;
         if i \<ge> 0 then do {
           c \<leftarrow> array_get (gt_conn g) (nat i);
           let (_, mp) = databuffer_clear (cn_buffer c) (gt_mp g);
           Some (report (fmt_d (ssm_id m) @ '' close'')
             (g1\<lparr>gt_conn := (gt_conn g)[nat i := connection_unused], gt_mp := mp\<rparr>))
         }
         else Some g1
       })"

datatype gate_message = Text string | Client u32 bytes | Socket skynet_socket_message | OtherType

text \<open>
  The callback; its result tells whether the message is kept (1) or freed.  A message of another
  type than the three is ignored.
\<close>

definition cb :: "(string \<Rightarrow> u32) \<Rightarrow> gate_message \<Rightarrow> gate \<Rightarrow> (int \<times> gate) option" where
  "cb queryname m g = (case m of
       Text s \<Rightarrow> map_option (\<lambda>g'. (0, g')) (ctrl queryname s g)
     | Client source bs \<Rightarrow>
         if length bs \<le> 4 then Some (0, emit (Error (''Invalid client message from '' @ fmt_x source)) g)
         else do {
           let uid = sint (get_le32 bs (length bs - 4));
           i \<leftarrow> hashid_lookup (gt_hash g) uid;
           Some (if i \<ge> 0 then (1, emit (SocketSend uid (take (length bs - 4) bs)) g)
                 else (0, emit (Error (''Invalid client id '' @ fmt_d uid @ '' from '' @ fmt_x source)) g))
         }
     | Socket sm \<Rightarrow> map_option (\<lambda>g'. (0, g')) (dispatch_socket_message sm g)
     | OtherType \<Rightarrow> Some (0, g))"

section \<open>Starting the gate\<close>

text \<open>
  \<open>listen\<close> is \<open>skynet_socket_listen\<close>; \<open>parm\<close> is read by \<open>sscanf\<close> with \<open>%c %s %s %d %d\<close>, of which the
  last conversion may fail.
\<close>

definition scan_int :: "string \<Rightarrow> (int \<times> string) option" where
  "scan_int s = (let (neg, s1) = read_sign (dropWhile c_isspace s) in
     if s1 \<noteq> [] \<and> is_digit 10 (hd s1)
     then (let (n, rest) = read_digits 10 0 s1 in
       Some (to_int (if neg then max (- (2 ^ 63)) (- int n) else min (2 ^ 63 - 1) (int n)), rest))
     else None)"

definition scan_parm :: "string \<Rightarrow> (char \<times> string \<times> string \<times> int \<times> int) option" where
  "scan_parm parm = (case parm of
       [] \<Rightarrow> None
     | header # s \<Rightarrow> do {
         (watchdog, s1) \<leftarrow> scan_word s;
         (binding, s2) \<leftarrow> scan_word s1;
         (client_tag, s3) \<leftarrow> scan_int s2;
         Some (header, watchdog, binding, client_tag, case scan_int s3 of None \<Rightarrow> 0 | Some (n, _) \<Rightarrow> n)
       })"

definition start_listen :: "(string \<Rightarrow> int \<Rightarrow> int \<Rightarrow> int) \<Rightarrow> string \<Rightarrow> gate \<Rightarrow> int \<times> gate" where
  "start_listen listen listen_addr g =
     (let (host, portstr) = (case strchr (CHR '':'') listen_addr of
            None \<Rightarrow> ([], listen_addr)
          | Some s \<Rightarrow> (takeWhile (\<lambda>c. c \<noteq> CHR '':'') listen_addr, tl s));
          port = to_int (strtol 10 portstr)
      in if port \<le> 0 then (1, emit (Error (''Invalid gate address '' @ listen_addr)) g)
         else
           let fd = listen host port BACKLOG; g1 = (emit (SocketListen host port BACKLOG) g)\<lparr>gt_listen_id := fd\<rparr>
           in if fd < 0 then (1, g1) else (0, emit (SocketStart fd) g1))"

definition gate_init :: "(string \<Rightarrow> u32) \<Rightarrow> (string \<Rightarrow> int \<Rightarrow> int \<Rightarrow> int) \<Rightarrow> string option \<Rightarrow> gate \<Rightarrow> int \<times> gate" where
  "gate_init queryname listen parm g = (case parm of
       None \<Rightarrow> (1, g)
     | Some p \<Rightarrow>
         (case scan_parm p of
            None \<Rightarrow> (1, emit (Error (''Invalid gate parm '' @ p)) g)
          | Some (header, watchdog, binding, client_tag, limit) \<Rightarrow>
              if limit \<le> 0 then (1, emit (Error ''Need max connection'') g)
              else if header \<noteq> CHR ''S'' \<and> header \<noteq> CHR ''L'' then (1, emit (Error ''Invalid data header style'') g)
              else
                let wd = (if hd watchdog = CHR ''!'' then 0 else queryname watchdog);
                    g1 = g\<lparr>gt_watchdog := wd\<rparr>
                in if hd watchdog \<noteq> CHR ''!'' \<and> wd = 0 then (1, emit (Error (''Invalid watchdog '' @ watchdog)) g1)
                   else start_listen listen binding (emit Callback (g1\<lparr>gt_hash := hashid_init (nat limit),
                     gt_conn := replicate (nat limit) connection_unused,
                     gt_client_tag := (if client_tag = 0 then PTYPE_CLIENT else word_of_int client_tag),
                     gt_header_size := (if header = CHR ''S'' then 2 else 4)\<rparr>))))"

end
