(* ===== verification/GateStream.thy ===== *)
theory GateStream
  imports Gate
begin

text \<open>
  What the gate does with a connection's stream, as one function on byte lists: \<open>drain\<close> cuts a stream
  into packets, however the stream was cut into pieces on its way.
\<close>

section \<open>The stream of a connection\<close>

text \<open>
  \<open>drain rd hs h bs\<close>: the packets in the bytes \<open>bs\<close> when \<open>h\<close> is the length of the packet being received
  (0 when its header is not complete), and what remains: a header and bytes, or nothing after an oversized
  packet.  When no service reads the packets (\<open>rd\<close> is false) only the header is removed.
\<close>

function drain :: "bool \<Rightarrow> nat \<Rightarrow> int \<Rightarrow> bytes \<Rightarrow> bytes list \<times> (int \<times> bytes) option" where
  "drain rd hs h bs =
     (if h = 0 \<and> (length bs < hs \<or> hs = 0) then ([], Some (0, bs))
      else
        let h' = (if h = 0 then header_value hs (take hs bs) else h);
            bs' = (if h = 0 then drop hs bs else bs)
        in if h' < 0 \<or> int (length bs') < h' then ([], Some (h', bs'))
           else if h' = 0 then drain rd hs 0 bs'
           else if h' \<ge> 0x1000000 then ([], None)
           else let rest = drain rd hs 0 (if rd then drop (nat h') bs' else bs') in
             ((if rd then [take (nat h') bs'] else []) @ fst rest, snd rest))"
  by auto
termination
  by (relation "measures [\<lambda>(rd, hs, h, bs). length bs, \<lambda>(rd, hs, h, bs). of_bool (h \<noteq> 0)]") (auto split: if_splits)

declare drain.simps [simp del]

lemma drain_0_short: "length bs < hs \<Longrightarrow> drain rd hs 0 bs = ([], Some (0, bs))"
  by (subst drain.simps) simp

text \<open>Once the header is read it does not matter when the packet is looked at.\<close>

lemma drain_header:
  assumes "hs \<le> length bs" "0 < hs" "header_value hs (take hs bs) = h" "h \<noteq> 0"
  shows "drain rd hs 0 bs = drain rd hs h (drop hs bs)"
  using assms by (subst (1 2) drain.simps) (simp add: Let_def)

lemma drain_append:
  "drain rd hs h (xs @ ys) =
     (case snd (drain rd hs h xs) of
        None \<Rightarrow> drain rd hs h xs
      | Some (h', r) \<Rightarrow> (fst (drain rd hs h xs) @ fst (drain rd hs h' (r @ ys)), snd (drain rd hs h' (r @ ys))))"
proof (induction rd hs h xs rule: drain.induct)
  case (1 rd hs h bs)
  show ?case
  proof (cases "h = 0 \<and> (length bs < hs \<or> hs = 0)")
    case True
    then have "drain rd hs h bs = ([], Some (0, bs))" by (subst drain.simps) simp
    then show ?thesis using True by simp
  next
    case start: False
    define h' where "h' = (if h = 0 then header_value hs (take hs bs) else h)"
    define bs' where "bs' = (if h = 0 then drop hs bs else bs)"
    have h'2: "(if h = 0 then header_value hs (take hs (bs @ ys)) else h) = h'" using start by (auto simp: h'_def)
    have bs'2: "(if h = 0 then drop hs (bs @ ys) else bs @ ys) = bs' @ ys" using start by (auto simp: bs'_def)
    have start2: "\<not> (h = 0 \<and> (length (bs @ ys) < hs \<or> hs = 0))" using start by auto
    note unfold1 = drain.simps [of rd hs h bs, unfolded Let_def, folded h'_def bs'_def]
    note unfold2 = drain.simps [of rd hs h "bs @ ys", unfolded Let_def h'2 bs'2]
    note IH = "1.IH" [OF start h'_def bs'_def]
    show ?thesis
    proof (cases "h' < 0 \<or> int (length bs') < h'")
      case wait: True
      have one: "drain rd hs h bs = ([], Some (h', bs'))" using start wait by (simp only: unfold1 if_True if_False)
      have "h' \<noteq> 0" using wait by auto
      have "drain rd hs h (bs @ ys) = drain rd hs h' (bs' @ ys)"
      proof (cases "h = 0")
        case True
        then show ?thesis using drain_header [of hs "bs @ ys" h' rd] start \<open>h' \<noteq> 0\<close> by (simp add: h'_def bs'_def)
      next
        case False
        then show ?thesis by (simp add: h'_def bs'_def)
      qed
      then show ?thesis by (simp add: one)
    next
      case go: False
      then have go2: "\<not> (h' < 0 \<or> int (length (bs' @ ys)) < h')" by auto
      consider "h' = 0" | "h' \<ge> 0x1000000" | "h' \<noteq> 0" "\<not> h' \<ge> 0x1000000" by linarith
      then show ?thesis
      proof cases
        case 1
        have one: "drain rd hs h bs = drain rd hs 0 bs'" unfolding unfold1 if_not_P [OF start] if_not_P [OF go] if_P [OF 1] ..
        have two: "drain rd hs h (bs @ ys) = drain rd hs 0 (bs' @ ys)"
          unfolding unfold2 if_not_P [OF start2] if_not_P [OF go2] if_P [OF 1] ..
        show ?thesis unfolding one two IH(1) [OF go 1] ..
      next
        case 2
        then have "h' \<noteq> 0" by simp
        note ne = if_not_P [OF this]
        have one: "drain rd hs h bs = ([], None)" unfolding unfold1 if_not_P [OF start] if_not_P [OF go] ne if_P [OF 2] ..
        have two: "drain rd hs h (bs @ ys) = ([], None)"
          unfolding unfold2 if_not_P [OF start2] if_not_P [OF go2] ne if_P [OF 2] ..
        show ?thesis unfolding one two by simp
      next
        case 3
        have len: "nat h' \<le> length bs'" using go by auto
        let ?c = "if rd then drop (nat h') bs' else bs'"
        have c2: "(if rd then drop (nat h') (bs' @ ys) else bs' @ ys) = ?c @ ys" "take (nat h') (bs' @ ys) = take (nat h') bs'"
          using len by auto
        have one: "drain rd hs h bs = ((if rd then [take (nat h') bs'] else []) @ fst (drain rd hs 0 ?c), snd (drain rd hs 0 ?c))"
          unfolding unfold1 if_not_P [OF start] if_not_P [OF go] if_not_P [OF 3(1)] if_not_P [OF 3(2)] ..
        have two: "drain rd hs h (bs @ ys) =
            ((if rd then [take (nat h') bs'] else []) @ fst (drain rd hs 0 (?c @ ys)), snd (drain rd hs 0 (?c @ ys)))"
          unfolding unfold2 c2 if_not_P [OF start2] if_not_P [OF go2] if_not_P [OF 3(1)] if_not_P [OF 3(2)] ..
        show ?thesis unfolding one two IH(2) [OF go 3] by (auto simp: prod_eq_iff split: option.split)
      qed
    qed
  qed
qed

section \<open>Frames\<close>

definition frame :: "nat \<Rightarrow> bytes \<Rightarrow> bytes" where
  "frame hs p = (if hs = 2 then [of_nat (length p div 256), of_nat (length p)] else be32_bytes (of_nat (length p))) @ p"

definition packet_ok :: "nat \<Rightarrow> bytes \<Rightarrow> bool" where
  "packet_ok hs p \<longleftrightarrow> length p < (if hs = 2 then 0x10000 else 0x1000000)"

lemma frame_header:
  assumes "hs \<in> {2, 4}" "packet_ok hs p"
  shows "header_value hs (take hs (frame hs p @ bs)) = int (length p)" "drop hs (frame hs p @ bs) = p @ bs"
    "hs \<le> length (frame hs p @ bs)"
proof -
  have two: "unat (of_nat (length p div 256) :: u8) * 256 + unat (of_nat (length p) :: u8) = length p"
    if "length p < 0x10000"
    using that by (simp add: unat_of_nat)
  have four: "sint (of_nat (length p) :: u32) = int (length p)" if "length p < 0x1000000"
    using that by (simp add: signed_of_nat signed_take_bit_int_eq_self)
  consider "hs = 2" "length p < 0x10000" | "hs = 4" "length p < 0x1000000" using assms by (auto simp: packet_ok_def)
  note cases = this
  show "header_value hs (take hs (frame hs p @ bs)) = int (length p)"
  proof (cases rule: cases)
    case 1
    have "uint (of_nat (length p div 256) :: u8) * 256 + uint (of_nat (length p) :: u8) = int (length p)"
      using arg_cong [OF two [OF 1(2)], of int] by simp
    then show ?thesis using 1(1) unfolding header_value_def frame_def by simp
  next
    case 2
    have "take 4 (frame 4 p @ bs) = be32_bytes (of_nat (length p))" by (simp add: frame_def)
    then show ?thesis using 2 four unfolding header_value_def by (simp add: be32_bytes_def)
  qed
  show "drop hs (frame hs p @ bs) = p @ bs" "hs \<le> length (frame hs p @ bs)"
    using assms by (auto simp: frame_def)
qed

lemma drain_frame:
  assumes "hs \<in> {2, 4}" "packet_ok hs p"
  shows "drain True hs 0 (frame hs p @ bs) =
    ((if p = [] then [] else [p]) @ fst (drain True hs 0 bs), snd (drain True hs 0 bs))"
proof -
  note f = frame_header [OF assms, of bs]
  have "\<not> (0x1000000 \<le> int (length p))" using assms(2) by (auto simp: packet_ok_def split: if_splits)
  then show ?thesis using f assms(1) by (subst drain.simps) (auto simp: Let_def)
qed

lemma drain_frames:
  assumes "hs \<in> {2, 4}" "\<forall>p \<in> set ps. packet_ok hs p" "length rest < hs"
  shows "drain True hs 0 (concat (map (frame hs) ps) @ rest) = (filter (\<lambda>p. p \<noteq> []) ps, Some (0, rest))"
  using assms by (induction ps) (simp_all add: drain_0_short drain_frame)

section \<open>The loop computes the stream\<close>

text \<open>The message that carries a packet, the calls that end an oversized one, and what the buffer holds then.\<close>

definition has_reader :: "gate \<Rightarrow> connection \<Rightarrow> bool" where
  "has_reader g c \<longleftrightarrow> gt_broker g \<noteq> 0 \<or> cn_agent c \<noteq> 0 \<or> gt_watchdog g \<noteq> 0"

definition packet_call :: "gate \<Rightarrow> connection \<Rightarrow> bytes \<Rightarrow> call" where
  "packet_call g c p =
     (if gt_broker g \<noteq> 0 then Send 0 (gt_broker g) (gt_client_tag g OR DONTCOPY) p
      else if cn_agent c \<noteq> 0 then Send (cn_client c) (cn_agent c) (gt_client_tag g OR DONTCOPY) p
      else Send 0 (gt_watchdog g) (PTYPE_TEXT OR DONTCOPY) (text_bytes (fmt_d (cn_id c) @ '' data '') @ p))"

definition oversized_calls :: "int \<Rightarrow> (int \<times> bytes) option \<Rightarrow> call list" where
  "oversized_calls fd r = (if r = None then [SocketClose fd, Error ''Recv socket message > 16M''] else [])"

definition buffer_holds :: "(int \<times> bytes) option \<Rightarrow> databuffer \<Rightarrow> bool" where
  "buffer_holds r db \<longleftrightarrow> db_wf db \<and> (case r of None \<Rightarrow> db = databuffer_zero | Some (h, bs) \<Rightarrow> db_header db = h \<and> db_bytes db = bs)"

text \<open>The gate after it has looked at the buffer of a connection.\<close>

definition received :: "nat \<Rightarrow> databuffer \<Rightarrow> messagepool \<Rightarrow> call list \<Rightarrow> gate \<Rightarrow> gate" where
  "received i db mp cs g = g\<lparr>gt_conn := (gt_conn g)[i := (gt_conn g ! i)\<lparr>cn_buffer := db\<rparr>], gt_mp := mp, gt_calls := gt_calls g @ cs\<rparr>"

lemma received_simps [simp]:
  "gt_listen_id (received i db mp cs g) = gt_listen_id g" "gt_watchdog (received i db mp cs g) = gt_watchdog g"
  "gt_broker (received i db mp cs g) = gt_broker g" "gt_client_tag (received i db mp cs g) = gt_client_tag g"
  "gt_header_size (received i db mp cs g) = gt_header_size g" "gt_hash (received i db mp cs g) = gt_hash g"
  "gt_mp (received i db mp cs g) = mp" "gt_calls (received i db mp cs g) = gt_calls g @ cs"
  "length (gt_conn (received i db mp cs g)) = length (gt_conn g)"
  "gt_conn (received i db mp cs g) = (gt_conn g)[i := (gt_conn g ! i)\<lparr>cn_buffer := db\<rparr>]"
  by (simp_all add: received_def)

lemma received_received [simp]:
  "i < length (gt_conn g) \<Longrightarrow> received i db' mp' cs' (received i db mp cs g) = received i db' mp' (cs @ cs') g"
  by (simp add: received_def)

lemma set_buffer_received [simp]:
  "i < length (gt_conn g) \<Longrightarrow> set_buffer i (gt_conn g ! i) r g = received i (fst r) (snd r) [] g"
  by (simp add: set_buffer_def received_def)

lemma set_buffer_twice [simp]:
  "i < length (gt_conn g) \<Longrightarrow> set_buffer i ((gt_conn g ! i)\<lparr>cn_buffer := db'\<rparr>) r (received i db mp cs g) = received i (fst r) (snd r) cs g"
  using received_received [of i g "fst r" "snd r" "[]" db mp cs]
    set_buffer_received [of i "received i db mp cs g" r] by (simp add: set_buffer_def received_def)

lemma emit_received [simp]: "emit c (received i db mp cs g) = received i db mp (cs @ [c]) g"
  by (simp add: emit_def received_def)

lemma forward_ok:
  assumes "i < length (gt_conn g)" "c = gt_conn g ! i" "db_wf (cn_buffer c)" "0 < n" "n \<le> length (db_bytes (cn_buffer c))"
  shows "\<exists>db mp. forward_packet i c n g = Some (received i db mp
      (if has_reader g c then [packet_call g c (take n (db_bytes (cn_buffer c)))] else []) g) \<and> db_wf db \<and>
    db_bytes db = (if has_reader g c then drop n (db_bytes (cn_buffer c)) else db_bytes (cn_buffer c))"
proof (cases "has_reader g c")
  case True
  obtain db mp where "databuffer_read n (cn_buffer c) (gt_mp g) = Some (take n (db_bytes (cn_buffer c)), db, mp)" "db_wf db"
    "db_bytes db = drop n (db_bytes (cn_buffer c))"
    using databuffer_read_ok [OF assms(3-5)] by blast
  then show ?thesis using True assms(1,2) by (auto simp: forward_packet_def has_reader_def packet_call_def)
next
  case False
  then show ?thesis using assms(1-3)
    by (intro exI [of _ "cn_buffer c"] exI [of _ "gt_mp g"]) (auto simp: forward_packet_def has_reader_def received_def)
qed

lemma reader_received [simp]:
  "has_reader (received i db mp cs g) (c\<lparr>cn_buffer := db'\<rparr>) = has_reader g c"
  "packet_call (received i db mp cs g) (c\<lparr>cn_buffer := db'\<rparr>) = packet_call g c"
  by (auto simp: has_reader_def packet_call_def)

lemma dispatch_loop_ok:
  assumes "i < length (gt_conn g)" "c = gt_conn g ! i" "db_wf (cn_buffer c)" "rd = has_reader g c" "hs = gt_header_size g" "0 < hs"
    "h = db_header (cn_buffer c)" "bs = db_bytes (cn_buffer c)" "D = drain rd hs h bs"
  shows "\<exists>db mp. dispatch_loop i fd g =
      Some (received i db mp (map (packet_call g c) (fst D) @ oversized_calls fd (snd D)) g) \<and> buffer_holds (snd D) db"
  using assms
proof (induction rd hs h bs arbitrary: g c D rule: drain.induct)
  case (1 rd hs h bs)
  note i = "1.prems"(1) and c = "1.prems"(2) and wfc = "1.prems"(3) and hs = "1.prems"(6) and D = "1.prems"(9)
  note eqs = "1.prems"(4,5,7,8)
  define h' where "h' = (if h = 0 then header_value hs (take hs bs) else h)"
  define bs' where "bs' = (if h = 0 then drop hs bs else bs)"
  obtain db' mp' where rh: "databuffer_readheader hs (cn_buffer c) (gt_mp g) =
      (if h = 0 \<and> length bs < hs then Some (- 1, db', mp')
       else Some (if int (length (db_bytes db')) < db_header db' then - 1 else db_header db', db', mp'))"
    "db_wf db'"
    "db_header db' = (if h = 0 \<and> hs \<le> length bs then header_value hs (take hs bs) else h)"
    "db_bytes db' = (if h = 0 \<and> hs \<le> length bs then drop hs bs else bs)"
    using databuffer_readheader_ok [OF wfc hs, of "gt_mp g", folded eqs] by (elim exE conjE)
  let ?g = "received i db' mp' [] g"
  have i': "array_get (gt_conn g) i = Some c" using i c by simp
  have sb: "set_buffer i c (db', mp') g = ?g" using set_buffer_received [OF i] c by simp
  note loop = dispatch_loop.simps [of i fd g, unfolded i' bind.bind_lunit Let_def, folded eqs]
  show ?case
  proof (cases "h = 0 \<and> (length bs < hs \<or> hs = 0)")
    case True
    then have "D = ([], Some (0, bs))" unfolding D by (subst drain.simps) simp
    moreover have "dispatch_loop i fd g = Some ?g" using True hs rh(1) sb loop by auto
    ultimately show ?thesis using rh True hs by (auto simp: buffer_holds_def oversized_calls_def)
  next
    case start: False
    have h': "db_header db' = h'" and bs': "db_bytes db' = bs'"
      using rh(3,4) start hs by (auto simp: h'_def bs'_def)
    note unfold1 = drain.simps [of "rd" hs h bs, unfolded Let_def, folded h'_def bs'_def]
    have rh': "databuffer_readheader hs (cn_buffer c) (gt_mp g) = Some (if int (length bs') < h' then - 1 else h', db', mp')"
      using rh(1) start hs unfolding h' bs' by auto
    show ?thesis
    proof (cases "h' < 0 \<or> int (length bs') < h'")
      case wait: True
      have "D = ([], Some (h', bs'))" unfolding D unfold1 if_not_P [OF start] if_P [OF wait] ..
      moreover have "dispatch_loop i fd g = Some ?g" using loop rh' sb wait by auto
      ultimately show ?thesis using rh(2) h' bs' by (auto simp: buffer_holds_def oversized_calls_def)
    next
      case go: False
      then have rh'': "databuffer_readheader hs (cn_buffer c) (gt_mp g) = Some (h', db', mp')" using rh' by auto
      consider "h' = 0" | "h' \<ge> 0x1000000" | "h' \<noteq> 0" "\<not> h' \<ge> 0x1000000" by linarith
      then show ?thesis
      proof cases
        case 1
        let ?c = "gt_conn ?g ! i"
        have cg: "?c = c\<lparr>cn_buffer := db'\<rparr>" using i c by simp
        have loop1: "dispatch_loop i fd g = dispatch_loop i fd ?g" using loop rh'' sb 1 by simp
        have D': "D = drain (rd) hs 0 bs'"
          unfolding D unfold1 if_not_P [OF start] if_not_P [OF go] if_P [OF 1] ..
        have "\<exists>db mp. dispatch_loop i fd ?g = Some (received i db mp (map (packet_call ?g ?c) (fst D) @ oversized_calls fd (snd D)) ?g)
            \<and> buffer_holds (snd D) db"
          by (rule "1.IH"(1) [OF start h'_def bs'_def go 1]) (use i rh(2) hs h' bs' 1 D' cg eqs in simp_all)
        then show ?thesis unfolding loop1 using i c by simp
      next
        case 2
        then have "h' \<noteq> 0" by simp
        have "D = ([], None)" unfolding D unfold1 if_not_P [OF start] if_not_P [OF go] if_not_P [OF \<open>h' \<noteq> 0\<close>] if_P [OF 2] ..
        moreover have "dispatch_loop i fd g = Some (received i databuffer_zero (mp'\<lparr>mp_freelist := mp_freelist mp' + length (db_msgs db')\<rparr>)
            (oversized_calls fd None) g)"
          using loop rh'' sb 2 i c by (auto simp: databuffer_clear_def oversized_calls_def set_buffer_def received_def emit_def)
        ultimately show ?thesis by (auto simp: buffer_holds_def)
      next
        case 3
        have pos: "0 < h'" "0 < nat h'" "nat h' \<le> length bs'" using go 3 by auto
        let ?rest = "if rd then drop (nat h') bs' else bs'"
        let ?cs = "if rd then [packet_call g c (take (nat h') bs')] else []"
        have D': "D = ((if rd then [take (nat h') bs'] else []) @ fst (drain rd hs 0 ?rest), snd (drain rd hs 0 ?rest))"
          unfolding D unfold1 if_not_P [OF start] if_not_P [OF go] if_not_P [OF 3(1)] if_not_P [OF 3(2)] ..
        let ?c = "gt_conn ?g ! i"
        have cg: "?c = c\<lparr>cn_buffer := db'\<rparr>" using i c by simp
        obtain db2 mp2 where f: "forward_packet i ?c (nat h') ?g = Some (received i db2 mp2 ?cs ?g)" "db_wf db2" "db_bytes db2 = ?rest"
        proof -
          have "nat h' \<le> length (db_bytes (cn_buffer (c\<lparr>cn_buffer := db'\<rparr>)))" "db_wf (cn_buffer (c\<lparr>cn_buffer := db'\<rparr>))"
            "i < length (gt_conn ?g)" using pos(3) bs' rh(2) i by simp_all
          note f = forward_ok [OF this(3) cg [symmetric] this(2) pos(2) this(1)]
          moreover have "db_bytes (cn_buffer (c\<lparr>cn_buffer := db'\<rparr>)) = bs'" using bs' by simp
          ultimately show thesis using that unfolding reader_received cg eqs(1) [symmetric] by (simp only:) blast
        qed
        let ?g2 = "received i (db2\<lparr>db_header := 0\<rparr>) mp2 ?cs g"
        have c2: "gt_conn ?g2 ! i = c\<lparr>cn_buffer := db2\<lparr>db_header := 0\<rparr>\<rparr>" using i c by simp
        have loop2: "dispatch_loop i fd g = dispatch_loop i fd ?g2"
          using loop rh'' sb 3 pos(1) f(1) i c
          by (simp add: cg databuffer_reset_def)
        define E where "E = drain rd hs 0 ?rest"
        have "\<exists>db mp. dispatch_loop i fd ?g2 = Some (received i db mp (map (packet_call ?g2 (gt_conn ?g2 ! i)) (fst E) @
            oversized_calls fd (snd E)) ?g2) \<and> buffer_holds (snd E) db"
          by (rule "1.IH"(2) [OF start h'_def bs'_def go 3]) (use i f(2,3) hs E_def c2 eqs in simp_all)
        then obtain db mp where E: "dispatch_loop i fd ?g2 = Some (received i db mp (map (packet_call ?g2 (gt_conn ?g2 ! i)) (fst E) @
            oversized_calls fd (snd E)) ?g2)" "buffer_holds (snd E) db" by blast
        show ?thesis unfolding loop2 D' E_def [symmetric] E(1)
          using i c E(2) by (intro exI [of _ db] exI [of _ mp]) auto
      qed
    qed
  qed
qed

lemma gate_dispatch_message_ok:
  fixes data :: bytes
  assumes i: "i < length (gt_conn g)" and wf: "db_wf (cn_buffer (gt_conn g ! i))" and hs: "0 < gt_header_size g"
  defines "c \<equiv> gt_conn g ! i"
  defines "D \<equiv> drain (has_reader g c) (gt_header_size g) (db_header (cn_buffer c)) (db_bytes (cn_buffer c) @ data)"
  shows "\<exists>db mp. gate_dispatch_message i fd data g =
      Some (received i db mp (map (packet_call g c) (fst D) @ oversized_calls fd (snd D)) g) \<and> buffer_holds (snd D) db"
proof -
  obtain db mp where push: "databuffer_push data (cn_buffer c) (gt_mp g) = (db, mp)" by fastforce
  note p = databuffer_push_ok [OF wf, of data "gt_mp g", folded c_def, unfolded push fst_conv]
  have "gate_dispatch_message i fd data g = dispatch_loop i fd (received i db mp [] g)"
    using i push by (simp add: gate_dispatch_message_def c_def)
  with dispatch_loop_ok [OF _ refl _ refl refl _ refl refl refl, where i = i and g = "received i db mp [] g" and fd = fd] show ?thesis
    using i hs p by (simp add: D_def c_def)
qed

end
