(* ===== verification/GateInvariant.thy ===== *)
theory GateInvariant
  imports GateStream
begin

text \<open>
  The table of connections, the invariant that every message to the gate keeps, and the properties
  of the gate service.
\<close>

section \<open>The table of socket ids is a map\<close>

definition hashid_answer :: "nat option \<Rightarrow> int" where
  "hashid_answer r = (case r of None \<Rightarrow> - 1 | Some i \<Rightarrow> int i)"

lemma hashid_map_range:
  assumes "hashid_wf hi" "hashid_map hi fd = Some i"
  shows "i < hi_cap hi"
  using assms hashid_map_Some [OF hashid_wfD(2) [OF assms(1)]] by (auto simp: used_def)

lemma hashid_map_inject:
  assumes "hashid_wf hi" "hashid_map hi fd = Some i" "hashid_map hi fd' = Some i"
  shows "fd = fd'"
  using assms hashid_map_Some [OF hashid_wfD(2) [OF assms(1)]] by auto

lemma lookup_answer: "hashid_wf hi \<Longrightarrow> hashid_lookup hi fd = Some (hashid_answer (hashid_map hi fd))"
  by (simp add: hashid_lookup_ok hashid_answer_def)

lemma answer_simps [simp]:
  "hashid_answer None = - 1" "hashid_answer (Some i) = int i" "0 \<le> hashid_answer r \<longleftrightarrow> r \<noteq> None"
  "hashid_answer r < 0 \<longleftrightarrow> r = None"
  by (auto simp: hashid_answer_def split: option.split)

section \<open>The invariant\<close>

text \<open>
  The table and the array belong together: the place of a socket id holds the connection with this id, and
  the other places are unused, with nothing left of an earlier connection.
\<close>

definition tables_wf :: "hashid \<Rightarrow> connection list \<Rightarrow> bool" where
  "tables_wf hi cs \<longleftrightarrow> hashid_wf hi \<and> length cs = hi_cap hi \<and>
     (\<forall>fd i. hashid_map hi fd = Some i \<longrightarrow> 0 \<le> fd \<and> cn_id (cs ! i) = fd \<and> db_wf (cn_buffer (cs ! i))) \<and>
     (\<forall>i < length cs. i \<notin> ran (hashid_map hi) \<longrightarrow> cs ! i = connection_unused)"

definition gate_wf :: "gate \<Rightarrow> bool" where
  "gate_wf g \<longleftrightarrow> tables_wf (gt_hash g) (gt_conn g) \<and> gt_header_size g \<in> {2, 4}"

lemma tables_wfD:
  assumes "tables_wf hi cs"
  shows "hashid_wf hi" "length cs = hi_cap hi"
    "hashid_map hi fd = Some i \<Longrightarrow> i < length cs" "hashid_map hi fd = Some i \<Longrightarrow> 0 \<le> fd"
    "hashid_map hi fd = Some i \<Longrightarrow> cn_id (cs ! i) = fd" "hashid_map hi fd = Some i \<Longrightarrow> db_wf (cn_buffer (cs ! i))"
    "i < length cs \<Longrightarrow> i \<notin> ran (hashid_map hi) \<Longrightarrow> cs ! i = connection_unused"
  using assms hashid_map_range [of hi fd i] by (auto simp: tables_wf_def)

lemma tables_wf_update:
  assumes wf: "tables_wf hi cs" and i: "hashid_map hi fd = Some i" and "cn_id c = fd" "db_wf (cn_buffer c)"
  shows "tables_wf hi (cs[i := c])"
proof -
  have "hashid_wf hi" using tables_wfD(1) [OF wf] .
  note inj = hashid_map_inject [OF this]
  have "0 \<le> fd' \<and> cn_id (cs[i := c] ! j) = fd' \<and> db_wf (cn_buffer (cs[i := c] ! j))" if "hashid_map hi fd' = Some j" for fd' j
    using tables_wfD(3-6) [OF wf that] inj [OF i] that assms(3,4) by (cases "i = j") auto
  moreover have "cs[i := c] ! j = connection_unused" if "j < length cs" "j \<notin> ran (hashid_map hi)" for j
  proof -
    have "j \<noteq> i" using i that(2) by (auto simp: ran_def)
    then show ?thesis using tables_wfD(7) [OF wf that] by simp
  qed
  ultimately show ?thesis using wf unfolding tables_wf_def by simp
qed


lemma tables_wf_insert:
  assumes wf: "tables_wf hi cs" and fd: "0 \<le> fd" "hashid_map hi fd = None" and i: "i \<notin> ran (hashid_map hi)" "i < hi_cap hi"
    and "hashid_wf hi'" "hashid_map hi' = (hashid_map hi)(fd \<mapsto> i)" "hi_cap hi' = hi_cap hi"
  shows "tables_wf hi' (cs[i := (cs ! i)\<lparr>cn_id := fd, cn_remote_name := name\<rparr>])"
proof -
  let ?c = "(cs ! i)\<lparr>cn_id := fd, cn_remote_name := name\<rparr>"
  have unused: "cs ! i = connection_unused" "i < length cs" using tables_wfD(2,7) [OF wf] i by simp_all
  then have "db_wf (cn_buffer ?c)" by (simp add: connection_unused_def)
  have "0 \<le> fd' \<and> cn_id (cs[i := ?c] ! j) = fd' \<and> db_wf (cn_buffer (cs[i := ?c] ! j))"
    if "hashid_map hi' fd' = Some j" for fd' j
  proof (cases "fd' = fd")
    case True
    then show ?thesis using that assms(7) fd(1) unused(2) \<open>db_wf (cn_buffer ?c)\<close> by simp
  next
    case False
    then have "hashid_map hi fd' = Some j" using that assms(7) by simp
    moreover from this have "j \<noteq> i" using i(1) by (auto simp: ran_def)
    ultimately show ?thesis using tables_wfD(4-6) [OF wf] by simp
  qed
  moreover have "ran (hashid_map hi') = insert i (ran (hashid_map hi))" using assms(7) fd(2) by simp
  ultimately show ?thesis using wf assms(6,8) unfolding tables_wf_def by (auto simp: nth_list_update)
qed

lemma gate_wf_calls [simp]:
  "gate_wf (emit c g) = gate_wf g" "gate_wf (report t g) = gate_wf g" "gate_wf (g\<lparr>gt_listen_id := l\<rparr>) = gate_wf g"
  "gate_wf (g\<lparr>gt_broker := b\<rparr>) = gate_wf g" "gate_wf (g\<lparr>gt_mp := mp\<rparr>) = gate_wf g"
  by (simp_all add: gate_wf_def emit_def report_def)

lemma emit_simps [simp]:
  "gt_hash (emit c g) = gt_hash g" "gt_conn (emit c g) = gt_conn g" "gt_header_size (emit c g) = gt_header_size g"
  "gt_listen_id (emit c g) = gt_listen_id g" "gt_calls (emit c g) = gt_calls g @ [c]"
  by (simp_all add: emit_def)


lemma gate_dispatch_message_wf:
  assumes wf: "gate_wf g" and i: "hashid_map (gt_hash g) fd = Some i"
  shows "\<exists>g'. gate_dispatch_message i fd data g = Some g' \<and> gate_wf g'"
proof -
  have t: "tables_wf (gt_hash g) (gt_conn g)" and hs: "0 < gt_header_size g" using wf by (auto simp: gate_wf_def)
  obtain db mp cs r where g': "gate_dispatch_message i fd data g = Some (received i db mp cs g)" "buffer_holds r db"
    using gate_dispatch_message_ok [OF tables_wfD(3,6) [OF t i] hs] by blast
  have "tables_wf (gt_hash g) ((gt_conn g)[i := (gt_conn g ! i)\<lparr>cn_buffer := db\<rparr>])"
    using tables_wfD(5) [OF t i] g'(2) by (intro tables_wf_update [OF t i]) (simp_all add: buffer_holds_def)
  then show ?thesis using g' wf by (simp add: gate_wf_def)
qed

section \<open>Control commands are safe\<close>







section \<open>Every message keeps the invariant\<close>

text \<open>
  What the gate relies on: a command is a text without NUL, and the socket server reports a new connection
  with an id that is not negative and not in use.  \<open>accept_fits\<close> is what the code relies on beyond that, and what need not hold:
  the connection was made at the socket that the gate listens on, and its id is not so large that the search in the table
  overflows.
\<close>

definition gate_message_ok :: "gate \<Rightarrow> gate_message \<Rightarrow> bool" where
  "gate_message_ok g m = (case m of
       Text s \<Rightarrow> NUL \<notin> set s
     | Socket sm \<Rightarrow> (if ssm_type sm = ACCEPT
         then 0 \<le> ssm_ud sm \<and> hashid_map (gt_hash g) (ssm_ud sm) = None else True)
     | _ \<Rightarrow> True)"

definition accept_fits :: "gate \<Rightarrow> skynet_socket_message \<Rightarrow> bool" where
  "accept_fits g m \<longleftrightarrow> ssm_id m = gt_listen_id g \<and> (hashid_full (gt_hash g) \<or> ssm_ud m + int (hi_cap (gt_hash g)) \<le> 2 ^ 31)"


lemma accept_clean:
  assumes wf: "gate_wf g" and m: "ssm_type m = ACCEPT" "gate_message_ok g (Socket m)" and id: "ssm_id m = gt_listen_id g"
    and room: "\<not> hashid_full (gt_hash g)" and found: "find_free (gt_hash g) (ssm_ud m) 0 (hi_cap (gt_hash g)) \<noteq> None"
  shows "\<exists>g' i name. dispatch_socket_message m g = Some g' \<and> gate_wf g' \<and> hashid_map (gt_hash g) (ssm_ud m) = None \<and>
    hashid_map (gt_hash g') = (hashid_map (gt_hash g))(ssm_ud m \<mapsto> i) \<and> i < length (gt_conn g) \<and>
    gt_conn g' = (gt_conn g)[i := connection_unused\<lparr>cn_id := ssm_ud m, cn_remote_name := name\<rparr>] \<and>
    gt_watchdog g' = gt_watchdog g \<and> gt_broker g' = gt_broker g \<and> gt_header_size g' = gt_header_size g"
proof -
  have t: "tables_wf (gt_hash g) (gt_conn g)" using wf by (simp add: gate_wf_def)
  have ud: "ssm_id m = gt_listen_id g" "0 \<le> ssm_ud m" "hashid_map (gt_hash g) (ssm_ud m) = None"
    using m id by (simp_all add: gate_message_ok_def)
  obtain i hi where ins: "hashid_insert (ssm_ud m) (gt_hash g) = Some (int i, hi)" "i < hi_cap (gt_hash g)"
    "i \<notin> ran (hashid_map (gt_hash g))" "hashid_wf hi" "hashid_map hi = (hashid_map (gt_hash g))(ssm_ud m \<mapsto> i)"
    "hi_cap hi = hi_cap (gt_hash g)"
    using hashid_insert_found [OF tables_wfD(1) [OF t] ud(3) _ ud(2)] found by blast
  define name where "name = takeWhile (\<lambda>c. c \<noteq> NUL) (take 31 (ssm_extra m))"
  have i: "i < length (gt_conn g)" using ins(2) tables_wfD(2) [OF t] by simp
  then have unused: "gt_conn g ! i = connection_unused" using tables_wfD(7) [OF t] ins(3) by simp
  define g1 where "g1 = g\<lparr>gt_hash := hi, gt_conn := (gt_conn g)[i := connection_unused\<lparr>cn_id := ssm_ud m, cn_remote_name := name\<rparr>]\<rparr>"
  have "gate_wf g1" using tables_wf_insert [OF t ud(2,3) ins(3,2,4-6)] wf by (simp add: gate_wf_def g1_def unused)
  let ?g = "emit (Error (''socket open: '' @ fmt_x (word_of_int (ssm_ud m))))
    (report (fmt_d (ssm_ud m) @ '' open '' @ fmt_d (ssm_ud m) @ '' '' @ name @ '':0'') g1)"
  have "dispatch_socket_message m g = Some ?g"
    using m(1) ud(1) room ins(1) i by (simp add: dispatch_socket_message_def Let_def name_def g1_def unused)
  moreover have "gt_hash ?g = hi" "gt_conn ?g = (gt_conn g)[i := connection_unused\<lparr>cn_id := ssm_ud m, cn_remote_name := name\<rparr>]"
    "gt_watchdog ?g = gt_watchdog g" "gt_broker ?g = gt_broker g" "gt_header_size ?g = gt_header_size g"
    by (simp_all add: g1_def report_def emit_def)
  ultimately show ?thesis using \<open>gate_wf g1\<close> i ins(5) ud(3) by (intro exI [of _ ?g] exI [of _ i] exI [of _ name]) simp
qed

lemma accept_fits_found:
  assumes "gate_wf g" "ssm_type m = ACCEPT" "gate_message_ok g (Socket m)" "accept_fits g m" "\<not> hashid_full (gt_hash g)"
  shows "ssm_id m = gt_listen_id g" "find_free (gt_hash g) (ssm_ud m) 0 (hi_cap (gt_hash g)) \<noteq> None"
  using assms find_free_ok [of "gt_hash g" "ssm_ud m"] by (auto simp: accept_fits_def gate_message_ok_def gate_wf_def tables_wf_def)





section \<open>Properties\<close>

text \<open>A run of the callback over a sequence of messages.\<close>

fun cb_run :: "(string \<Rightarrow> u32) \<Rightarrow> gate_message list \<Rightarrow> gate \<Rightarrow> gate option" where
  "cb_run queryname [] g = Some g"
| "cb_run queryname (m # ms) g = Option.bind (cb queryname m g) (\<lambda>(_, g'). cb_run queryname ms g')"

definition socket_data :: "int \<Rightarrow> bytes \<Rightarrow> gate_message" where
  "socket_data fd bs = Socket \<lparr>ssm_type = DATA, ssm_id = fd, ssm_ud = int (length bs), ssm_buffer = bs, ssm_extra = []\<rparr>"

lemma cb_data:
  assumes wf: "gate_wf g" and i: "hashid_map (gt_hash g) fd = Some i"
  shows "cb queryname (socket_data fd bs) g = map_option (\<lambda>g'. (0, g')) (gate_dispatch_message i fd bs g)"
  using lookup_answer [of "gt_hash g" fd] i wf
  by (simp add: cb_def socket_data_def dispatch_socket_message_def gate_wf_def tables_wf_def)

lemma run_drains:
  assumes "gate_wf g" "hashid_map (gt_hash g) fd = Some i" "c = gt_conn g ! i"
    "D = drain (has_reader g c) (gt_header_size g) (db_header (cn_buffer c)) (db_bytes (cn_buffer c) @ concat bss)"
    "bss \<noteq> []" "snd D \<noteq> None"
  shows "\<exists>db mp. cb_run queryname (map (socket_data fd) bss) g = Some (received i db mp (map (packet_call g c) (fst D)) g) \<and>
    gate_wf (received i db mp (map (packet_call g c) (fst D)) g) \<and> buffer_holds (snd D) db"
  using assms
proof (induction bss arbitrary: g c D)
  case (Cons bs bss)
  note wf = Cons.prems(1) and i = Cons.prems(2) and c = Cons.prems(3) and D = Cons.prems(4)
  let ?db = "cn_buffer c"
  have t: "tables_wf (gt_hash g) (gt_conn g)" and hs: "0 < gt_header_size g" using wf by (auto simp: gate_wf_def)
  note len = tables_wfD(3) [OF t i]
  define E where "E = drain (has_reader g c) (gt_header_size g) (db_header ?db) (db_bytes ?db @ bs)"
  obtain db mp where dm: "gate_dispatch_message i fd bs g = Some (received i db mp (map (packet_call g c) (fst E) @ oversized_calls fd (snd E)) g)"
    "buffer_holds (snd E) db"
    using gate_dispatch_message_ok [OF tables_wfD(3,6) [OF t i] hs, where data = bs and fd = fd] unfolding c [symmetric] E_def [symmetric] by blast
  have app: "D = (case snd E of None \<Rightarrow> E
      | Some (h', r) \<Rightarrow> (fst E @ fst (drain (has_reader g c) (gt_header_size g) h' (r @ concat bss)),
          snd (drain (has_reader g c) (gt_header_size g) h' (r @ concat bss))))"
    unfolding D E_def using drain_append [of _ _ _ "db_bytes ?db @ bs" "concat bss"] by simp
  have "snd E \<noteq> None" using app Cons.prems(6) by (auto split: option.splits)
  then obtain h r where E: "snd E = Some (h, r)" by auto
  let ?g = "received i db mp (map (packet_call g c) (fst E)) g"
  have dm': "gate_dispatch_message i fd bs g = Some ?g" using dm(1) E by (simp add: oversized_calls_def)
  have wf': "gate_wf ?g" using gate_dispatch_message_wf [OF wf i, where data = bs] dm' by simp
  have db: "db_header db = h" "db_bytes db = r" using dm(2) E by (simp_all add: buffer_holds_def)
  have one: "cb_run queryname (map (socket_data fd) (bs # bss)) g = cb_run queryname (map (socket_data fd) bss) ?g"
    using cb_data [OF wf i] dm' by simp
  show ?case
  proof (cases "bss = []")
    case True
    have "drain (has_reader g c) (gt_header_size g) h r = ([], Some (h, r))"
      using drain_append [of "has_reader g c" "gt_header_size g" "db_header ?db" "db_bytes ?db @ bs" "[]"] E
      by (cases "drain (has_reader g c) (gt_header_size g) h r") (simp add: E_def prod_eq_iff)
    then have "D = E" using app E True by (simp add: prod_eq_iff)
    then show ?thesis using one True wf' dm(2) by auto
  next
    case False
    let ?c = "gt_conn ?g ! i"
    have cg: "?c = c\<lparr>cn_buffer := db\<rparr>" using len c by simp
    define F where "F = drain (has_reader g c) (gt_header_size g) h (r @ concat bss)"
    have D': "D = (fst E @ fst F, snd F)" using app E by (simp add: F_def)
    have "F = drain (has_reader ?g ?c) (gt_header_size ?g) (db_header (cn_buffer ?c)) (db_bytes (cn_buffer ?c) @ concat bss)"
      unfolding cg using db by (simp add: F_def)
    from Cons.IH [OF wf' _ refl this False] i Cons.prems(6) D'
    obtain db' mp' where run: "cb_run queryname (map (socket_data fd) bss) ?g = Some (received i db' mp' (map (packet_call ?g ?c) (fst F)) ?g)"
      "gate_wf (received i db' mp' (map (packet_call ?g ?c) (fst F)) ?g)" "buffer_holds (snd F) db'" by auto
    then show ?thesis unfolding one D' using len unfolding cg by auto
  qed
qed simp

text \<open>A gate that has just been initialised, and one that has accepted a connection.\<close>

lemma hashid_init_cap [simp]: "hi_cap (hashid_init limit) = limit"
  by (simp add: hashid_init_def Let_def)

lemma start_listen_tables:
  "gt_hash (snd (start_listen listen a g)) = gt_hash g" "gt_conn (snd (start_listen listen a g)) = gt_conn g"
  "gt_header_size (snd (start_listen listen a g)) = gt_header_size g"
  by (simp_all add: start_listen_def Let_def split_beta emit_def split: option.splits)

lemma gate_init_ok:
  assumes "fst (gate_init queryname listen parm g) = 0"
  shows "gate_wf (snd (gate_init queryname listen parm g))"
    "hashid_map (gt_hash (snd (gate_init queryname listen parm g))) = Map.empty"
proof -
  obtain p header watchdog a tag limit where parm: "parm = Some p" "scan_parm p = Some (header, watchdog, a, tag, limit)"
    using assms by (auto simp: gate_init_def split: option.splits)
  let ?wd = "if hd watchdog = CHR ''!'' then 0 else queryname watchdog"
  define g' where "g' = emit Callback (g\<lparr>gt_watchdog := ?wd, gt_hash := hashid_init (nat limit),
    gt_conn := replicate (nat limit) connection_unused, gt_client_tag := (if tag = 0 then PTYPE_CLIENT else word_of_int tag),
    gt_header_size := (if header = CHR ''S'' then 2 else 4)\<rparr>)"
  have ok: "\<not> limit \<le> 0" "\<not> (header \<noteq> CHR ''S'' \<and> header \<noteq> CHR ''L'')" "\<not> (hd watchdog \<noteq> CHR ''!'' \<and> ?wd = 0)"
    using assms unfolding gate_init_def parm option.case prod.case Let_def by (auto split: if_splits)
  have "gate_init queryname listen parm g = start_listen listen a g'"
    unfolding gate_init_def parm option.case prod.case Let_def if_not_P [OF ok(1)] if_not_P [OF ok(2)] if_not_P [OF ok(3)] g'_def by simp
  then have g': "gt_hash g' = hashid_init (nat limit)" "gt_conn g' = replicate (nat limit) connection_unused" "gt_header_size g' \<in> {2, 4}"
    and eq: "snd (gate_init queryname listen parm g) = snd (start_listen listen a g')"
    by (simp_all add: g'_def)
  show "hashid_map (gt_hash (snd (gate_init queryname listen parm g))) = Map.empty"
    unfolding eq start_listen_tables g' hashid_init_ok ..
  have "tables_wf (hashid_init (nat limit)) (replicate (nat limit) connection_unused)"
    by (simp add: tables_wf_def hashid_init_ok)
  then show "gate_wf (snd (gate_init queryname listen parm g))"
    unfolding gate_wf_def eq start_listen_tables using g' by simp
qed

text \<open>The gate that the witnesses use: started for two connections, with socket 5 accepted.\<close>

definition example_init :: "char \<Rightarrow> int \<times> gate" where
  "example_init header = gate_init (\<lambda>_. 9) (\<lambda>_ _ _. 3) (Some (header # '' .watchdog 8888 0 2'')) gate_create"

definition example_accept :: skynet_socket_message where
  "example_accept = \<lparr>ssm_type = ACCEPT, ssm_id = 3, ssm_ud = 5, ssm_buffer = [], ssm_extra = ''1.2.3.4''\<rparr>"

definition example_gate :: "char \<Rightarrow> gate" where
  "example_gate header = the (dispatch_socket_message example_accept (snd (example_init header)))"

lemma example_init_ok:
  assumes "header = CHR ''S'' \<or> header = CHR ''L''"
  shows "fst (example_init header) = 0" "gt_listen_id (snd (example_init header)) = 3"
    "gt_watchdog (snd (example_init header)) = 9" "gt_header_size (snd (example_init header)) = (if header = CHR ''S'' then 2 else 4)"
    "gt_hash (snd (example_init header)) = hashid_init 2" "gt_broker (snd (example_init header)) = 0"
proof -
  have "scan_parm (header # '' .watchdog 8888 0 2'') = Some (header, ''.watchdog'', ''8888'', 0, 2)"
    by (simp add: scan_parm_def scan_word_def scan_int_def c_isspace_def is_digit_def digit_value_def read_sign_def to_int_def
      Let_def split_beta)
  moreover have "to_int (strtol 10 ''8888'') = 8888"
    by (simp add: strtol_def read_number_def read_sign_def read_base_def c_isspace_def is_digit_def digit_value_def to_int_def Let_def)
  ultimately show "fst (example_init header) = 0" "gt_listen_id (snd (example_init header)) = 3"
    "gt_watchdog (snd (example_init header)) = 9" "gt_header_size (snd (example_init header)) = (if header = CHR ''S'' then 2 else 4)"
    "gt_hash (snd (example_init header)) = hashid_init 2" "gt_broker (snd (example_init header)) = 0"
    using assms by (auto simp: gate_create_def example_init_def gate_init_def start_listen_def strchr_def emit_def Let_def)
qed

lemma example_gate_ok:
  assumes "header = CHR ''S'' \<or> header = CHR ''L''"
  shows "gate_wf (snd (example_init header))" "gate_message_ok (snd (example_init header)) (Socket example_accept)"
    "\<not> hashid_full (gt_hash (snd (example_init header)))" "accept_fits (snd (example_init header)) example_accept"
    "gate_wf (example_gate header)"
    "\<exists>i name. hashid_map (gt_hash (example_gate header)) 5 = Some i \<and>
      gt_conn (example_gate header) ! i = connection_unused\<lparr>cn_id := 5, cn_remote_name := name\<rparr>"
    "gt_header_size (example_gate header) = (if header = CHR ''S'' then 2 else 4)"
    "gt_watchdog (example_gate header) = 9" "gt_broker (example_gate header) = 0"
proof -
  let ?g = "snd (example_init header)"
  note e = example_init_ok [OF assms]
  show wf: "gate_wf ?g" using gate_init_ok(1) e(1) unfolding example_init_def by blast
  show ok: "gate_message_ok ?g (Socket example_accept)"
    unfolding gate_message_ok_def by (simp add: e example_accept_def hashid_init_ok)
  show room: "\<not> hashid_full (gt_hash ?g)" by (simp add: e hashid_full_def hashid_init_def Let_def)
  show fits: "accept_fits ?g example_accept" by (simp add: accept_fits_def e example_accept_def)
  have len: "length (gt_conn ?g) = 2" using wf by (simp add: gate_wf_def tables_wf_def e)
  have "ssm_type example_accept = ACCEPT" by (simp add: example_accept_def)
  from accept_clean [OF wf this ok accept_fits_found(1) [OF wf this ok fits room] room accept_fits_found(2) [OF wf this ok fits room]] len obtain i name where
    a: "dispatch_socket_message example_accept ?g = Some (example_gate header)" "gate_wf (example_gate header)"
    "hashid_map (gt_hash (example_gate header)) 5 = Some i" "i < 2"
    "gt_conn (example_gate header) = (gt_conn ?g)[i := connection_unused\<lparr>cn_id := 5, cn_remote_name := name\<rparr>]"
    "gt_watchdog (example_gate header) = 9" "gt_header_size (example_gate header) = (if header = CHR ''S'' then 2 else 4)"
    "gt_broker (example_gate header) = 0"
    by (auto simp: example_gate_def example_accept_def e)
  show "gate_wf (example_gate header)" "gt_header_size (example_gate header) = (if header = CHR ''S'' then 2 else 4)"
    "gt_watchdog (example_gate header) = 9" "gt_broker (example_gate header) = 0"
    using a by simp_all
  show "\<exists>i name. hashid_map (gt_hash (example_gate header)) 5 = Some i \<and>
      gt_conn (example_gate header) ! i = connection_unused\<lparr>cn_id := 5, cn_remote_name := name\<rparr>"
    using a(3-5) len by (intro exI [of _ i] exI [of _ name]) simp
qed

text \<open>C31. The table of socket ids is a map: looking up, removing and inserting ids are the operations of a map from ids to
  distinct places below the capacity.  An id that is inserted is not negative and not in use, the table is not full, and the id
  and the capacity add up to at most 2^31: for larger ids the search for a free place may overflow.\<close>

theorem hashid_refines_map:
  assumes "hashid_wf hi"
  shows "hashid_lookup hi fd = Some (hashid_answer (hashid_map hi fd)) \<and>
    (\<exists>hi'. hashid_remove fd hi = Some (hashid_answer (hashid_map hi fd), hi') \<and> hashid_wf hi' \<and>
       hashid_map hi' = (hashid_map hi)(fd := None)) \<and>
    (\<not> hashid_full hi \<and> hashid_map hi fd = None \<and> 0 \<le> fd \<and> fd + int (hi_cap hi) \<le> 2 ^ 31 \<longrightarrow>
       (\<exists>i hi'. hashid_insert fd hi = Some (int i, hi') \<and> hashid_wf hi' \<and> i < hi_cap hi \<and> i \<notin> ran (hashid_map hi) \<and>
          hashid_map hi' = (hashid_map hi)(fd \<mapsto> i)))"
proof (intro conjI impI)
  show "hashid_lookup hi fd = Some (hashid_answer (hashid_map hi fd))" using lookup_answer [OF assms] .
  show "\<exists>hi'. hashid_remove fd hi = Some (hashid_answer (hashid_map hi fd), hi') \<and> hashid_wf hi' \<and>
      hashid_map hi' = (hashid_map hi)(fd := None)"
    using hashid_remove_ok [OF assms, of fd] by (auto simp: hashid_answer_def)
next
  assume "\<not> hashid_full hi \<and> hashid_map hi fd = None \<and> 0 \<le> fd \<and> fd + int (hi_cap hi) \<le> 2 ^ 31"
  then show "\<exists>i hi'. hashid_insert fd hi = Some (int i, hi') \<and> hashid_wf hi' \<and> i < hi_cap hi \<and> i \<notin> ran (hashid_map hi) \<and>
      hashid_map hi' = (hashid_map hi)(fd \<mapsto> i)"
    using hashid_insert_ok [OF assms, of fd] by auto
qed

theorem hashid_refines_map_witness:
  "\<exists>i hi'. hashid_insert 35 (hashid_init 2) = Some (int i, hi') \<and> i < 2 \<and> hashid_map hi' = [35 \<mapsto> i]"
proof -
  have "\<not> hashid_full (hashid_init 2)" by (simp add: hashid_full_def hashid_init_def Let_def)
  then show ?thesis using hashid_refines_map [OF hashid_init_ok(1), of 2 35] by (auto simp: hashid_init_ok hashid_init_cap)
qed

text \<open>C10. However the stream of a connection is cut into pieces on its way, the gate forwards exactly its packets,
  whole and in their order, to the broker, the agent or the watchdog: when the pieces together are the frames of some
  packets and the beginning of another header, the calls the gate makes are one message for each packet that is not
  empty.\<close>

theorem gate_forwards_packets:
  assumes "gate_wf g" "hashid_map (gt_hash g) fd = Some i" "c = gt_conn g ! i" "has_reader g c"
    "db_header (cn_buffer c) = 0" "db_bytes (cn_buffer c) = []"
    "\<forall>p \<in> set ps. packet_ok (gt_header_size g) p" "length rest < gt_header_size g"
    "concat pieces = concat (map (frame (gt_header_size g)) ps) @ rest"
  shows "\<exists>g'. cb_run queryname (map (socket_data fd) pieces) g = Some g' \<and> gate_wf g' \<and>
    gt_calls g' = gt_calls g @ map (packet_call g c) (filter (\<lambda>p. p \<noteq> []) ps) \<and>
    db_bytes (cn_buffer (gt_conn g' ! i)) = rest"
proof (cases "pieces = []")
  case True
  have "frame hs p \<noteq> []" for hs p by (simp add: frame_def be32_bytes_def)
  then have "ps = []" "rest = []" using assms(9) True by (cases ps; simp)+
  then show ?thesis using assms True by simp
next
  case False
  have i: "i < length (gt_conn g)" and hs: "gt_header_size g \<in> {2, 4}"
    using assms(1) tables_wfD(3) [OF _ assms(2)] by (auto simp: gate_wf_def)
  have D: "(filter (\<lambda>p. p \<noteq> []) ps, Some (0, rest)) =
      drain (has_reader g c) (gt_header_size g) (db_header (cn_buffer c)) (db_bytes (cn_buffer c) @ concat pieces)"
    using drain_frames [OF hs assms(7,8)] assms(4-6,9) by simp
  from run_drains [OF assms(1-3) D False] i show ?thesis by (fastforce simp: buffer_holds_def)
qed

theorem gate_forwards_packets_witness:
  "\<exists>g'. cb_run (\<lambda>_. 0) (map (socket_data 5) [[0], [2, 7], [8, 0, 0, 0], [1, 9, 0]]) (example_gate (CHR ''S'')) = Some g' \<and>
    gt_calls g' = gt_calls (example_gate (CHR ''S'')) @
      [Send 0 9 DONTCOPY (text_bytes ''5 data '' @ [7, 8]), Send 0 9 DONTCOPY (text_bytes ''5 data '' @ [9])]"
proof -
  let ?g = "example_gate (CHR ''S'')"
  obtain i name where c: "hashid_map (gt_hash ?g) 5 = Some i"
    "gt_conn ?g ! i = connection_unused\<lparr>cn_id := 5, cn_remote_name := name\<rparr>"
    using example_gate_ok(6) [OF disjI1 [OF refl]] by blast
  note e = example_gate_ok [of "CHR ''S''", simplified]
  have e: "gate_wf ?g" "gt_header_size ?g = 2" "gt_watchdog ?g = 9" using example_gate_ok [of "CHR ''S''"] by simp_all
  have pk: "\<forall>p \<in> set [[7, 8], [], [9 :: u8]]. packet_ok (gt_header_size ?g) p" by (simp add: packet_ok_def e)
  have cs: "concat [[0], [2, 7], [8, 0, 0, 0], [1, 9, 0 :: u8]] = concat (map (frame (gt_header_size ?g)) [[7, 8], [], [9]]) @ [0]"
    by (simp add: frame_def e)
  note gate_forwards_packets [OF e(1) c(1) refl _ _ _ pk _ cs, where queryname = "\<lambda>_. 0"]
  moreover have "gt_broker ?g = 0" using example_gate_ok(9) [of "CHR ''S''"] by simp
  moreover have "fmt_d 5 = ''5''" by code_simp
  ultimately show ?thesis using c(2) e
    by (auto simp: has_reader_def packet_call_def connection_unused_def)
qed

text \<open>A connection that the gate accepts while its table has room starts clean: it gets a place that no open
  connection has, without agent and client, and with an empty buffer, whatever the connection that had the
  place before left behind.\<close>

theorem accepted_connection_starts_clean:
  assumes "gate_wf g" "gate_message_ok g (Socket m)" "ssm_type m = ACCEPT" "\<not> hashid_full (gt_hash g)" "accept_fits g m"
  shows "\<exists>g' i. cb queryname (Socket m) g = Some (0, g') \<and> gate_wf g' \<and> i \<notin> ran (hashid_map (gt_hash g)) \<and>
    hashid_map (gt_hash g') = (hashid_map (gt_hash g))(ssm_ud m \<mapsto> i) \<and> cn_id (gt_conn g' ! i) = ssm_ud m \<and>
    cn_agent (gt_conn g' ! i) = 0 \<and> cn_client (gt_conn g' ! i) = 0 \<and> cn_buffer (gt_conn g' ! i) = databuffer_zero"
proof -
  obtain g' i name where a: "dispatch_socket_message m g = Some g'" "gate_wf g'" "hashid_map (gt_hash g) (ssm_ud m) = None"
    "hashid_map (gt_hash g') = (hashid_map (gt_hash g))(ssm_ud m \<mapsto> i)" "i < length (gt_conn g)"
    "gt_conn g' = (gt_conn g)[i := connection_unused\<lparr>cn_id := ssm_ud m, cn_remote_name := name\<rparr>]"
    using accept_clean [OF assms(1,3,2) _ assms(4)] accept_fits_found [OF assms(1,3,2,5,4)] by blast
  have "i \<notin> ran (hashid_map (gt_hash g))"
  proof
    assume "i \<in> ran (hashid_map (gt_hash g))"
    then obtain fd where fd: "hashid_map (gt_hash g) fd = Some i" by (auto simp: ran_def)
    with a(3) have "fd \<noteq> ssm_ud m" by auto
    with fd a(4) have "hashid_map (gt_hash g') fd = Some i" "hashid_map (gt_hash g') (ssm_ud m) = Some i" by auto
    then show False using hashid_map_inject [of "gt_hash g'" fd i "ssm_ud m"] \<open>fd \<noteq> ssm_ud m\<close> a(2)
      by (auto simp: gate_wf_def tables_wf_def)
  qed
  with a show ?thesis by (intro exI [of _ g'] exI [of _ i]) (simp add: cb_def connection_unused_def)
qed

theorem accepted_connection_starts_clean_witness:
  "\<exists>g' i. cb (\<lambda>_. 0) (Socket example_accept) (snd (example_init (CHR ''L''))) = Some (0, g') \<and>
    hashid_map (gt_hash g') = [5 \<mapsto> i] \<and> cn_buffer (gt_conn g' ! i) = databuffer_zero"
proof -
  have "ssm_type example_accept = ACCEPT" "ssm_ud example_accept = 5" by (simp_all add: example_accept_def)
  then show ?thesis
    using accepted_connection_starts_clean [OF example_gate_ok(1,2) _ example_gate_ok(3,4), of "CHR ''L''" "\<lambda>_. 0"]
    by (auto simp: example_init_ok hashid_init_ok)
qed





text \<open>A connection request that is still in the mailbox when the command \<open>close\<close> is handled ends the process: the
  gate forgets the id of its listening socket, and the assertion on it fails.\<close>

theorem accept_after_close_aborts:
  assumes "gate_wf g" "0 \<le> gt_listen_id g" "ssm_type m = ACCEPT" "ssm_id m = gt_listen_id g"
  shows "\<exists>g'. cb queryname (Text ''close'') g = Some (0, g') \<and> gt_calls g' = gt_calls g @ [SocketClose (gt_listen_id g)] \<and>
    cb queryname (Socket m) g' = None"
  using assms by (simp add: cb_def ctrl_def memcmp_lit_def NUL_def dispatch_socket_message_def Let_def)

theorem accept_after_close_aborts_witness:
  "cb_run (\<lambda>_. 0) [Text ''close'', Socket example_accept] (snd (example_init (CHR ''S''))) = None"
  using accept_after_close_aborts [OF example_gate_ok(1), of "CHR ''S''" example_accept "\<lambda>_. 0"]
  by (auto simp: example_init_ok example_accept_def)

text \<open>A header of four bytes whose first bit is set is a negative length: nothing the client sends after it is
  ever forwarded, and the connection is not closed either; the gate only collects the data.\<close>

theorem negative_header_blocks:
  assumes "gate_wf g" "hashid_map (gt_hash g) fd = Some i" "gt_header_size g = 4"
    "db_header (cn_buffer (gt_conn g ! i)) = 0" "db_bytes (cn_buffer (gt_conn g ! i)) = []"
    "128 \<le> unat b0" "concat pieces = b0 # b1 # b2 # b3 # bs"
  shows "\<exists>g'. cb_run queryname (map (socket_data fd) pieces) g = Some g' \<and> gt_calls g' = gt_calls g \<and>
    db_bytes (cn_buffer (gt_conn g' ! i)) = bs"
proof -
  let ?c = "gt_conn g ! i"
  have i: "i < length (gt_conn g)" using assms(1,2) tables_wfD(3) by (auto simp: gate_wf_def)
  have "unat b0 < 256" by (rule unsigned_less [THEN less_le_trans]) simp
  then have "unat b0 div 2 ^ 7 = 1" using assms(6) by simp
  then have "bit (unat b0) 7" by (simp add: bit_iff_odd)
  then have "bit (be32 b0 b1 b2 b3) 31" by (simp add: bit_be32 bit_unsigned_iff)
  then have neg: "header_value 4 [b0, b1, b2, b3] < 0"
    using bit_last_iff [of "be32 b0 b1 b2 b3"] by (simp add: header_value_def)
  have "drain (has_reader g ?c) 4 0 (b0 # b1 # b2 # b3 # bs) = ([], Some (header_value 4 [b0, b1, b2, b3], bs))"
    using neg by (subst drain.simps) (simp add: Let_def)
  then have D: "([], Some (header_value 4 [b0, b1, b2, b3], bs)) =
      drain (has_reader g ?c) (gt_header_size g) (db_header (cn_buffer ?c)) (db_bytes (cn_buffer ?c) @ concat pieces)"
    using assms(3-5,7) by simp
  have "pieces \<noteq> []" using assms(7) by auto
  from run_drains [OF assms(1,2) refl D this] i show ?thesis by (fastforce simp: buffer_holds_def)
qed

theorem negative_header_blocks_witness:
  "\<exists>g'. cb_run (\<lambda>_. 0) (map (socket_data 5) [[255, 255], [255, 255, 0, 0], [0, 1, 7]]) (example_gate (CHR ''L'')) = Some g' \<and>
    gt_calls g' = gt_calls (example_gate (CHR ''L''))"
proof -
  let ?g = "example_gate (CHR ''L'')"
  obtain i name where c: "hashid_map (gt_hash ?g) 5 = Some i"
    "gt_conn ?g ! i = connection_unused\<lparr>cn_id := 5, cn_remote_name := name\<rparr>"
    using example_gate_ok(6) [OF disjI2 [OF refl]] by blast
  have e: "gate_wf ?g" "gt_header_size ?g = 4" using example_gate_ok [of "CHR ''L''"] by simp_all
  have "db_header (cn_buffer (gt_conn ?g ! i)) = 0" "db_bytes (cn_buffer (gt_conn ?g ! i)) = []"
    by (simp_all add: c(2) connection_unused_def)
  note negative_header_blocks [OF e(1) c(1) e(2) this, of 255 "[[255, 255], [255, 255, 0, 0], [0, 1, 7]]" 255 255 255 "[0, 0, 0, 1, 7]" "\<lambda>_. 0"]
  moreover have "128 \<le> unat (255 :: u8)" "concat [[255, 255], [255, 255, 0, 0], [0, 1, 7 :: u8]] = [255, 255, 255, 255, 0, 0, 0, 1, 7]"
    by simp_all
  ultimately show ?thesis by blast
qed

end
