(* ===== verification/SocketServer.thy ===== *)
theory SocketServer
  imports Bytes CString
begin

text \<open>
  \<open>skynet-src/socket_server.c\<close> with \<open>socket_epoll.h\<close>: the table of sockets, the write buffers, the
  requests that worker threads write into a pipe and the loop of the socket thread that serves requests and
  events.  The calls into the operating system are the fields of the record \<open>kernel\<close>, functions of an
  unknown state of the kernel: nothing is assumed about their results except that \<open>write\<close> takes at most the bytes it is
  given and \<open>read\<close> returns at most what it is asked for.

  The set that \<open>epoll_ctl\<close> keeps (\<open>ss_watch\<close>) is part of the state, and \<open>ss_trace\<close> records, for the
  statements about them, the bytes the kernel has taken, the buffers freed and the descriptors closed.
  A result \<open>None\<close> is a failed assertion or a call through a NULL pointer.
\<close>

section \<open>The operating system\<close>

datatype errno = EINTR | EAGAIN | EMFILE | ENFILE | EINPROGRESS | E_other string

text \<open>A raw event of \<open>epoll_wait\<close>: the slot of the socket, or nothing for the pipe, and the flags.\<close>

record event =
  ev_s :: "nat option"
  ev_read :: bool
  ev_write :: bool

record 'k kernel =
  k_epoll_create :: "'k \<Rightarrow> int \<times> 'k"
  k_pipe :: "'k \<Rightarrow> (int \<times> int) option \<times> 'k"
  k_epoll_add :: "int \<Rightarrow> 'k \<Rightarrow> errno option \<times> 'k"
  k_epoll_wait :: "'k \<Rightarrow> event list \<times> 'k"
  k_write :: "int \<Rightarrow> bytes \<Rightarrow> 'k \<Rightarrow> (errno + nat) \<times> 'k"
  k_sendto :: "int \<Rightarrow> bytes \<Rightarrow> bytes option \<Rightarrow> 'k \<Rightarrow> (errno + nat) \<times> 'k"
  k_read :: "int \<Rightarrow> nat \<Rightarrow> 'k \<Rightarrow> (errno + bytes) \<times> 'k"
  k_recvfrom :: "int \<Rightarrow> 'k \<Rightarrow> (errno + bytes \<times> bool \<times> bytes) \<times> 'k"
  k_accept :: "int \<Rightarrow> 'k \<Rightarrow> (errno + int \<times> string option) \<times> 'k"
  k_getaddrinfo :: "string \<Rightarrow> int \<Rightarrow> 'k \<Rightarrow> (string + nat list) \<times> 'k"
  k_socket :: "nat \<Rightarrow> 'k \<Rightarrow> (errno + int) \<times> 'k"
  k_connect :: "int \<Rightarrow> nat \<Rightarrow> 'k \<Rightarrow> errno option \<times> 'k"
  k_bind :: "int \<Rightarrow> nat \<Rightarrow> 'k \<Rightarrow> bool \<times> 'k"
  k_listen :: "int \<Rightarrow> int \<Rightarrow> 'k \<Rightarrow> bool \<times> 'k"
  k_so_error :: "int \<Rightarrow> 'k \<Rightarrow> string option \<times> 'k"
  k_peername :: "int \<Rightarrow> 'k \<Rightarrow> string option \<times> 'k"
  k_ntop :: "nat \<Rightarrow> string option"
  k_is_v6 :: "nat \<Rightarrow> bool"
  k_port_address :: "nat \<Rightarrow> bytes"

fun strerror :: "errno \<Rightarrow> string" where
  "strerror EINTR = ''Interrupted system call''"
| "strerror EAGAIN = ''Resource temporarily unavailable''"
| "strerror EMFILE = ''Too many open files''"
| "strerror ENFILE = ''Too many open files in system''"
| "strerror EINPROGRESS = ''Operation now in progress''"
| "strerror (E_other s) = s"

section \<open>State\<close>

definition MAX_SOCKET_P :: nat where "MAX_SOCKET_P = 16"
definition MAX_SOCKET :: nat where "MAX_SOCKET = 2 ^ MAX_SOCKET_P"
definition MAX_EVENT :: nat where "MAX_EVENT = 64"
definition MIN_READ_BUFFER :: int where "MIN_READ_BUFFER = 64"
definition UDP_ADDRESS_SIZE :: nat where "UDP_ADDRESS_SIZE = 19"

definition HASH_ID :: "int \<Rightarrow> nat" where
  "HASH_ID sid = nat (sid mod int MAX_SOCKET)"

datatype socket_state =
  ST_INVALID | ST_RESERVE | ST_PLISTEN | ST_LISTEN | ST_CONNECTING | ST_CONNECTED | ST_HALFCLOSE | ST_PACCEPT | ST_BIND

datatype priority = PRIORITY_HIGH | PRIORITY_LOW

datatype protocol = PROTOCOL_TCP | PROTOCOL_UDP | PROTOCOL_UDPv6

text \<open>The byte of an address that names the protocol.\<close>

fun protocol_byte :: "protocol \<Rightarrow> u8" where
  "protocol_byte PROTOCOL_TCP = 0"
| "protocol_byte PROTOCOL_UDP = 1"
| "protocol_byte PROTOCOL_UDPv6 = 2"

text \<open>
  A buffer that a caller hands over: its address and the bytes to send.  A user object (\<open>sz < 0\<close> in the
  request) is at another address than its bytes.
\<close>

record buffer_packet =
  pk_buffer :: addr
  pk_bytes :: bytes
  pk_object :: bool

text \<open>\<open>wb_ptr\<close> is the distance of \<open>ptr\<close> from the first byte.\<close>

record write_buffer =
  wb_packet :: buffer_packet
  wb_ptr :: nat
  wb_sz :: nat
  wb_udp_address :: bytes

text \<open>The union \<open>p\<close> is two fields: \<open>size\<close> is used for TCP and the address for UDP sockets.\<close>

record socket =
  sk_opaque :: u64
  sk_high :: "write_buffer list"
  sk_low :: "write_buffer list"
  sk_wb_size :: int
  sk_fd :: int
  sk_id :: int
  sk_protocol :: protocol
  sk_type :: socket_state
  sk_psize :: int
  sk_udp_address :: bytes

text \<open>The requests, by the letters that stand for them in the pipe.\<close>

datatype request =
    Req_Start int u64
  | Req_Bind int int u64
  | Req_Listen int int u64
  | Req_Close int bool u64
  | Req_Open int string int u64
  | Req_Exit
  | Req_Send int buffer_packet
  | Req_Send_Low int buffer_packet
  | Req_Send_UDP int buffer_packet bytes
  | Req_Setopt int int int
  | Req_UDP int int bool u64
  | Req_Set_UDP int bytes

text \<open>What a message of the server carries: nothing, a text, or received bytes that the reader frees.\<close>

datatype payload = No_Data | Info string | Received bytes

record socket_reply =
  sr_id :: int
  sr_opaque :: u64
  sr_ud :: int
  sr_data :: payload

datatype reply_type = SR_DATA | SR_CLOSE | SR_OPEN | SR_ACCEPT | SR_ERROR | SR_EXIT | SR_UDP

text \<open>\<open>None\<close> is the result -1: nothing to report.\<close>

type_synonym reply = "(reply_type \<times> socket_reply) option"

datatype trace_event = Wrote int bytes | Sent_To int bytes | Freed addr | Closed int | Set_Option int int int | Logged string

record 'k socket_server =
  ss_recvctrl_fd :: int
  ss_sendctrl_fd :: int
  ss_ctrl :: "request list"
  ss_checkctrl :: bool
  ss_alloc_id :: u32
  ss_event_index :: nat
  ss_ev :: "event list"
  ss_soi :: bool
  ss_slot :: "nat \<Rightarrow> socket"
  ss_watch :: "int \<rightharpoonup> nat option \<times> bool"
  ss_os :: 'k
  ss_trace :: "trace_event list"

section \<open>Small steps on the state\<close>

definition note_event :: "trace_event \<Rightarrow> 'k socket_server \<Rightarrow> 'k socket_server" where
  "note_event e ss = ss\<lparr>ss_trace := ss_trace ss @ [e]\<rparr>"

definition set_slot :: "nat \<Rightarrow> socket \<Rightarrow> 'k socket_server \<Rightarrow> 'k socket_server" where
  "set_slot n s ss = ss\<lparr>ss_slot := (ss_slot ss)(n := s)\<rparr>"

definition set_type :: "nat \<Rightarrow> socket_state \<Rightarrow> 'k socket_server \<Rightarrow> 'k socket_server" where
  "set_type n t ss = set_slot n ((ss_slot ss n)\<lparr>sk_type := t\<rparr>) ss"

text \<open>The result of \<open>sp_add\<close> is the error, if it failed.\<close>

definition sp_add :: "'k kernel \<Rightarrow> int \<Rightarrow> nat option \<Rightarrow> 'k socket_server \<Rightarrow> errno option \<times> 'k socket_server" where
  "sp_add K fd s ss =
     (let (e, k) = k_epoll_add K fd (ss_os ss) in
      (e, if e \<noteq> None then ss\<lparr>ss_os := k\<rparr> else ss\<lparr>ss_os := k, ss_watch := (ss_watch ss)(fd \<mapsto> (s, False))\<rparr>))"

definition sp_del :: "int \<Rightarrow> 'k socket_server \<Rightarrow> 'k socket_server" where
  "sp_del fd ss = ss\<lparr>ss_watch := (ss_watch ss)(fd := None)\<rparr>"

text \<open>\<open>EPOLL_CTL_MOD\<close> fails, without effect, for a descriptor that is not in the set.\<close>

definition sp_write :: "int \<Rightarrow> nat \<Rightarrow> bool \<Rightarrow> 'k socket_server \<Rightarrow> 'k socket_server" where
  "sp_write fd n enable ss =
     (if ss_watch ss fd = None then ss else ss\<lparr>ss_watch := (ss_watch ss)(fd \<mapsto> (Some n, enable))\<rparr>)"

text \<open>\<open>epoll_wait\<close> returns at most \<open>MAX_EVENT\<close> events; none stand for an error.\<close>

definition sp_wait :: "'k kernel \<Rightarrow> 'k socket_server \<Rightarrow> event list \<times> 'k socket_server" where
  "sp_wait K ss = (let (es, k) = k_epoll_wait K (ss_os ss) in (take MAX_EVENT es, ss\<lparr>ss_os := k\<rparr>))"

definition close_fd :: "int \<Rightarrow> 'k socket_server \<Rightarrow> 'k socket_server" where
  "close_fd fd ss = (note_event (Closed fd) ss)\<lparr>ss_watch := (ss_watch ss)(fd := None)\<rparr>"

text \<open>\<open>send_object_init\<close>: a user object needs the interface that \<open>socket_server_userobject\<close> sets.\<close>

definition send_object_init :: "buffer_packet \<Rightarrow> 'k socket_server \<Rightarrow> bytes option" where
  "send_object_init p ss = (if pk_object p \<and> \<not> ss_soi ss then None else Some (pk_bytes p))"

definition free_packet :: "buffer_packet \<Rightarrow> 'k socket_server \<Rightarrow> 'k socket_server" where
  "free_packet p ss = note_event (Freed (pk_buffer p)) ss"

definition write_buffer_free :: "write_buffer \<Rightarrow> 'k socket_server \<Rightarrow> 'k socket_server" where
  "write_buffer_free wb ss = free_packet (wb_packet wb) ss"

definition free_wb_list :: "write_buffer list \<Rightarrow> 'k socket_server \<Rightarrow> 'k socket_server" where
  "free_wb_list wbs ss = fold write_buffer_free wbs ss"

text \<open>The bytes of a buffer that are still to be written.\<close>

definition wb_rest :: "write_buffer \<Rightarrow> bytes" where
  "wb_rest wb = take (wb_sz wb) (drop (wb_ptr wb) (pk_bytes (wb_packet wb)))"

definition get_list :: "priority \<Rightarrow> socket \<Rightarrow> write_buffer list" where
  "get_list p s = (case p of PRIORITY_HIGH \<Rightarrow> sk_high s | PRIORITY_LOW \<Rightarrow> sk_low s)"

definition set_list :: "priority \<Rightarrow> write_buffer list \<Rightarrow> socket \<Rightarrow> socket" where
  "set_list p l s = (case p of PRIORITY_HIGH \<Rightarrow> s\<lparr>sk_high := l\<rparr> | PRIORITY_LOW \<Rightarrow> s\<lparr>sk_low := l\<rparr>)"

section \<open>Identifiers and slots\<close>

text \<open>
  \<open>reserve_id\<close>: \<open>n\<close> tries are left.  The compare-and-swap fails, and the try is repeated, only
  when another thread reserves the same slot between the test and the swap.
\<close>

fun reserve_loop :: "nat \<Rightarrow> 'k socket_server \<Rightarrow> int \<times> 'k socket_server" where
  "reserve_loop 0 ss = (- 1, ss)"
| "reserve_loop (Suc n) ss =
     (let a = ss_alloc_id ss + 1;
          a' = (if sint a < 0 then a AND 0x7fffffff else a);
          ss1 = ss\<lparr>ss_alloc_id := a'\<rparr>;
          sid = sint a';
          s = ss_slot ss1 (HASH_ID sid)
      in if sk_type s = ST_INVALID
         then (sid, set_slot (HASH_ID sid) (s\<lparr>sk_type := ST_RESERVE, sk_id := sid, sk_fd := - 1\<rparr>) ss1)
         else reserve_loop n ss1)"

definition reserve_id :: "'k socket_server \<Rightarrow> int \<times> 'k socket_server" where
  "reserve_id ss = reserve_loop MAX_SOCKET ss"

definition socket_empty :: socket where
  "socket_empty = \<lparr>sk_opaque = 0, sk_high = [], sk_low = [], sk_wb_size = 0, sk_fd = 0, sk_id = 0,
     sk_protocol = PROTOCOL_TCP, sk_type = ST_INVALID, sk_psize = 0, sk_udp_address = []\<rparr>"

text \<open>\<open>socket_server_create\<close>; the first \<open>None\<close> is its result NULL.\<close>

definition socket_server_create :: "'k kernel \<Rightarrow> 'k \<Rightarrow> 'k socket_server option \<times> 'k" where
  "socket_server_create K k =
     (let (efd, k1) = k_epoll_create K k in
      if efd = - 1 then (None, k1)
      else case k_pipe K k1 of
        (None, k2) \<Rightarrow> (None, k2)
      | (Some (rfd, sfd), k2) \<Rightarrow>
          (let (e, k3) = k_epoll_add K rfd k2 in
           if e \<noteq> None then (None, k3)
           else (Some \<lparr>ss_recvctrl_fd = rfd, ss_sendctrl_fd = sfd, ss_ctrl = [], ss_checkctrl = True, ss_alloc_id = 0,
             ss_event_index = 0, ss_ev = [], ss_soi = False, ss_slot = (\<lambda>_. socket_empty), ss_watch = [rfd \<mapsto> (None, False)],
             ss_os = k3, ss_trace = []\<rparr>, k3)))"

definition force_close :: "nat \<Rightarrow> 'k socket_server \<Rightarrow> (socket_reply \<times> 'k socket_server) option" where
  "force_close n ss =
     (let s = ss_slot ss n;
          m = \<lparr>sr_id = sk_id s, sr_opaque = sk_opaque s, sr_ud = 0, sr_data = No_Data\<rparr>
      in if sk_type s = ST_INVALID then Some (m, ss)
         else if sk_type s = ST_RESERVE then None
         else
           let ss1 = free_wb_list (sk_low s) (free_wb_list (sk_high s) ss);
               ss2 = (if sk_type s \<noteq> ST_PACCEPT \<and> sk_type s \<noteq> ST_PLISTEN then sp_del (sk_fd s) ss1 else ss1);
               ss3 = (if sk_type s \<noteq> ST_BIND then close_fd (sk_fd s) ss2 else ss2)
           in Some (m, set_slot n (s\<lparr>sk_high := [], sk_low := [], sk_type := ST_INVALID\<rparr>) ss3))"

text \<open>\<open>new_fd\<close> tells whether it succeeded.\<close>

definition new_fd :: "'k kernel \<Rightarrow> int \<Rightarrow> int \<Rightarrow> protocol \<Rightarrow> u64 \<Rightarrow> bool \<Rightarrow> 'k socket_server \<Rightarrow> (bool \<times> 'k socket_server) option" where
  "new_fd K sid fd protocol opaque add ss =
     (let n = HASH_ID sid; s = ss_slot ss n in
      if sk_type s \<noteq> ST_RESERVE then None
      else
        let (e, ss1) = (if add then sp_add K fd (Some n) ss else (None, ss)) in
        if e \<noteq> None then Some (False, set_type n ST_INVALID ss1)
        else if sk_high s \<noteq> [] \<or> sk_low s \<noteq> [] then None
        else Some (True, set_slot n (s\<lparr>sk_id := sid, sk_fd := fd, sk_protocol := protocol, sk_psize := MIN_READ_BUFFER,
          sk_opaque := opaque, sk_wb_size := 0\<rparr>) ss1))"

section \<open>Sending\<close>

text \<open>
  \<open>write\<close>, repeated while it is interrupted.  The kernel never takes more than it is given.
\<close>

partial_function (option) write_retry :: "'k kernel \<Rightarrow> int \<Rightarrow> bytes \<Rightarrow> 'k \<Rightarrow> ((errno + nat) \<times> 'k) option" where
  "write_retry K fd bs k =
     (case k_write K fd bs k of
        (Inl e, k') \<Rightarrow> if e = EINTR then write_retry K fd bs k' else Some (Inl e, k')
      | (Inr c, k') \<Rightarrow> Some (Inr (min c (length bs)), k'))"

text \<open>
  \<open>send_list_tcp\<close> on the list that is left of the socket in slot \<open>n\<close>; the state holds the list at
  every step.
\<close>

fun send_list_tcp ::
  "'k kernel \<Rightarrow> nat \<Rightarrow> priority \<Rightarrow> write_buffer list \<Rightarrow> 'k socket_server \<Rightarrow> (reply \<times> 'k socket_server) option" where
  "send_list_tcp K n p [] ss = Some (None, set_slot n (set_list p [] (ss_slot ss n)) ss)"
| "send_list_tcp K n p (tmp # rest) ss = do {
     let s = ss_slot ss n;
     (r, k) \<leftarrow> write_retry K (sk_fd s) (wb_rest tmp) (ss_os ss);
     let ss1 = ss\<lparr>ss_os := k\<rparr>;
     case r of
       Inl e \<Rightarrow>
         if e = EAGAIN then Some (None, ss1)
         else map_option (\<lambda>(m, ss2). (Some (SR_CLOSE, m), ss2)) (force_close n ss1)
     | Inr sz \<Rightarrow> do {
         let ss2 = note_event (Wrote (sk_fd s) (take sz (wb_rest tmp))) ss1;
         let s2 = s\<lparr>sk_wb_size := sk_wb_size s - int sz\<rparr>;
         if sz \<noteq> wb_sz tmp then
           Some (None, set_slot n (set_list p (tmp\<lparr>wb_ptr := wb_ptr tmp + sz, wb_sz := wb_sz tmp - sz\<rparr> # rest) s2) ss2)
         else
           send_list_tcp K n p rest (write_buffer_free tmp (set_slot n (set_list p rest s2) ss2))
       }
   }"

text \<open>
  \<open>udp_socket_address\<close>: port and address, if the address is one for the protocol of the socket (the result 0
  of the function is \<open>None\<close>).
\<close>

definition udp_socket_address :: "socket \<Rightarrow> bytes \<Rightarrow> bytes option" where
  "udp_socket_address s udp_address =
     (if udp_address = [] \<or> hd udp_address \<noteq> protocol_byte (sk_protocol s) then None
      else case sk_protocol s of
        PROTOCOL_TCP \<Rightarrow> None
      | PROTOCOL_UDP \<Rightarrow> Some (take 6 (tl udp_address))
      | PROTOCOL_UDPv6 \<Rightarrow> Some (take 18 (tl udp_address)))"

fun send_list_udp ::
  "'k kernel \<Rightarrow> nat \<Rightarrow> priority \<Rightarrow> write_buffer list \<Rightarrow> 'k socket_server \<Rightarrow> (reply \<times> 'k socket_server) option" where
  "send_list_udp K n p [] ss = Some (None, set_slot n (set_list p [] (ss_slot ss n)) ss)"
| "send_list_udp K n p (tmp # rest) ss =
     (let s = ss_slot ss n;
          (r, k) = k_sendto K (sk_fd s) (wb_rest tmp) (udp_socket_address s (wb_udp_address tmp)) (ss_os ss);
          ss1 = ss\<lparr>ss_os := k\<rparr>
      in case r of
        Inl e \<Rightarrow>
          Some (None, if e = EINTR \<or> e = EAGAIN then ss1 else note_event (Logged (''socket-server : udp ('' @ fmt_d (sk_id s) @
            '') sendto error '' @ strerror e)) ss1)
      | Inr _ \<Rightarrow>
          send_list_udp K n p rest (write_buffer_free tmp
            (set_slot n (set_list p rest (s\<lparr>sk_wb_size := sk_wb_size s - int (wb_sz tmp)\<rparr>)) (note_event (Sent_To (sk_fd s) (wb_rest tmp)) ss1))))"

definition send_list :: "'k kernel \<Rightarrow> nat \<Rightarrow> priority \<Rightarrow> 'k socket_server \<Rightarrow> (reply \<times> 'k socket_server) option" where
  "send_list K n p ss =
     (let s = ss_slot ss n in
      if sk_protocol s = PROTOCOL_TCP then send_list_tcp K n p (get_list p s) ss
      else send_list_udp K n p (get_list p s) ss)"

text \<open>\<open>list_uncomplete\<close> compares \<open>ptr\<close> with \<open>buffer\<close>, which for a user object is the object.\<close>

definition list_uncomplete :: "write_buffer list \<Rightarrow> bool" where
  "list_uncomplete l = (case l of [] \<Rightarrow> False | wb # _ \<Rightarrow> wb_ptr wb \<noteq> 0 \<or> pk_object (wb_packet wb))"

definition raise_uncomplete :: "socket \<Rightarrow> socket option" where
  "raise_uncomplete s = (case sk_low s of
       [] \<Rightarrow> None
     | tmp # rest \<Rightarrow> if sk_high s \<noteq> [] then None else Some (s\<lparr>sk_low := rest, sk_high := [tmp]\<rparr>))"

definition send_buffer :: "'k kernel \<Rightarrow> nat \<Rightarrow> 'k socket_server \<Rightarrow> (reply \<times> 'k socket_server) option" where
  "send_buffer K n ss =
     (if list_uncomplete (sk_low (ss_slot ss n)) then None
      else do {
        (r, ss1) \<leftarrow> send_list K n PRIORITY_HIGH ss;
        let s1 = ss_slot ss1 n;
        if r \<noteq> None then Some (r, ss1)
        else if sk_high s1 \<noteq> [] then Some (None, ss1)
        else if sk_low s1 \<noteq> [] then do {
          (r, ss2) \<leftarrow> send_list K n PRIORITY_LOW ss1;
          if r \<noteq> None then Some (r, ss2)
          else if list_uncomplete (sk_low (ss_slot ss2 n))
          then map_option (\<lambda>s. (None, set_slot n s ss2)) (raise_uncomplete (ss_slot ss2 n))
          else Some (None, ss2)
        }
        else
          let ss2 = sp_write (sk_fd s1) n False ss1 in
          if sk_type s1 = ST_HALFCLOSE then map_option (\<lambda>(m, ss3). (Some (SR_CLOSE, m), ss3)) (force_close n ss2)
          else Some (None, ss2)
      })"

text \<open>\<open>append_sendbuffer_\<close>: the buffer goes to the end of a list, with its first \<open>c\<close> bytes sent already.\<close>

definition append_sendbuffer_aux :: "priority \<Rightarrow> buffer_packet \<Rightarrow> bytes \<Rightarrow> bytes \<Rightarrow> nat \<Rightarrow> socket \<Rightarrow> socket" where
  "append_sendbuffer_aux p pk so udp_address c s =
     (let buf = \<lparr>wb_packet = pk, wb_ptr = c, wb_sz = length so - c, wb_udp_address = udp_address\<rparr> in
      (set_list p (get_list p s @ [buf]) s)\<lparr>sk_wb_size := sk_wb_size s + int (wb_sz buf)\<rparr>)"

definition append_sendbuffer_udp :: "priority \<Rightarrow> buffer_packet \<Rightarrow> bytes \<Rightarrow> bytes \<Rightarrow> socket \<Rightarrow> socket" where
  "append_sendbuffer_udp p pk so udp_address s = append_sendbuffer_aux p pk so udp_address 0 s"

definition append_sendbuffer :: "buffer_packet \<Rightarrow> bytes \<Rightarrow> nat \<Rightarrow> socket \<Rightarrow> socket" where
  "append_sendbuffer pk so c s = append_sendbuffer_aux PRIORITY_HIGH pk so [] c s"

definition append_sendbuffer_low :: "buffer_packet \<Rightarrow> bytes \<Rightarrow> socket \<Rightarrow> socket" where
  "append_sendbuffer_low pk so s = append_sendbuffer_aux PRIORITY_LOW pk so [] 0 s"

definition send_buffer_empty :: "socket \<Rightarrow> bool" where
  "send_buffer_empty s \<longleftrightarrow> sk_high s = [] \<and> sk_low s = []"

definition send_socket ::
  "'k kernel \<Rightarrow> int \<Rightarrow> buffer_packet \<Rightarrow> priority \<Rightarrow> bytes option \<Rightarrow> 'k socket_server \<Rightarrow> (reply \<times> 'k socket_server) option" where
  "send_socket K sid pk p udp_address ss = do {
     let n = HASH_ID sid;
     let s = ss_slot ss n;
     so \<leftarrow> send_object_init pk ss;
     if sk_type s = ST_INVALID \<or> sk_id s \<noteq> sid \<or> sk_type s = ST_HALFCLOSE \<or> sk_type s = ST_PACCEPT then
       Some (None, free_packet pk ss)
     else if sk_type s = ST_PLISTEN \<or> sk_type s = ST_LISTEN then
       Some (None, free_packet pk (note_event (Logged (''socket-server: write to listen fd '' @ fmt_d sid)) ss))
     else if send_buffer_empty s \<and> sk_type s = ST_CONNECTED then
       (if sk_protocol s = PROTOCOL_TCP then
          let (r, k) = k_write K (sk_fd s) so (ss_os ss);
              ss1 = ss\<lparr>ss_os := k\<rparr>
          in if \<exists>e. r = Inl e \<and> e \<noteq> EINTR \<and> e \<noteq> EAGAIN then do {
               let ss2 = note_event (Logged (''socket-server: write to '' @ fmt_d sid @ '' error'')) ss1;
               (m, ss3) \<leftarrow> force_close n ss2;
               Some (Some (SR_CLOSE, m), free_packet pk ss3)
             }
             else
               let c = (case r of Inl _ \<Rightarrow> 0 | Inr c \<Rightarrow> min c (length so));
                   ss2 = note_event (Wrote (sk_fd s) (take c so)) ss1
               in if c = length so then Some (None, free_packet pk ss2)
                  else Some (None, sp_write (sk_fd s) n True (set_slot n (append_sendbuffer pk so c s) ss2))
        else
          let address = (case udp_address of None \<Rightarrow> sk_udp_address s | Some a \<Rightarrow> a);
              (r, k) = k_sendto K (sk_fd s) so (udp_socket_address s address) (ss_os ss);
              ss1 = ss\<lparr>ss_os := k\<rparr>
          in if r \<noteq> Inr (length so)
             then Some (None, sp_write (sk_fd s) n True (set_slot n (append_sendbuffer_udp p pk so address s) ss1))
             else Some (None, free_packet pk (note_event (Sent_To (sk_fd s) so) ss1)))
     else
       Some (None, set_slot n
         (if sk_protocol s = PROTOCOL_TCP then
            (if p = PRIORITY_LOW then append_sendbuffer_low pk so s else append_sendbuffer pk so 0 s)
          else append_sendbuffer_udp p pk so (case udp_address of None \<Rightarrow> sk_udp_address s | Some a \<Rightarrow> a) s) ss)
   }"

section \<open>The other requests\<close>

text \<open>
  \<open>open_socket\<close>: the addresses are tried in turn.  The result of the loop is the socket with the
  result of \<open>connect\<close> and the address, or the last error.
\<close>

fun connect_loop :: "'k kernel \<Rightarrow> nat list \<Rightarrow> errno \<Rightarrow> 'k socket_server \<Rightarrow> (errno + int \<times> bool \<times> nat) \<times> 'k socket_server" where
  "connect_loop K [] e ss = (Inl e, ss)"
| "connect_loop K (ai # ais) e ss =
     (let (r, k) = k_socket K ai (ss_os ss); ss1 = ss\<lparr>ss_os := k\<rparr> in
      case r of
        Inl e' \<Rightarrow> connect_loop K ais e' ss1
      | Inr sock \<Rightarrow>
          let (status, k2) = k_connect K sock ai (ss_os ss1); ss2 = ss1\<lparr>ss_os := k2\<rparr> in
          (case status of
             None \<Rightarrow> (Inr (sock, True, ai), ss2)
           | Some e' \<Rightarrow>
               if e' = EINPROGRESS then (Inr (sock, False, ai), ss2)
               else connect_loop K ais e' (close_fd sock ss2)))"

definition open_socket :: "'k kernel \<Rightarrow> int \<Rightarrow> string \<Rightarrow> int \<Rightarrow> u64 \<Rightarrow> 'k socket_server \<Rightarrow> (reply \<times> 'k socket_server) option" where
  "open_socket K sid host port opaque ss =
     (let n = HASH_ID sid;
          m = \<lparr>sr_id = sid, sr_opaque = opaque, sr_ud = 0, sr_data = No_Data\<rparr>;
          failed = (\<lambda>text ss. Some (Some (SR_ERROR, m\<lparr>sr_data := Info text\<rparr>), set_type n ST_INVALID ss));
          (r, k) = k_getaddrinfo K host port (ss_os ss);
          ss1 = ss\<lparr>ss_os := k\<rparr>
      in case r of
        Inl text \<Rightarrow> failed text ss1
      | Inr ais \<Rightarrow>
          (case connect_loop K ais (E_other []) ss1 of
             (Inl e, ss2) \<Rightarrow> failed (strerror e) ss2
           | (Inr (sock, connected, ai), ss2) \<Rightarrow> do {
               (ok, ss3) \<leftarrow> new_fd K sid sock PROTOCOL_TCP opaque True ss2;
               if \<not> ok then failed ''reach skynet socket number limit'' (close_fd sock ss3)
               else if connected then
                 Some (Some (SR_OPEN, m\<lparr>sr_data := (case k_ntop K ai of None \<Rightarrow> No_Data | Some t \<Rightarrow> Info t)\<rparr>),
                   set_type n ST_CONNECTED ss3)
               else Some (None, sp_write sock n True (set_type n ST_CONNECTING ss3))
             }))"

definition listen_socket :: "'k kernel \<Rightarrow> int \<Rightarrow> int \<Rightarrow> u64 \<Rightarrow> 'k socket_server \<Rightarrow> (reply \<times> 'k socket_server) option" where
  "listen_socket K sid fd opaque ss = do {
     let n = HASH_ID sid;
     (ok, ss1) \<leftarrow> new_fd K sid fd PROTOCOL_TCP opaque False ss;
     if ok then Some (None, set_type n ST_PLISTEN ss1)
     else Some (Some (SR_ERROR, \<lparr>sr_id = sid, sr_opaque = opaque, sr_ud = 0, sr_data = Info ''reach skynet socket number limit''\<rparr>),
       set_type n ST_INVALID (close_fd fd ss1))
   }"

definition close_socket :: "'k kernel \<Rightarrow> int \<Rightarrow> bool \<Rightarrow> u64 \<Rightarrow> 'k socket_server \<Rightarrow> (reply \<times> 'k socket_server) option" where
  "close_socket K sid shutdown opaque ss =
     (let n = HASH_ID sid; s = ss_slot ss n in
      if sk_type s = ST_INVALID \<or> sk_id s \<noteq> sid then
        Some (Some (SR_CLOSE, \<lparr>sr_id = sid, sr_opaque = opaque, sr_ud = 0, sr_data = No_Data\<rparr>), ss)
      else do {
        (r, ss1) \<leftarrow> (if send_buffer_empty s then Some (None, ss) else send_buffer K n ss);
        if r \<noteq> None then Some (r, ss1)
        else if shutdown \<or> send_buffer_empty (ss_slot ss1 n) then
          map_option (\<lambda>(m, ss2). (Some (SR_CLOSE, m\<lparr>sr_id := sid, sr_opaque := opaque\<rparr>), ss2)) (force_close n ss1)
        else Some (None, set_type n ST_HALFCLOSE ss1)
      })"

definition bind_socket :: "'k kernel \<Rightarrow> int \<Rightarrow> int \<Rightarrow> u64 \<Rightarrow> 'k socket_server \<Rightarrow> (reply \<times> 'k socket_server) option" where
  "bind_socket K sid fd opaque ss = do {
     (ok, ss1) \<leftarrow> new_fd K sid fd PROTOCOL_TCP opaque True ss;
     let m = \<lparr>sr_id = sid, sr_opaque = opaque, sr_ud = 0, sr_data = No_Data\<rparr>;
     if ok then Some (Some (SR_OPEN, m\<lparr>sr_data := Info ''binding''\<rparr>), set_type (HASH_ID sid) ST_BIND ss1)
     else Some (Some (SR_ERROR, m\<lparr>sr_data := Info ''reach skynet socket number limit''\<rparr>), ss1)
   }"

definition start_socket :: "'k kernel \<Rightarrow> int \<Rightarrow> u64 \<Rightarrow> 'k socket_server \<Rightarrow> (reply \<times> 'k socket_server) option" where
  "start_socket K sid opaque ss =
     (let n = HASH_ID sid; s = ss_slot ss n;
          m = \<lparr>sr_id = sid, sr_opaque = opaque, sr_ud = 0, sr_data = No_Data\<rparr>
      in if sk_type s = ST_INVALID \<or> sk_id s \<noteq> sid then Some (Some (SR_ERROR, m\<lparr>sr_data := Info ''invalid socket''\<rparr>), ss)
         else if sk_type s = ST_PACCEPT \<or> sk_type s = ST_PLISTEN then
           case sp_add K (sk_fd s) (Some n) ss of
             (Some e, ss1) \<Rightarrow> map_option (\<lambda>(m, ss2). (Some (SR_ERROR, m\<lparr>sr_data := Info (strerror e)\<rparr>), ss2)) (force_close n ss1)
           | (None, ss1) \<Rightarrow>
             Some (Some (SR_OPEN, m\<lparr>sr_data := Info ''start''\<rparr>), set_slot n (s\<lparr>
               sk_type := (if sk_type s = ST_PACCEPT then ST_CONNECTED else ST_LISTEN), sk_opaque := opaque\<rparr>) ss1)
         else if sk_type s = ST_CONNECTED then
           Some (Some (SR_OPEN, m\<lparr>sr_data := Info ''transfer''\<rparr>), set_slot n (s\<lparr>sk_opaque := opaque\<rparr>) ss)
         else Some (None, ss))"

definition setopt_socket :: "int \<Rightarrow> int \<Rightarrow> int \<Rightarrow> 'k socket_server \<Rightarrow> 'k socket_server" where
  "setopt_socket sid what v ss =
     (let s = ss_slot ss (HASH_ID sid) in
      if sk_type s = ST_INVALID \<or> sk_id s \<noteq> sid then ss else note_event (Set_Option (sk_fd s) what v) ss)"

definition add_udp_socket :: "'k kernel \<Rightarrow> int \<Rightarrow> int \<Rightarrow> bool \<Rightarrow> u64 \<Rightarrow> 'k socket_server \<Rightarrow> 'k socket_server option" where
  "add_udp_socket K sid fd v6 opaque ss = do {
     let n = HASH_ID sid;
     (ok, ss1) \<leftarrow> new_fd K sid fd (if v6 then PROTOCOL_UDPv6 else PROTOCOL_UDP) opaque True ss;
     if ok then Some (set_slot n ((ss_slot ss1 n)\<lparr>sk_type := ST_CONNECTED, sk_udp_address := replicate UDP_ADDRESS_SIZE 0\<rparr>) ss1)
     else Some (set_type n ST_INVALID (close_fd fd ss1))
   }"

definition set_udp_address :: "int \<Rightarrow> bytes \<Rightarrow> 'k socket_server \<Rightarrow> reply \<times> 'k socket_server" where
  "set_udp_address sid address ss =
     (let n = HASH_ID sid; s = ss_slot ss n in
      if sk_type s = ST_INVALID \<or> sk_id s \<noteq> sid then (None, ss)
      else if address ! 0 \<noteq> protocol_byte (sk_protocol s) then
        (Some (SR_ERROR, \<lparr>sr_id = sk_id s, sr_opaque = sk_opaque s, sr_ud = 0, sr_data = Info ''protocol mismatch''\<rparr>), ss)
      else
        let l = (if address ! 0 = protocol_byte PROTOCOL_UDP then 7 else 19) in
        (None, set_slot n (s\<lparr>sk_udp_address := take l address @ drop l (sk_udp_address s)\<rparr>) ss))"

text \<open>
  \<open>ctrl_cmd\<close>: the requests in the pipe are in the order in which they were written; a request is
  written and read in one piece, since it is shorter than \<open>PIPE_BUF\<close>.
\<close>

definition ctrl_cmd :: "'k kernel \<Rightarrow> 'k socket_server \<Rightarrow> (reply \<times> 'k socket_server) option" where
  "ctrl_cmd K ss = (case ss_ctrl ss of
       [] \<Rightarrow> None
     | req # reqs \<Rightarrow>
         let ss1 = ss\<lparr>ss_ctrl := reqs\<rparr> in
         (case req of
            Req_Start sid opaque \<Rightarrow> start_socket K sid opaque ss1
          | Req_Bind sid fd opaque \<Rightarrow> bind_socket K sid fd opaque ss1
          | Req_Listen sid fd opaque \<Rightarrow> listen_socket K sid fd opaque ss1
          | Req_Close sid shutdown opaque \<Rightarrow> close_socket K sid shutdown opaque ss1
          | Req_Open sid host port opaque \<Rightarrow> open_socket K sid host port opaque ss1
          | Req_Exit \<Rightarrow> Some (Some (SR_EXIT, \<lparr>sr_id = 0, sr_opaque = 0, sr_ud = 0, sr_data = No_Data\<rparr>), ss1)
          | Req_Send sid pk \<Rightarrow> send_socket K sid pk PRIORITY_HIGH None ss1
          | Req_Send_Low sid pk \<Rightarrow> send_socket K sid pk PRIORITY_LOW None ss1
          | Req_Send_UDP sid pk address \<Rightarrow> send_socket K sid pk PRIORITY_HIGH (Some address) ss1
          | Req_Set_UDP sid address \<Rightarrow> Some (set_udp_address sid address ss1)
          | Req_Setopt sid what v \<Rightarrow> Some (None, setopt_socket sid what v ss1)
          | Req_UDP sid fd v6 opaque \<Rightarrow> map_option (\<lambda>ss2. (None, ss2)) (add_udp_socket K sid fd v6 opaque ss1)))"

section \<open>Receiving\<close>

definition forward_message_tcp :: "'k kernel \<Rightarrow> nat \<Rightarrow> 'k socket_server \<Rightarrow> (reply \<times> 'k socket_server) option" where
  "forward_message_tcp K n ss =
     (let s = ss_slot ss n;
          sz = sk_psize s;
          (r, k) = k_read K (sk_fd s) (nat sz) (ss_os ss);
          ss1 = ss\<lparr>ss_os := k\<rparr>
      in case r of
        Inl e \<Rightarrow>
          if e = EINTR then Some (None, ss1)
          else if e = EAGAIN then Some (None, note_event (Logged ''socket-server: EAGAIN capture.'') ss1)
          else map_option (\<lambda>(m, ss2). (Some (SR_ERROR, m\<lparr>sr_data := Info (strerror e)\<rparr>), ss2)) (force_close n ss1)
      | Inr data \<Rightarrow>
          let bs = take (nat sz) data; c = int (length bs) in
          if c = 0 then map_option (\<lambda>(m, ss2). (Some (SR_CLOSE, m), ss2)) (force_close n ss1)
          else if sk_type s = ST_HALFCLOSE then Some (None, ss1)
          else
            let s2 = (if c = sz then s\<lparr>sk_psize := sz * 2\<rparr>
                      else if sz > MIN_READ_BUFFER \<and> c * 2 < sz then s\<lparr>sk_psize := sz div 2\<rparr> else s)
            in Some (Some (SR_DATA, \<lparr>sr_id = sk_id s, sr_opaque = sk_opaque s, sr_ud = c, sr_data = Received bs\<rparr>), set_slot n s2 ss1))"

text \<open>\<open>gen_udp_address\<close>: the byte for the protocol before port and address.\<close>

definition gen_udp_address :: "protocol \<Rightarrow> bytes \<Rightarrow> bytes" where
  "gen_udp_address protocol port_address = protocol_byte protocol # take (if protocol = PROTOCOL_UDP then 6 else 18) port_address"

text \<open>A datagram comes with a flag for IPv6 and the port and address of its sender, which follow the data.\<close>

definition forward_message_udp :: "'k kernel \<Rightarrow> nat \<Rightarrow> 'k socket_server \<Rightarrow> (reply \<times> 'k socket_server) option" where
  "forward_message_udp K n ss =
     (let s = ss_slot ss n;
          (r, k) = k_recvfrom K (sk_fd s) (ss_os ss);
          ss1 = ss\<lparr>ss_os := k\<rparr>
      in case r of
        Inl e \<Rightarrow>
          if e = EINTR \<or> e = EAGAIN then Some (None, ss1)
          else map_option (\<lambda>(m, ss2). (Some (SR_ERROR, m\<lparr>sr_data := Info (strerror e)\<rparr>), ss2)) (force_close n ss1)
      | Inr (data, v6, sa) \<Rightarrow>
          let protocol = (if v6 then PROTOCOL_UDPv6 else PROTOCOL_UDP); bs = take 65535 data in
          if sk_protocol s \<noteq> protocol then Some (None, ss1)
          else Some (Some (SR_UDP, \<lparr>sr_id = sk_id s, sr_opaque = sk_opaque s, sr_ud = int (length bs),
            sr_data = Received (bs @ gen_udp_address protocol sa)\<rparr>), ss1))"

definition report_connect :: "'k kernel \<Rightarrow> nat \<Rightarrow> 'k socket_server \<Rightarrow> (reply \<times> 'k socket_server) option" where
  "report_connect K n ss =
     (let s = ss_slot ss n;
          (e, k) = k_so_error K (sk_fd s) (ss_os ss);
          ss1 = ss\<lparr>ss_os := k\<rparr>
      in case e of
        Some text \<Rightarrow> map_option (\<lambda>(m, ss2). (Some (SR_ERROR, m\<lparr>sr_data := Info text\<rparr>), ss2)) (force_close n ss1)
      | None \<Rightarrow>
          let ss2 = set_type n ST_CONNECTED ss1;
              ss3 = (if send_buffer_empty s then sp_write (sk_fd s) n False ss2 else ss2);
              (name, k2) = k_peername K (sk_fd s) (ss_os ss3)
          in Some (Some (SR_OPEN, \<lparr>sr_id = sk_id s, sr_opaque = sk_opaque s, sr_ud = 0,
               sr_data = (case name of None \<Rightarrow> No_Data | Some t \<Rightarrow> Info t)\<rparr>), ss3\<lparr>ss_os := k2\<rparr>))"

text \<open>The result of \<open>report_accept\<close>: a reply for 1 (an accepted connection) and for -1 (no descriptor is free).\<close>

definition report_accept :: "'k kernel \<Rightarrow> nat \<Rightarrow> 'k socket_server \<Rightarrow> (reply \<times> 'k socket_server) option" where
  "report_accept K n ss =
     (let s = ss_slot ss n;
          (r, k) = k_accept K (sk_fd s) (ss_os ss);
          ss1 = ss\<lparr>ss_os := k\<rparr>
      in case r of
        Inl e \<Rightarrow>
          if e = EMFILE \<or> e = ENFILE
          then Some (Some (SR_ERROR, \<lparr>sr_id = sk_id s, sr_opaque = sk_opaque s, sr_ud = 0, sr_data = Info (strerror e)\<rparr>), ss1)
          else Some (None, ss1)
      | Inr (client_fd, name) \<Rightarrow>
          let (sid, ss2) = reserve_id ss1 in
          if sid < 0 then Some (None, close_fd client_fd ss2)
          else do {
            (ok, ss3) \<leftarrow> new_fd K sid client_fd PROTOCOL_TCP (sk_opaque s) False ss2;
            if \<not> ok then Some (None, close_fd client_fd ss3)
            else Some (Some (SR_ACCEPT, \<lparr>sr_id = sk_id s, sr_opaque = sk_opaque s, sr_ud = sid,
              sr_data = (case name of None \<Rightarrow> No_Data | Some t \<Rightarrow> Info t)\<rparr>), set_type (HASH_ID sid) ST_PACCEPT ss3)
          })"

section \<open>The loop of the socket thread\<close>

text \<open>\<open>clear_closed_event\<close>: the first waiting event of a socket that was just closed is made void.\<close>

fun clear_event :: "(nat \<Rightarrow> socket) \<Rightarrow> int \<Rightarrow> event list \<Rightarrow> event list" where
  "clear_event slot sid [] = []"
| "clear_event slot sid (e # es) =
     (case ev_s e of
        Some n \<Rightarrow>
          if sk_type (slot n) = ST_INVALID \<and> sk_id (slot n) = sid then e\<lparr>ev_s := None\<rparr> # es
          else e # clear_event slot sid es
      | None \<Rightarrow> e # clear_event slot sid es)"

definition clear_closed_event :: "reply \<Rightarrow> 'k socket_server \<Rightarrow> 'k socket_server" where
  "clear_closed_event r ss = (case r of
       Some (t, m) \<Rightarrow>
         if t = SR_CLOSE \<or> t = SR_ERROR
         then ss\<lparr>ss_ev := take (ss_event_index ss) (ss_ev ss) @ clear_event (ss_slot ss) (sr_id m) (drop (ss_event_index ss) (ss_ev ss))\<rparr>
         else ss
     | None \<Rightarrow> ss)"

text \<open>
  One turn of the loop of \<open>socket_server_poll\<close> either goes round again or returns.  \<open>mf\<close> is the flag
  \<open>more\<close> of the caller; the number of events (\<open>event_n\<close>) is the length of \<open>ss_ev\<close>.
\<close>

datatype turn = Again | Return reply

definition has_cmd :: "'k socket_server \<Rightarrow> bool" where
  "has_cmd ss \<longleftrightarrow> ss_ctrl ss \<noteq> []"

definition return_unless_nothing :: "(reply \<times> 'k socket_server) option \<Rightarrow> (turn \<times> 'k socket_server) option" where
  "return_unless_nothing r = map_option (\<lambda>(r, ss). (if r = None then Again else Return r, ss)) r"

definition dispatch_event :: "'k kernel \<Rightarrow> 'k socket_server \<Rightarrow> (turn \<times> 'k socket_server) option" where
  "dispatch_event K ss =
     (let e = ss_ev ss ! ss_event_index ss;
          ss1 = ss\<lparr>ss_event_index := ss_event_index ss + 1\<rparr>
      in case ev_s e of
        None \<Rightarrow> Some (Again, ss1)
      | Some n \<Rightarrow>
          let s = ss_slot ss1 n in
          if sk_type s = ST_CONNECTING then map_option (\<lambda>(r, ss2). (Return r, ss2)) (report_connect K n ss1)
          else if sk_type s = ST_LISTEN then return_unless_nothing (report_accept K n ss1)
          else if sk_type s = ST_INVALID then Some (Again, note_event (Logged ''socket-server: invalid socket'') ss1)
          else if ev_read e then do {
            (r, ss2) \<leftarrow> (if sk_protocol s = PROTOCOL_TCP then forward_message_tcp K n ss1 else forward_message_udp K n ss1);
            if sk_protocol s \<noteq> PROTOCOL_TCP \<and> (\<exists>m. r = Some (SR_UDP, m)) then
              Some (Return r, ss2\<lparr>ss_event_index := ss_event_index ss2 - 1\<rparr>)
            else
              let ss3 = (if ev_write e \<and> (case r of None \<Rightarrow> True | Some (t, _) \<Rightarrow> t \<noteq> SR_CLOSE \<and> t \<noteq> SR_ERROR)
                         then ss2\<lparr>ss_event_index := ss_event_index ss2 - 1, ss_ev := (ss_ev ss2)[ss_event_index ss2 - 1 := e\<lparr>ev_read := False\<rparr>]\<rparr>
                         else ss2)
              in Some (if r = None then Again else Return r, ss3)
          }
          else if ev_write e then return_unless_nothing (send_buffer K n ss1)
          else Some (Again, ss1))"

definition poll_turn :: "'k kernel \<Rightarrow> bool \<Rightarrow> 'k socket_server \<Rightarrow> (turn \<times> bool \<times> 'k socket_server) option" where
  "poll_turn K mf ss =
     (if ss_checkctrl ss \<and> has_cmd ss then do {
        (r, ss1) \<leftarrow> ctrl_cmd K ss;
        if r \<noteq> None then Some (Return r, mf, clear_closed_event r ss1) else Some (Again, mf, ss1)
      }
      else
        let ss0 = ss\<lparr>ss_checkctrl := False\<rparr> in
        if ss_event_index ss0 = length (ss_ev ss0) then
          let (es, ss1) = sp_wait K ss0;
              ss2 = ss1\<lparr>ss_checkctrl := True, ss_event_index := 0, ss_ev := es\<rparr>
          in if es = [] then Some (Return None, False, ss2)
             else map_option (\<lambda>(t, ss3). (t, False, ss3)) (dispatch_event K ss2)
        else map_option (\<lambda>(t, ss3). (t, mf, ss3)) (dispatch_event K ss0))"

partial_function (option) socket_server_poll :: "'k kernel \<Rightarrow> bool \<Rightarrow> 'k socket_server \<Rightarrow> (reply \<times> bool \<times> 'k socket_server) option" where
  "socket_server_poll K mf ss =
     Option.bind (poll_turn K mf ss) (\<lambda>(t, mf', ss').
       case t of Return r \<Rightarrow> Some (r, mf', ss') | Again \<Rightarrow> socket_server_poll K mf' ss')"

section \<open>What worker threads call\<close>

definition send_request :: "request \<Rightarrow> 'k socket_server \<Rightarrow> 'k socket_server" where
  "send_request req ss = ss\<lparr>ss_ctrl := ss_ctrl ss @ [req]\<rparr>"

text \<open>\<open>sizeof(request.u.open)\<close> on a machine of 64 bits, with padding.\<close>

definition SIZEOF_OPEN :: nat where "SIZEOF_OPEN = 24"

definition socket_server_connect :: "u64 \<Rightarrow> string \<Rightarrow> int \<Rightarrow> 'k socket_server \<Rightarrow> int \<times> 'k socket_server" where
  "socket_server_connect opaque host port ss =
     (if length host + SIZEOF_OPEN \<ge> 256 then (- 1, note_event (Logged (''socket-server : Invalid addr '' @ host)) ss)
      else let (sid, ss1) = reserve_id ss in
        if sid < 0 then (- 1, ss1) else (sid, send_request (Req_Open sid host port opaque) ss1))"

definition free_buffer :: "buffer_packet \<Rightarrow> 'k socket_server \<Rightarrow> 'k socket_server option" where
  "free_buffer pk ss = map_option (\<lambda>_. free_packet pk ss) (send_object_init pk ss)"

definition socket_server_send :: "int \<Rightarrow> buffer_packet \<Rightarrow> 'k socket_server \<Rightarrow> (int \<times> 'k socket_server) option" where
  "socket_server_send sid pk ss =
     (let s = ss_slot ss (HASH_ID sid) in
      if sk_id s \<noteq> sid \<or> sk_type s = ST_INVALID then map_option (\<lambda>ss'. (- 1, ss')) (free_buffer pk ss)
      else Some (sk_wb_size s, send_request (Req_Send sid pk) ss))"

definition socket_server_send_lowpriority :: "int \<Rightarrow> buffer_packet \<Rightarrow> 'k socket_server \<Rightarrow> 'k socket_server option" where
  "socket_server_send_lowpriority sid pk ss =
     (let s = ss_slot ss (HASH_ID sid) in
      if sk_id s \<noteq> sid \<or> sk_type s = ST_INVALID then free_buffer pk ss
      else Some (send_request (Req_Send_Low sid pk) ss))"

definition socket_server_exit :: "'k socket_server \<Rightarrow> 'k socket_server" where
  "socket_server_exit ss = send_request Req_Exit ss"

definition socket_server_close :: "u64 \<Rightarrow> int \<Rightarrow> 'k socket_server \<Rightarrow> 'k socket_server" where
  "socket_server_close opaque sid ss = send_request (Req_Close sid False opaque) ss"

definition socket_server_shutdown :: "u64 \<Rightarrow> int \<Rightarrow> 'k socket_server \<Rightarrow> 'k socket_server" where
  "socket_server_shutdown opaque sid ss = send_request (Req_Close sid True opaque) ss"

text \<open>\<open>do_bind\<close>: the descriptor bound to the first address found and whether it is one of IPv6.\<close>

definition do_bind :: "'k kernel \<Rightarrow> string \<Rightarrow> int \<Rightarrow> 'k socket_server \<Rightarrow> (int \<times> bool) option \<times> 'k socket_server" where
  "do_bind K host port ss =
     (let host' = (if host = [] then ''0.0.0.0'' else host);
          (r, k) = k_getaddrinfo K host' port (ss_os ss);
          ss1 = ss\<lparr>ss_os := k\<rparr>
      in case r of
        Inl _ \<Rightarrow> (None, ss1)
      | Inr ais \<Rightarrow>
          let ai = hd ais; (r, k) = k_socket K ai (ss_os ss1); ss2 = ss1\<lparr>ss_os := k\<rparr> in
          (case r of
             Inl _ \<Rightarrow> (None, ss2)
           | Inr fd \<Rightarrow>
               let (ok, k) = k_bind K fd ai (ss_os ss2); ss3 = ss2\<lparr>ss_os := k\<rparr> in
               if ok then (Some (fd, k_is_v6 K ai), ss3) else (None, close_fd fd ss3)))"

definition do_listen :: "'k kernel \<Rightarrow> string \<Rightarrow> int \<Rightarrow> int \<Rightarrow> 'k socket_server \<Rightarrow> int \<times> 'k socket_server" where
  "do_listen K host port backlog ss =
     (case do_bind K host port ss of
        (None, ss1) \<Rightarrow> (- 1, ss1)
      | (Some (fd, _), ss1) \<Rightarrow>
          let (ok, k) = k_listen K fd backlog (ss_os ss1); ss2 = ss1\<lparr>ss_os := k\<rparr> in
          if ok then (fd, ss2) else (- 1, close_fd fd ss2))"

definition socket_server_listen :: "'k kernel \<Rightarrow> u64 \<Rightarrow> string \<Rightarrow> int \<Rightarrow> int \<Rightarrow> 'k socket_server \<Rightarrow> int \<times> 'k socket_server" where
  "socket_server_listen K opaque host port backlog ss =
     (let (fd, ss1) = do_listen K host port backlog ss in
      if fd < 0 then (- 1, ss1)
      else let (sid, ss2) = reserve_id ss1 in
        if sid < 0 then (sid, close_fd fd ss2) else (sid, send_request (Req_Listen sid fd opaque) ss2))"

definition socket_server_bind :: "u64 \<Rightarrow> int \<Rightarrow> 'k socket_server \<Rightarrow> int \<times> 'k socket_server" where
  "socket_server_bind opaque fd ss =
     (let (sid, ss1) = reserve_id ss in
      if sid < 0 then (- 1, ss1) else (sid, send_request (Req_Bind sid fd opaque) ss1))"

definition socket_server_start :: "u64 \<Rightarrow> int \<Rightarrow> 'k socket_server \<Rightarrow> 'k socket_server" where
  "socket_server_start opaque sid ss = send_request (Req_Start sid opaque) ss"

definition TCP_NODELAY :: int where "TCP_NODELAY = 1"

definition socket_server_nodelay :: "int \<Rightarrow> 'k socket_server \<Rightarrow> 'k socket_server" where
  "socket_server_nodelay sid ss = send_request (Req_Setopt sid TCP_NODELAY 1) ss"

definition socket_server_userobject :: "'k socket_server \<Rightarrow> 'k socket_server" where
  "socket_server_userobject ss = ss\<lparr>ss_soi := True\<rparr>"

text \<open>Without an address and a port the socket is not bound; the kernel's address 0 stands for IPv4.\<close>

definition socket_server_udp :: "'k kernel \<Rightarrow> u64 \<Rightarrow> string option \<Rightarrow> int \<Rightarrow> 'k socket_server \<Rightarrow> int \<times> 'k socket_server" where
  "socket_server_udp K opaque host port ss =
     (let (r, ss1) =
        (if port \<noteq> 0 \<or> host \<noteq> None then do_bind K (case host of None \<Rightarrow> [] | Some h \<Rightarrow> h) port ss
         else let (r, k) = k_socket K 0 (ss_os ss) in
           (case r of Inl _ \<Rightarrow> None | Inr fd \<Rightarrow> Some (fd, False), ss\<lparr>ss_os := k\<rparr>))
      in case r of
        None \<Rightarrow> (- 1, ss1)
      | Some (fd, v6) \<Rightarrow>
          let (sid, ss2) = reserve_id ss1 in
          if sid < 0 then (- 1, close_fd fd ss2) else (sid, send_request (Req_UDP sid fd v6 opaque) ss2))"

text \<open>The length of an address that starts with the byte for a protocol.\<close>

definition udp_address_size :: "bytes \<Rightarrow> nat option" where
  "udp_address_size address =
     (if address ! 0 = protocol_byte PROTOCOL_UDP then Some 7
      else if address ! 0 = protocol_byte PROTOCOL_UDPv6 then Some 19 else None)"

definition socket_server_udp_send :: "int \<Rightarrow> bytes \<Rightarrow> buffer_packet \<Rightarrow> 'k socket_server \<Rightarrow> (int \<times> 'k socket_server) option" where
  "socket_server_udp_send sid address pk ss =
     (let s = ss_slot ss (HASH_ID sid) in
      if sk_id s \<noteq> sid \<or> sk_type s = ST_INVALID then map_option (\<lambda>ss'. (- 1, ss')) (free_buffer pk ss)
      else case udp_address_size address of
        None \<Rightarrow> map_option (\<lambda>ss'. (- 1, ss')) (free_buffer pk ss)
      | Some l \<Rightarrow> Some (sk_wb_size s, send_request (Req_Send_UDP sid pk (take l address)) ss))"

definition socket_server_udp_connect :: "'k kernel \<Rightarrow> int \<Rightarrow> string \<Rightarrow> int \<Rightarrow> 'k socket_server \<Rightarrow> int \<times> 'k socket_server" where
  "socket_server_udp_connect K sid host port ss =
     (let (r, k) = k_getaddrinfo K host port (ss_os ss); ss1 = ss\<lparr>ss_os := k\<rparr> in
      case r of
        Inl _ \<Rightarrow> (- 1, ss1)
      | Inr ais \<Rightarrow>
          let protocol = (if k_is_v6 K (hd ais) then PROTOCOL_UDPv6 else PROTOCOL_UDP) in
          (0, send_request (Req_Set_UDP sid (gen_udp_address protocol (k_port_address K (hd ais)))) ss1))"

text \<open>The address behind the data of a received datagram.\<close>

definition socket_server_udp_address :: "bytes \<Rightarrow> int \<Rightarrow> bytes option" where
  "socket_server_udp_address data ud =
     (let address = drop (nat ud) data in map_option (\<lambda>l. take l address) (udp_address_size address))"

definition socket_server_release :: "'k socket_server \<Rightarrow> 'k socket_server option" where
  "socket_server_release ss = map_option (\<lambda>ss1. close_fd (ss_recvctrl_fd ss1) (close_fd (ss_sendctrl_fd ss1) ss1))
     (fold (\<lambda>n r. Option.bind r (\<lambda>ss. if sk_type (ss_slot ss n) \<noteq> ST_RESERVE then map_option snd (force_close n ss) else Some ss))
       [0..<MAX_SOCKET] (Some ss))"

end
