(* ===== verification/SocketStream.thy ===== *)
theory SocketStream
  imports SocketServer "HOL-Library.Multiset"
begin

text \<open>
  What the socket server does with the packets of one TCP connection: the bytes the kernel gets are the packets,
  whole and in an order that the priorities allow, every buffer is freed once, and unsent data keeps the
  descriptor watched for writing.
\<close>

section \<open>Observations\<close>

definition wire :: "int \<Rightarrow> trace_event list \<Rightarrow> bytes" where
  "wire fd tr = concat (map (\<lambda>e. case e of Wrote fd' bs \<Rightarrow> if fd' = fd then bs else [] | _ \<Rightarrow> []) tr)"

definition frees :: "trace_event list \<Rightarrow> addr multiset" where
  "frees tr = mset (concat (map (\<lambda>e. case e of Freed p \<Rightarrow> [p] | _ \<Rightarrow> []) tr))"

lemma wire_simps [simp]:
  "wire fd [] = []" "wire fd (tr @ tr') = wire fd tr @ wire fd tr'"
  "wire fd (Wrote fd' bs # tr) = (if fd' = fd then bs else []) @ wire fd tr" "wire fd (Freed p # tr) = wire fd tr"
  "wire fd (Closed fd' # tr) = wire fd tr" "wire fd (Logged t # tr) = wire fd tr"
  by (simp_all add: wire_def)

lemma frees_simps [simp]:
  "frees [] = {#}" "frees (tr @ tr') = frees tr + frees tr'" "frees (Wrote fd bs # tr) = frees tr"
  "frees (Freed p # tr) = add_mset p (frees tr)" "frees (Closed fd' # tr) = frees tr" "frees (Logged t # tr) = frees tr"
  by (simp_all add: frees_def)

definition wb_ok :: "write_buffer \<Rightarrow> bool" where
  "wb_ok wb \<longleftrightarrow> wb_ptr wb + wb_sz wb = length (pk_bytes (wb_packet wb))"

definition wb_addr :: "write_buffer \<Rightarrow> addr" where
  "wb_addr wb = pk_buffer (wb_packet wb)"

definition rests :: "write_buffer list \<Rightarrow> bytes" where
  "rests l = concat (map wb_rest l)"

lemma rests_simps [simp]: "rests [] = []" "rests (wb # l) = wb_rest wb @ rests l" "rests (l @ l') = rests l @ rests l'"
  by (simp_all add: rests_def)

lemma length_wb_rest: "wb_ok wb \<Longrightarrow> length (wb_rest wb) = wb_sz wb"
  by (simp add: wb_ok_def wb_rest_def)

lemma wb_rest_advance:
  assumes "wb_ok wb" "c \<le> wb_sz wb"
  shows "wb_rest wb = take c (wb_rest wb) @ wb_rest (wb\<lparr>wb_ptr := wb_ptr wb + c, wb_sz := wb_sz wb - c\<rparr>)"
    "wb_ok (wb\<lparr>wb_ptr := wb_ptr wb + c, wb_sz := wb_sz wb - c\<rparr>)"
  using assms append_take_drop_id [of c "wb_rest wb"]
  by (simp_all add: wb_rest_def wb_ok_def drop_take add.commute)

lemma get_set_list [simp]:
  "get_list p (set_list p l s) = l" "sk_fd (set_list p l s) = sk_fd s" "sk_type (set_list p l s) = sk_type s"
  "sk_id (set_list p l s) = sk_id s" "sk_protocol (set_list p l s) = sk_protocol s" "sk_opaque (set_list p l s) = sk_opaque s"
  "sk_wb_size (set_list p l s) = sk_wb_size s" "set_list p l (set_list p l' s) = set_list p l s"
  "get_list p (s\<lparr>sk_wb_size := w\<rparr>) = get_list p s"
  "(set_list p l s)\<lparr>sk_wb_size := w\<rparr> = set_list p l (s\<lparr>sk_wb_size := w\<rparr>)"
  by (simp_all add: get_list_def set_list_def split: priority.split)

lemma set_list_same: "get_list p s = l \<Longrightarrow> set_list p l s = s"
  by (auto simp: get_list_def set_list_def split: priority.splits)

lemma fold_free:
  "free_wb_list l ss = ss\<lparr>ss_trace := ss_trace ss @ map (Freed \<circ> wb_addr) l\<rparr>"
  unfolding free_wb_list_def
  by (induction l arbitrary: ss) (simp_all add: write_buffer_free_def free_packet_def note_event_def wb_addr_def)

lemma frees_map [simp]: "frees (map (Freed \<circ> wb_addr) l) = mset (map wb_addr l)"
  by (induction l) (simp_all add: frees_def)

lemma wire_map [simp]: "wire fd (map (Freed \<circ> wb_addr) l) = []"
  by (induction l) (simp_all add: wire_def)

text \<open>Closing a socket that is not only reserved: the buffers are freed and the slot is free.\<close>

lemma force_close_ok:
  assumes "sk_type (ss_slot ss n) \<notin> {ST_INVALID, ST_RESERVE}"
  shows "\<exists>m ss'. force_close n ss = Some (m, ss') \<and> sk_type (ss_slot ss' n) = ST_INVALID \<and>
    sk_high (ss_slot ss' n) = [] \<and> sk_low (ss_slot ss' n) = [] \<and> (\<forall>i. i \<noteq> n \<longrightarrow> ss_slot ss' i = ss_slot ss i) \<and>
    wire fd (ss_trace ss') = wire fd (ss_trace ss) \<and>
    frees (ss_trace ss') = frees (ss_trace ss) + mset (map wb_addr (sk_high (ss_slot ss n) @ sk_low (ss_slot ss n)))"
  using assms
  by (auto simp: force_close_def Let_def fold_free set_slot_def close_fd_def sp_del_def note_event_def split: if_splits)

section \<open>One pass over a list of buffers\<close>

text \<open>The state after some bytes were written: only the list, the count and what is observed have changed.\<close>

definition sent_state :: "nat \<Rightarrow> priority \<Rightarrow> write_buffer list \<Rightarrow> nat \<Rightarrow> 'k \<Rightarrow> trace_event list \<Rightarrow> 'k socket_server \<Rightarrow> 'k socket_server" where
  "sent_state n p l c k tr ss = ss\<lparr>ss_os := k, ss_trace := ss_trace ss @ tr,
     ss_slot := (ss_slot ss)(n := set_list p l ((ss_slot ss n)\<lparr>sk_wb_size := sk_wb_size (ss_slot ss n) - int c\<rparr>))\<rparr>"

lemma sent_state_simps [simp]:
  "ss_slot (sent_state n p l c k tr ss) n = set_list p l ((ss_slot ss n)\<lparr>sk_wb_size := sk_wb_size (ss_slot ss n) - int c\<rparr>)"
  "i \<noteq> n \<Longrightarrow> ss_slot (sent_state n p l c k tr ss) i = ss_slot ss i"
  "ss_trace (sent_state n p l c k tr ss) = ss_trace ss @ tr" "ss_watch (sent_state n p l c k tr ss) = ss_watch ss"
  "ss_soi (sent_state n p l c k tr ss) = ss_soi ss" "ss_os (sent_state n p l c k tr ss) = k"
  "sent_state n p l' c' k' tr' (sent_state n p l c k tr ss) = sent_state n p l' (c + c') k' (tr @ tr') ss"
  by (simp_all add: sent_state_def algebra_simps)

text \<open>A write is not interrupted for ever.\<close>

definition writes_return :: "'k kernel \<Rightarrow> bool" where
  "writes_return K \<longleftrightarrow> (\<forall>fd bs k. write_retry K fd bs k \<noteq> None)"

lemma write_retry_le:
  assumes "write_retry K fd bs k = Some (Inr c, k')"
  shows "c \<le> length bs"
proof -
  have "\<forall>c k'. r = (Inr c, k') \<longrightarrow> c \<le> length bs" if "write_retry K fd bs k = Some r" for r
    using that
    by (rule write_retry.raw_induct [rotated]) (auto split: prod.splits sum.splits if_splits)
  with assms show ?thesis by simp
qed

text \<open>
  \<open>sent_part fd l tr l'\<close>: with the events \<open>tr\<close> some bytes of the buffers \<open>l\<close> were written to \<open>fd\<close>, and \<open>l'\<close> are
  left: the last buffers, the first of which may be sent in part.
\<close>

definition sent_part :: "int \<Rightarrow> write_buffer list \<Rightarrow> trace_event list \<Rightarrow> write_buffer list \<Rightarrow> bool" where
  "sent_part fd l tr l' \<longleftrightarrow> rests l = wire fd tr @ rests l' \<and> list_all wb_ok l' \<and>
     mset (map wb_addr l) = frees tr + mset (map wb_addr l') \<and>
     (\<exists>pre post. l = pre @ post \<and> (l' = post \<or>
        (\<exists>w w' ws. post = w # ws \<and> l' = w' # ws \<and> wb_packet w' = wb_packet w \<and> wb_ptr w \<le> wb_ptr w')))"

lemma sent_part_none: "list_all wb_ok l \<Longrightarrow> sent_part fd l [] l"
  by (auto simp: sent_part_def intro: exI [of _ "[]"])

lemma sent_part_head:
  assumes "wb_ok tmp" "list_all wb_ok rest" "c \<le> wb_sz tmp"
  shows "sent_part fd (tmp # rest) [Wrote fd (take c (wb_rest tmp))] (tmp\<lparr>wb_ptr := wb_ptr tmp + c, wb_sz := wb_sz tmp - c\<rparr> # rest)"
  using wb_rest_advance [OF assms(1,3)] assms
  by (auto simp: sent_part_def wb_addr_def intro: exI [of _ "[]"])

lemma sent_part_Cons:
  assumes "sent_part fd rest tr l'"
  shows "sent_part fd (tmp # rest) ([Wrote fd (wb_rest tmp), Freed (wb_addr tmp)] @ tr) l'"
proof -
  obtain pre post where pp: "rest = pre @ post" "l' = post \<or>
      (\<exists>w w' ws. post = w # ws \<and> l' = w' # ws \<and> wb_packet w' = wb_packet w \<and> wb_ptr w \<le> wb_ptr w')"
    using assms unfolding sent_part_def by blast
  have "\<exists>pre post. tmp # rest = pre @ post \<and> (l' = post \<or>
      (\<exists>w w' ws. post = w # ws \<and> l' = w' # ws \<and> wb_packet w' = wb_packet w \<and> wb_ptr w \<le> wb_ptr w'))"
    by (intro exI [of _ "tmp # pre"] exI [of _ post] conjI pp(2)) (simp add: pp(1))
  then show ?thesis using assms unfolding sent_part_def by simp
qed

text \<open>The only errors of \<open>write\<close> are interruptions and a full buffer in the kernel.\<close>

definition errorless :: "'k kernel \<Rightarrow> bool" where
  "errorless K \<longleftrightarrow> (\<forall>fd bs k e k'. k_write K fd bs k = (Inl e, k') \<longrightarrow> e = EINTR \<or> e = EAGAIN)"

lemma errorlessD: "errorless K \<Longrightarrow> k_write K fd bs k = (Inl e, k') \<Longrightarrow> e \<noteq> EINTR \<Longrightarrow> e = EAGAIN"
  unfolding errorless_def by blast

text \<open>Reading finds data or nothing to read: the other side keeps its side of the connection open, and there is no error.\<close>

definition reads_go_on :: "'k kernel \<Rightarrow> bool" where
  "reads_go_on K \<longleftrightarrow> (\<forall>fd c k r k'. 0 < c \<longrightarrow> k_read K fd c k = (r, k') \<longrightarrow>
     (case r of Inl e \<Rightarrow> e = EINTR \<or> e = EAGAIN | Inr bs \<Rightarrow> bs \<noteq> []))"

lemma reads_go_onD:
  assumes "reads_go_on K" "0 < c"
  shows "k_read K fd c k = (Inl e, k') \<Longrightarrow> e \<noteq> EINTR \<Longrightarrow> e = EAGAIN" "k_read K fd c k = (Inr bs, k') \<Longrightarrow> bs \<noteq> []"
proof -
  have "case r of Inl e \<Rightarrow> e = EINTR \<or> e = EAGAIN | Inr bs \<Rightarrow> bs \<noteq> []" if "k_read K fd c k = (r, k')" for r k'
    using assms that unfolding reads_go_on_def by blast
  from this [of "Inl e" k'] this [of "Inr bs" k']
  show "k_read K fd c k = (Inl e, k') \<Longrightarrow> e \<noteq> EINTR \<Longrightarrow> e = EAGAIN" "k_read K fd c k = (Inr bs, k') \<Longrightarrow> bs \<noteq> []" by simp_all
qed

lemma write_retry_errorless:
  assumes "errorless K" "write_retry K fd bs k = Some (Inl e, k')"
  shows "e = EAGAIN"
proof -
  have "errorless K \<longrightarrow> (\<forall>e k'. r = (Inl e, k') \<longrightarrow> e = EAGAIN)" if "write_retry K fd bs k = Some r" for r
    using that
    by (rule write_retry.raw_induct [rotated]) (auto split: prod.splits sum.splits if_splits dest: errorlessD)
  with assms show ?thesis by simp
qed

definition sends_or_closes ::
  "'k kernel \<Rightarrow> nat \<Rightarrow> (reply \<times> 'k socket_server) option \<Rightarrow> 'k socket_server \<Rightarrow> bool" where
  "sends_or_closes K n res ss \<longleftrightarrow>
     res = Some (None, ss) \<or> \<not> errorless K \<and> res = map_option (\<lambda>(m, ss'). (Some (SR_CLOSE, m), ss')) (force_close n ss)"

lemma send_list_tcp_ok:
  assumes ret: "writes_return K" and "get_list p (ss_slot ss n) = l" "list_all wb_ok l"
  shows "\<exists>k tr l'. sends_or_closes K n (send_list_tcp K n p l ss)
      (sent_state n p l' (length (wire (sk_fd (ss_slot ss n)) tr)) k tr ss) \<and> sent_part (sk_fd (ss_slot ss n)) l tr l'"
  using assms(2,3)
proof (induction l arbitrary: ss)
  case Nil
  have "send_list_tcp K n p [] ss = Some (None, sent_state n p [] 0 (ss_os ss) [] ss)"
    using Nil(1) by (simp add: sent_state_def set_slot_def set_list_same)
  then show ?case using sent_part_none [of "[]"]
    by (intro exI [of _ "ss_os ss"] exI [of _ "[]"]) (simp add: sends_or_closes_def)
next
  case (Cons tmp rest)
  let ?s = "ss_slot ss n"
  let ?fd = "sk_fd ?s"
  have ok: "wb_ok tmp" "list_all wb_ok rest" using Cons.prems(2) by simp_all
  have same: "set_list p (tmp # rest) ?s = ?s" using Cons.prems(1) by (rule set_list_same)
  obtain r k where w: "write_retry K ?fd (wb_rest tmp) (ss_os ss) = Some (r, k)"
    using ret unfolding writes_return_def by fast
  show ?case
  proof (cases r)
    case (Inl e)
    have st: "sent_state n p (tmp # rest) 0 k [] ss = ss\<lparr>ss_os := k\<rparr>" using same by (simp add: sent_state_def)
    have "sends_or_closes K n (send_list_tcp K n p (tmp # rest) ss) (sent_state n p (tmp # rest) 0 k [] ss)"
      unfolding st sends_or_closes_def using w Inl write_retry_errorless [of K ?fd "wb_rest tmp" "ss_os ss" e k]
      by (auto simp: Let_def)
    then show ?thesis using sent_part_none [OF Cons.prems(2)]
      by (intro exI [of _ k] exI [of _ "[]"] exI [of _ "tmp # rest"]) simp
  next
    case (Inr sz)
    have le: "sz \<le> wb_sz tmp" using write_retry_le [OF w [unfolded Inr]] length_wb_rest [OF ok(1)] by simp
    have len: "length (take sz (wb_rest tmp)) = sz" using le length_wb_rest [OF ok(1)] by simp
    show ?thesis
    proof (cases "sz = wb_sz tmp")
      case False
      have "send_list_tcp K n p (tmp # rest) ss = Some (None, sent_state n p
          (tmp\<lparr>wb_ptr := wb_ptr tmp + sz, wb_sz := wb_sz tmp - sz\<rparr> # rest) sz k [Wrote ?fd (take sz (wb_rest tmp))] ss)"
        using w Inr False by (simp add: sent_state_def note_event_def set_slot_def Let_def)
      then show ?thesis using sent_part_head [OF ok le, of ?fd] len
        by (intro exI [of _ k] exI [of _ "[Wrote ?fd (take sz (wb_rest tmp))]"]
          exI [of _ "tmp\<lparr>wb_ptr := wb_ptr tmp + sz, wb_sz := wb_sz tmp - sz\<rparr> # rest"]) (simp add: sends_or_closes_def)
    next
      case True
      have all: "take sz (wb_rest tmp) = wb_rest tmp" using True length_wb_rest [OF ok(1)] by simp
      let ?tr = "[Wrote ?fd (wb_rest tmp), Freed (wb_addr tmp)]"
      let ?ss = "sent_state n p rest sz k ?tr ss"
      have "write_buffer_free tmp (set_slot n (set_list p rest (?s\<lparr>sk_wb_size := sk_wb_size ?s - int sz\<rparr>))
          (note_event (Wrote ?fd (wb_rest tmp)) (ss\<lparr>ss_os := k\<rparr>))) = ?ss"
        by (rule socket_server.equality)
          (simp_all add: sent_state_def note_event_def set_slot_def write_buffer_free_def free_packet_def wb_addr_def)
      then have step: "send_list_tcp K n p (tmp # rest) ss = send_list_tcp K n p rest ?ss"
        using w Inr True all by (simp add: Let_def)
      have "get_list p (ss_slot ?ss n) = rest" "sk_fd (ss_slot ?ss n) = ?fd" by simp_all
      from Cons.IH [OF this(1) ok(2)] this(2) obtain k' tr l' where IH:
        "sends_or_closes K n (send_list_tcp K n p rest ?ss) (sent_state n p l' (length (wire ?fd tr)) k' tr ?ss)"
        "sent_part ?fd rest tr l'" by metis
      have "wire ?fd ?tr = wb_rest tmp" by (simp add: wire_def)
      then have "length (wire ?fd (?tr @ tr)) = sz + length (wire ?fd tr)" using True length_wb_rest [OF ok(1)] by simp
      then show ?thesis using IH(1) sent_part_Cons [OF IH(2)] unfolding step sent_state_simps
        by (intro exI [of _ k'] exI [of _ "?tr @ tr"] exI [of _ l']) simp
    qed
  qed
qed

section \<open>One connection\<close>

text \<open>What holds of a TCP connection in slot \<open>n\<close> between the turns of the loop.\<close>

definition wb_text :: "write_buffer \<Rightarrow> bytes" where
  "wb_text wb = pk_bytes (wb_packet wb)"

definition wb_whole :: "write_buffer \<Rightarrow> bool" where
  "wb_whole wb \<longleftrightarrow> wb_ptr wb = 0 \<and> \<not> pk_object (wb_packet wb)"

definition queue_ok :: "socket \<Rightarrow> bool" where
  "queue_ok s \<longleftrightarrow> list_all wb_ok (sk_high s) \<and> list_all wb_ok (sk_low s) \<and> list_all wb_whole (sk_low s) \<and>
     sk_wb_size s = int (length (rests (sk_high s) @ rests (sk_low s)))"

text \<open>A connection that still carries data; with \<open>rp\<close>, also one whose reads ask for at least one byte.\<close>

definition live :: "bool \<Rightarrow> socket \<Rightarrow> bool" where
  "live rp s \<longleftrightarrow> sk_type s \<in> {ST_CONNECTING, ST_CONNECTED, ST_HALFCLOSE} \<and> sk_protocol s = PROTOCOL_TCP \<and>
     (rp \<longrightarrow> 0 < sk_psize s)"

definition watched :: "nat \<Rightarrow> 'k socket_server \<Rightarrow> bool" where
  "watched n ss \<longleftrightarrow> (\<exists>w. ss_watch ss (sk_fd (ss_slot ss n)) = Some (Some n, w) \<and>
     (\<not> send_buffer_empty (ss_slot ss n) \<longrightarrow> w))"

definition conn_ok :: "bool \<Rightarrow> nat \<Rightarrow> 'k socket_server \<Rightarrow> bool" where
  "conn_ok rp n ss \<longleftrightarrow> live rp (ss_slot ss n) \<and> queue_ok (ss_slot ss n) \<and> watched n ss"

text \<open>
  \<open>stream s W highs lows\<close>: the bytes \<open>W\<close> have been written, and with the unsent rest of the high list they are
  whole packets \<open>A\<close>; these are all the high ones \<open>highs\<close> and those of the low ones \<open>lows\<close> that are not in
  the low list, both in their order.
\<close>

definition of_priority :: "priority \<Rightarrow> (priority \<times> bytes) list \<Rightarrow> bytes list" where
  "of_priority p A = map snd (filter (\<lambda>x. fst x = p) A)"

definition stream :: "socket \<Rightarrow> bytes \<Rightarrow> bytes list \<Rightarrow> bytes list \<Rightarrow> bool" where
  "stream s W highs lows \<longleftrightarrow> (\<exists>A. W @ rests (sk_high s) = concat (map snd A) \<and> of_priority PRIORITY_HIGH A = highs \<and>
     of_priority PRIORITY_LOW A @ map wb_text (sk_low s) = lows)"

lemma of_priority_simps [simp]:
  "of_priority p [] = []" "of_priority p (A @ B) = of_priority p A @ of_priority p B"
  "of_priority p [(q, b)] = (if q = p then [b] else [])"
  "of_priority p (map (\<lambda>x. (q, f x)) l) = (if q = p then map f l else [])"
proof -
  show "of_priority p (map (\<lambda>x. (q, f x)) l) = (if q = p then map f l else [])" by (induction l) (simp_all add: of_priority_def)
qed (simp_all add: of_priority_def)

lemma whole_rests: "list_all wb_ok l \<Longrightarrow> list_all wb_whole l \<Longrightarrow> map wb_rest l = map wb_text l"
  by (induction l) (simp_all add: wb_ok_def wb_whole_def wb_rest_def wb_text_def)

lemma stream_high:
  assumes "stream s W highs lows" "sent_part fd (sk_high s) tr l'" "sk_high s' = l'" "sk_low s' = sk_low s"
  shows "stream s' (W @ wire fd tr) highs lows"
  using assms by (auto simp: stream_def sent_part_def)

text \<open>Sending from the low list, while the high list is empty, with a buffer sent in part moved to the high list.\<close>

lemma stream_low:
  assumes str: "stream s W highs lows" and "sk_high s = []" and part: "sent_part fd (sk_low s) tr l'"
    and ok: "list_all wb_ok (sk_low s)" "list_all wb_whole (sk_low s)"
    and s': "list_uncomplete l' \<Longrightarrow> sk_high s' = [hd l'] \<and> sk_low s' = tl l'"
      "\<not> list_uncomplete l' \<Longrightarrow> sk_high s' = [] \<and> sk_low s' = l'"
  shows "stream s' (W @ wire fd tr) highs lows" "list_all wb_whole (sk_low s')"
proof -
  obtain A where A: "W = concat (map snd A)" "of_priority PRIORITY_HIGH A = highs"
    "of_priority PRIORITY_LOW A @ map wb_text (sk_low s) = lows"
    using str \<open>sk_high s = []\<close> by (auto simp: stream_def)
  obtain pre post where pp: "sk_low s = pre @ post" "l' = post \<or>
      (\<exists>w w' ws. post = w # ws \<and> l' = w' # ws \<and> wb_packet w' = wb_packet w \<and> wb_ptr w \<le> wb_ptr w')"
    and rests: "rests (sk_low s) = wire fd tr @ rests l'" and l'ok: "list_all wb_ok l'"
    using part by (auto simp: sent_part_def)
  have okp: "list_all wb_ok pre" "list_all wb_whole pre" "list_all wb_ok post" "list_all wb_whole post" using ok pp(1) by simp_all
  have pre: "rests pre = concat (map wb_text pre)" using arg_cong [OF whole_rests [OF okp(1,2)], of concat] by (simp add: rests_def)
  show "stream s' (W @ wire fd tr) highs lows"
  proof (cases "list_uncomplete l'")
    case True
    then have "l' \<noteq> post" using okp(4) by (auto simp: list_uncomplete_def wb_whole_def split: list.splits)
    then obtain w w' ws where w: "post = w # ws" "l' = w' # ws" "wb_packet w' = wb_packet w" using pp(2) by blast
    have "wb_rest w = wb_text w" using okp(3,4) w(1) by (simp add: wb_ok_def wb_whole_def wb_rest_def wb_text_def)
    then have "wire fd tr @ wb_rest w' = concat (map wb_text pre) @ wb_text w" using rests pp(1) w pre by simp
    then show ?thesis unfolding stream_def using A pp(1) w s'(1) [OF True]
      by (intro exI [of _ "A @ map (Pair PRIORITY_LOW) (map wb_text (pre @ [w]))"]) (simp add: comp_def)
  next
    case False
    have "wire fd tr = concat (map wb_text pre) \<and> map wb_text l' = map wb_text post"
      using pp(2)
    proof
      assume "l' = post"
      then show ?thesis using rests pp(1) pre by simp
    next
      assume "\<exists>w w' ws. post = w # ws \<and> l' = w' # ws \<and> wb_packet w' = wb_packet w \<and> wb_ptr w \<le> wb_ptr w'"
      then obtain w w' ws where w: "post = w # ws" "l' = w' # ws" "wb_packet w' = wb_packet w" by blast
      have "wb_ptr w' = 0" using False w(2) by (simp add: list_uncomplete_def)
      then have "wb_rest w' = wb_rest w" using okp(3,4) l'ok w by (simp add: wb_ok_def wb_whole_def wb_rest_def)
      then show ?thesis using rests pp(1) pre w by (simp add: wb_text_def)
    qed
    then show ?thesis unfolding stream_def using A pp(1) s'(2) [OF False]
      by (intro exI [of _ "A @ map (Pair PRIORITY_LOW) (map wb_text pre)"]) (simp add: comp_def)
  qed
  show "list_all wb_whole (sk_low s')"
  proof (cases "list_uncomplete l'")
    case True
    then have "tl l' = tl post" using pp(2) by auto
    then show ?thesis using s'(1) [OF True] okp(4) by (cases post) auto
  next
    case False
    then show ?thesis using s'(2) [OF False] pp(2) okp(4) by (auto simp: list_uncomplete_def wb_whole_def)
  qed
qed

section \<open>Writable events\<close>

definition bufs :: "socket \<Rightarrow> addr multiset" where
  "bufs s = mset (map wb_addr (sk_high s @ sk_low s))"

text \<open>
  The connection is still open, or it has ended: then the kernel has got a beginning of the packets, all of
  them in the case \<open>c\<close>, and all buffers are free.  \<open>B\<close> are the buffers handed over so far.
\<close>

definition goes_on :: "bool \<Rightarrow> nat \<Rightarrow> int \<Rightarrow> bytes list \<Rightarrow> bytes list \<Rightarrow> addr multiset \<Rightarrow> 'k socket_server \<Rightarrow> bool" where
  "goes_on rp n fd highs lows B ss \<longleftrightarrow> conn_ok rp n ss \<and> sk_fd (ss_slot ss n) = fd \<and>
     stream (ss_slot ss n) (wire fd (ss_trace ss)) highs lows \<and> frees (ss_trace ss) + bufs (ss_slot ss n) = B"

definition conn_delivered :: "bool \<Rightarrow> bytes \<Rightarrow> bytes list \<Rightarrow> bytes list \<Rightarrow> bool" where
  "conn_delivered c W highs lows \<longleftrightarrow> (\<exists>A rest. concat (map snd A) = W @ rest \<and> of_priority PRIORITY_HIGH A = highs \<and>
     of_priority PRIORITY_LOW A = lows \<and> (c \<longrightarrow> rest = []))"

definition ended :: "bool \<Rightarrow> int \<Rightarrow> bytes list \<Rightarrow> bytes list \<Rightarrow> addr multiset \<Rightarrow> 'k socket_server \<Rightarrow> bool" where
  "ended c fd highs lows B ss \<longleftrightarrow> frees (ss_trace ss) = B \<and> conn_delivered c (wire fd (ss_trace ss)) highs lows"

lemma stream_delivered:
  assumes "stream s W highs lows" "c \<Longrightarrow> send_buffer_empty s"
  shows "conn_delivered c W highs lows"
proof -
  obtain A where A: "W @ rests (sk_high s) = concat (map snd A)" "of_priority PRIORITY_HIGH A = highs"
    "of_priority PRIORITY_LOW A @ map wb_text (sk_low s) = lows"
    using assms(1) by (auto simp: stream_def)
  let ?A = "A @ map (\<lambda>wb. (PRIORITY_LOW, wb_text wb)) (sk_low s)"
  let ?rest = "rests (sk_high s) @ concat (map wb_text (sk_low s))"
  have "concat (map snd ?A) = W @ ?rest" using A(1) by (simp add: comp_def flip: append_assoc)
  then show ?thesis
    unfolding conn_delivered_def using A assms(2)
    by (intro conjI exI [of _ ?A] exI [of _ ?rest]) (auto simp: send_buffer_empty_def)
qed

lemma live_type: "live rp s \<Longrightarrow> sk_type s \<notin> {ST_INVALID, ST_RESERVE}"
  by (auto simp: live_def)

lemma force_close_ends:
  assumes "live rp (ss_slot ss n)" "conn_delivered c (wire fd (ss_trace ss)) highs lows" "frees (ss_trace ss) + bufs (ss_slot ss n) = B"
  shows "\<exists>m ss'. force_close n ss = Some (m, ss') \<and> ended c fd highs lows B ss'"
proof -
  obtain m ss' where "force_close n ss = Some (m, ss')" "wire fd (ss_trace ss') = wire fd (ss_trace ss)"
    "frees (ss_trace ss') = frees (ss_trace ss) + bufs (ss_slot ss n)"
    using force_close_ok [OF live_type [OF assms(1)], where fd = fd] unfolding bufs_def by blast
  then show ?thesis using assms(2,3) by (simp add: ended_def)
qed

lemma sent_state_queue:
  assumes "queue_ok (ss_slot ss n)" "sent_part fd (get_list p (ss_slot ss n)) tr l'" "p = PRIORITY_HIGH"
  shows "queue_ok (ss_slot (sent_state n p l' (length (wire fd tr)) k tr ss) n)"
  using assms by (auto simp: queue_ok_def sent_part_def set_list_def get_list_def)

lemma sent_state_live [simp]: "live rp (set_list p l (s\<lparr>sk_wb_size := w\<rparr>)) = live rp s"
  by (cases p) (simp_all add: live_def set_list_def)

lemma sent_state_bufs:
  assumes "sent_part fd (get_list p s) tr l'"
  shows "frees tr + bufs (set_list p l' (s\<lparr>sk_wb_size := w\<rparr>)) = bufs s"
  using assms by (cases p) (auto simp: sent_part_def bufs_def get_list_def set_list_def ac_simps)

lemma send_list_ok:
  assumes ret: "writes_return K" and inv: "goes_on rp n fd highs lows B ss"
  shows "\<exists>k tr l'. sends_or_closes K n (send_list K n p ss) (sent_state n p l' (length (wire fd tr)) k tr ss) \<and>
    sent_part fd (get_list p (ss_slot ss n)) tr l'"
proof -
  have "list_all wb_ok (get_list p (ss_slot ss n))" "sk_protocol (ss_slot ss n) = PROTOCOL_TCP" "sk_fd (ss_slot ss n) = fd"
    using inv by (auto simp: goes_on_def conn_ok_def queue_ok_def live_def get_list_def split: priority.split)
  then show ?thesis using send_list_tcp_ok [OF ret refl] by (auto simp: send_list_def Let_def)
qed

lemma send_buffer_ok:
  assumes ret: "writes_return K" and inv: "goes_on rp n fd highs lows B ss"
  shows "\<exists>r ss'. send_buffer K n ss = Some (r, ss') \<and>
    (r = None \<and> goes_on rp n fd highs lows B ss' \<and> sk_type (ss_slot ss' n) = sk_type (ss_slot ss n) \<and>
       sk_id (ss_slot ss' n) = sk_id (ss_slot ss n) \<or>
     (\<exists>m. r = Some (SR_CLOSE, m)) \<and> ended (errorless K) fd highs lows B ss')"
proof -
  let ?s = "ss_slot ss n"
  note conn = inv [unfolded goes_on_def conn_ok_def, THEN conjunct1]
  have q: "queue_ok ?s" and lv: "live rp ?s" and wt: "watched n ss" and fd: "sk_fd ?s = fd"
    and str: "stream ?s (wire fd (ss_trace ss)) highs lows" and B: "frees (ss_trace ss) + bufs ?s = B"
    using inv by (simp_all add: goes_on_def conn_ok_def)
  have nu: "\<not> list_uncomplete (sk_low ?s)"
    using q by (auto simp: queue_ok_def list_uncomplete_def wb_whole_def split: list.split)
  obtain k tr l' where s1: "sends_or_closes K n (send_list K n PRIORITY_HIGH ss)
      (sent_state n PRIORITY_HIGH l' (length (wire fd tr)) k tr ss)" and part: "sent_part fd (sk_high ?s) tr l'"
    using send_list_ok [OF ret inv, of PRIORITY_HIGH] by (auto simp: get_list_def)
  define ss1 where "ss1 = sent_state n PRIORITY_HIGH l' (length (wire fd tr)) k tr ss"
  let ?s1 = "ss_slot ss1 n"
  have slot1: "sk_high ?s1 = l'" "sk_low ?s1 = sk_low ?s" "sk_type ?s1 = sk_type ?s" "sk_id ?s1 = sk_id ?s" "sk_fd ?s1 = fd"
    using fd by (simp_all add: ss1_def set_list_def)
  have part': "sent_part fd (get_list PRIORITY_HIGH ?s) tr l'" using part by (simp add: get_list_def)
  have q1: "queue_ok ?s1" unfolding ss1_def by (rule sent_state_queue [OF q part' refl])
  have str1: "stream ?s1 (wire fd (ss_trace ss1)) highs lows"
    using stream_high [OF str part slot1(1,2)] by (simp add: ss1_def)
  have lv1: "live rp ?s1" using lv by (simp add: ss1_def)
  have B1: "frees (ss_trace ss1) + bufs ?s1 = B"
    using sent_state_bufs [OF part'] B by (simp add: ss1_def add.assoc)
  have "\<not> send_buffer_empty ?s" if "\<not> send_buffer_empty ?s1"
    using that slot1 part by (auto simp: send_buffer_empty_def sent_part_def)
  then have wt1: "watched n ss1" using wt slot1(5) fd by (auto simp: watched_def ss1_def)
  have inv1: "goes_on rp n fd highs lows B ss1" using q1 lv1 wt1 slot1(5) str1 B1 by (simp add: goes_on_def conn_ok_def)
  have sb: "send_buffer K n ss = do {
      (r, ss1) \<leftarrow> send_list K n PRIORITY_HIGH ss;
      let s1 = ss_slot ss1 n;
      if r \<noteq> None then Some (r, ss1)
      else if sk_high s1 \<noteq> [] then Some (None, ss1)
      else if sk_low s1 \<noteq> [] then do {
        (r, ss2) \<leftarrow> send_list K n PRIORITY_LOW ss1;
        if r \<noteq> None then Some (r, ss2)
        else if list_uncomplete (sk_low (ss_slot ss2 n))
        then map_option (\<lambda>s. (None, set_slot n s ss2)) (raise_uncomplete (ss_slot ss2 n))
        else Some (None, ss2)
      }
      else
        let ss2 = sp_write (sk_fd s1) n False ss1 in
        if sk_type s1 = ST_HALFCLOSE then map_option (\<lambda>(m, ss3). (Some (SR_CLOSE, m), ss3)) (force_close n ss2)
        else Some (None, ss2)
    }" unfolding send_buffer_def using nu by simp
  have closes: "\<exists>r ss'. map_option (\<lambda>(m, ss'). (Some (SR_CLOSE, m), ss')) (force_close n t) = Some (r, ss') \<and>
      (\<exists>m. r = Some (SR_CLOSE, m)) \<and> ended c fd highs lows B ss'"
    if "goes_on rp n fd highs lows B t" "c \<Longrightarrow> send_buffer_empty (ss_slot t n)" for t c
    using force_close_ends [of rp t n c fd highs lows B] stream_delivered [of "ss_slot t n" _ highs lows c] that
    by (fastforce simp: goes_on_def conn_ok_def)
  show ?thesis
  proof (cases "send_list K n PRIORITY_HIGH ss = Some (None, ss1)")
    case False
    then have err: "\<not> errorless K" "send_list K n PRIORITY_HIGH ss = map_option (\<lambda>(m, ss'). (Some (SR_CLOSE, m), ss')) (force_close n ss1)"
      using s1 by (auto simp: sends_or_closes_def ss1_def)
    from closes [OF inv1, of "errorless K"] err show ?thesis unfolding sb err(2) by auto
  next
    case sent: True
    show ?thesis
    proof (cases "l' = []")
      case False
      then show ?thesis using sent inv1 slot1 by (simp add: sb)
    next
      case empty: True
      show ?thesis
      proof (cases "sk_low ?s = []")
        case True
        define ss2 where "ss2 = sp_write fd n False ss1"
        have e2: "ss_slot ss2 = ss_slot ss1" "ss_trace ss2 = ss_trace ss1" by (simp_all add: ss2_def sp_write_def)
        have none: "send_buffer_empty ?s1" using slot1 empty True by (simp add: send_buffer_empty_def)
        have "watched n ss2" using wt1 none slot1(5) unfolding watched_def e2 by (auto simp: ss2_def sp_write_def)
        then have inv2: "goes_on rp n fd highs lows B ss2" using inv1 by (simp add: goes_on_def conn_ok_def e2)
        have "send_buffer K n ss = (if sk_type ?s1 = ST_HALFCLOSE
            then map_option (\<lambda>(m, ss3). (Some (SR_CLOSE, m), ss3)) (force_close n ss2) else Some (None, ss2))"
          using sent slot1 empty True by (simp add: sb ss2_def)
        then show ?thesis using closes [OF inv2, of "errorless K"] inv2 none slot1 e2 by (cases "sk_type ?s1 = ST_HALFCLOSE") auto
      next
        case low: False
        obtain k2 tr2 l2 where s2: "sends_or_closes K n (send_list K n PRIORITY_LOW ss1)
            (sent_state n PRIORITY_LOW l2 (length (wire fd tr2)) k2 tr2 ss1)" and part2: "sent_part fd (sk_low ?s1) tr2 l2"
          using send_list_ok [OF ret inv1, of PRIORITY_LOW] by (auto simp: get_list_def)
        define ss2 where "ss2 = sent_state n PRIORITY_LOW l2 (length (wire fd tr2)) k2 tr2 ss1"
        let ?s2 = "ss_slot ss2 n"
        have slot2: "sk_low ?s2 = l2" "sk_high ?s2 = []" "sk_type ?s2 = sk_type ?s" "sk_id ?s2 = sk_id ?s" "sk_fd ?s2 = fd"
          using slot1 empty by (simp_all add: ss2_def set_list_def)
        define s3 where "s3 = (if list_uncomplete l2 then ?s2\<lparr>sk_low := tl l2, sk_high := [hd l2]\<rparr> else ?s2)"
        have slot3: "sk_type s3 = sk_type ?s" "sk_id s3 = sk_id ?s" "sk_fd s3 = fd" "live rp s3 = live rp ?s2" "sk_wb_size s3 = sk_wb_size ?s2"
          using slot2 by (simp_all add: s3_def live_def)
        have low_ok: "list_all wb_ok (sk_low ?s1)" "list_all wb_whole (sk_low ?s1)" using q1 by (simp_all add: queue_ok_def)
        have "list_uncomplete l2 \<Longrightarrow> sk_high s3 = [hd l2] \<and> sk_low s3 = tl l2"
          "\<not> list_uncomplete l2 \<Longrightarrow> sk_high s3 = [] \<and> sk_low s3 = l2" using slot2 by (simp_all add: s3_def)
        note sl = stream_low [OF str1 _ part2 low_ok this]
        have str3: "stream s3 (wire fd (ss_trace ss2)) highs lows" and whole3: "list_all wb_whole (sk_low s3)"
          using sl slot1(1) empty by (simp_all add: ss2_def)
        have lists3: "sk_high s3 @ sk_low s3 = l2"
          using slot2 by (cases l2) (auto simp: s3_def list_uncomplete_def)
        then have rests3: "rests (sk_high s3) @ rests (sk_low s3) = rests l2" by (metis rests_simps(3))
        have l2: "list_all wb_ok l2" "rests (sk_low ?s1) = wire fd tr2 @ rests l2" using part2 by (simp_all add: sent_part_def)
        have lv2: "live rp ?s2" using lv1 by (simp add: ss2_def)
        have "list_all wb_ok (sk_high s3 @ sk_low s3)" using l2(1) lists3 by simp
        moreover have "sk_wb_size s3 = int (length (rests l2))"
          using q1 l2(2) slot1(1) empty by (simp add: slot3 ss2_def queue_ok_def)
        ultimately have q3: "queue_ok s3" using whole3 rests3 by (simp add: queue_ok_def)
        have "frees tr2 + bufs (set_list PRIORITY_LOW l2 (?s1\<lparr>sk_wb_size := w\<rparr>)) = bufs ?s1" for w
          using part2 by (intro sent_state_bufs [where fd = fd]) (simp add: get_list_def)
        then have B2: "frees (ss_trace ss2) + bufs ?s2 = B" using B1 by (simp add: ss2_def add.assoc)
        have B3: "bufs s3 = bufs ?s2" using lists3 slot2 by (simp add: bufs_def)
        show ?thesis
        proof (cases "send_list K n PRIORITY_LOW ss1 = Some (None, ss2)")
          case False
          then have err: "\<not> errorless K" "send_list K n PRIORITY_LOW ss1 = map_option (\<lambda>(m, ss'). (Some (SR_CLOSE, m), ss')) (force_close n ss2)"
            using s2 by (auto simp: sends_or_closes_def ss2_def)
          have "conn_delivered (errorless K) (wire fd (ss_trace ss2)) highs lows" using stream_delivered [OF str3] err(1) by auto
          from force_close_ends [OF lv2 this B2] obtain m ss' where
            "force_close n ss2 = Some (m, ss')" "ended (errorless K) fd highs lows B ss'" by blast
          then show ?thesis using sent slot1 empty low err(2) by (simp add: sb)
        next
          case sent2: True
          define ss3 where "ss3 = set_slot n s3 ss2"
          have F: "send_buffer K n ss = Some (None, if list_uncomplete l2 then ss3 else ss2)"
            using sent slot1 empty low sent2 slot2
            by (cases l2) (auto simp: sb raise_uncomplete_def ss3_def s3_def list_uncomplete_def)
          let ?F = "if list_uncomplete l2 then ss3 else ss2"
          have e: "ss_slot ?F n = s3" "ss_trace ?F = ss_trace ss2" "ss_watch ?F = ss_watch ss1"
            by (simp_all add: ss3_def s3_def set_slot_def) (simp_all add: ss2_def)
          have "watched n ?F" using wt1 low slot1 slot3 unfolding watched_def e by (auto simp: send_buffer_empty_def)
          then have "goes_on rp n fd highs lows B ?F"
            unfolding goes_on_def conn_ok_def e using slot3 lv2 q3 str3 B2 B3 by simp
          then show ?thesis using F e(1) slot3 by auto
        qed
      qed
    qed
  qed
qed

section \<open>The other operations on a connection\<close>

text \<open>A socket that is being connected waits for the descriptor to become writable.\<close>

definition connecting_watched :: "nat \<Rightarrow> 'k socket_server \<Rightarrow> bool" where
  "connecting_watched n ss \<longleftrightarrow> (sk_type (ss_slot ss n) = ST_CONNECTING \<longrightarrow>
     ss_watch ss (sk_fd (ss_slot ss n)) = Some (Some n, True))"

definition accepts :: "priority \<Rightarrow> priority \<Rightarrow> buffer_packet \<Rightarrow> bytes list" where
  "accepts q p pk = (if q = p then [pk_bytes pk] else [])"

lemma goes_on_parts:
  assumes "goes_on rp n fd highs lows B ss"
  shows "queue_ok (ss_slot ss n)" "live rp (ss_slot ss n)" "watched n ss" "sk_fd (ss_slot ss n) = fd"
    "stream (ss_slot ss n) (wire fd (ss_trace ss)) highs lows" "frees (ss_trace ss) + bufs (ss_slot ss n) = B"
  using assms by (simp_all add: goes_on_def conn_ok_def)

lemma goes_on_cong:
  assumes "ss_slot ss' n = ss_slot ss n" "ss_trace ss' = ss_trace ss" "ss_watch ss' = ss_watch ss"
  shows "goes_on rp n fd highs lows B ss' = goes_on rp n fd highs lows B ss"
  using assms by (simp add: goes_on_def conn_ok_def watched_def)

text \<open>A buffer at the end of the high list, of which the first \<open>c\<close> bytes are written.\<close>

lemma stream_append_high:
  assumes "stream s W highs lows" "c \<le> length (pk_bytes pk)" "c \<noteq> 0 \<Longrightarrow> send_buffer_empty s"
    "p = PRIORITY_HIGH \<or> sk_low s = []"
  shows "stream (append_sendbuffer pk (pk_bytes pk) c s) (W @ take c (pk_bytes pk)) (highs @ accepts PRIORITY_HIGH p pk)
    (lows @ accepts PRIORITY_LOW p pk)"
proof -
  obtain A where A: "W @ rests (sk_high s) = concat (map snd A)" "of_priority PRIORITY_HIGH A = highs"
    "of_priority PRIORITY_LOW A @ map wb_text (sk_low s) = lows"
    using assms(1) by (auto simp: stream_def)
  have "(W @ take c (pk_bytes pk)) @ rests (sk_high s) @ drop c (pk_bytes pk) = (W @ rests (sk_high s)) @ pk_bytes pk"
    using assms(3) by (cases "c = 0") (auto simp: send_buffer_empty_def)
  then have "(W @ take c (pk_bytes pk)) @ rests (sk_high s) @ drop c (pk_bytes pk) = concat (map snd (A @ [(p, pk_bytes pk)]))"
    using A(1) by simp
  then show ?thesis unfolding stream_def using A(2,3) assms(2,4)
    by (intro exI [of _ "A @ [(p, pk_bytes pk)]"])
      (auto simp: append_sendbuffer_def append_sendbuffer_aux_def set_list_def get_list_def wb_rest_def accepts_def Let_def)
qed

lemma stream_append_low:
  assumes "stream s W highs lows"
  shows "stream (append_sendbuffer_low pk (pk_bytes pk) s) W highs (lows @ [pk_bytes pk])"
  using assms unfolding stream_def append_sendbuffer_low_def append_sendbuffer_aux_def
  by (auto simp: set_list_def get_list_def wb_text_def Let_def)

lemma append_queue:
  assumes "queue_ok s" "c \<le> length (pk_bytes pk)"
  shows "queue_ok (append_sendbuffer pk (pk_bytes pk) c s)"
    "\<not> pk_object pk \<Longrightarrow> queue_ok (append_sendbuffer_low pk (pk_bytes pk) s)"
  using assms by (auto simp: queue_ok_def append_sendbuffer_def append_sendbuffer_low_def append_sendbuffer_aux_def set_list_def
    get_list_def wb_ok_def wb_whole_def wb_rest_def Let_def)

lemma append_simps [simp]:
  "sk_type (append_sendbuffer pk so c s) = sk_type s" "sk_fd (append_sendbuffer pk so c s) = sk_fd s"
  "sk_id (append_sendbuffer pk so c s) = sk_id s" "live rp (append_sendbuffer pk so c s) = live rp s"
  "bufs (append_sendbuffer pk so c s) = add_mset (pk_buffer pk) (bufs s)" "\<not> send_buffer_empty (append_sendbuffer pk so c s)"
  "sk_type (append_sendbuffer_low pk so s) = sk_type s" "sk_fd (append_sendbuffer_low pk so s) = sk_fd s"
  "sk_id (append_sendbuffer_low pk so s) = sk_id s" "live rp (append_sendbuffer_low pk so s) = live rp s"
  "bufs (append_sendbuffer_low pk so s) = add_mset (pk_buffer pk) (bufs s)" "\<not> send_buffer_empty (append_sendbuffer_low pk so s)"
  by (simp_all add: append_sendbuffer_def append_sendbuffer_low_def append_sendbuffer_aux_def live_def bufs_def set_list_def
    get_list_def wb_addr_def send_buffer_empty_def Let_def)

lemma send_socket_ok:
  assumes inv: "goes_on rp n fd highs lows B ss" and cw: "connecting_watched n ss" and n: "HASH_ID sid = n" "sk_id (ss_slot ss n) = sid"
    and pk: "\<not> pk_object pk" and open_socket: "sk_type (ss_slot ss n) \<noteq> ST_HALFCLOSE"
  shows "\<exists>r ss'. send_socket K sid pk p None ss = Some (r, ss') \<and>
    (r = None \<and> goes_on rp n fd (highs @ accepts PRIORITY_HIGH p pk) (lows @ accepts PRIORITY_LOW p pk) (add_mset (pk_buffer pk) B) ss' \<and>
       connecting_watched n ss' \<and> sk_type (ss_slot ss' n) = sk_type (ss_slot ss n) \<and> sk_id (ss_slot ss' n) = sid \<or>
     (\<exists>m. r = Some (SR_CLOSE, m)) \<and> \<not> errorless K \<and> ended (errorless K) fd highs lows (add_mset (pk_buffer pk) B) ss')"
proof -
  let ?s = "ss_slot ss n"
  note q = goes_on_parts(1) [OF inv] and lv = goes_on_parts(2) [OF inv] and wt = goes_on_parts(3) [OF inv]
    and fd = goes_on_parts(4) [OF inv] and str = goes_on_parts(5) [OF inv] and B = goes_on_parts(6) [OF inv]
  have t: "sk_type ?s = ST_CONNECTING \<or> sk_type ?s = ST_CONNECTED" "sk_protocol ?s = PROTOCOL_TCP"
    using lv open_socket by (auto simp: live_def)
  have so: "send_object_init pk ss = Some (pk_bytes pk)" using pk by (simp add: send_object_init_def)
  obtain w where w: "ss_watch ss fd = Some (Some n, w)" "\<not> send_buffer_empty ?s \<Longrightarrow> w" using wt fd by (auto simp: watched_def)
  show ?thesis
  proof (cases "send_buffer_empty ?s \<and> sk_type ?s = ST_CONNECTED")
    case False
    define s' where "s' = (if p = PRIORITY_LOW then append_sendbuffer_low pk (pk_bytes pk) ?s else append_sendbuffer pk (pk_bytes pk) 0 ?s)"
    have "send_socket K sid pk p None ss = Some (None, set_slot n s' ss)"
      using t n so False by (auto simp: send_socket_def s'_def Let_def)
    moreover have w': "ss_watch ss fd = Some (Some n, True)" using w cw t(1) False fd by (auto simp: connecting_watched_def)
    moreover have "stream s' (wire fd (ss_trace ss)) (highs @ accepts PRIORITY_HIGH p pk) (lows @ accepts PRIORITY_LOW p pk)"
      using stream_append_low [OF str] stream_append_high [OF str, of 0 pk p]
      by (cases p) (auto simp: s'_def accepts_def)
    moreover have "queue_ok s'" using append_queue [OF q, of 0 pk] pk by (simp add: s'_def)
    moreover have "frees (ss_trace ss) + bufs s' = add_mset (pk_buffer pk) B" using B by (simp add: s'_def)
    moreover have "live rp s'" "sk_fd s' = fd" "sk_type s' = sk_type ?s" "sk_id s' = sid" using lv fd n by (simp_all add: s'_def)
    ultimately show ?thesis
      by (auto simp: goes_on_def conn_ok_def watched_def connecting_watched_def set_slot_def)
  next
    case True
    let ?so = "pk_bytes pk"
    obtain r k where wr: "k_write K fd ?so (ss_os ss) = (r, k)" by fastforce
    show ?thesis
    proof (cases "\<exists>e. r = Inl e \<and> e \<noteq> EINTR \<and> e \<noteq> EAGAIN")
      case err: True
      let ?log = "Logged (''socket-server: write to '' @ fmt_d sid @ '' error'')"
      let ?ss2 = "note_event ?log (ss\<lparr>ss_os := k\<rparr>)"
      have ne: "\<not> errorless K" using err wr unfolding errorless_def by blast
      then have "conn_delivered (errorless K) (wire fd (ss_trace ?ss2)) highs lows"
        using stream_delivered [OF str, of False] by (simp add: note_event_def)
      moreover have "live rp (ss_slot ?ss2 n)" "frees (ss_trace ?ss2) + bufs (ss_slot ?ss2 n) = B" using lv B by (simp_all add: note_event_def)
      ultimately obtain m ss3 where fc: "force_close n ?ss2 = Some (m, ss3)" "ended (errorless K) fd highs lows B ss3"
        using force_close_ends by blast
      have "send_socket K sid pk p None ss = Some (Some (SR_CLOSE, m), free_packet pk ss3)"
        using t n so True err wr fd fc(1) by (auto simp: send_socket_def Let_def)
      moreover have "ended (errorless K) fd highs lows (add_mset (pk_buffer pk) B) (free_packet pk ss3)"
        using fc(2) by (simp add: ended_def free_packet_def note_event_def)
      ultimately show ?thesis using ne by blast
    next
      case fine: False
      define c where "c = (case r of Inl _ \<Rightarrow> 0 | Inr c \<Rightarrow> min c (length ?so))"
      have c: "c \<le> length ?so" by (simp add: c_def split: sum.split)
      let ?ss2 = "note_event (Wrote fd (take c ?so)) (ss\<lparr>ss_os := k\<rparr>)"
      let ?s' = "append_sendbuffer pk ?so c ?s"
      have str': "stream ?s' (wire fd (ss_trace ss) @ take c ?so) (highs @ accepts PRIORITY_HIGH p pk) (lows @ accepts PRIORITY_LOW p pk)"
        using True by (intro stream_append_high [OF str c]) (auto simp: send_buffer_empty_def)
      have run: "send_socket K sid pk p None ss = Some (None, if c = length ?so then free_packet pk ?ss2
          else sp_write fd n True (set_slot n ?s' ?ss2))"
        using t n so True fine wr fd by (auto simp: send_socket_def Let_def c_def)
      show ?thesis
      proof (cases "c = length ?so")
        case all: True
        have "stream ?s (wire fd (ss_trace ss) @ ?so) (highs @ accepts PRIORITY_HIGH p pk) (lows @ accepts PRIORITY_LOW p pk)"
          using str' True all by (auto simp: stream_def append_sendbuffer_def append_sendbuffer_aux_def set_list_def get_list_def
            wb_rest_def send_buffer_empty_def Let_def)
        then have "goes_on rp n fd (highs @ accepts PRIORITY_HIGH p pk) (lows @ accepts PRIORITY_LOW p pk) (add_mset (pk_buffer pk) B) (free_packet pk ?ss2)"
          using q lv wt fd B all by (simp add: goes_on_def conn_ok_def watched_def free_packet_def note_event_def)
        then show ?thesis using run all cw n(2) by (simp add: connecting_watched_def free_packet_def note_event_def)
      next
        case part: False
        let ?ss3 = "sp_write fd n True (set_slot n ?s' ?ss2)"
        have e: "ss_slot ?ss3 n = ?s'" "ss_trace ?ss3 = ss_trace ss @ [Wrote fd (take c ?so)]" "ss_watch ?ss3 fd = Some (Some n, True)"
          using w(1) by (simp_all add: sp_write_def set_slot_def note_event_def)
        have "goes_on rp n fd (highs @ accepts PRIORITY_HIGH p pk) (lows @ accepts PRIORITY_LOW p pk) (add_mset (pk_buffer pk) B) ?ss3"
          using append_queue(1) [OF q c] lv fd B str' by (auto simp: goes_on_def conn_ok_def watched_def e)
        then show ?thesis using run part n(2) fd by (simp add: connecting_watched_def e)
      qed
    qed
  qed
qed

text \<open>After \<open>close\<close> nothing more is taken.\<close>

lemma send_socket_halfclose:
  assumes inv: "goes_on rp n fd highs lows B ss" and n: "HASH_ID sid = n" "sk_id (ss_slot ss n) = sid"
    and pk: "\<not> pk_object pk" and closed: "sk_type (ss_slot ss n) = ST_HALFCLOSE"
  shows "send_socket K sid pk p None ss = Some (None, free_packet pk ss)"
    "goes_on rp n fd highs lows (add_mset (pk_buffer pk) B) (free_packet pk ss)"
proof -
  show "send_socket K sid pk p None ss = Some (None, free_packet pk ss)"
    using n pk closed by (simp add: send_socket_def send_object_init_def Let_def)
  show "goes_on rp n fd highs lows (add_mset (pk_buffer pk) B) (free_packet pk ss)"
    using inv by (auto simp: goes_on_def conn_ok_def watched_def free_packet_def note_event_def)
qed

lemma close_socket_ok:
  assumes ret: "writes_return K" and inv: "goes_on rp n fd highs lows B ss" and n: "HASH_ID sid = n" "sk_id (ss_slot ss n) = sid"
  shows "\<exists>r ss'. close_socket K sid shutdown opaque ss = Some (r, ss') \<and>
    (r = None \<and> goes_on rp n fd highs lows B ss' \<and> sk_type (ss_slot ss' n) = ST_HALFCLOSE \<and> sk_id (ss_slot ss' n) = sid \<or>
     (\<exists>m. r = Some (SR_CLOSE, m)) \<and> ended (errorless K \<and> \<not> shutdown) fd highs lows B ss')"
proof -
  let ?s = "ss_slot ss n"
  have lt: "sk_type ?s \<noteq> ST_INVALID" using live_type [OF goes_on_parts(2) [OF inv]] by auto
  have weaken: "ended c fd highs lows B ss' \<Longrightarrow> ended (c \<and> d) fd highs lows B ss'" for c d and ss' :: "'a socket_server"
    by (auto simp: ended_def conn_delivered_def)
  have after: "\<exists>r ss'. (if shutdown \<or> send_buffer_empty (ss_slot ss1 n) then
        map_option (\<lambda>(m, ss2). (Some (SR_CLOSE, m\<lparr>sr_id := sid, sr_opaque := opaque\<rparr>), ss2)) (force_close n ss1)
      else Some (None, set_type n ST_HALFCLOSE ss1)) = Some (r, ss') \<and>
    (r = None \<and> goes_on rp n fd highs lows B ss' \<and> sk_type (ss_slot ss' n) = ST_HALFCLOSE \<and> sk_id (ss_slot ss' n) = sid \<or>
     (\<exists>m. r = Some (SR_CLOSE, m)) \<and> ended (errorless K \<and> \<not> shutdown) fd highs lows B ss')"
    if inv1: "goes_on rp n fd highs lows B ss1" "sk_id (ss_slot ss1 n) = sid" for ss1
  proof (cases "shutdown \<or> send_buffer_empty (ss_slot ss1 n)")
    case True
    have "conn_delivered (errorless K \<and> \<not> shutdown) (wire fd (ss_trace ss1)) highs lows"
      using stream_delivered [OF goes_on_parts(5) [OF inv1(1)]] True by auto
    from force_close_ends [OF goes_on_parts(2) [OF inv1(1)] this goes_on_parts(6) [OF inv1(1)]]
    show ?thesis using True by auto
  next
    case False
    have "goes_on rp n fd highs lows B (set_type n ST_HALFCLOSE ss1)"
      using inv1(1) by (auto simp: goes_on_def conn_ok_def watched_def live_def queue_ok_def stream_def bufs_def
        send_buffer_empty_def set_type_def set_slot_def)
    then show ?thesis using False inv1(2) by (simp add: set_type_def set_slot_def)
  qed
  have unfold: "close_socket K sid shutdown opaque ss = do {
      (r, ss1) \<leftarrow> (if send_buffer_empty ?s then Some (None, ss) else send_buffer K n ss);
      if r \<noteq> None then Some (r, ss1)
      else if shutdown \<or> send_buffer_empty (ss_slot ss1 n) then
        map_option (\<lambda>(m, ss2). (Some (SR_CLOSE, m\<lparr>sr_id := sid, sr_opaque := opaque\<rparr>), ss2)) (force_close n ss1)
      else Some (None, set_type n ST_HALFCLOSE ss1)
    }" using n(2) lt unfolding close_socket_def n(1) by (simp add: Let_def)
  show ?thesis
  proof (cases "send_buffer_empty ?s")
    case True
    then show ?thesis using after [OF inv n(2)] unfolding unfold by simp
  next
    case False
    obtain r ss1 where sb: "send_buffer K n ss = Some (r, ss1)"
      "r = None \<and> goes_on rp n fd highs lows B ss1 \<and> sk_type (ss_slot ss1 n) = sk_type ?s \<and> sk_id (ss_slot ss1 n) = sk_id ?s \<or>
       (\<exists>m. r = Some (SR_CLOSE, m)) \<and> ended (errorless K) fd highs lows B ss1"
      using send_buffer_ok [OF ret inv] by blast
    from sb(2) show ?thesis
    proof
      assume a: "r = None \<and> goes_on rp n fd highs lows B ss1 \<and> sk_type (ss_slot ss1 n) = sk_type ?s \<and> sk_id (ss_slot ss1 n) = sk_id ?s"
      then show ?thesis using after [of ss1] sb(1) False n(2) unfolding unfold by simp
    next
      assume "(\<exists>m. r = Some (SR_CLOSE, m)) \<and> ended (errorless K) fd highs lows B ss1"
      then show ?thesis using sb(1) False weaken unfolding unfold by auto
    qed
  qed
qed

lemma report_connect_ok:
  assumes inv: "goes_on rp n fd highs lows B ss" and t: "sk_type (ss_slot ss n) = ST_CONNECTING"
  shows "\<exists>r ss'. report_connect K n ss = Some (r, ss') \<and>
    ((\<exists>m. r = Some (SR_OPEN, m)) \<and> goes_on rp n fd highs lows B ss' \<and> sk_type (ss_slot ss' n) = ST_CONNECTED \<and>
       sk_id (ss_slot ss' n) = sk_id (ss_slot ss n) \<or>
     (\<exists>m. r = Some (SR_ERROR, m)) \<and> ended False fd highs lows B ss')"
proof -
  let ?s = "ss_slot ss n"
  obtain e k where e: "k_so_error K (sk_fd ?s) (ss_os ss) = (e, k)" by fastforce
  show ?thesis
  proof (cases e)
    case (Some msg)
    have "conn_delivered False (wire fd (ss_trace ss)) highs lows" using stream_delivered [OF goes_on_parts(5) [OF inv], of False] by simp
    then have "\<exists>m ss'. force_close n (ss\<lparr>ss_os := k\<rparr>) = Some (m, ss') \<and> ended False fd highs lows B ss'"
      by (intro force_close_ends [where rp = rp]) (simp_all add: goes_on_parts(2,6) [OF inv])
    then obtain m ss' where "force_close n (ss\<lparr>ss_os := k\<rparr>) = Some (m, ss')" "ended False fd highs lows B ss'" by blast
    then show ?thesis using Some e by (simp add: report_connect_def Let_def)
  next
    case None
    define ss2 where "ss2 = set_type n ST_CONNECTED (ss\<lparr>ss_os := k\<rparr>)"
    define ss3 where "ss3 = (if send_buffer_empty ?s then sp_write (sk_fd ?s) n False ss2 else ss2)"
    obtain name k2 where nk: "k_peername K (sk_fd ?s) (ss_os ss3) = (name, k2)" by fastforce
    have slot: "ss_slot ss3 n = ?s\<lparr>sk_type := ST_CONNECTED\<rparr>" "ss_trace ss3 = ss_trace ss"
      by (simp_all add: ss3_def ss2_def sp_write_def set_type_def set_slot_def)
    have same: "queue_ok (?s\<lparr>sk_type := ST_CONNECTED\<rparr>) = queue_ok ?s" "bufs (?s\<lparr>sk_type := ST_CONNECTED\<rparr>) = bufs ?s"
      "stream (?s\<lparr>sk_type := ST_CONNECTED\<rparr>) = stream ?s" "send_buffer_empty (?s\<lparr>sk_type := ST_CONNECTED\<rparr>) = send_buffer_empty ?s"
      by (simp_all add: queue_ok_def bufs_def stream_def send_buffer_empty_def fun_eq_iff)
    obtain w where w: "ss_watch ss (sk_fd ?s) = Some (Some n, w)" "\<not> send_buffer_empty ?s \<Longrightarrow> w"
      using goes_on_parts(3) [OF inv] by (auto simp: watched_def)
    have "watched n ss3"
      using w unfolding watched_def slot same by (auto simp: ss3_def ss2_def sp_write_def set_type_def set_slot_def)
    moreover have "live rp (ss_slot ss3 n)" using goes_on_parts(2) [OF inv] by (simp add: slot live_def)
    ultimately have "goes_on rp n fd highs lows B ss3"
      using goes_on_parts [OF inv] unfolding goes_on_def conn_ok_def slot same by simp
    then have "goes_on rp n fd highs lows B (ss3\<lparr>ss_os := k2\<rparr>)" by (subst goes_on_cong) simp_all
    moreover have "report_connect K n ss = Some (Some (SR_OPEN, \<lparr>sr_id = sk_id ?s, sr_opaque = sk_opaque ?s, sr_ud = 0,
        sr_data = (case name of None \<Rightarrow> No_Data | Some t \<Rightarrow> Info t)\<rparr>), ss3\<lparr>ss_os := k2\<rparr>)"
      using None e nk by (cases "send_buffer_empty ?s") (simp_all add: report_connect_def ss3_def Let_def flip: ss2_def)
    ultimately show ?thesis using slot by simp
  qed
qed

lemma forward_message_tcp_ok:
  assumes inv: "goes_on rp n fd highs lows B ss"
  shows "\<exists>r ss'. forward_message_tcp K n ss = Some (r, ss') \<and>
    ((r = None \<or> (\<exists>m. r = Some (SR_DATA, m))) \<and> goes_on rp n fd highs lows B ss' \<and> sk_type (ss_slot ss' n) = sk_type (ss_slot ss n) \<and>
       sk_id (ss_slot ss' n) = sk_id (ss_slot ss n) \<and> (connecting_watched n ss \<longrightarrow> connecting_watched n ss') \<or>
     (\<exists>m. r = Some (SR_ERROR, m) \<or> r = Some (SR_CLOSE, m)) \<and> ended (rp \<and> reads_go_on K) fd highs lows B ss')"
proof -
  let ?s = "ss_slot ss n"
  obtain r k where rd: "k_read K (sk_fd ?s) (nat (sk_psize ?s)) (ss_os ss) = (r, k)" by fastforce
  let ?ss1 = "ss\<lparr>ss_os := k\<rparr>"
  have inv1: "goes_on rp n fd highs lows B ?ss1" using inv by (subst goes_on_cong) simp_all
  have psize: "0 < sk_psize ?s" if rp using goes_on_parts(2) [OF inv] that by (simp add: live_def)
  have "conn_delivered False (wire fd (ss_trace ?ss1)) highs lows" using stream_delivered [OF goes_on_parts(5) [OF inv1], of False] by simp
  then obtain m ss' where fc: "force_close n ?ss1 = Some (m, ss')" "ended False fd highs lows B ss'"
    using force_close_ends [OF goes_on_parts(2) [OF inv1] _ goes_on_parts(6) [OF inv1]] by blast
  have log: "goes_on rp n fd highs lows B (note_event (Logged t) ?ss1)" for t
    using inv1 by (auto simp: goes_on_def conn_ok_def watched_def note_event_def)
  have size: "goes_on rp n fd highs lows B (set_slot n (?s\<lparr>sk_psize := z\<rparr>) ?ss1)" if "0 < sk_psize ?s \<Longrightarrow> 0 < z" for z
    using that inv1 by (auto simp: goes_on_def conn_ok_def watched_def set_slot_def live_def queue_ok_def stream_def bufs_def send_buffer_empty_def)
  show ?thesis
  proof (cases r)
    case (Inl e)
    consider "e = EINTR" | "e = EAGAIN" | "e \<noteq> EINTR" "e \<noteq> EAGAIN" by blast
    then show ?thesis
    proof cases
      case 1
      then show ?thesis using Inl rd inv1 by (simp add: forward_message_tcp_def connecting_watched_def Let_def)
    next
      case 2
      then show ?thesis using Inl rd log by (simp add: forward_message_tcp_def connecting_watched_def note_event_def Let_def)
    next
      case 3
      then have "\<not> (rp \<and> reads_go_on K)" using reads_go_onD(1) [of K "nat (sk_psize ?s)"] rd Inl psize by auto
      then have "ended (rp \<and> reads_go_on K) fd highs lows B ss'" using fc(2) unfolding ended_def conn_delivered_def by blast
      then show ?thesis using Inl rd fc(1) 3 by (simp add: forward_message_tcp_def Let_def)
    qed
  next
    case (Inr data)
    let ?bs = "take (nat (sk_psize ?s)) data"
    consider "?bs = []" | "?bs \<noteq> []" "sk_type ?s = ST_HALFCLOSE" | "?bs \<noteq> []" "sk_type ?s \<noteq> ST_HALFCLOSE" by blast
    then show ?thesis
    proof cases
      case 1
      then have "\<not> (rp \<and> reads_go_on K)" using reads_go_onD(2) [of K "nat (sk_psize ?s)"] rd Inr psize by auto
      then have "ended (rp \<and> reads_go_on K) fd highs lows B ss'" using fc(2) unfolding ended_def conn_delivered_def by blast
      then show ?thesis using Inr rd fc(1) 1 by (auto simp: forward_message_tcp_def Let_def)
    next
      case 2
      then show ?thesis using Inr rd inv1 by (simp add: forward_message_tcp_def connecting_watched_def Let_def)
    next
      case 3
      define z where "z = (if int (length ?bs) = sk_psize ?s then sk_psize ?s * 2
        else if sk_psize ?s > MIN_READ_BUFFER \<and> int (length ?bs) * 2 < sk_psize ?s then sk_psize ?s div 2 else sk_psize ?s)"
      let ?m = "\<lparr>sr_id = sk_id ?s, sr_opaque = sk_opaque ?s, sr_ud = int (length ?bs), sr_data = Received ?bs\<rparr>"
      have "?s\<lparr>sk_psize := sk_psize ?s\<rparr> = ?s" by simp
      then have "forward_message_tcp K n ss = Some (Some (SR_DATA, ?m), set_slot n (?s\<lparr>sk_psize := z\<rparr>) ?ss1)"
        using Inr rd 3 by (simp add: forward_message_tcp_def z_def Let_def)
      moreover have "0 < z" if "0 < sk_psize ?s" using that by (auto simp: z_def MIN_READ_BUFFER_def pos_imp_zdiv_pos_iff)
      ultimately show ?thesis using size [of z] by (simp add: set_slot_def connecting_watched_def)
    qed
  qed
qed

section \<open>Runs of a connection\<close>

text \<open>
  What can happen to a connection with the identifier \<open>sid\<close>: a request for it is served or an event of its
  descriptor is dispatched.  The step tells whether the socket was closed.
\<close>

datatype conn_op = Op_Request request | Op_Event bool bool

definition reply_closes :: "reply \<Rightarrow> bool" where
  "reply_closes r \<longleftrightarrow> (\<exists>m. r = Some (SR_CLOSE, m) \<or> r = Some (SR_ERROR, m))"

lemma reply_closes_simps [simp]:
  "\<not> reply_closes None" "reply_closes (Some (t, m)) \<longleftrightarrow> t = SR_CLOSE \<or> t = SR_ERROR"
  by (auto simp: reply_closes_def)

fun conn_step :: "'k kernel \<Rightarrow> nat \<Rightarrow> conn_op \<Rightarrow> 'k socket_server \<Rightarrow> (bool \<times> 'k socket_server) option" where
  "conn_step K n (Op_Request req) ss =
     map_option (\<lambda>(r, ss'). (reply_closes r, ss')) (ctrl_cmd K (ss\<lparr>ss_ctrl := [req]\<rparr>))"
| "conn_step K n (Op_Event rd wr) ss =
     map_option (\<lambda>(t, ss'). ((case t of Again \<Rightarrow> False | Return r \<Rightarrow> reply_closes r), ss'))
       (dispatch_event K (ss\<lparr>ss_ev := [\<lparr>ev_s = Some n, ev_read = rd, ev_write = wr\<rparr>], ss_event_index := 0\<rparr>))"

text \<open>A run ends when the socket is closed; the operations that are left then are part of the result.\<close>

fun conn_run :: "'k kernel \<Rightarrow> nat \<Rightarrow> conn_op list \<Rightarrow> 'k socket_server \<Rightarrow> (bool \<times> conn_op list \<times> 'k socket_server) option" where
  "conn_run K n [] ss = Some (False, [], ss)"
| "conn_run K n (op # ops) ss =
     (case conn_step K n op ss of
        None \<Rightarrow> None
      | Some (closed, ss') \<Rightarrow> if closed then Some (True, ops, ss') else conn_run K n ops ss')"

text \<open>The operations of the users of a connection: sending plain buffers and closing.\<close>

fun op_for :: "int \<Rightarrow> conn_op \<Rightarrow> bool" where
  "op_for sid (Op_Request (Req_Send i pk)) = (i = sid \<and> \<not> pk_object pk)"
| "op_for sid (Op_Request (Req_Send_Low i pk)) = (i = sid \<and> \<not> pk_object pk)"
| "op_for sid (Op_Request (Req_Close i shutdown opaque)) = (i = sid)"
| "op_for sid (Op_Request _) = False"
| "op_for sid (Op_Event rd wr) = True"

fun op_sends :: "priority \<Rightarrow> conn_op \<Rightarrow> bytes list" where
  "op_sends p (Op_Request (Req_Send i pk)) = accepts p PRIORITY_HIGH pk"
| "op_sends p (Op_Request (Req_Send_Low i pk)) = accepts p PRIORITY_LOW pk"
| "op_sends p _ = []"

fun op_buffer :: "conn_op \<Rightarrow> addr multiset" where
  "op_buffer (Op_Request (Req_Send i pk)) = {#pk_buffer pk#}"
| "op_buffer (Op_Request (Req_Send_Low i pk)) = {#pk_buffer pk#}"
| "op_buffer _ = {#}"

fun op_closes :: "conn_op \<Rightarrow> bool" where
  "op_closes (Op_Request (Req_Close i shutdown opaque)) = True"
| "op_closes _ = False"

text \<open>
  The operations that cannot cut the data off: no shutdown, and a readable event only if reading finds neither the end of the
  stream nor an error, for then \<open>forward_message_tcp\<close> closes the socket whatever is queued.
\<close>

fun op_quiet :: "'k kernel \<Rightarrow> conn_op \<Rightarrow> bool" where
  "op_quiet K (Op_Request (Req_Close i shutdown opaque)) = (\<not> shutdown)"
| "op_quiet K (Op_Event rd wr) = (rd \<longrightarrow> reads_go_on K)"
| "op_quiet K _ = True"

text \<open>The packets that a connection takes: those before it is told to close.\<close>

fun packets :: "priority \<Rightarrow> conn_op list \<Rightarrow> bytes list" where
  "packets p [] = []"
| "packets p (op # ops) = op_sends p op @ (if op_closes op then [] else packets p ops)"

definition buffers :: "conn_op list \<Rightarrow> addr multiset" where
  "buffers ops = sum_list (map op_buffer ops)"

section \<open>The invariant of a run\<close>

definition runs_on :: "bool \<Rightarrow> nat \<Rightarrow> int \<Rightarrow> int \<Rightarrow> bytes list \<Rightarrow> bytes list \<Rightarrow> addr multiset \<Rightarrow> 'k socket_server \<Rightarrow> bool" where
  "runs_on rp n sid fd highs lows B ss \<longleftrightarrow> goes_on rp n fd highs lows B ss \<and> connecting_watched n ss \<and>
     sk_id (ss_slot ss n) = sid \<and> HASH_ID sid = n"

abbreviation half_closed :: "nat \<Rightarrow> 'k socket_server \<Rightarrow> bool" where
  "half_closed n ss \<equiv> sk_type (ss_slot ss n) = ST_HALFCLOSE"

definition step_result ::
  "'k kernel \<Rightarrow> bool \<Rightarrow> nat \<Rightarrow> int \<Rightarrow> int \<Rightarrow> bool \<Rightarrow> bool \<Rightarrow> socket_state \<Rightarrow> bytes list \<Rightarrow> bytes list \<Rightarrow> addr multiset \<Rightarrow>
    bool \<times> 'k socket_server \<Rightarrow> bool" where
  "step_result K rp n sid fd closing quiet t highs lows B res \<longleftrightarrow> (case res of (closed, ss') \<Rightarrow>
     if closed then ended (errorless K \<and> rp \<and> quiet \<and> t \<noteq> ST_CONNECTING) fd highs lows B ss'
     else runs_on rp n sid fd highs lows B ss' \<and> half_closed n ss' = (closing \<or> t = ST_HALFCLOSE) \<and>
       (sk_type (ss_slot ss' n) = ST_CONNECTING \<longrightarrow> t = ST_CONNECTING))"

lemma ended_mono: "ended c fd highs lows B ss \<Longrightarrow> (d \<Longrightarrow> c) \<Longrightarrow> ended d fd highs lows B ss"
  by (auto simp: ended_def conn_delivered_def)

text \<open>If the kernel reported an error, a packet that was not even queued is one of which nothing was written.\<close>

lemma conn_delivered_more:
  assumes "conn_delivered c W highs lows" "\<not> d" "p = PRIORITY_HIGH \<or> p = PRIORITY_LOW"
  shows "conn_delivered d W (highs @ accepts PRIORITY_HIGH p pk) (lows @ accepts PRIORITY_LOW p pk)"
proof -
  obtain A rest where "concat (map snd A) = W @ rest" "of_priority PRIORITY_HIGH A = highs" "of_priority PRIORITY_LOW A = lows"
    using assms(1) by (auto simp: conn_delivered_def)
  then show ?thesis using assms(2,3)
    by (auto simp: conn_delivered_def accepts_def intro!: exI [of _ "A @ [(p, pk_bytes pk)]"])
qed

lemma send_step:
  assumes inv: "runs_on rp n sid fd highs lows B ss" and pk: "\<not> pk_object pk"
  shows "\<exists>r ss'. send_socket K sid pk p None ss = Some (r, ss') \<and>
    step_result K rp n sid fd False True (sk_type (ss_slot ss n))
      (highs @ (if half_closed n ss then [] else accepts PRIORITY_HIGH p pk))
      (lows @ (if half_closed n ss then [] else accepts PRIORITY_LOW p pk)) (B + {#pk_buffer pk#}) (reply_closes r, ss')"
proof -
  have n: "HASH_ID sid = n" "sk_id (ss_slot ss n) = sid" and inv': "goes_on rp n fd highs lows B ss" "connecting_watched n ss"
    using inv by (simp_all add: runs_on_def)
  show ?thesis
proof (cases "half_closed n ss")
  case True
  then show ?thesis using send_socket_halfclose [OF inv'(1) n pk True] n
    by (simp add: step_result_def runs_on_def connecting_watched_def free_packet_def note_event_def)
next
  case False
  obtain r ss' where run: "send_socket K sid pk p None ss = Some (r, ss')" and res:
    "r = None \<and> goes_on rp n fd (highs @ accepts PRIORITY_HIGH p pk) (lows @ accepts PRIORITY_LOW p pk) (add_mset (pk_buffer pk) B) ss' \<and>
       connecting_watched n ss' \<and> sk_type (ss_slot ss' n) = sk_type (ss_slot ss n) \<and> sk_id (ss_slot ss' n) = sid \<or>
     (\<exists>m. r = Some (SR_CLOSE, m)) \<and> \<not> errorless K \<and> ended (errorless K) fd highs lows (add_mset (pk_buffer pk) B) ss'"
    using send_socket_ok [OF inv' n pk False] by blast
  have "ended False fd (highs @ accepts PRIORITY_HIGH p pk) (lows @ accepts PRIORITY_LOW p pk) (add_mset (pk_buffer pk) B) ss'"
    if "ended (errorless K) fd highs lows (add_mset (pk_buffer pk) B) ss'"
    using that conn_delivered_more [of "errorless K" _ highs lows False p pk] by (cases p) (auto simp: ended_def)
  then show ?thesis using run res False n by (auto simp: step_result_def runs_on_def)
qed
qed

lemma close_step:
  assumes ret: "writes_return K" and inv: "runs_on rp n sid fd highs lows B ss"
  shows "\<exists>r ss'. close_socket K sid shutdown opaque ss = Some (r, ss') \<and>
    step_result K rp n sid fd True (\<not> shutdown) (sk_type (ss_slot ss n)) highs lows B (reply_closes r, ss')"
proof -
  have n: "HASH_ID sid = n" "sk_id (ss_slot ss n) = sid" and inv': "goes_on rp n fd highs lows B ss"
    using inv by (simp_all add: runs_on_def)
  obtain r ss' where run: "close_socket K sid shutdown opaque ss = Some (r, ss')" and res:
    "r = None \<and> goes_on rp n fd highs lows B ss' \<and> half_closed n ss' \<and> sk_id (ss_slot ss' n) = sid \<or>
     (\<exists>m. r = Some (SR_CLOSE, m)) \<and> ended (errorless K \<and> \<not> shutdown) fd highs lows B ss'"
    using close_socket_ok [OF ret inv' n] by blast
  from res show ?thesis
  proof
    assume "r = None \<and> goes_on rp n fd highs lows B ss' \<and> half_closed n ss' \<and> sk_id (ss_slot ss' n) = sid"
    then show ?thesis using run n by (simp add: step_result_def runs_on_def connecting_watched_def)
  next
    assume "(\<exists>m. r = Some (SR_CLOSE, m)) \<and> ended (errorless K \<and> \<not> shutdown) fd highs lows B ss'"
    then show ?thesis using run by (auto simp: step_result_def elim: ended_mono)
  qed
qed

text \<open>The fields that only steer the loop play no part.\<close>

lemma runs_on_cong:
  assumes "ss_slot ss' n = ss_slot ss n" "ss_trace ss' = ss_trace ss" "ss_watch ss' = ss_watch ss"
  shows "runs_on rp n sid fd highs lows B ss' = runs_on rp n sid fd highs lows B ss"
  using assms by (simp add: runs_on_def goes_on_cong [OF assms] connecting_watched_def)

lemma step_result_cong:
  assumes "ss_slot ss' n = ss_slot ss n" "ss_trace ss' = ss_trace ss" "ss_watch ss' = ss_watch ss"
  shows "step_result K rp n sid fd c q t highs lows B (closed, ss') = step_result K rp n sid fd c q t highs lows B (closed, ss)"
  using assms by (simp add: step_result_def runs_on_cong [OF assms] ended_def)

lemma event_step:
  assumes ret: "writes_return K" and inv: "runs_on rp n sid fd highs lows B ss"
  shows "\<exists>res. conn_step K n (Op_Event rd wr) ss = Some res \<and>
    step_result K rp n sid fd False (rd \<longrightarrow> reads_go_on K) (sk_type (ss_slot ss n)) highs lows B res"
proof -
  define e where "e = \<lparr>ev_s = Some n, ev_read = rd, ev_write = wr\<rparr>"
  define ss1 where "ss1 = ss\<lparr>ss_ev := [e], ss_event_index := 1\<rparr>"
  have e: "ev_s e = Some n" "ev_read e = rd" "ev_write e = wr" by (simp_all add: e_def)
  have inv1: "goes_on rp n fd highs lows B ss1" "connecting_watched n ss1" and n: "HASH_ID sid = n" "sk_id (ss_slot ss1 n) = sid"
    and slot: "ss_slot ss1 = ss_slot ss"
    using inv runs_on_cong [of ss1 n ss rp sid fd highs lows B] by (simp_all add: runs_on_def ss1_def)
  let ?t = "sk_type (ss_slot ss n)"
  have "sk_protocol (ss_slot ss n) = PROTOCOL_TCP" "?t = ST_CONNECTING \<or> ?t = ST_CONNECTED \<or> ?t = ST_HALFCLOSE"
    using goes_on_parts(2) [OF inv1(1)] slot by (auto simp: live_def)
  note lv = this
  have go: "dispatch_event K (ss\<lparr>ss_ev := [e], ss_event_index := 0\<rparr>) =
    (if ?t = ST_CONNECTING then map_option (\<lambda>(r, ss2). (Return r, ss2)) (report_connect K n ss1)
     else if rd then do {
       (r, ss2) \<leftarrow> forward_message_tcp K n ss1;
       Some (if r = None then Again else Return r, if wr \<and> \<not> reply_closes r
         then ss2\<lparr>ss_event_index := ss_event_index ss2 - 1, ss_ev := (ss_ev ss2)[ss_event_index ss2 - 1 := e\<lparr>ev_read := False\<rparr>]\<rparr> else ss2)
     }
     else if wr then return_unless_nothing (send_buffer K n ss1) else Some (Again, ss1))"
    using lv by (auto simp: dispatch_event_def e Let_def ss1_def reply_closes_def split: option.splits intro!: Option.bind_cong)
  have close: "(case if r = None then Again else Return r of Again \<Rightarrow> False | Return r \<Rightarrow> reply_closes r) = reply_closes r" for r
    by simp
  consider "?t = ST_CONNECTING" | "?t \<noteq> ST_CONNECTING" rd | "?t \<noteq> ST_CONNECTING" "\<not> rd" wr | "?t \<noteq> ST_CONNECTING" "\<not> rd" "\<not> wr" by blast
  then show ?thesis
  proof cases
    case 1
    then have "\<exists>r ss'. report_connect K n ss1 = Some (r, ss') \<and> step_result K rp n sid fd False (rd \<longrightarrow> reads_go_on K) ?t highs lows B (reply_closes r, ss')"
      using report_connect_ok [OF inv1(1)] slot n
      by (fastforce simp: step_result_def runs_on_def connecting_watched_def intro: ended_mono)
    then show ?thesis unfolding conn_step.simps e_def [symmetric] go using 1 by auto
  next
    case 2
    then have "\<exists>r ss'. forward_message_tcp K n ss1 = Some (r, ss') \<and> step_result K rp n sid fd False (rd \<longrightarrow> reads_go_on K) ?t highs lows B (reply_closes r, ss')"
      using forward_message_tcp_ok [OF inv1(1)] slot n inv1(2)
      by (fastforce simp: step_result_def runs_on_def intro: ended_mono)
    then obtain r ss' where "forward_message_tcp K n ss1 = Some (r, ss')"
      "step_result K rp n sid fd False (rd \<longrightarrow> reads_go_on K) ?t highs lows B (reply_closes r, ss')" by blast
    note fwd = this
    have go': "conn_step K n (Op_Event rd wr) ss = Some (reply_closes r, if wr \<and> \<not> reply_closes r
        then ss'\<lparr>ss_event_index := ss_event_index ss' - 1, ss_ev := (ss_ev ss')[ss_event_index ss' - 1 := e\<lparr>ev_read := False\<rparr>]\<rparr> else ss')"
      unfolding conn_step.simps e_def [symmetric] go using 2 fwd(1) by simp
    show ?thesis unfolding go' using fwd(2) by (intro exI conjI [OF refl]) (subst step_result_cong [of _ n ss'], simp_all)
  next
    case 3
    obtain r ss' where run: "send_buffer K n ss1 = Some (r, ss')" and res:
      "r = None \<and> goes_on rp n fd highs lows B ss' \<and> sk_type (ss_slot ss' n) = ?t \<and> sk_id (ss_slot ss' n) = sid \<or>
       (\<exists>m. r = Some (SR_CLOSE, m)) \<and> ended (errorless K) fd highs lows B ss'"
      using send_buffer_ok [OF ret inv1(1)] slot n by auto
    from res have "step_result K rp n sid fd False (rd \<longrightarrow> reads_go_on K) ?t highs lows B (reply_closes r, ss')"
    proof
      assume "r = None \<and> goes_on rp n fd highs lows B ss' \<and> sk_type (ss_slot ss' n) = ?t \<and> sk_id (ss_slot ss' n) = sid"
      then show ?thesis using 3 n(1) by (simp add: step_result_def runs_on_def connecting_watched_def)
    next
      assume "(\<exists>m. r = Some (SR_CLOSE, m)) \<and> ended (errorless K) fd highs lows B ss'"
      then show ?thesis by (auto simp: step_result_def elim: ended_mono)
    qed
    moreover have "conn_step K n (Op_Event rd wr) ss = Some (reply_closes r, ss')"
      unfolding conn_step.simps e_def [symmetric] go using 3 run by (simp add: return_unless_nothing_def)
    ultimately show ?thesis by blast
  next
    case 4
    then show ?thesis unfolding conn_step.simps e_def [symmetric] go using inv1 n slot
      by (simp add: step_result_def runs_on_def)
  qed
qed

lemma step_ok:
  assumes ret: "writes_return K" and inv: "runs_on rp n sid fd highs lows B ss" and op: "op_for sid op"
  shows "\<exists>res. conn_step K n op ss = Some res \<and>
    step_result K rp n sid fd (op_closes op) (op_quiet K op) (sk_type (ss_slot ss n))
      (highs @ (if half_closed n ss then [] else op_sends PRIORITY_HIGH op))
      (lows @ (if half_closed n ss then [] else op_sends PRIORITY_LOW op)) (B + op_buffer op) res"
proof -
  have inv': "runs_on rp n sid fd highs lows B (ss\<lparr>ss_ctrl := [req]\<rparr>)" "runs_on rp n sid fd highs lows B (ss\<lparr>ss_ctrl := []\<rparr>)" for req
    using inv runs_on_cong [of "ss\<lparr>ss_ctrl := [req]\<rparr>" n ss rp sid fd highs lows B]
      runs_on_cong [of "ss\<lparr>ss_ctrl := []\<rparr>" n ss rp sid fd highs lows B] by simp_all
  show ?thesis
  proof (cases op)
    case (Op_Event rd wr)
    have "op_sends p op = []" "op_buffer op = {#}" "op_closes op = False" "op_quiet K op = (rd \<longrightarrow> reads_go_on K)" for p
      by (simp_all add: Op_Event)
    note op = this
    show ?thesis unfolding op if_cancel append_Nil2 add_0_right unfolding Op_Event by (rule event_step [OF ret inv])
  next
    case (Op_Request req)
    consider pk where "req = Req_Send sid pk" "\<not> pk_object pk" | pk where "req = Req_Send_Low sid pk" "\<not> pk_object pk"
      | shutdown opaque where "req = Req_Close sid shutdown opaque"
      using op Op_Request by (cases req) auto
    then show ?thesis
    proof cases
      case 1
      then show ?thesis using send_step [OF inv'(2), of pk K PRIORITY_HIGH] Op_Request
        by (auto simp: ctrl_cmd_def)
    next
      case 2
      then show ?thesis using send_step [OF inv'(2), of pk K PRIORITY_LOW] Op_Request
        by (auto simp: ctrl_cmd_def)
    next
      case 3
      then show ?thesis using close_step [OF ret inv'(2), of shutdown opaque] Op_Request
        by (auto simp: ctrl_cmd_def)
    qed
  qed
qed

lemma buffers_simps [simp]: "buffers [] = {#}" "buffers (op # ops) = op_buffer op + buffers ops"
  by (simp_all add: buffers_def)

text \<open>
  A run never fails.  Afterwards the connection is still there, with the packets it has taken, or it has
  ended; then all that was handed over is free.
\<close>

lemma run_ok:
  assumes ret: "writes_return K" and "runs_on rp n sid fd highs lows B ss" and "list_all (op_for sid) ops"
  shows "\<exists>closed rest ss'. conn_run K n ops ss = Some (closed, rest, ss') \<and>
    (\<exists>done. ops = done @ rest \<and> (let pks = (\<lambda>p. if half_closed n ss then [] else packets p done) in
       if closed then ended (errorless K \<and> rp \<and> list_all (op_quiet K) done \<and> sk_type (ss_slot ss n) \<noteq> ST_CONNECTING) fd
         (highs @ pks PRIORITY_HIGH) (lows @ pks PRIORITY_LOW) (B + buffers done) ss'
       else rest = [] \<and> runs_on rp n sid fd (highs @ pks PRIORITY_HIGH) (lows @ pks PRIORITY_LOW) (B + buffers done) ss'))"
  using assms(2,3)
proof (induction ops arbitrary: highs lows B ss)
  case Nil
  then show ?case by (intro exI [of _ False] exI [of _ "[]"] exI [of _ ss] conjI) simp_all
next
  case (Cons op ops)
  let ?t = "sk_type (ss_slot ss n)"
  let ?h = "highs @ (if half_closed n ss then [] else op_sends PRIORITY_HIGH op)"
  let ?l = "lows @ (if half_closed n ss then [] else op_sends PRIORITY_LOW op)"
  have op: "op_for sid op" "list_all (op_for sid) ops" using Cons.prems(2) by simp_all
  obtain closed ss1 where step: "conn_step K n op ss = Some (closed, ss1)" and
    res: "step_result K rp n sid fd (op_closes op) (op_quiet K op) ?t ?h ?l (B + op_buffer op) (closed, ss1)"
    using step_ok [OF ret Cons.prems(1) op(1)] by auto
  show ?case
  proof (cases closed)
    case True
    have ops: "op # ops = [op] @ ops" by simp
    have res': "let pks = (\<lambda>p. if half_closed n ss then [] else packets p [op]) in
       ended (errorless K \<and> rp \<and> list_all (op_quiet K) [op] \<and> ?t \<noteq> ST_CONNECTING) fd
         (highs @ pks PRIORITY_HIGH) (lows @ pks PRIORITY_LOW) (B + buffers [op]) ss1"
      using res True by (cases "half_closed n ss") (auto simp: step_result_def)
    have run: "conn_run K n (op # ops) ss = Some (True, ops, ss1)" using step True by simp
    show ?thesis unfolding if_True
      by (rule exI [of _ True], rule exI [of _ ops], rule exI [of _ ss1], rule conjI [OF run], rule exI [of _ "[op]"],
        rule conjI [OF ops]) (use res' in \<open>simp only: if_True Let_def\<close>)
  next
    case False
    have ok: "runs_on rp n sid fd ?h ?l (B + op_buffer op) ss1" "half_closed n ss1 = (op_closes op \<or> half_closed n ss)"
      "sk_type (ss_slot ss1 n) = ST_CONNECTING \<Longrightarrow> ?t = ST_CONNECTING"
      using res False by (auto simp: step_result_def)
    obtain closed2 rest ss' "done" where run: "conn_run K n ops ss1 = Some (closed2, rest, ss')" and ops: "ops = done @ rest" and
      IH: "let pks = (\<lambda>p. if half_closed n ss1 then [] else packets p done) in
       if closed2 then ended (errorless K \<and> rp \<and> list_all (op_quiet K) done \<and> sk_type (ss_slot ss1 n) \<noteq> ST_CONNECTING) fd
         (?h @ pks PRIORITY_HIGH) (?l @ pks PRIORITY_LOW) (B + op_buffer op + buffers done) ss'
       else rest = [] \<and> runs_on rp n sid fd (?h @ pks PRIORITY_HIGH) (?l @ pks PRIORITY_LOW) (B + op_buffer op + buffers done) ss'"
      using Cons.IH [OF ok(1) op(2)] by blast
    have pks: "(if half_closed n ss then [] else op_sends p op) @ (if half_closed n ss1 then [] else packets p done) =
      (if half_closed n ss then [] else packets p (op # done))" for p
      using ok(2) by auto
    have B: "B + op_buffer op + buffers done = B + buffers (op # done)" by (simp add: add.assoc)
    have mono: "ended (errorless K \<and> rp \<and> list_all (op_quiet K) (op # done) \<and> ?t \<noteq> ST_CONNECTING) fd h l B' ss'"
      if "ended (errorless K \<and> rp \<and> list_all (op_quiet K) done \<and> sk_type (ss_slot ss1 n) \<noteq> ST_CONNECTING) fd h l B' ss'" for h l B'
      using that ok(3) by (elim ended_mono) auto
    have "conn_run K n (op # ops) ss = Some (closed2, rest, ss')" using step False run by simp
    moreover have "op # ops = (op # done) @ rest" using ops by simp
    moreover have "let pks = (\<lambda>p. if half_closed n ss then [] else packets p (op # done)) in
       if closed2 then ended (errorless K \<and> rp \<and> list_all (op_quiet K) (op # done) \<and> ?t \<noteq> ST_CONNECTING) fd
         (highs @ pks PRIORITY_HIGH) (lows @ pks PRIORITY_LOW) (B + buffers (op # done)) ss'
       else rest = [] \<and> runs_on rp n sid fd (highs @ pks PRIORITY_HIGH) (lows @ pks PRIORITY_LOW) (B + buffers (op # done)) ss'"
      using IH unfolding B Let_def append_assoc pks by (cases closed2) (simp_all only: if_True if_False mono simp_thms)
    ultimately show ?thesis by blast
  qed
qed

section \<open>What a connection promises\<close>

text \<open>A connection of which nothing was written yet, just opened or accepted and started.\<close>

definition fresh_connection :: "nat \<Rightarrow> int \<Rightarrow> 'k socket_server \<Rightarrow> bool" where
  "fresh_connection n sid ss \<longleftrightarrow> (let s = ss_slot ss n in
     HASH_ID sid = n \<and> sk_id s = sid \<and> sk_type s \<in> {ST_CONNECTING, ST_CONNECTED} \<and> sk_protocol s = PROTOCOL_TCP \<and>
     send_buffer_empty s \<and> sk_wb_size s = 0 \<and> ss_watch ss (sk_fd s) = Some (Some n, sk_type s = ST_CONNECTING) \<and>
     wire (sk_fd s) (ss_trace ss) = [])"

lemma fresh_runs:
  assumes "fresh_connection n sid ss" "rp \<longrightarrow> 0 < sk_psize (ss_slot ss n)"
  shows "runs_on rp n sid (sk_fd (ss_slot ss n)) [] [] (frees (ss_trace ss)) ss" "\<not> half_closed n ss"
  using assms by (auto simp: fresh_connection_def runs_on_def goes_on_def conn_ok_def watched_def connecting_watched_def live_def
    queue_ok_def stream_def send_buffer_empty_def bufs_def Let_def intro: exI [of _ "[]"])

text \<open>The code makes such connections: a connection to an address, and an accepted one that is started.\<close>

lemma open_socket_fresh:
  assumes "open_socket K sid host port opaque ss = Some (r, ss')" "\<not> reply_closes r"
    and "wire (sk_fd (ss_slot ss' (HASH_ID sid))) (ss_trace ss') = []"
  shows "fresh_connection (HASH_ID sid) sid ss'"
  using assms
  by (auto simp: open_socket_def fresh_connection_def new_fd_def sp_add_def sp_write_def set_type_def set_slot_def send_buffer_empty_def Let_def
    split: prod.splits sum.splits if_splits bind_splits)

lemma no_reads: "False \<longrightarrow> P"
  by simp

lemma fresh_run:
  assumes "fresh_connection n sid ss" "writes_return K" "list_all (op_for sid) ops" and rp: "rp \<longrightarrow> 0 < sk_psize (ss_slot ss n)"
  shows "\<exists>closed rest done ss'. conn_run K n ops ss = Some (closed, rest, ss') \<and> ops = done @ rest \<and>
    (if closed then ended (errorless K \<and> rp \<and> list_all (op_quiet K) done \<and> sk_type (ss_slot ss n) \<noteq> ST_CONNECTING) (sk_fd (ss_slot ss n))
         (packets PRIORITY_HIGH done) (packets PRIORITY_LOW done) (frees (ss_trace ss) + buffers done) ss'
       else rest = [] \<and> runs_on rp n sid (sk_fd (ss_slot ss n)) (packets PRIORITY_HIGH done) (packets PRIORITY_LOW done)
         (frees (ss_trace ss) + buffers done) ss')"
  using run_ok [OF assms(2) fresh_runs(1) [OF assms(1) rp] assms(3)] fresh_runs(2) [OF assms(1) rp]
  unfolding Let_def append_Nil if_not_P [OF fresh_runs(2) [OF assms(1) rp]] by blast

section \<open>A connection that closes\<close>

text \<open>A kernel that takes two bytes of every write, and a connection on descriptor 7 in slot 5.\<close>

definition slow_kernel :: "unit kernel" where
  "slow_kernel = \<lparr>k_epoll_create = \<lambda>k. (3, k), k_pipe = \<lambda>k. (None, k), k_epoll_add = \<lambda>fd k. (None, k), k_epoll_wait = \<lambda>k. ([], k),
     k_write = \<lambda>fd bs k. (Inr (min 2 (length bs)), k), k_sendto = \<lambda>fd bs a k. (Inl EAGAIN, k), k_read = \<lambda>fd c k. (Inl EAGAIN, k),
     k_recvfrom = \<lambda>fd k. (Inl EAGAIN, k), k_accept = \<lambda>fd k. (Inl EAGAIN, k), k_getaddrinfo = \<lambda>h p k. (Inl [], k),
     k_socket = \<lambda>a k. (Inr 7, k), k_connect = \<lambda>fd a k. (None, k), k_bind = \<lambda>fd a k. (True, k), k_listen = \<lambda>fd b k. (True, k),
     k_so_error = \<lambda>fd k. (None, k), k_peername = \<lambda>fd k. (None, k), k_ntop = \<lambda>a. None, k_is_v6 = \<lambda>a. False,
     k_port_address = \<lambda>a. []\<rparr>"

definition example_server :: "unit socket_server" where
  "example_server = \<lparr>ss_recvctrl_fd = 4, ss_sendctrl_fd = 5, ss_ctrl = [], ss_checkctrl = True, ss_alloc_id = 5, ss_event_index = 0, ss_ev = [],
     ss_soi = False, ss_slot = (\<lambda>_. socket_empty)(5 := socket_empty\<lparr>sk_type := ST_CONNECTED, sk_id := 5, sk_fd := 7, sk_psize := MIN_READ_BUFFER\<rparr>),
     ss_watch = [4 \<mapsto> (None, False), 7 \<mapsto> (Some 5, False)], ss_os = (), ss_trace = []\<rparr>"

text \<open>Three bytes of high and one of low priority, a request to close, and writable events.\<close>

definition example_ops :: "conn_op list" where
  "example_ops = [Op_Request (Req_Send_Low 5 \<lparr>pk_buffer = 100, pk_bytes = [1, 2, 3], pk_object = False\<rparr>),
     Op_Request (Req_Send 5 \<lparr>pk_buffer = 200, pk_bytes = [4], pk_object = False\<rparr>), Op_Request (Req_Close 5 False 1),
     Op_Event False True]"

lemma slow_write: "write_retry slow_kernel fd bs k = Some (Inr (min 2 (length bs)), k)"
  by (subst write_retry.simps) (simp add: slow_kernel_def)

lemma slow_returns: "writes_return slow_kernel" "errorless slow_kernel"
  by (simp_all add: writes_return_def slow_write errorless_def) (simp add: slow_kernel_def)

lemma example_fresh: "fresh_connection 5 5 example_server" "list_all (op_for 5) example_ops" "list_all (op_quiet slow_kernel) example_ops"
  by (simp_all add: fresh_connection_def example_server_def example_ops_def HASH_ID_def MAX_SOCKET_def MAX_SOCKET_P_def
    socket_empty_def send_buffer_empty_def)

text \<open>The first two operations leave a queue, and the request to close is served before the last byte is written.\<close>

lemma example_run: "\<exists>ss'. conn_run slow_kernel 5 (take 2 example_ops) example_server = Some (False, [], ss') \<and>
    \<not> send_buffer_empty (ss_slot ss' 5)"
  "\<exists>ss'. conn_run slow_kernel 5 example_ops example_server = Some (True, [Op_Event False True], ss')"
  by (simp_all add: example_ops_def example_server_def ctrl_cmd_def send_socket_def close_socket_def send_buffer_def
    send_list_def HASH_ID_def MAX_SOCKET_def MAX_SOCKET_P_def socket_empty_def send_object_init_def send_buffer_empty_def
    slow_kernel_def list_uncomplete_def note_event_def set_slot_def append_sendbuffer_def append_sendbuffer_low_def append_sendbuffer_aux_def
    set_list_def get_list_def sp_write_def wb_rest_def force_close_def fold_free Let_def
    write_buffer_free_def free_packet_def sp_del_def close_fd_def slow_write [unfolded slow_kernel_def])


section \<open>The promises\<close>

text \<open>C3. No packet of a TCP connection is torn apart or mixed with another: whatever the kernel accepts of each
  write and in whichever order requests and events come, the bytes written are a beginning of a sequence of
  whole packets, which has the packets of each priority in the order in which they were sent.  No step fails.
\<close>

theorem tcp_packets_stay_whole:
  assumes "fresh_connection n sid ss" "writes_return K" "list_all (op_for sid) ops"
  shows "\<exists>closed rest done ss' A unsent. conn_run K n ops ss = Some (closed, rest, ss') \<and> ops = done @ rest \<and>
    wire (sk_fd (ss_slot ss n)) (ss_trace ss') @ unsent = concat (map snd A) \<and>
    of_priority PRIORITY_HIGH A = packets PRIORITY_HIGH done \<and> of_priority PRIORITY_LOW A = packets PRIORITY_LOW done"
proof -
  obtain closed rest "done" ss' where run: "conn_run K n ops ss = Some (closed, rest, ss')" "ops = done @ rest" and res:
    "if closed then ended (errorless K \<and> False \<and> list_all (op_quiet K) done \<and> sk_type (ss_slot ss n) \<noteq> ST_CONNECTING) (sk_fd (ss_slot ss n))
         (packets PRIORITY_HIGH done) (packets PRIORITY_LOW done) (frees (ss_trace ss) + buffers done) ss'
       else rest = [] \<and> runs_on False n sid (sk_fd (ss_slot ss n)) (packets PRIORITY_HIGH done) (packets PRIORITY_LOW done)
         (frees (ss_trace ss) + buffers done) ss'"
    using fresh_run [OF assms no_reads] by (elim exE conjE)
  have "conn_delivered False (wire (sk_fd (ss_slot ss n)) (ss_trace ss')) (packets PRIORITY_HIGH done) (packets PRIORITY_LOW done)"
  proof (cases closed)
    case True
    then show ?thesis using res by (auto simp: ended_def conn_delivered_def)
  next
    case False
    then have "goes_on False n (sk_fd (ss_slot ss n)) (packets PRIORITY_HIGH done) (packets PRIORITY_LOW done) (frees (ss_trace ss) + buffers done) ss'"
      using res by (simp add: runs_on_def)
    then show ?thesis by (rule stream_delivered [OF goes_on_parts(5)]) simp
  qed
  then obtain A unsent where "concat (map snd A) = wire (sk_fd (ss_slot ss n)) (ss_trace ss') @ unsent"
    "of_priority PRIORITY_HIGH A = packets PRIORITY_HIGH done" "of_priority PRIORITY_LOW A = packets PRIORITY_LOW done"
    unfolding conn_delivered_def by (elim exE conjE)
  with run show ?thesis
    by (metis (no_types))
qed

lemma tcp_packets_stay_whole_witness:
  "\<exists>closed rest done ss' A unsent. conn_run slow_kernel 5 example_ops example_server = Some (closed, rest, ss') \<and>
    example_ops = done @ rest \<and> wire 7 (ss_trace ss') @ unsent = concat (map snd A) \<and>
    of_priority PRIORITY_HIGH A = packets PRIORITY_HIGH done \<and> of_priority PRIORITY_LOW A = packets PRIORITY_LOW done"
  using tcp_packets_stay_whole [OF example_fresh(1) slow_returns(1) example_fresh(2)] by (simp add: example_server_def)

text \<open>C15. Every buffer handed over with a request is freed exactly once: while the connection is open it is freed
  or still in the queue, and once it is closed all of them are free.
\<close>

theorem buffers_freed_once:
  assumes "fresh_connection n sid ss" "writes_return K" "list_all (op_for sid) ops"
    and "conn_run K n ops ss = Some (closed, rest, ss')"
  shows "\<exists>done. ops = done @ rest \<and>
    frees (ss_trace ss') + (if closed then {#} else bufs (ss_slot ss' n)) = frees (ss_trace ss) + buffers done"
  using fresh_run [OF assms(1-3) no_reads] assms(4) goes_on_parts(6)
  by (cases closed) (fastforce simp: ended_def runs_on_def)+

lemma buffers_freed_once_witness:
  "\<exists>ss' done. conn_run slow_kernel 5 example_ops example_server = Some (True, [Op_Event False True], ss') \<and>
    example_ops = done @ [Op_Event False True] \<and> frees (ss_trace ss') = buffers done"
proof -
  obtain ss' where run: "conn_run slow_kernel 5 example_ops example_server = Some (True, [Op_Event False True], ss')"
    using example_run(2) by blast
  show ?thesis using buffers_freed_once [OF example_fresh(1) slow_returns(1) example_fresh(2) run] run
    by (simp add: example_server_def)
qed

text \<open>C34. Data that could not be written is not forgotten: while the queue is not empty, the descriptor is watched
  for becoming writable, and the size that callers are told is the number of queued bytes.
\<close>

theorem unsent_data_is_watched:
  assumes "fresh_connection n sid ss" "writes_return K" "list_all (op_for sid) ops"
    and "conn_run K n ops ss = Some (False, rest, ss')"
  shows "(send_buffer_empty (ss_slot ss' n) \<or> ss_watch ss' (sk_fd (ss_slot ss' n)) = Some (Some n, True)) \<and>
    sk_wb_size (ss_slot ss' n) = int (length (rests (sk_high (ss_slot ss' n)) @ rests (sk_low (ss_slot ss' n))))"
proof -
  obtain highs lows B where "goes_on False n (sk_fd (ss_slot ss n)) highs lows B ss'"
    using fresh_run [OF assms(1-3) no_reads] assms(4) by (auto simp: runs_on_def)
  note parts = goes_on_parts(1,3) [OF this]
  show ?thesis using parts by (auto simp: queue_ok_def watched_def)
qed

lemma unsent_data_is_watched_witness:
  "\<exists>ss'. conn_run slow_kernel 5 (take 2 example_ops) example_server = Some (False, [], ss') \<and>
    \<not> send_buffer_empty (ss_slot ss' 5) \<and> ss_watch ss' (sk_fd (ss_slot ss' 5)) = Some (Some 5, True)"
proof -
  obtain ss' where run: "conn_run slow_kernel 5 (take 2 example_ops) example_server = Some (False, [], ss')"
    "\<not> send_buffer_empty (ss_slot ss' 5)" using example_run(1) by blast
  have "list_all (op_for 5) (take 2 example_ops)" using example_fresh(2) by (simp add: example_ops_def)
  from unsent_data_is_watched [OF example_fresh(1) slow_returns(1) this run(1)] run show ?thesis by blast
qed



end
