(* ===== verification/SocketTable.thy ===== *)
theory SocketTable
  imports SocketStream
begin

text \<open>
  The table of sockets as a whole: what holds of every slot after every turn of the loop, how identifiers are
  given out, and two ways in which a queue comes to a stop.
\<close>

section \<open>The invariant of the table\<close>

definition slot_ok :: "nat \<Rightarrow> socket \<Rightarrow> bool" where
  "slot_ok n s \<longleftrightarrow>
     (sk_type s \<in> {ST_INVALID, ST_RESERVE} \<longrightarrow> sk_high s = [] \<and> sk_low s = []) \<and>
     (sk_type s \<noteq> ST_INVALID \<longrightarrow> HASH_ID (sk_id s) = n) \<and>
     (sk_type s \<notin> {ST_INVALID, ST_RESERVE} \<and> sk_protocol s = PROTOCOL_TCP \<longrightarrow> (\<exists>k. sk_psize s = MIN_READ_BUFFER * 2 ^ k))"

definition table_ok :: "'k socket_server \<Rightarrow> bool" where
  "table_ok ss \<longleftrightarrow> (\<forall>n. slot_ok n (ss_slot ss n))"



lemma table_okD: "table_ok ss \<Longrightarrow> slot_ok n (ss_slot ss n)"
  by (simp add: table_ok_def)

lemma table_ok_set [intro]: "table_ok ss \<Longrightarrow> slot_ok n s \<Longrightarrow> table_ok (set_slot n s ss)"
  by (simp add: table_ok_def set_slot_def)


lemma same_slots [simp]:
  "ss_slot (note_event e ss) = ss_slot ss" "ss_slot (sp_del fd ss) = ss_slot ss" "ss_slot (sp_write fd n b ss) = ss_slot ss"
  "ss_slot (close_fd fd ss) = ss_slot ss" "ss_slot (free_packet pk ss) = ss_slot ss" "ss_slot (write_buffer_free wb ss) = ss_slot ss"
  "ss_slot (free_wb_list l ss) = ss_slot ss"
  "table_ok (note_event e ss) = table_ok ss" "table_ok (sp_del fd ss) = table_ok ss" "table_ok (sp_write fd n b ss) = table_ok ss"
  "table_ok (close_fd fd ss) = table_ok ss" "table_ok (free_packet pk ss) = table_ok ss" "table_ok (write_buffer_free wb ss) = table_ok ss"
  "table_ok (free_wb_list l ss) = table_ok ss"
  by (simp_all add: table_ok_def note_event_def sp_del_def sp_write_def close_fd_def free_packet_def write_buffer_free_def fold_free)

lemma same_slots_fields [simp]:
  "table_ok (ss\<lparr>ss_os := k\<rparr>) = table_ok ss" "table_ok (ss\<lparr>ss_alloc_id := a\<rparr>) = table_ok ss" "table_ok (ss\<lparr>ss_ctrl := c\<rparr>) = table_ok ss"
  "table_ok (ss\<lparr>ss_ev := e\<rparr>) = table_ok ss" "table_ok (ss\<lparr>ss_event_index := i\<rparr>) = table_ok ss"
  "table_ok (ss\<lparr>ss_checkctrl := b\<rparr>) = table_ok ss" "table_ok (ss\<lparr>ss_watch := w\<rparr>) = table_ok ss"
  by (simp_all add: table_ok_def)

lemma slot_set [simp]: "ss_slot (set_slot n s ss) = (ss_slot ss)(n := s)"
  by (simp add: set_slot_def)




lemma slot_ok_invalid: "sk_high s = [] \<Longrightarrow> sk_low s = [] \<Longrightarrow> sk_type s = ST_INVALID \<Longrightarrow> slot_ok n s"
  by (simp add: slot_ok_def)

lemma force_close_table:
  assumes "table_ok ss" "force_close n ss = Some (m, ss')"
  shows "table_ok ss'" "sk_type (ss_slot ss' n) = ST_INVALID"
  using assms by (auto simp: force_close_def Let_def split: if_splits intro!: table_ok_set slot_ok_invalid)


abbreviation in_use :: "socket \<Rightarrow> bool" where
  "in_use s \<equiv> sk_type s \<notin> {ST_INVALID, ST_RESERVE}"


lemma raise_table: "slot_ok n s \<Longrightarrow> in_use s \<Longrightarrow> raise_uncomplete s = Some s' \<Longrightarrow> slot_ok n s'"
  by (auto simp: raise_uncomplete_def slot_ok_def split: list.splits if_splits)

text \<open>An operation on slot \<open>n\<close> keeps the table; if it has nothing to report, the socket is of type \<open>t\<close>.\<close>

definition table_step :: "nat \<Rightarrow> socket_state \<Rightarrow> (reply \<times> 'k socket_server) option \<Rightarrow> bool" where
  "table_step n t res \<longleftrightarrow> (\<forall>r ss'. res = Some (r, ss') \<longrightarrow> table_ok ss' \<and> (r = None \<longrightarrow> sk_type (ss_slot ss' n) = t))"

named_theorems table_intros



lemma table_step_close [table_intros]:
  "table_ok ss \<Longrightarrow> table_step n t (map_option (\<lambda>(m, ss'). (Some (f m), ss')) (force_close i ss))"
  by (auto simp: table_step_def dest: force_close_table)






lemma raise_step [table_intros]:
  assumes "table_ok ss" "sk_type (ss_slot ss n) = t" "t \<noteq> ST_INVALID" "t \<noteq> ST_RESERVE"
  shows "table_step n t (map_option (\<lambda>s. (None, set_slot n s ss)) (raise_uncomplete (ss_slot ss n)))"
  using raise_table [OF table_okD [OF assms(1)]] assms
  by (auto simp: table_step_def raise_uncomplete_def split: list.splits intro!: table_ok_set)


section \<open>Every turn keeps the invariant\<close>



























lemma reserve_loop_slot:
  "reserve_loop k ss = (sid, ss') \<Longrightarrow> sid \<ge> 0 \<Longrightarrow> sk_type (ss_slot ss' (HASH_ID sid)) = ST_RESERVE"
  by (induction k arbitrary: ss) (auto simp: Let_def split: if_splits)






section \<open>Identifiers\<close>

text \<open>The slot that was tried last.\<close>

definition last_slot :: "'k socket_server \<Rightarrow> nat" where
  "last_slot ss = unat (ss_alloc_id ss) mod MAX_SOCKET"

definition next_id :: "u32 \<Rightarrow> u32" where
  "next_id a = (if sint (a + 1) < 0 then (a + 1) AND 0x7fffffff else a + 1)"

lemma next_id_value:
  "next_id a = word_of_int (uint (a + 1) mod 2 ^ 31)" "sint (next_id a) = uint (a + 1) mod 2 ^ 31"
  "uint (next_id a) = uint (a + 1) mod 2 ^ 31"
proof -
  let ?i = "uint (a + 1) mod 2 ^ 31"
  have i: "0 \<le> ?i" "?i < 2 ^ 31" by simp_all
  have m: "(0x7fffffff :: u32) = mask 31" by (simp add: mask_eq_exp_minus_1)
  show eq: "next_id a = word_of_int ?i"
  proof (cases "sint (a + 1) < 0")
    case True
    then show ?thesis by (simp only: next_id_def m and_mask_mod_2p if_True)
  next
    case False
    have "sint (a + 1) < 2 ^ 31" using sint_lt [of "a + 1"] by simp
    moreover have "uint (a + 1) = sint (a + 1)"
      using False sint_lt [of "a + 1"] by (simp add: uint_sint take_bit_int_eq_self)
    ultimately show ?thesis using False by (simp only: next_id_def if_False) simp
  qed
  show "sint (next_id a) = ?i" unfolding eq using i by (simp only: sint_sbintrunc') (simp add: signed_take_bit_int_eq_self)
  show "uint (next_id a) = ?i" unfolding eq using i by (simp add: uint_word_of_int_eq take_bit_int_eq_self)
qed

lemma next_id_slot:
  "HASH_ID (sint (next_id a)) = (unat a mod MAX_SOCKET + 1) mod MAX_SOCKET" "0 \<le> sint (next_id a)"
  "unat (next_id a) mod MAX_SOCKET = (unat a mod MAX_SOCKET + 1) mod MAX_SOCKET"
proof -
  have dvd: "int MAX_SOCKET dvd 2 ^ 31" "MAX_SOCKET dvd 2 ^ 32" by (simp_all add: MAX_SOCKET_def MAX_SOCKET_P_def)
  have "unat (a + 1) mod MAX_SOCKET = (unat a + 1) mod MAX_SOCKET"
    using dvd(2) by (simp add: unat_word_ariths mod_mod_cancel)
  then have low: "nat (uint (a + 1) mod 2 ^ 31 mod int MAX_SOCKET) = (unat a mod MAX_SOCKET + 1) mod MAX_SOCKET"
    unfolding mod_mod_cancel [OF dvd(1)] by (simp add: nat_mod_distrib mod_Suc_eq flip: unat_eq_nat_uint)
  then show "HASH_ID (sint (next_id a)) = (unat a mod MAX_SOCKET + 1) mod MAX_SOCKET"
    by (simp only: HASH_ID_def next_id_value(2))
  show "0 \<le> sint (next_id a)" by (simp add: next_id_value(2))
  have "int (unat (next_id a)) = uint (a + 1) mod 2 ^ 31" by (simp only: of_nat_unat next_id_value(3))
  then show "unat (next_id a) mod MAX_SOCKET = (unat a mod MAX_SOCKET + 1) mod MAX_SOCKET"
    using low by (metis nat_int zmod_int)
qed

lemma reserve_step:
  "reserve_loop (Suc k) ss = (let a = next_id (ss_alloc_id ss); n = HASH_ID (sint a); s = ss_slot ss n in
     if sk_type s = ST_INVALID
     then (sint a, set_slot n (s\<lparr>sk_type := ST_RESERVE, sk_id := sint a, sk_fd := - 1\<rparr>) (ss\<lparr>ss_alloc_id := a\<rparr>))
     else reserve_loop k (ss\<lparr>ss_alloc_id := a\<rparr>))"
  by (simp add: next_id_def Let_def)

lemma reserve_loop_finds:
  assumes "reserve_loop k ss = (sid, ss')"
  shows "0 \<le> sid \<and> sk_type (ss_slot ss (HASH_ID sid)) = ST_INVALID \<and>
      ss_slot ss' = (ss_slot ss)(HASH_ID sid := (ss_slot ss (HASH_ID sid))\<lparr>sk_type := ST_RESERVE, sk_id := sid, sk_fd := - 1\<rparr>) \<or>
    sid = - 1 \<and> ss_slot ss' = ss_slot ss \<and> (\<forall>i<k. sk_type (ss_slot ss ((last_slot ss + 1 + i) mod MAX_SOCKET)) \<noteq> ST_INVALID)"
  using assms
proof (induction k arbitrary: ss)
  case 0
  then show ?case by simp
next
  case (Suc k)
  let ?a = "next_id (ss_alloc_id ss)"
  let ?n = "HASH_ID (sint ?a)"
  let ?ss = "ss\<lparr>ss_alloc_id := ?a\<rparr>"
  have n: "?n = (last_slot ss + 1) mod MAX_SOCKET" "0 \<le> sint ?a" by (simp_all add: next_id_slot last_slot_def)
  have last: "(last_slot ?ss + 1 + i) mod MAX_SOCKET = (last_slot ss + 1 + Suc i) mod MAX_SOCKET" for i
    using mod_add_left_eq [of "last_slot ss + 1" MAX_SOCKET "1 + i"] by (simp add: last_slot_def next_id_slot(3))
  show ?case
  proof (cases "sk_type (ss_slot ss ?n) = ST_INVALID")
    case True
    then show ?thesis using Suc.prems n(2) unfolding reserve_step by (auto simp: Let_def)
  next
    case False
    then have run: "reserve_loop k ?ss = (sid, ss')" using Suc.prems unfolding reserve_step by (simp add: Let_def)
    have "sk_type (ss_slot ss ((last_slot ss + 1 + i) mod MAX_SOCKET)) \<noteq> ST_INVALID"
      if "\<forall>i<k. sk_type (ss_slot ss ((last_slot ss + 1 + Suc i) mod MAX_SOCKET)) \<noteq> ST_INVALID" "i < Suc k" for i
      using that False n(1) by (cases i) auto
    then show ?thesis using Suc.IH [OF run] unfolding last by auto
  qed
qed

text \<open>C36. Reserving an identifier finds a free slot whenever there is one: the slot is reserved under an
  identifier that is not negative and leads back to it, and no other slot changes; the result -1 means that all
  slots are taken.  Identifiers wrap around without becoming negative.
\<close>

theorem reserve_id_finds_free_slot:
  "case reserve_id ss of (sid, ss') \<Rightarrow>
     if sid = - 1 then {n. n < MAX_SOCKET \<and> sk_type (ss_slot ss n) = ST_INVALID} = {} \<and> ss_slot ss' = ss_slot ss
     else 0 \<le> sid \<and> sk_type (ss_slot ss (HASH_ID sid)) = ST_INVALID \<and>
       ss_slot ss' = (ss_slot ss)(HASH_ID sid := (ss_slot ss (HASH_ID sid))\<lparr>sk_type := ST_RESERVE, sk_id := sid, sk_fd := - 1\<rparr>)"
proof -
  obtain sid ss' where r: "reserve_id ss = (sid, ss')" by fastforce
  have all: "sk_type (ss_slot ss n) \<noteq> ST_INVALID"
    if taken: "\<forall>i<MAX_SOCKET. sk_type (ss_slot ss ((last_slot ss + 1 + i) mod MAX_SOCKET)) \<noteq> ST_INVALID" and n: "n < MAX_SOCKET" for n
  proof -
    let ?l = "last_slot ss + 1"
    have l: "last_slot ss < MAX_SOCKET" by (simp add: last_slot_def MAX_SOCKET_def)
    have "\<exists>i<MAX_SOCKET. (?l + i) mod MAX_SOCKET = n"
    proof (cases "?l \<le> n")
      case True
      then show ?thesis using n by (intro exI [of _ "n - ?l"]) simp
    next
      case False
      then show ?thesis using n l by (intro exI [of _ "n + MAX_SOCKET - ?l"]) (simp add: mod_if)
    qed
    then obtain i where "i < MAX_SOCKET" "(?l + i) mod MAX_SOCKET = n" by blast
    then show ?thesis using taken by blast
  qed
  from reserve_loop_finds [of MAX_SOCKET ss sid ss'] r show ?thesis
  proof (cases "sid = - 1")
    case True
    then show ?thesis using reserve_loop_finds [of MAX_SOCKET ss sid ss'] r all by (auto simp: reserve_id_def)
  next
    case False
    then show ?thesis using reserve_loop_finds [of MAX_SOCKET ss sid ss'] r by (simp add: reserve_id_def)
  qed
qed

section \<open>Queues that stop\<close>

text \<open>A user object sent with low priority to a connection that cannot take it at once stops the program: it is
  queued with its address of the data in \<open>ptr\<close>, so that the queue looks as if it was sent in part, and the next
  attempt to send runs into the assertion that this is not so.
\<close>

theorem low_priority_object_aborts:
  assumes "sk_type (ss_slot ss (HASH_ID sid)) = ST_CONNECTED" "sk_id (ss_slot ss (HASH_ID sid)) = sid"
    and "sk_protocol (ss_slot ss (HASH_ID sid)) = PROTOCOL_TCP"
    and "sk_high (ss_slot ss (HASH_ID sid)) \<noteq> []" "sk_low (ss_slot ss (HASH_ID sid)) = []" "pk_object pk" "ss_soi ss"
  shows "\<exists>ss'. send_socket K sid pk PRIORITY_LOW None ss = Some (None, ss') \<and> send_buffer K (HASH_ID sid) ss' = None"
  using assms
  by (simp add: send_socket_def send_object_init_def send_buffer_empty_def send_buffer_def list_uncomplete_def append_sendbuffer_low_def
    append_sendbuffer_aux_def set_list_def get_list_def Let_def)

text \<open>The example has a queue of one byte; the object is a packet whose bytes are elsewhere.\<close>

lemma low_priority_object_aborts_witness:
  "\<exists>ss ss'. sk_high (ss_slot ss 5) \<noteq> [] \<and>
    send_socket slow_kernel 5 \<lparr>pk_buffer = 100, pk_bytes = [1], pk_object = True\<rparr> PRIORITY_LOW None ss = Some (None, ss') \<and>
    send_buffer slow_kernel 5 ss' = None"
proof -
  let ?wb = "\<lparr>wb_packet = \<lparr>pk_buffer = 200, pk_bytes = [1, 2, 3], pk_object = False\<rparr>, wb_ptr = 2, wb_sz = 1, wb_udp_address = []\<rparr>"
  let ?ss = "set_slot 5 ((ss_slot example_server 5)\<lparr>sk_high := [?wb], sk_wb_size := 1\<rparr>) (example_server\<lparr>ss_soi := True\<rparr>)"
  have h: "HASH_ID 5 = 5" by (simp add: HASH_ID_def MAX_SOCKET_def MAX_SOCKET_P_def)
  have "\<exists>ss'. send_socket slow_kernel 5 \<lparr>pk_buffer = 100, pk_bytes = [1], pk_object = True\<rparr> PRIORITY_LOW None ?ss = Some (None, ss') \<and>
      send_buffer slow_kernel 5 ss' = None"
    using low_priority_object_aborts [of ?ss 5 "\<lparr>pk_buffer = 100, pk_bytes = [1], pk_object = True\<rparr>" slow_kernel]
    by (simp add: h example_server_def socket_empty_def set_slot_def)
  moreover have "sk_high (ss_slot ?ss 5) \<noteq> []" by simp
  ultimately show ?thesis by blast
qed

text \<open>A datagram that the kernel refuses blocks its socket: as long as sending it fails with an error, every
  writable event leaves it at the head of the queue with everything behind it, and the descriptor stays watched.
\<close>

theorem refused_datagram_blocks_queue:
  assumes "sk_protocol (ss_slot ss n) \<noteq> PROTOCOL_TCP" "sk_high (ss_slot ss n) = wb # wbs" "sk_low (ss_slot ss n) = []"
    and "k_sendto K (sk_fd (ss_slot ss n)) (wb_rest wb) (udp_socket_address (ss_slot ss n) (wb_udp_address wb)) (ss_os ss) = (Inl e, k)"
  shows "\<exists>ss'. send_buffer K n ss = Some (None, ss') \<and> ss_slot ss' = ss_slot ss \<and> ss_watch ss' = ss_watch ss \<and> ss_os ss' = k"
  using assms
  by (simp add: send_buffer_def list_uncomplete_def send_list_def get_list_def note_event_def Let_def)

lemma refused_datagram_blocks_queue_witness:
  "\<exists>ss ss' :: unit socket_server. length (sk_high (ss_slot ss 5)) = 2 \<and>
    send_buffer (slow_kernel\<lparr>k_sendto := \<lambda>fd bs a k. (Inl (E_other ''Network is unreachable''), k)\<rparr>) 5 ss = Some (None, ss') \<and>
    length (sk_high (ss_slot ss' 5)) = 2"
proof -
  let ?K = "slow_kernel\<lparr>k_sendto := \<lambda>fd bs a k. (Inl (E_other ''Network is unreachable''), k)\<rparr>"
  let ?wb = "\<lparr>wb_packet = \<lparr>pk_buffer = 200, pk_bytes = [1], pk_object = False\<rparr>, wb_ptr = 0, wb_sz = 1, wb_udp_address = []\<rparr>"
  let ?ss = "set_slot 5 ((ss_slot example_server 5)\<lparr>sk_high := [?wb, ?wb], sk_wb_size := 2, sk_protocol := PROTOCOL_UDP\<rparr>) example_server"
  obtain ss' where "send_buffer ?K 5 ?ss = Some (None, ss')" "ss_slot ss' = ss_slot ?ss"
    using refused_datagram_blocks_queue [of ?ss 5 ?wb "[?wb]" ?K "E_other ''Network is unreachable''" "()"]
    by (auto simp: example_server_def socket_empty_def)
  then show ?thesis by (intro exI [of _ ?ss] exI [of _ ss']) simp
qed

end
