(* ===== verification/SocketBuffer.thy ===== *)
theory SocketBuffer
  imports Bytes CString "HOL-Library.Multiset"
begin

text \<open>
  The buffers of received data of the Lua services and the parts of addresses, from \<open>lualib-src/lua-socket.c\<close>.  The call sequences
  that \<open>socket.lua\<close> makes on a buffer refine a queue of bytes.

  A \<open>struct socket_buffer\<close> is a linked list of nodes, each with a message of the socket thread; \<open>offset\<close> is what has
  been read of the first.  The list is a HOL list, a message its address and its bytes, so that \<open>sz\<close> is the
  length of the bytes.  The nodes come from a table \<open>pool\<close> of chunks with a list of free nodes; the model
  counts the free nodes and keeps the length of the table, and \<open>pl_freed\<close> records the messages given to
  \<open>skynet_free\<close>.  Sizes are below 2 GB.  A result \<open>None\<close> is an access outside a message or through NULL, or a failed
  assertion.
\<close>

section \<open>Buffers and pools\<close>

record buffer_node =
  bn_msg :: nat
  bn_data :: bytes

record socket_buffer =
  sb_size :: int
  sb_offset :: nat
  sb_list :: "buffer_node list"

record pool =
  pl_len :: nat
  pl_free :: nat
  pl_freed :: "nat list"

definition bn_sz :: "buffer_node \<Rightarrow> nat" where
  "bn_sz n = length (bn_data n)"

definition LARGE_PAGE_NODE :: nat where "LARGE_PAGE_NODE = 12"

definition lnewbuffer :: socket_buffer where
  "lnewbuffer = \<lparr>sb_size = 0, sb_offset = 0, sb_list = []\<rparr>"

text \<open>The number of nodes in the chunk that \<open>lpushbuffer\<close> makes when the table has the length \<open>tsz\<close>.\<close>

definition chunk_size :: "nat \<Rightarrow> nat" where
  "chunk_size tsz = (if tsz \<le> LARGE_PAGE_NODE - 3 then 8 * 2 ^ tsz else 8 * 2 ^ (LARGE_PAGE_NODE - 3))"

text \<open>A free node, for which a chunk may have to be made; it leaves the list of free nodes.\<close>

definition take_free_node :: "pool \<Rightarrow> pool" where
  "take_free_node pl =
     (if pl_free pl = 0 then
        let tsz = (if pl_len pl = 0 then 1 else pl_len pl) in pl\<lparr>pl_len := tsz + 1, pl_free := chunk_size tsz - 1\<rparr>
      else pl\<lparr>pl_free := pl_free pl - 1\<rparr>)"

text \<open>The arguments are NULL pointers when they are \<open>None\<close>.\<close>

definition lpushbuffer :: "socket_buffer option \<Rightarrow> pool \<Rightarrow> (nat \<times> bytes) option \<Rightarrow> (int \<times> socket_buffer \<times> pool) lua" where
  "lpushbuffer sb0 pl msg0 =
     (case sb0 of
        None \<Rightarrow> Inl ''need buffer object at param 1''
      | Some sb \<Rightarrow>
          (case msg0 of
             None \<Rightarrow> Inl ''need message block at param 3''
           | Some (msg, data) \<Rightarrow>
               let size = sb_size sb + int (length data) in
               Inr (size, sb\<lparr>sb_list := sb_list sb @ [\<lparr>bn_msg = msg, bn_data = data\<rparr>], sb_size := size\<rparr>, take_free_node pl)))"

text \<open>\<open>return_free_node\<close>: the first node goes back to the pool, its message is freed.\<close>

definition return_free_node :: "socket_buffer \<Rightarrow> pool \<Rightarrow> (socket_buffer \<times> pool) option" where
  "return_free_node sb pl =
     (case sb_list sb of
        [] \<Rightarrow> None
      | n # ns \<Rightarrow> Some (sb\<lparr>sb_offset := 0, sb_list := ns\<rparr>, pl\<lparr>pl_free := pl_free pl + 1, pl_freed := pl_freed pl @ [bn_msg n]\<rparr>))"

text \<open>\<open>lua_pushlstring\<close> and \<open>luaL_addlstring\<close> of bytes of the first message.\<close>

definition node_bytes :: "socket_buffer \<Rightarrow> int \<Rightarrow> bytes option" where
  "node_bytes sb n =
     (case sb_list sb of
        [] \<Rightarrow> None
      | c # _ \<Rightarrow> if 0 \<le> n \<and> sb_offset sb + nat n \<le> bn_sz c then Some (take (nat n) (drop (sb_offset sb) (bn_data c))) else None)"

definition first_left :: "socket_buffer \<Rightarrow> int option" where
  "first_left sb = (case sb_list sb of [] \<Rightarrow> None | c # _ \<Rightarrow> Some (int (bn_sz c) - int (sb_offset sb)))"

text \<open>The loop of \<open>pop_lstring\<close>; \<open>b\<close> is the string built so far.\<close>

function pop_loop :: "socket_buffer \<Rightarrow> pool \<Rightarrow> int \<Rightarrow> int \<Rightarrow> bytes \<Rightarrow> (bytes \<times> socket_buffer \<times> pool) option" where
  "pop_loop sb pl sz skip b =
     (case sb_list sb of
        [] \<Rightarrow> None
      | c # _ \<Rightarrow>
          let bytes = int (bn_sz c) - int (sb_offset sb) in
          if bytes \<ge> sz then do {
            s \<leftarrow> (if sz > skip then node_bytes sb (sz - skip) else Some []);
            let sb' = sb\<lparr>sb_offset := sb_offset sb + nat sz\<rparr>;
            (sb', pl') \<leftarrow> (if bytes = sz then return_free_node sb' pl else Some (sb', pl));
            Some (b @ s, sb', pl')
          } else do {
            let real_sz = sz - skip;
            s \<leftarrow> (if real_sz > 0 then node_bytes sb (if real_sz < bytes then real_sz else bytes) else Some []);
            case return_free_node sb pl of
              None \<Rightarrow> None
            | Some (sb', pl') \<Rightarrow>
                if sz - bytes = 0 then Some (b @ s, sb', pl') else pop_loop sb' pl' (sz - bytes) skip (b @ s)
          })"
  by pat_completeness auto
termination
  by (relation "measure (\<lambda>(sb, pl, sz, skip, b). length (sb_list sb))") (auto simp: return_free_node_def split: list.splits)

declare pop_loop.simps [simp del]

definition pop_lstring :: "socket_buffer \<Rightarrow> pool \<Rightarrow> int \<Rightarrow> int \<Rightarrow> (bytes \<times> socket_buffer \<times> pool) option" where
  "pop_lstring sb pl sz skip = do {
     left \<leftarrow> first_left sb;
     if sz < left then do {
       s \<leftarrow> node_bytes sb (sz - skip);
       Some (s, sb\<lparr>sb_offset := nat (int (sb_offset sb) + sz)\<rparr>, pl)
     } else if sz = left then do {
       s \<leftarrow> node_bytes sb (sz - skip);
       (sb', pl') \<leftarrow> return_free_node sb pl;
       Some (s, sb', pl')
     } else pop_loop sb pl sz skip []
   }"

text \<open>The result is the string, none for nil, and the size that is left.\<close>

definition lpopbuffer :: "socket_buffer option \<Rightarrow> pool \<Rightarrow> int \<Rightarrow> (bytes option \<times> int \<times> socket_buffer \<times> pool) lua option" where
  "lpopbuffer sb0 pl sz =
     (case sb0 of
        None \<Rightarrow> Some (Inl ''Need buffer object at param 1'')
      | Some sb \<Rightarrow>
          if sb_size sb < sz \<or> sz = 0 then Some (Inr (None, sb_size sb, sb, pl))
          else do {
            (s, sb', pl') \<leftarrow> pop_lstring sb pl sz 0;
            Some (Inr (Some s, sb_size sb' - sz, sb'\<lparr>sb_size := sb_size sb' - sz\<rparr>, pl'))
          })"

function clear_loop :: "socket_buffer \<Rightarrow> pool \<Rightarrow> socket_buffer \<times> pool" where
  "clear_loop sb pl = (case return_free_node sb pl of None \<Rightarrow> (sb, pl) | Some (sb', pl') \<Rightarrow> clear_loop sb' pl')"
  by pat_completeness auto
termination
  by (relation "measure (\<lambda>(sb, pl). length (sb_list sb))") (auto simp: return_free_node_def split: list.splits)

declare clear_loop.simps [simp del]

definition lclearbuffer :: "socket_buffer option \<Rightarrow> pool \<Rightarrow> (socket_buffer \<times> pool) lua" where
  "lclearbuffer sb0 pl =
     (case sb0 of
        None \<Rightarrow> Inl ''Need buffer object at param 1''
      | Some sb \<Rightarrow> (case clear_loop sb pl of (sb', pl') \<Rightarrow> Inr (sb'\<lparr>sb_size := 0\<rparr>, pl')))"

function readall_loop :: "socket_buffer \<Rightarrow> pool \<Rightarrow> bytes \<Rightarrow> (bytes \<times> socket_buffer \<times> pool) option" where
  "readall_loop sb pl b =
     (case first_left sb of
        None \<Rightarrow> Some (b, sb, pl)
      | Some left \<Rightarrow>
          (case node_bytes sb left of
             None \<Rightarrow> None
           | Some s \<Rightarrow> (case return_free_node sb pl of None \<Rightarrow> None | Some (sb', pl') \<Rightarrow> readall_loop sb' pl' (b @ s))))"
  by pat_completeness auto
termination
  by (relation "measure (\<lambda>(sb, pl, b). length (sb_list sb))") (auto simp: return_free_node_def split: list.splits)

declare readall_loop.simps [simp del]

definition lreadall :: "socket_buffer option \<Rightarrow> pool \<Rightarrow> (bytes \<times> socket_buffer \<times> pool) lua option" where
  "lreadall sb0 pl =
     (case sb0 of
        None \<Rightarrow> Some (Inl ''Need buffer object at param 1'')
      | Some sb \<Rightarrow> map_option (\<lambda>(b, sb', pl'). Inr (b, sb'\<lparr>sb_size := 0\<rparr>, pl')) (readall_loop sb pl []))"

section \<open>Looking for a separator\<close>

text \<open>
  \<open>check_sep\<close> at \<open>from\<close> in the first of the nodes.  \<open>sep\<close> is the part of the separator that is left; a negative \<open>sz\<close>, which
  would move it backwards, is an access outside.
\<close>

fun check_sep :: "buffer_node list \<Rightarrow> nat \<Rightarrow> bytes \<Rightarrow> bool option" where
  "check_sep [] from sep = None"
| "check_sep (n # ns) from sep =
     (if from > bn_sz n then None
      else
        let sz = bn_sz n - from in
        if sz \<ge> length sep then Some (take (length sep) (drop from (bn_data n)) = sep)
        else if sz > 0 \<and> drop from (bn_data n) \<noteq> take sz sep then Some False
        else check_sep ns 0 (drop sz sep))"

text \<open>
  The loop of \<open>lreadline\<close>, with \<open>n\<close> rounds left: the place of the separator if there is one.  \<open>bytes\<close> is what is left of the
  node.
\<close>

fun line_loop :: "nat \<Rightarrow> nat \<Rightarrow> buffer_node list \<Rightarrow> nat \<Rightarrow> int \<Rightarrow> bytes \<Rightarrow> nat option option" where
  "line_loop 0 i ns from bytes sep = Some None"
| "line_loop (Suc n) i ns from bytes sep =
     (case check_sep ns from sep of
        None \<Rightarrow> None
      | Some True \<Rightarrow> Some (Some i)
      | Some False \<Rightarrow>
          if bytes - 1 = 0 then
            (case tl ns of
               [] \<Rightarrow> Some None
             | c # _ \<Rightarrow> line_loop n (i + 1) (tl ns) 0 (int (bn_sz c)) sep)
          else line_loop n (i + 1) ns (from + 1) (bytes - 1) sep)"

datatype line_result = Line_None | Line_There | Line_Is bytes

definition lreadline :: "socket_buffer option \<Rightarrow> pool option \<Rightarrow> bytes \<Rightarrow> (line_result \<times> socket_buffer \<times> pool option) lua option" where
  "lreadline sb0 pl0 sep =
     (case sb0 of
        None \<Rightarrow> Some (Inl ''Need buffer object at param 1'')
      | Some sb \<Rightarrow>
          (case first_left sb of
             None \<Rightarrow> Some (Inr (Line_None, sb, pl0))
           | Some bytes \<Rightarrow>
               (case line_loop (nat (sb_size sb - int (length sep) + 1)) 0 (sb_list sb) (sb_offset sb) bytes sep of
                  None \<Rightarrow> None
                | Some None \<Rightarrow> Some (Inr (Line_None, sb, pl0))
                | Some (Some i) \<Rightarrow>
                    (case pl0 of
                       None \<Rightarrow> Some (Inr (Line_There, sb, pl0))
                     | Some pl \<Rightarrow>
                         let n = int i + int (length sep) in
                         map_option (\<lambda>(s, sb', pl'). Inr (Line_Is s, sb'\<lparr>sb_size := sb_size sb' - n\<rparr>, Some pl'))
                           (pop_lstring sb pl n (int (length sep)))))))"

text \<open>\<open>lheader\<close>: one to four bytes as a number, the most significant first.\<close>

definition lheader :: "bytes \<Rightarrow> int lua" where
  "lheader s = (if length s > 4 \<or> length s < 1 then Inl ''Invalid read %s'' else Inr (foldl (\<lambda>sz b. sz * 256 + uint b) 0 s))"

section \<open>The bytes of a buffer\<close>

definition unread :: "socket_buffer \<Rightarrow> bytes" where
  "unread sb = drop (sb_offset sb) (concat (map bn_data (sb_list sb)))"

text \<open>No message is empty; there is something left of the first one.\<close>

definition shape :: "socket_buffer \<Rightarrow> bool" where
  "shape sb \<longleftrightarrow> list_all (\<lambda>n. bn_data n \<noteq> []) (sb_list sb) \<and> (case sb_list sb of [] \<Rightarrow> sb_offset sb = 0 | c # _ \<Rightarrow> sb_offset sb < bn_sz c)"

definition buffer_ok :: "socket_buffer \<Rightarrow> bool" where
  "buffer_ok sb \<longleftrightarrow> shape sb \<and> sb_size sb = int (length (unread sb))"

definition held_msgs :: "socket_buffer \<Rightarrow> nat multiset" where
  "held_msgs sb = mset (map bn_msg (sb_list sb))"

lemma unread_Nil [simp]: "sb_list sb = [] \<Longrightarrow> unread sb = []"
  by (simp add: unread_def)

lemma unread_Cons: "sb_list sb = c # cs \<Longrightarrow> sb_offset sb \<le> bn_sz c \<Longrightarrow> unread sb = drop (sb_offset sb) (bn_data c) @ concat (map bn_data cs)"
  by (simp add: unread_def bn_sz_def)

lemma shape_update [simp]: "shape (sb\<lparr>sb_size := n\<rparr>) = shape sb" "unread (sb\<lparr>sb_size := n\<rparr>) = unread sb" "held_msgs (sb\<lparr>sb_size := n\<rparr>) = held_msgs sb"
  by (simp_all add: shape_def unread_def held_msgs_def split: list.splits)

text \<open>\<open>k\<close> bytes have been taken, and the messages that are used up are freed.\<close>

definition taken :: "nat \<Rightarrow> socket_buffer \<Rightarrow> pool \<Rightarrow> socket_buffer \<Rightarrow> pool \<Rightarrow> bool" where
  "taken k sb pl sb' pl' \<longleftrightarrow> unread sb' = drop k (unread sb) \<and> shape sb' \<and> sb_size sb' = sb_size sb \<and>
     mset (pl_freed pl') + held_msgs sb' = mset (pl_freed pl) + held_msgs sb \<and>
     pl_free pl' + length (sb_list sb') = pl_free pl + length (sb_list sb) \<and> pl_len pl' = pl_len pl"

lemma node_bytes_ok:
  assumes "sb_list sb = c # cs" "sb_offset sb + n \<le> bn_sz c"
  shows "node_bytes sb (int n) = Some (take n (unread sb))"
  using assms by (simp add: node_bytes_def unread_Cons bn_sz_def)

lemma return_node_taken:
  assumes "sb_list sb = c # cs" "shape sb"
  shows "\<exists>sb' pl'. return_free_node sb pl = Some (sb', pl') \<and> taken (bn_sz c - sb_offset sb) sb pl sb' pl' \<and> sb_list sb' = cs"
  using assms
  by (auto simp: return_free_node_def taken_def shape_def unread_def held_msgs_def bn_sz_def split: list.splits)

lemma return_read_node:
  assumes "sb_list sb = c # cs" "shape sb"
  shows "\<exists>sb' pl'. return_free_node (sb\<lparr>sb_offset := n\<rparr>) pl = Some (sb', pl') \<and> taken (bn_sz c - sb_offset sb) sb pl sb' pl'"
  using assms
  by (auto simp: return_free_node_def taken_def shape_def unread_def held_msgs_def bn_sz_def split: list.splits)

lemma offset_taken:
  assumes "sb_list sb = c # cs" "shape sb" "sb_offset sb + k < bn_sz c"
  shows "taken k sb pl (sb\<lparr>sb_offset := sb_offset sb + k\<rparr>) pl"
  using assms by (auto simp: taken_def shape_def unread_Cons held_msgs_def bn_sz_def add.commute)

lemma taken_trans: "taken j sb pl sb1 pl1 \<Longrightarrow> taken k sb1 pl1 sb2 pl2 \<Longrightarrow> taken (j + k) sb pl sb2 pl2"
  by (auto simp: taken_def add.commute)

lemma length_unread_Cons: "sb_list sb = c # cs \<Longrightarrow> shape sb \<Longrightarrow> bn_sz c - sb_offset sb \<le> length (unread sb)"
  by (simp add: unread_Cons shape_def bn_sz_def)

lemma pop_loop_last:
  assumes c: "sb_list sb = c # cs" and ok: "shape sb" and k: "k \<le> bn_sz c - sb_offset sb"
  shows "\<exists>sb' pl'. pop_loop sb pl (int k) (int j) b = Some (b @ take (k - j) (unread sb), sb', pl') \<and> taken k sb pl sb' pl'"
proof -
  have off: "sb_offset sb < bn_sz c" using ok c by (simp add: shape_def)
  have s: "(if int k > int j then node_bytes sb (int k - int j) else Some []) = Some (take (k - j) (unread sb))"
    by (cases "j < k") (use node_bytes_ok [OF c, of "k - j"] k off in \<open>simp_all add: of_nat_diff\<close>)
  let ?sb = "sb\<lparr>sb_offset := sb_offset sb + k\<rparr>"
  have "\<exists>sb' pl'. (if int (bn_sz c) - int (sb_offset sb) = int k then return_free_node ?sb pl else Some (?sb, pl)) = Some (sb', pl') \<and> taken k sb pl sb' pl'"
  proof (cases "k = bn_sz c - sb_offset sb")
    case True
    then show ?thesis using return_read_node [OF c ok, of "sb_offset sb + k" pl] off by (simp add: of_nat_diff)
  next
    case False
    then have "sb_offset sb + k < bn_sz c" "int (bn_sz c) - int (sb_offset sb) \<noteq> int k" using k off by linarith+
    then show ?thesis using offset_taken [OF c ok, of k pl] by simp
  qed
  moreover have "int (bn_sz c) - int (sb_offset sb) \<ge> int k" using k off by linarith
  ultimately show ?thesis using s
    by (subst pop_loop.simps) (auto simp: c Let_def simp del: if_split_asm split del: if_split)
qed

lemma pop_loop_node:
  assumes c: "sb_list sb = c # cs" and ok: "shape sb" and k: "bn_sz c - sb_offset sb < k"
    and ret: "return_free_node sb pl = Some (sb1, pl1)"
  shows "pop_loop sb pl (int k) (int j) b =
     pop_loop sb1 pl1 (int (k - (bn_sz c - sb_offset sb))) (int j) (b @ take (min (k - j) (bn_sz c - sb_offset sb)) (unread sb))"
proof -
  define left where "left = bn_sz c - sb_offset sb"
  have off: "sb_offset sb < bn_sz c" using ok c by (simp add: shape_def)
  then have l: "int (bn_sz c) - int (sb_offset sb) = int left" by (simp add: left_def)
  have m: "(if int k - int j < int left then int k - int j else int left) = int (min (k - j) left)" if "j < k"
    using that by (cases "k - j < left") (auto simp: min_def of_nat_diff)
  have "node_bytes sb (int (min (k - j) left)) = Some (take (min (k - j) left) (unread sb))"
    using node_bytes_ok [OF c, of "min (k - j) left"] off by (simp add: left_def)
  then have s: "(if int k - int j > 0 then node_bytes sb (if int k - int j < int left then int k - int j else int left) else Some []) =
      Some (take (min (k - j) left) (unread sb))"
    using m by (cases "j < k") simp_all
  have "\<not> int left \<ge> int k" "int k - int left = int (k - left)" "int (k - left) \<noteq> 0" using k by (simp_all add: left_def)
  then show ?thesis unfolding left_def [symmetric] using s ret
    by (subst pop_loop.simps) (simp add: c Let_def l split del: if_split)
qed

lemma pop_loop_taken:
  assumes "shape sb" "0 < k" "k \<le> length (unread sb)"
  shows "\<exists>sb' pl'. pop_loop sb pl (int k) (int j) b = Some (b @ take (k - j) (unread sb), sb', pl') \<and> taken k sb pl sb' pl'"
  using assms
proof (induction "length (sb_list sb)" arbitrary: sb pl k b)
  case 0
  then show ?case by simp
next
  case (Suc n)
  then obtain c cs where c: "sb_list sb = c # cs" by (cases "sb_list sb") auto
  define left where "left = bn_sz c - sb_offset sb"
  show ?case
  proof (cases "k \<le> left")
    case True
    then show ?thesis using pop_loop_last [OF c Suc.prems(1)] by (simp add: left_def)
  next
    case False
    obtain sb1 pl1 where ret: "return_free_node sb pl = Some (sb1, pl1)" and t1: "taken left sb pl sb1 pl1" and l1: "sb_list sb1 = cs"
      using return_node_taken [OF c Suc.prems(1)] unfolding left_def by blast
    have c1: "unread sb1 = drop left (unread sb)" "shape sb1" using t1 by (simp_all add: taken_def)
    let ?b = "b @ take (min (k - j) left) (unread sb)"
    have "n = length (sb_list sb1)" "0 < k - left" "k - left \<le> length (unread sb1)" using Suc.hyps(2) c l1 False Suc.prems(3) c1(1) by simp_all
    from Suc.hyps(1) [OF this(1) c1(2) this(2,3), of pl1 ?b]
    obtain sb2 pl2 where rec: "pop_loop sb1 pl1 (int (k - left)) (int j) ?b = Some (?b @ take (k - left - j) (unread sb1), sb2, pl2)"
      and t2: "taken (k - left) sb1 pl1 sb2 pl2" by blast
    have "take (min (k - j) left) (unread sb) @ take (k - left - j) (unread sb1) = take (k - j) (unread sb)"
    proof (cases "k - j \<le> left")
      case True
      then show ?thesis by simp
    next
      case f: False
      then have "k - j = left + (k - left - j)" "min (k - j) left = left" by simp_all
      then show ?thesis unfolding c1(1) by (metis take_add)
    qed
    moreover have "taken k sb pl sb2 pl2" using taken_trans [OF t1 t2] False by simp
    ultimately show ?thesis using pop_loop_node [OF c Suc.prems(1) _ ret, of k j b] rec False by (simp add: left_def)
  qed
qed

lemma pop_lstring_taken:
  assumes "shape sb" "sb_list sb \<noteq> []" "k \<le> length (unread sb)" "j \<le> k"
  shows "\<exists>sb' pl'. pop_lstring sb pl (int k) (int j) = Some (take (k - j) (unread sb), sb', pl') \<and> taken k sb pl sb' pl'"
proof -
  obtain c cs where c: "sb_list sb = c # cs" using assms(2) by (cases "sb_list sb") auto
  define left where "left = bn_sz c - sb_offset sb"
  have off: "sb_offset sb < bn_sz c" using assms(1) c by (simp add: shape_def)
  have fl: "first_left sb = Some (int left)" using off by (simp add: first_left_def c left_def)
  have s: "node_bytes sb (int k - int j) = Some (take (k - j) (unread sb))" if "k \<le> left"
    using node_bytes_ok [OF c, of "k - j"] off assms(4) that by (simp add: of_nat_diff left_def)
  consider "k < left" | "k = left" | "k > left" by linarith
  then show ?thesis
  proof cases
    case 1
    then have "sb_offset sb + k < bn_sz c" by (simp add: left_def)
    moreover have "nat (int (sb_offset sb) + int k) = sb_offset sb + k" by simp
    ultimately show ?thesis using 1 s offset_taken [OF c assms(1), of k pl] unfolding pop_lstring_def fl by simp
  next
    case 2
    then show ?thesis using s return_node_taken [OF c assms(1), of pl] unfolding pop_lstring_def fl by (auto simp: left_def)
  next
    case 3
    then show ?thesis using pop_loop_taken [OF assms(1) _ assms(3), of pl j "[]"] unfolding pop_lstring_def fl by simp
  qed
qed

lemma unread_empty: "shape sb \<Longrightarrow> unread sb = [] \<longleftrightarrow> sb_list sb = []"
  by (cases "sb_list sb") (auto simp: unread_Cons shape_def bn_sz_def)

lemma clear_loop_taken:
  assumes "shape sb"
  shows "\<exists>sb' pl'. clear_loop sb pl = (sb', pl') \<and> taken (length (unread sb)) sb pl sb' pl' \<and> sb_list sb' = []"
  using assms
proof (induction "length (sb_list sb)" arbitrary: sb pl)
  case 0
  then show ?case by (subst clear_loop.simps) (simp add: return_free_node_def taken_def)
next
  case (Suc n)
  then obtain c cs where c: "sb_list sb = c # cs" by (cases "sb_list sb") auto
  obtain sb1 pl1 where ret: "return_free_node sb pl = Some (sb1, pl1)" and t1: "taken (bn_sz c - sb_offset sb) sb pl sb1 pl1" and l1: "sb_list sb1 = cs"
    using return_node_taken [OF c Suc.prems] by blast
  have "n = length (sb_list sb1)" "shape sb1" using Suc.hyps(2) c l1 t1 by (simp_all add: taken_def)
  from Suc.hyps(1) [OF this, of pl1] obtain sb2 pl2
    where "clear_loop sb1 pl1 = (sb2, pl2)" and t2: "taken (length (unread sb1)) sb1 pl1 sb2 pl2" and "sb_list sb2 = []" by blast
  moreover have "bn_sz c - sb_offset sb + length (unread sb1) = length (unread sb)"
    using t1 length_unread_Cons [OF c Suc.prems] by (simp add: taken_def)
  ultimately show ?case using ret taken_trans [OF t1 t2] by (subst clear_loop.simps) simp
qed

lemma readall_loop_taken:
  assumes "shape sb"
  shows "\<exists>sb' pl'. readall_loop sb pl b = Some (b @ unread sb, sb', pl') \<and> taken (length (unread sb)) sb pl sb' pl' \<and> sb_list sb' = []"
  using assms
proof (induction "length (sb_list sb)" arbitrary: sb pl b)
  case 0
  then show ?case by (subst readall_loop.simps) (simp add: first_left_def taken_def)
next
  case (Suc n)
  then obtain c cs where c: "sb_list sb = c # cs" by (cases "sb_list sb") auto
  define left where "left = bn_sz c - sb_offset sb"
  have off: "sb_offset sb < bn_sz c" using Suc.prems c by (simp add: shape_def)
  then have fl: "first_left sb = Some (int left)" by (simp add: first_left_def c left_def)
  have nb: "node_bytes sb (int left) = Some (take left (unread sb))" by (rule node_bytes_ok [OF c]) (use off in \<open>simp add: left_def\<close>)
  obtain sb1 pl1 where ret: "return_free_node sb pl = Some (sb1, pl1)" and t1: "taken left sb pl sb1 pl1" and l1: "sb_list sb1 = cs"
    using return_node_taken [OF c Suc.prems] unfolding left_def by blast
  have c1: "unread sb1 = drop left (unread sb)" using t1 by (simp add: taken_def)
  have "n = length (sb_list sb1)" "shape sb1" using Suc.hyps(2) c l1 t1 by (simp_all add: taken_def)
  from Suc.hyps(1) [OF this, of pl1 "b @ take left (unread sb)"] obtain sb2 pl2
    where rec: "readall_loop sb1 pl1 (b @ take left (unread sb)) = Some ((b @ take left (unread sb)) @ unread sb1, sb2, pl2)"
      and t2: "taken (length (unread sb1)) sb1 pl1 sb2 pl2" "sb_list sb2 = []" by blast
  have "left + length (unread sb1) = length (unread sb)"
    using length_unread_Cons [OF c Suc.prems] by (simp add: c1 left_def)
  then show ?case using ret rec taken_trans [OF t1 t2(1)] t2(2)
    by (subst readall_loop.simps) (simp add: fl nb c1)
qed

section \<open>Finding a separator\<close>

abbreviation at_place :: "bytes \<Rightarrow> bytes \<Rightarrow> nat \<Rightarrow> bool" where
  "at_place q sep j \<equiv> take (length sep) (drop j q) = sep"

lemma take_append_eq: "length xs \<le> length sep \<Longrightarrow> take (length sep) (xs @ ys) = sep \<longleftrightarrow> xs = take (length xs) sep \<and> take (length sep - length xs) ys = drop (length xs) sep"
  by (metis append_eq_append_conv append_take_drop_id length_take min.absorb2 take_all take_append)

lemma check_sep_spec:
  assumes "ns \<noteq> []" "from \<le> bn_sz (hd ns)" "length sep \<le> length (drop from (concat (map bn_data ns)))"
  shows "check_sep ns from sep = Some (at_place (concat (map bn_data ns)) sep from)"
  using assms
proof (induction ns arbitrary: "from" sep)
  case Nil
  then show ?case by simp
next
  case (Cons n ns)
  let ?xs = "drop from (bn_data n)"
  have d: "drop from (concat (map bn_data (n # ns))) = ?xs @ concat (map bn_data ns)" using Cons.prems(2) by (simp add: bn_sz_def)
  have l: "length ?xs = bn_sz n - from" by (simp add: bn_sz_def)
  show ?case
  proof (cases "length sep \<le> length ?xs")
    case True
    then show ?thesis unfolding d using Cons.prems(2) l by (simp add: Let_def)
  next
    case False
    then have ap: "at_place (concat (map bn_data (n # ns))) sep from \<longleftrightarrow> ?xs = take (length ?xs) sep \<and> take (length sep - length ?xs) (concat (map bn_data ns)) = drop (length ?xs) sep"
      unfolding d by (intro take_append_eq) simp
    have ne: "ns \<noteq> []" using Cons.prems(3) False unfolding d by (cases ns) auto
    have "length (drop (length ?xs) sep) \<le> length (drop 0 (concat (map bn_data ns)))" using Cons.prems(3) False unfolding d by simp
    from Cons.IH [OF ne _ this] have IH: "check_sep ns 0 (drop (length ?xs) sep) = Some (at_place (concat (map bn_data ns)) (drop (length ?xs) sep) 0)" by simp
    show ?thesis
    proof (cases "?xs = take (length ?xs) sep")
      case True
      then show ?thesis using IH False Cons.prems(2) l unfolding ap by (simp add: Let_def)
    next
      case f: False
      then have "0 < bn_sz n - from" unfolding l [symmetric] by (cases ?xs) auto
      then show ?thesis using f False Cons.prems(2) l unfolding ap by (simp add: Let_def)
    qed
  qed
qed

lemma line_loop_spec:
  assumes "ns = c # cs" "from < bn_sz c" "list_all (\<lambda>n. bn_data n \<noteq> []) ns" "drop i q = drop from (concat (map bn_data ns))"
    "n = 0 \<or> i + n + length sep \<le> length q + 1"
  shows "line_loop n i ns from (int (bn_sz c) - int from) sep = Some (find (at_place q sep) [i..<i + n])"
  using assms
proof (induction n arbitrary: i ns c cs "from")
  case 0
  then show ?case by simp
next
  case (Suc n)
  let ?d = "drop from (concat (map bn_data ns))"
  have len: "length ?d = length q - i" using Suc.prems(4) by (metis length_drop)
  have room: "length sep \<le> length q - i" using Suc.prems(5) by simp
  have at: "check_sep ns from sep = Some (at_place q sep i)"
    using check_sep_spec [of ns "from" sep] Suc.prems(1,2,4) room len by simp
  have upt: "[i..<i + Suc n] = i # [i + 1..<(i + 1) + n]" by (simp add: upt_conv_Cons del: upt_Suc)
  have iq: "i < length q" using len Suc.prems(1,2) by (auto simp: bn_sz_def)
  have nxt: "drop (i + 1) q = drop (from + 1) (concat (map bn_data ns))"
    using Suc.prems(4) by (metis drop_drop add.commute)
  show ?case
  proof (cases "at_place q sep i")
    case True
    then show ?thesis unfolding upt by (simp add: at)
  next
    case False
    have rest: "line_loop (Suc n) i ns from (int (bn_sz c) - int from) sep = Some (find (at_place q sep) [i + 1..<(i + 1) + n])"
    proof (cases "from + 1 = bn_sz c")
      case True
      then have b: "int (bn_sz c) - int from - 1 = 0" by simp
      show ?thesis
      proof (cases cs)
        case Nil
        then have "length q - i = 1" using len True Suc.prems(1,2) by (simp add: bn_sz_def)
        moreover have "sep \<noteq> []" using False by auto
        ultimately have "n = 0" using Suc.prems(5) iq by (cases sep) auto
        moreover have "tl ns = []" using Nil Suc.prems(1) by simp
        ultimately show ?thesis using False b by (simp add: at del: check_sep.simps)
      next
        case (Cons c2 cs2)
        have "drop (i + 1) q = drop 0 (concat (map bn_data cs))" using nxt Suc.prems(1) True by (simp add: bn_sz_def)
        moreover have "0 < bn_sz c2" "list_all (\<lambda>n. bn_data n \<noteq> []) cs" using Suc.prems(1,3) Cons by (simp_all add: bn_sz_def)
        ultimately have "line_loop n (i + 1) cs 0 (int (bn_sz c2) - int 0) sep = Some (find (at_place q sep) [i + 1..<(i + 1) + n])"
          using Suc.IH [OF Cons, of 0 "i + 1"] Suc.prems(5) Cons by simp
        moreover have "tl ns = c2 # cs2" using Cons Suc.prems(1) by simp
        ultimately show ?thesis using False Cons b by (simp add: at del: check_sep.simps)
      qed
    next
      case f: False
      have "line_loop n (i + 1) ns (from + 1) (int (bn_sz c) - int (from + 1)) sep = Some (find (at_place q sep) [i + 1..<(i + 1) + n])"
        by (rule Suc.IH [OF Suc.prems(1) _ Suc.prems(3) nxt]) (use f Suc.prems(2,5) in auto)
      moreover have "line_loop (Suc n) i ns from (int (bn_sz c) - int from) sep = line_loop n (i + 1) ns (from + 1) (int (bn_sz c) - int from - 1) sep"
        using False f by (simp add: at del: check_sep.simps)
      moreover have "int (bn_sz c) - int from - 1 = int (bn_sz c) - int (from + 1)" by simp
      ultimately show ?thesis by (simp only:)
    qed
    then show ?thesis using False unfolding upt by simp
  qed
qed

section \<open>Buffers as queues of bytes\<close>

text \<open>The calls of \<open>socket.lua\<close> on one buffer with its pool, and what they return.\<close>

datatype buffer_op = Push nat bytes | Pop nat | Check_Line bytes | Read_Line bytes | Read_All | Clear

datatype buffer_result = R_Size int | R_Pop "bytes option" int | R_Line line_result | R_All bytes | R_Nothing

definition succeed :: "'a lua option \<Rightarrow> 'a option" where
  "succeed r = (case r of Some (Inr x) \<Rightarrow> Some x | _ \<Rightarrow> None)"

fun buffer_step :: "buffer_op \<Rightarrow> socket_buffer \<Rightarrow> pool \<Rightarrow> (buffer_result \<times> socket_buffer \<times> pool) option" where
  "buffer_step (Push m d) sb pl = map_option (\<lambda>(n, sb', pl'). (R_Size n, sb', pl')) (succeed (Some (lpushbuffer (Some sb) pl (Some (m, d)))))"
| "buffer_step (Pop n) sb pl = map_option (\<lambda>(s, r, sb', pl'). (R_Pop s r, sb', pl')) (succeed (lpopbuffer (Some sb) pl (int n)))"
| "buffer_step (Check_Line sep) sb pl = map_option (\<lambda>(r, sb', _). (R_Line r, sb', pl)) (succeed (lreadline (Some sb) None sep))"
| "buffer_step (Read_Line sep) sb pl = map_option (\<lambda>(r, sb', pl'). (R_Line r, sb', the pl')) (succeed (lreadline (Some sb) (Some pl) sep))"
| "buffer_step Read_All sb pl = map_option (\<lambda>(b, sb', pl'). (R_All b, sb', pl')) (succeed (lreadall (Some sb) pl))"
| "buffer_step Clear sb pl = map_option (\<lambda>(sb', pl'). (R_Nothing, sb', pl')) (succeed (Some (lclearbuffer (Some sb) pl)))"

fun buffer_run :: "buffer_op list \<Rightarrow> socket_buffer \<Rightarrow> pool \<Rightarrow> (buffer_result list \<times> socket_buffer \<times> pool) option" where
  "buffer_run [] sb pl = Some ([], sb, pl)"
| "buffer_run (p # ps) sb pl = (case buffer_step p sb pl of
     None \<Rightarrow> None
   | Some (r, sb', pl') \<Rightarrow> map_option (\<lambda>(rs, sb2, pl2). (r # rs, sb2, pl2)) (buffer_run ps sb' pl'))"

text \<open>The same on the bytes that have not been read.\<close>

definition line_place :: "bytes \<Rightarrow> bytes \<Rightarrow> nat option" where
  "line_place q sep = (if q = [] then None else find (at_place q sep) [0..<length q + 1 - length sep])"

fun queue_step :: "buffer_op \<Rightarrow> bytes \<Rightarrow> buffer_result \<times> bytes" where
  "queue_step (Push m d) q = (R_Size (int (length (q @ d))), q @ d)"
| "queue_step (Pop n) q =
     (if n = 0 \<or> length q < n then (R_Pop None (int (length q)), q) else (R_Pop (Some (take n q)) (int (length q - n)), drop n q))"
| "queue_step (Check_Line sep) q = (R_Line (if line_place q sep = None then Line_None else Line_There), q)"
| "queue_step (Read_Line sep) q = (case line_place q sep of
     None \<Rightarrow> (R_Line Line_None, q)
   | Some i \<Rightarrow> (R_Line (Line_Is (take i q)), drop (i + length sep) q))"
| "queue_step Read_All q = (R_All q, [])"
| "queue_step Clear q = (R_Nothing, [])"

fun queue_run :: "buffer_op list \<Rightarrow> bytes \<Rightarrow> buffer_result list \<times> bytes" where
  "queue_run [] q = ([], q)"
| "queue_run (p # ps) q = (case queue_step p q of (r, q') \<Rightarrow> case queue_run ps q' of (rs, q2) \<Rightarrow> (r # rs, q2))"

fun pushed :: "buffer_op list \<Rightarrow> nat multiset" where
  "pushed [] = {#}"
| "pushed (Push m d # ps) = add_mset m (pushed ps)"
| "pushed (_ # ps) = pushed ps"

fun no_empty_push :: "buffer_op \<Rightarrow> bool" where
  "no_empty_push (Push m d) = (d \<noteq> [])"
| "no_empty_push _ = True"

text \<open>One call: it succeeds, as on the queue, and the messages are freed or held.\<close>

definition call_ok :: "buffer_op \<Rightarrow> socket_buffer \<Rightarrow> pool \<Rightarrow> bool" where
  "call_ok p sb pl \<longleftrightarrow> (\<exists>r sb' pl'. buffer_step p sb pl = Some (r, sb', pl') \<and> queue_step p (unread sb) = (r, unread sb') \<and> buffer_ok sb' \<and>
     mset (pl_freed pl') + held_msgs sb' = mset (pl_freed pl) + held_msgs sb + pushed [p])"

lemma taken_ok:
  assumes "taken k sb pl sb' pl'" "buffer_ok sb" "k \<le> length (unread sb)" "n = sb_size sb - int k"
  shows "buffer_ok (sb'\<lparr>sb_size := n\<rparr>) \<and> mset (pl_freed pl') + held_msgs sb' = mset (pl_freed pl) + held_msgs sb"
  using assms by (auto simp: taken_def buffer_ok_def)

lemma push_ok:
  assumes "buffer_ok sb" "d \<noteq> []"
  shows "call_ok (Push m d) sb pl"
proof -
  let ?sb = "sb\<lparr>sb_list := sb_list sb @ [\<lparr>bn_msg = m, bn_data = d\<rparr>], sb_size := sb_size sb + int (length d)\<rparr>"
  have off: "sb_offset sb \<le> length (concat (map bn_data (sb_list sb)))"
    using assms(1) by (cases "sb_list sb") (auto simp: buffer_ok_def shape_def bn_sz_def)
  then have "unread ?sb = unread sb @ d" by (simp add: unread_def)
  moreover have "shape ?sb" using assms by (cases "sb_list sb") (auto simp: buffer_ok_def shape_def bn_sz_def)
  moreover have "mset (pl_freed (take_free_node pl)) = mset (pl_freed pl)" by (simp add: take_free_node_def Let_def)
  ultimately show ?thesis using assms(1) by (simp add: call_ok_def succeed_def lpushbuffer_def Let_def buffer_ok_def held_msgs_def)
qed

lemma pop_ok:
  assumes "buffer_ok sb"
  shows "call_ok (Pop n) sb pl"
proof (cases "n = 0 \<or> length (unread sb) < n")
  case True
  then show ?thesis using assms by (auto simp: call_ok_def succeed_def lpopbuffer_def buffer_ok_def)
next
  case False
  then have ne: "sb_list sb \<noteq> []" "shape sb" using assms by (auto simp: buffer_ok_def)
  obtain sb' pl' where p: "pop_lstring sb pl (int n) (int 0) = Some (take n (unread sb), sb', pl')" and t: "taken n sb pl sb' pl'"
    using pop_lstring_taken [OF ne(2,1), of n 0 pl] False by auto
  have "sb_size sb' = sb_size sb" "unread sb' = drop n (unread sb)" using t by (simp_all add: taken_def)
  then show ?thesis using False p taken_ok [OF t assms _ refl] assms
    by (simp add: call_ok_def succeed_def lpopbuffer_def buffer_ok_def of_nat_diff)
qed

lemma line_loop_place:
  assumes "buffer_ok sb" "sb_list sb = c # cs"
  shows "line_loop (nat (sb_size sb - int (length sep) + 1)) 0 (sb_list sb) (sb_offset sb) (int (bn_sz c) - int (sb_offset sb)) sep =
    Some (line_place (unread sb) sep)"
proof -
  have sh: "shape sb" and sz: "sb_size sb = int (length (unread sb))" using assms(1) by (simp_all add: buffer_ok_def)
  define q where "q = unread sb"
  define n where "n = length q + 1 - length sep"
  have n: "nat (sb_size sb - int (length sep) + 1) = n" by (simp add: n_def q_def sz)
  have "q \<noteq> []" using unread_empty [OF sh] assms(2) by (simp add: q_def)
  then have place: "line_place q sep = find (at_place q sep) [0..<0 + n]" by (simp add: line_place_def n_def)
  have "n = 0 \<or> 0 + n + length sep \<le> length q + 1" unfolding n_def by arith
  moreover have "drop 0 q = drop (sb_offset sb) (concat (map bn_data (sb_list sb)))" by (simp add: q_def unread_def)
  moreover have "sb_offset sb < bn_sz c" "list_all (\<lambda>n. bn_data n \<noteq> []) (sb_list sb)" using sh assms(2) by (simp_all add: shape_def)
  ultimately show ?thesis unfolding n q_def [symmetric] place by (intro line_loop_spec [OF assms(2)])
qed

lemma line_place_bound: "line_place q sep = Some i \<Longrightarrow> i + length sep \<le> length q"
  by (auto simp: line_place_def find_Some_iff split: if_splits)

lemma lines_ok:
  assumes "buffer_ok sb"
  shows "call_ok (Check_Line sep) sb pl" "call_ok (Read_Line sep) sb pl"
proof -
  have sh: "shape sb" using assms by (simp add: buffer_ok_def)
  have "call_ok (Check_Line sep) sb pl \<and> call_ok (Read_Line sep) sb pl"
  proof (cases "sb_list sb")
    case Nil
    then show ?thesis using assms by (simp add: call_ok_def succeed_def lreadline_def first_left_def line_place_def)
  next
    case (Cons c cs)
    have fl: "first_left sb = Some (int (bn_sz c) - int (sb_offset sb))" by (simp add: first_left_def Cons)
    note loop = line_loop_place [OF assms Cons, of sep]
    show ?thesis
    proof (cases "line_place (unread sb) sep")
      case None
      then show ?thesis using assms loop by (simp add: call_ok_def succeed_def lreadline_def fl)
    next
      case (Some i)
      let ?k = "i + length sep"
      have k: "?k \<le> length (unread sb)" by (rule line_place_bound [OF Some])
      obtain sb' pl' where p: "pop_lstring sb pl (int ?k) (int (length sep)) = Some (take i (unread sb), sb', pl')" and t: "taken ?k sb pl sb' pl'"
        using pop_lstring_taken [OF sh _ k, of "length sep" pl] Cons by auto
      have p': "pop_lstring sb pl (int i + int (length sep)) (int (length sep)) = Some (take i (unread sb), sb', pl')" using p by simp
      have sz: "sb_size sb' = sb_size sb" and ct: "unread sb' = drop ?k (unread sb)" using t by (simp_all add: taken_def)
      have "call_ok (Check_Line sep) sb pl" using assms loop Some by (simp add: call_ok_def succeed_def lreadline_def fl)
      moreover have "call_ok (Read_Line sep) sb pl"
        using loop Some p' sz ct taken_ok [OF t assms k refl] by (simp add: call_ok_def succeed_def lreadline_def fl Let_def)
      ultimately show ?thesis ..
    qed
  qed
  then show "call_ok (Check_Line sep) sb pl" "call_ok (Read_Line sep) sb pl" by simp_all
qed

lemma all_ok:
  assumes "buffer_ok sb"
  shows "call_ok Read_All sb pl" "call_ok Clear sb pl"
proof -
  have sh: "shape sb" using assms by (simp add: buffer_ok_def)
  have sz: "sb_size sb = int (length (unread sb))" using assms by (simp add: buffer_ok_def)
  obtain sb' pl' where "readall_loop sb pl [] = Some (unread sb, sb', pl')" and t: "taken (length (unread sb)) sb pl sb' pl'" and "sb_list sb' = []"
    using readall_loop_taken [OF sh, of pl "[]"] by auto
  then show "call_ok Read_All sb pl" using taken_ok [OF t assms order_refl refl] sz by (simp add: call_ok_def succeed_def lreadall_def)
  obtain sb' pl' where "clear_loop sb pl = (sb', pl')" and t: "taken (length (unread sb)) sb pl sb' pl'" and "sb_list sb' = []"
    using clear_loop_taken [OF sh, of pl] by auto
  then show "call_ok Clear sb pl" using taken_ok [OF t assms order_refl refl] sz by (simp add: call_ok_def succeed_def lclearbuffer_def)
qed

lemma every_step_ok: "buffer_ok sb \<Longrightarrow> no_empty_push p \<Longrightarrow> call_ok p sb pl"
  by (cases p) (simp_all add: push_ok pop_ok lines_ok all_ok)

lemma pushed_Cons: "pushed (p # ps) = pushed [p] + pushed ps"
  by (cases p) simp_all

lemma buffer_run_ok:
  assumes "buffer_ok sb" "list_all no_empty_push ps"
  shows "\<exists>rs sb' pl'. buffer_run ps sb pl = Some (rs, sb', pl') \<and> queue_run ps (unread sb) = (rs, unread sb') \<and> buffer_ok sb' \<and>
    mset (pl_freed pl') + held_msgs sb' = mset (pl_freed pl) + held_msgs sb + pushed ps"
  using assms
proof (induction ps arbitrary: sb pl)
  case Nil
  then show ?case by simp
next
  case (Cons p ps)
  obtain r sb1 pl1 where 1: "buffer_step p sb pl = Some (r, sb1, pl1)" "queue_step p (unread sb) = (r, unread sb1)" "buffer_ok sb1"
    "mset (pl_freed pl1) + held_msgs sb1 = mset (pl_freed pl) + held_msgs sb + pushed [p]"
    using every_step_ok [of sb p pl] Cons.prems by (auto simp: call_ok_def)
  obtain rs sb2 pl2 where 2: "buffer_run ps sb1 pl1 = Some (rs, sb2, pl2)" "queue_run ps (unread sb1) = (rs, unread sb2)" "buffer_ok sb2"
    "mset (pl_freed pl2) + held_msgs sb2 = mset (pl_freed pl1) + held_msgs sb1 + pushed ps"
    using Cons.IH [OF 1(3), of pl1] Cons.prems by auto
  have "mset (pl_freed pl2) + held_msgs sb2 = mset (pl_freed pl) + held_msgs sb + pushed (p # ps)"
    unfolding 2(4) 1(4) pushed_Cons [of p ps] by (simp only: ac_simps)
  then show ?case using 1(1,2) 2(1-3) by simp
qed

text \<open>C40. A fresh receive buffer refines a queue of bytes: whatever messages, none empty, are pushed, and whatever is
  popped, checked for lines, read by lines, read whole or cleared in between, no call fails or reads outside a message,
  each returns what the same call returns on the queue of the bytes that were not read yet, the size is kept right, and
  every message that was pushed is freed exactly once or still held, as long as the sizes are below 2 GB.\<close>

theorem buffer_refines_byte_queue:
  assumes "list_all no_empty_push ps"
  shows "\<exists>rs sb' pl'. buffer_run ps lnewbuffer pl = Some (rs, sb', pl') \<and> queue_run ps [] = (rs, unread sb') \<and>
    sb_size sb' = int (length (unread sb')) \<and> mset (pl_freed pl') + held_msgs sb' = mset (pl_freed pl) + pushed ps"
proof -
  have "buffer_ok lnewbuffer" "unread lnewbuffer = []" "held_msgs lnewbuffer = {#}"
    by (simp_all add: buffer_ok_def shape_def unread_def lnewbuffer_def held_msgs_def)
  then show ?thesis using buffer_run_ok [of lnewbuffer ps pl] assms by (auto simp: buffer_ok_def)
qed

lemma buffer_refines_byte_queue_witness:
  "\<exists>sb' pl'. buffer_run [Push 1 [97, 13], Check_Line [13, 10], Push 2 [10, 98, 99], Read_Line [13, 10], Pop 1, Pop 2, Read_All]
       lnewbuffer \<lparr>pl_len = 0, pl_free = 0, pl_freed = []\<rparr> =
     Some ([R_Size 2, R_Line Line_None, R_Size 5, R_Line (Line_Is [97]), R_Pop (Some [98]) 1, R_Pop None 1, R_All [99]], sb', pl') \<and>
     unread sb' = [] \<and> mset (pl_freed pl') + held_msgs sb' = {#1, 2#}"
  using buffer_refines_byte_queue
    [of "[Push 1 [97, 13], Check_Line [13, 10], Push 2 [10, 98, 99], Read_Line [13, 10], Pop 1, Pop 2, Read_All]"
      "\<lparr>pl_len = 0, pl_free = 0, pl_freed = []\<rparr>"]
  by (auto simp: line_place_def upt_rec)

section \<open>Host and port of an address\<close>

text \<open>
  \<open>address_port\<close>; the second argument is the port if the caller gave one.  The array \<open>tmp\<close> has the size of the
  address, which has no zero in it; the model writes the host as a string, and \<open>None\<close> is a \<open>memcpy\<close> of a negative size.
\<close>

definition port_of :: "string \<Rightarrow> int" where
  "port_of s = sint (ucast (strtoul 10 s) :: 32 word)"

definition address_port :: "string \<Rightarrow> int option \<Rightarrow> (string \<times> int) lua option" where
  "address_port addr given =
     (case given of
        Some port \<Rightarrow> Some (Inr (addr, port))
      | None \<Rightarrow>
          (case strchr (CHR ''['') addr of
             Some h \<Rightarrow>
               let host = tl h in
               (case strchr (CHR '']'') addr of
                  None \<Rightarrow> Some (Inl ''Invalid address %s.'')
                | Some e \<Rightarrow>
                    if length host < length e then None
                    else
                      (case strchr (CHR '':'') (tl e) of
                         None \<Rightarrow> Some (Inl ''Invalid address %s.'')
                       | Some p \<Rightarrow> Some (Inr (take (length host - length e) host, port_of (tl p)))))
           | None \<Rightarrow>
               (case strchr (CHR '':'') addr of
                  None \<Rightarrow> Some (Inl ''Invalid address %s.'')
                | Some p \<Rightarrow> Some (Inr (take (length addr - length p) addr, port_of (tl p))))))"

lemma strchr_append: "c \<notin> set xs \<Longrightarrow> strchr c (xs @ ys) = strchr c ys"
  by (induction xs) (auto simp: strchr_def)

lemma strchr_absent: "c \<notin> set xs \<Longrightarrow> strchr c xs = None"
  by (induction xs) (auto simp: strchr_def)

lemma strchr_here: "strchr c (c # xs) = Some (c # xs)"
  by (simp add: strchr_def)

lemma address_port_ipv4:
  assumes "CHR ''['' \<notin> set (host @ p)" "CHR '':'' \<notin> set host"
  shows "address_port (host @ CHR '':'' # p) None = Some (Inr (host, port_of p))"
  using assms by (simp add: address_port_def strchr_append strchr_absent strchr_here)

lemma address_port_ipv6:
  assumes "CHR '']'' \<notin> set host" "CHR '':'' \<notin> set mid"
  shows "address_port (CHR ''['' # host @ CHR '']'' # mid @ CHR '':'' # p) None = Some (Inr (host, port_of p))"
proof -
  have "strchr (CHR '']'') (CHR ''['' # host @ CHR '']'' # mid @ CHR '':'' # p) = Some (CHR '']'' # mid @ CHR '':'' # p)"
    using strchr_append [of "CHR '']''" "CHR ''['' # host" "CHR '']'' # mid @ CHR '':'' # p"] assms(1) by (simp add: strchr_here)
  then show ?thesis using assms(2) by (simp add: address_port_def strchr_append strchr_here)
qed

text \<open>A closing bracket before the opening one makes the size of the host negative.\<close>

lemma address_port_brackets:
  assumes "CHR ''['' \<notin> set a" "CHR '']'' \<notin> set a" "CHR ''['' \<notin> set b"
  shows "address_port (a @ CHR '']'' # b @ CHR ''['' # c) None = None"
proof -
  have "strchr (CHR ''['') (a @ CHR '']'' # b @ CHR ''['' # c) = Some (CHR ''['' # c)"
    using strchr_append [of "CHR ''[''" "a @ CHR '']'' # b" "CHR ''['' # c"] assms(1,3) by (simp add: strchr_here)
  then show ?thesis using assms(2) by (simp add: address_port_def strchr_append strchr_here)
qed

end
