(* ===== verification/Harbor.thy ===== *)
theory Harbor
  imports Gate Handle
begin

text \<open>
  \<open>service-src/service_harbor.c\<close>: the service that carries messages between the nodes of a network.  A
  connection to another node (\<open>struct slave\<close>) starts with one byte, the number of the node, followed by
  packets: four bytes of length, the data of a message, and twelve bytes with its source, destination and
  session.  Messages for a node that is not connected yet, or for a name that is not known yet, wait in
  queues.

  The calls into the rest of the server are recorded in \<open>hb_calls\<close>, in their order; \<open>reach\<close> tells for which
  destinations \<open>skynet_send\<close> succeeds.  A message's data is its address, for the statements about who owns it,
  and its bytes.  A result \<open>None\<close> is an assertion that fails or an access outside a buffer.
\<close>

section \<open>State\<close>

definition HARBOR_NAME_LENGTH :: nat where "HARBOR_NAME_LENGTH = 16"
definition REMOTE_MAX :: nat where "REMOTE_MAX = 256"
definition HASH_SIZE :: nat where "HASH_SIZE = 4096"
definition HARBOR_QUEUE_SIZE :: nat where "HARBOR_QUEUE_SIZE = 1024"
definition HEADER_COOKIE_LENGTH :: nat where "HEADER_COOKIE_LENGTH = 12"

abbreviation (input) PTYPE_ERROR :: u32 where "PTYPE_ERROR \<equiv> 7"

record remote_message_header =
  rh_source :: u32
  rh_destination :: u32
  rh_session :: u32

record harbor_msg =
  hm_header :: remote_message_header
  hm_buffer :: addr
  hm_data :: bytes

record harbor_msg_queue =
  hq_size :: nat
  hq_head :: nat
  hq_tail :: nat
  hq_data :: "harbor_msg option list"

text \<open>A node of the hash table; \<open>kv_key\<close> has \<open>HARBOR_NAME_LENGTH\<close> characters.\<close>

record keyvalue =
  kv_key :: string
  kv_hash :: u32
  kv_value :: u32
  kv_queue :: "harbor_msg_queue option"

type_synonym hashmap = "nat \<Rightarrow> keyvalue list"

datatype slave_status = STATUS_WAIT | STATUS_HANDSHAKE | STATUS_HEADER | STATUS_CONTENT | STATUS_DOWN

text \<open>\<open>sl_size\<close> and \<open>sl_recv_buffer\<close> are the bytes received so far of the length and of the data.\<close>

record slave =
  sl_fd :: int
  sl_queue :: "harbor_msg_queue option"
  sl_status :: slave_status
  sl_length :: nat
  sl_read :: nat
  sl_size :: bytes
  sl_recv_buffer :: bytes

text \<open>
  A message that is sent: source, destination, type and session, the address of its data if the data is
  handed over (\<open>PTYPE_TAG_DONTCOPY\<close>), and the data.
\<close>

datatype harbor_call =
    H_Send u32 u32 u32 int "addr option" bytes
  | H_Socket_Send int bytes
  | H_Socket_Close int
  | H_Socket_Start int
  | H_Error string
  | H_Free addr
  | H_Start

record harbor =
  hb_id :: int
  hb_slave :: u32
  hb_map :: hashmap
  hb_s :: "nat \<Rightarrow> slave"
  hb_calls :: "harbor_call list"

definition record_call :: "harbor_call \<Rightarrow> harbor \<Rightarrow> harbor" where
  "record_call c h = h\<lparr>hb_calls := hb_calls h @ [c]\<rparr>"

definition set_slave :: "nat \<Rightarrow> slave \<Rightarrow> harbor \<Rightarrow> harbor" where
  "set_slave i s h = h\<lparr>hb_s := (hb_s h)(i := s)\<rparr>"

section \<open>Queues\<close>

text \<open>\<open>push_queue_msg\<close>; one cell stays free to tell a full ring from an empty one.\<close>

definition expand_ring :: "harbor_msg_queue \<Rightarrow> harbor_msg_queue" where
  "expand_ring q = q\<lparr>
     hq_data := map (\<lambda>i. hq_data q ! ((i + hq_head q) mod hq_size q)) [0..<hq_size q - 1] @ replicate (hq_size q + 1) None,
     hq_head := 0, hq_tail := hq_size q - 1, hq_size := hq_size q * 2\<rparr>"

definition push_queue_msg :: "harbor_msg \<Rightarrow> harbor_msg_queue \<Rightarrow> harbor_msg_queue option" where
  "push_queue_msg m q =
     (let q1 = (if (hq_tail q + 1) mod hq_size q = hq_head q then expand_ring q else q) in
      map_option (\<lambda>cells. q1\<lparr>hq_data := cells, hq_tail := (hq_tail q1 + 1) mod hq_size q1\<rparr>)
        (write_cell (hq_data q1) (hq_tail q1) m))"

definition push_queue :: "addr \<Rightarrow> bytes \<Rightarrow> remote_message_header \<Rightarrow> harbor_msg_queue \<Rightarrow> harbor_msg_queue option" where
  "push_queue buffer data header q = push_queue_msg \<lparr>hm_header = header, hm_buffer = buffer, hm_data = data\<rparr> q"

text \<open>The inner \<open>None\<close> is the result NULL of an empty queue.\<close>

definition pop_queue :: "harbor_msg_queue \<Rightarrow> (harbor_msg option \<times> harbor_msg_queue) option" where
  "pop_queue q =
     (if hq_head q = hq_tail q then Some (None, q)
      else map_option (\<lambda>m. (Some m, q\<lparr>hq_head := (hq_head q + 1) mod hq_size q\<rparr>)) (read_cell (hq_data q) (hq_head q)))"

definition hq_new :: harbor_msg_queue where
  "hq_new = \<lparr>hq_size = HARBOR_QUEUE_SIZE, hq_head = 0, hq_tail = 0, hq_data = replicate HARBOR_QUEUE_SIZE None\<rparr>"

text \<open>
  The loops that take messages from a queue until it is empty.  The number of messages in a ring is less than
  its size, so that many rounds are enough; the queue that is left is empty.
\<close>

fun drain_loop :: "nat \<Rightarrow> (harbor_msg \<Rightarrow> 's \<Rightarrow> 's option) \<Rightarrow> harbor_msg_queue \<Rightarrow> 's \<Rightarrow> (harbor_msg_queue \<times> 's) option" where
  "drain_loop 0 f q s = None"
| "drain_loop (Suc n) f q s =
     (case pop_queue q of
        None \<Rightarrow> None
      | Some (None, q') \<Rightarrow> Some (q', s)
      | Some (Some m, q') \<Rightarrow> Option.bind (f m s) (drain_loop n f q'))"

definition drain_queue :: "(harbor_msg \<Rightarrow> 's \<Rightarrow> 's option) \<Rightarrow> harbor_msg_queue \<Rightarrow> 's \<Rightarrow> (harbor_msg_queue \<times> 's) option" where
  "drain_queue f q s = drain_loop (hq_size q + 1) f q s"

definition release_queue :: "harbor_msg_queue option \<Rightarrow> harbor \<Rightarrow> harbor option" where
  "release_queue oq h = (case oq of
       None \<Rightarrow> Some h
     | Some q \<Rightarrow> map_option snd (drain_queue (\<lambda>m h. Some (record_call (H_Free (hm_buffer m)) h)) q h))"

section \<open>The table of names\<close>

definition name_hash :: "string \<Rightarrow> u32" where
  "name_hash name = (let b = text_bytes name in
     get_le32 b 0 XOR get_le32 b 4 XOR get_le32 b 8 XOR get_le32 b 12)"

text \<open>\<open>strncmp(a, b, GLOBALNAME_LENGTH) == 0\<close> for arrays of that length.\<close>

definition same_name :: "string \<Rightarrow> string \<Rightarrow> bool" where
  "same_name a b \<longleftrightarrow> takeWhile (\<lambda>c. c \<noteq> NUL) a = takeWhile (\<lambda>c. c \<noteq> NUL) b"

definition bucket :: "u32 \<Rightarrow> nat" where
  "bucket hash = unat hash mod HASH_SIZE"

text \<open>The place of a name in its bucket.\<close>

fun search_loop :: "u32 \<Rightarrow> string \<Rightarrow> keyvalue list \<Rightarrow> keyvalue option" where
  "search_loop hash name [] = None"
| "search_loop hash name (kv # kvs) =
     (if kv_hash kv = hash \<and> same_name (kv_key kv) name then Some kv else search_loop hash name kvs)"

definition hash_search :: "hashmap \<Rightarrow> string \<Rightarrow> keyvalue option" where
  "hash_search nodes name = (let hash = name_hash name in search_loop hash name (nodes (bucket hash)))"

text \<open>A change through the pointer that \<open>hash_search\<close> returns.\<close>

fun update_node :: "u32 \<Rightarrow> string \<Rightarrow> (keyvalue \<Rightarrow> keyvalue) \<Rightarrow> keyvalue list \<Rightarrow> keyvalue list" where
  "update_node hash name f [] = []"
| "update_node hash name f (kv # kvs) =
     (if kv_hash kv = hash \<and> same_name (kv_key kv) name then f kv # kvs else kv # update_node hash name f kvs)"

definition set_node :: "string \<Rightarrow> (keyvalue \<Rightarrow> keyvalue) \<Rightarrow> hashmap \<Rightarrow> hashmap" where
  "set_node name f nodes = (let hash = name_hash name in nodes(bucket hash := update_node hash name f (nodes (bucket hash))))"

definition hash_insert :: "hashmap \<Rightarrow> string \<Rightarrow> hashmap" where
  "hash_insert nodes name = (let hash = name_hash name in
     nodes(bucket hash := \<lparr>kv_key = name, kv_hash = hash, kv_value = 0, kv_queue = None\<rparr> # nodes (bucket hash)))"

definition hash_new :: hashmap where
  "hash_new = (\<lambda>_. [])"

definition hash_delete :: "hashmap \<Rightarrow> harbor \<Rightarrow> harbor option" where
  "hash_delete nodes h = fold (\<lambda>kv r. Option.bind r (release_queue (kv_queue kv))) (concat (map nodes [0..<HASH_SIZE])) (Some h)"

section \<open>Connections\<close>

definition slave_zero :: slave where
  "slave_zero = \<lparr>sl_fd = 0, sl_queue = None, sl_status = STATUS_WAIT, sl_length = 0, sl_read = 0, sl_size = [], sl_recv_buffer = []\<rparr>"

definition harbor_create :: harbor where
  "harbor_create = \<lparr>hb_id = 0, hb_slave = 0, hb_map = hash_new, hb_s = (\<lambda>_. slave_zero), hb_calls = []\<rparr>"

definition close_harbor :: "nat \<Rightarrow> harbor \<Rightarrow> harbor option" where
  "close_harbor i h =
     (let s = hb_s h i;
          h1 = set_slave i (s\<lparr>sl_status := STATUS_DOWN\<rparr>) h;
          h2 = (if sl_fd s \<noteq> 0 then record_call (H_Socket_Close (sl_fd s)) h1 else h1)
      in map_option (set_slave i (s\<lparr>sl_status := STATUS_DOWN, sl_queue := None\<rparr>)) (release_queue (sl_queue s) h2))"

definition report_harbor_down :: "nat \<Rightarrow> harbor \<Rightarrow> harbor" where
  "report_harbor_down i h = record_call (H_Send 0 (hb_slave h) PTYPE_TEXT 0 None (text_bytes (''D '' @ fmt_d (int i)))) h"

definition harbor_release :: "harbor \<Rightarrow> harbor option" where
  "harbor_release h =
     Option.bind (fold (\<lambda>i r. Option.bind r (\<lambda>h. if sl_fd (hb_s h i) \<noteq> 0 \<and> sl_status (hb_s h i) \<noteq> STATUS_DOWN then close_harbor i h else Some h))
       [1..<REMOTE_MAX] (Some h)) (\<lambda>h. hash_delete (hb_map h) h)"

definition header_to_message :: "remote_message_header \<Rightarrow> bytes" where
  "header_to_message header = be32_bytes (rh_source header) @ be32_bytes (rh_destination header) @ be32_bytes (rh_session header)"

definition message_to_header :: "bytes \<Rightarrow> remote_message_header" where
  "message_to_header m = \<lparr>rh_source = get_be32 m 0, rh_destination = get_be32 m 4, rh_session = get_be32 m 8\<rparr>"

text \<open>A message of less than twelve bytes makes the code read before the buffer.\<close>

definition forward_local_message :: "(u32 \<Rightarrow> bool) \<Rightarrow> bytes \<Rightarrow> harbor \<Rightarrow> harbor option" where
  "forward_local_message reach msg h =
     (if length msg < HEADER_COOKIE_LENGTH then None
      else
        let sz = length msg - HEADER_COOKIE_LENGTH;
            header = message_to_header (drop sz msg);
            type = drop_bit HANDLE_REMOTE_SHIFT (rh_destination header);
            destination = rh_destination header AND HANDLE_MASK OR push_bit HANDLE_REMOTE_SHIFT (word_of_int (hb_id h));
            session = sint (rh_session header);
            h1 = record_call (H_Send (rh_source header) destination type session None (take sz msg)) h
        in if reach destination then Some h1
           else
             let h2 = (if type \<noteq> PTYPE_ERROR then record_call (H_Send destination (rh_source header) PTYPE_ERROR session None []) h1 else h1)
             in Some (record_call (H_Error (''Unknown destination :'' @ fmt_x destination @ '' from :'' @ fmt_x (rh_source header) @
                  '' type('' @ fmt_d (uint type) @ '')'')) h2))"

definition send_remote :: "int \<Rightarrow> bytes \<Rightarrow> remote_message_header \<Rightarrow> harbor \<Rightarrow> harbor" where
  "send_remote fd data cookie h =
     (if length data + HEADER_COOKIE_LENGTH > 0xffffffff
      then record_call (H_Error (''remote message from :'' @ fmt_08x (rh_source cookie) @ '' to :'' @ fmt_08x (rh_destination cookie) @ '' is too large.'')) h
      else record_call (H_Socket_Send fd (be32_bytes (of_nat (length data + HEADER_COOKIE_LENGTH)) @ data @ header_to_message cookie)) h)"

text \<open>The messages that waited for a name are sent, or wait for its node, or are dropped if the node is down.\<close>

definition dispatch_name_queue :: "string \<Rightarrow> u32 \<Rightarrow> harbor_msg_queue \<Rightarrow> harbor \<Rightarrow> (harbor_msg_queue option \<times> harbor) option" where
  "dispatch_name_queue key handle q h =
     (let i = unat (drop_bit HANDLE_REMOTE_SHIFT handle); s = hb_s h i in
      if sl_fd s = 0 then
        (if sl_status s = STATUS_DOWN then
           Some (Some q, record_call (H_Error (''Drop message to '' @ takeWhile (\<lambda>c. c \<noteq> NUL) key @ '' (in harbor '' @ fmt_d (int i) @ '')'')) h)
         else do {
           (nq, sq) \<leftarrow> (case sl_queue s of
               None \<Rightarrow> Some (None, q)
             | Some sq \<Rightarrow> map_option (\<lambda>(q', sq'). (Some q', sq')) (drain_queue push_queue_msg q sq));
           if i = unat (drop_bit HANDLE_REMOTE_SHIFT (hb_slave h)) then do {
             (sq', h1) \<leftarrow> drain_queue (\<lambda>m h. Some (record_call (H_Send (rh_source (hm_header m)) handle
               (drop_bit HANDLE_REMOTE_SHIFT (rh_destination (hm_header m))) (sint (rh_session (hm_header m)))
               (Some (hm_buffer m)) (hm_data m)) h)) sq h;
             h2 \<leftarrow> release_queue (Some sq') h1;
             Some (nq, set_slave i (s\<lparr>sl_queue := None\<rparr>) h2)
           }
           else Some (nq, set_slave i (s\<lparr>sl_queue := Some sq\<rparr>) h)
         })
      else
        map_option (\<lambda>(q', h'). (Some q', h')) (drain_queue (\<lambda>m h. Some (record_call (H_Free (hm_buffer m)) (send_remote (sl_fd s) (hm_data m)
          ((hm_header m)\<lparr>rh_destination := rh_destination (hm_header m) OR (handle AND HANDLE_MASK)\<rparr>) h))) q h))"

definition dispatch_queue :: "nat \<Rightarrow> harbor \<Rightarrow> harbor option" where
  "dispatch_queue i h =
     (let s = hb_s h i in
      if sl_fd s = 0 then None
      else case sl_queue s of
        None \<Rightarrow> Some h
      | Some q \<Rightarrow> do {
          (q', h1) \<leftarrow> drain_queue (\<lambda>m h. Some (record_call (H_Free (hm_buffer m)) (send_remote (sl_fd s) (hm_data m) (hm_header m) h))) q h;
          h2 \<leftarrow> release_queue (Some q') h1;
          Some (set_slave i (s\<lparr>sl_queue := None\<rparr>) h2)
        })"

section \<open>Data from other nodes\<close>

text \<open>
  The loop of \<open>push_socket_data\<close> on what is left of the received bytes.  Where the code falls through to the
  next case, or goes round with nothing left, the recursive call finds the status of that case.
\<close>

function (sequential) data_loop :: "(u32 \<Rightarrow> bool) \<Rightarrow> nat \<Rightarrow> int \<Rightarrow> bytes \<Rightarrow> harbor \<Rightarrow> harbor option" where
  "data_loop reach i fd buffer h =
     (let s = hb_s h i in
      case sl_status s of
        STATUS_HANDSHAKE \<Rightarrow>
          (case buffer of
             [] \<Rightarrow> None
           | remote_id # rest \<Rightarrow>
               if unat remote_id \<noteq> i then
                 close_harbor i (record_call (H_Error (''Invalid shakehand id ('' @ fmt_d (int i) @ '') from fd = '' @ fmt_d fd @
                   '' , harbor = '' @ fmt_d (uint remote_id))) h)
               else Option.bind (dispatch_queue i (set_slave i (s\<lparr>sl_status := STATUS_HEADER\<rparr>) h)) (data_loop reach i fd rest))
      | STATUS_HEADER \<Rightarrow>
          (let need = 4 - sl_read s; size = take (sl_read s) (sl_size s) @ take need buffer in
           if length buffer < need then
             Some (set_slave i (s\<lparr>sl_size := size, sl_read := sl_read s + length buffer\<rparr>) h)
           else if size ! 0 \<noteq> 0 then
             close_harbor i (record_call (H_Error (''Message is too long from harbor '' @ fmt_d (int i))) (set_slave i (s\<lparr>sl_size := size\<rparr>) h))
           else
             let h1 = set_slave i (s\<lparr>sl_size := size, sl_length := unat (be32 0 (size ! 1) (size ! 2) (size ! 3)), sl_read := 0,
               sl_recv_buffer := [], sl_status := STATUS_CONTENT\<rparr>) h
             in if drop need buffer = [] then Some h1 else data_loop reach i fd (drop need buffer) h1)
      | STATUS_CONTENT \<Rightarrow>
          (let need = sl_length s - sl_read s; msg = sl_recv_buffer s @ take need buffer in
           if length buffer < need then
             Some (set_slave i (s\<lparr>sl_recv_buffer := msg, sl_read := sl_read s + length buffer\<rparr>) h)
           else
             case forward_local_message reach msg h of
               None \<Rightarrow> None
             | Some h1 \<Rightarrow>
                 let h2 = set_slave i (s\<lparr>sl_length := 0, sl_read := 0, sl_recv_buffer := [], sl_status := STATUS_HEADER\<rparr>) h1
                 in if drop need buffer = [] then Some h2 else data_loop reach i fd (drop need buffer) h2)
      | _ \<Rightarrow> Some h)"
  by pat_completeness auto
termination
  by (relation "measures [\<lambda>(reach, i, fd, buffer, h). length buffer, \<lambda>(reach, i, fd, buffer, h).
      case sl_status (hb_s h i) of STATUS_HEADER \<Rightarrow> if sl_read (hb_s h i) < 4 then 0 else 2 | STATUS_CONTENT \<Rightarrow> 1 | _ \<Rightarrow> 3]")
    (auto simp: set_slave_def)

declare data_loop.simps [simp del]

definition slave_of_fd :: "int \<Rightarrow> harbor \<Rightarrow> nat" where
  "slave_of_fd fd h = (case filter (\<lambda>i. sl_fd (hb_s h i) = fd) [1..<REMOTE_MAX] of [] \<Rightarrow> 0 | i # _ \<Rightarrow> i)"

definition push_socket_data :: "(u32 \<Rightarrow> bool) \<Rightarrow> int \<Rightarrow> addr \<Rightarrow> bytes \<Rightarrow> harbor \<Rightarrow> harbor option" where
  "push_socket_data reach fd buffer data h =
     (let i = slave_of_fd fd h in
      if i = 0 then Some (record_call (H_Error (''Invalid socket fd ('' @ fmt_d fd @ '') data'')) (record_call (H_Free buffer) h))
      else data_loop reach i fd data h)"

section \<open>Messages to other nodes\<close>

definition update_name :: "string \<Rightarrow> u32 \<Rightarrow> harbor \<Rightarrow> harbor option" where
  "update_name name handle h =
     (let h1 = (if hash_search (hb_map h) name = None then h\<lparr>hb_map := hash_insert (hb_map h) name\<rparr> else h);
          h2 = h1\<lparr>hb_map := set_node name (kv_value_update (\<lambda>_. handle)) (hb_map h1)\<rparr>
      in case Option.bind (hash_search (hb_map h2) name) (\<lambda>kv. map_option (Pair (kv_key kv)) (kv_queue kv)) of
           None \<Rightarrow> Some h2
         | Some (key, q) \<Rightarrow> do {
             (oq, h3) \<leftarrow> dispatch_name_queue key handle q h2;
             h4 \<leftarrow> release_queue oq h3;
             Some (h4\<lparr>hb_map := set_node name (kv_queue_update (\<lambda>_. None)) (hb_map h4)\<rparr>)
           })"

text \<open>The result tells whether the message is kept (1) or its data is to be freed.\<close>

definition remote_send_handle ::
  "u32 \<Rightarrow> u32 \<Rightarrow> u32 \<Rightarrow> int \<Rightarrow> addr \<Rightarrow> bytes \<Rightarrow> harbor \<Rightarrow> (int \<times> harbor) option" where
  "remote_send_handle source destination type session msg data h =
     (let i = unat (drop_bit HANDLE_REMOTE_SHIFT destination); s = hb_s h i;
          header = \<lparr>rh_source = source, rh_destination = push_bit HANDLE_REMOTE_SHIFT type OR (destination AND HANDLE_MASK),
            rh_session = word_of_int session\<rparr>
      in if int i = hb_id h then Some (1, record_call (H_Send source destination type session (Some msg) data) h)
         else if sl_fd s = 0 \<or> sl_status s = STATUS_HANDSHAKE then
           (if sl_status s = STATUS_DOWN then
              Some (0, record_call (H_Error (''Drop message to harbor '' @ fmt_d (int i) @ '' from '' @ fmt_x source @ '' to '' @ fmt_x destination @
                '' (session = '' @ fmt_d session @ '', msgsz = '' @ fmt_d (int (length data)) @ '')''))
                (record_call (H_Send destination source PTYPE_ERROR 0 None []) h))
            else map_option (\<lambda>q. (1, set_slave i (s\<lparr>sl_queue := Some q\<rparr>) h))
              (push_queue msg data header (case sl_queue s of None \<Rightarrow> hq_new | Some q \<Rightarrow> q)))
         else Some (0, send_remote (sl_fd s) data header h))"

definition remote_send_name ::
  "u32 \<Rightarrow> string \<Rightarrow> u32 \<Rightarrow> int \<Rightarrow> addr \<Rightarrow> bytes \<Rightarrow> harbor \<Rightarrow> (int \<times> harbor) option" where
  "remote_send_name source name type session msg data h =
     (let h1 = (if hash_search (hb_map h) name = None then h\<lparr>hb_map := hash_insert (hb_map h) name\<rparr> else h) in
      case hash_search (hb_map h1) name of
        None \<Rightarrow> None
      | Some kv \<Rightarrow>
          if kv_value kv = 0 then
            map_option (\<lambda>q. (1, record_call (H_Send 0 (hb_slave h) PTYPE_TEXT 0 None (text_bytes (''Q '' @ takeWhile (\<lambda>c. c \<noteq> NUL) name)))
                (h1\<lparr>hb_map := set_node name (kv_queue_update (\<lambda>_. Some q)) (hb_map h1)\<rparr>)))
              (push_queue msg data \<lparr>rh_source = source, rh_destination = push_bit HANDLE_REMOTE_SHIFT type, rh_session = word_of_int session\<rparr>
                (case kv_queue kv of None \<Rightarrow> hq_new | Some q \<Rightarrow> q))
          else remote_send_handle source (kv_value kv) type session msg data h1)"

section \<open>The service\<close>

definition handshake :: "nat \<Rightarrow> harbor \<Rightarrow> harbor" where
  "handshake i h = record_call (H_Socket_Send (sl_fd (hb_s h i)) [word_of_int (hb_id h)]) h"

text \<open>
  \<open>harbor_command\<close> on a text of \<open>length msg\<close> characters, behind which there is a NUL.  Printing the name of
  a text of one character, and copying the parameters of one, go behind the text.
\<close>

definition harbor_command :: "string \<Rightarrow> u32 \<Rightarrow> harbor \<Rightarrow> harbor option" where
  "harbor_command msg source h =
     (let s = length msg; name = drop 2 msg; c = (if msg = [] then NUL else hd msg) in
      if c = CHR ''N'' then
        (if s < 2 then None
         else if s = 2 \<or> s - 2 \<ge> HARBOR_NAME_LENGTH then
           Some (record_call (H_Error (''Invalid global name '' @ takeWhile (\<lambda>c. c \<noteq> NUL) name)) h)
         else update_name (name @ replicate (HARBOR_NAME_LENGTH - length name) NUL) source h)
      else if c = CHR ''S'' \<or> c = CHR ''A'' then
        (if s < 2 then None
         else
           let buffer = takeWhile (\<lambda>c. c \<noteq> NUL) name;
               (fd, i) = (case scan_int buffer of
                   None \<Rightarrow> (0, 0)
                 | Some (fd, rest) \<Rightarrow> (fd, case scan_int rest of None \<Rightarrow> 0 | Some (i, _) \<Rightarrow> i))
           in if fd = 0 \<or> i \<le> 0 \<or> i \<ge> int REMOTE_MAX then Some (record_call (H_Error (''Invalid command '' @ [c] @ '' '' @ buffer)) h)
              else if sl_fd (hb_s h (nat i)) \<noteq> 0 then Some (record_call (H_Error (''Harbor '' @ fmt_d i @ '' alreay exist'')) h)
              else
                let n = nat i; sl = (hb_s h n)\<lparr>sl_fd := fd\<rparr>;
                    h1 = handshake n (record_call (H_Socket_Start fd) (set_slave n sl h))
                in if c = CHR ''S'' then Some (set_slave n (sl\<lparr>sl_status := STATUS_HANDSHAKE\<rparr>) h1)
                   else dispatch_queue n (set_slave n (sl\<lparr>sl_status := STATUS_HEADER\<rparr>) h1))
      else Some (record_call (H_Error (''Unknown command '' @ takeWhile (\<lambda>c. c \<noteq> NUL) msg)) h))"

text \<open>
  The messages of the service: a socket message with the address of its data, a command of the harbor's master with
  its source, and a message for another node with source, type and session, name and handle of its destination
  and its data.
\<close>

datatype harbor_message =
    Socket_Message skynet_socket_message addr
  | Harbor_Command string u32
  | Remote_Message u32 u32 int string u32 addr bytes

definition mainloop :: "(u32 \<Rightarrow> bool) \<Rightarrow> harbor_message \<Rightarrow> harbor \<Rightarrow> harbor option" where
  "mainloop reach message h = (case message of
       Socket_Message m buffer \<Rightarrow>
         (case ssm_type m of
            DATA \<Rightarrow> map_option (record_call (H_Free buffer)) (push_socket_data reach (ssm_id m) buffer (ssm_buffer m) h)
          | CONNECT \<Rightarrow> Some h
          | WARNING \<Rightarrow>
              (let i = slave_of_fd (ssm_id m) h in
               Some (if i \<noteq> 0 then record_call (H_Error (''message havn't send to Harbor ('' @ fmt_d (int i) @ '') reach '' @ fmt_d (ssm_ud m) @ '' K'')) h else h))
          | ACCEPT \<Rightarrow> Some (record_call (H_Error ''recv invalid socket message type 6'') h)
          | UDP \<Rightarrow> Some (record_call (H_Error ''recv invalid socket message type 6'') h)
          | _ \<Rightarrow>
              (let i = slave_of_fd (ssm_id m) h in
               Some (if i \<noteq> 0 then report_harbor_down i h else record_call (H_Error (''Unkown fd ('' @ fmt_d (ssm_id m) @ '') closed'')) h)))
     | Harbor_Command msg source \<Rightarrow> harbor_command msg source h
     | Remote_Message source type session name handle msg data \<Rightarrow>
         map_option (\<lambda>(r, h'). if r \<noteq> 0 then h' else record_call (H_Free msg) h')
           (if handle = 0 then remote_send_name source name type session msg data h
            else remote_send_handle source handle type session msg data h))"

text \<open>\<open>sscanf(args, "%d %u")\<close>; the result 1 means that there is no slave.\<close>

definition harbor_init :: "string \<Rightarrow> harbor \<Rightarrow> int \<times> harbor" where
  "harbor_init args h =
     (let (hid, slave) = (case scan_int args of
            None \<Rightarrow> (0, 0)
          | Some (n, rest) \<Rightarrow> (n, case scan_int rest of None \<Rightarrow> 0 | Some (m, _) \<Rightarrow> (word_of_int m :: u32)))
      in if slave = 0 then (1, h) else (0, record_call H_Start (h\<lparr>hb_id := hid, hb_slave := slave\<rparr>)))"

end
