(* ===== verification/HarborLink.thy ===== *)
theory HarborLink
  imports Harbor "HOL-Library.Multiset"
begin

text \<open>
  What the harbor service does with the messages of one connection: they are carried in their order and whole,
  however the stream is cut, their data is freed once, and what happens to messages for names and nodes that
  are not known.
\<close>

section \<open>The queues\<close>

definition hq_contents :: "harbor_msg_queue \<Rightarrow> harbor_msg list" where
  "hq_contents q = map the (ring_cells (hq_data q) (hq_size q) (hq_head q) (ring_len (hq_size q) (hq_head q) (hq_tail q)))"

definition hq_wf :: "harbor_msg_queue \<Rightarrow> bool" where
  "hq_wf q \<longleftrightarrow> hq_head q < hq_size q \<and> hq_tail q < hq_size q \<and> 1 < hq_size q \<and> length (hq_data q) = hq_size q \<and>
     list_all (\<lambda>c. c \<noteq> None) (ring_cells (hq_data q) (hq_size q) (hq_head q) (ring_len (hq_size q) (hq_head q) (hq_tail q)))"

lemma hq_new_wf [simp]: "hq_wf hq_new" "hq_contents hq_new = []"
  by (simp_all add: hq_wf_def hq_contents_def hq_new_def HARBOR_QUEUE_SIZE_def)

lemma length_contents: "hq_wf q \<Longrightarrow> length (hq_contents q) < hq_size q"
  by (simp add: hq_contents_def hq_wf_def ring_len_less)

text \<open>Writing to a ring that is not full.\<close>

lemma push_not_full:
  assumes "hq_wf q" "ring_next (hq_size q) (hq_tail q) \<noteq> hq_head q"
  shows "hq_wf (q\<lparr>hq_data := (hq_data q)[hq_tail q := Some m], hq_tail := ring_next (hq_size q) (hq_tail q)\<rparr>)" (is "hq_wf ?q")
    "hq_contents (q\<lparr>hq_data := (hq_data q)[hq_tail q := Some m], hq_tail := ring_next (hq_size q) (hq_tail q)\<rparr>) = hq_contents q @ [m]"
proof -
  have q: "hq_head q < hq_size q" "hq_tail q < hq_size q" "length (hq_data q) = hq_size q" "0 < hq_size q"
    using assms(1) by (auto simp: hq_wf_def)
  have len: "ring_len (hq_size q) (hq_head q) (ring_next (hq_size q) (hq_tail q)) = Suc (ring_len (hq_size q) (hq_head q) (hq_tail q))"
    using ring_len_next_tail [OF q(1,2)] assms(2) by simp
  have cells: "ring_cells ((hq_data q)[hq_tail q := Some m]) (hq_size q) (hq_head q) (Suc (ring_len (hq_size q) (hq_head q) (hq_tail q))) =
      ring_cells (hq_data q) (hq_size q) (hq_head q) (ring_len (hq_size q) (hq_head q) (hq_tail q)) @ [Some m]"
    by (rule ring_cells_push [OF q(1-3)])
  show "hq_wf ?q" using assms(1) q unfolding hq_wf_def by (simp add: len cells ring_next_less)
  show "hq_contents ?q = hq_contents q @ [m]" unfolding hq_contents_def by (simp add: len cells)
qed

lemma expand_ring_ok:
  assumes "hq_wf q" "ring_next (hq_size q) (hq_tail q) = hq_head q"
  shows "hq_wf (expand_ring q)" "hq_contents (expand_ring q) = hq_contents q"
    "ring_next (hq_size (expand_ring q)) (hq_tail (expand_ring q)) \<noteq> hq_head (expand_ring q)"
proof -
  let ?n = "hq_size q"
  have q: "hq_head q < ?n" "hq_tail q < ?n" "length (hq_data q) = ?n" "1 < ?n" using assms(1) by (auto simp: hq_wf_def)
  let ?xs = "map (\<lambda>i. hq_data q ! ((i + hq_head q) mod ?n)) [0..<?n - 1]"
  have full: "ring_len ?n (hq_head q) (hq_tail q) = ?n - 1"
    using ring_len_full [OF q(1,2)] assms(2) by simp
  have old: "ring_cells (hq_data q) ?n (hq_head q) (?n - 1) = ?xs" by (simp add: ring_cells_def add.commute)
  have new: "ring_cells (?xs @ replicate (?n + 1) None) (?n * 2) 0 (?n - 1) = ?xs"
    using q(4) by (auto simp: ring_cells_def nth_append intro!: nth_equalityI)
  have len: "ring_len (?n * 2) 0 (?n - 1) = ?n - 1" by (simp add: ring_len_def)
  show "hq_wf (expand_ring q)" using assms(1) q full old new len
    unfolding hq_wf_def expand_ring_def by simp
  show "hq_contents (expand_ring q) = hq_contents q" using full old new len by (simp add: hq_contents_def expand_ring_def)
  show "ring_next (hq_size (expand_ring q)) (hq_tail (expand_ring q)) \<noteq> hq_head (expand_ring q)"
    using q by (simp add: expand_ring_def ring_next_def)
qed

lemma push_queue_msg_ok:
  assumes "hq_wf q"
  shows "\<exists>q'. push_queue_msg m q = Some q' \<and> hq_wf q' \<and> hq_contents q' = hq_contents q @ [m]"
proof -
  define q1 where "q1 = (if (hq_tail q + 1) mod hq_size q = hq_head q then expand_ring q else q)"
  have nxt: "ring_next (hq_size q) (hq_tail q) = (hq_tail q + 1) mod hq_size q"
    using assms by (intro ring_next_mod) (simp add: hq_wf_def)
  have q1: "hq_wf q1" "hq_contents q1 = hq_contents q" "ring_next (hq_size q1) (hq_tail q1) \<noteq> hq_head q1"
    using assms expand_ring_ok [of q] nxt by (auto simp: q1_def)
  have "push_queue_msg m q = Some (q1\<lparr>hq_data := (hq_data q1)[hq_tail q1 := Some m], hq_tail := ring_next (hq_size q1) (hq_tail q1)\<rparr>)"
    unfolding push_queue_msg_def q1_def [symmetric] Let_def using q1(1) by (simp add: hq_wf_def ring_next_mod)
  then show ?thesis using push_not_full [OF q1(1,3), of m] q1(2) by simp
qed

lemma pop_queue_ok:
  assumes "hq_wf q"
  shows "hq_contents q = [] \<Longrightarrow> pop_queue q = Some (None, q)"
    "hq_contents q = m # ms \<Longrightarrow> \<exists>q'. pop_queue q = Some (Some m, q') \<and> hq_wf q' \<and> hq_contents q' = ms \<and> hq_size q' = hq_size q"
proof -
  let ?n = "hq_size q"
  have q: "hq_head q < ?n" "hq_tail q < ?n" "length (hq_data q) = ?n" "0 < ?n" using assms by (auto simp: hq_wf_def)
  show "pop_queue q = Some (None, q)" if "hq_contents q = []"
    using that q ring_len_0_iff [OF q(1,2)] by (auto simp: hq_contents_def pop_queue_def ring_cells_def)
  show "\<exists>q'. pop_queue q = Some (Some m, q') \<and> hq_wf q' \<and> hq_contents q' = ms \<and> hq_size q' = hq_size q" if c: "hq_contents q = m # ms"
  proof -
    have ne: "hq_head q \<noteq> hq_tail q" using c by (auto simp: hq_contents_def)
    have len: "ring_len ?n (hq_head q) (hq_tail q) = Suc (ring_len ?n ((hq_head q + 1) mod ?n) (hq_tail q))"
      using ring_len_next_head [OF q(1,2) ne] ring_next_mod [OF q(1)] by simp
    note cells = ring_cells_Cons [OF q(1), of "hq_data q" "ring_len ?n ((hq_head q + 1) mod ?n) (hq_tail q)", folded len]
    have "hq_data q ! hq_head q = Some m"
      using c assms unfolding hq_contents_def hq_wf_def cells by auto
    then have "pop_queue q = Some (Some m, q\<lparr>hq_head := (hq_head q + 1) mod ?n\<rparr>)" using ne q by (simp add: pop_queue_def)
    moreover have "hq_wf (q\<lparr>hq_head := (hq_head q + 1) mod ?n\<rparr>)" using assms q unfolding hq_wf_def cells by simp
    moreover have "hq_contents (q\<lparr>hq_head := (hq_head q + 1) mod ?n\<rparr>) = ms" using c unfolding hq_contents_def cells by simp
    ultimately show ?thesis by simp
  qed
qed

interpretation hq: fifo_queue push_queue_msg pop_queue hq_contents hq_wf
  using push_queue_msg_ok pop_queue_ok by unfold_locales fastforce+

text \<open>Emptying a queue handles its messages in order.\<close>

fun handle_all :: "(harbor_msg \<Rightarrow> 's \<Rightarrow> 's option) \<Rightarrow> harbor_msg list \<Rightarrow> 's \<Rightarrow> 's option" where
  "handle_all f [] s = Some s"
| "handle_all f (m # ms) s = Option.bind (f m s) (handle_all f ms)"

lemma drain_loop_ok:
  "hq_wf q \<Longrightarrow> length (hq_contents q) < n \<Longrightarrow>
   \<exists>q'. drain_loop n f q s = map_option (Pair q') (handle_all f (hq_contents q) s) \<and> hq_wf q' \<and> hq_contents q' = []"
proof (induction n arbitrary: q s)
  case (Suc n)
  show ?case
  proof (cases "hq_contents q")
    case Nil
    then show ?thesis using pop_queue_ok(1) [OF Suc.prems(1)] Suc.prems(1) by (intro exI [of _ q]) simp
  next
    case (Cons m ms)
    obtain q1 where q1: "pop_queue q = Some (Some m, q1)" "hq_wf q1" "hq_contents q1 = ms"
      using pop_queue_ok(2) [OF Suc.prems(1) Cons] by blast
    show ?thesis
    proof (cases "f m s")
      case None
      then show ?thesis using q1 Cons by (intro exI [of _ hq_new]) simp
    next
      case (Some s1)
      have "length (hq_contents q1) < n" using Suc.prems(2) Cons q1(3) by simp
      then show ?thesis using Suc.IH [OF q1(2), of s1] q1 Cons Some by simp
    qed
  qed
qed simp

lemma drain_queue_ok:
  assumes "hq_wf q"
  shows "\<exists>q'. drain_queue f q s = map_option (Pair q') (handle_all f (hq_contents q) s) \<and> hq_wf q' \<and> hq_contents q' = []"
  unfolding drain_queue_def using length_contents [OF assms] by (intro drain_loop_ok assms) simp

lemma handle_all_calls:
  "handle_all (\<lambda>m h. Some (h\<lparr>hb_calls := hb_calls h @ g m\<rparr>)) ms h = Some (h\<lparr>hb_calls := hb_calls h @ concat (map g ms)\<rparr>)"
  by (induction ms arbitrary: h) simp_all

lemma release_queue_ok:
  assumes "hq_wf q"
  shows "release_queue (Some q) h = Some (h\<lparr>hb_calls := hb_calls h @ map (H_Free \<circ> hm_buffer) (hq_contents q)\<rparr>)"
proof -
  have c: "concat (map (\<lambda>m. [H_Free (hm_buffer m)]) ms) = map (H_Free \<circ> hm_buffer) ms" for ms by (induction ms) simp_all
  show ?thesis using drain_queue_ok [OF assms, of "\<lambda>m h. Some (record_call (H_Free (hm_buffer m)) h)" h]
    handle_all_calls [of "\<lambda>m. [H_Free (hm_buffer m)]" "hq_contents q" h]
    by (auto simp: release_queue_def record_call_def c)
qed

section \<open>The stream of a connection\<close>

lemma data_short:
  assumes "sl_status (hb_s h i) = STATUS_HEADER" "length buffer < 4 - sl_read (hb_s h i)"
  shows "data_loop reach i fd buffer h = Some (set_slave i ((hb_s h i)\<lparr>sl_size := take (sl_read (hb_s h i)) (sl_size (hb_s h i)) @ buffer,
    sl_read := sl_read (hb_s h i) + length buffer\<rparr>) h)"
  using assms by (subst data_loop.simps) (simp add: Let_def)

definition header_size :: "slave \<Rightarrow> bytes \<Rightarrow> bytes" where
  "header_size s buffer = take (sl_read s) (sl_size s) @ take (4 - sl_read s) buffer"

definition start_content :: "slave \<Rightarrow> bytes \<Rightarrow> slave" where
  "start_content s hdr = s\<lparr>sl_size := hdr, sl_length := unat (be32 0 (hdr ! 1) (hdr ! 2) (hdr ! 3)), sl_read := 0,
     sl_recv_buffer := [], sl_status := STATUS_CONTENT\<rparr>"

definition end_content :: "slave \<Rightarrow> slave" where
  "end_content s = s\<lparr>sl_length := 0, sl_read := 0, sl_recv_buffer := [], sl_status := STATUS_HEADER\<rparr>"

definition too_long :: "nat \<Rightarrow> bytes \<Rightarrow> harbor \<Rightarrow> harbor option" where
  "too_long i hdr h = close_harbor i (record_call (H_Error (''Message is too long from harbor '' @ fmt_d (int i)))
     (set_slave i ((hb_s h i)\<lparr>sl_size := hdr\<rparr>) h))"

text \<open>\<open>continue\<close> goes round while bytes are left.\<close>

definition continue :: "(u32 \<Rightarrow> bool) \<Rightarrow> nat \<Rightarrow> int \<Rightarrow> bytes \<Rightarrow> harbor \<Rightarrow> harbor option" where
  "continue reach i fd buffer h = (if buffer = [] then Some h else data_loop reach i fd buffer h)"

lemma data_header:
  assumes "sl_status (hb_s h i) = STATUS_HEADER" "4 - sl_read (hb_s h i) \<le> length buffer"
  shows "data_loop reach i fd buffer h = (let hdr = header_size (hb_s h i) buffer in
    if hdr ! 0 \<noteq> 0 then too_long i hdr h
    else continue reach i fd (drop (4 - sl_read (hb_s h i)) buffer) (set_slave i (start_content (hb_s h i) hdr) h))"
  using assms by (subst data_loop.simps) (simp add: Let_def header_size_def start_content_def continue_def too_long_def)

lemma data_content_short:
  assumes "sl_status (hb_s h i) = STATUS_CONTENT" "length buffer < sl_length (hb_s h i) - sl_read (hb_s h i)"
  shows "data_loop reach i fd buffer h = Some (set_slave i ((hb_s h i)\<lparr>sl_recv_buffer := sl_recv_buffer (hb_s h i) @ buffer,
    sl_read := sl_read (hb_s h i) + length buffer\<rparr>) h)"
  using assms by (subst data_loop.simps) (simp add: Let_def)

lemma data_content:
  assumes "sl_status (hb_s h i) = STATUS_CONTENT" "sl_length (hb_s h i) - sl_read (hb_s h i) \<le> length buffer"
  shows "data_loop reach i fd buffer h = (let need = sl_length (hb_s h i) - sl_read (hb_s h i) in
    Option.bind (forward_local_message reach (sl_recv_buffer (hb_s h i) @ take need buffer) h) (\<lambda>h1.
      continue reach i fd (drop need buffer) (set_slave i (end_content (hb_s h i)) h1)))"
  using assms by (subst data_loop.simps)
    (auto simp: Let_def end_content_def continue_def split: option.split)

lemma data_other:
  "sl_status (hb_s h i) \<in> {STATUS_WAIT, STATUS_DOWN} \<Longrightarrow> data_loop reach i fd buffer h = Some h"
  by (subst data_loop.simps) (auto simp: Let_def)

lemma data_handshake:
  assumes "sl_status (hb_s h i) = STATUS_HANDSHAKE"
  shows "data_loop reach i fd (b # buffer) h =
    (if unat b \<noteq> i then close_harbor i (record_call (H_Error (''Invalid shakehand id ('' @ fmt_d (int i) @ '') from fd = '' @ fmt_d fd @
       '' , harbor = '' @ fmt_d (uint b))) h)
     else Option.bind (dispatch_queue i (set_slave i ((hb_s h i)\<lparr>sl_status := STATUS_HEADER\<rparr>) h)) (data_loop reach i fd buffer))"
  using assms by (subst data_loop.simps) (simp add: Let_def)

lemma hb_s_call [simp]: "hb_s (record_call c h) = hb_s h" "hb_s (set_slave i s h) = (hb_s h)(i := s)"
  "hb_id (record_call c h) = hb_id h" "hb_id (set_slave i s h) = hb_id h" "hb_slave (record_call c h) = hb_slave h" "hb_slave (set_slave i s h) = hb_slave h"
  "hb_map (record_call c h) = hb_map h" "hb_map (set_slave i s h) = hb_map h" "hb_calls (record_call c h) = hb_calls h @ [c]"
  "hb_calls (set_slave i s h) = hb_calls h"
  by (simp_all add: record_call_def set_slave_def)

lemma set_slave_twice [simp]: "set_slave i s (set_slave i s' h) = set_slave i s h"
  by (simp add: set_slave_def)

lemma set_slave_calls: "set_slave i s (h\<lparr>hb_calls := c\<rparr>) = (set_slave i s h)\<lparr>hb_calls := c\<rparr>"
  by (rule harbor.equality) (simp_all add: set_slave_def)

lemma set_slave_call: "set_slave i s (record_call c h) = record_call c (set_slave i s h)"
  by (simp add: set_slave_def record_call_def)

lemma set_slave_same [simp]: "set_slave i (hb_s h i) h = h"
  by (simp add: set_slave_def)

lemma close_harbor_down: "close_harbor i h = Some h' \<Longrightarrow> sl_status (hb_s h' i) = STATUS_DOWN"
  by (auto simp: close_harbor_def Let_def)

text \<open>Where the stream is cut plays no part, as long as the connection is not closed.\<close>

definition rank :: "nat \<Rightarrow> harbor \<Rightarrow> nat" where
  "rank i h = (case sl_status (hb_s h i) of STATUS_HEADER \<Rightarrow> if sl_read (hb_s h i) < 4 then 0 else 2 | STATUS_CONTENT \<Rightarrow> 1 | _ \<Rightarrow> 3)"

lemma rank_le: "rank i h \<le> 3"
  by (simp add: rank_def split: slave_status.split)

lemma forward_slaves: "forward_local_message reach msg h = Some h' \<Longrightarrow> hb_s h' = hb_s h"
  by (auto simp: forward_local_message_def Let_def split: if_splits)

lemma too_long_down: "too_long i hdr h = Some h' \<Longrightarrow> sl_status (hb_s h' i) = STATUS_DOWN"
  unfolding too_long_def by (rule close_harbor_down)

lemma dispatch_queue_status:
  "dispatch_queue i h = Some h' \<Longrightarrow> sl_status (hb_s h' i) = sl_status (hb_s h i)"
  by (auto simp: dispatch_queue_def Let_def split: option.splits if_splits bind_splits)

definition cut_ok :: "(u32 \<Rightarrow> bool) \<Rightarrow> nat \<Rightarrow> int \<Rightarrow> bytes \<Rightarrow> bytes \<Rightarrow> harbor \<Rightarrow> bool" where
  "cut_ok reach i fd a b h \<longleftrightarrow> (\<forall>h'. data_loop reach i fd (a @ b) h = Some h' \<longrightarrow> sl_status (hb_s h' i) \<noteq> STATUS_DOWN \<longrightarrow>
     Option.bind (data_loop reach i fd a h) (data_loop reach i fd b) = Some h')"

lemma cut_continue:
  assumes "b \<noteq> []" "a \<noteq> [] \<Longrightarrow> cut_ok reach i fd a b h" "continue reach i fd (a @ b) h = Some h'" "sl_status (hb_s h' i) \<noteq> STATUS_DOWN"
  shows "Option.bind (continue reach i fd a h) (data_loop reach i fd b) = Some h'"
  using assms by (cases "a = []") (auto simp: continue_def cut_ok_def)

lemma data_cut:
  assumes "b \<noteq> []"
  shows "a \<noteq> [] \<or> sl_status (hb_s h i) \<noteq> STATUS_HANDSHAKE \<Longrightarrow> cut_ok reach i fd a b h"
proof (induction "length a * 4 + rank i h" arbitrary: a h rule: less_induct)
  case less
  let ?s = "hb_s h i"
  let ?loop = "data_loop reach i fd"
  have IH: "cut_ok reach i fd a' b h1" if "length a' * 4 + rank i h1 < length a * 4 + rank i h" "a' \<noteq> [] \<or> sl_status (hb_s h1 i) \<noteq> STATUS_HANDSHAKE" for a' h1
    using less.hyps that by blast
  have go: "Option.bind (?loop a h) (?loop b) = Some h'" if run: "?loop (a @ b) h = Some h'" and up: "sl_status (hb_s h' i) \<noteq> STATUS_DOWN" for h'
  proof (cases "sl_status ?s")
    case STATUS_HANDSHAKE
    then obtain c a' where a: "a = c # a'" using less.prems by (cases a) auto
    have c: "unat c = i"
    proof (rule ccontr)
      assume "unat c \<noteq> i"
      then show False using run up STATUS_HANDSHAKE by (auto simp: a data_handshake dest!: close_harbor_down)
    qed
    obtain h1 where h1: "dispatch_queue i (set_slave i (?s\<lparr>sl_status := STATUS_HEADER\<rparr>) h) = Some h1" "?loop (a' @ b) h1 = Some h'"
      using run STATUS_HANDSHAKE c by (auto simp: a data_handshake split: bind_splits)
    have "sl_status (hb_s h1 i) = STATUS_HEADER" using dispatch_queue_status [OF h1(1)] by simp
    moreover have "length a' * 4 + rank i h1 < length a * 4 + rank i h" using rank_le [of i h1] by (simp add: a)
    ultimately have "cut_ok reach i fd a' b h1" by (intro IH) simp_all
    then show ?thesis using h1 up STATUS_HANDSHAKE c by (auto simp: a data_handshake cut_ok_def)
  next
    case STATUS_HEADER
    show ?thesis
    proof (cases "length a < 4 - sl_read ?s")
      case short: True
      define s1 where "s1 = ?s\<lparr>sl_size := take (sl_read ?s) (sl_size ?s) @ a, sl_read := sl_read ?s + length a\<rparr>"
      have a: "?loop a h = Some (set_slave i s1 h)" unfolding s1_def by (rule data_short [OF STATUS_HEADER short])
      have s1: "sl_status s1 = STATUS_HEADER" "take (sl_read s1) (sl_size s1) = take (sl_read ?s) (sl_size ?s) @ a"
        "sl_read s1 = sl_read ?s + length a" using STATUS_HEADER by (simp_all add: s1_def)
      have "?loop b (set_slave i s1 h) = Some h'"
      proof (cases "length (a @ b) < 4 - sl_read ?s")
        case True
        then have "?loop (a @ b) h = Some (set_slave i (s1\<lparr>sl_size := take (sl_read s1) (sl_size s1) @ b, sl_read := sl_read s1 + length b\<rparr>) h)"
          using data_short [OF STATUS_HEADER True, of reach fd] s1(2,3) by (simp add: s1_def add.assoc)
        moreover have "?loop b (set_slave i s1 h) =
            Some (set_slave i (s1\<lparr>sl_size := take (sl_read s1) (sl_size s1) @ b, sl_read := sl_read s1 + length b\<rparr>) h)"
          using data_short [of "set_slave i s1 h" i b reach fd] True s1 by simp
        ultimately show ?thesis using run by simp
      next
        case False
        have hdr: "header_size ?s (a @ b) = header_size s1 b" using short s1 by (simp add: header_size_def)
        have rest: "drop (4 - sl_read ?s) (a @ b) = drop (4 - sl_read s1) b" using short s1(3) by simp
        have sc: "start_content s1 x = start_content ?s x" for x by (simp add: start_content_def s1_def)
        have ok: "header_size s1 b ! 0 = 0"
          using run up data_header [OF STATUS_HEADER, of "a @ b" reach fd] False hdr
          by (auto simp: Let_def split: if_splits dest: too_long_down too_long_down [OF sym])
        have "?loop (a @ b) h = continue reach i fd (drop (4 - sl_read s1) b) (set_slave i (start_content ?s (header_size s1 b)) h)"
          using data_header [OF STATUS_HEADER, of "a @ b" reach fd] False hdr rest ok by (simp add: Let_def)
        moreover have "?loop b (set_slave i s1 h) = continue reach i fd (drop (4 - sl_read s1) b) (set_slave i (start_content ?s (header_size s1 b)) h)"
          using data_header [of "set_slave i s1 h" i b reach fd] False s1 ok by (simp add: Let_def sc)
        ultimately show ?thesis using run by simp
      qed
      then show ?thesis by (simp add: a)
    next
      case False
      let ?h1 = "set_slave i (start_content ?s (header_size ?s a)) h"
      have hdr: "header_size ?s (a @ b) = header_size ?s a" using False by (simp add: header_size_def)
      have ok: "header_size ?s a ! 0 = 0"
        using run up data_header [OF STATUS_HEADER, of "a @ b" reach fd] False hdr
        by (auto simp: Let_def split: if_splits dest: too_long_down too_long_down [OF sym])
      have "continue reach i fd (drop (4 - sl_read ?s) a @ b) ?h1 = Some h'"
        using run data_header [OF STATUS_HEADER, of "a @ b" reach fd] False hdr ok by (simp add: Let_def)
      moreover have "length (drop (4 - sl_read ?s) a) * 4 + rank i ?h1 < length a * 4 + rank i h"
        using False STATUS_HEADER by (auto simp: rank_def start_content_def)
      then have "cut_ok reach i fd (drop (4 - sl_read ?s) a) b ?h1" by (rule IH) (simp add: start_content_def)
      ultimately have "Option.bind (continue reach i fd (drop (4 - sl_read ?s) a) ?h1) (?loop b) = Some h'"
        using up by (intro cut_continue [OF assms])
      then show ?thesis using data_header [OF STATUS_HEADER, of a reach fd] False ok by (simp add: Let_def)
    qed
  next
    case STATUS_CONTENT
    let ?need = "sl_length ?s - sl_read ?s"
    show ?thesis
    proof (cases "length a < ?need")
      case short: True
      define s1 where "s1 = ?s\<lparr>sl_recv_buffer := sl_recv_buffer ?s @ a, sl_read := sl_read ?s + length a\<rparr>"
      have a: "?loop a h = Some (set_slave i s1 h)" unfolding s1_def by (rule data_content_short [OF STATUS_CONTENT short])
      have s1: "sl_status s1 = STATUS_CONTENT" "sl_recv_buffer s1 = sl_recv_buffer ?s @ a" "sl_read s1 = sl_read ?s + length a"
        "sl_length s1 = sl_length ?s" using STATUS_CONTENT by (simp_all add: s1_def)
      have "?loop b (set_slave i s1 h) = Some h'"
      proof (cases "length (a @ b) < ?need")
        case True
        have "?loop (a @ b) h = Some (set_slave i (s1\<lparr>sl_recv_buffer := sl_recv_buffer s1 @ b, sl_read := sl_read s1 + length b\<rparr>) h)"
          using data_content_short [OF STATUS_CONTENT True, of reach fd] by (simp add: s1_def add.assoc)
        moreover have "?loop b (set_slave i s1 h) =
            Some (set_slave i (s1\<lparr>sl_recv_buffer := sl_recv_buffer s1 @ b, sl_read := sl_read s1 + length b\<rparr>) h)"
          using data_content_short [of "set_slave i s1 h" i b reach fd] True s1 by simp
        ultimately show ?thesis using run by simp
      next
        case False
        have e: "end_content s1 = end_content ?s" by (simp add: end_content_def s1_def)
        have m: "sl_recv_buffer s1 @ take (sl_length s1 - sl_read s1) b = sl_recv_buffer ?s @ take ?need (a @ b)"
          "drop (sl_length s1 - sl_read s1) b = drop ?need (a @ b)" using short s1 by (simp_all add: diff_diff_left)
        have ta: "take ?need a = a" "drop ?need a = []" using short by simp_all
        have fwd: "forward_local_message reach x (set_slave i s1 h) = map_option (set_slave i s1) (forward_local_message reach x h)" for x
          by (simp add: forward_local_message_def set_slave_call Let_def)
        show ?thesis
          using run data_content [OF STATUS_CONTENT, of "a @ b" reach fd] data_content [of "set_slave i s1 h" i b reach fd] False s1
          by (auto simp: Let_def e m fwd ta split: bind_splits)
      qed
      then show ?thesis by (simp add: a)
    next
      case False
      obtain h1 where h1: "forward_local_message reach (sl_recv_buffer ?s @ take ?need a) h = Some h1"
        "continue reach i fd (drop ?need a @ b) (set_slave i (end_content ?s) h1) = Some h'"
        using run data_content [OF STATUS_CONTENT, of "a @ b" reach fd] False by (auto simp: Let_def split: bind_splits)
      let ?h1 = "set_slave i (end_content ?s) h1"
      have "length (drop ?need a) * 4 + rank i ?h1 < length a * 4 + rank i h"
        using STATUS_CONTENT by (simp add: rank_def end_content_def)
      then have "cut_ok reach i fd (drop ?need a) b ?h1" by (rule IH) (simp add: end_content_def)
      then have "Option.bind (continue reach i fd (drop ?need a) ?h1) (?loop b) = Some h'"
        using h1(2) up by (intro cut_continue [OF assms])
      then show ?thesis using data_content [OF STATUS_CONTENT, of a reach fd] False h1(1) by (simp add: Let_def)
    qed
  qed (use that in \<open>simp_all add: data_other\<close>)
  then show ?case unfolding cut_ok_def by blast
qed

section \<open>Messages between two nodes\<close>

definition packet_of :: "remote_message_header \<Rightarrow> bytes \<Rightarrow> bytes" where
  "packet_of header data = be32_bytes (of_nat (length data + HEADER_COOKIE_LENGTH)) @ data @ header_to_message header"

text \<open>What the receiving node does with a message: it is sent to the service with that handle on this node.\<close>

definition local_handle :: "int \<Rightarrow> u32 \<Rightarrow> u32" where
  "local_handle node destination = destination AND HANDLE_MASK OR push_bit HANDLE_REMOTE_SHIFT (word_of_int node)"

definition local_calls :: "(u32 \<Rightarrow> bool) \<Rightarrow> int \<Rightarrow> remote_message_header \<Rightarrow> bytes \<Rightarrow> harbor_call list" where
  "local_calls reach node header data =
     (let type = drop_bit HANDLE_REMOTE_SHIFT (rh_destination header); session = sint (rh_session header);
          destination = local_handle node (rh_destination header)
      in H_Send (rh_source header) destination type session None data #
         (if reach destination then []
          else (if type \<noteq> PTYPE_ERROR then [H_Send destination (rh_source header) PTYPE_ERROR session None []] else []) @
            [H_Error (''Unknown destination :'' @ fmt_x destination @ '' from :'' @ fmt_x (rh_source header) @ '' type('' @ fmt_d (uint type) @ '')'')]))"

lemma length_header [simp]: "length (header_to_message header) = HEADER_COOKIE_LENGTH"
  by (simp add: header_to_message_def HEADER_COOKIE_LENGTH_def)

lemma get_be32_append: "length xs = n \<Longrightarrow> get_be32 (xs @ ys) n = get_be32 ys 0"
  by (simp add: get_be32_def nth_append numeral_2_eq_2)

lemma header_roundtrip [simp]: "message_to_header (header_to_message header) = header"
proof -
  let ?a = "be32_bytes (rh_source header)" and ?b = "be32_bytes (rh_destination header)" and ?c = "be32_bytes (rh_session header)"
  have "get_be32 (?a @ ?b @ ?c) 4 = get_be32 (?b @ ?c) 0" "get_be32 ((?a @ ?b) @ ?c) 8 = get_be32 ?c 0"
    by (rule get_be32_append, simp)+
  then show ?thesis using get_be32_0 [of "rh_session header" "[]"] by (simp add: message_to_header_def header_to_message_def)
qed

lemma forward_local_ok:
  "forward_local_message reach (data @ header_to_message header) h =
     Some (h\<lparr>hb_calls := hb_calls h @ local_calls reach (hb_id h) header data\<rparr>)"
  by (simp add: forward_local_message_def local_calls_def local_handle_def record_call_def Let_def)

lemma be32_length:
  assumes "n < 2 ^ 24"
  shows "be32_bytes (of_nat n) ! 0 = 0" "unat (be32 0 (be32_bytes (of_nat n) ! 1) (be32_bytes (of_nat n) ! 2) (be32_bytes (of_nat n) ! 3)) = n"
proof -
  let ?w = "of_nat n :: u32"
  have n: "unat ?w = n" using assms by (simp add: unat_of_nat take_bit_nat_eq_self)
  have "drop_bit 24 ?w = 0"
    by (rule word_unat_eq_iff [THEN iffD2]) (use assms in \<open>simp add: unat_drop_bit_div n\<close>)
  then have high: "byte_of 3 ?w = 0" by (simp add: byte_of_def)
  then show "be32_bytes ?w ! 0 = 0" by (simp add: be32_bytes_def)
  have "get_be32 (be32_bytes ?w @ []) 0 = ?w" by (rule get_be32_0)
  then have "be32 0 (be32_bytes ?w ! 1) (be32_bytes ?w ! 2) (be32_bytes ?w ! 3) = ?w"
    using high by (simp add: get_be32_def be32_bytes_def numeral_nat)
  then show "unat (be32 0 (be32_bytes ?w ! 1) (be32_bytes ?w ! 2) (be32_bytes ?w ! 3)) = n" by (simp add: n)
qed

lemma data_packet:
  assumes "sl_status (hb_s h i) = STATUS_HEADER" "sl_read (hb_s h i) = 0" "length data + HEADER_COOKIE_LENGTH < 2 ^ 24"
  shows "data_loop reach i fd (packet_of header data @ rest) h = continue reach i fd rest
    ((set_slave i (end_content (start_content (hb_s h i) (be32_bytes (of_nat (length data + HEADER_COOKIE_LENGTH))))) h)
      \<lparr>hb_calls := hb_calls h @ local_calls reach (hb_id h) header data\<rparr>)"
proof -
  let ?n = "length data + HEADER_COOKIE_LENGTH"
  let ?hdr = "be32_bytes (of_nat ?n :: u32)"
  let ?s1 = "start_content (hb_s h i) ?hdr"
  let ?h1 = "set_slave i ?s1 h"
  have hdr: "header_size (hb_s h i) (packet_of header data @ rest) = ?hdr" using assms(2) by (simp add: header_size_def packet_of_def)
  have "data_loop reach i fd (packet_of header data @ rest) h = continue reach i fd (data @ header_to_message header @ rest) ?h1"
    using data_header [OF assms(1), of "packet_of header data @ rest" reach fd] assms(2) be32_length(1) [OF assms(3)]
    by (simp add: hdr Let_def) (simp add: packet_of_def)
  also have "\<dots> = data_loop reach i fd (data @ header_to_message header @ rest) ?h1"
    by (simp add: continue_def header_to_message_def be32_bytes_def)
  also have "\<dots> = Option.bind (forward_local_message reach (data @ header_to_message header) ?h1) (\<lambda>h1.
      continue reach i fd rest (set_slave i (end_content ?s1) h1))"
  proof -
    define s1 where "s1 = ?s1"
    have s1: "sl_status s1 = STATUS_CONTENT" "sl_length s1 - sl_read s1 = ?n" "sl_recv_buffer s1 = []"
      using be32_length(2) [OF assms(3)] by (simp_all add: start_content_def s1_def)
    have h1: "hb_s (set_slave i s1 h) i = s1" by simp
    show ?thesis unfolding s1_def [symmetric]
      using data_content [of "set_slave i s1 h" i "data @ header_to_message header @ rest" reach fd]
      unfolding h1 s1 Let_def by simp
  qed
  also have "\<dots> = continue reach i fd rest ((set_slave i (end_content ?s1) h)\<lparr>hb_calls := hb_calls h @ local_calls reach (hb_id h) header data\<rparr>)"
    by (simp add: forward_local_ok set_slave_calls)
  finally show ?thesis .
qed

definition all_local_calls :: "(u32 \<Rightarrow> bool) \<Rightarrow> int \<Rightarrow> (remote_message_header \<times> bytes) list \<Rightarrow> harbor_call list" where
  "all_local_calls reach node ms = concat (map (\<lambda>(header, data). local_calls reach node header data) ms)"

lemma data_packets:
  assumes "sl_status (hb_s h i) = STATUS_HEADER" "sl_read (hb_s h i) = 0" "list_all (\<lambda>(header, data). length data + HEADER_COOKIE_LENGTH < 2 ^ 24) ms"
  shows "\<exists>s'. continue reach i fd (concat (map (\<lambda>(header, data). packet_of header data) ms)) h =
      Some ((set_slave i s' h)\<lparr>hb_calls := hb_calls h @ all_local_calls reach (hb_id h) ms\<rparr>) \<and>
    sl_status s' = STATUS_HEADER \<and> sl_read s' = 0 \<and> sl_fd s' = sl_fd (hb_s h i)"
  using assms
proof (induction ms arbitrary: h)
  case Nil
  then show ?case by (intro exI [of _ "hb_s h i"]) (simp add: continue_def all_local_calls_def)
next
  case (Cons m ms)
  obtain header data where m: "m = (header, data)" by fastforce
  let ?s1 = "end_content (start_content (hb_s h i) (be32_bytes (of_nat (length data + HEADER_COOKIE_LENGTH))))"
  let ?h1 = "(set_slave i ?s1 h)\<lparr>hb_calls := hb_calls h @ local_calls reach (hb_id h) header data\<rparr>"
  have h1: "sl_status (hb_s ?h1 i) = STATUS_HEADER" "sl_read (hb_s ?h1 i) = 0" "sl_fd (hb_s ?h1 i) = sl_fd (hb_s h i)" "hb_id ?h1 = hb_id h"
    by (simp_all add: end_content_def start_content_def set_slave_def)
  have ms: "list_all (\<lambda>(header, data). length data + HEADER_COOKIE_LENGTH < 2 ^ 24) ms" "length data + HEADER_COOKIE_LENGTH < 2 ^ 24"
    using Cons.prems(3) m by simp_all
  have "packet_of header data \<noteq> []" by (simp add: packet_of_def be32_bytes_def)
  then have step: "continue reach i fd (concat (map (\<lambda>(header, data). packet_of header data) (m # ms))) h =
      continue reach i fd (concat (map (\<lambda>(header, data). packet_of header data) ms)) ?h1"
    using data_packet [OF Cons.prems(1,2) ms(2), of reach fd header] by (simp add: continue_def m)
  obtain s' where "continue reach i fd (concat (map (\<lambda>(header, data). packet_of header data) ms)) ?h1 =
      Some ((set_slave i s' ?h1)\<lparr>hb_calls := hb_calls ?h1 @ all_local_calls reach (hb_id h) ms\<rparr>)"
    "sl_status s' = STATUS_HEADER" "sl_read s' = 0" "sl_fd s' = sl_fd (hb_s h i)"
    using Cons.IH [OF h1(1,2) ms(1)] h1(3,4) by auto
  then show ?case unfolding step by (intro exI [of _ s']) (simp add: set_slave_calls all_local_calls_def m)
qed

text \<open>Receiving does not change the descriptors.\<close>

definition fds :: "harbor \<Rightarrow> nat \<Rightarrow> int" where
  "fds h j = sl_fd (hb_s h j)"

lemma fds_simps [simp]: "fds (record_call c h) = fds h" "sl_fd s = fds h i \<Longrightarrow> fds (set_slave i s h) = fds h"
  "fds (h\<lparr>hb_calls := cs\<rparr>) = fds h"
  by (auto simp: fds_def fun_eq_iff)

lemma drain_calls:
  assumes "drain_queue (\<lambda>m h. Some (g m h)) q h = Some (q', h')" "\<And>m h. fds (g m h) = fds h" "\<And>m h. hb_s (g m h) = hb_s h"
  shows "fds h' = fds h" "hb_s h' = hb_s h"
proof -
  have "fds h' = fds h \<and> hb_s h' = hb_s h" if "drain_loop n (\<lambda>m h. Some (g m h)) q h = Some (q', h')" for n
    using that by (induction n arbitrary: q h) (auto simp: assms(2,3) split: option.splits)
  then show "fds h' = fds h" "hb_s h' = hb_s h" using assms(1) unfolding drain_queue_def by blast+
qed

lemma release_fds: "release_queue oq h = Some h' \<Longrightarrow> fds h' = fds h \<and> hb_s h' = hb_s h"
  by (cases oq) (auto simp: release_queue_def dest: drain_calls)

lemma send_remote_fds [simp]: "fds (send_remote fd d c h) = fds h" "hb_s (send_remote fd d c h) = hb_s h"
  by (simp_all add: send_remote_def)

lemma close_fds: "close_harbor i h = Some h' \<Longrightarrow> fds h' = fds h"
  by (auto simp: close_harbor_def Let_def fds_def fun_eq_iff dest!: release_fds split: if_splits)

lemma dispatch_queue_fds: "dispatch_queue i h = Some h' \<Longrightarrow> fds h' = fds h"
  by (auto simp: dispatch_queue_def Let_def split: if_splits option.splits bind_splits dest!: drain_calls release_fds)
    (auto simp: fds_def fun_eq_iff)

lemma forward_fds: "forward_local_message reach msg h = Some h' \<Longrightarrow> fds h' = fds h"
  using forward_slaves [of reach msg h h'] by (simp add: fds_def fun_eq_iff)

lemma data_fds: "data_loop reach i fd a h = Some h' \<Longrightarrow> fds h' = fds h"
proof (induction "length a * 4 + rank i h" arbitrary: a h rule: less_induct)
  case less
  let ?s = "hb_s h i"
  have cont: "fds h' = fds h1" if "continue reach i fd x h1 = Some h'" "length x * 4 + rank i h1 < length a * 4 + rank i h" for x h1
    using that less.hyps [of x h1] by (auto simp: continue_def split: if_splits)
  show ?case
  proof (cases "sl_status ?s")
    case STATUS_HANDSHAKE
    show ?thesis
    proof (cases a)
      case Nil
      then show ?thesis using less.prems STATUS_HANDSHAKE by (subst (asm) data_loop.simps) (simp add: Let_def)
    next
      case (Cons c a')
      show ?thesis
      proof (cases "unat c = i")
        case True
        then obtain h1 where h1: "dispatch_queue i (set_slave i (?s\<lparr>sl_status := STATUS_HEADER\<rparr>) h) = Some h1" "data_loop reach i fd a' h1 = Some h'"
          using less.prems STATUS_HANDSHAKE by (auto simp: Cons data_handshake split: bind_splits)
        have "fds h' = fds h1" using less.hyps [OF _ h1(2)] rank_le [of i h1] by (simp add: Cons)
        then show ?thesis using dispatch_queue_fds [OF h1(1)] by (simp add: fds_def fun_eq_iff)
      next
        case False
        then show ?thesis using less.prems STATUS_HANDSHAKE by (auto simp: Cons data_handshake dest!: close_fds)
      qed
    qed
  next
    case STATUS_HEADER
    let ?h1 = "set_slave i (start_content ?s (header_size ?s a)) h"
    show ?thesis
    proof (cases "length a < 4 - sl_read ?s")
      case True
      then show ?thesis using less.prems data_short [OF STATUS_HEADER True, of reach fd] by (auto simp: fds_def fun_eq_iff)
    next
      case False
      have "length (drop (4 - sl_read ?s) a) * 4 + rank i ?h1 < length a * 4 + rank i h"
        using False STATUS_HEADER by (auto simp: rank_def start_content_def)
      moreover have "fds ?h1 = fds h" by (simp add: start_content_def fds_def fun_eq_iff)
      ultimately show ?thesis using less.prems data_header [OF STATUS_HEADER, of a reach fd] False cont [of _ ?h1]
        by (auto simp: Let_def too_long_def fds_def fun_eq_iff split: if_splits dest!: close_fds)
    qed
  next
    case STATUS_CONTENT
    let ?need = "sl_length ?s - sl_read ?s"
    show ?thesis
    proof (cases "length a < ?need")
      case True
      then show ?thesis using less.prems data_content_short [OF STATUS_CONTENT True, of reach fd] by (auto simp: fds_def fun_eq_iff)
    next
      case False
      then obtain h1 where h1: "forward_local_message reach (sl_recv_buffer ?s @ take ?need a) h = Some h1"
        "continue reach i fd (drop ?need a) (set_slave i (end_content ?s) h1) = Some h'"
        using less.prems data_content [OF STATUS_CONTENT, of a reach fd] by (auto simp: Let_def split: bind_splits)
      have "length (drop ?need a) * 4 + rank i (set_slave i (end_content ?s) h1) < length a * 4 + rank i h"
        using STATUS_CONTENT by (simp add: rank_def end_content_def)
      then have "fds h' = fds (set_slave i (end_content ?s) h1)" by (rule cont [OF h1(2)])
      also have "\<dots> = fds h1" using forward_slaves [OF h1(1)] by (simp add: end_content_def fds_def)
      finally show ?thesis using forward_fds [OF h1(1)] by simp
    qed
  qed (use less.prems in \<open>simp_all add: data_other\<close>)
qed

lemma filter_single: "0 < i \<Longrightarrow> i < n \<Longrightarrow> filter (\<lambda>j. j = i) [1..<n] = [i :: nat]"
  by (induction n) (auto simp: less_Suc_eq filter_empty_conv)

lemma slave_of_fd_unique:
  assumes "i \<noteq> 0" "i < REMOTE_MAX" "\<And>j. sl_fd (hb_s h j) = fd \<longleftrightarrow> j = i"
  shows "slave_of_fd fd h = i"
  using filter_single [of i REMOTE_MAX] assms by (simp add: slave_of_fd_def)

lemma slave_of_fd_cong: "fds h' = fds h \<Longrightarrow> slave_of_fd fd h' = slave_of_fd fd h"
  by (simp add: slave_of_fd_def fds_def fun_eq_iff)

text \<open>The pieces of data that come in for a connection, each with the address of its buffer.\<close>

fun push_pieces :: "(u32 \<Rightarrow> bool) \<Rightarrow> int \<Rightarrow> (addr \<times> bytes) list \<Rightarrow> harbor \<Rightarrow> harbor option" where
  "push_pieces reach fd [] h = Some h"
| "push_pieces reach fd ((buffer, data) # ps) h = Option.bind (push_socket_data reach fd buffer data h) (push_pieces reach fd ps)"

lemma push_pieces_ok:
  assumes "continue reach i fd (concat (map snd ps)) h = Some h'" "sl_status (hb_s h' i) \<noteq> STATUS_DOWN"
    and "slave_of_fd fd h = i" "i \<noteq> 0" "list_all (\<lambda>p. snd p \<noteq> []) ps"
  shows "push_pieces reach fd ps h = Some h'"
  using assms
proof (induction ps arbitrary: h)
  case Nil
  then show ?case by (simp add: continue_def)
next
  case (Cons p ps)
  obtain buffer data where p: "p = (buffer, data)" by fastforce
  have data: "data \<noteq> []" using Cons.prems(5) p by simp
  define cs where "cs = concat (map snd ps)"
  have loop: "data_loop reach i fd (data @ cs) h = Some h'"
    using Cons.prems(1) data by (simp add: p continue_def cs_def)
  have "\<exists>h1. data_loop reach i fd data h = Some h1 \<and> continue reach i fd cs h1 = Some h'"
  proof (cases "cs = []")
    case True
    then show ?thesis using loop by (simp add: continue_def)
  next
    case False
    then show ?thesis using data_cut [OF False, of data h i reach fd] data loop Cons.prems(2)
      by (cases "data_loop reach i fd data h") (auto simp: continue_def cut_ok_def)
  qed
  then obtain h1 where h1: "data_loop reach i fd data h = Some h1" "continue reach i fd (concat (map snd ps)) h1 = Some h'"
    unfolding cs_def by blast
  have "slave_of_fd fd h1 = i" using slave_of_fd_cong [OF data_fds [OF h1(1)]] Cons.prems(3) by simp
  from Cons.IH [OF h1(2) Cons.prems(2) this Cons.prems(4)] Cons.prems(5)
  have "push_pieces reach fd ps h1 = Some h'" by simp
  then show ?case using h1(1) Cons.prems(3,4) by (simp add: p push_socket_data_def)
qed

text \<open>What a node writes to a connection: the bytes of its calls.\<close>

definition written :: "int \<Rightarrow> harbor_call list \<Rightarrow> bytes list" where
  "written fd calls = concat (map (\<lambda>c. case c of H_Socket_Send fd' bs \<Rightarrow> if fd' = fd then [bs] else [] | _ \<Rightarrow> []) calls)"

definition freed :: "harbor_call list \<Rightarrow> addr list" where
  "freed calls = concat (map (\<lambda>c. case c of H_Free p \<Rightarrow> [p] | _ \<Rightarrow> []) calls)"

lemma written_simps [simp]:
  "written fd [] = []" "written fd (a @ b) = written fd a @ written fd b" "written fd (H_Free p # cs) = written fd cs"
  "written fd (H_Socket_Send fd' bs # cs) = (if fd' = fd then [bs] else []) @ written fd cs" "written fd (H_Error t # cs) = written fd cs"
  "written fd (H_Send u v w x y z # cs) = written fd cs" "written fd (H_Socket_Start k # cs) = written fd cs"
  "written fd (H_Socket_Close k # cs) = written fd cs"
  by (simp_all add: written_def)

lemma freed_simps [simp]:
  "freed [] = []" "freed (a @ b) = freed a @ freed b" "freed (H_Free p # cs) = p # freed cs"
  "freed (H_Socket_Send fd' bs # cs) = freed cs" "freed (H_Error t # cs) = freed cs"
  "freed (H_Send u v w x y z # cs) = freed cs" "freed (H_Socket_Start k # cs) = freed cs" "freed (H_Socket_Close k # cs) = freed cs"
  by (simp_all add: freed_def)

lemma written_local [simp]: "written fd (all_local_calls reach n ms) = []" "freed (all_local_calls reach n ms) = []"
  by (induction ms) (auto simp: all_local_calls_def local_calls_def Let_def)

text \<open>A message that is not too long is written as one packet.\<close>

definition fits :: "remote_message_header \<times> bytes \<Rightarrow> bool" where
  "fits m = (length (snd m) + HEADER_COOKIE_LENGTH < 2 ^ 24)"

definition send_all :: "int \<Rightarrow> (remote_message_header \<times> bytes) list \<Rightarrow> harbor \<Rightarrow> harbor" where
  "send_all fd ms h = fold (\<lambda>m. send_remote fd (snd m) (fst m)) ms h"

lemma send_remote_written:
  "fits m \<Longrightarrow> hb_calls (send_remote fd (snd m) (fst m) h) = hb_calls h @ [H_Socket_Send fd (packet_of (fst m) (snd m))]"
  by (simp add: send_remote_def fits_def packet_of_def)

lemma send_all_written:
  "list_all fits ms \<Longrightarrow> hb_calls (send_all fd ms h) = hb_calls h @ map (\<lambda>m. H_Socket_Send fd (packet_of (fst m) (snd m))) ms"
  unfolding send_all_def by (induction ms arbitrary: h) (simp_all add: send_remote_written)

text \<open>C8. Messages travel from node to node whole and in order: if the bytes that one harbor service writes for a
  sequence of messages (each shorter than 16M) arrive at another one over an established connection, cut into
  pieces anyhow, then it sends exactly these messages, with their source, type and session, to the services with
  those handles on its node, and is ready for the next message.
\<close>

theorem harbor_carries_messages:
  assumes "list_all fits ms"
    and "concat (map snd pieces) = concat (written fd1 (hb_calls (send_all fd1 ms harbor_create)))" "list_all (\<lambda>p. snd p \<noteq> []) pieces"
    and "slave_of_fd fd h = i" "i \<noteq> 0" "sl_status (hb_s h i) = STATUS_HEADER" "sl_read (hb_s h i) = 0"
  shows "\<exists>h'. push_pieces reach fd pieces h = Some h' \<and> hb_calls h' = hb_calls h @ all_local_calls reach (hb_id h) ms \<and>
    sl_status (hb_s h' i) = STATUS_HEADER \<and> sl_read (hb_s h' i) = 0"
proof -
  have "list_all (\<lambda>(header, data). length data + HEADER_COOKIE_LENGTH < 2 ^ 24) ms"
    using assms(1) by (simp add: list_all_iff fits_def case_prod_unfold)
  from data_packets [OF assms(6,7) this, of reach fd] obtain s' where
    run: "continue reach i fd (concat (map (\<lambda>(header, data). packet_of header data) ms)) h =
      Some ((set_slave i s' h)\<lparr>hb_calls := hb_calls h @ all_local_calls reach (hb_id h) ms\<rparr>)"
    and s': "sl_status s' = STATUS_HEADER" "sl_read s' = 0" by blast
  have "written fd1 (map (\<lambda>m. H_Socket_Send fd1 (packet_of (fst m) (snd m))) ms) = map (\<lambda>(header, data). packet_of header data) ms"
    by (induction ms) (simp_all add: case_prod_unfold)
  then have pieces: "concat (map snd pieces) = concat (map (\<lambda>(header, data). packet_of header data) ms)"
    using assms(2) send_all_written [OF assms(1), of fd1 harbor_create] by (simp add: harbor_create_def)
  show ?thesis
    using push_pieces_ok [OF run [folded pieces], of] assms(3-5) s' by auto
qed

definition example_header :: remote_message_header where
  "example_header = \<lparr>rh_source = 0x01000010, rh_destination = 0x0a000021, rh_session = 5\<rparr>"

definition example_harbor :: harbor where
  "example_harbor = harbor_create\<lparr>hb_id := 1, hb_slave := 0x01000003\<rparr>"

lemma harbor_carries_messages_witness:
  "\<exists>h'. push_pieces (\<lambda>_. True) 7 [(100, [0, 0]), (101, [0, 14, 65, 66, 1, 0, 0, 0x10, 0x0a, 0, 0, 0x21, 0, 0, 0, 5])]
      (set_slave 2 (slave_zero\<lparr>sl_fd := 7, sl_status := STATUS_HEADER\<rparr>) example_harbor) = Some h' \<and>
    hb_calls h' = [H_Send 0x01000010 0x01000021 10 5 None [65, 66]]"
proof -
  let ?h = "set_slave 2 (slave_zero\<lparr>sl_fd := 7, sl_status := STATUS_HEADER\<rparr>) example_harbor"
  let ?pieces = "[(100, [0, 0]), (101, [0, 14, 65, 66, 1, 0, 0, 0x10, 0x0a, 0, 0, 0x21, 0, 0, 0, 5])] :: (addr \<times> bytes) list"
  have be: "be32_bytes 14 = [0, 0, 0, 14]" "be32_bytes 0x01000010 = [1, 0, 0, 0x10]" "be32_bytes 0x0a000021 = [0x0a, 0, 0, 0x21]"
    "be32_bytes 5 = [0, 0, 0, 5]" by (simp_all add: be32_bytes_def byte_of_def)
  have sent: "concat (map snd ?pieces) = concat (written 3 (hb_calls (send_all 3 [(example_header, [65, 66])] harbor_create)))"
    by (simp add: send_all_def send_remote_def be header_to_message_def example_header_def record_call_def harbor_create_def HEADER_COOKIE_LENGTH_def)
  have fd: "slave_of_fd 7 ?h = 2"
    by (rule slave_of_fd_unique) (auto simp: example_harbor_def harbor_create_def slave_zero_def REMOTE_MAX_def)
  have calls: "all_local_calls (\<lambda>_. True) 1 [(example_header, [65, 66])] = [H_Send 0x01000010 0x01000021 10 5 None [65, 66]]"
    by (simp add: all_local_calls_def local_calls_def local_handle_def example_header_def HANDLE_MASK_def HANDLE_REMOTE_SHIFT_def)
  have "list_all fits [(example_header, [65, 66])]" "list_all (\<lambda>p. snd p \<noteq> []) ?pieces" by (simp_all add: fits_def HEADER_COOKIE_LENGTH_def)
  from harbor_carries_messages [OF this(1) sent this(2) fd, of "\<lambda>_. True"] show ?thesis
    by (auto simp: calls example_harbor_def harbor_create_def slave_zero_def)
qed

section \<open>A connection from its beginning\<close>

text \<open>The messages of other services for node \<open>i\<close>: the header under which they travel, and their data.\<close>

record outgoing =
  og_source :: u32
  og_type :: u32
  og_session :: int
  og_handle :: u32
  og_msg :: addr
  og_data :: bytes

definition outgoing_message :: "outgoing \<Rightarrow> harbor_message" where
  "outgoing_message og = Remote_Message (og_source og) (og_type og) (og_session og) (replicate HARBOR_NAME_LENGTH NUL) (og_handle og) (og_msg og) (og_data og)"

definition og_header :: "outgoing \<Rightarrow> remote_message_header" where
  "og_header og = \<lparr>rh_source = og_source og,
     rh_destination = push_bit HANDLE_REMOTE_SHIFT (og_type og) OR (og_handle og AND HANDLE_MASK), rh_session = word_of_int (og_session og)\<rparr>"

definition og_packet :: "outgoing \<Rightarrow> bytes" where
  "og_packet og = packet_of (og_header og) (og_data og)"

definition for_node :: "nat \<Rightarrow> outgoing \<Rightarrow> bool" where
  "for_node i og \<longleftrightarrow> og_handle og \<noteq> 0 \<and> unat (drop_bit HANDLE_REMOTE_SHIFT (og_handle og)) = i \<and> fits (og_header og, og_data og)"

fun harbor_run :: "(u32 \<Rightarrow> bool) \<Rightarrow> harbor_message list \<Rightarrow> harbor \<Rightarrow> harbor option" where
  "harbor_run reach [] h = Some h"
| "harbor_run reach (m # ms) h = Option.bind (mainloop reach m h) (harbor_run reach ms)"

lemma harbor_run_append: "harbor_run reach (a @ b) h = Option.bind (harbor_run reach a h) (harbor_run reach b)"
  by (induction a arbitrary: h) (auto split: bind_splits)

text \<open>The messages that wait for a connection.\<close>

definition waiting :: "nat \<Rightarrow> harbor \<Rightarrow> harbor_msg list" where
  "waiting i h = (case sl_queue (hb_s h i) of None \<Rightarrow> [] | Some q \<Rightarrow> hq_contents q)"

definition queued :: "outgoing \<Rightarrow> harbor_msg" where
  "queued og = \<lparr>hm_header = og_header og, hm_buffer = og_msg og, hm_data = og_data og\<rparr>"

definition queue_wf :: "nat \<Rightarrow> harbor \<Rightarrow> bool" where
  "queue_wf i h \<longleftrightarrow> (\<forall>q. sl_queue (hb_s h i) = Some q \<longrightarrow> hq_wf q)"

lemma push_queue_waiting:
  assumes "queue_wf i h"
  shows "\<exists>q. push_queue p d header (case sl_queue (hb_s h i) of None \<Rightarrow> hq_new | Some q \<Rightarrow> q) = Some q \<and> hq_wf q \<and>
    hq_contents q = waiting i h @ [\<lparr>hm_header = header, hm_buffer = p, hm_data = d\<rparr>]"
proof -
  let ?q = "case sl_queue (hb_s h i) of None \<Rightarrow> hq_new | Some q \<Rightarrow> q"
  have "hq_wf ?q" "hq_contents ?q = waiting i h" using assms by (auto simp: queue_wf_def waiting_def split: option.splits)
  then show ?thesis unfolding push_queue_def using push_queue_msg_ok [of ?q "\<lparr>hm_header = header, hm_buffer = p, hm_data = d\<rparr>"] by simp
qed

lemma waiting_simps [simp]:
  "waiting i (record_call c h) = waiting i h" "waiting i (set_slave i s h) = (case sl_queue s of None \<Rightarrow> [] | Some q \<Rightarrow> hq_contents q)"
  "queue_wf i (record_call c h) = queue_wf i h" "queue_wf i (set_slave i s h) = (\<forall>q. sl_queue s = Some q \<longrightarrow> hq_wf q)"
  by (simp_all add: waiting_def queue_wf_def)

lemma release_waiting:
  assumes "queue_wf i h"
  shows "release_queue (sl_queue (hb_s h i)) h' = Some (h'\<lparr>hb_calls := hb_calls h' @ map (H_Free \<circ> hm_buffer) (waiting i h)\<rparr>)"
  using assms release_queue_ok by (cases "sl_queue (hb_s h i)") (auto simp: release_queue_def waiting_def queue_wf_def)

lemma close_harbor_ok:
  assumes "queue_wf i h"
  shows "\<exists>h'. close_harbor i h = Some h' \<and> sl_status (hb_s h' i) = STATUS_DOWN \<and> waiting i h' = [] \<and> queue_wf i h' \<and> hb_id h' = hb_id h \<and>
    hb_calls h' = hb_calls h @ (if sl_fd (hb_s h i) \<noteq> 0 then [H_Socket_Close (sl_fd (hb_s h i))] else []) @ map (H_Free \<circ> hm_buffer) (waiting i h)"
  using release_waiting [OF assms] by (simp add: close_harbor_def Let_def)

lemma dispatch_queue_ok:
  assumes "queue_wf i h" "sl_fd (hb_s h i) \<noteq> 0"
  shows "\<exists>h'. dispatch_queue i h = Some h' \<and> sl_status (hb_s h' i) = sl_status (hb_s h i) \<and> waiting i h' = [] \<and> queue_wf i h' \<and>
    hb_id h' = hb_id h \<and> hb_s h' = (hb_s h)(i := (hb_s h i)\<lparr>sl_queue := None\<rparr>) \<and>
    (\<exists>xs. hb_calls h' = hb_calls h @ xs \<and> freed xs = map hm_buffer (waiting i h) \<and>
      (list_all (\<lambda>m. fits (hm_header m, hm_data m)) (waiting i h) \<longrightarrow>
        written (sl_fd (hb_s h i)) xs = map (\<lambda>m. packet_of (hm_header m) (hm_data m)) (waiting i h)))"
proof (cases "sl_queue (hb_s h i)")
  case None
  then have "(hb_s h i)\<lparr>sl_queue := None\<rparr> = hb_s h i" by (intro slave.equality) simp_all
  then have "(hb_s h)(i := (hb_s h i)\<lparr>sl_queue := None\<rparr>) = hb_s h" by simp
  then show ?thesis using None assms by (simp add: dispatch_queue_def waiting_def Let_def)
next
  case (Some q)
  let ?s = "hb_s h i"
  let ?f = "\<lambda>m h. Some (record_call (H_Free (hm_buffer m)) (send_remote (sl_fd ?s) (hm_data m) (hm_header m) h))"
  define g where "g m = hb_calls (send_remote (sl_fd ?s) (hm_data m) (hm_header m) harbor_create) @ [H_Free (hm_buffer m)]" for m :: harbor_msg
  have wf: "hq_wf q" using assms(1) Some by (simp add: queue_wf_def)
  have f: "?f = (\<lambda>m h. Some (h\<lparr>hb_calls := hb_calls h @ g m\<rparr>))"
    by (intro ext) (simp add: send_remote_def g_def record_call_def harbor_create_def)
  obtain q' where q': "drain_queue ?f q h = Some (q', h\<lparr>hb_calls := hb_calls h @ concat (map g (hq_contents q))\<rparr>)" "hq_wf q'" "hq_contents q' = []"
    using drain_queue_ok [OF wf, of ?f h] handle_all_calls [of g "hq_contents q" h] unfolding f by auto
  have "freed (concat (map g ms)) = map hm_buffer ms" for ms
    by (induction ms) (simp_all add: g_def send_remote_def harbor_create_def)
  moreover have "list_all (\<lambda>m. fits (hm_header m, hm_data m)) ms \<Longrightarrow> written (sl_fd ?s) (concat (map g ms)) = map (\<lambda>m. packet_of (hm_header m) (hm_data m)) ms" for ms
  proof (induction ms)
    case (Cons m ms)
    have "g m = [H_Socket_Send (sl_fd ?s) (packet_of (hm_header m) (hm_data m)), H_Free (hm_buffer m)]"
      using Cons.prems send_remote_written [of "(hm_header m, hm_data m)" "sl_fd ?s" harbor_create]
      by (simp add: g_def) (simp add: harbor_create_def)
    then show ?case using Cons by simp
  qed simp
  ultimately show ?thesis using assms(2) Some q' release_queue_ok [OF q'(2)]
    by (simp add: dispatch_queue_def waiting_def queue_wf_def Let_def set_slave_def)
qed

lemma forward_calls:
  assumes "forward_local_message reach msg h = Some h'"
  shows "\<exists>xs. hb_calls h' = hb_calls h @ xs \<and> freed xs = [] \<and> written fd xs = []" "hb_id h' = hb_id h"
  using assms by (auto simp: forward_local_message_def Let_def split: if_splits)

text \<open>Data on an established connection only has messages sent on this node, or closes the connection.\<close>

definition only_local :: "nat \<Rightarrow> int \<Rightarrow> harbor \<Rightarrow> harbor \<Rightarrow> bool" where
  "only_local i fd h h' \<longleftrightarrow> (\<exists>xs. hb_calls h' = hb_calls h @ xs \<and> freed xs = [] \<and> written fd xs = []) \<and> waiting i h' = [] \<and> queue_wf i h' \<and>
     sl_status (hb_s h' i) \<notin> {STATUS_WAIT, STATUS_HANDSHAKE} \<and> hb_id h' = hb_id h"

lemma only_local_trans:
  "only_local i fd h h1 \<Longrightarrow> only_local i fd h1 h2 \<Longrightarrow> only_local i fd h h2"
  by (force simp: only_local_def)

lemma data_only_local:
  assumes "data_loop reach i fd a h = Some h'" "waiting i h = []" "queue_wf i h" "sl_status (hb_s h i) \<notin> {STATUS_WAIT, STATUS_HANDSHAKE}"
  shows "only_local i fd' h h'"
  using assms
proof (induction "length a * 4 + rank i h" arbitrary: a h rule: less_induct)
  case less
  let ?s = "hb_s h i"
  have sq: "(case sl_queue ?s of None \<Rightarrow> [] | Some q \<Rightarrow> hq_contents q) = []" "\<forall>q. sl_queue ?s = Some q \<longrightarrow> hq_wf q"
    using less.prems(2,3) by (simp_all add: waiting_def queue_wf_def)
  have cont: "only_local i fd' h1 h'" if "continue reach i fd x h1 = Some h'" "length x * 4 + rank i h1 < length a * 4 + rank i h"
    "waiting i h1 = []" "queue_wf i h1" "sl_status (hb_s h1 i) \<notin> {STATUS_WAIT, STATUS_HANDSHAKE}" for x h1
    using that less.hyps [of x h1] by (cases "x = []") (auto simp: continue_def only_local_def)
  show ?case
  proof (cases "sl_status ?s")
    case STATUS_HEADER
    show ?thesis
    proof (cases "length a < 4 - sl_read ?s")
      case True
      then show ?thesis using less.prems(1) data_short [OF STATUS_HEADER True, of reach fd] sq STATUS_HEADER by (auto simp: only_local_def)
    next
      case False
      let ?hdr = "header_size ?s a"
      let ?h1 = "set_slave i (start_content ?s ?hdr) h"
      show ?thesis
      proof (cases "?hdr ! 0 = 0")
        case True
        have "only_local i fd' ?h1 h'"
        proof (rule cont)
          show "continue reach i fd (drop (4 - sl_read ?s) a) ?h1 = Some h'"
            using less.prems(1) data_header [OF STATUS_HEADER, of a reach fd] False True by (simp add: Let_def)
          show "length (drop (4 - sl_read ?s) a) * 4 + rank i ?h1 < length a * 4 + rank i h"
            using False STATUS_HEADER by (auto simp: rank_def start_content_def)
        qed (use sq in \<open>simp_all add: start_content_def\<close>)
        then show ?thesis by (simp add: only_local_def)
      next
        case bad: False
        let ?h2 = "record_call (H_Error (''Message is too long from harbor '' @ fmt_d (int i))) (set_slave i (?s\<lparr>sl_size := ?hdr\<rparr>) h)"
        have "close_harbor i ?h2 = Some h'"
          using less.prems(1) data_header [OF STATUS_HEADER, of a reach fd] False bad by (simp add: Let_def too_long_def)
        then show ?thesis using close_harbor_ok [of i ?h2] sq by (auto simp: only_local_def)
      qed
    qed
  next
    case STATUS_CONTENT
    let ?need = "sl_length ?s - sl_read ?s"
    show ?thesis
    proof (cases "length a < ?need")
      case True
      then show ?thesis using less.prems(1) data_content_short [OF STATUS_CONTENT True, of reach fd] sq STATUS_CONTENT by (auto simp: only_local_def)
    next
      case False
      then obtain h1 where h1: "forward_local_message reach (sl_recv_buffer ?s @ take ?need a) h = Some h1"
        "continue reach i fd (drop ?need a) (set_slave i (end_content ?s) h1) = Some h'"
        using less.prems(1) data_content [OF STATUS_CONTENT, of a reach fd] by (auto simp: Let_def split: bind_splits)
      have "only_local i fd' (set_slave i (end_content ?s) h1) h'"
        by (rule cont [OF h1(2)]) (use sq STATUS_CONTENT in \<open>simp_all add: end_content_def rank_def\<close>)
      then show ?thesis using forward_calls(1) [OF h1(1), of fd'] forward_calls(2) [OF h1(1)] by (force simp: only_local_def)
    qed
  qed (use less.prems in \<open>auto simp: data_other only_local_def\<close>)
qed

text \<open>What happens on a connection: a message of this node goes out, or data comes in.\<close>

datatype link_event = Out outgoing | In addr bytes

fun link_message :: "int \<Rightarrow> link_event \<Rightarrow> harbor_message" where
  "link_message fd (Out og) = outgoing_message og"
| "link_message fd (In p data) = Socket_Message \<lparr>ssm_type = DATA, ssm_id = fd, ssm_ud = int (length data), ssm_buffer = data, ssm_extra = []\<rparr> p"

fun event_ok :: "nat \<Rightarrow> link_event \<Rightarrow> bool" where
  "event_ok i (Out og) = for_node i og"
| "event_ok i (In p data) = (data \<noteq> [])"

fun event_buffer :: "link_event \<Rightarrow> addr" where
  "event_buffer (Out og) = og_msg og"
| "event_buffer (In p data) = p"

fun outs :: "link_event list \<Rightarrow> outgoing list" where
  "outs [] = []"
| "outs (Out og # es) = og # outs es"
| "outs (In p data # es) = outs es"

lemma outs_append [simp]: "outs (a @ b) = outs a @ outs b"
  by (induction a rule: outs.induct) simp_all

definition packet_msg :: "harbor_msg \<Rightarrow> bytes" where
  "packet_msg m = packet_of (hm_header m) (hm_data m)"

definition link_ok :: "nat \<Rightarrow> int \<Rightarrow> bytes list \<Rightarrow> addr multiset \<Rightarrow> link_event list \<Rightarrow> harbor \<Rightarrow> bool" where
  "link_ok i fd W F es h \<longleftrightarrow> slave_of_fd fd h = i \<and> fds h i = fd \<and> queue_wf i h \<and> list_all (\<lambda>m. fits (hm_header m, hm_data m)) (waiting i h) \<and>
     sl_status (hb_s h i) \<noteq> STATUS_WAIT \<and> (sl_status (hb_s h i) \<noteq> STATUS_HANDSHAKE \<longrightarrow> waiting i h = []) \<and>
     mset (freed (hb_calls h)) + mset (map hm_buffer (waiting i h)) = F + mset (map event_buffer es) \<and>
     (sl_status (hb_s h i) \<noteq> STATUS_DOWN \<longrightarrow> written fd (hb_calls h) @ map packet_msg (waiting i h) = W @ map og_packet (outs es))"

lemma remote_send_queued:
  assumes "for_node i og" "int i \<noteq> hb_id h" "sl_fd (hb_s h i) = 0 \<and> sl_status (hb_s h i) = STATUS_WAIT \<or> sl_status (hb_s h i) = STATUS_HANDSHAKE" "queue_wf i h"
  shows "\<exists>q. mainloop reach (outgoing_message og) h = Some (set_slave i ((hb_s h i)\<lparr>sl_queue := Some q\<rparr>) h) \<and> hq_wf q \<and>
    hq_contents q = waiting i h @ [queued og]"
proof -
  obtain q where q: "push_queue (og_msg og) (og_data og) (og_header og) (case sl_queue (hb_s h i) of None \<Rightarrow> hq_new | Some q \<Rightarrow> q) = Some q"
    "hq_wf q" "hq_contents q = waiting i h @ [queued og]"
    using push_queue_waiting [OF assms(4), of "og_msg og" "og_data og" "og_header og"] by (auto simp: queued_def)
  then show ?thesis using assms(1-3)
    by (intro exI [of _ q]) (auto simp: mainloop_def outgoing_message_def for_node_def remote_send_handle_def og_header_def Let_def)
qed

lemma remote_send_direct:
  assumes "for_node i og" "int i \<noteq> hb_id h" "sl_fd (hb_s h i) \<noteq> 0" "sl_status (hb_s h i) \<noteq> STATUS_HANDSHAKE"
  shows "mainloop reach (outgoing_message og) h = Some (record_call (H_Free (og_msg og)) (record_call (H_Socket_Send (sl_fd (hb_s h i)) (og_packet og)) h))"
proof -
  have "send_remote (sl_fd (hb_s h i)) (og_data og) (og_header og) h = record_call (H_Socket_Send (sl_fd (hb_s h i)) (og_packet og)) h"
    using assms(1) by (simp add: send_remote_def for_node_def fits_def og_packet_def packet_of_def)
  then show ?thesis using assms
    by (auto simp: mainloop_def outgoing_message_def for_node_def remote_send_handle_def og_header_def Let_def)
qed

lemma link_step:
  assumes inv: "link_ok i fd W F es h" and i: "i \<noteq> 0" "int i \<noteq> hb_id h" and fd: "fd \<noteq> 0" and e: "event_ok i e"
    and run: "mainloop reach (link_message fd e) h = Some h'"
  shows "link_ok i fd W F (es @ [e]) h'" "hb_id h' = hb_id h"
proof -
  let ?s = "hb_s h i"
  have sl: "slave_of_fd fd h = i" "sl_fd ?s = fd" and wf: "queue_wf i h" "list_all (\<lambda>m. fits (hm_header m, hm_data m)) (waiting i h)"
    and st: "sl_status ?s \<noteq> STATUS_WAIT" and wt: "sl_status ?s \<noteq> STATUS_HANDSHAKE \<Longrightarrow> waiting i h = []"
    and F: "mset (freed (hb_calls h)) + mset (map hm_buffer (waiting i h)) = F + mset (map event_buffer es)"
    and W: "sl_status ?s \<noteq> STATUS_DOWN \<Longrightarrow> written fd (hb_calls h) @ map packet_msg (waiting i h) = W @ map og_packet (outs es)"
    using inv by (auto simp: link_ok_def fds_def)
  have "link_ok i fd W F (es @ [e]) h' \<and> hb_id h' = hb_id h"
  proof (cases e)
    case (Out og)
    have og: "for_node i og" using e Out by simp
    show ?thesis
    proof (cases "sl_status ?s = STATUS_HANDSHAKE")
      case True
      obtain q where q: "h' = set_slave i (?s\<lparr>sl_queue := Some q\<rparr>) h" "hq_wf q" "hq_contents q = waiting i h @ [queued og]"
        using remote_send_queued [OF og i(2) _ wf(1), of reach] True run Out by auto
      have "slave_of_fd fd h' = i" using slave_of_fd_cong [of h' h fd] sl by (simp add: q(1) fds_def fun_eq_iff)
      moreover have "packet_msg (queued og) = og_packet og" by (simp add: packet_msg_def queued_def og_packet_def)
      ultimately show ?thesis using q wf F W True og sl by (simp add: link_ok_def Out queued_def for_node_def fds_def add.assoc)
    next
      case False
      have h': "h' = record_call (H_Free (og_msg og)) (record_call (H_Socket_Send fd (og_packet og)) h)"
        using remote_send_direct [OF og i(2) _ False, of reach] run Out sl(2) fd by simp
      have "slave_of_fd fd h' = i" using slave_of_fd_cong [of h' h fd] sl by (simp add: h')
      then show ?thesis using wf F W False st wt sl by (simp add: link_ok_def Out h' fds_def)
    qed
  next
    case (In p data)
    obtain h1 where h1: "data_loop reach i fd data h = Some h1" "h' = record_call (H_Free p) h1"
      using run sl(1) i(1) by (auto simp: In mainloop_def push_socket_data_def Let_def split: if_splits)
    have fds: "fds h1 = fds h" using data_fds [OF h1(1)] .
    have sl1: "slave_of_fd fd h1 = i" "sl_fd (hb_s h1 i) = fd" using slave_of_fd_cong [OF fds] sl fun_cong [OF fds, of i] by (simp_all add: fds_def)
    have local: "link_ok i fd W F es h1 \<and> hb_id h1 = hb_id h" if "only_local i fd h2 h1" "link_ok i fd W F es h2" "sl_status (hb_s h2 i) \<noteq> STATUS_HANDSHAKE"
      "hb_id h2 = hb_id h" "sl_status (hb_s h2 i) = STATUS_DOWN \<longrightarrow> sl_status (hb_s h1 i) = STATUS_DOWN" for h2
      using that sl1 by (auto simp: link_ok_def only_local_def fds_def)
    have "link_ok i fd W F es h1 \<and> hb_id h1 = hb_id h"
    proof (cases "sl_status ?s = STATUS_HANDSHAKE")
      case False
      have "only_local i fd h h1" using data_only_local [OF h1(1) wt [OF False] wf(1)] st False by simp
      moreover have "sl_status ?s = STATUS_DOWN \<longrightarrow> sl_status (hb_s h1 i) = STATUS_DOWN" using h1(1) by (auto simp: data_other)
      ultimately show ?thesis using local inv False by blast
    next
      case True
      obtain c data' where data: "data = c # data'" using e In by (cases data) auto
      show ?thesis
      proof (cases "unat c = i")
        case False
        let ?h2 = "record_call (H_Error (''Invalid shakehand id ('' @ fmt_d (int i) @ '') from fd = '' @ fmt_d fd @ '' , harbor = '' @ fmt_d (uint c))) h"
        have fr: "freed (map (H_Free \<circ> hm_buffer) ms) = map hm_buffer ms" for ms by (induction ms) simp_all
        have close: "close_harbor i ?h2 = Some h1" using h1(1) True False by (simp add: data data_handshake)
        have "queue_wf i ?h2" using wf(1) by simp
        from close_harbor_ok [OF this] close have "sl_status (hb_s h1 i) = STATUS_DOWN" "waiting i h1 = []" "queue_wf i h1" "hb_id h1 = hb_id h"
          "mset (freed (hb_calls h1)) = mset (freed (hb_calls h)) + mset (map hm_buffer (waiting i h))"
          by (auto simp: fr)
        then show ?thesis using F sl1 by (simp add: link_ok_def fds_def)
      next
        case c: True
        let ?h0 = "set_slave i (?s\<lparr>sl_status := STATUS_HEADER\<rparr>) h"
        obtain h2 where h2: "dispatch_queue i ?h0 = Some h2" "data_loop reach i fd data' h2 = Some h1"
          using h1(1) True c by (auto simp: data data_handshake split: bind_splits)
        have "queue_wf i ?h0" "sl_fd (hb_s ?h0 i) \<noteq> 0" "waiting i ?h0 = waiting i h" using wf(1) sl(2) fd by (simp_all add: queue_wf_def waiting_def)
        from dispatch_queue_ok [OF this(1,2)] this(3) h2(1) sl(2) obtain xs where
          h2': "sl_status (hb_s h2 i) = STATUS_HEADER" "waiting i h2 = []" "queue_wf i h2" "hb_id h2 = hb_id h"
            "hb_s h2 = (hb_s h)(i := ?s\<lparr>sl_status := STATUS_HEADER, sl_queue := None\<rparr>)"
            "hb_calls h2 = hb_calls h @ xs" "freed xs = map hm_buffer (waiting i h)"
            "list_all (\<lambda>m. fits (hm_header m, hm_data m)) (waiting i h) \<longrightarrow> written fd xs = map packet_msg (waiting i h)"
          by (auto simp: packet_msg_def)
        have fds2: "fds h2 = fds h" using h2'(5) by (simp add: fds_def fun_eq_iff)
        have "link_ok i fd W F es h2"
          using h2' slave_of_fd_cong [OF fds2, of fd] sl fun_cong [OF fds2, of i] F W True wf(2)
          by (simp add: link_ok_def fds_def)
        moreover have "only_local i fd h2 h1" using data_only_local [OF h2(2) h2'(2,3)] h2'(1) by simp
        ultimately show ?thesis using local [of h2] h2'(1,4) by simp
      qed
    qed
    then show ?thesis using sl1 by (auto simp: link_ok_def In h1(2) fds_def slave_of_fd_cong [of "record_call (H_Free p) h1" h1])
  qed
  then show "link_ok i fd W F (es @ [e]) h'" "hb_id h' = hb_id h" by simp_all
qed

text \<open>The command with which the node's master hands over the socket of node \<open>i\<close>.\<close>

definition connect_command :: "char \<Rightarrow> int \<Rightarrow> nat \<Rightarrow> string" where
  "connect_command c fd i = [c, CHR '' ''] @ fmt_d fd @ '' '' @ fmt_d (int i)"

lemma digits_10:
  assumes "is_digit 10 c"
  shows "\<not> c_isspace c" "c \<noteq> CHR ''-''" "c \<noteq> CHR ''+''" "c \<noteq> NUL"
  using assms by (auto simp: is_digit_def digit_value_def c_isspace_def NUL_def Let_def split: if_splits)

lemma scan_int_digits:
  assumes "0 \<le> n" "n < 2 ^ 31" "rest = [] \<or> \<not> is_digit 10 (hd rest)" "list_all c_isspace sp"
  shows "scan_int (sp @ fmt_d n @ rest) = Some (n, rest)"
proof -
  let ?ds = "digits_of 10 (nat n)"
  have ds: "list_all (is_digit 10) ?ds" "?ds \<noteq> []" by (simp_all add: digits_of_digits digits_of_not_Nil)
  then obtain d ds' where d: "?ds = d # ds'" "is_digit 10 d" by (cases ?ds) auto
  have "dropWhile c_isspace (sp @ ?ds @ rest) = ?ds @ rest"
    using assms(4) digits_10(1) [OF d(2)] by (induction sp) (simp_all add: d(1))
  moreover have "read_sign (?ds @ rest) = (False, ?ds @ rest)" using digits_10 [OF d(2)] by (simp add: read_sign_def d(1))
  moreover have "read_digits 10 acc rest = (acc, rest)" for acc using assms(3) by (cases rest) auto
  then have "read_digits 10 0 (?ds @ rest) = (nat n, rest)"
    using read_digits_append [OF ds(1), of 0 rest] read_digits_digits_of [of 10 "nat n"] by simp
  moreover have "to_int (min (2 ^ 63 - 1) (int (nat n))) = n"
    using assms(1,2) by (simp add: to_int_def sint_sbintrunc' min_def signed_take_bit_int_eq_self)
  ultimately show ?thesis using assms(1) d by (simp add: scan_int_def fmt_d_def Let_def)
qed

lemma connect_scan:
  assumes "0 < fd" "fd < 2 ^ 31" "i < REMOTE_MAX"
  shows "takeWhile (\<lambda>c. c \<noteq> NUL) (drop 2 (connect_command c fd i)) = fmt_d fd @ '' '' @ fmt_d (int i)"
    "scan_int (fmt_d fd @ '' '' @ fmt_d (int i)) = Some (fd, '' '' @ fmt_d (int i))"
    "scan_int ('' '' @ fmt_d (int i)) = Some (int i, [])"
proof -
  have "list_all (\<lambda>c. c \<noteq> NUL) (digits_of 10 n)" for n
    using digits_of_digits [of 10 n] digits_10(4) by (auto simp: list_all_iff)
  moreover have "CHR '' '' \<noteq> NUL" by (simp add: NUL_def)
  ultimately show "takeWhile (\<lambda>c. c \<noteq> NUL) (drop 2 (connect_command c fd i)) = fmt_d fd @ '' '' @ fmt_d (int i)"
    using assms by (auto simp: connect_command_def fmt_d_def list_all_iff intro!: takeWhile_eq_all_conv [THEN iffD2])
  have "int i < 2 ^ 31" using assms(3) by (simp add: REMOTE_MAX_def)
  then show "scan_int ('' '' @ fmt_d (int i)) = Some (int i, [])"
    using scan_int_digits [of "int i" "[]" "'' ''"] by (simp add: c_isspace_def)
  show "scan_int (fmt_d fd @ '' '' @ fmt_d (int i)) = Some (fd, '' '' @ fmt_d (int i))"
    using scan_int_digits [of fd "'' '' @ fmt_d (int i)" "[]"] assms by (simp add: is_digit_def digit_value_def)
qed

lemma connect_run:
  assumes "0 < fd" "fd < 2 ^ 31" "i < REMOTE_MAX" "i \<noteq> 0" "sl_fd (hb_s h i) = 0" "c = CHR ''S'' \<or> c = CHR ''A''"
  shows "mainloop reach (Harbor_Command (connect_command c fd i) source) h =
    (let sl = (hb_s h i)\<lparr>sl_fd := fd\<rparr>; h1 = handshake i (record_call (H_Socket_Start fd) (set_slave i sl h)) in
     if c = CHR ''S'' then Some (set_slave i (sl\<lparr>sl_status := STATUS_HANDSHAKE\<rparr>) h1)
     else dispatch_queue i (set_slave i (sl\<lparr>sl_status := STATUS_HEADER\<rparr>) h1))"
proof -
  have len: "connect_command c fd i \<noteq> []" "hd (connect_command c fd i) = c" "\<not> length (connect_command c fd i) < 2"
    by (simp_all add: connect_command_def)
  show ?thesis
    using assms(1,3-6) connect_scan(1) [OF assms(1-3), of c] connect_scan(2,3) [OF assms(1-3)] len
    by (auto simp: mainloop_def harbor_command_def Let_def)
qed

text \<open>A node that is not connected yet: messages for it wait.\<close>

definition unconnected :: "nat \<Rightarrow> harbor \<Rightarrow> bool" where
  "unconnected i h \<longleftrightarrow> i \<noteq> 0 \<and> i < REMOTE_MAX \<and> int i \<noteq> hb_id h \<and> sl_fd (hb_s h i) = 0 \<and> sl_status (hb_s h i) = STATUS_WAIT \<and> sl_queue (hb_s h i) = None"

lemma run_unconnected:
  assumes "i \<noteq> 0" "i < REMOTE_MAX" "int i \<noteq> hb_id h" "sl_fd (hb_s h i) = 0" "sl_status (hb_s h i) = STATUS_WAIT" "queue_wf i h"
    and "list_all (for_node i) ogs"
  shows "\<exists>s. harbor_run reach (map outgoing_message ogs) h = Some (set_slave i s h) \<and> sl_fd s = 0 \<and> sl_status s = STATUS_WAIT \<and>
    queue_wf i (set_slave i s h) \<and> waiting i (set_slave i s h) = waiting i h @ map queued ogs"
  using assms(3-)
proof (induction ogs arbitrary: h)
  case Nil
  then show ?case by (intro exI [of _ "hb_s h i"]) simp
next
  case (Cons og ogs)
  obtain q where q: "mainloop reach (outgoing_message og) h = Some (set_slave i ((hb_s h i)\<lparr>sl_queue := Some q\<rparr>) h)" "hq_wf q"
    "hq_contents q = waiting i h @ [queued og]"
    using remote_send_queued [of i og h reach] Cons.prems by auto
  let ?h1 = "set_slave i ((hb_s h i)\<lparr>sl_queue := Some q\<rparr>) h"
  have "int i \<noteq> hb_id ?h1" "sl_fd (hb_s ?h1 i) = 0" "sl_status (hb_s ?h1 i) = STATUS_WAIT" "queue_wf i ?h1" "list_all (for_node i) ogs"
    using Cons.prems q(2) by simp_all
  from Cons.IH [OF this] q show ?case by auto
qed

lemma link_start:
  assumes fd: "0 < fd" "fd < 2 ^ 31" "fd \<notin> range (fds h)" and i: "i \<noteq> 0" "i < REMOTE_MAX" "sl_fd (hb_s h i) = 0"
    and wf: "queue_wf i h" "waiting i h = map queued pre" "list_all (for_node i) pre"
    and c: "c = CHR ''S'' \<or> c = CHR ''A''" and new: "written fd (hb_calls h) = []"
    and run: "mainloop reach (Harbor_Command (connect_command c fd i) source) h = Some h'"
  shows "link_ok i fd [[word_of_int (hb_id h)]] (mset (freed (hb_calls h))) (map Out pre) h'" "hb_id h' = hb_id h"
proof -
  let ?s = "hb_s h i"
  have fits: "list_all (\<lambda>m. fits (hm_header m, hm_data m)) (map queued pre)" using wf(3) by (induction pre) (simp_all add: queued_def for_node_def)
  have outs: "outs (map Out pre) = pre" by (induction pre) simp_all
  have slave: "slave_of_fd fd h2 = i" if "fds h2 = (fds h)(i := fd)" for h2
  proof -
    have "sl_fd (hb_s h2 j) = fd \<longleftrightarrow> j = i" for j using fun_cong [OF that, of j] fd(3) by (auto simp: fds_def)
    then show ?thesis using i(1,2) by (intro slave_of_fd_unique)
  qed
  define h1 where "h1 = handshake i (record_call (H_Socket_Start fd) (set_slave i (?s\<lparr>sl_fd := fd\<rparr>) h))"
  have h1: "hb_calls h1 = hb_calls h @ [H_Socket_Start fd, H_Socket_Send fd [word_of_int (hb_id h)]]" "hb_id h1 = hb_id h" "hb_s h1 = (hb_s h)(i := ?s\<lparr>sl_fd := fd\<rparr>)"
    by (simp_all add: h1_def handshake_def)
  have wq: "(case sl_queue ?s of None \<Rightarrow> [] | Some q \<Rightarrow> hq_contents q) = map queued pre" "\<forall>q. sl_queue ?s = Some q \<longrightarrow> hq_wf q"
    using wf(1,2) by (simp_all add: waiting_def queue_wf_def)
  have "link_ok i fd [[word_of_int (hb_id h)]] (mset (freed (hb_calls h))) (map Out pre) h' \<and> hb_id h' = hb_id h"
  proof (cases "c = CHR ''S''")
    case True
    then have h': "h' = set_slave i (?s\<lparr>sl_fd := fd, sl_status := STATUS_HANDSHAKE\<rparr>) h1"
      using run connect_run [OF fd(1,2) i(2,1,3) c, of reach source] by (simp add: h1_def Let_def)
    have "fds h' = (fds h)(i := fd)" by (simp add: h' h1 fds_def fun_eq_iff)
    from slave [OF this] show ?thesis
      using wq fits new by (simp add: link_ok_def h' h1 fds_def outs queued_def packet_msg_def og_packet_def comp_def)
  next
    case False
    let ?h2 = "set_slave i (?s\<lparr>sl_fd := fd, sl_status := STATUS_HEADER\<rparr>) h1"
    have "dispatch_queue i ?h2 = Some h'"
      using run connect_run [OF fd(1,2) i(2,1,3) c, of reach source] False by (simp add: h1_def Let_def)
    moreover have "queue_wf i ?h2" "sl_fd (hb_s ?h2 i) \<noteq> 0" "waiting i ?h2 = map queued pre" using wq fd(1) by simp_all
    ultimately obtain xs where h': "sl_status (hb_s h' i) = STATUS_HEADER" "waiting i h' = []" "queue_wf i h'" "hb_id h' = hb_id h1"
        "hb_s h' = (hb_s h)(i := ?s\<lparr>sl_fd := fd, sl_status := STATUS_HEADER, sl_queue := None\<rparr>)"
        "hb_calls h' = hb_calls h1 @ xs" "freed xs = map hm_buffer (map queued pre)" "written fd xs = map packet_msg (map queued pre)"
      using dispatch_queue_ok [of i ?h2] fits by (auto simp: h1 packet_msg_def)
    have "fds h' = (fds h)(i := fd)" by (simp add: h' fds_def fun_eq_iff)
    from slave [OF this] show ?thesis
      using h' h1 new by (simp add: link_ok_def fds_def outs queued_def packet_msg_def og_packet_def comp_def)
  qed
  then show "link_ok i fd [[word_of_int (hb_id h)]] (mset (freed (hb_calls h))) (map Out pre) h'" "hb_id h' = hb_id h" by simp_all
qed

lemma link_run:
  assumes "link_ok i fd W F es h" "i \<noteq> 0" "int i \<noteq> hb_id h" "fd \<noteq> 0" "list_all (event_ok i) es'"
    and "harbor_run reach (map (link_message fd) es') h = Some h'"
  shows "link_ok i fd W F (es @ es') h'"
  using assms
proof (induction es' arbitrary: es h)
  case (Cons e es')
  obtain h1 where h1: "mainloop reach (link_message fd e) h = Some h1" "harbor_run reach (map (link_message fd) es') h1 = Some h'"
    using Cons.prems(6) by (auto split: bind_splits)
  have "link_ok i fd W F (es @ [e]) h1" "hb_id h1 = hb_id h"
    using link_step [OF Cons.prems(1-4) _ h1(1)] Cons.prems(5) by simp_all
  from Cons.IH [OF this(1) Cons.prems(2) _ Cons.prems(4) _ h1(2)] this(2) Cons.prems(3,5) show ?case by simp
qed simp

text \<open>A whole history of a connection: messages before it exists, the command that hands it over, and then events.\<close>

definition link_history :: "outgoing list \<Rightarrow> char \<Rightarrow> int \<Rightarrow> nat \<Rightarrow> u32 \<Rightarrow> link_event list \<Rightarrow> harbor_message list" where
  "link_history pre c fd i source es =
     map outgoing_message pre @ [Harbor_Command (connect_command c fd i) source] @ map (link_message fd) es"

lemma link_history_ok:
  assumes "unconnected i h" "0 < fd" "fd < 2 ^ 31" "fd \<notin> range (fds h)" "c = CHR ''S'' \<or> c = CHR ''A''" "written fd (hb_calls h) = []"
    and "list_all (for_node i) pre" "list_all (event_ok i) es" "harbor_run reach (link_history pre c fd i source es) h = Some h'"
  shows "link_ok i fd [[word_of_int (hb_id h)]] (mset (freed (hb_calls h))) (map Out pre @ es) h'"
proof -
  have u: "i \<noteq> 0" "i < REMOTE_MAX" "int i \<noteq> hb_id h" "sl_fd (hb_s h i) = 0" "sl_status (hb_s h i) = STATUS_WAIT" "queue_wf i h" "waiting i h = []"
    using assms(1) by (simp_all add: unconnected_def queue_wf_def waiting_def)
  from run_unconnected [OF u(1-6) assms(7), of reach] obtain s where
    s: "harbor_run reach (map outgoing_message pre) h = Some (set_slave i s h)" "sl_fd s = 0" "queue_wf i (set_slave i s h)"
      "waiting i (set_slave i s h) = map queued pre" using u(7) by auto
  obtain h2 where h2: "mainloop reach (Harbor_Command (connect_command c fd i) source) (set_slave i s h) = Some h2"
    "harbor_run reach (map (link_message fd) es) h2 = Some h'"
    using assms(9) s(1) by (auto simp: link_history_def harbor_run_append split: bind_splits)
  have "fds (set_slave i s h) = fds h" using s(2) u(4) by (simp add: fds_def fun_eq_iff)
  then have fds: "fd \<notin> range (fds (set_slave i s h))" using assms(4) by simp
  have "link_ok i fd [[word_of_int (hb_id h)]] (mset (freed (hb_calls h))) (map Out pre) h2" "hb_id h2 = hb_id h"
    using link_start [OF assms(2,3) fds u(1,2) _ s(3,4) assms(7,5) _ h2(1)] s(2) assms(6) by simp_all
  from link_run [OF this(1) u(1) _ _ assms(8) h2(2)] this(2) u(3) assms(2) show ?thesis by simp
qed

text \<open>C13. Messages to another node keep their order across the making of the connection: those sent before it exists
  wait, and on an open connection the first byte written is the number of this node, followed by the packets of
  all messages in the order in which they were sent, but for those that still wait for the handshake.
\<close>

theorem connection_keeps_order:
  assumes "unconnected i h" "0 < fd" "fd < 2 ^ 31" "fd \<notin> range (fds h)" "c = CHR ''S'' \<or> c = CHR ''A''" "written fd (hb_calls h) = []"
    and "list_all (for_node i) pre" "list_all (event_ok i) es" "harbor_run reach (link_history pre c fd i source es) h = Some h'"
    and "sl_status (hb_s h' i) \<noteq> STATUS_DOWN"
  shows "written fd (hb_calls h') @ map packet_msg (waiting i h') = [word_of_int (hb_id h)] # map og_packet (pre @ outs es)"
    (is ?order)
proof -
  have "outs (map Out pre) = pre" by (induction pre) simp_all
  then show ?thesis using link_history_ok [OF assms(1-9)] assms(10) by (simp add: link_ok_def)
qed

definition example_outgoing :: "addr \<Rightarrow> outgoing" where
  "example_outgoing p = \<lparr>og_source = 0x01000010, og_type = 10, og_session = 5, og_handle = 0x02000021, og_msg = p, og_data = [65, 66]\<rparr>"

definition example_harbor_events :: "link_event list" where
  "example_harbor_events = [In 101 [2], Out (example_outgoing 102)]"

lemma example_harbor_ok:
  "unconnected 2 example_harbor" "7 \<notin> range (fds example_harbor)" "written 7 (hb_calls example_harbor) = []"
  "list_all (for_node 2) [example_outgoing 100]" "list_all (event_ok 2) example_harbor_events"
  by (auto simp: unconnected_def example_harbor_def harbor_create_def slave_zero_def REMOTE_MAX_def fds_def for_node_def
    example_outgoing_def example_harbor_events_def fits_def HANDLE_REMOTE_SHIFT_def HEADER_COOKIE_LENGTH_def)

lemma example_harbor_run:
  "\<exists>h'. harbor_run (\<lambda>_. True) (link_history [example_outgoing 100] (CHR ''S'') 7 2 0x01000003 example_harbor_events) example_harbor = Some h' \<and>
    sl_status (hb_s h' 2) \<noteq> STATUS_DOWN \<and> waiting 2 h' = []"
proof -
  let ?reach = "\<lambda>_ :: u32. True"
  have u: "for_node 2 (example_outgoing 100)" "int 2 \<noteq> hb_id example_harbor" "sl_fd (hb_s example_harbor 2) = 0 \<and> sl_status (hb_s example_harbor 2) = STATUS_WAIT"
    "queue_wf 2 example_harbor"
    using example_harbor_ok(1,4) by (simp_all add: unconnected_def queue_wf_def)
  from remote_send_queued [OF u(1,2) disjI1 [OF u(3)] u(4), where reach = ?reach] obtain q where
    q: "mainloop ?reach (outgoing_message (example_outgoing 100)) example_harbor = Some (set_slave 2 ((hb_s example_harbor 2)\<lparr>sl_queue := Some q\<rparr>) example_harbor)"
      "hq_wf q" by blast
  let ?s = "(hb_s example_harbor 2)\<lparr>sl_queue := Some q\<rparr>"
  let ?h1 = "set_slave 2 ?s example_harbor"
  let ?s2 = "?s\<lparr>sl_fd := 7, sl_status := STATUS_HANDSHAKE\<rparr>"
  define h2 where "h2 = set_slave 2 ?s2 (handshake 2 (record_call (H_Socket_Start 7) (set_slave 2 (?s\<lparr>sl_fd := 7\<rparr>) ?h1)))"
  have h2: "mainloop ?reach (Harbor_Command (connect_command (CHR ''S'') 7 2) 0x01000003) ?h1 = Some h2"
    using connect_run [where fd = 7 and i = 2 and h = ?h1 and c = "CHR ''S''" and reach = ?reach and source = "0x01000003"] u(3) by (simp add: h2_def Let_def REMOTE_MAX_def)
  have h2s: "hb_s h2 2 = ?s2" "hb_id h2 = 1" by (simp_all add: h2_def handshake_def example_harbor_def)
  have sfd: "slave_of_fd 7 h2 = 2"
    by (rule slave_of_fd_unique) (auto simp: h2_def handshake_def example_harbor_def harbor_create_def slave_zero_def REMOTE_MAX_def)
  let ?h3 = "set_slave 2 (?s2\<lparr>sl_status := STATUS_HEADER\<rparr>) h2"
  have wf: "queue_wf 2 ?h3" "sl_fd (hb_s ?h3 2) \<noteq> 0" using q(2) by (simp_all add: queue_wf_def)
  from dispatch_queue_ok [OF wf] obtain h4 where h4: "dispatch_queue 2 ?h3 = Some h4" "hb_id h4 = 1"
    "hb_s h4 2 = ?s2\<lparr>sl_status := STATUS_HEADER, sl_queue := None\<rparr>" using h2s by auto
  let ?s5 = "?s2\<lparr>sl_status := STATUS_HEADER, sl_queue := None\<rparr>"
  have zero: "sl_read (hb_s example_harbor 2) = 0" "sl_size (hb_s example_harbor 2) = []" by (simp_all add: example_harbor_def harbor_create_def slave_zero_def)
  have "data_loop ?reach 2 7 [2] h2 = data_loop ?reach 2 7 [] h4" using h2s(1) h4(1) by (simp add: data_handshake)
  also have "\<dots> = Some (set_slave 2 (?s5\<lparr>sl_size := [], sl_read := 0\<rparr>) h4)"
    using data_short [where h = h4 and i = 2 and buffer = "[]" and reach = ?reach and fd = 7] h4(3) zero by simp
  also have "?s5\<lparr>sl_size := [], sl_read := 0\<rparr> = ?s5" using zero by (intro slave.equality) simp_all
  finally have data: "data_loop ?reach 2 7 [2] h2 = Some (set_slave 2 ?s5 h4)" .
  then have "mainloop ?reach (link_message 7 (In 101 [2])) h2 = Some (record_call (H_Free 101) (set_slave 2 ?s5 h4))"
    using sfd data by (simp add: mainloop_def push_socket_data_def)
  moreover have "for_node 2 (example_outgoing 102)" using u(1) by (simp add: for_node_def example_outgoing_def og_header_def)
  ultimately show ?thesis using q(1) h2 h4(2) remote_send_direct [where i = 2 and og = "example_outgoing 102" and h = "record_call (H_Free 101) (set_slave 2 ?s5 h4)" and reach = ?reach]
    by (simp add: link_history_def example_harbor_events_def waiting_def)
qed

lemma connection_keeps_order_witness:
  "\<exists>h'. harbor_run (\<lambda>_. True) (link_history [example_outgoing 100] (CHR ''S'') 7 2 0x01000003 example_harbor_events) example_harbor = Some h' \<and>
    written 7 (hb_calls h') = [[1], og_packet (example_outgoing 100), og_packet (example_outgoing 102)]"
proof -
  obtain h' where h': "harbor_run (\<lambda>_. True) (link_history [example_outgoing 100] (CHR ''S'') 7 2 0x01000003 example_harbor_events) example_harbor = Some h'"
    "sl_status (hb_s h' 2) \<noteq> STATUS_DOWN" "waiting 2 h' = []" using example_harbor_run by blast
  from connection_keeps_order [OF example_harbor_ok(1) _ _ example_harbor_ok(2) _ example_harbor_ok(3-5) this(1,2)] this(3) show ?thesis
    by (intro exI [of _ h'] conjI h'(1)) (simp add: example_harbor_events_def example_harbor_def)
qed



end
