(* ===== verification/HarborFaults.thy ===== *)
theory HarborFaults
  imports HarborLink
begin

text \<open>
  What the harbor service does in the cases that its branches for lost nodes, unknown names and unknown sockets
  are meant for.
\<close>

section \<open>A node that was lost\<close>

text \<open>No descriptor, no connection: a slave without a descriptor has never had one.\<close>

definition slaves_ok :: "harbor \<Rightarrow> bool" where
  "slaves_ok h \<longleftrightarrow> (\<forall>i. sl_fd (hb_s h i) = 0 \<longrightarrow> sl_status (hb_s h i) = STATUS_WAIT)"

text \<open>Steps that only change queues.\<close>

definition same_links :: "harbor \<Rightarrow> harbor \<Rightarrow> bool" where
  "same_links h h' \<longleftrightarrow> (\<forall>i. sl_fd (hb_s h' i) = sl_fd (hb_s h i) \<and> sl_status (hb_s h' i) = sl_status (hb_s h i))"

lemma same_links_ok: "same_links h h' \<Longrightarrow> slaves_ok h \<Longrightarrow> slaves_ok h'"
  by (simp add: same_links_def slaves_ok_def)

lemma same_links_simps [simp]:
  "same_links h h" "same_links h (record_call c h') = same_links h h'" "same_links h (h'\<lparr>hb_map := m\<rparr>) = same_links h h'"
  "same_links h (send_remote fd d cookie h') = same_links h h'" "same_links (h\<lparr>hb_map := m\<rparr>) h' = same_links h h'"
  "same_links h (h'\<lparr>hb_calls := cs\<rparr>) = same_links h h'"
  by (simp_all add: same_links_def)

lemma same_links_set: "sl_fd s = sl_fd (hb_s h i) \<Longrightarrow> sl_status s = sl_status (hb_s h i) \<Longrightarrow> same_links h h' \<Longrightarrow> same_links h (set_slave i s h')"
  by (simp add: same_links_def)

lemma same_slaves: "hb_s h' = hb_s h \<Longrightarrow> same_links h h'"
  by (simp add: same_links_def)

lemma release_links: "release_queue oq h = Some h' \<Longrightarrow> same_links h h'"
  using release_fds [of oq h h'] by (intro same_slaves) simp

lemma dispatch_queue_links:
  assumes "dispatch_queue i h = Some h'"
  shows "same_links h h'"
proof (cases "sl_queue (hb_s h i)")
  case None
  then show ?thesis using assms by (auto simp: dispatch_queue_def Let_def split: if_splits)
next
  case (Some q)
  then obtain q' h1 h2 where "drain_queue (\<lambda>m h'. Some (record_call (H_Free (hm_buffer m)) (send_remote (sl_fd (hb_s h i)) (hm_data m) (hm_header m) h'))) q h = Some (q', h1)"
    "release_queue (Some q') h1 = Some h2" "h' = set_slave i ((hb_s h i)\<lparr>sl_queue := None\<rparr>) h2"
    using assms by (auto simp: dispatch_queue_def Let_def split: if_splits bind_splits)
  moreover from this(1) have "hb_s h1 = hb_s h" by (rule drain_calls(2)) simp_all
  ultimately show ?thesis using release_fds [of "Some q'" h1 h2] by (simp add: same_links_def)
qed

lemma dispatch_name_queue_links:
  assumes "dispatch_name_queue key handle q h = Some (oq, h')"
  shows "same_links h h'"
proof -
  have calls: "same_links h h2" if "drain_queue (\<lambda>m h'. Some (record_call (g m) h')) q0 h = Some (q1, h1)" "release_queue (Some q1) h1 = Some h2" for g q0 q1 h1 h2
  proof -
    have "hb_s h1 = hb_s h" using that(1) by (rule drain_calls(2)) simp_all
    then show ?thesis using release_fds [OF that(2)] by (intro same_slaves) simp
  qed
  have sends: "same_links h h1" if "drain_queue (\<lambda>m h'. Some (record_call (g m) (send_remote fd (f m) (c m) h'))) q0 h = Some (q1, h1)" for g fd f c q0 q1 h1
    by (rule same_slaves [OF drain_calls(2) [OF that]]) simp_all
  show ?thesis using assms unfolding dispatch_name_queue_def Let_def
    by (auto split: if_splits bind_splits option.splits intro!: same_links_set elim: sends) (erule (1) calls)+
qed

lemma update_name_links: "update_name name handle h = Some h' \<Longrightarrow> same_links h h'"
  by (auto simp: update_name_def Let_def same_links_def split: option.splits bind_splits
    dest!: dispatch_name_queue_links release_links)

lemma remote_send_links:
  "remote_send_handle source destination type session msg data h = Some (r, h') \<Longrightarrow> same_links h h'"
  "remote_send_name source name type session msg data h = Some (r, h') \<Longrightarrow> same_links h h'"
proof -
  show handle: "same_links h h'" if "remote_send_handle source destination type session msg data h = Some (r, h')" for h destination
    using that by (auto simp: remote_send_handle_def Let_def split: if_splits intro!: same_links_set)
  show "same_links h h'" if "remote_send_name source name type session msg data h = Some (r, h')"
    using that by (auto simp: remote_send_name_def Let_def split: option.splits if_splits dest!: handle)
qed

text \<open>Data changes only its own slave, and that only if it is connected.\<close>

lemma data_other_slaves:
  "data_loop reach i fd a h = Some h' \<Longrightarrow> j \<noteq> i \<Longrightarrow> sl_status (hb_s h' j) = sl_status (hb_s h j)"
proof (induction "length a * 4 + rank i h" arbitrary: a h rule: less_induct)
  case less
  let ?s = "hb_s h i"
  have cont: "sl_status (hb_s h' j) = sl_status (hb_s h1 j)" if "continue reach i fd x h1 = Some h'" "length x * 4 + rank i h1 < length a * 4 + rank i h" for x h1
    using that less.hyps [of x h1] less.prems(2) by (auto simp: continue_def split: if_splits)
  have closed: "sl_status (hb_s h2 j) = sl_status (hb_s h1 j)" if "close_harbor i h1 = Some h2" for h1 h2
    using that less.prems(2) by (auto simp: close_harbor_def Let_def dest!: release_fds split: if_splits)
  show ?case
  proof (cases "sl_status ?s")
    case STATUS_HANDSHAKE
    show ?thesis
    proof (cases a)
      case Nil
      then show ?thesis using less.prems(1) STATUS_HANDSHAKE by (subst (asm) data_loop.simps) (simp add: Let_def)
    next
      case (Cons c a')
      show ?thesis
      proof (cases "unat c = i")
        case True
        then obtain h1 where h1: "dispatch_queue i (set_slave i (?s\<lparr>sl_status := STATUS_HEADER\<rparr>) h) = Some h1" "data_loop reach i fd a' h1 = Some h'"
          using less.prems(1) STATUS_HANDSHAKE by (auto simp: Cons data_handshake split: bind_splits)
        have "sl_status (hb_s h' j) = sl_status (hb_s h1 j)" using less.hyps [OF _ h1(2) less.prems(2)] rank_le [of i h1] by (simp add: Cons)
        then show ?thesis using dispatch_queue_links [OF h1(1)] less.prems(2) by (simp add: same_links_def)
      next
        case False
        then show ?thesis using less.prems(1) STATUS_HANDSHAKE by (auto simp: Cons data_handshake dest!: closed)
      qed
    qed
  next
    case STATUS_HEADER
    let ?h1 = "set_slave i (start_content ?s (header_size ?s a)) h"
    show ?thesis
    proof (cases "length a < 4 - sl_read ?s")
      case True
      then show ?thesis using less.prems data_short [OF STATUS_HEADER True, of reach fd] by auto
    next
      case False
      have "length (drop (4 - sl_read ?s) a) * 4 + rank i ?h1 < length a * 4 + rank i h"
        using False STATUS_HEADER by (auto simp: rank_def start_content_def)
      then show ?thesis using less.prems data_header [OF STATUS_HEADER, of a reach fd] False cont [of _ ?h1]
        by (auto simp: Let_def too_long_def split: if_splits dest!: closed)
    qed
  next
    case STATUS_CONTENT
    let ?need = "sl_length ?s - sl_read ?s"
    show ?thesis
    proof (cases "length a < ?need")
      case True
      then show ?thesis using less.prems data_content_short [OF STATUS_CONTENT True, of reach fd] by auto
    next
      case False
      then obtain h1 where h1: "forward_local_message reach (sl_recv_buffer ?s @ take ?need a) h = Some h1"
        "continue reach i fd (drop ?need a) (set_slave i (end_content ?s) h1) = Some h'"
        using less.prems data_content [OF STATUS_CONTENT, of a reach fd] by (auto simp: Let_def split: bind_splits)
      have "length (drop ?need a) * 4 + rank i (set_slave i (end_content ?s) h1) < length a * 4 + rank i h"
        using STATUS_CONTENT by (simp add: rank_def end_content_def)
      then show ?thesis using cont [OF h1(2)] forward_slaves [OF h1(1)] less.prems(2) by simp
    qed
  qed (use less.prems in \<open>simp_all add: data_other\<close>)
qed

lemma data_slaves_ok:
  assumes "data_loop reach i fd a h = Some h'" "slaves_ok h"
  shows "slaves_ok h'"
proof (cases "sl_status (hb_s h i) = STATUS_WAIT")
  case True
  then show ?thesis using assms by (simp add: data_other)
next
  case False
  have fds: "sl_fd (hb_s h' j) = sl_fd (hb_s h j)" for j using fun_cong [OF data_fds [OF assms(1)], of j] by (simp add: fds_def)
  show ?thesis unfolding slaves_ok_def
  proof (intro allI impI)
    fix j assume "sl_fd (hb_s h' j) = 0"
    then have j: "sl_status (hb_s h j) = STATUS_WAIT" using assms(2) by (simp add: fds slaves_ok_def)
    then have "j \<noteq> i" using False by auto
    then show "sl_status (hb_s h' j) = STATUS_WAIT" using data_other_slaves [OF assms(1)] j by simp
  qed
qed

lemma mainloop_slaves_ok:
  assumes "mainloop reach m h = Some h'" "slaves_ok h"
  shows "slaves_ok h'"
proof (cases m)
  case (Socket_Message sm p)
  have [simp]: "slaves_ok (record_call c h1) = slaves_ok h1" for c h1 by (simp add: slaves_ok_def)
  show ?thesis using assms Socket_Message
    by (auto simp: mainloop_def push_socket_data_def report_harbor_down_def Let_def split: socket_type.splits if_splits dest: data_slaves_ok)
next
  case (Harbor_Command msg source)
  have [simp]: "slaves_ok (record_call c h1) = slaves_ok h1" for c h1 by (simp add: slaves_ok_def)
  have conn: "slaves_ok (set_slave n s h1)" if "slaves_ok h1" "sl_fd s \<noteq> 0" for n s h1 using that by (simp add: slaves_ok_def)
  show ?thesis using assms Harbor_Command
    by (auto simp: mainloop_def harbor_command_def handshake_def Let_def split: if_splits option.splits prod.splits
      intro!: conn dest!: update_name_links dispatch_queue_links elim!: same_links_ok)
next
  case (Remote_Message source type session name handle msg data)
  then show ?thesis using assms by (auto simp: mainloop_def split: if_splits dest!: remote_send_links intro: same_links_ok)
qed

text \<open>C37. When the connection to a node is lost, nobody is told: a message for that node is written to the dead socket and
  freed, whatever has happened before, and the branch that answers with an error and logs the loss is never
  reached, since a lost connection keeps its descriptor.
\<close>

theorem lost_node_gets_messages:
  assumes "harbor_init args harbor_create = (0, h0)" "harbor_run reach ms h0 = Some h" "sl_status (hb_s h i) = STATUS_DOWN"
    and "for_node i og" "int i \<noteq> hb_id h"
  shows "sl_fd (hb_s h i) \<noteq> 0 \<and>
    mainloop reach (outgoing_message og) h = Some (record_call (H_Free (og_msg og)) (record_call (H_Socket_Send (sl_fd (hb_s h i)) (og_packet og)) h))"
proof -
  have "slaves_ok h0" using assms(1)
    by (auto simp: harbor_init_def harbor_create_def slave_zero_def slaves_ok_def Let_def record_call_def split: option.splits prod.splits if_splits)
  moreover have "slaves_ok h'" if "harbor_run reach ms h1 = Some h'" "slaves_ok h1" for h1 h'
    using that by (induction ms arbitrary: h1) (auto split: bind_splits dest: mainloop_slaves_ok)
  ultimately have "slaves_ok h" using assms(2) by blast
  then have "sl_fd (hb_s h i) \<noteq> 0" using assms(3) by (auto simp: slaves_ok_def)
  then show ?thesis using remote_send_direct [OF assms(4,5)] assms(3) by simp
qed

definition example_loss :: "harbor_message list" where
  "example_loss = [Harbor_Command (connect_command (CHR ''A'') 7 2) 0x01000003, link_message 7 (In 100 [1, 0, 0, 0])]"

lemma lost_node_gets_messages_witness:
  "\<exists>h0 h. harbor_init (fmt_d 1 @ '' '' @ fmt_d 0x01000003) harbor_create = (0, h0) \<and> harbor_run (\<lambda>_. True) example_loss h0 = Some h \<and>
    mainloop (\<lambda>_. True) (outgoing_message (example_outgoing 102)) h =
      Some (record_call (H_Free 102) (record_call (H_Socket_Send 7 (og_packet (example_outgoing 102))) h))"
proof -
  let ?reach = "\<lambda>_ :: u32. True"
  let ?h0 = "record_call H_Start example_harbor"
  have "scan_int (fmt_d 1 @ '' '' @ fmt_d 0x01000003) = Some (1, '' '' @ fmt_d 0x01000003)" "scan_int ('' '' @ fmt_d 0x01000003) = Some (0x01000003, [])"
    using scan_int_digits [of 1 "'' '' @ fmt_d 0x01000003" "[]"] scan_int_digits [of "0x01000003" "[]" "'' ''"]
    by (simp_all add: is_digit_def digit_value_def c_isspace_def)
  then have init: "harbor_init (fmt_d 1 @ '' '' @ fmt_d 0x01000003) harbor_create = (0, ?h0)"
    by (simp add: harbor_init_def example_harbor_def Let_def)
  let ?s = "slave_zero\<lparr>sl_fd := 7, sl_status := STATUS_HEADER\<rparr>"
  let ?h1 = "set_slave 2 ?s (handshake 2 (record_call (H_Socket_Start 7) (set_slave 2 (slave_zero\<lparr>sl_fd := 7\<rparr>) ?h0)))"
  have zero: "hb_s ?h0 2 = slave_zero" by (simp add: example_harbor_def harbor_create_def)
  have 1: "mainloop ?reach (Harbor_Command (connect_command (CHR ''A'') 7 2) 0x01000003) ?h0 = Some ?h1"
    using connect_run [where fd = 7 and i = 2 and h = ?h0 and c = "CHR ''A''" and reach = ?reach and source = "0x01000003"] zero
    by (simp add: Let_def REMOTE_MAX_def dispatch_queue_def slave_zero_def)
  have fd: "slave_of_fd 7 ?h1 = 2"
    by (rule slave_of_fd_unique) (auto simp: handshake_def example_harbor_def harbor_create_def slave_zero_def REMOTE_MAX_def)
  have "\<exists>h. mainloop ?reach (link_message 7 (In 100 [1, 0, 0, 0])) ?h1 = Some h \<and> sl_status (hb_s h 2) = STATUS_DOWN \<and> sl_fd (hb_s h 2) = 7 \<and> hb_id h = 1"
    using fd data_header [of ?h1 2 "[1, 0, 0, 0]" ?reach 7]
    by (simp add: mainloop_def push_socket_data_def slave_zero_def too_long_def header_size_def close_harbor_def release_queue_def handshake_def
      example_harbor_def harbor_create_def Let_def)
  then obtain h where h: "harbor_run ?reach example_loss ?h0 = Some h" "sl_status (hb_s h 2) = STATUS_DOWN" "sl_fd (hb_s h 2) = 7" "hb_id h = 1"
    using 1 by (auto simp: example_loss_def)
  have "for_node 2 (example_outgoing 102)" by (simp add: for_node_def example_outgoing_def og_header_def fits_def HANDLE_REMOTE_SHIFT_def HEADER_COOKIE_LENGTH_def)
  from lost_node_gets_messages [OF init h(1,2) this] h(3,4) show ?thesis using init h(1)
    by (intro exI [of _ ?h0] exI [of _ h]) (simp add: example_outgoing_def)
qed

section \<open>Names and sockets that are not known\<close>

text \<open>Messages for a global name that is not known yet lose their destination if the name turns out to belong to
  a node that is not connected: they are queued for that node with the handle 0, while the handle of the name is put in
  only when the node is connected.
\<close>

theorem queued_name_loses_handle:
  assumes "hash_search (hb_map h) name = None" "length name = HARBOR_NAME_LENGTH"
    and "unconnected (unat (drop_bit HANDLE_REMOTE_SHIFT handle)) h"
    and "unat (drop_bit HANDLE_REMOTE_SHIFT handle) \<noteq> unat (drop_bit HANDLE_REMOTE_SHIFT (hb_slave h))"
  shows "\<exists>h1 h2. remote_send_name source name type session msg data h = Some (1, h1) \<and> update_name name handle h1 = Some h2 \<and>
    map (rh_destination \<circ> hm_header) (waiting (unat (drop_bit HANDLE_REMOTE_SHIFT handle)) h2) = [push_bit HANDLE_REMOTE_SHIFT type]"
proof -
  let ?i = "unat (drop_bit HANDLE_REMOTE_SHIFT handle)"
  let ?hash = "name_hash name"
  let ?m = "\<lparr>hm_header = \<lparr>rh_source = source, rh_destination = push_bit HANDLE_REMOTE_SHIFT type, rh_session = word_of_int session\<rparr>,
    hm_buffer = msg, hm_data = data\<rparr>"
  obtain q where q: "push_queue_msg ?m hq_new = Some q" "hq_wf q" "hq_contents q = [?m]"
    using push_queue_msg_ok [of hq_new ?m] by auto
  let ?kv = "\<lparr>kv_key = name, kv_hash = ?hash, kv_value = 0, kv_queue = None\<rparr>"
  let ?h0 = "h\<lparr>hb_map := (hb_map h)(bucket ?hash := ?kv # hb_map h (bucket ?hash))\<rparr>"
  let ?h1 = "record_call (H_Send 0 (hb_slave h) 0 0 None (text_bytes (''Q '' @ takeWhile (\<lambda>c. c \<noteq> NUL) name)))
    (h\<lparr>hb_map := (hb_map h)(bucket ?hash := ?kv\<lparr>kv_queue := Some q\<rparr> # hb_map h (bucket ?hash))\<rparr>)"
  have 1: "remote_send_name source name type session msg data h = Some (1, ?h1)"
    using assms(1) q(1)
    by (simp add: remote_send_name_def hash_insert_def hash_search_def set_node_def push_queue_def same_name_def record_call_def Let_def)
  have i: "sl_fd (hb_s h ?i) = 0" "sl_status (hb_s h ?i) = STATUS_WAIT" "sl_queue (hb_s h ?i) = None" using assms(3) by (simp_all add: unconnected_def)
  have "\<exists>h2. update_name name handle ?h1 = Some h2 \<and> waiting ?i h2 = [?m]"
    using i assms(4) q(2,3)
    by (simp add: update_name_def hash_search_def set_node_def same_name_def dispatch_name_queue_def release_queue_def record_call_def
      waiting_def set_slave_def Let_def)
  then obtain h2 where "update_name name handle ?h1 = Some h2" "waiting ?i h2 = [?m]" by blast
  with 1 show ?thesis by (intro exI [of _ ?h1] exI [of _ h2]) simp
qed

lemma queued_name_loses_handle_witness:
  "\<exists>h1 h2. remote_send_name 0x01000010 (''DB'' @ replicate 14 NUL) 10 5 100 [65, 66] example_harbor = Some (1, h1) \<and>
    update_name (''DB'' @ replicate 14 NUL) 0x02000021 h1 = Some h2 \<and>
    map (rh_destination \<circ> hm_header) (waiting 2 h2) = [0x0a000000]"
  using queued_name_loses_handle [of example_harbor "''DB'' @ replicate 14 NUL" "0x02000021" "0x01000010" 10 5 100 "[65, 66]"]
  by (simp add: hash_search_def hash_new_def example_harbor_def harbor_create_def slave_zero_def unconnected_def HARBOR_NAME_LENGTH_def
    REMOTE_MAX_def HANDLE_REMOTE_SHIFT_def Let_def)

text \<open>Data from a socket that does not belong to a node is freed twice: by the function that finds no node and by
  the callback that called it.
\<close>

theorem unknown_socket_frees_twice:
  assumes "slave_of_fd fd h = 0"
  shows "\<exists>h'. mainloop reach (link_message fd (In p data)) h = Some h' \<and> freed (hb_calls h') = freed (hb_calls h) @ [p, p]"
  using assms by (simp add: mainloop_def push_socket_data_def)

lemma unknown_socket_frees_twice_witness:
  "\<exists>h'. mainloop (\<lambda>_. True) (link_message 9 (In 100 [1, 2])) harbor_create = Some h' \<and> freed (hb_calls h') = [100, 100]"
proof -
  have "slave_of_fd 9 harbor_create = 0" by (simp add: slave_of_fd_def harbor_create_def slave_zero_def)
  from unknown_socket_frees_twice [OF this, of "\<lambda>_. True" 100 "[1, 2]"] show ?thesis by (simp add: harbor_create_def)
qed

end
