(* ===== verification/SprotoPack.thy ===== *)
theory SprotoPack
  imports Bytes
begin

text \<open>
  The zero packing of sproto messages: \<open>sproto_pack\<close> and \<open>sproto_unpack\<close> of
  \<open>lualib-src/sproto/sproto.c\<close>.

  A message is packed in groups of eight bytes.  A group is a byte whose bits tell which of the eight are not
  zero, and those that are not zero; runs of up to 256 groups without (many) zeros are the byte 0xff, the
  length of the run and its bytes.  The packer writes the bytes of a run when the run ends, over what it wrote
  while it looked at each group.

  The destination is a list of bytes as long as the size that is passed for it, and a pointer into it is the
  distance from its start.  A result \<open>None\<close> is an access outside source or destination.
\<close>

section \<open>Packing\<close>

definition put_byte :: "nat \<Rightarrow> u8 \<Rightarrow> bytes \<Rightarrow> bytes option" where
  "put_byte i v d = (if i < length d then Some (d[i := v]) else None)"

definition put_bytes :: "nat \<Rightarrow> bytes \<Rightarrow> bytes \<Rightarrow> bytes option" where
  "put_bytes i xs d = (if i + length xs \<le> length d then Some (take i d @ xs @ drop (i + length xs) d) else None)"

text \<open>The loop of \<open>pack_seg\<close>: number of the byte, the bytes left, and \<open>notzero\<close>, \<open>header\<close>, \<open>buffer\<close> and \<open>sz\<close>.\<close>

fun pack_bytes :: "nat \<Rightarrow> bytes \<Rightarrow> nat \<Rightarrow> u8 \<Rightarrow> nat \<Rightarrow> int \<Rightarrow> bytes \<Rightarrow> (nat \<times> u8 \<times> bytes) option" where
  "pack_bytes i [] notzero header b sz d = Some (notzero, header, d)"
| "pack_bytes i (c # cs) notzero header b sz d =
     (if c = 0 then pack_bytes (i + 1) cs notzero header b sz d
      else
        let header' = header OR push_bit i 1 in
        if sz > 0 then Option.bind (put_byte b c d) (pack_bytes (i + 1) cs (notzero + 1) header' (b + 1) (sz - 1))
        else pack_bytes (i + 1) cs (notzero + 1) header' b sz d)"

definition pack_seg :: "bytes \<Rightarrow> nat \<Rightarrow> int \<Rightarrow> nat \<Rightarrow> bytes \<Rightarrow> (nat \<times> bytes) option" where
  "pack_seg src b sz n d = do {
     (notzero, header, d1) \<leftarrow> pack_bytes 0 src 0 0 (b + 1) (sz - 1) d;
     let notzero' = (if (notzero = 7 \<or> notzero = 6) \<and> n > 0 then 8 else notzero);
     if notzero' = 8 then Some (if n > 0 then 8 else 10, d1)
     else map_option (Pair (notzero' + 1)) (if sz - 1 < 0 then Some d1 else put_byte b header d1)
   }"

text \<open>\<open>write_ff\<close> on the bytes that it reads.\<close>

definition align8 :: "nat \<Rightarrow> nat" where
  "align8 n = (n + 7) div 8 * 8"

definition write_ff :: "bytes \<Rightarrow> nat \<Rightarrow> bytes \<Rightarrow> bytes option" where
  "write_ff xs des d = (let a = align8 (length xs) in
     put_bytes des ([0xff, of_nat (a div 8) - 1] @ xs @ replicate (a - length xs) 0) d)"

text \<open>A pointer of the packer to its input: into the source, or to the copy of the last, shorter group.\<close>

datatype seg_ptr = In_Src nat | In_Tmp

definition read_ptr :: "bytes \<Rightarrow> seg_ptr \<Rightarrow> nat \<Rightarrow> bytes option" where
  "read_ptr src p n = (case p of
       In_Src o' \<Rightarrow> if o' + n \<le> length src then Some (take n (drop o' src)) else None
     | In_Tmp \<Rightarrow> None)"

record pack_state =
  ps_dest :: bytes
  ps_buffer :: nat
  ps_bufsz :: int
  ps_ff_src :: seg_ptr
  ps_ff_des :: nat
  ps_ff_n :: nat

definition flush_ff :: "bytes \<Rightarrow> nat \<Rightarrow> pack_state \<Rightarrow> bytes \<Rightarrow> bytes option" where
  "flush_ff src n st d = (if ps_bufsz st \<ge> 0
     then Option.bind (read_ptr src (ps_ff_src st) n) (\<lambda>xs. write_ff xs (ps_ff_des st) d) else Some d)"

text \<open>One round of the loop of \<open>sproto_pack\<close>, for the group at \<open>i\<close>; \<open>size\<close> is always \<open>ps_buffer\<close>.\<close>

definition pack_step :: "bytes \<Rightarrow> nat \<Rightarrow> pack_state \<Rightarrow> pack_state option" where
  "pack_step src i st =
     (let padding = i + 8 - length src;
          (p, seg) = (if padding > 0 then (In_Tmp, drop i src @ replicate padding 0) else (In_Src i, take 8 (drop i src)))
      in do {
        (n, d) \<leftarrow> pack_seg seg (ps_buffer st) (ps_bufsz st) (ps_ff_n st) (ps_dest st);
        let st1 = st\<lparr>ps_bufsz := ps_bufsz st - int n\<rparr>;
        let st2 = st1\<lparr>ps_buffer := ps_buffer st + n\<rparr>;
        if n = 10 then Some (st2\<lparr>ps_dest := d, ps_ff_src := p, ps_ff_des := ps_buffer st, ps_ff_n := 1\<rparr>)
        else if n = 8 \<and> ps_ff_n st > 0 then
          (if ps_ff_n st + 1 = 256 then map_option (\<lambda>d'. st2\<lparr>ps_dest := d', ps_ff_n := 0\<rparr>) (flush_ff src (256 * 8) st1 d)
           else Some (st2\<lparr>ps_dest := d, ps_ff_n := ps_ff_n st + 1\<rparr>))
        else if ps_ff_n st > 0 then map_option (\<lambda>d'. st2\<lparr>ps_dest := d', ps_ff_n := 0\<rparr>) (flush_ff src (ps_ff_n st * 8) st1 d)
        else Some (st2\<lparr>ps_dest := d\<rparr>)
      })"

function pack_loop :: "bytes \<Rightarrow> nat \<Rightarrow> pack_state \<Rightarrow> pack_state option" where
  "pack_loop src i st = (if i < length src then Option.bind (pack_step src i st) (pack_loop src (i + 8)) else Some st)"
  by pat_completeness auto
termination by (relation "measure (\<lambda>(src, i, st). length src - i)") auto

declare pack_loop.simps [simp del]

text \<open>The result is the number of bytes of the packed message, and the destination, which may be too short for it.\<close>

definition sproto_pack :: "bytes \<Rightarrow> bytes \<Rightarrow> (nat \<times> bytes) option" where
  "sproto_pack src d = do {
     st \<leftarrow> pack_loop src 0 \<lparr>ps_dest = d, ps_buffer = 0, ps_bufsz = int (length d), ps_ff_src = In_Tmp, ps_ff_des = 0, ps_ff_n = 0\<rparr>;
     d' \<leftarrow> (if ps_ff_n st = 1 then flush_ff src 8 st (ps_dest st)
            else if ps_ff_n st > 1 then flush_ff src (case ps_ff_src st of In_Src o' \<Rightarrow> length src - o' | In_Tmp \<Rightarrow> 0) st (ps_dest st)
            else Some (ps_dest st));
     Some (ps_buffer st, d')
   }"

section \<open>Unpacking\<close>

text \<open>
  The loop over the bits of a header byte; \<open>src\<close> is what is left of the source, \<open>srcsz\<close> the number that the code
  counts down, \<open>b\<close> the place in the destination.  \<open>Inl\<close> is the return of -1.
\<close>

fun unpack_bits :: "nat \<Rightarrow> u8 \<Rightarrow> nat \<Rightarrow> bytes \<Rightarrow> int \<Rightarrow> nat \<Rightarrow> int \<Rightarrow> bytes \<Rightarrow> (bytes + bytes \<times> int \<times> nat \<times> int \<times> bytes) option" where
  "unpack_bits 0 header i src srcsz b bufsz d = Some (Inr (src, srcsz, b, bufsz, d))"
| "unpack_bits (Suc k) header i src srcsz b bufsz d =
     (if bit header i then
        (if srcsz < 0 then Some (Inl d)
         else if bufsz > 0 then
           (case src of
              [] \<Rightarrow> None
            | c # cs \<Rightarrow> Option.bind (put_byte b c d) (unpack_bits k header (i + 1) cs (srcsz - 1) (b + 1) (bufsz - 1)))
         else unpack_bits k header (i + 1) (tl src) (srcsz - 1) b bufsz d)
      else if bufsz > 0 then Option.bind (put_byte b 0 d) (unpack_bits k header (i + 1) src srcsz (b + 1) (bufsz - 1))
      else unpack_bits k header (i + 1) src srcsz b bufsz d)"

lemma unpack_bits_srcsz: "unpack_bits k header i src srcsz b bufsz d = Some (Inr (src', srcsz', x)) \<Longrightarrow> srcsz' \<le> srcsz"
  by (induction k header i src srcsz b bufsz d rule: unpack_bits.induct) (fastforce split: if_splits list.splits bind_splits)+

lemma ff_length: "\<not> s < 10 + uint (c :: u8) * 8 \<Longrightarrow> 0 < s" "- (uint (c :: u8) * 8) < 10"
  using uint_ge_0 [of c] by linarith+

function unpack_loop :: "bytes \<Rightarrow> int \<Rightarrow> nat \<Rightarrow> int \<Rightarrow> bytes \<Rightarrow> nat \<Rightarrow> (int \<times> bytes) option" where
  "unpack_loop src srcsz b bufsz d n =
     (if srcsz \<le> 0 then Some (int n, d)
      else case src of
        [] \<Rightarrow> None
      | header # rest \<Rightarrow>
          if header = 0xff then
            (case rest of
               [] \<Rightarrow> None
             | c # rest' \<Rightarrow>
                 let m = (unat c + 1) * 8 in
                 if srcsz - 1 < int m + 1 then Some (- 1, d)
                 else Option.bind (if bufsz \<ge> int m then put_bytes b (take m rest') d else Some d) (\<lambda>d'.
                   unpack_loop (drop m rest') (srcsz - 1 - (int m + 1)) (b + m) (bufsz - int m) d' (n + m)))
          else
            (case unpack_bits 8 header 0 rest (srcsz - 1) b bufsz d of
               None \<Rightarrow> None
             | Some (Inl d') \<Rightarrow> Some (- 1, d')
             | Some (Inr (src', srcsz', b', bufsz', d')) \<Rightarrow> unpack_loop src' srcsz' b' bufsz' d' (n + 8)))"
  by pat_completeness auto
termination
  by (relation "measure (\<lambda>(src, srcsz, b, bufsz, d, n). nat srcsz)") (auto dest!: unpack_bits_srcsz simp: ff_length)

declare unpack_loop.simps [simp del]

definition sproto_unpack :: "bytes \<Rightarrow> bytes \<Rightarrow> (int \<times> bytes) option" where
  "sproto_unpack src d = unpack_loop src (int (length src)) 0 (int (length d)) d 0"

section \<open>What a packed message is\<close>

definition nonzeros :: "bytes \<Rightarrow> nat" where
  "nonzeros cs = length (filter (\<lambda>c. c \<noteq> 0) cs)"

fun seg_header :: "nat \<Rightarrow> bytes \<Rightarrow> u8" where
  "seg_header i [] = 0"
| "seg_header i (c # cs) = (if c \<noteq> 0 then push_bit i 1 else 0) OR seg_header (i + 1) cs"

text \<open>\<open>packs p s\<close>: \<open>p\<close> is a packed form of \<open>s\<close>.\<close>

inductive packs :: "bytes \<Rightarrow> bytes \<Rightarrow> bool" where
  packs_Nil: "packs [] []"
| packs_seg: "packs p s \<Longrightarrow> length seg = 8 \<Longrightarrow> nonzeros seg < 8 \<Longrightarrow>
    packs (p @ seg_header 0 seg # filter (\<lambda>c. c \<noteq> 0) seg) (s @ seg)"
| packs_run: "packs p s \<Longrightarrow> length run = 8 * m \<Longrightarrow> 0 < m \<Longrightarrow> m \<le> 256 \<Longrightarrow> packs (p @ [0xff, of_nat m - 1] @ run) (s @ run)"

inductive_cases packs_NilE: "packs [] s"

lemma nonzeros_simps [simp]: "nonzeros [] = 0" "nonzeros (c # cs) = (if c \<noteq> 0 then Suc (nonzeros cs) else nonzeros cs)"
  "nonzeros (a @ b) = nonzeros a + nonzeros b" "nonzeros (replicate n 0) = 0"
  by (simp_all add: nonzeros_def)

lemma nonzeros_le: "nonzeros cs \<le> length cs"
  by (simp add: nonzeros_def)

lemma bit_seg_header: "bit (seg_header i cs) k \<longleftrightarrow> i \<le> k \<and> k < i + length cs \<and> k < 8 \<and> cs ! (k - i) \<noteq> 0"
proof (induction cs arbitrary: i)
  case (Cons c cs)
  have "bit (push_bit i 1 :: u8) k \<longleftrightarrow> i = k \<and> k < 8" by (auto simp: bit_simps)
  then show ?case using Cons.IH [of "i + 1"] by (cases "k = i") (auto simp: bit_or_iff nth_Cons')
qed simp

lemma seg_header_not_ff:
  assumes "length seg = 8" "nonzeros seg < 8"
  shows "seg_header 0 seg \<noteq> 0xff"
proof
  assume ff: "seg_header 0 seg = 0xff"
  have "bit (0xff :: u8) k" if "k < 8" for k
  proof -
    have "(0xff :: u8) = mask 8" by (simp add: mask_eq_exp_minus_1)
    then show ?thesis using that by (simp only: bit_mask_iff) simp
  qed
  then have "seg ! k \<noteq> 0" if "k < 8" for k using bit_seg_header [of 0 seg k] that by (simp add: ff)
  then have "filter (\<lambda>c. c \<noteq> 0) seg = seg" using assms(1) by (auto simp: filter_id_conv in_set_conv_nth)
  then show False using assms by (simp add: nonzeros_def)
qed

section \<open>Unpacking a packed message\<close>

lemma put_byte_ok: "b < length d \<Longrightarrow> put_byte b c d = Some (take b d @ c # drop (Suc b) d)"
  by (simp add: put_byte_def upd_conv_take_nth_drop)

lemma unpack_bits_seg:
  assumes "\<And>j. j < length cs \<Longrightarrow> bit h (i + j) \<longleftrightarrow> cs ! j \<noteq> 0" "int (nonzeros cs) \<le> srcsz" "b + length cs \<le> length d"
  shows "unpack_bits (length cs) h i (filter (\<lambda>c. c \<noteq> 0) cs @ rest) srcsz b (int (length d) - int b) d =
    Some (Inr (rest, srcsz - int (nonzeros cs), b + length cs, int (length d) - int (b + length cs), take b d @ cs @ drop (b + length cs) d))"
  using assms
proof (induction cs arbitrary: i srcsz b d)
  case (Cons c cs)
  let ?d = "take b d @ c # drop (Suc b) d"
  have d: "put_byte b c d = Some ?d" "length ?d = length d" using Cons.prems(3) by (simp_all add: put_byte_ok)
  have tk: "take (Suc b) ?d = take b d @ [c]" "drop (Suc b + length cs) ?d = drop (Suc b + length cs) d"
    using Cons.prems(3) by (simp_all add: min_def add.commute)
  have bits: "\<And>j. j < length cs \<Longrightarrow> bit h (i + 1 + j) \<longleftrightarrow> cs ! j \<noteq> 0" using Cons.prems(1) [of "Suc j" for j] by simp
  have c: "bit h i \<longleftrightarrow> c \<noteq> 0" using Cons.prems(1) [of 0] by simp
  show ?case
  proof (cases "c = 0")
    case True
    then show ?thesis using Cons.IH [OF bits, of srcsz "Suc b" ?d] Cons.prems(2,3) c d tk by (simp add: algebra_simps)
  next
    case False
    then show ?thesis using Cons.IH [OF bits, of "srcsz - 1" "Suc b" ?d] Cons.prems(2,3) c d tk by (simp add: algebra_simps)
  qed
qed simp

lemma unpack_loop_seg:
  assumes "header \<noteq> 0xff" "0 < srcsz" "unpack_bits 8 header 0 rest (srcsz - 1) b bufsz d = Some (Inr (src', srcsz', b', bufsz', d'))"
  shows "unpack_loop (header # rest) srcsz b bufsz d n = unpack_loop src' srcsz' b' bufsz' d' (n + 8)"
  using assms by (subst unpack_loop.simps) simp

lemma unpack_loop_behind:
  assumes "header \<noteq> 0xff" "unpack_bits 8 header 0 [] 0 b bufsz d = None"
  shows "unpack_loop [header] 1 b bufsz d n = None"
  using assms by (subst unpack_loop.simps) simp

lemma unpack_loop_run:
  assumes "m = (unat c + 1) * 8" "m = length run" "bufsz \<ge> int m" "put_bytes b run d = Some d'"
  shows "unpack_loop (0xff # c # run @ rest) (int (length run + length rest) + 2) b bufsz d n =
    unpack_loop rest (int (length rest)) (b + m) (bufsz - int m) d' (n + m)"
proof -
  have pos: "\<not> int (length run + length rest) + 2 \<le> 0" by simp
  show ?thesis by (subst unpack_loop.simps, subst if_not_P [OF pos]) (use assms in \<open>simp add: Let_def\<close>)
qed

lemma unpack_packed:
  assumes "packs p s" "b + length s \<le> length d"
  shows "unpack_loop (p @ rest) (int (length (p @ rest))) b (int (length d) - int b) d n =
    unpack_loop rest (int (length rest)) (b + length s) (int (length d) - int (b + length s)) (take b d @ s @ drop (b + length s) d) (n + length s)"
  using assms
proof (induction arbitrary: rest)
  case packs_Nil
  then show ?case by simp
next
  case (packs_seg p s seg)
  let ?h = "seg_header 0 seg" and ?d = "take b d @ s @ drop (b + length s) d"
  let ?rest = "?h # filter (\<lambda>c. c \<noteq> 0) seg @ rest"
  have len: "length ?d = length d" using packs_seg.prems by simp
  have bits: "\<And>j. j < length seg \<Longrightarrow> bit ?h (0 + j) \<longleftrightarrow> seg ! j \<noteq> 0" using bit_seg_header [of 0 seg] packs_seg.hyps(2) by simp
  have "unpack_bits 8 ?h 0 (filter (\<lambda>c. c \<noteq> 0) seg @ rest) (int (length ?rest) - 1) (b + length s) (int (length d) - int (b + length s)) ?d =
    Some (Inr (rest, int (length rest), b + length s + 8, int (length d) - int (b + length s + 8), take b d @ s @ seg @ drop (b + length s + 8) d))"
    using unpack_bits_seg [OF bits, where srcsz = "int (length ?rest) - 1" and b = "b + length s" and d = ?d and rest = rest] packs_seg.prems packs_seg.hyps(2) len
    by (simp add: nonzeros_def) (simp add: add.commute)
  from unpack_loop_seg [OF seg_header_not_ff [OF packs_seg.hyps(2,3)] _ this]
  show ?case using packs_seg.IH [of ?rest] packs_seg.prems packs_seg.hyps(2) by (simp add: ac_simps)
next
  case (packs_run p s run m)
  let ?d = "take b d @ s @ drop (b + length s) d"
  let ?rest = "0xff # (of_nat m - 1) # run @ rest"
  have len: "length ?d = length d" using packs_run.prems by simp
  have m: "(unat (of_nat m - 1 :: u8) + 1) * 8 = length run"
  proof -
    have eq: "(of_nat m - 1 :: u8) = of_nat (m - 1)" using packs_run.hyps(3) by (simp add: of_nat_diff)
    have "unat (of_nat m - 1 :: u8) = (m - 1) mod 2 ^ 8" unfolding eq by (simp only: unat_of_nat) simp
    then show ?thesis using packs_run.hyps(2-4) by simp
  qed
  have put: "put_bytes (b + length s) run ?d = Some (take b d @ s @ run @ drop (b + length s + length run) d)"
    using packs_run.prems len by (auto simp: put_bytes_def min_def ac_simps)
  from unpack_loop_run [OF m [symmetric] refl _ put]
  show ?case using packs_run.IH [of ?rest] packs_run.prems by (simp add: ac_simps diff_diff_eq)
qed

section \<open>What the packer writes\<close>

lemma take_shorter: "take n a = take n b \<Longrightarrow> m \<le> n \<Longrightarrow> take m a = take m b"
  by (metis min.absorb1 take_take)

lemma pack_bytes_ok:
  assumes "0 < sz \<longrightarrow> sz = int (length d) - int b"
  shows "\<exists>d'. pack_bytes i cs nz h b sz d = Some (nz + nonzeros cs, h OR seg_header i cs, d') \<and> length d' = length d \<and>
    take b d' = take b d \<and>
    (int (nonzeros cs) \<le> sz \<longrightarrow> take (b + nonzeros cs) d' = take b d @ filter (\<lambda>c. c \<noteq> 0) cs)"
  using assms
proof (induction cs arbitrary: i nz h b sz d)
  case Nil
  then show ?case by simp
next
  case (Cons c cs)
  show ?case
  proof (cases "c = 0 \<or> \<not> 0 < sz")
    case True
    define h' where "h' = (if c = 0 then h else h OR push_bit i 1)"
    define nz' where "nz' = (if c = 0 then nz else nz + 1)"
    have "pack_bytes i (c # cs) nz h b sz d = pack_bytes (i + 1) cs nz' h' b sz d" using True by (auto simp: h'_def nz'_def Let_def)
    with Cons.IH [OF Cons.prems, of "i + 1" nz' h'] show ?thesis using True by (auto simp: h'_def nz'_def or.assoc)
  next
    case False
    let ?d = "take b d @ c # drop (Suc b) d"
    have b: "b < length d" and sz: "sz = int (length d) - int b" using False Cons.prems by auto
    have "0 < sz - 1 \<longrightarrow> sz - 1 = int (length ?d) - int (b + 1)" using b sz by simp
    from Cons.IH [OF this, of "i + 1" "nz + 1" "h OR push_bit i 1"] obtain d' where
      d': "pack_bytes (i + 1) cs (nz + 1) (h OR push_bit i 1) (b + 1) (sz - 1) ?d = Some (nz + 1 + nonzeros cs, (h OR push_bit i 1) OR seg_header (i + 1) cs, d')"
        "length d' = length ?d" "take (b + 1) d' = take (b + 1) ?d"
        "int (nonzeros cs) \<le> sz - 1 \<longrightarrow> take (b + 1 + nonzeros cs) d' = take (b + 1) ?d @ filter (\<lambda>c. c \<noteq> 0) cs"
      by blast
    have tk: "take (b + 1) ?d = take b d @ [c]" using b by (simp add: min_def)
    have "take b d' = take b ?d" using d'(3) by (rule take_shorter) simp
    then have "take b d' = take b d" using b by (simp add: min_def)
    then show ?thesis using d' False b tk by (simp add: put_byte_ok or.assoc)
  qed
qed

text \<open>A group continues a run, or starts one, or is packed alone.\<close>

definition in_run :: "nat \<Rightarrow> bytes \<Rightarrow> bool" where
  "in_run m seg \<longleftrightarrow> nonzeros seg = 8 \<or> 0 < m \<and> 6 \<le> nonzeros seg"

definition seg_size :: "nat \<Rightarrow> bytes \<Rightarrow> nat" where
  "seg_size m seg = (if in_run m seg then (if 0 < m then 8 else 10) else nonzeros seg + 1)"

lemma pack_seg_ok:
  assumes "length seg = 8" "sz = int (length d) - int b"
  shows "\<exists>d'. pack_seg seg b sz m d = Some (seg_size m seg, d') \<and> length d' = length d \<and> take b d' = take b d \<and>
    (\<not> in_run m seg \<longrightarrow> int (seg_size m seg) \<le> sz \<longrightarrow>
      take (b + seg_size m seg) d' = take b d @ seg_header 0 seg # filter (\<lambda>c. c \<noteq> 0) seg)"
proof -
  have le: "nonzeros seg \<le> 8" using nonzeros_le [of seg] assms(1) by simp
  have "0 < sz - 1 \<longrightarrow> sz - 1 = int (length d) - int (b + 1)" using assms(2) by simp
  from pack_bytes_ok [OF this, of 0 seg 0 0] obtain d1 where
    d1: "pack_bytes 0 seg 0 0 (b + 1) (sz - 1) d = Some (nonzeros seg, seg_header 0 seg, d1)" "length d1 = length d"
      "take (b + 1) d1 = take (b + 1) d"
      "int (nonzeros seg) \<le> sz - 1 \<longrightarrow> take (b + 1 + nonzeros seg) d1 = take (b + 1) d @ filter (\<lambda>c. c \<noteq> 0) seg"
    by auto
  have tk: "take b d1 = take b d" using d1(3) by (rule take_shorter) simp
  consider (run) "in_run m seg" | (alone) "\<not> in_run m seg" "sz - 1 < 0" | (put) "\<not> in_run m seg" "0 \<le> sz - 1" by linarith
  then show ?thesis
  proof cases
    case run
    then show ?thesis using d1 tk le by (auto simp: pack_seg_def seg_size_def in_run_def Let_def)
  next
    case alone
    then show ?thesis using d1 tk le by (auto simp: pack_seg_def seg_size_def in_run_def Let_def)
  next
    case put
    have b: "b < length d1" using put assms(2) d1(2) by simp
    let ?d = "take b d1 @ seg_header 0 seg # drop (Suc b) d1"
    have res: "pack_seg seg b sz m d = Some (seg_size m seg, ?d)"
      using put d1(1) le b by (auto simp: pack_seg_def seg_size_def in_run_def put_byte_ok Let_def)
    moreover have "take (b + seg_size m seg) ?d = take b d @ seg_header 0 seg # filter (\<lambda>c. c \<noteq> 0) seg" if "int (seg_size m seg) \<le> sz"
    proof -
      have "take (nonzeros seg) (drop (Suc b) d1) = drop (Suc b) (take (b + 1 + nonzeros seg) d1)" by (simp add: drop_take)
      also have "\<dots> = filter (\<lambda>c. c \<noteq> 0) seg" using d1(2,4) that put(1) b by (simp add: seg_size_def)
      finally show ?thesis using b d1(2) tk put(1) by (simp add: seg_size_def min_def)
    qed
    ultimately show ?thesis using tk d1(2) b by (auto simp: min_def)
  qed
qed

lemma write_ff_ok:
  assumes "length xs \<le> 8 * m" "8 * m < length xs + 8" "des + 2 + 8 * m \<le> length d"
  shows "\<exists>d'. write_ff xs des d = Some d' \<and> length d' = length d \<and>
    d' = take des d @ [0xff, of_nat m - 1] @ xs @ replicate (8 * m - length xs) 0 @ drop (des + 2 + 8 * m) d"
proof -
  have "(length xs + 7) div 8 = m" using assms(1,2) by linarith
  then have a: "align8 (length xs) = 8 * m" by (simp add: align8_def)
  show ?thesis using assms by (auto simp: write_ff_def a put_bytes_def min_def Let_def)
qed

section \<open>Packing a whole message\<close>

definition padded :: "bytes \<Rightarrow> bytes" where
  "padded src = src @ replicate (align8 (length src) - length src) 0"

definition group :: "bytes \<Rightarrow> nat \<Rightarrow> bytes" where
  "group src i = take 8 (drop i (padded src))"

lemma align8_bounds: "n \<le> align8 n" "align8 n < n + 8" "align8 n mod 8 = 0"
  by (unfold align8_def; presburger)+

lemma length_padded: "length (padded src) = align8 (length src)"
  using align8_bounds(1) [of "length src"] by (simp add: padded_def)

lemma group_in_range:
  assumes "i mod 8 = 0" "i < length src"
  shows "i + 8 \<le> length (padded src)" "length (group src i) = 8" "take (i + 8) (padded src) = take i (padded src) @ group src i"
proof -
  obtain k where k: "i = 8 * k" using assms(1) by auto
  obtain a where a: "align8 (length src) = 8 * a" by (auto simp: align8_def)
  have "k < a" using assms(2) align8_bounds(1) [of "length src"] k a by linarith
  then show len: "i + 8 \<le> length (padded src)" by (simp add: length_padded k a)
  then show "length (group src i) = 8" by (simp add: group_def)
  show "take (i + 8) (padded src) = take i (padded src) @ group src i" by (simp add: group_def take_add)
qed

lemma group_full: "i + 8 \<le> length src \<Longrightarrow> group src i = take 8 (drop i src)"
  by (simp add: group_def padded_def)

lemma group_last:
  assumes "i mod 8 = 0" "i < length src" "length src < i + 8"
  shows "group src i = drop i src @ replicate (i + 8 - length src) 0" "nonzeros (group src i) < 8"
proof -
  obtain k where k: "i = 8 * k" using assms(1) by auto
  obtain a where a: "align8 (length src) = 8 * a" using align8_bounds(3) [of "length src"] by auto
  have "8 * k < 8 * a" "8 * a < 8 * k + 16"
    using align8_bounds(1,2) [of "length src"] assms(2,3) unfolding a k by linarith+
  then have "a = Suc k" by linarith
  then have "align8 (length src) = i + 8" by (simp add: a k)
  then show g: "group src i = drop i src @ replicate (i + 8 - length src) 0" using assms by (simp add: group_def padded_def)
  show "nonzeros (group src i) < 8" using nonzeros_le [of "drop i src"] assms by (simp add: g)
qed

definition pack_inv :: "bytes \<Rightarrow> nat \<Rightarrow> nat \<Rightarrow> pack_state \<Rightarrow> bool" where
  "pack_inv src cap i st \<longleftrightarrow> i mod 8 = 0 \<and> length (ps_dest st) = cap \<and> ps_bufsz st = int cap - int (ps_buffer st) \<and> ps_ff_n st \<le> 255 \<and>
     (if ps_ff_n st = 0 then 0 \<le> ps_bufsz st \<longrightarrow> packs (take (ps_buffer st) (ps_dest st)) (take i (padded src))
      else 8 * ps_ff_n st \<le> i \<and> (ps_ff_n st = 1 \<longrightarrow> i \<le> length src) \<and> ps_ff_src st = In_Src (i - 8 * ps_ff_n st) \<and> ps_buffer st = ps_ff_des st + 2 + 8 * ps_ff_n st \<and>
        (0 \<le> ps_bufsz st \<longrightarrow> packs (take (ps_ff_des st) (ps_dest st)) (take (i - 8 * ps_ff_n st) (padded src))))"

text \<open>Writing a run of \<open>m\<close> groups that begins at \<open>o\<close>.\<close>

lemma flush_ok:
  assumes "ps_ff_src st = In_Src k" "k + n \<le> length src" "n \<le> 8 * m" "8 * m < n + 8" "take (8 * m) (drop k (padded src)) = take n (drop k src) @ replicate (8 * m - n) 0"
    and "0 < m" "m \<le> 256" "k + 8 * m \<le> length (padded src)" "0 \<le> ps_bufsz st" "ps_ff_des st + 2 + 8 * m \<le> length d"
    and "packs (take (ps_ff_des st) d) (take k (padded src))"
  shows "\<exists>d'. flush_ff src n st d = Some d' \<and> length d' = length d \<and> drop (ps_ff_des st + 2 + 8 * m) d' = drop (ps_ff_des st + 2 + 8 * m) d \<and>
    packs (take (ps_ff_des st + 2 + 8 * m) d') (take (k + 8 * m) (padded src))"
proof -
  let ?xs = "take n (drop k src)" and ?run = "take (8 * m) (drop k (padded src))"
  have len: "length ?xs = n" using assms(2) by simp
  obtain d' where d': "write_ff ?xs (ps_ff_des st) d = Some d'" "length d' = length d"
    "d' = take (ps_ff_des st) d @ [0xff, of_nat m - 1] @ ?run @ drop (ps_ff_des st + 2 + 8 * m) d"
    using write_ff_ok [of ?xs m "ps_ff_des st" d] assms(3-5,10) len by auto
  have run: "length ?run = 8 * m" using assms(8) by simp
  have "packs (take (ps_ff_des st) d @ [0xff, of_nat m - 1] @ ?run) (take k (padded src) @ ?run)"
    using packs_run [OF assms(11) run assms(6,7)] .
  moreover have "take (ps_ff_des st + 2 + 8 * m) d' = take (ps_ff_des st) d @ [0xff, of_nat m - 1] @ ?run"
    "drop (ps_ff_des st + 2 + 8 * m) d' = drop (ps_ff_des st + 2 + 8 * m) d"
    using assms(10) run unfolding d'(3) by (simp_all add: min_def)
  ultimately show ?thesis using d'(1,2) assms(1,2,9) by (simp add: flush_ff_def read_ptr_def take_add)
qed

lemma packs_alone:
  assumes "packs p (take i (padded src))" "i mod 8 = 0" "i < length src" "nonzeros (group src i) < 8"
  shows "packs (p @ seg_header 0 (group src i) # filter (\<lambda>c. c \<noteq> 0) (group src i)) (take (i + 8) (padded src))"
  using packs_seg [OF assms(1) group_in_range(2) [OF assms(2,3)] assms(4)] group_in_range(3) [OF assms(2,3)] by simp

lemma pack_step_ok:
  assumes inv: "pack_inv src cap i st" and i: "i < length src"
  shows "pack_step src i st = None \<Longrightarrow> length src < i + 8 \<and> ps_ff_n st = 255 \<and> in_run 255 (group src i)"
    and "pack_step src i st = Some st' \<Longrightarrow> pack_inv src cap (i + 8) st' \<and>
      ps_buffer st' = ps_buffer st + seg_size (ps_ff_n st) (group src i) \<and>
      ps_ff_n st' = (if in_run (ps_ff_n st) (group src i) \<and> ps_ff_n st < 255 then ps_ff_n st + 1 else 0)"
    and "ps_ff_n st = 255 \<Longrightarrow> in_run 255 (group src i) \<Longrightarrow> length src < i + 8 \<Longrightarrow> 8 \<le> ps_bufsz st \<Longrightarrow> pack_step src i st = None"
proof -
  let ?seg = "group src i" and ?m = "ps_ff_n st" and ?b = "ps_buffer st" and ?d = "ps_dest st"
  let ?n = "seg_size ?m ?seg"
  let ?p = "if length src < i + 8 then In_Tmp else In_Src i"
  have i8: "i mod 8 = 0" and len: "length ?d = cap" and sz: "ps_bufsz st = int cap - int ?b" and m: "?m \<le> 255"
    using inv by (simp_all add: pack_inv_def)
  have i8': "(i + 8) mod 8 = 0" using i8 by simp
  note g = group_in_range [OF i8 i]
  obtain d where d: "pack_seg ?seg ?b (ps_bufsz st) ?m ?d = Some (?n, d)" "length d = cap" "take ?b d = take ?b ?d"
    "\<not> in_run ?m ?seg \<longrightarrow> int ?n \<le> ps_bufsz st \<longrightarrow> take (?b + ?n) d = take ?b ?d @ seg_header 0 ?seg # filter (\<lambda>c. c \<noteq> 0) ?seg"
    using pack_seg_ok [OF g(2), of "ps_bufsz st" ?d ?b ?m] sz len by auto
  have seg: "(if length src < i + 8 then (In_Tmp, drop i src @ replicate (i + 8 - length src) 0) else (In_Src i, take 8 (drop i src))) = (?p, ?seg)"
    using group_full [of i src] group_last(1) [OF i8 i] by auto
  have step: "pack_step src i st =
      (let st1 = st\<lparr>ps_bufsz := ps_bufsz st - int ?n\<rparr>; st2 = st1\<lparr>ps_buffer := ?b + ?n\<rparr> in
       if ?n = 10 then Some (st2\<lparr>ps_dest := d, ps_ff_src := ?p, ps_ff_des := ?b, ps_ff_n := 1\<rparr>)
       else if ?n = 8 \<and> ?m > 0 then
         (if ?m + 1 = 256 then map_option (\<lambda>d'. st2\<lparr>ps_dest := d', ps_ff_n := 0\<rparr>) (flush_ff src (256 * 8) st1 d)
          else Some (st2\<lparr>ps_dest := d, ps_ff_n := ?m + 1\<rparr>))
       else if ?m > 0 then map_option (\<lambda>d'. st2\<lparr>ps_dest := d', ps_ff_n := 0\<rparr>) (flush_ff src (?m * 8) st1 d)
       else Some (st2\<lparr>ps_dest := d\<rparr>))"
    using d(1) seg by (simp add: pack_step_def Let_def)
  have nz: "nonzeros ?seg \<le> 8" using nonzeros_le [of ?seg] g(2) by simp
  have cut: "take k d = take k ?d" if "k \<le> ?b" for k using d(3) that by (rule take_shorter)
  let ?bz = "ps_bufsz st - int ?n"
  have run0: "packs (take ?b d) (take i (padded src))" if "?m = 0" "0 \<le> ps_bufsz st"
    using inv that cut [of ?b] by (simp add: pack_inv_def)
  let ?k = "i - 8 * ?m" and ?f = "ps_ff_des st"
  have runm: "8 * ?m \<le> i" "ps_ff_src st = In_Src ?k" "?b = ?f + 2 + 8 * ?m" if "?m > 0"
    using inv that by (simp_all add: pack_inv_def split: if_splits)
  have runp: "packs (take ?f d) (take ?k (padded src))" if "?m > 0" "0 \<le> ps_bufsz st"
    using inv that cut [of ?f] runm(3) by (simp add: pack_inv_def)
  have main: "(pack_step src i st = None \<longrightarrow> length src < i + 8 \<and> ?m = 255 \<and> in_run 255 ?seg) \<and>
    (\<forall>st'. pack_step src i st = Some st' \<longrightarrow> pack_inv src cap (i + 8) st' \<and> ps_buffer st' = ?b + ?n \<and>
      ps_ff_n st' = (if in_run ?m ?seg \<and> ?m < 255 then ?m + 1 else 0)) \<and>
    (?m = 255 \<longrightarrow> in_run 255 ?seg \<longrightarrow> length src < i + 8 \<longrightarrow> 8 \<le> ps_bufsz st \<longrightarrow> pack_step src i st = None)"
  proof -
    consider (start) "in_run ?m ?seg" "?m = 0" | (cont) "in_run ?m ?seg" "0 < ?m" "?m < 255" | (full) "in_run ?m ?seg" "?m = 255"
      | (brk) "\<not> in_run ?m ?seg" "0 < ?m" | (alone) "\<not> in_run ?m ?seg" "?m = 0" using m by linarith
    then show ?thesis
    proof cases
      case start
      then have n: "?n = 10" "nonzeros ?seg = 8" by (simp_all add: seg_size_def in_run_def)
      then have "\<not> length src < i + 8" using group_last(2) [OF i8 i] by auto
      moreover have "0 \<le> ps_bufsz st - 10 \<longrightarrow> packs (take ?b d) (take i (padded src))" using run0 start(2) by simp
      ultimately show ?thesis using n start d(2) sz i8' by (simp add: step pack_inv_def Let_def)
    next
      case cont
      then have n: "?n = 8" by (simp add: seg_size_def)
      have "i + 8 - 8 * (?m + 1) = ?k" "8 * (?m + 1) \<le> i + 8" using runm(1) cont(2) by simp_all
      moreover have "0 \<le> ps_bufsz st - 8 \<longrightarrow> packs (take ?f d) (take ?k (padded src))" using runp cont(2) by simp
      ultimately show ?thesis using n cont d(2) sz i8' runm by (simp add: step pack_inv_def Let_def)
    next
      case full
      then have n: "?n = 8" by (simp add: seg_size_def)
      have k: "?k + 2048 = i + 8" "?f + 2 + 2048 = ?b + 8" using runm(1,3) full(2) by simp_all
      have drop: "take 2048 (drop ?k (padded src)) = take 2048 (drop ?k src)" if "i + 8 \<le> length src"
        using that k(1) by (simp add: padded_def)
      let ?st1 = "st\<lparr>ps_bufsz := ?bz\<rparr>"
      have flush: "\<exists>d'. flush_ff src 2048 ?st1 d = Some d' \<and> length d' = cap \<and> packs (take (?b + 8) d') (take (i + 8) (padded src))"
        if room: "i + 8 \<le> length src" "0 \<le> ?bz"
      proof -
        obtain d' where "flush_ff src 2048 ?st1 d = Some d'" "length d' = cap" "packs (take (?f + 2 + 8 * 256) d') (take (?k + 8 * 256) (padded src))"
          using flush_ok [of ?st1 ?k 2048 src 256 d] runm(2) k drop [OF room(1)] room g(1) sz n d(2) runp full(2) by auto
        moreover have "?f + 2 + 8 * 256 = ?b + 8" "?k + 8 * 256 = i + 8" using k by simp_all
        ultimately show ?thesis by metis
      qed
      have "flush_ff src 2048 ?st1 d = None" if "length src < i + 8" "0 \<le> ?bz"
        using that runm(2) k(1) full(2) by (simp add: flush_ff_def read_ptr_def)
      moreover have "flush_ff src 2048 ?st1 d = Some d" if "\<not> 0 \<le> ?bz" using that by (simp add: flush_ff_def)
      ultimately show ?thesis using n full d(2) sz i8' flush
        by (cases "0 \<le> ?bz"; cases "length src < i + 8") (auto simp: step pack_inv_def Let_def)
    next
      case brk
      then have n: "?n = nonzeros ?seg + 1" "?n \<noteq> 10" "?n \<noteq> 8" "nonzeros ?seg < 8" using nz by (auto simp: seg_size_def in_run_def)
      have k: "?k + 8 * ?m = i" "?f + 2 + 8 * ?m = ?b" using runm(1,3) brk(2) by simp_all
      have drop: "take (8 * ?m) (drop ?k (padded src)) = take (8 * ?m) (drop ?k src)"
        using i k(1) by (simp add: padded_def)
      let ?st1 = "st\<lparr>ps_bufsz := ?bz\<rparr>"
      have flush: "\<exists>d'. flush_ff src (?m * 8) ?st1 d = Some d' \<and> length d' = cap \<and> packs (take (?b + ?n) d') (take (i + 8) (padded src))"
        if room: "0 \<le> ?bz"
      proof -
        obtain d' where d': "flush_ff src (8 * ?m) ?st1 d = Some d'" "length d' = cap" "drop ?b d' = drop ?b d"
          "packs (take ?b d') (take i (padded src))"
          using flush_ok [of ?st1 ?k "8 * ?m" src ?m d] runm(2) k drop room g(1) i sz m brk(2) d(2) runp by auto
        have "take (?b + ?n) d' = take ?b d' @ take ?n (drop ?b d)" using d'(3) by (simp add: take_add)
        also have "take ?n (drop ?b d) = drop ?b (take (?b + ?n) d)" by (simp add: drop_take)
        also have "\<dots> = seg_header 0 ?seg # filter (\<lambda>c. c \<noteq> 0) ?seg" using d(4) brk(1) room sz len by simp
        finally show ?thesis using packs_alone [OF d'(4) i8 i n(4)] d'(1,2) by (simp add: mult.commute)
      qed
      moreover have "flush_ff src (?m * 8) ?st1 d = Some d" if "\<not> 0 \<le> ?bz" using that by (simp add: flush_ff_def)
      ultimately show ?thesis using n brk d(2) sz i8'
        by (cases "0 \<le> ?bz") (auto simp: step pack_inv_def Let_def)
    next
      case alone
      then have n: "?n \<noteq> 10" "nonzeros ?seg < 8" using nz by (auto simp: seg_size_def in_run_def)
      have "packs (take (?b + ?n) d) (take (i + 8) (padded src))" if "0 \<le> ?bz"
        using packs_alone [OF run0 i8 i n(2)] alone that d(4) cut [of ?b] by simp
      then show ?thesis using n alone d(2) sz i8' by (auto simp: step pack_inv_def Let_def)
    qed
  qed
  show "pack_step src i st = None \<Longrightarrow> length src < i + 8 \<and> ?m = 255 \<and> in_run 255 ?seg"
    and "pack_step src i st = Some st' \<Longrightarrow> pack_inv src cap (i + 8) st' \<and> ps_buffer st' = ?b + ?n \<and>
      ps_ff_n st' = (if in_run ?m ?seg \<and> ?m < 255 then ?m + 1 else 0)"
    and "?m = 255 \<Longrightarrow> in_run 255 ?seg \<Longrightarrow> length src < i + 8 \<Longrightarrow> 8 \<le> ps_bufsz st \<Longrightarrow> pack_step src i st = None" using main by (blast, blast, blast)
qed

lemma pack_loop_ok:
  assumes "pack_inv src cap i st" "i < length src + 8" "pack_loop src i st = Some st'"
  shows "\<exists>j. length src \<le> j \<and> j < length src + 8 \<and> pack_inv src cap j st'"
  using assms
proof (induction src i st rule: pack_loop.induct)
  case (1 src i st)
  show ?case
  proof (cases "i < length src")
    case True
    then obtain st1 where st1: "pack_step src i st = Some st1" "pack_loop src (i + 8) st1 = Some st'"
      using "1.prems"(3) by (subst (asm) pack_loop.simps) (auto split: bind_splits)
    have "pack_inv src cap (i + 8) st1" using pack_step_ok(2) [OF "1.prems"(1) True st1(1)] by simp
    from "1.IH" [OF True st1(1) this _ st1(2)] True show ?thesis by simp
  next
    case False
    then show ?thesis using "1.prems" by (subst (asm) pack_loop.simps) (auto intro!: exI [of _ i])
  qed
qed

text \<open>
  The packer leaves its source only when a run gets its last group from a last, shorter group, of which at least
  six bytes must be there.
\<close>

definition safe_length :: "nat \<Rightarrow> bool" where
  "safe_length n \<longleftrightarrow> n mod 8 < 6 \<or> n < 2046"

lemma pack_step_total:
  assumes "pack_inv src cap i st" "i < length src" "safe_length (length src)"
  shows "pack_step src i st \<noteq> None"
proof
  assume "pack_step src i st = None"
  then have last: "length src < i + 8" "ps_ff_n st = 255" "in_run 255 (group src i)" using pack_step_ok(1) [OF assms(1,2)] by simp_all
  have i: "i mod 8 = 0" "2040 \<le> i" using assms(1) last(2) by (simp_all add: pack_inv_def)
  have "6 \<le> nonzeros (group src i)" using last(3) by (auto simp: in_run_def)
  then have "6 \<le> length src - i" using nonzeros_le [of "drop i src"] group_last(1) [OF i(1) assms(2) last(1)] by simp
  moreover from this last(1) obtain j where j: "length src = i + j" "6 \<le> j" "j < 8" using that [of "length src - i"] by linarith
  moreover have "length src mod 8 = j" using i(1) j by (simp add: mod_add_eq [symmetric, of i])
  ultimately show False using assms(3) i(2) unfolding safe_length_def by linarith
qed

lemma pack_loop_total:
  assumes "pack_inv src cap i st" "safe_length (length src)"
  shows "pack_loop src i st \<noteq> None"
  using assms
proof (induction src i st rule: pack_loop.induct)
  case (1 src i st)
  show ?case
  proof (cases "i < length src")
    case True
    then obtain st1 where st1: "pack_step src i st = Some st1" using pack_step_total [OF "1.prems"(1) True "1.prems"(2)] by blast
    then show ?thesis using "1.IH" [OF True st1] pack_step_ok(2) [OF "1.prems"(1) True st1] "1.prems"(2)
      by (subst pack_loop.simps) (simp add: True)
  next
    case False
    then show ?thesis by (subst pack_loop.simps) simp
  qed
qed

section \<open>The size of a packed message\<close>

definition pack_bound :: "nat \<Rightarrow> nat" where
  "pack_bound n = (n + 2047) div 2048 * 2 + n + 2"

definition size_inv :: "nat \<Rightarrow> pack_state \<Rightarrow> bool" where
  "size_inv i st \<longleftrightarrow> (\<exists>q. ps_buffer st \<le> i + 2 * q + (if 0 < ps_ff_n st then 2 else 0) \<and> 2048 * q + 8 * ps_ff_n st \<le> i)"

lemma size_step:
  assumes "pack_inv src cap i st" "i < length src" "pack_step src i st = Some st'" "size_inv i st"
  shows "if i + 8 \<le> length src then size_inv (i + 8) st' else ps_buffer st' \<le> pack_bound (length src)"
proof -
  let ?seg = "group src i" and ?m = "ps_ff_n st"
  have st': "ps_buffer st' = ps_buffer st + seg_size ?m ?seg" "ps_ff_n st' = (if in_run ?m ?seg \<and> ?m < 255 then ?m + 1 else 0)"
    using pack_step_ok(2) [OF assms(1-3)] by simp_all
  obtain q where q: "ps_buffer st \<le> i + 2 * q + (if 0 < ?m then 2 else 0)" "2048 * q + 8 * ?m \<le> i" using assms(4) by (auto simp: size_inv_def)
  have i: "i mod 8 = 0" "?m \<le> 255" using assms(1) by (simp_all add: pack_inv_def)
  have nz: "nonzeros ?seg \<le> 8" "length src < i + 8 \<Longrightarrow> nonzeros ?seg \<le> length src - i"
    using nonzeros_le [of ?seg] group_in_range(2) [OF i(1) assms(2)] group_last(1) [OF i(1) assms(2)] nonzeros_le [of "drop i src"] by simp_all
  show ?thesis
  proof (cases "i + 8 \<le> length src")
    case True
    have "size_inv (i + 8) st'"
      unfolding size_inv_def st'
    proof (cases "in_run ?m ?seg \<and> ?m = 255")
      case full: True
      then show "\<exists>q. ps_buffer st + seg_size ?m ?seg \<le> i + 8 + 2 * q + (if 0 < (if in_run ?m ?seg \<and> ?m < 255 then ?m + 1 else 0) then 2 else 0) \<and>
          2048 * q + 8 * (if in_run ?m ?seg \<and> ?m < 255 then ?m + 1 else 0) \<le> i + 8"
        using q by (intro exI [of _ "q + 1"]) (auto simp: seg_size_def)
    next
      case False
      then show "\<exists>q. ps_buffer st + seg_size ?m ?seg \<le> i + 8 + 2 * q + (if 0 < (if in_run ?m ?seg \<and> ?m < 255 then ?m + 1 else 0) then 2 else 0) \<and>
          2048 * q + 8 * (if in_run ?m ?seg \<and> ?m < 255 then ?m + 1 else 0) \<le> i + 8"
        using q i(2) nz(1) by (intro exI [of _ q]) (auto simp: seg_size_def in_run_def)
    qed
    then show ?thesis using True by simp
  next
    case False
    then have r: "nonzeros ?seg \<le> length src - i" "length src < i + 8" using nz(2) by simp_all
    have "seg_size ?m ?seg \<le> length src - i + (if 0 < ?m then 2 else 1)"
      using r nz(1) by (auto simp: seg_size_def in_run_def)
    then have "ps_buffer st' \<le> length src + 2 * q + (if 0 < ?m then 4 else 1)" using q(1) assms(2) by (auto simp: st' split: if_splits)
    moreover have "q + 1 \<le> (length src + 2047) div 2048" using q(2) assms(2) by linarith
    ultimately show ?thesis using False by (simp add: pack_bound_def split: if_splits)
  qed
qed

lemma loop_size:
  assumes "pack_inv src cap i st" "size_inv i st" "i \<le> length src" "pack_loop src i st = Some st'"
  shows "ps_buffer st' \<le> pack_bound (length src)"
  using assms
proof (induction src i st rule: pack_loop.induct)
  case (1 src i st)
  show ?case
  proof (cases "i < length src")
    case True
    then obtain st1 where st1: "pack_step src i st = Some st1" "pack_loop src (i + 8) st1 = Some st'"
      using "1.prems"(4) by (subst (asm) pack_loop.simps) (auto split: bind_splits)
    note size = size_step [OF "1.prems"(1) True st1(1) "1.prems"(2)]
    show ?thesis
    proof (cases "i + 8 \<le> length src")
      case fits: True
      then show ?thesis using "1.IH" [OF True st1(1) _ _ fits st1(2)] pack_step_ok(2) [OF "1.prems"(1) True st1(1)] size by simp
    next
      case False
      then have "st' = st1" using st1(2) by (subst (asm) pack_loop.simps) simp
      then show ?thesis using size False by simp
    qed
  next
    case False
    then have "st' = st" "i = length src" using "1.prems"(3,4) by (subst (asm) pack_loop.simps, simp)+
    moreover obtain q where "ps_buffer st \<le> i + 2 * q + (if 0 < ps_ff_n st then 2 else 0)" "2048 * q + 8 * ps_ff_n st \<le> i"
      using "1.prems"(2) by (auto simp: size_inv_def)
    moreover from this(2) have "q \<le> (i + 2047) div 2048" by linarith
    ultimately show ?thesis by (simp add: pack_bound_def split: if_splits)
  qed
qed

section \<open>Round trip\<close>

definition pack_init :: "bytes \<Rightarrow> pack_state" where
  "pack_init d = \<lparr>ps_dest = d, ps_buffer = 0, ps_bufsz = int (length d), ps_ff_src = In_Tmp, ps_ff_des = 0, ps_ff_n = 0\<rparr>"

lemma pack_init_inv [simp]: "pack_inv src (length d) 0 (pack_init d)" "size_inv 0 (pack_init d)"
  by (simp_all add: pack_inv_def size_inv_def pack_init_def packs_Nil)

definition pack_end :: "bytes \<Rightarrow> pack_state \<Rightarrow> bytes option" where
  "pack_end src st = (if ps_ff_n st = 1 then flush_ff src 8 st (ps_dest st)
     else if ps_ff_n st > 1 then flush_ff src (case ps_ff_src st of In_Src k \<Rightarrow> length src - k | In_Tmp \<Rightarrow> 0) st (ps_dest st)
     else Some (ps_dest st))"

lemma sproto_pack_alt: "sproto_pack src d = Option.bind (pack_loop src 0 (pack_init d)) (\<lambda>st. map_option (Pair (ps_buffer st)) (pack_end src st))"
proof -
  have "Option.bind x (\<lambda>d'. Some (n, d')) = map_option (Pair n) x" for x :: "bytes option" and n :: nat by (cases x) simp_all
  then show ?thesis unfolding sproto_pack_def pack_end_def pack_init_def by simp
qed

lemma pack_end_ok:
  assumes "pack_inv src cap j st" "length src \<le> j" "j < length src + 8"
  shows "\<exists>d. pack_end src st = Some d \<and> length d = cap \<and> (0 \<le> ps_bufsz st \<longrightarrow> packs (take (ps_buffer st) d) (padded src))"
proof -
  let ?m = "ps_ff_n st"
  have "j mod 8 = 0" using assms(1) by (simp add: pack_inv_def)
  then have "j = align8 (length src)" using assms(2,3) align8_bounds [of "length src"] by presburger
  then have j: "take j (padded src) = padded src" "j = length (padded src)" by (simp_all add: length_padded)
  show ?thesis
  proof (cases "?m = 0")
    case True
    then show ?thesis using assms(1) j(1) by (simp add: pack_end_def pack_inv_def)
  next
    case False
    let ?k = "j - 8 * ?m" and ?f = "ps_ff_des st" and ?d = "ps_dest st"
    have inv: "8 * ?m \<le> j" "ps_ff_src st = In_Src ?k" "ps_buffer st = ?f + 2 + 8 * ?m" "?m \<le> 255" "length ?d = cap"
      "0 \<le> ps_bufsz st \<longrightarrow> packs (take ?f ?d) (take ?k (padded src))" "ps_bufsz st = int cap - int (ps_buffer st)"
      using assms(1) False by (simp_all add: pack_inv_def)
    let ?n = "if ?m = 1 then 8 else length src - ?k"
    have one: "?m = 1 \<Longrightarrow> j = length src" using assms(1,2) by (simp add: pack_inv_def)
    have k: "?k + 8 * ?m = j" "?k \<le> length src" using inv(1) False assms(3) by simp_all
    have n: "?k + ?n \<le> length src" "?n \<le> 8 * ?m" "8 * ?m < ?n + 8" using one k assms(2,3) False by auto
    have "drop ?k (padded src) = drop ?k src @ replicate (j - length src) 0"
      using k(2) j(2) by (simp add: padded_def)
    then have run: "take (8 * ?m) (drop ?k (padded src)) = take ?n (drop ?k src) @ replicate (8 * ?m - ?n) 0"
      using one k assms(2) False by auto
    have eq: "pack_end src st = flush_ff src ?n st ?d" using False inv(2) by (auto simp: pack_end_def)
    show ?thesis
    proof (cases "0 \<le> ps_bufsz st")
      case True
      have "?k + 8 * ?m \<le> length (padded src)" "?f + 2 + 8 * ?m \<le> length ?d" using k(1) j(2) inv(3,5,7) True by simp_all
      from flush_ok [OF inv(2) n run _ _ this(1) True this(2) inv(6) [rule_format, OF True]] inv(4) False
      show ?thesis using inv(3,5) k(1) j(1) by (auto simp: eq)
    next
      case neg: False
      then show ?thesis using inv(5) by (simp add: eq flush_ff_def)
    qed
  qed
qed

text \<open>C7. What the packer writes, the unpacker reads, unless the packer left its source: if it did not, the packed
  message fits in the buffer that \<open>lpack\<close> provides, and unpacking it gives the bytes of the source, filled up with
  zeros to a multiple of eight.  The packer stays in its source whenever \<open>safe_length\<close> holds, that is for every message of
  fewer than 2046 bytes and for every message whose last group does not have six or seven bytes.
\<close>

theorem sproto_pack_roundtrip:
  assumes "pack_bound (length src) \<le> length d" "align8 (length src) \<le> length e"
  shows "case sproto_pack src d of
      None \<Rightarrow> \<not> safe_length (length src)
    | Some (n, d') \<Rightarrow> n \<le> pack_bound (length src) \<and>
        sproto_unpack (take n d') e = Some (int (align8 (length src)), padded src @ drop (align8 (length src)) e)"
proof (cases "pack_loop src 0 (pack_init d)")
  case None
  then have "\<not> safe_length (length src)" using pack_loop_total [OF pack_init_inv(1), of src d] by auto
  then show ?thesis using None by (simp add: sproto_pack_alt)
next
  case st: (Some st)
  obtain j where j: "length src \<le> j" "j < length src + 8" "pack_inv src (length d) j st" using pack_loop_ok [OF pack_init_inv(1) _ st] by auto
  obtain d' where d': "pack_end src st = Some d'" "length d' = length d" "0 \<le> ps_bufsz st \<longrightarrow> packs (take (ps_buffer st) d') (padded src)"
    using pack_end_ok [OF j(3,1,2)] by blast
  have size: "ps_buffer st \<le> pack_bound (length src)" using loop_size [OF pack_init_inv _ st] by simp
  then have "0 \<le> ps_bufsz st" using assms(1) j(3) by (simp add: pack_inv_def)
  then have p: "packs (take (ps_buffer st) d') (padded src)" using d'(3) by simp
  have "unpack_loop (take (ps_buffer st) d') (int (length (take (ps_buffer st) d'))) 0 (int (length e)) e 0 =
    Some (int (align8 (length src)), padded src @ drop (align8 (length src)) e)"
    using unpack_packed [OF p, of 0 e "[]" 0] assms(2) by (simp add: length_padded unpack_loop.simps [of "[]"])
  then show ?thesis using st d'(1) size by (simp add: sproto_pack_alt sproto_unpack_def)
qed

lemma sproto_pack_roundtrip_witness:
  "\<exists>n d'. sproto_pack [1, 2, 0, 0, 3] (replicate 20 0xee) = Some (n, d') \<and> n \<le> 9 \<and>
    sproto_unpack (take n d') (replicate 10 0xdd) = Some (8, [1, 2, 0, 0, 3, 0, 0, 0, 0xdd, 0xdd])"
proof -
  define src where "src = [1 :: u8, 2, 0, 0, 3]"
  have "length src = 5" by (simp add: src_def)
  moreover have "align8 5 = 8" "pack_bound 5 = 9" "safe_length 5" "replicate 3 (0 :: u8) = [0, 0, 0]" "replicate 2 (0xdd :: u8) = [0xdd, 0xdd]"
    by (simp_all add: align8_def pack_bound_def safe_length_def numeral_3_eq_3 numeral_2_eq_2)
  ultimately have "case sproto_pack src (replicate 20 0xee) of None \<Rightarrow> False
      | Some (n, d') \<Rightarrow> n \<le> 9 \<and> sproto_unpack (take n d') (replicate 10 0xdd) = Some (8, src @ [0, 0, 0, 0xdd, 0xdd])"
    using sproto_pack_roundtrip [of src "replicate 20 0xee" "replicate 10 0xdd"]
    by (simp add: padded_def split: option.splits prod.splits)
  then show ?thesis by (auto simp: src_def split: option.splits)
qed

text \<open>A packed message that is cut off behind the header byte of its last group makes the unpacker read behind its
  source if there is room for the byte in the destination: the code tests for a negative rest of the source, not
  for an empty one.
\<close>

theorem unpack_reads_behind:
  assumes "packs p s" "k < 8" "length s + k < length e"
  shows "sproto_unpack (p @ [push_bit k 1]) e = None"
proof -
  have bits: "unpack_bits j (push_bit k 1) (8 - j) [] 0 b (int (length d) - int b) d = None" if "8 - k \<le> j" "j \<le> 8" "b + (j - (8 - k)) < length d" for j b d
    using that
  proof (induction "j - (8 - k)" arbitrary: j b d)
    case 0
    then obtain i where "j = Suc i" using assms(2) by (cases j) auto
    moreover have "8 - j = k" using 0 assms(2) by simp
    ultimately show ?case using 0 assms(2) by (simp add: bit_simps)
  next
    case (Suc n)
    then obtain i where i: "j = Suc i" by (cases j) auto
    have first: "bit (push_bit k 1 :: u8) (8 - j) = False" using Suc.hyps(2) Suc.prems assms(2) by (auto simp: bit_simps)
    have next_bit: "8 - j + 1 = 8 - i" using Suc.prems(2) i by simp
    have b: "Suc b + (i - (8 - k)) < length d" "b < length d" using Suc.prems(3) Suc.hyps(2) i by linarith+
    then have "length (take b d @ 0 # drop (Suc b) d) = length d" by simp
    moreover have "n = i - (8 - k)" "8 - k \<le> i" using Suc.hyps(2) i by simp_all
    moreover note b(1)
    ultimately have "unpack_bits i (push_bit k 1) (8 - i) [] 0 (Suc b) (int (length d) - int (Suc b)) (take b d @ 0 # drop (Suc b) d) = None"
      using Suc.hyps(1) [of i "Suc b" "take b d @ 0 # drop (Suc b) d"] Suc.prems(2) i by (simp del: length_append)
    then show ?case using b i first next_bit by (simp add: put_byte_ok) (simp add: algebra_simps)
  qed
  have "(push_bit k 1 :: u8) \<noteq> 0xff"
  proof
    assume "(push_bit k 1 :: u8) = 0xff"
    also have "(0xff :: u8) = mask 8" by (simp add: mask_eq_exp_minus_1)
    finally have "bit (push_bit k 1 :: u8) n = bit (mask 8 :: u8) n" for n by simp
    from this [of "if k = 0 then 1 else 0"] show False using assms(2) by (simp add: bit_mask_iff bit_simps split: if_splits)
  qed
  moreover have "unpack_bits 8 (push_bit k 1) 0 [] 0 (length s) (int (length e) - int (length s)) (s @ drop (length s) e) = None"
    using bits [of 8 "length s" "s @ drop (length s) e"] assms by simp
  ultimately have "unpack_loop [push_bit k 1] 1 (length s) (int (length e) - int (length s)) (s @ drop (length s) e) (length s) = None"
    by (rule unpack_loop_behind)
  then show ?thesis using unpack_packed [OF assms(1), of 0 e "[push_bit k 1]" 0] assms(3) by (simp add: sproto_unpack_def)
qed

lemma unpack_reads_behind_witness: "sproto_unpack [4] [0, 0, 0, 0] = None"
  using unpack_reads_behind [OF packs_Nil, of 2 "[0, 0, 0, 0]"] by simp

text \<open>The packer reads behind its source, and packs what it finds there, when 255 groups without zeros are
  followed by a last group of only six or seven bytes: it copies a run of 256 whole groups.
\<close>

theorem pack_reads_behind:
  assumes "0 \<notin> set src" "2046 \<le> length src mod 2048" "pack_bound (length src) \<le> length d"
  shows "sproto_pack src d = None"
proof -
  obtain Q R where L: "length src = 2048 * Q + R" "2046 \<le> R" "R < 2048"
  proof
    show "length src = 2048 * (length src div 2048) + length src mod 2048" by simp
  qed (use assms(2) in simp_all)
  have all: "nonzeros cs = length cs" if "0 \<notin> set cs" for cs using that by (induction cs) auto
  have "pack_loop src i st = None"
    if "pack_inv src (length d) i st" "size_inv i st" "ps_ff_n st = (i div 8) mod 256" "i < length src" for i st
    using that
  proof (induction "length src - i" arbitrary: i st rule: less_induct)
    case less
    have i8: "i mod 8 = 0" and sz: "ps_bufsz st = int (length d) - int (ps_buffer st)" using less.prems(1) by (simp_all add: pack_inv_def)
    obtain k where k: "i = 8 * k" using i8 by auto
    have "pack_step src i st = None \<or> (\<exists>st1. pack_step src i st = Some st1 \<and> pack_loop src (i + 8) st1 = None)"
    proof (cases "i + 8 \<le> length src")
      case True
      have "0 \<notin> set (group src i)" using assms(1) by (auto simp: group_full [OF True] dest: in_set_takeD in_set_dropD)
      then have run: "in_run (ps_ff_n st) (group src i)" using group_in_range(2) [OF i8 less.prems(4)] by (simp add: in_run_def all)
      then have next_ff: "ps_ff_n st1 = ((i + 8) div 8) mod 256" if "pack_step src i st = Some st1" for st1
      proof -
        have st1: "ps_ff_n st1 = (if ps_ff_n st < 255 then ps_ff_n st + 1 else 0)" using pack_step_ok(2) [OF less.prems(1,4) that] run by simp
        have k: "(i + 8) div 8 = Suc (i div 8)" by simp
        have "Suc (i div 8) mod 256 = (if Suc (i div 8 mod 256) = 256 then 0 else Suc (i div 8 mod 256))" by (rule mod_Suc)
        moreover have "i div 8 mod 256 < 256" by simp
        moreover define x where "x = i div 8 mod 256"
        ultimately show ?thesis unfolding st1 less.prems(3) k x_def [symmetric] by auto
      qed
      have "R = 2046 \<or> R = 2047" using L(2,3) by linarith
      moreover have "length src mod 8 = R mod 8" using mod_add_left_eq [of "8 * (256 * Q)" 8 R] by (simp add: L(1))
      ultimately have "length src mod 8 \<noteq> 0" by auto
      moreover have "(i + 8) mod 8 = 0" using i8 by simp
      ultimately have "i + 8 \<noteq> length src" by metis
      then have "i + 8 < length src" using True by simp
      then show ?thesis
        using less.hyps [of "i + 8"] pack_step_ok(2) [OF less.prems(1,4)] size_step [OF less.prems(1,4) _ less.prems(2)] next_ff True
        by (cases "pack_step src i st") auto
    next
      case False
      have "k = 256 * Q + 255" using less.prems(4) False L unfolding k by linarith
      then have m: "ps_ff_n st = 255" using less.prems(3) k by simp
      have "0 \<notin> set (drop i src)" using assms(1) by (auto dest: in_set_dropD)
      then have "nonzeros (group src i) = length src - i" using group_last(1) [OF i8 less.prems(4)] False by (simp add: all)
      moreover have rest: "6 \<le> length src - i" using \<open>k = 256 * Q + 255\<close> L k by simp
      ultimately have run: "in_run 255 (group src i)" by (simp add: in_run_def)
      obtain q where q: "ps_buffer st \<le> i + 2 * q + 2" "2048 * q + 2040 \<le> i" using less.prems(2) m by (auto simp: size_inv_def)
      have "q + 1 \<le> (length src + 2047) div 2048" using q(2) less.prems(4) by linarith
      then have "ps_buffer st + 8 \<le> length d" using q(1) rest assms(3) by (simp add: pack_bound_def)
      then show ?thesis using pack_step_ok(3) [OF less.prems(1,4) m run] False sz by simp
    qed
    then show ?case using less.prems(4) by (subst pack_loop.simps) auto
  qed
  moreover have "0 < length src" using assms(2) by (cases src) simp_all
  moreover have "ps_ff_n (pack_init d) = 0 div 8 mod 256" by (simp add: pack_init_def)
  ultimately have "pack_loop src 0 (pack_init d) = None" using pack_init_inv by blast
  then show ?thesis by (simp add: sproto_pack_alt)
qed

lemma pack_reads_behind_witness: "sproto_pack (replicate 2046 1) (replicate 2050 0) = None"
  using pack_reads_behind [of "replicate 2046 1" "replicate 2050 0"] by (simp add: pack_bound_def)

end
