(* ===== verification/Sproto.thy ===== *)
theory Sproto
  imports Bytes
begin

text \<open>
  The message format of sproto: \<open>lualib-src/sproto/sproto.c\<close> without the packing.

  A schema is a bundle of bytes, itself a sproto message, from which \<open>sproto_create\<close> builds the types and
  protocols.  A type refers to another one by its place in \<open>sp_type\<close>.  Messages are written and read
  through a callback, which provides the value of a field, or is given it; \<open>'s\<close> is what the callback works on.

  Pointers into the bundle or a message are distances from its start.  What a function writes to its destination
  is the list of bytes that it adds; \<open>size\<close> is the room that is left.  The outermost \<open>None\<close> is an access outside
  a buffer, a failed assertion or a loop that never ends; \<open>Inl\<close> an error that the callback raises; an inner
  \<open>None\<close> the result NULL or -1.
\<close>

section \<open>Results\<close>

type_synonym 'a run = "'a lua option"

definition bind_run :: "'a run \<Rightarrow> ('a \<Rightarrow> 'b run) \<Rightarrow> 'b run" where
  "bind_run m f = (case m of None \<Rightarrow> None | Some (Inl e) \<Rightarrow> Some (Inl e) | Some (Inr x) \<Rightarrow> f x)"

definition done_run :: "'a \<Rightarrow> 'a run" where
  "done_run x = Some (Inr x)"

lemma bind_run_simps [simp]:
  "bind_run None f = None" "bind_run (Some (Inl e)) f = Some (Inl e)" "bind_run (Some (Inr x)) f = f x" "bind_run (done_run x) f = f x"
  by (simp_all add: bind_run_def done_run_def)

section \<open>Types\<close>

definition SPROTO_TINTEGER :: int where "SPROTO_TINTEGER = 0"
definition SPROTO_TBOOLEAN :: int where "SPROTO_TBOOLEAN = 1"
definition SPROTO_TSTRING :: int where "SPROTO_TSTRING = 2"
definition SPROTO_TSTRUCT :: int where "SPROTO_TSTRUCT = 3"
definition SPROTO_TARRAY :: int where "SPROTO_TARRAY = 0x80"
definition SIZEOF_LENGTH :: nat where "SIZEOF_LENGTH = 4"
definition SIZEOF_HEADER :: nat where "SIZEOF_HEADER = 2"
definition SIZEOF_FIELD :: nat where "SIZEOF_FIELD = 2"

lemmas sproto_types = SPROTO_TINTEGER_def SPROTO_TBOOLEAN_def SPROTO_TSTRING_def SPROTO_TSTRUCT_def SPROTO_TARRAY_def
lemmas sproto_sizes = SIZEOF_LENGTH_def SIZEOF_HEADER_def SIZEOF_FIELD_def

record sproto_field =
  fd_tag :: int
  fd_type :: int
  fd_name :: bytes
  fd_st :: "nat option"
  fd_key :: int

record sproto_type =
  ty_name :: bytes
  ty_base :: int
  ty_maxn :: nat
  ty_f :: "sproto_field list"

record sproto_protocol =
  pr_name :: bytes
  pr_tag :: int
  pr_request :: "nat option"
  pr_response :: "nat option"

record sproto =
  sp_type :: "sproto_type list"
  sp_proto :: "sproto_protocol list"

section \<open>Reading\<close>

definition toword :: "bytes \<Rightarrow> nat \<Rightarrow> nat option" where
  "toword s p = (if p + 2 \<le> length s then Some (unat (s ! p) + 256 * unat (s ! (p + 1))) else None)"

definition todword :: "bytes \<Rightarrow> nat \<Rightarrow> u32 option" where
  "todword s p = (if p + 4 \<le> length s then Some (get_le32 s p) else None)"

text \<open>
  \<open>count_array\<close>: \<open>nsz += SIZEOF_LENGTH\<close> is done in 32 bits.  When it gives 0 the loop goes round for ever.
\<close>

function count_loop :: "bytes \<Rightarrow> nat \<Rightarrow> u32 \<Rightarrow> nat \<Rightarrow> nat option option" where
  "count_loop s p len n =
     (if len = 0 then Some (Some n)
      else if len < 4 then Some None
      else case todword s p of
        None \<Rightarrow> None
      | Some w \<Rightarrow>
          let nsz = w + 4 in
          if nsz > len then Some None
          else if nsz = 0 then None
          else count_loop s (p + unat nsz) (len - nsz) (n + 1))"
  by pat_completeness auto
termination
proof (relation "measure (\<lambda>(s, p, len, n). unat len)")
  fix len w nsz :: u32
  assume "\<not> nsz > len" "nsz \<noteq> 0"
  then have le: "nsz \<le> len" and "0 < unat nsz" by (simp_all add: unat_gt_0)
  then have "unat (len - nsz) < unat len" using word_le_nat_alt [of nsz len] by (simp add: unat_sub [OF le])
  then show "((s, p + unat nsz, len - nsz, n + 1), s, p, len, n) \<in> measure (\<lambda>(s, p, len, n). unat len)" for s p n by simp
qed simp

declare count_loop.simps [simp del]

definition count_array :: "bytes \<Rightarrow> nat \<Rightarrow> nat option option" where
  "count_array s p = Option.bind (todword s p) (\<lambda>len. count_loop s (p + SIZEOF_LENGTH) len 0)"

text \<open>The loop of \<open>struct_field\<close> over the fields that are left, with the place and the rest of the data.\<close>

fun struct_loop :: "bytes \<Rightarrow> nat list \<Rightarrow> nat \<Rightarrow> nat \<Rightarrow> bool option" where
  "struct_loop s [] p sz = Some True"
| "struct_loop s (f # fs) p sz =
     (case toword s f of
        None \<Rightarrow> None
      | Some v \<Rightarrow>
          if v \<noteq> 0 then struct_loop s fs p sz
          else if sz < SIZEOF_LENGTH then Some False
          else case todword s p of
            None \<Rightarrow> None
          | Some dsz \<Rightarrow>
              let n = unat (dsz + 4) in
              if sz < n then Some False else struct_loop s fs (p + n) (sz - n))"

definition struct_field :: "bytes \<Rightarrow> nat \<Rightarrow> nat \<Rightarrow> nat option option" where
  "struct_field s p sz =
     (if sz < SIZEOF_LENGTH then Some None
      else case toword s p of
        None \<Rightarrow> None
      | Some fn \<Rightarrow>
          let header = SIZEOF_HEADER + SIZEOF_FIELD * fn in
          if sz < header then Some None
          else map_option (\<lambda>ok. if ok then Some fn else None)
            (struct_loop s (map (\<lambda>i. p + SIZEOF_HEADER + i * SIZEOF_FIELD) [0..<fn]) (p + header) (sz - header)))"

definition import_string :: "bytes \<Rightarrow> nat \<Rightarrow> bytes option" where
  "import_string s p = Option.bind (todword s p) (\<lambda>sz.
     if p + SIZEOF_LENGTH + unat sz \<le> length s then Some (take (unat sz) (drop (p + SIZEOF_LENGTH) s)) else None)"

section \<open>Importing a schema\<close>

text \<open>The name of a field is \<open>None\<close> until it is read.\<close>

record raw_field =
  rf_tag :: int
  rf_type :: int
  rf_name :: "bytes option"
  rf_st :: "nat option"
  rf_key :: int
  rf_array :: int

text \<open>
  The loop of \<open>import_field\<close>: \<open>p\<close> is the first descriptor and \<open>fn\<close> their number, \<open>i\<close> the one to read, \<open>tag\<close> the
  tag of the last one.
\<close>

fun import_field_loop :: "bytes \<Rightarrow> nat \<Rightarrow> nat \<Rightarrow> nat \<Rightarrow> nat list \<Rightarrow> int \<Rightarrow> raw_field \<Rightarrow> raw_field option option" where
  "import_field_loop s type_n p fn [] tag f = Some (Some f)"
| "import_field_loop s type_n p fn (i # is) tag f =
     (let tag = tag + 1 in
      case toword s (p + SIZEOF_FIELD * i) of
        None \<Rightarrow> None
      | Some w \<Rightarrow>
          if odd w then import_field_loop s type_n p fn is (tag + int (w div 2)) f
          else if tag = 0 then
            (if w \<noteq> 0 then Some None
             else Option.bind (import_string s (p + fn * SIZEOF_FIELD)) (\<lambda>n. import_field_loop s type_n p fn is tag (f\<lparr>rf_name := Some n\<rparr>)))
          else if w = 0 then Some None
          else
            let v = int (w div 2) - 1 in
            if tag = 1 then (if v \<ge> SPROTO_TSTRUCT then Some None else import_field_loop s type_n p fn is tag (f\<lparr>rf_type := v\<rparr>))
            else if tag = 2 then
              (if v \<ge> int type_n \<or> rf_type f \<ge> 0 then Some None
               else import_field_loop s type_n p fn is tag (f\<lparr>rf_type := SPROTO_TSTRUCT, rf_st := Some (nat v)\<rparr>))
            else if tag = 3 then import_field_loop s type_n p fn is tag (f\<lparr>rf_tag := v\<rparr>)
            else if tag = 4 then import_field_loop s type_n p fn is tag (if v \<noteq> 0 then f\<lparr>rf_array := SPROTO_TARRAY\<rparr> else f)
            else if tag = 5 then import_field_loop s type_n p fn is tag (f\<lparr>rf_key := v\<rparr>)
            else Some None)"

text \<open>The result is the field and the place behind it.\<close>

definition import_field :: "bytes \<Rightarrow> nat \<Rightarrow> nat \<Rightarrow> (sproto_field \<times> nat) option option" where
  "import_field s type_n p =
     (case todword s p of
        None \<Rightarrow> None
      | Some sz \<Rightarrow>
          let p1 = p + SIZEOF_LENGTH in
          case struct_field s p1 (unat sz) of
            None \<Rightarrow> None
          | Some None \<Rightarrow> Some None
          | Some (Some fn) \<Rightarrow>
              map_option (\<lambda>r. Option.bind r (\<lambda>f.
                  case rf_name f of
                    None \<Rightarrow> None
                  | Some name \<Rightarrow>
                      if rf_tag f < 0 \<or> rf_type f < 0 then None
                      else Some (\<lparr>fd_tag = rf_tag f, fd_type = rf_type f OR rf_array f, fd_name = name, fd_st = rf_st f, fd_key = rf_key f\<rparr>,
                        p1 + unat sz)))
                (import_field_loop s type_n (p1 + SIZEOF_HEADER) fn [0..<fn] (- 1)
                  \<lparr>rf_tag = - 1, rf_type = - 1, rf_name = None, rf_st = None, rf_key = - 1, rf_array = 0\<rparr>))"

text \<open>The fields of a type, \<open>n\<close> of which are left, with the last tag and \<open>maxn\<close> so far.\<close>

fun import_fields :: "bytes \<Rightarrow> nat \<Rightarrow> nat \<Rightarrow> nat \<Rightarrow> int \<Rightarrow> nat \<Rightarrow> (sproto_field list \<times> nat) option option" where
  "import_fields s type_n 0 p lasttag maxn = Some (Some ([], maxn))"
| "import_fields s type_n (Suc n) p lasttag maxn =
     (case import_field s type_n p of
        None \<Rightarrow> None
      | Some None \<Rightarrow> Some None
      | Some (Some (f, p')) \<Rightarrow>
          if fd_tag f \<le> lasttag then Some None
          else map_option (map_option (\<lambda>(fs, m). (f # fs, m)))
            (import_fields s type_n n p' (fd_tag f) (if fd_tag f > lasttag + 1 then maxn + 1 else maxn)))"

text \<open>Without fields there is no \<open>t->f[0]\<close> and no \<open>t->f[n-1]\<close> to look at.\<close>

definition import_type :: "bytes \<Rightarrow> nat \<Rightarrow> nat \<Rightarrow> (sproto_type \<times> nat) option option" where
  "import_type s type_n p =
     (case todword s p of
        None \<Rightarrow> None
      | Some sz \<Rightarrow>
          let p1 = p + SIZEOF_LENGTH; result = p1 + unat sz in
          case struct_field s p1 (unat sz) of
            None \<Rightarrow> None
          | Some None \<Rightarrow> Some None
          | Some (Some fn) \<Rightarrow>
              if fn = 0 \<or> fn > 2 then Some None
              else case those (map (\<lambda>i. toword s (p1 + SIZEOF_HEADER + i * SIZEOF_FIELD)) [0..<fn]) of
                None \<Rightarrow> None
              | Some vs \<Rightarrow>
                  if list_ex (\<lambda>v. v \<noteq> 0) vs then Some None
                  else
                    let p2 = p1 + SIZEOF_HEADER + fn * SIZEOF_FIELD in
                    case import_string s p2 of
                      None \<Rightarrow> None
                    | Some name \<Rightarrow>
                        if fn = 1 then Some (Some (\<lparr>ty_name = name, ty_base = 0, ty_maxn = 0, ty_f = []\<rparr>, result))
                        else do {
                          len \<leftarrow> todword s p2;
                          let p3 = p2 + unat (len + 4);
                          c \<leftarrow> count_array s p3;
                          case c of
                            None \<Rightarrow> Some None
                          | Some n \<Rightarrow> do {
                              r \<leftarrow> import_fields s type_n n (p3 + SIZEOF_LENGTH) (- 1) n;
                              case r of
                                None \<Rightarrow> Some None
                              | Some (fs, maxn) \<Rightarrow>
                                  if fs = [] then None
                                  else Some (Some (\<lparr>ty_name = name,
                                    ty_base = (if fd_tag (last fs) - fd_tag (hd fs) + 1 \<noteq> int n then - 1 else fd_tag (hd fs)),
                                    ty_maxn = maxn, ty_f = fs\<rparr>, result))
                            }
                        })"

text \<open>The loop of \<open>import_protocol\<close>; it goes by the number of the descriptor, not by the tag.\<close>

record raw_protocol =
  rp_name :: "bytes option"
  rp_tag :: int
  rp_request :: "nat option"
  rp_response :: "nat option"

fun import_protocol_loop :: "bytes \<Rightarrow> nat \<Rightarrow> nat \<Rightarrow> nat \<Rightarrow> nat list \<Rightarrow> raw_protocol \<Rightarrow> raw_protocol option option" where
  "import_protocol_loop s type_n p fn [] r = Some (Some r)"
| "import_protocol_loop s type_n p fn (i # is) r =
     (case toword s (p + SIZEOF_FIELD * i) of
        None \<Rightarrow> None
      | Some w \<Rightarrow>
          if odd w then import_protocol_loop s type_n p fn is r
          else
            let v = int (w div 2) - 1 in
            if i = 0 then
              (if v \<noteq> - 1 then Some None
               else Option.bind (import_string s (p + SIZEOF_FIELD * fn)) (\<lambda>n. import_protocol_loop s type_n p fn is (r\<lparr>rp_name := Some n\<rparr>)))
            else if i = 1 then (if v < 0 then Some None else import_protocol_loop s type_n p fn is (r\<lparr>rp_tag := v\<rparr>))
            else if i = 2 then
              (if v < 0 \<or> v \<ge> int type_n then Some None else import_protocol_loop s type_n p fn is (r\<lparr>rp_request := Some (nat v)\<rparr>))
            else if i = 3 then
              (if v < 0 \<or> v \<ge> int type_n then Some None else import_protocol_loop s type_n p fn is (r\<lparr>rp_response := Some (nat v)\<rparr>))
            else Some None)"

text \<open>With the result -1 of \<open>struct_field\<close> the loop has no round.\<close>

definition import_protocol :: "bytes \<Rightarrow> nat \<Rightarrow> nat \<Rightarrow> (sproto_protocol \<times> nat) option option" where
  "import_protocol s type_n p =
     (case todword s p of
        None \<Rightarrow> None
      | Some sz \<Rightarrow>
          let p1 = p + SIZEOF_LENGTH in
          case struct_field s p1 (unat sz) of
            None \<Rightarrow> None
          | Some fn' \<Rightarrow>
              let fn = (case fn' of None \<Rightarrow> 0 | Some n \<Rightarrow> n) in
              map_option (\<lambda>r. Option.bind r (\<lambda>r.
                  case rp_name r of
                    None \<Rightarrow> None
                  | Some name \<Rightarrow>
                      if rp_tag r < 0 then None
                      else Some (\<lparr>pr_name = name, pr_tag = rp_tag r, pr_request = rp_request r, pr_response = rp_response r\<rparr>, p1 + unat sz)))
                (import_protocol_loop s type_n (p1 + SIZEOF_HEADER) fn [0..<fn]
                  \<lparr>rp_name = None, rp_tag = - 1, rp_request = None, rp_response = None\<rparr>))"

fun import_all :: "(nat \<Rightarrow> ('a \<times> nat) option option) \<Rightarrow> nat \<Rightarrow> nat \<Rightarrow> 'a list option option" where
  "import_all f 0 p = Some (Some [])"
| "import_all f (Suc n) p =
     (case f p of
        None \<Rightarrow> None
      | Some None \<Rightarrow> Some None
      | Some (Some (x, p')) \<Rightarrow> map_option (map_option ((#) x)) (import_all f n p'))"

text \<open>The types are the first array of the bundle, the protocols the second.\<close>

fun bundle_arrays :: "bytes \<Rightarrow> nat list \<Rightarrow> nat \<Rightarrow> (nat \<times> nat) list option option" where
  "bundle_arrays s [] content = Some (Some [])"
| "bundle_arrays s (f # fs) content =
     (case toword s f of
        None \<Rightarrow> None
      | Some v \<Rightarrow>
          if v \<noteq> 0 then Some None
          else case count_array s content of
            None \<Rightarrow> None
          | Some None \<Rightarrow> Some None
          | Some (Some n) \<Rightarrow> do {
              len \<leftarrow> todword s content;
              map_option (map_option ((#) (n, content + SIZEOF_LENGTH))) (bundle_arrays s fs (content + unat (len + 4)))
            })"

definition create_from_bundle :: "bytes \<Rightarrow> sproto option option" where
  "create_from_bundle s =
     (case struct_field s 0 (length s) of
        None \<Rightarrow> None
      | Some None \<Rightarrow> Some None
      | Some (Some fn) \<Rightarrow>
          if fn > 2 then Some None
          else case bundle_arrays s (map (\<lambda>i. SIZEOF_HEADER + i * SIZEOF_FIELD) [0..<fn]) (SIZEOF_HEADER + fn * SIZEOF_FIELD) of
            None \<Rightarrow> None
          | Some None \<Rightarrow> Some None
          | Some (Some arrays) \<Rightarrow>
              let (type_n, typedata) = (if arrays = [] then (0, 0) else arrays ! 0);
                  (protocol_n, protocoldata) = (if length arrays < 2 then (0, 0) else arrays ! 1)
              in do {
                ts \<leftarrow> import_all (import_type s type_n) type_n typedata;
                case ts of
                  None \<Rightarrow> Some None
                | Some ts \<Rightarrow> map_option (map_option (\<lambda>ps. \<lparr>sp_type = ts, sp_proto = ps\<rparr>)) (import_all (import_protocol s type_n) protocol_n protocoldata)
              })"

definition sproto_create :: "bytes \<Rightarrow> sproto option option" where
  "sproto_create proto = create_from_bundle proto"

section \<open>Queries\<close>

text \<open>\<open>strcmp(a, b) == 0\<close>: the names end at their first zero.\<close>

definition same_cstring :: "bytes \<Rightarrow> bytes \<Rightarrow> bool" where
  "same_cstring a b \<longleftrightarrow> takeWhile (\<lambda>c. c \<noteq> 0) a = takeWhile (\<lambda>c. c \<noteq> 0) b"

definition sproto_prototag :: "sproto \<Rightarrow> bytes \<Rightarrow> int" where
  "sproto_prototag sp name = (case List.find (\<lambda>p. same_cstring name (pr_name p)) (sp_proto sp) of None \<Rightarrow> - 1 | Some p \<Rightarrow> pr_tag p)"

text \<open>The binary search of \<open>query_proto\<close> and \<open>findtag\<close>, on the list of tags.\<close>

function search_tag :: "int list \<Rightarrow> int \<Rightarrow> nat \<Rightarrow> nat \<Rightarrow> nat option" where
  "search_tag ts tag begin' end' =
     (if begin' < end' then
        let mid = (begin' + end') div 2; t = ts ! mid in
        if t = tag then Some mid
        else if tag > t then search_tag ts tag (mid + 1) end'
        else search_tag ts tag begin' mid
      else None)"
  by pat_completeness auto
termination by (relation "measure (\<lambda>(ts, tag, b, e). e - b)") auto

declare search_tag.simps [simp del]

definition query_proto :: "sproto \<Rightarrow> int \<Rightarrow> sproto_protocol option" where
  "query_proto sp tag = map_option ((!) (sp_proto sp)) (search_tag (map pr_tag (sp_proto sp)) tag 0 (length (sp_proto sp)))"

definition sproto_protoquery :: "sproto \<Rightarrow> int \<Rightarrow> int \<Rightarrow> nat option" where
  "sproto_protoquery sp proto what =
     (if what < 0 \<or> what > 1 then None
      else Option.bind (query_proto sp proto) (\<lambda>p. if what = 0 then pr_request p else pr_response p))"

definition sproto_protoname :: "sproto \<Rightarrow> int \<Rightarrow> bytes option" where
  "sproto_protoname sp proto = map_option pr_name (query_proto sp proto)"

definition sproto_type_by_name :: "sproto \<Rightarrow> bytes \<Rightarrow> nat option" where
  "sproto_type_by_name sp name =
     (case filter (\<lambda>i. same_cstring name (ty_name (sp_type sp ! i))) [0..<length (sp_type sp)] of [] \<Rightarrow> None | i # _ \<Rightarrow> Some i)"

definition findtag :: "sproto_type \<Rightarrow> int \<Rightarrow> sproto_field option" where
  "findtag st tag =
     (if ty_base st \<ge> 0 then
        let k = tag - ty_base st in if k < 0 \<or> k \<ge> int (length (ty_f st)) then None else Some (ty_f st ! nat k)
      else map_option ((!) (ty_f st)) (search_tag (map fd_tag (ty_f st)) tag 0 (length (ty_f st))))"

section \<open>Encoding\<close>

text \<open>
  What the callback answers: a code, or how much it wrote to \<open>args->value\<close>, whose room is \<open>arg_length\<close>.  A number
  is written as the bytes of an \<open>uint32_t\<close> or \<open>uint64_t\<close>.
\<close>

datatype cb_result = SPROTO_CB_ERROR | SPROTO_CB_NIL | SPROTO_CB_NOARRAY | CB_Wrote bytes

datatype cb_value = V_None | V_Int u64 | V_Bytes bytes

record sproto_arg =
  arg_tagname :: bytes
  arg_tagid :: int
  arg_type :: int
  arg_subtype :: "nat option"
  arg_value :: cb_value
  arg_length :: int
  arg_index :: int
  arg_mainindex :: int

type_synonym 's encode_callback = "sproto_arg \<Rightarrow> 's \<Rightarrow> (cb_result \<times> 's) run"

text \<open>A callback that writes more than it may writes behind the room it has.\<close>

definition run_cb :: "'s encode_callback \<Rightarrow> sproto_arg \<Rightarrow> 's \<Rightarrow> (cb_result \<times> 's) run" where
  "run_cb cb args s = bind_run (cb args s) (\<lambda>(r, s').
     case r of CB_Wrote bs \<Rightarrow> if int (length bs) \<le> arg_length args then done_run (r, s') else None | _ \<Rightarrow> done_run (r, s'))"

text \<open>The bytes added, or \<open>None\<close> for -1; nothing is added for a value that is nil.\<close>

definition fill_size :: "bytes \<Rightarrow> bytes" where
  "fill_size bs = le32_bytes (of_nat (length bs)) @ bs"

definition encode_integer :: "u32 \<Rightarrow> int \<Rightarrow> bytes option" where
  "encode_integer v room = (if room < 8 then None else Some (fill_size (le32_bytes v)))"

definition encode_uint64 :: "u64 \<Rightarrow> int \<Rightarrow> bytes option" where
  "encode_uint64 v room = (if room < 12 then None else Some (fill_size (le64_bytes v)))"

definition encode_object :: "'s encode_callback \<Rightarrow> sproto_arg \<Rightarrow> int \<Rightarrow> 's \<Rightarrow> (bytes option \<times> 's) run" where
  "encode_object cb args room s =
     (if room < 4 then done_run (None, s)
      else bind_run (run_cb cb (args\<lparr>arg_length := room - 4\<rparr>) s) (\<lambda>(r, s').
        done_run (case r of
            CB_Wrote bs \<Rightarrow> (Some (fill_size bs), s')
          | SPROTO_CB_NIL \<Rightarrow> (Some [], s')
          | _ \<Rightarrow> (None, s'))))"

text \<open>
  The loop of \<open>encode_integer_array\<close>.  \<open>out\<close> are the bytes behind the first one, which gets the length of the
  numbers, 4 or 8.  The test of \<open>size\<close> (here \<open>room\<close>) compares an \<open>int\<close> with a \<open>size_t\<close>: a negative \<open>size\<close> passes it, and what is
  then written is behind the buffer.
\<close>

definition less_size_t :: "int \<Rightarrow> nat \<Rightarrow> bool" where
  "less_size_t a b \<longleftrightarrow> (word_of_int a :: u64) < of_nat b"

definition sign_extend :: "bytes \<Rightarrow> bytes" where
  "sign_extend w = w @ replicate 4 (if bit (w ! 3) 7 then 0xff else 0)"

lemma length_sign_extend [simp]: "length (sign_extend w) = length w + 4" "sign_extend w \<noteq> []"
  by (simp_all add: sign_extend_def)

fun widen :: "bytes \<Rightarrow> bytes" where
  "widen (a # b # c # d # rest) = sign_extend [a, b, c, d] @ widen rest"
| "widen _ = []"

datatype int_array = IA_Null | IA_Noarray | IA_Bytes bytes

function encode_integer_loop :: "'s encode_callback \<Rightarrow> sproto_arg \<Rightarrow> nat \<Rightarrow> nat \<Rightarrow> bytes \<Rightarrow> int \<Rightarrow> 's \<Rightarrow> (int_array \<times> 's) run" where
  "encode_integer_loop cb args index intlen out room s =
     bind_run (run_cb cb (args\<lparr>arg_length := 8, arg_index := int index\<rparr>) s) (\<lambda>(r, s').
       case r of
         SPROTO_CB_NIL \<Rightarrow> done_run (if out = [] then IA_Bytes [] else IA_Bytes (of_nat intlen # out), s')
       | SPROTO_CB_NOARRAY \<Rightarrow> done_run (IA_Noarray, s')
       | SPROTO_CB_ERROR \<Rightarrow> done_run (IA_Null, s')
       | CB_Wrote bs \<Rightarrow>
           if bs = [] \<or> less_size_t room 8 then done_run (IA_Null, s')
           else if length bs = 4 then
             (let w = (if intlen = 8 then sign_extend bs else bs) in
              if room < int (length w) then None
              else encode_integer_loop cb args (index + 1) intlen (out @ w) (room - int (length w)) s')
           else if length bs \<noteq> 8 then done_run (IA_Null, s')
           else
             let room' = (if intlen = 4 then room - (int index - 1) * 4 else room);
                 out' = (if intlen = 4 then widen out else out)
             in if intlen = 4 \<and> less_size_t room' 8 then done_run (IA_Null, s')
                else if room' < 8 then None
                else encode_integer_loop cb args (index + 1) 8 (out' @ bs) (room' - 8) s')"
  by pat_completeness auto
termination
  by (relation "measure (\<lambda>(cb, args, index, intlen, out, room, s). nat room)") (auto split: if_splits)

declare encode_integer_loop.simps [simp del]

definition encode_integer_array :: "'s encode_callback \<Rightarrow> sproto_arg \<Rightarrow> int \<Rightarrow> 's \<Rightarrow> (int_array \<times> 's) run" where
  "encode_integer_array cb args room s =
     (if room < 1 then done_run (IA_Null, s) else encode_integer_loop cb args 1 4 [] (room - 1) s)"

text \<open>
  The other loops of \<open>encode_array\<close>: the result \<open>Some None\<close> is \<open>SPROTO_CB_NOARRAY\<close>.  The truth of a boolean is
  that of the \<open>int\<close> that the callback writes.
\<close>

function encode_boolean_loop :: "'s encode_callback \<Rightarrow> sproto_arg \<Rightarrow> nat \<Rightarrow> bytes \<Rightarrow> int \<Rightarrow> 's \<Rightarrow> (bytes option option \<times> 's) run" where
  "encode_boolean_loop cb args index out room s =
     bind_run (run_cb cb (args\<lparr>arg_length := 4, arg_index := int index\<rparr>) s) (\<lambda>(r, s').
       case r of
         SPROTO_CB_NIL \<Rightarrow> done_run (Some (Some out), s')
       | SPROTO_CB_NOARRAY \<Rightarrow> done_run (Some None, s')
       | SPROTO_CB_ERROR \<Rightarrow> done_run (None, s')
       | CB_Wrote bs \<Rightarrow>
           if room < 1 then done_run (None, s')
           else encode_boolean_loop cb args (index + 1) (out @ [if list_ex (\<lambda>b. b \<noteq> 0) bs then 1 else 0]) (room - 1) s')"
  by pat_completeness auto
termination by (relation "measure (\<lambda>(cb, args, index, out, room, s). nat room)") auto

declare encode_boolean_loop.simps [simp del]

function encode_object_loop :: "'s encode_callback \<Rightarrow> sproto_arg \<Rightarrow> nat \<Rightarrow> bytes \<Rightarrow> int \<Rightarrow> 's \<Rightarrow> (bytes option option \<times> 's) run" where
  "encode_object_loop cb args index out room s =
     (if room < 4 then done_run (None, s)
      else bind_run (run_cb cb (args\<lparr>arg_length := room - 4, arg_index := int index\<rparr>) s) (\<lambda>(r, s').
       case r of
         SPROTO_CB_NIL \<Rightarrow> done_run (Some (Some out), s')
       | SPROTO_CB_NOARRAY \<Rightarrow> done_run (Some None, s')
       | SPROTO_CB_ERROR \<Rightarrow> done_run (None, s')
       | CB_Wrote bs \<Rightarrow> encode_object_loop cb args (index + 1) (out @ fill_size bs) (room - 4 - int (length bs)) s'))"
  by pat_completeness auto
termination by (relation "measure (\<lambda>(cb, args, index, out, room, s). nat room)") auto

declare encode_object_loop.simps [simp del]

definition encode_array :: "'s encode_callback \<Rightarrow> sproto_arg \<Rightarrow> int \<Rightarrow> 's \<Rightarrow> (bytes option \<times> 's) run" where
  "encode_array cb args room s =
     (let wrap = (\<lambda>(r, s'). done_run (case r of None \<Rightarrow> (None, s') | Some None \<Rightarrow> (Some [], s') | Some (Some out) \<Rightarrow> (Some (fill_size out), s'))) in
      if room < 4 then done_run (None, s)
      else if arg_type args = SPROTO_TINTEGER then
        bind_run (encode_integer_array cb args (room - 4) s) (\<lambda>(r, s'). done_run (case r of
            IA_Null \<Rightarrow> (None, s')
          | IA_Noarray \<Rightarrow> (Some [], s')
          | IA_Bytes out \<Rightarrow> (Some (fill_size out), s')))
      else if arg_type args = SPROTO_TBOOLEAN then bind_run (encode_boolean_loop cb args 1 [] (room - 4) s) wrap
      else bind_run (encode_object_loop cb args 1 [] (room - 4) s) wrap)"

text \<open>
  What a field adds: nothing because it is nil, a number in its descriptor, or data; or the whole encoding
  returns, with -1 or with 0.
\<close>

datatype field_code = FC_Nil | FC_Small int | FC_Data bytes | FC_Fail | FC_Zero

definition data_code :: "bytes option \<Rightarrow> field_code" where
  "data_code r = (case r of None \<Rightarrow> FC_Fail | Some bs \<Rightarrow> if bs = [] then FC_Nil else FC_Data bs)"

definition encode_number :: "'s encode_callback \<Rightarrow> sproto_arg \<Rightarrow> int \<Rightarrow> 's \<Rightarrow> (field_code \<times> 's) run" where
  "encode_number cb args room s =
     bind_run (run_cb cb (args\<lparr>arg_length := 8\<rparr>) s) (\<lambda>(r, s'). done_run (case r of
         SPROTO_CB_NIL \<Rightarrow> (FC_Nil, s')
       | SPROTO_CB_NOARRAY \<Rightarrow> (FC_Zero, s')
       | SPROTO_CB_ERROR \<Rightarrow> (FC_Fail, s')
       | CB_Wrote bs \<Rightarrow>
           if length bs = 4 then
             (let v = (le_word bs :: u32) in
              if v < 0x7fff then (FC_Small ((uint v + 1) * 2), s') else (data_code (encode_integer v room), s'))
           else if length bs = 8 then (data_code (encode_uint64 (le_word bs) room), s')
           else (FC_Fail, s')))"

definition encode_field :: "'s encode_callback \<Rightarrow> sproto_field \<Rightarrow> int \<Rightarrow> 's \<Rightarrow> (field_code \<times> 's) run" where
  "encode_field cb f room s =
     (let args = \<lparr>arg_tagname = fd_name f, arg_tagid = fd_tag f, arg_type = fd_type f AND NOT SPROTO_TARRAY, arg_subtype = fd_st f,
            arg_value = V_None, arg_length = 0, arg_index = 0, arg_mainindex = fd_key f\<rparr>
      in if fd_type f AND SPROTO_TARRAY \<noteq> 0 then bind_run (encode_array cb args room s) (\<lambda>(r, s'). done_run (data_code r, s'))
         else if arg_type args = SPROTO_TINTEGER \<or> arg_type args = SPROTO_TBOOLEAN then encode_number cb args room s
         else if arg_type args = SPROTO_TSTRUCT \<or> arg_type args = SPROTO_TSTRING then
           bind_run (encode_object cb args room s) (\<lambda>(r, s'). done_run (data_code r, s'))
         else done_run (FC_Fail, s))"

definition le16 :: "int \<Rightarrow> bytes" where
  "le16 v = [word_of_int v, word_of_int (v div 256)]"

text \<open>
  The descriptor of a field, behind one for the tags that are skipped.
\<close>

definition descriptors :: "int \<Rightarrow> int \<Rightarrow> int \<Rightarrow> bytes option" where
  "descriptors lasttag tag value =
     (let skip = tag - lasttag - 1 in
      if skip > 0 then (if (skip - 1) * 2 + 1 > 0xffff then None else Some (le16 ((skip - 1) * 2 + 1) @ le16 value)) else Some (le16 value))"

text \<open>
  The loop of \<open>sproto_encode\<close>: the descriptors and the data so far.  More than \<open>maxn\<close> descriptors would go over the
  data.
\<close>

fun encode_fields :: "'s encode_callback \<Rightarrow> nat \<Rightarrow> sproto_field list \<Rightarrow> int \<Rightarrow> bytes \<Rightarrow> bytes \<Rightarrow> int \<Rightarrow> 's \<Rightarrow> (bytes option \<times> 's) run" where
  "encode_fields cb maxn [] lasttag header data room s =
     done_run (Some (le16 (int (length header div SIZEOF_FIELD)) @ header @ data), s)"
| "encode_fields cb maxn (f # fs) lasttag header data room s =
     bind_run (encode_field cb f room s) (\<lambda>(c, s').
       let put = (\<lambda>value new.
             case descriptors lasttag (fd_tag f) value of
               None \<Rightarrow> done_run (None, s')
             | Some d \<Rightarrow>
                 if length (header @ d) > maxn * SIZEOF_FIELD then None
                 else encode_fields cb maxn fs (fd_tag f) (header @ d) (data @ new) (room - int (length new)) s')
       in case c of
            FC_Nil \<Rightarrow> encode_fields cb maxn fs lasttag header data room s'
          | FC_Fail \<Rightarrow> done_run (None, s')
          | FC_Zero \<Rightarrow> done_run (Some [], s')
          | FC_Small value \<Rightarrow> put value []
          | FC_Data new \<Rightarrow> put 0 new)"

definition sproto_encode :: "sproto_type \<Rightarrow> int \<Rightarrow> 's encode_callback \<Rightarrow> 's \<Rightarrow> (bytes option \<times> 's) run" where
  "sproto_encode st room cb s =
     (let header_sz = int (SIZEOF_HEADER + ty_maxn st * SIZEOF_FIELD) in
      if room < header_sz then done_run (None, s)
      else encode_fields cb (ty_maxn st) (ty_f st) (- 1) [] [] (room - header_sz) s)"

section \<open>Decoding\<close>

type_synonym 's decode_callback = "sproto_arg \<Rightarrow> 's \<Rightarrow> (int \<times> 's) run"

definition expand64 :: "u32 \<Rightarrow> u64" where
  "expand64 v = (if v AND 0x80000000 \<noteq> 0 then ucast v OR push_bit 32 (- 1) else ucast v)"

text \<open>Giving the callback a number, whatever it answers, or data, for which it answers 0.\<close>

definition give_int :: "'s decode_callback \<Rightarrow> sproto_arg \<Rightarrow> u64 \<Rightarrow> 's \<Rightarrow> 's run" where
  "give_int cb args v s = bind_run (cb (args\<lparr>arg_value := V_Int v, arg_length := 8\<rparr>) s) (\<lambda>(_, s'). done_run s')"

definition give_bytes :: "'s decode_callback \<Rightarrow> sproto_arg \<Rightarrow> bytes \<Rightarrow> nat \<Rightarrow> u32 \<Rightarrow> 's \<Rightarrow> (bool \<times> 's) run" where
  "give_bytes cb args m p n s =
     (if p + unat n \<le> length m then
        bind_run (cb (args\<lparr>arg_value := V_Bytes (take (unat n) (drop p m)), arg_length := int (unat n)\<rparr>) s) (\<lambda>(r, s'). done_run (r = 0, s'))
      else None)"

text \<open>The result of these is whether the code goes on; \<open>False\<close> is -1.\<close>

function decode_array_object :: "'s decode_callback \<Rightarrow> sproto_arg \<Rightarrow> bytes \<Rightarrow> nat \<Rightarrow> nat \<Rightarrow> nat \<Rightarrow> 's \<Rightarrow> (bool \<times> 's) run" where
  "decode_array_object cb args m p sz index s =
     (if sz = 0 then done_run (True, s)
      else if sz < 4 then done_run (False, s)
      else case todword m p of
        None \<Rightarrow> None
      | Some hsz \<Rightarrow>
          if unat hsz > sz - 4 then done_run (False, s)
          else bind_run (give_bytes cb (args\<lparr>arg_index := int index\<rparr>) m (p + 4) hsz s) (\<lambda>(ok, s').
            if \<not> ok then done_run (False, s')
            else decode_array_object cb args m (p + 4 + unat hsz) (sz - 4 - unat hsz) (index + 1) s'))"
  by pat_completeness auto
termination by (relation "measure (\<lambda>(cb, args, m, p, sz, index, s). sz)") auto

declare decode_array_object.simps [simp del]

text \<open>Numbers at the places of a list, numbered from \<open>index\<close>.\<close>

fun decode_numbers :: "'s decode_callback \<Rightarrow> sproto_arg \<Rightarrow> (nat \<Rightarrow> u64 option) \<Rightarrow> nat \<Rightarrow> nat list \<Rightarrow> 's \<Rightarrow> 's run" where
  "decode_numbers cb args rd index [] s = done_run s"
| "decode_numbers cb args rd index (p # ps) s =
     (case rd p of
        None \<Rightarrow> None
      | Some v \<Rightarrow> bind_run (give_int cb (args\<lparr>arg_index := int index\<rparr>) v s) (decode_numbers cb args rd (index + 1) ps))"

definition sp_read32 :: "bytes \<Rightarrow> nat \<Rightarrow> u64 option" where
  "sp_read32 m p = map_option expand64 (todword m p)"

definition sp_read64 :: "bytes \<Rightarrow> nat \<Rightarrow> u64 option" where
  "sp_read64 m p = do { lo \<leftarrow> todword m p; hi \<leftarrow> todword m (p + 4); Some (join64 lo hi) }"

definition sp_read_byte :: "bytes \<Rightarrow> nat \<Rightarrow> u64 option" where
  "sp_read_byte m p = (if p < length m then Some (ucast (m ! p)) else None)"

definition decode_array :: "'s decode_callback \<Rightarrow> sproto_arg \<Rightarrow> bytes \<Rightarrow> nat \<Rightarrow> 's \<Rightarrow> (bool \<times> 's) run" where
  "decode_array cb args m p s =
     (case todword m p of
        None \<Rightarrow> None
      | Some sz \<Rightarrow>
          let p1 = p + 4; ok = (\<lambda>s'. done_run (True, s')) in
          if sz = 0 then bind_run (cb (args\<lparr>arg_index := - 1, arg_value := V_None, arg_length := 0\<rparr>) s) (\<lambda>(_, s'). ok s')
          else if arg_type args = SPROTO_TINTEGER then
            (if p1 < length m then
               let len = unat (m ! p1); n = unat sz - 1 in
               if len = 4 then
                 (if n mod 4 \<noteq> 0 then done_run (False, s)
                  else bind_run (decode_numbers cb args (sp_read32 m) 1 (map (\<lambda>i. p1 + 1 + i * 4) [0..<n div 4]) s) ok)
               else if len = 8 then
                 (if n mod 8 \<noteq> 0 then done_run (False, s)
                  else bind_run (decode_numbers cb args (sp_read64 m) 1 (map (\<lambda>i. p1 + 1 + i * 8) [0..<n div 8]) s) ok)
               else done_run (False, s)
             else None)
          else if arg_type args = SPROTO_TBOOLEAN then
            bind_run (decode_numbers cb args (sp_read_byte m) 1 (map (\<lambda>i. p1 + i) [0..<unat sz]) s) ok
          else if arg_type args = SPROTO_TSTRING \<or> arg_type args = SPROTO_TSTRUCT then decode_array_object cb args m p1 (nat (sint sz)) 1 s
          else done_run (False, s))"

text \<open>A field whose data starts at \<open>p\<close>.  In \<open>decode_array\<close> the size goes to \<open>decode_array_object\<close> as an \<open>int\<close>.\<close>

definition decode_data :: "'s decode_callback \<Rightarrow> sproto_field \<Rightarrow> sproto_arg \<Rightarrow> bytes \<Rightarrow> nat \<Rightarrow> 's \<Rightarrow> (bool \<times> 's) run" where
  "decode_data cb f args m p s =
     (if fd_type f AND SPROTO_TARRAY \<noteq> 0 then decode_array cb args m p s
      else case todword m p of
        None \<Rightarrow> None
      | Some sz \<Rightarrow>
          if fd_type f = SPROTO_TINTEGER then
            (if sz = 4 then (case sp_read32 m (p + 4) of None \<Rightarrow> None | Some v \<Rightarrow> bind_run (give_int cb args v s) (\<lambda>s'. done_run (True, s')))
             else if sz \<noteq> 8 then done_run (False, s)
             else (case sp_read64 m (p + 4) of None \<Rightarrow> None | Some v \<Rightarrow> bind_run (give_int cb args v s) (\<lambda>s'. done_run (True, s'))))
          else if fd_type f = SPROTO_TSTRING \<or> fd_type f = SPROTO_TSTRUCT then give_bytes cb args m (p + 4) sz s
          else done_run (False, s))"

text \<open>
  The loop of \<open>sproto_decode\<close> over the descriptors at the places \<open>ds\<close>; \<open>p\<close> is where the data is and \<open>room\<close> how much is
  left.  \<open>sz + SIZEOF_LENGTH\<close> is computed in 32 bits, and compared there.
\<close>

fun decode_fields :: "'s decode_callback \<Rightarrow> sproto_type \<Rightarrow> bytes \<Rightarrow> nat list \<Rightarrow> int \<Rightarrow> nat \<Rightarrow> int \<Rightarrow> 's \<Rightarrow> (int option \<times> 's) run" where
  "decode_fields cb st m [] tag p room s = done_run (Some (int (length m) - room), s)"
| "decode_fields cb st m (d # ds) tag p room s =
     (case toword m d of
        None \<Rightarrow> None
      | Some w \<Rightarrow>
          let tag = tag + 1 in
          if odd w then decode_fields cb st m ds (tag + int (w div 2)) p room s
          else
            let value = int (w div 2) - 1;
                go = (\<lambda>p' room'.
                  case findtag st tag of
                    None \<Rightarrow> decode_fields cb st m ds tag p' room' s
                  | Some f \<Rightarrow>
                      let args = \<lparr>arg_tagname = fd_name f, arg_tagid = fd_tag f, arg_type = fd_type f AND NOT SPROTO_TARRAY, arg_subtype = fd_st f,
                            arg_value = V_None, arg_length = 0, arg_index = 0, arg_mainindex = fd_key f\<rparr>
                      in if value < 0 then
                           bind_run (decode_data cb f args m p s) (\<lambda>(ok, s').
                             if ok then decode_fields cb st m ds tag p' room' s' else done_run (None, s'))
                         else if fd_type f \<noteq> SPROTO_TINTEGER \<and> fd_type f \<noteq> SPROTO_TBOOLEAN then done_run (None, s)
                         else bind_run (give_int cb args (word_of_int value) s) (decode_fields cb st m ds tag p' room'))
            in if value < 0 then
                 (if room < 4 then done_run (None, s)
                  else case todword m p of
                    None \<Rightarrow> None
                  | Some sz \<Rightarrow>
                      if (word_of_int room :: u32) < sz + 4 then done_run (None, s)
                      else go (p + unat (sz + 4)) (room - int (unat (sz + 4))))
               else go p room)"

definition sproto_decode :: "sproto_type \<Rightarrow> bytes \<Rightarrow> 's decode_callback \<Rightarrow> 's \<Rightarrow> (int option \<times> 's) run" where
  "sproto_decode st m cb s =
     (if length m < SIZEOF_HEADER then done_run (None, s)
      else case toword m 0 of
        None \<Rightarrow> None
      | Some fn \<Rightarrow>
          let room = int (length m) - int SIZEOF_HEADER - int (fn * SIZEOF_FIELD) in
          if room < 0 then done_run (None, s)
          else decode_fields cb st m (map (\<lambda>i. SIZEOF_HEADER + i * SIZEOF_FIELD) [0..<fn]) (- 1) (SIZEOF_HEADER + fn * SIZEOF_FIELD) room s)"

end
