(* ===== verification/SprotoSchema.thy ===== *)
theory SprotoSchema
  imports Sproto
begin

text \<open>
  What the import of a schema (\<open>lualib-src/sproto/sproto.c\<close>) promises to the queries and to the encoder: the fields of
  an imported type have ascending tags that fit in a descriptor, known types and subtypes that exist, \<open>base\<close> is the
  first tag exactly when the tags have no gap, and \<open>maxn\<close> counts the descriptors of a message with all its fields.
  From that \<open>findtag\<close>, an array access or a binary search, is the lookup of a tag.
\<close>

section \<open>Well-formed types\<close>

definition field_types :: "int list" where
  "field_types = [0, 1, 2, 3, 0x80, 0x81, 0x82, 0x83]"

definition wf_field :: "nat \<Rightarrow> sproto_field \<Rightarrow> bool" where
  "wf_field type_n f \<longleftrightarrow> 0 \<le> fd_tag f \<and> fd_tag f \<le> 32766 \<and> fd_type f \<in> set field_types \<and>
     (fd_type f AND NOT SPROTO_TARRAY = SPROTO_TSTRUCT \<longleftrightarrow> fd_st f \<noteq> None) \<and> pred_option (\<lambda>i. i < type_n) (fd_st f)"

definition tags_of :: "sproto_type \<Rightarrow> int list" where
  "tags_of t = map fd_tag (ty_f t)"

text \<open>The descriptors of the fields with these tags, behind one with the tag \<open>last\<close>: two when tags are skipped.\<close>

fun count_descriptors :: "int \<Rightarrow> int list \<Rightarrow> nat" where
  "count_descriptors lasttag [] = 0"
| "count_descriptors lasttag (t # ts) = (if t > lasttag + 1 then 2 else 1) + count_descriptors t ts"

definition base_of :: "int list \<Rightarrow> int" where
  "base_of ts = (if ts = [] then 0 else if List.last ts - List.hd ts + 1 = int (length ts) then List.hd ts else - 1)"

definition wf_type :: "nat \<Rightarrow> sproto_type \<Rightarrow> bool" where
  "wf_type type_n t \<longleftrightarrow> list_all (wf_field type_n) (ty_f t) \<and> sorted_wrt (<) (tags_of t) \<and>
     ty_base t = base_of (tags_of t) \<and> ty_maxn t = count_descriptors (- 1) (tags_of t)"

definition wf_protocol :: "nat \<Rightarrow> sproto_protocol \<Rightarrow> bool" where
  "wf_protocol type_n p \<longleftrightarrow> 0 \<le> pr_tag p \<and> pr_tag p \<le> 32766 \<and>
     (\<forall>i. pr_request p = Some i \<or> pr_response p = Some i \<longrightarrow> i < type_n)"

definition wf_sproto :: "sproto \<Rightarrow> bool" where
  "wf_sproto sp \<longleftrightarrow> list_all (wf_type (length (sp_type sp))) (sp_type sp) \<and> list_all (wf_protocol (length (sp_type sp))) (sp_proto sp)"

section \<open>The import makes them\<close>

lemma toword_less: "toword s p = Some w \<Longrightarrow> w < 65536"
  using unsigned_less [where 'a = nat, of "s ! p"] unsigned_less [where 'a = nat, of "s ! (p + 1)"] by (auto simp: toword_def split: if_splits)

definition raw_ok :: "nat \<Rightarrow> raw_field \<Rightarrow> bool" where
  "raw_ok type_n f \<longleftrightarrow> rf_tag f \<le> 32766 \<and> rf_type f \<in> {- 1, 0, 1, 2, 3} \<and> rf_array f \<in> {0, SPROTO_TARRAY} \<and>
     (rf_type f = SPROTO_TSTRUCT \<longleftrightarrow> rf_st f \<noteq> None) \<and> pred_option (\<lambda>i. i < type_n) (rf_st f)"

text \<open>The subtype comes with tag 2, so it is not there while the tag is smaller.\<close>

definition raw_at :: "nat \<Rightarrow> int \<Rightarrow> raw_field \<Rightarrow> bool" where
  "raw_at type_n tag f \<longleftrightarrow> raw_ok type_n f \<and> (tag < 2 \<longrightarrow> rf_st f = None)"

lemma raw_at_next:
  assumes "raw_at n tag f" "tag < tag'"
  shows "raw_at n tag' f" "raw_at n tag' (f\<lparr>rf_name := x\<rparr>)" "raw_at n tag' (f\<lparr>rf_key := k\<rparr>)"
    "raw_at n tag' (f\<lparr>rf_array := SPROTO_TARRAY\<rparr>)" "v \<le> 32766 \<Longrightarrow> raw_at n tag' (f\<lparr>rf_tag := v\<rparr>)"
  using assms by (auto simp: raw_at_def raw_ok_def)

lemma raw_at_type: "raw_at n tag f \<Longrightarrow> tag < 1 \<Longrightarrow> 0 \<le> v \<Longrightarrow> v < SPROTO_TSTRUCT \<Longrightarrow> raw_at n 1 (f\<lparr>rf_type := v\<rparr>)"
  by (auto simp: raw_at_def raw_ok_def SPROTO_TSTRUCT_def)

lemma raw_at_struct:
  "raw_at n tag f \<Longrightarrow> 0 \<le> v \<Longrightarrow> v < int n \<Longrightarrow> raw_at n 2 (f\<lparr>rf_type := SPROTO_TSTRUCT, rf_st := Some (nat v)\<rparr>)"
  by (auto simp: raw_at_def raw_ok_def SPROTO_TSTRUCT_def)

lemma import_field_loop_ok:
  assumes "import_field_loop s n p fn is tag f = Some (Some f')" "raw_at n tag f"
  shows "raw_ok n f'"
  using assms
proof (induction "is" arbitrary: tag f)
  case Nil
  then show ?case by (simp add: raw_at_def)
next
  case (Cons i "is")
  obtain w where w: "toword s (p + SIZEOF_FIELD * i) = Some w"
    using Cons.prems(1) by (cases "toword s (p + SIZEOF_FIELD * i)") (simp_all add: Let_def)
  define v where "v = int (w div 2) - 1"
  have small: "v \<le> 32766" using toword_less [OF w] unfolding v_def by linarith
  have pos: "0 \<le> v" if "even w" "w \<noteq> 0" unfolding v_def using that by presburger
  note prem = Cons.prems(1) [unfolded import_field_loop.simps Let_def w option.case, folded v_def]
  note keep = raw_at_next [OF Cons.prems(2)] raw_at_type [OF Cons.prems(2)] raw_at_struct [OF Cons.prems(2)]
  show ?case
  proof (cases "odd w")
    case True
    then show ?thesis using prem keep(1) by (auto intro: Cons.IH)
  next
    case False
    consider "tag + 1 = 0" | "tag + 1 = 1" "w \<noteq> 0" | "tag + 1 = 2" "w \<noteq> 0" | "tag + 1 = 3" "w \<noteq> 0" | "tag + 1 = 4" "w \<noteq> 0" | "tag + 1 = 5" "w \<noteq> 0"
      using prem False by (fastforce split: if_splits)
    then show ?thesis
    proof cases
      case 1
      then obtain x where "import_field_loop s n p fn is 0 (f\<lparr>rf_name := Some x\<rparr>) = Some (Some f')"
        using prem False by (auto simp: Option.bind_eq_Some_conv split: if_splits)
      then show ?thesis by (rule Cons.IH) (use 1 in \<open>simp add: keep\<close>)
    next
      case 2
      then show ?thesis using prem False pos keep(6) by (auto intro: Cons.IH split: if_splits)
    next
      case 3
      then show ?thesis using prem False pos keep(7) by (auto intro: Cons.IH split: if_splits)
    next
      case 4
      then show ?thesis using prem False small keep(5) by (auto intro: Cons.IH)
    next
      case 5
      then show ?thesis using prem False keep(1,4) by (auto intro: Cons.IH split: if_splits)
    next
      case 6
      then show ?thesis using prem False keep(3) by (auto intro: Cons.IH)
    qed
  qed
qed

lemma field_type_codes:
  assumes "t \<in> {0, 1, 2, 3}" "a \<in> {0, SPROTO_TARRAY}"
  shows "t OR a \<in> set field_types" "(t OR a) AND NOT SPROTO_TARRAY = t"
  using assms by (auto simp: field_types_def SPROTO_TARRAY_def)

lemma import_field_ok:
  assumes "import_field s n p = Some (Some (f, p'))"
  shows "wf_field n f"
proof -
  let ?r = "\<lparr>rf_tag = - 1, rf_type = - 1, rf_name = None, rf_st = None, rf_key = - 1, rf_array = 0\<rparr>"
  have init: "raw_at n (- 1) ?r" by (simp add: raw_at_def raw_ok_def SPROTO_TSTRUCT_def)
  from assms obtain q fn r name where loop: "import_field_loop s n q fn [0..<fn] (- 1) ?r = Some (Some r)"
    and r: "rf_name r = Some name" "0 \<le> rf_tag r" "0 \<le> rf_type r"
    and f: "f = \<lparr>fd_tag = rf_tag r, fd_type = rf_type r OR rf_array r, fd_name = name, fd_st = rf_st r, fd_key = rf_key r\<rparr>"
    by (auto simp: import_field_def Let_def Option.bind_eq_Some_conv split: option.splits if_splits)
  have ok: "raw_ok n r" by (rule import_field_loop_ok [OF loop init])
  then have "rf_type r \<in> {0, 1, 2, 3}" "rf_array r \<in> {0, SPROTO_TARRAY}" using r(3) by (auto simp: raw_ok_def)
  then show ?thesis using ok r(2) field_type_codes [of "rf_type r" "rf_array r"] by (simp add: wf_field_def f raw_ok_def)
qed

text \<open>The fields, with \<open>maxn\<close> so far counting the fields that are left once each.\<close>

lemma import_fields_ok:
  assumes "import_fields s n k p lasttag maxn = Some (Some (fs, m))" "k \<le> maxn"
  shows "length fs = k \<and> list_all (wf_field n) fs \<and> sorted_wrt (<) (lasttag # map fd_tag fs) \<and>
    m = maxn - k + count_descriptors lasttag (map fd_tag fs)"
  using assms
proof (induction k arbitrary: p lasttag maxn fs m)
  case (Suc k)
  obtain f p' where f: "import_field s n p = Some (Some (f, p'))"
    using Suc.prems(1) by (auto split: option.splits)
  let ?maxn = "if lasttag + 1 < fd_tag f then maxn + 1 else maxn"
  obtain gs where later: "lasttag < fd_tag f" and rest: "import_fields s n k p' (fd_tag f) ?maxn = Some (Some (gs, m))" and fs: "fs = f # gs"
    using Suc.prems(1) f by (auto split: if_splits)
  have ih: "length gs = k \<and> list_all (wf_field n) gs \<and> sorted_wrt (<) (fd_tag f # map fd_tag gs) \<and>
      m = ?maxn - k + count_descriptors (fd_tag f) (map fd_tag gs)"
    by (rule Suc.IH [OF rest]) (use Suc.prems(2) in auto)
  then have "\<forall>t \<in> fd_tag ` set gs. lasttag < t" using later by (auto intro: less_trans)
  moreover have "m = maxn - Suc k + count_descriptors lasttag (map fd_tag fs)" using ih Suc.prems(2) fs by auto
  ultimately show ?case using ih later import_field_ok [OF f] fs by simp
qed simp

lemma import_type_ok:
  assumes "import_type s n p = Some (Some (t, p'))"
  shows "wf_type n t"
proof -
  have "(ty_f t = [] \<and> ty_base t = 0 \<and> ty_maxn t = 0) \<or>
      (\<exists>q k. import_fields s n k q (- 1) k = Some (Some (ty_f t, ty_maxn t)) \<and> ty_f t \<noteq> [] \<and>
        ty_base t = (if fd_tag (last (ty_f t)) - fd_tag (hd (ty_f t)) + 1 \<noteq> int k then - 1 else fd_tag (hd (ty_f t))))"
  proof -
    note type = assms [unfolded import_type_def Let_def]
    obtain sz where "todword s p = Some sz" using type by (cases "todword s p") simp_all
    note type = type [unfolded this option.case]
    obtain r where "struct_field s (p + SIZEOF_LENGTH) (unat sz) = Some r"
      using type by (cases "struct_field s (p + SIZEOF_LENGTH) (unat sz)") simp_all
    note type = type [unfolded this option.case]
    obtain fn where "r = Some fn" using type by (cases r) simp_all
    note type = type [unfolded this option.case]
    have "\<not> (fn = 0 \<or> 2 < fn)" using type by (auto split: if_splits)
    note type = type [unfolded if_not_P [OF this]]
    obtain vs where "those (map (\<lambda>i. toword s (p + SIZEOF_LENGTH + SIZEOF_HEADER + i * SIZEOF_FIELD)) [0..<fn]) = Some vs"
      using type by (cases "those (map (\<lambda>i. toword s (p + SIZEOF_LENGTH + SIZEOF_HEADER + i * SIZEOF_FIELD)) [0..<fn])") simp_all
    note type = type [unfolded this option.case]
    have "\<not> list_ex (\<lambda>v. v \<noteq> 0) vs" using type by (auto split: if_splits)
    note type = type [unfolded if_not_P [OF this]]
    let ?p = "p + SIZEOF_LENGTH + SIZEOF_HEADER + fn * SIZEOF_FIELD"
    obtain name where "import_string s ?p = Some name" using type by (cases "import_string s ?p") simp_all
    note type = type [unfolded this option.case]
    show ?thesis
    proof (cases "fn = 1")
      case False
      note type = type [unfolded if_not_P [OF False]]
      obtain len where len: "todword s ?p = Some len" using type by (cases "todword s ?p") simp_all
      note type = type [unfolded this Option.bind.simps]
      obtain c where "count_array s (?p + unat (len + 4)) = Some c" using type by (cases "count_array s (?p + unat (len + 4))") simp_all
      note type = type [unfolded this Option.bind.simps]
      obtain k where "c = Some k" using type by (cases c) simp_all
      note type = type [unfolded this option.case]
      let ?fields = "import_fields s n k (?p + unat (len + 4) + SIZEOF_LENGTH) (- 1) k"
      obtain r where r: "?fields = Some r" using type by (cases ?fields) simp_all
      note type = type [unfolded this Option.bind.simps]
      obtain fs maxn where fs: "r = Some (fs, maxn)" using type by (cases r) auto
      note type = type [unfolded this option.case prod.case]
      have ne: "fs \<noteq> []" using type by auto
      note type = type [unfolded if_not_P [OF ne]]
      have t: "t = \<lparr>ty_name = name, ty_base = (if fd_tag (last fs) - fd_tag (hd fs) + 1 \<noteq> int k then - 1 else fd_tag (hd fs)), ty_maxn = maxn, ty_f = fs\<rparr>"
        using type by simp
      have "?fields = Some (Some (ty_f t, ty_maxn t))" by (simp add: t r fs)
      then show ?thesis using ne by (intro disjI2 exI conjI) (assumption, simp_all add: t)
    qed (use type in auto)
  qed
  then show ?thesis
  proof (elim disjE exE conjE)
    fix q k
    assume fields: "import_fields s n k q (- 1) k = Some (Some (ty_f t, ty_maxn t))" and ne: "ty_f t \<noteq> []"
      and base: "ty_base t = (if fd_tag (last (ty_f t)) - fd_tag (hd (ty_f t)) + 1 \<noteq> int k then - 1 else fd_tag (hd (ty_f t)))"
    have "length (ty_f t) = k \<and> list_all (wf_field n) (ty_f t) \<and> sorted_wrt (<) (- 1 # map fd_tag (ty_f t)) \<and>
        ty_maxn t = k - k + count_descriptors (- 1) (map fd_tag (ty_f t))"
      by (rule import_fields_ok [OF fields order_refl])
    then show "wf_type n t" using ne by (auto simp: wf_type_def tags_of_def base_of_def base last_map hd_map)
  qed (simp add: wf_type_def tags_of_def base_of_def)
qed

definition raw_protocol_ok :: "nat \<Rightarrow> raw_protocol \<Rightarrow> bool" where
  "raw_protocol_ok n r \<longleftrightarrow> rp_tag r \<le> 32766 \<and> pred_option (\<lambda>i. i < n) (rp_request r) \<and> pred_option (\<lambda>i. i < n) (rp_response r)"

lemma import_protocol_loop_ok:
  assumes "import_protocol_loop s n p fn is r = Some (Some r')" "raw_protocol_ok n r"
  shows "raw_protocol_ok n r'"
  using assms
proof (induction "is" arbitrary: r)
  case (Cons i "is")
  obtain w where w: "toword s (p + SIZEOF_FIELD * i) = Some w"
    using Cons.prems(1) by (cases "toword s (p + SIZEOF_FIELD * i)") (simp_all add: Let_def)
  define v where "v = int (w div 2) - 1"
  have small: "v \<le> 32766" using toword_less [OF w] unfolding v_def by linarith
  note prem = Cons.prems(1) [unfolded import_protocol_loop.simps Let_def w option.case, folded v_def]
  have "\<exists>r''. import_protocol_loop s n p fn is r'' = Some (Some r') \<and> raw_protocol_ok n r''"
  proof (cases "odd w")
    case True
    then show ?thesis using prem Cons.prems(2) by auto
  next
    case False
    consider "i = 0" | "i = 1" | "i = 2" | "i = 3" using prem False by (fastforce split: if_splits)
    then show ?thesis
    proof cases
      case 1
      then obtain x where "import_protocol_loop s n p fn is (r\<lparr>rp_name := Some x\<rparr>) = Some (Some r')"
        using prem False by (auto simp: Option.bind_eq_Some_conv split: if_splits)
      then show ?thesis using Cons.prems(2) by (auto simp: raw_protocol_ok_def)
    qed (use prem False small Cons.prems(2) in \<open>auto simp: raw_protocol_ok_def split: if_splits intro!: exI conjI\<close>)
  qed
  then show ?case using Cons.IH by blast
qed simp

lemma import_protocol_ok:
  assumes "import_protocol s n p = Some (Some (pr, p'))"
  shows "wf_protocol n pr"
proof -
  let ?r = "\<lparr>rp_name = None, rp_tag = - 1, rp_request = None, rp_response = None\<rparr>"
  from assms obtain q fn r name where loop: "import_protocol_loop s n q fn [0..<fn] ?r = Some (Some r)"
    and r: "rp_name r = Some name" "0 \<le> rp_tag r"
    and pr: "pr = \<lparr>pr_name = name, pr_tag = rp_tag r, pr_request = rp_request r, pr_response = rp_response r\<rparr>"
    by (auto simp: import_protocol_def Let_def Option.bind_eq_Some_conv split: option.splits if_splits)
  have "raw_protocol_ok n r" by (rule import_protocol_loop_ok [OF loop]) (simp add: raw_protocol_ok_def)
  then show ?thesis using r(2) by (auto simp: wf_protocol_def pr raw_protocol_ok_def)
qed

lemma import_all_ok:
  assumes "import_all f k p = Some (Some xs)" "\<And>q x q'. f q = Some (Some (x, q')) \<Longrightarrow> P x"
  shows "length xs = k \<and> list_all P xs"
  using assms(1)
proof (induction k arbitrary: p xs)
  case (Suc k)
  obtain x p' where x: "f p = Some (Some (x, p'))" using Suc.prems by (auto split: option.splits)
  then obtain ys where "import_all f k p' = Some (Some ys)" "xs = x # ys" using Suc.prems by auto
  then show ?case using Suc.IH assms(2) [OF x] by simp
qed simp

text \<open>C23. Every schema that \<open>sproto_create\<close> accepts, whatever bytes it is given, is well formed: each type has fields with
  ascending tags below 32767, with a known type and, for a struct, an existing subtype; \<open>base\<close> and \<open>maxn\<close> are what
  the lookup of a tag and the encoder rely on; each protocol refers to existing types.
\<close>

theorem created_schema_is_well_formed:
  assumes "sproto_create bundle = Some (Some sp)"
  shows "wf_sproto sp"
proof -
  obtain n k p q ts ps where "import_all (import_type bundle n) n p = Some (Some ts)" "import_all (import_protocol bundle n) k q = Some (Some ps)"
    and sp: "sp = \<lparr>sp_type = ts, sp_proto = ps\<rparr>"
    using assms
    by (auto simp: sproto_create_def create_from_bundle_def Let_def Option.bind_eq_Some_conv simp del: import_all.simps
        split: option.splits if_splits prod.splits)
  then have "length ts = n \<and> list_all (wf_type n) ts" "length ps = k \<and> list_all (wf_protocol n) ps"
    by (auto elim!: import_all_ok intro: import_type_ok import_protocol_ok)
  then show ?thesis by (simp add: wf_sproto_def sp)
qed

definition example_bundle :: bytes where
  "example_bundle = [1, 0, 0, 0, 38, 0, 0, 0, 34, 0, 0, 0, 2, 0, 0, 0, 0, 0, 1, 0, 0, 0, 97, 19, 0, 0, 0, 15, 0, 0, 0,
     4, 0, 0, 0, 2, 0, 1, 0, 2, 0, 1, 0, 0, 0, 120]"

definition example_field :: sproto_field where
  "example_field = \<lparr>fd_tag = 0, fd_type = 0, fd_name = [120], fd_st = None, fd_key = - 1\<rparr>"

definition example_schema :: sproto where
  "example_schema = \<lparr>sp_type = [\<lparr>ty_name = [97], ty_base = 0, ty_maxn = 1, ty_f = [example_field]\<rparr>], sp_proto = []\<rparr>"

lemma example_created: "sproto_create example_bundle = Some (Some example_schema)"
  by code_simp

lemma created_schema_is_well_formed_witness: "wf_sproto example_schema"
  by (rule created_schema_is_well_formed [OF example_created])

section \<open>The lookup of a tag\<close>

text \<open>
  The binary search, on ascending tags: what it finds is the only place of the tag, and when it finds nothing the tag is
  not there.
\<close>

lemma sorted_tags_less: "sorted_wrt (<) ts \<Longrightarrow> i < j \<Longrightarrow> j < length ts \<Longrightarrow> ts ! i < (ts ! j :: int)"
  by (simp add: sorted_wrt_iff_nth_less)

lemma search_tag_ok:
  assumes "sorted_wrt (<) ts" "e \<le> length ts"
  shows "case search_tag ts tag b e of Some i \<Rightarrow> b \<le> i \<and> i < e \<and> ts ! i = tag | None \<Rightarrow> tag \<notin> (!) ts ` {b..<e}"
  using assms(2)
proof (induction "e - b" arbitrary: b e rule: less_induct)
  case less
  show ?case
  proof (cases "b < e")
    case True
    define mid where "mid = (b + e) div 2"
    have mid: "b \<le> mid" "mid < e" using True by (auto simp: mid_def)
    note step = search_tag.simps [of ts tag b e, folded mid_def]
    consider "ts ! mid = tag" | "ts ! mid < tag" | "tag < ts ! mid" by linarith
    then show ?thesis
    proof cases
      case 1
      then show ?thesis using mid True by (simp add: step Let_def)
    next
      case 2
      have "ts ! i < tag" if "i \<le> mid" for i
        using 2 that sorted_tags_less [OF assms(1), of i mid] mid less.prems by (cases "i = mid") auto
      then have "tag \<notin> (!) ts ` {b..<Suc mid}" by (metis atLeastLessThan_iff imageE less_Suc_eq_le less_irrefl)
      moreover have "{b..<e} = {b..<Suc mid} \<union> {Suc mid..<e}" and shorter: "e - Suc mid < e - b" using mid by auto
      ultimately show ?thesis
        using less.hyps [OF shorter] less.prems 2 mid True by (auto simp: step Let_def image_Un split: option.splits)
    next
      case 3
      have "tag < ts ! i" if "mid \<le> i" "i < e" for i
        using 3 that sorted_tags_less [OF assms(1), of mid i] less.prems by (cases "i = mid") auto
      then have "tag \<notin> (!) ts ` {mid..<e}" by (metis atLeastLessThan_iff imageE less_irrefl)
      moreover have "{b..<e} = {b..<mid} \<union> {mid..<e}" and shorter: "mid - b < e - b" using mid by auto
      ultimately show ?thesis
        using less.hyps [OF shorter] less.prems 3 mid True by (auto simp: step Let_def image_Un split: option.splits)
    qed
  qed (simp add: search_tag.simps [of ts tag b e])
qed

lemma find_by_tag_nth:
  assumes "sorted_wrt (<) (map f xs)" "i < length xs"
  shows "List.find (\<lambda>x. f x = (f (xs ! i) :: int)) xs = Some (xs ! i)"
proof -
  have "f (xs ! j) \<noteq> f (xs ! i)" if "j < i" for j
    using sorted_tags_less [OF assms(1) that] assms(2) that by simp
  then show ?thesis using assms(2) by (auto simp: find_Some_iff)
qed

lemma search_is_lookup:
  assumes "sorted_wrt (<) (map f xs)"
  shows "map_option ((!) xs) (search_tag (map f xs) tag 0 (length xs)) = List.find (\<lambda>x. f x = tag) xs"
proof (cases "search_tag (map f xs) tag 0 (length xs)")
  case None
  then have "\<forall>i < length xs. f (xs ! i) \<noteq> tag" using search_tag_ok [OF assms, of "length xs" tag 0] by auto
  then have "List.find (\<lambda>x. f x = tag) xs = None" by (auto simp: find_None_iff in_set_conv_nth)
  then show ?thesis using None by simp
next
  case (Some i)
  then have "i < length xs" "f (xs ! i) = tag" using search_tag_ok [OF assms, of "length xs" tag 0] by auto
  then show ?thesis using find_by_tag_nth [OF assms, of i] Some by simp
qed

lemma tags_spread:
  assumes "sorted_wrt (<) ts" "i \<le> j" "j < length ts"
  shows "ts ! i + int (j - i) \<le> (ts ! j :: int)"
  using assms(2,3)
proof (induction j rule: nat_induct_at_least)
  case (Suc j)
  then show ?case using sorted_tags_less [OF assms(1), of j "Suc j"] by (simp add: Suc_diff_le)
qed simp

lemma tags_without_gap:
  assumes "sorted_wrt (<) ts" "ts \<noteq> []" "List.last ts - List.hd ts + 1 = int (length ts)" "i < length ts"
  shows "ts ! i = List.hd ts + int i"
proof -
  have l: "last ts = ts ! (length ts - 1)" and h: "hd ts = ts ! 0" using assms(2) by (simp_all add: last_conv_nth hd_conv_nth)
  have "i \<le> length ts - 1" "length ts - 1 < length ts" using assms(2,4) by auto
  then show ?thesis
    using tags_spread [OF assms(1), of 0 i] tags_spread [OF assms(1), of i "length ts - 1"] assms(3,4) unfolding l h by (simp add: of_nat_diff)
qed

lemma findtag_lookup:
  assumes "wf_type n t"
  shows "findtag t tag = List.find (\<lambda>f. fd_tag f = tag) (ty_f t)"
proof (cases "ty_base t \<ge> 0")
  case True
  have sorted: "sorted_wrt (<) (map fd_tag (ty_f t))" and base: "ty_base t = base_of (map fd_tag (ty_f t))"
    using assms by (simp_all add: wf_type_def tags_of_def)
  show ?thesis
  proof (cases "ty_f t = []")
    case False
    then have ne: "map fd_tag (ty_f t) \<noteq> []" and gap: "last (map fd_tag (ty_f t)) - hd (map fd_tag (ty_f t)) + 1 = int (length (map fd_tag (ty_f t)))"
      and b: "ty_base t = hd (map fd_tag (ty_f t))"
      using True base by (auto simp: base_of_def split: if_splits)
    have at: "fd_tag (ty_f t ! i) = ty_base t + int i" if "i < length (ty_f t)" for i
      using tags_without_gap [OF sorted ne gap, of i] that by (simp add: b)
    show ?thesis
    proof (cases "0 \<le> tag - ty_base t \<and> tag - ty_base t < int (length (ty_f t))")
      case inside: True
      then have i: "nat (tag - ty_base t) < length (ty_f t)" by linarith
      then have "fd_tag (ty_f t ! nat (tag - ty_base t)) = tag" using at inside by simp
      then show ?thesis using find_by_tag_nth [OF sorted i] True inside by (simp add: findtag_def Let_def)
    next
      case outside: False
      then have "\<forall>i < length (ty_f t). fd_tag (ty_f t ! i) \<noteq> tag" using at by auto
      then have "List.find (\<lambda>f. fd_tag f = tag) (ty_f t) = None" by (auto simp: find_None_iff in_set_conv_nth)
      then show ?thesis using True outside by (auto simp: findtag_def Let_def)
    qed
  qed (use True in \<open>simp add: findtag_def Let_def; linarith\<close>)
next
  case False
  have "sorted_wrt (<) (map fd_tag (ty_f t))" using assms by (simp add: wf_type_def tags_of_def)
  from search_is_lookup [OF this] show ?thesis using False by (simp add: findtag_def)
qed

text \<open>C25. In a type of an accepted schema \<open>findtag\<close>, which takes the field at \<open>tag - base\<close> or searches by halving,
  gives the field with the tag, and nothing exactly when no field has it.
\<close>

theorem findtag_is_lookup:
  assumes "wf_type n t"
  shows "findtag t tag = List.find (\<lambda>f. fd_tag f = tag) (ty_f t)"
  by (rule findtag_lookup [OF assms])

lemma findtag_is_lookup_witness: "findtag (sp_type example_schema ! 0) 0 = Some example_field"
proof -
  have "wf_type 1 (sp_type example_schema ! 0)"
    by (simp add: example_schema_def wf_type_def wf_field_def example_field_def field_types_def tags_of_def base_of_def sproto_types)
  from findtag_is_lookup [OF this, of 0] show ?thesis by (simp add: example_schema_def example_field_def)
qed

text \<open>
  \<open>query_proto\<close> searches the protocols in the same way, but the import does not ask for ascending tags.
\<close>

lemma query_proto_is_lookup:
  "sorted_wrt (<) (map pr_tag (sp_proto sp)) \<Longrightarrow> query_proto sp tag = List.find (\<lambda>p. pr_tag p = tag) (sp_proto sp)"
  using search_is_lookup [of pr_tag "sp_proto sp"] by (simp add: query_proto_def)

text \<open>C0. The import lets protocols through whose tags do not ascend, and then a protocol that is there, and whose name
  gives its tag, is not found by the tag.
\<close>

theorem query_proto_needs_order:
  "\<exists>sp name tag. wf_sproto sp \<and> sproto_prototag sp name = tag \<and> tag \<ge> 0 \<and> query_proto sp tag = None"
proof -
  let ?p = "\<lambda>c t. \<lparr>pr_name = [c], pr_tag = t, pr_request = None, pr_response = None\<rparr>"
  let ?sp = "\<lparr>sp_type = [], sp_proto = [?p 98 2, ?p 97 1]\<rparr>"
  have "wf_sproto ?sp" "sproto_prototag ?sp [98] = 2" "query_proto ?sp 2 = None"
    by (simp_all add: wf_sproto_def wf_protocol_def sproto_prototag_def same_cstring_def query_proto_def search_tag.simps Let_def)
  then show ?thesis by (intro exI conjI) (assumption+, simp_all)
qed

end
