(* ===== verification/SprotoCodec.thy ===== *)
theory SprotoCodec
  imports SprotoSchema
begin

text \<open>
  Encoding and decoding a message of sproto (\<open>lualib-src/sproto/sproto.c\<close>) fit together: \<open>layout\<close> says which bytes a
  message has, \<open>sproto_encode\<close> writes them when there is room, and \<open>sproto_decode\<close> gives the values back to its
  callback, in the order of the tags.
\<close>

section \<open>Messages\<close>

text \<open>The content of the field with a tag: what the callback writes, once, or once for each element of an array.\<close>

datatype content = C_One bytes | C_List "bytes list"

type_synonym message = "int \<Rightarrow> content option"

definition provide :: "message \<Rightarrow> 's encode_callback" where
  "provide msg args s =
     (let give = (\<lambda>bs. if int (length bs) \<le> arg_length args then CB_Wrote bs else SPROTO_CB_ERROR)
      in done_run (case msg (arg_tagid args) of
           None \<Rightarrow> if arg_index args > 0 then SPROTO_CB_NOARRAY else SPROTO_CB_NIL
         | Some (C_One bs) \<Rightarrow> give bs
         | Some (C_List xs) \<Rightarrow> if nat (arg_index args) \<le> length xs then give (xs ! (nat (arg_index args) - 1)) else SPROTO_CB_NIL, s))"

definition is_array :: "sproto_field \<Rightarrow> bool" where
  "is_array f \<longleftrightarrow> fd_type f AND SPROTO_TARRAY \<noteq> 0"

definition base_type :: "sproto_field \<Rightarrow> int" where
  "base_type f = fd_type f AND NOT SPROTO_TARRAY"

definition number_ok :: "int \<Rightarrow> bytes \<Rightarrow> bool" where
  "number_ok t bs \<longleftrightarrow> (if t = SPROTO_TINTEGER then length bs = 4 \<or> length bs = 8 else t = SPROTO_TBOOLEAN \<longrightarrow> length bs = 4)"

fun suits :: "sproto_field \<Rightarrow> content \<Rightarrow> bool" where
  "suits f (C_One bs) \<longleftrightarrow> \<not> is_array f \<and> number_ok (base_type f) bs \<and> (base_type f = SPROTO_TBOOLEAN \<longrightarrow> (le_word bs :: u32) < 0x7fff)"
| "suits f (C_List xs) \<longleftrightarrow> is_array f \<and> list_all (number_ok (base_type f)) xs"

section \<open>The bytes of a message\<close>

definition widened :: "bytes \<Rightarrow> bytes" where
  "widened x = (if length x = 4 then sign_extend x else x)"

definition integers_code :: "bytes list \<Rightarrow> bytes" where
  "integers_code xs =
     (if xs = [] then [] else if list_all (\<lambda>x. length x = 4) xs then 4 # concat xs else 8 # concat (map widened xs))"

definition truth :: "bytes \<Rightarrow> u8" where
  "truth x = (if list_ex (\<lambda>b. b \<noteq> 0) x then 1 else 0)"

fun content_code :: "int \<Rightarrow> content \<Rightarrow> int \<times> bytes" where
  "content_code t (C_One bs) =
     (if (t = SPROTO_TINTEGER \<or> t = SPROTO_TBOOLEAN) \<and> length bs = 4 \<and> (le_word bs :: u32) < 0x7fff
      then ((uint (le_word bs :: u32) + 1) * 2, []) else (0, fill_size bs))"
| "content_code t (C_List xs) =
     (0, fill_size (if t = SPROTO_TINTEGER then integers_code xs else if t = SPROTO_TBOOLEAN then map truth xs else concat (map fill_size xs)))"

text \<open>The descriptors, as numbers, and the data of the fields behind the tag \<open>lasttag\<close>.\<close>

fun layout :: "message \<Rightarrow> int \<Rightarrow> sproto_field list \<Rightarrow> int list \<times> bytes" where
  "layout msg lasttag [] = ([], [])"
| "layout msg lasttag (f # fs) =
     (case msg (fd_tag f) of
        None \<Rightarrow> layout msg lasttag fs
      | Some c \<Rightarrow>
          let (value, new) = content_code (base_type f) c;
              skip = fd_tag f - lasttag - 1;
              (ws, data) = layout msg (fd_tag f) fs
          in ((if skip > 0 then [(skip - 1) * 2 + 1, value] else [value]) @ ws, new @ data))"

definition message_code :: "sproto_type \<Rightarrow> message \<Rightarrow> bytes" where
  "message_code t msg = (case layout msg (- 1) (ty_f t) of (ws, data) \<Rightarrow> le16 (int (length ws)) @ concat (map le16 ws) @ data)"

text \<open>Room that is enough for the field, whatever way its bytes are found.\<close>

fun content_need :: "int \<Rightarrow> content \<Rightarrow> nat" where
  "content_need t (C_One bs) = max 12 (4 + length bs)"
| "content_need t (C_List xs) =
     (if t = SPROTO_TINTEGER then 13 + 8 * length xs
      else if t = SPROTO_TBOOLEAN then 4 + length xs else 8 + length (concat (map fill_size xs)))"

definition fields_need :: "message \<Rightarrow> sproto_field list \<Rightarrow> nat" where
  "fields_need msg fs = sum_list (map (\<lambda>f. case msg (fd_tag f) of None \<Rightarrow> 0 | Some c \<Rightarrow> content_need (base_type f) c) fs)"

text \<open>
  Room that is enough for a message: the fields, and eight bytes behind them, which the code for an array asks for before it
  knows that the array has no elements.
\<close>

definition message_need :: "sproto_type \<Rightarrow> message \<Rightarrow> nat" where
  "message_need t msg = SIZEOF_HEADER + ty_maxn t * SIZEOF_FIELD + fields_need msg (ty_f t) + 8"

section \<open>What the encoder writes\<close>

text \<open>An encoding step gives what it should, or it did not have the room that is enough.\<close>

definition gives :: "'a run \<Rightarrow> bool \<Rightarrow> 'a \<Rightarrow> 'a \<Rightarrow> bool" where
  "gives m enough good fail \<longleftrightarrow> m = done_run good \<or> \<not> enough \<and> (m = done_run fail \<or> m = None)"

lemma givesI: "m = done_run good \<Longrightarrow> gives m e good fail" "\<not> e \<Longrightarrow> gives (done_run fail) e good fail" "\<not> e \<Longrightarrow> gives None e good fail"
  by (simp_all add: gives_def)

lemma gives_bind:
  assumes "gives m e x y" "gives (f x) e' good fail" "f y = done_run fail" "e' \<Longrightarrow> e"
  shows "gives (bind_run m f) e' good fail"
  using assms by (auto simp: gives_def)

lemma gives_map:
  assumes "gives m e x y" "f x = done_run good" "f y = done_run fail"
  shows "gives (bind_run m f) e good fail"
  using assms by (auto simp: gives_def)

lemma run_provide:
  "run_cb (provide msg) args s = bind_run (provide msg args s) done_run"
  by (auto simp: run_cb_def provide_def Let_def split: option.splits content.splits if_splits)

lemma provide_list:
  assumes "msg (arg_tagid args) = Some (C_List (pre @ ys))" "arg_index args = int (Suc (length pre))"
  shows "run_cb (provide msg) args s = done_run (case ys of [] \<Rightarrow> SPROTO_CB_NIL
    | y # _ \<Rightarrow> if int (length y) \<le> arg_length args then CB_Wrote y else SPROTO_CB_ERROR, s)"
proof -
  have "nat (arg_index args) = Suc (length pre)" using assms(2) by simp
  then show ?thesis using assms(1) by (cases ys) (simp_all add: run_provide provide_def nth_append)
qed

lemma provide_one:
  assumes "msg (arg_tagid args) = Some (C_One bs)"
  shows "run_cb (provide msg) args s = done_run (if int (length bs) \<le> arg_length args then CB_Wrote bs else SPROTO_CB_ERROR, s)"
  using assms by (simp add: run_provide provide_def)

lemma provide_none:
  assumes "msg (arg_tagid args) = None"
  shows "run_cb (provide msg) args s = done_run (if arg_index args > 0 then SPROTO_CB_NOARRAY else SPROTO_CB_NIL, s)"
  using assms by (simp add: run_provide provide_def)

lemma length_fill_size [simp]: "length (fill_size bs) = 4 + length bs"
  by (simp add: fill_size_def)

text \<open>The bytes of the numbers so far, and their width.\<close>

definition all4 :: "bytes list \<Rightarrow> bool" where
  "all4 xs \<longleftrightarrow> list_all (\<lambda>x. length x = 4) xs"

definition numbers_out :: "bytes list \<Rightarrow> bytes" where
  "numbers_out xs = (if all4 xs then concat xs else concat (map widened xs))"

definition numbers_width :: "bytes list \<Rightarrow> nat" where
  "numbers_width xs = (if all4 xs then 4 else 8)"

lemma widen_concat: "all4 xs \<Longrightarrow> widen (concat xs) = concat (map widened xs)"
proof (induction xs)
  case (Cons x xs)
  then obtain a b c d where "x = [a, b, c, d]" by (auto simp: all4_def numeral_nat length_Suc_conv)
  then show ?case using Cons by (simp add: all4_def widened_def)
qed (simp add: all4_def)

lemma length_widened: "number_ok SPROTO_TINTEGER x \<Longrightarrow> length (widened x) = 8"
  by (auto simp: number_ok_def widened_def)

lemma length_all_widened: "list_all (number_ok SPROTO_TINTEGER) xs \<Longrightarrow> length (concat (map widened xs)) = 8 * length xs"
  by (induction xs) (simp_all add: length_widened)

lemma length_all4: "all4 xs \<Longrightarrow> length (concat xs) = 4 * length xs"
  unfolding all4_def by (induction xs) simp_all

lemma numbers_out_nonempty: "list_all (number_ok SPROTO_TINTEGER) xs \<Longrightarrow> numbers_out xs = [] \<longleftrightarrow> xs = []"
proof -
  assume ok: "list_all (number_ok SPROTO_TINTEGER) xs"
  have "length (numbers_out xs) = (if all4 xs then 4 else 8) * length xs"
    using length_all_widened [OF ok] length_all4 [of xs] by (simp add: numbers_out_def)
  then show ?thesis by (auto simp flip: length_0_conv)
qed

lemma integers_code_out:
  "integers_code xs = (if xs = [] then [] else of_nat (numbers_width xs) # numbers_out xs)"
  by (simp add: integers_code_def numbers_width_def numbers_out_def all4_def)

lemma less_size_t_nonneg: "0 \<le> a \<Longrightarrow> a < 2 ^ 31 \<Longrightarrow> less_size_t a 8 \<longleftrightarrow> a < 8"
  by (simp add: less_size_t_def word_less_def uint_word_of_int)

lemma encode_integer_loop_gives:
  assumes "msg (arg_tagid args) = Some (C_List (pre @ ys))" "list_all (number_ok SPROTO_TINTEGER) (pre @ ys)"
    "0 \<le> room" "int (length (numbers_out pre)) + room = R" "R < 2 ^ 31"
  shows "gives (encode_integer_loop (provide msg) args (Suc (length pre)) (numbers_width pre) (numbers_out pre) room s)
    (8 * int (length (pre @ ys)) + 8 \<le> R) (IA_Bytes (integers_code (pre @ ys)), s) (IA_Null, s)"
  using assms
proof (induction ys arbitrary: pre room)
  case Nil
  then show ?case
    by (subst encode_integer_loop.simps) (auto simp: provide_list [where pre = pre and ys = "[]"] gives_def integers_code_out numbers_out_nonempty)
next
  case (Cons y ys)
  let ?k = "length pre"
  have pre: "list_all (number_ok SPROTO_TINTEGER) pre" using Cons.prems(2) by simp
  have y: "length y = 4 \<or> length y = 8" using Cons.prems(2) by (simp add: number_ok_def)
  have le: "length (numbers_out pre) \<le> 8 * ?k"
    using length_all4 [of pre] length_all_widened [OF pre] by (simp add: numbers_out_def)
  have cb: "run_cb (provide msg) (args\<lparr>arg_length := 8, arg_index := int (Suc ?k)\<rparr>) s = done_run (CB_Wrote y, s)"
    using Cons.prems(1) y by (subst provide_list [where pre = pre and ys = "y # ys"]) auto
  have ih: "gives (encode_integer_loop (provide msg) args (Suc (Suc ?k)) (numbers_width (pre @ [y])) (numbers_out (pre @ [y])) room' s)
      (8 * int (length (pre @ y # ys)) + 8 \<le> R) (IA_Bytes (integers_code (pre @ y # ys)), s) (IA_Null, s)"
    if "0 \<le> room'" "int (length (numbers_out (pre @ [y]))) + room' = R" for room'
    using Cons.IH [of "pre @ [y]" room'] Cons.prems that by simp
  note step = encode_integer_loop.simps [of "provide msg" args "Suc ?k" "numbers_width pre" "numbers_out pre" room s, unfolded cb bind_run_simps prod.case cb_result.case]
  have y_ne: "y \<noteq> []" using y by auto
  show ?case
  proof (cases "room < 8")
    case True
    then have "less_size_t room 8" using Cons.prems(3) by (simp add: less_size_t_nonneg)
    moreover have "\<not> 8 * int (length (pre @ y # ys)) + 8 \<le> R" using True le Cons.prems(4) by simp
    ultimately show ?thesis by (simp add: step gives_def)
  next
    case False
    then have room: "\<not> less_size_t room 8" using Cons.prems(4,5) by (simp add: less_size_t_nonneg)
    show ?thesis
    proof (cases "length y = 4")
      case True
      let ?w = "if numbers_width pre = 8 then sign_extend y else y"
      have w: "int (length ?w) \<le> room" using False True by simp
      have out: "numbers_width (pre @ [y]) = numbers_width pre" "numbers_out (pre @ [y]) = numbers_out pre @ ?w"
        using True by (simp_all add: numbers_width_def numbers_out_def all4_def widened_def)
      have "gives (encode_integer_loop (provide msg) args (Suc (Suc ?k)) (numbers_width pre) (numbers_out pre @ ?w) (room - int (length ?w)) s)
          (8 * int (length (pre @ y # ys)) + 8 \<le> R) (IA_Bytes (integers_code (pre @ y # ys)), s) (IA_Null, s)"
        using ih [of "room - int (length ?w)"] w Cons.prems(4) unfolding out by simp
      then show ?thesis using w True y_ne room by (simp add: step Let_def)
    next
      case not4: False
      then have y8: "length y = 8" using y by simp
      have out: "numbers_width (pre @ [y]) = 8" "numbers_out (pre @ [y]) = (if numbers_width pre = 4 then widen (numbers_out pre) else numbers_out pre) @ y"
        using not4 widen_concat [of pre] by (auto simp: numbers_width_def numbers_out_def all4_def widened_def)
      let ?room = "if numbers_width pre = 4 then room - int ?k * 4 else room"
      let ?out = "if numbers_width pre = 4 then widen (numbers_out pre) else numbers_out pre"
      have size: "int (length (?out @ y)) + (?room - 8) = R"
        using Cons.prems(4) widen_concat [of pre] length_all4 [of pre] length_all_widened [OF pre] y8
        by (auto simp: numbers_width_def numbers_out_def)
      show ?thesis
      proof (cases "?room < 8")
        case True
        then have "numbers_width pre = 4" using False by (auto split: if_splits)
        moreover have "\<not> 8 * int (length (pre @ y # ys)) + 8 \<le> R"
        proof -
          have "length ?out = 8 * ?k"
            using \<open>numbers_width pre = 4\<close> widen_concat [of pre] length_all_widened [OF pre] by (simp add: numbers_width_def numbers_out_def split: if_splits)
          then show ?thesis using size True y8 by simp
        qed
        ultimately show ?thesis using True y8 y_ne room unfolding step by (auto simp: Let_def gives_def)
      next
        case big: False
        have "?room < 2 ^ 31" using Cons.prems(4,5) by auto
        then have "\<not> less_size_t ?room 8" using big by (subst less_size_t_nonneg) auto
        moreover have "gives (encode_integer_loop (provide msg) args (Suc (Suc ?k)) 8 (?out @ y) (?room - 8) s)
            (8 * int (length (pre @ y # ys)) + 8 \<le> R) (IA_Bytes (integers_code (pre @ y # ys)), s) (IA_Null, s)"
          using ih [of "?room - 8"] size big unfolding out by simp
        ultimately show ?thesis using big y8 y_ne room unfolding step by (auto simp: Let_def)
      qed
    qed
  qed
qed

lemma encode_boolean_loop_gives:
  assumes "msg (arg_tagid args) = Some (C_List (pre @ ys))" "list_all (number_ok SPROTO_TBOOLEAN) ys" "0 \<le> room"
  shows "gives (encode_boolean_loop (provide msg) args (Suc (length pre)) (map truth pre) room s)
    (int (length ys) \<le> room) (Some (Some (map truth (pre @ ys))), s) (None, s)"
  using assms
proof (induction ys arbitrary: pre room)
  case Nil
  then show ?case
    by (subst encode_boolean_loop.simps) (auto simp: provide_list [where pre = pre and ys = "[]"] gives_def)
next
  case (Cons y ys)
  have y: "length y = 4" using Cons.prems(2) by (simp add: number_ok_def sproto_types)
  have cb: "run_cb (provide msg) (args\<lparr>arg_length := 4, arg_index := int (Suc (length pre))\<rparr>) s = done_run (CB_Wrote y, s)"
    using Cons.prems(1) y by (subst provide_list [where pre = pre and ys = "y # ys"]) auto
  note step = encode_boolean_loop.simps [of "provide msg" args "Suc (length pre)" "map truth pre" room s, unfolded cb bind_run_simps prod.case cb_result.case, folded truth_def]
  show ?case
  proof (cases "room < 1")
    case False
    have "gives (encode_boolean_loop (provide msg) args (Suc (length (pre @ [y]))) (map truth (pre @ [y])) (room - 1) s)
        (int (length ys) \<le> room - 1) (Some (Some (map truth ((pre @ [y]) @ ys))), s) (None, s)"
      by (rule Cons.IH) (use Cons.prems False in auto)
    then show ?thesis using False unfolding step by (auto simp: gives_def)
  qed (simp add: step gives_def)
qed

definition objects_code :: "bytes list \<Rightarrow> bytes" where
  "objects_code xs = concat (map fill_size xs)"

lemma objects_code_simps [simp]:
  "objects_code [] = []" "objects_code (x # xs) = fill_size x @ objects_code xs" "objects_code (xs @ ys) = objects_code xs @ objects_code ys"
  by (simp_all add: objects_code_def)

lemma encode_object_loop_gives:
  assumes "msg (arg_tagid args) = Some (C_List (pre @ ys))"
  shows "gives (encode_object_loop (provide msg) args (Suc (length pre)) (objects_code pre) room s)
    (int (length (objects_code ys)) + 4 \<le> room) (Some (Some (objects_code (pre @ ys))), s) (None, s)"
  using assms
proof (induction ys arbitrary: pre room)
  case Nil
  then show ?case
    by (subst encode_object_loop.simps) (auto simp: provide_list [where pre = pre and ys = "[]"] gives_def)
next
  case (Cons y ys)
  have cb: "run_cb (provide msg) (args\<lparr>arg_length := room - 4, arg_index := int (Suc (length pre))\<rparr>) s =
      done_run (if int (length y) \<le> room - 4 then CB_Wrote y else SPROTO_CB_ERROR, s)"
    using Cons.prems(1) by (subst provide_list [where pre = pre and ys = "y # ys"]) auto
  note step = encode_object_loop.simps [of "provide msg" args "Suc (length pre)" "objects_code pre" room s, unfolded cb bind_run_simps prod.case]
  show ?case
  proof (cases "int (length y) \<le> room - 4")
    case True
    have "gives (encode_object_loop (provide msg) args (Suc (length (pre @ [y]))) (objects_code (pre @ [y])) (room - 4 - int (length y)) s)
        (int (length (objects_code ys)) + 4 \<le> room - 4 - int (length y)) (Some (Some (objects_code ((pre @ [y]) @ ys))), s) (None, s)"
      by (rule Cons.IH) (use Cons.prems in auto)
    then show ?thesis using True by (simp add: step gives_def algebra_simps)
  qed (auto simp: step gives_def)
qed

section \<open>No step writes more than it has room for\<close>

lemma bind_run_done: "bind_run m f = done_run y \<longleftrightarrow> (\<exists>x. m = done_run x \<and> f x = done_run y)"
  by (auto simp: bind_run_def done_run_def split: option.splits sum.splits)

lemma done_run_eq [simp]: "done_run x = done_run y \<longleftrightarrow> x = y" "done_run x \<noteq> None" "None \<noteq> done_run x"
  by (simp_all add: done_run_def)

lemma length_widen: "length xs = 4 * n \<Longrightarrow> length (widen xs) = 8 * n"
proof (induction n arbitrary: xs)
  case (Suc n)
  then obtain a b c d ys where "xs = a # b # c # d # ys" "length ys = 4 * n" by (auto simp: numeral_nat length_Suc_conv)
  then show ?case using Suc.IH [of ys] by simp
qed simp

lemma run_cb_fits: "run_cb cb args s = done_run (CB_Wrote bs, s') \<Longrightarrow> int (length bs) \<le> arg_length args"
proof -
  assume "run_cb cb args s = done_run (CB_Wrote bs, s')"
  then obtain r s1 where "(case r of CB_Wrote w \<Rightarrow> if int (length w) \<le> arg_length args then done_run (r, s1) else None | _ \<Rightarrow> done_run (r, s1)) =
      done_run (CB_Wrote bs, s')"
    by (auto simp: run_cb_def bind_run_done)
  then show ?thesis by (cases r) (auto split: if_splits)
qed

lemma encode_integer_loop_fits:
  assumes "encode_integer_loop cb args (Suc k) intlen out room s = done_run (IA_Bytes bs, s')" "0 \<le> room"
    "intlen = 4 \<or> intlen = 8" "intlen = 4 \<longrightarrow> length out = 4 * k"
  shows "int (length bs) \<le> 1 + int (length out) + room"
  using assms
proof (induction "nat room" arbitrary: k intlen out room s rule: less_induct)
  case less
  obtain r s1 where "run_cb cb (args\<lparr>arg_length := 8, arg_index := int (Suc k)\<rparr>) s = done_run (r, s1)"
    using less.prems(1) by (subst (asm) encode_integer_loop.simps) (auto simp: bind_run_done)
  note step = less.prems(1) [unfolded encode_integer_loop.simps [of cb args "Suc k"] this bind_run_simps prod.case]
  show ?case
  proof (cases r)
    case (CB_Wrote w)
    note step = step [unfolded CB_Wrote cb_result.case]
    have w: "w \<noteq> []" "\<not> less_size_t room 8" using step by (auto split: if_splits)
    consider "length w = 4" | "length w = 8" using step w by (auto split: if_splits)
    then show ?thesis
    proof cases
      case 1
      let ?w = "if intlen = 8 then sign_extend w else w"
      have enough: "\<not> room < int (length ?w)"
        and rest: "encode_integer_loop cb args (Suc (Suc k)) intlen (out @ ?w) (room - int (length ?w)) s1 = done_run (IA_Bytes bs, s')"
        using step w 1 by (auto simp: Let_def split: if_splits)
      have "int (length bs) \<le> 1 + int (length (out @ ?w)) + (room - int (length ?w))"
        by (rule less.hyps [OF _ rest]) (use enough 1 less.prems in auto)
      then show ?thesis by simp
    next
      case 2
      let ?room = "if intlen = 4 then room - int k * 4 else room"
      let ?out = "if intlen = 4 then widen out else out"
      have enough: "\<not> ?room < 8"
        and rest: "encode_integer_loop cb args (Suc (Suc k)) 8 (?out @ w) (?room - 8) s1 = done_run (IA_Bytes bs, s')"
        using step w 2 by (auto simp: Let_def split: if_splits)
      have "int (length bs) \<le> 1 + int (length (?out @ w)) + (?room - 8)"
        by (rule less.hyps [OF _ rest]) (use enough 2 less.prems in auto)
      moreover have "int (length ?out) + ?room = int (length out) + room"
        using less.prems(4) length_widen [of out k] by auto
      ultimately show ?thesis using 2 by simp
    qed
  qed (use step less.prems(2) in \<open>auto split: if_splits\<close>)
qed

lemma encode_boolean_loop_fits:
  assumes "encode_boolean_loop cb args index out room s = done_run (Some (Some bs), s')" "0 \<le> room"
  shows "int (length bs) \<le> int (length out) + room"
  using assms
proof (induction "nat room" arbitrary: index out room s rule: less_induct)
  case less
  obtain r s1 where "run_cb cb (args\<lparr>arg_length := 4, arg_index := int index\<rparr>) s = done_run (r, s1)"
    using less.prems(1) by (subst (asm) encode_boolean_loop.simps) (auto simp: bind_run_done)
  note step = less.prems(1) [unfolded encode_boolean_loop.simps [of cb args index] this bind_run_simps prod.case]
  show ?case
  proof (cases r)
    case (CB_Wrote w)
    then have "\<not> room < 1" using step by auto
    then show ?thesis
      using step CB_Wrote less.hyps [of "room - 1" "index + 1" "out @ [if list_ex (\<lambda>b. b \<noteq> 0) w then 1 else 0]" s1] by simp
  qed (use step less.prems(2) in auto)
qed

lemma encode_object_loop_fits:
  assumes "encode_object_loop cb args index out room s = done_run (Some (Some bs), s')"
  shows "int (length bs) \<le> int (length out) + room"
  using assms
proof (induction "nat room" arbitrary: index out room s rule: less_induct)
  case less
  have room: "\<not> room < 4" using less.prems by (subst (asm) encode_object_loop.simps) auto
  obtain r s1 where cb: "run_cb cb (args\<lparr>arg_length := room - 4, arg_index := int index\<rparr>) s = done_run (r, s1)"
    using less.prems room by (subst (asm) encode_object_loop.simps) (auto simp: bind_run_done)
  note step = less.prems [unfolded encode_object_loop.simps [of cb args index] this bind_run_simps prod.case if_not_P [OF room]]
  show ?case
  proof (cases r)
    case (CB_Wrote w)
    then show ?thesis
      using step room run_cb_fits [OF cb [unfolded CB_Wrote]]
        less.hyps [of "room - 4 - int (length w)" "index + 1" "out @ fill_size w" s1] by simp
  qed (use step room in auto)
qed

lemma encode_array_fits:
  assumes "encode_array cb args room s = done_run (Some bs, s')" "0 \<le> room"
  shows "int (length bs) \<le> room"
proof -
  have room: "\<not> room < 4" using assms(1) by (auto simp: encode_array_def)
  consider (int) "arg_type args = SPROTO_TINTEGER" | (bool) "arg_type args \<noteq> SPROTO_TINTEGER" "arg_type args = SPROTO_TBOOLEAN"
    | (obj) "arg_type args \<noteq> SPROTO_TINTEGER" "arg_type args \<noteq> SPROTO_TBOOLEAN" by blast
  then show ?thesis
  proof cases
    case int
    then obtain r s1 where r: "encode_integer_array cb args (room - 4) s = done_run (r, s1)"
      and bs: "done_run (case r of IA_Null \<Rightarrow> (None, s1) | IA_Noarray \<Rightarrow> (Some [], s1) | IA_Bytes out \<Rightarrow> (Some (fill_size out), s1)) = done_run (Some bs, s')"
      using assms(1) room by (auto simp: encode_array_def Let_def bind_run_done)
    have "int (length out) \<le> room - 4" if "r = IA_Bytes out" for out
      using r that encode_integer_loop_fits [of cb args 0 4 "[]" "room - 5" s out s1] by (auto simp: encode_integer_array_def split: if_splits)
    then show ?thesis using bs room by (cases r) auto
  next
    case bool
    then obtain r s1 where r: "encode_boolean_loop cb args 1 [] (room - 4) s = done_run (r, s1)"
      and bs: "done_run (case r of None \<Rightarrow> (None, s1) | Some None \<Rightarrow> (Some [], s1) | Some (Some out) \<Rightarrow> (Some (fill_size out), s1)) = done_run (Some bs, s')"
      using assms(1) room by (auto simp: encode_array_def Let_def bind_run_done)
    have "int (length out) \<le> room - 4" if "r = Some (Some out)" for out
      using encode_boolean_loop_fits [OF r [unfolded that]] room by simp
    then show ?thesis using bs room by (auto split: option.splits)
  next
    case obj
    then obtain r s1 where r: "encode_object_loop cb args 1 [] (room - 4) s = done_run (r, s1)"
      and bs: "done_run (case r of None \<Rightarrow> (None, s1) | Some None \<Rightarrow> (Some [], s1) | Some (Some out) \<Rightarrow> (Some (fill_size out), s1)) = done_run (Some bs, s')"
      using assms(1) room by (auto simp: encode_array_def Let_def bind_run_done)
    have "int (length out) \<le> room - 4" if "r = Some (Some out)" for out
      using encode_object_loop_fits [OF r [unfolded that]] room by simp
    then show ?thesis using bs room by (auto split: option.splits)
  qed
qed

lemma encode_object_fits:
  assumes "encode_object cb args room s = done_run (Some bs, s')" "0 \<le> room"
  shows "int (length bs) \<le> room"
proof -
  have room: "\<not> room < 4" using assms(1) by (auto simp: encode_object_def)
  then obtain r s1 where r: "run_cb cb (args\<lparr>arg_length := room - 4\<rparr>) s = done_run (r, s1)"
    using assms(1) by (auto simp: encode_object_def bind_run_done)
  then show ?thesis using assms room run_cb_fits [of cb "args\<lparr>arg_length := room - 4\<rparr>" s _ s1] by (cases r) (auto simp: encode_object_def)
qed

lemma encode_number_fits:
  assumes "encode_number cb args room s = done_run (FC_Data new, s')"
  shows "int (length new) \<le> room \<and> new \<noteq> []"
proof -
  obtain r s1 where "run_cb cb (args\<lparr>arg_length := 8\<rparr>) s = done_run (r, s1)" using assms by (auto simp: encode_number_def bind_run_done)
  note number = assms [unfolded encode_number_def this bind_run_simps prod.case]
  show ?thesis
  proof (cases r)
    case (CB_Wrote w)
    then show ?thesis using number
      by (auto simp: Let_def encode_integer_def encode_uint64_def data_code_def split: if_splits)
  qed (use number in auto)
qed

lemma encode_field_fits:
  assumes "encode_field cb f room s = done_run (FC_Data new, s')" "0 \<le> room"
  shows "int (length new) \<le> room" "new \<noteq> []"
proof -
  have "int (length new) \<le> room \<and> new \<noteq> []"
    using assms
    by (auto simp: encode_field_def Let_def bind_run_done data_code_def split: if_splits option.splits dest: encode_number_fits encode_array_fits encode_object_fits)
  then show "int (length new) \<le> room" "new \<noteq> []" by simp_all
qed

section \<open>Encoding a field\<close>

lemma field_facts:
  assumes "wf_field n f"
  shows "base_type f = 0 \<or> base_type f = 1 \<or> base_type f = 2 \<or> base_type f = 3" "\<not> is_array f \<Longrightarrow> fd_type f = base_type f"
    "0 \<le> fd_tag f" "fd_tag f \<le> 32766"
  using assms by (auto simp: wf_field_def field_types_def base_type_def is_array_def sproto_types)

definition field_args :: "sproto_field \<Rightarrow> sproto_arg" where
  "field_args f = \<lparr>arg_tagname = fd_name f, arg_tagid = fd_tag f, arg_type = base_type f, arg_subtype = fd_st f,
     arg_value = V_None, arg_length = 0, arg_index = 0, arg_mainindex = fd_key f\<rparr>"

lemma field_args_simps [simp]:
  "arg_tagid (field_args f) = fd_tag f" "arg_type (field_args f) = base_type f" "arg_index (field_args f) = 0"
  by (simp_all add: field_args_def)

lemma encode_field_args:
  "encode_field cb f room s =
     (if is_array f then bind_run (encode_array cb (field_args f) room s) (\<lambda>(r, s'). done_run (data_code r, s'))
      else if base_type f = SPROTO_TINTEGER \<or> base_type f = SPROTO_TBOOLEAN then encode_number cb (field_args f) room s
      else if base_type f = SPROTO_TSTRUCT \<or> base_type f = SPROTO_TSTRING then
        bind_run (encode_object cb (field_args f) room s) (\<lambda>(r, s'). done_run (data_code r, s'))
      else done_run (FC_Fail, s))"
  by (simp add: encode_field_def Let_def is_array_def base_type_def field_args_def)

definition field_code_of :: "int \<Rightarrow> content option \<Rightarrow> field_code" where
  "field_code_of t c = (case c of
     None \<Rightarrow> FC_Nil
   | Some c \<Rightarrow> (case content_code t c of (value, new) \<Rightarrow> if new = [] then FC_Small value else FC_Data new))"

definition field_need :: "int \<Rightarrow> content option \<Rightarrow> nat" where
  "field_need t c = (case c of None \<Rightarrow> 8 | Some c \<Rightarrow> content_need t c)"

lemma le32_le_word:
  assumes "length bs = 4"
  shows "le32_bytes (le_word bs :: u32) = bs"
proof (rule nth_equalityI)
  show "le32_bytes (le_word bs :: u32) ! i = bs ! i" if "i < length (le32_bytes (le_word bs :: u32))" for i
  proof -
    have "i = 0 \<or> i = 1 \<or> i = 2 \<or> i = 3" using that by auto
    then have "le32_bytes (le_word bs :: u32) ! i = byte_of i (le_word bs :: u32)" by (auto simp: le32_bytes_def)
    then show ?thesis using that assms
      by (auto intro!: bit_word_eqI simp: bit_byte_of bit_le_word)
  qed
qed (simp add: assms)

lemma le64_le_word:
  assumes "length bs = 8"
  shows "le64_bytes (le_word bs :: u64) = bs"
proof (rule nth_equalityI)
  show "le64_bytes (le_word bs :: u64) ! i = bs ! i" if "i < length (le64_bytes (le_word bs :: u64))" for i
  proof -
    have "i = 0 \<or> i = 1 \<or> i = 2 \<or> i = 3 \<or> i = 4 \<or> i = 5 \<or> i = 6 \<or> i = 7" using that by auto
    then have "le64_bytes (le_word bs :: u64) ! i = byte_of i (le_word bs :: u64)" by (auto simp: le64_bytes_def)
    then show ?thesis using that assms
      by (auto intro!: bit_word_eqI simp: bit_byte_of bit_le_word)
  qed
qed (simp add: assms)

lemma fill_size_nonempty [simp]: "fill_size bs \<noteq> []"
  by (simp add: fill_size_def le32_bytes_def)

lemma encode_number_gives:
  assumes "\<forall>c. msg (arg_tagid args) = Some c \<longrightarrow> (\<exists>bs. c = C_One bs \<and> (length bs = 4 \<or> length bs = 8))" "arg_index args = 0"
    "t = SPROTO_TINTEGER \<or> t = SPROTO_TBOOLEAN"
  shows "gives (encode_number (provide msg) args room s) (int (field_need t (msg (arg_tagid args))) \<le> room)
    (field_code_of t (msg (arg_tagid args)), s) (FC_Fail, s)"
proof (cases "msg (arg_tagid args)")
  case None
  then show ?thesis using assms(2) by (simp add: encode_number_def provide_none field_code_of_def gives_def)
next
  case (Some c)
  then obtain bs where c: "msg (arg_tagid args) = Some (C_One bs)" and bs: "length bs = 4 \<or> length bs = 8" using assms(1) by blast
  have cb: "run_cb (provide msg) (args\<lparr>arg_length := 8\<rparr>) s = done_run (CB_Wrote bs, s)"
    using c bs by (subst provide_one [of msg _ bs]) auto
  from bs show ?thesis
  proof
    assume "length bs = 4"
    then show ?thesis using c assms(3)
      by (auto simp: encode_number_def cb Let_def gives_def field_code_of_def field_need_def encode_integer_def le32_le_word data_code_def)
  next
    assume "length bs = 8"
    then show ?thesis using c assms(3)
      by (auto simp: encode_number_def cb Let_def gives_def field_code_of_def field_need_def encode_uint64_def le64_le_word data_code_def)
  qed
qed

lemma encode_object_gives:
  assumes "\<forall>c. msg (arg_tagid args) = Some c \<longrightarrow> (\<exists>bs. c = C_One bs)" "arg_index args = 0"
    "t \<noteq> SPROTO_TINTEGER" "t \<noteq> SPROTO_TBOOLEAN"
  shows "gives (bind_run (encode_object (provide msg) args room s) (\<lambda>(r, s'). done_run (data_code r, s')))
    (int (field_need t (msg (arg_tagid args))) \<le> room) (field_code_of t (msg (arg_tagid args)), s) (FC_Fail, s)"
proof (cases "msg (arg_tagid args)")
  case None
  then show ?thesis using assms(2)
    by (auto simp: encode_object_def provide_none field_code_of_def gives_def data_code_def field_need_def)
next
  case (Some c)
  then obtain bs where c: "msg (arg_tagid args) = Some (C_One bs)" using assms(1) by blast
  then have cb: "run_cb (provide msg) (args\<lparr>arg_length := room - 4\<rparr>) s = done_run (if int (length bs) \<le> room - 4 then CB_Wrote bs else SPROTO_CB_ERROR, s)"
    by (subst provide_one [of msg _ bs]) auto
  show ?thesis using c assms(3,4)
    by (auto simp: encode_object_def cb gives_def field_code_of_def data_code_def field_need_def)
qed

lemma encode_array_none:
  assumes "msg (arg_tagid args) = None"
  shows "gives (bind_run (encode_array (provide msg) args room s) (\<lambda>(r, s'). done_run (data_code r, s'))) (8 \<le> room) (FC_Nil, s) (FC_Fail, s)"
proof -
  have cb: "run_cb (provide msg) (args\<lparr>arg_length := l, arg_index := 1\<rparr>) s = done_run (SPROTO_CB_NOARRAY, s)" for l
    using assms by (simp add: provide_none)
  show ?thesis
    by (auto simp: encode_array_def encode_integer_array_def Let_def gives_def data_code_def cb
        encode_integer_loop.simps [of _ _ 1] encode_boolean_loop.simps [of _ _ 1] encode_object_loop.simps [of _ _ 1] encode_integer_loop.simps [of _ _ "Suc 0"]
        encode_boolean_loop.simps [of _ _ "Suc 0"] encode_object_loop.simps [of _ _ "Suc 0"])
qed

lemma encode_array_gives:
  assumes c: "msg (arg_tagid args) = Some (C_List xs)" and ok: "list_all (number_ok (arg_type args)) xs" and room: "0 \<le> room" "room < 2 ^ 31"
  shows "gives (bind_run (encode_array (provide msg) args room s) (\<lambda>(r, s'). done_run (data_code r, s')))
    (int (content_need (arg_type args) (C_List xs)) \<le> room) (field_code_of (arg_type args) (Some (C_List xs)), s) (FC_Fail, s)"
proof (cases "room < 4")
  case True
  then show ?thesis by (auto simp: encode_array_def gives_def data_code_def)
next
  case False
  have data: "data_code (Some (fill_size x)) = FC_Data (fill_size x)" "data_code None = FC_Fail" for x by (simp_all add: data_code_def)
  consider (int) "arg_type args = SPROTO_TINTEGER" | (bool) "arg_type args = SPROTO_TBOOLEAN" | (obj) "arg_type args \<noteq> SPROTO_TINTEGER" "arg_type args \<noteq> SPROTO_TBOOLEAN" by blast
  then show ?thesis
  proof cases
    case int
    have "gives (encode_integer_array (provide msg) args (room - 4) s) (13 + 8 * int (length xs) \<le> room) (IA_Bytes (integers_code xs), s) (IA_Null, s)"
    proof (cases "room - 4 < 1")
      case False
      have "gives (encode_integer_loop (provide msg) args (Suc (length ([] :: bytes list))) (numbers_width []) (numbers_out []) (room - 5) s)
          (8 * int (length ([] @ xs)) + 8 \<le> room - 5) (IA_Bytes (integers_code ([] @ xs)), s) (IA_Null, s)"
        by (rule encode_integer_loop_gives) (use c ok int False room in \<open>auto simp: numbers_out_def all4_def\<close>)
      then show ?thesis using False by (simp add: encode_integer_array_def numbers_out_def numbers_width_def all4_def algebra_simps)
    qed (simp add: encode_integer_array_def gives_def)
    then show ?thesis using False int by (auto simp: encode_array_def gives_def data field_code_of_def algebra_simps)
  next
    case bool
    have "gives (encode_boolean_loop (provide msg) args (Suc (length ([] :: bytes list))) (map truth []) (room - 4) s)
        (int (length xs) \<le> room - 4) (Some (Some (map truth ([] @ xs))), s) (None, s)"
      by (rule encode_boolean_loop_gives) (use c ok bool False in auto)
    then show ?thesis using False bool by (auto simp: encode_array_def Let_def gives_def data field_code_of_def sproto_types)
  next
    case obj
    have "gives (encode_object_loop (provide msg) args (Suc (length ([] :: bytes list))) (objects_code []) (room - 4) s)
        (int (length (objects_code xs)) + 4 \<le> room - 4) (Some (Some (objects_code ([] @ xs))), s) (None, s)"
      by (rule encode_object_loop_gives) (use c in auto)
    then show ?thesis using False obj by (auto simp: encode_array_def Let_def gives_def data field_code_of_def objects_code_def)
  qed
qed

definition msg_suits :: "message \<Rightarrow> sproto_field list \<Rightarrow> bool" where
  "msg_suits msg fs \<longleftrightarrow> list_all (\<lambda>f. pred_option (suits f) (msg (fd_tag f))) fs"

lemma encode_field_gives:
  assumes "wf_field n f" "pred_option (suits f) (msg (fd_tag f))" "0 \<le> room" "room < 2 ^ 31"
  shows "gives (encode_field (provide msg) f room s) (int (field_need (base_type f) (msg (fd_tag f))) \<le> room)
    (field_code_of (base_type f) (msg (fd_tag f)), s) (FC_Fail, s)"
proof (cases "is_array f")
  case True
  show ?thesis
  proof (cases "msg (fd_tag f)")
    case None
    then show ?thesis using encode_array_none [of msg "field_args f" room s] True
      by (simp add: encode_field_args field_need_def field_code_of_def)
  next
    case (Some c)
    then obtain xs where "msg (fd_tag f) = Some (C_List xs)" "list_all (number_ok (base_type f)) xs"
      using assms(2) True by (cases c) auto
    then show ?thesis using encode_array_gives [of msg "field_args f" xs room s] assms(3,4) True
      by (simp add: encode_field_args field_need_def)
  qed
next
  case False
  have one: "\<exists>bs. c = C_One bs \<and> (base_type f = SPROTO_TINTEGER \<or> base_type f = SPROTO_TBOOLEAN \<longrightarrow> length bs = 4 \<or> length bs = 8)"
    if "msg (fd_tag f) = Some c" for c
    using assms(2) that False by (cases c) (auto simp: number_ok_def sproto_types)
  show ?thesis
  proof (cases "base_type f = SPROTO_TINTEGER \<or> base_type f = SPROTO_TBOOLEAN")
    case True
    then show ?thesis using encode_number_gives [of msg "field_args f" "base_type f" room s] one False
      by (simp add: encode_field_args)
  next
    case other: False
    then have t: "base_type f = SPROTO_TSTRUCT \<or> base_type f = SPROTO_TSTRING" using field_facts(1) [OF assms(1)] by (auto simp: sproto_types)
    show ?thesis using encode_object_gives [of msg "field_args f" "base_type f" room s] one False other t
      by (simp add: encode_field_args)
  qed
qed

section \<open>Encoding the fields\<close>

lemma count_descriptors_from:
  assumes "last1 < last2" "sorted_wrt (<) (last2 # ts)"
  shows "count_descriptors last1 ts \<le> count_descriptors last2 ts + 1"
  using assms by (cases ts) auto

lemma length_layout:
  assumes "sorted_wrt (<) (lasttag # map fd_tag fs)"
  shows "length (fst (layout msg lasttag fs)) \<le> count_descriptors lasttag (map fd_tag fs)"
  using assms
proof (induction fs arbitrary: lasttag)
  case (Cons f fs)
  have rest: "length (fst (layout msg (fd_tag f) fs)) \<le> count_descriptors (fd_tag f) (map fd_tag fs)"
    by (rule Cons.IH) (use Cons.prems in auto)
  have skipped: "length (fst (layout msg lasttag fs)) \<le> count_descriptors lasttag (map fd_tag fs)"
    by (rule Cons.IH) (use Cons.prems in auto)
  moreover have "count_descriptors lasttag (map fd_tag fs) \<le> count_descriptors (fd_tag f) (map fd_tag fs) + 1"
    by (rule count_descriptors_from) (use Cons.prems in auto)
  ultimately show ?case using rest by (auto simp: Let_def split: option.splits prod.splits)
qed simp

lemma count_descriptors_le:
  assumes "sorted_wrt (<) (lasttag # ts)" "\<forall>t \<in> set ts. t \<le> m" "lasttag \<le> m"
  shows "int (count_descriptors lasttag ts) \<le> m - lasttag"
  using assms
proof (induction ts arbitrary: lasttag)
  case (Cons t ts)
  have "int (count_descriptors t ts) \<le> m - t" by (rule Cons.IH) (use Cons.prems in auto)
  then show ?case using Cons.prems(1) by auto
qed simp

lemma length_integers_code: "list_all (number_ok SPROTO_TINTEGER) xs \<Longrightarrow> length (integers_code xs) \<le> 1 + 8 * length xs"
  using length_all_widened [of xs] length_all4 [of xs] by (simp add: integers_code_out numbers_out_def)

lemma content_need_enough:
  assumes "suits f c"
  shows "length (snd (content_code (base_type f) c)) \<le> content_need (base_type f) c"
proof (cases c)
  case (C_List xs)
  then show ?thesis using assms length_integers_code [of xs] by auto
qed auto

lemma descriptors_ok:
  assumes "lasttag < tag" "- 1 \<le> lasttag" "tag \<le> 32766"
  shows "descriptors lasttag tag value =
    Some (concat (map le16 (if tag - lasttag - 1 > 0 then [(tag - lasttag - 1 - 1) * 2 + 1, value] else [value])))"
  using assms by (simp add: descriptors_def Let_def)

lemma length_concat_le16: "length (concat (map le16 ws)) = 2 * length ws"
  by (induction ws) (simp_all add: le16_def)

lemma encode_fields_gives:
  assumes "list_all (wf_field n) fs" "sorted_wrt (<) (lasttag # map fd_tag fs)" "- 1 \<le> lasttag" "msg_suits msg fs"
    "0 \<le> room" "room < 2 ^ 31" "length header = 2 * h" "h + count_descriptors lasttag (map fd_tag fs) \<le> maxn"
  shows "gives (encode_fields (provide msg) maxn fs lasttag header data room s) (int (fields_need msg fs) + 8 \<le> room)
    (Some (le16 (int (h + length (fst (layout msg lasttag fs)))) @ header @ concat (map le16 (fst (layout msg lasttag fs))) @
      data @ snd (layout msg lasttag fs)), s) (None, s)"
  using assms
proof (induction fs arbitrary: lasttag header data room h)
  case Nil
  then show ?case by (simp add: gives_def SIZEOF_FIELD_def)
next
  case (Cons f fs)
  have f: "wf_field n f" "pred_option (suits f) (msg (fd_tag f))" and fs: "list_all (wf_field n) fs" "msg_suits msg fs"
    using Cons.prems(1,4) by (simp_all add: msg_suits_def)
  have later: "lasttag < fd_tag f" and sorted: "sorted_wrt (<) (fd_tag f # map fd_tag fs)" "sorted_wrt (<) (lasttag # map fd_tag fs)"
    using Cons.prems(2) by auto
  have field: "gives (encode_field (provide msg) f room s) (int (field_need (base_type f) (msg (fd_tag f))) \<le> room)
      (field_code_of (base_type f) (msg (fd_tag f)), s) (FC_Fail, s)"
    by (rule encode_field_gives [where n = n]) (use f Cons.prems(5,6) in auto)
  show ?case
  proof (cases "msg (fd_tag f)")
    case None
    have "count_descriptors lasttag (map fd_tag fs) \<le> count_descriptors (fd_tag f) (map fd_tag fs) + 1"
      by (rule count_descriptors_from [OF later sorted(1)])
    then have "gives (encode_fields (provide msg) maxn fs lasttag header data room s) (int (fields_need msg fs) + 8 \<le> room)
        (Some (le16 (int (h + length (fst (layout msg lasttag fs)))) @ header @ concat (map le16 (fst (layout msg lasttag fs))) @
          data @ snd (layout msg lasttag fs)), s) (None, s)"
      by (intro Cons.IH) (use Cons.prems fs sorted in \<open>auto split: if_splits\<close>)
    then show ?thesis using field None
      by (auto simp: gives_def field_code_of_def field_need_def fields_need_def)
  next
    case (Some c)
    obtain v new where c: "content_code (base_type f) c = (v, new)" by (cases "content_code (base_type f) c")
    obtain ws D where rest: "layout msg (fd_tag f) fs = (ws, D)" by (cases "layout msg (fd_tag f) fs")
    let ?d = "if fd_tag f - lasttag - 1 > 0 then [(fd_tag f - lasttag - 1 - 1) * 2 + 1, v] else [v]"
    let ?step = "encode_fields (provide msg) maxn fs (fd_tag f) (header @ concat (map le16 ?d)) (data @ new) (room - int (length new)) s"
    have need: "int (length new) \<le> int (content_need (base_type f) c)"
      using content_need_enough [of f c] f(2) Some c by simp
    have v0: "v = 0" if "new \<noteq> []" using c that by (cases c) (auto split: if_splits)
    have space: "h + length ?d + count_descriptors (fd_tag f) (map fd_tag fs) \<le> maxn" using Cons.prems(8) by (auto split: if_splits)
    have go: "gives ?step (int (fields_need msg fs) + 8 \<le> room - int (length new))
        (Some (le16 (int (h + length ?d + length ws)) @ (header @ concat (map le16 ?d)) @ concat (map le16 ws) @ (data @ new) @ D), s) (None, s)"
      if "int (length new) \<le> room"
    proof -
      have "gives ?step (int (fields_need msg fs) + 8 \<le> room - int (length new))
        (Some (le16 (int ((h + length ?d) + length (fst (layout msg (fd_tag f) fs)))) @ (header @ concat (map le16 ?d)) @
          concat (map le16 (fst (layout msg (fd_tag f) fs))) @ (data @ new) @ snd (layout msg (fd_tag f) fs)), s) (None, s)"
        by (rule Cons.IH) (use Cons.prems fs sorted later that space length_concat_le16 [of ?d] in simp_all)
      then show ?thesis by (simp add: rest)
    qed
    have d: "descriptors lasttag (fd_tag f) v = Some (concat (map le16 ?d))"
      by (rule descriptors_ok) (use later Cons.prems(3) field_facts(4) [OF f(1)] in auto)
    have fits: "\<not> length (header @ concat (map le16 ?d)) > maxn * SIZEOF_FIELD"
      using space Cons.prems(7) length_concat_le16 [of ?d] by (simp add: SIZEOF_FIELD_def)
    have step: "encode_fields (provide msg) maxn (f # fs) lasttag header data room s = ?step"
      if "encode_field (provide msg) f room s = done_run (field_code_of (base_type f) (Some c), s)"
      using that d fits v0 by (auto simp: field_code_of_def c Let_def)
    show ?thesis
    proof (cases "encode_field (provide msg) f room s = done_run (field_code_of (base_type f) (Some c), s)")
      case True
      have "int (length new) \<le> room"
        using encode_field_fits(1) [of "provide msg" f room s new s] True Cons.prems(5) by (cases "new = []") (auto simp: field_code_of_def c)
      moreover have lay: "layout msg lasttag (f # fs) = (?d @ ws, new @ D)" by (simp add: Some c rest Let_def)
      moreover have "int (fields_need msg (f # fs)) = int (content_need (base_type f) c) + int (fields_need msg fs)"
        by (simp add: fields_need_def Some)
      ultimately show ?thesis using go need unfolding step [OF True] lay
        by (auto simp: gives_def add.assoc simp del: encode_fields.simps)
    next
      case False
      then show ?thesis using field Some by (auto simp: gives_def field_need_def fields_need_def)
    qed
  qed
qed

end
