(* ===== verification/SprotoRoundtrip.thy ===== *)
theory SprotoRoundtrip
  imports SprotoCodec
begin

text \<open>
  Decoding what \<open>sproto_encode\<close> wrote (\<open>lualib-src/sproto/sproto.c\<close>): \<open>events\<close> are the calls that the callback should
  get for a message, and \<open>sproto_decode\<close> makes exactly them, on the bytes that \<open>message_code\<close> gives the message.
\<close>

section \<open>The calls of the callback\<close>

definition number :: "bytes \<Rightarrow> u64" where
  "number bs = (if length bs = 4 then expand64 (le_word bs) else le_word bs)"

definition int_event :: "sproto_arg \<Rightarrow> int \<Rightarrow> u64 \<Rightarrow> sproto_arg" where
  "int_event a i v = a\<lparr>arg_index := i, arg_value := V_Int v, arg_length := 8\<rparr>"

definition bytes_event :: "sproto_arg \<Rightarrow> int \<Rightarrow> bytes \<Rightarrow> sproto_arg" where
  "bytes_event a i bs = a\<lparr>arg_index := i, arg_value := V_Bytes bs, arg_length := int (length bs)\<rparr>"

text \<open>An element of an array with its place.\<close>

definition element_event :: "int \<Rightarrow> sproto_arg \<Rightarrow> nat \<Rightarrow> bytes \<Rightarrow> sproto_arg" where
  "element_event t a i bs =
     (if t = SPROTO_TINTEGER then int_event a (int i) (number bs)
      else if t = SPROTO_TBOOLEAN then int_event a (int i) (ucast (truth bs)) else bytes_event a (int i) bs)"

fun element_events :: "int \<Rightarrow> sproto_arg \<Rightarrow> nat \<Rightarrow> bytes list \<Rightarrow> sproto_arg list" where
  "element_events t a i [] = []"
| "element_events t a i (x # xs) = element_event t a i x # element_events t a (i + 1) xs"

fun content_events :: "int \<Rightarrow> sproto_arg \<Rightarrow> content \<Rightarrow> sproto_arg list" where
  "content_events t a (C_One bs) = [if t = SPROTO_TINTEGER \<or> t = SPROTO_TBOOLEAN then int_event a 0 (number bs) else bytes_event a 0 bs]"
| "content_events t a (C_List xs) = (if xs = [] then [a\<lparr>arg_index := - 1\<rparr>] else element_events t a 1 xs)"

definition events :: "message \<Rightarrow> sproto_field list \<Rightarrow> sproto_arg list" where
  "events msg fs = concat (map (\<lambda>f. case msg (fd_tag f) of None \<Rightarrow> [] | Some c \<Rightarrow> content_events (base_type f) (field_args f) c) fs)"

text \<open>Only the answer to data counts: the decoder stops when it is not 0.\<close>

fun deliver :: "'s decode_callback \<Rightarrow> sproto_arg list \<Rightarrow> 's \<Rightarrow> (bool \<times> 's) run" where
  "deliver cb [] s = done_run (True, s)"
| "deliver cb (a # as) s = bind_run (cb a s) (\<lambda>(r, s').
     case arg_value a of V_Bytes _ \<Rightarrow> if r = 0 then deliver cb as s' else done_run (False, s') | _ \<Rightarrow> deliver cb as s')"

lemma bind_run_assoc: "bind_run (bind_run m f) g = bind_run m (\<lambda>x. bind_run (f x) g)"
  by (auto simp: bind_run_def split: option.splits sum.splits)

lemma bind_run_right [simp]: "bind_run m done_run = m"
  by (auto simp: bind_run_def done_run_def split: option.splits sum.splits)

lemma bind_run_cong: "(\<And>x. f x = g x) \<Longrightarrow> bind_run m f = bind_run m g"
  by presburger

lemma deliver_append:
  "deliver cb (as @ bs) s = bind_run (deliver cb as s) (\<lambda>(ok, s'). if ok then deliver cb bs s' else done_run (False, s'))"
  by (induction as arbitrary: s) (auto simp: bind_run_assoc split: cb_value.splits intro!: bind_run_cong)

lemma deliver_int: "deliver cb (int_event a i v # as) s = bind_run (give_int cb (a\<lparr>arg_index := i\<rparr>) v s) (deliver cb as)"
  by (simp add: give_int_def int_event_def bind_run_assoc split_def)

lemma deliver_bytes:
  "deliver cb (bytes_event a i bs # as) s = bind_run (cb (bytes_event a i bs) s) (\<lambda>(r, s'). if r = 0 then deliver cb as s' else done_run (False, s'))"
  by (simp add: bytes_event_def)

declare deliver.simps(2) [simp del]

lemma deliver_Nil: "deliver cb [] = (\<lambda>s. done_run (True, s))"
  by (rule ext) simp

section \<open>Reading a message\<close>

definition holds :: "bytes \<Rightarrow> nat \<Rightarrow> bytes \<Rightarrow> bool" where
  "holds m p xs \<longleftrightarrow> p + length xs \<le> length m \<and> take (length xs) (drop p m) = xs"

lemma holds_append [simp]: "holds m p (xs @ ys) \<longleftrightarrow> holds m p xs \<and> holds m (p + length xs) ys"
proof -
  have "take (length xs + length ys) (drop p m) = take (length xs) (drop p m) @ take (length ys) (drop (p + length xs) m)"
    by (simp add: take_add add.commute)
  then show ?thesis by (auto simp: holds_def append_eq_append_conv)
qed

lemma holds_Cons [simp]: "holds m p (x # xs) \<longleftrightarrow> p < length m \<and> m ! p = x \<and> holds m (Suc p) xs"
proof -
  have "holds m p ([x] @ xs) \<longleftrightarrow> holds m p [x] \<and> holds m (p + 1) xs" by (subst holds_append) simp
  moreover have "holds m p [x] \<longleftrightarrow> p < length m \<and> m ! p = x"
    by (auto simp: holds_def Suc_le_eq take_Suc_conv_app_nth)
  ultimately show ?thesis by simp
qed

lemma holds_Nil [simp]: "holds m p [] \<longleftrightarrow> p \<le> length m"
  by (simp add: holds_def)

lemma holds_todword: "holds m p (le32_bytes w) \<Longrightarrow> todword m p = Some w"
  using le32_of_bytes [of w] by (simp add: todword_def get_le32_def le32_bytes_def eval_nat_numeral)

lemma holds_bytes: "holds m p xs \<Longrightarrow> take (length xs) (drop p m) = xs" "holds m p xs \<Longrightarrow> p + length xs \<le> length m"
  by (simp_all add: holds_def)

lemma holds_whole: "holds (xs @ ys @ zs) (length xs) ys"
  by (simp add: holds_def)

lemma holds_toword:
  assumes "holds m p (le16 v)" "0 \<le> v" "v < 65536"
  shows "toword m p = Some (nat v)"
proof -
  have "unat (word_of_int v :: u8) = nat (v mod 256)" "unat (word_of_int (v div 256) :: u8) = nat (v div 256 mod 256)"
    by (simp_all add: unat_eq_nat_uint uint_word_of_int)
  moreover have "nat (v mod 256) + 256 * nat (v div 256 mod 256) = nat v"
    using assms(2,3) by (simp add: nat_mod_distrib nat_div_distrib mod_less div_less_iff_less_mult flip: nat_mult_distrib) 
  ultimately show ?thesis using assms(1) by (simp add: toword_def le16_def)
qed

section \<open>Decoding a field\<close>

lemma give_bytes_ok:
  assumes "holds m p bs" "unat n = length bs"
  shows "give_bytes cb (a\<lparr>arg_index := i\<rparr>) m p n s = bind_run (cb (bytes_event a i bs) s) (\<lambda>(r, s'). done_run (r = 0, s'))"
  using assms(2) holds_bytes [OF assms(1)] by (simp add: give_bytes_def bytes_event_def)

lemma holds_fill_size:
  assumes "holds m p (fill_size xs)" "length m < 2 ^ 31"
  shows "todword m p = Some (of_nat (length xs))" "unat (of_nat (length xs) :: u32) = length xs"
    "nat (sint (of_nat (length xs) :: u32)) = length xs" "holds m (p + 4) xs"
proof -
  have small: "length xs < 2 ^ 31" using assms holds_bytes(2) [of m "p + 4" xs] by (simp add: fill_size_def)
  show "todword m p = Some (of_nat (length xs))" "holds m (p + 4) xs" using assms(1) by (auto simp: fill_size_def intro: holds_todword)
  show u: "unat (of_nat (length xs) :: u32) = length xs" using small by (simp add: unat_of_nat)
  show "nat (sint (of_nat (length xs) :: u32)) = length xs"
    using small by (simp add: sint_uint uint_nat u signed_take_bit_int_eq_self)
qed

lemma decode_array_object_ok:
  assumes "holds m p (objects_code xs)" "length m < 2 ^ 31" "t \<noteq> SPROTO_TINTEGER" "t \<noteq> SPROTO_TBOOLEAN"
  shows "decode_array_object cb args m p (length (objects_code xs)) i s = deliver cb (element_events t args i xs) s"
  using assms(1)
proof (induction xs arbitrary: p i s)
  case Nil
  then show ?case by (simp add: decode_array_object.simps)
next
  case (Cons x xs)
  have x: "holds m p (fill_size x)" and xs: "holds m (p + 4 + length x) (objects_code xs)"
    using Cons.prems by (simp_all add: add.assoc)
  note h = holds_fill_size [OF x assms(2)]
  have "element_event t args i x = bytes_event args (int i) x" using assms(3,4) by (simp add: element_event_def)
  then show ?case
    using give_bytes_ok [OF h(4,2), where cb = cb and a = args and i = "int i" and s = s] Cons.IH [OF xs, of "i + 1"]
    by (subst decode_array_object.simps)
      (auto simp: h bind_run_assoc deliver_bytes Let_def add.assoc intro!: bind_run_cong)
qed

lemma decode_numbers_ok:
  assumes "list_all2 (\<lambda>p x. rd p = Some (val x)) ps xs" "\<And>i x. x \<in> set xs \<Longrightarrow> element_event t args i x = int_event args (int i) (val x)"
  shows "decode_numbers cb args rd i ps s = bind_run (deliver cb (element_events t args i xs) s) (\<lambda>(ok, s'). done_run s')"
  using assms
proof (induction ps xs arbitrary: i s rule: list_all2_induct)
  case (Cons p ps x xs)
  then show ?case by (auto simp: deliver_int bind_run_assoc intro!: bind_run_cong)
qed simp

lemma list_all2_places:
  assumes "\<And>k. k < length xs \<Longrightarrow> rd (q + k * w) = Some (val (xs ! k))"
  shows "list_all2 (\<lambda>p x. rd p = Some (val x)) (map (\<lambda>k. q + k * w) [0..<length xs]) xs"
  using assms by (simp add: list_all2_conv_all_nth)

lemma holds_concat:
  assumes "holds m q (concat xs)" "\<forall>x \<in> set xs. length x = w" "k < length xs"
  shows "holds m (q + k * w) (xs ! k)"
  using assms
proof (induction xs arbitrary: q k)
  case (Cons x xs)
  then show ?case using Cons.IH [of "q + w" "k - 1"] by (cases k) (auto simp: add.assoc)
qed simp

lemma le32_bytes_word: "length x = 4 \<Longrightarrow> holds m p x \<Longrightarrow> todword m p = Some (le_word x)"
  using holds_todword [of m p "le_word x"] by (simp add: le32_le_word)

lemma read_number4: "length x = 4 \<Longrightarrow> holds m p x \<Longrightarrow> sp_read32 m p = Some (number x)"
  by (simp add: sp_read32_def le32_bytes_word number_def)

lemma join64_halves:
  assumes "length lo = 4" "length hi = 4"
  shows "join64 (le_word lo) (le_word hi) = le_word (lo @ hi)"
proof (rule bit_word_eqI)
  fix n assume "n < LENGTH(64)"
  then show "bit (join64 (le_word lo) (le_word hi)) n = bit (le_word (lo @ hi) :: u64) n"
    using assms by (auto simp: bit_join64 bit_le_word nth_append div_less_iff_less_mult le_div_geq le_mod_geq)
qed

lemma read_number8:
  assumes "length x = 8" "holds m p x"
  shows "sp_read64 m p = Some (le_word x)"
proof -
  have x: "x = take 4 x @ drop 4 x" by simp
  then have "holds m p (take 4 x)" "holds m (p + 4) (drop 4 x)" using assms holds_append [of m p "take 4 x" "drop 4 x"] by auto
  then show ?thesis using assms(1) join64_halves [of "take 4 x" "drop 4 x"] le32_bytes_word [of "take 4 x" m p] le32_bytes_word [of "drop 4 x" m "p + 4"]
    by (simp add: sp_read64_def)
qed

lemma sign_extend_word:
  assumes "length x = 4"
  shows "le_word (sign_extend x) = expand64 (le_word x)"
proof (rule bit_word_eqI)
  fix n assume n: "n < LENGTH(64)"
  have top: "bit (le_word x :: u32) 31 \<longleftrightarrow> bit (x ! 3) 7" using assms by (simp add: bit_le_word)
  have sign: "(le_word x AND 0x80000000 \<noteq> (0 :: u32)) \<longleftrightarrow> bit (le_word x :: u32) 31"
  proof -
    have "(0x80000000 :: u32) = 2 ^ 31" by simp
    then have b: "bit (0x80000000 :: u32) k \<longleftrightarrow> k = 31" for k by (simp only: bit_exp_iff) (auto simp: possible_bit_def)
    have "bit (le_word x AND (0x80000000 :: u32)) k \<longleftrightarrow> k = 31 \<and> bit (le_word x :: u32) 31" for k
      unfolding bit_and_iff b by auto
    then show ?thesis by (metis bit_0_eq bit_eq_iff bot_apply bot_bool_def)
  qed
  show "bit (le_word (sign_extend x) :: u64) n = bit (expand64 (le_word x)) n"
  proof (cases "n < 32")
    case True
    then show ?thesis using assms n by (auto simp: expand64_def sign_extend_def bit_le_word nth_append bit_simps div_less_iff_less_mult)
  next
    case False
    then have "n div 8 < 8" "\<not> n div 8 < 4" "n mod 8 < 8" using n by (auto simp: div_less_iff_less_mult)
    moreover have "bit (0xff :: u8) (n mod 8)"
    proof -
      have "(0xff :: u8) = - 1" by simp
      then show ?thesis by (simp only: bit_minus_1_iff) (simp add: possible_bit_def)
    qed
    ultimately show ?thesis using assms n False
      by (auto simp: expand64_def sign sign_extend_def bit_le_word nth_append bit_simps top)
  qed
qed

text \<open>The numbers of an array, in four or in eight bytes.\<close>

lemma widened_number: "number_ok SPROTO_TINTEGER x \<Longrightarrow> le_word (widened x) = number x"
  by (auto simp: number_ok_def widened_def number_def sign_extend_word)

lemma integer_events: "element_event SPROTO_TINTEGER a i x = int_event a (int i) (number x)"
  by (simp add: element_event_def)

lemma decode_array_integers:
  assumes "holds m p (fill_size (integers_code xs))" "xs \<noteq> []" "list_all (number_ok SPROTO_TINTEGER) xs" "length m < 2 ^ 31"
    "arg_type args = SPROTO_TINTEGER"
  shows "decode_array cb args m p s = deliver cb (element_events SPROTO_TINTEGER args 1 xs) s"
proof -
  note h = holds_fill_size [OF assms(1,4)]
  let ?w = "numbers_width xs" and ?code = "integers_code xs"
  have code: "?code = of_nat ?w # numbers_out xs" using assms(2) by (simp add: integers_code_out)
  have width: "?w = 4 \<or> ?w = 8" by (simp add: numbers_width_def)
  have len: "length (numbers_out xs) = ?w * length xs"
    using length_all4 [of xs] length_all_widened [OF assms(3)] by (simp add: numbers_out_def numbers_width_def)
  have first: "p + 4 < length m" "m ! (p + 4) = of_nat ?w" and out: "holds m (p + 4 + 1) (numbers_out xs)"
    using h(4) unfolding code by (simp_all add: eval_nat_numeral)
  have b: "unat (m ! (p + 4)) = ?w" using width unfolding first(2) by auto
  have nz: "(of_nat (length ?code) :: u32) \<noteq> 0" using h(2) code by (metis length_0_conv list.distinct(1) unat_0)
  have n: "unat (of_nat (length ?code) :: u32) - 1 = ?w * length xs" unfolding h(2) by (simp add: code len)
  have run: "bind_run (decode_numbers cb args rd 1 (map (\<lambda>k. p + 4 + 1 + k * ?w) [0..<length xs]) s) (\<lambda>s'. done_run (True, s')) =
      deliver cb (element_events SPROTO_TINTEGER args 1 xs) s"
    if "\<And>k. k < length xs \<Longrightarrow> rd (p + 4 + 1 + k * ?w) = Some (number (xs ! k))" for rd
  proof -
    have true: "deliver cb (element_events SPROTO_TINTEGER args i ys) s = bind_run (deliver cb (element_events SPROTO_TINTEGER args i ys) s) (\<lambda>(ok, s'). done_run (True, s'))"
      for i ys s
      by (induction ys arbitrary: i s) (simp_all add: integer_events deliver_int bind_run_assoc)
    have "decode_numbers cb args rd 1 (map (\<lambda>k. p + 4 + 1 + k * ?w) [0..<length xs]) s =
        bind_run (deliver cb (element_events SPROTO_TINTEGER args 1 xs) s) (\<lambda>(ok, s'). done_run s')"
      by (rule decode_numbers_ok [where val = number]) (use that in \<open>auto simp: integer_events intro: list_all2_places\<close>)
    then show ?thesis using true [of 1 xs s] by (simp add: bind_run_assoc split_def)
  qed
  show ?thesis
  proof (cases "all4 xs")
    case True
    then have w4: "?w = 4" and o: "numbers_out xs = concat xs" by (simp_all add: numbers_width_def numbers_out_def)
    have "sp_read32 m (p + 4 + 1 + k * ?w) = Some (number (xs ! k))" if "k < length xs" for k
    proof -
      have four: "\<forall>x \<in> set xs. length x = 4" using True by (simp add: all4_def list_all_iff)
      have "holds m (p + 4 + 1 + k * 4) (xs ! k)" by (rule holds_concat) (use out o that four in auto)
      then show ?thesis using read_number4 [of "xs ! k"] that four by (simp add: w4)
    qed
    from run [OF this] show ?thesis
      using assms(5) first(1) nz n b by (simp add: decode_array_def h(1) Let_def w4)
  next
    case False
    then have w8: "?w = 8" and o: "numbers_out xs = concat (map widened xs)" by (simp_all add: numbers_width_def numbers_out_def)
    have "sp_read64 m (p + 4 + 1 + k * ?w) = Some (number (xs ! k))" if "k < length xs" for k
    proof -
      have x: "number_ok SPROTO_TINTEGER (xs ! k)" using assms(3) that by (simp add: list_all_length)
      have "holds m (p + 4 + 1 + k * 8) (map widened xs ! k)"
        by (rule holds_concat) (use out o that assms(3) length_widened in \<open>auto simp: list_all_iff\<close>)
      then show ?thesis using read_number8 [of "widened (xs ! k)"] that length_widened [OF x] widened_number [OF x] by (simp add: w8)
    qed
    from run [OF this] show ?thesis
      using assms(5) first(1) nz n b by (simp add: decode_array_def h(1) Let_def w8)
  qed
qed

lemma decode_array_booleans:
  assumes "holds m p (fill_size (map truth xs))" "xs \<noteq> []" "length m < 2 ^ 31" "arg_type args = SPROTO_TBOOLEAN"
  shows "decode_array cb args m p s = deliver cb (element_events SPROTO_TBOOLEAN args 1 xs) s"
proof -
  note h = holds_fill_size [OF assms(1,3)]
  have ev: "element_event SPROTO_TBOOLEAN args i x = int_event args (int i) (ucast (truth x))" for i x
    by (simp add: element_event_def sproto_types)
  have true: "deliver cb (element_events SPROTO_TBOOLEAN args i ys) s = bind_run (deliver cb (element_events SPROTO_TBOOLEAN args i ys) s) (\<lambda>(ok, s'). done_run (True, s'))"
    for i ys s
    by (induction ys arbitrary: i s) (simp_all add: ev deliver_int bind_run_assoc)
  have "sp_read_byte m (p + 4 + k * 1) = Some (ucast (truth (xs ! k)))" if "k < length xs" for k
  proof -
    have "holds m (p + 4 + k * 1) (map (\<lambda>x. [truth x]) xs ! k)"
      by (rule holds_concat) (use h(4) that in \<open>auto simp: concat_map_singleton\<close>)
    then show ?thesis using that by (simp add: sp_read_byte_def)
  qed
  then have "decode_numbers cb args (sp_read_byte m) 1 (map (\<lambda>k. p + 4 + k * 1) [0..<length xs]) s =
      bind_run (deliver cb (element_events SPROTO_TBOOLEAN args 1 xs) s) (\<lambda>(ok, s'). done_run s')"
    by (intro decode_numbers_ok [where val = "\<lambda>x. ucast (truth x)"] list_all2_places) (auto simp: ev)
  moreover have "(of_nat (length (map truth xs)) :: u32) \<noteq> 0" using h(2) assms(2) by (metis length_0_conv map_is_Nil_conv unat_0)
  ultimately show ?thesis using true [of 1 xs s] h(2)
    by (simp add: decode_array_def h(1) Let_def assms(4) sproto_types bind_run_assoc split_def)
qed

lemma decode_array_objects:
  assumes "holds m p (fill_size (objects_code xs))" "xs \<noteq> []" "length m < 2 ^ 31" "arg_type args = t" "t = SPROTO_TSTRING \<or> t = SPROTO_TSTRUCT"
  shows "decode_array cb args m p s = deliver cb (element_events t args 1 xs) s"
proof -
  note h = holds_fill_size [OF assms(1,3)]
  have "objects_code xs \<noteq> []" using assms(2) by (cases xs) auto
  then have "(of_nat (length (objects_code xs)) :: u32) \<noteq> 0" using h(2) by (metis length_0_conv unat_0)
  moreover have "decode_array_object cb args m (p + 4) (length (objects_code xs)) 1 s = deliver cb (element_events t args 1 xs) s"
    by (rule decode_array_object_ok) (use h(4) assms(3,5) in \<open>auto simp: sproto_types\<close>)
  ultimately show ?thesis using assms(4,5) h(3)
    by (auto simp: decode_array_def h(1) Let_def sproto_types)
qed

lemma decode_array_empty:
  assumes "holds m p (fill_size [])" "arg_value args = V_None" "arg_length args = 0"
  shows "decode_array cb args m p s = deliver cb [args\<lparr>arg_index := - 1\<rparr>] s"
proof -
  have "args\<lparr>arg_index := - 1, arg_value := V_None, arg_length := 0\<rparr> = args\<lparr>arg_index := - 1\<rparr>" using assms(2,3) by simp
  moreover have "todword m p = Some 0" using holds_todword [of m p 0] assms(1) by (simp add: fill_size_def)
  ultimately show ?thesis using assms(2) by (auto simp: decode_array_def deliver.simps(2) intro!: bind_run_cong)
qed

text \<open>A field with its data: the callback gets its content.\<close>

lemma decode_data_ok:
  assumes "wf_field n f" "suits f c" "content_code (base_type f) c = (v, new)" "new \<noteq> []" "holds m p new" "length m < 2 ^ 31"
  shows "decode_data cb f (field_args f) m p s = deliver cb (content_events (base_type f) (field_args f) c) s"
proof (cases c)
  case (C_List xs)
  then have array: "fd_type f AND SPROTO_TARRAY \<noteq> 0" and ok: "list_all (number_ok (base_type f)) xs"
    using assms(2) by (simp_all add: is_array_def)
  have new: "new = fill_size (if base_type f = SPROTO_TINTEGER then integers_code xs
      else if base_type f = SPROTO_TBOOLEAN then map truth xs else objects_code xs)"
    using assms(3) C_List by (auto simp: objects_code_def)
  show ?thesis
  proof (cases "xs = []")
    case True
    then have "new = fill_size []" using new by (simp add: integers_code_def)
    then show ?thesis using decode_array_empty [of m p "field_args f" cb s] assms(5) array True C_List
      by (simp add: decode_data_def field_args_def)
  next
    case False
    consider "base_type f = SPROTO_TINTEGER" | "base_type f = SPROTO_TBOOLEAN" | "base_type f = SPROTO_TSTRING \<or> base_type f = SPROTO_TSTRUCT"
      using field_facts(1) [OF assms(1)] by (auto simp: sproto_types)
    then show ?thesis
    proof cases
      case 1
      then show ?thesis using decode_array_integers [of m p xs "field_args f" cb s] new ok assms(5,6) False array C_List
        by (simp add: decode_data_def)
    next
      case 2
      moreover have "SPROTO_TBOOLEAN \<noteq> SPROTO_TINTEGER" by (simp add: sproto_types)
      ultimately show ?thesis using decode_array_booleans [of m p xs "field_args f" cb s] new assms(5,6) False array C_List
        by (simp add: decode_data_def)
    next
      case 3
      then have "base_type f \<noteq> SPROTO_TINTEGER" "base_type f \<noteq> SPROTO_TBOOLEAN" by (auto simp: sproto_types)
      then show ?thesis using decode_array_objects [of m p xs "field_args f" "base_type f" cb s] 3 new assms(5,6) False array C_List
        by (simp add: decode_data_def)
    qed
  qed
next
  case (C_One bs)
  then have single: "\<not> fd_type f AND SPROTO_TARRAY \<noteq> 0" and t: "fd_type f = base_type f"
    using assms(2) field_facts(2) [OF assms(1)] by (simp_all add: is_array_def)
  have new: "new = fill_size bs" and big: "\<not> ((base_type f = SPROTO_TINTEGER \<or> base_type f = SPROTO_TBOOLEAN) \<and> length bs = 4 \<and> (le_word bs :: u32) < 0x7fff)"
    using assms(3,4) C_One by (auto split: if_splits)
  note h = holds_fill_size [OF assms(5) [unfolded new] assms(6)]
  have notbool: "base_type f \<noteq> SPROTO_TBOOLEAN"
    using assms(2) C_One big by (auto simp: number_ok_def sproto_types)
  have here: "(field_args f)\<lparr>arg_index := 0\<rparr> = field_args f" by (simp add: field_args_def)
  show ?thesis
  proof (cases "base_type f = SPROTO_TINTEGER")
    case True
    then have "length bs = 4 \<or> length bs = 8" using assms(2) C_One by (simp add: number_ok_def)
    then show ?thesis
    proof
      assume "length bs = 4"
      then show ?thesis using read_number4 [of bs m "p + 4"] h(1,4) single True C_One
        by (simp add: decode_data_def t deliver_int deliver_Nil here)
    next
      assume "length bs = 8"
      then show ?thesis using read_number8 [of bs m "p + 4"] h(1,4) single True C_One
        by (simp add: decode_data_def t deliver_int deliver_Nil here number_def)
    qed
  next
    case False
    then have "base_type f = SPROTO_TSTRING \<or> base_type f = SPROTO_TSTRUCT" using field_facts(1) [OF assms(1)] notbool by (auto simp: sproto_types)
    moreover have "give_bytes cb ((field_args f)\<lparr>arg_index := 0\<rparr>) m (p + 4) (of_nat (length bs)) s =
        bind_run (cb (bytes_event (field_args f) 0 bs) s) (\<lambda>(r, s'). done_run (r = 0, s'))"
      by (rule give_bytes_ok [OF h(4,2)])
    ultimately show ?thesis using h(1) single False notbool C_One
      by (auto simp: decode_data_def t deliver_bytes here intro!: bind_run_cong)
  qed
qed

section \<open>Decoding a message\<close>

lemma content_code_cases:
  assumes "content_code t c = (v, new)"
  obtains x where "v = 0" "new = fill_size x"
    | bs where "c = C_One bs" "t = SPROTO_TINTEGER \<or> t = SPROTO_TBOOLEAN" "length bs = 4" "(le_word bs :: u32) < 0x7fff"
        "v = (uint (le_word bs :: u32) + 1) * 2" "new = []"
  using assms by (cases c) (auto split: if_splits)

lemma small_number:
  assumes "length bs = 4" "(le_word bs :: u32) < 0x7fff"
  shows "ucast (le_word bs :: u32) = number bs"
proof -
  let ?w = "le_word bs :: u32"
  have "?w AND 0x80000000 = 0"
  proof (rule bit_word_eqI)
    fix k assume k: "k < LENGTH(32)"
    have "(0x80000000 :: u32) = 2 ^ 31" by simp
    then have b: "bit (0x80000000 :: u32) k \<longleftrightarrow> k = 31" using k by (simp only: bit_exp_iff) (auto simp: possible_bit_def)
    have "unat ?w < 2 ^ 31" using assms(2) by (simp add: word_less_nat_alt)
    then have "\<not> bit (unat ?w) 31" by (simp add: bit_iff_odd)
    then have "\<not> bit ?w 31" by (simp add: bit_unsigned_iff)
    then show "bit (?w AND 0x80000000) k = bit 0 k" unfolding bit_and_iff b by auto
  qed
  then show ?thesis using assms(1) by (simp add: number_def expand64_def)
qed

lemma decode_one_field:
  assumes "wf_field n f" "suits f c" "content_code (base_type f) c = (v, new)" "findtag st (lasttag + 1) = Some f"
    "toword m d = Some (nat v)" "holds m p new" "room = int (length m) - int p" "length m < 2 ^ 31"
  shows "decode_fields cb st m (d # ds) lasttag p room s =
    bind_run (deliver cb (content_events (base_type f) (field_args f) c) s) (\<lambda>(ok, s').
      if ok then decode_fields cb st m ds (lasttag + 1) (p + length new) (room - int (length new)) s' else done_run (None, s'))"
proof -
  have args: "\<lparr>arg_tagname = fd_name f, arg_tagid = fd_tag f, arg_type = fd_type f AND NOT SPROTO_TARRAY, arg_subtype = fd_st f,
      arg_value = V_None, arg_length = 0, arg_index = 0, arg_mainindex = fd_key f\<rparr> = field_args f"
    by (simp add: field_args_def base_type_def)
  from assms(3) show ?thesis
  proof (cases rule: content_code_cases)
    case (1 x)
    note h = holds_fill_size [OF assms(6) [unfolded 1(2)] assms(8)]
    have le: "length x + 4 \<le> length m - p" "p \<le> length m" using holds_bytes(2) [OF assms(6)] 1(2) by simp_all
    have small: "unat (of_nat k :: u32) = k" if "k < 2 ^ 31" for k
      using that by (simp add: unsigned_of_nat take_bit_nat_eq_self)
    have "of_nat (length x) + 4 = (of_nat (length x + 4) :: u32)" by simp
    moreover have "length x + 4 < 2 ^ 31" "length m - p < 2 ^ 31" using le assms(8) by linarith+
    ultimately have total: "unat (of_nat (length x) + 4 :: u32) = length x + 4" using small by metis
    have r: "room = int (length m - p)" using assms(7) le by (simp add: of_nat_diff)
    have "unat (word_of_int room :: u32) = length m - p" using small [OF \<open>length m - p < 2 ^ 31\<close>] by (simp add: r)
    then have room: "\<not> room < 4" "\<not> (word_of_int room :: u32) < of_nat (length x) + 4"
      using le r by (simp_all add: word_less_nat_alt total)
    have "decode_data cb f (field_args f) m p s = deliver cb (content_events (base_type f) (field_args f) c) s" for s
      using decode_data_ok [OF assms(1,2,3) _ assms(6,8)] 1 by simp
    then show ?thesis using assms(4,5) room 1 h(1) total
      by (simp add: Let_def args split_def add.commute cong: if_cong)
  next
    case (2 bs)
    have number: "ucast (le_word bs :: u32) = number bs" by (rule small_number [OF 2(3,4)])
    have t: "(fd_type f \<noteq> SPROTO_TINTEGER \<and> fd_type f \<noteq> SPROTO_TBOOLEAN) = False" using field_facts(2) [OF assms(1)] assms(2) 2(1,2) by auto
    have v: "even (nat v)" "int (nat v div 2) - 1 = uint (le_word bs :: u32)"
      using 2(5) by (simp_all add: nat_mult_distrib nat_add_distrib)
    have here: "(field_args f)\<lparr>arg_index := 0\<rparr> = field_args f" by (simp add: field_args_def)
    have "deliver cb (content_events (base_type f) (field_args f) c) s = bind_run (give_int cb (field_args f) (number bs) s) (\<lambda>s'. done_run (True, s'))"
      using 2(1,2) by (auto simp: deliver_int deliver_Nil here)
    then show ?thesis using assms(4,5) 2(6) v
      by (simp add: Let_def args bind_run_assoc number t)
  qed
qed

text \<open>The words of the descriptors, between zero and 65535.\<close>

lemma layout_words:
  assumes "list_all (wf_field n) fs" "sorted_wrt (<) (lasttag # map fd_tag fs)" "- 1 \<le> lasttag"
  shows "list_all (\<lambda>w. 0 \<le> w \<and> w < 65536) (fst (layout msg lasttag fs))"
  using assms
proof (induction fs arbitrary: lasttag)
  case (Cons f fs)
  have tag: "lasttag < fd_tag f" "fd_tag f \<le> 32766" and f: "- 1 \<le> fd_tag f"
    using Cons.prems field_facts(4) [of n f] by auto
  have nil: "list_all (\<lambda>w. 0 \<le> w \<and> w < 65536) (fst (layout msg lasttag fs))"
    and later: "list_all (\<lambda>w. 0 \<le> w \<and> w < 65536) (fst (layout msg (fd_tag f) fs))"
    by (rule Cons.IH; use Cons.prems f in auto)+
  have val: "0 \<le> v \<and> v < 65536" if "content_code t c = (v, new)" for t c v new
    using that
  proof (cases rule: content_code_cases)
    case (2 bs)
    then show ?thesis by (simp add: word_less_def)
  qed simp
  show ?case using nil later val tag Cons.prems(3) by (auto simp: Let_def split: option.splits prod.splits)
qed simp

lemma decode_skip:
  assumes "toword m e = Some w" "odd w"
  shows "decode_fields cb st m (e # ds) lasttag p room s = decode_fields cb st m ds (lasttag + 1 + int (w div 2)) p room s"
  using assms by (simp add: Let_def)

lemma decode_fields_layout:
  assumes "list_all (wf_field n) fs" "sorted_wrt (<) (lasttag # map fd_tag fs)" "- 1 \<le> lasttag" "msg_suits msg fs"
    "\<forall>f \<in> set fs. findtag st (fd_tag f) = Some f"
    "list_all2 (\<lambda>d w. toword m d = Some (nat w)) ds (fst (layout msg lasttag fs))" "holds m p (snd (layout msg lasttag fs))"
    "room = int (length m) - int p" "length m < 2 ^ 31"
  shows "decode_fields cb st m ds lasttag p room s = bind_run (deliver cb (events msg fs) s)
    (\<lambda>(ok, s'). done_run (if ok then Some (int (p + length (snd (layout msg lasttag fs)))) else None, s'))"
  using assms
proof (induction fs arbitrary: lasttag ds p room s)
  case Nil
  then show ?case by (simp add: events_def)
next
  case (Cons f fs)
  have f: "wf_field n f" "pred_option (suits f) (msg (fd_tag f))" "findtag st (fd_tag f) = Some f"
    and fs: "list_all (wf_field n) fs" "msg_suits msg fs" "\<forall>f \<in> set fs. findtag st (fd_tag f) = Some f"
    using Cons.prems(1,4,5) by (simp_all add: msg_suits_def)
  have tag: "lasttag < fd_tag f" "- 1 \<le> fd_tag f"
    and sorted: "sorted_wrt (<) (fd_tag f # map fd_tag fs)" "sorted_wrt (<) (lasttag # map fd_tag fs)"
    using Cons.prems(2,3) by auto
  show ?case
  proof (cases "msg (fd_tag f)")
    case None
    then have eq: "events msg (f # fs) = events msg fs" "layout msg lasttag (f # fs) = layout msg lasttag fs" by (simp_all add: events_def)
    show ?thesis unfolding eq
      by (rule Cons.IH) (use Cons.prems fs sorted eq in \<open>simp_all del: layout.simps\<close>)
  next
    case (Some c)
    obtain v new where c: "content_code (base_type f) c = (v, new)" by (cases "content_code (base_type f) c")
    obtain ws D where rest: "layout msg (fd_tag f) fs = (ws, D)" by (cases "layout msg (fd_tag f) fs")
    let ?skip = "fd_tag f - lasttag - 1"
    have lay: "layout msg lasttag (f # fs) = ((if ?skip > 0 then [(?skip - 1) * 2 + 1, v] else [v]) @ ws, new @ D)"
      by (simp add: Some c rest Let_def)
    have ev: "events msg (f # fs) = content_events (base_type f) (field_args f) c @ events msg fs" by (simp add: events_def Some)
    have D: "holds m p new" "holds m (p + length new) D" using Cons.prems(7) [unfolded lay] by simp_all
    have after: "decode_fields cb st m ds' (fd_tag f) (p + length new) (room - int (length new)) s' =
        bind_run (deliver cb (events msg fs) s') (\<lambda>(ok, s'). done_run (if ok then Some (int (p + length new + length D)) else None, s'))"
      if "list_all2 (\<lambda>d w. toword m d = Some (nat w)) ds' ws" for ds' s'
      using Cons.IH [of "fd_tag f" ds' "p + length new" "room - int (length new)" s', unfolded rest snd_conv fst_conv] that fs sorted tag D Cons.prems(8,9)
      by simp
    have field: "decode_fields cb st m (d # ds') (fd_tag f - 1) p room s =
        bind_run (deliver cb (events msg (f # fs)) s) (\<lambda>(ok, s'). done_run (if ok then Some (int (p + length new + length D)) else None, s'))"
      if "toword m d = Some (nat v)" "list_all2 (\<lambda>d w. toword m d = Some (nat w)) ds' ws" for d ds'
    proof -
      have "decode_fields cb st m (d # ds') (fd_tag f - 1) p room s =
          bind_run (deliver cb (content_events (base_type f) (field_args f) c) s) (\<lambda>(ok, s').
            if ok then decode_fields cb st m ds' (fd_tag f - 1 + 1) (p + length new) (room - int (length new)) s' else done_run (None, s'))"
        by (rule decode_one_field [OF f(1) _ c]) (use f(2,3) Some that(1) D(1) Cons.prems(8,9) in simp_all)
      then show ?thesis using after [OF that(2)]
        by (auto simp: ev deliver_append bind_run_assoc intro!: bind_run_cong)
    qed
    show ?thesis
    proof (cases "?skip > 0")
      case False
      then have "lasttag = fd_tag f - 1" using tag(1) by simp
      moreover obtain d ds' where "ds = d # ds'" "toword m d = Some (nat v)" "list_all2 (\<lambda>d w. toword m d = Some (nat w)) ds' ws"
        using Cons.prems(6) [unfolded lay] False by (auto simp: list_all2_Cons2)
      ultimately show ?thesis using field unfolding lay by (simp add: add.assoc cong: if_cong del: decode_fields.simps)
    next
      case True
      let ?w = "(?skip - 1) * 2 + 1"
      obtain e d ds' where ds: "ds = e # d # ds'" and w: "toword m e = Some (nat ?w)" and d: "toword m d = Some (nat v)" "list_all2 (\<lambda>d w. toword m d = Some (nat w)) ds' ws"
        using Cons.prems(6) [unfolded lay] True by (auto simp: list_all2_Cons2)
      obtain k where k: "?skip = int k + 1" using True zero_less_imp_eq_int [of ?skip] by (metis Suc_pred' of_nat_Suc add.commute)
      have "nat ?w = 2 * k + 1" unfolding k by simp
      then have odd: "odd (nat ?w)" "lasttag + 1 + int (nat ?w div 2) = fd_tag f - 1"
        using k by simp_all
      have "decode_fields cb st m ds lasttag p room s = decode_fields cb st m (d # ds') (fd_tag f - 1) p room s"
        unfolding ds decode_skip [OF w odd(1)] odd(2) ..
      then show ?thesis using field [OF d] unfolding lay by (simp add: add.assoc cong: if_cong del: decode_fields.simps)
    qed
  qed
qed

section \<open>The round trip\<close>

lemma wf_type_facts:
  assumes "wf_type n t"
  shows "list_all (wf_field n) (ty_f t)" "sorted_wrt (<) (- 1 # map fd_tag (ty_f t))" "\<forall>f \<in> set (ty_f t). findtag t (fd_tag f) = Some f"
    "ty_maxn t = count_descriptors (- 1) (map fd_tag (ty_f t))" "ty_maxn t \<le> 32767"
proof -
  show fs: "list_all (wf_field n) (ty_f t)" and maxn: "ty_maxn t = count_descriptors (- 1) (map fd_tag (ty_f t))"
    using assms by (simp_all add: wf_type_def tags_of_def)
  have sorted: "sorted_wrt (<) (map fd_tag (ty_f t))" using assms by (simp add: wf_type_def tags_of_def)
  have tags: "0 \<le> fd_tag f \<and> fd_tag f \<le> 32766" if "f \<in> set (ty_f t)" for f
    using fs that by (auto simp: list_all_iff wf_field_def)
  then show first: "sorted_wrt (<) (- 1 # map fd_tag (ty_f t))" using sorted by fastforce
  show "\<forall>f \<in> set (ty_f t). findtag t (fd_tag f) = Some f"
    using find_by_tag_nth [OF sorted] by (auto simp: in_set_conv_nth findtag_lookup [OF assms])
  have "int (count_descriptors (- 1) (map fd_tag (ty_f t))) \<le> 32766 - - 1"
    by (rule count_descriptors_le [OF first]) (use tags in auto)
  then show "ty_maxn t \<le> 32767" by (simp add: maxn)
qed

text \<open>What \<open>sproto_encode\<close> does with a message.\<close>

lemma sproto_encode_gives:
  assumes "wf_type n t" "msg_suits msg (ty_f t)" "room < 2 ^ 31"
  shows "gives (sproto_encode t room (provide msg) s) (int (message_need t msg) \<le> room) (Some (message_code t msg), s) (None, s)"
proof (cases "room < int (SIZEOF_HEADER + ty_maxn t * SIZEOF_FIELD)")
  case True
  then show ?thesis by (simp add: sproto_encode_def gives_def message_need_def)
next
  case False
  note wf = wf_type_facts [OF assms(1)]
  let ?room = "room - int (SIZEOF_HEADER + ty_maxn t * SIZEOF_FIELD)"
  have small: "?room < 2 ^ 31" "0 \<le> ?room"
    using assms(3) False of_nat_0_le_iff [of "SIZEOF_HEADER + ty_maxn t * SIZEOF_FIELD", where 'a = int] by linarith+
  have "gives (encode_fields (provide msg) (ty_maxn t) (ty_f t) (- 1) [] [] ?room s) (int (fields_need msg (ty_f t)) + 8 \<le> ?room)
      (Some (le16 (int (0 + length (fst (layout msg (- 1) (ty_f t))))) @ [] @ concat (map le16 (fst (layout msg (- 1) (ty_f t)))) @
        [] @ snd (layout msg (- 1) (ty_f t))), s) (None, s)"
    by (rule encode_fields_gives [where n = n]) (use assms(2) False wf small in simp_all)
  then show ?thesis using False by (simp add: sproto_encode_def message_need_def message_code_def split_def algebra_simps Let_def)
qed

lemma sproto_decode_message:
  assumes "wf_type n t" "msg_suits msg (ty_f t)" "length (message_code t msg) < 2 ^ 31"
  shows "sproto_decode t (message_code t msg) cb s = bind_run (deliver cb (events msg (ty_f t)) s)
    (\<lambda>(ok, s'). done_run (if ok then Some (int (length (message_code t msg))) else None, s'))"
proof -
  note wf = wf_type_facts [OF assms(1)]
  obtain ws D where lay: "layout msg (- 1) (ty_f t) = (ws, D)" by (cases "layout msg (- 1) (ty_f t)")
  let ?m = "message_code t msg" and ?fn = "length ws"
  have m: "?m = le16 (int ?fn) @ concat (map le16 ws) @ D" by (simp add: message_code_def lay)
  have len: "length ?m = 2 + 2 * ?fn + length D" by (simp add: m length_concat_le16 le16_def)
  have fn: "?fn \<le> 32767" using length_layout [OF wf(2), of msg] wf(4,5) by (simp add: lay)
  have ws: "list_all (\<lambda>w. 0 \<le> w \<and> w < 65536) ws" using layout_words [OF wf(1,2), of msg] by (simp add: lay)
  have whole: "holds ?m 0 (le16 (int ?fn) @ concat (map le16 ws) @ D)" unfolding m [symmetric] by (simp add: holds_def)
  have l16: "length (le16 v) = 2" for v by (simp add: le16_def)
  have parts: "holds ?m 0 (le16 (int ?fn))" "holds ?m 2 (concat (map le16 ws))" "holds ?m (2 + ?fn * 2) D"
    using whole [unfolded holds_append l16 length_concat_le16 add_0] unfolding mult.commute [of "length ws"] by blast+
  have first: "toword ?m 0 = Some ?fn" using holds_toword [OF parts(1)] fn by simp
  have words: "list_all2 (\<lambda>d w. toword ?m d = Some (nat w)) (map (\<lambda>i. SIZEOF_HEADER + i * SIZEOF_FIELD) [0..<?fn]) ws"
  proof -
    have "toword ?m (2 + i * 2) = Some (nat (ws ! i))" if "i < ?fn" for i
    proof -
      have "holds ?m (2 + i * 2) (map le16 ws ! i)"
        by (rule holds_concat [OF parts(2)]) (use that in \<open>auto simp: le16_def\<close>)
      then show ?thesis using holds_toword [of ?m "2 + i * 2" "ws ! i"] ws that by (simp add: list_all_length)
    qed
    then show ?thesis by (simp add: list_all2_conv_all_nth sproto_sizes)
  qed
  have total: "2 + ?fn * 2 + length (snd (layout msg (- 1) (ty_f t))) = length ?m" by (simp add: len lay)
  let ?ds = "map (\<lambda>i. SIZEOF_HEADER + i * SIZEOF_FIELD) [0..<?fn]" and ?room = "int (length ?m) - int (2 + ?fn * 2)"
  have "2 \<le> length ?m" "0 \<le> ?room" using len by simp_all
  then have "sproto_decode t ?m cb s = decode_fields cb t ?m ?ds (- 1) (2 + ?fn * 2) ?room s"
    by (simp add: sproto_decode_def first Let_def sproto_sizes diff_diff_eq)
  also have "\<dots> = bind_run (deliver cb (events msg (ty_f t)) s)
        (\<lambda>(ok, s'). done_run (if ok then Some (int ((2 + ?fn * 2) + length (snd (layout msg (- 1) (ty_f t))))) else None, s'))"
    by (rule decode_fields_layout [OF wf(1,2) _ assms(2) wf(3)]) (use words parts(3) assms(3) in \<open>simp_all add: lay\<close>)
  finally show ?thesis unfolding total .
qed

text \<open>Whatever the callback does, the message is no longer than the buffer.\<close>

lemma encode_fields_fits:
  assumes "encode_fields cb maxn fs lasttag header data room s = done_run (Some m, s')" "0 \<le> room" "length header \<le> 2 * maxn"
  shows "int (length m) \<le> 2 + 2 * int maxn + int (length data) + room"
  using assms
proof (induction fs arbitrary: lasttag header data room s)
  case Nil
  then show ?case by (auto simp: le16_def)
next
  case (Cons f fs)
  obtain c s1 where c: "encode_field cb f room s = done_run (c, s1)" using Cons.prems(1) by (auto simp: bind_run_done Let_def)
  note step = Cons.prems(1) [unfolded encode_fields.simps c bind_run_simps prod.case Let_def]
  have put: "int (length m) \<le> 2 + 2 * int maxn + int (length data) + room"
    if new: "(case descriptors lasttag (fd_tag f) v of None \<Rightarrow> done_run (None, s1)
          | Some d \<Rightarrow> if length (header @ d) > maxn * SIZEOF_FIELD then None
              else encode_fields cb maxn fs (fd_tag f) (header @ d) (data @ new) (room - int (length new)) s1) = done_run (Some m, s')"
      and fits: "int (length new) \<le> room" for v new
  proof -
    obtain d where rest: "encode_fields cb maxn fs (fd_tag f) (header @ d) (data @ new) (room - int (length new)) s1 = done_run (Some m, s')"
      and h: "length (header @ d) \<le> 2 * maxn"
      using new by (auto simp: SIZEOF_FIELD_def split: option.splits if_splits)
    from Cons.IH [OF rest _ h] fits show ?thesis by simp
  qed
  show ?case
  proof (cases c)
    case FC_Nil
    then show ?thesis using step Cons.IH Cons.prems(2,3) by simp
  next
    case (FC_Small v)
    then show ?thesis using put [of "[]" v] step Cons.prems(2) by simp
  next
    case (FC_Data new)
    then show ?thesis using put [of new 0] step encode_field_fits(1) [OF c [unfolded FC_Data] Cons.prems(2)] by simp
  qed (use step Cons.prems(2) in auto)
qed

lemma sproto_encode_fits:
  assumes "sproto_encode t room cb s = done_run (Some m, s')"
  shows "int (length m) \<le> room"
proof -
  have room: "\<not> room < int (SIZEOF_HEADER + ty_maxn t * SIZEOF_FIELD)" using assms by (auto simp: sproto_encode_def Let_def)
  then have "encode_fields cb (ty_maxn t) (ty_f t) (- 1) [] [] (room - int (SIZEOF_HEADER + ty_maxn t * SIZEOF_FIELD)) s = done_run (Some m, s')"
    using assms by (simp add: sproto_encode_def Let_def)
  from encode_fields_fits [OF this] room show ?thesis by (simp add: sproto_sizes)
qed

text \<open>C6. What \<open>sproto_encode\<close> wrote for a message whose fields suit their types, \<open>sproto_decode\<close> reads back, for every
  well-formed type: it takes all the bytes and gives its callback, whatever that does, the numbers, strings and
  elements of the message in the order of the tags.  Numbers come back sign-extended to 64 bits, whether they went
  into the descriptor, into four bytes or, in an array with a larger number, into eight.
\<close>

theorem sproto_roundtrip:
  assumes "wf_type n t" "msg_suits msg (ty_f t)" "room < 2 ^ 31" "sproto_encode t room (provide msg) s = done_run (Some m, s1)"
  shows "sproto_decode t m cb s' = bind_run (deliver cb (events msg (ty_f t)) s')
    (\<lambda>(ok, s'). done_run (if ok then Some (int (length m)) else None, s'))"
proof -
  have m: "m = message_code t msg" using sproto_encode_gives [OF assms(1-3), of s] assms(4) by (auto simp: gives_def)
  show ?thesis unfolding m
    by (rule sproto_decode_message [OF assms(1,2)]) (use sproto_encode_fits [OF assms(4)] assms(3) m in simp)
qed

text \<open>C24. With the room that \<open>message_need\<close> says, or more (but less than 2 GB), \<open>sproto_encode\<close> succeeds and writes the bytes of the
  message: the descriptors and data that \<open>message_code\<close> spells out.
\<close>

theorem sproto_encode_succeeds:
  assumes "wf_type n t" "msg_suits msg (ty_f t)" "room < 2 ^ 31" "int (message_need t msg) \<le> room"
  shows "sproto_encode t room (provide msg) s = done_run (Some (message_code t msg), s)"
  using sproto_encode_gives [OF assms(1-3), of s] assms(4) by (simp add: gives_def)

text \<open>An array with a number that needs eight bytes, a small number, and a string.\<close>

definition sample_type :: sproto_type where
  "sample_type = \<lparr>ty_name = [116], ty_base = - 1, ty_maxn = 4, ty_f =
     [\<lparr>fd_tag = 0, fd_type = 0x80, fd_name = [97], fd_st = None, fd_key = - 1\<rparr>,
      \<lparr>fd_tag = 1, fd_type = 0, fd_name = [98], fd_st = None, fd_key = - 1\<rparr>,
      \<lparr>fd_tag = 3, fd_type = 2, fd_name = [99], fd_st = None, fd_key = - 1\<rparr>]\<rparr>"

definition sample_message :: message where
  "sample_message tag = (if tag = 0 then Some (C_List [[254, 255, 255, 255], [0, 0, 0, 0, 1, 0, 0, 0]])
     else if tag = 1 then Some (C_One [5, 0, 0, 0]) else if tag = 3 then Some (C_One [104, 105]) else None)"

lemma sample_message_ok: "wf_type 1 sample_type" "msg_suits sample_message (ty_f sample_type)" "message_need sample_type sample_message \<le> 100"
proof -
  show "wf_type 1 sample_type"
    by (simp add: sample_type_def wf_type_def wf_field_def field_types_def tags_of_def base_of_def sproto_types)
  show "msg_suits sample_message (ty_f sample_type)"
    by (simp add: sample_type_def msg_suits_def sample_message_def is_array_def base_type_def number_ok_def sproto_types)
  show "message_need sample_type sample_message \<le> 100"
    by (simp add: sample_type_def message_need_def fields_need_def sample_message_def base_type_def sproto_types sproto_sizes)
qed

lemma sproto_encode_succeeds_witness:
  "sproto_encode sample_type 100 (provide sample_message) () = done_run (Some (message_code sample_type sample_message), ())"
  by (rule sproto_encode_succeeds [OF sample_message_ok(1,2)]) (use sample_message_ok(3) in simp_all)

lemma example_encoded:
  "sproto_encode sample_type 100 (provide sample_message) () = done_run (Some (message_code sample_type sample_message), ())"
  using sproto_encode_gives [OF sample_message_ok(1,2), of 100 "()"] sample_message_ok(3) by (simp add: gives_def)

definition example_decode :: "(int \<times> cb_value) list decode_callback" where
  "example_decode a s = done_run (0, s @ [(arg_index a, arg_value a)])"

lemma example_number: "number [254, 255, 255, 255] = - 2"
  by code_simp

lemma sproto_roundtrip_witness:
  "sproto_decode sample_type (message_code sample_type sample_message) example_decode [] =
    done_run (Some (int (length (message_code sample_type sample_message))),
      [(1, V_Int (- 2)), (2, V_Int 0x100000000), (0, V_Int 5), (0, V_Bytes [104, 105])])"
proof -
  have events: "deliver example_decode (events sample_message (ty_f sample_type)) [] =
      done_run (True, [(1, V_Int (- 2)), (2, V_Int 0x100000000), (0, V_Int 5), (0, V_Bytes [104, 105])])"
    by (simp add: events_def sample_type_def sample_message_def base_type_def sproto_types element_event_def deliver.simps(2) int_event_def
        bytes_event_def example_decode_def example_number) (simp_all add: number_def expand64_def)
  show ?thesis
    using sproto_roundtrip [OF sample_message_ok(1,2) _ example_encoded, of example_decode "[]"] events by simp
qed

end
