(* ===== verification/SprotoFaults.thy ===== *)
theory SprotoFaults
  imports SprotoRoundtrip
begin

text \<open>
  Where \<open>lualib-src/sproto/sproto.c\<close> leaves its buffers: arithmetic in 32 bits that wraps, and the comparison of an
  \<open>int\<close> with a \<open>size_t\<close>.
\<close>

section \<open>Writing behind the buffer\<close>

lemma less_size_t_negative:
  assumes "- (2 ^ 32) \<le> a" "a < 0"
  shows "\<not> less_size_t a 8"
proof -
  have "a mod 2 ^ 64 = (a + 2 ^ 64) mod 2 ^ 64" by simp
  also have "\<dots> = a + 2 ^ 64" using assms by (intro mod_pos_pos_trivial) auto
  finally show ?thesis using assms by (simp add: less_size_t_def word_less_def uint_word_of_int)
qed

lemma encode_integer_loop_overruns:
  assumes "msg (arg_tagid args) = Some (C_List (pre @ ys @ [y]))" "all4 pre" "all4 ys" "length y = 8"
    "4 * int (length ys) + 8 \<le> room" "room < 8 * int (length ys) + 4 * int (length pre)" "room + 4 * int (length pre) < 2 ^ 31"
  shows "encode_integer_loop (provide msg) args (Suc (length pre)) 4 (concat pre) room s = None"
  using assms
proof (induction ys arbitrary: pre room)
  case Nil
  let ?k = "length pre"
  have cb: "run_cb (provide msg) (args\<lparr>arg_length := 8, arg_index := int (Suc ?k)\<rparr>) s = done_run (CB_Wrote y, s)"
    using Nil.prems(1,4) by (subst provide_list [where pre = pre and ys = "[y]"]) auto
  have "\<not> less_size_t room 8" using Nil.prems(5,7) by (simp add: less_size_t_nonneg)
  moreover have "\<not> less_size_t (room - int ?k * 4) 8" by (rule less_size_t_negative) (use Nil.prems(5,6,7) in auto)
  moreover have "y \<noteq> []" using Nil.prems(4) by auto
  ultimately show ?case using Nil.prems(4,5,6)
    by (simp add: encode_integer_loop.simps [of "provide msg" args "Suc ?k" 4 "concat pre" room s, unfolded cb bind_run_simps prod.case] Let_def)
next
  case (Cons x ys)
  let ?k = "length pre"
  have x: "length x = 4" using Cons.prems(3) by (simp add: all4_def)
  have cb: "run_cb (provide msg) (args\<lparr>arg_length := 8, arg_index := int (Suc ?k)\<rparr>) s = done_run (CB_Wrote x, s)"
    using Cons.prems(1) x by (subst provide_list [where pre = pre and ys = "x # ys @ [y]"]) auto
  have "\<not> less_size_t room 8" using Cons.prems(5,7) by (simp add: less_size_t_nonneg)
  moreover have "encode_integer_loop (provide msg) args (Suc (length (pre @ [x]))) 4 (concat (pre @ [x])) (room - 4) s = None"
    by (rule Cons.IH) (use Cons.prems x in \<open>auto simp: all4_def\<close>)
  moreover have "x \<noteq> []" using x by auto
  ultimately show ?case using x Cons.prems(5)
    by (simp add: encode_integer_loop.simps [of "provide msg" args "Suc ?k" 4 "concat pre" room s, unfolded cb bind_run_simps prod.case] Let_def)
qed

text \<open>C38. A message can make \<open>sproto_encode\<close> write behind its buffer.  In an array of integers of which the first ones fit
  in 32 bits and a later one does not, the ones before are widened in place; the room left is then computed as an \<open>int\<close>,
  which goes below zero, and the test that it is at least 8 compares it as an unsigned number.  It is enough that the
  numbers fit in four bytes each but not in eight.
\<close>

theorem integer_array_overruns:
  assumes "ty_f t = [f]" "is_array f" "base_type f = SPROTO_TINTEGER" "msg (fd_tag f) = Some (C_List (xs @ [y]))" "all4 xs" "length y = 8"
    "int (SIZEOF_HEADER + ty_maxn t * SIZEOF_FIELD) + 13 + 4 * int (length xs) \<le> room"
    "room < int (SIZEOF_HEADER + ty_maxn t * SIZEOF_FIELD) + 5 + 8 * int (length xs)" "room < 2 ^ 31"
  shows "sproto_encode t room (provide msg) s = None"
proof -
  let ?room = "room - int (SIZEOF_HEADER + ty_maxn t * SIZEOF_FIELD)"
  have nonneg: "0 \<le> int (SIZEOF_HEADER + ty_maxn t * SIZEOF_FIELD)" by (rule of_nat_0_le_iff)
  have "encode_integer_loop (provide msg) (field_args f) (Suc (length ([] :: bytes list))) 4 (concat []) (?room - 5) s = None"
    by (rule encode_integer_loop_overruns [where ys = xs and y = y])
      (use assms nonneg in \<open>auto simp: all4_def simp del: of_nat_add of_nat_mult\<close>)
  moreover have "\<not> room < int (SIZEOF_HEADER + ty_maxn t * SIZEOF_FIELD)" "\<not> ?room < 4" "\<not> ?room - 4 < 1"
    using assms(7) of_nat_0_le_iff [of "length xs", where 'a = int] by linarith+
  ultimately show ?thesis
    by (simp add: sproto_encode_def assms(1) encode_field_args assms(2) encode_array_def assms(3) encode_integer_array_def Let_def
        del: of_nat_add of_nat_mult)
qed

definition overrun_type :: sproto_type where
  "overrun_type = \<lparr>ty_name = [116], ty_base = 0, ty_maxn = 1, ty_f = [\<lparr>fd_tag = 0, fd_type = 0x80, fd_name = [97], fd_st = None, fd_key = - 1\<rparr>]\<rparr>"

text \<open>With the buffer of 2050 bytes that \<open>lsproto.c\<close> starts with, 400 small numbers and a large one.\<close>

lemma integer_array_overruns_witness:
  "sproto_encode overrun_type 2050 (provide (\<lambda>_. Some (C_List (replicate 400 [1, 0, 0, 0] @ [[0, 0, 0, 0, 1, 0, 0, 0]])))) () = None"
  by (rule integer_array_overruns [where f = "hd (ty_f overrun_type)" and xs = "replicate 400 [1, 0, 0, 0]" and y = "[0, 0, 0, 0, 1, 0, 0, 0]"])
    (simp_all add: overrun_type_def is_array_def base_type_def sproto_types sproto_sizes all4_def list_all_iff)

section \<open>Reading behind a message\<close>

text \<open>C39. Eight bytes make \<open>sproto_decode\<close> read behind the message it is given: the size of the data plus the four bytes of
  the size itself is computed in 32 bits, so that for \<open>0xfffffffc\<close> it is 0 and passes the test against what is left; an
  array of booleans is then read from behind the end, for as many bytes as the size says.
\<close>

theorem decode_size_wraps:
  assumes "findtag t 0 = Some f" "is_array f" "base_type f = SPROTO_TBOOLEAN"
  shows "sproto_decode t [1, 0, 0, 0, 0xfc, 0xff, 0xff, 0xff] cb s = None"
proof -
  let ?m = "[1, 0, 0, 0, 0xfc, 0xff, 0xff, 0xff] :: bytes"
  have fn: "toword ?m 0 = Some 1" "toword ?m (Suc (Suc 0)) = Some 0" by code_simp+
  obtain sz where size: "todword ?m 4 = Some sz" and sz: "sz \<noteq> 0" "sz + 4 = 0"
  proof
    show "todword ?m 4 = Some 0xfffffffc" by code_simp
  qed simp_all
  have "decode_numbers cb args (sp_read_byte ?m) 1 (map (\<lambda>i. 8 + i) [0..<n]) s = None" if "0 < n" for args n
    using that by (simp add: upt_conv_Cons sp_read_byte_def)
  moreover have "0 < unat sz" using sz(1) by (simp add: unat_gt_0)
  ultimately have "decode_array cb (field_args f) ?m 4 s = None"
    using size sz(1) assms(3) by (simp add: decode_array_def Let_def sproto_types)
  moreover have "\<lparr>arg_tagname = fd_name f, arg_tagid = fd_tag f, arg_type = fd_type f AND NOT SPROTO_TARRAY, arg_subtype = fd_st f,
      arg_value = V_None, arg_length = 0, arg_index = 0, arg_mainindex = fd_key f\<rparr> = field_args f"
    by (simp add: field_args_def base_type_def)
  moreover have "fd_type f AND SPROTO_TARRAY \<noteq> 0" using assms(2) by (simp add: is_array_def)
  ultimately show ?thesis using assms(1) size sz fn
    by (simp add: sproto_decode_def sproto_sizes Let_def decode_data_def)
qed

definition flags_type :: sproto_type where
  "flags_type = \<lparr>ty_name = [116], ty_base = 0, ty_maxn = 1, ty_f = [\<lparr>fd_tag = 0, fd_type = 0x81, fd_name = [97], fd_st = None, fd_key = - 1\<rparr>]\<rparr>"

lemma decode_size_wraps_witness: "sproto_decode flags_type [1, 0, 0, 0, 0xfc, 0xff, 0xff, 0xff] (\<lambda>_ n. done_run (0, Suc n)) 0 = None"
  by (rule decode_size_wraps [where f = "hd (ty_f flags_type)"])
    (simp_all add: flags_type_def findtag_def is_array_def base_type_def sproto_types)

section \<open>A schema that is never read to its end\<close>

text \<open>C0. A bundle of twelve bytes keeps \<open>sproto_create\<close> from ever returning: \<open>count_array\<close> adds 4 to the size \<open>0xfffffffc\<close> of
  an element in 32 bits, gets 0, and stays at the place.  And a type with an empty array of fields makes the import read
  the tag of a field in front of the (empty) array.
\<close>

theorem create_does_not_return:
  "sproto_create [1, 0, 0, 0, 4, 0, 0, 0, 0xfc, 0xff, 0xff, 0xff] = None"
  "sproto_create [1, 0, 0, 0, 19, 0, 0, 0, 15, 0, 0, 0, 2, 0, 0, 0, 0, 0, 1, 0, 0, 0, 97, 0, 0, 0, 0] = None"
  by code_simp+

end
