(* ===== verification/Cluster.thy ===== *)
theory Cluster
  imports NetPack
begin

text \<open>
  Messages between the nodes of a cluster: \<open>lualib-src/lua-cluster.c\<close>, and what \<open>service/clusterd.lua\<close> does with the
  requests that arrive.

  A request or response is one packet or, from 32 KB on, one that announces the size and then parts; the
  packets have the two-byte header that \<open>lua-netpack.c\<close> (\<open>NetPack\<close>) cuts a stream by.  Messages are shorter than
  4 GB, so that their size is a \<open>uint32_t\<close>.  A result \<open>None\<close> is a failed assertion, an access outside a buffer or a
  failed allocation.
\<close>

section \<open>Packing a request\<close>

definition TEMP_LENGTH :: nat where "TEMP_LENGTH = 0x8200"
definition MULTI_PART :: nat where "MULTI_PART = 0x8000"

definition fill_uint32 :: "u32 \<Rightarrow> bytes" where
  "fill_uint32 n = le32_bytes n"

definition fill_header :: "nat \<Rightarrow> bytes option" where
  "fill_header sz = (if sz < 0x10000 then Some [of_nat (sz div 256), of_nat sz] else None)"

text \<open>What is written into the buffer \<open>buf\<close> on the stack has to fit.\<close>

definition in_buf :: "bytes \<Rightarrow> bytes option" where
  "in_buf bs = (if length bs \<le> TEMP_LENGTH then Some bs else None)"

text \<open>The first argument: a number (converted to 32 bits), a string, or something else.\<close>

datatype cluster_addr = Addr_Number u32 | Addr_Name bytes | Addr_Other

text \<open>The packet, and the number of parts that follow.\<close>

definition packreq_number :: "u32 \<Rightarrow> u32 \<Rightarrow> bytes \<Rightarrow> (bytes \<times> nat) option" where
  "packreq_number addr session msg =
     (if length msg < MULTI_PART then do {
        h \<leftarrow> fill_header (length msg + 9);
        buf \<leftarrow> in_buf (h @ [0] @ fill_uint32 addr @ fill_uint32 session @ msg);
        Some (buf, 0)
      } else do {
        h \<leftarrow> fill_header 13;
        buf \<leftarrow> in_buf (h @ [1] @ fill_uint32 addr @ fill_uint32 session @ fill_uint32 (of_nat (length msg)));
        Some (buf, (length msg - 1) div MULTI_PART + 1)
      })"

definition packreq_string :: "bytes \<Rightarrow> u32 \<Rightarrow> bytes \<Rightarrow> (bytes \<times> nat) option" where
  "packreq_string name session msg =
     (if length msg < MULTI_PART then do {
        h \<leftarrow> fill_header (length msg + 6 + length name);
        buf \<leftarrow> in_buf (h @ [0x80, of_nat (length name)] @ name @ fill_uint32 session @ msg);
        Some (buf, 0)
      } else do {
        h \<leftarrow> fill_header (10 + length name);
        buf \<leftarrow> in_buf (h @ [0x81, of_nat (length name)] @ name @ fill_uint32 session @ fill_uint32 (of_nat (length msg)));
        Some (buf, (length msg - 1) div MULTI_PART + 1)
      })"

text \<open>The loop of \<open>packreq_multi\<close>, which goes round \<open>part\<close> times.\<close>

fun packreq_multi :: "nat \<Rightarrow> u32 \<Rightarrow> bytes \<Rightarrow> bytes list option" where
  "packreq_multi 0 session msg = Some []"
| "packreq_multi (Suc part) session msg =
     (let more = length msg > MULTI_PART; s = (if more then MULTI_PART else length msg) in do {
        h \<leftarrow> fill_header (s + 5);
        buf \<leftarrow> in_buf (h @ [if more then 2 else 3] @ fill_uint32 session @ take s msg);
        rest \<leftarrow> packreq_multi part session (drop s msg);
        Some (buf # rest)
      })"

text \<open>
  \<open>msg\<close> is \<open>None\<close> for a NULL pointer.  The results are the packet, the next session and the parts if there are any;
  the flag tells that the message is freed.
\<close>

definition following_session :: "int \<Rightarrow> int" where
  "following_session session = (let n = sint (word_of_int (session + 1) :: u32) in if n < 0 then 1 else n)"

definition lpackrequest :: "cluster_addr \<Rightarrow> int \<Rightarrow> bytes option \<Rightarrow> ((bytes \<times> int \<times> bytes list option) lua \<times> bool) option" where
  "lpackrequest addr session0 msg0 =
     (case msg0 of
        None \<Rightarrow> Some (Inl ''Invalid request message'', False)
      | Some msg \<Rightarrow>
          let session = sint (word_of_int session0 :: u32); s32 = word_of_int session :: u32 in
          if session \<le> 0 then Some (Inl ''Invalid request session %d'', True)
          else
            let packed = (case addr of
                  Addr_Number a \<Rightarrow> map_option Inr (packreq_number a s32 msg)
                | Addr_Name name \<Rightarrow>
                    if length name < 1 \<or> length name > 255 then Some (Inl ''name is too long %s'')
                    else map_option Inr (packreq_string name s32 msg)
                | Addr_Other \<Rightarrow> Some (Inl ''name is too long %s''))
            in case packed of
                 None \<Rightarrow> None
               | Some (Inl e) \<Rightarrow> Some (Inl e, True)
               | Some (Inr (buf, 0)) \<Rightarrow> Some (Inr (buf, following_session session, None), True)
               | Some (Inr (buf, part)) \<Rightarrow>
                   map_option (\<lambda>parts. (Inr (buf, following_session session, Some parts), True)) (packreq_multi part s32 msg))"

section \<open>Unpacking a request\<close>

text \<open>The values that the functions push.\<close>

datatype cl_value = CV_Nil | CV_Bool bool | CV_Int int | CV_Str bytes

definition unpack_uint32 :: "bytes \<Rightarrow> nat \<Rightarrow> u32 option" where
  "unpack_uint32 buf p = (if p + 4 \<le> length buf then Some (get_le32 buf p) else None)"

definition unpackreq_number :: "bytes \<Rightarrow> cl_value list lua option" where
  "unpackreq_number buf =
     (if length buf < 9 then Some (Inl ''Invalid cluster message (size=%d)'')
      else do {
        address \<leftarrow> unpack_uint32 buf 1;
        session \<leftarrow> unpack_uint32 buf 5;
        Some (Inr [CV_Int (uint address), CV_Int (uint session), CV_Str (drop 9 buf)])
      })"

definition unpackmreq_number :: "bytes \<Rightarrow> cl_value list lua option" where
  "unpackmreq_number buf =
     (if length buf \<noteq> 13 then Some (Inl ''Invalid cluster message size %d (multi req must be 13)'')
      else do {
        address \<leftarrow> unpack_uint32 buf 1;
        session \<leftarrow> unpack_uint32 buf 5;
        size \<leftarrow> unpack_uint32 buf 9;
        Some (Inr [CV_Int (uint address), CV_Int (uint session), CV_Int (uint size), CV_Bool True])
      })"

definition unpackmreq_part :: "bytes \<Rightarrow> cl_value list lua option" where
  "unpackmreq_part buf =
     (if length buf < 5 then Some (Inl ''Invalid cluster multi part message'')
      else do {
        session \<leftarrow> unpack_uint32 buf 1;
        Some (Inr [CV_Bool False, CV_Int (uint session), CV_Str (drop 5 buf), CV_Bool (buf ! 0 = 2)])
      })"

definition unpackreq_string :: "bytes \<Rightarrow> cl_value list lua option" where
  "unpackreq_string buf =
     (if length buf < 2 then Some (Inl ''Invalid cluster message (size=%d)'')
      else
        let namesz = unat (buf ! 1) in
        if length buf < namesz + 6 then Some (Inl ''Invalid cluster message (size=%d)'')
        else do {
          session \<leftarrow> unpack_uint32 buf (namesz + 2);
          Some (Inr [CV_Str (take namesz (drop 2 buf)), CV_Int (uint session), CV_Str (drop (namesz + 6) buf)])
        })"

definition unpackmreq_string :: "bytes \<Rightarrow> cl_value list lua option" where
  "unpackmreq_string buf =
     (if length buf < 2 then Some (Inl ''Invalid cluster message (size=%d)'')
      else
        let namesz = unat (buf ! 1) in
        if length buf < namesz + 10 then Some (Inl ''Invalid cluster message (size=%d)'')
        else do {
          session \<leftarrow> unpack_uint32 buf (namesz + 2);
          size \<leftarrow> unpack_uint32 buf (namesz + 6);
          Some (Inr [CV_Str (take namesz (drop 2 buf)), CV_Int (uint session), CV_Int (uint size), CV_Bool True])
        })"

text \<open>The first byte of the empty string is its NUL.\<close>

definition lunpackrequest :: "bytes \<Rightarrow> cl_value list lua option" where
  "lunpackrequest msg =
     (let t = (case msg of [] \<Rightarrow> 0 | b # _ \<Rightarrow> b) in
      if t = 0 then unpackreq_number msg
      else if t = 1 then unpackmreq_number msg
      else if t = 2 \<or> t = 3 then unpackmreq_part msg
      else if t = 0x80 then unpackreq_string msg
      else if t = 0x81 then unpackmreq_string msg
      else Some (Inl ''Invalid req package type %d''))"

section \<open>Responses\<close>

text \<open>One packet or a table of them.\<close>

datatype response = Resp_One bytes | Resp_Table "bytes list"

fun packresponse_multi :: "nat \<Rightarrow> u32 \<Rightarrow> bytes \<Rightarrow> bytes list option" where
  "packresponse_multi 0 session msg = Some []"
| "packresponse_multi (Suc part) session msg =
     (let more = length msg > MULTI_PART; s = (if more then MULTI_PART else length msg) in do {
        h \<leftarrow> fill_header (s + 5);
        buf \<leftarrow> in_buf (h @ fill_uint32 session @ [if more then 3 else 4] @ take s msg);
        rest \<leftarrow> packresponse_multi part session (drop s msg);
        Some (buf # rest)
      })"

definition lpackresponse :: "int \<Rightarrow> bool \<Rightarrow> bytes \<Rightarrow> response option" where
  "lpackresponse session0 ok msg0 =
     (let session = word_of_int session0 :: u32;
          msg = (if \<not> ok \<and> length msg0 > MULTI_PART then take MULTI_PART msg0 else msg0)
      in if ok \<and> length msg > MULTI_PART then do {
           h \<leftarrow> fill_header 9;
           buf \<leftarrow> in_buf (h @ fill_uint32 session @ [2] @ fill_uint32 (of_nat (length msg)));
           parts \<leftarrow> packresponse_multi ((length msg - 1) div MULTI_PART + 1) session msg;
           Some (Resp_Table (buf # parts))
         } else do {
           h \<leftarrow> fill_header (length msg + 5);
           buf \<leftarrow> in_buf (h @ fill_uint32 session @ [of_bool ok] @ msg);
           Some (Resp_One buf)
         })"

definition lunpackresponse :: "bytes \<Rightarrow> cl_value list option" where
  "lunpackresponse buf =
     (if length buf < 5 then Some []
      else do {
        session \<leftarrow> unpack_uint32 buf 0;
        let t = buf ! 4;
        if t = 0 then Some [CV_Int (uint session), CV_Bool False, CV_Str (drop 5 buf)]
        else if t = 1 \<or> t = 4 then Some [CV_Int (uint session), CV_Bool True, CV_Str (drop 5 buf)]
        else if t = 2 then
          (if length buf \<noteq> 9 then Some []
           else do {
             sz \<leftarrow> unpack_uint32 buf 5;
             Some [CV_Int (uint session), CV_Bool True, CV_Int (uint sz), CV_Bool True]
           })
        else if t = 3 then Some [CV_Int (uint session), CV_Bool True, CV_Str (drop 5 buf), CV_Bool True]
        else Some []
      })"

text \<open>
  \<open>lconcat\<close> on a table with the values \<open>tbl\<close> at 1, 2 and so on: no result, or the buffer of \<open>sz\<close> bytes.  The size
  is an \<open>int\<close>; as the argument of \<open>skynet_malloc\<close> a negative one is a size that cannot be allocated.
\<close>

fun concat_loop :: "cl_value list \<Rightarrow> nat \<Rightarrow> bytes \<Rightarrow> bytes option" where
  "concat_loop (CV_Str str # tbl) sz buff = (if length str + length buff > sz then None else concat_loop tbl sz (buff @ str))"
| "concat_loop tbl sz buff = (if length buff \<noteq> sz then None else Some buff)"

definition lconcat :: "cl_value list \<Rightarrow> bytes option option" where
  "lconcat tbl =
     (case tbl of
        CV_Int n # rest \<Rightarrow>
          let sz = sint (word_of_int n :: u32) in
          if sz < 0 then None else Some (concat_loop rest (nat sz) [])
      | _ \<Rightarrow> Some None)"

section \<open>The requests that arrive\<close>

text \<open>
  The part of \<open>command.socket\<close> of \<open>clusterd.lua\<close> that puts requests together: \<open>large_request\<close> is a table from
  sessions to the address and the values so far; a request that is complete goes on with its address, its session
  and its message (none, when \<open>concat\<close> fails).
\<close>

type_synonym large_requests = "int \<rightharpoonup> cl_value \<times> cl_value list"

definition truthy :: "cl_value \<Rightarrow> bool" where
  "truthy v \<longleftrightarrow> v \<noteq> CV_Nil \<and> v \<noteq> CV_Bool False"

definition value_at :: "cl_value list \<Rightarrow> nat \<Rightarrow> cl_value" where
  "value_at vs i = (if i < length vs then vs ! i else CV_Nil)"

definition clusterd_data :: "cl_value list \<Rightarrow> large_requests \<Rightarrow> ((cl_value \<times> cl_value \<times> bytes option) option \<times> large_requests) option" where
  "clusterd_data vs large =
     (let addr = value_at vs 0; session = value_at vs 1; msg = value_at vs 2; padding = value_at vs 3;
          key = (case session of CV_Int s \<Rightarrow> s | _ \<Rightarrow> 0);
          req = large key
      in if truthy padding then
           Some (None, large(key \<mapsto> (case req of None \<Rightarrow> (addr, [msg]) | Some (a, ms) \<Rightarrow> (a, ms @ [msg]))))
         else case req of
           None \<Rightarrow> Some (Some (addr, session, case msg of CV_Str m \<Rightarrow> Some m | _ \<Rightarrow> None), large)
         | Some (a, ms) \<Rightarrow> map_option (\<lambda>m. (Some (a, session, m), large(key := None))) (lconcat (ms @ [msg])))"

text \<open>The packets of a stream, one after the other: the requests that go on.  \<open>unpackrequest\<close> may raise an error.\<close>

fun clusterd_run :: "bytes list \<Rightarrow> large_requests \<Rightarrow> ((cl_value \<times> cl_value \<times> bytes option) list \<times> large_requests) lua option" where
  "clusterd_run [] large = Some (Inr ([], large))"
| "clusterd_run (p # ps) large =
     (case lunpackrequest p of
        None \<Rightarrow> None
      | Some (Inl e) \<Rightarrow> Some (Inl e)
      | Some (Inr vs) \<Rightarrow>
          (case clusterd_data vs large of
             None \<Rightarrow> None
           | Some (r, large') \<Rightarrow> map_option (map_sum id (\<lambda>(rs, l). ((case r of None \<Rightarrow> [] | Some x \<Rightarrow> [x]) @ rs, l))) (clusterd_run ps large')))"

end
