(* ===== verification/ClusterLink.thy ===== *)
theory ClusterLink
  imports Cluster "HOL-Library.Multiset"
begin

text \<open>
  Requests and responses of \<open>lualib-src/lua-cluster.c\<close> arrive as they were sent: whatever their size, and however the
  packets of different requests are mixed on a connection.
\<close>

section \<open>Parts\<close>

lemma multi_part_bounds: "0 < MULTI_PART" "MULTI_PART + 5 < 65536" "MULTI_PART + 7 + 256 \<le> TEMP_LENGTH" "1 < MULTI_PART"
  by (simp_all add: MULTI_PART_def TEMP_LENGTH_def)

function chunks :: "bytes \<Rightarrow> bytes list" where
  "chunks m = (if length m > MULTI_PART then take MULTI_PART m # chunks (drop MULTI_PART m) else [m])"
  by pat_completeness auto
termination by (relation "measure length") (use multi_part_bounds(1) in auto)

declare chunks.simps [simp del]

lemma concat_chunks: "concat (chunks m) = m"
proof (induction m rule: chunks.induct)
  case (1 m)
  then show ?case by (subst chunks.simps) simp
qed

lemma chunks_not_Nil [simp]: "chunks m \<noteq> []"
  by (subst chunks.simps) simp

lemma length_chunks: "length (chunks m) = (length m - 1) div MULTI_PART + 1"
proof (induction m rule: chunks.induct)
  case (1 m)
  show ?case
  proof (cases "length m > MULTI_PART")
    case True
    have "(length m - 1) div MULTI_PART = (length m - 1 - MULTI_PART) div MULTI_PART + 1"
      using True multi_part_bounds(1) by (simp add: le_div_geq)
    moreover have "length m - MULTI_PART - 1 = length m - 1 - MULTI_PART" by simp
    ultimately show ?thesis using 1 [OF True] True by (subst chunks.simps) simp
  next
    case False
    then have "length m - 1 < MULTI_PART" using multi_part_bounds(1) by linarith
    then show ?thesis using False by (subst chunks.simps) simp
  qed
qed

text \<open>The parts of a large message: all but the last have a mark that more follow.\<close>

definition part_payloads :: "(bytes \<Rightarrow> bytes) \<Rightarrow> (bytes \<Rightarrow> bytes) \<Rightarrow> bytes \<Rightarrow> bytes list" where
  "part_payloads md fin m = map md (butlast (chunks m)) @ [fin (List.last (chunks m))]"

lemma part_payloads_rec:
  "part_payloads md fin m = (if length m > MULTI_PART then md (take MULTI_PART m) # part_payloads md fin (drop MULTI_PART m) else [fin m])"
  by (simp add: part_payloads_def chunks.simps [of m])

section \<open>What is sent\<close>

type_synonym cluster_request = "cluster_addr \<times> int \<times> bytes"

definition addr_ok :: "cluster_addr \<Rightarrow> bool" where
  "addr_ok a \<longleftrightarrow> (case a of Addr_Number n \<Rightarrow> True | Addr_Name name \<Rightarrow> 1 \<le> length name \<and> length name \<le> 255 | Addr_Other \<Rightarrow> False)"

fun request_ok :: "cluster_request \<Rightarrow> bool" where
  "request_ok (a, s, m) \<longleftrightarrow> addr_ok a \<and> 0 < s \<and> s < 2 ^ 31 \<and> length m < 2 ^ 31"

definition session32 :: "int \<Rightarrow> u32" where
  "session32 s = word_of_int s"

text \<open>The front of the first packet, whose kind is \<open>t\<close> for a number and \<open>t + 0x80\<close> for a name.\<close>

definition front :: "u8 \<Rightarrow> cluster_addr \<Rightarrow> int \<Rightarrow> bytes" where
  "front t a s = (case a of
       Addr_Number n \<Rightarrow> t # fill_uint32 n @ fill_uint32 (session32 s)
     | Addr_Name name \<Rightarrow> (t + 0x80) # of_nat (length name) # name @ fill_uint32 (session32 s)
     | Addr_Other \<Rightarrow> [])"

fun payloads :: "cluster_request \<Rightarrow> bytes list" where
  "payloads (a, s, m) =
     (if length m < MULTI_PART then [front 0 a s @ m]
      else (front 1 a s @ fill_uint32 (of_nat (length m))) #
        part_payloads (\<lambda>c. 2 # fill_uint32 (session32 s) @ c) (\<lambda>c. 3 # fill_uint32 (session32 s) @ c) m)"

text \<open>The packets of a request, as \<open>packrequest\<close> makes them.\<close>

definition sent :: "cluster_request \<Rightarrow> bytes list option" where
  "sent r = (case r of (a, s, m) \<Rightarrow>
     (case lpackrequest a s (Some m) of
        Some (Inr (buf, next, parts), freed) \<Rightarrow> Some (buf # (case parts of None \<Rightarrow> [] | Some ps \<Rightarrow> ps))
      | _ \<Rightarrow> None))"

lemma fill_header_lpack:
  assumes "length p < 65536" "n = length p"
  shows "\<exists>h. fill_header n = Some h \<and> length h = 2 \<and> lpack p = Inr (h @ p)"
  using assms read_write_size(1) [of "length p"] by (simp add: fill_header_def lpack_def)

lemma in_buf_ok: "length bs \<le> TEMP_LENGTH \<Longrightarrow> in_buf bs = Some bs"
  by (simp add: in_buf_def)

lemma length_fill_uint32 [simp]: "length (fill_uint32 n) = 4"
  by (simp add: fill_uint32_def)

lemma packet_ok:
  assumes "length p + 2 \<le> TEMP_LENGTH" "n = length p"
  shows "\<exists>h. fill_header n = Some h \<and> in_buf (h @ p) = Some (h @ p) \<and> lpack p = Inr (h @ p)"
proof -
  have "length p < 65536" using assms(1) by (simp add: TEMP_LENGTH_def)
  from fill_header_lpack [OF this assms(2)] show ?thesis using assms(1) by (auto simp: in_buf_ok)
qed

lemma packreq_multi_ok:
  "\<exists>ws. packreq_multi (length (chunks m)) s m = Some ws \<and>
    list_all2 (\<lambda>p w. lpack p = Inr w) (part_payloads (\<lambda>c. 2 # fill_uint32 s @ c) (\<lambda>c. 3 # fill_uint32 s @ c) m) ws"
proof (induction m rule: chunks.induct)
  case (1 m)
  show ?case
  proof (cases "length m > MULTI_PART")
    case True
    let ?p = "2 # fill_uint32 s @ take MULTI_PART m"
    obtain h where h: "fill_header (MULTI_PART + 5) = Some h" "in_buf (h @ ?p) = Some (h @ ?p)" "lpack ?p = Inr (h @ ?p)"
      using packet_ok [of ?p "MULTI_PART + 5"] True multi_part_bounds by auto
    obtain ws where "packreq_multi (length (chunks (drop MULTI_PART m))) s (drop MULTI_PART m) = Some ws"
      "list_all2 (\<lambda>p w. lpack p = Inr w) (part_payloads (\<lambda>c. 2 # fill_uint32 s @ c) (\<lambda>c. 3 # fill_uint32 s @ c) (drop MULTI_PART m)) ws"
      using 1 [OF True] by blast
    then show ?thesis using True h by (simp add: chunks.simps [of m] part_payloads_rec [of _ _ m] Let_def)
  next
    case False
    let ?p = "3 # fill_uint32 s @ m"
    obtain h where h: "fill_header (length m + 5) = Some h" "in_buf (h @ ?p) = Some (h @ ?p)" "lpack ?p = Inr (h @ ?p)"
      using packet_ok [of ?p "length m + 5"] False multi_part_bounds by auto
    then show ?thesis using False by (simp add: chunks.simps [of m] part_payloads_rec [of _ _ m] Let_def)
  qed
qed

lemma sent_ok:
  assumes "request_ok r"
  shows "\<exists>ws. sent r = Some ws \<and> list_all2 (\<lambda>p w. lpack p = Inr w) (payloads r) ws"
proof -
  obtain a s m where r: "r = (a, s, m)" by (cases r)
  then have a: "addr_ok a" and s: "0 < s" "s < 2 ^ 31" and m: "length m < 2 ^ 31" using assms by simp_all
  have sint: "sint (word_of_int s :: u32) = s" using s by (simp add: sint_sbintrunc' signed_take_bit_int_eq_self)
  note bounds = multi_part_bounds
  have first: "\<exists>h. fill_header (length (front t a s @ x)) = Some h \<and> in_buf (h @ front t a s @ x) = Some (h @ front t a s @ x) \<and> lpack (front t a s @ x) = Inr (h @ front t a s @ x)"
    if "length x < MULTI_PART" for t x
    by (rule packet_ok) (use that a bounds in \<open>auto simp: front_def addr_ok_def split: cluster_addr.splits\<close>)
  show ?thesis
  proof (cases "length m < MULTI_PART")
    case True
    obtain h where h: "fill_header (length (front 0 a s @ m)) = Some h" "in_buf (h @ front 0 a s @ m) = Some (h @ front 0 a s @ m)"
      "lpack (front 0 a s @ m) = Inr (h @ front 0 a s @ m)" using first [OF True] by blast
    show ?thesis
    proof (cases a)
      case (Addr_Number n)
      have "length (front 0 a s @ m) = length m + 9" by (simp add: Addr_Number front_def)
      note h1 = h(1) [unfolded this]
      have "packreq_number n (session32 s) m = Some (h @ front 0 a s @ m, 0)"
        using True h1 h(2) by (simp add: packreq_number_def Addr_Number front_def)
      then show ?thesis using h(3) True s sint
        by (auto simp: r sent_def lpackrequest_def Addr_Number Let_def session32_def)
    next
      case (Addr_Name name)
      have "length (front 0 a s @ m) = length m + 6 + length name" by (simp add: Addr_Name front_def)
      note h1 = h(1) [unfolded this]
      have "packreq_string name (session32 s) m = Some (h @ front 0 a s @ m, 0)"
        using True h1 h(2) by (simp add: packreq_string_def Addr_Name front_def)
      then show ?thesis using h(3) True s sint a
        by (auto simp: r sent_def lpackrequest_def Addr_Name Let_def session32_def addr_ok_def)
    qed (use a in \<open>simp add: addr_ok_def\<close>)
  next
    case False
    let ?x = "fill_uint32 (of_nat (length m))"
    have "length ?x < MULTI_PART" by (simp add: MULTI_PART_def)
    from first [OF this] obtain h where h: "fill_header (length (front 1 a s @ ?x)) = Some h" "in_buf (h @ front 1 a s @ ?x) = Some (h @ front 1 a s @ ?x)"
      "lpack (front 1 a s @ ?x) = Inr (h @ front 1 a s @ ?x)" by blast
    obtain ws where ws: "packreq_multi (length (chunks m)) (session32 s) m = Some ws"
      "list_all2 (\<lambda>p w. lpack p = Inr w) (part_payloads (\<lambda>c. 2 # fill_uint32 (session32 s) @ c) (\<lambda>c. 3 # fill_uint32 (session32 s) @ c) m) ws"
      using packreq_multi_ok by blast
    show ?thesis
    proof (cases a)
      case (Addr_Number n)
      have "length (front 1 a s @ ?x) = 13" by (simp add: Addr_Number front_def)
      note h1 = h(1) [unfolded this]
      have "packreq_number n (session32 s) m = Some (h @ front 1 a s @ ?x, length (chunks m))"
        using False h1 h(2) by (simp add: packreq_number_def Addr_Number front_def length_chunks)
      then show ?thesis using h(3) ws False s sint
        by (auto simp: r sent_def lpackrequest_def Addr_Number Let_def session32_def length_chunks)
    next
      case (Addr_Name name)
      have "length (front 1 a s @ ?x) = 10 + length name" by (simp add: Addr_Name front_def)
      note h1 = h(1) [unfolded this]
      have "packreq_string name (session32 s) m = Some (h @ front 1 a s @ ?x, length (chunks m))"
        using False h1 h(2) by (simp add: packreq_string_def Addr_Name front_def length_chunks)
      then show ?thesis using h(3) ws False s sint a
        by (auto simp: r sent_def lpackrequest_def Addr_Name Let_def session32_def addr_ok_def length_chunks)
    qed (use a in \<open>simp add: addr_ok_def\<close>)
  qed
qed

section \<open>What arrives\<close>

lemma unpack_at:
  assumes "length xs = p"
  shows "unpack_uint32 (xs @ fill_uint32 w @ ys) p = Some w"
  using assms le32_of_bytes [of w] by (simp add: unpack_uint32_def fill_uint32_def get_le32_def le32_bytes_def nth_append eval_nat_numeral)

lemma unpack_at0: "unpack_uint32 (fill_uint32 w @ ys) 0 = Some w"
  using unpack_at [of "[]" 0 w ys] by simp

definition addr_value :: "cluster_addr \<Rightarrow> cl_value" where
  "addr_value a = (case a of Addr_Number n \<Rightarrow> CV_Int (uint n) | Addr_Name name \<Rightarrow> CV_Str name | Addr_Other \<Rightarrow> CV_Nil)"

lemma unat_of_nat_small: "n < 2 ^ LENGTH('a) \<Longrightarrow> unat (of_nat n :: 'a :: len word) = n"
  by (simp add: unsigned_of_nat take_bit_nat_eq_self)

lemma uint_session32: "0 < s \<Longrightarrow> s < 2 ^ 31 \<Longrightarrow> uint (session32 s) = s"
  by (simp add: session32_def uint_word_of_int)

text \<open>The packets of a request, unpacked.\<close>

lemma unpack_single:
  assumes "addr_ok a" "0 < s" "s < 2 ^ 31"
  shows "lunpackrequest (front 0 a s @ m) = Some (Inr [addr_value a, CV_Int s, CV_Str m])"
proof (cases a)
  case (Addr_Number n)
  have "unpack_uint32 ([0] @ fill_uint32 n @ fill_uint32 (session32 s) @ m) 1 = Some n"
    "unpack_uint32 (([0] @ fill_uint32 n) @ fill_uint32 (session32 s) @ m) 5 = Some (session32 s)"
    by (rule unpack_at; simp)+
  then show ?thesis using uint_session32 [OF assms(2,3)]
    by (simp add: Addr_Number front_def lunpackrequest_def unpackreq_number_def addr_value_def)
next
  case (Addr_Name name)
  then have len: "unat (of_nat (length name) :: u8) = length name" using assms(1) by (intro unat_of_nat_small) (simp add: addr_ok_def)
  have "unpack_uint32 ((0x80 # of_nat (length name) # name) @ fill_uint32 (session32 s) @ m) (length name + 2) = Some (session32 s)"
    by (rule unpack_at) simp
  moreover have "drop (length name + 6) (0x80 # of_nat (length name) # name @ fill_uint32 (session32 s) @ m) = m"
    by (simp add: eval_nat_numeral fill_uint32_def le32_bytes_def)
  ultimately show ?thesis using uint_session32 [OF assms(2,3)] len
    by (simp add: Addr_Name front_def lunpackrequest_def unpackreq_string_def addr_value_def Let_def)
qed (use assms(1) in \<open>simp add: addr_ok_def\<close>)

lemma unpack_begin:
  assumes "addr_ok a" "0 < s" "s < 2 ^ 31" "n < 2 ^ 31"
  shows "lunpackrequest (front 1 a s @ fill_uint32 (of_nat n)) = Some (Inr [addr_value a, CV_Int s, CV_Int (int n), CV_Bool True])"
proof -
  have n: "uint (of_nat n :: u32) = int n" using unat_of_nat_small [of n, where 'a = 32] assms(4) by (simp add: uint_nat)
  show ?thesis
  proof (cases a)
    case (Addr_Number k)
    have "unpack_uint32 ([1] @ fill_uint32 k @ fill_uint32 (session32 s) @ fill_uint32 (of_nat n)) 1 = Some k"
      "unpack_uint32 (([1] @ fill_uint32 k) @ fill_uint32 (session32 s) @ fill_uint32 (of_nat n)) 5 = Some (session32 s)"
      "unpack_uint32 (([1] @ fill_uint32 k @ fill_uint32 (session32 s)) @ fill_uint32 (of_nat n) @ []) 9 = Some (of_nat n)"
      by (rule unpack_at; simp)+
    then show ?thesis using uint_session32 [OF assms(2,3)] n
      by (simp add: Addr_Number front_def lunpackrequest_def unpackmreq_number_def addr_value_def)
  next
    case (Addr_Name name)
    then have len: "unat (of_nat (length name) :: u8) = length name" using assms(1) by (intro unat_of_nat_small) (simp add: addr_ok_def)
    have "unpack_uint32 ((0x81 # of_nat (length name) # name) @ fill_uint32 (session32 s) @ fill_uint32 (of_nat n)) (length name + 2) = Some (session32 s)"
      "unpack_uint32 ((0x81 # of_nat (length name) # name @ fill_uint32 (session32 s)) @ fill_uint32 (of_nat n) @ []) (length name + 6) = Some (of_nat n)"
      by (rule unpack_at; simp)+
    then show ?thesis using uint_session32 [OF assms(2,3)] len n
      by (simp add: Addr_Name front_def lunpackrequest_def unpackmreq_string_def addr_value_def Let_def)
  qed (use assms(1) in \<open>simp add: addr_ok_def\<close>)
qed

lemma unpack_part:
  assumes "0 < s" "s < 2 ^ 31" "t = 2 \<or> t = 3"
  shows "lunpackrequest (t # fill_uint32 (session32 s) @ c) = Some (Inr [CV_Bool False, CV_Int s, CV_Str c, CV_Bool (t = 2)])"
proof -
  have "unpack_uint32 ([t] @ fill_uint32 (session32 s) @ c) 1 = Some (session32 s)" by (rule unpack_at) simp
  then show ?thesis using uint_session32 [OF assms(1,2)] assms(3) by (auto simp: lunpackrequest_def unpackmreq_part_def)
qed

text \<open>The table of a request grows to its values: its size and its parts, which \<open>concat\<close> puts together.\<close>

fun parts_values :: "cluster_request \<Rightarrow> cl_value list" where
  "parts_values (a, s, m) = CV_Int (int (length m)) # map CV_Str (chunks m)"

lemma concat_loop_chunks:
  assumes "length (buff @ concat cs) = sz"
  shows "concat_loop (map CV_Str cs) sz buff = Some (buff @ concat cs)"
  using assms by (induction cs arbitrary: buff) simp_all

lemma lconcat_values:
  assumes "length m < 2 ^ 31"
  shows "lconcat (parts_values (a, s, m)) = Some (Some m)"
proof -
  have "sint (word_of_int (int (length m)) :: u32) = int (length m)"
    using assms unat_of_nat_small [of "length m", where 'a = 32] by (simp add: sint_uint uint_nat signed_take_bit_int_eq_self)
  then show ?thesis using concat_loop_chunks [of "[]" "chunks m" "length m"] by (simp add: lconcat_def concat_chunks)
qed

lemma length_payloads: "length (payloads (a, s, m)) = (if length m < MULTI_PART then 1 else Suc (length (chunks m)))"
  by (simp add: part_payloads_def)

text \<open>The state of a request of whose packets \<open>k\<close> have arrived.\<close>

definition request_state :: "cluster_request \<Rightarrow> nat \<Rightarrow> (cl_value \<times> cl_value list) option" where
  "request_state r k = (case r of (a, s, m) \<Rightarrow> if 0 < k \<and> k < length (payloads r) then Some (addr_value a, take k (parts_values r)) else None)"

definition arrival :: "cluster_request \<Rightarrow> cl_value \<times> cl_value \<times> bytes option" where
  "arrival r = (case r of (a, s, m) \<Rightarrow> (addr_value a, CV_Int s, Some m))"

definition session_of :: "cluster_request \<Rightarrow> int" where
  "session_of r = fst (snd r)"

lemma session_of_simp [simp]: "session_of (a, s, m) = s"
  by (simp add: session_of_def)

lemma packet_step:
  assumes "request_ok r" "k < length (payloads r)" "large (session_of r) = request_state r k"
  shows "\<exists>vs. lunpackrequest (payloads r ! k) = Some (Inr vs) \<and>
    clusterd_data vs large = Some (if Suc k = length (payloads r) then Some (arrival r) else None, large(session_of r := request_state r (Suc k)))"
proof -
  obtain a s m where r: "r = (a, s, m)" by (cases r)
  have ok: "addr_ok a" "0 < s" "s < 2 ^ 31" "length m < 2 ^ 31" using assms(1) by (simp_all add: r)
  have key: "session_of r = s" by (simp add: r)
  show ?thesis
  proof (cases "length m < MULTI_PART")
    case True
    then have k: "k = 0" using assms(2) by (simp add: r)
    have "large(s := None) = large" using assms(3) k by (auto simp: request_state_def r)
    then show ?thesis using assms(3) k True unpack_single [OF ok(1-3), of m]
      by (simp add: r key request_state_def clusterd_data_def value_at_def truthy_def arrival_def)
  next
    case multi: False
    let ?n = "length (chunks m)"
    have n: "length (payloads r) = Suc ?n" "0 < ?n" using multi by (simp_all add: r part_payloads_def length_chunks)
    show ?thesis
    proof (cases k)
      case 0
      then show ?thesis using assms(3) multi unpack_begin [OF ok] n
        by (simp add: r key request_state_def clusterd_data_def value_at_def truthy_def)
    next
      case (Suc j)
      then have j: "j < ?n" using assms(2) n by simp
      let ?t = "if Suc j = ?n then 3 else 2 :: u8"
      have p: "payloads r ! k = ?t # fill_uint32 (session32 s) @ (chunks m ! j)"
      proof (cases "Suc j = ?n")
        case True
        then have "j = ?n - 1" by simp
        then show ?thesis using multi Suc True by (simp add: r part_payloads_def nth_append last_conv_nth)
      next
        case False
        then have "j < ?n - 1" using j by simp
        then show ?thesis using multi Suc False by (simp add: r part_payloads_def nth_append nth_butlast)
      qed
      have un: "lunpackrequest (payloads r ! k) = Some (Inr [CV_Bool False, CV_Int s, CV_Str (chunks m ! j), CV_Bool (?t = 2)])"
        unfolding p by (rule unpack_part) (use ok in auto)
      have state: "large s = Some (addr_value a, take k (parts_values r))" using assms(3) Suc n j by (simp add: key request_state_def r)
      have grow: "take k (parts_values r) @ [CV_Str (chunks m ! j)] = take (Suc k) (parts_values r)"
        using j Suc by (simp add: r take_Suc_conv_app_nth)
      show ?thesis
      proof (cases "Suc j = ?n")
        case True
        then have "take (Suc k) (parts_values r) = parts_values r" using Suc by (simp add: r)
        then show ?thesis using un state True Suc n lconcat_values [OF ok(4), of a s] grow
          by (simp add: key clusterd_data_def value_at_def truthy_def request_state_def arrival_def r)
      next
        case False
        then show ?thesis using un state Suc n grow j
          by (simp add: key clusterd_data_def value_at_def truthy_def request_state_def r)
      qed
    qed
  qed
qed

section \<open>Requests on one connection\<close>

text \<open>
  A mix of the packets of several requests: each packet with the number of its request; those of one request are in
  their order.
\<close>

definition mix_of :: "'a list list \<Rightarrow> (nat \<times> 'a) list \<Rightarrow> bool" where
  "mix_of xss ys \<longleftrightarrow> (\<forall>(i, y) \<in> set ys. i < length xss) \<and> (\<forall>i < length xss. map snd (filter (\<lambda>y. fst y = i) ys) = xss ! i)"

definition rest_of :: "cluster_request list \<Rightarrow> (nat \<Rightarrow> nat) \<Rightarrow> (nat \<times> bytes) list \<Rightarrow> bool" where
  "rest_of rs k ys \<longleftrightarrow> (\<forall>(i, y) \<in> set ys. i < length rs) \<and>
     (\<forall>i < length rs. k i \<le> length (payloads (rs ! i)) \<and> map snd (filter (\<lambda>y. fst y = i) ys) = drop (k i) (payloads (rs ! i)))"

definition large_ok :: "cluster_request list \<Rightarrow> (nat \<Rightarrow> nat) \<Rightarrow> large_requests \<Rightarrow> bool" where
  "large_ok rs k large \<longleftrightarrow> (\<forall>i < length rs. large (session_of (rs ! i)) = request_state (rs ! i) (k i)) \<and>
     (\<forall>s. s \<notin> session_of ` set rs \<longrightarrow> large s = None)"

definition open_requests :: "cluster_request list \<Rightarrow> (nat \<Rightarrow> nat) \<Rightarrow> nat set" where
  "open_requests rs k = {i. i < length rs \<and> k i < length (payloads (rs ! i))}"

lemma request_state_done [simp]: "request_state r (length (payloads r)) = None"
  by (simp add: request_state_def split: prod.splits)

lemma finite_open [simp]: "finite (open_requests rs k)"
  by (simp add: open_requests_def)

lemma socket_run_mix:
  assumes "list_all request_ok rs" "distinct (map session_of rs)" "rest_of rs k ys" "large_ok rs k large"
  shows "\<exists>out. clusterd_run (map snd ys) large = Some (Inr (out, Map.empty)) \<and>
    mset out = image_mset (\<lambda>i. arrival (rs ! i)) (mset_set (open_requests rs k))"
  using assms(3,4)
proof (induction ys arbitrary: k large)
  case Nil
  then have done_all: "k i = length (payloads (rs ! i))" if "i < length rs" for i
    using that by (auto simp: rest_of_def intro: le_antisym)
  have "large s = None" for s
  proof (cases "s \<in> session_of ` set rs")
    case True
    then obtain i where "i < length rs" "s = session_of (rs ! i)" by (auto simp: in_set_conv_nth)
    then show ?thesis using Nil.prems(2) done_all by (simp add: large_ok_def)
  qed (use Nil.prems(2) in \<open>simp add: large_ok_def\<close>)
  then have "large = Map.empty" by (rule ext)
  moreover have "open_requests rs k = {}" using done_all by (simp add: open_requests_def)
  ultimately show ?case by simp
next
  case (Cons y ys)
  obtain i p where y: "y = (i, p)" by (cases y)
  let ?r = "rs ! i" and ?n = "length (payloads (rs ! i))"
  have i: "i < length rs" and fits: "k i \<le> ?n" and all: "p # map snd (filter (\<lambda>y. fst y = i) ys) = drop (k i) (payloads ?r)"
    using Cons.prems(1) by (auto simp: rest_of_def y)
  then have k: "k i < ?n" by (cases "k i < ?n") auto
  then have p: "p = payloads ?r ! k i" and rest_i: "map snd (filter (\<lambda>y. fst y = i) ys) = drop (Suc (k i)) (payloads ?r)"
    by (metis Cons_nth_drop_Suc all list.inject)+
  have r: "request_ok ?r" using assms(1) i by (simp add: list_all_length)
  have state: "large (session_of ?r) = request_state ?r (k i)" using Cons.prems(2) i by (simp add: large_ok_def)
  let ?k = "k(i := Suc (k i))" and ?large = "large(session_of ?r := request_state ?r (Suc (k i)))"
  obtain vs where vs: "lunpackrequest p = Some (Inr vs)"
    "clusterd_data vs large = Some (if Suc (k i) = ?n then Some (arrival ?r) else None, ?large)"
    using packet_step [where large = large, OF r k state] by (auto simp: p)
  have "rest_of rs ?k ys"
    using Cons.prems(1) rest_i k by (auto simp: rest_of_def y)
  moreover have "large_ok rs ?k ?large"
  proof -
    have other: "session_of (rs ! j) \<noteq> session_of ?r" if "j < length rs" "j \<noteq> i" for j
      using assms(2) that i by (simp add: distinct_conv_nth)
    have "session_of ?r \<in> session_of ` set rs" using i by simp
    then show ?thesis using Cons.prems(2) other by (auto simp: large_ok_def)
  qed
  ultimately obtain out where out: "clusterd_run (map snd ys) ?large = Some (Inr (out, Map.empty))"
    "mset out = image_mset (\<lambda>i. arrival (rs ! i)) (mset_set (open_requests rs ?k))"
    using Cons.IH by blast
  have "open_requests rs k = (if Suc (k i) = ?n then insert i (open_requests rs ?k) else open_requests rs ?k)"
    "Suc (k i) = ?n \<Longrightarrow> i \<notin> open_requests rs ?k"
    using i k by (auto simp: open_requests_def)
  then show ?case using vs out by (simp add: y)
qed

lemma split_frames_lpacked:
  assumes "list_all2 (\<lambda>p w. lpack p = Inr w) ps ws"
  shows "split_frames (concat ws) = (ps, [])"
  using assms by (induction rule: list_all2_induct) (simp_all add: split_frames_lpack)

text \<open>C9. Requests between the nodes of a cluster arrive whole.  Take any requests with different sessions, to numbers or
  names, of any size below 2 GB; pack each one with \<open>packrequest\<close>, which never fails an assertion or leaves its
  buffer; and send their packets over one connection, those of different requests mixed in any way.  Cut at the
  headers as \<open>netpack\<close> does, unpacked and put together as \<open>clusterd\<close> does, the stream gives each request once, with its
  address, its session and its bytes, and nothing is left over.
\<close>

theorem cluster_requests_arrive:
  assumes "list_all request_ok rs" "distinct (map session_of rs)" "those (map sent rs) = Some wss" "mix_of wss ws"
  shows "\<exists>ps out. split_frames (concat (map snd ws)) = (ps, []) \<and> clusterd_run ps Map.empty = Some (Inr (out, Map.empty)) \<and>
    mset out = mset (map arrival rs)"
proof -
  have wss: "list_all2 (\<lambda>r ws. sent r = Some ws) rs wss"
    using assms(3) by (induction rs arbitrary: wss) (auto split: option.splits)
  then have len: "length wss = length rs" by (simp add: list_all2_lengthD)
  have each: "list_all2 (\<lambda>p w. lpack p = Inr w) (payloads (rs ! i)) (wss ! i)" if "i < length rs" for i
    using sent_ok [of "rs ! i"] assms(1) wss that by (auto simp: list_all_length list_all2_conv_all_nth)
  define unpack where "unpack w = (SOME p. lpack p = Inr w)" for w
  have inj: "p = q" if "lpack p = Inr w" "lpack q = Inr w" for p q w
    using that split_frames_lpack [of p w "[]"] split_frames_lpack [of q w "[]"] by simp
  then have un: "unpack w = p" if "lpack p = Inr w" for p w
    using that unfolding unpack_def by (metis (mono_tags, lifting) someI)
  have packed: "map unpack (wss ! i) = payloads (rs ! i) \<and> (\<forall>w \<in> set (wss ! i). lpack (unpack w) = Inr w)" if "i < length rs" for i
    using each [OF that]
  proof (induction rule: list_all2_induct)
    case (Cons p ps w ws)
    then show ?case using un [OF Cons.hyps(1)] by simp
  qed simp
  let ?ys = "map (\<lambda>(i, w). (i, unpack w)) ws"
  have all: "\<forall>(i, w) \<in> set ws. i < length rs \<and> w \<in> set (wss ! i)"
  proof clarify
    fix i w assume iw: "(i, w) \<in> set ws"
    then have i: "i < length rs" using assms(4) by (auto simp: mix_of_def len)
    have "w \<in> snd ` set (filter (\<lambda>y. fst y = i) ws)" using iw by (auto intro: image_eqI [of _ _ "(i, w)"])
    then have "w \<in> set (map snd (filter (\<lambda>y. fst y = i) ws))" by simp
    also have "map snd (filter (\<lambda>y. fst y = i) ws) = wss ! i" using assms(4) i by (simp add: mix_of_def len)
    finally show "i < length rs \<and> w \<in> set (wss ! i)" using i by simp
  qed
  have filter: "map snd (filter (\<lambda>y. fst y = i) ?ys) = map unpack (map snd (filter (\<lambda>y. fst y = i) ws))" for i
    by (induction ws) auto
  have "rest_of rs (\<lambda>_. 0) ?ys" unfolding rest_of_def filter
    using assms(4) packed by (auto simp: mix_of_def len)
  moreover have "large_ok rs (\<lambda>_. 0) Map.empty" by (auto simp: large_ok_def request_state_def split: prod.splits)
  ultimately obtain out where out: "clusterd_run (map snd ?ys) Map.empty = Some (Inr (out, Map.empty))"
    "mset out = image_mset (\<lambda>i. arrival (rs ! i)) (mset_set (open_requests rs (\<lambda>_. 0)))"
    using socket_run_mix [OF assms(1,2)] by blast
  have "payloads r \<noteq> []" for r by (cases r) auto
  then have "open_requests rs (\<lambda>_. 0) = {0..<length rs}" by (auto simp: open_requests_def)
  moreover have "image_mset (\<lambda>i. arrival (rs ! i)) (mset_set {0..<length rs}) = mset (map arrival rs)"
  proof -
    have "map arrival rs = map (\<lambda>i. arrival (rs ! i)) [0..<length rs]" by (rule nth_equalityI) simp_all
    then show ?thesis by (simp only: mset_map mset_upt)
  qed
  moreover have "split_frames (concat (map snd ws)) = (map snd ?ys, [])"
    by (rule split_frames_lpacked) (use all packed in \<open>auto simp: list_all2_map1 list_all2_map2 list_all2_same\<close>)
  ultimately show ?thesis using out by auto
qed

definition sample_requests :: "cluster_request list" where
  "sample_requests = [(Addr_Number 7, 1, [65]), (Addr_Name [100, 98], 2, [66, 67])]"

definition sample_packets :: "bytes list list" where
  "sample_packets = [[[0, 10, 0, 7, 0, 0, 0, 1, 0, 0, 0, 65]], [[0, 10, 0x80, 2, 100, 98, 2, 0, 0, 0, 66, 67]]]"

lemma cluster_requests_arrive_witness:
  "\<exists>ps out. split_frames (concat (map snd [(1, sample_packets ! 1 ! 0), (0, sample_packets ! 0 ! 0)])) = (ps, []) \<and>
    clusterd_run ps Map.empty = Some (Inr (out, Map.empty)) \<and>
    mset out = {#(CV_Int 7, CV_Int 1, Some [65]), (CV_Str [100, 98], CV_Int 2, Some [66, 67])#}"
proof -
  have ok: "list_all request_ok sample_requests" "distinct (map session_of sample_requests)"
    by (simp_all add: sample_requests_def addr_ok_def)
  have sent: "those (map sent sample_requests) = Some sample_packets"
    by (simp add: sent_def sample_requests_def sample_packets_def lpackrequest_def packreq_number_def packreq_string_def MULTI_PART_def
        fill_header_def in_buf_def TEMP_LENGTH_def fill_uint32_def le32_bytes_def byte_of_def Let_def following_session_def)
  have "mix_of sample_packets [(1, sample_packets ! 1 ! 0), (0, sample_packets ! 0 ! 0)]"
    by (auto simp: mix_of_def sample_packets_def less_Suc_eq)
  from cluster_requests_arrive [OF ok sent this] show ?thesis
    by (simp add: sample_requests_def arrival_def addr_value_def add_mset_commute)
qed

section \<open>Responses\<close>

lemma packresponse_multi_ok:
  "\<exists>ws. packresponse_multi (length (chunks m)) s m = Some ws \<and>
    list_all2 (\<lambda>p w. lpack p = Inr w) (part_payloads (\<lambda>c. fill_uint32 s @ 3 # c) (\<lambda>c. fill_uint32 s @ 4 # c) m) ws"
proof (induction m rule: chunks.induct)
  case (1 m)
  show ?case
  proof (cases "length m > MULTI_PART")
    case True
    let ?p = "fill_uint32 s @ 3 # take MULTI_PART m"
    obtain h where h: "fill_header (MULTI_PART + 5) = Some h" "in_buf (h @ ?p) = Some (h @ ?p)" "lpack ?p = Inr (h @ ?p)"
      using packet_ok [of ?p "MULTI_PART + 5"] True multi_part_bounds by auto
    obtain ws where "packresponse_multi (length (chunks (drop MULTI_PART m))) s (drop MULTI_PART m) = Some ws"
      "list_all2 (\<lambda>p w. lpack p = Inr w) (part_payloads (\<lambda>c. fill_uint32 s @ 3 # c) (\<lambda>c. fill_uint32 s @ 4 # c) (drop MULTI_PART m)) ws"
      using 1 [OF True] by blast
    then show ?thesis using True h by (simp add: chunks.simps [of m] part_payloads_rec [of _ _ m] Let_def)
  next
    case False
    let ?p = "fill_uint32 s @ 4 # m"
    obtain h where h: "fill_header (length m + 5) = Some h" "in_buf (h @ ?p) = Some (h @ ?p)" "lpack ?p = Inr (h @ ?p)"
      using packet_ok [of ?p "length m + 5"] False multi_part_bounds by auto
    then show ?thesis using False by (simp add: chunks.simps [of m] part_payloads_rec [of _ _ m] Let_def)
  qed
qed

lemma unpack_response:
  "lunpackresponse (fill_uint32 s @ 0 # c) = Some [CV_Int (uint s), CV_Bool False, CV_Str c]"
  "t = 1 \<or> t = 4 \<Longrightarrow> lunpackresponse (fill_uint32 s @ t # c) = Some [CV_Int (uint s), CV_Bool True, CV_Str c]"
  "lunpackresponse (fill_uint32 s @ 3 # c) = Some [CV_Int (uint s), CV_Bool True, CV_Str c, CV_Bool True]"
  by (auto simp: lunpackresponse_def unpack_at0 nth_append)

lemma unpack_response_begin:
  assumes "n < 2 ^ 31"
  shows "lunpackresponse (fill_uint32 s @ 2 # fill_uint32 (of_nat n)) = Some [CV_Int (uint s), CV_Bool True, CV_Int (int n), CV_Bool True]"
proof -
  have "uint (of_nat n :: u32) = int n" using unat_of_nat_small [of n, where 'a = 32] assms by (simp add: uint_nat)
  moreover have "unpack_uint32 ((fill_uint32 s @ [2]) @ fill_uint32 (of_nat n) @ []) 5 = Some (of_nat n)" by (rule unpack_at) simp
  ultimately show ?thesis by (simp add: lunpackresponse_def unpack_at0 nth_append)
qed

definition response_packets :: "response \<Rightarrow> bytes list" where
  "response_packets r = (case r of Resp_One b \<Rightarrow> [b] | Resp_Table bs \<Rightarrow> bs)"

text \<open>The values of a response: one message, or a size and parts, all but the last of which say that more follow.\<close>

definition response_values :: "u32 \<Rightarrow> bool \<Rightarrow> bytes \<Rightarrow> cl_value list list" where
  "response_values s ok m =
     (if ok \<and> length m > MULTI_PART then
        [CV_Int (uint s), CV_Bool True, CV_Int (int (length m)), CV_Bool True] #
          map (\<lambda>c. [CV_Int (uint s), CV_Bool True, CV_Str c, CV_Bool True]) (butlast (chunks m)) @
          [[CV_Int (uint s), CV_Bool True, CV_Str (List.last (chunks m))]]
      else [[CV_Int (uint s), CV_Bool ok, CV_Str (take MULTI_PART m)]])"

definition collected :: "cl_value list list \<Rightarrow> bytes option option" where
  "collected vss = (case vss of [vs] \<Rightarrow> (case value_at vs 2 of CV_Str m \<Rightarrow> Some (Some m) | _ \<Rightarrow> None) | _ \<Rightarrow> lconcat (map (\<lambda>vs. value_at vs 2) vss))"

lemma collected_table: "length vss \<noteq> 1 \<Longrightarrow> collected vss = lconcat (map (\<lambda>vs. value_at vs 2) vss)"
  by (auto simp: collected_def split: list.splits)

text \<open>C29. A response to a request, of any size below 2 GB, arrives whole: \<open>packresponse\<close> never fails an assertion or leaves
  its buffer, its packets are cut apart at their headers, and unpacked they give the session, whether the request
  succeeded, and a message that \<open>concat\<close> puts together again; only the message of an error is cut after 32 KB.
\<close>

theorem cluster_response_arrives:
  assumes "length m < 2 ^ 31"
  shows "\<exists>r ps. lpackresponse s ok m = Some r \<and> split_frames (concat (response_packets r)) = (ps, []) \<and>
    map lunpackresponse ps = map Some (response_values (word_of_int s) ok m) \<and>
    collected (response_values (word_of_int s) ok m) = Some (Some (if ok then m else take MULTI_PART m))"
proof -
  let ?s = "word_of_int s :: u32"
  show ?thesis
  proof (cases "ok \<and> length m > MULTI_PART")
    case True
    let ?x = "fill_uint32 ?s @ 2 # fill_uint32 (of_nat (length m))"
    have "length ?x + 2 \<le> TEMP_LENGTH" "9 = length ?x" by (simp_all add: TEMP_LENGTH_def)
    from packet_ok [OF this] obtain h where h: "fill_header 9 = Some h" "in_buf (h @ ?x) = Some (h @ ?x)" "lpack ?x = Inr (h @ ?x)" by auto
    let ?parts = "part_payloads (\<lambda>c. fill_uint32 ?s @ 3 # c) (\<lambda>c. fill_uint32 ?s @ 4 # c) m"
    obtain ws where ws: "packresponse_multi (length (chunks m)) ?s m = Some ws" "list_all2 (\<lambda>p w. lpack p = Inr w) ?parts ws"
      using packresponse_multi_ok by blast
    have "lpackresponse s ok m = Some (Resp_Table ((h @ ?x) # ws))"
      using True h ws by (simp add: lpackresponse_def Let_def length_chunks del: packresponse_multi.simps)
    moreover have "split_frames (concat (response_packets (Resp_Table ((h @ ?x) # ws)))) = (?x # ?parts, [])"
      unfolding response_packets_def response.case by (rule split_frames_lpacked) (use h ws in simp)
    moreover have "map lunpackresponse (?x # ?parts) = map Some (response_values ?s ok m)"
      using True unpack_response_begin [OF assms, of ?s] by (simp add: response_values_def part_payloads_def unpack_response)
    moreover have "collected (response_values ?s ok m) = Some (Some m)"
    proof -
      have "map CV_Str (butlast (chunks m) @ [List.last (chunks m)]) = map CV_Str (chunks m)" by simp
      then have "map CV_Str (butlast (chunks m)) @ [CV_Str (List.last (chunks m))] = map CV_Str (chunks m)" by (simp only: map_append list.map)
      moreover have "map (\<lambda>vs. value_at vs 2) (response_values ?s ok m) =
          CV_Int (int (length m)) # map CV_Str (butlast (chunks m)) @ [CV_Str (List.last (chunks m))]"
        using True by (simp add: response_values_def value_at_def comp_def)
      ultimately have "map (\<lambda>vs. value_at vs 2) (response_values ?s ok m) = parts_values (Addr_Other, 0, m)" by simp
      then have "lconcat (map (\<lambda>vs. value_at vs 2) (response_values ?s ok m)) = Some (Some m)" using lconcat_values [OF assms] by metis
      moreover have "length (response_values ?s ok m) \<noteq> 1" using True by (simp add: response_values_def)
      ultimately show ?thesis by (simp add: collected_table)
    qed
    ultimately show ?thesis using True by auto
  next
    case False
    let ?m = "if ok then m else take MULTI_PART m" and ?t = "of_bool ok :: u8"
    have m: "take MULTI_PART ?m = ?m" "length ?m \<le> MULTI_PART" "take MULTI_PART m = ?m" using False by auto
    let ?x = "fill_uint32 ?s @ ?t # ?m"
    have "length ?x + 2 \<le> TEMP_LENGTH" using m(2) multi_part_bounds by simp
    from packet_ok [OF this] obtain h where h: "fill_header (length ?x) = Some h" "in_buf (h @ ?x) = Some (h @ ?x)" "lpack ?x = Inr (h @ ?x)" by auto
    have len: "length ?x = length ?m + 5" by simp
    have "lpackresponse s ok m = Some (Resp_One (h @ ?x))"
      using False h(2) h(1) [unfolded len] by (auto simp: lpackresponse_def Let_def)
    moreover have "split_frames (concat (response_packets (Resp_One (h @ ?x)))) = ([?x], [])"
      unfolding response_packets_def response.case by (rule split_frames_lpacked) (use h in simp)
    moreover have "map lunpackresponse [?x] = map Some (response_values ?s ok m)"
      using False unpack_response(1) [of ?s] unpack_response(2) [of 1 ?s] m(3) by (cases ok) (simp_all add: response_values_def)
    moreover have "collected (response_values ?s ok m) = Some (Some ?m)"
      using False m(3) by (auto simp: response_values_def collected_def value_at_def)
    ultimately show ?thesis by blast
  qed
qed

lemma cluster_response_arrives_witness:
  "\<exists>r ps. lpackresponse 5 False [110, 111] = Some r \<and> split_frames (concat (response_packets r)) = (ps, []) \<and>
    map lunpackresponse ps = [Some [CV_Int 5, CV_Bool False, CV_Str [110, 111]]]"
  using cluster_response_arrives [of "[110, 111]" 5 False] by (auto simp: response_values_def MULTI_PART_def)

text \<open>
  The size of a large message is 32 bits in a packet and an \<open>int\<close> in \<open>concat\<close>: a peer that announces 2 GB or more makes
  \<open>concat\<close> ask for a buffer of a negative size.
\<close>

lemma announced_size_aborts: "lconcat (CV_Int 0x80000000 # parts) = None"
  by (simp add: lconcat_def)

text \<open>A request of exactly 32 KB is sent in parts, where the comment on the packet format says that it is one packet.\<close>

lemma request_of_32k: "length (payloads (a, s, replicate 0x8000 b)) = 2"
  by (simp add: length_payloads length_chunks MULTI_PART_def del: payloads.simps)

end
